(* ===== verification/Prelude.thy ===== *)
theory Prelude
  imports Main "HOL-Library.Multiset" "HOL-Library.Word"
begin

text \<open>
  Shared vocabulary of the development: the result type of fallible Go functions, the
  collections of rules the component theories add to, array-style updates of lists, and
  the lemmas on lists and sorted lists that several components use.
\<close>

section \<open>Rule collections\<close>

named_theorems heap_simps \<open>rules about the array heap of the Go library\<close>
named_theorems cursor_intros \<open>introduction rules for the searcher contract\<close>
named_theorems bitmap_simps \<open>rules about the elements of a bitmap\<close>

section \<open>Bytes\<close>

type_synonym byte = "8 word"
type_synonym bytes = "byte list"

section \<open>Results of fallible functions\<close>

text \<open>A Go function with results \<open>(v, err)\<close> returns \<open>Inl err\<close> or \<open>Inr v\<close>.\<close>

type_synonym ('e, 'a) result = "'e + 'a"

abbreviation bind_result :: "('e, 'a) result \<Rightarrow> ('a \<Rightarrow> ('e, 'b) result) \<Rightarrow> ('e, 'b) result" where
  "bind_result r f \<equiv> (case r of Inl e \<Rightarrow> Inl e | Inr a \<Rightarrow> f a)"

section \<open>Arrays as lists\<close>

definition swap :: "'a list \<Rightarrow> nat \<Rightarrow> nat \<Rightarrow> 'a list" where
  "swap xs i j = xs[i := xs ! j, j := xs ! i]"

lemma length_swap [simp]: "length (swap xs i j) = length xs"
  by (simp add: swap_def)

lemma nth_swap:
  "i < length xs \<Longrightarrow> j < length xs \<Longrightarrow> k < length xs \<Longrightarrow>
   swap xs i j ! k = (if k = i then xs ! j else if k = j then xs ! i else xs ! k)"
  by (auto simp: swap_def nth_list_update)

lemma mset_swap [simp]: "i < length xs \<Longrightarrow> j < length xs \<Longrightarrow> mset (swap xs i j) = mset xs"
  by (simp add: swap_def Multiset.mset_swap)

lemma set_swap [simp]: "i < length xs \<Longrightarrow> j < length xs \<Longrightarrow> set (swap xs i j) = set xs"
  by (metis mset_swap set_mset_mset)

section \<open>Sorted lists\<close>

text \<open>Two lists with the same elements that are sorted by the same antisymmetric relation are equal.\<close>

lemma sorted_wrt_mset_unique:
  assumes "mset xs = mset ys" and "sorted_wrt R xs" and "sorted_wrt R ys"
    and "\<And>a b. a \<in> set xs \<Longrightarrow> b \<in> set xs \<Longrightarrow> R a b \<Longrightarrow> R b a \<Longrightarrow> a = b"
  shows "xs = ys"
  using assms
proof (induction xs arbitrary: ys)
  case Nil
  then show ?case by simp
next
  case (Cons x xs)
  then obtain y ys' where ys: "ys = y # ys'"
    by (cases ys) auto
  have sets: "set (x # xs) = set (y # ys')"
    using Cons.prems(1) unfolding ys by (metis set_mset_mset)
  have "x = y"
  proof (rule ccontr)
    assume "x \<noteq> y"
    then have "x \<in> set ys'" and "y \<in> set xs"
      using sets by auto
    then have "R y x" and "R x y"
      using Cons.prems(2,3) by (auto simp: ys)
    then show False
      using Cons.prems(4) [of x y] \<open>y \<in> set xs\<close> \<open>x \<noteq> y\<close> by simp
  qed
  moreover have "xs = ys'"
    using Cons.prems Cons.IH [of ys'] by (simp add: ys \<open>x = y\<close>)
  ultimately show ?case by (simp add: ys)
qed

lemma sorted_wrt_snocI:
  "sorted_wrt R xs \<Longrightarrow> (\<And>x. x \<in> set xs \<Longrightarrow> R x y) \<Longrightarrow> sorted_wrt R (xs @ [y])"
  by (auto simp: sorted_wrt_append)

section \<open>Three-way comparisons\<close>

text \<open>
  A comparison returns a negative, zero or positive integer. On a set \<open>S\<close> it is a comparator
  when it is antisymmetric and its \<open>\<le>\<close> is transitive.
\<close>

definition comparator_on :: "'a set \<Rightarrow> ('a \<Rightarrow> 'a \<Rightarrow> int) \<Rightarrow> bool" where
  "comparator_on S c \<longleftrightarrow>
     (\<forall>x\<in>S. \<forall>y\<in>S. c y x = - c x y) \<and>
     (\<forall>x\<in>S. \<forall>y\<in>S. \<forall>z\<in>S. c x y \<le> 0 \<longrightarrow> c y z \<le> 0 \<longrightarrow> c x z \<le> 0)"

lemma comparator_anti:
  assumes "comparator_on S c" "x \<in> S" "y \<in> S"
  shows "c y x = - c x y"
  using assms(1) [unfolded comparator_on_def, THEN conjunct1, rule_format, OF assms(2,3)] .

lemma comparator_trans:
  assumes "comparator_on S c" "x \<in> S" "y \<in> S" "z \<in> S" "c x y \<le> 0" "c y z \<le> 0"
  shows "c x z \<le> 0"
  using assms(1) [unfolded comparator_on_def, THEN conjunct2, rule_format, OF assms(2-6)] .

lemma comparator_onI:
  assumes a: "\<And>x y. x \<in> S \<Longrightarrow> y \<in> S \<Longrightarrow> c y x = - c x y"
    and t: "\<And>x y z. \<lbrakk>x \<in> S; y \<in> S; z \<in> S; c x y \<le> 0; c y z \<le> 0\<rbrakk> \<Longrightarrow> c x z \<le> 0"
  shows "comparator_on S c"
  unfolding comparator_on_def by (intro conjI ballI impI) (erule (1) a, erule (4) t)

text \<open>The second comparison decides where the first sees no difference.\<close>

lemma comparator_then:
  assumes a: "comparator_on S a" and b: "comparator_on S b"
  shows "comparator_on S (\<lambda>x y. if a x y \<noteq> 0 then a x y else b x y)"
proof (rule comparator_onI)
  fix x y assume "x \<in> S" "y \<in> S"
  then show "(if a y x \<noteq> 0 then a y x else b y x) = - (if a x y \<noteq> 0 then a x y else b x y)"
    using comparator_anti [OF a, of x y] comparator_anti [OF b, of x y] by simp
next
  fix x y z
  assume S: "x \<in> S" "y \<in> S" "z \<in> S"
    and 1: "(if a x y \<noteq> 0 then a x y else b x y) \<le> 0" and 2: "(if a y z \<noteq> 0 then a y z else b y z) \<le> 0"
  have le: "a x y \<le> 0" "a y z \<le> 0" using 1 2 by (auto split: if_splits)
  then have xz: "a x z \<le> 0" by (rule comparator_trans [OF a S])
  show "(if a x z \<noteq> 0 then a x z else b x z) \<le> 0"
  proof (cases "a x z = 0")
    case True
    then have zx: "a z x \<le> 0" using comparator_anti [OF a S(1,3)] by linarith
    have "a y x \<le> 0" "a z y \<le> 0"
      using comparator_trans [OF a S(2,3,1) le(2) zx] comparator_trans [OF a S(3,1,2) zx le(1)] .
    then have "a x y = 0" "a y z = 0"
      using le comparator_anti [OF a S(1,2)] comparator_anti [OF a S(2,3)] by linarith+
    then have "b x y \<le> 0" "b y z \<le> 0" using 1 2 by simp_all
    then have "b x z \<le> 0" by (rule comparator_trans [OF b S])
    then show ?thesis using True by simp
  qed (use xz in simp)
qed

lemma comparator_cong:
  assumes c: "comparator_on S c" and eq: "\<And>x y. x \<in> S \<Longrightarrow> y \<in> S \<Longrightarrow> c' x y = c x y"
  shows "comparator_on S c'"
proof (rule comparator_onI)
  fix x y assume S: "x \<in> S" "y \<in> S"
  show "c' y x = - c' x y" unfolding eq [OF S] eq [OF S(2,1)] by (rule comparator_anti [OF c S])
next
  fix x y z assume S: "x \<in> S" "y \<in> S" "z \<in> S" and le: "c' x y \<le> 0" "c' y z \<le> 0"
  from le show "c' x z \<le> 0"
    unfolding eq [OF S(1,2)] eq [OF S(2,3)] eq [OF S(1,3)] by (rule comparator_trans [OF c S])
qed

lemma comparator_neg:
  assumes c: "comparator_on S c"
  shows "comparator_on S (\<lambda>x y. - c x y)"
proof (rule comparator_onI)
  fix x y z assume S: "x \<in> S" "y \<in> S" "z \<in> S" and le: "- c x y \<le> 0" "- c y z \<le> 0"
  have "c y x \<le> 0" "c z y \<le> 0" using comparator_anti [OF c S(1,2)] comparator_anti [OF c S(2,3)] le by linarith+
  then have "c z x \<le> 0" using comparator_trans [OF c S(3,2,1)] by simp
  then show "- c x z \<le> 0" using comparator_anti [OF c S(1,3)] by linarith
next
  fix x y assume S: "x \<in> S" "y \<in> S"
  show "- c y x = - (- c x y)" unfolding comparator_anti [OF c S] ..
qed

lemma comparator_key:
  assumes c: "comparator_on (f ` S) c"
  shows "comparator_on S (\<lambda>x y. c (f x) (f y))"
proof (rule comparator_onI)
  fix x y assume "x \<in> S" "y \<in> S"
  then show "c (f y) (f x) = - c (f x) (f y)" by (intro comparator_anti [OF c] imageI)
next
  fix x y z assume "x \<in> S" "y \<in> S" "z \<in> S" "c (f x) (f y) \<le> 0" "c (f y) (f z) \<le> 0"
  then show "c (f x) (f z) \<le> 0" by (intro comparator_trans [OF c, of "f x" "f y" "f z"] imageI)
qed

lemma comparator_subset:
  assumes c: "comparator_on S c" and T: "T \<subseteq> S"
  shows "comparator_on T c"
proof (rule comparator_onI)
  fix x y assume "x \<in> T" "y \<in> T"
  then show "c y x = - c x y" using T by (intro comparator_anti [OF c]) auto
next
  fix x y z assume "x \<in> T" "y \<in> T" "z \<in> T" "c x y \<le> 0" "c y z \<le> 0"
  then show "c x z \<le> 0" using T by (intro comparator_trans [OF c, of x y z]) auto
qed

end
