(* ===== verification/Numeric.thy ===== *)
theory Numeric
  imports Prelude
begin

text \<open>
  The package \<open>numeric\<close>: the bit interleaving of \<open>bin.go\<close>, the order-preserving integer
  image of a float of \<open>float.go\<close> and the prefix-coded terms of \<open>prefix_coded.go\<close>, together
  with \<open>bytes.Compare\<close> of the Go library. An \<open>int64\<close> is a \<open>64 word\<close> read by \<open>sint\<close>, a
  \<open>uint64\<close> the same word read by \<open>uint\<close>, a \<open>float64\<close> its IEEE 754 bits, and a byte an
  \<open>8 word\<close>.
\<close>

unbundle bit_operations_syntax

type_synonym int64 = "64 word"
type_synonym uint64 = "64 word"
type_synonym float64 = "64 word"

section \<open>bytes.Compare\<close>

fun bytes_compare :: "bytes \<Rightarrow> bytes \<Rightarrow> int" where
  "bytes_compare [] [] = 0"
| "bytes_compare [] (y # ys) = -1"
| "bytes_compare (x # xs) [] = 1"
| "bytes_compare (x # xs) (y # ys) =
     (if x < y then -1 else if y < x then 1 else bytes_compare xs ys)"

section \<open>bin.go: Morton interleaving\<close>

definition interleave_magic :: "uint64 list" where
  "interleave_magic =
     [0x5555555555555555, 0x3333333333333333, 0x0F0F0F0F0F0F0F0F, 0x00FF00FF00FF00FF,
      0x0000FFFF0000FFFF, 0x00000000FFFFFFFF, 0xAAAAAAAAAAAAAAAA]"

definition interleave_shift :: "nat list" where
  "interleave_shift = [1, 2, 4, 8, 16]"

definition interleave :: "uint64 \<Rightarrow> uint64 \<Rightarrow> uint64" where
  "interleave v1 v2 =
     (let v1 = (v1 OR push_bit (interleave_shift ! 4) v1) AND interleave_magic ! 4;
          v1 = (v1 OR push_bit (interleave_shift ! 3) v1) AND interleave_magic ! 3;
          v1 = (v1 OR push_bit (interleave_shift ! 2) v1) AND interleave_magic ! 2;
          v1 = (v1 OR push_bit (interleave_shift ! 1) v1) AND interleave_magic ! 1;
          v1 = (v1 OR push_bit (interleave_shift ! 0) v1) AND interleave_magic ! 0;
          v2 = (v2 OR push_bit (interleave_shift ! 4) v2) AND interleave_magic ! 4;
          v2 = (v2 OR push_bit (interleave_shift ! 3) v2) AND interleave_magic ! 3;
          v2 = (v2 OR push_bit (interleave_shift ! 2) v2) AND interleave_magic ! 2;
          v2 = (v2 OR push_bit (interleave_shift ! 1) v2) AND interleave_magic ! 1;
          v2 = (v2 OR push_bit (interleave_shift ! 0) v2) AND interleave_magic ! 0
      in push_bit 1 v2 OR v1)"

definition deinterleave :: "uint64 \<Rightarrow> uint64" where
  "deinterleave b =
     (let b = b AND interleave_magic ! 0;
          b = (b XOR drop_bit (interleave_shift ! 0) b) AND interleave_magic ! 1;
          b = (b XOR drop_bit (interleave_shift ! 1) b) AND interleave_magic ! 2;
          b = (b XOR drop_bit (interleave_shift ! 2) b) AND interleave_magic ! 3;
          b = (b XOR drop_bit (interleave_shift ! 3) b) AND interleave_magic ! 4;
          b = (b XOR drop_bit (interleave_shift ! 4) b) AND interleave_magic ! 5
      in b)"

text \<open>
  The proof follows the bits: after the step with shift \<open>s\<close>, bit \<open>i\<close> of the argument sits
  at position \<open>(i div s) * 2 * s + i mod s\<close>, which \<open>spread\<close> states position by position.
\<close>

lemma all64: "(\<forall>n<(64::nat). P n) = list_all P
    [0, 1, 2, 3, 4, 5, 6, 7, 8, 9, 10, 11, 12, 13, 14, 15,
     16, 17, 18, 19, 20, 21, 22, 23, 24, 25, 26, 27, 28, 29, 30, 31,
     32, 33, 34, 35, 36, 37, 38, 39, 40, 41, 42, 43, 44, 45, 46, 47,
     48, 49, 50, 51, 52, 53, 54, 55, 56, 57, 58, 59, 60, 61, 62, 63]"
proof -
  have "(\<forall>n<(64::nat). P n) = list_all P
    [0..<64]" by (auto simp: list_all_iff)
  also have "[0..<64] = [0, 1, 2, 3, 4, 5, 6, 7, 8, 9, 10, 11, 12, 13, 14, 15,
     16, 17, 18, 19, 20, 21, 22, 23, 24, 25, 26, 27, 28, 29, 30, 31,
     32, 33, 34, 35, 36, 37, 38, 39, 40, 41, 42, 43, 44, 45, 46, 47,
     48, 49, 50, 51, 52, 53, 54, 55, 56, 57, 58, 59, 60, 61, 62, 63]"
    by (simp add: upt_rec)
  finally show ?thesis .
qed


definition spread :: "nat \<Rightarrow> uint64 \<Rightarrow> uint64 \<Rightarrow> bool" where
  "spread s v w \<longleftrightarrow> (\<forall>n<64. bit w n = (n mod (2 * s) < s \<and> bit v (n div (2 * s) * s + n mod s)))"

lemma spread_mask: 
 "\<forall>n<64. bit (0x0000FFFF0000FFFF :: uint64) n = (n mod 32 < 16)"
 "\<forall>n<64. bit (0x00FF00FF00FF00FF :: uint64) n = (n mod 16 < 8)"
 "\<forall>n<64. bit (0x0F0F0F0F0F0F0F0F :: uint64) n = (n mod 8 < 4)"
 "\<forall>n<64. bit (0x3333333333333333 :: uint64) n = (n mod 4 < 2)"
 "\<forall>n<64. bit (0x5555555555555555 :: uint64) n = (n mod 2 < 1)"
 "\<forall>n<64. bit (0x00000000FFFFFFFF :: uint64) n = (n < 32)"
  by (unfold all64, simp_all)


lemma spread_16:
  assumes "\<forall>n\<ge>32. \<not> bit v n"
  shows "spread 16 v ((v OR push_bit 16 v) AND 0x0000FFFF0000FFFF)"
  unfolding spread_def using assms spread_mask(1) unfolding all64
  by (simp add: bit_simps numeral_2_eq_2 [symmetric])

lemma spread_widen:
  "spread 16 v w \<Longrightarrow> spread 8 v ((w OR push_bit 8 w) AND 0x00FF00FF00FF00FF)"
  "spread 8 v w \<Longrightarrow> spread 4 v ((w OR push_bit 4 w) AND 0x0F0F0F0F0F0F0F0F)"
  "spread 4 v w \<Longrightarrow> spread 2 v ((w OR push_bit 2 w) AND 0x3333333333333333)"
  "spread 2 v w \<Longrightarrow> spread 1 v ((w OR push_bit 1 w) AND 0x5555555555555555)"
  using spread_mask(2-5) unfolding spread_def all64
  by (simp_all add: bit_simps numeral_2_eq_2 [symmetric] del: push_bit_Suc)

lemma spread_narrow:
  "spread 1 v w \<Longrightarrow> spread 2 v ((w XOR drop_bit 1 w) AND 0x3333333333333333)"
  "spread 2 v w \<Longrightarrow> spread 4 v ((w XOR drop_bit 2 w) AND 0x0F0F0F0F0F0F0F0F)"
  "spread 4 v w \<Longrightarrow> spread 8 v ((w XOR drop_bit 4 w) AND 0x00FF00FF00FF00FF)"
  "spread 8 v w \<Longrightarrow> spread 16 v ((w XOR drop_bit 8 w) AND 0x0000FFFF0000FFFF)"
  using spread_mask(1-4) unfolding spread_def all64
  by (simp_all add: bit_simps numeral_2_eq_2 [symmetric])

lemma spread_out:
  assumes "spread 16 v w"
  shows "\<forall>n<64. bit ((w XOR drop_bit 16 w) AND 0x00000000FFFFFFFF) n = (n < 32 \<and> bit v n)"
  using assms spread_mask(6) unfolding spread_def all64
  by (simp add: bit_simps numeral_2_eq_2 [symmetric])

lemma spread_in:
  assumes "spread 1 v1 w1" "spread 1 v2 w2"
  shows "spread 1 v1 ((push_bit 1 w2 OR w1) AND 0x5555555555555555)"
    and "spread 1 v2 (drop_bit 1 (push_bit 1 w2 OR w1) AND 0x5555555555555555)"
  using assms spread_mask(5) unfolding spread_def all64
  by (simp_all add: bit_simps numeral_2_eq_2 [symmetric] del: push_bit_Suc)

lemma below_32: "v < (2 ^ 32 :: uint64) \<Longrightarrow> \<forall>n\<ge>32. \<not> bit v n"
proof (intro allI impI notI)
  fix n
  assume v: "v < 2 ^ 32" and n: "32 \<le> n" and b: "bit v n"
  from b have "n < 64" using bit_imp_le_length [of v n] by simp
  have "take_bit 32 (uint v) = uint v"
    using v by (simp add: word_less_def take_bit_int_eq_self_iff)
  then have "\<not> bit (uint v) n"
    using n by (metis bit_take_bit_iff linorder_not_less)
  then show False
    using b \<open>n < 64\<close> by (simp add: bit_uint_iff)
qed

definition spread_word :: "uint64 \<Rightarrow> uint64" where
  "spread_word v =
     (let v = (v OR push_bit 16 v) AND 0x0000FFFF0000FFFF;
          v = (v OR push_bit 8 v) AND 0x00FF00FF00FF00FF;
          v = (v OR push_bit 4 v) AND 0x0F0F0F0F0F0F0F0F;
          v = (v OR push_bit 2 v) AND 0x3333333333333333
      in (v OR push_bit 1 v) AND 0x5555555555555555)"

lemma spread_spread_word: "\<forall>n\<ge>32. \<not> bit v n \<Longrightarrow> spread 1 v (spread_word v)"
  unfolding spread_word_def Let_def by (intro spread_widen spread_16)

lemma interleave_eq: "interleave v1 v2 = push_bit 1 (spread_word v2) OR spread_word v1"
  by (simp only: interleave_def spread_word_def interleave_magic_def interleave_shift_def Let_def nth_Cons_0
    nth_Cons_numeral numeral_eq_Suc nth_Cons_Suc pred_numeral_simps One_nat_def BitM.simps)

lemma deinterleave_spread:
  assumes "spread 1 v (b AND 0x5555555555555555)" and "\<forall>n\<ge>32. \<not> bit v n"
  shows "deinterleave b = v"
proof (rule bit_word_eqI)
  fix n assume n: "n < LENGTH(64)"
  note spread_out [OF spread_narrow(4) [OF spread_narrow(3) [OF spread_narrow(2) [OF spread_narrow(1) [OF assms(1)]]]]]
  then have "bit (deinterleave b) n = (n < 32 \<and> bit v n)"
    using n by (simp add: deinterleave_def interleave_magic_def interleave_shift_def Let_def)
  then show "bit (deinterleave b) n = bit v n"
    using assms(2) by (meson linorder_not_less)
qed

text \<open>
  interleaving two values of at most 32 bits and taking the even bits (directly) or the
  odd bits (after a shift by one) gives the two values back.
\<close>

theorem deinterleave_interleave:
  assumes "v1 < 2 ^ 32" and "v2 < 2 ^ 32"
  shows "deinterleave (interleave v1 v2) = v1 \<and> deinterleave (drop_bit 1 (interleave v1 v2)) = v2"
  using spread_in [OF spread_spread_word spread_spread_word] assms
  by (simp add: interleave_eq deinterleave_spread below_32)

theorem deinterleave_interleave_witness:
  "deinterleave (interleave 27 39) = 27 \<and> deinterleave (drop_bit 1 (interleave 27 39)) = 39"
  by (rule deinterleave_interleave) simp_all

section \<open>float.go: an integer order for floats\<close>

definition float64_to_int64 :: "float64 \<Rightarrow> int64" where
  "float64_to_int64 f =
     (let fasint = f in if fasint <s 0 then fasint XOR 0x7fffffffffffffff else fasint)"

definition int64_to_float64 :: "int64 \<Rightarrow> float64" where
  "int64_to_float64 i = (if i <s 0 then i XOR 0x7fffffffffffffff else i)"

lemma sless_0_iff: "w <s 0 \<longleftrightarrow> bit w 63" for w :: "64 word"
  by (simp add: word_sless_alt sint_uint signed_take_bit_int_less_eq_self_iff not_le bit_uint_iff)

lemma uint_split_63: "uint w = uint (take_bit 63 w) + (if bit w 63 then 2 ^ 63 else 0)" for w :: "64 word"
proof -
  have "take_bit 64 (uint w) = take_bit 63 (uint w) + of_bool (bit (uint w) 63) * 2 ^ 63"
    using take_bit_Suc_from_most [of 63 "uint w"] by simp
  moreover have "take_bit 64 (uint w) = uint w"
    by (simp add: take_bit_int_eq_self_iff) (use uint_lt2p [of w] in simp)
  ultimately show ?thesis by (cases "bit w 63") (simp_all add: unsigned_take_bit_eq bit_uint_iff)
qed

lemma sint_64: "sint w = uint (take_bit 63 w) - (if bit w 63 then 2 ^ 63 else 0)" for w :: "64 word"
proof -
  have "sint w = take_bit 63 (uint w) - 2 ^ 63 * of_bool (bit (uint w) 63)"
    by (simp add: sint_uint signed_take_bit_eq_take_bit_minus take_bit_Suc_from_most [of 63, simplified])
  then show ?thesis by (simp add: unsigned_take_bit_eq bit_uint_iff)
qed

lemma bit63_xor: "bit (w XOR 0x7fffffffffffffff) 63 = bit w 63" for w :: "64 word"
  by (simp add: bit_simps)

lemma uint_take63_xor: "uint (take_bit 63 (w XOR 0x7fffffffffffffff)) = 2 ^ 63 - 1 - uint (take_bit 63 w)" for w :: "64 word"
proof -
  have "take_bit 63 (w XOR 0x7fffffffffffffff) = take_bit 63 (NOT w)"
    by (rule bit_word_eqI) (use all64 [of "\<lambda>n. bit (0x7fffffffffffffff :: 64 word) n = (n < 63)"] in \<open>auto simp: bit_simps\<close>)
  also have "uint \<dots> = take_bit 63 (NOT (uint w))"
    by (simp add: unsigned_take_bit_eq unsigned_not_eq take_bit_take_bit)
  also have "\<dots> = 2 ^ 63 - 1 - take_bit 63 (uint w)"
    using take_bit_not_eq_mask_diff [of 63 "uint w"] by (simp add: mask_eq_exp_minus_1)
  finally show ?thesis by (simp add: unsigned_take_bit_eq)
qed

lemma take63_bounds: "0 \<le> uint (take_bit 63 w) \<and> uint (take_bit 63 w) < 2 ^ 63" for w :: "64 word"
  using take_bit_int_less_exp [of 63 "uint w"] by (simp add: unsigned_take_bit_eq)

lemma sint_float64_to_int64:
  "sint (float64_to_int64 f) = (if bit f 63 then - uint (take_bit 63 f) - 1 else uint (take_bit 63 f))"
  by (simp add: float64_to_int64_def Let_def sless_0_iff sint_64 bit63_xor uint_take63_xor del: take_bit_xor)

lemma int64_to_float64_inverse: "int64_to_float64 (float64_to_int64 f) = f"
  by (simp add: float64_to_int64_def int64_to_float64_def Let_def sless_0_iff bit63_xor xor.assoc)

text \<open>
  the integer image of a float determines its bits: the inverse conversion gives every float
  back, NaNs and signed zeros included.
\<close>

theorem int64_to_float64_round: "int64_to_float64 (float64_to_int64 f) = f"
  by (rule int64_to_float64_inverse)

text \<open>
  The order of Go's \<open><\<close> on floats, read from the IEEE fields: a magnitude in units of
  \<open>2 ^ -1074\<close> (infinity is the magnitude above the largest finite one), negated by the sign,
  and every comparison with a NaN false.
\<close>

definition float64_is_nan :: "float64 \<Rightarrow> bool" where
  "float64_is_nan f \<longleftrightarrow> unat (take_bit 11 (drop_bit 52 f)) = 2047 \<and> unat (take_bit 52 f) \<noteq> 0"

definition float64_mag :: "float64 \<Rightarrow> int" where
  "float64_mag f =
     (let e = unat (take_bit 11 (drop_bit 52 f)); m = int (unat (take_bit 52 f))
      in if e = 0 then m else (2 ^ 52 + m) * 2 ^ (e - 1))"

definition float64_value :: "float64 \<Rightarrow> int" where
  "float64_value f = (if bit f 63 then - float64_mag f else float64_mag f)"

definition float64_lt :: "float64 \<Rightarrow> float64 \<Rightarrow> bool" where
  "float64_lt a b \<longleftrightarrow>
     \<not> float64_is_nan a \<and> \<not> float64_is_nan b \<and> float64_value a < float64_value b"

definition mag_of :: "nat \<Rightarrow> int" where
  "mag_of n = (if n div 2 ^ 52 = 0 then int (n mod 2 ^ 52)
               else (2 ^ 52 + int (n mod 2 ^ 52)) * 2 ^ (n div 2 ^ 52 - 1))"

lemma mag_of_bounds:
  assumes "n div 2 ^ 52 = e" "0 < e"
  shows "2 ^ 52 * 2 ^ (e - 1) \<le> mag_of n" "mag_of n < 2 ^ 52 * 2 ^ e"
proof -
  have m: "int (n mod 2 ^ 52) < 2 ^ 52" using of_nat_less_iff [of "n mod 2 ^ 52" "2 ^ 52", where 'a = int] by simp
  have p: "(2 :: int) ^ e = 2 * 2 ^ (e - 1)" using assms(2) by (cases e) simp_all
  show "2 ^ 52 * 2 ^ (e - 1) \<le> mag_of n"
    using assms by (simp add: mag_of_def)
  have "(2 ^ 52 + int (n mod 2 ^ 52)) * 2 ^ (e - 1) < (2 ^ 52 + 2 ^ 52) * 2 ^ (e - 1)"
    by (rule mult_strict_right_mono) (use m in simp_all)
  then show "mag_of n < 2 ^ 52 * 2 ^ e"
    using assms p by (simp add: mag_of_def)
qed

lemma mag_of_less_Suc: "mag_of n < mag_of (Suc n)"
proof (cases "Suc (n mod 2 ^ 52) = 2 ^ 52")
  case True
  then have d: "Suc n div 2 ^ 52 = Suc (n div 2 ^ 52)" "Suc n mod 2 ^ 52 = 0"
    by (simp_all add: div_Suc mod_Suc)
  have "int (n mod 2 ^ 52) = 2 ^ 52 - 1" using True by simp
  then show ?thesis
    by (cases "n div 2 ^ 52 = 0") (use mag_of_bounds(2) [of n "n div 2 ^ 52"] d in \<open>simp_all add: mag_of_def\<close>)
next
  case False
  then have d: "Suc n div 2 ^ 52 = n div 2 ^ 52" "Suc n mod 2 ^ 52 = Suc (n mod 2 ^ 52)"
    by (simp_all add: div_Suc mod_Suc)
  then show ?thesis by (simp add: mag_of_def)
qed

lemma mag_of_strict: "strict_mono mag_of"
  by (simp add: strict_mono_Suc_iff mag_of_less_Suc)

lemma take63_fields:
  fixes f :: float64
  shows "unat (take_bit 63 f) div 2 ^ 52 = unat (take_bit 11 (drop_bit 52 f))"
    and "unat (take_bit 63 f) mod 2 ^ 52 = unat (take_bit 52 f)"
proof -
  have "unat (take_bit 63 f) div 2 ^ 52 = unat (drop_bit 52 (take_bit 63 f))"
    by (subst unat_drop_bit_eq) (simp only: drop_bit_eq_div)
  also have "drop_bit 52 (take_bit 63 f) = take_bit 11 (drop_bit 52 f)"
    by (simp add: take_bit_drop_bit)
  finally show "unat (take_bit 63 f) div 2 ^ 52 = unat (take_bit 11 (drop_bit 52 f))" .
  show "unat (take_bit 63 f) mod 2 ^ 52 = unat (take_bit 52 f)"
    using unsigned_take_bit_eq [of 52 "take_bit 63 f", where 'a = nat]
    by (simp only: take_bit_take_bit take_bit_eq_mod [where 'a = nat] min_def) simp
qed

lemma float64_mag_eq: "float64_mag f = mag_of (unat (take_bit 63 f))"
  by (simp only: float64_mag_def mag_of_def Let_def take63_fields)

lemma float64_value_63:
  "float64_value f = (if bit f 63 then - mag_of (unat (take_bit 63 f)) else mag_of (unat (take_bit 63 f)))"
  by (simp add: float64_value_def float64_mag_eq)

lemma sint_float64_nat:
  "sint (float64_to_int64 f) = (if bit f 63 then - int (unat (take_bit 63 f)) - 1 else int (unat (take_bit 63 f)))"
  by (simp add: sint_float64_to_int64)

lemma zero_part_iff: "int a = int b + (if P then int k else 0) \<Longrightarrow> b = 0 \<longleftrightarrow> a = (if P then k else 0)"
  by (cases P) auto

lemma sint_float64_less:
  assumes "\<not> float64_is_nan a" "\<not> float64_is_nan b"
  shows "sint (float64_to_int64 a) < sint (float64_to_int64 b) \<longleftrightarrow>
     float64_lt a b \<or> (a = 0x8000000000000000 \<and> b = 0)"
proof -
  have zero: "unat (take_bit 63 f) = 0 \<longleftrightarrow> f = (if bit f 63 then 0x8000000000000000 else 0)" for f :: float64
  proof -
    have "int (unat f) = int (unat (take_bit 63 f)) + (if bit f 63 then 2 ^ 63 else 0)"
      using uint_split_63 [of f] by (simp only: uint_nat)
    then have "unat (take_bit 63 f) = 0 \<longleftrightarrow> unat f = (if bit f 63 then 2 ^ 63 else 0)"
      using zero_part_iff [of "unat f" "unat (take_bit 63 f)" "bit f 63" "2 ^ 63"] by (simp only: of_nat_power of_nat_numeral)
    then show ?thesis by (cases "bit f 63") (simp_all only: if_True if_False word_unat_eq_iff [of f], simp_all)
  qed
  have pos: "0 \<le> mag_of n" for n
    by (simp add: mag_of_def)
  have pos': "0 < mag_of n \<longleftrightarrow> n \<noteq> 0" for n
    using strict_mono_less [OF mag_of_strict, of 0 n] by (simp add: mag_of_def)
  note m = strict_mono_less [OF mag_of_strict]
  show ?thesis
  proof (cases "bit a 63"; cases "bit b 63")
    assume "bit a 63" "\<not> bit b 63"
    then show ?thesis
      using assms pos [of "unat (take_bit 63 a)"] pos [of "unat (take_bit 63 b)"]
        pos' [of "unat (take_bit 63 a)"] pos' [of "unat (take_bit 63 b)"] zero [of a] zero [of b]
        uint_ge_0 [of "take_bit 63 a"] uint_ge_0 [of "take_bit 63 b"]
      by (auto simp: sint_float64_nat float64_lt_def float64_value_63 simp del: of_nat_unat)
  next
    assume "\<not> bit a 63" "bit b 63"
    then show ?thesis
      using pos [of "unat (take_bit 63 a)"] pos [of "unat (take_bit 63 b)"]
      by (auto simp: sint_float64_nat float64_lt_def float64_value_63 simp del: of_nat_unat)
  qed (use assms in \<open>auto simp: sint_float64_nat float64_lt_def float64_value_63 m simp del: of_nat_unat\<close>)
qed

text \<open>
  on floats that are not NaN the signed order of the integer images is the order of the
  floats, except that it puts negative zero below positive zero.
\<close>

theorem float64_order:
  assumes "\<not> float64_is_nan a" "\<not> float64_is_nan b"
  shows "float64_to_int64 a <s float64_to_int64 b \<longleftrightarrow>
     float64_lt a b \<or> (a = 0x8000000000000000 \<and> b = 0)"
  using assms by (simp add: word_sless_alt sint_float64_less)

theorem float64_order_witness:
  "float64_to_int64 0xBFF0000000000000 <s float64_to_int64 0x3FF0000000000000"
  by (subst float64_order) (simp_all add: float64_is_nan_def float64_lt_def float64_value_def float64_mag_def take_bit_eq_mask mask_eq_exp_minus_1)

section \<open>prefix_coded.go\<close>

datatype numeric_error = Cannot_Shift nat | Invalid_Prefix_Coded

definition shift_start_int64 :: byte where
  "shift_start_int64 = 0x20"

text \<open>The loop that stores seven bits per byte, from position \<open>nChars\<close> down to 1.\<close>

fun store_chars :: "nat \<Rightarrow> int64 \<Rightarrow> bytes \<Rightarrow> bytes" where
  "store_chars 0 sortableBits rv = rv"
| "store_chars (Suc n) sortableBits rv =
     store_chars n (drop_bit 7 sortableBits) (rv[Suc n := ucast (sortableBits AND 0x7f)])"

definition new_prefix_coded_int64_prealloc ::
  "int64 \<Rightarrow> nat \<Rightarrow> bytes \<Rightarrow> (numeric_error, bytes \<times> bytes) result" where
  "new_prefix_coded_int64_prealloc x shift prealloc =
     (if shift > 63 then Inl (Cannot_Shift shift)
      else
        let nChars = (63 - shift) div 7 + 1;
            size = nChars + 1;
            (rv, rest) = (if length prealloc \<ge> size then (take size prealloc, drop size prealloc)
                          else (replicate size 0, []));
            rv = rv[0 := shift_start_int64 + of_nat shift];
            sortableBits = x XOR 0x8000000000000000;
            sortableBits = drop_bit shift sortableBits
        in Inr (store_chars nChars sortableBits rv, rest))"

definition new_prefix_coded_int64 :: "int64 \<Rightarrow> nat \<Rightarrow> (numeric_error, bytes) result" where
  "new_prefix_coded_int64 x shift =
     (case new_prefix_coded_int64_prealloc x shift [] of Inl e \<Rightarrow> Inl e | Inr (rv, _) \<Rightarrow> Inr rv)"

text \<open>\<open>MustNewPrefixCodedInt64\<close> panics where the constructor fails: None.\<close>

definition must_new_prefix_coded_int64 :: "int64 \<Rightarrow> nat \<Rightarrow> bytes option" where
  "must_new_prefix_coded_int64 x shift =
     (case new_prefix_coded_int64 x shift of Inl e \<Rightarrow> None | Inr rv \<Rightarrow> Some rv)"

definition prefix_coded_shift :: "bytes \<Rightarrow> (numeric_error, nat) result" where
  "prefix_coded_shift p =
     (if length p > 0 \<and> p ! 0 - shift_start_int64 < 63
      then Inr (unat (p ! 0 - shift_start_int64)) else Inl Invalid_Prefix_Coded)"

definition prefix_coded_int64 :: "bytes \<Rightarrow> (numeric_error, int64) result" where
  "prefix_coded_int64 p =
     (case prefix_coded_shift p of
        Inl e \<Rightarrow> Inl e
      | Inr shift \<Rightarrow>
          let sortableBits = foldl (\<lambda>sb inbyte. push_bit 7 sb OR ucast inbyte) (0 :: int64) (tl p)
          in Inr (push_bit shift sortableBits XOR 0x8000000000000000))"

definition valid_prefix_coded_term_bytes :: "bytes \<Rightarrow> bool \<times> nat" where
  "valid_prefix_coded_term_bytes p =
     (if length p > 0 then
        if p ! 0 < shift_start_int64 \<or> p ! 0 > shift_start_int64 + 63 then (False, 0)
        else
          let shift = p ! 0 - shift_start_int64;
              nChars = (63 - unat shift) div 7 + 1
          in if length p \<noteq> nChars + 1 then (False, 0) else (True, unat shift)
      else (False, 0))"

subsection \<open>Round trip and order of the terms\<close>

text \<open>The bytes after the first: the value in base 128, most significant digit first.\<close>

fun payload :: "nat \<Rightarrow> int64 \<Rightarrow> bytes" where
  "payload 0 v = []"
| "payload (Suc n) v = payload n (drop_bit 7 v) @ [ucast (v AND 0x7f)]"

lemma length_payload [simp]: "length (payload n v) = n"
  by (induction n arbitrary: v) simp_all

lemma store_chars_payload:
  "n < length rv \<Longrightarrow> store_chars n v rv = hd rv # payload n v @ drop (Suc n) rv"
proof (induction n arbitrary: v rv)
  case 0
  then show ?case by (cases rv) simp_all
next
  case (Suc n)
  then have "rv \<noteq> []" "hd (rv[Suc n := b]) = hd rv" for b
    by (cases rv; simp)+
  with Suc show ?case by (simp add: drop_update_cancel flip: Cons_nth_drop_Suc)
qed

lemma new_prefix_coded_int64_eq:
  "new_prefix_coded_int64 x s =
     (if s > 63 then Inl (Cannot_Shift s)
      else Inr ((shift_start_int64 + of_nat s) # payload ((63 - s) div 7 + 1) (drop_bit s (x XOR 0x8000000000000000))))"
  by (simp add: new_prefix_coded_int64_def new_prefix_coded_int64_prealloc_def Let_def store_chars_payload)

lemma foldl_payload:
  "foldl (\<lambda>sb inbyte. push_bit 7 sb OR ucast inbyte) s (payload n v) = push_bit (7 * n) s OR take_bit (7 * n) v"
proof (induction n arbitrary: v)
  case 0
  then show ?case by simp
next
  case (Suc n)
  have "push_bit 7 (push_bit (7 * n) s OR take_bit (7 * n) (drop_bit 7 v)) OR ucast (ucast (v AND 0x7f) :: byte)
      = push_bit (7 * Suc n) s OR take_bit (7 * Suc n) v"
  proof (rule bit_word_eqI)
    fix i assume "i < LENGTH(64)"
    have m: "bit (0x7f :: int64) i = (i < 7)" 
      using bit_mask_iff [of 7 i, where 'a = int64] \<open>i < LENGTH(64)\<close> by (simp add: mask_eq_exp_minus_1)
    show "bit (push_bit 7 (push_bit (7 * n) s OR take_bit (7 * n) (drop_bit 7 v)) OR ucast (ucast (v AND 0x7f) :: byte)) i =
         bit (push_bit (7 * Suc n) s OR take_bit (7 * Suc n) v) i"
      using m \<open>i < LENGTH(64)\<close> by (auto simp: bit_simps)
  qed
  then show ?case by (simp add: Suc.IH)
qed

lemma shift_byte: "s \<le> 63 \<Longrightarrow> unat (shift_start_int64 + of_nat s - shift_start_int64) = s"
  by (simp add: unat_of_nat)

definition coded :: "int64 \<Rightarrow> nat \<Rightarrow> bytes" where
  "coded x s = (shift_start_int64 + of_nat s) # payload ((63 - s) div 7 + 1) (drop_bit s (x XOR 0x8000000000000000))"

lemma new_prefix_coded: "s < 64 \<Longrightarrow> new_prefix_coded_int64 x s = Inr (coded x s)"
  by (simp add: new_prefix_coded_int64_eq coded_def)

lemma new_prefix_coded_prealloc:
  assumes "s < 64"
  shows "\<exists>rest. new_prefix_coded_int64_prealloc x s prealloc = Inr (coded x s, rest)"
proof -
  obtain n where n: "(63 - s) div 7 + 1 = n" by blast
  have sc: "store_chars n v (rv[0 := b]) = b # payload n v" if "length rv = n + 1" for v b and rv :: bytes
    using that by (subst store_chars_payload) (auto simp: hd_conv_nth length_Suc_conv)
  show ?thesis
    unfolding new_prefix_coded_int64_prealloc_def coded_def n Let_def
    using assms sc [of "take (n + 1) prealloc"] sc [of "replicate (n + 1) 0"]
    by (cases "n + 1 \<le> length prealloc") (simp_all del: replicate_Suc)
qed

lemma coded_decode:
  assumes "s \<le> 62"
  shows "prefix_coded_shift (coded x s) = Inr s" and "prefix_coded_int64 (coded x s) = Inr (push_bit s (drop_bit s x))"
    and "valid_prefix_coded_term_bytes (coded x s) = (True, s)"
proof -
  have u: "unat (of_nat s :: byte) = s" using assms by (simp add: unat_of_nat)
  have lt: "(of_nat s :: byte) < 63" using assms u by (simp add: word_less_nat_alt)
  have n: "64 - s \<le> 7 * ((63 - s) div 7 + 1)" by presburger
  have t: "take_bit (7 * ((63 - s) div 7 + 1)) (drop_bit s w) = drop_bit s w" for w :: int64
    by (rule bit_word_eqI) (use n in \<open>auto simp: bit_simps dest: bit_imp_le_length\<close>)
  have x: "push_bit s (drop_bit s (x XOR 0x8000000000000000)) XOR 0x8000000000000000 = push_bit s (drop_bit s x)"
  proof (rule bit_word_eqI)
    fix i assume i: "i < LENGTH(64)"
    have "bit (0x8000000000000000 :: int64) i = (i = 63)"
      using all64 [of "\<lambda>i. bit (0x8000000000000000 :: int64) i = (i = 63)"] i by simp
    then show "bit (push_bit s (drop_bit s (x XOR 0x8000000000000000)) XOR 0x8000000000000000) i = bit (push_bit s (drop_bit s x)) i"
      using i assms by (auto simp: bit_simps)
  qed
  show sh: "prefix_coded_shift (coded x s) = Inr s"
    using u lt by (simp add: prefix_coded_shift_def coded_def)
  show "prefix_coded_int64 (coded x s) = Inr (push_bit s (drop_bit s x))"
    by (simp only: prefix_coded_int64_def sh sum.case Let_def, simp only: coded_def list.sel foldl_payload t push_bit_of_0 or.left_neutral x)
  show "valid_prefix_coded_term_bytes (coded x s) = (True, s)"
  proof -
    have "unat (shift_start_int64 + of_nat s) = 32 + s"
      using assms u by (simp add: shift_start_int64_def unat_word_ariths)
    then show ?thesis
      using u assms by (simp add: coded_def valid_prefix_coded_term_bytes_def Let_def word_less_nat_alt) (simp add: shift_start_int64_def)
  qed
qed

text \<open>
  C17: A value encoded at a shift of at most 62 is a valid term that reports its shift and decodes to
  the value with its low \<open>shift\<close> bits cleared. At shift 63, which the constructor and the
  validity check accept as well, the term is valid but \<open>Shift\<close> and \<open>Int64\<close> reject it; a larger
  shift is rejected by the constructor.
\<close>

theorem prefix_coded_round:
  "if s \<le> 62 then \<exists>p. new_prefix_coded_int64 x s = Inr p \<and> valid_prefix_coded_term_bytes p = (True, s) \<and>
       prefix_coded_shift p = Inr s \<and> prefix_coded_int64 p = Inr (push_bit s (drop_bit s x))
   else if s = 63 then \<exists>p. new_prefix_coded_int64 x s = Inr p \<and> valid_prefix_coded_term_bytes p = (True, s) \<and>
       isl (prefix_coded_shift p) \<and> isl (prefix_coded_int64 p)
   else isl (new_prefix_coded_int64 x s)"
proof -
  consider "s \<le> 62" | "s = 63" | "63 < s" by linarith
  then show ?thesis
  proof cases
    case 1
    then show ?thesis by (simp add: new_prefix_coded coded_decode)
  next
    case 2
    then show ?thesis
      by (simp add: new_prefix_coded coded_def valid_prefix_coded_term_bytes_def prefix_coded_shift_def prefix_coded_int64_def
          shift_start_int64_def Let_def)
  next
    case 3
    then show ?thesis by (simp add: new_prefix_coded_int64_def new_prefix_coded_int64_prealloc_def)
  qed
qed

lemma bytes_compare_snoc:
  "length xs = length ys \<Longrightarrow>
   bytes_compare (xs @ [a]) (ys @ [b]) =
     (if bytes_compare xs ys \<noteq> 0 then bytes_compare xs ys
      else if a < b then -1 else if b < a then 1 else 0)"
  by (induction xs ys rule: list_induct2) auto

definition low_part :: "nat \<Rightarrow> nat \<Rightarrow> nat" where
  "low_part n k = k mod 128 ^ n"

lemma low_part_Suc: "low_part (Suc n) k = 128 * low_part n (k div 128) + k mod 128"
  by (simp add: low_part_def mod_mult2_eq)

lemma cmp_digits:
  assumes "b < (128 :: nat)" "d < 128"
  shows "(128 * a + b < 128 * c + d) = (a < c \<or> a = c \<and> b < d)"
  using assms by (cases a c rule: linorder_cases) auto

lemma payload_byte: "unat (ucast (v AND 0x7f) :: byte) = unat v mod 128" for v :: int64
proof -
  have "v AND 0x7f = take_bit 7 v"
    by (simp add: take_bit_eq_mask mask_eq_exp_minus_1)
  then have "unat (v AND 0x7f) = unat v mod 128"
    by (simp add: unsigned_take_bit_eq take_bit_eq_mod [where 'a = nat])
  moreover from this have "unat (ucast (v AND 0x7f) :: byte) = unat (v AND 0x7f)"
    by (simp add: unsigned_ucast_eq take_bit_eq_mod [where 'a = nat])
  ultimately show ?thesis by simp
qed

lemma bytes_compare_payload:
  "bytes_compare (payload n v) (payload n w) =
     (if low_part n (unat v) < low_part n (unat w) then -1
      else if low_part n (unat w) < low_part n (unat v) then 1 else 0)"
proof (induction n arbitrary: v w)
  case 0
  then show ?case by (simp add: low_part_def)
next
  case (Suc n)
  have d: "unat (drop_bit 7 u) = unat u div 128" for u :: int64
    by (subst unat_drop_bit_eq) (simp add: drop_bit_eq_div [where 'a = nat])
  have m: "k mod 128 < 128" for k :: nat by simp
  show ?case
    unfolding low_part_Suc cmp_digits [OF m m] payload.simps
      bytes_compare_snoc [OF trans [OF length_payload length_payload [symmetric]]]
      Suc.IH d word_less_nat_alt payload_byte
    by auto
qed

lemma unat_sortable: "int (unat (x XOR 0x8000000000000000)) = sint x + 2 ^ 63" for x :: int64
proof -
  have b: "bit (0x8000000000000000 :: int64) i = (i = 63)" if "i < 64" for i
    using all64 [of "\<lambda>i. bit (0x8000000000000000 :: int64) i = (i = 63)"] that by simp
  have t: "take_bit 63 (x XOR 0x8000000000000000) = take_bit 63 x"
    by (rule bit_word_eqI) (auto simp: bit_simps b)
  have "bit (x XOR 0x8000000000000000) 63 \<longleftrightarrow> \<not> bit x 63"
    using b [of 63] by (auto simp: bit_simps)
  with uint_split_63 [of "x XOR 0x8000000000000000"] t sint_64 [of x]
  show ?thesis unfolding uint_nat by (auto split: if_splits)
qed

lemma coded_compare:
  assumes "s \<le> 63"
  shows "bytes_compare (coded x s) (coded y s) =
    (if sint x div 2 ^ s < sint y div 2 ^ s then -1 else if sint y div 2 ^ s < sint x div 2 ^ s then 1 else 0)"
proof -
  let ?n = "(63 - s) div 7 + 1"
  have n: "64 - s \<le> 7 * ?n" by presburger
  have low: "int (low_part ?n (unat (drop_bit s (w XOR 0x8000000000000000)))) = sint w div 2 ^ s + 2 ^ (63 - s)"
    for w :: int64
  proof -
    have u: "unat (drop_bit s v) = unat v div 2 ^ s" for v :: int64
      by (subst unat_drop_bit_eq) (simp add: drop_bit_eq_div [where 'a = nat])
    have "unat v div 2 ^ s < 2 ^ (64 - s)" for v :: int64
      using unsigned_less [of v, where 'a = nat] assms by (simp add: less_mult_imp_div_less flip: power_add)
    also have "(2 :: nat) ^ (64 - s) \<le> 2 ^ (7 * ?n)" by (rule power_increasing [OF n]) simp
    also have "(2 :: nat) ^ (7 * ?n) = 128 ^ ?n" by (subst power_mult) simp
    finally have "low_part ?n (unat (drop_bit s v)) = unat v div 2 ^ s" for v :: int64
      by (simp add: low_part_def u)
    then have "int (low_part ?n (unat (drop_bit s (w XOR 0x8000000000000000)))) = (sint w + 2 ^ 63) div 2 ^ s"
      by (simp only: zdiv_int of_nat_power of_nat_numeral unat_sortable)
    also have "(2 :: int) ^ 63 = 2 ^ (63 - s) * 2 ^ s" using assms by (simp flip: power_add)
    also have "(sint w + \<dots>) div 2 ^ s = 2 ^ (63 - s) + sint w div 2 ^ s"
      by (rule div_mult_self1) simp
    finally show ?thesis by simp
  qed
  have "bytes_compare (coded x s) (coded y s) = bytes_compare (payload ?n (drop_bit s (x XOR 0x8000000000000000)))
       (payload ?n (drop_bit s (y XOR 0x8000000000000000)))" by (simp add: coded_def)
  then show ?thesis
    unfolding bytes_compare_payload of_nat_less_iff [where 'a = int, symmetric] low by simp
qed

text \<open>
  C15: terms of the same shift compare bytewise as the signed values compare with their low
  \<open>shift\<close> bits dropped.
\<close>

theorem prefix_coded_order:
  assumes "s \<le> 63" "new_prefix_coded_int64 x s = Inr p" "new_prefix_coded_int64 y s = Inr q"
  shows "bytes_compare p q =
    (if sint x div 2 ^ s < sint y div 2 ^ s then -1 else if sint y div 2 ^ s < sint x div 2 ^ s then 1 else 0)"
  using assms coded_compare [OF assms(1), of x y] by (simp add: new_prefix_coded)

theorem prefix_coded_order_witness:
  "\<exists>p q. new_prefix_coded_int64 (-5) 0 = Inr p \<and> new_prefix_coded_int64 7 0 = Inr q \<and> bytes_compare p q = -1"
proof -
  obtain p q where p: "new_prefix_coded_int64 (-5) 0 = Inr p" and q: "new_prefix_coded_int64 7 0 = Inr q"
    by (simp add: new_prefix_coded_int64_eq)
  show ?thesis using prefix_coded_order [OF _ p q] p q by auto
qed

end
