(* ===== verification/Numeric_Range.thy ===== *)
theory Numeric_Range
  imports Numeric
begin

text \<open>
  Numeric range search (\<open>search/searcher/search_numeric_range.go\<close>) against the terms a numeric
  field is indexed under (\<open>numericAnalyzer\<close> in \<open>field.go\<close>): the split of an interval into
  prefix-coded term ranges, the enumeration of a range through the dictionary, and the theorem
  that a value is found exactly when it lies between the bounds.
\<close>

section \<open>The terms of a numeric field: field.go\<close>

text \<open>
  \<open>addShiftTokens\<close>: one term per shift \<open>shiftBy, 2 * shiftBy, ...\<close> below 64. The encoder's error
  ends the loop (it cannot occur below shift 64), and a step of zero never leaves it: None.
\<close>

partial_function (option) add_shift_tokens :: "int64 \<Rightarrow> nat \<Rightarrow> nat \<Rightarrow> bytes list \<Rightarrow> bytes list option" where
  "add_shift_tokens original shiftBy shift tokens =
     (if shift < 64 then
        (case new_prefix_coded_int64 original shift of
           Inl e \<Rightarrow> Some tokens
         | Inr p \<Rightarrow> add_shift_tokens original shiftBy (shift + shiftBy) (tokens @ [p]))
      else Some tokens)"

definition numeric_analyze :: "nat \<Rightarrow> bytes \<Rightarrow> bytes list option" where
  "numeric_analyze shiftBy input =
     (case prefix_coded_int64 input of
        Inl e \<Rightarrow> Some [input]
      | Inr original \<Rightarrow> add_shift_tokens original shiftBy shiftBy [input])"

section \<open>search_numeric_range.go\<close>

record term_range =
  startTerm :: bytes
  endTerm :: bytes

definition new_range :: "int64 \<Rightarrow> int64 \<Rightarrow> nat \<Rightarrow> term_range option" where
  "new_range minBound maxBound shift =
     (let maxBound = maxBound OR (push_bit shift 1 - 1) in
      case must_new_prefix_coded_int64 minBound shift of
        None \<Rightarrow> None
      | Some minBytes \<Rightarrow>
          (case must_new_prefix_coded_int64 maxBound shift of
             None \<Rightarrow> None
           | Some maxBytes \<Rightarrow> Some \<lparr> startTerm = minBytes, endTerm = maxBytes \<rparr>))"

definition append_range :: "term_range list \<Rightarrow> term_range option \<Rightarrow> term_range list option" where
  "append_range rv r = map_option (\<lambda>x. rv @ [x]) r"

partial_function (option) split_loop ::
  "nat \<Rightarrow> nat \<Rightarrow> int64 \<Rightarrow> int64 \<Rightarrow> term_range list \<Rightarrow> term_range list option" where
  "split_loop precisionStep shift minBound maxBound rv =
     (let diff = push_bit (shift + precisionStep) 1 :: int64;
          mask = push_bit shift (push_bit precisionStep 1 - 1) :: int64;
          hasLower = (minBound AND mask \<noteq> 0);
          hasUpper = (maxBound AND mask \<noteq> mask);
          nextMinBound = (if hasLower then (minBound + diff) AND NOT mask else minBound AND NOT mask);
          nextMaxBound = (if hasUpper then (maxBound - diff) AND NOT mask else maxBound AND NOT mask);
          lowerWrapped = nextMinBound <s minBound;
          upperWrapped = maxBound <s nextMaxBound
      in if shift + precisionStep \<ge> 64 \<or> nextMaxBound <s nextMinBound \<or> lowerWrapped \<or> upperWrapped
         then append_range rv (new_range minBound maxBound shift)
         else Option.bind (if hasLower then append_range rv (new_range minBound (minBound OR mask) shift)
                           else Some rv)
           (\<lambda>rv. Option.bind (if hasUpper then append_range rv (new_range (maxBound AND NOT mask) maxBound shift)
                              else Some rv)
             (\<lambda>rv. split_loop precisionStep (shift + precisionStep) nextMinBound nextMaxBound rv)))"

definition split_int64_range :: "int64 \<Rightarrow> int64 \<Rightarrow> nat \<Rightarrow> term_range list option" where
  "split_int64_range minBound maxBound precisionStep =
     (if maxBound <s minBound then Some [] else split_loop precisionStep 0 minBound maxBound [])"

fun increment_rev :: "bytes \<Rightarrow> bytes" where
  "increment_rev [] = []"
| "increment_rev (b # bs) = (if b + 1 \<noteq> 0 then (b + 1) # bs else (b + 1) # increment_rev bs)"

definition increment_bytes :: "bytes \<Rightarrow> bytes" where
  "increment_bytes inp = rev (increment_rev (rev inp))"

text \<open>The filter is a dictionary lookup, or nil (None).\<close>

partial_function (option) enumerate_loop ::
  "(bytes \<Rightarrow> bool) option \<Rightarrow> bytes \<Rightarrow> bytes \<Rightarrow> bytes list \<Rightarrow> bytes list option" where
  "enumerate_loop flt endT nxt rv =
     (if bytes_compare nxt endT \<le> 0
      then enumerate_loop flt endT (increment_bytes nxt)
             (case flt of None \<Rightarrow> rv @ [nxt] | Some f \<Rightarrow> if f nxt then rv @ [nxt] else rv)
      else Some rv)"

definition range_enumerate :: "(bytes \<Rightarrow> bool) option \<Rightarrow> term_range \<Rightarrow> bytes list option" where
  "range_enumerate flt t = enumerate_loop flt (endTerm t) (startTerm t) []"

fun ranges_enumerate :: "(bytes \<Rightarrow> bool) option \<Rightarrow> term_range list \<Rightarrow> bytes list \<Rightarrow> bytes list option" where
  "ranges_enumerate flt [] rv = Some rv"
| "ranges_enumerate flt (tri # tr) rv =
     (case range_enumerate flt tri of
        None \<Rightarrow> None
      | Some trie \<Rightarrow> ranges_enumerate flt tr (rv @ trie))"

text \<open>The bounds and the terms of \<open>NewNumericRangeSearcher\<close>; the infinities are its sentinels.\<close>

definition numeric_range_bounds :: "float64 \<Rightarrow> float64 \<Rightarrow> bool \<Rightarrow> bool \<Rightarrow> int64 \<times> int64" where
  "numeric_range_bounds lo hi inclusiveMin inclusiveMax =
     (let minInt64 = (if lo = 0xFFF0000000000000 then 0x8000000000000000 else float64_to_int64 lo);
          maxInt64 = (if hi = 0x7FF0000000000000 then 0x7FFFFFFFFFFFFFFF else float64_to_int64 hi);
          minInt64 = (if \<not> inclusiveMin \<and> minInt64 \<noteq> 0x7FFFFFFFFFFFFFFF then minInt64 + 1 else minInt64);
          maxInt64 = (if \<not> inclusiveMax \<and> maxInt64 \<noteq> 0x8000000000000000 then maxInt64 - 1 else maxInt64)
      in (minInt64, maxInt64))"

definition numeric_range_terms ::
  "(bytes \<Rightarrow> bool) \<Rightarrow> float64 \<Rightarrow> float64 \<Rightarrow> bool \<Rightarrow> bool \<Rightarrow> bytes list option" where
  "numeric_range_terms isIndexed lo hi inclusiveMin inclusiveMax =
     (case numeric_range_bounds lo hi inclusiveMin inclusiveMax of (minInt64, maxInt64) \<Rightarrow>
        Option.bind (split_int64_range minInt64 maxInt64 4) (\<lambda>termRanges.
          ranges_enumerate (Some isIndexed) termRanges []))"

section \<open>Enumeration of a term range\<close>

fun bytes_num :: "bytes \<Rightarrow> nat" where
  "bytes_num [] = 0"
| "bytes_num (b # bs) = unat b * 256 ^ length bs + bytes_num bs"

lemma bytes_num_less: "bytes_num bs < 256 ^ length bs"
proof (induction bs)
  case (Cons b bs)
  have "unat b + 1 \<le> 256" using unsigned_less [of b, where 'a = nat] by simp
  then have "(unat b + 1) * 256 ^ length bs \<le> 256 * 256 ^ length bs" by (rule mult_right_mono) simp
  then have "unat b * 256 ^ length bs + 256 ^ length bs \<le> 256 * 256 ^ length bs" by (simp add: algebra_simps)
  with Cons have "unat b * 256 ^ length bs + bytes_num bs < 256 * 256 ^ length bs" by linarith
  then show ?case by simp
qed simp

lemma bytes_num_snoc: "bytes_num (bs @ [b]) = bytes_num bs * 256 + unat b"
  by (induction bs) (simp_all add: algebra_simps)

lemma cmp_head:
  "\<lbrakk>b < (k :: nat); d < k\<rbrakk> \<Longrightarrow> (a * k + b < c * k + d) = (a < c \<or> a = c \<and> b < d)"
proof (cases a c rule: linorder_cases)
  case less
  assume "b < k" "d < k"
  from less have "(a + 1) * k \<le> c * k" by (intro mult_right_mono) simp_all
  with less \<open>b < k\<close> show ?thesis by (simp add: algebra_simps)
next
  case greater
  assume "b < k" "d < k"
  from greater have "(c + 1) * k \<le> a * k" by (intro mult_right_mono) simp_all
  with greater \<open>d < k\<close> show ?thesis by (simp add: algebra_simps)
qed simp

lemma bytes_compare_num:
  "length xs = length ys \<Longrightarrow> bytes_compare xs ys =
     (if bytes_num xs < bytes_num ys then -1 else if bytes_num ys < bytes_num xs then 1 else 0)"
proof (induction xs ys rule: list_induct2)
  case (Cons x xs y ys)
  have "bytes_num (x # xs) < bytes_num (y # ys) \<longleftrightarrow> x < y \<or> x = y \<and> bytes_num xs < bytes_num ys"
    "bytes_num (y # ys) < bytes_num (x # xs) \<longleftrightarrow> y < x \<or> x = y \<and> bytes_num ys < bytes_num xs"
    using bytes_num_less [of xs] bytes_num_less [of ys] Cons.hyps
    by (auto simp: cmp_head word_less_nat_alt word_unat_eq_iff)
  with Cons.IH show ?case by auto
qed simp

lemma bytes_compare_0: "\<lbrakk>length xs = length ys; bytes_compare xs ys = 0\<rbrakk> \<Longrightarrow> xs = ys"
  by (induction xs ys rule: list_induct2) (auto split: if_splits)

lemma bytes_num_inj: "\<lbrakk>length xs = length ys; bytes_num xs = bytes_num ys\<rbrakk> \<Longrightarrow> xs = ys"
  by (rule bytes_compare_0) (simp_all add: bytes_compare_num)

lemma length_increment [simp]: "length (increment_bytes bs) = length bs"
proof -
  have "length (increment_rev cs) = length cs" for cs by (induction cs) simp_all
  then show ?thesis by (simp add: increment_bytes_def)
qed

lemma bytes_num_increment:
  "bytes_num bs + 1 < 256 ^ length bs \<Longrightarrow> bytes_num (increment_bytes bs) = bytes_num bs + 1"
proof -
  have "bytes_num (rev cs) + 1 < 256 ^ length cs \<Longrightarrow> bytes_num (rev (increment_rev cs)) = bytes_num (rev cs) + 1" for cs
  proof (induction cs)
    case (Cons c cs)
    show ?case
    proof (cases "c + 1 = 0")
      case True
      then have c: "c = -1" by (simp add: eq_neg_iff_add_eq_0)
      then have "bytes_num (rev cs) + 1 < 256 ^ length cs"
        using Cons.prems by (simp add: bytes_num_snoc unsigned_minus_1_eq_mask mask_eq_exp_minus_1)
      from Cons.IH [OF this] c show ?thesis by (simp add: bytes_num_snoc unsigned_minus_1_eq_mask mask_eq_exp_minus_1)
    next
      case False
      then have "unat (c + 1) = unat c + 1" by (metis unat_plus_if' add.commute unatSuc Suc_eq_plus1)
      with False show ?thesis by (simp add: bytes_num_snoc)
    qed
  qed simp
  from this [of "rev bs"] show "bytes_num bs + 1 < 256 ^ length bs \<Longrightarrow> ?thesis"
    by (simp add: increment_bytes_def)
qed


definition filter_opt :: "(bytes \<Rightarrow> bool) option \<Rightarrow> bytes \<Rightarrow> bool" where
  "filter_opt flt t = (case flt of None \<Rightarrow> True | Some f \<Rightarrow> f t)"

text \<open>The terms from \<open>nxt\<close> to the end of the range, in the order of the bytes.\<close>

lemma enumerate_loop_Some:
  assumes "length nxt = length endT" and "bytes_num endT + 1 < 256 ^ length endT"
  shows "\<exists>out. enumerate_loop flt endT nxt rv = Some (rv @ out) \<and>
    set out = {t. length t = length endT \<and> bytes_num nxt \<le> bytes_num t \<and> bytes_num t \<le> bytes_num endT \<and> filter_opt flt t} \<and>
    sorted_wrt (\<lambda>a b. bytes_num a < bytes_num b) out"
  using assms
proof (induction "Suc (bytes_num endT) - bytes_num nxt" arbitrary: nxt rv)
  case 0
  then have "\<not> bytes_compare nxt endT \<le> 0" by (simp add: bytes_compare_num)
  with 0 show ?case by (subst enumerate_loop.simps) auto
next
  case (Suc k)
  then have le: "bytes_num nxt \<le> bytes_num endT" by linarith
  then have c: "bytes_compare nxt endT \<le> 0" using Suc.prems by (simp add: bytes_compare_num)
  have i: "bytes_num (increment_bytes nxt) = bytes_num nxt + 1"
    using le Suc.prems by (intro bytes_num_increment) simp
  let ?rv = "if filter_opt flt nxt then rv @ [nxt] else rv"
  have "k = Suc (bytes_num endT) - bytes_num (increment_bytes nxt)" using i Suc.hyps(2) by simp
  from Suc.hyps(1) [OF this _ Suc.prems(2), of ?rv] Suc.prems(1) obtain out where
    out: "enumerate_loop flt endT (increment_bytes nxt) ?rv = Some (?rv @ out)"
      "set out = {t. length t = length endT \<and> bytes_num nxt + 1 \<le> bytes_num t \<and> bytes_num t \<le> bytes_num endT \<and> filter_opt flt t}"
      "sorted_wrt (\<lambda>a b. bytes_num a < bytes_num b) out"
    unfolding i by auto
  have eq: "enumerate_loop flt endT nxt rv = enumerate_loop flt endT (increment_bytes nxt) ?rv"
    using c by (subst enumerate_loop.simps) (simp add: filter_opt_def split: option.splits)
  have same: "t = nxt \<longleftrightarrow> bytes_num t = bytes_num nxt" if "length t = length endT" for t
    using that Suc.prems(1) bytes_num_inj [of t nxt] by auto
  have split: "bytes_num nxt \<le> bytes_num t \<longleftrightarrow> t = nxt \<or> bytes_num nxt + 1 \<le> bytes_num t" if "length t = length endT" for t
    using same [OF that] by linarith
  show ?case
  proof (intro exI conjI)
    show "enumerate_loop flt endT nxt rv = Some (rv @ (if filter_opt flt nxt then nxt # out else out))"
      unfolding eq out(1) by simp
    show "set (if filter_opt flt nxt then nxt # out else out) = {t. length t = length endT \<and> bytes_num nxt \<le> bytes_num t \<and>
      bytes_num t \<le> bytes_num endT \<and> filter_opt flt t}"
      using out(2) split le Suc.prems(1) by auto
    show "sorted_wrt (\<lambda>a b. bytes_num a < bytes_num b) (if filter_opt flt nxt then nxt # out else out)"
      using out(2,3) by auto
  qed
qed

section \<open>The split of an interval\<close>

definition range_of :: "int64 \<times> int64 \<times> nat \<Rightarrow> term_range" where
  "range_of = (\<lambda>(a, b, s). \<lparr> startTerm = coded a s, endTerm = coded b s \<rparr>)"

definition covers :: "int64 \<Rightarrow> int64 \<times> int64 \<times> nat \<Rightarrow> bool" where
  "covers v = (\<lambda>(a, b, s). s < 64 \<and> sint a div 2 ^ s \<le> sint v div 2 ^ s \<and> sint v div 2 ^ s \<le> sint b div 2 ^ s)"

lemma coded_low: "s < 64 \<Longrightarrow> coded (b OR (push_bit s 1 - 1)) s = coded b s"
proof -
  assume "s < 64"
  have "drop_bit s ((b OR (push_bit s 1 - 1)) XOR w) = drop_bit s (b XOR w)" for w :: int64
    by (rule bit_word_eqI) (auto simp: bit_simps push_bit_of_1 simp flip: mask_eq_exp_minus_1)
  then show ?thesis by (simp add: coded_def)
qed

lemma new_range_eq: "s < 64 \<Longrightarrow> new_range a b s = Some (range_of (a, b, s))"
  by (simp only: new_range_def Let_def must_new_prefix_coded_int64_def new_prefix_coded coded_low sum.case option.case range_of_def prod.case)

lemma lex_le: "\<lbrakk>0 \<le> r; r < P; 0 \<le> t; t < P\<rbrakk> \<Longrightarrow> (X * P + r \<le> Z * P + t) = (X < Z \<or> X = Z \<and> r \<le> (t :: int))"
proof (cases X Z rule: linorder_cases)
  case less
  assume "0 \<le> r" "r < P" "0 \<le> t"
  then have "(X + 1) * P \<le> Z * P" using less by (intro mult_right_mono) simp_all
  with \<open>r < P\<close> \<open>0 \<le> t\<close> less show ?thesis by (simp add: algebra_simps)
next
  case greater
  assume "0 \<le> r" "t < P" "0 \<le> t"
  then have "(Z + 1) * P \<le> X * P" using greater by (intro mult_right_mono) simp_all
  with \<open>0 \<le> r\<close> \<open>t < P\<close> greater show ?thesis by (simp add: algebra_simps)
qed simp

lemma split_cover:
  fixes P x y z :: int
  assumes "0 < P"
    and "(if x mod P \<noteq> 0 then x div P + 1 else x div P) \<le> (if y mod P \<noteq> P - 1 then y div P - 1 else y div P)"
  shows "(x mod P \<noteq> 0 \<and> x \<le> z \<and> z \<le> x div P * P + (P - 1)) \<or> (y mod P \<noteq> P - 1 \<and> y div P * P \<le> z \<and> z \<le> y) \<or>
    ((if x mod P \<noteq> 0 then x div P + 1 else x div P) \<le> z div P \<and>
      z div P \<le> (if y mod P \<noteq> P - 1 then y div P - 1 else y div P))
    \<longleftrightarrow> x \<le> z \<and> z \<le> y"
proof -
  define X r Y u Z t where d: "X = x div P" "r = x mod P" "Y = y div P" "u = y mod P" "Z = z div P" "t = z mod P"
  have eq: "x = X * P + r" "y = Y * P + u" "z = Z * P + t"
    unfolding d by (simp_all add: mult.commute)
  have b: "0 \<le> r" "r < P" "0 \<le> u" "u < P" "0 \<le> t" "t < P"
    using assms(1) unfolding d by simp_all
  have l: "x \<le> z \<longleftrightarrow> X < Z \<or> X = Z \<and> r \<le> t" "z \<le> y \<longleftrightarrow> Z < Y \<or> Z = Y \<and> t \<le> u"
    "z \<le> X * P + (P - 1) \<longleftrightarrow> Z < X \<or> Z = X \<and> t \<le> P - 1" "Y * P \<le> z \<longleftrightarrow> Y < Z \<or> Y = Z \<and> 0 \<le> t"
    unfolding eq using b lex_le [of t P "P - 1" Z X] lex_le [of 0 P t Y Z] by (simp_all add: lex_le)
  show ?thesis
    using assms(2) b unfolding d(1,3,5) [symmetric] d(2,4) [symmetric] l by auto
qed

lemma sint_bit: "i < 64 \<Longrightarrow> bit (sint w) i = bit w i" for w :: int64
  by (simp add: bit_sint_iff)

lemma sint_not: "sint (NOT b) = NOT (sint b)" for b :: int64
  by (rule bit_eqI) (simp add: bit_sint_iff bit_not_iff_eq, use bit_imp_le_length [of b] in \<open>fastforce simp: bit_simps\<close>)

lemma sint_or: "sint (a OR b) = sint a OR sint b"
  and sint_and_not: "sint (a AND NOT b) = sint a AND NOT (sint b)" for a b :: int64
  by (simp_all add: signed_or_eq signed_and_eq sint_not)

lemma sint_step_mask: 
  assumes "s + p < 64" shows "sint (push_bit s (push_bit p 1 - 1) :: int64) = push_bit s (mask p :: int)"
proof (rule bit_eqI)
  fix n
  show "bit (sint (push_bit s (push_bit p 1 - 1) :: int64)) n = bit (push_bit s (mask p :: int)) n"
    using assms by (auto simp: bit_sint_iff bit_simps push_bit_of_1 simp flip: mask_eq_exp_minus_1)
qed

lemma sint_of_int: "\<exists>j. sint (word_of_int k :: int64) = k + 2 ^ 64 * j"
proof (intro exI)
  have "sint (word_of_int k :: int64) = (k + 2 ^ 63) mod 2 ^ 64 - 2 ^ 63"
    by (simp add: sint_sbintrunc' signed_take_bit_eq_take_bit_shift take_bit_eq_mod)
  then show "sint (word_of_int k :: int64) = k + 2 ^ 64 * - ((k + 2 ^ 63) div 2 ^ 64)"
    using minus_div_mult_eq_mod [of "k + 2 ^ 63" "2 ^ 64"] by simp
qed

lemma pow_word: "push_bit k 1 = (word_of_int (2 ^ k) :: int64)"
  by (simp add: push_bit_eq_mult)

lemma sint_add_pow: "\<exists>j. sint (a + push_bit k 1) = sint a + 2 ^ k + 2 ^ 64 * j"
  and sint_sub_pow: "\<exists>j. sint (a - push_bit k 1) = sint a - 2 ^ k + 2 ^ 64 * j" for a :: int64
  using sint_of_int [of "sint a + 2 ^ k"] sint_of_int [of "sint a - 2 ^ k"]
  by (simp_all add: pow_word)


lemma int_or_mask: "(x OR mask p :: int) = x div 2 ^ p * 2 ^ p + (2 ^ p - 1)"
proof -
  have "x OR mask p = push_bit p (drop_bit p x) OR mask p"
    by (rule bit_eqI) (auto simp: bit_simps)
  also have "\<dots> = push_bit p (drop_bit p x) + mask p"
    by (rule disjunctive_add [symmetric]) (auto simp: bit_simps)
  finally show ?thesis by (simp add: push_bit_eq_mult drop_bit_eq_div mask_eq_exp_minus_1)
qed

lemma int_and_not_mask: "(x AND NOT (mask p) :: int) = x div 2 ^ p * 2 ^ p"
proof -
  have "x AND NOT (mask p) = push_bit p (drop_bit p x)"
    by (rule bit_eqI) (auto simp: bit_simps)
  then show ?thesis by (simp add: push_bit_eq_mult drop_bit_eq_div)
qed

lemma int_clear_bounds:
  assumes "0 \<le> (m :: int)" shows "x AND NOT m \<le> x" "x - m \<le> x AND NOT m"
proof -
  have "x = (x AND m) OR (x AND NOT m)" by (rule bit_eqI) (auto simp: bit_simps)
  also have "\<dots> = (x AND m) + (x AND NOT m)"
    by (rule disjunctive_add [symmetric]) (auto simp: bit_simps)
  finally have "x = (x AND m) + (x AND NOT m)" .
  moreover have "0 \<le> x AND m" "x AND m \<le> m" using assms by (simp_all add: AND_upper2')
  ultimately show "x AND NOT m \<le> x" "x - m \<le> x AND NOT m" by linarith+
qed

definition step_mask :: "nat \<Rightarrow> nat \<Rightarrow> int64" where
  "step_mask s p = push_bit s (push_bit p 1 - 1)"

lemma sint_step_mask': "s + p < 64 \<Longrightarrow> sint (step_mask s p) = push_bit s (mask p)"
  unfolding step_mask_def by (rule sint_step_mask)

lemma sint_eq_iff: "v = w \<longleftrightarrow> sint v = sint w" for v w :: int64
  by (auto intro: signed_word_eqI)

lemma sint_and_mask: "s + p < 64 \<Longrightarrow> sint (w AND step_mask s p) = push_bit s (take_bit p (drop_bit s (sint w)))"
proof -
  assume "s + p < 64"
  then have "sint (w AND step_mask s p) = sint w AND push_bit s (mask p)"
    by (simp only: signed_and_eq sint_step_mask')
  also have "\<dots> = push_bit s (take_bit p (drop_bit s (sint w)))"
    by (rule bit_eqI) (auto simp: bit_simps)
  finally show ?thesis .
qed

lemma push_bit_inj: "push_bit s x = push_bit s y \<longleftrightarrow> x = (y :: int)"
  by (simp add: push_bit_eq_mult)

lemma step_lower: "s + p < 64 \<Longrightarrow> w AND step_mask s p \<noteq> 0 \<longleftrightarrow> sint w div 2 ^ s mod 2 ^ p \<noteq> 0"
  by (simp add: sint_eq_iff sint_and_mask)
     (simp add: drop_bit_eq_div take_bit_eq_mod push_bit_eq_mult)

lemma step_upper:
  "s + p < 64 \<Longrightarrow> w AND step_mask s p \<noteq> step_mask s p \<longleftrightarrow> sint w div 2 ^ s mod 2 ^ p \<noteq> 2 ^ p - 1"
  by (simp add: sint_eq_iff sint_and_mask sint_step_mask' push_bit_inj)
     (simp add: drop_bit_eq_div take_bit_eq_mod mask_eq_exp_minus_1)

lemma step_set: "s + p < 64 \<Longrightarrow> sint (w OR step_mask s p) div 2 ^ s = sint w div 2 ^ s div 2 ^ p * 2 ^ p + (2 ^ p - 1)"
proof -
  assume "s + p < 64"
  then have "sint (w OR step_mask s p) div 2 ^ s = drop_bit s (sint w) OR mask p"
    by (simp add: sint_or sint_step_mask' flip: drop_bit_eq_div) (simp add: drop_bit_eq_div push_bit_eq_mult)
  then show ?thesis by (simp add: int_or_mask drop_bit_eq_div)
qed

lemma step_clear: "s + p < 64 \<Longrightarrow> sint (w AND NOT (step_mask s p)) div 2 ^ s = sint w div 2 ^ s div 2 ^ p * 2 ^ p"
proof -
  assume "s + p < 64"
  then have "sint (w AND NOT (step_mask s p)) div 2 ^ s = drop_bit s (sint w AND NOT (push_bit s (mask p)))"
    by (simp only: sint_and_not sint_step_mask' drop_bit_eq_div)
  also have "\<dots> = drop_bit s (sint w) AND NOT (mask p)"
    by (rule bit_eqI) (auto simp: bit_simps)
  finally show ?thesis by (simp add: int_and_not_mask drop_bit_eq_div)
qed

lemma step_clear_high:
  "s + p < 64 \<Longrightarrow> sint (w AND NOT (step_mask s p)) div 2 ^ (s + p) = sint w div 2 ^ s div 2 ^ p"
  using step_clear [of s p w] by (simp add: power_add div_mult2_eq zdiv_zmult2_eq)

lemma step_clear_bounds:
  assumes "s + p < 64"
  shows "sint (w AND NOT (step_mask s p)) \<le> sint w"
    and "sint w - 2 ^ (s + p) < sint (w AND NOT (step_mask s p))"
proof -
  have m: "0 \<le> push_bit s (mask p :: int)" "push_bit s (mask p :: int) < 2 ^ (s + p)"
    by (simp_all add: push_bit_eq_mult mask_eq_exp_minus_1 power_add algebra_simps)
  show "sint (w AND NOT (step_mask s p)) \<le> sint w" "sint w - 2 ^ (s + p) < sint (w AND NOT (step_mask s p))"
    using int_clear_bounds [OF m(1), of "sint w"] m(2) assms
    by (simp_all add: sint_and_not sint_step_mask')
qed

lemma sint_range: "- (2 ^ 63) \<le> sint w" "sint w < 2 ^ 63" for w :: int64
  using sint_ge [of w] sint_lt [of w] by simp_all

lemma no_wrap:
  fixes a x k j M :: int
  assumes "0 < M" "- M \<le> a" "a < M" "- M \<le> x" "x < M" "0 < k" "k \<le> M"
  shows "\<lbrakk>x = a + k + 2 * M * j; a \<le> x\<rbrakk> \<Longrightarrow> j = 0"
    and "\<lbrakk>x = a - k + 2 * M * j; x < a + k\<rbrakk> \<Longrightarrow> j = 0"
proof -
  have up: "2 * M \<le> 2 * M * j" if "1 \<le> j"
    using mult_left_mono [OF that, of "2 * M"] assms(1) by simp
  have down: "2 * M * j \<le> - (2 * M)" if "j \<le> -1"
    using mult_left_mono [OF that, of "2 * M"] assms(1) by simp
  have three: "j = 0 \<or> 1 \<le> j \<or> j \<le> -1" by linarith
  show "\<lbrakk>x = a + k + 2 * M * j; a \<le> x\<rbrakk> \<Longrightarrow> j = 0"
    using three up down assms by linarith
  show "\<lbrakk>x = a - k + 2 * M * j; x < a + k\<rbrakk> \<Longrightarrow> j = 0"
    using three up down assms by linarith
qed

lemma step_next_lower:
  assumes "s + p < 64" "\<not> (a + push_bit (s + p) 1) AND NOT (step_mask s p) <s a"
  shows "sint ((a + push_bit (s + p) 1) AND NOT (step_mask s p)) div 2 ^ (s + p) = sint a div 2 ^ s div 2 ^ p + 1"
proof -
  obtain j where j: "sint (a + push_bit (s + p) 1) = sint a + 2 ^ (s + p) + 2 ^ 64 * j"
    using sint_add_pow by blast
  have k: "(2 :: int) ^ (s + p) \<le> 2 ^ 63" "0 < (2 :: int) ^ (s + p)" using assms(1) power_increasing [of "s + p" 63 "2 :: int"] by simp_all
  have "sint a \<le> sint (a + push_bit (s + p) 1)"
    using assms(2) step_clear_bounds(1) [OF assms(1), of "a + push_bit (s + p) 1"] by (simp add: word_sless_alt)
  then have "j = 0"
    using j by (intro no_wrap(1) [OF _ sint_range [of a] sint_range [of "a + push_bit (s + p) 1"] k(2,1)]) simp_all
  have "sint ((a + push_bit (s + p) 1) AND NOT (step_mask s p)) div 2 ^ (s + p) = (sint a + 2 ^ (s + p)) div 2 ^ (s + p)"
    using step_clear_high [OF assms(1), of "a + push_bit (s + p) 1"] j \<open>j = 0\<close> by (simp add: power_add zdiv_zmult2_eq)
  also have "\<dots> = sint a div 2 ^ s div 2 ^ p + 1"
    using div_mult_self1 [of "2 ^ (s + p)" "sint a" 1] by (simp add: power_add zdiv_zmult2_eq)
  finally show ?thesis .
qed

lemma step_next_upper:
  assumes "s + p < 64" "\<not> b <s (b - push_bit (s + p) 1) AND NOT (step_mask s p)"
  shows "sint ((b - push_bit (s + p) 1) AND NOT (step_mask s p)) div 2 ^ (s + p) = sint b div 2 ^ s div 2 ^ p - 1"
proof -
  obtain j where j: "sint (b - push_bit (s + p) 1) = sint b - 2 ^ (s + p) + 2 ^ 64 * j"
    using sint_sub_pow by blast
  have k: "(2 :: int) ^ (s + p) \<le> 2 ^ 63" "0 < (2 :: int) ^ (s + p)" using assms(1) power_increasing [of "s + p" 63 "2 :: int"] by simp_all
  have "sint (b - push_bit (s + p) 1) < sint b + 2 ^ (s + p)"
    using assms(2) step_clear_bounds(2) [OF assms(1), of "b - push_bit (s + p) 1"] by (simp add: word_sless_alt)
  then have "j = 0"
    using j by (intro no_wrap(2) [OF _ sint_range [of b] sint_range [of "b - push_bit (s + p) 1"] k(2,1)]) simp_all
  have "sint ((b - push_bit (s + p) 1) AND NOT (step_mask s p)) div 2 ^ (s + p) = (sint b - 2 ^ (s + p)) div 2 ^ (s + p)"
    using step_clear_high [OF assms(1), of "b - push_bit (s + p) 1"] j \<open>j = 0\<close> by (simp add: power_add zdiv_zmult2_eq)
  also have "\<dots> = sint b div 2 ^ s div 2 ^ p - 1"
    using div_mult_self1 [of "2 ^ (s + p)" "sint b" "-1"] by (simp add: power_add zdiv_zmult2_eq)
  finally show ?thesis .
qed


lemma split_loop_covers:
  assumes "0 < p" "s < 64"
  shows "\<exists>trips. split_loop p s a b rv = Some (rv @ map range_of trips) \<and>
    (\<forall>(x, y, s')\<in>set trips. s' < 64 \<and> s' mod p = s mod p) \<and>
    (\<forall>v. (\<exists>t\<in>set trips. covers v t) \<longleftrightarrow>
       sint a div 2 ^ s \<le> sint v div 2 ^ s \<and> sint v div 2 ^ s \<le> sint b div 2 ^ s)"
  using assms(2)
proof (induction "64 - s" arbitrary: s a b rv rule: less_induct)
  case less
  define m where "m = step_mask s p"
  define hl where "hl \<longleftrightarrow> a AND m \<noteq> 0"
  define hu where "hu \<longleftrightarrow> b AND m \<noteq> m"
  define a' where "a' = (if hl then (a + push_bit (s + p) 1) AND NOT m else a AND NOT m)"
  define b' where "b' = (if hu then (b - push_bit (s + p) 1) AND NOT m else b AND NOT m)"
  define stop where "stop \<longleftrightarrow> 64 \<le> s + p \<or> b' <s a' \<or> a' <s a \<or> b <s b'"
  define low where "low = (if hl then [(a, a OR m, s)] else [])"
  define high where "high = (if hu then [(b AND NOT m, b, s)] else [])"
  have unfold: "split_loop p s a b rv =
     (if stop then append_range rv (Some (range_of (a, b, s)))
      else split_loop p (s + p) a' b' (rv @ map range_of (low @ high)))"
    using less.prems
    by (subst split_loop.simps)
       (simp only: Let_def step_mask_def [symmetric] m_def [symmetric] hl_def [symmetric] hu_def [symmetric]
          a'_def [symmetric] b'_def [symmetric] stop_def [symmetric] new_range_eq,
        simp add: append_range_def low_def high_def)
  show ?case
  proof (cases stop)
    case True
    then show ?thesis
      using less.prems by (intro exI [of _ "[(a, b, s)]"]) (simp add: unfold append_range_def covers_def)
  next
    case False
    then have sp: "s + p < 64" and ord: "a' \<le>s b'" and nw: "\<not> a' <s a" "\<not> b <s b'"
      by (auto simp: stop_def word_sless_alt word_sle_eq)
    have dec: "64 - (s + p) < 64 - s" using sp assms(1) by linarith
    from less.hyps [OF dec sp, of a' b' "rv @ map range_of (low @ high)"] obtain trips where
      IH: "split_loop p (s + p) a' b' (rv @ map range_of (low @ high)) = Some ((rv @ map range_of (low @ high)) @ map range_of trips)"
        "\<forall>(x, y, s')\<in>set trips. s' < 64 \<and> s' mod p = (s + p) mod p"
        "\<And>v. (\<exists>t\<in>set trips. covers v t) \<longleftrightarrow>
          sint a' div 2 ^ (s + p) \<le> sint v div 2 ^ (s + p) \<and> sint v div 2 ^ (s + p) \<le> sint b' div 2 ^ (s + p)"
      by blast
    define P x y where "P = (2 :: int) ^ p" "x = sint a div 2 ^ s" "y = sint b div 2 ^ s"
    have hl: "hl \<longleftrightarrow> x mod P \<noteq> 0" and hu: "hu \<longleftrightarrow> y mod P \<noteq> P - 1"
      using sp by (simp_all add: hl_def hu_def m_def step_lower step_upper P_x_y_def)
    have a': "sint a' div 2 ^ (s + p) = (if hl then x div P + 1 else x div P)"
      using step_next_lower [OF sp, of a] nw step_clear_high [OF sp, of a] by (auto simp: a'_def m_def P_x_y_def split: if_splits)
    have b': "sint b' div 2 ^ (s + p) = (if hu then y div P - 1 else y div P)"
      using step_next_upper [OF sp, of b] nw step_clear_high [OF sp, of b] by (auto simp: b'_def m_def P_x_y_def split: if_splits)
    have "sint a' div 2 ^ (s + p) \<le> sint b' div 2 ^ (s + p)"
      using ord by (intro zdiv_mono1) (simp_all add: word_sle_eq)
    then have mono: "(if x mod P \<noteq> 0 then x div P + 1 else x div P) \<le> (if y mod P \<noteq> P - 1 then y div P - 1 else y div P)"
      unfolding a' b' hl hu .
    have cov: "(\<exists>t\<in>set (low @ high @ trips). covers v t) \<longleftrightarrow> x \<le> sint v div 2 ^ s \<and> sint v div 2 ^ s \<le> y" for v
    proof -
      have z: "sint v div 2 ^ (s + p) = sint v div 2 ^ s div P"
        by (simp add: P_x_y_def power_add zdiv_zmult2_eq)
      have l: "(\<exists>t\<in>set low. covers v t) \<longleftrightarrow> x mod P \<noteq> 0 \<and> x \<le> sint v div 2 ^ s \<and> sint v div 2 ^ s \<le> x div P * P + (P - 1)"
        using less.prems step_set [OF sp, of a] by (simp add: low_def hl covers_def m_def P_x_y_def)
      have h: "(\<exists>t\<in>set high. covers v t) \<longleftrightarrow> y mod P \<noteq> P - 1 \<and> y div P * P \<le> sint v div 2 ^ s \<and> sint v div 2 ^ s \<le> y"
        using less.prems step_clear [OF sp, of b] by (simp add: high_def hu covers_def m_def P_x_y_def)
      have "0 < P" by (simp add: P_x_y_def)
      from split_cover [OF this mono, of "sint v div 2 ^ s"] show ?thesis
        unfolding set_append bex_Un l h IH(3) z a' b' hl hu by simp
    qed
    show ?thesis
    proof (intro exI [of _ "low @ high @ trips"] conjI)
      show "split_loop p s a b rv = Some (rv @ map range_of (low @ high @ trips))"
        using False IH(1) by (simp add: unfold)
      show "\<forall>(x, y, s')\<in>set (low @ high @ trips). s' < 64 \<and> s' mod p = s mod p"
        using IH(2) less.prems by (auto simp: low_def high_def)
      show "\<forall>v. (\<exists>t\<in>set (low @ high @ trips). covers v t) \<longleftrightarrow>
        sint a div 2 ^ s \<le> sint v div 2 ^ s \<and> sint v div 2 ^ s \<le> sint b div 2 ^ s"
        using cov by (simp only: P_x_y_def) blast
    qed
  qed
qed


section \<open>A numeric range finds exactly the values between its bounds\<close>

lemma bytes_num_first:
  "bytes_num (b # bs) < (unat b + 1) * 256 ^ length bs"
  using bytes_num_less [of bs] by (simp add: algebra_simps)

lemma unat_first: "s < 64 \<Longrightarrow> unat (shift_start_int64 + of_nat s) = 32 + s"
  by (simp add: shift_start_int64_def unat_word_ariths unat_of_nat)

lemma range_enumerate_coded:
  assumes "s < 64"
  shows "\<exists>out. range_enumerate flt (range_of (a, b, s)) = Some out \<and>
    (\<forall>v s'. s' < 64 \<longrightarrow> filter_opt flt (coded v s') \<longrightarrow>
       (coded v s' \<in> set out \<longleftrightarrow> s' = s \<and> covers v (a, b, s)))"
proof -
  let ?n = "length (coded b s)"
  have len: "length (coded a s) = ?n" "length (coded v s) = ?n" for v by (simp_all add: coded_def)
  have hd: "coded w s' = (shift_start_int64 + of_nat s') # tl (coded w s')" for w s' by (simp add: coded_def)
  have top: "bytes_num (coded b s) + 1 < 256 ^ ?n"
  proof -
    have "bytes_num (coded b s) < (32 + s + 1) * 256 ^ (?n - 1)"
      using bytes_num_first [of "shift_start_int64 + of_nat s" "tl (coded b s)"] hd [of b s] unat_first [OF assms] by simp
    also have "\<dots> \<le> 96 * 256 ^ (?n - 1)" using assms by (intro mult_right_mono) simp_all
    finally have "bytes_num (coded b s) + 1 \<le> 96 * 256 ^ (?n - 1)" by simp
    also have "\<dots> < 256 ^ ?n" by (simp add: coded_def)
    finally show ?thesis .
  qed
  obtain out where out: "range_enumerate flt (range_of (a, b, s)) = Some out"
    "set out = {t. length t = ?n \<and> bytes_num (coded a s) \<le> bytes_num t \<and> bytes_num t \<le> bytes_num (coded b s) \<and> filter_opt flt t}"
    using enumerate_loop_Some [OF len(1) top, of flt "[]"] by (auto simp: range_enumerate_def range_of_def)
  have "coded v s' \<in> set out \<longleftrightarrow> s' = s \<and> covers v (a, b, s)" if "s' < 64" "filter_opt flt (coded v s')" for v s'
  proof (cases "s' = s")
    case True
    have le: "bytes_num (coded x s) \<le> bytes_num (coded y s) \<longleftrightarrow> sint x div 2 ^ s \<le> sint y div 2 ^ s" for x y
      using coded_compare [of s y x] assms
        bytes_compare_num [OF trans [OF len(2) [of y] len(2) [of x, symmetric]]]
      by (simp add: new_prefix_coded split: if_splits)
    show ?thesis using that True out(2) len assms by (simp add: covers_def le)
  next
    case False
    have "coded v s' \<notin> set out"
    proof
      assume i: "coded v s' \<in> set out"
      then have l: "length (tl (coded v s')) = ?n - 1" "length (tl (coded a s)) = ?n - 1" "length (tl (coded b s)) = ?n - 1"
        using out(2) len(2) [of a] by auto
      have num: "bytes_num (coded w k) = (32 + k) * 256 ^ (?n - 1) + bytes_num (tl (coded w k)) \<and> bytes_num (tl (coded w k)) < 256 ^ (?n - 1)"
        if "k < 64" "length (tl (coded w k)) = ?n - 1" for w k
        using hd [of w k] unat_first [OF that(1)] that(2) bytes_num_less [of "tl (coded w k)"] by (metis bytes_num.simps(2))
      have "\<not> bytes_num (coded v s') < bytes_num (coded a s)" "\<not> bytes_num (coded b s) < bytes_num (coded v s')"
        using i out(2) by auto
      then show False
        using num [OF that(1) l(1)] num [OF assms l(2)] num [OF assms l(3)] False by (auto simp: cmp_head)
    qed
    with False show ?thesis by simp
  qed
  with out(1) show ?thesis by blast
qed

lemma ranges_enumerate_coded:
  assumes "\<forall>(x, y, s)\<in>set trips. s < 64"
  shows "\<exists>out. ranges_enumerate flt (map range_of trips) rv = Some (rv @ out) \<and>
    (\<forall>v s'. s' < 64 \<longrightarrow> filter_opt flt (coded v s') \<longrightarrow>
       (coded v s' \<in> set out \<longleftrightarrow> (\<exists>(a, b, s)\<in>set trips. s' = s \<and> covers v (a, b, s))))"
  using assms
proof (induction trips arbitrary: rv)
  case (Cons t trips)
  obtain a b s where t: "t = (a, b, s)" by (cases t)
  with Cons.prems range_enumerate_coded [of s flt a b] obtain o1 where
    o1: "range_enumerate flt (range_of t) = Some o1"
      "\<And>v s'. \<lbrakk>s' < 64; filter_opt flt (coded v s')\<rbrakk> \<Longrightarrow> coded v s' \<in> set o1 \<longleftrightarrow> s' = s \<and> covers v t" by auto
  from Cons.IH [of "rv @ o1"] Cons.prems obtain o2 where
    o2: "ranges_enumerate flt (map range_of trips) (rv @ o1) = Some ((rv @ o1) @ o2)"
      "\<And>v s'. \<lbrakk>s' < 64; filter_opt flt (coded v s')\<rbrakk> \<Longrightarrow>
        coded v s' \<in> set o2 \<longleftrightarrow> (\<exists>(a, b, s)\<in>set trips. s' = s \<and> covers v (a, b, s))" by auto
  show ?case
    using o1 o2 by (intro exI [of _ "o1 @ o2"]) (simp add: t)
qed simp

lemma add_shift_tokens_Some:
  assumes "0 < p"
  shows "\<exists>out. add_shift_tokens x p s tokens = Some (tokens @ out) \<and>
    set out = {coded x s' | s'. s \<le> s' \<and> s' < 64 \<and> s' mod p = s mod p}"
proof (induction "64 - s" arbitrary: s tokens rule: less_induct)
  case less
  show ?case
  proof (cases "s < 64")
    case True
    have dec: "64 - (s + p) < 64 - s" using True assms by linarith
    from less [OF dec, of "tokens @ [coded x s]"] obtain out where
      "add_shift_tokens x p (s + p) (tokens @ [coded x s]) = Some ((tokens @ [coded x s]) @ out)"
      "set out = {coded x s' | s'. s + p \<le> s' \<and> s' < 64 \<and> s' mod p = s mod p}"
      by auto
    have step: "s + p \<le> s'" if "s \<le> s'" "s' mod p = s mod p" "s' \<noteq> s" for s'
    proof -
      have "p dvd s' - s" using that by (simp flip: mod_eq_dvd_iff_nat)
      then show ?thesis using that dvd_imp_le [of p "s' - s"] by simp
    qed
    have "insert (coded x s) (set out) = {coded x s' | s'. s \<le> s' \<and> s' < 64 \<and> s' mod p = s mod p}"
    proof (intro equalityI subsetI)
      fix t assume "t \<in> {coded x s' | s'. s \<le> s' \<and> s' < 64 \<and> s' mod p = s mod p}"
      then obtain s' where "t = coded x s'" "s \<le> s'" "s' < 64" "s' mod p = s mod p" by blast
      then show "t \<in> insert (coded x s) (set out)"
        using step [of s'] unfolding \<open>set out = _\<close> by (cases "s' = s") auto
    next
      fix t assume "t \<in> insert (coded x s) (set out)"
      then show "t \<in> {coded x s' | s'. s \<le> s' \<and> s' < 64 \<and> s' mod p = s mod p}"
        using True unfolding \<open>set out = _\<close> by auto
    qed
    with \<open>add_shift_tokens x p (s + p) _ = _\<close> show ?thesis
      using True by (subst add_shift_tokens.simps) (simp add: new_prefix_coded)
  next
    case False
    then show ?thesis by (subst add_shift_tokens.simps) auto
  qed
qed


lemma numeric_analyze_coded:
  "\<exists>out. numeric_analyze 4 (coded x 0) = Some out \<and> set out = {coded x s | s. s < 64 \<and> s mod 4 = 0}"
proof -
  have "numeric_analyze 4 (coded x 0) = add_shift_tokens x 4 0 []"
    using coded_decode(2) [of 0 x]
    by (subst add_shift_tokens.simps) (simp add: numeric_analyze_def new_prefix_coded)
  with add_shift_tokens_Some [of 4 x 0 "[]"] show ?thesis by simp
qed

lemma split_int64_range_covers:
  "\<exists>trips. split_int64_range a b 4 = Some (map range_of trips) \<and>
    (\<forall>(x, y, s)\<in>set trips. s < 64 \<and> s mod 4 = 0) \<and>
    (\<forall>v. (\<exists>t\<in>set trips. covers v t) \<longleftrightarrow> sint a \<le> sint v \<and> sint v \<le> sint b)"
proof (cases "b <s a")
  case True
  then show ?thesis by (intro exI [of _ "[]"]) (simp add: split_int64_range_def word_sless_alt)
next
  case False
  then show ?thesis
    using split_loop_covers [of 4 0 a b "[]"] by (simp add: split_int64_range_def)
qed

lemma mag63_bound:
  assumes "\<not> float64_is_nan f" shows "unat (take_bit 63 f) \<le> 0x7FF0000000000000"
proof -
  let ?n = "unat (take_bit 63 f)"
  have "?n div 2 ^ 52 = unat (take_bit 11 (drop_bit 52 f))" "?n mod 2 ^ 52 = unat (take_bit 52 f)"
    by (rule take63_fields)+
  moreover have "unat (take_bit 11 (drop_bit 52 f)) < 2048"
    using take_bit_nat_less_exp [of 11 "unat (drop_bit 52 f)"] by (simp add: unsigned_take_bit_eq)
  ultimately have "?n div 2 ^ 52 < 2047 \<or> ?n div 2 ^ 52 = 2047 \<and> ?n mod 2 ^ 52 = 0"
    using assms by (auto simp: float64_is_nan_def)
  moreover have "?n = ?n div 2 ^ 52 * 2 ^ 52 + ?n mod 2 ^ 52" "?n mod 2 ^ 52 < 2 ^ 52"
    by simp_all
  moreover define q r where "q = ?n div 2 ^ 52" and "r = ?n mod 2 ^ 52"
  ultimately show ?thesis by auto
qed


lemma sint_float_bounds:
  assumes "\<not> float64_is_nan f"
  shows "- 0x7FF0000000000001 \<le> sint (float64_to_int64 f)" and "sint (float64_to_int64 f) \<le> 0x7FF0000000000000"
  using mag63_bound [OF assms] sint_float64_nat [of f] by (auto split: if_splits simp del: of_nat_unat)

lemma infinities:
  "sint (float64_to_int64 0xFFF0000000000000) = - 0x7FF0000000000001"
  "sint (float64_to_int64 0x7FF0000000000000) = 0x7FF0000000000000"
  "\<not> float64_is_nan 0xFFF0000000000000" "\<not> float64_is_nan 0x7FF0000000000000"
  by (simp_all add: sint_float64_to_int64 float64_is_nan_def take_bit_eq_mask mask_eq_exp_minus_1)

lemma sint_consts: "sint (0x8000000000000000 :: int64) = - (2 ^ 63)" "sint (0x7FFFFFFFFFFFFFFF :: int64) = 2 ^ 63 - 1"
  by simp_all

lemma sint_Suc: "w \<noteq> 0x7FFFFFFFFFFFFFFF \<Longrightarrow> sint (w + 1) = sint w + 1" for w :: int64
  using sint_add_pow [of w 0] sint_range [of w] sint_range [of "w + 1"] sint_eq_iff [of w "0x7FFFFFFFFFFFFFFF"] sint_consts(2)
  by auto

lemma sint_pred: "w \<noteq> 0x8000000000000000 \<Longrightarrow> sint (w - 1) = sint w - 1" for w :: int64
  using sint_sub_pow [of w 0] sint_range [of w] sint_range [of "w - 1"] sint_eq_iff [of w "0x8000000000000000"] sint_consts(1)
  by auto

text \<open>
  The order of the integer images: that of the numbers, with the negative zero before the positive one.
  A bound that is infinite on its side is no bound, even where it is exclusive.
\<close>

definition float64_before :: "float64 \<Rightarrow> float64 \<Rightarrow> bool" where
  "float64_before f g \<longleftrightarrow> float64_lt f g \<or> f = 0x8000000000000000 \<and> g = 0"

definition above_min :: "bool \<Rightarrow> float64 \<Rightarrow> float64 \<Rightarrow> bool" where
  "above_min inclusiveMin lo v \<longleftrightarrow>
     lo = 0xFFF0000000000000 \<or> (if inclusiveMin then \<not> float64_before v lo else float64_before lo v)"

definition below_max :: "bool \<Rightarrow> float64 \<Rightarrow> float64 \<Rightarrow> bool" where
  "below_max inclusiveMax hi v \<longleftrightarrow>
     hi = 0x7FF0000000000000 \<or> (if inclusiveMax then \<not> float64_before hi v else float64_before v hi)"

lemma range_bounds:
  assumes nan: "\<not> float64_is_nan lo" "\<not> float64_is_nan hi" "\<not> float64_is_nan v"
    and b: "numeric_range_bounds lo hi im iM = (a, b)"
  shows "sint a \<le> sint (float64_to_int64 v) \<longleftrightarrow> above_min im lo v"
    and "sint (float64_to_int64 v) \<le> sint b \<longleftrightarrow> below_max iM hi v"
proof -
  let ?i = "\<lambda>f. sint (float64_to_int64 f)"
  have lt: "float64_before f g \<longleftrightarrow> ?i f < ?i g" if "\<not> float64_is_nan f" "\<not> float64_is_nan g" for f g
    using sint_float64_less [OF that] by (auto simp: float64_before_def)
  have v: "- 0x7FF0000000000001 \<le> ?i v" "?i v \<le> 0x7FF0000000000000"
    using sint_float_bounds [OF nan(3)] by auto
  have nmax: "float64_to_int64 f \<noteq> 0x7FFFFFFFFFFFFFFF" "float64_to_int64 f \<noteq> 0x8000000000000000" if "\<not> float64_is_nan f" for f
    using sint_float_bounds [OF that] sint_consts by auto
  show "sint a \<le> ?i v \<longleftrightarrow> above_min im lo v"
  proof (cases "lo = 0xFFF0000000000000")
    case True
    have "sint a \<le> - (2 ^ 63) + 1"
      using b True sint_Suc [of "0x8000000000000000"] by (auto simp: numeric_range_bounds_def Let_def split: if_splits)
    then show ?thesis
      using v(1) True by (simp add: above_min_def)
  next
    case False
    then have "sint a = (if im then ?i lo else ?i lo + 1)"
      using b nmax [OF nan(1)] sint_Suc [of "float64_to_int64 lo"] by (auto simp: numeric_range_bounds_def Let_def)
    then show ?thesis
      using lt [OF nan(3,1)] lt [OF nan(1,3)] False by (auto simp: above_min_def)
  qed
  show "?i v \<le> sint b \<longleftrightarrow> below_max iM hi v"
  proof (cases "hi = 0x7FF0000000000000")
    case True
    have "2 ^ 63 - 2 \<le> sint b"
      using b True sint_pred [of "0x7FFFFFFFFFFFFFFF"] by (auto simp: numeric_range_bounds_def Let_def split: if_splits)
    then show ?thesis
      using v(2) True by (simp add: below_max_def)
  next
    case False
    then have "sint b = (if iM then ?i hi else ?i hi - 1)"
      using b nmax [OF nan(2)] sint_pred [of "float64_to_int64 hi"] by (auto simp: numeric_range_bounds_def Let_def)
    then show ?thesis
      using lt [OF nan(3,2)] lt [OF nan(2,3)] False by (auto simp: below_max_def)
  qed
qed

text \<open>
  C7: For bounds and a value \<open>v\<close> that are not NaN, a numeric field of value \<open>v\<close> indexed by
  \<open>numericAnalyzer\<close> shares a term with the terms the range searcher enumerates from the dictionary
  exactly when \<open>v\<close> is within the minimum and the maximum, each inclusive or exclusive as asked, in
  the order of the integer images; the split and the enumerations return. That order puts the
  negative zero before the positive one, so -0.0 is not found above an inclusive 0.0; and a minimum
  of negative infinity or a maximum of positive infinity admits every value, so that an exclusive one
  still finds the infinity itself. Between other numbers the order is the usual one.
\<close>

theorem numeric_range_finds:
  assumes nan: "\<not> float64_is_nan lo" "\<not> float64_is_nan hi" "\<not> float64_is_nan v"
    and field: "new_prefix_coded_int64 (float64_to_int64 v) 0 = Inr input"
      "numeric_analyze 4 input = Some tokens" "\<forall>t\<in>set tokens. isIndexed t"
  shows "\<exists>terms. numeric_range_terms isIndexed lo hi im iM = Some terms \<and>
    ((\<exists>t\<in>set tokens. t \<in> set terms) \<longleftrightarrow> above_min im lo v \<and> below_max iM hi v)"
proof -
  obtain a b where ab: "numeric_range_bounds lo hi im iM = (a, b)" by fastforce
  let ?x = "float64_to_int64 v"
  have tok: "set tokens = {coded ?x s | s. s < 64 \<and> s mod 4 = 0}"
    using field(1,2) numeric_analyze_coded [of ?x] by (auto simp: new_prefix_coded)
  obtain trips where trips: "split_int64_range a b 4 = Some (map range_of trips)"
    "\<forall>(x, y, s)\<in>set trips. s < 64 \<and> s mod 4 = 0"
    "\<And>w. (\<exists>t\<in>set trips. covers w t) \<longleftrightarrow> sint a \<le> sint w \<and> sint w \<le> sint b"
    using split_int64_range_covers by blast
  have "\<forall>(x, y, s)\<in>set trips. s < 64" using trips(2) by auto
  from ranges_enumerate_coded [OF this, of "Some isIndexed" "[]"] obtain terms where
    terms: "ranges_enumerate (Some isIndexed) (map range_of trips) [] = Some terms"
      "\<And>s. \<lbrakk>s < 64; isIndexed (coded ?x s)\<rbrakk> \<Longrightarrow>
         coded ?x s \<in> set terms \<longleftrightarrow> (\<exists>(a, b, s')\<in>set trips. s = s' \<and> covers ?x (a, b, s'))"
    by (auto simp: filter_opt_def)
  have "(\<exists>t\<in>set tokens. t \<in> set terms) \<longleftrightarrow> (\<exists>t\<in>set trips. covers ?x t)"
  proof
    assume "\<exists>t\<in>set tokens. t \<in> set terms"
    then obtain t0 where t0: "t0 \<in> set tokens" "t0 \<in> set terms" by blast
    from t0(1) obtain s where s: "t0 = coded ?x s" "s < 64" unfolding tok by auto
    with t0 have "isIndexed (coded ?x s)" "coded ?x s \<in> set terms" using field(3) by auto
    with terms(2) [OF s(2)] have "\<exists>(a, b, s')\<in>set trips. s = s' \<and> covers ?x (a, b, s')" by simp
    then obtain t where "t \<in> set trips" "case t of (a, b, s') \<Rightarrow> s = s' \<and> covers ?x (a, b, s')"
      by (rule bexE)
    then show "\<exists>t\<in>set trips. covers ?x t" by (auto split: prod.splits)
  next
    assume "\<exists>t\<in>set trips. covers ?x t"
    then obtain a' b' s where t: "(a', b', s) \<in> set trips" "covers ?x (a', b', s)" by auto
    then have "s < 64" "s mod 4 = 0" using trips(2) by auto
    then have "coded ?x s \<in> set tokens" unfolding tok by auto
    moreover from this have "isIndexed (coded ?x s)" by (rule bspec [OF field(3)])
    then have "coded ?x s \<in> set terms"
      using terms(2) [OF \<open>s < 64\<close>] t by auto
    ultimately show "\<exists>t\<in>set tokens. t \<in> set terms" by blast
  qed
  also have "\<dots> \<longleftrightarrow> above_min im lo v \<and> below_max iM hi v"
    unfolding trips(3) using range_bounds [OF nan ab] by simp
  finally show ?thesis
    using terms(1) trips(1) ab by (intro exI [of _ terms]) (simp add: numeric_range_terms_def)
qed


text \<open>5 is found between 1 and an exclusive 10; -0.0 is not found from an inclusive 0.0 on.\<close>

theorem numeric_range_finds_witness:
  "(\<exists>tokens terms. numeric_analyze 4 (coded (float64_to_int64 0x4014000000000000) 0) = Some tokens \<and>
     numeric_range_terms (\<lambda>_. True) 0x3FF0000000000000 0x4024000000000000 True False = Some terms \<and>
     (\<exists>t\<in>set tokens. t \<in> set terms)) \<and>
   (\<exists>tokens terms. numeric_analyze 4 (coded (float64_to_int64 0x8000000000000000) 0) = Some tokens \<and>
     numeric_range_terms (\<lambda>_. True) 0 0x7FF0000000000000 True True = Some terms \<and>
     \<not> (\<exists>t\<in>set tokens. t \<in> set terms))"
proof
  have i: "new_prefix_coded_int64 (float64_to_int64 v) 0 = Inr (coded (float64_to_int64 v) 0)" for v
    by (simp add: new_prefix_coded)
  have f: "float64_lt 0x4014000000000000 0x4024000000000000" "\<not> float64_lt 0x4014000000000000 0x3FF0000000000000"
    and n: "\<not> float64_is_nan 0x3FF0000000000000" "\<not> float64_is_nan 0x4024000000000000" "\<not> float64_is_nan 0x4014000000000000"
    and n0: "\<not> float64_is_nan 0" "\<not> float64_is_nan 0x7FF0000000000000" "\<not> float64_is_nan 0x8000000000000000"
    by (simp_all add: float64_is_nan_def float64_lt_def float64_value_def float64_mag_def take_bit_eq_mask mask_eq_exp_minus_1)
  have in_range: "above_min True 0x3FF0000000000000 0x4014000000000000" "below_max False 0x4024000000000000 0x4014000000000000"
    and zero: "\<not> above_min True 0 0x8000000000000000"
    using f by (simp_all add: above_min_def below_max_def float64_before_def)
  obtain tokens where t: "numeric_analyze 4 (coded (float64_to_int64 0x4014000000000000) 0) = Some tokens"
    using numeric_analyze_coded by blast
  from numeric_range_finds [OF n i t, of "\<lambda>_. True" True False] in_range t
  show "\<exists>tokens terms. numeric_analyze 4 (coded (float64_to_int64 0x4014000000000000) 0) = Some tokens \<and>
     numeric_range_terms (\<lambda>_. True) 0x3FF0000000000000 0x4024000000000000 True False = Some terms \<and>
     (\<exists>t\<in>set tokens. t \<in> set terms)" by auto
  obtain tokens where t: "numeric_analyze 4 (coded (float64_to_int64 0x8000000000000000) 0) = Some tokens"
    using numeric_analyze_coded by blast
  from numeric_range_finds [OF n0 i t, of "\<lambda>_. True" True True] zero t
  show "\<exists>tokens terms. numeric_analyze 4 (coded (float64_to_int64 0x8000000000000000) 0) = Some tokens \<and>
     numeric_range_terms (\<lambda>_. True) 0 0x7FF0000000000000 True True = Some terms \<and>
     \<not> (\<exists>t\<in>set tokens. t \<in> set terms)" by blast
qed

end
