(* ===== verification/Search_Hits.thy ===== *)
theory Search_Hits
  imports Numeric_Range
begin

text \<open>
  The hits of a search and their order: \<open>DocumentMatch\<close> with its completion and the
  deduplication of locations (\<open>search/search.go\<close>), the text value sources a sort reads
  (\<open>search/source.go\<close>) and the sort order itself (\<open>search/sort.go\<close>). A nil byte slice is None;
  the explanation and the reader of a match are not read here and are left out. Sources whose
  value is computed elsewhere (the distance of two points) are the constructor \<open>Other_Text\<close>.
\<close>

section \<open>search.go: locations and matches\<close>

record location =
  Pos :: int
  Start :: int
  End :: int

record field_term_location =
  FtlField :: string
  FtlTerm :: string
  FtlLocation :: location

type_synonym term_location_map = "string \<rightharpoonup> location list"
type_synonym field_term_location_map = "string \<rightharpoonup> term_location_map"

record document_match =
  Number :: nat
  Score :: float64
  Locations :: field_term_location_map
  SortValue :: "bytes list"
  docValues :: "string \<rightharpoonup> bytes list"
  HitNumber :: int
  FieldTermLocations :: "field_term_location list"

text \<open>
  \<open>sort.Sort\<close> by position is not stable: the sort is an argument. The loop of \<open>Dedupe\<close> keeps the
  prefix \<open>p[:slow+1]\<close> as \<open>kept\<close>, with \<open>p[slow]\<close> its last element.
\<close>

fun dedupe_loop :: "location list \<Rightarrow> location list \<Rightarrow> location list" where
  "dedupe_loop kept [] = kept"
| "dedupe_loop kept (pfast # rest) =
     (let pslow = last kept in
      if Pos pslow = Pos pfast \<and> Start pslow = Start pfast \<and> End pslow = End pfast
      then dedupe_loop kept rest
      else dedupe_loop (kept @ [pfast]) rest)"

definition dedupe :: "(location list \<Rightarrow> location list) \<Rightarrow> location list \<Rightarrow> location list" where
  "dedupe sort_locs p =
     (if length p \<le> 1 then p
      else let p = sort_locs p in dedupe_loop [hd p] p)"

text \<open>
  \<open>Complete\<close>: the map \<open>tlm\<close> is nil until the field first differs from the initial empty
  \<open>lastField\<close>, and a store into it then panics (None).
\<close>

record complete_state =
  cs_lastField :: string
  cs_tlm_set :: bool
  cs_needsDedupe :: bool
  cs_Locations :: field_term_location_map

definition tlm_of :: "field_term_location_map \<Rightarrow> string \<Rightarrow> term_location_map" where
  "tlm_of m f = (case m f of None \<Rightarrow> Map.empty | Some t \<Rightarrow> t)"

definition locs_of :: "term_location_map \<Rightarrow> string \<Rightarrow> location list" where
  "locs_of t w = (case t w of None \<Rightarrow> [] | Some ls \<Rightarrow> ls)"

definition complete_step :: "field_term_location \<Rightarrow> complete_state \<Rightarrow> complete_state option" where
  "complete_step ftl s =
     (let s = (if cs_lastField s \<noteq> FtlField ftl
               then s\<lparr>cs_lastField := FtlField ftl, cs_tlm_set := True,
                      cs_Locations := (cs_Locations s)(FtlField ftl \<mapsto> tlm_of (cs_Locations s) (FtlField ftl))\<rparr>
               else s)
      in if \<not> cs_tlm_set s then None
         else
           let tlm = tlm_of (cs_Locations s) (cs_lastField s);
               loc = FtlLocation ftl;
               locs = locs_of tlm (FtlTerm ftl);
               needs = (cs_needsDedupe s \<or> locs \<noteq> [] \<and> Pos loc \<le> Pos (last locs))
           in Some (s\<lparr>cs_needsDedupe := needs,
                      cs_Locations := (cs_Locations s)(cs_lastField s \<mapsto> tlm(FtlTerm ftl \<mapsto> locs @ [loc]))\<rparr>))"

fun complete_loop :: "field_term_location list \<Rightarrow> complete_state \<Rightarrow> complete_state option" where
  "complete_loop [] s = Some s"
| "complete_loop (ftl # ftls) s =
     (case complete_step ftl s of None \<Rightarrow> None | Some s' \<Rightarrow> complete_loop ftls s')"

definition dedupe_all :: "(location list \<Rightarrow> location list) \<Rightarrow> field_term_location_map \<Rightarrow> field_term_location_map" where
  "dedupe_all sort_locs m = (\<lambda>f. map_option (\<lambda>tlm t. map_option (dedupe sort_locs) (tlm t)) (m f))"

definition complete_match ::
  "(location list \<Rightarrow> location list) \<Rightarrow> document_match \<Rightarrow> document_match option" where
  "complete_match sort_locs dm =
     (if FieldTermLocations dm = [] then Some (dm\<lparr>FieldTermLocations := []\<rparr>)
      else
        (case complete_loop (FieldTermLocations dm)
                \<lparr>cs_lastField = [], cs_tlm_set = False, cs_needsDedupe = False, cs_Locations = Locations dm\<rparr> of
           None \<Rightarrow> None
         | Some s \<Rightarrow>
             Some (dm\<lparr>Locations := if cs_needsDedupe s then dedupe_all sort_locs (cs_Locations s) else cs_Locations s,
                      FieldTermLocations := []\<rparr>)))"

definition doc_values :: "document_match \<Rightarrow> string \<Rightarrow> bytes list" where
  "doc_values dm field = (case docValues dm field of None \<Rightarrow> [] | Some vs \<Rightarrow> vs)"

definition add_doc_value :: "document_match \<Rightarrow> string \<Rightarrow> bytes \<Rightarrow> document_match" where
  "add_doc_value dm name value = dm\<lparr>docValues := (docValues dm)(name \<mapsto> doc_values dm name @ [value])\<rparr>"

section \<open>source.go\<close>

datatype text_source =
    Field_Source string
  | Score_Source
  | Missing_Text text_source text_source
  | Constant_Text bytes
  | Sort_First_Last
  | Other_Text "string list" "document_match \<Rightarrow> bytes option"

fun source_fields :: "text_source \<Rightarrow> string list" where
  "source_fields (Field_Source f) = [f]"
| "source_fields Score_Source = []"
| "source_fields (Missing_Text primary replacement) = source_fields primary @ source_fields replacement"
| "source_fields (Constant_Text c) = []"
| "source_fields Sort_First_Last = []"
| "source_fields (Other_Text fs v) = fs"

definition first_term :: "bytes list \<Rightarrow> bytes option" where
  "first_term sourceValues = (case sourceValues of [] \<Rightarrow> None | v # vs \<Rightarrow> Some v)"

fun padded_loop :: "bytes list \<Rightarrow> bytes list \<Rightarrow> bool \<times> bytes list" where
  "padded_loop [] zeroPadded = (True, zeroPadded)"
| "padded_loop (t # ts) zeroPadded =
     (case prefix_coded_shift t of
        Inr shift \<Rightarrow> if shift = 0 then padded_loop ts (zeroPadded @ [t]) else (False, zeroPadded)
      | Inl e \<Rightarrow> (False, zeroPadded))"

definition remove_numeric_padded_terms :: "bytes list \<Rightarrow> bytes list" where
  "remove_numeric_padded_terms sourceValues =
     (case padded_loop sourceValues [] of (allValidNumeric, zeroPaddedNumeric) \<Rightarrow>
        if allValidNumeric \<and> length zeroPaddedNumeric > 0 then zeroPaddedNumeric else sourceValues)"

fun field_numbers :: "bytes list \<Rightarrow> float64 list" where
  "field_numbers [] = []"
| "field_numbers (t # ts) =
     (case prefix_coded_shift t of
        Inl e \<Rightarrow> field_numbers ts
      | Inr shift \<Rightarrow>
          if shift = 0 then
            (case prefix_coded_int64 t of
               Inl e \<Rightarrow> field_numbers ts
             | Inr i64 \<Rightarrow> int64_to_float64 i64 # field_numbers ts)
          else field_numbers ts)"

definition high_term :: bytes where "high_term = replicate 10 0xff"
definition low_term :: bytes where "low_term = [0x00]"

text \<open>\<open>sortFirstLast\<close> reads the flags of the sort it belongs to: they are arguments.\<close>

definition sort_first_last :: "bool \<Rightarrow> bool \<Rightarrow> bytes" where
  "sort_first_last desc missingFirst =
     (if desc \<and> missingFirst then high_term
      else if desc then low_term
      else if missingFirst then low_term
      else high_term)"

fun text_value :: "bool \<Rightarrow> bool \<Rightarrow> text_source \<Rightarrow> document_match \<Rightarrow> bytes option" where
  "text_value desc first (Field_Source f) d = first_term (remove_numeric_padded_terms (doc_values d f))"
| "text_value desc first Score_Source d =
     must_new_prefix_coded_int64 (float64_to_int64 (Score d)) 0"
| "text_value desc first (Missing_Text primary replacement) d =
     (case text_value desc first primary d of
        None \<Rightarrow> text_value desc first replacement d
      | Some v \<Rightarrow> Some v)"
| "text_value desc first (Constant_Text c) d = Some c"
| "text_value desc first Sort_First_Last d = Some (sort_first_last desc first)"
| "text_value desc first (Other_Text fs v) d = v d"

definition copy_text_value :: "bytes \<Rightarrow> bytes option \<Rightarrow> bytes" where
  "copy_text_value prealloc val =
     (let v = (case val of None \<Rightarrow> [] | Some v \<Rightarrow> v);
          buf = (if length prealloc < length v then replicate (length v) 0 else take (length v) prealloc)
      in take (length buf) v @ drop (length v) buf)"

fun is_prealloc :: "text_source \<Rightarrow> bool" where
  "is_prealloc Score_Source = True"
| "is_prealloc (Missing_Text p r) = True"
| "is_prealloc s = False"

fun text_value_prealloc :: "bool \<Rightarrow> bool \<Rightarrow> text_source \<Rightarrow> document_match \<Rightarrow> bytes \<Rightarrow> bytes option" where
  "text_value_prealloc desc first Score_Source d prealloc =
     (case new_prefix_coded_int64_prealloc (float64_to_int64 (Score d)) 0 prealloc of
        Inl e \<Rightarrow> None
      | Inr (rv, rest) \<Rightarrow> Some rv)"
| "text_value_prealloc desc first (Missing_Text primary replacement) d prealloc =
     (case (if is_prealloc primary then text_value_prealloc desc first primary d prealloc
            else map_option (\<lambda>v. copy_text_value prealloc (Some v)) (text_value desc first primary d)) of
        Some v \<Rightarrow> Some v
      | None \<Rightarrow>
          if is_prealloc replacement then text_value_prealloc desc first replacement d prealloc
          else Some (copy_text_value prealloc (text_value desc first replacement d)))"
| "text_value_prealloc desc first s d prealloc = text_value desc first s d"

section \<open>sort.go\<close>

record sort_key =
  source :: text_source
  desc :: bool
  missingFirst :: bool

type_synonym sort_order = "sort_key list"

definition sort_fields :: "sort_order \<Rightarrow> string list" where
  "sort_fields ord = concat (map (\<lambda>s. source_fields (source s)) ord)"

definition sort_reverse :: "sort_order \<Rightarrow> sort_order" where
  "sort_reverse ord = map (\<lambda>s. s\<lparr>desc := \<not> desc s, missingFirst := \<not> missingFirst s\<rparr>) ord"

definition sort_by :: "text_source \<Rightarrow> sort_key" where
  "sort_by src = \<lparr>source = Missing_Text src Sort_First_Last, desc = False, missingFirst = False\<rparr>"

definition compute_one :: "document_match \<Rightarrow> sort_key \<Rightarrow> bytes \<Rightarrow> bytes" where
  "compute_one d s prealloc =
     (if is_prealloc (source s)
      then (case text_value_prealloc (desc s) (missingFirst s) (source s) d prealloc of None \<Rightarrow> [] | Some v \<Rightarrow> v)
      else copy_text_value prealloc (text_value (desc s) (missingFirst s) (source s) d))"

definition sort_compute :: "sort_order \<Rightarrow> document_match \<Rightarrow> document_match" where
  "sort_compute ord d =
     (let sv = (if length (SortValue d) < length ord then replicate (length ord) []
                else take (length ord) (SortValue d))
      in d\<lparr>SortValue := map2 (compute_one d) ord sv\<rparr>)"

definition is_score_descending :: "sort_order \<Rightarrow> bool" where
  "is_score_descending ord =
     (case ord of
        [s] \<Rightarrow> if \<not> desc s then False
               else (case source s of
                       Missing_Text primary replacement \<Rightarrow> (case primary of Score_Source \<Rightarrow> True | _ \<Rightarrow> False)
                     | _ \<Rightarrow> False)
      | _ \<Rightarrow> False)"

definition compare_hit_number :: "document_match \<Rightarrow> document_match \<Rightarrow> int" where
  "compare_hit_number i j =
     (if HitNumber i = HitNumber j then 0 else if HitNumber i > HitNumber j then 1 else -1)"

definition compare_score :: "document_match \<Rightarrow> document_match \<Rightarrow> int" where
  "compare_score i j =
     (if float64_lt (Score j) (Score i) then -1
      else if float64_lt (Score i) (Score j) then 1
      else compare_hit_number i j)"

text \<open>\<open>Compare\<close> walks the sort keys with the two lists of sort values.\<close>

fun compare_values :: "sort_order \<Rightarrow> bytes list \<Rightarrow> bytes list \<Rightarrow> int" where
  "compare_values (s # ord) (iVal # is) (jVal # js) =
     (let c = bytes_compare iVal jVal in
      if c = 0 then compare_values ord is js else if desc s then - c else c)"
| "compare_values _ _ _ = 0"

definition sort_compare :: "sort_order \<Rightarrow> document_match \<Rightarrow> document_match \<Rightarrow> int" where
  "sort_compare ord i j =
     (let c = compare_values ord (SortValue i) (SortValue j)
      in if c \<noteq> 0 then c else compare_hit_number i j)"

definition parse_search_sort_string :: "string \<Rightarrow> sort_key" where
  "parse_search_sort_string inp =
     (let (descending, inp) = (if take 1 inp = ''-'' then (True, drop 1 inp) else (False, inp));
          inp = (if take 1 inp = ''+'' then drop 1 inp else inp)
      in if inp = ''_score'' then (sort_by Score_Source)\<lparr>desc := True\<rparr>
         else (let rv = sort_by (Field_Source inp) in if descending then rv\<lparr>desc := True\<rparr> else rv))"

definition parse_sort_order_strings :: "string list \<Rightarrow> sort_order" where
  "parse_sort_order_strings inps = map parse_search_sort_string inps"


section \<open>The order of the hits\<close>

lemma bytes_compare_anti: "bytes_compare y x = - bytes_compare x y"
  by (induction x y rule: bytes_compare.induct) auto

lemma bytes_compare_eq_0 [simp]: "bytes_compare x y = 0 \<longleftrightarrow> x = y"
  by (induction x y rule: bytes_compare.induct) auto

lemma bytes_compare_trans: "bytes_compare x y \<le> 0 \<Longrightarrow> bytes_compare y z \<le> 0 \<Longrightarrow> bytes_compare x z \<le> 0"
proof (induction x y arbitrary: z rule: bytes_compare.induct)
  case (4 x xs y ys)
  then show ?case by (cases z) (auto split: if_splits)
next
  case (2 y ys)
  then show ?case by (cases z) simp_all
qed simp_all

lemma bytes_comparator: "comparator_on S bytes_compare"
  by (rule comparator_onI) (rule bytes_compare_anti, rule bytes_compare_trans)

lemma compare_values_comparator: "comparator_on {v. length v = length ord} (compare_values ord)"
proof (induction ord)
  case Nil
  show ?case by (rule comparator_onI) simp_all
next
  case (Cons s ord)
  let ?S = "{v. length v = length (s # ord)}" and ?T = "{v :: bytes list. length v = length ord}"
  let ?c = "\<lambda>x y. if desc s then - bytes_compare x y else bytes_compare x y"
  have c: "comparator_on UNIV ?c"
    using comparator_neg [OF bytes_comparator] bytes_comparator by (cases "desc s") simp_all
  have h: "comparator_on ?S (\<lambda>x y. ?c (hd x) (hd y))"
    by (rule comparator_key, rule comparator_subset [OF c]) simp
  have "tl ` ?S \<subseteq> ?T" by auto
  then have t: "comparator_on ?S (\<lambda>x y. compare_values ord (tl x) (tl y))"
    by (rule comparator_key [OF comparator_subset [OF Cons]])
  have eq: "compare_values (s # ord) x y = (if ?c (hd x) (hd y) \<noteq> 0 then ?c (hd x) (hd y) else compare_values ord (tl x) (tl y))"
    if "x \<in> ?S" "y \<in> ?S" for x y
    using that by (cases x; cases y) (simp_all add: Let_def)
  show ?case
    by (rule comparator_cong [OF comparator_then [OF h t] eq])
qed

lemma compare_hit_number_comparator: "comparator_on S compare_hit_number"
  by (rule comparator_onI) (auto simp: compare_hit_number_def split: if_splits)

lemma sort_compare_comparator: "comparator_on {d. length (SortValue d) = length ord} (sort_compare ord)"
proof -
  have v: "comparator_on {d. length (SortValue d) = length ord} (\<lambda>i j. compare_values ord (SortValue i) (SortValue j))"
    by (rule comparator_key, rule comparator_subset [OF compare_values_comparator]) auto
  show ?thesis
    by (rule comparator_cong [OF comparator_then [OF v compare_hit_number_comparator]])
      (simp add: sort_compare_def Let_def)
qed

lemma float64_comparator: 
  "comparator_on {f. \<not> float64_is_nan f} (\<lambda>x y. if float64_lt y x then -1 else if float64_lt x y then 1 else 0)"
  by (rule comparator_onI) (auto simp: float64_lt_def split: if_splits)

lemma compare_score_comparator: "comparator_on {d. \<not> float64_is_nan (Score d)} compare_score"
proof -
  have v: "comparator_on {d. \<not> float64_is_nan (Score d)}
     (\<lambda>i j. if float64_lt (Score j) (Score i) then -1 else if float64_lt (Score i) (Score j) then 1 else 0)"
    by (rule comparator_key, rule comparator_subset [OF float64_comparator]) auto
  show ?thesis
    by (rule comparator_cong [OF comparator_then [OF v compare_hit_number_comparator]])
      (simp add: compare_score_def)
qed

lemma sort_compare_eq_0:
  "\<lbrakk>length (SortValue i) = length ord; length (SortValue j) = length ord; sort_compare ord i j = 0\<rbrakk> \<Longrightarrow> HitNumber i = HitNumber j"
  by (auto simp: sort_compare_def compare_hit_number_def Let_def split: if_splits)

lemma compare_score_eq_0: "compare_score i j = 0 \<Longrightarrow> HitNumber i = HitNumber j"
  by (auto simp: compare_score_def compare_hit_number_def split: if_splits)

lemma length_sort_compute [simp]: "length (SortValue (sort_compute ord d)) = length ord"
  by (simp add: sort_compute_def)

lemma sort_compute_sel [simp]:
  "HitNumber (sort_compute ord d) = HitNumber d" "Score (sort_compute ord d) = Score d"
  "Number (sort_compute ord d) = Number d"
  by (simp_all add: sort_compute_def)

text \<open>
  C9: for an order that sorts by descending score alone, the shortcut comparison of the scores
  agrees with the comparison of the computed sort keys, as long as no score is a NaN or a
  negative zero.
\<close>

theorem score_shortcut:
  assumes "is_score_descending ord" and "\<not> float64_is_nan (Score i)" "\<not> float64_is_nan (Score j)"
    and "Score i \<noteq> 0x8000000000000000" "Score j \<noteq> 0x8000000000000000"
  shows "compare_score i j = sort_compare ord (sort_compute ord i) (sort_compute ord j)"
proof -
  obtain s r where o: "ord = [s]" "desc s" "source s = Missing_Text Score_Source r"
    using assms(1) by (auto simp: is_score_descending_def split: list.splits if_splits text_source.splits)
  have one: "compute_one d s pre = coded (float64_to_int64 (Score d)) 0" for d pre
  proof -
    obtain rest where "new_prefix_coded_int64_prealloc (float64_to_int64 (Score d)) 0 pre = Inr (coded (float64_to_int64 (Score d)) 0, rest)"
      using new_prefix_coded_prealloc by force
    then show ?thesis by (simp add: compute_one_def o)
  qed
  have map2: "map2 (compute_one d) [s] sv = [coded (float64_to_int64 (Score d)) 0]" if "length sv = 1" for d sv
    using that by (cases sv) (simp_all add: one)
  have sel: "SortValue (d\<lparr>SortValue := e\<rparr>) = e" for d e by simp
  have v: "SortValue (sort_compute [s] d) = [coded (float64_to_int64 (Score d)) 0]" for d
    unfolding sort_compute_def Let_def sel by (rule map2) (cases "SortValue d"; simp)
  have lt: "float64_lt (Score x) (Score y) \<longleftrightarrow> sint (float64_to_int64 (Score x)) < sint (float64_to_int64 (Score y))"
    if "\<not> float64_is_nan (Score x)" "\<not> float64_is_nan (Score y)" "Score x \<noteq> 0x8000000000000000" for x y
    using sint_float64_less [OF that(1,2)] that(3) by simp
  have c: "bytes_compare (coded a 0) (coded b 0) = (if sint a < sint b then -1 else if sint b < sint a then 1 else 0)" for a b
    using coded_compare [of 0 a b] by simp
  show ?thesis
    using assms(2-5) lt [of i j] lt [of j i]
    by (simp add: sort_compare_def v o(1,2) c compare_score_def compare_hit_number_def Let_def)
qed


definition example_match :: "nat \<Rightarrow> float64 \<Rightarrow> int \<Rightarrow> document_match" where
  "example_match n s h = \<lparr>Number = n, Score = s, Locations = Map.empty, SortValue = [], docValues = Map.empty,
     HitNumber = h, FieldTermLocations = []\<rparr>"

theorem score_shortcut_witness:
  "compare_score (example_match 1 0x4000000000000000 2) (example_match 2 0x3FF0000000000000 1) =
   sort_compare [(sort_by Score_Source)\<lparr>desc := True\<rparr>]
     (sort_compute [(sort_by Score_Source)\<lparr>desc := True\<rparr>] (example_match 1 0x4000000000000000 2))
     (sort_compute [(sort_by Score_Source)\<lparr>desc := True\<rparr>] (example_match 2 0x3FF0000000000000 1))"
  by (rule score_shortcut)
    (simp_all add: is_score_descending_def sort_by_def example_match_def float64_is_nan_def take_bit_eq_mask mask_eq_exp_minus_1)

text \<open>
  reversing a sort order negates the comparison of the sort values; ties are still broken
  by the hit number, in the same direction.
\<close>

theorem sort_reverse_compare:
  "sort_compare (sort_reverse ord) i j =
     (let c = compare_values ord (SortValue i) (SortValue j) in if c \<noteq> 0 then - c else compare_hit_number i j)"
proof -
  have "compare_values (sort_reverse ord) x y = - compare_values ord x y" for x y
    by (induction ord x y rule: compare_values.induct) (auto simp: sort_reverse_def Let_def)
  then show ?thesis by (simp add: sort_compare_def Let_def)
qed

section \<open>Locations and field values\<close>

definition locations_at :: "field_term_location_map \<Rightarrow> string \<Rightarrow> string \<Rightarrow> location list" where
  "locations_at m f t = locs_of (tlm_of m f) t"

lemma dedupe_loop_set: "kept \<noteq> [] \<Longrightarrow> set (dedupe_loop kept ps) = set kept \<union> set ps"
proof (induction kept ps rule: dedupe_loop.induct)
  case (2 kept p rest)
  show ?case
  proof (cases "last kept = p")
    case True
    with 2 show ?thesis by (auto simp: Let_def dest: last_in_set)
  next
    case False
    then have "\<not> (Pos (last kept) = Pos p \<and> Start (last kept) = Start p \<and> End (last kept) = End p)" by auto
    with 2 show ?thesis by (auto simp: Let_def)
  qed
qed simp

lemma dedupe_set:
  assumes "\<And>p. mset (srt p) = mset p"
  shows "set (dedupe srt p) = set p"
proof (cases "length p \<le> 1")
  case False
  have s: "set (srt p) = set p" using assms by (metis set_mset_mset)
  with False have "srt p \<noteq> []" by auto
  then have "set (dedupe_loop [hd (srt p)] (srt p)) = set (srt p)"
    by (simp add: dedupe_loop_set insert_absorb)
  then show ?thesis using False s by (simp add: dedupe_def Let_def)
qed (simp add: dedupe_def)

lemma dedupe_all_set:
  "(\<And>p. mset (srt p) = mset p) \<Longrightarrow> set (locations_at (dedupe_all srt m) f t) = set (locations_at m f t)"
  by (cases "m f"; cases "the (m f) t")
    (simp_all add: locations_at_def dedupe_all_def tlm_of_def locs_of_def dedupe_set)

lemma tlm_of_upd: "tlm_of (m(f \<mapsto> x)) g = (if g = f then x else tlm_of m g)"
  by (simp add: tlm_of_def)

lemma locs_of_upd: "locs_of (x(w \<mapsto> ls)) v = (if v = w then ls else locs_of x v)"
  by (simp add: locs_of_def)

lemma complete_step_set:
  "complete_step ftl s = Some s' \<Longrightarrow> set (locations_at (cs_Locations s') f t) =
     set (locations_at (cs_Locations s) f t) \<union> (if f = FtlField ftl \<and> t = FtlTerm ftl then {FtlLocation ftl} else {})"
proof -
  assume "complete_step ftl s = Some s'"
  then have "cs_Locations s' = (let m = (if cs_lastField s \<noteq> FtlField ftl
         then (cs_Locations s)(FtlField ftl \<mapsto> tlm_of (cs_Locations s) (FtlField ftl)) else cs_Locations s)
      in m(FtlField ftl \<mapsto> (tlm_of m (FtlField ftl))(FtlTerm ftl \<mapsto> locs_of (tlm_of m (FtlField ftl)) (FtlTerm ftl) @ [FtlLocation ftl])))"
    by (simp add: complete_step_def Let_def split: if_splits)  auto
  then show ?thesis
    by (simp add: locations_at_def tlm_of_upd locs_of_upd Let_def)
qed

lemma complete_loop_set:
  "complete_loop ftls s = Some s' \<Longrightarrow> set (locations_at (cs_Locations s') f t) =
     set (locations_at (cs_Locations s) f t) \<union> {FtlLocation x | x. x \<in> set ftls \<and> FtlField x = f \<and> FtlTerm x = t}"
proof (induction ftls arbitrary: s)
  case (Cons x ftls)
  then obtain s1 where "complete_step x s = Some s1" "complete_loop ftls s1 = Some s'"
    by (auto split: option.splits)
  with Cons.IH [of s1] complete_step_set [of x s s1 f t] show ?case by auto
qed simp

lemma complete_match_set:
  assumes "complete_match srt d = Some d'" and "\<And>p. mset (srt p) = mset p"
  shows "set (locations_at (Locations d') f t) = set (locations_at (Locations d) f t) \<union>
      {FtlLocation x | x. x \<in> set (FieldTermLocations d) \<and> FtlField x = f \<and> FtlTerm x = t} \<and>
    FieldTermLocations d' = []"
  using assms
  by (auto simp: complete_match_def dedupe_all_set complete_loop_set split: if_splits option.splits)

text \<open>
  C18: completing a match moves every field-term location into the map: under each field and
  term the map holds, as a set, the locations it held and those of the list, deduplicated or
  not, and the list is empty afterwards.
\<close>

theorem complete_match_locations:
  assumes "complete_match srt d = Some d'" and "\<And>p. mset (srt p) = mset p"
  shows "set (locations_at (Locations d') f t) = set (locations_at (Locations d) f t) \<union>
      {FtlLocation x | x. x \<in> set (FieldTermLocations d) \<and> FtlField x = f \<and> FtlTerm x = t} \<and>
    FieldTermLocations d' = []"
  by (rule complete_match_set [OF assms])

theorem complete_match_locations_witness:
  "\<exists>d'. complete_match (\<lambda>p. p) ((example_match 1 0 1)\<lparr>FieldTermLocations :=
        [\<lparr>FtlField = ''f'', FtlTerm = ''t'', FtlLocation = \<lparr>Pos = 1, Start = 0, End = 4\<rparr>\<rparr>]\<rparr>) = Some d' \<and>
     set (locations_at (Locations d') ''f'' ''t'') = {\<lparr>Pos = 1, Start = 0, End = 4\<rparr>}"
proof -
  let ?d = "(example_match 1 0 1)\<lparr>FieldTermLocations :=
        [\<lparr>FtlField = ''f'', FtlTerm = ''t'', FtlLocation = \<lparr>Pos = 1, Start = 0, End = 4\<rparr>\<rparr>]\<rparr>"
  have "complete_match (\<lambda>p. p) ?d \<noteq> None"
    by (simp add: complete_match_def complete_step_def example_match_def Let_def)
  then obtain d' where d': "complete_match (\<lambda>p. p) ?d = Some d'" by blast
  from complete_match_locations [OF d', of "''f''" "''t''"] d' show ?thesis
    by (auto simp: example_match_def locations_at_def tlm_of_def locs_of_def)
qed

text \<open>
  the values a field source reads are never filtered: a term whose shift is zero is kept
  and any other term returns the whole list, so the padded terms of a numeric field stay.
\<close>

theorem remove_numeric_padded_terms_id: "remove_numeric_padded_terms vs = vs"
proof -
  have "padded_loop vs acc = (True, r) \<Longrightarrow> r = acc @ vs" for acc r
    by (induction vs acc rule: padded_loop.induct) (auto split: sum.splits if_splits)
  from this [of "[]"] show ?thesis
    by (auto simp: remove_numeric_padded_terms_def split: prod.splits)
qed

lemma field_numbers_append: "field_numbers (xs @ ys) = field_numbers xs @ field_numbers ys"
  by (induction xs) (auto split: sum.splits)

text \<open>
  C19: the numbers a field source reads back from the terms of a numeric field are exactly
  the indexed value, once.
\<close>

theorem field_numbers_of_numeric_field:
  assumes "new_prefix_coded_int64 (float64_to_int64 v) 0 = Inr input" and "numeric_analyze 4 input = Some tokens"
  shows "field_numbers tokens = [v]"
proof -
  let ?x = "float64_to_int64 v"
  have input: "input = coded ?x 0" using assms(1) by (simp add: new_prefix_coded)
  obtain out where out: "add_shift_tokens ?x 4 4 [coded ?x 0] = Some ([coded ?x 0] @ out)"
    "set out = {coded ?x s | s. 4 \<le> s \<and> s < 64 \<and> s mod 4 = 4 mod 4}"
    using add_shift_tokens_Some [of 4 ?x 4 "[coded ?x 0]"] by auto
  have tokens: "tokens = coded ?x 0 # out"
    using assms(2) out(1) coded_decode(2) [of 0 ?x] by (simp add: input numeric_analyze_def)
  have "prefix_coded_shift t \<noteq> Inr 0" if "t \<in> set out" for t
  proof -
    from that out(2) obtain s where "t = coded ?x s" "4 \<le> s" "s < 64" "s mod 4 = 0" by auto
    moreover from this have "s \<le> 62" by presburger
    ultimately show ?thesis using coded_decode(1) [of s ?x] by simp
  qed
  then have "field_numbers out = []"
    by (induction out) (auto split: sum.splits)
  then show ?thesis
    using coded_decode(1,2) [of 0 ?x] by (simp add: tokens int64_to_float64_inverse)
qed


theorem field_numbers_of_numeric_field_witness:
  "\<exists>tokens. numeric_analyze 4 (coded (float64_to_int64 0x4014000000000000) 0) = Some tokens \<and>
     field_numbers tokens = [0x4014000000000000]"
proof -
  obtain tokens where t: "numeric_analyze 4 (coded (float64_to_int64 0x4014000000000000) 0) = Some tokens"
    using numeric_analyze_coded by blast
  have "new_prefix_coded_int64 (float64_to_int64 0x4014000000000000) 0 = Inr (coded (float64_to_int64 0x4014000000000000) 0)"
    by (simp add: new_prefix_coded)
  from field_numbers_of_numeric_field [OF this t] t show ?thesis by blast
qed

end
