(* ===== verification/Go_Heap.thy ===== *)
theory Go_Heap
  imports Prelude
begin

text \<open>
  The binary heap of Go's standard library package \<open>container/heap\<close>, which the collector
  store, the dictionary merge and the disjunction searcher call. The heap is an array (a
  list); \<open>lt\<close> is the client's \<open>Less\<close> method on the elements at two positions. The client
  methods \<open>Push\<close> (append) and \<open>Pop\<close> (remove the last element) are part of the functions here.
\<close>

section \<open>Operations\<close>

function heap_up :: "('a \<Rightarrow> 'a \<Rightarrow> bool) \<Rightarrow> 'a list \<Rightarrow> nat \<Rightarrow> 'a list" where
  "heap_up lt h j =
     (let i = (j - 1) div 2 in
      if i = j \<or> \<not> lt (h ! j) (h ! i) then h
      else heap_up lt (swap h i j) i)"
  by pat_completeness auto
termination
  by (relation "measure (\<lambda>(lt, h, j). j)") auto

function heap_down :: "('a \<Rightarrow> 'a \<Rightarrow> bool) \<Rightarrow> 'a list \<Rightarrow> nat \<Rightarrow> nat \<Rightarrow> 'a list" where
  "heap_down lt h i n =
     (let j1 = 2 * i + 1 in
      if j1 \<ge> n then h
      else
        let j = (if j1 + 1 < n \<and> lt (h ! (j1 + 1)) (h ! j1) then j1 + 1 else j1) in
        if \<not> lt (h ! j) (h ! i) then h
        else heap_down lt (swap h i j) j n)"
  by pat_completeness auto
termination
  by (relation "measure (\<lambda>(lt, h, i, n). n - i)") (auto split: if_splits)

declare heap_up.simps [simp del] heap_down.simps [simp del]

definition heap_push :: "('a \<Rightarrow> 'a \<Rightarrow> bool) \<Rightarrow> 'a \<Rightarrow> 'a list \<Rightarrow> 'a list" where
  "heap_push lt x h = heap_up lt (h @ [x]) (length h)"

text \<open>\<open>heap.Pop\<close> panics on an empty heap: the result is None.\<close>

definition heap_pop :: "('a \<Rightarrow> 'a \<Rightarrow> bool) \<Rightarrow> 'a list \<Rightarrow> ('a \<times> 'a list) option" where
  "heap_pop lt h =
     (if h = [] then None
      else let n = length h - 1; h' = heap_down lt (swap h 0 n) 0 n
           in Some (last h', butlast h'))"

section \<open>The heap invariant\<close>

definition parent :: "nat \<Rightarrow> nat" where
  "parent k = (k - 1) div 2"

lemma parent_less [simp]: "0 < k \<Longrightarrow> parent k < k"
  by (simp add: parent_def)

lemma parent_neq [simp]: "0 < k \<Longrightarrow> parent k \<noteq> k"
  by (metis parent_less less_irrefl)

lemma parent_0 [simp]: "parent 0 = 0"
  by (simp add: parent_def)

lemma parent_children [simp]: "parent (Suc (2 * i)) = i" "parent (Suc (Suc (2 * i))) = i"
  by (simp_all add: parent_def)

lemma parent_cases: "0 < k \<Longrightarrow> parent k = i \<Longrightarrow> k = 2 * i + 1 \<or> k = 2 * i + 2"
  by (auto simp: parent_def)

lemma parent_below: "0 < k \<Longrightarrow> k < n \<Longrightarrow> parent k < n"
  using parent_less [of k] by linarith

definition heap_upto :: "('a \<Rightarrow> 'a \<Rightarrow> bool) \<Rightarrow> 'a list \<Rightarrow> nat \<Rightarrow> bool" where
  "heap_upto lt h n \<longleftrightarrow> (\<forall>k. 0 < k \<and> k < n \<longrightarrow> \<not> lt (h ! k) (h ! parent k))"

definition heap_ok :: "('a \<Rightarrow> 'a \<Rightarrow> bool) \<Rightarrow> 'a list \<Rightarrow> bool" where
  "heap_ok lt h \<longleftrightarrow> heap_upto lt h (length h)"

text \<open>The invariant broken at one position, while an element rises or sinks through it.\<close>

definition hole_up :: "('a \<Rightarrow> 'a \<Rightarrow> bool) \<Rightarrow> 'a list \<Rightarrow> nat \<Rightarrow> bool" where
  "hole_up lt h j \<longleftrightarrow>
     (\<forall>k. 0 < k \<and> k < length h \<and> k \<noteq> j \<longrightarrow> \<not> lt (h ! k) (h ! parent k)) \<and>
     (\<forall>k. 0 < k \<and> k < length h \<and> parent k = j \<and> 0 < j \<longrightarrow> \<not> lt (h ! k) (h ! parent j))"

definition hole_down :: "('a \<Rightarrow> 'a \<Rightarrow> bool) \<Rightarrow> 'a list \<Rightarrow> nat \<Rightarrow> nat \<Rightarrow> bool" where
  "hole_down lt h i n \<longleftrightarrow>
     (\<forall>k. 0 < k \<and> k < n \<and> parent k \<noteq> i \<longrightarrow> \<not> lt (h ! k) (h ! parent k)) \<and>
     (\<forall>k. 0 < k \<and> k < n \<and> parent k = i \<and> 0 < i \<longrightarrow> \<not> lt (h ! k) (h ! parent i))"

text \<open>What the client's \<open>Less\<close> must be: a strict weak order.\<close>

locale weak_order =
  fixes lt :: "'a \<Rightarrow> 'a \<Rightarrow> bool"
  assumes asym: "lt a b \<Longrightarrow> \<not> lt b a"
    and negtrans: "\<not> lt a b \<Longrightarrow> \<not> lt b c \<Longrightarrow> \<not> lt a c"
begin

lemma irrefl: "\<not> lt a a"
  using asym by blast

lemma less_not_le: "lt a b \<Longrightarrow> \<not> lt c b \<Longrightarrow> \<not> lt c a"
  using asym negtrans by blast

end

lemma mset_heap_up [heap_simps]: "j < length h \<Longrightarrow> mset (heap_up lt h j) = mset h"
proof (induction lt h j rule: heap_up.induct)
  case (1 lt h j)
  show ?case
    using 1 by (subst heap_up.simps) (auto simp: Let_def)
qed

lemma length_heap_up [heap_simps]: "j < length h \<Longrightarrow> length (heap_up lt h j) = length h"
  by (metis mset_heap_up mset_eq_length)

lemma mset_heap_down [heap_simps]:
  "i < length h \<Longrightarrow> n \<le> length h \<Longrightarrow> mset (heap_down lt h i n) = mset h"
proof (induction lt h i n rule: heap_down.induct)
  case (1 lt h i n)
  show ?case
    using 1 by (subst heap_down.simps) (auto simp: Let_def)
qed

lemma length_heap_down [heap_simps]:
  "i < length h \<Longrightarrow> n \<le> length h \<Longrightarrow> length (heap_down lt h i n) = length h"
  by (metis mset_heap_down mset_eq_length)

lemma heap_down_beyond [heap_simps]:
  "i < length h \<Longrightarrow> n \<le> length h \<Longrightarrow> n \<le> k \<Longrightarrow> k < length h \<Longrightarrow> i < n \<Longrightarrow>
   heap_down lt h i n ! k = h ! k"
proof (induction lt h i n rule: heap_down.induct)
  case (1 lt h i n)
  show ?case
    using 1 by (subst heap_down.simps) (auto simp: Let_def nth_swap)
qed

section \<open>Preservation of the invariant\<close>

context weak_order
begin

lemma hole_up_step:
  assumes hole: "hole_up lt h j" and j: "0 < j" "j < length h"
    and l: "lt (h ! j) (h ! parent j)"
  shows "hole_up lt (swap h (parent j) j) (parent j)"
proof -
  let ?i = "parent j" and ?h = "swap h (parent j) j"
  have i: "?i < length h" "?i < j" using j by (auto intro: parent_below)
  have nth: "\<And>k. k < length h \<Longrightarrow> ?h ! k = (if k = ?i then h ! j else if k = j then h ! ?i else h ! k)"
    using nth_swap [OF i(1) j(2)] by blast
  have A: "\<And>k. 0 < k \<Longrightarrow> k < length h \<Longrightarrow> k \<noteq> j \<Longrightarrow> \<not> lt (h ! k) (h ! parent k)"
    and B: "\<And>k. 0 < k \<Longrightarrow> k < length h \<Longrightarrow> parent k = j \<Longrightarrow> \<not> lt (h ! k) (h ! ?i)"
    using hole j by (auto simp: hole_up_def)
  have up: "\<not> lt (?h ! k) (?h ! parent k)" if k: "0 < k" "k < length h" "k \<noteq> ?i" for k
  proof -
    have pk: "parent k < length h" "parent k < k" using k by (auto intro: parent_below)
    show ?thesis
    proof (cases "k = j")
      case True
      with i nth [OF j(2)] nth [OF i(1)] j asym [OF l] show ?thesis by auto
    next
      case False
      then have "\<not> lt (h ! k) (h ! parent k)" using A k by blast
      with False k pk nth [of k] nth [of "parent k"] B [of k] less_not_le [OF l]
      show ?thesis by (auto split: if_splits)
    qed
  qed
  have down: "\<not> lt (?h ! k) (?h ! parent ?i)"
    if k: "0 < k" "k < length h" "parent k = ?i" "0 < ?i" for k
  proof -
    have pi: "parent ?i < ?i" "\<not> lt (h ! ?i) (h ! parent ?i)"
      using A [of ?i] parent_less [OF k(4)] i k by auto
    moreover have "k \<noteq> ?i" "parent ?i < length h" "parent ?i \<noteq> ?i" "parent ?i \<noteq> j"
      using k parent_less [of k] pi(1) i by auto
    ultimately show ?thesis
      using nth [of k] nth [of "parent ?i"] A [of k] k i negtrans [of "h ! k" "h ! ?i" "h ! parent ?i"]
      by (auto split: if_splits)
  qed
  show ?thesis
    unfolding hole_up_def length_swap
    by (intro conjI allI impI; elim conjE) (erule (2) up, erule (3) down)
qed

lemma heap_ok_up: "j < length h \<Longrightarrow> hole_up lt h j \<Longrightarrow> heap_ok lt (heap_up lt h j)"
proof (induction j arbitrary: h rule: less_induct)
  case (less j h)
  show ?case
  proof (cases "parent j = j \<or> \<not> lt (h ! j) (h ! parent j)")
    case True
    then have "heap_up lt h j = h"
      by (subst heap_up.simps) (auto simp: Let_def parent_def)
    moreover have "heap_ok lt h"
      using less.prems True unfolding hole_up_def heap_ok_def heap_upto_def
      by (metis parent_less less_irrefl)
    ultimately show ?thesis by simp
  next
    case False
    then have j: "0 < j" by (cases j) auto
    have "heap_up lt h j = heap_up lt (swap h (parent j) j) (parent j)"
      using False by (subst heap_up.simps) (simp add: Let_def parent_def)
    moreover have "hole_up lt (swap h (parent j) j) (parent j)"
      using hole_up_step [of h j] less.prems False j by blast
    ultimately show ?thesis
      using less.IH [of "parent j" "swap h (parent j) j"] j less.prems parent_below [of j] by simp
  qed
qed

lemma heap_ok_push:
  assumes "heap_ok lt h"
  shows "heap_ok lt (heap_push lt x h)"
  unfolding heap_push_def
proof (rule heap_ok_up)
  show "length h < length (h @ [x])" by simp
  show "hole_up lt (h @ [x]) (length h)"
    unfolding hole_up_def
  proof (intro conjI allI impI)
    fix k
    assume k: "0 < k \<and> k < length (h @ [x]) \<and> k \<noteq> length h"
    then have "k < length h" "parent k < length h" by (auto intro: parent_below)
    then show "\<not> lt ((h @ [x]) ! k) ((h @ [x]) ! parent k)"
      using assms k by (simp add: nth_append heap_ok_def heap_upto_def)
  next
    fix k
    assume "0 < k \<and> k < length (h @ [x]) \<and> parent k = length h \<and> 0 < length h"
    then show "\<not> lt ((h @ [x]) ! k) ((h @ [x]) ! parent (length h))"
      using parent_less [of k] by auto
  qed
qed

lemma hole_down_step:
  assumes hole: "hole_down lt h i n" and n: "n \<le> length h" and i: "2 * i + 1 < n"
    and j: "j = (if 2 * i + 2 < n \<and> lt (h ! (2 * i + 2)) (h ! (2 * i + 1)) then 2 * i + 2 else 2 * i + 1)"
    and l: "lt (h ! j) (h ! i)"
  shows "hole_down lt (swap h i j) j n"
proof -
  let ?h = "swap h i j"
  have jn: "j < n" "i < j" "parent j = i" "0 < j" using i j by (auto split: if_splits)
  have nth: "\<And>k. k < n \<Longrightarrow> ?h ! k = (if k = i then h ! j else if k = j then h ! i else h ! k)"
    using jn n by (simp add: nth_swap)
  have A: "\<And>k. 0 < k \<Longrightarrow> k < n \<Longrightarrow> parent k \<noteq> i \<Longrightarrow> \<not> lt (h ! k) (h ! parent k)"
    and B: "\<And>k. 0 < k \<Longrightarrow> k < n \<Longrightarrow> parent k = i \<Longrightarrow> 0 < i \<Longrightarrow> \<not> lt (h ! k) (h ! parent i)"
    using hole by (auto simp: hole_down_def)
  have sib: "\<not> lt (h ! k) (h ! j)" if "0 < k" "k < n" "parent k = i" for k
    using parent_cases [OF that(1,3)] that j irrefl asym by (auto split: if_splits)
  have up: "\<not> lt (?h ! k) (?h ! parent k)" if k: "0 < k" "k < n" "parent k \<noteq> j" for k
  proof -
    have pk: "parent k < n" "parent k < k" using k by (auto intro: parent_below)
    consider "k = j" | "k \<noteq> j" "parent k = i" | "k = i" | "k \<noteq> j" "k \<noteq> i" "parent k \<noteq> i"
      by blast
    then show ?thesis
    proof cases
      case 1
      with nth [of j] nth [of i] jn asym [OF l] show ?thesis by auto
    next
      case 2
      then have "k \<noteq> i" using pk by auto
      with 2 nth [of k] nth [of i] k pk jn sib show ?thesis by auto
    next
      case 3
      then have "parent i \<noteq> i" "0 < i" using 3 pk(2) k parent_less [of i] by auto
      with 3 nth [of i] nth [of "parent k"] k pk jn B [of j] show ?thesis by auto
    next
      case 4
      with nth [of k] nth [of "parent k"] k pk A show ?thesis by auto
    qed
  qed
  have down: "\<not> lt (?h ! k) (?h ! parent j)" if k: "0 < k" "k < n" "parent k = j" for k
  proof -
    have "k \<noteq> i" "k \<noteq> j" "parent k \<noteq> i" using k jn parent_less [OF k(1)] by auto
    with A [OF k(1,2)] nth [of k] nth [of i] jn k show ?thesis by auto
  qed
  show ?thesis
    unfolding hole_down_def
    by (intro conjI allI impI; elim conjE) (erule (2) up, erule (2) down)
qed

lemma heap_upto_down:
  "n \<le> length h \<Longrightarrow> hole_down lt h i n \<Longrightarrow> heap_upto lt (heap_down lt h i n) n"
proof (induction "n - i" arbitrary: h i rule: less_induct)
  case (less i h)
  define j where "j = (if 2 * i + 2 < n \<and> lt (h ! (2 * i + 2)) (h ! (2 * i + 1)) then 2 * i + 2 else 2 * i + 1)"
  show ?case
  proof (cases "2 * i + 1 < n \<and> lt (h ! j) (h ! i)")
    case False
    have "heap_down lt h i n = h"
      using False by (subst heap_down.simps) (auto simp: Let_def j_def)
    moreover have "heap_upto lt h n"
      unfolding heap_upto_def
    proof (intro allI impI)
      fix k
      assume k: "0 < k \<and> k < n"
      show "\<not> lt (h ! k) (h ! parent k)"
      proof (cases "parent k = i")
        case True
        then have ki: "k = 2 * i + 1 \<or> k = 2 * i + 2" using parent_cases k by blast
        then have "2 * i + 1 < n" "\<not> lt (h ! j) (h ! i)" using k False by auto
        moreover have "\<not> lt (h ! k) (h ! j)"
          using ki k irrefl asym by (auto simp: j_def split: if_splits)
        ultimately show ?thesis using True negtrans by blast
      next
        case False
        with k less.prems show ?thesis by (auto simp: hole_down_def)
      qed
    qed
    ultimately show ?thesis by simp
  next
    case True
    then have jn: "i < j" "j < n" by (auto simp: j_def)
    have "heap_down lt h i n = heap_down lt (swap h i j) j n"
      using True by (subst heap_down.simps) (auto simp: Let_def j_def)
    moreover have "hole_down lt (swap h i j) j n"
      using hole_down_step [of h i n j] less.prems True by (auto simp: j_def)
    ultimately show ?thesis
      using less.hyps [of j "swap h i j"] jn less.prems by simp
  qed
qed

lemma heap_ok_min:
  assumes "heap_ok lt h" "k < length h"
  shows "\<not> lt (h ! k) (h ! 0)"
  using assms(2)
proof (induction k rule: less_induct)
  case (less k)
  show ?case
  proof (cases "k = 0")
    case True
    then show ?thesis using irrefl by simp
  next
    case False
    then have "\<not> lt (h ! k) (h ! parent k)" "parent k < k"
      using assms(1) less.prems by (auto simp: heap_ok_def heap_upto_def)
    moreover from this have "\<not> lt (h ! parent k) (h ! 0)"
      using less.IH less.prems by simp
    ultimately show ?thesis using negtrans by blast
  qed
qed

lemma heap_pop_Some:
  assumes ok: "heap_ok lt h" and pop: "heap_pop lt h = Some (x, h')"
  shows "heap_ok lt h' \<and> mset h = add_mset x (mset h') \<and> x = h ! 0 \<and> (\<forall>y\<in>set h. \<not> lt y x)"
proof -
  define n where "n = length h - 1"
  define g where "g = heap_down lt (swap h 0 n) 0 n"
  have h: "h \<noteq> []" "0 < length h" "n < length h" and x: "x = last g" and h': "h' = butlast g"
    using pop by (auto simp: heap_pop_def n_def g_def Let_def split: if_splits)
  have len: "length g = length h" and ms: "mset g = mset h"
    using h by (simp_all add: g_def heap_simps)
  have g: "g = h' @ [x]"
    using append_butlast_last_id [of g] h(1) len x h' by (metis length_0_conv)
  have "g ! n = swap h 0 n ! n"
    using h by (cases "n = 0") (simp_all add: g_def heap_simps heap_down.simps [of lt _ 0 0])
  moreover have "length h' = n"
    using len unfolding g n_def by simp
  then have "g ! n = x"
    using g by (metis nth_append_length)
  ultimately have x0: "x = h ! 0"
    using nth_swap [of 0 h n n] h by (simp split: if_splits)
  have "hole_down lt (swap h 0 n) 0 n"
    unfolding hole_down_def
  proof (intro conjI allI impI)
    fix k assume "0 < k \<and> k < n \<and> parent k \<noteq> 0"
    then show "\<not> lt (swap h 0 n ! k) (swap h 0 n ! parent k)"
      using ok h parent_below [of k n] by (auto simp: nth_swap heap_ok_def heap_upto_def)
  qed simp
  then have "heap_upto lt g n"
    unfolding g_def by (rule heap_upto_down [rotated]) (use h in simp)
  then have "heap_ok lt h'"
    using g len parent_below by (auto simp: heap_ok_def heap_upto_def n_def nth_append)
  moreover have "\<forall>y\<in>set h. \<not> lt y x"
    using heap_ok_min [OF ok] by (auto simp: x0 in_set_conv_nth)
  moreover have "mset h = add_mset x (mset h')"
    using ms g by simp
  ultimately show ?thesis using x0 by simp
qed

lemma heap_push_spec:
  assumes "heap_ok lt h"
  shows "heap_ok lt (heap_push lt x h)" and "mset (heap_push lt x h) = add_mset x (mset h)"
   apply (rule heap_ok_push [OF assms])
  apply (simp add: heap_push_def heap_simps)
  done

end

lemma heap_ok_Nil [simp]: "heap_ok lt []"
  by (simp add: heap_ok_def heap_upto_def)

lemma heap_pop_None [simp]: "heap_pop lt h = None \<longleftrightarrow> h = []"
  by (simp add: heap_pop_def Let_def)

section \<open>Orders on the elements of a heap only\<close>

text \<open>
  The heap compares only its own elements, so an order that is a weak order on a set is as good
  there as its extension \<open>total_lt\<close>, which puts every element of the set first.
\<close>

definition total_lt :: "'a set \<Rightarrow> ('a \<Rightarrow> 'a \<Rightarrow> bool) \<Rightarrow> 'a \<Rightarrow> 'a \<Rightarrow> bool" where
  "total_lt S lt x y \<longleftrightarrow> (if x \<in> S \<and> y \<in> S then lt x y else x \<in> S \<and> y \<notin> S)"

definition agree_on :: "'a set \<Rightarrow> ('a \<Rightarrow> 'a \<Rightarrow> bool) \<Rightarrow> ('a \<Rightarrow> 'a \<Rightarrow> bool) \<Rightarrow> bool" where
  "agree_on S lt lt' \<longleftrightarrow> (\<forall>x\<in>S. \<forall>y\<in>S. lt x y = lt' x y)"

lemma agree_total: "set h \<subseteq> S \<Longrightarrow> agree_on (set h) lt (total_lt S lt)"
  by (auto simp: agree_on_def total_lt_def)

lemma agree_nth: "agree_on (set h) lt lt' \<Longrightarrow> i < length h \<Longrightarrow> j < length h \<Longrightarrow> lt (h ! i) (h ! j) = lt' (h ! i) (h ! j)"
  by (simp add: agree_on_def)

lemma heap_up_eq:
  "heap_up lt h j = (if parent j = j \<or> \<not> lt (h ! j) (h ! parent j) then h else heap_up lt (swap h (parent j) j) (parent j))"
  by (subst heap_up.simps) (simp only: Let_def parent_def)

definition best_child :: "('a \<Rightarrow> 'a \<Rightarrow> bool) \<Rightarrow> 'a list \<Rightarrow> nat \<Rightarrow> nat \<Rightarrow> nat" where
  "best_child lt h i n = (if 2 * i + 2 < n \<and> lt (h ! (2 * i + 2)) (h ! (2 * i + 1)) then 2 * i + 2 else 2 * i + 1)"

lemma heap_down_eq:
  "heap_down lt h i n =
     (if 2 * i + 1 < n \<and> lt (h ! best_child lt h i n) (h ! i)
      then heap_down lt (swap h i (best_child lt h i n)) (best_child lt h i n) n else h)"
  by (subst heap_down.simps) (auto simp: Let_def best_child_def)

lemma best_child_less: "2 * i + 1 < n \<Longrightarrow> i < best_child lt h i n \<and> best_child lt h i n < n"
  by (simp add: best_child_def)

lemma heap_up_cong: "agree_on (set h) lt lt' \<Longrightarrow> j < length h \<Longrightarrow> heap_up lt h j = heap_up lt' h j"
proof (induction j arbitrary: h rule: less_induct)
  case (less j)
  show ?case
  proof (cases "parent j = j")
    case True
    then show ?thesis by (subst (1 2) heap_up_eq) simp
  next
    case False
    then have p: "parent j < j" "parent j < length h"
      using less.prems(2) parent_below [of j] by (cases "j = 0"; simp add: parent_def)+
    have lt: "lt (h ! j) (h ! parent j) = lt' (h ! j) (h ! parent j)"
      by (rule agree_nth [OF less.prems p(2)])
    have "heap_up lt (swap h (parent j) j) (parent j) = heap_up lt' (swap h (parent j) j) (parent j)"
      by (rule less.IH [OF p(1)]) (use less.prems p in simp_all)
    then show ?thesis
      unfolding heap_up_eq [of lt h j] heap_up_eq [of lt' h j] lt by simp
  qed
qed

lemma heap_down_cong:
  "agree_on (set h) lt lt' \<Longrightarrow> n \<le> length h \<Longrightarrow> i < length h \<Longrightarrow> heap_down lt h i n = heap_down lt' h i n"
proof (induction "n - i" arbitrary: h i rule: less_induct)
  case (less i h)
  show ?case
  proof (cases "2 * i + 1 < n")
    case False
    then show ?thesis unfolding heap_down_eq [of lt h i] heap_down_eq [of lt' h i] by simp
  next
    case True
    define j where "j = best_child lt h i n"
    have j: "i < j" "j < n" using best_child_less [OF True, of lt h] by (simp_all add: j_def)
    have "2 * i + 2 < n \<Longrightarrow> lt (h ! (2 * i + 2)) (h ! (2 * i + 1)) = lt' (h ! (2 * i + 2)) (h ! (2 * i + 1))"
      using less.prems by (intro agree_nth) simp_all
    then have j': "best_child lt' h i n = j" by (auto simp: j_def best_child_def)
    have lt: "lt (h ! j) (h ! i) = lt' (h ! j) (h ! i)"
      using less.prems j by (intro agree_nth) simp_all
    have "heap_down lt (swap h i j) j n = heap_down lt' (swap h i j) j n"
      by (rule less.hyps) (use less.prems j in simp_all)
    then show ?thesis
      unfolding heap_down_eq [of lt h i] heap_down_eq [of lt' h i] j' j_def [symmetric] lt by simp
  qed
qed

lemma heap_push_cong: "agree_on (set (x # h)) lt lt' \<Longrightarrow> heap_push lt x h = heap_push lt' x h"
  unfolding heap_push_def by (rule heap_up_cong) (simp_all add: agree_on_def)

lemma heap_pop_cong: "agree_on (set h) lt lt' \<Longrightarrow> heap_pop lt h = heap_pop lt' h"
  by (cases "h = []") (simp_all add: heap_pop_def Let_def heap_down_cong [of _ lt lt'])

lemma heap_ok_cong: "agree_on (set h) lt lt' \<Longrightarrow> heap_ok lt h = heap_ok lt' h"
proof -
  assume a: "agree_on (set h) lt lt'"
  have "lt (h ! k) (h ! parent k) = lt' (h ! k) (h ! parent k)" if "0 < k" "k < length h" for k
    using agree_nth [OF a that(2)] parent_below [OF that] by simp
  then show ?thesis unfolding heap_ok_def heap_upto_def by auto
qed

lemma weak_order_total:
  assumes a: "\<And>a b. a \<in> S \<Longrightarrow> b \<in> S \<Longrightarrow> lt a b \<Longrightarrow> \<not> lt b a"
    and n: "\<And>a b c. \<lbrakk>a \<in> S; b \<in> S; c \<in> S; \<not> lt a b; \<not> lt b c\<rbrakk> \<Longrightarrow> \<not> lt a c"
  shows "weak_order (total_lt S lt)"
proof (unfold_locales, goal_cases)
  case (1 x y)
  then show ?case using a [of x y] by (auto simp: total_lt_def split: if_splits)
next
  case (2 x y z)
  then show ?case using n [of x y z] by (auto simp: total_lt_def split: if_splits)
qed

end
