(* ===== verification/Collector.thy ===== *)
theory Collector
  imports Search_Hits Go_Heap
begin

text \<open>
  The package \<open>search/collector\<close>: the two stores that keep the best hits (\<open>slice.go\<close>,
  \<open>heap.go\<close>) behind their common contract, the top-N collector (\<open>topn.go\<close>) with its iterator
  (\<open>iterator.go\<close>), and the collector of all hits (\<open>all.go\<close>). A searcher is a cursor with its
  \<open>Next\<close>, a context answers its \<open>n\<close>-th poll, document values are loaded by an argument, and
  the aggregations are a state with \<open>Consume\<close> and \<open>Finish\<close>. The pool of matches only recycles
  memory and is not modelled.
\<close>

section \<open>slice.go\<close>

type_synonym collector_compare = "document_match \<Rightarrow> document_match \<Rightarrow> int"

fun slice_position :: "('a \<Rightarrow> 'a \<Rightarrow> int) \<Rightarrow> 'a \<Rightarrow> 'a list \<Rightarrow> nat \<Rightarrow> nat" where
  "slice_position cmp doc sl 0 = 0"
| "slice_position cmp doc sl (Suc i) =
     (if cmp doc (sl ! i) \<ge> 0 then Suc i else slice_position cmp doc sl i)"

definition slice_add :: "('a \<Rightarrow> 'a \<Rightarrow> int) \<Rightarrow> 'a \<Rightarrow> 'a list \<Rightarrow> 'a list" where
  "slice_add cmp doc sl =
     (let i = slice_position cmp doc sl (length sl)
      in take i sl @ doc # drop i sl)"

definition slice_add_not_exceeding ::
  "('a \<Rightarrow> 'a \<Rightarrow> int) \<Rightarrow> 'a \<Rightarrow> nat \<Rightarrow> 'a list \<Rightarrow> 'a list \<times> 'a option" where
  "slice_add_not_exceeding cmp doc sz sl =
     (let sl = slice_add cmp doc sl in
      if length sl > sz then (butlast sl, Some (last sl)) else (sl, None))"

fun fixup_all :: "('a \<Rightarrow> ('e, 'a) result) \<Rightarrow> 'a list \<Rightarrow> ('e, 'a list) result" where
  "fixup_all fixup [] = Inr []"
| "fixup_all fixup (d # ds) =
     (case fixup d of
        Inl e \<Rightarrow> Inl e
      | Inr d' \<Rightarrow> (case fixup_all fixup ds of Inl e \<Rightarrow> Inl e | Inr ds' \<Rightarrow> Inr (d' # ds')))"

definition slice_final :: "nat \<Rightarrow> ('a \<Rightarrow> ('e, 'a) result) \<Rightarrow> 'a list \<Rightarrow> ('e, 'a list) result" where
  "slice_final skip fixup sl = fixup_all fixup (drop skip sl)"

section \<open>heap.go\<close>

definition heap_less :: "('a \<Rightarrow> 'a \<Rightarrow> int) \<Rightarrow> 'a \<Rightarrow> 'a \<Rightarrow> bool" where
  "heap_less cmp i j \<longleftrightarrow> (let so = cmp i j in - so < 0)"

text \<open>\<open>heap.Pop\<close> on an empty heap panics: the error \<open>pan\<close> is the caller's.\<close>

definition heap_add_not_exceeding ::
  "('a \<Rightarrow> 'a \<Rightarrow> int) \<Rightarrow> 'a \<Rightarrow> nat \<Rightarrow> 'a list \<Rightarrow> 'a list \<times> 'a option" where
  "heap_add_not_exceeding cmp doc sz h =
     (let h = heap_push (heap_less cmp) doc h in
      if length h > sz
      then (case heap_pop (heap_less cmp) h of Some (x, h') \<Rightarrow> (h', Some x) | None \<Rightarrow> (h, None))
      else (h, None))"

fun heap_final_loop ::
  "('a \<Rightarrow> 'a \<Rightarrow> int) \<Rightarrow> ('a \<Rightarrow> ('e, 'a) result) \<Rightarrow> nat \<Rightarrow> 'a list \<Rightarrow> 'a list \<Rightarrow> ('e, 'a list) result" where
  "heap_final_loop cmp fixup 0 h rv = Inr rv"
| "heap_final_loop cmp fixup (Suc i) h rv =
     (case heap_pop (heap_less cmp) h of
        None \<Rightarrow> Inr rv
      | Some (doc, h') \<Rightarrow>
          (case fixup doc of
             Inl e \<Rightarrow> Inl e
           | Inr doc' \<Rightarrow> heap_final_loop cmp fixup i h' (doc' # rv)))"

definition heap_final ::
  "('a \<Rightarrow> 'a \<Rightarrow> int) \<Rightarrow> nat \<Rightarrow> ('a \<Rightarrow> ('e, 'a) result) \<Rightarrow> 'a list \<Rightarrow> ('e, 'a list) result" where
  "heap_final cmp skip fixup h =
     (let count = length h in
      if count \<le> skip then Inr [] else heap_final_loop cmp fixup (count - skip) h [])"

section \<open>The slice store keeps its hits sorted\<close>

lemma slice_position_le: "slice_position cmp d sl i \<le> i"
  by (induction i) auto

lemma slice_position_before: "slice_position cmp d sl i = Suc k \<Longrightarrow> cmp d (sl ! k) \<ge> 0"
  by (induction i) (auto split: if_splits)

lemma slice_position_after: "slice_position cmp d sl i \<le> k \<Longrightarrow> k < i \<Longrightarrow> cmp d (sl ! k) < 0"
  by (induction i) (auto split: if_splits simp: less_Suc_eq)

lemma mset_slice_add [simp]: "mset (slice_add cmp d sl) = add_mset d (mset sl)"
proof -
  have "mset (take i sl) + mset (drop i sl) = mset sl" for i
    by (metis append_take_drop_id mset_append)
  then show ?thesis by (simp add: slice_add_def Let_def)
qed

lemma length_slice_add [simp]: "length (slice_add cmp d sl) = Suc (length sl)"
  by (metis mset_slice_add size_add_mset size_mset)

lemma slice_add_sorted:
  assumes c: "comparator_on S cmp" and S: "set sl \<subseteq> S" "d \<in> S" and s: "sorted_wrt (\<lambda>a b. cmp a b \<le> 0) sl"
  shows "sorted_wrt (\<lambda>a b. cmp a b \<le> 0) (slice_add cmp d sl)"
proof -
  define i where "i = slice_position cmp d sl (length sl)"
  have i: "i \<le> length sl" by (simp add: i_def slice_position_le)
  have before: "cmp a d \<le> 0" if a: "a \<in> set (take i sl)" for a
  proof -
    from a obtain k where k: "k < i" "k < length sl" "a = sl ! k" by (auto simp: in_set_conv_nth)
    then obtain j where j: "i = Suc j" by (cases i) auto
    have "cmp d (sl ! j) \<ge> 0" using slice_position_before i_def j by metis
    then have jd: "cmp (sl ! j) d \<le> 0" using comparator_anti [OF c, of d "sl ! j"] S i j by (auto simp: subset_iff)
    show ?thesis
    proof (cases "k = j")
      case False
      then have "cmp (sl ! k) (sl ! j) \<le> 0" using s k i j by (auto simp: sorted_wrt_iff_nth_less)
      then show ?thesis using comparator_trans [OF c _ _ _ _ jd, of a] S k i j by (auto simp: subset_iff)
    qed (use jd k in simp)
  qed
  have after: "cmp d b \<le> 0" if "b \<in> set (drop i sl)" for b
  proof -
    from that obtain k where "i \<le> k" "k < length sl" "b = sl ! k"
      by (auto simp: in_set_conv_nth) (metis add.commute le_add1 less_diff_conv)
    then show ?thesis using slice_position_after [of cmp d sl "length sl" k] by (simp add: i_def)
  qed
  have ad: "sorted_wrt (\<lambda>a b. cmp a b \<le> 0) (take i sl @ drop i sl)" using s by simp
  show ?thesis
    using ad before after
    by (simp only: slice_add_def Let_def i_def [symmetric] sorted_wrt_append sorted_wrt.simps list.set) auto
qed

lemma sorted_permutation_exists:
  assumes "comparator_on S cmp"
  shows "set_mset D \<subseteq> S \<Longrightarrow> \<exists>xs. mset xs = D \<and> sorted_wrt (\<lambda>a b. cmp a b \<le> 0) xs"
proof (induction D)
  case (add d D)
  then obtain xs where "mset xs = D" "sorted_wrt (\<lambda>a b. cmp a b \<le> 0) xs" by auto
  then show ?case
    using slice_add_sorted [OF assms, of xs d] add.prems by (intro exI [of _ "slice_add cmp d xs"]) auto
qed simp

section \<open>The contract of a store\<close>

locale collector_store =
  fixes cmp :: "'a \<Rightarrow> 'a \<Rightarrow> int" and S :: "'a set"
    and add :: "'a \<Rightarrow> nat \<Rightarrow> 's \<Rightarrow> 's \<times> 'a option"
    and final :: "nat \<Rightarrow> ('a \<Rightarrow> ('e, 'a) result) \<Rightarrow> 's \<Rightarrow> ('e, 'a list) result"
    and ok :: "'s \<Rightarrow> bool" and content :: "'s \<Rightarrow> 'a multiset"
  assumes comparator: "comparator_on S cmp"
    and add_room: "\<lbrakk>ok s; set_mset (content s) \<subseteq> S; x \<in> S; size (content s) < n\<rbrakk> \<Longrightarrow>
      \<exists>s'. add x n s = (s', None) \<and> ok s' \<and> content s' = add_mset x (content s)"
    and add_full: "\<lbrakk>ok s; set_mset (content s) \<subseteq> S; x \<in> S; size (content s) = n\<rbrakk> \<Longrightarrow>
      \<exists>s' y. add x n s = (s', Some y) \<and> ok s' \<and> add_mset y (content s') = add_mset x (content s) \<and>
        (\<forall>z\<in>#content s'. cmp z y \<le> 0)"
    and final_sorted: "\<lbrakk>ok s; set_mset (content s) \<subseteq> S; \<forall>x\<in>#content s. fixup x = Inr (f x)\<rbrakk> \<Longrightarrow>
      \<exists>xs. mset xs = content s \<and> sorted_wrt (\<lambda>a b. cmp a b \<le> 0) xs \<and> final skip fixup s = Inr (map f (drop skip xs))"
begin

lemma anti: "x \<in> S \<Longrightarrow> y \<in> S \<Longrightarrow> cmp y x = - cmp x y"
  by (rule comparator_anti [OF comparator])

lemma trans: "\<lbrakk>x \<in> S; y \<in> S; z \<in> S; cmp x y \<le> 0; cmp y z \<le> 0\<rbrakk> \<Longrightarrow> cmp x z \<le> 0"
  by (rule comparator_trans [OF comparator])

text \<open>
  The invariant of a collection: the hits \<open>hits\<close> are those the store holds and those thrown
  away, none of which comes before a stored one, and a hit was thrown away only when the store
  was full.
\<close>

definition collected :: "nat \<Rightarrow> 's \<Rightarrow> 'a option \<Rightarrow> 'a multiset \<Rightarrow> bool" where
  "collected n s lowest hits \<longleftrightarrow>
     ok s \<and> set_mset hits \<subseteq> S \<and> size (content s) \<le> n \<and>
     (\<exists>D. hits = content s + D \<and> (\<forall>x\<in>#content s. \<forall>y\<in>#D. cmp x y \<le> 0) \<and>
        (case lowest of None \<Rightarrow> D = {#} | Some l \<Rightarrow> l \<in># D \<and> size (content s) = n))"

lemma collected_skip:
  assumes "collected n s (Some l) hits" and "d \<in> S" and "cmp d l \<ge> 0"
  shows "collected n s (Some l) (add_mset d hits)"
proof -
  from assms(1) obtain D where D: "hits = content s + D" "\<forall>x\<in>#content s. \<forall>y\<in>#D. cmp x y \<le> 0" "l \<in># D"
    and c: "ok s" "set_mset hits \<subseteq> S" "size (content s) = n"
    by (auto simp: collected_def)
  have "cmp l d \<le> 0" using anti [of d l] assms D c by auto
  then have "\<forall>x\<in>#content s. cmp x d \<le> 0"
    using D c assms(2) by (auto intro: trans [of _ l d])
  then show ?thesis
    using D c assms(2) unfolding collected_def by (auto intro!: exI [of _ "add_mset d D"])
qed

lemma collected_add:
  assumes c: "collected n s lowest hits" and d: "d \<in> S" and a: "add d n s = (s', r)"
  shows "collected n s' (case r of None \<Rightarrow> lowest | Some y \<Rightarrow>
           (case lowest of None \<Rightarrow> Some y | Some l \<Rightarrow> if cmp y l < 0 then Some y else Some l)) (add_mset d hits)"
proof -
  from c obtain D where D: "hits = content s + D" "\<forall>x\<in>#content s. \<forall>y\<in>#D. cmp x y \<le> 0"
      "case lowest of None \<Rightarrow> D = {#} | Some l \<Rightarrow> l \<in># D \<and> size (content s) = n"
    and c: "ok s" "set_mset hits \<subseteq> S" "size (content s) \<le> n"
    by (auto simp: collected_def)
  then have cs: "set_mset (content s) \<subseteq> S" by auto
  show ?thesis
  proof (cases "size (content s) < n")
    case True
    then have r: "r = None" and s': "ok s'" "content s' = add_mset d (content s)"
      using add_room [OF c(1) cs d True] a by auto
    have "lowest = None" "D = {#}" using D(3) True by (auto split: option.splits)
    with D c d r s' True show ?thesis by (auto simp: collected_def)
  next
    case False
    then have n: "size (content s) = n" using c by simp
    with add_full [OF c(1) cs d n] a obtain y where
      r: "r = Some y" and s': "ok s'" "add_mset y (content s') = add_mset d (content s)" "\<forall>z\<in>#content s'. cmp z y \<le> 0"
      by auto
    have size: "size (content s') = n"
      using arg_cong [OF s'(2), of size] n by simp
    have inS: "set_mset (add_mset y (content s')) \<subseteq> S" using s'(2) cs d by simp
    have ystored: "\<forall>z\<in>#D. z \<in> S" using D(1) c(2) by auto
    have *: "\<forall>x\<in>#content s'. \<forall>z\<in>#add_mset y D. cmp x z \<le> 0"
    proof (intro ballI)
      fix x z assume x: "x \<in># content s'" and z: "z \<in># add_mset y D"
      show "cmp x z \<le> 0"
      proof (cases "z = y")
        case False
        with z have zD: "z \<in># D" by simp
        show ?thesis
        proof (cases "x \<in># content s")
          case False
          have "x \<in># add_mset d (content s)" using s'(2) x by (metis union_iff add_mset_add_single)
          with False have "x = d" by simp
          moreover have "y \<in># add_mset d (content s)" using s'(2) by (metis union_single_eq_member)
          ultimately have "y \<in># content s \<or> y = d" by auto
          moreover have "y \<in># content s"
          proof (rule ccontr)
            assume "y \<notin># content s"
            then have "y = d" using \<open>y \<in># add_mset d (content s)\<close> by simp
            then have "content s' = content s" using s'(2) by simp
            with False x show False by simp
          qed
          ultimately have "cmp y z \<le> 0" using D(2) zD by simp
          then show ?thesis
            using trans [of x y z] s'(3) x inS ystored zD by auto
        qed (use D(2) zD in simp)
      qed (use s'(3) x in simp)
    qed
    have "add_mset d hits = content s' + add_mset y D"
      using D(1) s'(2) by (simp add: ac_simps)
    moreover have "set_mset (add_mset d hits) \<subseteq> S" using c(2) d by simp
    ultimately show ?thesis
      using r s'(1) size * D(3) unfolding collected_def
      by (intro conjI exI [of _ "add_mset y D"]) (auto split: option.splits)
  qed
qed

lemma collected_final:
  assumes c: "collected n s lowest hits" and f: "\<forall>x\<in>#hits. fixup x = Inr (f x)"
  shows "\<exists>xs. mset xs = hits \<and> sorted_wrt (\<lambda>a b. cmp a b \<le> 0) xs \<and>
    final skip fixup s = Inr (map f (drop skip (take n xs)))"
proof -
  from c obtain D where D: "hits = content s + D" "\<forall>x\<in>#content s. \<forall>y\<in>#D. cmp x y \<le> 0"
      "case lowest of None \<Rightarrow> D = {#} | Some l \<Rightarrow> l \<in># D \<and> size (content s) = n"
    and c: "ok s" "set_mset hits \<subseteq> S" "size (content s) \<le> n"
    by (auto simp: collected_def)
  have "set_mset (content s) \<subseteq> S" "\<forall>x\<in>#content s. fixup x = Inr (f x)" using D(1) c(2) f by auto
  from final_sorted [OF c(1) this, of skip] obtain xs where
    xs: "mset xs = content s" "sorted_wrt (\<lambda>a b. cmp a b \<le> 0) xs" "final skip fixup s = Inr (map f (drop skip xs))"
    by blast
  obtain ys where ys: "mset ys = D" "sorted_wrt (\<lambda>a b. cmp a b \<le> 0) ys"
  proof -
    have "set_mset D \<subseteq> S" using D(1) c(2) by auto
    then show ?thesis using that comparator sorted_permutation_exists by blast
  qed
  have len: "length xs = size (content s)" using xs(1) by (metis size_mset)
  have "take n (xs @ ys) = xs"
    using D(3) ys(1) len c(3) by (auto split: option.splits)
  moreover have "sorted_wrt (\<lambda>a b. cmp a b \<le> 0) (xs @ ys)"
    using xs ys D(2) by (simp add: sorted_wrt_append flip: set_mset_mset)
  ultimately show ?thesis
    using xs ys D(1) by (intro exI [of _ "xs @ ys"]) simp
qed

end


section \<open>The two stores satisfy the contract\<close>

lemma fixup_all_Inr: "\<forall>x\<in>set xs. fixup x = Inr (f x) \<Longrightarrow> fixup_all fixup xs = Inr (map f xs)"
  by (induction xs) auto

lemma slice_store:
  assumes c: "comparator_on S cmp"
  shows "collector_store cmp S (slice_add_not_exceeding cmp) slice_final (sorted_wrt (\<lambda>a b. cmp a b \<le> 0)) mset"
proof (unfold_locales, goal_cases)
  case 1
  show ?case by (rule c)
next
  case (2 sl x n)
  then show ?case
    using slice_add_sorted [OF c, of sl x] by (simp add: slice_add_not_exceeding_def)
next
  case (3 sl x n)
  let ?t = "slice_add cmp x sl"
  have s: "sorted_wrt (\<lambda>a b. cmp a b \<le> 0) ?t" using slice_add_sorted [OF c, of sl x] 3 by simp
  have "?t \<noteq> []" using length_slice_add [of cmp x sl] by force
  then obtain bs y where t: "?t = bs @ [y]" by (metis append_butlast_last_id)
  have "slice_add_not_exceeding cmp x n sl = (bs, Some y)"
    using 3(4) t length_slice_add [of cmp x sl] by (simp add: slice_add_not_exceeding_def Let_def)
  moreover have "add_mset y (mset bs) = add_mset x (mset sl)"
    using mset_slice_add [of cmp x sl] t by simp
  ultimately show ?case using s t by (auto simp: sorted_wrt_append)
next
  case (4 sl fixup f skip)
  then have "\<forall>x\<in>set (drop skip sl). fixup x = Inr (f x)" by (auto dest: in_set_dropD)
  then show ?case using 4 by (intro exI [of _ sl]) (simp add: slice_final_def fixup_all_Inr)
qed

lemma heap_less_order:
  assumes c: "comparator_on S cmp"
  shows "weak_order (total_lt S (heap_less cmp))"
proof (rule weak_order_total)
  fix a b assume "a \<in> S" "b \<in> S" "heap_less cmp a b"
  then show "\<not> heap_less cmp b a" using comparator_anti [OF c, of a b] by (simp add: heap_less_def)
next
  fix a b d assume S: "a \<in> S" "b \<in> S" "d \<in> S" and n: "\<not> heap_less cmp a b" "\<not> heap_less cmp b d"
  then show "\<not> heap_less cmp a d" using comparator_trans [OF c S] by (simp add: heap_less_def)
qed

lemma heap_push_on:
  assumes c: "comparator_on S cmp" and S: "set h \<subseteq> S" "x \<in> S" and ok: "heap_ok (heap_less cmp) h"
  shows "heap_ok (heap_less cmp) (heap_push (heap_less cmp) x h)"
    and "mset (heap_push (heap_less cmp) x h) = add_mset x (mset h)"
proof -
  let ?lt = "total_lt S (heap_less cmp)"
  have w: "weak_order ?lt" by (rule heap_less_order [OF c])
  show "mset (heap_push (heap_less cmp) x h) = add_mset x (mset h)"
    by (simp add: heap_push_def heap_simps)
  then have set: "set (heap_push (heap_less cmp) x h) \<subseteq> S"
    using S by (metis insert_subset set_mset_add_mset_insert set_mset_mset)
  have "heap_ok ?lt h" using ok heap_ok_cong [OF agree_total [OF S(1)]] by blast
  then have "heap_ok ?lt (heap_push ?lt x h)" by (rule weak_order.heap_ok_push [OF w])
  moreover have "heap_push (heap_less cmp) x h = heap_push ?lt x h"
    by (rule heap_push_cong, rule agree_total) (use S in simp)
  ultimately show "heap_ok (heap_less cmp) (heap_push (heap_less cmp) x h)"
    using heap_ok_cong [OF agree_total [OF set]] by metis
qed

lemma heap_pop_on:
  assumes c: "comparator_on S cmp" and S: "set h \<subseteq> S" and ok: "heap_ok (heap_less cmp) h" and ne: "h \<noteq> []"
  shows "\<exists>x h'. heap_pop (heap_less cmp) h = Some (x, h') \<and> heap_ok (heap_less cmp) h' \<and>
    mset h = add_mset x (mset h') \<and> (\<forall>y\<in>set h. cmp y x \<le> 0)"
proof -
  let ?lt = "total_lt S (heap_less cmp)"
  have w: "weak_order ?lt" by (rule heap_less_order [OF c])
  have "heap_ok ?lt h" using ok heap_ok_cong [OF agree_total [OF S]] by blast
  moreover obtain x h' where p: "heap_pop ?lt h = Some (x, h')"
    using ne by (cases "heap_pop ?lt h") (auto simp: heap_pop_None)
  ultimately have r: "heap_ok ?lt h'" "mset h = add_mset x (mset h')" "\<forall>y\<in>set h. \<not> ?lt y x"
    using weak_order.heap_pop_Some [OF w] by blast+
  have sub: "set h' \<subseteq> S" "x \<in> S"
    using S r(2) by (metis insert_subset set_mset_add_mset_insert set_mset_mset)+
  have "heap_pop (heap_less cmp) h = Some (x, h')"
    using p heap_pop_cong [OF agree_total [OF S]] by metis
  moreover have "heap_ok (heap_less cmp) h'"
    using r(1) heap_ok_cong [OF agree_total [OF sub(1)]] by blast
  moreover have "\<forall>y\<in>set h. cmp y x \<le> 0"
    using r(3) S sub(2) by (auto simp: total_lt_def heap_less_def subset_iff)
  ultimately show ?thesis using r(2) by blast
qed

lemma heap_final_loop_spec:
  assumes c: "comparator_on S cmp"
  shows "\<lbrakk>set h \<subseteq> S; heap_ok (heap_less cmp) h; \<forall>x\<in>set h. fixup x = Inr (f x); i \<le> length h\<rbrakk> \<Longrightarrow>
    \<exists>xs. mset xs = mset h \<and> sorted_wrt (\<lambda>a b. cmp a b \<le> 0) xs \<and>
      heap_final_loop cmp fixup i h rv = Inr (map f (drop (length h - i) xs) @ rv)"
proof (induction i arbitrary: h rv)
  case 0
  obtain xs where "mset xs = mset h" "sorted_wrt (\<lambda>a b. cmp a b \<le> 0) xs"
    using sorted_permutation_exists [OF c, of "mset h"] 0 by auto
  moreover from this have "length xs = length h" by (metis size_mset)
  ultimately show ?case by auto
next
  case (Suc i)
  then have "h \<noteq> []" by auto
  from heap_pop_on [OF c Suc.prems(1,2) this] obtain x h' where
    p: "heap_pop (heap_less cmp) h = Some (x, h')" "heap_ok (heap_less cmp) h'"
      "mset h = add_mset x (mset h')" "\<forall>y\<in>set h. cmp y x \<le> 0" by blast
  have sub: "set h = insert x (set h')" using p(3) by (metis set_mset_add_mset_insert set_mset_mset)
  have len: "length h = Suc (length h')" using p(3) by (metis size_add_mset size_mset)
  have "set h' \<subseteq> S" "\<forall>x\<in>set h'. fixup x = Inr (f x)" "i \<le> length h'"
    using Suc.prems sub len by auto
  from Suc.IH [OF this(1) p(2) this(2,3), of "f x # rv"] obtain xs where
    xs: "mset xs = mset h'" "sorted_wrt (\<lambda>a b. cmp a b \<le> 0) xs"
      "heap_final_loop cmp fixup i h' (f x # rv) = Inr (map f (drop (length h' - i) xs) @ f x # rv)" by blast
  have set: "set xs = set h'" using xs(1) by (metis set_mset_mset)
  have lenx: "length xs = length h'" using xs(1) by (metis size_mset)
  show ?case
  proof (intro exI [of _ "xs @ [x]"] conjI)
    show "mset (xs @ [x]) = mset h" using xs(1) p(3) by simp
    show "sorted_wrt (\<lambda>a b. cmp a b \<le> 0) (xs @ [x])"
      using xs(2) p(4) sub set by (intro sorted_wrt_snocI) auto
    show "heap_final_loop cmp fixup (Suc i) h rv = Inr (map f (drop (length h - Suc i) (xs @ [x])) @ rv)"
      using p(1) xs(3) Suc.prems(3) sub len lenx by simp
  qed
qed

lemma heap_store:
  assumes c: "comparator_on S cmp"
  shows "collector_store cmp S (heap_add_not_exceeding cmp) (heap_final cmp) (heap_ok (heap_less cmp)) mset"
proof (unfold_locales, goal_cases)
  case 1
  show ?case by (rule c)
next
  case (2 h x n)
  then have m: "mset (heap_push (heap_less cmp) x h) = add_mset x (mset h)" "heap_ok (heap_less cmp) (heap_push (heap_less cmp) x h)"
    using heap_push_on [OF c, of h x] by auto
  then have "length (heap_push (heap_less cmp) x h) = Suc (length h)" by (metis size_add_mset size_mset)
  then show ?case using 2 m by (simp add: heap_add_not_exceeding_def)
next
  case (3 h x n)
  let ?g = "heap_push (heap_less cmp) x h"
  have m: "mset ?g = add_mset x (mset h)" "heap_ok (heap_less cmp) ?g"
    using heap_push_on [OF c, of h x] 3 by auto
  then have len: "length ?g = Suc (length h)" by (metis size_add_mset size_mset)
  have "set ?g \<subseteq> S" "?g \<noteq> []" using m(1) 3 by (metis insert_subset set_mset_add_mset_insert set_mset_mset, use len in auto)
  from heap_pop_on [OF c this(1) m(2) this(2)] obtain y h' where
    "heap_pop (heap_less cmp) ?g = Some (y, h')" "heap_ok (heap_less cmp) h'" "mset ?g = add_mset y (mset h')"
    "\<forall>z\<in>set ?g. cmp z y \<le> 0" by blast
  moreover from this have "set h' \<subseteq> set ?g" by (metis set_mset_add_mset_insert set_mset_mset subset_insertI)
  ultimately show ?case using m(1) 3(4) len by (auto simp: heap_add_not_exceeding_def)
next
  case (4 h fixup f skip)
  show ?case
  proof (cases "length h \<le> skip")
    case True
    obtain xs where "mset xs = mset h" "sorted_wrt (\<lambda>a b. cmp a b \<le> 0) xs"
      using sorted_permutation_exists [OF c 4(2)] by blast
    moreover from this have "length xs = length h" by (metis size_mset)
    ultimately show ?thesis using True by (auto simp: heap_final_def)
  next
    case False
    then show ?thesis
      using heap_final_loop_spec [OF c, of h fixup f "length h - skip" "[]"] 4 by (simp add: heap_final_def)
  qed
qed


section \<open>topn.go\<close>

datatype store = Store_Slice "document_match list" | Store_Heap "document_match list"

definition store_add ::
  "collector_compare \<Rightarrow> document_match \<Rightarrow> nat \<Rightarrow> store \<Rightarrow> store \<times> document_match option" where
  "store_add cmp doc n st =
     (case st of
        Store_Slice sl \<Rightarrow> (case slice_add_not_exceeding cmp doc n sl of (sl', r) \<Rightarrow> (Store_Slice sl', r))
      | Store_Heap h \<Rightarrow> (case heap_add_not_exceeding cmp doc n h of (h', r) \<Rightarrow> (Store_Heap h', r)))"

definition store_final ::
  "collector_compare \<Rightarrow> nat \<Rightarrow> (document_match \<Rightarrow> ('e, document_match) result) \<Rightarrow> store \<Rightarrow> ('e, document_match list) result" where
  "store_final cmp skip fixup st =
     (case st of
        Store_Slice sl \<Rightarrow> slice_final skip fixup sl
      | Store_Heap h \<Rightarrow> heap_final cmp skip fixup h)"

definition pre_alloc_size_skip_cap :: nat where "pre_alloc_size_skip_cap = 1000"
definition check_done_every :: nat where "check_done_every = 1024"
definition switch_from_slice_to_heap :: nat where "switch_from_slice_to_heap = 10"

record topn_collector =
  tc_size :: nat
  tc_skip :: nat
  tc_sort :: sort_order
  tc_results :: "document_match list"
  tc_reverse :: bool
  tc_backingSize :: nat
  tc_store :: store
  tc_neededFields :: "string list"
  tc_lowest :: "document_match option"
  tc_searchAfter :: "document_match option"
  tc_scoreSort :: bool
  tc_scoredCandidates :: nat
  tc_totalCandidates :: nat

definition new_topn_collector_internal :: "nat \<Rightarrow> nat \<Rightarrow> sort_order \<Rightarrow> bool \<Rightarrow> topn_collector" where
  "new_topn_collector_internal sz skip ord reverse =
     \<lparr>tc_size = sz, tc_skip = skip, tc_sort = ord, tc_results = [], tc_reverse = reverse,
      tc_backingSize = (if sz + skip > pre_alloc_size_skip_cap then pre_alloc_size_skip_cap + 1 else sz + skip + 1),
      tc_store = (if sz + skip > switch_from_slice_to_heap then Store_Heap [] else Store_Slice []),
      tc_neededFields = sort_fields ord, tc_lowest = None, tc_searchAfter = None,
      tc_scoreSort = (\<not> reverse \<and> is_score_descending ord),
      tc_scoredCandidates = 0, tc_totalCandidates = 0\<rparr>"

definition new_topn_collector :: "nat \<Rightarrow> nat \<Rightarrow> sort_order \<Rightarrow> topn_collector" where
  "new_topn_collector sz skip ord = new_topn_collector_internal sz skip ord False"

definition empty_match :: document_match where
  "empty_match = \<lparr>Number = 0, Score = 0, Locations = Map.empty, SortValue = [], docValues = Map.empty,
                  HitNumber = 0, FieldTermLocations = []\<rparr>"

definition new_topn_collector_after :: "nat \<Rightarrow> sort_order \<Rightarrow> bytes list \<Rightarrow> bool \<Rightarrow> topn_collector" where
  "new_topn_collector_after sz ord after reverse =
     (new_topn_collector_internal sz 0 ord reverse)
       \<lparr>tc_searchAfter := Some (empty_match\<lparr>SortValue := after\<rparr>), tc_scoreSort := False\<rparr>"

definition tc_compare :: "topn_collector \<Rightarrow> collector_compare" where
  "tc_compare hc = (if tc_scoreSort hc then compare_score else sort_compare (tc_sort hc))"

datatype 'e collect_error = Ctx_Done | Source_Error 'e | Panicked

record raw_topn_result =
  raw_Matches :: "document_match list"
  raw_ScoredCandidates :: nat
  raw_TotalCandidates :: nat

text \<open>What a collection calls: the context, the searcher, the document values, the aggregations.\<close>

record ('c, 'e, 'b) collect_env =
  env_done :: "nat \<Rightarrow> bool"
  env_next :: "'c \<Rightarrow> ('e, document_match option \<times> 'c) result"
  env_raw :: "('c \<Rightarrow> nat \<Rightarrow> ('e, raw_topn_result option) result) option"
  env_load :: "string list \<Rightarrow> document_match \<Rightarrow> ('e, document_match) result"
  env_sort_locs :: "location list \<Rightarrow> location list"
  env_consume :: "'b \<Rightarrow> document_match \<Rightarrow> 'b"
  env_finish :: "'b \<Rightarrow> 'b"

record 'b aggregations =
  agg_fields :: "string list"
  agg_empty :: bool
  agg_bucket :: 'b

definition load_needed ::
  "('c, 'e, 'b) collect_env \<Rightarrow> string list \<Rightarrow> document_match \<Rightarrow> ('e collect_error, document_match) result" where
  "load_needed env fs d =
     (if length fs > 0
      then (case env_load env fs d of Inl e \<Rightarrow> Inl (Source_Error e) | Inr d \<Rightarrow> Inr d)
      else Inr d)"

definition collect_single ::
  "('c, 'e, 'b) collect_env \<Rightarrow> topn_collector \<Rightarrow> document_match \<Rightarrow> 'b \<Rightarrow>
   ('e collect_error, topn_collector \<times> 'b) result" where
  "collect_single env hc d bucket =
     (case load_needed env (tc_neededFields hc) d of
        Inl e \<Rightarrow> Inl e
      | Inr d \<Rightarrow>
          let d = (if \<not> tc_scoreSort hc then sort_compute (tc_sort hc) d else d);
              bucket = env_consume env bucket d;
              after = map_option (\<lambda>a. a\<lparr>HitNumber := HitNumber d\<rparr>) (tc_searchAfter hc);
              hc = hc\<lparr>tc_searchAfter := after\<rparr>
          in if (case after of None \<Rightarrow> False | Some a \<Rightarrow> sort_compare (tc_sort hc) d a \<le> 0)
             then Inr (hc, bucket)
             else if (case tc_lowest hc of None \<Rightarrow> False | Some l \<Rightarrow> tc_compare hc d l \<ge> 0)
             then Inr (hc, bucket)
             else
               (case store_add (tc_compare hc) d (tc_size hc + tc_skip hc) (tc_store hc) of
                  (st, removed) \<Rightarrow>
                    let hc = hc\<lparr>tc_store := st\<rparr> in
                    (case removed of
                       None \<Rightarrow> Inr (hc, bucket)
                     | Some r \<Rightarrow>
                         (case tc_lowest hc of
                            None \<Rightarrow> Inr (hc\<lparr>tc_lowest := Some r\<rparr>, bucket)
                          | Some l \<Rightarrow>
                              if tc_compare hc r l < 0 then Inr (hc\<lparr>tc_lowest := Some r\<rparr>, bucket)
                              else Inr (hc, bucket)))))"

definition complete_fixup ::
  "('c, 'e, 'b) collect_env \<Rightarrow> document_match \<Rightarrow> ('e collect_error, document_match) result" where
  "complete_fixup env d = (case complete_match (env_sort_locs env) d of None \<Rightarrow> Inl Panicked | Some d \<Rightarrow> Inr d)"

definition finalize_results ::
  "('c, 'e, 'b) collect_env \<Rightarrow> topn_collector \<Rightarrow> ('e collect_error, topn_collector) result" where
  "finalize_results env hc =
     (case store_final (tc_compare hc) (tc_skip hc) (complete_fixup env) (tc_store hc) of
        Inl e \<Rightarrow> Inl e
      | Inr res \<Rightarrow>
          let res = (if tc_reverse hc then rev res else res);
              res = (if tc_scoreSort hc then map (sort_compute (tc_sort hc)) res else res)
          in Inr (hc\<lparr>tc_results := res\<rparr>))"

partial_function (option) collect_loop ::
  "('c, 'e, 'b) collect_env \<Rightarrow> nat \<Rightarrow> nat \<Rightarrow> 'c \<Rightarrow> document_match option \<Rightarrow> topn_collector \<Rightarrow> 'b \<Rightarrow>
   ('e collect_error, topn_collector \<times> 'b) result option" where
  "collect_loop env hitNumber polls cur nxt hc bucket =
     (case nxt of
        None \<Rightarrow> Some (Inr (hc, bucket))
      | Some d \<Rightarrow>
          if hitNumber mod check_done_every = 0 \<and> env_done env polls then Some (Inl Ctx_Done)
          else
            let polls = (if hitNumber mod check_done_every = 0 then polls + 1 else polls);
                hitNumber = hitNumber + 1;
                d = d\<lparr>HitNumber := int hitNumber\<rparr>
            in (case collect_single env hc d bucket of
                  Inl e \<Rightarrow> Some (Inl e)
                | Inr (hc, bucket) \<Rightarrow>
                    (case env_next env cur of
                       Inl e \<Rightarrow> Some (Inl (Source_Error e))
                     | Inr (nxt, cur) \<Rightarrow> collect_loop env hitNumber polls cur nxt hc bucket)))"

fun complete_raw ::
  "('c, 'e, 'b) collect_env \<Rightarrow> sort_order \<Rightarrow> document_match list \<Rightarrow> ('e collect_error, document_match list) result" where
  "complete_raw env ord [] = Inr []"
| "complete_raw env ord (m # ms) =
     (case complete_fixup env m of
        Inl e \<Rightarrow> Inl e
      | Inr m' \<Rightarrow>
          (case complete_raw env ord ms of Inl e \<Rightarrow> Inl e | Inr ms' \<Rightarrow> Inr (sort_compute ord m' # ms')))"

definition finish_raw_topn ::
  "('c, 'e, 'b) collect_env \<Rightarrow> topn_collector \<Rightarrow> document_match list \<Rightarrow> 'b \<Rightarrow>
   ('e collect_error, topn_collector \<times> 'b) result" where
  "finish_raw_topn env hc matches bucket =
     (let skip = (if tc_skip hc > length matches then length matches else tc_skip hc);
          matches = drop skip matches;
          matches = (if length matches > tc_size hc then take (tc_size hc) matches else matches)
      in case complete_raw env (tc_sort hc) matches of
           Inl e \<Rightarrow> Inl e
         | Inr matches \<Rightarrow> Inr (hc\<lparr>tc_results := matches\<rparr>, env_finish env bucket))"

definition collect ::
  "('c, 'e, 'b) collect_env \<Rightarrow> topn_collector \<Rightarrow> 'b aggregations \<Rightarrow> 'c \<Rightarrow>
   ('e collect_error, topn_collector \<times> 'b) result option" where
  "collect env hc aggs cur =
     (let hc = hc\<lparr>tc_neededFields := tc_neededFields hc @ agg_fields aggs\<rparr>;
          bucket = agg_bucket aggs;
          slow =
            (if env_done env 0 then Some (Inl Ctx_Done)
             else
               (case env_next env cur of
                  Inl e \<Rightarrow> Some (Inl (Source_Error e))
                | Inr (nxt, cur) \<Rightarrow>
                    (case collect_loop env 0 1 cur nxt hc bucket of
                       None \<Rightarrow> None
                     | Some (Inl e) \<Rightarrow> Some (Inl e)
                     | Some (Inr (hc, bucket)) \<Rightarrow>
                         let bucket = env_finish env bucket in
                         (case finalize_results env hc of
                            Inl e \<Rightarrow> Some (Inl e)
                          | Inr hc \<Rightarrow> Some (Inr (hc, bucket))))))
      in if tc_scoreSort hc \<and> tc_searchAfter hc = None \<and> agg_empty aggs
         then (case env_raw env of
                 None \<Rightarrow> slow
               | Some raw \<Rightarrow>
                   (case raw cur (tc_size hc + tc_skip hc) of
                      Inl e \<Rightarrow> Some (Inl (Source_Error e))
                    | Inr None \<Rightarrow> slow
                    | Inr (Some r) \<Rightarrow>
                        Some (finish_raw_topn env
                          (hc\<lparr>tc_scoredCandidates := raw_ScoredCandidates r,
                              tc_totalCandidates := raw_TotalCandidates r\<rparr>)
                          (raw_Matches r) bucket)))
         else slow)"

section \<open>iterator.go\<close>

record topn_iterator =
  ti_results :: "document_match list"
  ti_index :: nat

definition topn_iterator_next :: "topn_iterator \<Rightarrow> document_match option \<times> topn_iterator" where
  "topn_iterator_next i =
     (if ti_index i < length (ti_results i)
      then (Some (ti_results i ! ti_index i), i\<lparr>ti_index := ti_index i + 1\<rparr>)
      else (None, i))"

section \<open>all.go\<close>

record ('c, 'b) all_iterator =
  ai_neededFields :: "string list"
  ai_bucket :: 'b
  ai_hitNumber :: nat
  ai_cursor :: 'c
  ai_polls :: nat
  ai_done :: bool

definition all_collect :: "'b aggregations \<Rightarrow> 'c \<Rightarrow> ('c, 'b) all_iterator" where
  "all_collect aggs cur =
     \<lparr>ai_neededFields = agg_fields aggs, ai_bucket = agg_bucket aggs, ai_hitNumber = 0,
      ai_cursor = cur, ai_polls = 0, ai_done = False\<rparr>"

definition all_next ::
  "('c, 'e, 'b) collect_env \<Rightarrow> ('c, 'b) all_iterator \<Rightarrow>
   ('e collect_error, document_match option) result \<times> ('c, 'b) all_iterator" where
  "all_next env a =
     (if ai_done a then (Inr None, a)
      else if ai_hitNumber a mod check_done_every = 0 \<and> env_done env (ai_polls a)
      then (Inl Ctx_Done, a\<lparr>ai_polls := ai_polls a + 1, ai_done := True\<rparr>)
      else
        let a = (if ai_hitNumber a mod check_done_every = 0 then a\<lparr>ai_polls := ai_polls a + 1\<rparr> else a)
        in (case env_next env (ai_cursor a) of
              Inl e \<Rightarrow> (Inl (Source_Error e), a\<lparr>ai_done := True\<rparr>)
            | Inr (None, cur) \<Rightarrow>
                (Inr None, a\<lparr>ai_cursor := cur, ai_bucket := env_finish env (ai_bucket a), ai_done := True\<rparr>)
            | Inr (Some d, cur) \<Rightarrow>
                let a = a\<lparr>ai_cursor := cur, ai_hitNumber := ai_hitNumber a + 1\<rparr>;
                    d = d\<lparr>HitNumber := int (ai_hitNumber a)\<rparr>
                in (case load_needed env (ai_neededFields a) d of
                      Inl e \<Rightarrow> (Inl e, a\<lparr>ai_done := True\<rparr>)
                    | Inr d \<Rightarrow> (Inr (Some d), a\<lparr>ai_bucket := env_consume env (ai_bucket a) d\<rparr>))))"

section \<open>A collection returns the best hits\<close>

text \<open>The hits a cursor yields before it is exhausted.\<close>

inductive yields :: "('c \<Rightarrow> ('e, document_match option \<times> 'c) result) \<Rightarrow> 'c \<Rightarrow> document_match list \<Rightarrow> bool"
  for nxt where
  yields_none: "nxt c = Inr (None, c') \<Longrightarrow> yields nxt c []"
| yields_some: "nxt c = Inr (Some d, c') \<Longrightarrow> yields nxt c' ds \<Longrightarrow> yields nxt c (d # ds)"

inductive_cases yields_NilE: "yields nxt c []"
inductive_cases yields_ConsE: "yields nxt c (d # ds)"

fun number_hits :: "nat \<Rightarrow> document_match list \<Rightarrow> document_match list" where
  "number_hits n [] = []"
| "number_hits n (d # ds) = d\<lparr>HitNumber := int (n + 1)\<rparr> # number_hits (n + 1) ds"

text \<open>What a hit looks like when the store sees it, and whether it does.\<close>

definition prepared ::
  "(string list \<Rightarrow> document_match \<Rightarrow> document_match) \<Rightarrow> topn_collector \<Rightarrow> document_match \<Rightarrow> document_match" where
  "prepared load hc d =
     (let d = (if tc_neededFields hc = [] then d else load (tc_neededFields hc) d)
      in if tc_scoreSort hc then d else sort_compute (tc_sort hc) d)"

definition after_cursor :: "topn_collector \<Rightarrow> document_match \<Rightarrow> bool" where
  "after_cursor hc d \<longleftrightarrow>
     (case tc_searchAfter hc of
        None \<Rightarrow> True
      | Some a \<Rightarrow> sort_compare (tc_sort hc) d (a\<lparr>HitNumber := HitNumber d\<rparr>) > 0)"

text \<open>The state of a collection: all but the store, the lowest match and the cursor stay.\<close>

definition same_settings :: "topn_collector \<Rightarrow> topn_collector \<Rightarrow> bool" where
  "same_settings hc hc' \<longleftrightarrow>
     tc_size hc' = tc_size hc \<and> tc_skip hc' = tc_skip hc \<and> tc_sort hc' = tc_sort hc \<and>
     tc_reverse hc' = tc_reverse hc \<and> tc_scoreSort hc' = tc_scoreSort hc \<and>
     tc_neededFields hc' = tc_neededFields hc \<and>
     map_option (\<lambda>a. a\<lparr>HitNumber := 0\<rparr>) (tc_searchAfter hc') = map_option (\<lambda>a. a\<lparr>HitNumber := 0\<rparr>) (tc_searchAfter hc)"

fun store_ok :: "collector_compare \<Rightarrow> store \<Rightarrow> bool" where
  "store_ok cmp (Store_Slice sl) = sorted_wrt (\<lambda>a b. cmp a b \<le> 0) sl"
| "store_ok cmp (Store_Heap h) = heap_ok (heap_less cmp) h"

fun store_content :: "store \<Rightarrow> document_match multiset" where
  "store_content (Store_Slice sl) = mset sl"
| "store_content (Store_Heap h) = mset h"

lemma store_contract:
  assumes c: "comparator_on S cmp"
  shows "collector_store cmp S (store_add cmp) (store_final cmp) (store_ok cmp) store_content"
proof (unfold_locales, goal_cases)
  case 1
  show ?case by (rule c)
next
  case (2 s x n)
  then show ?case
    using collector_store.add_room [OF slice_store [OF c], of _ x n] collector_store.add_room [OF heap_store [OF c], of _ x n]
    by (cases s) (fastforce simp: store_add_def)+
next
  case (3 s x n)
  show ?case
  proof (cases s)
    case (Store_Slice sl)
    with 3 collector_store.add_full [OF slice_store [OF c], of sl x n] show ?thesis
      by (fastforce simp: store_add_def)
  next
    case (Store_Heap h)
    with 3 collector_store.add_full [OF heap_store [OF c], of h x n] show ?thesis
      by (fastforce simp: store_add_def)
  qed
next
  case (4 s fixup f skip)
  show ?case
  proof (cases s)
    case (Store_Slice sl)
    with 4 collector_store.final_sorted [OF slice_store [OF c], of sl fixup f skip] show ?thesis
      by (simp add: store_final_def)
  next
    case (Store_Heap h)
    with 4 collector_store.final_sorted [OF heap_store [OF c], of h fixup f skip] show ?thesis
      by (simp add: store_final_def)
  qed
qed

text \<open>The contract on the two comparisons of the code.\<close>

interpretation by_keys: collector_store "sort_compare ord" "{d. length (SortValue d) = length ord}"
  "store_add (sort_compare ord)" "store_final (sort_compare ord)" "store_ok (sort_compare ord)" store_content for ord
  by (rule store_contract [OF sort_compare_comparator])

interpretation by_score: collector_store compare_score "{d. \<not> float64_is_nan (Score d)}"
  "store_add compare_score" "store_final compare_score" "store_ok compare_score" store_content
  by (rule store_contract [OF compare_score_comparator])

text \<open>The hits the comparison of a collector orders.\<close>

definition comparable :: "topn_collector \<Rightarrow> document_match set" where
  "comparable hc = (if tc_scoreSort hc then {d. \<not> float64_is_nan (Score d)} else {d. length (SortValue d) = length (tc_sort hc)})"

lemma tc_store:
  "collector_store (tc_compare hc) (comparable hc) (store_add (tc_compare hc)) (store_final (tc_compare hc))
     (store_ok (tc_compare hc)) store_content"
  by (cases "tc_scoreSort hc")
    (simp_all add: tc_compare_def comparable_def by_keys.collector_store_axioms by_score.collector_store_axioms)

definition tc_collected :: "topn_collector \<Rightarrow> document_match multiset \<Rightarrow> bool" where
  "tc_collected hc hits \<longleftrightarrow>
     collector_store.collected (tc_compare hc) (comparable hc) (store_ok (tc_compare hc)) store_content
       (tc_size hc + tc_skip hc) (tc_store hc) (tc_lowest hc) hits"

lemma tc_compare_upd [simp]:
  "tc_compare (hc\<lparr>tc_searchAfter := a\<rparr>) = tc_compare hc" "tc_compare (hc\<lparr>tc_store := st\<rparr>) = tc_compare hc"
  "tc_compare (hc\<lparr>tc_lowest := l\<rparr>) = tc_compare hc"
  "comparable (hc\<lparr>tc_searchAfter := a\<rparr>) = comparable hc" "comparable (hc\<lparr>tc_store := st\<rparr>) = comparable hc"
  "comparable (hc\<lparr>tc_lowest := l\<rparr>) = comparable hc"
  by (simp_all add: tc_compare_def comparable_def)

lemma tc_collected_after [simp]: "tc_collected (hc\<lparr>tc_searchAfter := a\<rparr>) hits = tc_collected hc hits"
  by (simp add: tc_collected_def)

lemma same_settings_after:
  "same_settings hc (hc\<lparr>tc_searchAfter := map_option (\<lambda>a. a\<lparr>HitNumber := n\<rparr>) (tc_searchAfter hc)\<rparr>)"
  by (simp add: same_settings_def option.map_comp comp_def)

lemma same_settings_store [simp]:
  "same_settings hc (hc'\<lparr>tc_store := st\<rparr>) = same_settings hc hc'"
  "same_settings hc (hc'\<lparr>tc_lowest := l\<rparr>) = same_settings hc hc'"
  by (simp_all add: same_settings_def)

lemma hit_number_forget:
  "a\<lparr>HitNumber := 0\<rparr> = b\<lparr>HitNumber := 0\<rparr> \<Longrightarrow> a\<lparr>HitNumber := n\<rparr> = b\<lparr>HitNumber := n\<rparr>" for a b :: document_match
  by (cases a; cases b) simp

lemma same_settings_eqs:
  assumes "same_settings hc hc'"
  shows "tc_compare hc' = tc_compare hc" "comparable hc' = comparable hc"
    "prepared load hc' = prepared load hc" "after_cursor hc' = after_cursor hc"
proof -
  show "tc_compare hc' = tc_compare hc" "comparable hc' = comparable hc" "prepared load hc' = prepared load hc"
    using assms by (simp_all add: same_settings_def tc_compare_def comparable_def prepared_def fun_eq_iff)
  show "after_cursor hc' = after_cursor hc"
  proof (cases "tc_searchAfter hc")
    case None
    then show ?thesis using assms by (simp add: same_settings_def after_cursor_def fun_eq_iff)
  next
    case (Some a)
    then obtain b where b: "tc_searchAfter hc' = Some b" "b\<lparr>HitNumber := 0\<rparr> = a\<lparr>HitNumber := 0\<rparr>" and s: "tc_sort hc' = tc_sort hc"
      using assms by (auto simp: same_settings_def)
    show ?thesis
    proof (rule ext)
      fix d :: document_match
      have "b\<lparr>HitNumber := HitNumber d\<rparr> = a\<lparr>HitNumber := HitNumber d\<rparr>" by (rule hit_number_forget [OF b(2)])
      then show "after_cursor hc' d = after_cursor hc d" by (simp add: after_cursor_def Some b(1) s)
    qed
  qed
qed

lemma same_settings_trans: "same_settings a b \<Longrightarrow> same_settings b c \<Longrightarrow> same_settings a c"
  by (simp add: same_settings_def)

lemma tc_collected_skip:
  assumes "tc_collected hc hits" "tc_lowest hc = Some l" "d \<in> comparable hc" "tc_compare hc d l \<ge> 0"
  shows "tc_collected hc (add_mset d hits)"
  using collector_store.collected_skip [OF tc_store, of hc _ "tc_store hc" l hits d] assms by (simp add: tc_collected_def)

lemma tc_collected_add:
  assumes "tc_collected hc hits" "d \<in> comparable hc" "store_add (tc_compare hc) d (tc_size hc + tc_skip hc) (tc_store hc) = (st, r)"
  shows "tc_collected (hc\<lparr>tc_store := st, tc_lowest := (case r of None \<Rightarrow> tc_lowest hc | Some y \<Rightarrow>
           (case tc_lowest hc of None \<Rightarrow> Some y | Some l \<Rightarrow> if tc_compare hc y l < 0 then Some y else Some l))\<rparr>) (add_mset d hits)"
  using collector_store.collected_add [OF tc_store, of hc "tc_size hc + tc_skip hc" "tc_store hc" "tc_lowest hc" hits d st r] assms
  by (simp add: tc_collected_def)

lemma collect_single_step:
  assumes load: "\<And>fs d. env_load env fs d = Inr (load fs d)"
    and c: "tc_collected hc hits" and d: "prepared load hc d \<in> comparable hc"
  shows "\<exists>hc'. collect_single env hc d bucket = Inr (hc', env_consume env bucket (prepared load hc d)) \<and>
    same_settings hc hc' \<and>
    tc_collected hc' (if after_cursor hc (prepared load hc d) then add_mset (prepared load hc d) hits else hits)"
proof -
  define p where "p = prepared load hc d"
  define hc1 where "hc1 = hc\<lparr>tc_searchAfter := map_option (\<lambda>a. a\<lparr>HitNumber := HitNumber p\<rparr>) (tc_searchAfter hc)\<rparr>"
  have s1: "same_settings hc hc1" unfolding hc1_def by (rule same_settings_after)
  have c1: "tc_collected hc1 hits" using c by (simp add: hc1_def)
  have p1: "p \<in> comparable hc1" using d same_settings_eqs(2) [OF s1] by (simp add: p_def)
  have lowest: "tc_lowest hc1 = tc_lowest hc" "tc_store hc1 = tc_store hc" by (simp_all add: hc1_def)
  have ld: "load_needed env (tc_neededFields hc) d = Inr (if tc_neededFields hc = [] then d else load (tc_neededFields hc) d)"
    by (simp add: load_needed_def load)
  have single: "collect_single env hc d bucket =
    (let b = env_consume env bucket p in
     if \<not> after_cursor hc p then Inr (hc1, b)
     else if (case tc_lowest hc1 of None \<Rightarrow> False | Some l \<Rightarrow> tc_compare hc1 p l \<ge> 0) then Inr (hc1, b)
     else (case store_add (tc_compare hc1) p (tc_size hc1 + tc_skip hc1) (tc_store hc1) of (st, r) \<Rightarrow>
       Inr (hc1\<lparr>tc_store := st, tc_lowest := (case r of None \<Rightarrow> tc_lowest hc1 | Some y \<Rightarrow>
           (case tc_lowest hc1 of None \<Rightarrow> Some y | Some l \<Rightarrow> if tc_compare hc1 y l < 0 then Some y else Some l))\<rparr>, b)))"
  proof -
    have dd: "(let d = (if tc_neededFields hc = [] then d else load (tc_neededFields hc) d)
       in if \<not> tc_scoreSort hc then sort_compute (tc_sort hc) d else d) = p"
      by (simp add: p_def prepared_def Let_def)
    have ac: "(case map_option (\<lambda>a. a\<lparr>HitNumber := HitNumber p\<rparr>) (tc_searchAfter hc) of None \<Rightarrow> False
       | Some a \<Rightarrow> sort_compare (tc_sort hc) p a \<le> 0) \<longleftrightarrow> \<not> after_cursor hc p"
      by (cases "tc_searchAfter hc") (simp_all add: after_cursor_def not_less)
    have same: "tc_sort hc1 = tc_sort hc" by (simp add: hc1_def)
    obtain st r where a: "store_add (tc_compare hc1) p (tc_size hc1 + tc_skip hc1) (tc_store hc1) = (st, r)" by fastforce
    have upd: "hc1\<lparr>tc_store := st, tc_lowest := tc_lowest hc1\<rparr> = hc1\<lparr>tc_store := st\<rparr>" by simp
    show ?thesis
      unfolding collect_single_def ld sum.case dd [unfolded Let_def] Let_def hc1_def [symmetric] same ac a prod.case
      by (cases r; cases "tc_lowest hc1") simp_all
  qed
  show ?thesis
  proof (cases "after_cursor hc p")
    case False
    then show ?thesis using s1 c1 by (simp add: single flip: p_def)
  next
    case True
    obtain st r where a: "store_add (tc_compare hc1) p (tc_size hc1 + tc_skip hc1) (tc_store hc1) = (st, r)" by fastforce
    show ?thesis
    proof (cases "case tc_lowest hc1 of None \<Rightarrow> False | Some l \<Rightarrow> tc_compare hc1 p l \<ge> 0")
      case skip: True
      then obtain l where "tc_lowest hc1 = Some l" "tc_compare hc1 p l \<ge> 0" by (auto split: option.splits)
      from tc_collected_skip [OF c1 this(1) p1 this(2)] show ?thesis
        using True skip s1 by (simp add: single flip: p_def)
    next
      case add: False
      from tc_collected_add [OF c1 p1 a] show ?thesis
        using True add s1 by (simp add: single a flip: p_def)
    qed
  qed
qed

lemma collect_loop_spec:
  assumes load: "\<And>fs d. env_load env fs d = Inr (load fs d)" and never: "\<And>n. \<not> env_done env n"
  shows "\<lbrakk>tc_collected hc hits; \<forall>d\<in>set (number_hits n ds). prepared load hc d \<in> comparable hc;
      ds = [] \<and> nxt = None \<or> (\<exists>d ds'. ds = d # ds' \<and> nxt = Some d \<and> yields (env_next env) cur ds')\<rbrakk> \<Longrightarrow>
    \<exists>hc'. collect_loop env n polls cur nxt hc bucket =
        Some (Inr (hc', foldl (env_consume env) bucket (map (prepared load hc) (number_hits n ds)))) \<and>
      same_settings hc hc' \<and>
      tc_collected hc' (hits + mset (filter (after_cursor hc) (map (prepared load hc) (number_hits n ds))))"
proof (induction ds arbitrary: n polls cur nxt hc bucket hits)
  case Nil
  have "same_settings hc hc" by (simp add: same_settings_def)
  with Nil show ?case by (subst collect_loop.simps) auto
next
  case (Cons d ds)
  let ?d = "d\<lparr>HitNumber := int (n + 1)\<rparr>"
  from Cons.prems have nxt: "nxt = Some d" and y: "yields (env_next env) cur ds" by auto
  have pd: "prepared load hc ?d \<in> comparable hc" using Cons.prems(2) by simp
  obtain hc1 where 1: "collect_single env hc ?d bucket = Inr (hc1, env_consume env bucket (prepared load hc ?d))"
    "same_settings hc hc1"
    "tc_collected hc1 (if after_cursor hc (prepared load hc ?d) then add_mset (prepared load hc ?d) hits else hits)"
    using collect_single_step [OF load Cons.prems(1) pd] by blast
  note eqs = same_settings_eqs [OF 1(2)]
  obtain nxt' cur' where n: "env_next env cur = Inr (nxt', cur')"
    "ds = [] \<and> nxt' = None \<or> (\<exists>d ds'. ds = d # ds' \<and> nxt' = Some d \<and> yields (env_next env) cur' ds')"
    using y by (cases rule: yields.cases) auto
  let ?polls = "if n mod check_done_every = 0 then polls + 1 else polls"
  have "\<forall>d\<in>set (number_hits (n + 1) ds). prepared load hc1 d \<in> comparable hc1"
    using Cons.prems(2) by (simp add: eqs)
  from Cons.IH [OF 1(3) this n(2), of ?polls "env_consume env bucket (prepared load hc ?d)"] obtain hc2 where
    2: "collect_loop env (n + 1) ?polls cur' nxt' hc1 (env_consume env bucket (prepared load hc ?d)) =
        Some (Inr (hc2, foldl (env_consume env) (env_consume env bucket (prepared load hc ?d))
          (map (prepared load hc) (number_hits (n + 1) ds))))"
      "same_settings hc1 hc2"
      "tc_collected hc2 ((if after_cursor hc (prepared load hc ?d) then add_mset (prepared load hc ?d) hits else hits) +
         mset (filter (after_cursor hc) (map (prepared load hc) (number_hits (n + 1) ds))))"
    by (auto simp: eqs)
  have "collect_loop env n polls cur nxt hc bucket =
    collect_loop env (n + 1) ?polls cur' nxt' hc1 (env_consume env bucket (prepared load hc ?d))"
    by (subst collect_loop.simps) (simp add: nxt never 1(1) [simplified] n(1) Let_def)
  then show ?case
    using 2 same_settings_trans [OF 1(2) 2(2)] by (intro exI [of _ hc2]) auto
qed


lemma number_hits_numbers:
  "map HitNumber (number_hits n ds) = map (\<lambda>i. int (n + 1 + i)) [0..<length ds]"
proof (induction ds arbitrary: n)
  case (Cons d ds)
  show ?case
    unfolding length_Cons upt_conv_Cons [OF zero_less_Suc] list.map number_hits.simps Cons.IH map_Suc_upt [symmetric]
    by simp
qed simp

lemma number_hits_distinct: "distinct (map HitNumber (number_hits n ds))"
  unfolding number_hits_numbers by (simp add: distinct_map inj_on_def)

lemma prepared_HitNumber:
  "(\<And>fs d. HitNumber (load fs d) = HitNumber d) \<Longrightarrow> HitNumber (prepared load hc d) = HitNumber d"
  by (simp add: prepared_def Let_def)

lemma comparable_eq:
  "\<lbrakk>x \<in> comparable hc; y \<in> comparable hc; tc_compare hc x y = 0\<rbrakk> \<Longrightarrow> HitNumber x = HitNumber y"
  using sort_compare_eq_0 [of x "tc_sort hc" y] compare_score_eq_0 [of x y]
  by (auto simp: comparable_def tc_compare_def split: if_splits)

lemma strictly_sorted:
  assumes "sorted_wrt (\<lambda>a b. c a b \<le> (0 :: int)) xs" and "distinct (map k xs)"
    and "\<And>x y. x \<in> set xs \<Longrightarrow> y \<in> set xs \<Longrightarrow> c x y = 0 \<Longrightarrow> k x = k y"
  shows "sorted_wrt (\<lambda>a b. c a b < 0) xs"
  using assms
proof (induction xs)
  case (Cons x xs)
  have "c x y < 0" if "y \<in> set xs" for y
  proof -
    have "c x y \<le> 0" "k x \<noteq> k y" using Cons.prems(1,2) that by auto
    then show ?thesis using Cons.prems(3) [of x y] that by (cases "c x y = 0") auto
  qed
  with Cons show ?case by auto
qed simp

definition fresh_collector :: "topn_collector \<Rightarrow> bool" where
  "fresh_collector hc \<longleftrightarrow> (tc_store hc = Store_Slice [] \<or> tc_store hc = Store_Heap []) \<and> tc_lowest hc = None"

lemma new_collectors_fresh:
  "fresh_collector (new_topn_collector sz skip ord)" "fresh_collector (new_topn_collector_after sz ord after rvs)"
  by (simp_all add: fresh_collector_def new_topn_collector_def new_topn_collector_after_def new_topn_collector_internal_def)

lemma fresh_collected: "fresh_collector hc \<Longrightarrow> tc_collected hc {#}"
  unfolding tc_collected_def collector_store.collected_def [OF tc_store]
  by (auto simp: fresh_collector_def)

lemma collect_fresh:
  fixes env :: "('c, 'e, 'b) collect_env" and hc :: topn_collector and aggs :: "'b aggregations" and ds :: "document_match list"
    and load :: "string list \<Rightarrow> document_match \<Rightarrow> document_match"
  assumes hc0_def: "hc0 = hc\<lparr>tc_neededFields := tc_neededFields hc @ agg_fields aggs\<rparr>"
    and ps_def: "ps = map (prepared load hc0) (number_hits 0 ds)"
    and fresh: "fresh_collector hc" and raw: "env_raw env = None" and y: "yields (env_next env) cur ds"
    and never: "\<And>n. \<not> env_done env n"
    and load: "\<And>fs d. env_load env fs d = Inr (load fs d)" "\<And>fs d. HitNumber (load fs d) = HitNumber d"
    and cdone: "\<And>d. d \<in> set ps \<Longrightarrow> complete_match (env_sort_locs env) d = Some (cmpl d)"
    and comp: "\<And>d. d \<in> set ps \<Longrightarrow> d \<in> comparable hc0"
  shows "\<exists>hc' xs. collect env hc aggs cur = Some (Inr (hc', env_finish env (foldl (env_consume env) (agg_bucket aggs) ps))) \<and>
    mset xs = mset (filter (after_cursor hc0) ps) \<and> sorted_wrt (\<lambda>a b. tc_compare hc0 a b < 0) xs \<and>
    tc_results hc' = (if tc_reverse hc then rev else id)
      (map (\<lambda>d. if tc_scoreSort hc then sort_compute (tc_sort hc) (cmpl d) else cmpl d)
        (drop (tc_skip hc) (take (tc_size hc + tc_skip hc) xs)))"
proof -
  have f0: "fresh_collector hc0" using fresh by (simp add: hc0_def fresh_collector_def)
  obtain nxt cur' where n: "env_next env cur = Inr (nxt, cur')"
    "ds = [] \<and> nxt = None \<or> (\<exists>d ds'. ds = d # ds' \<and> nxt = Some d \<and> yields (env_next env) cur' ds')"
    using y by (cases rule: yields.cases) auto
  have "\<forall>d\<in>set (number_hits 0 ds). prepared load hc0 d \<in> comparable hc0"
    using comp by (auto simp: ps_def)
  from collect_loop_spec [OF load(1) never fresh_collected [OF f0] this n(2), of 1 "agg_bucket aggs"]
  obtain hc1 where loop: "collect_loop env 0 1 cur' nxt hc0 (agg_bucket aggs) =
      Some (Inr (hc1, foldl (env_consume env) (agg_bucket aggs) ps))"
    "same_settings hc0 hc1" "tc_collected hc1 (mset (filter (after_cursor hc0) ps))"
    unfolding ps_def by auto
  note eqs = same_settings_eqs [OF loop(2)]
  have set1: "tc_size hc1 = tc_size hc" "tc_skip hc1 = tc_skip hc" "tc_sort hc1 = tc_sort hc"
    "tc_reverse hc1 = tc_reverse hc" "tc_scoreSort hc1 = tc_scoreSort hc"
    using loop(2) by (simp_all add: same_settings_def hc0_def)
  have fx: "\<forall>x\<in>#mset (filter (after_cursor hc0) ps). complete_fixup env x = Inr (cmpl x)"
    using cdone by (auto simp: complete_fixup_def)
  from collector_store.collected_final [OF tc_store loop(3) [unfolded tc_collected_def] fx, of "tc_skip hc1"]
  obtain xs where xs: "mset xs = mset (filter (after_cursor hc0) ps)" "sorted_wrt (\<lambda>a b. tc_compare hc1 a b \<le> 0) xs"
    "store_final (tc_compare hc1) (tc_skip hc1) (complete_fixup env) (tc_store hc1) =
       Inr (map cmpl (drop (tc_skip hc1) (take (tc_size hc1 + tc_skip hc1) xs)))" by blast
  have setxs: "set xs \<subseteq> set ps" using xs(1) by (metis filter_is_subset set_mset_mset)
  have "distinct (map HitNumber ps)"
    using number_hits_distinct [of 0 ds] prepared_HitNumber [of load, OF load(2)] by (simp add: ps_def comp_def)
  then have "distinct (map HitNumber (filter (after_cursor hc0) ps))"
    by (rule distinct_map_filter)
  then have "distinct (map HitNumber xs)"
    using xs(1) by (metis mset_eq_imp_distinct_iff mset_map)
  then have strict: "sorted_wrt (\<lambda>a b. tc_compare hc0 a b < 0) xs"
    using xs(2) setxs comp comparable_eq [of _ hc0] unfolding eqs(1) by (intro strictly_sorted [of _ xs HitNumber]) blast+
  let ?res = "map cmpl (drop (tc_skip hc) (take (tc_size hc + tc_skip hc) xs))"
  have fin: "finalize_results env hc1 = Inr (hc1\<lparr>tc_results := (if tc_reverse hc then rev else id)
      (map (\<lambda>d. if tc_scoreSort hc then sort_compute (tc_sort hc) d else d) ?res)\<rparr>)"
    using xs(3) by (simp add: finalize_results_def set1 Let_def rev_map)
  define hc2 where "hc2 = hc1\<lparr>tc_results := (if tc_reverse hc then rev else id)
      (map (\<lambda>d. if tc_scoreSort hc then sort_compute (tc_sort hc) d else d) ?res)\<rparr>"
  have "collect env hc aggs cur = Some (Inr (hc2, env_finish env (foldl (env_consume env) (agg_bucket aggs) ps)))"
    using loop(1) n(1) fin raw never by (simp add: collect_def Let_def hc0_def [symmetric] hc2_def)
  with xs(1) strict show ?thesis
    by (intro exI [of _ hc2] exI [of _ xs]) (simp add: hc2_def comp_def)
qed

text \<open>
  C6: a collector of size \<open>sz\<close> that skips \<open>skip\<close> hits returns, of all the hits its searcher
  yields, numbered in order and compared by the sort order, exactly those ranked \<open>skip\<close> to
  \<open>skip + sz\<close>, best first and completed, whichever of the two stores and of the two comparisons
  it uses; every hit has been consumed by the aggregations, in order, and the collection returns.
\<close>

theorem topn_collects_best:
  fixes env :: "('c, 'e, 'b) collect_env" and load :: "string list \<Rightarrow> document_match \<Rightarrow> document_match"
  assumes hc: "hc = new_topn_collector sz skip ord"
    and hc0: "hc0 = hc\<lparr>tc_neededFields := sort_fields ord @ agg_fields aggs\<rparr>"
    and ps: "ps = map (prepared load hc0) (number_hits 0 ds)"
    and raw: "env_raw env = None" and y: "yields (env_next env) cur ds" and never: "\<And>n. \<not> env_done env n"
    and load: "\<And>fs d. env_load env fs d = Inr (load fs d)" "\<And>fs d. HitNumber (load fs d) = HitNumber d"
    and cdone: "\<And>d. d \<in> set ps \<Longrightarrow> complete_match (env_sort_locs env) d = Some (cmpl d)"
    and nan: "\<And>d. d \<in> set ps \<Longrightarrow> \<not> float64_is_nan (Score d)"
  shows "\<exists>hc' xs. collect env hc aggs cur = Some (Inr (hc', env_finish env (foldl (env_consume env) (agg_bucket aggs) ps))) \<and>
    mset xs = mset ps \<and>
    sorted_wrt (\<lambda>a b. (if is_score_descending ord then compare_score a b else sort_compare ord a b) < 0) xs \<and>
    tc_results hc' = map (\<lambda>d. if is_score_descending ord then sort_compute ord (cmpl d) else cmpl d)
      (take sz (drop skip xs))"
proof -
  have sel: "tc_neededFields hc = sort_fields ord" "tc_reverse hc = False" "tc_scoreSort hc = is_score_descending ord"
    "tc_sort hc = ord" "tc_size hc = sz" "tc_skip hc = skip" "tc_searchAfter hc = None"
    by (simp_all add: hc new_topn_collector_def new_topn_collector_internal_def)
  have hc0': "hc0 = hc\<lparr>tc_neededFields := tc_neededFields hc @ agg_fields aggs\<rparr>" by (simp add: hc0 sel)
  have sel0: "tc_scoreSort hc0 = is_score_descending ord" "tc_sort hc0 = ord" "tc_searchAfter hc0 = None"
    by (simp_all add: hc0 sel)
  have cmp: "tc_compare hc0 = (\<lambda>a b. if is_score_descending ord then compare_score a b else sort_compare ord a b)"
    by (simp add: tc_compare_def sel0 fun_eq_iff)
  have comp: "d \<in> comparable hc0" if "d \<in> set ps" for d
    using that nan [OF that] by (auto simp: comparable_def sel0 ps prepared_def Let_def)
  have all: "filter (after_cursor hc0) ps = ps" by (simp add: after_cursor_def sel0 filter_id_conv)
  have fresh: "fresh_collector hc" unfolding hc by (rule new_collectors_fresh)
  have take_drop: "drop skip (take (sz + skip) xs) = take sz (drop skip xs)" for xs :: "document_match list"
    by (simp add: drop_take)
  show ?thesis
    using collect_fresh [OF hc0' ps fresh raw y never load cdone comp, unfolded all sel cmp take_drop]
    by (simp add: sel0)
qed

text \<open>
  C8: searching after a cursor returns the best \<open>sz\<close> of the hits that come strictly after its
  sort values (equal sort values are not repeated), in reverse order when the page before is asked for.
\<close>

theorem topn_after_cursor:
  fixes env :: "('c, 'e, 'b) collect_env" and load :: "string list \<Rightarrow> document_match \<Rightarrow> document_match"
  assumes hc: "hc = new_topn_collector_after sz ord after rvs"
    and hc0: "hc0 = hc\<lparr>tc_neededFields := sort_fields ord @ agg_fields aggs\<rparr>"
    and ps: "ps = map (prepared load hc0) (number_hits 0 ds)"
    and raw: "env_raw env = None" and y: "yields (env_next env) cur ds" and never: "\<And>n. \<not> env_done env n"
    and load: "\<And>fs d. env_load env fs d = Inr (load fs d)" "\<And>fs d. HitNumber (load fs d) = HitNumber d"
    and cdone: "\<And>d. d \<in> set ps \<Longrightarrow> complete_match (env_sort_locs env) d = Some (cmpl d)"
    and len: "length after = length ord"
  shows "\<exists>hc' xs. collect env hc aggs cur = Some (Inr (hc', env_finish env (foldl (env_consume env) (agg_bucket aggs) ps))) \<and>
    mset xs = mset (filter (\<lambda>d. compare_values ord (SortValue d) after > 0) ps) \<and>
    sorted_wrt (\<lambda>a b. sort_compare ord a b < 0) xs \<and>
    tc_results hc' = (if rvs then rev else id) (map cmpl (take sz xs))"
proof -
  have sel: "tc_neededFields hc = sort_fields ord" "tc_reverse hc = rvs" "tc_scoreSort hc = False"
    "tc_sort hc = ord" "tc_size hc = sz" "tc_skip hc = 0" "tc_searchAfter hc = Some (empty_match\<lparr>SortValue := after\<rparr>)"
    by (simp_all add: hc new_topn_collector_after_def new_topn_collector_internal_def)
  have hc0': "hc0 = hc\<lparr>tc_neededFields := tc_neededFields hc @ agg_fields aggs\<rparr>" by (simp add: hc0 sel)
  have sel0: "tc_scoreSort hc0 = False" "tc_sort hc0 = ord" "tc_searchAfter hc0 = Some (empty_match\<lparr>SortValue := after\<rparr>)"
    by (simp_all add: hc0 sel)
  have cmp: "tc_compare hc0 = sort_compare ord" by (simp add: tc_compare_def sel0)
  have comp: "d \<in> comparable hc0" if "d \<in> set ps" for d
    using that by (auto simp: comparable_def sel0 ps prepared_def Let_def)
  have after: "after_cursor hc0 = (\<lambda>d. compare_values ord (SortValue d) after > 0)"
    by (auto simp: after_cursor_def sel0 sort_compare_def compare_hit_number_def Let_def fun_eq_iff)
  have fresh: "fresh_collector hc" unfolding hc by (rule new_collectors_fresh)
  show ?thesis
    using collect_fresh [OF hc0' ps fresh raw y never load cdone comp, unfolded sel cmp after]
    by simp
qed

section \<open>The collector of all hits\<close>

text \<open>Calling \<open>Next\<close> of the iterator up to \<open>n\<close> times, until it returns no hit.\<close>

fun all_run :: "('c, 'e, 'b) collect_env \<Rightarrow> nat \<Rightarrow> ('c, 'b) all_iterator \<Rightarrow>
    document_match list \<times> 'e collect_error option \<times> ('c, 'b) all_iterator" where
  "all_run env 0 a = ([], None, a)"
| "all_run env (Suc n) a =
     (case all_next env a of
        (Inl e, a') \<Rightarrow> ([], Some e, a')
      | (Inr None, a') \<Rightarrow> ([], None, a')
      | (Inr (Some d), a') \<Rightarrow> (case all_run env n a' of (ds, e, a'') \<Rightarrow> (d # ds, e, a'')))"

lemma all_run_yields:
  assumes load: "\<And>fs d. env_load env fs d = Inr (load fs d)" and never: "\<And>n. \<not> env_done env n"
  shows "yields (env_next env) (ai_cursor a) ds \<Longrightarrow> \<not> ai_done a \<Longrightarrow> ai_neededFields a = fs \<Longrightarrow>
    \<exists>a'. all_run env (Suc (length ds)) a =
        (map (\<lambda>d. if fs = [] then d else load fs d) (number_hits (ai_hitNumber a) ds), None, a') \<and> ai_done a' \<and>
      ai_bucket a' = env_finish env (foldl (env_consume env) (ai_bucket a)
        (map (\<lambda>d. if fs = [] then d else load fs d) (number_hits (ai_hitNumber a) ds)))"
proof (induction ds arbitrary: a)
  case Nil
  from Nil.prems(1) obtain c' where "env_next env (ai_cursor a) = Inr (None, c')"
    by (cases rule: yields_NilE)
  then show ?case using Nil.prems(2) never by (simp add: all_next_def Let_def)
next
  case (Cons d ds)
  from Cons.prems(1) obtain c' where n: "env_next env (ai_cursor a) = Inr (Some d, c')" "yields (env_next env) c' ds"
    by (cases rule: yields_ConsE)
  let ?d = "d\<lparr>HitNumber := int (ai_hitNumber a + 1)\<rparr>"
  let ?p = "if fs = [] then ?d else load fs ?d"
  define polls where "polls = (if ai_hitNumber a mod check_done_every = 0 then ai_polls a + 1 else ai_polls a)"
  have nx: "all_next env a = (Inr (Some ?p), a\<lparr>ai_cursor := c', ai_hitNumber := ai_hitNumber a + 1,
      ai_polls := polls, ai_bucket := env_consume env (ai_bucket a) ?p\<rparr>)"
    using Cons.prems(2,3) n(1) never
    by (cases "ai_hitNumber a mod check_done_every = 0"; cases "fs = []")
      (simp_all add: all_next_def Let_def load_needed_def polls_def load)
  let ?a = "a\<lparr>ai_cursor := c', ai_hitNumber := ai_hitNumber a + 1, ai_polls := polls, ai_bucket := env_consume env (ai_bucket a) ?p\<rparr>"
  from Cons.IH [of ?a] n(2) Cons.prems(2,3) obtain a' where
    "all_run env (Suc (length ds)) ?a = (map (\<lambda>d. if fs = [] then d else load fs d) (number_hits (ai_hitNumber a + 1) ds), None, a')"
    "ai_done a'" "ai_bucket a' = env_finish env (foldl (env_consume env) (env_consume env (ai_bucket a) ?p)
        (map (\<lambda>d. if fs = [] then d else load fs d) (number_hits (ai_hitNumber a + 1) ds)))" by auto
  then show ?case by (subst all_run.simps) (simp add: nx del: all_run.simps)
qed

text \<open>
  C16: the iterator over all hits returns them one by one in the searcher's order, numbered
  from 1 and with the document values the aggregations need, and once it returns no more the
  aggregations have consumed each of them and are finished.
\<close>

theorem all_collector_returns_every_hit:
  assumes "\<And>fs d. env_load env fs d = Inr (load fs d)" and "\<And>n. \<not> env_done env n" and "yields (env_next env) cur ds"
  shows "\<exists>a'. all_run env (length ds + 1) (all_collect aggs cur) =
        (map (\<lambda>d. if agg_fields aggs = [] then d else load (agg_fields aggs) d) (number_hits 0 ds), None, a') \<and> ai_done a' \<and>
      ai_bucket a' = env_finish env (foldl (env_consume env) (agg_bucket aggs)
        (map (\<lambda>d. if agg_fields aggs = [] then d else load (agg_fields aggs) d) (number_hits 0 ds)))"
  using all_run_yields [OF assms(1,2), of "all_collect aggs cur" ds "agg_fields aggs"] assms(3)
  by (simp add: all_collect_def del: all_run.simps)


section \<open>A concrete collection\<close>

definition example_next :: "document_match list \<Rightarrow> (string, document_match option \<times> document_match list) result" where
  "example_next c = (case c of [] \<Rightarrow> Inr (None, []) | d # ds \<Rightarrow> Inr (Some d, ds))"

definition example_env :: "(document_match list, string, nat) collect_env" where
  "example_env = \<lparr>env_done = \<lambda>_. False, env_next = example_next, env_raw = None, env_load = \<lambda>fs d. Inr d,
     env_sort_locs = \<lambda>p. p, env_consume = \<lambda>n d. n + 1, env_finish = \<lambda>n. n\<rparr>"

definition example_aggs :: "nat aggregations" where
  "example_aggs = \<lparr>agg_fields = [], agg_empty = False, agg_bucket = 0\<rparr>"

definition example_hits :: "document_match list" where
  "example_hits = [example_match 7 0x3FF0000000000000 0, example_match 9 0x4000000000000000 0]"

lemma example_yields: "yields (env_next example_env) ds ds"
  by (induction ds) (auto simp: example_env_def example_next_def intro: yields.intros)

lemma example_complete:
  "FieldTermLocations d = [] \<Longrightarrow> complete_match (env_sort_locs example_env) d = Some (d\<lparr>FieldTermLocations := []\<rparr>)"
  by (simp add: complete_match_def)

lemma example_prepared:
  "d \<in> set (map (prepared (\<lambda>fs d. d) hc) (number_hits 0 example_hits)) \<Longrightarrow>
   FieldTermLocations d = [] \<and> \<not> float64_is_nan (Score d)"
  by (auto simp: prepared_def example_hits_def example_match_def Let_def sort_compute_def float64_is_nan_def
      take_bit_eq_mask mask_eq_exp_minus_1 split: if_splits)

lemma example_env_sel [simp]:
  "env_done example_env n = False" "env_raw example_env = None" "env_load example_env fs d = Inr d"
  "env_finish example_env b = b" "env_consume example_env b d = b + 1"
  by (simp_all add: example_env_def)

theorem topn_collects_best_witness:
  "\<exists>hc'. collect example_env (new_topn_collector 1 0 [sort_by Score_Source]) example_aggs example_hits = Some (Inr (hc', 2)) \<and>
     length (tc_results hc') = 1"
proof -
  define hc0 where "hc0 = (new_topn_collector 1 0 [sort_by Score_Source])\<lparr>tc_neededFields := sort_fields [sort_by Score_Source] @ agg_fields example_aggs\<rparr>"
  define ps where "ps = map (prepared (\<lambda>fs d. d) hc0) (number_hits 0 example_hits)"
  have two: "length ps = 2" by (simp add: ps_def example_hits_def)
  have m: "complete_match (env_sort_locs example_env) d = Some (d\<lparr>FieldTermLocations := []\<rparr>)" "\<not> float64_is_nan (Score d)" if "d \<in> set ps" for d
    using example_prepared [of d hc0] that by (simp_all add: ps_def example_complete)
  obtain hc' xs where r: "collect example_env (new_topn_collector 1 0 [sort_by Score_Source]) example_aggs example_hits =
      Some (Inr (hc', env_finish example_env (foldl (env_consume example_env) (agg_bucket example_aggs) ps)))"
    "mset xs = mset ps"
    "tc_results hc' = map (\<lambda>d. if is_score_descending [sort_by Score_Source] then sort_compute [sort_by Score_Source] (d\<lparr>FieldTermLocations := []\<rparr>)
       else d\<lparr>FieldTermLocations := []\<rparr>) (take 1 (drop 0 xs))"
    using topn_collects_best [OF refl hc0_def ps_def, of example_env example_hits, OF _ example_yields _ _ _ m] by auto
  have "foldl (env_consume example_env) (agg_bucket example_aggs) ps = 2"
    by (simp add: ps_def example_hits_def example_aggs_def)
  moreover have "length xs = 2" using r(2) two by (metis size_mset)
  ultimately show ?thesis using r(1,3) by simp
qed

theorem topn_after_cursor_witness:
  "\<exists>hc'. collect example_env (new_topn_collector_after 1 [sort_by Score_Source] [[]] True) example_aggs example_hits = Some (Inr (hc', 2))"
proof -
  define hc0 where "hc0 = (new_topn_collector_after 1 [sort_by Score_Source] [[]] True)\<lparr>tc_neededFields := sort_fields [sort_by Score_Source] @ agg_fields example_aggs\<rparr>"
  define ps where "ps = map (prepared (\<lambda>fs d. d) hc0) (number_hits 0 example_hits)"
  have m: "complete_match (env_sort_locs example_env) d = Some (d\<lparr>FieldTermLocations := []\<rparr>)" if "d \<in> set ps" for d
    using example_prepared [of d hc0] that by (simp_all add: ps_def example_complete)
  have "foldl (env_consume example_env) (agg_bucket example_aggs) ps = 2"
    by (simp add: ps_def example_hits_def example_aggs_def)
  then show ?thesis
    using topn_after_cursor [OF refl hc0_def ps_def, of example_env example_hits, OF _ example_yields _ _ _ m] by auto
qed

theorem all_collector_returns_every_hit_witness:
  "\<exists>a'. all_run example_env 3 (all_collect example_aggs example_hits) = (number_hits 0 example_hits, None, a') \<and> ai_bucket a' = 2"
  using all_collector_returns_every_hit [of example_env "\<lambda>fs d. d" example_hits example_hits example_aggs, OF _ _ example_yields]
  by (auto simp: example_aggs_def example_hits_def numeral_3_eq_3)

end
