(* ===== verification/Merge_Plan.thy ===== *)
theory Merge_Plan
  imports Complex_Main Prelude "HOL-Library.Product_Lexorder"
begin

text \<open>
  The merge planner (\<open>index/mergeplan\<close>): \<open>Plan\<close> with its eligible segments, the task for the
  empty ones, the search for the best roster and the loop over the budget. Sizes are integers
  without the 64-bit bound. The score of a roster and its comparison are arguments, and so is the
  rounding of floating-point numbers in \<open>CalcBudget\<close>.
\<close>

section \<open>Operations\<close>

record seg =
  seg_ID :: nat
  seg_FullSize :: int
  seg_LiveSize :: int

type_synonym merge_task = "seg list"

record 'f plan_options =
  MaxSegmentSize :: int
  SegmentsPerMergeTask :: int
  FloorSegmentSize :: int
  CalcBudget :: "int \<Rightarrow> int \<Rightarrow> int"
  ScoreSegments :: "seg list \<Rightarrow> 'f"
  ScoreLess :: "'f \<Rightarrow> 'f \<Rightarrow> bool"

definition raise_to_floor :: "'f plan_options \<Rightarrow> int \<Rightarrow> int" where
  "raise_to_floor opts s = (if s > FloorSegmentSize opts then s else FloorSegmentSize opts)"

definition max_segment_size_limit :: int where
  "max_segment_size_limit = 2 ^ 31 - 1"

definition validate_merge_planner_options :: "'f plan_options \<Rightarrow> bool" where
  "validate_merge_planner_options opts \<longleftrightarrow> \<not> MaxSegmentSize opts > max_segment_size_limit"

text \<open>\<open>byLiveSizeDescending\<close>: by live size, larger first, then by id.\<close>

definition by_live_size_descending :: "seg list \<Rightarrow> seg list" where
  "by_live_size_descending segs = sort_key (\<lambda>s. (- seg_LiveSize s, seg_ID s)) segs"

text \<open>Go's division rounds towards zero.\<close>

definition half :: "int \<Rightarrow> int" where
  "half n = (if n \<ge> 0 then n div 2 else - ((- n) div 2))"

fun find_sizes_loop :: "'f plan_options \<Rightarrow> seg list \<Rightarrow> int \<Rightarrow> int \<Rightarrow> seg list \<Rightarrow> int \<times> int \<times> seg list" where
  "find_sizes_loop opts [] minLive eligiblesLive eligibles = (minLive, eligiblesLive, eligibles)"
| "find_sizes_loop opts (s # segs) minLive eligiblesLive eligibles =
     (let minLive = (if minLive > seg_LiveSize s then seg_LiveSize s else minLive) in
      if seg_LiveSize s < half (MaxSegmentSize opts)
      then find_sizes_loop opts segs minLive (eligiblesLive + seg_LiveSize s) (eligibles @ [s])
      else find_sizes_loop opts segs minLive eligiblesLive eligibles)"

definition find_live_sizes_and_eligibles :: "'f plan_options \<Rightarrow> seg list \<Rightarrow> int \<times> int \<times> seg list" where
  "find_live_sizes_and_eligibles opts segs = find_sizes_loop opts segs (2 ^ 63 - 1) 0 []"

definition remove_segments :: "seg list \<Rightarrow> seg list \<Rightarrow> seg list" where
  "remove_segments segs toRemove = filter (\<lambda>s. s \<notin> set toRemove) segs"

definition roster_makes_progress :: "seg list \<Rightarrow> bool" where
  "roster_makes_progress roster \<longleftrightarrow>
     length roster > 1 \<or> length roster = 1 \<and> seg_LiveSize (roster ! 0) < seg_FullSize (roster ! 0)"

text \<open>The roster that starts at \<open>startIdx\<close>: the loop over \<open>idx\<close> on the eligibles from there.\<close>

fun roster_loop :: "'f plan_options \<Rightarrow> seg list \<Rightarrow> seg list \<Rightarrow> int \<Rightarrow> seg list" where
  "roster_loop opts [] roster rosterLive = roster"
| "roster_loop opts (e # es) roster rosterLive =
     (if int (length roster) < SegmentsPerMergeTask opts then
        if rosterLive + seg_LiveSize e < MaxSegmentSize opts
        then roster_loop opts es (roster @ [e]) (rosterLive + seg_LiveSize e)
        else roster_loop opts es roster rosterLive
      else roster)"

text \<open>The loop over \<open>startIdx\<close>, on the list of start positions; no best roster is the empty list.\<close>

fun best_roster_loop :: "'f plan_options \<Rightarrow> seg list \<Rightarrow> nat list \<Rightarrow> seg list \<Rightarrow> 'f \<Rightarrow> seg list" where
  "best_roster_loop opts eligibles [] best bestScore = best"
| "best_roster_loop opts eligibles (startIdx # starts) best bestScore =
     (let roster = roster_loop opts (drop startIdx eligibles) [] 0 in
      if roster_makes_progress roster \<and> (best = [] \<or> ScoreLess opts (ScoreSegments opts roster) bestScore)
      then best_roster_loop opts eligibles starts roster (ScoreSegments opts roster)
      else best_roster_loop opts eligibles starts best bestScore)"

definition best_roster :: "('f :: zero) plan_options \<Rightarrow> seg list \<Rightarrow> seg list" where
  "best_roster opts eligibles = best_roster_loop opts eligibles [0..<length eligibles] [] 0"

lemma roster_loop_sub: "set (roster_loop opts es roster l) \<subseteq> set roster \<union> set es"
  by (induction opts es roster l rule: roster_loop.induct) auto

lemma best_roster_loop_induct:
  assumes "P best" and "\<And>k. k \<in> set starts \<Longrightarrow> roster_makes_progress (roster_loop opts (drop k eligibles) [] 0) \<Longrightarrow>
      P (roster_loop opts (drop k eligibles) [] 0)"
  shows "P (best_roster_loop opts eligibles starts best score)"
  using assms by (induction opts eligibles starts best score rule: best_roster_loop.induct) (simp_all add: Let_def)

lemma best_roster_cases:
  assumes "best_roster opts eligibles \<noteq> []"
  obtains k where "k < length eligibles" "best_roster opts eligibles = roster_loop opts (drop k eligibles) [] 0"
    "roster_makes_progress (best_roster opts eligibles)"
proof -
  let ?P = "\<lambda>r. r \<noteq> [] \<longrightarrow> (\<exists>k<length eligibles. r = roster_loop opts (drop k eligibles) [] 0 \<and> roster_makes_progress r)"
  have "?P (best_roster opts eligibles)"
    unfolding best_roster_def by (rule best_roster_loop_induct) auto
  then show ?thesis using assms that by blast
qed

lemma best_roster_sub: "set (best_roster opts eligibles) \<subseteq> set eligibles"
proof (cases "best_roster opts eligibles = []")
  case False
  then obtain k where "best_roster opts eligibles = roster_loop opts (drop k eligibles) [] 0" by (rule best_roster_cases)
  then show ?thesis using roster_loop_sub [of opts "drop k eligibles" "[]" 0] set_drop_subset [of k eligibles] by auto
qed simp

lemma remove_segments_less:
  "best_roster opts eligibles \<noteq> [] \<Longrightarrow> length (remove_segments eligibles (best_roster opts eligibles)) < length eligibles"
proof -
  assume "best_roster opts eligibles \<noteq> []"
  then obtain s where "s \<in> set (best_roster opts eligibles)" by (cases "best_roster opts eligibles") auto
  moreover from this have "s \<in> set eligibles" using best_roster_sub by blast
  ultimately show ?thesis unfolding remove_segments_def by (intro length_filter_less [of s]) simp_all
qed

text \<open>The loop while over budget; it ends as every task takes eligibles away.\<close>

function plan_loop :: "('f :: zero) plan_options \<Rightarrow> int \<Rightarrow> seg list \<Rightarrow> merge_task list \<Rightarrow> merge_task list" where
  "plan_loop opts budget eligibles tasks =
     (if eligibles \<noteq> [] \<and> int (length eligibles + length tasks) > budget then
        let best = best_roster opts eligibles in
        if best = [] then tasks
        else plan_loop opts budget (remove_segments eligibles best) (tasks @ [best])
      else tasks)"
  by pat_completeness auto
termination
  by (relation "measure (\<lambda>(_, _, eligibles, _). length eligibles)") (auto simp: remove_segments_less)

declare plan_loop.simps [simp del]

definition plan :: "('f :: zero) plan_options \<Rightarrow> seg list \<Rightarrow> merge_task list option" where
  "plan opts segmentsIn =
     (if length segmentsIn \<le> 1 then None
      else
        let segments = by_live_size_descending segmentsIn;
            (minLive, eligiblesLive, eligibles) = find_live_sizes_and_eligibles opts segments;
            minLive = raise_to_floor opts minLive;
            budget = CalcBudget opts eligiblesLive minLive;
            empties = filter (\<lambda>e. seg_LiveSize e \<le> 0) eligibles;
            tasks = (if empties \<noteq> [] then [empties] else []);
            eligibles = (if empties \<noteq> [] then remove_segments eligibles empties else eligibles)
        in Some (plan_loop opts budget eligibles tasks))"

section \<open>The default budget\<close>

text \<open>
  \<open>CalcBudget\<close>. A \<open>float64\<close> is its real number, and \<open>fl\<close> rounds the result of an operation; the
  growth is a number, not NaN or infinite. \<open>int\<close> and \<open>int64\<close> of a \<open>float64\<close> truncate.
\<close>

definition truncated :: "real \<Rightarrow> int" where
  "truncated x = (if 0 \<le> x then \<lfloor>x\<rfloor> else \<lceil>x\<rceil>)"

partial_function (option) calc_budget_loop :: "(real \<Rightarrow> real) \<Rightarrow> int \<Rightarrow> real \<Rightarrow> int \<Rightarrow> int \<Rightarrow> int \<Rightarrow> int option" where
  "calc_budget_loop fl maxSegmentsPerTier tierGrowth totalSize tierSize budgetNumSegments =
     (if totalSize > 0 then
        let segmentsInTier = fl (fl (of_int totalSize) / fl (of_int tierSize)) in
        if segmentsInTier < fl (of_int maxSegmentsPerTier)
        then Some (budgetNumSegments + truncated (of_int \<lceil>segmentsInTier\<rceil>))
        else calc_budget_loop fl maxSegmentsPerTier tierGrowth (totalSize - maxSegmentsPerTier * tierSize)
          (truncated (fl (fl (of_int tierSize) * tierGrowth))) (budgetNumSegments + maxSegmentsPerTier)
      else Some budgetNumSegments)"

definition calc_budget :: "(real \<Rightarrow> real) \<Rightarrow> int \<Rightarrow> real \<Rightarrow> int \<Rightarrow> int \<Rightarrow> int option" where
  "calc_budget fl maxSegmentsPerTier tierGrowth totalSize firstTierSize =
     calc_budget_loop fl (if maxSegmentsPerTier < 1 then 1 else maxSegmentsPerTier)
       (if tierGrowth < 1 then 1 else tierGrowth) totalSize (if firstTierSize < 1 then 1 else firstTierSize) 0"

section \<open>What a plan promises\<close>

lemma find_sizes_loop_eligibles:
  "snd (snd (find_sizes_loop opts segs m t es)) = es @ filter (\<lambda>s. seg_LiveSize s < half (MaxSegmentSize opts)) segs"
  by (induction opts segs m t es rule: find_sizes_loop.induct) (simp_all add: Let_def)

lemma roster_loop_bounds:
  assumes "l = sum_list (map seg_LiveSize roster)" "int (length roster) \<le> max 0 (SegmentsPerMergeTask opts)"
    "roster = [] \<or> l < MaxSegmentSize opts" "distinct (roster @ es)"
  shows "int (length (roster_loop opts es roster l)) \<le> max 0 (SegmentsPerMergeTask opts) \<and>
    (roster_loop opts es roster l = [] \<or> sum_list (map seg_LiveSize (roster_loop opts es roster l)) < MaxSegmentSize opts) \<and>
    distinct (roster_loop opts es roster l)"
  using assms by (induction opts es roster l rule: roster_loop.induct) auto

definition good_task :: "'f plan_options \<Rightarrow> merge_task \<Rightarrow> bool" where
  "good_task opts t \<longleftrightarrow> distinct t \<and> roster_makes_progress t \<and> int (length t) \<le> max 0 (SegmentsPerMergeTask opts) \<and>
     sum_list (map seg_LiveSize t) < MaxSegmentSize opts"

lemma best_roster_good:
  assumes "best_roster opts eligibles \<noteq> []" "distinct eligibles"
  shows "good_task opts (best_roster opts eligibles)"
proof -
  obtain k where k: "best_roster opts eligibles = roster_loop opts (drop k eligibles) [] 0" "roster_makes_progress (best_roster opts eligibles)"
    using assms(1) by (rule best_roster_cases)
  have "distinct ([] @ drop k eligibles)" using assms(2) by simp
  from roster_loop_bounds [OF _ _ _ this, of 0 opts] show ?thesis
    using k assms(1) by (simp add: good_task_def)
qed

lemma plan_loop_ok:
  "distinct eligibles \<Longrightarrow> distinct (concat tasks) \<Longrightarrow> set eligibles \<inter> set (concat tasks) = {} \<Longrightarrow>
    \<exists>new. plan_loop opts budget eligibles tasks = tasks @ new \<and> (\<forall>t\<in>set new. good_task opts t) \<and>
      distinct (concat (tasks @ new)) \<and> set (concat new) \<subseteq> set eligibles \<and>
      (let rest = filter (\<lambda>s. s \<notin> set (concat new)) eligibles in
       rest = [] \<or> int (length rest + length (tasks @ new)) \<le> budget \<or> best_roster opts rest = [])"
proof (induction opts budget eligibles tasks rule: plan_loop.induct)
  case (1 opts budget eligibles tasks)
  let ?best = "best_roster opts eligibles"
  show ?case
  proof (cases "eligibles \<noteq> [] \<and> int (length eligibles + length tasks) > budget")
    case False
    then have "plan_loop opts budget eligibles tasks = tasks" by (subst plan_loop.simps) auto
    then show ?thesis using False "1.prems" by (intro exI [of _ "[]"]) (auto simp: not_less)
  next
    case True
    show ?thesis
    proof (cases "?best = []")
      case best: True
      then have "plan_loop opts budget eligibles tasks = tasks" by (subst plan_loop.simps) simp
      then show ?thesis using best "1.prems" by (intro exI [of _ "[]"]) simp
    next
      case False
      let ?rest = "remove_segments eligibles ?best"
      have eq: "plan_loop opts budget eligibles tasks = plan_loop opts budget ?rest (tasks @ [?best])"
        using True False by (subst plan_loop.simps) (simp add: Let_def)
      have sub: "set ?best \<subseteq> set eligibles" by (rule best_roster_sub)
      have good: "good_task opts ?best" using best_roster_good False "1.prems"(1) by blast
      have pre: "distinct ?rest" "distinct (concat (tasks @ [?best]))" "set ?rest \<inter> set (concat (tasks @ [?best])) = {}"
        using "1.prems" sub good unfolding remove_segments_def good_task_def by auto
      obtain new where new: "plan_loop opts budget ?rest (tasks @ [?best]) = (tasks @ [?best]) @ new" "\<forall>t\<in>set new. good_task opts t"
        "distinct (concat ((tasks @ [?best]) @ new))" "set (concat new) \<subseteq> set ?rest"
        "let rest = filter (\<lambda>s. s \<notin> set (concat new)) ?rest in
         rest = [] \<or> int (length rest + length ((tasks @ [?best]) @ new)) \<le> budget \<or> best_roster opts rest = []"
        using "1.IH" [OF True refl False pre] by blast
      have rest: "filter (\<lambda>s. s \<notin> set (concat new)) ?rest = filter (\<lambda>s. s \<notin> set (concat (?best # new))) eligibles"
        unfolding remove_segments_def filter_filter by (intro filter_cong) auto
      show ?thesis
      proof (intro exI [of _ "?best # new"] conjI)
        show "set (concat (?best # new)) \<subseteq> set eligibles" using new(4) sub by (auto simp: remove_segments_def)
      qed (use eq new good rest in simp_all)
    qed
  qed
qed

text \<open>The eligible segments and the parts of a plan.\<close>

definition plan_eligibles :: "'f plan_options \<Rightarrow> seg list \<Rightarrow> seg list" where
  "plan_eligibles opts segs = filter (\<lambda>s. seg_LiveSize s < half (MaxSegmentSize opts)) (by_live_size_descending segs)"

definition plan_empties :: "'f plan_options \<Rightarrow> seg list \<Rightarrow> seg list" where
  "plan_empties opts segs = filter (\<lambda>s. seg_LiveSize s \<le> 0) (plan_eligibles opts segs)"

lemma set_by_live_size [simp]: "set (by_live_size_descending segs) = set segs"
  by (simp add: by_live_size_descending_def)

lemma plan_parts:
  assumes "1 < length segs" "distinct segs"
  obtains budget new where
    "plan opts segs = Some ((if plan_empties opts segs = [] then [] else [plan_empties opts segs]) @ new)"
    "\<forall>t\<in>set new. good_task opts t"
    "distinct (concat ((if plan_empties opts segs = [] then [] else [plan_empties opts segs]) @ new))"
    "set (concat new) \<subseteq> {s \<in> set segs. 0 < seg_LiveSize s \<and> seg_LiveSize s < half (MaxSegmentSize opts)}"
    "budget = CalcBudget opts (fst (snd (find_live_sizes_and_eligibles opts (by_live_size_descending segs))))
       (raise_to_floor opts (fst (find_live_sizes_and_eligibles opts (by_live_size_descending segs))))"
    "let rest = filter (\<lambda>s. s \<notin> set (concat new)) (filter (\<lambda>s. 0 < seg_LiveSize s) (plan_eligibles opts segs)) in
       rest = [] \<or> int (length rest + length (the (plan opts segs))) \<le> budget \<or> best_roster opts rest = []"
proof -
  let ?E = "plan_eligibles opts segs" and ?Z = "plan_empties opts segs"
  let ?T = "if ?Z = [] then [] else [?Z]"
  let ?b = "CalcBudget opts (fst (snd (find_live_sizes_and_eligibles opts (by_live_size_descending segs))))
       (raise_to_floor opts (fst (find_live_sizes_and_eligibles opts (by_live_size_descending segs))))"
  let ?L = "filter (\<lambda>s. 0 < seg_LiveSize s) ?E"
  have E: "snd (snd (find_live_sizes_and_eligibles opts (by_live_size_descending segs))) = ?E"
    by (simp add: find_live_sizes_and_eligibles_def find_sizes_loop_eligibles plan_eligibles_def)
  have L: "(if ?Z \<noteq> [] then remove_segments ?E ?Z else ?E) = ?L"
  proof (cases "?Z = []")
    case True
    then show ?thesis by (auto simp: plan_empties_def filter_empty_conv not_le filter_id_conv)
  next
    case False
    then show ?thesis by (auto simp: remove_segments_def plan_empties_def intro!: filter_cong)
  qed
  have plan: "plan opts segs = Some (plan_loop opts ?b ?L ?T)"
    using assms(1) E L by (simp add: plan_def Let_def split_def plan_empties_def [symmetric] cong: if_cong)
  have dE: "distinct ?E" using assms(2) by (simp add: plan_eligibles_def by_live_size_descending_def)
  then have "distinct ?L" "distinct (concat ?T)" "set ?L \<inter> set (concat ?T) = {}"
    by (auto simp: plan_empties_def)
  from plan_loop_ok [OF this, of opts ?b] obtain new where new:
    "plan_loop opts ?b ?L ?T = ?T @ new" "\<forall>t\<in>set new. good_task opts t" "distinct (concat (?T @ new))"
    "set (concat new) \<subseteq> set ?L"
    "let rest = filter (\<lambda>s. s \<notin> set (concat new)) ?L in rest = [] \<or> int (length rest + length (?T @ new)) \<le> ?b \<or> best_roster opts rest = []"
    by blast
  show ?thesis
  proof (rule that [of new ?b])
    show "set (concat new) \<subseteq> {s \<in> set segs. 0 < seg_LiveSize s \<and> seg_LiveSize s < half (MaxSegmentSize opts)}"
      using new(4) by (auto simp: plan_eligibles_def)
    show "let rest = filter (\<lambda>s. s \<notin> set (concat new)) ?L in
       rest = [] \<or> int (length rest + length (the (plan opts segs))) \<le> ?b \<or> best_roster opts rest = []"
      using new(5) unfolding plan new(1) by simp
  qed (use plan new in simp_all)
qed

lemma plan_tasks_parts:
  assumes "distinct segs" and "plan opts segs = Some tasks"
  shows "distinct (concat tasks)" and "set (concat tasks) \<subseteq> set segs"
    and "\<forall>t\<in>set tasks. t \<noteq> [] \<and> (\<forall>s\<in>set t. seg_LiveSize s < half (MaxSegmentSize opts)) \<and>
      (if \<forall>s\<in>set t. seg_LiveSize s \<le> 0 then t = plan_empties opts segs
       else (\<forall>s\<in>set t. 0 < seg_LiveSize s) \<and> roster_makes_progress t \<and>
         int (length t) \<le> max 0 (SegmentsPerMergeTask opts) \<and> sum_list (map seg_LiveSize t) < MaxSegmentSize opts)"
proof -
  have "1 < length segs" using assms(2) by (simp add: plan_def split: if_splits)
  then obtain budget new where p: "plan opts segs = Some ((if plan_empties opts segs = [] then [] else [plan_empties opts segs]) @ new)"
    "\<forall>t\<in>set new. good_task opts t" "distinct (concat ((if plan_empties opts segs = [] then [] else [plan_empties opts segs]) @ new))"
    "set (concat new) \<subseteq> {s \<in> set segs. 0 < seg_LiveSize s \<and> seg_LiveSize s < half (MaxSegmentSize opts)}"
    using assms(1) by (rule plan_parts) blast
  have t: "tasks = (if plan_empties opts segs = [] then [] else [plan_empties opts segs]) @ new" using p(1) assms(2) by simp
  have Z: "set (plan_empties opts segs) \<subseteq> {s \<in> set segs. seg_LiveSize s \<le> 0 \<and> seg_LiveSize s < half (MaxSegmentSize opts)}"
    by (auto simp: plan_empties_def plan_eligibles_def)
  show "distinct (concat tasks)" using p(3) t by simp
  show "set (concat tasks) \<subseteq> set segs" using p(4) Z t by auto
  show "\<forall>t\<in>set tasks. t \<noteq> [] \<and> (\<forall>s\<in>set t. seg_LiveSize s < half (MaxSegmentSize opts)) \<and>
      (if \<forall>s\<in>set t. seg_LiveSize s \<le> 0 then t = plan_empties opts segs
       else (\<forall>s\<in>set t. 0 < seg_LiveSize s) \<and> roster_makes_progress t \<and>
         int (length t) \<le> max 0 (SegmentsPerMergeTask opts) \<and> sum_list (map seg_LiveSize t) < MaxSegmentSize opts)"
  proof
    fix u assume "u \<in> set tasks"
    then consider "u = plan_empties opts segs" "u \<noteq> []" | "u \<in> set new" unfolding t by (auto split: if_splits)
    then show "u \<noteq> [] \<and> (\<forall>s\<in>set u. seg_LiveSize s < half (MaxSegmentSize opts)) \<and>
      (if \<forall>s\<in>set u. seg_LiveSize s \<le> 0 then u = plan_empties opts segs
       else (\<forall>s\<in>set u. 0 < seg_LiveSize s) \<and> roster_makes_progress u \<and>
         int (length u) \<le> max 0 (SegmentsPerMergeTask opts) \<and> sum_list (map seg_LiveSize u) < MaxSegmentSize opts)"
    proof cases
      case 1
      then show ?thesis using Z by auto
    next
      case 2
      then have "good_task opts u" "u \<noteq> []" using p(2) by (auto simp: good_task_def roster_makes_progress_def)
      moreover have live: "\<forall>s\<in>set u. 0 < seg_LiveSize s \<and> seg_LiveSize s < half (MaxSegmentSize opts)" using 2 p(4) by auto
      moreover have neg: "\<not> (\<forall>s\<in>set u. seg_LiveSize s \<le> 0)" using live \<open>u \<noteq> []\<close> by (cases u) auto
      ultimately show ?thesis unfolding if_not_P [OF neg] by (simp add: good_task_def)
    qed
  qed
qed

text \<open>
  C28: Over distinct segments every segment is in at most one task of a plan and in it only once, and
  the tasks hold input segments below half the maximal size. A task with live data holds no empty
  segment, makes progress, has at most \<open>SegmentsPerMergeTask\<close> segments and a total live size below the
  maximal one. The only other task is that of the empty segments: it takes all the eligible segments
  without live data at once, however many there are, so that it alone may exceed \<open>SegmentsPerMergeTask\<close>.
\<close>

theorem plan_tasks:
  assumes "distinct segs" and "plan opts segs = Some tasks"
  shows "distinct (concat tasks) \<and> set (concat tasks) \<subseteq> set segs \<and>
    (\<forall>t\<in>set tasks. t \<noteq> [] \<and> (\<forall>s\<in>set t. seg_LiveSize s < half (MaxSegmentSize opts)) \<and>
      (if \<forall>s\<in>set t. seg_LiveSize s \<le> 0 then t = plan_empties opts segs
       else (\<forall>s\<in>set t. 0 < seg_LiveSize s) \<and> roster_makes_progress t \<and>
         int (length t) \<le> max 0 (SegmentsPerMergeTask opts) \<and> sum_list (map seg_LiveSize t) < MaxSegmentSize opts))"
  by (intro conjI plan_tasks_parts [OF assms])

definition example_options :: "int plan_options" where
  "example_options = \<lparr>MaxSegmentSize = 100, SegmentsPerMergeTask = 2, FloorSegmentSize = 1,
     CalcBudget = (\<lambda>_ _. 1), ScoreSegments = (\<lambda>r. sum_list (map seg_LiveSize r)), ScoreLess = (<)\<rparr>"

definition example_segs :: "seg list" where
  "example_segs = [\<lparr>seg_ID = 1, seg_FullSize = 10, seg_LiveSize = 9\<rparr>, \<lparr>seg_ID = 2, seg_FullSize = 5, seg_LiveSize = 0\<rparr>,
     \<lparr>seg_ID = 3, seg_FullSize = 5, seg_LiveSize = 0\<rparr>, \<lparr>seg_ID = 4, seg_FullSize = 5, seg_LiveSize = 0\<rparr>,
     \<lparr>seg_ID = 5, seg_FullSize = 20, seg_LiveSize = 20\<rparr>]"

lemma example_plan:
  "plan example_options example_segs =
     Some [[\<lparr>seg_ID = 2, seg_FullSize = 5, seg_LiveSize = 0\<rparr>, \<lparr>seg_ID = 3, seg_FullSize = 5, seg_LiveSize = 0\<rparr>,
            \<lparr>seg_ID = 4, seg_FullSize = 5, seg_LiveSize = 0\<rparr>],
           [\<lparr>seg_ID = 1, seg_FullSize = 10, seg_LiveSize = 9\<rparr>]]"
  by code_simp

lemma example_distinct: "distinct example_segs"
  by (simp add: example_segs_def)

theorem plan_tasks_witness:
  "distinct (concat (the (plan example_options example_segs))) \<and> length (the (plan example_options example_segs)) = 2"
proof -
  have "distinct (concat (the (plan example_options example_segs)))"
    using plan_tasks [OF example_distinct example_plan] unfolding example_plan option.sel by blast
  then show ?thesis by (simp add: example_plan)
qed



text \<open>
  The eligible segments without live data form the first task, however many they are and
  whatever \<open>SegmentsPerMergeTask\<close> says; every segment of a plan with live data is in a later task.
\<close>

theorem plan_empties_first:
  assumes "distinct segs" and "plan opts segs = Some tasks" and "plan_empties opts segs \<noteq> []"
  shows "tasks \<noteq> [] \<and> hd tasks = plan_empties opts segs \<and> (\<forall>t\<in>set (tl tasks). \<forall>s\<in>set t. 0 < seg_LiveSize s)"
proof -
  have "1 < length segs" using assms(2) by (simp add: plan_def split: if_splits)
  then obtain new where "plan opts segs = Some ((if plan_empties opts segs = [] then [] else [plan_empties opts segs]) @ new)"
    "set (concat new) \<subseteq> {s \<in> set segs. 0 < seg_LiveSize s \<and> seg_LiveSize s < half (MaxSegmentSize opts)}"
    using assms(1) by (rule plan_parts) blast
  then show ?thesis using assms(2,3) by auto
qed

theorem plan_empties_first_witness:
  "SegmentsPerMergeTask example_options = 2 \<and> length (hd (the (plan example_options example_segs))) = 3"
proof -
  have e: "plan_empties example_options example_segs =
      [\<lparr>seg_ID = 2, seg_FullSize = 5, seg_LiveSize = 0\<rparr>, \<lparr>seg_ID = 3, seg_FullSize = 5, seg_LiveSize = 0\<rparr>,
       \<lparr>seg_ID = 4, seg_FullSize = 5, seg_LiveSize = 0\<rparr>]" by code_simp
  have "hd (the (plan example_options example_segs)) = plan_empties example_options example_segs"
    using plan_empties_first [OF example_distinct example_plan] by (simp add: e example_plan)
  then show ?thesis by (simp add: e) (simp add: example_options_def)
qed

text \<open>
  Rounding to \<open>float64\<close> keeps the order and leaves the integers up to \<open>2 ^ 53\<close> alone. Then the staircase
  of \<open>CalcBudget\<close> ends, whatever the options are, with a budget of at most the total size.
\<close>

definition rounds_integers :: "(real \<Rightarrow> real) \<Rightarrow> bool" where
  "rounds_integers fl \<longleftrightarrow> mono fl \<and> (\<forall>m. \<bar>m\<bar> \<le> 2 ^ 53 \<longrightarrow> fl (of_int m) = of_int m)"

lemma rounds_1: "rounds_integers fl \<Longrightarrow> 1 \<le> x \<Longrightarrow> 1 \<le> fl x"
  using monoD [of fl 1 x] by (auto simp: rounds_integers_def dest: spec [of _ 1])

lemma segments_in_tier:
  assumes "rounds_integers fl" and "0 < tot" and "tot \<le> 2 ^ 53" and "1 \<le> t"
  shows "0 \<le> fl (fl (of_int tot) / fl (of_int t))" "fl (fl (of_int tot) / fl (of_int t)) \<le> of_int tot"
proof -
  have m: "mono fl" and e: "fl (of_int tot) = of_int tot" "fl 0 = 0"
    using assms(1-3) by (auto simp: rounds_integers_def dest: spec [of _ 0])
  have t: "1 \<le> fl (of_int t)" by (rule rounds_1 [OF assms(1)]) (use assms(4) in simp)
  have q: "0 \<le> of_int tot / fl (of_int t)" "of_int tot / fl (of_int t) \<le> of_int tot"
    using t assms(2) by (simp_all add: divide_le_eq mult_left_mono [of 1 "fl (of_int t)" "of_int tot", simplified])
  show "0 \<le> fl (fl (of_int tot) / fl (of_int t))" using monoD [OF m q(1)] e by simp
  show "fl (fl (of_int tot) / fl (of_int t)) \<le> of_int tot" using monoD [OF m q(2)] e by simp
qed

lemma calc_budget_loop_returns:
  assumes fl: "rounds_integers fl" and n: "1 \<le> n" "n \<le> 2 ^ 53" and g: "1 \<le> growth"
  shows "tot \<le> 2 ^ 53 \<Longrightarrow> 1 \<le> t \<Longrightarrow>
    \<exists>b. calc_budget_loop fl n growth tot t budget = Some b \<and> budget \<le> b \<and> b \<le> budget + max 0 tot"
proof (induction "nat tot" arbitrary: tot t budget rule: less_induct)
  case less
  show ?case
  proof (cases "tot > 0")
    case False
    then show ?thesis by (subst calc_budget_loop.simps) simp
  next
    case pos: True
    let ?q = "fl (fl (of_int tot) / fl (of_int t))"
    note q = segments_in_tier [OF fl pos less.prems]
    have fn: "fl (of_int n) = of_int n" using fl n by (simp add: rounds_integers_def)
    show ?thesis
    proof (cases "?q < fl (of_int n)")
      case True
      have "\<lceil>?q\<rceil> \<le> tot" "0 \<le> \<lceil>?q\<rceil>" using q by (simp_all add: ceiling_le_iff)
      then show ?thesis using pos True by (subst calc_budget_loop.simps) (simp add: Let_def truncated_def)
    next
      case False
      then have big: "n \<le> tot" using q(2) unfolding fn by linarith
      have "1 \<le> n * t" "n \<le> n * t" using n(1) less.prems(2) mult_mono [of 1 n 1 t] mult_left_mono [of 1 t n] by simp_all
      then have smaller: "nat (tot - n * t) < nat tot" "tot - n * t \<le> 2 ^ 53" using pos less.prems(1) by simp_all
      have "1 \<le> fl (of_int t)" by (rule rounds_1 [OF fl]) (use less.prems(2) in simp)
      then have "1 \<le> fl (of_int t) * growth" using g mult_mono [of 1 "fl (of_int t)" 1 growth] by simp
      then have "1 \<le> fl (fl (of_int t) * growth)" by (rule rounds_1 [OF fl])
      then have "1 \<le> truncated (fl (fl (of_int t) * growth))" by (simp add: truncated_def le_floor_iff)
      from less.hyps [OF smaller this, of "budget + n"]
      obtain b where b: "calc_budget_loop fl n growth (tot - n * t) (truncated (fl (fl (of_int t) * growth))) (budget + n) = Some b"
        "budget + n \<le> b" "b \<le> budget + n + max 0 (tot - n * t)" by blast
      have "calc_budget_loop fl n growth tot t budget = Some b"
        using pos False b(1) by (subst calc_budget_loop.simps) (simp add: Let_def)
      moreover have "n + max 0 (tot - n * t) \<le> tot" using big \<open>n \<le> n * t\<close> by auto
      ultimately show ?thesis using b(2,3) n(1) pos by (intro exI [of _ b]) auto
    qed
  qed
qed

theorem calc_budget_returns:
  assumes "rounds_integers fl" and "maxSegmentsPerTier \<le> 2 ^ 53" and "totalSize \<le> 2 ^ 53"
  shows "\<exists>b. calc_budget fl maxSegmentsPerTier tierGrowth totalSize firstTierSize = Some b \<and> 0 \<le> b \<and> b \<le> max 0 totalSize"
proof -
  have "1 \<le> (if maxSegmentsPerTier < 1 then 1 else maxSegmentsPerTier)" "(if maxSegmentsPerTier < 1 then 1 else maxSegmentsPerTier) \<le> 2 ^ 53"
    "1 \<le> (if tierGrowth < 1 then 1 else tierGrowth)" "1 \<le> (if firstTierSize < 1 then 1 else firstTierSize)"
    using assms(2) by simp_all
  from calc_budget_loop_returns [OF assms(1) this(1-3) assms(3) this(4), of 0] show ?thesis
    by (simp add: calc_budget_def)
qed

theorem calc_budget_returns_witness:
  "\<exists>b. calc_budget (\<lambda>x. x) 10 10 1000 1 = Some b \<and> 0 \<le> b \<and> b \<le> 1000"
  using calc_budget_returns [of "\<lambda>x. x" 10 1000 10 1] by (simp add: rounds_integers_def mono_def)

end
