(* ===== verification/Utf8.thy ===== *)
theory Utf8
  imports Prelude
begin

text \<open>
  Bytes, runes and UTF-8 as the Go library has them (\<open>unicode/utf8\<close>, the conversions between
  strings and rune slices). A rune is an integer; decoding never fails, it gives \<open>RuneError\<close> of
  width one on a byte that starts no encoding. The analysis theories rest on the round trips.
\<close>

section \<open>Encoding and decoding\<close>

type_synonym rune = int

definition rune_error :: rune where
  "rune_error = 0xFFFD"

definition valid_rune :: "rune \<Rightarrow> bool" where
  "valid_rune r \<longleftrightarrow> 0 \<le> r \<and> r < 0xD800 \<or> 0xE000 \<le> r \<and> r \<le> 0x10FFFF"

definition byte_of :: "int \<Rightarrow> byte" where
  "byte_of n = word_of_int n"

text \<open>\<open>utf8.RuneLen\<close> and \<open>utf8.EncodeRune\<close>: an invalid rune has length -1 and is written as \<open>RuneError\<close>.\<close>

definition rune_len :: "rune \<Rightarrow> int" where
  "rune_len r =
     (if \<not> valid_rune r then -1 else if r \<le> 0x7F then 1 else if r \<le> 0x7FF then 2 else if r \<le> 0xFFFF then 3 else 4)"

definition encode_rune :: "rune \<Rightarrow> bytes" where
  "encode_rune r0 =
     (let r = (if valid_rune r0 then r0 else rune_error) in
      if r \<le> 0x7F then [byte_of r]
      else if r \<le> 0x7FF then [byte_of (0xC0 + r div 64), byte_of (0x80 + r mod 64)]
      else if r \<le> 0xFFFF then [byte_of (0xE0 + r div 4096), byte_of (0x80 + r div 64 mod 64), byte_of (0x80 + r mod 64)]
      else [byte_of (0xF0 + r div 262144), byte_of (0x80 + r div 4096 mod 64), byte_of (0x80 + r div 64 mod 64), byte_of (0x80 + r mod 64)])"

text \<open>The range the second byte must lie in: it excludes overlong forms, surrogates and runes above the last.\<close>

definition accepts :: "int \<Rightarrow> int \<Rightarrow> bool" where
  "accepts x y \<longleftrightarrow>
     (if x = 0xE0 then 0xA0 else if x = 0xF0 then 0x90 else 0x80) \<le> y \<and>
     y \<le> (if x = 0xED then 0x9F else if x = 0xF4 then 0x8F else 0xBF)"

definition continues :: "int \<Rightarrow> bool" where
  "continues y \<longleftrightarrow> 0x80 \<le> y \<and> y \<le> 0xBF"

text \<open>\<open>utf8.DecodeRune\<close>: the rune at the start and its width.\<close>

definition decode_rune :: "bytes \<Rightarrow> rune \<times> nat" where
  "decode_rune bs =
     (case map uint bs of
        [] \<Rightarrow> (rune_error, 0)
      | x # ys \<Rightarrow>
          if x \<le> 0x7F then (x, 1)
          else if 0xC2 \<le> x \<and> x \<le> 0xDF then
            (case ys of
               y # _ \<Rightarrow> if accepts x y then ((x - 0xC0) * 64 + (y - 0x80), 2) else (rune_error, 1)
             | _ \<Rightarrow> (rune_error, 1))
          else if 0xE0 \<le> x \<and> x \<le> 0xEF then
            (case ys of
               y # z # _ \<Rightarrow> if accepts x y \<and> continues z
                 then ((x - 0xE0) * 4096 + (y - 0x80) * 64 + (z - 0x80), 3) else (rune_error, 1)
             | _ \<Rightarrow> (rune_error, 1))
          else if 0xF0 \<le> x \<and> x \<le> 0xF4 then
            (case ys of
               y # z # w # _ \<Rightarrow> if accepts x y \<and> continues z \<and> continues w
                 then ((x - 0xF0) * 262144 + (y - 0x80) * 4096 + (z - 0x80) * 64 + (w - 0x80), 4) else (rune_error, 1)
             | _ \<Rightarrow> (rune_error, 1))
          else (rune_error, 1))"

lemma decode_rune_Nil [simp]: "decode_rune [] = (rune_error, 0)"
  by (simp add: decode_rune_def)

lemma valid_rune_error [simp]: "valid_rune rune_error"
  by (simp add: valid_rune_def rune_error_def)

lemma uint_byte_of [simp]: "0 \<le> n \<Longrightarrow> n < 256 \<Longrightarrow> uint (byte_of n) = n"
  by (simp add: byte_of_def uint_word_of_int_eq take_bit_int_eq_self_iff)

lemma byte_of_uint [simp]: "byte_of (uint b) = b"
  by (simp add: byte_of_def)

lemma uint_byte_bounds: "0 \<le> uint (b :: byte)" "uint (b :: byte) < 256"
  using uint_lt2p [of b] by simp_all

section \<open>Decoding what was encoded\<close>

lemma mod64: "0 \<le> (r :: int) mod 64" "r mod 64 < 64"
  by simp_all

lemma decode_1: "0 \<le> r \<Longrightarrow> r \<le> 0x7F \<Longrightarrow> decode_rune (byte_of r # rest) = (r, 1)"
  by (simp add: decode_rune_def)

lemma decode_2:
  assumes "2 \<le> a" "a \<le> 31" "0 \<le> c" "c < 64"
  shows "decode_rune (byte_of (0xC0 + a) # byte_of (0x80 + c) # rest) = (a * 64 + c, 2)"
  using assms by (simp add: decode_rune_def accepts_def)

lemma decode_3:
  fixes a b c :: int
  assumes "0 \<le> a" "a \<le> 15" "0 \<le> b" "b < 64" "0 \<le> c" "c < 64"
    and "a = 0 \<Longrightarrow> 32 \<le> b" and "a = 13 \<Longrightarrow> b < 32"
  shows "decode_rune (byte_of (0xE0 + a) # byte_of (0x80 + b) # byte_of (0x80 + c) # rest) = (a * 4096 + b * 64 + c, 3)"
  using assms by (auto simp: decode_rune_def accepts_def continues_def)

lemma decode_4:
  assumes "0 \<le> a" "a \<le> 4" "0 \<le> b" "b < 64" "0 \<le> c" "c < 64" "0 \<le> d" "d < 64"
    and "a = 0 \<Longrightarrow> 16 \<le> b" and "a = 4 \<Longrightarrow> b < 16"
  shows "decode_rune (byte_of (0xF0 + a) # byte_of (0x80 + b) # byte_of (0x80 + c) # byte_of (0x80 + d) # rest) =
    (a * 262144 + b * 4096 + c * 64 + d, 4)"
  using assms by (auto simp: decode_rune_def accepts_def continues_def)

lemma digit1:
  fixes a c :: int
  assumes "0 \<le> c" "c < 64"
  shows "(a * 64 + c) div 64 = a" "(a * 64 + c) mod 64 = c"
  using assms by simp_all

lemma digits2:
  fixes a b c :: int
  assumes "0 \<le> b" "b < 64" "0 \<le> c" "c < 64"
  shows "(a * 4096 + b * 64 + c) div 4096 = a" "(a * 4096 + b * 64 + c) div 64 mod 64 = b" "(a * 4096 + b * 64 + c) mod 64 = c"
proof -
  have e: "a * 4096 + b * 64 + c = (a * 64 + b) * 64 + c" by simp
  have d: "(a * 4096 + b * 64 + c) div 64 = a * 64 + b" unfolding e using assms(3,4) by (rule digit1)
  have "n div 4096 = n div 64 div 64" for n :: int by (simp add: zdiv_zmult2_eq [of 64 n 64, simplified])
  then show "(a * 4096 + b * 64 + c) div 4096 = a" using d digit1(1) [OF assms(1,2)] by simp
  show "(a * 4096 + b * 64 + c) div 64 mod 64 = b" unfolding d using assms(1,2) by (rule digit1)
  show "(a * 4096 + b * 64 + c) mod 64 = c" unfolding e using assms(3,4) by (rule digit1)
qed

lemma digits3:
  fixes a b c d :: int
  assumes "0 \<le> b" "b < 64" "0 \<le> c" "c < 64" "0 \<le> d" "d < 64"
  shows "(a * 262144 + b * 4096 + c * 64 + d) div 262144 = a" "(a * 262144 + b * 4096 + c * 64 + d) div 4096 mod 64 = b"
    "(a * 262144 + b * 4096 + c * 64 + d) div 64 mod 64 = c" "(a * 262144 + b * 4096 + c * 64 + d) mod 64 = d"
proof -
  have e: "a * 262144 + b * 4096 + c * 64 + d = (a * 64 + b) * 4096 + c * 64 + d" by simp
  have h: "(a * 262144 + b * 4096 + c * 64 + d) div 4096 = a * 64 + b" unfolding e using assms(3-6) by (rule digits2)
  have "n div 262144 = n div 4096 div 64" for n :: int by (simp add: zdiv_zmult2_eq [of 64 n 4096, simplified])
  then show "(a * 262144 + b * 4096 + c * 64 + d) div 262144 = a" using h digit1(1) [OF assms(1,2)] by simp
  show "(a * 262144 + b * 4096 + c * 64 + d) div 4096 mod 64 = b" unfolding h using assms(1,2) by (rule digit1)
  show "(a * 262144 + b * 4096 + c * 64 + d) div 64 mod 64 = c" unfolding e using assms(3-6) by (rule digits2)
  show "(a * 262144 + b * 4096 + c * 64 + d) mod 64 = d" unfolding e using assms(3-6) by (rule digits2)
qed

lemma digit: "(r :: int) = r div 64 * 64 + r mod 64" "0 \<le> r mod 64" "r mod 64 < 64"
  by simp_all

text \<open>The ranges of runes by the length of their encoding, as digits in base 64.\<close>

lemma rune_digits:
  assumes "valid_rune r"
  obtains "0 \<le> r" "r \<le> 0x7F"
  | a c where "r = a * 64 + c" "2 \<le> a" "a \<le> 31" "0 \<le> c" "c < 64"
  | a b c where "r = a * 4096 + b * 64 + c" "0 \<le> a" "a \<le> 15" "0 \<le> b" "b < 64" "0 \<le> c" "c < 64"
      "a = 0 \<Longrightarrow> 32 \<le> b" "a = 13 \<Longrightarrow> b < 32"
  | a b c d where "r = a * 262144 + b * 4096 + c * 64 + d" "0 \<le> a" "a \<le> 4" "0 \<le> b" "b < 64" "0 \<le> c" "c < 64" "0 \<le> d" "d < 64"
      "a = 0 \<Longrightarrow> 16 \<le> b" "a = 4 \<Longrightarrow> b < 16"
proof -
  define d where "d = r mod 64"
  define c where "c = r div 64 mod 64"
  define b where "b = r div 64 div 64 mod 64"
  define a where "a = r div 64 div 64 div 64"
  have d: "r = r div 64 * 64 + d" "0 \<le> d" "d < 64" unfolding d_def by (rule digit)+
  have c: "r div 64 = r div 64 div 64 * 64 + c" "0 \<le> c" "c < 64" unfolding c_def by (rule digit)+
  have b: "r div 64 div 64 = a * 64 + b" "0 \<le> b" "b < 64" unfolding b_def a_def by (rule digit)+
  consider "0 \<le> r" "r \<le> 0x7F" | "0x80 \<le> r" "r \<le> 0x7FF" | "0x800 \<le> r" "r \<le> 0xFFFF" | "0x10000 \<le> r" "r \<le> 0x10FFFF"
    using assms unfolding valid_rune_def by linarith
  then show ?thesis
  proof cases
    case 1
    then show ?thesis by (rule that(1))
  next
    case 2
    show ?thesis by (rule that(2) [of "r div 64" d]) (use 2 d in linarith)+
  next
    case 3
    show ?thesis
    proof (rule that(3) [of "r div 64 div 64" c d])
      show "c < 32" if h: "r div 64 div 64 = 13"
      proof (rule ccontr)
        assume "\<not> c < 32"
        then show False using h c d assms unfolding valid_rune_def by linarith
      qed
    qed (use 3 c d in linarith)+
  next
    case 4
    show ?thesis by (rule that(4) [of a b c d]) (use 4 b c d in linarith)+
  qed
qed

lemma decode_encode:
  assumes "valid_rune r"
  shows "decode_rune (encode_rune r @ rest) = (r, length (encode_rune r))"
  using assms
proof (cases rule: rune_digits)
  case 1
  then show ?thesis using assms by (simp add: encode_rune_def decode_1)
next
  case (2 a c)
  then have "\<not> r \<le> 0x7F" "r \<le> 0x7FF" by linarith+
  moreover have "r div 64 = a" "r mod 64 = c" unfolding 2(1) using 2(4,5) by (rule digit1)+
  ultimately have "encode_rune r = [byte_of (0xC0 + a), byte_of (0x80 + c)]"
    using assms by (simp add: encode_rune_def)
  then show ?thesis using decode_2 [OF 2(2-5)] 2(1) by simp
next
  case (3 a b c)
  then have "\<not> r \<le> 0x7FF" "r \<le> 0xFFFF" "\<not> r \<le> 0x7F" by linarith+
  moreover have "r div 4096 = a" "r div 64 mod 64 = b" "r mod 64 = c" unfolding 3(1) using 3(4-7) by (rule digits2)+
  ultimately have "encode_rune r = [byte_of (0xE0 + a), byte_of (0x80 + b), byte_of (0x80 + c)]"
    using assms by (simp add: encode_rune_def)
  then show ?thesis using decode_3 [OF 3(2-9)] 3(1) by simp
next
  case (4 a b c d)
  then have "\<not> r \<le> 0xFFFF" "\<not> r \<le> 0x7FF" "\<not> r \<le> 0x7F" by linarith+
  moreover have "r div 262144 = a" "r div 4096 mod 64 = b" "r div 64 mod 64 = c" "r mod 64 = d"
    unfolding 4(1) using 4(4-9) by (rule digits3)+
  ultimately have "encode_rune r = [byte_of (0xF0 + a), byte_of (0x80 + b), byte_of (0x80 + c), byte_of (0x80 + d)]"
    using assms by (simp add: encode_rune_def)
  then show ?thesis using decode_4 [OF 4(2-11)] 4(1) by simp
qed

lemma length_encode_rune: "int (length (encode_rune r)) = (if valid_rune r then rune_len r else 3)"
  by (auto simp: encode_rune_def rune_len_def rune_error_def Let_def)

lemma encode_rune_not_Nil [simp]: "encode_rune r \<noteq> []"
  by (simp add: encode_rune_def Let_def)

lemma length_encode_rune_le: "length (encode_rune r) \<le> 4"
  by (simp add: encode_rune_def Let_def)

section \<open>Encoding what was decoded\<close>

lemma decode_cases:
  obtains "bs = []" "decode_rune bs = (rune_error, 0)"
  | "bs \<noteq> []" "decode_rune bs = (rune_error, 1)"
  | x rest where "bs = x # rest" "uint x \<le> 0x7F" "decode_rune bs = (uint x, 1)"
  | a c rest where "bs = byte_of (0xC0 + a) # byte_of (0x80 + c) # rest" "2 \<le> a" "a \<le> 31" "0 \<le> c" "c < 64"
      "decode_rune bs = (a * 64 + c, 2)"
  | a b c rest where "bs = byte_of (0xE0 + a) # byte_of (0x80 + b) # byte_of (0x80 + c) # rest"
      "0 \<le> a" "a \<le> 15" "0 \<le> b" "b < 64" "0 \<le> c" "c < 64" "a = 0 \<Longrightarrow> 32 \<le> b" "a = 13 \<Longrightarrow> b < 32"
      "decode_rune bs = (a * 4096 + b * 64 + c, 3)"
  | a b c d rest where "bs = byte_of (0xF0 + a) # byte_of (0x80 + b) # byte_of (0x80 + c) # byte_of (0x80 + d) # rest"
      "0 \<le> a" "a \<le> 4" "0 \<le> b" "b < 64" "0 \<le> c" "c < 64" "0 \<le> d" "d < 64" "a = 0 \<Longrightarrow> 16 \<le> b" "a = 4 \<Longrightarrow> b < 16"
      "decode_rune bs = (a * 262144 + b * 4096 + c * 64 + d, 4)"
proof (cases bs)
  case Nil
  then show ?thesis using that(1) by simp
next
  case (Cons x ys)
  consider "uint x \<le> 0x7F" | "0xC2 \<le> uint x" "uint x \<le> 0xDF" | "0xE0 \<le> uint x" "uint x \<le> 0xEF"
    | "0xF0 \<le> uint x" "uint x \<le> 0xF4"
    | "(0xC2 \<le> uint x \<and> uint x \<le> 0xDF) = False" "(0xE0 \<le> uint x \<and> uint x \<le> 0xEF) = False"
      "(0xF0 \<le> uint x \<and> uint x \<le> 0xF4) = False" "(uint x \<le> 0x7F) = False"
    by blast
  then show ?thesis
  proof cases
    case 1
    then show ?thesis using that(3) Cons by (simp add: decode_rune_def)
  next
    case 2
    show ?thesis
    proof (cases "\<exists>y rest. ys = y # rest \<and> accepts (uint x) (uint y)")
      case True
      then obtain y rest where y: "ys = y # rest" "accepts (uint x) (uint y)" by blast
      then have b: "0x80 \<le> uint y" "uint y \<le> 0xBF" using 2 by (auto simp: accepts_def)
      show ?thesis
        by (rule that(4) [of "uint x - 0xC0" "uint y - 0x80" rest]) (use Cons y 2 b in \<open>simp_all add: decode_rune_def\<close>)
    next
      case False
      then have "decode_rune bs = (rune_error, 1)" using 2 Cons by (auto simp: decode_rune_def split: list.splits)
      then show ?thesis using that(2) Cons by simp
    qed
  next
    case 3
    show ?thesis
    proof (cases "\<exists>y z rest. ys = y # z # rest \<and> accepts (uint x) (uint y) \<and> continues (uint z)")
      case True
      then obtain y z rest where y: "ys = y # z # rest" "accepts (uint x) (uint y)" "continues (uint z)" by blast
      then have b: "0x80 \<le> uint y" "uint y \<le> 0xBF" "0x80 \<le> uint z" "uint z \<le> 0xBF"
        "uint x = 0xE0 \<Longrightarrow> 0xA0 \<le> uint y" "uint x = 0xED \<Longrightarrow> uint y \<le> 0x9F"
        by (auto simp: accepts_def continues_def split: if_splits)
      show ?thesis
        by (rule that(5) [of "uint x - 0xE0" "uint y - 0x80" "uint z - 0x80" rest])
          (use Cons y 3 b in \<open>simp_all add: decode_rune_def\<close>)
    next
      case False
      then have "decode_rune bs = (rune_error, 1)" using 3 Cons by (auto simp: decode_rune_def split: list.splits)
      then show ?thesis using that(2) Cons by simp
    qed
  next
    case 4
    show ?thesis
    proof (cases "\<exists>y z w rest. ys = y # z # w # rest \<and> accepts (uint x) (uint y) \<and> continues (uint z) \<and> continues (uint w)")
      case True
      then obtain y z w rest where y: "ys = y # z # w # rest" "accepts (uint x) (uint y)" "continues (uint z)" "continues (uint w)" by blast
      then have b: "0x80 \<le> uint y" "uint y \<le> 0xBF" "0x80 \<le> uint z" "uint z \<le> 0xBF" "0x80 \<le> uint w" "uint w \<le> 0xBF"
        "uint x = 0xF0 \<Longrightarrow> 0x90 \<le> uint y" "uint x = 0xF4 \<Longrightarrow> uint y \<le> 0x8F"
        by (auto simp: accepts_def continues_def split: if_splits)
      show ?thesis
        by (rule that(6) [of "uint x - 0xF0" "uint y - 0x80" "uint z - 0x80" "uint w - 0x80" rest])
          (use Cons y 4 b in \<open>simp_all add: decode_rune_def\<close>)
    next
      case False
      then have "decode_rune bs = (rune_error, 1)" using 4 Cons by (auto simp: decode_rune_def split: list.splits)
      then show ?thesis using that(2) Cons by simp
    qed
  next
    case 5
    then have "decode_rune bs = (rune_error, 1)"
      unfolding decode_rune_def Cons list.map list.case by (simp only: if_False)
    then show ?thesis using that(2) Cons by simp
  qed
qed

lemma decode_valid: "valid_rune (fst (decode_rune bs))"
proof (cases bs rule: decode_cases)
  case (3 x rest)
  then show ?thesis using uint_byte_bounds [of x] by (simp add: valid_rune_def)
next
  case (5 a b c rest)
  have "a < 13 \<or> a = 13 \<or> 14 \<le> a" by linarith
  then have "a * 4096 + b * 64 + c < 0xD800 \<or> 0xE000 \<le> a * 4096 + b * 64 + c" using 5 by (elim disjE) linarith+
  moreover have "a * 4096 + b * 64 + c \<le> 0xFFFF" using 5 by linarith
  ultimately show ?thesis using 5 by (auto simp: valid_rune_def)
next
  case (6 a b c d rest)
  then have "0x10000 \<le> a * 262144 + b * 4096 + c * 64 + d" "a * 262144 + b * 4096 + c * 64 + d \<le> 0x10FFFF" by linarith+
  then show ?thesis using 6 by (simp add: valid_rune_def)
qed (simp_all add: valid_rune_def rune_error_def)

lemma decode_size:
  assumes "bs \<noteq> []"
  shows "1 \<le> snd (decode_rune bs)" "snd (decode_rune bs) \<le> length bs" "snd (decode_rune bs) \<le> 4"
proof -
  have "1 \<le> snd (decode_rune bs) \<and> snd (decode_rune bs) \<le> length bs \<and> snd (decode_rune bs) \<le> 4"
    using assms by (cases bs rule: decode_cases) (auto simp: Suc_le_eq)
  then show "1 \<le> snd (decode_rune bs)" "snd (decode_rune bs) \<le> length bs" "snd (decode_rune bs) \<le> 4" by simp_all
qed

lemma encode_decode:
  assumes "bs \<noteq> []" "decode_rune bs \<noteq> (rune_error, 1)"
  shows "encode_rune (fst (decode_rune bs)) = take (snd (decode_rune bs)) bs"
proof -
  have v: "valid_rune (fst (decode_rune bs))" by (rule decode_valid)
  show ?thesis
  proof (cases bs rule: decode_cases)
    case (3 x rest)
    then show ?thesis using v by (simp add: encode_rune_def)
  next
    case (4 a c rest)
    then have "\<not> a * 64 + c \<le> 0x7F" "a * 64 + c \<le> 0x7FF" by linarith+
    then show ?thesis using 4(1,6) v digit1 [OF 4(4,5), of a] by (simp add: encode_rune_def)
  next
    case (5 a b c rest)
    then have "\<not> a * 4096 + b * 64 + c \<le> 0x7FF" "\<not> a * 4096 + b * 64 + c \<le> 0x7F" "a * 4096 + b * 64 + c \<le> 0xFFFF" by linarith+
    then show ?thesis using 5(1,10) v digits2 [OF 5(4-7), of a] by (simp add: encode_rune_def)
  next
    case (6 a b c d rest)
    define r where "r = a * 262144 + b * 4096 + c * 64 + d"
    have "\<not> r \<le> 0xFFFF" "\<not> r \<le> 0x7FF" "\<not> r \<le> 0x7F" unfolding r_def using 6(2-11) by linarith+
    moreover have "fst (decode_rune bs) = r" "snd (decode_rune bs) = 4" using 6(12) by (simp_all add: r_def)
    moreover have "r div 262144 = a" "r div 4096 mod 64 = b" "r div 64 mod 64 = c" "r mod 64 = d"
      unfolding r_def using 6(4-9) by (rule digits3)+
    ultimately show ?thesis using 6(1) v by (simp add: encode_rune_def)
  qed (use assms in simp_all)
qed

section \<open>Rune slices\<close>

text \<open>\<open>bytes.Runes\<close> and \<open>[]rune(s)\<close>; \<open>utf8.RuneCount\<close> is its length.\<close>

function runes :: "bytes \<Rightarrow> rune list" where
  "runes bs = (if bs = [] then [] else fst (decode_rune bs) # runes (drop (snd (decode_rune bs)) bs))"
  by pat_completeness auto
termination
  by (relation "measure length") (use decode_size in \<open>auto simp: Suc_le_eq\<close>)

declare runes.simps [simp del]

definition rune_count :: "bytes \<Rightarrow> nat" where
  "rune_count bs = length (runes bs)"

text \<open>\<open>string(runes)\<close>.\<close>

definition encode_runes :: "rune list \<Rightarrow> bytes" where
  "encode_runes rs = concat (map encode_rune rs)"

lemma encode_runes_simps [simp]:
  "encode_runes [] = []" "encode_runes (r # rs) = encode_rune r @ encode_runes rs"
  "encode_runes (rs @ qs) = encode_runes rs @ encode_runes qs"
  by (simp_all add: encode_runes_def)

lemma runes_Nil [simp]: "runes [] = []"
  by (subst runes.simps) simp

lemma runes_Cons: "bs \<noteq> [] \<Longrightarrow> runes bs = fst (decode_rune bs) # runes (drop (snd (decode_rune bs)) bs)"
  by (subst runes.simps) simp

lemma runes_eq_Nil [simp]: "runes bs = [] \<longleftrightarrow> bs = []"
  using runes_Cons by fastforce

lemma runes_valid: "r \<in> set (runes bs) \<Longrightarrow> valid_rune r"
proof (induction bs rule: runes.induct)
  case (1 bs)
  then show ?case using decode_valid by (cases "bs = []") (auto simp: runes_Cons)
qed

lemma runes_encode_append: "\<forall>r\<in>set rs. valid_rune r \<Longrightarrow> runes (encode_runes rs @ bs) = rs @ runes bs"
proof (induction rs)
  case (Cons r rs)
  then show ?case by (simp add: runes_Cons decode_encode)
qed simp

lemma runes_encode: "\<forall>r\<in>set rs. valid_rune r \<Longrightarrow> runes (encode_runes rs) = rs"
  using runes_encode_append [of rs "[]"] by simp

text \<open>The bytes that are valid UTF-8 are those the encoding gives back.\<close>

definition valid_utf8 :: "bytes \<Rightarrow> bool" where
  "valid_utf8 bs \<longleftrightarrow> encode_runes (runes bs) = bs"

lemma valid_utf8_encode [simp]: "\<forall>r\<in>set rs. valid_rune r \<Longrightarrow> valid_utf8 (encode_runes rs)"
  by (simp add: valid_utf8_def runes_encode)

lemma runes_inj: "valid_utf8 a \<Longrightarrow> valid_utf8 b \<Longrightarrow> runes a = runes b \<Longrightarrow> a = b"
  unfolding valid_utf8_def by metis

text \<open>ASCII bytes are their own runes.\<close>

lemma runes_ascii: "\<forall>b\<in>set bs. uint b \<le> 0x7F \<Longrightarrow> runes bs = map uint bs"
proof (induction bs)
  case (Cons b bs)
  then have "decode_rune (b # bs) = (uint b, 1)" by (simp add: decode_rune_def)
  then show ?case using Cons by (simp add: runes_Cons)
qed simp

end
