(* ===== verification/Analysis.thy ===== *)
theory Analysis
  imports Utf8
begin

text \<open>
  The data of analysis (\<open>analysis/type.go\<close>), the rune helpers (\<open>util.go\<close>), the token lists read
  from files (\<open>tokenmap.go\<close>) and the term frequencies of a field (\<open>freq.go\<close>). A token stream is
  the list of its tokens: the code's pointers are not shared between the entries of a stream.
\<close>

section \<open>Tokens and analyzers\<close>

datatype token_type = AlphaNumeric | Ideographic | NumericToken | DateTime | Shingle | Single | Double | Boolean

record token =
  Start :: int
  End :: int
  Term :: bytes
  PositionIncr :: int
  Type :: token_type
  KeyWord :: bool

type_synonym token_stream = "token list"

record analyzer =
  CharFilters :: "(bytes \<Rightarrow> bytes) list"
  Tokenizer :: "bytes \<Rightarrow> token_stream"
  TokenFilters :: "(token_stream \<Rightarrow> token_stream) list"

definition analyze :: "analyzer \<Rightarrow> bytes \<Rightarrow> token_stream" where
  "analyze a input =
     foldl (\<lambda>tokens tf. tf tokens) (Tokenizer a (foldl (\<lambda>i cf. cf i) input (CharFilters a))) (TokenFilters a)"

text \<open>The positions of the tokens of a stream that starts after position \<open>p\<close>.\<close>

fun placed :: "int \<Rightarrow> token_stream \<Rightarrow> (int \<times> token) list" where
  "placed p [] = []"
| "placed p (t # ts) = (p + PositionIncr t, t) # placed (p + PositionIncr t) ts"

lemma placed_append: "placed p (xs @ ys) = placed p xs @ placed (p + sum_list (map PositionIncr xs)) ys"
  by (induction p xs rule: placed.induct) (simp_all add: algebra_simps)

lemma map_snd_placed [simp]: "map snd (placed p ts) = ts"
  by (induction p ts rule: placed.induct) simp_all

lemma length_placed [simp]: "length (placed p ts) = length ts"
  by (induction p ts rule: placed.induct) simp_all

section \<open>Rune helpers\<close>

definition delete_rune :: "rune list \<Rightarrow> nat \<Rightarrow> rune list" where
  "delete_rune rs pos = (if pos \<ge> length rs then rs else take pos rs @ drop (pos + 1) rs)"

definition insert_rune :: "rune list \<Rightarrow> nat \<Rightarrow> rune \<Rightarrow> rune list" where
  "insert_rune rs pos r = take pos rs @ [r] @ drop pos rs"

lemma length_delete_rune: "pos < length rs \<Longrightarrow> length (delete_rune rs pos) = length rs - 1"
  by (simp add: delete_rune_def)

lemma delete_insert_rune: "pos \<le> length rs \<Longrightarrow> delete_rune (insert_rune rs pos r) pos = rs"
  by (simp add: delete_rune_def insert_rune_def min_def)

lemma set_delete_rune: "set (delete_rune rs pos) \<subseteq> set rs"
  using set_take_subset [of pos rs] set_drop_subset [of "pos + 1" rs] by (auto simp: delete_rune_def)

lemma set_insert_rune: "set (insert_rune rs pos r) = insert r (set rs)"
proof -
  have "set rs = set (take pos rs) \<union> set (drop pos rs)" by (metis append_take_drop_id set_append)
  then show ?thesis by (auto simp: insert_rune_def)
qed

text \<open>
  \<open>BuildTermFromRunesOptimistic\<close>: the runes are written into the buffer, and the first that does
  not fit moves the work to a new one. Writing past the end panics, which is None.
\<close>

fun build_loop :: "nat \<Rightarrow> rune list \<Rightarrow> bytes \<Rightarrow> nat \<Rightarrow> bytes option" where
  "build_loop n [] rv used = Some (take used rv)"
| "build_loop n (r # rs) rv used =
     (let rv = (if int used + rune_len r > int (length rv)
                then take (4 * n) (take used rv) @ replicate (4 * n - used) 0 else rv);
          e = encode_rune r
      in if used + length e \<le> length rv
         then build_loop n rs (take used rv @ e @ drop (used + length e) rv) (used + length e)
         else None)"

definition build_term_optimistic :: "bytes \<Rightarrow> rune list \<Rightarrow> bytes option" where
  "build_term_optimistic buf rs = build_loop (length rs) rs buf 0"

definition build_term_from_runes :: "rune list \<Rightarrow> bytes" where
  "build_term_from_runes rs = the (build_term_optimistic (replicate (length rs * 4) 0) rs)"

lemma take_write: "used \<le> length A \<Longrightarrow> take (used + length e) (take used A @ e @ B) = take used A @ e"
  by simp

lemma build_loop_valid:
  assumes "\<forall>r\<in>set rs. valid_rune r" "used \<le> length rv" "used + 4 * length rs \<le> 4 * n"
  shows "build_loop n rs rv used = Some (take used rv @ encode_runes rs)"
  using assms
proof (induction n rs rv used rule: build_loop.induct)
  case (2 n r rs rv used)
  let ?rv = "if int used + rune_len r > int (length rv) then take (4 * n) (take used rv) @ replicate (4 * n - used) 0 else rv"
  have le: "length (encode_rune r) \<le> 4" by (rule length_encode_rune_le)
  have len: "int (length (encode_rune r)) = rune_len r" using 2(2) length_encode_rune by simp
  have fits: "used + length (encode_rune r) \<le> length ?rv" using 2(3,4) le len by auto
  have pre: "take used ?rv = take used rv" using 2(3,4) by auto
  have "build_loop n rs (take used ?rv @ encode_rune r @ drop (used + length (encode_rune r)) ?rv) (used + length (encode_rune r)) =
      Some (take (used + length (encode_rune r)) (take used ?rv @ encode_rune r @ drop (used + length (encode_rune r)) ?rv) @ encode_runes rs)"
  proof (rule 2(1) [OF refl refl fits])
    show "\<forall>r\<in>set rs. valid_rune r" using 2(2) by simp
    show "used + length (encode_rune r) \<le> length (take used ?rv @ encode_rune r @ drop (used + length (encode_rune r)) ?rv)"
      using fits by (simp only: length_append length_take length_drop)
    show "used + length (encode_rune r) + 4 * length rs \<le> 4 * n" using 2(4) le by simp
  qed
  moreover have "take (used + length (encode_rune r)) (take used ?rv @ encode_rune r @ drop (used + length (encode_rune r)) ?rv) =
      take used rv @ encode_rune r"
    by (rule trans [OF take_write [OF add_leD1 [OF fits]]]) (simp only: pre)
  ultimately show ?case using fits by (simp add: Let_def)
qed simp

lemma build_loop_room:
  assumes "used + 4 * length rs \<le> length rv"
  shows "build_loop n rs rv used = Some (take used rv @ encode_runes rs)"
  using assms
proof (induction n rs rv used rule: build_loop.induct)
  case (2 n r rs rv used)
  have le: "length (encode_rune r) \<le> 4" by (rule length_encode_rune_le)
  have "rune_len r \<le> 4" by (simp add: rune_len_def)
  then have e: "(if int used + rune_len r > int (length rv) then take (4 * n) (take used rv) @ replicate (4 * n - used) 0 else rv) = rv"
    using 2(2) by simp
  have fits: "used + length (encode_rune r) \<le> length rv" using 2(2) le by simp
  have "build_loop n rs (take used rv @ encode_rune r @ drop (used + length (encode_rune r)) rv) (used + length (encode_rune r)) =
      Some (take (used + length (encode_rune r)) (take used rv @ encode_rune r @ drop (used + length (encode_rune r)) rv) @ encode_runes rs)"
    by (rule 2(1) [OF e [symmetric] refl fits]) (use 2(2) le fits in simp)
  then show ?case using fits e by (simp add: min_def)
qed simp

lemma build_term_from_runes [simp]: "build_term_from_runes rs = encode_runes rs"
  by (simp add: build_term_from_runes_def build_term_optimistic_def build_loop_room)

lemma build_term_optimistic: "\<forall>r\<in>set rs. valid_rune r \<Longrightarrow> build_term_optimistic buf rs = Some (encode_runes rs)"
  unfolding build_term_optimistic_def by (subst build_loop_valid) simp_all

text \<open>
  Building a term from valid runes never writes past its buffer, whatever buffer it is handed,
  and gives the runes' encoding, which reads back as the runes.
\<close>

theorem build_term_round:
  assumes "\<forall>r\<in>set rs. valid_rune r"
  shows "\<exists>t. build_term_optimistic buf rs = Some t \<and> t = build_term_from_runes rs \<and> runes t = rs"
  using assms by (simp add: build_term_optimistic runes_encode)

theorem build_term_round_witness:
  "\<exists>t. build_term_optimistic [0x61] [0x20AC, 0x62] = Some t \<and> t = build_term_from_runes [0x20AC, 0x62] \<and> runes t = [0x20AC, 0x62]"
  by (rule build_term_round) (simp add: valid_rune_def)

text \<open>\<open>TruncateRunes\<close>, for a number of runes the term has.\<close>

definition truncate_runes :: "bytes \<Rightarrow> nat \<Rightarrow> bytes" where
  "truncate_runes input num = build_term_from_runes (take (length (runes input) - num) (runes input))"

definition runes_ends_with :: "rune list \<Rightarrow> rune list \<Rightarrow> bool" where
  "runes_ends_with input suffix \<longleftrightarrow>
     \<not> length suffix > length input \<and>
     list_all (\<lambda>i. input ! (length input - (length suffix - i)) = suffix ! i) (rev [0..<length suffix])"

lemma runes_ends_with_iff: "runes_ends_with input suffix \<longleftrightarrow> (\<exists>stem. input = stem @ suffix)"
proof
  assume h: "runes_ends_with input suffix"
  have le: "length suffix \<le> length input" using h by (simp add: runes_ends_with_def)
  have "drop (length input - length suffix) input = suffix"
  proof (rule nth_equalityI)
    fix i assume i: "i < length (drop (length input - length suffix) input)"
    then have "i < length suffix" using le by simp
    moreover have "length input - length suffix + i = length input - (length suffix - i)" using le calculation by simp
    ultimately show "drop (length input - length suffix) input ! i = suffix ! i"
      using h le i by (simp add: runes_ends_with_def list_all_iff)
  qed (use le in simp)
  then show "\<exists>stem. input = stem @ suffix" by (metis append_take_drop_id)
next
  assume "\<exists>stem. input = stem @ suffix"
  then show "runes_ends_with input suffix" by (auto simp: runes_ends_with_def list_all_iff nth_append)
qed

section \<open>Token maps\<close>

type_synonym token_map = "bytes set"

definition add_token :: "bytes \<Rightarrow> token_map \<Rightarrow> token_map" where
  "add_token t m = insert t m"

text \<open>\<open>unicode.IsSpace\<close> and \<open>strings.Fields\<close> of the Go library.\<close>

definition is_space :: "rune \<Rightarrow> bool" where
  "is_space r \<longleftrightarrow> 9 \<le> r \<and> r \<le> 13 \<or> 0x2000 \<le> r \<and> r \<le> 0x200A \<or>
     r \<in> {0x20, 0x85, 0xA0, 0x1680, 0x2028, 0x2029, 0x202F, 0x205F, 0x3000}"

function fields_loop :: "bytes \<Rightarrow> bytes \<Rightarrow> bytes list" where
  "fields_loop bs cur =
     (if bs = [] then (if cur \<noteq> [] then [cur] else [])
      else let (r, n) = decode_rune bs in
        if is_space r then (if cur \<noteq> [] then [cur] else []) @ fields_loop (drop n bs) []
        else fields_loop (drop n bs) (cur @ take n bs))"
  by pat_completeness auto
termination
  by (relation "measure (\<lambda>(bs, _). length bs)") (use decode_size in \<open>auto simp: Suc_le_eq dest!: arg_cong [where f = snd]\<close>)

declare fields_loop.simps [simp del]

text \<open>A line up to a \<open>#\<close> or a \<open>|\<close>, and the lines of a file as \<open>ReadString\<close> reads them.\<close>

definition load_line :: "bytes \<Rightarrow> token_map \<Rightarrow> token_map" where
  "load_line line m =
     (let line = takeWhile (\<lambda>b. b \<noteq> 0x23 \<and> b \<noteq> 0x7C) line
      in foldl (\<lambda>m t. add_token t m) m (fields_loop line []))"

fun read_lines :: "bytes \<Rightarrow> bytes \<Rightarrow> bytes list" where
  "read_lines [] cur = [cur]"
| "read_lines (b # bs) cur = (if b = 0x0A then (cur @ [b]) # read_lines bs [] else read_lines bs (cur @ [b]))"

definition load_bytes :: "bytes \<Rightarrow> token_map \<Rightarrow> token_map" where
  "load_bytes data m = foldl (\<lambda>m line. load_line line m) m (read_lines data [])"

lemma foldl_add_token: "foldl (\<lambda>m t. add_token t m) m ts = set ts \<union> m"
  by (induction ts arbitrary: m) (auto simp: add_token_def)

lemma load_line: "load_line line m = set (fields_loop (takeWhile (\<lambda>b. b \<noteq> 0x23 \<and> b \<noteq> 0x7C) line) []) \<union> m"
  by (simp add: load_line_def Let_def foldl_add_token)

lemma load_bytes: "load_bytes data m = \<Union> (set (map (\<lambda>l. load_line l {}) (read_lines data []))) \<union> m"
proof -
  have "foldl (\<lambda>m line. load_line line m) m ls = \<Union> (set (map (\<lambda>l. load_line l {}) ls)) \<union> m" for ls
    by (induction ls arbitrary: m) (auto simp: load_line)
  then show ?thesis by (simp add: load_bytes_def)
qed

text \<open>A token a list can hold: it is not empty and has no space, no line end and no comment mark.\<close>

definition listable :: "bytes \<Rightarrow> bool" where
  "listable t \<longleftrightarrow> t \<noteq> [] \<and> valid_utf8 t \<and> (\<forall>r\<in>set (runes t). \<not> is_space r) \<and> (\<forall>b\<in>set t. b \<noteq> 0x23 \<and> b \<noteq> 0x7C \<and> b \<noteq> 0x0A)"

lemma fields_word:
  assumes "\<forall>r\<in>set rs. valid_rune r \<and> \<not> is_space r"
  shows "fields_loop (encode_runes rs @ bs) cur = fields_loop bs (cur @ encode_runes rs)"
  using assms
proof (induction rs arbitrary: cur)
  case (Cons r rs)
  have "fields_loop (encode_rune r @ (encode_runes rs @ bs)) cur = fields_loop (encode_runes rs @ bs) (cur @ encode_rune r)"
    using Cons.prems by (subst fields_loop.simps) (simp add: decode_encode)
  then show ?case using Cons by simp
qed simp

lemma fields_newline: "fields_loop [0x0A] cur = (if cur = [] then [] else [cur])"
  by (subst fields_loop.simps) (simp add: decode_rune_def is_space_def fields_loop.simps)

lemma listable_line:
  assumes "listable t"
  shows "load_line (t @ [0x0A]) {} = {t}"
proof -
  have "takeWhile (\<lambda>b. b \<noteq> 0x23 \<and> b \<noteq> 0x7C) (t @ [0x0A]) = t @ [0x0A]"
    using assms by (auto simp: listable_def takeWhile_eq_all_conv)
  moreover have "fields_loop (encode_runes (runes t) @ [0x0A]) [] = fields_loop [0x0A] ([] @ encode_runes (runes t))"
    using assms runes_valid by (intro fields_word) (auto simp: listable_def)
  ultimately show ?thesis using assms by (simp add: load_line listable_def valid_utf8_def fields_newline)
qed

lemma read_lines_word: "0x0A \<notin> set t \<Longrightarrow> read_lines (t @ 0x0A # bs) cur = (cur @ t @ [0x0A]) # read_lines bs []"
  by (induction t arbitrary: cur) auto

text \<open>
  Loading a list file with one token a line gives back exactly its tokens, if none of them
  is empty or holds a space, a line end or a comment mark.
\<close>

theorem load_bytes_round:
  assumes "\<forall>t\<in>set ts. listable t"
  shows "load_bytes (concat (map (\<lambda>t. t @ [0x0A]) ts)) m = set ts \<union> m"
proof -
  have "read_lines (concat (map (\<lambda>t. t @ [0x0A]) ts)) [] = map (\<lambda>t. t @ [0x0A]) ts @ [[]]"
    using assms by (induction ts) (auto simp: read_lines_word listable_def)
  moreover have "fields_loop [] [] = []" by (subst fields_loop.simps) simp
  moreover have "load_line [] {} = {}" using calculation(2) by (simp add: load_line)
  moreover have "(\<Union>t\<in>set ts. load_line (t @ [0x0A]) {}) = set ts" using assms by (auto simp: listable_line)
  ultimately show ?thesis unfolding load_bytes by (simp add: image_image)
qed

theorem load_bytes_round_witness:
  "load_bytes [0x61, 0xC3, 0xA9, 0x0A, 0x62, 0x0A] {} = {[0x61, 0xC3, 0xA9], [0x62]}"
proof -
  have "listable [0x61, 0xC3, 0xA9]" "listable [0x62]" by code_simp+
  then show ?thesis using load_bytes_round [of "[[0x61, 0xC3, 0xA9], [0x62]]" "{}"] by simp
qed

section \<open>Term frequencies\<close>

record token_location =
  FieldVal :: string
  StartVal :: int
  EndVal :: int
  PositionVal :: int

record token_freq =
  TermVal :: bytes
  Locations :: "token_location list"
  frequency :: int

type_synonym token_frequencies = "bytes \<rightharpoonup> token_freq"

text \<open>\<open>TokenFrequency\<close>: one pass over the tokens, with or without locations.\<close>

fun freq_vectors_loop :: "token_stream \<Rightarrow> token_frequencies \<Rightarrow> int \<Rightarrow> token_frequencies \<times> int" where
  "freq_vectors_loop [] freqs position = (freqs, position)"
| "freq_vectors_loop (t # ts) freqs position =
     (let position = position + PositionIncr t;
          tl = \<lparr>FieldVal = '''', StartVal = Start t, EndVal = End t, PositionVal = position\<rparr>
      in case freqs (Term t) of
           Some tf \<Rightarrow> freq_vectors_loop ts
             (freqs(Term t \<mapsto> tf\<lparr>Locations := Locations tf @ [tl], frequency := frequency tf + 1\<rparr>)) position
         | None \<Rightarrow> freq_vectors_loop ts
             (freqs(Term t \<mapsto> \<lparr>TermVal = Term t, Locations = [tl], frequency = 1\<rparr>)) position)"

fun freq_loop :: "token_stream \<Rightarrow> token_frequencies \<Rightarrow> token_frequencies" where
  "freq_loop [] freqs = freqs"
| "freq_loop (t # ts) freqs =
     (case freqs (Term t) of
        Some tf \<Rightarrow> freq_loop ts (freqs(Term t \<mapsto> tf\<lparr>frequency := frequency tf + 1\<rparr>))
      | None \<Rightarrow> freq_loop ts (freqs(Term t \<mapsto> \<lparr>TermVal = Term t, Locations = [], frequency = 1\<rparr>)))"

definition token_frequency :: "token_stream \<Rightarrow> bool \<Rightarrow> int \<Rightarrow> token_frequencies \<times> int" where
  "token_frequency tokens includeTermVectors startOffset =
     (if includeTermVectors then freq_vectors_loop tokens Map.empty startOffset
      else (freq_loop tokens Map.empty, 0))"

text \<open>
  \<open>mergeOne\<close> and \<open>MergeAll\<close>. The locations of the merged field get its name; the keys of the other
  map come in any order \<open>ks\<close>.
\<close>

definition set_field :: "string \<Rightarrow> token_freq \<Rightarrow> token_freq" where
  "set_field f tf = tf\<lparr>Locations := map (\<lambda>l. l\<lparr>FieldVal := f\<rparr>) (Locations tf)\<rparr>"

definition merge_one :: "string \<Rightarrow> bytes \<Rightarrow> token_freq \<Rightarrow> token_frequencies \<Rightarrow> token_frequencies" where
  "merge_one remoteField tfk tf tfs =
     (let tf = set_field remoteField tf in
      case tfs tfk of
        Some existing \<Rightarrow> tfs(tfk \<mapsto> existing\<lparr>Locations := Locations existing @ Locations tf, frequency := frequency existing + frequency tf\<rparr>)
      | None \<Rightarrow> tfs(tfk \<mapsto> \<lparr>TermVal = TermVal tf, Locations = Locations tf, frequency = frequency tf\<rparr>))"

definition merge_all :: "string \<Rightarrow> bytes list \<Rightarrow> token_frequencies \<Rightarrow> token_frequencies \<Rightarrow> token_frequencies" where
  "merge_all remoteField ks other tfs = foldl (\<lambda>tfs k. merge_one remoteField k (the (other k)) tfs) tfs ks"

text \<open>What the frequencies hold: one entry per term with its tokens in order.\<close>

definition location_of :: "int \<times> token \<Rightarrow> token_location" where
  "location_of pt = \<lparr>FieldVal = '''', StartVal = Start (snd pt), EndVal = End (snd pt), PositionVal = fst pt\<rparr>"

definition freq_of :: "bool \<Rightarrow> int \<Rightarrow> token_stream \<Rightarrow> token_frequencies" where
  "freq_of vectors p tokens k =
     (let occ = filter (\<lambda>pt. Term (snd pt) = k) (placed p tokens) in
      if occ = [] then None
      else Some \<lparr>TermVal = k, Locations = (if vectors then map location_of occ else []), frequency = int (length occ)\<rparr>)"

definition join_freq :: "token_freq option \<Rightarrow> token_freq option \<Rightarrow> token_freq option" where
  "join_freq a b = (case (a, b) of (None, b) \<Rightarrow> b | (a, None) \<Rightarrow> a
     | (Some x, Some y) \<Rightarrow> Some (x\<lparr>Locations := Locations x @ Locations y, frequency := frequency x + frequency y\<rparr>))"

lemma join_freq_None [simp]: "join_freq None b = b" "join_freq a None = a"
  by (cases a; simp add: join_freq_def)+

lemma join_freq_assoc: "join_freq (join_freq a b) c = join_freq a (join_freq b c)"
  by (cases a; cases b; cases c) (simp_all add: join_freq_def)

lemma join_freq_one:
  "join_freq (Some tf) (Some \<lparr>TermVal = k, Locations = ls, frequency = n\<rparr>) =
     Some (tf\<lparr>Locations := Locations tf @ ls, frequency := frequency tf + n\<rparr>)"
  by (simp add: join_freq_def)

lemma freq_of_Cons:
  "freq_of v p (t # ts) k =
     join_freq (if k = Term t then Some \<lparr>TermVal = k, Locations = (if v then [location_of (p + PositionIncr t, t)] else []), frequency = 1\<rparr> else None)
       (freq_of v (p + PositionIncr t) ts k)"
  by (auto simp: freq_of_def join_freq_def Let_def)

lemma freq_of_append: "freq_of v p (xs @ ys) k = join_freq (freq_of v p xs k) (freq_of v (p + sum_list (map PositionIncr xs)) ys k)"
proof (induction xs arbitrary: p)
  case Nil
  then show ?case by (simp add: freq_of_def)
next
  case (Cons x xs)
  then show ?case by (simp add: freq_of_Cons join_freq_assoc algebra_simps)
qed

lemma freq_vectors_loop:
  "freq_vectors_loop ts freqs p = (\<lambda>k. join_freq (freqs k) (freq_of True p ts k), p + sum_list (map PositionIncr ts))"
proof (induction ts freqs p rule: freq_vectors_loop.induct)
  case (1 freqs p)
  then show ?case by (simp add: freq_of_def)
next
  case (2 t ts freqs p)
  let ?tl = "location_of (p + PositionIncr t, t)"
  have loc: "\<lparr>FieldVal = '''', StartVal = Start t, EndVal = End t, PositionVal = p + PositionIncr t\<rparr> = ?tl"
    by (simp add: location_of_def)
  show ?case
  proof (cases "freqs (Term t)")
    case None
    let ?f = "freqs(Term t \<mapsto> \<lparr>TermVal = Term t, Locations = [?tl], frequency = 1\<rparr>)"
    have "freq_vectors_loop (t # ts) freqs p = freq_vectors_loop ts ?f (p + PositionIncr t)"
      using None by (simp add: Let_def loc)
    also have "\<dots> = (\<lambda>k. join_freq (?f k) (freq_of True (p + PositionIncr t) ts k), p + PositionIncr t + sum_list (map PositionIncr ts))"
      using 2(1) [OF refl refl None] by (simp only: loc)
    also have "(\<lambda>k. join_freq (?f k) (freq_of True (p + PositionIncr t) ts k)) = (\<lambda>k. join_freq (freqs k) (freq_of True p (t # ts) k))"
      using None by (intro ext) (simp add: freq_of_Cons)
    finally show ?thesis by simp
  next
    case (Some tf)
    let ?f = "freqs(Term t \<mapsto> tf\<lparr>Locations := Locations tf @ [?tl], frequency := frequency tf + 1\<rparr>)"
    have "freq_vectors_loop (t # ts) freqs p = freq_vectors_loop ts ?f (p + PositionIncr t)"
      using Some by (simp add: Let_def loc)
    also have "\<dots> = (\<lambda>k. join_freq (?f k) (freq_of True (p + PositionIncr t) ts k), p + PositionIncr t + sum_list (map PositionIncr ts))"
      using 2(2) [OF refl refl Some] by (simp only: loc)
    also have "(\<lambda>k. join_freq (?f k) (freq_of True (p + PositionIncr t) ts k)) = (\<lambda>k. join_freq (freqs k) (freq_of True p (t # ts) k))"
      using Some by (intro ext) (simp add: freq_of_Cons join_freq_assoc [symmetric] join_freq_one)
    finally show ?thesis by simp
  qed
qed

lemma freq_loop: "freq_loop ts freqs = (\<lambda>k. join_freq (freqs k) (freq_of False p ts k))"
proof (induction ts freqs arbitrary: p rule: freq_loop.induct)
  case (1 freqs)
  then show ?case by (simp add: freq_of_def)
next
  case (2 t ts freqs)
  show ?case
  proof (cases "freqs (Term t)")
    case None
    then have "freq_loop (t # ts) freqs = freq_loop ts (freqs(Term t \<mapsto> \<lparr>TermVal = Term t, Locations = [], frequency = 1\<rparr>))" by simp
    then show ?thesis
      unfolding 2(1) [OF None, of "p + PositionIncr t"] using None by (intro ext) (simp add: freq_of_Cons)
  next
    case (Some tf)
    then have "freq_loop (t # ts) freqs = freq_loop ts (freqs(Term t \<mapsto> tf\<lparr>frequency := frequency tf + 1\<rparr>))" by simp
    then show ?thesis
      unfolding 2(2) [OF Some, of "p + PositionIncr t"] using Some
      by (intro ext) (simp add: freq_of_Cons join_freq_assoc [symmetric] join_freq_one)
  qed
qed

lemma token_frequency:
  "token_frequency ts v p = (freq_of v p ts, if v then p + sum_list (map PositionIncr ts) else 0)"
  by (simp add: token_frequency_def freq_vectors_loop freq_loop [of _ _ p] fun_eq_iff)

text \<open>
  C38: The frequencies of a stream have one entry for each of its terms; it counts the tokens with
  the term and, when asked for, lists where they are, in order, at the sum of the position
  increments up to them. The last position is only reported with locations.
\<close>

theorem token_frequency_counts:
  "fst (token_frequency ts v p) k =
     (if k \<in> set (map Term ts)
      then Some \<lparr>TermVal = k,
        Locations = (if v then map location_of (filter (\<lambda>pt. Term (snd pt) = k) (placed p ts)) else []),
        frequency = int (length (filter (\<lambda>t. Term t = k) ts))\<rparr>
      else None) \<and>
   snd (token_frequency ts v p) = (if v then p + sum_list (map PositionIncr ts) else 0)"
proof -
  have "length (filter (\<lambda>pt. Term (snd pt) = k) (placed p ts)) = length (filter (\<lambda>t. Term t = k) (map snd (placed p ts)))"
    by (simp only: filter_map comp_def length_map)
  then have len: "length (filter (\<lambda>pt. Term (snd pt) = k) (placed p ts)) = length (filter (\<lambda>t. Term t = k) ts)" by simp
  then have emp: "filter (\<lambda>pt. Term (snd pt) = k) (placed p ts) = [] \<longleftrightarrow> filter (\<lambda>t. Term t = k) ts = []"
    by (metis length_0_conv)
  moreover have "filter (\<lambda>t. Term t = k) ts = [] \<longleftrightarrow> k \<notin> set (map Term ts)" by (auto simp: filter_empty_conv)
  ultimately have "filter (\<lambda>pt. Term (snd pt) = k) (placed p ts) = [] \<longleftrightarrow> k \<notin> set (map Term ts)" by simp
  then show ?thesis unfolding token_frequency by (simp add: freq_of_def Let_def len)
qed

lemma merge_one: "merge_one f k tf tfs = tfs(k := join_freq (tfs k) (Some (set_field f tf)))"
  by (cases "tfs k"; cases "set_field f tf") (simp_all add: merge_one_def join_freq_def Let_def)

lemma merge_all:
  assumes "distinct ks"
  shows "merge_all f ks other tfs k = (if k \<in> set ks then join_freq (tfs k) (Some (set_field f (the (other k)))) else tfs k)"
proof -
  have "foldl (\<lambda>tfs k. merge_one f k (the (other k)) tfs) tfs ks k =
      (if k \<in> set ks then join_freq (tfs k) (Some (set_field f (the (other k)))) else tfs k)"
    using assms by (induction ks arbitrary: tfs) (auto simp: merge_one)
  then show ?thesis by (simp add: merge_all_def)
qed

text \<open>
  Merging a field's frequencies into a composite field's does not depend on the order in which
  the map is walked: every term's count is the sum of both counts, and the field's locations follow
  those already there under the field's name.
\<close>

theorem merge_all_any_order:
  assumes "distinct ks" and "set ks = dom other"
  shows "merge_all f ks other tfs k = join_freq (tfs k) (map_option (set_field f) (other k))"
  using assms by (cases "other k") (auto simp: merge_all)

theorem merge_all_any_order_witness:
  "merge_all ''f'' [[0x61]] [[0x61] \<mapsto> \<lparr>TermVal = [0x61], Locations = [], frequency = 2\<rparr>]
     [[0x61] \<mapsto> \<lparr>TermVal = [0x61], Locations = [], frequency = 3\<rparr>] [0x61] =
   Some \<lparr>TermVal = [0x61], Locations = [], frequency = 5\<rparr>"
  by (subst merge_all_any_order) (simp_all add: join_freq_def set_field_def)

end
