(* ===== verification/Token_Filters.thy ===== *)
theory Token_Filters
  imports Analysis
begin

text \<open>
  The token filters of \<open>analysis/token\<close> that keep, drop, mark or rewrite tokens one by one: stop
  words, unique terms, lengths, keywords, truncation, apostrophes, elision, reversal and lower
  case. The Unicode tables of the Go library are arguments where the code consults them.
\<close>

section \<open>Filters that drop tokens\<close>

fun stop_loop :: "token_map \<Rightarrow> token_stream \<Rightarrow> int \<Rightarrow> token_stream" where
  "stop_loop stops [] skipped = []"
| "stop_loop stops (t # ts) skipped =
     (if Term t \<notin> stops
      then t\<lparr>PositionIncr := PositionIncr t + skipped\<rparr> # stop_loop stops ts 0
      else stop_loop stops ts (skipped + PositionIncr t))"

definition stop_filter :: "token_map \<Rightarrow> token_stream \<Rightarrow> token_stream" where
  "stop_filter stops input = stop_loop stops input 0"

fun unique_loop :: "token_stream \<Rightarrow> bytes set \<Rightarrow> int \<Rightarrow> token_stream" where
  "unique_loop [] encountered skipped = []"
| "unique_loop (t # ts) encountered skipped =
     (if Term t \<in> encountered then unique_loop ts encountered (skipped + PositionIncr t)
      else t\<lparr>PositionIncr := PositionIncr t + skipped\<rparr> # unique_loop ts (insert (Term t) encountered) 0)"

definition unique_filter :: "token_stream \<Rightarrow> token_stream" where
  "unique_filter input = unique_loop input {} 0"

fun length_loop :: "int \<Rightarrow> int \<Rightarrow> token_stream \<Rightarrow> int \<Rightarrow> token_stream" where
  "length_loop mn mx [] skipped = []"
| "length_loop mn mx (t # ts) skipped =
     (let wordLen = int (rune_count (Term t)) in
      if mn > 0 \<and> mn > wordLen then length_loop mn mx ts (skipped + PositionIncr t)
      else if mx > 0 \<and> mx < wordLen then length_loop mn mx ts (skipped + PositionIncr t)
      else (if skipped > 0 then t\<lparr>PositionIncr := PositionIncr t + skipped\<rparr> else t)
             # length_loop mn mx ts (if skipped > 0 then 0 else skipped))"

definition length_filter :: "int \<Rightarrow> int \<Rightarrow> token_stream \<Rightarrow> token_stream" where
  "length_filter mn mx input = length_loop mn mx input 0"

text \<open>The tokens of a stream at their positions: what a filter that drops tokens must not change.\<close>

definition spots :: "int \<Rightarrow> token_stream \<Rightarrow> (int \<times> token) list" where
  "spots p ts = map (\<lambda>(q, t). (q, t\<lparr>PositionIncr := 0\<rparr>)) (placed p ts)"

lemma spots_simps [simp]:
  "spots p [] = []" "spots p (t # ts) = (p + PositionIncr t, t\<lparr>PositionIncr := 0\<rparr>) # spots (p + PositionIncr t) ts"
  by (simp_all add: spots_def)

lemma stop_loop_spots: "spots p (stop_loop stops ts k) = filter (\<lambda>(q, t). Term t \<notin> stops) (spots (p + k) ts)"
proof (induction stops ts k arbitrary: p rule: stop_loop.induct)
  case (2 stops t ts skipped)
  then show ?case by (simp add: algebra_simps)
qed simp

text \<open>
  C30: Removing stop words keeps every other token at the position it had, in order: the skipped
  increments go to the next kept token.
\<close>

theorem stop_filter_spots: "spots p (stop_filter stops ts) = filter (\<lambda>(q, t). Term t \<notin> stops) (spots p ts)"
  by (simp add: stop_filter_def stop_loop_spots)

text \<open>The frequencies of a field only depend on where its tokens are.\<close>

lemma freq_of_spots:
  "freq_of v p ts k =
     (let occ = filter (\<lambda>pt. Term (snd pt) = k) (spots p ts) in
      if occ = [] then None
      else Some \<lparr>TermVal = k, Locations = (if v then map location_of occ else []), frequency = int (length occ)\<rparr>)"
proof -
  have "filter (\<lambda>pt. Term (snd pt) = k) (spots p ts) =
      map (\<lambda>(q, t). (q, t\<lparr>PositionIncr := 0\<rparr>)) (filter (\<lambda>pt. Term (snd pt) = k) (placed p ts))"
    by (simp add: spots_def filter_map comp_def split_def)
  moreover have "location_of (q, t\<lparr>PositionIncr := 0\<rparr>) = location_of (q, t)" for q t by (simp add: location_of_def)
  ultimately show ?thesis by (simp add: freq_of_def Let_def comp_def split_def)
qed

text \<open>
  The frequencies and locations of a field indexed through a stop filter are those of the whole
  field with the entries of the stop words left out.
\<close>

theorem stop_filter_frequencies:
  "fst (token_frequency (stop_filter stops ts) v p) = (fst (token_frequency ts v p)) |` (- stops)"
proof
  fix k
  have "filter (\<lambda>pt. Term (snd pt) = k) (spots p (stop_loop stops ts 0)) =
      (if k \<in> stops then [] else filter (\<lambda>pt. Term (snd pt) = k) (spots p ts))"
    by (auto simp: stop_loop_spots split_def filter_empty_conv intro: filter_cong)
  then show "fst (token_frequency (stop_filter stops ts) v p) k = ((fst (token_frequency ts v p)) |` (- stops)) k"
    by (simp add: token_frequency freq_of_spots stop_filter_def restrict_map_def)
qed

lemma length_spots [simp]: "length (spots p ts) = length ts"
  by (simp add: spots_def)

lemma upt_Suc_Cons: "[0..<Suc n] = 0 # map Suc [0..<n]"
  by (simp add: upt_conv_Cons map_Suc_upt)

lemma unique_loop_spots:
  "spots p (unique_loop ts seen k) =
     map (nth (spots (p + k) ts)) (filter (\<lambda>i. Term (ts ! i) \<notin> seen \<union> set (map Term (take i ts))) [0..<length ts])"
proof (induction ts seen k arbitrary: p rule: unique_loop.induct)
  case (2 t ts seen k)
  have split: "map (nth (spots (p + k) (t # ts))) (filter (\<lambda>i. Term ((t # ts) ! i) \<notin> seen \<union> set (map Term (take i (t # ts)))) [0..<length (t # ts)]) =
      (if Term t \<in> seen then [] else [(p + k + PositionIncr t, t\<lparr>PositionIncr := 0\<rparr>)]) @
      map (nth (spots (p + k + PositionIncr t) ts)) (filter (\<lambda>i. Term (ts ! i) \<notin> insert (Term t) seen \<union> set (map Term (take i ts))) [0..<length ts])"
    unfolding length_Cons upt_Suc_Cons by (simp add: filter_map comp_def conj_ac)
  show ?case
  proof (cases "Term t \<in> seen")
    case True
    then show ?thesis using 2(1) [OF True, of p] unfolding split by (simp add: insert_absorb algebra_simps)
  next
    case False
    then show ?thesis using 2(2) [OF False, of "p + k + PositionIncr t"] unfolding split by (simp add: algebra_simps)
  qed
qed simp

lemma unique_loop_distinct: "distinct (map Term (unique_loop ts seen k)) \<and> set (map Term (unique_loop ts seen k)) = set (map Term ts) - seen"
  by (induction ts seen k rule: unique_loop.induct) auto

text \<open>
  The unique filter keeps exactly the first token of every term, at the position it had.
\<close>

theorem unique_filter_firsts:
  "spots p (unique_filter ts) =
     map (nth (spots p ts)) (filter (\<lambda>i. Term (ts ! i) \<notin> set (map Term (take i ts))) [0..<length ts]) \<and>
   distinct (map Term (unique_filter ts)) \<and> set (map Term (unique_filter ts)) = set (map Term ts)"
  using unique_loop_spots [of p ts "{}" 0] unique_loop_distinct [of ts "{}" 0] by (simp add: unique_filter_def)

text \<open>
  The length filter only passes increments on that are positive in sum; on streams whose
  increments are not negative it keeps positions as the other filters do.
\<close>

lemma length_loop_spots:
  assumes "0 \<le> k" "\<forall>t\<in>set ts. 0 \<le> PositionIncr t"
  shows "spots p (length_loop mn mx ts k) =
    filter (\<lambda>(q, t). (mn \<le> 0 \<or> mn \<le> int (rune_count (Term t))) \<and> (mx \<le> 0 \<or> int (rune_count (Term t)) \<le> mx)) (spots (p + k) ts)"
  using assms
proof (induction mn mx ts k arbitrary: p rule: length_loop.induct)
  case (2 mn mx t ts k)
  let ?n = "int (rune_count (Term t))"
  have pos: "0 \<le> k + PositionIncr t" "\<forall>t\<in>set ts. 0 \<le> PositionIncr t" using 2(4,5) by simp_all
  consider "mn > 0 \<and> mn > ?n" | "\<not> (mn > 0 \<and> mn > ?n)" "mx > 0 \<and> mx < ?n" | "\<not> (mn > 0 \<and> mn > ?n)" "\<not> (mx > 0 \<and> mx < ?n)" by blast
  then show ?case
  proof cases
    case 1
    then show ?thesis using 2(1) [OF refl 1 pos, of p] by (simp add: Let_def algebra_simps)
  next
    case c: 2
    then show ?thesis using 2(2) [OF refl c pos, of p] by (auto simp: Let_def algebra_simps)
  next
    case c: 3
    have "spots (p + k + PositionIncr t) (length_loop mn mx ts (if k > 0 then 0 else k)) =
        filter (\<lambda>(q, t). (mn \<le> 0 \<or> mn \<le> int (rune_count (Term t))) \<and> (mx \<le> 0 \<or> int (rune_count (Term t)) \<le> mx)) (spots (p + k + PositionIncr t) ts)"
      using 2(3) [OF refl c, of "p + k + PositionIncr t"] pos(2) 2(4) by simp
    then show ?thesis using c 2(4) by (auto simp: Let_def algebra_simps)
  qed
qed simp

text \<open>
  The length filter keeps exactly the tokens whose number of runes is within the bounds that
  are set, each at its position, on streams without negative increments.
\<close>

theorem length_filter_spots:
  assumes "\<forall>t\<in>set ts. 0 \<le> PositionIncr t"
  shows "spots p (length_filter mn mx ts) =
    filter (\<lambda>(q, t). (mn \<le> 0 \<or> mn \<le> int (rune_count (Term t))) \<and> (mx \<le> 0 \<or> int (rune_count (Term t)) \<le> mx)) (spots p ts)"
  using length_loop_spots [OF order_refl assms, of p] by (simp add: length_filter_def)

definition plain_token :: "bytes \<Rightarrow> int \<Rightarrow> int \<Rightarrow> int \<Rightarrow> token" where
  "plain_token t s e incr = \<lparr>Start = s, End = e, Term = t, PositionIncr = incr, Type = AlphaNumeric, KeyWord = False\<rparr>"

theorem length_filter_spots_witness:
  "map fst (spots 0 (length_filter 2 0 [plain_token [0x61] 0 1 1, plain_token [0x62, 0x63] 2 4 1])) = [2]"
proof -
  have "\<forall>t\<in>set [plain_token [0x61] 0 1 1, plain_token [0x62, 0x63] 2 4 1]. 0 \<le> PositionIncr t"
    by (simp add: plain_token_def)
  from length_filter_spots [OF this, of 0 2 0] show ?thesis
    by (simp add: plain_token_def rune_count_def runes_ascii)
qed

section \<open>Filters that rewrite tokens\<close>

definition keyword_marker_filter :: "token_map \<Rightarrow> token_stream \<Rightarrow> token_stream" where
  "keyword_marker_filter keyWords input = map (\<lambda>t. if Term t \<in> keyWords then t\<lparr>KeyWord := True\<rparr> else t) input"

definition truncate_filter :: "nat \<Rightarrow> token_stream \<Rightarrow> token_stream" where
  "truncate_filter len input =
     map (\<lambda>t. let wordLen = rune_count (Term t) in
       if wordLen > len then t\<lparr>Term := truncate_runes (Term t) (wordLen - len)\<rparr> else t) input"

text \<open>\<open>bytes.IndexAny\<close>: where the first of the runes is.\<close>

function index_any :: "bytes \<Rightarrow> rune set \<Rightarrow> nat \<Rightarrow> nat option" where
  "index_any bs chars i =
     (if bs = [] then None
      else let (r, n) = decode_rune bs in
        if r \<in> chars then Some i else index_any (drop n bs) chars (i + n))"
  by pat_completeness auto
termination
  by (relation "measure (\<lambda>(bs, _, _). length bs)") (use decode_size in \<open>auto simp: Suc_le_eq dest!: arg_cong [where f = snd]\<close>)

declare index_any.simps [simp del]

definition Apostrophe :: rune where
  "Apostrophe = 0x27"

definition RightSingleQuotationMark :: rune where
  "RightSingleQuotationMark = 0x2019"

definition apostrophe_filter :: "token_stream \<Rightarrow> token_stream" where
  "apostrophe_filter input =
     map (\<lambda>t. case index_any (Term t) {Apostrophe, RightSingleQuotationMark} 0 of
         None \<Rightarrow> t
       | Some firstApostrophe \<Rightarrow> t\<lparr>Term := take firstApostrophe (Term t)\<rparr>) input"

text \<open>The loop of the elision filter over a term, from byte \<open>i\<close>.\<close>

function elide_loop :: "token_map \<Rightarrow> bytes \<Rightarrow> nat \<Rightarrow> bytes" where
  "elide_loop articles term i =
     (if i < length term then
        let (r, size) = decode_rune (drop i term) in
        if (r = Apostrophe \<or> r = RightSingleQuotationMark) \<and> take i term \<in> articles
        then drop (i + size) term
        else elide_loop articles term (i + size)
      else term)"
  by pat_completeness auto
termination
proof (relation "measure (\<lambda>(_, term, i). length term - i)")
  fix articles :: token_map and "term" :: bytes and i x r size
  assume "i < length term" "x = decode_rune (drop i term)" "(r, size) = x"
  moreover have "1 \<le> snd (decode_rune (drop i term))" using calculation(1) by (intro decode_size) simp
  moreover have "size = snd (decode_rune (drop i term))" using calculation(2,3) by (metis snd_conv)
  ultimately show "((articles, term, i + size), articles, term, i) \<in> measure (\<lambda>(_, term, i). length term - i)"
    by simp
qed simp

declare elide_loop.simps [simp del]

definition elision_filter :: "token_map \<Rightarrow> token_stream \<Rightarrow> token_stream" where
  "elision_filter articles input = map (\<lambda>t. t\<lparr>Term := elide_loop articles (Term t) 0\<rparr>) input"

text \<open>On valid UTF-8 these filters work on the runes of a term.\<close>

lemma index_any_encode:
  "\<forall>r\<in>set rs. valid_rune r \<Longrightarrow>
   index_any (encode_runes rs) chars i =
     (if set rs \<inter> chars = {} then None else Some (i + length (encode_runes (takeWhile (\<lambda>r. r \<notin> chars) rs))))"
proof (induction rs arbitrary: i)
  case Nil
  then show ?case by (subst index_any.simps) simp
next
  case (Cons r rs)
  then show ?case by (subst index_any.simps) (auto simp: decode_encode)
qed

lemma apostrophe_term:
  assumes "valid_utf8 w"
  shows "(case index_any w {Apostrophe, RightSingleQuotationMark} 0 of None \<Rightarrow> w | Some i \<Rightarrow> take i w) =
    encode_runes (takeWhile (\<lambda>r. r \<noteq> Apostrophe \<and> r \<noteq> RightSingleQuotationMark) (runes w))"
proof -
  define C where "C = {Apostrophe, RightSingleQuotationMark}"
  define T where "T = takeWhile (\<lambda>r. r \<notin> C) (runes w)"
  have w: "encode_runes (runes w) = w" using assms by (simp add: valid_utf8_def)
  have "index_any (encode_runes (runes w)) C 0 = (if set (runes w) \<inter> C = {} then None else Some (0 + length (encode_runes T)))"
    unfolding T_def by (rule index_any_encode) (simp add: runes_valid)
  then have ia: "index_any w C 0 = (if set (runes w) \<inter> C = {} then None else Some (length (encode_runes T)))" unfolding w by simp
  have "encode_runes (T @ dropWhile (\<lambda>r. r \<notin> C) (runes w)) = w" unfolding T_def takeWhile_dropWhile_id by (rule w)
  then have "take (length (encode_runes T)) w = encode_runes T" by (metis append_eq_conv_conj encode_runes_simps(3))
  moreover have "T = runes w" if "set (runes w) \<inter> C = {}"
    unfolding T_def using that by (subst takeWhile_eq_all_conv) auto
  ultimately have "(case index_any w C 0 of None \<Rightarrow> w | Some i \<Rightarrow> take i w) = encode_runes T"
    unfolding ia using w by (cases "set (runes w) \<inter> C = {}") simp_all
  then show ?thesis by (simp add: T_def C_def)
qed

lemma elide_loop_runes:
  assumes "\<forall>r\<in>set (ps @ rs). valid_rune r"
  shows "elide_loop articles (encode_runes (ps @ rs)) (length (encode_runes ps)) =
    (case rs of [] \<Rightarrow> encode_runes ps
     | r # rs' \<Rightarrow> if (r = Apostrophe \<or> r = RightSingleQuotationMark) \<and> encode_runes ps \<in> articles then encode_runes rs'
       else elide_loop articles (encode_runes (ps @ rs)) (length (encode_runes (ps @ [r]))))"
proof (cases rs)
  case Nil
  then show ?thesis by (subst elide_loop.simps) simp
next
  case (Cons r rs')
  then have "decode_rune (encode_rune r @ encode_runes rs') = (r, length (encode_rune r))" using assms by (simp add: decode_encode)
  then show ?thesis using Cons by (subst elide_loop.simps) (auto simp: Let_def)
qed

text \<open>Rune \<open>k\<close> is an apostrophe behind an article.\<close>

definition elides :: "token_map \<Rightarrow> rune list \<Rightarrow> nat \<Rightarrow> bool" where
  "elides articles rs k \<longleftrightarrow>
     k < length rs \<and> (rs ! k = Apostrophe \<or> rs ! k = RightSingleQuotationMark) \<and> encode_runes (take k rs) \<in> articles"

lemma elide_step:
  assumes "valid_utf8 w" "k < length (runes w)"
  shows "elide_loop articles w (length (encode_runes (take k (runes w)))) =
    (if elides articles (runes w) k then encode_runes (drop (Suc k) (runes w))
     else elide_loop articles w (length (encode_runes (take (Suc k) (runes w)))))"
proof -
  have "runes w = take k (runes w) @ runes w ! k # drop (Suc k) (runes w)" using assms(2) by (simp add: id_take_nth_drop [symmetric])
  moreover have "take (Suc k) (runes w) = take k (runes w) @ [runes w ! k]" using assms(2) by (simp add: take_Suc_conv_app_nth)
  moreover have "\<forall>r\<in>set (runes w). valid_rune r" by (simp add: runes_valid)
  ultimately show ?thesis
    using elide_loop_runes [of "take k (runes w)" "runes w ! k # drop (Suc k) (runes w)" articles] assms
    by (simp add: elides_def valid_utf8_def)
qed

lemma elide_skip:
  assumes "valid_utf8 w" "n \<le> length (runes w)" "\<forall>k. k < n \<longrightarrow> \<not> elides articles (runes w) k"
  shows "elide_loop articles w 0 = elide_loop articles w (length (encode_runes (take n (runes w))))"
  using assms(2,3)
proof (induction n)
  case (Suc n)
  then have "elide_loop articles w 0 = elide_loop articles w (length (encode_runes (take n (runes w))))" by simp
  also have "\<dots> = elide_loop articles w (length (encode_runes (take (Suc n) (runes w))))"
    using elide_step [OF assms(1), of n articles] Suc.prems by simp
  finally show ?case .
qed simp

lemma elides_split:
  "runes w = ps @ q # rs \<Longrightarrow> elides articles (runes w) (length ps) \<longleftrightarrow> (q = Apostrophe \<or> q = RightSingleQuotationMark) \<and> encode_runes ps \<in> articles"
  by (simp add: elides_def)

text \<open>
  Elision removes an article and the apostrophe after it, and only there: a term is either left
  alone, when no apostrophe in it follows an article, or it is cut after the first that does.
\<close>

theorem elide_term:
  assumes "valid_utf8 w"
  shows "elide_loop articles w 0 = w \<and> (\<forall>k. \<not> elides articles (runes w) k) \<or>
    (\<exists>k. elides articles (runes w) k \<and> (\<forall>j. j < k \<longrightarrow> \<not> elides articles (runes w) j) \<and>
      elide_loop articles w 0 = encode_runes (drop (Suc k) (runes w)))"
proof (cases "\<exists>k. elides articles (runes w) k")
  case True
  define k where "k = (LEAST k. elides articles (runes w) k)"
  have k: "elides articles (runes w) k" unfolding k_def by (rule LeastI_ex) (rule True)
  have min: "\<forall>j. j < k \<longrightarrow> \<not> elides articles (runes w) j" using not_less_Least unfolding k_def by blast
  have "k < length (runes w)" using k by (simp add: elides_def)
  then have "elide_loop articles w 0 = encode_runes (drop (Suc k) (runes w))"
    using elide_skip [OF assms _ min] elide_step [OF assms, of k articles] k by simp
  then show ?thesis using k min by blast
next
  case False
  have "elide_loop articles w (length (encode_runes (runes w))) = w"
    using assms by (subst elide_loop.simps) (simp add: valid_utf8_def)
  then show ?thesis using elide_skip [OF assms order_refl, of articles] False by simp
qed

theorem elide_term_witness: "elide_loop {[0x6C]} [0x6C, 0x27, 0x61] 0 = [0x61]"
proof -
  have v: "valid_utf8 [0x6C, 0x27, 0x61]" by code_simp
  have r: "runes [0x6C, 0x27, 0x61] = [0x6C, 0x27, 0x61]" by code_simp
  have "elide_loop {[0x6C]} [0x6C, 0x27, 0x61] 0 \<noteq> [0x6C, 0x27, 0x61]" by code_simp
  then obtain k where k: "elides {[0x6C]} [0x6C, 0x27, 0x61] k"
    "elide_loop {[0x6C]} [0x6C, 0x27, 0x61] 0 = encode_runes (drop (Suc k) [0x6C, 0x27, 0x61])"
    using elide_term [OF v, of "{[0x6C]}"] unfolding r by blast
  then have "k = 1" by (auto simp: elides_def less_Suc_eq Apostrophe_def RightSingleQuotationMark_def)
  then show ?thesis using k(2) by (simp add: encode_rune_def valid_rune_def byte_of_def)
qed

end
