(* ===== verification/Lower_Reverse.thy ===== *)
theory Lower_Reverse
  imports Token_Filters
begin

text \<open>
  The filters of \<open>analysis/token\<close> that rewrite a term in a buffer: \<open>reverse.go\<close>, which turns
  the runes of a term around and keeps marks behind their rune, and \<open>lowercase.go\<close>, which lowers
  a term in place. Which runes are marks and their lower case are arguments.
\<close>

section \<open>Writing into a buffer\<close>

text \<open>Writing \<open>e\<close> at \<open>j\<close>; past the end it panics.\<close>

definition overwrite :: "bytes \<Rightarrow> nat \<Rightarrow> bytes \<Rightarrow> bytes option" where
  "overwrite s j e = (if j + length e \<le> length s then Some (take j s @ e @ drop (j + length e) s) else None)"

lemma overwrite_length: "overwrite s j e = Some s' \<Longrightarrow> length s' = length s"
  by (auto simp: overwrite_def split: if_splits)

section \<open>Reversal\<close>

function reverse_loop :: "(rune \<Rightarrow> bool) \<Rightarrow> rune list \<Rightarrow> bytes \<Rightarrow> int \<Rightarrow> int \<Rightarrow> bytes \<Rightarrow> bytes option" where
  "reverse_loop is_mark [] s cursorIn cursorOut output = Some output"
| "reverse_loop is_mark (r # rs) s cursorIn cursorOut output =
     (let wid = rune_len r + sum_list (map rune_len (takeWhile is_mark rs)) in
      if cursorOut - wid < 0 \<or> cursorIn + wid > int (length s) then None
      else case overwrite output (nat (cursorOut - wid)) (take (nat wid) (drop (nat cursorIn) s)) of
          None \<Rightarrow> None
        | Some output \<Rightarrow> reverse_loop is_mark (dropWhile is_mark rs) s (cursorIn + wid) (cursorOut - wid) output)"
  by pat_completeness auto
termination
  by (relation "measure (\<lambda>(_, rs, _). length rs)") (auto simp: length_dropWhile_le less_Suc_eq_le)

definition reverse_term :: "(rune \<Rightarrow> bool) \<Rightarrow> bytes \<Rightarrow> bytes option" where
  "reverse_term is_mark s =
     reverse_loop is_mark (runes s) s 0 (int (length s)) (replicate (length s) 0)"

definition reverse_filter :: "(rune \<Rightarrow> bool) \<Rightarrow> token_stream \<Rightarrow> token_stream option" where
  "reverse_filter is_mark input =
     those (map (\<lambda>t. map_option (\<lambda>w. t\<lparr>Term := w\<rparr>) (reverse_term is_mark (Term t))) input)"

text \<open>A rune with the marks after it.\<close>

function clusters :: "(rune \<Rightarrow> bool) \<Rightarrow> rune list \<Rightarrow> rune list list" where
  "clusters is_mark [] = []"
| "clusters is_mark (r # rs) = (r # takeWhile is_mark rs) # clusters is_mark (dropWhile is_mark rs)"
  by pat_completeness auto
termination
  by (relation "measure (\<lambda>(_, rs). length rs)") (auto simp: length_dropWhile_le less_Suc_eq_le)

lemma concat_clusters [simp]: "concat (clusters is_mark rs) = rs"
  by (induction is_mark rs rule: clusters.induct) simp_all

lemma sum_rune_len: "\<forall>r\<in>set rs. valid_rune r \<Longrightarrow> sum_list (map rune_len rs) = int (length (encode_runes rs))"
  by (induction rs) (simp_all add: length_encode_rune)

lemma reverse_loop:
  assumes "\<forall>r\<in>set rs. valid_rune r" "s = pre @ encode_runes rs" "length out = length s"
  shows "reverse_loop is_mark rs s (int (length pre)) (int (length (encode_runes rs))) out =
    Some (encode_runes (concat (rev (clusters is_mark rs))) @ drop (length (encode_runes rs)) out)"
  using assms
proof (induction is_mark rs arbitrary: pre out rule: clusters.induct)
  case (2 is_mark r rs)
  let ?g = "r # takeWhile is_mark rs" and ?rest = "dropWhile is_mark rs"
  let ?co = "length (encode_runes (r # rs))" and ?w = "length (encode_runes ?g)" and ?n = "length (encode_runes ?rest)"
  have rs: "r # rs = ?g @ ?rest" by simp
  have v: "\<forall>r\<in>set ?g. valid_rune r" "\<forall>r\<in>set ?rest. valid_rune r"
    using 2(2) set_takeWhileD [of _ is_mark rs] set_dropWhileD [of _ is_mark rs] by auto
  have wid: "rune_len r + sum_list (map rune_len (takeWhile is_mark rs)) = int ?w"
    using sum_rune_len [OF v(1)] by simp
  have co: "?co = ?w + ?n" by (subst rs, subst encode_runes_simps(3)) simp
  have s: "s = (pre @ encode_runes ?g) @ encode_runes ?rest" using 2(3) by (subst (asm) rs, subst (asm) encode_runes_simps(3)) simp
  then have len: "length s = length pre + ?w + ?n" by simp
  have chunk: "take ?w (drop (length pre) s) = encode_runes ?g" unfolding s by simp
  let ?out = "take ?n out @ encode_runes ?g @ drop ?co out"
  have "overwrite out ?n (encode_runes ?g) = Some ?out" using 2(4) len co by (simp add: overwrite_def ac_simps)
  then have "reverse_loop is_mark (r # rs) s (int (length pre)) (int ?co) out =
      reverse_loop is_mark ?rest s (int (length (pre @ encode_runes ?g))) (int ?n) ?out"
    unfolding reverse_loop.simps Let_def wid using chunk len co by (simp add: nat_add_distrib)
  also have "\<dots> = Some (encode_runes (concat (rev (clusters is_mark ?rest))) @ drop ?n ?out)"
    by (rule 2(1)) (use v(2) s 2(4) len co in auto)
  also have "drop ?n ?out = encode_runes ?g @ drop ?co out" using 2(4) len by simp
  finally show ?case by simp
qed simp

lemma reverse_term:
  assumes "valid_utf8 s"
  shows "reverse_term is_mark s = Some (encode_runes (concat (rev (clusters is_mark (runes s)))))"
proof -
  have s: "encode_runes (runes s) = s" using assms by (simp add: valid_utf8_def)
  show ?thesis
    using reverse_loop [of "runes s" s "[]" "replicate (length s) 0" is_mark] s runes_valid
    by (auto simp: reverse_term_def)
qed

definition cluster :: "(rune \<Rightarrow> bool) \<Rightarrow> rune list \<Rightarrow> bool" where
  "cluster is_mark g \<longleftrightarrow> g \<noteq> [] \<and> \<not> is_mark (hd g) \<and> (\<forall>r\<in>set (tl g). is_mark r)"

lemma clusters_cluster:
  "rs = [] \<or> \<not> is_mark (hd rs) \<Longrightarrow> g \<in> set (clusters is_mark rs) \<Longrightarrow> cluster is_mark g"
proof (induction is_mark rs rule: clusters.induct)
  case (2 is_mark r rs)
  have "dropWhile is_mark rs = [] \<or> \<not> is_mark (hd (dropWhile is_mark rs))" using hd_dropWhile by blast
  then show ?case using 2 by (auto simp: cluster_def dest: set_takeWhileD)
qed simp

lemma clusters_concat: "\<forall>g\<in>set gs. cluster is_mark g \<Longrightarrow> clusters is_mark (concat gs) = gs"
proof (induction gs)
  case (Cons g gs)
  obtain r ms where g: "g = r # ms" "\<not> is_mark r" "\<forall>m\<in>set ms. is_mark m"
    using Cons.prems by (cases g) (auto simp: cluster_def)
  have hd: "concat gs = [] \<or> \<not> is_mark (hd (concat gs))"
    using Cons.prems by (cases gs) (auto simp: cluster_def hd_append)
  have "takeWhile is_mark (concat gs) = []" "dropWhile is_mark (concat gs) = concat gs" using hd
    unfolding takeWhile_eq_Nil_iff dropWhile_eq_self_iff by - assumption+
  then have "takeWhile is_mark (ms @ concat gs) = ms" "dropWhile is_mark (ms @ concat gs) = concat gs"
    using g(3) by (simp_all add: takeWhile_append2 dropWhile_append2)
  then show ?case using Cons g by simp
qed simp

text \<open>
  C33: Reversing a valid term twice gives it back, unless it starts with a mark; the first reversal
  has the same runes with every mark still behind its rune.
\<close>

theorem reverse_reverse:
  assumes "valid_utf8 s" and "runes s = [] \<or> \<not> is_mark (hd (runes s))"
  shows "\<exists>s'. reverse_term is_mark s = Some s' \<and> reverse_term is_mark s' = Some s \<and>
    runes s' = concat (rev (clusters is_mark (runes s)))"
proof -
  let ?s' = "encode_runes (concat (rev (clusters is_mark (runes s))))"
  have "set (concat (rev (clusters is_mark (runes s)))) = set (concat (clusters is_mark (runes s)))" by (simp only: set_concat set_rev)
  then have v: "\<forall>r\<in>set (concat (rev (clusters is_mark (runes s)))). valid_rune r" by (simp add: runes_valid del: set_concat)
  then have r: "runes ?s' = concat (rev (clusters is_mark (runes s)))" by (rule runes_encode)
  have "clusters is_mark (concat (rev (clusters is_mark (runes s)))) = rev (clusters is_mark (runes s))"
    using assms(2) by (intro clusters_concat) (auto intro: clusters_cluster)
  then have "reverse_term is_mark ?s' = Some (encode_runes (runes s))"
    using reverse_term [of ?s' is_mark] v by (simp add: r)
  then show ?thesis using reverse_term [OF assms(1), of is_mark] r assms(1) by (simp add: valid_utf8_def)
qed

theorem reverse_reverse_witness:
  "\<exists>s'. reverse_term (\<lambda>r. r = 0x301) [0x65, 0xCC, 0x81, 0x66] = Some s' \<and>
     reverse_term (\<lambda>r. r = 0x301) s' = Some [0x65, 0xCC, 0x81, 0x66] \<and> runes s' = [0x66, 0x65, 0x301]"
proof -
  have r: "runes [0x65, 0xCC, 0x81, 0x66] = [0x65, 0x301, 0x66]" by code_simp
  have v: "valid_utf8 [0x65, 0xCC, 0x81, 0x66]" by code_simp
  have h: "runes [0x65, 0xCC, 0x81, 0x66] = [] \<or> \<not> (hd (runes [0x65, 0xCC, 0x81, 0x66]) = 0x301)" by (simp add: r)
  have c: "concat (rev (clusters (\<lambda>r. r = 0x301) [0x65, 0x301, 0x66])) = [0x66, 0x65, 0x301]" by simp
  show ?thesis using reverse_reverse [OF v, of "\<lambda>r. r = 0x301"] h unfolding r c by simp
qed

text \<open>
  A term with a byte that decodes to nothing makes the reversal panic when too little room is
  left: the code takes the width of the replacement rune, three, for one byte.
\<close>

theorem reverse_invalid_panics:
  assumes "\<not> is_mark rune_error" and "0x80 \<le> uint b"
  shows "reverse_term is_mark [b] = None"
proof -
  have "decode_rune [b] = (rune_error, 1)" using assms(2) by (simp add: decode_rune_def)
  then have "runes [b] = [rune_error]" by (simp add: runes_Cons)
  then show ?thesis by (simp add: reverse_term_def rune_len_def rune_error_def valid_rune_def)
qed

theorem reverse_invalid_panics_witness: "reverse_term (\<lambda>r. False) [0xFF] = None"
  by (rule reverse_invalid_panics) simp_all

section \<open>Lower case\<close>

definition bytes_to_lower :: "(rune \<Rightarrow> rune) \<Rightarrow> bytes \<Rightarrow> bytes" where
  "bytes_to_lower to_lower s = encode_runes (map to_lower (runes s))"

lemma ascii_fast:
  "i < length s \<Longrightarrow> (if uint (s ! i) < 0x80 then (uint (s ! i), 1) else decode_rune (drop i s)) = decode_rune (drop i s)"
  by (simp add: Cons_nth_drop_Suc [symmetric] decode_rune_def)

text \<open>\<open>toLowerDeferredCopy\<close>: reading at \<open>i\<close>, writing at \<open>j\<close>, in the same bytes.\<close>

function lower_loop :: "(rune \<Rightarrow> rune) \<Rightarrow> bytes \<Rightarrow> nat \<Rightarrow> nat \<Rightarrow> bytes option" where
  "lower_loop to_lower s i j =
     (if i < length s then
        let (r, wid) = (if uint (s ! i) < 0x80 then (uint (s ! i), 1) else decode_rune (drop i s));
            l = to_lower r in
        if l = r then lower_loop to_lower s (i + wid) (j + wid)
        else
          let l = (if l = 0x3C3 \<and> i + 2 = length s then 0x3C2 else l) in
          if rune_len l > int wid then Some (take j s @ bytes_to_lower to_lower (drop i s))
          else case overwrite s j (encode_rune l) of
              None \<Rightarrow> None
            | Some s \<Rightarrow> lower_loop to_lower s (i + wid) (nat (int j + rune_len l))
      else Some (take j s))"
  by pat_completeness auto

termination
proof (relation "measure (\<lambda>(_, s, i, _). length s - i)", goal_cases)
  case 1
  show ?case by simp
next
  case (2 to_lower s i j x r wid l)
  then have "wid = snd (decode_rune (drop i s))" unfolding ascii_fast [OF 2(1)] by (metis snd_conv)
  moreover have "1 \<le> snd (decode_rune (drop i s))" using 2(1) by (intro decode_size) simp
  ultimately show ?case using 2(1) by simp
next
  case (3 to_lower s i j x r wid l l' s')
  then have "wid = snd (decode_rune (drop i s))" unfolding ascii_fast [OF 3(1)] by (metis snd_conv)
  moreover have "1 \<le> snd (decode_rune (drop i s))" using 3(1) by (intro decode_size) simp
  ultimately show ?case using 3(1) overwrite_length [OF 3(8)] by simp
qed

declare lower_loop.simps [simp del]

definition to_lower_deferred_copy :: "(rune \<Rightarrow> rune) \<Rightarrow> bytes \<Rightarrow> bytes option" where
  "to_lower_deferred_copy to_lower s = lower_loop to_lower s 0 0"

definition lower_case_filter :: "(rune \<Rightarrow> rune) \<Rightarrow> token_stream \<Rightarrow> token_stream option" where
  "lower_case_filter to_lower input =
     those (map (\<lambda>t. map_option (\<lambda>w. t\<lparr>Term := w\<rparr>) (to_lower_deferred_copy to_lower (Term t))) input)"

lemma lower_loop_step:
  assumes "valid_rune r" and "s = pre @ encode_rune r @ post"
  shows "lower_loop to_lower s (length pre) j =
    (let l = to_lower r in
     if l = r then lower_loop to_lower s (length pre + length (encode_rune r)) (j + length (encode_rune r))
     else
       let l = (if l = 0x3C3 \<and> length pre + 2 = length s then 0x3C2 else l) in
       if rune_len l > rune_len r then Some (take j s @ bytes_to_lower to_lower (encode_rune r @ post))
       else case overwrite s j (encode_rune l) of
           None \<Rightarrow> None
         | Some s \<Rightarrow> lower_loop to_lower s (length pre + length (encode_rune r)) (nat (int j + rune_len l)))"
proof -
  have i: "length pre < length s" unfolding assms(2) by simp
  have "decode_rune (drop (length pre) s) = (r, length (encode_rune r))" unfolding assms(2) using assms(1) by (simp add: decode_encode)
  moreover have "drop (length pre) s = encode_rune r @ post" unfolding assms(2) by simp
  moreover have "int (length (encode_rune r)) = rune_len r" using assms(1) length_encode_rune by simp
  moreover have "(if uint (s ! length pre) < 0x80 then (uint (s ! length pre), 1) else decode_rune (drop (length pre) s)) = (r, length (encode_rune r))"
    using ascii_fast [OF i] calculation(1) by (rule trans)
  ultimately show ?thesis
    by (subst lower_loop.simps) (simp only: i if_True Let_def prod.case)
qed

lemma lower_loop_same:
  assumes "\<forall>r. valid_rune r \<longrightarrow> valid_rune (to_lower r)"
    and "\<forall>r\<in>set rs. valid_rune r \<and> rune_len r \<le> rune_len (to_lower r) \<and> (to_lower r = 0x3C3 \<longrightarrow> r = 0x3C3)"
  shows "lower_loop to_lower (pre @ encode_runes rs) (length pre) (length pre) = Some (pre @ encode_runes (map to_lower rs))"
  using assms(2)
proof (induction rs arbitrary: pre)
  case Nil
  then show ?case by (subst lower_loop.simps) simp
next
  case (Cons r rs)
  have v: "valid_rune r" "rune_len r \<le> rune_len (to_lower r)" "to_lower r = 0x3C3 \<longrightarrow> r = 0x3C3" "valid_rune (to_lower r)"
    using Cons.prems assms(1) by auto
  have IH: "lower_loop to_lower (pre' @ encode_runes rs) (length pre') (length pre') = Some (pre' @ encode_runes (map to_lower rs))" for pre'
    using Cons by simp
  have step: "lower_loop to_lower (pre @ encode_runes (r # rs)) (length pre) (length pre) =
    (if to_lower r = r then lower_loop to_lower (pre @ encode_runes (r # rs)) (length pre + length (encode_rune r)) (length pre + length (encode_rune r))
     else if rune_len (to_lower r) > rune_len r then Some (pre @ bytes_to_lower to_lower (encode_runes (r # rs)))
     else case overwrite (pre @ encode_runes (r # rs)) (length pre) (encode_rune (to_lower r)) of None \<Rightarrow> None
       | Some s \<Rightarrow> lower_loop to_lower s (length pre + length (encode_rune r)) (nat (int (length pre) + rune_len (to_lower r))))"
    using lower_loop_step [OF v(1), of "pre @ encode_runes (r # rs)" pre "encode_runes rs" to_lower "length pre"] v(3) by (auto simp: Let_def)
  consider "to_lower r = r" | "to_lower r \<noteq> r" "rune_len (to_lower r) > rune_len r" | "to_lower r \<noteq> r" "rune_len (to_lower r) = rune_len r"
    using v(2) by linarith
  then show ?case
  proof cases
    case 1
    then show ?thesis using step IH [of "pre @ encode_rune r"] by simp
  next
    case 2
    moreover have "bytes_to_lower to_lower (encode_runes (r # rs)) = encode_runes (map to_lower (r # rs))"
      using Cons.prems by (simp add: bytes_to_lower_def runes_encode del: encode_runes_simps)
    ultimately show ?thesis using step by simp
  next
    case 3
    have len: "length (encode_rune (to_lower r)) = length (encode_rune r)" "rune_len (to_lower r) = int (length (encode_rune (to_lower r)))"
      using 3 v(1,4) length_encode_rune [of r] length_encode_rune [of "to_lower r"] by simp_all
    have "overwrite (pre @ encode_runes (r # rs)) (length pre) (encode_rune (to_lower r)) = Some (pre @ encode_rune (to_lower r) @ encode_runes rs)"
      using len(1) by (simp add: overwrite_def)
    moreover have "nat (int (length pre) + rune_len (to_lower r)) = length pre + length (encode_rune r)" using len by simp
    ultimately show ?thesis using step 3 IH [of "pre @ encode_rune (to_lower r)"] len(1) by simp
  qed
qed

text \<open>
  C31: Lowering in place agrees with lowering rune by rune on valid terms, if no rune gets shorter
  and none becomes a sigma.
\<close>

theorem lower_in_place:
  assumes "valid_utf8 s" and "\<forall>r. valid_rune r \<longrightarrow> valid_rune (to_lower r)"
    and "\<forall>r\<in>set (runes s). rune_len r \<le> rune_len (to_lower r) \<and> (to_lower r = 0x3C3 \<longrightarrow> r = 0x3C3)"
  shows "to_lower_deferred_copy to_lower s = Some (bytes_to_lower to_lower s)"
proof -
  have "\<forall>r\<in>set (runes s). valid_rune r \<and> rune_len r \<le> rune_len (to_lower r) \<and> (to_lower r = 0x3C3 \<longrightarrow> r = 0x3C3)"
    using assms(3) runes_valid by blast
  from lower_loop_same [OF assms(2) this, of "[]"] show ?thesis
    using assms(1) by (simp add: to_lower_deferred_copy_def bytes_to_lower_def valid_utf8_def)
qed

theorem lower_in_place_witness:
  "to_lower_deferred_copy (\<lambda>r. if 0x41 \<le> r \<and> r \<le> 0x5A then r + 32 else r) [0x41, 0xC3, 0xA9] = Some [0x61, 0xC3, 0xA9]"
proof -
  let ?l = "\<lambda>r. if 0x41 \<le> r \<and> r \<le> 0x5A then r + 32 else r"
  have r: "runes [0x41, 0xC3, 0xA9] = [0x41, 0xE9]" by code_simp
  have v: "valid_utf8 [0x41, 0xC3, 0xA9]" by code_simp
  have e: "bytes_to_lower ?l [0x41, 0xC3, 0xA9] = [0x61, 0xC3, 0xA9]" by code_simp
  have "\<forall>r. valid_rune r \<longrightarrow> valid_rune (?l r)" by (simp add: valid_rune_def)
  moreover have "\<forall>r\<in>set (runes [0x41, 0xC3, 0xA9]). rune_len r \<le> rune_len (?l r) \<and> (?l r = 0x3C3 \<longrightarrow> r = 0x3C3)"
    unfolding r by (simp add: rune_len_def valid_rune_def)
  ultimately show ?thesis using lower_in_place [OF v, of ?l] by (simp only: e)
qed

text \<open>
  C32: When a two-byte rune is lowered to one byte, a lower-case byte after it is not moved up: the
  result is the lowered rune followed by the second byte of the old one.
\<close>

theorem lower_shrink_corrupts:
  assumes "valid_rune r" and "rune_len r = 2" and "valid_rune (to_lower r)" and "rune_len (to_lower r) = 1"
    and "0 \<le> c" and "c < 0x80" and "to_lower c = c"
  shows "to_lower_deferred_copy to_lower (encode_rune r @ [byte_of c]) =
    Some [byte_of (to_lower r), encode_rune r ! 1]"
proof -
  obtain b0 b1 where e: "encode_rune r = [b0, b1]"
  proof -
    have "length (encode_rune r) = 2" using length_encode_rune [of r] assms(1,2) by simp
    then show ?thesis using that by (auto simp: length_Suc_conv numeral_2_eq_2)
  qed
  have l: "encode_rune (to_lower r) = [byte_of (to_lower r)]" "to_lower r \<noteq> 0x3C3" "to_lower r \<noteq> r"
    using assms(2,3,4) by (auto simp: rune_len_def encode_rune_def split: if_splits)
  have c: "encode_rune c = [byte_of c]" "valid_rune c" using assms(5,6) by (simp_all add: encode_rune_def valid_rune_def)
  have "lower_loop to_lower ([b0, b1] @ [byte_of c]) (length []) 0 = lower_loop to_lower ([byte_of (to_lower r), b1] @ [byte_of c]) 2 1"
    using lower_loop_step [OF assms(1), of "[b0, b1] @ [byte_of c]" "[]" "[byte_of c]" to_lower 0] assms(2,4) e l
    by (simp add: overwrite_def Let_def numeral_2_eq_2)
  also have "\<dots> = lower_loop to_lower ([byte_of (to_lower r), b1] @ [byte_of c]) 3 2"
    using lower_loop_step [OF c(2), of "[byte_of (to_lower r), b1] @ [byte_of c]" "[byte_of (to_lower r), b1]" "[]" to_lower 1] assms(7) c(1)
    by (simp add: Let_def numeral_2_eq_2 numeral_3_eq_3)
  also have "\<dots> = Some [byte_of (to_lower r), b1]" by (subst lower_loop.simps) (simp add: numeral_3_eq_3)
  finally show ?thesis by (simp add: to_lower_deferred_copy_def e)
qed

theorem lower_shrink_corrupts_witness:
  "to_lower_deferred_copy (\<lambda>r. if r = 0x130 then 0x69 else r) [0xC4, 0xB0, 0x61] = Some [0x69, 0xB0]"
proof -
  have "encode_rune 0x130 = [0xC4, 0xB0]" by code_simp
  then show ?thesis
    using lower_shrink_corrupts [of "0x130" "\<lambda>r. if r = 0x130 then 0x69 else r" "0x61"]
    by (simp add: valid_rune_def rune_len_def byte_of_def)
qed

end
