(* ===== verification/Ngrams.thy ===== *)
theory Ngrams
  imports Analysis
begin

text \<open>
  The filters of \<open>analysis/token\<close> that cut a term into pieces: n-grams (\<open>ngram.go\<close>), edge n-grams
  (\<open>edgengram.go\<close>) and the words of a dictionary in a compound (\<open>dict.go\<close>). Lengths are counted
  in runes and are not negative. The loops over starts and sizes run over the list of their values.
\<close>

section \<open>N-grams\<close>

definition gram_token :: "token \<Rightarrow> bytes \<Rightarrow> bool \<Rightarrow> token" where
  "gram_token t ngramTerm first =
     \<lparr>Start = Start t, End = End t, Term = ngramTerm, PositionIncr = (if first then 1 else 0), Type = Type t, KeyWord = False\<rparr>"

fun ngram_sizes :: "token \<Rightarrow> rune list \<Rightarrow> nat \<Rightarrow> nat list \<Rightarrow> bool \<Rightarrow> token_stream \<Rightarrow> bool \<times> token_stream" where
  "ngram_sizes t rs i [] first rv = (first, rv)"
| "ngram_sizes t rs i (ngramSize # sizes) first rv =
     (if i + ngramSize \<le> length rs
      then ngram_sizes t rs i sizes False (rv @ [gram_token t (build_term_from_runes (take ngramSize (drop i rs))) first])
      else ngram_sizes t rs i sizes first rv)"

fun ngram_starts :: "token \<Rightarrow> rune list \<Rightarrow> nat list \<Rightarrow> nat list \<Rightarrow> bool \<Rightarrow> token_stream \<Rightarrow> bool \<times> token_stream" where
  "ngram_starts t rs sizes [] first rv = (first, rv)"
| "ngram_starts t rs sizes (i # is') first rv =
     (let (first, rv) = ngram_sizes t rs i sizes first rv in ngram_starts t rs sizes is' first rv)"

fun ngram_loop :: "nat \<Rightarrow> nat \<Rightarrow> token_stream \<Rightarrow> token_stream \<Rightarrow> token_stream" where
  "ngram_loop minLength maxLength [] rv = rv"
| "ngram_loop minLength maxLength (t # ts) rv =
     (let rs = runes (Term t) in
      ngram_loop minLength maxLength ts (snd (ngram_starts t rs [minLength..<Suc maxLength] [0..<length rs] True rv)))"

definition ngram_filter :: "nat \<Rightarrow> nat \<Rightarrow> token_stream \<Rightarrow> token_stream" where
  "ngram_filter minLength maxLength input = ngram_loop minLength maxLength input []"

text \<open>The tokens of a term's pieces: the first takes a position, the others share it.\<close>

fun grams :: "token \<Rightarrow> bool \<Rightarrow> bytes list \<Rightarrow> token_stream" where
  "grams t first [] = []"
| "grams t first (w # ws) = gram_token t w first # grams t False ws"

lemma grams_append: "grams t first (xs @ ys) = grams t first xs @ grams t (first \<and> xs = []) ys"
  by (induction t first xs rule: grams.induct) simp_all

lemma map_Term_grams [simp]: "map Term (grams t first ws) = ws"
  by (induction t first ws rule: grams.induct) (simp_all add: gram_token_def)

lemma sum_grams: "sum_list (map PositionIncr (grams t first ws)) = (if first \<and> ws \<noteq> [] then 1 else 0)"
  by (induction t first ws rule: grams.induct) (simp_all add: gram_token_def)

definition ngrams :: "nat list \<Rightarrow> nat list \<Rightarrow> rune list \<Rightarrow> rune list list" where
  "ngrams sizes starts rs =
     concat (map (\<lambda>i. map (\<lambda>n. take n (drop i rs)) (filter (\<lambda>n. i + n \<le> length rs) sizes)) starts)"

lemma ngram_sizes:
  "ngram_sizes t rs i sizes first rv =
     (let ws = map (\<lambda>n. encode_runes (take n (drop i rs))) (filter (\<lambda>n. i + n \<le> length rs) sizes)
      in (first \<and> ws = [], rv @ grams t first ws))"
  by (induction t rs i sizes first rv rule: ngram_sizes.induct) (simp_all add: Let_def)

lemma ngram_starts:
  "ngram_starts t rs sizes starts first rv =
     (first \<and> ngrams sizes starts rs = [], rv @ grams t first (map encode_runes (ngrams sizes starts rs)))"
proof (induction starts arbitrary: first rv)
  case Nil
  then show ?case by (simp add: ngrams_def)
next
  case (Cons i starts)
  then show ?case by (auto simp: ngram_sizes Let_def ngrams_def grams_append comp_def)
qed

lemma ngram_loop:
  "ngram_loop mn mx ts rv =
     rv @ concat (map (\<lambda>t. grams t True (map encode_runes (ngrams [mn..<Suc mx] [0..<length (runes (Term t))] (runes (Term t))))) ts)"
  by (induction mn mx ts rv rule: ngram_loop.induct) (simp_all add: ngram_starts Let_def del: upt_Suc)

lemma in_concat_mapI: "x \<in> set (f i) \<Longrightarrow> i \<in> set is' \<Longrightarrow> x \<in> set (concat (map f is'))"
  by auto

lemma set_ngrams:
  "set (ngrams [mn..<Suc mx] [0..<length rs] rs) = {g. mn \<le> length g \<and> length g \<le> mx \<and> (\<exists>a b. rs = a @ g @ b \<and> g @ b \<noteq> [])}"
proof
  show "set (ngrams [mn..<Suc mx] [0..<length rs] rs) \<subseteq> {g. mn \<le> length g \<and> length g \<le> mx \<and> (\<exists>a b. rs = a @ g @ b \<and> g @ b \<noteq> [])}"
  proof
    fix g assume "g \<in> set (ngrams [mn..<Suc mx] [0..<length rs] rs)"
    then obtain i n where "i < length rs" "mn \<le> n" "n \<le> mx" "i + n \<le> length rs" "g = take n (drop i rs)"
      by (auto simp: ngrams_def simp del: upt_Suc)
    moreover have "rs = take i rs @ take n (drop i rs) @ drop n (drop i rs)" by (metis append_take_drop_id)
    ultimately show "g \<in> {g. mn \<le> length g \<and> length g \<le> mx \<and> (\<exists>a b. rs = a @ g @ b \<and> g @ b \<noteq> [])}"
      by (intro CollectI conjI exI [of _ "take i rs"] exI [of _ "drop n (drop i rs)"]) auto
  qed
next
  show "{g. mn \<le> length g \<and> length g \<le> mx \<and> (\<exists>a b. rs = a @ g @ b \<and> g @ b \<noteq> [])} \<subseteq> set (ngrams [mn..<Suc mx] [0..<length rs] rs)"
  proof
    fix g assume "g \<in> {g. mn \<le> length g \<and> length g \<le> mx \<and> (\<exists>a b. rs = a @ g @ b \<and> g @ b \<noteq> [])}"
    then obtain a b where g: "mn \<le> length g" "length g \<le> mx" "rs = a @ g @ b" "g @ b \<noteq> []" by blast
    have "length a < length rs" using g(4) unfolding g(3) by (cases g) auto
    then have "length a \<in> set [0..<length rs]" by simp
    moreover have "length g \<in> set (filter (\<lambda>n. length a + n \<le> length rs) [mn..<Suc mx])"
      using g(1,2) by (simp add: g(3) del: upt_Suc)
    moreover have "g = take (length g) (drop (length a) rs)" by (simp add: g(3))
    ultimately have "g \<in> set (map (\<lambda>n. take n (drop (length a) rs)) (filter (\<lambda>n. length a + n \<le> length rs) [mn..<Suc mx]))"
      unfolding set_map by (intro image_eqI)
    then show "g \<in> set (ngrams [mn..<Suc mx] [0..<length rs] rs)"
      unfolding ngrams_def using \<open>length a \<in> set [0..<length rs]\<close> by (rule in_concat_mapI)
  qed
qed

text \<open>
  C34: The n-grams of a term are exactly its pieces of between the smallest and the largest number
  of runes that start at one of its runes; those of one token share one position, and a token
  without any leaves none behind.
\<close>

theorem ngram_filter_pieces:
  "set (map Term (ngram_filter mn mx [t])) =
     {encode_runes g |g. mn \<le> length g \<and> length g \<le> mx \<and> (\<exists>a b. runes (Term t) = a @ g @ b \<and> g @ b \<noteq> [])} \<and>
   ngram_filter mn mx ts = concat (map (\<lambda>t. ngram_filter mn mx [t]) ts) \<and>
   sum_list (map PositionIncr (ngram_filter mn mx [t])) = (if ngram_filter mn mx [t] = [] then 0 else 1)"
proof (intro conjI)
  have one: "ngram_filter mn mx [t] = grams t True (map encode_runes (ngrams [mn..<Suc mx] [0..<length (runes (Term t))] (runes (Term t))))" for t
    unfolding ngram_filter_def ngram_loop by simp
  show "set (map Term (ngram_filter mn mx [t])) =
     {encode_runes g |g. mn \<le> length g \<and> length g \<le> mx \<and> (\<exists>a b. runes (Term t) = a @ g @ b \<and> g @ b \<noteq> [])}"
    unfolding one map_Term_grams set_map set_ngrams by blast
  show "ngram_filter mn mx ts = concat (map (\<lambda>t. ngram_filter mn mx [t]) ts)"
    unfolding one unfolding ngram_filter_def ngram_loop by simp
  show "sum_list (map PositionIncr (ngram_filter mn mx [t])) = (if ngram_filter mn mx [t] = [] then 0 else 1)"
  proof (cases "ngrams [mn..<Suc mx] [0..<length (runes (Term t))] (runes (Term t))")
    case Nil
    then show ?thesis unfolding one by simp
  next
    case (Cons g gs)
    then show ?thesis unfolding one sum_grams by simp
  qed
qed

section \<open>Edge n-grams\<close>

datatype side = FRONT | BACK

fun edge_back_loop :: "token \<Rightarrow> rune list \<Rightarrow> nat list \<Rightarrow> bool \<Rightarrow> token_stream \<Rightarrow> token_stream" where
  "edge_back_loop t rs [] first rv = rv"
| "edge_back_loop t rs (ngramSize # sizes) first rv =
     (if length rs \<ge> ngramSize
      then edge_back_loop t rs sizes False
        (rv @ [gram_token t (build_term_from_runes (drop (length rs - ngramSize) rs)) first])
      else edge_back_loop t rs sizes first rv)"

fun edge_front_loop :: "token \<Rightarrow> rune list \<Rightarrow> nat list \<Rightarrow> bool \<Rightarrow> token_stream \<Rightarrow> token_stream" where
  "edge_front_loop t rs [] first rv = rv"
| "edge_front_loop t rs (ngramSize # sizes) first rv =
     (if ngramSize \<le> length rs
      then edge_front_loop t rs sizes False (rv @ [gram_token t (build_term_from_runes (take ngramSize rs)) first])
      else edge_front_loop t rs sizes first rv)"

fun edge_loop :: "side \<Rightarrow> nat \<Rightarrow> nat \<Rightarrow> token_stream \<Rightarrow> token_stream \<Rightarrow> token_stream" where
  "edge_loop sd minLength maxLength [] rv = rv"
| "edge_loop sd minLength maxLength (t # ts) rv =
     (let rs = runes (Term t) in
      edge_loop sd minLength maxLength ts
        (if sd = BACK then edge_back_loop t rs [minLength..<Suc maxLength] True rv
         else edge_front_loop t rs [minLength..<Suc maxLength] True rv))"

definition edge_ngram_filter :: "side \<Rightarrow> nat \<Rightarrow> nat \<Rightarrow> token_stream \<Rightarrow> token_stream" where
  "edge_ngram_filter sd minLength maxLength input = edge_loop sd minLength maxLength input []"

definition edges :: "side \<Rightarrow> nat list \<Rightarrow> rune list \<Rightarrow> rune list list" where
  "edges sd sizes rs =
     map (\<lambda>n. if sd = BACK then drop (length rs - n) rs else take n rs) (filter (\<lambda>n. n \<le> length rs) sizes)"

lemma edge_back_loop: "edge_back_loop t rs sizes first rv = rv @ grams t first (map encode_runes (edges BACK sizes rs))"
  by (induction t rs sizes first rv rule: edge_back_loop.induct) (simp_all add: edges_def)

lemma edge_front_loop: "edge_front_loop t rs sizes first rv = rv @ grams t first (map encode_runes (edges FRONT sizes rs))"
  by (induction t rs sizes first rv rule: edge_front_loop.induct) (simp_all add: edges_def)

lemma edge_loop:
  "edge_loop sd mn mx ts rv =
     rv @ concat (map (\<lambda>t. grams t True (map encode_runes (edges sd [mn..<Suc mx] (runes (Term t))))) ts)"
  by (induction sd mn mx ts rv rule: edge_loop.induct)
    (use side.exhaust in \<open>auto simp: edge_back_loop edge_front_loop Let_def simp del: upt_Suc\<close>)

text \<open>
  The edge n-grams of a term are the encodings of its prefixes, or of its suffixes, with as
  many runes as the bounds allow, shortest first; they share one position.
\<close>

theorem edge_ngram_filter_affixes:
  "map Term (edge_ngram_filter sd mn mx [t]) =
     map (\<lambda>n. encode_runes (if sd = BACK then drop (rune_count (Term t) - n) (runes (Term t)) else take n (runes (Term t))))
       [mn..<Suc (min mx (rune_count (Term t)))] \<and>
   edge_ngram_filter sd mn mx ts = concat (map (\<lambda>t. edge_ngram_filter sd mn mx [t]) ts) \<and>
   sum_list (map PositionIncr (edge_ngram_filter sd mn mx [t])) = (if mn \<le> min mx (rune_count (Term t)) then 1 else 0)"
proof (intro conjI)
  have one: "edge_ngram_filter sd mn mx [t] = grams t True (map encode_runes (edges sd [mn..<Suc mx] (runes (Term t))))" for t
    unfolding edge_ngram_filter_def edge_loop by simp
  have upt: "filter (\<lambda>n. n \<le> k) [mn..<Suc mx] = [mn..<Suc (min mx k)]" for k
    by (induction mx) (auto simp: min_def not_less_eq_eq le_Suc_eq)
  show "map Term (edge_ngram_filter sd mn mx [t]) =
     map (\<lambda>n. encode_runes (if sd = BACK then drop (rune_count (Term t) - n) (runes (Term t)) else take n (runes (Term t))))
       [mn..<Suc (min mx (rune_count (Term t)))]"
    unfolding one map_Term_grams edges_def rune_count_def upt by simp
  show "edge_ngram_filter sd mn mx ts = concat (map (\<lambda>t. edge_ngram_filter sd mn mx [t]) ts)"
    unfolding one unfolding edge_ngram_filter_def edge_loop by simp
  show "sum_list (map PositionIncr (edge_ngram_filter sd mn mx [t])) = (if mn \<le> min mx (rune_count (Term t)) then 1 else 0)"
    unfolding one sum_grams edges_def rune_count_def upt by (auto simp: not_le)
qed

section \<open>Compounds\<close>

record compound_filter =
  dict :: token_map
  minWordSize :: int
  minSubWordSize :: nat
  maxSubWordSize :: nat
  onlyLongestMatch :: bool

definition subword :: "token \<Rightarrow> rune list \<Rightarrow> nat \<Rightarrow> nat \<Rightarrow> token" where
  "subword t rs i j =
     \<lparr>Start = Start t + int i, End = Start t + int i + int j, Term = encode_runes (take j (drop i rs)),
      PositionIncr = 0, Type = Type t, KeyWord = KeyWord t\<rparr>"

fun decompose_sizes :: "compound_filter \<Rightarrow> token \<Rightarrow> rune list \<Rightarrow> nat \<Rightarrow> nat list \<Rightarrow> token option \<Rightarrow> token_stream \<Rightarrow> token option \<times> token_stream" where
  "decompose_sizes f t rs i [] longest rv = (longest, rv)"
| "decompose_sizes f t rs i (j # js) longest rv =
     (if i + j > length rs then (longest, rv)
      else if encode_runes (take j (drop i rs)) \<in> dict f then
        if onlyLongestMatch f
        then decompose_sizes f t rs i js
          (if longest = None \<or> rune_count (Term (the longest)) < j then Some (subword t rs i j) else longest) rv
        else decompose_sizes f t rs i js longest (rv @ [subword t rs i j])
      else decompose_sizes f t rs i js longest rv)"

fun decompose_starts :: "compound_filter \<Rightarrow> token \<Rightarrow> rune list \<Rightarrow> nat list \<Rightarrow> token_stream \<Rightarrow> token_stream" where
  "decompose_starts f t rs [] rv = rv"
| "decompose_starts f t rs (i # is') rv =
     (let (longest, rv) = decompose_sizes f t rs i [minSubWordSize f..<Suc (maxSubWordSize f)] None rv in
      decompose_starts f t rs is' (if onlyLongestMatch f \<and> longest \<noteq> None then rv @ [the longest] else rv))"

definition decompose :: "compound_filter \<Rightarrow> token \<Rightarrow> token_stream" where
  "decompose f t =
     (let rs = runes (Term t) in decompose_starts f t rs [0..<length rs + 1 - minSubWordSize f] [])"

definition dictionary_compound_filter :: "compound_filter \<Rightarrow> token_stream \<Rightarrow> token_stream" where
  "dictionary_compound_filter f input =
     concat (map (\<lambda>t. t # (if int (rune_count (Term t)) \<ge> minWordSize f then decompose f t else [])) input)"

definition word_at :: "compound_filter \<Rightarrow> rune list \<Rightarrow> nat \<Rightarrow> nat \<Rightarrow> bool" where
  "word_at f rs i j \<longleftrightarrow> i + j \<le> length rs \<and> encode_runes (take j (drop i rs)) \<in> dict f"

lemma decompose_sizes_all:
  assumes "\<not> onlyLongestMatch f" "sorted js"
  shows "decompose_sizes f t rs i js longest rv = (longest, rv @ map (subword t rs i) (filter (word_at f rs i) js))"
  using assms
proof (induction f t rs i js longest rv rule: decompose_sizes.induct)
  case (2 f t rs i j js longest rv)
  show ?case
  proof (cases "i + j > length rs")
    case True
    then have "filter (word_at f rs i) (j # js) = []" using 2(5) by (auto simp: word_at_def filter_empty_conv)
    then show ?thesis using True by simp
  next
    case False
    then show ?thesis using 2 by (auto simp: word_at_def)
  qed
qed simp

lemma rune_count_subword:
  assumes "\<forall>r\<in>set rs. valid_rune r" "i + j \<le> length rs"
  shows "rune_count (Term (subword t rs i j)) = j"
proof -
  have "\<forall>r\<in>set (take j (drop i rs)). valid_rune r" using assms(1) by (meson in_set_dropD in_set_takeD)
  then show ?thesis using assms(2) by (simp add: subword_def rune_count_def runes_encode)
qed

lemma decompose_sizes_longest:
  assumes "onlyLongestMatch f" "sorted_wrt (<) (ks @ js)" "\<forall>r\<in>set rs. valid_rune r"
    "longest = (if filter (word_at f rs i) ks = [] then None else Some (subword t rs i (last (filter (word_at f rs i) ks))))"
  shows "decompose_sizes f t rs i js longest rv =
    (if filter (word_at f rs i) (ks @ js) = [] then None
     else Some (subword t rs i (last (filter (word_at f rs i) (ks @ js)))), rv)"
  using assms
proof (induction f t rs i js longest rv arbitrary: ks rule: decompose_sizes.induct)
  case (2 f t rs i j js longest rv)
  show ?case
  proof (cases "i + j > length rs")
    case True
    then have "filter (word_at f rs i) (j # js) = []" using 2(5) by (auto simp: word_at_def filter_empty_conv sorted_wrt_append)
    then have "filter (word_at f rs i) (ks @ j # js) = filter (word_at f rs i) ks" by simp
    then show ?thesis using True 2(7) by simp
  next
    case le: False
    show ?thesis
    proof (cases "encode_runes (take j (drop i rs)) \<in> dict f")
      case True
      then have w: "word_at f rs i j" using le by (simp add: word_at_def)
      have l: "longest = None \<or> rune_count (Term (the longest)) < j"
      proof (cases "filter (word_at f rs i) ks = []")
        case False
        define l where "l = last (filter (word_at f rs i) ks)"
        have "l \<in> set (filter (word_at f rs i) ks)" unfolding l_def using False by (rule last_in_set)
        then have l: "word_at f rs i l" "l < j" using 2(5) by (auto simp: sorted_wrt_append)
        then have "rune_count (Term (subword t rs i l)) < j" using 2(6) by (subst rune_count_subword) (simp_all add: word_at_def)
        then show ?thesis using 2(7) False by (simp add: l_def [symmetric])
      qed (use 2(7) in simp)
      have "decompose_sizes f t rs i (j # js) longest rv =
          decompose_sizes f t rs i js (if longest = None \<or> rune_count (Term (the longest)) < j then Some (subword t rs i j) else longest) rv"
        using le True 2(4) by simp
      also have "\<dots> = (if filter (word_at f rs i) ((ks @ [j]) @ js) = [] then None
          else Some (subword t rs i (last (filter (word_at f rs i) ((ks @ [j]) @ js)))), rv)"
        by (rule 2(1)) (use 2(4-6) le True w l in simp_all)
      finally show ?thesis by simp
    next
      case False
      then have nw: "\<not> word_at f rs i j" by (simp add: word_at_def)
      have "decompose_sizes f t rs i (j # js) longest rv = decompose_sizes f t rs i js longest rv" using le False by simp
      also have "\<dots> = (if filter (word_at f rs i) ((ks @ [j]) @ js) = [] then None
          else Some (subword t rs i (last (filter (word_at f rs i) ((ks @ [j]) @ js)))), rv)"
        by (rule 2(3)) (use 2(4-7) le False nw in simp_all)
      finally show ?thesis by simp
    qed
  qed
qed simp

definition words_from :: "compound_filter \<Rightarrow> rune list \<Rightarrow> nat \<Rightarrow> nat list" where
  "words_from f rs i = filter (word_at f rs i) [minSubWordSize f..<Suc (maxSubWordSize f)]"

lemma decompose_starts:
  assumes "\<forall>r\<in>set rs. valid_rune r"
  shows "decompose_starts f t rs starts rv =
    rv @ concat (map (\<lambda>i. map (subword t rs i)
      (if onlyLongestMatch f then (if words_from f rs i = [] then [] else [last (words_from f rs i)]) else words_from f rs i)) starts)"
proof (induction starts arbitrary: rv)
  case (Cons i starts)
  show ?case
  proof (cases "onlyLongestMatch f")
    case True
    have "decompose_sizes f t rs i [minSubWordSize f..<Suc (maxSubWordSize f)] None rv =
        (if words_from f rs i = [] then None else Some (subword t rs i (last (words_from f rs i))), rv)"
      using decompose_sizes_longest [OF True, of "[]" "[minSubWordSize f..<Suc (maxSubWordSize f)]" rs None i t rv] assms
      by (simp add: words_from_def del: upt_Suc)
    then show ?thesis using Cons True by (simp add: Let_def)
  next
    case False
    have "decompose_sizes f t rs i [minSubWordSize f..<Suc (maxSubWordSize f)] None rv = (None, rv @ map (subword t rs i) (words_from f rs i))"
      using decompose_sizes_all [OF False, of "[minSubWordSize f..<Suc (maxSubWordSize f)]" t rs i None rv]
      by (simp add: words_from_def del: upt_Suc)
    then show ?thesis using Cons False by (simp add: Let_def)
  qed
qed simp

text \<open>
  C35: Decomposing a compound yields, from each of its runes on, all dictionary words of the allowed
  sizes that start there, or the longest of them only, without a position of their own.
\<close>

theorem decompose_words:
  "decompose f t =
     concat (map (\<lambda>i. map (subword t (runes (Term t)) i)
       (if onlyLongestMatch f then (if words_from f (runes (Term t)) i = [] then [] else [last (words_from f (runes (Term t)) i)])
        else words_from f (runes (Term t)) i))
       [0..<rune_count (Term t) + 1 - minSubWordSize f])"
proof -
  have "\<forall>r\<in>set (runes (Term t)). valid_rune r" by (simp add: runes_valid)
  then show ?thesis
    unfolding decompose_def Let_def by (subst decompose_starts) (simp_all add: rune_count_def)
qed

text \<open>
  The offsets of a subword count runes: they are as far apart as the subword has runes, and so
  do not delimit its bytes in the field unless the subword, and the word before it, are ASCII.
\<close>

theorem decompose_offsets_in_runes:
  assumes "w \<in> set (decompose f t)"
  shows "End w - Start w = int (rune_count (Term w)) \<and>
    (\<exists>i. Start w = Start t + int i \<and> Term w = encode_runes (take (rune_count (Term w)) (drop i (runes (Term t)))))"
proof -
  have v: "\<forall>r\<in>set (runes (Term t)). valid_rune r" by (simp add: runes_valid)
  have "decompose f t = concat (map (\<lambda>i. map (subword t (runes (Term t)) i)
       (if onlyLongestMatch f then (if words_from f (runes (Term t)) i = [] then [] else [last (words_from f (runes (Term t)) i)])
        else words_from f (runes (Term t)) i))
       [0..<length (runes (Term t)) + 1 - minSubWordSize f])"
    unfolding decompose_def Let_def by (subst decompose_starts [OF v]) simp
  then obtain i j where w: "w = subword t (runes (Term t)) i j" and j: "j \<in> set (words_from f (runes (Term t)) i)"
    using assms last_in_set by (fastforce split: if_splits)
  have "rune_count (Term w) = j" unfolding w using j by (intro rune_count_subword v) (simp add: words_from_def word_at_def)
  then show ?thesis by (auto simp: w subword_def)
qed

definition boat_filter :: compound_filter where
  "boat_filter = \<lparr>dict = {[0xC3, 0xA9]}, minWordSize = 1, minSubWordSize = 1, maxSubWordSize = 3, onlyLongestMatch = False\<rparr>"

definition boat_token :: token where
  "boat_token = \<lparr>Start = 0, End = 3, Term = [0xC3, 0xA9, 0x61], PositionIncr = 1, Type = AlphaNumeric, KeyWord = False\<rparr>"

lemma boat_subword:
  "decompose boat_filter boat_token = [\<lparr>Start = 0, End = 1, Term = [0xC3, 0xA9], PositionIncr = 0, Type = AlphaNumeric, KeyWord = False\<rparr>]"
  by code_simp

theorem decompose_offsets_in_runes_witness:
  "\<exists>w\<in>set (decompose boat_filter boat_token). End w - Start w = int (rune_count (Term w)) \<and> End w - Start w \<noteq> int (length (Term w))"
proof -
  let ?w = "\<lparr>Start = 0, End = 1, Term = [0xC3, 0xA9], PositionIncr = 0, Type = AlphaNumeric, KeyWord = False\<rparr>"
  have "?w \<in> set (decompose boat_filter boat_token)" by (simp add: boat_subword)
  then show ?thesis using decompose_offsets_in_runes [of ?w boat_filter boat_token] by (intro bexI [of _ ?w]) simp_all
qed

end
