(* ===== verification/Shingles.thy ===== *)
theory Shingles
  imports Analysis
begin

text \<open>
  The shingle filter (\<open>analysis/token/shingle.go\<close>): a ring (\<open>container/ring\<close> of the Go library)
  keeps the last \<open>max\<close> tokens, fillers for position gaps among them, and every new one ends the
  shingles of all sizes. The filter is proved equal to cutting windows from the list of items.
\<close>

section \<open>Rings\<close>

text \<open>The slots of a ring and the element a pointer into it stands on.\<close>

type_synonym 'a ring = "'a option list \<times> nat"

definition new_ring :: "nat \<Rightarrow> 'a ring" where
  "new_ring n = (replicate n None, 0)"

definition ring_value :: "'a ring \<Rightarrow> 'a option" where
  "ring_value r = fst r ! snd r"

definition ring_set :: "'a ring \<Rightarrow> 'a \<Rightarrow> 'a ring" where
  "ring_set r v = ((fst r)[snd r := Some v], snd r)"

definition ring_move :: "'a ring \<Rightarrow> int \<Rightarrow> 'a ring" where
  "ring_move r k = (fst r, nat ((int (snd r) + k) mod int (length (fst r))))"

text \<open>Slot \<open>k mod n\<close> holds item \<open>k\<close>, for the last \<open>n\<close> items.\<close>

definition holds :: "'a option list \<Rightarrow> 'a list \<Rightarrow> bool" where
  "holds vals xs \<longleftrightarrow> vals \<noteq> [] \<and> (\<forall>i<length xs. length xs \<le> i + length vals \<longrightarrow> vals ! (i mod length vals) = Some (xs ! i))"

lemma holds_new: "0 < n \<Longrightarrow> holds (fst (new_ring n)) []"
  by (auto simp: holds_def new_ring_def)

lemma mod_slot_ne:
  assumes "i < k" "k < i + n"
  shows "i mod n \<noteq> k mod (n :: nat)"
proof
  assume "i mod n = k mod n"
  then have "n dvd k - i" using mod_eq_dvd_iff_nat [of i k n] assms(1) by simp
  then have "n \<le> k - i" using assms(1) by (intro dvd_imp_le) simp_all
  then show False using assms by simp
qed

lemma holds_set:
  assumes "holds vals xs"
  shows "holds (vals[length xs mod length vals := Some x]) (xs @ [x])"
proof -
  have n: "0 < length vals" using assms by (simp add: holds_def)
  have "vals[length xs mod length vals := Some x] ! (i mod length vals) = Some ((xs @ [x]) ! i)"
    if "i < Suc (length xs)" "Suc (length xs) \<le> i + length vals" for i
  proof (cases "i = length xs")
    case True
    then show ?thesis using n by simp
  next
    case False
    then have "i mod length vals \<noteq> length xs mod length vals" using that by (intro mod_slot_ne) simp_all
    then show ?thesis using False that assms n by (auto simp: holds_def nth_append nth_list_update)
  qed
  then show ?thesis using n by (auto simp: holds_def)
qed

lemma ring_move_next: "vals \<noteq> [] \<Longrightarrow> ring_move (vals, k mod length vals) 1 = (vals, Suc k mod length vals)"
proof -
  assume "vals \<noteq> []"
  have "int (k mod length vals) + 1 = int (k mod length vals + 1)" by simp
  then show ?thesis by (simp only: ring_move_def fst_conv snd_conv zmod_int [symmetric] nat_int) (simp add: mod_Suc_eq)
qed

lemma ring_move_back: "d \<le> k \<Longrightarrow> vals \<noteq> [] \<Longrightarrow> ring_move (vals, k mod length vals) (- int d) = (vals, (k - d) mod length vals)"
proof -
  assume d: "d \<le> k" "vals \<noteq> []"
  have "(int (k mod length vals) + - int d) mod int (length vals) = (int k - int d) mod int (length vals)"
    by (simp add: zmod_int mod_diff_left_eq)
  also have "\<dots> = int ((k - d) mod length vals)" using d(1) by (simp add: zmod_int of_nat_diff)
  finally show ?thesis by (simp add: ring_move_def)
qed

section \<open>The filter\<close>

record shingle_filter =
  sh_min :: nat
  sh_max :: nat
  outputOriginal :: bool
  tokenSeparator :: bytes
  fill :: bytes

text \<open>The loop that joins \<open>m\<close> elements of the ring, and the shingle made of them.\<close>

fun shingle_parts :: "bytes \<Rightarrow> nat \<Rightarrow> bool \<Rightarrow> token ring \<Rightarrow> bytes \<Rightarrow> int \<Rightarrow> int \<Rightarrow> bytes \<times> int \<times> int" where
  "shingle_parts sep 0 first r shingled start en = (shingled, start, en)"
| "shingle_parts sep (Suc m) first r shingled start en =
     (let shingled = (if first then shingled else shingled @ sep);
          c = the (ring_value r);
          start = (if start = -1 \<and> Start c \<noteq> -1 then Start c else start);
          en = (if End c \<noteq> -1 then End c else en)
      in shingle_parts sep m False (ring_move r 1) (shingled @ Term c) start en)"

definition shingle_token :: "bool \<Rightarrow> bytes \<times> int \<times> int \<Rightarrow> token" where
  "shingle_token samePosition parts =
     (case parts of (shingled, start, en) \<Rightarrow>
        \<lparr>Start = (if start \<noteq> -1 then start else 0), End = (if en \<noteq> -1 then en else 0), Term = shingled,
         PositionIncr = (if samePosition then 0 else 1), Type = Shingle, KeyWord = False\<rparr>)"

fun shingle_sizes :: "shingle_filter \<Rightarrow> token ring \<Rightarrow> nat \<Rightarrow> nat list \<Rightarrow> token_stream \<Rightarrow> token_stream" where
  "shingle_sizes f r items [] rv = rv"
| "shingle_sizes f r items (n # ns) rv =
     (if items < n then shingle_sizes f r items ns rv
      else
        let parts = shingle_parts (tokenSeparator f) n True (ring_move r (- (int n - 1))) [] (-1) 0
        in shingle_sizes f r items ns (rv @ [shingle_token (rv \<noteq> [] \<or> outputOriginal f) parts]))"

definition shingle_current :: "shingle_filter \<Rightarrow> token ring \<Rightarrow> nat \<Rightarrow> token_stream" where
  "shingle_current f r items = shingle_sizes f r items [sh_min f..<Suc (sh_max f)] []"

definition filler_token :: "shingle_filter \<Rightarrow> token" where
  "filler_token f = \<lparr>Start = -1, End = -1, Term = fill f, PositionIncr = 1, Type = AlphaNumeric, KeyWord = False\<rparr>"

text \<open>Putting one item into the ring.\<close>

definition shingle_item :: "shingle_filter \<Rightarrow> token \<Rightarrow> token ring \<times> nat \<times> token_stream \<Rightarrow> token ring \<times> nat \<times> token_stream" where
  "shingle_item f item st =
     (case st of (aRing, itemsInRing, rv) \<Rightarrow>
        let aRing = ring_set aRing item;
            itemsInRing = (if itemsInRing < sh_max f then itemsInRing + 1 else itemsInRing)
        in (ring_move aRing 1, itemsInRing, rv @ shingle_current f aRing itemsInRing))"

fun shingle_fillers :: "shingle_filter \<Rightarrow> nat \<Rightarrow> token ring \<times> nat \<times> token_stream \<Rightarrow> token ring \<times> nat \<times> token_stream" where
  "shingle_fillers f 0 st = st"
| "shingle_fillers f (Suc offset) st = shingle_fillers f offset (shingle_item f (filler_token f) st)"

fun shingle_loop :: "shingle_filter \<Rightarrow> token_stream \<Rightarrow> token ring \<times> nat \<times> token_stream \<Rightarrow> token_stream" where
  "shingle_loop f [] st = snd (snd st)"
| "shingle_loop f (t # ts) st =
     (case st of (aRing, itemsInRing, rv) \<Rightarrow>
        let rv = (if outputOriginal f then rv @ [t] else rv)
        in shingle_loop f ts (shingle_item f t (shingle_fillers f (nat (PositionIncr t - 1)) (aRing, itemsInRing, rv))))"

definition shingle_filter_tokens :: "shingle_filter \<Rightarrow> token_stream \<Rightarrow> token_stream" where
  "shingle_filter_tokens f input = shingle_loop f input (new_ring (sh_max f), 0, [])"

section \<open>Windows\<close>

text \<open>
  The reference: the items so far are a list, and a shingle of \<open>n\<close> joins the last \<open>n\<close> of them.
\<close>

fun join_items :: "bytes \<Rightarrow> bool \<Rightarrow> token list \<Rightarrow> bytes \<Rightarrow> int \<Rightarrow> int \<Rightarrow> bytes \<times> int \<times> int" where
  "join_items sep first [] shingled start en = (shingled, start, en)"
| "join_items sep first (c # cs) shingled start en =
     join_items sep False cs ((if first then shingled else shingled @ sep) @ Term c)
       (if start = -1 \<and> Start c \<noteq> -1 then Start c else start) (if End c \<noteq> -1 then End c else en)"

definition windows :: "shingle_filter \<Rightarrow> token list \<Rightarrow> token list list" where
  "windows f items = map (\<lambda>n. drop (length items - n) items) (filter (\<lambda>n. n \<le> length items) [sh_min f..<Suc (sh_max f)])"

fun shingles_of :: "shingle_filter \<Rightarrow> bool \<Rightarrow> token list list \<Rightarrow> token_stream" where
  "shingles_of f same [] = []"
| "shingles_of f same (w # ws) = shingle_token same (join_items (tokenSeparator f) True w [] (-1) 0) # shingles_of f True ws"

definition shingles_at :: "shingle_filter \<Rightarrow> token list \<Rightarrow> token_stream" where
  "shingles_at f items = shingles_of f (outputOriginal f) (windows f items)"

definition items_of :: "shingle_filter \<Rightarrow> token \<Rightarrow> token list" where
  "items_of f t = replicate (nat (PositionIncr t - 1)) (filler_token f) @ [t]"

fun shingles_after :: "shingle_filter \<Rightarrow> token list \<Rightarrow> token list \<Rightarrow> token_stream" where
  "shingles_after f items [] = []"
| "shingles_after f items (x # xs) = shingles_at f (items @ [x]) @ shingles_after f (items @ [x]) xs"

fun shingles_from :: "shingle_filter \<Rightarrow> token list \<Rightarrow> token_stream \<Rightarrow> token_stream" where
  "shingles_from f items [] = []"
| "shingles_from f items (t # ts) =
     (if outputOriginal f then [t] else []) @ shingles_after f items (items_of f t) @ shingles_from f (items @ items_of f t) ts"

lemma shingle_parts:
  assumes "holds vals xs" "p + m \<le> length xs" "length xs \<le> p + length vals"
  shows "shingle_parts sep m first (vals, p mod length vals) b s e = join_items sep first (take m (drop p xs)) b s e"
  using assms(2,3)
proof (induction m arbitrary: p first b s e)
  case (Suc m)
  have v: "vals \<noteq> []" using assms(1) by (simp add: holds_def)
  have at: "ring_value (vals, p mod length vals) = Some (xs ! p)"
    using assms(1) Suc.prems by (simp add: ring_value_def holds_def)
  have "drop p xs = xs ! p # drop (Suc p) xs" using Suc.prems by (simp add: Cons_nth_drop_Suc)
  then show ?case using Suc.IH [of "Suc p"] Suc.prems at by (simp add: Let_def ring_move_next [OF v])
qed simp

lemma shingle_sizes:
  assumes "holds vals xs" "xs \<noteq> []" "items = min (length xs) (length vals)" "\<forall>n\<in>set ns. n \<le> length vals \<and> 1 \<le> n"
  shows "shingle_sizes f (vals, (length xs - 1) mod length vals) items ns rv =
    rv @ shingles_of f (rv \<noteq> [] \<or> outputOriginal f) (map (\<lambda>n. drop (length xs - n) xs) (filter (\<lambda>n. n \<le> length xs) ns))"
  using assms(4)
proof (induction ns arbitrary: rv)
  case (Cons n ns)
  have v: "vals \<noteq> []" using assms(1) by (simp add: holds_def)
  show ?case
  proof (cases "n \<le> length xs")
    case True
    have n: "1 \<le> n" "n \<le> length vals" using Cons.prems by simp_all
    have "ring_move (vals, (length xs - 1) mod length vals) (- int (n - 1)) = (vals, (length xs - 1 - (n - 1)) mod length vals)"
      using True n v by (intro ring_move_back) simp_all
    then have "ring_move (vals, (length xs - 1) mod length vals) (- (int n - 1)) = (vals, (length xs - n) mod length vals)"
      using True n by (simp add: of_nat_diff)
    moreover have "shingle_parts (tokenSeparator f) n True (vals, (length xs - n) mod length vals) [] (-1) 0 =
        join_items (tokenSeparator f) True (take n (drop (length xs - n) xs)) [] (-1) 0"
      using True n by (intro shingle_parts assms(1)) simp_all
    moreover have "take n (drop (length xs - n) xs) = drop (length xs - n) xs" by simp
    moreover have "\<not> items < n" using True n assms(3) by simp
    ultimately show ?thesis using True Cons by (simp add: Let_def)
  next
    case False
    then show ?thesis using Cons assms(3) by simp
  qed
qed simp

definition ring_state :: "shingle_filter \<Rightarrow> token list \<Rightarrow> token ring \<Rightarrow> nat \<Rightarrow> bool" where
  "ring_state f xs r items \<longleftrightarrow>
     (\<exists>vals. r = (vals, length xs mod length vals) \<and> holds vals xs \<and> length vals = sh_max f \<and> items = min (length xs) (sh_max f))"

lemma shingle_item:
  assumes "ring_state f xs r items" "1 \<le> sh_min f" "r' = fst (shingle_item f x (r, items, rv))" "items' = fst (snd (shingle_item f x (r, items, rv)))"
  shows "shingle_item f x (r, items, rv) = (r', items', rv @ shingles_at f (xs @ [x])) \<and> ring_state f (xs @ [x]) r' items'"
proof -
  obtain vals where r: "r = (vals, length xs mod length vals)" "holds vals xs" "length vals = sh_max f" "items = min (length xs) (sh_max f)"
    using assms(1) by (auto simp: ring_state_def)
  have v: "vals \<noteq> []" "0 < sh_max f" using r(2,3) by (auto simp: holds_def simp flip: length_greater_0_conv)
  define vals' where "vals' = vals[length xs mod length vals := Some x]"
  have h: "holds vals' (xs @ [x])" "length vals' = sh_max f" unfolding vals'_def using holds_set [OF r(2)] r(3) by simp_all
  have set: "ring_set r x = (vals', length xs mod sh_max f)" by (simp add: ring_set_def r(1,3) vals'_def)
  have items: "(if items < sh_max f then items + 1 else items) = min (length (xs @ [x])) (sh_max f)" using r(4) by auto
  have "shingle_sizes f (vals', (length (xs @ [x]) - 1) mod length vals') (min (length (xs @ [x])) (sh_max f)) [sh_min f..<Suc (sh_max f)] [] =
      [] @ shingles_of f ([] \<noteq> ([] :: token_stream) \<or> outputOriginal f) (map (\<lambda>n. drop (length (xs @ [x]) - n) (xs @ [x])) (filter (\<lambda>n. n \<le> length (xs @ [x])) [sh_min f..<Suc (sh_max f)]))"
    by (rule shingle_sizes [OF h(1)]) (use h(2) assms(2) in auto)
  then have cur: "shingle_current f (vals', length xs mod sh_max f) (min (length (xs @ [x])) (sh_max f)) = shingles_at f (xs @ [x])"
    by (simp add: shingle_current_def shingles_at_def windows_def h(2) del: upt_Suc)
  have move: "ring_move (vals', length xs mod sh_max f) 1 = (vals', Suc (length xs) mod sh_max f)"
    using ring_move_next [of vals' "length xs"] h(2) v by fastforce
  have "shingle_item f x (r, items, rv) = ((vals', Suc (length xs) mod sh_max f), min (length (xs @ [x])) (sh_max f), rv @ shingles_at f (xs @ [x]))"
    unfolding shingle_item_def by (simp only: prod.case Let_def items set cur move)
  then show ?thesis using assms(3,4) h by (simp add: ring_state_def)
qed

lemma shingle_fillers:
  assumes "ring_state f xs r items" "1 \<le> sh_min f"
  shows "\<exists>r' items'. shingle_fillers f k (r, items, rv) = (r', items', rv @ shingles_after f xs (replicate k (filler_token f))) \<and>
    ring_state f (xs @ replicate k (filler_token f)) r' items'"
  using assms(1)
proof (induction k arbitrary: xs r items rv)
  case (Suc k)
  obtain r1 items1 where 1: "shingle_item f (filler_token f) (r, items, rv) = (r1, items1, rv @ shingles_at f (xs @ [filler_token f]))"
    "ring_state f (xs @ [filler_token f]) r1 items1"
    using shingle_item [OF Suc.prems assms(2) refl refl] by blast
  show ?case using Suc.IH [OF 1(2), of "rv @ shingles_at f (xs @ [filler_token f])"] 1(1) by simp
qed simp

lemma shingles_after_snoc: "shingles_after f items (xs @ [x]) = shingles_after f items xs @ shingles_at f (items @ xs @ [x])"
  by (induction f items xs rule: shingles_after.induct) simp_all

lemma shingle_loop:
  assumes "ring_state f xs r items" "1 \<le> sh_min f"
  shows "shingle_loop f ts (r, items, rv) = rv @ shingles_from f xs ts"
  using assms(1)
proof (induction ts arbitrary: xs r items rv)
  case (Cons t ts)
  let ?rv = "if outputOriginal f then rv @ [t] else rv" and ?k = "nat (PositionIncr t - 1)"
  obtain r1 items1 where 1: "shingle_fillers f ?k (r, items, ?rv) = (r1, items1, ?rv @ shingles_after f xs (replicate ?k (filler_token f)))"
    "ring_state f (xs @ replicate ?k (filler_token f)) r1 items1"
    using shingle_fillers [OF Cons.prems assms(2)] by blast
  obtain r2 items2 where 2: "shingle_item f t (r1, items1, ?rv @ shingles_after f xs (replicate ?k (filler_token f))) =
      (r2, items2, (?rv @ shingles_after f xs (replicate ?k (filler_token f))) @ shingles_at f ((xs @ replicate ?k (filler_token f)) @ [t]))"
    "ring_state f ((xs @ replicate ?k (filler_token f)) @ [t]) r2 items2"
    using shingle_item [OF 1(2) assms(2) refl refl] by blast
  have "shingle_loop f (t # ts) (r, items, rv) = shingle_loop f ts (r2, items2, ?rv @ shingles_after f xs (items_of f t))"
    using 1(1) 2(1) by (simp add: Let_def items_of_def shingles_after_snoc)
  also have "\<dots> = (?rv @ shingles_after f xs (items_of f t)) @ shingles_from f (xs @ items_of f t) ts"
    using Cons.IH [of "xs @ items_of f t"] 2(2) by (simp add: items_of_def)
  finally show ?case by simp
qed simp

text \<open>
  C36: The ring implements windows: after every item, fillers for position gaps included, the filter
  emits the joins of the last \<open>n\<close> items for every size that has enough items, the first of them
  on a new position unless the original tokens are output too.
\<close>

theorem shingle_filter_windows:
  assumes "1 \<le> sh_min f" and "1 \<le> sh_max f"
  shows "shingle_filter_tokens f input = shingles_from f [] input"
proof -
  have "ring_state f [] (new_ring (sh_max f)) 0"
    using holds_new [of "sh_max f"] assms(2) by (auto simp: ring_state_def new_ring_def)
  from shingle_loop [OF this assms(1)] show ?thesis by (simp add: shingle_filter_tokens_def)
qed

definition pair_shingles :: shingle_filter where
  "pair_shingles = \<lparr>sh_min = 2, sh_max = 2, outputOriginal = False, tokenSeparator = [0x20], fill = [0x5F]\<rparr>"

definition shingle_input :: token_stream where
  "shingle_input =
     [\<lparr>Start = 0, End = 1, Term = [0x61], PositionIncr = 1, Type = AlphaNumeric, KeyWord = False\<rparr>,
      \<lparr>Start = 4, End = 5, Term = [0x62], PositionIncr = 2, Type = AlphaNumeric, KeyWord = False\<rparr>]"

theorem shingle_filter_windows_witness:
  "map Term (shingle_filter_tokens pair_shingles shingle_input) = [[0x61, 0x20, 0x5F], [0x5F, 0x20, 0x62]]"
proof -
  have "shingles_from pair_shingles [] shingle_input =
    [\<lparr>Start = 0, End = 1, Term = [0x61, 0x20, 0x5F], PositionIncr = 1, Type = Shingle, KeyWord = False\<rparr>,
     \<lparr>Start = 4, End = 5, Term = [0x5F, 0x20, 0x62], PositionIncr = 1, Type = Shingle, KeyWord = False\<rparr>]" by code_simp
  moreover have "1 \<le> sh_min pair_shingles" "1 \<le> sh_max pair_shingles" by (simp_all add: pair_shingles_def)
  ultimately show ?thesis using shingle_filter_windows [of pair_shingles shingle_input] by simp
qed

end
