(* ===== verification/Camel_Case.thy ===== *)
theory Camel_Case
  imports Analysis
begin

text \<open>
  The camel-case filter (\<open>analysis/token/camelcase.go\<close>, \<open>camelcase_parser.go\<close>,
  \<open>camelcase_states.go\<close>): a parser that pushes the runes of a term through states, one per class of
  tokens, and cuts a token whenever the state does not take the next rune. The Unicode classes are
  a parameter.
\<close>

section \<open>States\<close>

record rune_classes =
  is_lower :: "rune \<Rightarrow> bool"
  is_upper :: "rune \<Rightarrow> bool"
  is_number :: "rune \<Rightarrow> bool"

datatype state = LowerCaseState | UpperCaseState (startedCollecting: bool) (collectingUpper: bool)
  | NumberCaseState | NonAlphaNumericCaseState

text \<open>\<open>Member\<close>: whether the state takes the rune, and the state after asking.\<close>

fun member :: "rune_classes \<Rightarrow> state \<Rightarrow> rune \<Rightarrow> rune option \<Rightarrow> bool \<times> state" where
  "member u LowerCaseState c peek = (is_lower u c, LowerCaseState)"
| "member u (UpperCaseState started collecting) c peek =
     (if \<not> (is_lower u c \<or> is_upper u c) then (False, UpperCaseState started collecting)
      else if peek \<noteq> None \<and> is_upper u c \<and> is_lower u (the peek) then (False, UpperCaseState started collecting)
      else if \<not> started then (True, UpperCaseState True (is_upper u c))
      else (collecting = is_upper u c, UpperCaseState started collecting))"
| "member u NumberCaseState c peek = (is_number u c, NumberCaseState)"
| "member u NonAlphaNumericCaseState c peek =
     (\<not> is_lower u c \<and> \<not> is_upper u c \<and> \<not> is_number u c, NonAlphaNumericCaseState)"

fun start_sym :: "rune_classes \<Rightarrow> state \<Rightarrow> rune \<Rightarrow> bool" where
  "start_sym u (UpperCaseState started collecting) c = is_upper u c"
| "start_sym u s c = fst (member u s c None)"

definition new_state :: "rune_classes \<Rightarrow> rune \<Rightarrow> state" where
  "new_state u c =
     (if start_sym u LowerCaseState c then LowerCaseState
      else if start_sym u (UpperCaseState False False) c then UpperCaseState False False
      else if start_sym u NumberCaseState c then NumberCaseState
      else NonAlphaNumericCaseState)"

section \<open>Parser\<close>

record parser =
  buffer :: "rune list"
  current :: "state option"
  tokens :: token_stream
  index :: int

definition new_parser :: "int \<Rightarrow> parser" where
  "new_parser i = \<lparr>buffer = [], current = None, tokens = [], index = i\<rparr>"

definition build_token_from_term :: "parser \<Rightarrow> token \<times> parser" where
  "build_token_from_term p =
     (let term = build_term_from_runes (buffer p);
          token = \<lparr>Start = index p, End = index p + int (length term), Term = term, PositionIncr = 1,
            Type = AlphaNumeric, KeyWord = False\<rparr>
      in (token, p\<lparr>index := index p + int (length term)\<rparr>))"

definition push :: "rune_classes \<Rightarrow> rune \<Rightarrow> rune option \<Rightarrow> parser \<Rightarrow> parser" where
  "push u c peek p =
     (case current p of
        None \<Rightarrow> p\<lparr>current := Some (new_state u c), buffer := buffer p @ [c]\<rparr>
      | Some s \<Rightarrow>
          let (same, s) = member u s c peek; p = p\<lparr>current := Some s\<rparr> in
          if same then p\<lparr>buffer := buffer p @ [c]\<rparr>
          else
            let (t, p) = build_token_from_term p
            in p\<lparr>tokens := tokens p @ [t], current := Some (new_state u c), buffer := [c]\<rparr>)"

definition flush_tokens :: "parser \<Rightarrow> token_stream" where
  "flush_tokens p = (let (t, p) = build_token_from_term p in tokens p @ [t])"

fun push_all :: "rune_classes \<Rightarrow> rune list \<Rightarrow> parser \<Rightarrow> parser" where
  "push_all u [] p = p"
| "push_all u [r] p = push u r None p"
| "push_all u (r # r' # rs) p = push_all u (r' # rs) (push u r (Some r') p)"

definition camel_case_filter :: "rune_classes \<Rightarrow> token_stream \<Rightarrow> token_stream" where
  "camel_case_filter u input = concat (map (\<lambda>t. flush_tokens (push_all u (runes (Term t)) (new_parser (Start t)))) input)"

section \<open>The tokens of a term\<close>

text \<open>
  The groups a term is cut into, without parser and states: a group is the first rune with the
  run of the runes after it that go with it. A lower-case rune takes lower-case runes, a number takes
  numbers, a rune of no class takes runes of no class. An upper-case rune takes the lower-case runes
  after it or, before another upper-case rune, the upper-case runes up to the one that starts the
  next word, that is up to one before a lower-case rune.
\<close>

fun upper_run :: "rune_classes \<Rightarrow> rune list \<Rightarrow> nat" where
  "upper_run u [] = 0"
| "upper_run u (r # rs) =
     (if is_upper u r \<and> \<not> (rs \<noteq> [] \<and> is_lower u (hd rs)) then Suc (upper_run u rs) else 0)"

definition run_after :: "rune_classes \<Rightarrow> rune \<Rightarrow> rune list \<Rightarrow> nat" where
  "run_after u c rs =
     (if is_lower u c then length (takeWhile (is_lower u) rs)
      else if is_upper u c then
        (if rs \<noteq> [] \<and> is_lower u (hd rs) \<and> \<not> is_upper u (hd rs)
         then length (takeWhile (\<lambda>r. is_lower u r \<and> \<not> is_upper u r) rs) else upper_run u rs)
      else if is_number u c then length (takeWhile (is_number u) rs)
      else length (takeWhile (\<lambda>r. \<not> is_lower u r \<and> \<not> is_upper u r \<and> \<not> is_number u r) rs))"

function camel_groups :: "rune_classes \<Rightarrow> rune list \<Rightarrow> rune list list" where
  "camel_groups u [] = []"
| "camel_groups u (c # rs) = (c # take (run_after u c rs) rs) # camel_groups u (drop (run_after u c rs) rs)"
  by pat_completeness auto
termination by (relation "measure (\<lambda>(u, rs). length rs)") auto

fun tokens_at :: "int \<Rightarrow> rune list list \<Rightarrow> token_stream" where
  "tokens_at i [] = []"
| "tokens_at i (g # gs) =
     \<lparr>Start = i, End = i + int (length (encode_runes g)), Term = encode_runes g, PositionIncr = 1,
        Type = AlphaNumeric, KeyWord = False\<rparr> # tokens_at (i + int (length (encode_runes g))) gs"

text \<open>The groups the parser cuts from a state, a buffer and the runes to come, and how many of them the state takes.\<close>

definition peek_of :: "rune list \<Rightarrow> rune option" where
  "peek_of rs = (case rs of [] \<Rightarrow> None | r # rs \<Rightarrow> Some r)"

lemma peek_of_simps [simp]: "peek_of [] = None" "peek_of (r # rs) = Some r"
  by (simp_all add: peek_of_def)

fun cut :: "rune_classes \<Rightarrow> state \<Rightarrow> rune list \<Rightarrow> rune list \<Rightarrow> rune list list" where
  "cut u s b [] = [b]"
| "cut u s b (r # rs) =
     (if fst (member u s r (peek_of rs)) then cut u (snd (member u s r (peek_of rs))) (b @ [r]) rs
      else b # cut u (new_state u r) [r] rs)"

fun takes :: "rune_classes \<Rightarrow> state \<Rightarrow> rune list \<Rightarrow> nat" where
  "takes u s [] = 0"
| "takes u s (r # rs) =
     (if fst (member u s r (peek_of rs)) then Suc (takes u (snd (member u s r (peek_of rs))) rs) else 0)"

lemma push_all_Cons: "push_all u (r # rs) p = push_all u rs (push u r (peek_of rs) p)"
  by (cases rs) simp_all

lemma flush_push_all:
  "current p = Some s \<Longrightarrow> flush_tokens (push_all u rs p) = tokens p @ tokens_at (index p) (cut u s (buffer p) rs)"
proof (induction rs arbitrary: p s)
  case Nil
  then show ?case by (simp add: flush_tokens_def build_token_from_term_def Let_def)
next
  case (Cons r rs)
  obtain same s' where m: "member u s r (peek_of rs) = (same, s')" by (cases "member u s r (peek_of rs)")
  have "current (push u r (peek_of rs) p) = Some (if same then s' else new_state u r)"
    using Cons.prems m by (simp add: push_def build_token_from_term_def Let_def)
  from Cons.IH [OF this] show ?case
    using Cons.prems m by (simp add: push_all_Cons push_def build_token_from_term_def Let_def)
qed

lemma cut_takes:
  "cut u s b rs = (b @ take (takes u s rs) rs) #
     (case drop (takes u s rs) rs of [] \<Rightarrow> [] | r # rs \<Rightarrow> cut u (new_state u r) [r] rs)"
  by (induction rs arbitrary: s b) simp_all

lemma takes_simple:
  "takes u LowerCaseState rs = length (takeWhile (is_lower u) rs)"
  "takes u NumberCaseState rs = length (takeWhile (is_number u) rs)"
  "takes u NonAlphaNumericCaseState rs = length (takeWhile (\<lambda>r. \<not> is_lower u r \<and> \<not> is_upper u r \<and> \<not> is_number u r) rs)"
  by (induction rs) simp_all

lemma takes_UpperCaseState:
  "takes u (UpperCaseState started b) (r # rs) =
     (if (is_lower u r \<or> is_upper u r) \<and> \<not> (rs \<noteq> [] \<and> is_upper u r \<and> is_lower u (hd rs)) \<and> (started \<longrightarrow> b = is_upper u r)
      then Suc (takes u (UpperCaseState True (is_upper u r)) rs) else 0)"
  by (cases rs) auto

lemma takes_collecting:
  "takes u (UpperCaseState True False) rs = length (takeWhile (\<lambda>r. is_lower u r \<and> \<not> is_upper u r) rs)"
  "takes u (UpperCaseState True True) rs = upper_run u rs"
  by (induction rs) (auto simp: takes_UpperCaseState simp del: takes.simps(2))

lemma takes_upper:
  "takes u (UpperCaseState False b) rs =
     (if rs \<noteq> [] \<and> is_lower u (hd rs) \<and> \<not> is_upper u (hd rs)
      then length (takeWhile (\<lambda>r. is_lower u r \<and> \<not> is_upper u r) rs) else upper_run u rs)"
  by (cases rs) (auto simp: takes_UpperCaseState takes_collecting simp del: takes.simps(2))

lemma takes_new_state: "takes u (new_state u c) rs = run_after u c rs"
  by (simp add: new_state_def run_after_def takes_simple takes_upper)

lemma cut_camel_groups: "cut u (new_state u c) [c] rs = camel_groups u (c # rs)"
proof (induction "length rs" arbitrary: c rs rule: less_induct)
  case less
  show ?case
  proof (cases "drop (run_after u c rs) rs")
    case Nil
    then show ?thesis by (simp add: cut_takes [of u _ _ rs] takes_new_state)
  next
    case (Cons r rs')
    then have "length rs' < length rs" by (metis Suc_le_eq drop_eq_Nil length_Cons length_drop diff_le_self)
    from less [OF this] Cons show ?thesis
      by (simp add: cut_takes [of u _ _ rs] takes_new_state del: camel_groups.simps(2))
        (simp add: Cons)
  qed
qed

lemma flush_new_parser:
  "flush_tokens (push_all u rs (new_parser i)) = tokens_at i (if rs = [] then [[]] else camel_groups u rs)"
proof (cases rs)
  case Nil
  then show ?thesis by (simp add: flush_tokens_def new_parser_def build_token_from_term_def)
next
  case (Cons c qs)
  have "current (push u c (peek_of qs) (new_parser i)) = Some (new_state u c)" by (simp add: push_def new_parser_def)
  from flush_push_all [OF this] have "flush_tokens (push_all u rs (new_parser i)) =
      tokens_at i (cut u (new_state u c) [c] qs)"
    unfolding Cons push_all_Cons by (simp add: push_def new_parser_def)
  then show ?thesis using Cons by (simp only: cut_camel_groups) simp
qed

text \<open>
  C37: The filter replaces every token by the groups of its runes, one token per group, one after the
  other from the start of the token, each taking one position: the states and the one rune of
  lookahead compute exactly the groups of \<open>camel_groups\<close>. A token with an empty term is replaced by
  one token with an empty term, which \<open>FlushTokens\<close> builds from the empty buffer.
\<close>

theorem camel_case_groups:
  "camel_case_filter u input =
     concat (map (\<lambda>t. tokens_at (Start t) (if runes (Term t) = [] then [[]] else camel_groups u (runes (Term t)))) input)"
  unfolding camel_case_filter_def flush_new_parser ..

text \<open>The groups of a term hold its runes in order, and none is empty.\<close>

lemma concat_camel_groups: "concat (camel_groups u rs) = rs" and camel_groups_ne: "[] \<notin> set (camel_groups u rs)"
  by (induction u rs rule: camel_groups.induct) simp_all

definition ascii_classes :: rune_classes where
  "ascii_classes = \<lparr>is_lower = (\<lambda>r. 0x61 \<le> r \<and> r \<le> 0x7A), is_upper = (\<lambda>r. 0x41 \<le> r \<and> r \<le> 0x5A), is_number = (\<lambda>r. 0x30 \<le> r \<and> r \<le> 0x39)\<rparr>"

definition http_token :: token where
  "http_token = \<lparr>Start = 3, End = 8, Term = [0x48, 0x54, 0x4D, 0x6C, 0x32], PositionIncr = 1, Type = AlphaNumeric, KeyWord = False\<rparr>"

text \<open>\<open>HTMl2\<close> is cut into \<open>HT\<close>, \<open>Ml\<close> and \<open>2\<close>.\<close>

lemma camel_case_http:
  "map Term (camel_case_filter ascii_classes [http_token]) = [[0x48, 0x54], [0x4D, 0x6C], [0x32]]"
  by code_simp

end
