(* ===== verification/Ascii_Folding.thy ===== *)
theory Ascii_Folding
  imports Utf8
begin

text \<open>
  The ASCII folding character filter (\<open>analysis/char/asciifolding.go\<close>): the table of its switch,
  in pieces in the order of the code, and \<open>foldToASCII\<close>, which writes the replacements into a
  slice that it extends within a capacity of four runes for each of the input. An entry of the
  table has the runes of the cases that share a body and the runes the body writes; the body first
  extends the slice by one less than it writes.
\<close>

section \<open>The table\<close>

definition fold_table_1 :: "(rune list \<times> rune list) list" where
  "fold_table_1 = [
    ([0xC0, 0xC1, 0xC2, 0xC3, 0xC4, 0xC5, 0x100, 0x102, 0x104, 0x18F, 0x1CD, 0x1DE, 0x1E0, 0x1FA, 0x200,
      0x202, 0x226, 0x23A, 0x1D00, 0x1E00, 0x1EA0, 0x1EA2, 0x1EA4, 0x1EA6, 0x1EA8, 0x1EAA, 0x1EAC,
      0x1EAE, 0x1EB0, 0x1EB2, 0x1EB4, 0x24B6, 0xFF21, 0x1EB6], [0x41])]"

definition fold_table_2 :: "(rune list \<times> rune list) list" where
  "fold_table_2 = [
    ([0xE0, 0xE1, 0xE2, 0xE3, 0xE4, 0xE5, 0x101, 0x103, 0x105, 0x1CE, 0x1DF, 0x1E1, 0x1FB, 0x201, 0x203,
      0x227, 0x250, 0x259, 0x25A, 0x1D8F, 0x1D95, 0x1E01, 0x1E9A, 0x1EA1, 0x1EA3, 0x1EA5, 0x1EA7, 0x1EA9,
      0x1EAB, 0x1EAD, 0x1EAF, 0x1EB1, 0x1EB3, 0x1EB5, 0x1EB7, 0x2090, 0x2094, 0x24D0, 0x2C65, 0x2C6F,
      0xFF41], [0x61]),
    ([0xA732], [0x41, 0x41]),
    ([0xC6, 0x1E2, 0x1FC, 0x1D01], [0x41, 0x45]),
    ([0xA734], [0x41, 0x4F]),
    ([0xA736], [0x41, 0x55]),
    ([0xA738, 0xA73A], [0x41, 0x56]),
    ([0xA73C], [0x41, 0x59]),
    ([0x249C], [0x28, 0x61, 0x29]),
    ([0xA733], [0x61, 0x61])]"

definition fold_table_3 :: "(rune list \<times> rune list) list" where
  "fold_table_3 = [
    ([0xE6, 0x1E3, 0x1FD, 0x1D02], [0x61, 0x65]),
    ([0xA735], [0x61, 0x6F]),
    ([0xA737], [0x61, 0x75]),
    ([0xA739, 0xA73B], [0x61, 0x76]),
    ([0xA73D], [0x61, 0x79]),
    ([0x181, 0x182, 0x243, 0x299, 0x1D03, 0x1E02, 0x1E04, 0x1E06, 0x24B7, 0xFF22], [0x42]),
    ([0x180, 0x183, 0x253, 0x1D6C, 0x1D80, 0x1E03, 0x1E05, 0x1E07, 0x24D1, 0xFF42], [0x62]),
    ([0x249D], [0x28, 0x62, 0x29]),
    ([0xC7, 0x106, 0x108, 0x10A, 0x10C, 0x187, 0x23B, 0x297, 0x1D04, 0x1E08, 0x24B8, 0xFF23], [0x43])]"

definition fold_table_4 :: "(rune list \<times> rune list) list" where
  "fold_table_4 = [
    ([0xE7, 0x107, 0x109, 0x10B, 0x10D, 0x188, 0x23C, 0x255, 0x1E09, 0x2184, 0x24D2, 0xA73E, 0xA73F,
      0xFF43], [0x63]),
    ([0x249E], [0x28, 0x63, 0x29]),
    ([0xD0, 0x10E, 0x110, 0x189, 0x18A, 0x18B, 0x1D05, 0x1D06, 0x1E0A, 0x1E0C, 0x1E0E, 0x1E10, 0x1E12,
      0x24B9, 0xA779, 0xFF24], [0x44]),
    ([0xF0, 0x10F, 0x111, 0x18C, 0x221, 0x256, 0x257, 0x1D6D, 0x1D81, 0x1D91, 0x1E0B, 0x1E0D, 0x1E0F,
      0x1E11, 0x1E13, 0x24D3, 0xA77A, 0xFF44], [0x64]),
    ([0x1C4, 0x1F1], [0x44, 0x5A]),
    ([0x1C5, 0x1F2], [0x44, 0x7A]),
    ([0x249F], [0x28, 0x64, 0x29]),
    ([0x238], [0x64, 0x62])]"

definition fold_table_5 :: "(rune list \<times> rune list) list" where
  "fold_table_5 = [
    ([0x1C6, 0x1F3, 0x2A3, 0x2A5], [0x64, 0x7A]),
    ([0xC8, 0xC9, 0xCA, 0xCB, 0x112, 0x114, 0x116, 0x118, 0x11A, 0x18E, 0x190, 0x204, 0x206, 0x228,
      0x246, 0x1D07, 0x1E14, 0x1E16, 0x1E18, 0x1E1A, 0x1E1C, 0x1EB8, 0x1EBA, 0x1EBC, 0x1EBE, 0x1EC0,
      0x1EC2, 0x1EC4, 0x1EC6, 0x24BA, 0x2C7B, 0xFF25], [0x45])]"

definition fold_table_6 :: "(rune list \<times> rune list) list" where
  "fold_table_6 = [
    ([0xE8, 0xE9, 0xEA, 0xEB, 0x113, 0x115, 0x117, 0x119, 0x11B, 0x1DD, 0x205, 0x207, 0x229, 0x247,
      0x258, 0x25B, 0x25C, 0x25D, 0x25E, 0x29A, 0x1D08, 0x1D92, 0x1D93, 0x1D94, 0x1E15, 0x1E17, 0x1E19,
      0x1E1B, 0x1E1D, 0x1EB9, 0x1EBB, 0x1EBD, 0x1EBF, 0x1EC1, 0x1EC3, 0x1EC5, 0x1EC7, 0x2091, 0x24D4,
      0x2C78, 0xFF45], [0x65]),
    ([0x24A0], [0x28, 0x65, 0x29]),
    ([0x191, 0x1E1E, 0x24BB, 0xA730, 0xA77B, 0xA7FB, 0xFF26], [0x46]),
    ([0x192, 0x1D6E, 0x1D82, 0x1E1F, 0x1E9B, 0x24D5, 0xA77C, 0xFF46], [0x66]),
    ([0x24A1], [0x28, 0x66, 0x29]),
    ([0xFB00], [0x66, 0x66])]"

definition fold_table_7 :: "(rune list \<times> rune list) list" where
  "fold_table_7 = [
    ([0xFB03], [0x66, 0x66, 0x69]),
    ([0xFB04], [0x66, 0x66, 0x6C]),
    ([0xFB01], [0x66, 0x69]),
    ([0xFB02], [0x66, 0x6C]),
    ([0x11C, 0x11E, 0x120, 0x122, 0x193, 0x1E4, 0x1E5, 0x1E6, 0x1E7, 0x1F4, 0x262, 0x29B, 0x1E20, 0x24BC,
      0xA77D, 0xA77E, 0xFF27], [0x47]),
    ([0x11D, 0x11F, 0x121, 0x123, 0x1F5, 0x260, 0x261, 0x1D77, 0x1D79, 0x1D83, 0x1E21, 0x24D6, 0xA77F,
      0xFF47], [0x67]),
    ([0x24A2], [0x28, 0x67, 0x29]),
    ([0x124, 0x126, 0x21E, 0x29C, 0x1E22, 0x1E24, 0x1E26, 0x1E28, 0x1E2A, 0x24BD, 0x2C67, 0x2C75, 0xFF28], [0x48])]"

definition fold_table_8 :: "(rune list \<times> rune list) list" where
  "fold_table_8 = [
    ([0x125, 0x127, 0x21F, 0x265, 0x266, 0x2AE, 0x2AF, 0x1E23, 0x1E25, 0x1E27, 0x1E29, 0x1E2B, 0x1E96,
      0x24D7, 0x2C68, 0x2C76, 0xFF48], [0x68]),
    ([0x1F6], [0x48, 0x56]),
    ([0x24A3], [0x28, 0x68, 0x29]),
    ([0x195], [0x68, 0x76]),
    ([0xCC, 0xCD, 0xCE, 0xCF, 0x128, 0x12A, 0x12C, 0x12E, 0x130, 0x196, 0x197, 0x1CF, 0x208, 0x20A,
      0x26A, 0x1D7B, 0x1E2C, 0x1E2E, 0x1EC8, 0x1ECA, 0x24BE, 0xA7FE, 0xFF29], [0x49])]"

definition fold_table_9 :: "(rune list \<times> rune list) list" where
  "fold_table_9 = [
    ([0xEC, 0xED, 0xEE, 0xEF, 0x129, 0x12B, 0x12D, 0x12F, 0x131, 0x1D0, 0x209, 0x20B, 0x268, 0x1D09,
      0x1D62, 0x1D7C, 0x1D96, 0x1E2D, 0x1E2F, 0x1EC9, 0x1ECB, 0x2071, 0x24D8, 0xFF49], [0x69]),
    ([0x132], [0x49, 0x4A]),
    ([0x24A4], [0x28, 0x69, 0x29]),
    ([0x133], [0x69, 0x6A]),
    ([0x134, 0x248, 0x1D0A, 0x24BF, 0xFF2A], [0x4A]),
    ([0x135, 0x1F0, 0x237, 0x249, 0x25F, 0x284, 0x29D, 0x24D9, 0x2C7C, 0xFF4A], [0x6A]),
    ([0x24A5], [0x28, 0x6A, 0x29]),
    ([0x136, 0x198, 0x1E8, 0x1D0B, 0x1E30, 0x1E32, 0x1E34, 0x24C0, 0x2C69, 0xA740, 0xA742, 0xA744,
      0xFF2B], [0x4B])]"

definition fold_table_10 :: "(rune list \<times> rune list) list" where
  "fold_table_10 = [
    ([0x137, 0x199, 0x1E9, 0x29E, 0x1D84, 0x1E31, 0x1E33, 0x1E35, 0x24DA, 0x2C6A, 0xA741, 0xA743, 0xA745,
      0xFF4B], [0x6B]),
    ([0x24A6], [0x28, 0x6B, 0x29]),
    ([0x139, 0x13B, 0x13D, 0x13F, 0x141, 0x23D, 0x29F, 0x1D0C, 0x1E36, 0x1E38, 0x1E3A, 0x1E3C, 0x24C1,
      0x2C60, 0x2C62, 0xA746, 0xA748, 0xA780, 0xFF2C], [0x4C]),
    ([0x13A, 0x13C, 0x13E, 0x140, 0x142, 0x19A, 0x234, 0x26B, 0x26C, 0x26D, 0x1D85, 0x1E37, 0x1E39,
      0x1E3B, 0x1E3D, 0x24DB, 0x2C61, 0xA747, 0xA749, 0xA781, 0xFF4C], [0x6C]),
    ([0x1C7], [0x4C, 0x4A]),
    ([0x1EFA], [0x4C, 0x4C]),
    ([0x1C8], [0x4C, 0x6A])]"

definition fold_table_11 :: "(rune list \<times> rune list) list" where
  "fold_table_11 = [
    ([0x24A7], [0x28, 0x6C, 0x29]),
    ([0x1C9], [0x6C, 0x6A]),
    ([0x1EFB], [0x6C, 0x6C]),
    ([0x2AA], [0x6C, 0x73]),
    ([0x2AB], [0x6C, 0x7A]),
    ([0x19C, 0x1D0D, 0x1E3E, 0x1E40, 0x1E42, 0x24C2, 0x2C6E, 0xA7FD, 0xA7FF, 0xFF2D], [0x4D]),
    ([0x26F, 0x270, 0x271, 0x1D6F, 0x1D86, 0x1E3F, 0x1E41, 0x1E43, 0x24DC, 0xFF4D], [0x6D]),
    ([0x24A8], [0x28, 0x6D, 0x29]),
    ([0xD1, 0x143, 0x145, 0x147, 0x14A, 0x19D, 0x1F8, 0x220, 0x274, 0x1D0E, 0x1E44, 0x1E46, 0x1E48,
      0x1E4A, 0x24C3, 0xFF2E], [0x4E])]"

definition fold_table_12 :: "(rune list \<times> rune list) list" where
  "fold_table_12 = [
    ([0xF1, 0x144, 0x146, 0x148, 0x149, 0x14B, 0x19E, 0x1F9, 0x235, 0x272, 0x273, 0x1D70, 0x1D87, 0x1E45,
      0x1E47, 0x1E49, 0x1E4B, 0x207F, 0x24DD, 0xFF4E], [0x6E]),
    ([0x1CA], [0x4E, 0x4A]),
    ([0x1CB], [0x4E, 0x6A]),
    ([0x24A9], [0x28, 0x6E, 0x29]),
    ([0x1CC], [0x6E, 0x6A])]"

definition fold_table_13 :: "(rune list \<times> rune list) list" where
  "fold_table_13 = [
    ([0xD2, 0xD3, 0xD4, 0xD5, 0xD6, 0xD8, 0x14C, 0x14E, 0x150, 0x186, 0x19F, 0x1A0, 0x1D1, 0x1EA, 0x1EC,
      0x1FE, 0x20C, 0x20E, 0x22A, 0x22C, 0x22E, 0x230, 0x1D0F, 0x1D10, 0x1E4C, 0x1E4E, 0x1E50, 0x1E52,
      0x1ECC, 0x1ECE, 0x1ED0, 0x1ED2, 0x1ED4, 0x1ED6, 0x1ED8, 0x1EDA, 0x1EDC, 0x1EDE, 0x1EE0, 0x1EE2,
      0x24C4, 0xA74A, 0xA74C, 0xFF2F], [0x4F])]"

definition fold_table_14 :: "(rune list \<times> rune list) list" where
  "fold_table_14 = [
    ([0xF2, 0xF3, 0xF4, 0xF5, 0xF6, 0xF8, 0x14D, 0x14F, 0x151, 0x1A1, 0x1D2, 0x1EB, 0x1ED, 0x1FF, 0x20D,
      0x20F, 0x22B, 0x22D, 0x22F, 0x231, 0x254, 0x275, 0x1D16, 0x1D17, 0x1D97, 0x1E4D, 0x1E4F, 0x1E51,
      0x1E53, 0x1ECD, 0x1ECF, 0x1ED1, 0x1ED3, 0x1ED5, 0x1ED7, 0x1ED9, 0x1EDB, 0x1EDD, 0x1EDF, 0x1EE1,
      0x1EE3, 0x2092, 0x24DE, 0x2C7A, 0xA74B, 0xA74D, 0xFF4F], [0x6F]),
    ([0x152, 0x276], [0x4F, 0x45]),
    ([0xA74E], [0x4F, 0x4F]),
    ([0x222, 0x1D15], [0x4F, 0x55]),
    ([0x24AA], [0x28, 0x6F, 0x29]),
    ([0x153, 0x1D14], [0x6F, 0x65]),
    ([0xA74F], [0x6F, 0x6F])]"

definition fold_table_15 :: "(rune list \<times> rune list) list" where
  "fold_table_15 = [
    ([0x223], [0x6F, 0x75]),
    ([0x1A4, 0x1D18, 0x1E54, 0x1E56, 0x24C5, 0x2C63, 0xA750, 0xA752, 0xA754, 0xFF30], [0x50]),
    ([0x1A5, 0x1D71, 0x1D7D, 0x1D88, 0x1E55, 0x1E57, 0x24DF, 0xA751, 0xA753, 0xA755, 0xA7FC, 0xFF50], [0x70]),
    ([0x24AB], [0x28, 0x70, 0x29]),
    ([0x24A, 0x24C6, 0xA756, 0xA758, 0xFF31], [0x51]),
    ([0x138, 0x24B, 0x2A0, 0x24E0, 0xA757, 0xA759, 0xFF51], [0x71]),
    ([0x24AC], [0x28, 0x71, 0x29]),
    ([0x239], [0x71, 0x70]),
    ([0x154, 0x156, 0x158, 0x210, 0x212, 0x24C, 0x280, 0x281, 0x1D19, 0x1D1A, 0x1E58, 0x1E5A, 0x1E5C,
      0x1E5E, 0x24C7, 0x2C64, 0xA75A, 0xA782, 0xFF32], [0x52])]"

definition fold_table_16 :: "(rune list \<times> rune list) list" where
  "fold_table_16 = [
    ([0x155, 0x157, 0x159, 0x211, 0x213, 0x24D, 0x27C, 0x27D, 0x27E, 0x27F, 0x1D63, 0x1D72, 0x1D73,
      0x1D89, 0x1E59, 0x1E5B, 0x1E5D, 0x1E5F, 0x24E1, 0xA75B, 0xA783, 0xFF52], [0x72]),
    ([0x24AD], [0x28, 0x72, 0x29]),
    ([0x15A, 0x15C, 0x15E, 0x160, 0x218, 0x1E60, 0x1E62, 0x1E64, 0x1E66, 0x1E68, 0x24C8, 0xA731, 0xA785,
      0xFF33], [0x53]),
    ([0x15B, 0x15D, 0x15F, 0x161, 0x17F, 0x219, 0x23F, 0x282, 0x1D74, 0x1D8A, 0x1E61, 0x1E63, 0x1E65,
      0x1E67, 0x1E69, 0x1E9C, 0x1E9D, 0x24E2, 0xA784, 0xFF53], [0x73]),
    ([0x1E9E], [0x53, 0x53]),
    ([0x24AE], [0x28, 0x73, 0x29]),
    ([0xDF], [0x73, 0x73])]"

definition fold_table_17 :: "(rune list \<times> rune list) list" where
  "fold_table_17 = [
    ([0xFB06], [0x73, 0x74]),
    ([0x162, 0x164, 0x166, 0x1AC, 0x1AE, 0x21A, 0x23E, 0x1D1B, 0x1E6A, 0x1E6C, 0x1E6E, 0x1E70, 0x24C9,
      0xA786, 0xFF34], [0x54]),
    ([0x163, 0x165, 0x167, 0x1AB, 0x1AD, 0x21B, 0x236, 0x287, 0x288, 0x1D75, 0x1E6B, 0x1E6D, 0x1E6F,
      0x1E71, 0x1E97, 0x24E3, 0x2C66, 0xFF54], [0x74]),
    ([0xDE, 0xA766], [0x54, 0x48]),
    ([0xA728], [0x54, 0x5A]),
    ([0x24AF], [0x28, 0x74, 0x29]),
    ([0x2A8], [0x74, 0x63]),
    ([0xFE, 0x1D7A, 0xA767], [0x74, 0x68]),
    ([0x2A6], [0x74, 0x73]),
    ([0xA729], [0x74, 0x7A])]"

definition fold_table_18 :: "(rune list \<times> rune list) list" where
  "fold_table_18 = [
    ([0xD9, 0xDA, 0xDB, 0xDC, 0x168, 0x16A, 0x16C, 0x16E, 0x170, 0x172, 0x1AF, 0x1D3, 0x1D5, 0x1D7,
      0x1D9, 0x1DB, 0x214, 0x216, 0x244, 0x1D1C, 0x1D7E, 0x1E72, 0x1E74, 0x1E76, 0x1E78, 0x1E7A, 0x1EE4,
      0x1EE6, 0x1EE8, 0x1EEA, 0x1EEC, 0x1EEE, 0x1EF0, 0x24CA, 0xFF35], [0x55]),
    ([0xF9, 0xFA, 0xFB, 0xFC, 0x169, 0x16B, 0x16D, 0x16F, 0x171, 0x173, 0x1B0, 0x1D4, 0x1D6, 0x1D8,
      0x1DA, 0x1DC, 0x215, 0x217, 0x289, 0x1D64, 0x1D99, 0x1E73, 0x1E75, 0x1E77, 0x1E79, 0x1E7B, 0x1EE5,
      0x1EE7, 0x1EE9, 0x1EEB, 0x1EED, 0x1EEF, 0x1EF1, 0x24E4, 0xFF55], [0x75])]"

definition fold_table_19 :: "(rune list \<times> rune list) list" where
  "fold_table_19 = [
    ([0x24B0], [0x28, 0x75, 0x29]),
    ([0x1D6B], [0x75, 0x65]),
    ([0x1B2, 0x245, 0x1D20, 0x1E7C, 0x1E7E, 0x1EFC, 0x24CB, 0xA75E, 0xA768, 0xFF36], [0x56]),
    ([0x28B, 0x28C, 0x1D65, 0x1D8C, 0x1E7D, 0x1E7F, 0x24E5, 0x2C71, 0x2C74, 0xA75F, 0xFF56], [0x76]),
    ([0xA760], [0x56, 0x59]),
    ([0x24B1], [0x28, 0x76, 0x29]),
    ([0xA761], [0x76, 0x79]),
    ([0x174, 0x1F7, 0x1D21, 0x1E80, 0x1E82, 0x1E84, 0x1E86, 0x1E88, 0x24CC, 0x2C72, 0xFF37], [0x57]),
    ([0x175, 0x1BF, 0x28D, 0x1E81, 0x1E83, 0x1E85, 0x1E87, 0x1E89, 0x1E98, 0x24E6, 0x2C73, 0xFF57], [0x77]),
    ([0x24B2], [0x28, 0x77, 0x29])]"

definition fold_table_20 :: "(rune list \<times> rune list) list" where
  "fold_table_20 = [
    ([0x1E8A, 0x1E8C, 0x24CD, 0xFF38], [0x58]),
    ([0x1D8D, 0x1E8B, 0x1E8D, 0x2093, 0x24E7, 0xFF58], [0x78]),
    ([0x24B3], [0x28, 0x78, 0x29]),
    ([0xDD, 0x176, 0x178, 0x1B3, 0x232, 0x24E, 0x28F, 0x1E8E, 0x1EF2, 0x1EF4, 0x1EF6, 0x1EF8, 0x1EFE,
      0x24CE, 0xFF39], [0x59]),
    ([0xFD, 0xFF, 0x177, 0x1B4, 0x233, 0x24F, 0x28E, 0x1E8F, 0x1E99, 0x1EF3, 0x1EF5, 0x1EF7, 0x1EF9,
      0x1EFF, 0x24E8, 0xFF59], [0x79]),
    ([0x24B4], [0x28, 0x79, 0x29]),
    ([0x179, 0x17B, 0x17D, 0x1B5, 0x21C, 0x224, 0x1D22, 0x1E90, 0x1E92, 0x1E94, 0x24CF, 0x2C6B, 0xA762,
      0xFF3A], [0x5A])]"

definition fold_table_21 :: "(rune list \<times> rune list) list" where
  "fold_table_21 = [
    ([0x17A, 0x17C, 0x17E, 0x1B6, 0x21D, 0x225, 0x240, 0x290, 0x291, 0x1D76, 0x1D8E, 0x1E91, 0x1E93,
      0x1E95, 0x24E9, 0x2C6C, 0xA763, 0xFF5A], [0x7A]),
    ([0x24B5], [0x28, 0x7A, 0x29]),
    ([0x2070, 0x2080, 0x24EA, 0x24FF, 0xFF10], [0x30]),
    ([0xB9, 0x2081, 0x2460, 0x24F5, 0x2776, 0x2780, 0x278A, 0xFF11], [0x31]),
    ([0x2488], [0x31, 0x2E]),
    ([0x2474], [0x28, 0x31, 0x29]),
    ([0xB2, 0x2082, 0x2461, 0x24F6, 0x2777, 0x2781, 0x278B, 0xFF12], [0x32]),
    ([0x2489], [0x32, 0x2E]),
    ([0x2475], [0x28, 0x32, 0x29]),
    ([0xB3, 0x2083, 0x2462, 0x24F7, 0x2778, 0x2782, 0x278C, 0xFF13], [0x33])]"

definition fold_table_22 :: "(rune list \<times> rune list) list" where
  "fold_table_22 = [
    ([0x248A], [0x33, 0x2E]),
    ([0x2476], [0x28, 0x33, 0x29]),
    ([0x2074, 0x2084, 0x2463, 0x24F8, 0x2779, 0x2783, 0x278D, 0xFF14], [0x34]),
    ([0x248B], [0x34, 0x2E]),
    ([0x2477], [0x28, 0x34, 0x29]),
    ([0x2075, 0x2085, 0x2464, 0x24F9, 0x277A, 0x2784, 0x278E, 0xFF15], [0x35]),
    ([0x248C], [0x35, 0x2E]),
    ([0x2478], [0x28, 0x35, 0x29]),
    ([0x2076, 0x2086, 0x2465, 0x24FA, 0x277B, 0x2785, 0x278F, 0xFF16], [0x36]),
    ([0x248D], [0x36, 0x2E]),
    ([0x2479], [0x28, 0x36, 0x29]),
    ([0x2077, 0x2087, 0x2466, 0x24FB, 0x277C, 0x2786, 0x2790, 0xFF17], [0x37]),
    ([0x248E], [0x37, 0x2E])]"

definition fold_table_23 :: "(rune list \<times> rune list) list" where
  "fold_table_23 = [
    ([0x247A], [0x28, 0x37, 0x29]),
    ([0x2078, 0x2088, 0x2467, 0x24FC, 0x277D, 0x2787, 0x2791, 0xFF18], [0x38]),
    ([0x248F], [0x38, 0x2E]),
    ([0x247B], [0x28, 0x38, 0x29]),
    ([0x2079, 0x2089, 0x2468, 0x24FD, 0x277E, 0x2788, 0x2792, 0xFF19], [0x39]),
    ([0x2490], [0x39, 0x2E]),
    ([0x247C], [0x28, 0x39, 0x29]),
    ([0x2469, 0x24FE, 0x277F, 0x2789, 0x2793], [0x31, 0x30]),
    ([0x2491], [0x31, 0x30, 0x2E]),
    ([0x247D], [0x28, 0x31, 0x30, 0x29]),
    ([0x246A, 0x24EB], [0x31, 0x31]),
    ([0x2492], [0x31, 0x31, 0x2E]),
    ([0x247E], [0x28, 0x31, 0x31, 0x29]),
    ([0x246B, 0x24EC], [0x31, 0x32])]"

definition fold_table_24 :: "(rune list \<times> rune list) list" where
  "fold_table_24 = [
    ([0x2493], [0x31, 0x32, 0x2E]),
    ([0x247F], [0x28, 0x31, 0x32, 0x29]),
    ([0x246C, 0x24ED], [0x31, 0x33]),
    ([0x2494], [0x31, 0x33, 0x2E]),
    ([0x2480], [0x28, 0x31, 0x33, 0x29]),
    ([0x246D, 0x24EE], [0x31, 0x34]),
    ([0x2495], [0x31, 0x34, 0x2E]),
    ([0x2481], [0x28, 0x31, 0x34, 0x29]),
    ([0x246E, 0x24EF], [0x31, 0x35]),
    ([0x2496], [0x31, 0x35, 0x2E]),
    ([0x2482], [0x28, 0x31, 0x35, 0x29]),
    ([0x246F, 0x24F0], [0x31, 0x36]),
    ([0x2497], [0x31, 0x36, 0x2E]),
    ([0x2483], [0x28, 0x31, 0x36, 0x29]),
    ([0x2470, 0x24F1], [0x31, 0x37])]"

definition fold_table_25 :: "(rune list \<times> rune list) list" where
  "fold_table_25 = [
    ([0x2498], [0x31, 0x37, 0x2E]),
    ([0x2484], [0x28, 0x31, 0x37, 0x29]),
    ([0x2471, 0x24F2], [0x31, 0x38]),
    ([0x2499], [0x31, 0x38, 0x2E]),
    ([0x2485], [0x28, 0x31, 0x38, 0x29]),
    ([0x2472, 0x24F3], [0x31, 0x39]),
    ([0x249A], [0x31, 0x39, 0x2E]),
    ([0x2486], [0x28, 0x31, 0x39, 0x29]),
    ([0x2473, 0x24F4], [0x32, 0x30]),
    ([0x249B], [0x32, 0x30, 0x2E]),
    ([0x2487], [0x28, 0x32, 0x30, 0x29]),
    ([0xAB, 0xBB, 0x201C, 0x201D, 0x201E, 0x2033, 0x2036, 0x275D, 0x275E, 0x276E, 0x276F, 0xFF02], [0x22])]"

definition fold_table_26 :: "(rune list \<times> rune list) list" where
  "fold_table_26 = [
    ([0x2018, 0x2019, 0x201A, 0x201B, 0x2032, 0x2035, 0x2039, 0x203A, 0x275B, 0x275C, 0xFF07], [0x27]),
    ([0x2010, 0x2011, 0x2012, 0x2013, 0x2014, 0x207B, 0x208B, 0xFF0D], [0x2D]),
    ([0x2045, 0x2772, 0xFF3B], [0x5B]),
    ([0x2046, 0x2773, 0xFF3D], [0x5D]),
    ([0x207D, 0x208D, 0x2768, 0x276A, 0xFF08], [0x28]),
    ([0x2E28], [0x28, 0x28]),
    ([0x207E, 0x208E, 0x2769, 0x276B, 0xFF09], [0x29]),
    ([0x2E29], [0x29, 0x29]),
    ([0x276C, 0x2770, 0xFF1C], [0x3C]),
    ([0x276D, 0x2771, 0xFF1E], [0x3E]),
    ([0x2774, 0xFF5B], [0x7B]),
    ([0x2775, 0xFF5D], [0x7D]),
    ([0x207A, 0x208A, 0xFF0B], [0x2B]),
    ([0x207C, 0x208C, 0xFF1D], [0x3D]),
    ([0xFF01], [0x21]),
    ([0x203C], [0x21, 0x21])]"

definition fold_table_27 :: "(rune list \<times> rune list) list" where
  "fold_table_27 = [
    ([0x2049], [0x21, 0x3F]),
    ([0xFF03], [0x23]),
    ([0xFF04], [0x24]),
    ([0x2052, 0xFF05], [0x25]),
    ([0xFF06], [0x26]),
    ([0x204E, 0xFF0A], [0x2A]),
    ([0xFF0C], [0x2C]),
    ([0xFF0E], [0x2E]),
    ([0x2044, 0xFF0F], [0x2F]),
    ([0xFF1A], [0x3A]),
    ([0x204F, 0xFF1B], [0x3B]),
    ([0xFF1F], [0x3F]),
    ([0x2047], [0x3F, 0x3F]),
    ([0x2048], [0x3F, 0x21]),
    ([0xFF20], [0x40]),
    ([0xFF3C], [0x5C]),
    ([0x2038, 0xFF3E], [0x5E]),
    ([0xFF3F], [0x5F]),
    ([0x2053, 0xFF5E], [0x7E])]"

definition fold_table :: "(rune list \<times> rune list) list" where
  "fold_table =
     fold_table_1 @ fold_table_2 @ fold_table_3 @ fold_table_4 @ fold_table_5 @ fold_table_6 @
     fold_table_7 @ fold_table_8 @ fold_table_9 @ fold_table_10 @ fold_table_11 @ fold_table_12 @
     fold_table_13 @ fold_table_14 @ fold_table_15 @ fold_table_16 @ fold_table_17 @ fold_table_18 @
     fold_table_19 @ fold_table_20 @ fold_table_21 @ fold_table_22 @ fold_table_23 @ fold_table_24 @
     fold_table_25 @ fold_table_26 @ fold_table_27"

section \<open>The filter\<close>

text \<open>The body of the loop for one rune: by how much the slice grows and what is written.\<close>

definition fold_case :: "rune \<Rightarrow> nat \<times> rune list" where
  "fold_case c =
     (if c < 0x80 then (0, [c])
      else case find (\<lambda>(cases, outs). c \<in> set cases) fold_table of
          Some (cases, outs) \<Rightarrow> (length outs - 1, outs)
        | None \<Rightarrow> (0, [c]))"

text \<open>\<open>output[outputPos] = r; outputPos++\<close> for each rune; out of range it panics.\<close>

fun write_runes :: "rune list \<Rightarrow> nat \<Rightarrow> rune list \<Rightarrow> (rune list \<times> nat) option" where
  "write_runes out outputPos [] = Some (out, outputPos)"
| "write_runes out outputPos (r # rs) =
     (if outputPos < length out then write_runes (out[outputPos := r]) (outputPos + 1) rs else None)"

fun fold_to_ascii :: "nat \<Rightarrow> rune list \<Rightarrow> rune list \<Rightarrow> nat \<Rightarrow> rune list option" where
  "fold_to_ascii cap [] out outputPos = Some out"
| "fold_to_ascii cap (c # input) out outputPos =
     (case fold_case c of (grow, outs) \<Rightarrow>
        if length out + grow > cap then None
        else case write_runes (out @ replicate grow 0) outputPos outs of
            None \<Rightarrow> None
          | Some (out, outputPos) \<Rightarrow> fold_to_ascii cap input out outputPos)"

definition max_rune_expansion :: nat where
  "max_rune_expansion = 4"

definition ascii_folding_filter :: "bytes \<Rightarrow> bytes option" where
  "ascii_folding_filter input =
     (if input = [] then Some input
      else let rs = runes input; len = length rs in
        map_option encode_runes (fold_to_ascii (len * max_rune_expansion) rs (replicate len 0) 0))"

section \<open>Entries\<close>

text \<open>Every entry writes between one and four ASCII runes for runes that are not ASCII.\<close>

definition fold_entry_ok :: "rune list \<times> rune list \<Rightarrow> bool" where
  "fold_entry_ok e \<longleftrightarrow>
     1 \<le> length (snd e) \<and> length (snd e) \<le> 4 \<and> list_all (\<lambda>r. 0 \<le> r \<and> r < 0x80) (snd e) \<and> list_all (\<lambda>c. 0x80 \<le> c) (fst e)"

lemma fold_table_1_ok: "list_all fold_entry_ok fold_table_1"
  by code_simp

lemma fold_table_2_ok: "list_all fold_entry_ok fold_table_2"
  by code_simp

lemma fold_table_3_ok: "list_all fold_entry_ok fold_table_3"
  by code_simp

lemma fold_table_4_ok: "list_all fold_entry_ok fold_table_4"
  by code_simp

lemma fold_table_5_ok: "list_all fold_entry_ok fold_table_5"
  by code_simp

lemma fold_table_6_ok: "list_all fold_entry_ok fold_table_6"
  by code_simp

lemma fold_table_7_ok: "list_all fold_entry_ok fold_table_7"
  by code_simp

lemma fold_table_8_ok: "list_all fold_entry_ok fold_table_8"
  by code_simp

lemma fold_table_9_ok: "list_all fold_entry_ok fold_table_9"
  by code_simp

lemma fold_table_10_ok: "list_all fold_entry_ok fold_table_10"
  by code_simp

lemma fold_table_11_ok: "list_all fold_entry_ok fold_table_11"
  by code_simp

lemma fold_table_12_ok: "list_all fold_entry_ok fold_table_12"
  by code_simp

lemma fold_table_13_ok: "list_all fold_entry_ok fold_table_13"
  by code_simp

lemma fold_table_14_ok: "list_all fold_entry_ok fold_table_14"
  by code_simp

lemma fold_table_15_ok: "list_all fold_entry_ok fold_table_15"
  by code_simp

lemma fold_table_16_ok: "list_all fold_entry_ok fold_table_16"
  by code_simp

lemma fold_table_17_ok: "list_all fold_entry_ok fold_table_17"
  by code_simp

lemma fold_table_18_ok: "list_all fold_entry_ok fold_table_18"
  by code_simp

lemma fold_table_19_ok: "list_all fold_entry_ok fold_table_19"
  by code_simp

lemma fold_table_20_ok: "list_all fold_entry_ok fold_table_20"
  by code_simp

lemma fold_table_21_ok: "list_all fold_entry_ok fold_table_21"
  by code_simp

lemma fold_table_22_ok: "list_all fold_entry_ok fold_table_22"
  by code_simp

lemma fold_table_23_ok: "list_all fold_entry_ok fold_table_23"
  by code_simp

lemma fold_table_24_ok: "list_all fold_entry_ok fold_table_24"
  by code_simp

lemma fold_table_25_ok: "list_all fold_entry_ok fold_table_25"
  by code_simp

lemma fold_table_26_ok: "list_all fold_entry_ok fold_table_26"
  by code_simp

lemma fold_table_27_ok: "list_all fold_entry_ok fold_table_27"
  by code_simp

lemmas fold_tables_ok =
    fold_table_1_ok fold_table_2_ok fold_table_3_ok fold_table_4_ok fold_table_5_ok fold_table_6_ok
    fold_table_7_ok fold_table_8_ok fold_table_9_ok fold_table_10_ok fold_table_11_ok fold_table_12_ok
    fold_table_13_ok fold_table_14_ok fold_table_15_ok fold_table_16_ok fold_table_17_ok
    fold_table_18_ok fold_table_19_ok fold_table_20_ok fold_table_21_ok fold_table_22_ok
    fold_table_23_ok fold_table_24_ok fold_table_25_ok fold_table_26_ok fold_table_27_ok

lemma fold_table_ok: "e \<in> set fold_table \<Longrightarrow> fold_entry_ok e"
proof -
  have "list_all fold_entry_ok fold_table" unfolding fold_table_def list_all_append by (intro conjI fold_tables_ok)
  then show "e \<in> set fold_table \<Longrightarrow> fold_entry_ok e" by (simp add: list_all_iff)
qed

definition fold_rune :: "rune \<Rightarrow> rune list" where
  "fold_rune c = snd (fold_case c)"

definition ascii_rune :: "rune \<Rightarrow> bool" where
  "ascii_rune r \<longleftrightarrow> 0 \<le> r \<and> r < 0x80"

lemma fold_case_cases:
  obtains "fold_case c = (0, [c])" "c < 0x80 \<or> (\<forall>e\<in>set fold_table. c \<notin> set (fst e))"
  | outs where "fold_case c = (length outs - 1, outs)" "1 \<le> length outs" "length outs \<le> 4" "\<forall>r\<in>set outs. ascii_rune r" "0x80 \<le> c"
proof (cases "c < 0x80")
  case True
  then show ?thesis using that(1) by (simp add: fold_case_def)
next
  case ge: False
  show ?thesis
  proof (cases "find (\<lambda>(cases, outs). c \<in> set cases) fold_table")
    case None
    then have "\<forall>e\<in>set fold_table. c \<notin> set (fst e)" by (auto simp: find_None_iff split: prod.splits)
    moreover have "fold_case c = (0, [c])" using None ge by (simp add: fold_case_def)
    ultimately show ?thesis using that(1) by simp
  next
    case (Some e)
    then have "e \<in> set fold_table" unfolding find_Some_iff using nth_mem by blast
    then show ?thesis
      using that(2) [of "snd e"] fold_table_ok [of e] Some ge
      by (auto simp: fold_case_def fold_entry_ok_def list_all_iff ascii_rune_def split: prod.splits)
  qed
qed

lemma fold_case_shape: "fst (fold_case c) = length (fold_rune c) - 1 \<and> 1 \<le> length (fold_rune c) \<and> length (fold_rune c) \<le> 4"
  unfolding fold_rune_def by (cases c rule: fold_case_cases) simp_all

lemma write_runes:
  "outputPos + length rs \<le> length out \<Longrightarrow>
   write_runes out outputPos rs = Some (take outputPos out @ rs @ drop (outputPos + length rs) out, outputPos + length rs)"
proof (induction out outputPos rs rule: write_runes.induct)
  case (2 out outputPos r rs)
  then have "outputPos < length out" by simp
  then show ?case using 2 by (simp add: take_Suc_conv_app_nth)
qed simp

lemma fold_to_ascii:
  assumes "length out = outputPos + length input" "outputPos + 4 * length input \<le> cap"
  shows "fold_to_ascii cap input out outputPos = Some (take outputPos out @ concat (map fold_rune input))"
  using assms
proof (induction cap input out outputPos rule: fold_to_ascii.induct)
  case (2 cap c input out outputPos)
  obtain grow outs where c: "fold_case c = (grow, outs)" by (cases "fold_case c")
  then have s: "grow = length outs - 1" "1 \<le> length outs" "length outs \<le> 4" "fold_rune c = outs"
    using fold_case_shape [of c] by (simp_all add: fold_rune_def)
  have cap: "\<not> length out + grow > cap" using s 2(2,3) by simp
  let ?out = "out @ replicate grow 0"
  have fits: "outputPos + length outs \<le> length ?out" using s 2(2) by simp
  have w: "write_runes ?out outputPos outs = Some (take outputPos ?out @ outs @ drop (outputPos + length outs) ?out, outputPos + length outs)"
    using fits by (rule write_runes)
  have "fold_to_ascii cap input (take outputPos ?out @ outs @ drop (outputPos + length outs) ?out) (outputPos + length outs) =
      Some (take (outputPos + length outs) (take outputPos ?out @ outs @ drop (outputPos + length outs) ?out) @ concat (map fold_rune input))"
    by (rule 2(1) [OF c [symmetric] cap w refl]) (use s 2(2,3) in auto)
  also have "take (outputPos + length outs) (take outputPos ?out @ outs @ drop (outputPos + length outs) ?out) = take outputPos out @ outs"
    using 2(2) by simp
  finally show ?case using c cap w s(4) by simp
qed simp

text \<open>
  Folding never writes or grows past the capacity of its slice, and gives the replacement of every
  rune: one that is ASCII or in no case of the switch stays, any other becomes up to four ASCII
  runes.
\<close>

lemma ascii_folding_filter: "ascii_folding_filter input = Some (encode_runes (concat (map fold_rune (runes input))))"
proof (cases "input = []")
  case False
  have "fold_to_ascii (length (runes input) * 4) (runes input) (replicate (length (runes input)) 0) 0 =
      Some (take 0 (replicate (length (runes input)) 0) @ concat (map fold_rune (runes input)))"
    by (rule fold_to_ascii) simp_all
  then show ?thesis using False by (simp add: ascii_folding_filter_def max_rune_expansion_def)
qed (simp add: ascii_folding_filter_def)

lemma fold_rune_ascii: "ascii_rune r \<Longrightarrow> fold_rune r = [r]"
  by (simp add: fold_rune_def fold_case_def ascii_rune_def)

lemma fold_rune_fold: "concat (map fold_rune (fold_rune c)) = fold_rune c"
proof (cases c rule: fold_case_cases)
  case 1
  then show ?thesis by (simp add: fold_rune_def)
next
  case (2 outs)
  have "concat (map fold_rune rs) = rs" if "\<forall>r\<in>set rs. ascii_rune r" for rs
    using that by (induction rs) (simp_all add: fold_rune_ascii)
  then show ?thesis using 2 by (simp add: fold_rune_def)
qed

lemma fold_rune_valid: "valid_rune c \<Longrightarrow> \<forall>r\<in>set (fold_rune c). valid_rune r"
  by (cases c rule: fold_case_cases) (auto simp: fold_rune_def valid_rune_def ascii_rune_def)

text \<open>
  C39: Folding never panics; folding a folded text changes nothing, folding ASCII changes nothing, and on an input of
  runes that are ASCII or have an entry the result is ASCII.
\<close>

theorem ascii_folding_idempotent:
  "(\<exists>out. ascii_folding_filter input = Some out \<and> ascii_folding_filter out = Some out \<and>
     ((\<forall>r\<in>set (runes input). ascii_rune r \<or> (\<exists>e\<in>set fold_table. r \<in> set (fst e))) \<longrightarrow> (\<forall>b\<in>set out. uint b < 0x80)) \<and>
     ((\<forall>b\<in>set input. uint b < 0x80) \<longrightarrow> out = input))"
proof -
  let ?rs = "concat (map fold_rune (runes input))"
  have v: "\<forall>r\<in>set ?rs. valid_rune r" using fold_rune_valid runes_valid by fastforce
  have "concat (map fold_rune (concat (map fold_rune rs))) = concat (map fold_rune rs)" for rs
    by (induction rs) (simp_all add: fold_rune_fold)
  then have "ascii_folding_filter (encode_runes ?rs) = Some (encode_runes ?rs)"
    unfolding ascii_folding_filter runes_encode [OF v] by simp
  moreover have "\<forall>b\<in>set (encode_runes ?rs). uint b < 0x80"
    if h: "\<forall>r\<in>set (runes input). ascii_rune r \<or> (\<exists>e\<in>set fold_table. r \<in> set (fst e))"
  proof -
    have fr: "\<forall>q\<in>set (fold_rune r). ascii_rune q" if "r \<in> set (runes input)" for r
    proof (cases r rule: fold_case_cases)
      case 1
      then have "ascii_rune r" using h that runes_valid [OF that] by (auto simp: ascii_rune_def valid_rune_def)
      then show ?thesis by (simp add: fold_rune_ascii)
    qed (simp add: fold_rune_def)
    have enc: "encode_rune r = [byte_of r] \<and> uint (byte_of r) < 0x80" if "ascii_rune r" for r
      using that by (simp add: encode_rune_def ascii_rune_def valid_rune_def)
    have all: "\<forall>b\<in>set (encode_runes rs). uint b < 0x80" if "\<forall>r\<in>set rs. ascii_rune r" for rs
      using that by (induction rs) (simp_all add: enc)
    have "\<forall>r\<in>set ?rs. ascii_rune r" using fr by simp
    then show ?thesis by (rule all)
  qed
  moreover have "encode_runes ?rs = input" if h: "\<forall>b\<in>set input. uint b < 0x80"
  proof -
    have r: "runes input = map uint input" using h by (intro runes_ascii) auto
    have "encode_runes (concat (map fold_rune (map uint bs))) = bs" if "\<forall>b\<in>set bs. uint b < 0x80" for bs :: bytes
      using that
    proof (induction bs)
      case (Cons b bs)
      then show ?case using uint_byte_bounds [of b] by (simp add: fold_rune_ascii ascii_rune_def encode_rune_def valid_rune_def)
    qed simp
    then show ?thesis using h r by simp
  qed
  ultimately show ?thesis using ascii_folding_filter [of input] by blast
qed

theorem ascii_folding_idempotent_witness: "ascii_folding_filter [0x41, 0x62] = Some [0x41, 0x62]"
  using ascii_folding_idempotent [of "[0x41, 0x62]"] by auto

end
