(* ===== verification/Searcher.thy ===== *)
theory Searcher
  imports Search_Hits
begin

text \<open>
  What the searchers of \<open>search/searcher\<close> promise each other: the interface \<open>search.Searcher\<close>
  as a locale over \<open>Next\<close> and \<open>Advance\<close>, and the match a composite searcher builds from its
  constituents (\<open>buildDocumentMatch\<close>, \<open>search/util.go\<close>).

  A step returns None when it does not terminate, \<open>Inl e\<close> for an error, and otherwise the match
  or nil with the new state.
\<close>

type_synonym ('e, 's) step = "('e, document_match option \<times> 's) result option"

definition bindr :: "('e, 'a) result option \<Rightarrow> ('a \<Rightarrow> ('e, 'b) result option) \<Rightarrow> ('e, 'b) result option" where
  "bindr m f = Option.bind m (\<lambda>r. case r of Inl e \<Rightarrow> Some (Inl e) | Inr a \<Rightarrow> f a)"

lemma bindr_simps [simp]:
  "bindr None f = None" "bindr (Some (Inl e)) f = Some (Inl e)" "bindr (Some (Inr a)) f = f a"
  by (simp_all add: bindr_def)

lemma bindr_mono [partial_function_mono]:
  assumes "mono_option B" and "\<And>y. mono_option (\<lambda>f. C y f)"
  shows "mono_option (\<lambda>f. bindr (B f) (\<lambda>y. C y f))"
proof -
  have "mono_option (\<lambda>f. case r of Inl e \<Rightarrow> Some (Inl e) | Inr a \<Rightarrow> C a f)" for r
    using assms(2) by (cases r) (auto intro: option.const_mono)
  then show ?thesis unfolding bindr_def by (intro bind_mono assms(1))
qed

section \<open>The match of a composite searcher\<close>

text \<open>
  \<open>search.MergeFieldTermLocations\<close>, and the composite scorer with the explanation's value when
  one is asked for.
\<close>

definition merge_field_term_locations :: "field_term_location list \<Rightarrow> document_match list \<Rightarrow> field_term_location list" where
  "merge_field_term_locations dest matches = dest @ concat (map FieldTermLocations matches)"

record composite =
  opt_explain :: bool
  explain_composite :: "document_match list \<Rightarrow> float64"
  score_composite :: "document_match list \<Rightarrow> float64"

definition build_document_match :: "composite \<Rightarrow> document_match list \<Rightarrow> document_match" where
  "build_document_match sc constituents =
     (let rv = hd constituents;
          rv = rv\<lparr>Score := (if opt_explain sc then explain_composite sc constituents else score_composite sc constituents)\<rparr>
      in rv\<lparr>FieldTermLocations := merge_field_term_locations (FieldTermLocations rv) (tl constituents)\<rparr>)"

lemma Number_build [simp]: "Number (build_document_match sc ds) = Number (hd ds)"
  by (simp add: build_document_match_def Let_def)

section \<open>The contract of a searcher\<close>

text \<open>
  A walker is used by \<open>Next\<close> only, a searcher by \<open>Advance\<close> too.
  \<open>hits s\<close> are the matches a searcher may return and \<open>exact s\<close> those it returns while nothing
  was missed; \<open>docs\<close> their document numbers. \<open>upfrom s p\<close> says that \<open>Next\<close> returns nothing
  below \<open>p\<close>, \<open>live s b\<close> that it returns the first document from \<open>b\<close> on.
\<close>

definition docs_of :: "('s \<Rightarrow> document_match \<Rightarrow> bool) \<Rightarrow> 's \<Rightarrow> nat set" where
  "docs_of hits s = Number ` {d. hits s d}"

lemma docs_ofI: "hits s d \<Longrightarrow> Number d = j \<Longrightarrow> j \<in> docs_of hits s"
  by (auto simp: docs_of_def)

lemma docs_ofE: "j \<in> docs_of hits s \<Longrightarrow> (\<And>d. hits s d \<Longrightarrow> Number d = j \<Longrightarrow> P) \<Longrightarrow> P"
  by (auto simp: docs_of_def)

definition first_hit :: "nat set \<Rightarrow> nat \<Rightarrow> document_match option \<Rightarrow> bool" where
  "first_hit D b m \<longleftrightarrow>
     (case m of
        None \<Rightarrow> \<forall>i\<in>D. i < b
      | Some d \<Rightarrow> Number d \<in> D \<and> b \<le> Number d \<and> (\<forall>i\<in>D. b \<le> i \<longrightarrow> Number d \<le> i))"

lemma first_hit_unique: "first_hit D b m \<Longrightarrow> first_hit D b m' \<Longrightarrow> map_option Number m = map_option Number m'"
  by (auto simp: first_hit_def split: option.splits intro: antisym)

lemma first_hit_lower:
  "first_hit D n m \<Longrightarrow> b \<le> n \<Longrightarrow> (\<And>j. j \<in> D \<Longrightarrow> b \<le> j \<Longrightarrow> j < n \<Longrightarrow> False) \<Longrightarrow> first_hit D b m"
  unfolding first_hit_def by (cases m) (fastforce simp: not_less)+

locale walker =
  fixes nxt :: "'s \<Rightarrow> ('e, 's) step"
    and inv :: "'s \<Rightarrow> bool" and hits :: "'s \<Rightarrow> document_match \<Rightarrow> bool" and exact :: "'s \<Rightarrow> document_match \<Rightarrow> bool"
    and upfrom :: "'s \<Rightarrow> nat \<Rightarrow> bool" and live :: "'s \<Rightarrow> nat \<Rightarrow> bool"
  assumes finite_docs: "inv s \<Longrightarrow> finite (docs_of hits s)"
    and upfrom_0: "inv s \<Longrightarrow> upfrom s 0"
    and live_upfrom: "live s b \<Longrightarrow> upfrom s b"
    and nxt_ok: "inv s \<Longrightarrow> upfrom s p \<Longrightarrow> \<exists>r. nxt s = Some r \<and>
      (\<forall>m s'. r = Inr (m, s') \<longrightarrow>
        inv s' \<and> hits s' = hits s \<and> exact s' = exact s \<and>
        (\<forall>d. m = Some d \<longrightarrow> hits s d \<and> p \<le> Number d \<and> upfrom s' (Suc (Number d))) \<and>
        (live s p \<longrightarrow> first_hit (docs_of hits s) p m \<and>
          (\<forall>d. m = Some d \<longrightarrow> exact s d \<and> live s' (Suc (Number d)))))"
begin

lemma nxt_total: "inv s \<Longrightarrow> \<exists>r. nxt s = Some r"
  using nxt_ok [OF _ upfrom_0] by blast

lemma nxt_moved:
  assumes "inv s" "upfrom s p" "nxt s = Some (Inr (m, s'))"
  shows "inv s'" "hits s' = hits s" "exact s' = exact s"
    "m = Some d \<Longrightarrow> hits s d" "m = Some d \<Longrightarrow> p \<le> Number d" "m = Some d \<Longrightarrow> upfrom s' (Suc (Number d))"
    "docs_of hits s' = docs_of hits s"
  using nxt_ok [OF assms(1,2)] assms(3) by (auto simp: docs_of_def)

lemma nxt_landed:
  assumes "inv s" "live s b" "nxt s = Some (Inr (m, s'))"
  shows "first_hit (docs_of hits s) b m" "m = Some d \<Longrightarrow> exact s d" "m = Some d \<Longrightarrow> live s' (Suc (Number d))"
  using nxt_ok [OF assms(1) live_upfrom [OF assms(2)]] assms(2,3) by auto

lemma hit_doc: "hits s d \<Longrightarrow> Number d \<in> docs_of hits s"
  by (simp add: docs_of_def)

end

locale searcher = walker nxt inv hits exact upfrom live
  for nxt :: "'s \<Rightarrow> ('e, 's) step" and adv :: "'s \<Rightarrow> nat \<Rightarrow> ('e, 's) step"
    and inv :: "'s \<Rightarrow> bool" and hits :: "'s \<Rightarrow> document_match \<Rightarrow> bool" and exact :: "'s \<Rightarrow> document_match \<Rightarrow> bool"
    and upfrom :: "'s \<Rightarrow> nat \<Rightarrow> bool" and live :: "'s \<Rightarrow> nat \<Rightarrow> bool" +
  assumes adv_ok: "inv s \<Longrightarrow> \<exists>r. adv s n = Some r \<and>
      (\<forall>m s'. r = Inr (m, s') \<longrightarrow>
        inv s' \<and> hits s' = hits s \<and> exact s' = exact s \<and>
        (\<forall>d. m = Some d \<longrightarrow> hits s d \<and> n \<le> Number d \<and> upfrom s' (Suc (Number d))) \<and>
        ((\<exists>b\<le>n. live s b) \<longrightarrow> first_hit (docs_of hits s) n m \<and>
          (\<forall>d. m = Some d \<longrightarrow> exact s d \<and> live s' (Suc (Number d)))))"
begin

lemma adv_total: "inv s \<Longrightarrow> \<exists>r. adv s n = Some r"
  using adv_ok by blast

lemma adv_moved:
  assumes "inv s" "adv s n = Some (Inr (m, s'))"
  shows "inv s'" "hits s' = hits s" "exact s' = exact s"
    "m = Some d \<Longrightarrow> hits s d" "m = Some d \<Longrightarrow> n \<le> Number d" "m = Some d \<Longrightarrow> upfrom s' (Suc (Number d))"
    "docs_of hits s' = docs_of hits s"
  using adv_ok [OF assms(1), of n] assms(2) by (auto simp: docs_of_def)

lemma adv_landed:
  assumes "inv s" "live s b" "b \<le> n" "adv s n = Some (Inr (m, s'))"
  shows "first_hit (docs_of hits s) n m" "m = Some d \<Longrightarrow> exact s d" "m = Some d \<Longrightarrow> live s' (Suc (Number d))"
  using adv_ok [OF assms(1), of n] assms(2-4) by auto

end

text \<open>The matches that repeated calls of \<open>Next\<close> return, up to nil (None) or an error.\<close>

inductive run :: "('s \<Rightarrow> ('e, 's) step) \<Rightarrow> 's \<Rightarrow> document_match list \<Rightarrow> 'e option \<Rightarrow> bool" for nxt where
  run_none: "nxt s = Some (Inr (None, s')) \<Longrightarrow> run nxt s [] None"
| run_err: "nxt s = Some (Inl e) \<Longrightarrow> run nxt s [] (Some e)"
| run_some: "nxt s = Some (Inr (Some d, s')) \<Longrightarrow> run nxt s' ds out \<Longrightarrow> run nxt s (d # ds) out"

definition from_on :: "nat set \<Rightarrow> nat \<Rightarrow> nat list" where
  "from_on D b = sorted_list_of_set {i \<in> D. b \<le> i}"

lemma from_on_None: "finite D \<Longrightarrow> first_hit D b None \<Longrightarrow> from_on D b = []"
  by (auto simp: from_on_def first_hit_def)

lemma from_on_Some:
  assumes "finite D" and "first_hit D b (Some d)"
  shows "from_on D b = Number d # from_on D (Suc (Number d))"
proof -
  let ?R = "{i \<in> D. Suc (Number d) \<le> i}"
  have "{i \<in> D. b \<le> i} = insert (Number d) ?R"
    using assms(2) by (auto simp: first_hit_def)
  moreover have "finite ?R" "\<forall>x\<in>?R. Number d \<le> x" "Number d \<notin> ?R"
    using assms(1) by auto
  ultimately show ?thesis
    unfolding from_on_def
    by (simp add: insort_is_Cons)
qed

context walker
begin

text \<open>
  A live searcher returns, in order, exactly its documents from there on, unless an error
  stops it, and then a first part of them.
\<close>

lemma live_run:
  "inv s \<Longrightarrow> live s b \<Longrightarrow>
    \<exists>ds out. run nxt s ds out \<and> (\<forall>d\<in>set ds. exact s d) \<and>
      map Number ds = take (length ds) (from_on (docs_of hits s) b) \<and>
      (out = None \<longrightarrow> map Number ds = from_on (docs_of hits s) b)"
proof (induction "length (from_on (docs_of hits s) b)" arbitrary: s b rule: less_induct)
  case less
  obtain r where r: "nxt s = Some r" using nxt_total [OF less.prems(1)] by blast
  show ?case
  proof (cases r)
    case (Inl e)
    with r show ?thesis by (intro exI [of _ "[]"] exI [of _ "Some e"]) (auto intro: run_err)
  next
    case (Inr ms)
    then obtain m s' where n: "nxt s = Some (Inr (m, s'))" using r by (cases ms) simp
    note landed = nxt_landed [OF less.prems n]
    note moved = nxt_moved [OF less.prems(1) live_upfrom [OF less.prems(2)] n]
    note fin = finite_docs [OF less.prems(1)]
    show ?thesis
    proof (cases m)
      case None
      then show ?thesis
        using from_on_None [OF fin] landed(1) n by (intro exI [of _ "[]"] exI [of _ None]) (auto intro: run_none)
    next
      case (Some d)
      have from_on: "from_on (docs_of hits s) b = Number d # from_on (docs_of hits s) (Suc (Number d))"
        using from_on_Some [OF fin] landed(1) Some by simp
      obtain ds out where "run nxt s' ds out" "\<forall>d\<in>set ds. exact s' d"
        "map Number ds = take (length ds) (from_on (docs_of hits s') (Suc (Number d)))"
        "out = None \<longrightarrow> map Number ds = from_on (docs_of hits s') (Suc (Number d))"
        using less.hyps [OF _ moved(1) landed(3) [OF Some]] from_on moved(7) by (metis length_Cons lessI)
      then show ?thesis
        using n Some from_on moved(3,7) landed(2) [OF Some]
        by (intro exI [of _ "d # ds"] exI [of _ out]) (auto intro: run_some)
    qed
  qed
qed

end

context searcher
begin

lemmas searcher_run = live_run
lemmas searcher_finite = finite_docs
lemmas searcher_from_0 = upfrom_0

text \<open>Advancing a live searcher returns its first document at or above the number.\<close>

lemma live_advance:
  assumes "inv s" "live s b" "b \<le> n"
  shows "\<exists>r. adv s n = Some r \<and> (\<forall>m s'. r = Inr (m, s') \<longrightarrow> (\<forall>d. m = Some d \<longrightarrow> exact s d) \<and>
    map_option Number m = (case from_on (docs_of hits s) n of [] \<Rightarrow> None | j # _ \<Rightarrow> Some j))"
proof -
  obtain r where r: "adv s n = Some r" using adv_total [OF assms(1)] by blast
  have "map_option Number m = (case from_on (docs_of hits s) n of [] \<Rightarrow> None | j # _ \<Rightarrow> Some j) \<and> (\<forall>d. m = Some d \<longrightarrow> exact s d)"
    if "r = Inr (m, s')" for m s'
  proof -
    note ld = adv_landed [OF assms r [unfolded that]] and fin = finite_docs [OF assms(1)]
    show ?thesis
    proof (cases m)
      case None
      then show ?thesis using from_on_None [OF fin] ld(1) by simp
    next
      case (Some d)
      then show ?thesis using from_on_Some [OF fin, of n d] ld(1,2) by simp
    qed
  qed
  then show ?thesis using r by blast
qed

text \<open>
  A child of a composite searcher, standing at the match \<open>m\<close> it returned last (None when it is
  exhausted): what holds always, and what holds while it has missed nothing from \<open>b\<close> on.
\<close>

definition standing :: "'s \<Rightarrow> document_match option \<Rightarrow> bool" where
  "standing s m \<longleftrightarrow> inv s \<and> (\<forall>d. m = Some d \<longrightarrow> hits s d \<and> upfrom s (Suc (Number d)))"

definition standing_live :: "'s \<Rightarrow> document_match option \<Rightarrow> nat \<Rightarrow> bool" where
  "standing_live s m b \<longleftrightarrow> first_hit (docs_of hits s) b m \<and> (\<forall>d. m = Some d \<longrightarrow> exact s d \<and> live s (Suc (Number d)))"

lemma standing_live_mono:
  "standing_live s m b \<Longrightarrow> b \<le> n \<Longrightarrow> \<forall>d. m = Some d \<longrightarrow> n \<le> Number d \<Longrightarrow> standing_live s m n"
  by (auto simp: standing_live_def first_hit_def split: option.splits)

lemma standing_fresh:
  assumes "inv s" "nxt s = Some (Inr (m, s'))"
  shows "standing s' m" "hits s' = hits s" "exact s' = exact s"
    "upfrom s p \<Longrightarrow> m = Some d \<Longrightarrow> p \<le> Number d" "live s b \<Longrightarrow> standing_live s' m b"
proof -
  note mv = nxt_moved [OF assms(1) upfrom_0 [OF assms(1)] assms(2)]
  show "standing s' m" "hits s' = hits s" "exact s' = exact s" using mv by (simp_all add: standing_def)
  show "p \<le> Number d" if "upfrom s p" "m = Some d" using nxt_moved(5) [OF assms(1) that(1) assms(2) that(2)] .
  show "standing_live s' m b" if "live s b"
    using nxt_landed [OF assms(1) that assms(2)] mv(3,7) by (simp add: standing_live_def)
qed

lemma standing_next:
  assumes "standing s (Some c)" "nxt s = Some (Inr (m, s'))"
  shows "standing s' m" "hits s' = hits s" "exact s' = exact s" "m = Some d \<Longrightarrow> Number c < Number d"
    "standing_live s (Some c) b \<Longrightarrow> standing_live s' m (Suc (Number c))"
proof -
  have inv: "inv s" and up: "upfrom s (Suc (Number c))" using assms(1) by (simp_all add: standing_def)
  note f = standing_fresh [OF inv assms(2)]
  show "standing s' m" "hits s' = hits s" "exact s' = exact s" using f(1-3) .
  show "Number c < Number d" if "m = Some d" using f(4) [OF up that] by simp
  show "standing_live s' m (Suc (Number c))" if "standing_live s (Some c) b"
  proof (rule f(5))
    show "live s (Suc (Number c))" using that by (simp add: standing_live_def)
  qed
qed

lemma standing_advance:
  assumes st: "standing s m" and below: "\<forall>c. m = Some c \<longrightarrow> Number c < n" and a: "adv s n = Some (Inr (m', s'))"
  shows "standing s' m'" "hits s' = hits s" "exact s' = exact s" "m' = Some d \<Longrightarrow> n \<le> Number d"
    "standing_live s m b \<Longrightarrow> b \<le> n \<Longrightarrow> standing_live s' m' n"
proof -
  have inv: "inv s" using st by (simp add: standing_def)
  note mv = adv_moved [OF inv a]
  show "standing s' m'" "hits s' = hits s" "exact s' = exact s" using mv(1-4,6) by (simp_all add: standing_def)
  show "n \<le> Number d" if "m' = Some d" using mv(5) that .
  assume sl: "standing_live s m b" and b: "b \<le> n"
  show "standing_live s' m' n"
  proof (cases m)
    case None
    then have gone: "\<forall>i\<in>docs_of hits s. i < n" using sl b by (auto simp: standing_live_def first_hit_def)
    have "m' = None"
    proof (cases m')
      case (Some d)
      then have "Number d \<in> docs_of hits s" "n \<le> Number d" using mv(4,5) hit_doc by blast+
      then show ?thesis using gone by force
    qed
    then show ?thesis using gone mv(7) by (simp add: standing_live_def first_hit_def)
  next
    case (Some c)
    then have "live s (Suc (Number c))" "Suc (Number c) \<le> n" using sl below by (auto simp: standing_live_def)
    from adv_landed [OF inv this a] show ?thesis using mv(3,7) by (simp add: standing_live_def)
  qed
qed

text \<open>A child that moved to its first match from \<open>lo\<close> on, or stayed because it stands there already.\<close>

definition child_step :: "nat \<Rightarrow> 's \<Rightarrow> document_match option \<Rightarrow> 's \<Rightarrow> document_match option \<Rightarrow> bool" where
  "child_step lo s m s' m' \<longleftrightarrow> standing s' m' \<and> hits s' = hits s \<and> exact s' = exact s \<and>
     (\<forall>d. m' = Some d \<longrightarrow> lo \<le> Number d) \<and> (\<forall>b\<le>lo. standing_live s m b \<longrightarrow> standing_live s' m' lo)"

lemma child_step_next:
  assumes "standing s (Some c)" and "nxt s = Some (Inr (m, s'))"
  shows "child_step (Suc (Number c)) s (Some c) s' m"
  using standing_next [OF assms] unfolding child_step_def by (metis Suc_leI)

lemma child_step_advance:
  assumes "standing s m" "\<forall>c. m = Some c \<longrightarrow> Number c < n" "adv s n = Some (Inr (m', s'))"
  shows "child_step n s m s' m'"
  using standing_advance [OF assms] unfolding child_step_def by blast

lemma child_step_stay: "standing s m \<Longrightarrow> \<forall>d. m = Some d \<longrightarrow> lo \<le> Number d \<Longrightarrow> child_step lo s m s m"
  using standing_live_mono unfolding child_step_def by blast

lemma standing_live_gone:
  assumes "standing_live s m b" "b \<le> j" "\<forall>d. m = Some d \<longrightarrow> j < Number d"
  shows "j \<notin> docs_of hits s"
  using assms by (cases m) (auto simp: standing_live_def first_hit_def)

lemma standing_doc: "standing s (Some d) \<Longrightarrow> Number d \<in> docs_of hits s"
  by (simp add: standing_def hit_doc)

end

text \<open>The room that a child's match leaves below a bound of its documents: it shrinks as the child moves on.\<close>

definition doc_weight :: "nat \<Rightarrow> document_match option \<Rightarrow> nat" where
  "doc_weight B m = (case m of None \<Rightarrow> 0 | Some d \<Rightarrow> B - Number d)"

lemma doc_weight_less:
  "Number c < B \<Longrightarrow> \<forall>d. m = Some d \<longrightarrow> Number c < Number d \<Longrightarrow> doc_weight B m < doc_weight B (Some c)"
  by (auto simp: doc_weight_def split: option.split)

lemma sum_update_less:
  fixes f :: "'a \<Rightarrow> nat"
  assumes "length ys = length xs" "\<forall>i<length xs. f (ys ! i) \<le> f (xs ! i)" "i < length xs" "f (ys ! i) < f (xs ! i)"
  shows "(\<Sum>i<length ys. f (ys ! i)) < (\<Sum>i<length xs. f (xs ! i))"
  unfolding assms(1) using assms(2-4) by (intro sum_strict_mono_ex1) auto

end
