(* ===== verification/Conjunction.thy ===== *)
theory Conjunction
  imports Searcher
begin

text \<open>
  The conjunction searcher (\<open>search_conjunction.go\<close>): its state, initialisation, the
  leap-frogging loop of \<open>Next\<close> and \<open>Advance\<close>. The children are searchers of one type that
  satisfy the contract, and so does the conjunction.
\<close>

section \<open>Operations\<close>

record 's conj =
  cj_searchers :: "'s list"
  cj_currs :: "document_match option list"
  cj_maxIDIdx :: nat
  cj_initialized :: bool

definition new_conjunction :: "'s list \<Rightarrow> 's conj" where
  "new_conjunction ss =
     \<lparr>cj_searchers = ss, cj_currs = replicate (length ss) None, cj_maxIDIdx = 0, cj_initialized = False\<rparr>"

text \<open>\<open>Next\<close> on every child, in order: the loop of \<open>initSearchers\<close> and the bump after a match.\<close>

fun next_all :: "('s \<Rightarrow> ('e, 's) step) \<Rightarrow> 's list \<Rightarrow> ('e, document_match option list \<times> 's list) result option" where
  "next_all nxt [] = Some (Inr ([], []))"
| "next_all nxt (s # ss) =
     bindr (nxt s) (\<lambda>(m, s'). bindr (next_all nxt ss) (\<lambda>(ms, ss'). Some (Inr (m # ms, s' # ss'))))"

definition conj_init :: "('s \<Rightarrow> ('e, 's) step) \<Rightarrow> 's conj \<Rightarrow> ('e, 's conj) result option" where
  "conj_init nxt s =
     bindr (next_all nxt (cj_searchers s)) (\<lambda>(ms, ss).
       Some (Inr (s\<lparr>cj_searchers := ss, cj_currs := ms, cj_initialized := True\<rparr>)))"

definition conj_advance_child ::
  "('s \<Rightarrow> nat \<Rightarrow> ('e, 's) step) \<Rightarrow> 's conj \<Rightarrow> nat \<Rightarrow> nat \<Rightarrow> ('e, 's conj) result option" where
  "conj_advance_child adv s i number =
     bindr (adv (cj_searchers s ! i) number) (\<lambda>(m, c).
       Some (Inr (s\<lparr>cj_currs := (cj_currs s)[i := m], cj_searchers := (cj_searchers s)[i := c]\<rparr>)))"

fun conj_advance_list ::
  "('s \<Rightarrow> nat \<Rightarrow> ('e, 's) step) \<Rightarrow> 's conj \<Rightarrow> nat list \<Rightarrow> nat \<Rightarrow> ('e, 's conj) result option" where
  "conj_advance_list adv s [] number = Some (Inr s)"
| "conj_advance_list adv s (x # xs) number =
     bindr (conj_advance_child adv s x number) (\<lambda>s. conj_advance_list adv s xs number)"

text \<open>The loop of \<open>Next\<close>: at the label \<open>OUTER\<close> the position is None, inside it is \<open>Some i\<close>.\<close>

partial_function (option) conj_loop ::
  "('s \<Rightarrow> ('e, 's) step) \<Rightarrow> ('s \<Rightarrow> nat \<Rightarrow> ('e, 's) step) \<Rightarrow> composite \<Rightarrow> 's conj \<Rightarrow> nat option \<Rightarrow> ('e, 's conj) step" where
  "conj_loop nxt adv sc s pos =
     (case pos of
        None \<Rightarrow>
          if cj_maxIDIdx s < length (cj_currs s) \<and> cj_currs s ! cj_maxIDIdx s \<noteq> None
          then conj_loop nxt adv sc s (Some 0)
          else Some (Inr (None, s))
      | Some i \<Rightarrow>
          if i < length (cj_currs s) then
            (case cj_currs s ! i of
               None \<Rightarrow> Some (Inr (None, s))
             | Some c \<Rightarrow>
                 if i = cj_maxIDIdx s then conj_loop nxt adv sc s (Some (i + 1))
                 else
                   let maxID = Number (the (cj_currs s ! cj_maxIDIdx s)) in
                   if maxID = Number c then conj_loop nxt adv sc s (Some (i + 1))
                   else if maxID < Number c then
                     bindr (conj_advance_list adv (s\<lparr>cj_maxIDIdx := i\<rparr>) [0..<i] (Number c)) (\<lambda>s.
                       conj_loop nxt adv sc s None)
                   else
                     bindr (conj_advance_child adv s i maxID) (\<lambda>s. conj_loop nxt adv sc s (Some i)))
          else
            let rv = build_document_match sc (map the (cj_currs s)) in
            bindr (next_all nxt (cj_searchers s)) (\<lambda>(ms, ss).
              Some (Inr (Some rv, s\<lparr>cj_currs := ms, cj_searchers := ss\<rparr>))))"

definition conj_next ::
  "('s \<Rightarrow> ('e, 's) step) \<Rightarrow> ('s \<Rightarrow> nat \<Rightarrow> ('e, 's) step) \<Rightarrow> composite \<Rightarrow> 's conj \<Rightarrow> ('e, 's conj) step" where
  "conj_next nxt adv sc s =
     bindr (if cj_initialized s then Some (Inr s) else conj_init nxt s) (\<lambda>s. conj_loop nxt adv sc s None)"

fun conj_advance_trailing ::
  "('s \<Rightarrow> nat \<Rightarrow> ('e, 's) step) \<Rightarrow> 's conj \<Rightarrow> nat list \<Rightarrow> nat \<Rightarrow> ('e, 's conj) result option" where
  "conj_advance_trailing adv s [] number = Some (Inr s)"
| "conj_advance_trailing adv s (i # is) number =
     (if (case cj_currs s ! i of None \<Rightarrow> False | Some c \<Rightarrow> Number c \<ge> number)
      then conj_advance_trailing adv s is number
      else bindr (conj_advance_child adv s i number) (\<lambda>s. conj_advance_trailing adv s is number))"

definition conj_advance ::
  "('s \<Rightarrow> ('e, 's) step) \<Rightarrow> ('s \<Rightarrow> nat \<Rightarrow> ('e, 's) step) \<Rightarrow> composite \<Rightarrow> 's conj \<Rightarrow> nat \<Rightarrow> ('e, 's conj) step" where
  "conj_advance nxt adv sc s number =
     bindr (if cj_initialized s then Some (Inr s) else conj_init nxt s) (\<lambda>s.
       bindr (conj_advance_trailing adv s [0..<length (cj_searchers s)] number) (\<lambda>s.
         conj_next nxt adv sc s))"

section \<open>What a conjunction matches\<close>

definition all_hit :: "('s \<Rightarrow> document_match \<Rightarrow> bool) \<Rightarrow> 's list \<Rightarrow> nat \<Rightarrow> document_match list \<Rightarrow> bool" where
  "all_hit hits ss j ds \<longleftrightarrow> ds \<noteq> [] \<and> list_all2 hits ss ds \<and> (\<forall>d\<in>set ds. Number d = j)"

definition conj_hits :: "('s \<Rightarrow> document_match \<Rightarrow> bool) \<Rightarrow> composite \<Rightarrow> 's conj \<Rightarrow> document_match \<Rightarrow> bool" where
  "conj_hits hits sc s d \<longleftrightarrow> (\<exists>j ds. all_hit hits (cj_searchers s) j ds \<and> d = build_document_match sc ds)"

lemma all_hit_map: "all_hit hits ss j ds \<longleftrightarrow>
    ds \<noteq> [] \<and> list_all2 (\<lambda>h d. h d) (map hits ss) ds \<and> (\<forall>d\<in>set ds. Number d = j)"
  by (simp add: all_hit_def list_all2_map1)

lemma conj_hits_cong: "map hits (cj_searchers s') = map hits (cj_searchers s) \<Longrightarrow> conj_hits hits sc s' = conj_hits hits sc s"
  by (simp add: conj_hits_def all_hit_map fun_eq_iff)

lemma all_hit_number: "all_hit hits ss j ds \<Longrightarrow> Number (build_document_match sc ds) = j"
  by (simp add: all_hit_def)

lemma docs_conj:
  "docs_of (conj_hits hits sc) s = (if cj_searchers s = [] then {} else \<Inter> (docs_of hits ` set (cj_searchers s)))"
proof (cases "cj_searchers s = []")
  case True
  then show ?thesis by (simp add: docs_of_def conj_hits_def all_hit_def)
next
  case False
  have "docs_of (conj_hits hits sc) s \<subseteq> \<Inter> (docs_of hits ` set (cj_searchers s))"
  proof
    fix j assume "j \<in> docs_of (conj_hits hits sc) s"
    then obtain d where "conj_hits hits sc s d" "Number d = j" by (rule docs_ofE)
    then obtain j' ds where "all_hit hits (cj_searchers s) j' ds" "d = build_document_match sc ds" "Number d = j"
      unfolding conj_hits_def by blast
    then have ds: "all_hit hits (cj_searchers s) j ds" using all_hit_number [of hits _ j' ds sc] by simp
    show "j \<in> \<Inter> (docs_of hits ` set (cj_searchers s))"
    proof (rule InterI)
      fix D assume "D \<in> docs_of hits ` set (cj_searchers s)"
      then obtain i where i: "i < length (cj_searchers s)" "D = docs_of hits (cj_searchers s ! i)"
        by (auto simp: in_set_conv_nth)
      have all: "list_all2 hits (cj_searchers s) ds" "\<forall>d\<in>set ds. Number d = j"
        using ds by (simp_all add: all_hit_def)
      have "i < length ds" using list_all2_lengthD [OF all(1)] i(1) by simp
      then have "Number (ds ! i) = j" using all(2) nth_mem by blast
      with list_all2_nthD [OF all(1) i(1)] show "j \<in> D" unfolding i(2) by (rule docs_ofI)
    qed
  qed
  moreover have "\<Inter> (docs_of hits ` set (cj_searchers s)) \<subseteq> docs_of (conj_hits hits sc) s"
  proof
    fix j assume "j \<in> \<Inter> (docs_of hits ` set (cj_searchers s))"
    then have "\<forall>c\<in>set (cj_searchers s). \<exists>d. hits c d \<and> Number d = j" by (metis INT_iff docs_ofE)
    then obtain f where f: "\<forall>c\<in>set (cj_searchers s). hits c (f c) \<and> Number (f c) = j" by metis
    let ?ds = "map f (cj_searchers s)"
    have "list_all2 hits (cj_searchers s) ?ds" using f by (simp add: list_all2_map2 list_all2_same)
    then have all: "all_hit hits (cj_searchers s) j ?ds" using f False by (simp add: all_hit_def)
    then have "conj_hits hits sc s (build_document_match sc ?ds)" unfolding conj_hits_def by blast
    then show "j \<in> docs_of (conj_hits hits sc) s" by (rule docs_ofI) (rule all_hit_number [OF all])
  qed
  ultimately show ?thesis using False by (simp add: subset_antisym)
qed

section \<open>The contract, from the children's\<close>

context searcher
begin

definition conj_inv :: "'s conj \<Rightarrow> bool" where
  "conj_inv s \<longleftrightarrow> length (cj_currs s) = length (cj_searchers s) \<and>
     (cj_searchers s \<noteq> [] \<longrightarrow> cj_maxIDIdx s < length (cj_searchers s)) \<and>
     (\<forall>i<length (cj_searchers s). inv (cj_searchers s ! i)) \<and>
     (cj_initialized s \<longrightarrow> (\<forall>i<length (cj_searchers s). \<forall>d. cj_currs s ! i = Some d \<longrightarrow>
        hits (cj_searchers s ! i) d \<and> upfrom (cj_searchers s ! i) (Suc (Number d))))"

definition conj_upfrom :: "'s conj \<Rightarrow> nat \<Rightarrow> bool" where
  "conj_upfrom s p \<longleftrightarrow>
     (if cj_initialized s then \<forall>i<length (cj_searchers s). \<forall>d. cj_currs s ! i = Some d \<longrightarrow> p \<le> Number d
      else \<forall>i<length (cj_searchers s). upfrom (cj_searchers s ! i) p)"

definition conj_ready :: "nat set \<Rightarrow> 's conj \<Rightarrow> nat \<Rightarrow> bool" where
  "conj_ready D s b \<longleftrightarrow> (\<forall>i<length (cj_searchers s). \<exists>d. cj_currs s ! i = Some d \<and>
     exact (cj_searchers s ! i) d \<and> live (cj_searchers s ! i) (Suc (Number d)) \<and> (\<forall>j\<in>D. b \<le> j \<longrightarrow> Number d \<le> j))"

definition conj_docs :: "'s conj \<Rightarrow> nat set" where
  "conj_docs s = (if cj_searchers s = [] then {} else \<Inter> (docs_of hits ` set (cj_searchers s)))"

text \<open>Either no document is left from \<open>b\<close> on or every child stands at or before the first one.\<close>

definition conj_aim :: "'s conj \<Rightarrow> nat \<Rightarrow> bool" where
  "conj_aim s b \<longleftrightarrow> (\<forall>j\<in>conj_docs s. j < b) \<or> conj_ready (conj_docs s) s b"

definition conj_live :: "'s conj \<Rightarrow> nat \<Rightarrow> bool" where
  "conj_live s b \<longleftrightarrow>
     (if cj_initialized s then conj_upfrom s b \<and> conj_aim s b
      else \<forall>i<length (cj_searchers s). live (cj_searchers s ! i) b)"

lemma conj_docs_cong: "map hits (cj_searchers s') = map hits (cj_searchers s) \<Longrightarrow> conj_docs s' = conj_docs s"
proof -
  assume a: "map hits (cj_searchers s') = map hits (cj_searchers s)"
  then have "docs_of hits ` set (cj_searchers s') = docs_of hits ` set (cj_searchers s)"
    by (metis (no_types, lifting) docs_of_def image_cong image_image list.set_map)
  moreover have "cj_searchers s' = [] \<longleftrightarrow> cj_searchers s = []" using a by (metis map_is_Nil_conv)
  ultimately show ?thesis by (simp add: conj_docs_def)
qed

text \<open>A step of the loop keeps the conjunction's matches and its promises.\<close>

definition conj_kept :: "'s conj \<Rightarrow> 's conj \<Rightarrow> bool" where
  "conj_kept s s' \<longleftrightarrow> conj_inv s' \<and> cj_initialized s' \<and> length (cj_searchers s') = length (cj_searchers s) \<and>
     map hits (cj_searchers s') = map hits (cj_searchers s) \<and> map exact (cj_searchers s') = map exact (cj_searchers s)"

lemma conj_kept_docs: "conj_kept s s' \<Longrightarrow> conj_docs s' = conj_docs s"
  by (intro conj_docs_cong) (simp add: conj_kept_def)

lemma conj_kept_trans: "conj_kept s s' \<Longrightarrow> conj_kept s' s'' \<Longrightarrow> conj_kept s s''"
  by (simp add: conj_kept_def)

text \<open>What advancing the children at the positions \<open>xs\<close> to \<open>n\<close> does.\<close>

definition conj_moved :: "'s conj \<Rightarrow> nat list \<Rightarrow> nat \<Rightarrow> 's conj \<Rightarrow> bool" where
  "conj_moved s xs n s' \<longleftrightarrow>
    conj_kept s s' \<and> cj_maxIDIdx s' = cj_maxIDIdx s \<and>
    (\<forall>x. x \<notin> set xs \<longrightarrow> cj_currs s' ! x = cj_currs s ! x) \<and>
    (\<forall>x\<in>set xs. \<forall>d. cj_currs s' ! x = Some d \<longrightarrow> n \<le> Number d) \<and>
    (\<forall>p\<le>n. conj_upfrom s p \<longrightarrow> conj_upfrom s' p) \<and>
    (\<forall>b\<le>n. conj_aim s b \<longrightarrow> (\<forall>j\<in>conj_docs s. b \<le> j \<longrightarrow> n \<le> j) \<longrightarrow> conj_aim s' b)"

lemma conj_moved_refl: "conj_inv s \<Longrightarrow> cj_initialized s \<Longrightarrow> conj_moved s [] n s"
  by (simp add: conj_moved_def conj_kept_def)

lemma conj_moved_Cons:
  assumes 1: "conj_moved s [x] n s'" and 2: "conj_moved s' xs n s''" and x: "x \<notin> set xs"
  shows "conj_moved s (x # xs) n s''"
proof -
  have docs: "conj_docs s' = conj_docs s" using 1 by (intro conj_kept_docs) (simp add: conj_moved_def)
  have kept: "conj_kept s s''" using 1 2 conj_kept_trans unfolding conj_moved_def by blast
  have "cj_currs s'' ! x = cj_currs s' ! x" using 2 x by (simp add: conj_moved_def)
  then show ?thesis using 1 2 docs kept unfolding conj_moved_def by simp
qed

lemma conj_moved_skip:
  assumes "conj_moved s xs n s'" and "x \<notin> set xs" and "\<forall>d. cj_currs s ! x = Some d \<longrightarrow> n \<le> Number d"
  shows "conj_moved s (x # xs) n s'"
  using assms unfolding conj_moved_def by simp

lemma conj_advance_child_ok:
  assumes inv: "conj_inv s" and init: "cj_initialized s" and i: "i < length (cj_searchers s)"
    and below: "\<forall>c. cj_currs s ! i = Some c \<longrightarrow> Number c < n"
  shows "\<exists>r. conj_advance_child adv s i n = Some r \<and> (\<forall>s'. r = Inr s' \<longrightarrow> conj_moved s [i] n s')"
proof -
  have invi: "inv (cj_searchers s ! i)" using inv i by (simp add: conj_inv_def)
  obtain r where r: "adv (cj_searchers s ! i) n = Some r" using adv_total [OF invi] by blast
  show ?thesis
  proof (cases r)
    case (Inl e)
    then show ?thesis using r by (simp add: conj_advance_child_def)
  next
    case (Inr mc)
    then obtain m c where a: "adv (cj_searchers s ! i) n = Some (Inr (m, c))" using r by (cases mc) simp
    define s' where "s' = s\<lparr>cj_currs := (cj_currs s)[i := m], cj_searchers := (cj_searchers s)[i := c]\<rparr>"
    have eq: "conj_advance_child adv s i n = Some (Inr s')" by (simp add: conj_advance_child_def a s'_def)
    note mv = adv_moved [OF invi a]
    have len: "length (cj_currs s) = length (cj_searchers s)" using inv by (simp add: conj_inv_def)
    have maps: "map hits (cj_searchers s') = map hits (cj_searchers s)" "map exact (cj_searchers s') = map exact (cj_searchers s)"
      using mv(2,3) i by (simp_all add: s'_def map_update list_update_same_conv)
    have inv': "conj_inv s'"
      using inv init i mv unfolding conj_inv_def s'_def by (auto simp: nth_list_update)
    have docs: "conj_docs s' = conj_docs s" by (rule conj_docs_cong [OF maps(1)])
    have up: "conj_upfrom s' p" if "p \<le> n" "conj_upfrom s p" for p
      using that init i len mv(5) unfolding conj_upfrom_def s'_def by (auto simp: nth_list_update dest: le_trans)
    have lv: "conj_aim s' b" if b: "b \<le> n" "conj_aim s b" "\<forall>j\<in>conj_docs s. b \<le> j \<longrightarrow> n \<le> j" for b
    proof -
      consider "\<forall>j\<in>conj_docs s. j < b" | "conj_ready (conj_docs s) s b"
        using b(2) by (auto simp: conj_aim_def)
      then show ?thesis
      proof cases
        case 1
        then show ?thesis using docs by (simp add: conj_aim_def)
      next
        case 2
        then obtain ci where ci: "cj_currs s ! i = Some ci" "live (cj_searchers s ! i) (Suc (Number ci))"
          using i by (auto simp: conj_ready_def)
        then have "Suc (Number ci) \<le> n" using below by auto
        note ld = adv_landed [OF invi ci(2) this a]
        have sub: "conj_docs s \<subseteq> docs_of hits (cj_searchers s ! i)"
          using i by (auto simp: conj_docs_def)
        show ?thesis
        proof (cases m)
          case None
          then have "\<forall>j\<in>docs_of hits (cj_searchers s ! i). j < n" using ld(1) by (simp add: first_hit_def)
          then have "\<forall>j\<in>conj_docs s. j < b" using sub b(3) by (meson linorder_not_less subsetD)
          then show ?thesis using docs by (simp add: conj_aim_def)
        next
          case (Some d)
          have "\<forall>j\<in>conj_docs s. b \<le> j \<longrightarrow> Number d \<le> j"
            using ld(1) sub b(3) Some by (auto simp: first_hit_def)
          then have "conj_ready (conj_docs s') s' b"
            using 2 i len Some ld(2,3) mv(3) docs unfolding conj_ready_def s'_def by (auto simp: nth_list_update)
          then show ?thesis by (simp add: conj_aim_def)
        qed
      qed
    qed
    have kept: "conj_kept s s'" using inv' maps init by (simp add: conj_kept_def) (simp add: s'_def)
    show ?thesis
      unfolding eq using kept up lv i len mv(5) by (auto simp: conj_moved_def) (auto simp: s'_def)
  qed
qed

lemma next_all_ok:
  assumes "\<forall>i<length ss. inv (ss ! i) \<and> upfrom (ss ! i) p"
  shows "\<exists>r. next_all nxt ss = Some r \<and> (\<forall>ms ss'. r = Inr (ms, ss') \<longrightarrow>
    length ms = length ss \<and> length ss' = length ss \<and>
    (\<forall>i<length ss. inv (ss' ! i) \<and> hits (ss' ! i) = hits (ss ! i) \<and> exact (ss' ! i) = exact (ss ! i) \<and>
      (\<forall>d. ms ! i = Some d \<longrightarrow> hits (ss ! i) d \<and> p \<le> Number d \<and> upfrom (ss' ! i) (Suc (Number d))) \<and>
      (\<forall>b. live (ss ! i) b \<longrightarrow> first_hit (docs_of hits (ss ! i)) b (ms ! i) \<and>
         (\<forall>d. ms ! i = Some d \<longrightarrow> exact (ss ! i) d \<and> live (ss' ! i) (Suc (Number d))))))"
  using assms
proof (induction ss)
  case Nil
  then show ?case by simp
next
  case (Cons s ss)
  have s: "inv s" "upfrom s p" using Cons.prems by force+
  have ss: "\<forall>i<length ss. inv (ss ! i) \<and> upfrom (ss ! i) p" using Cons.prems by force
  obtain r where r: "nxt s = Some r" using nxt_total [OF s(1)] by blast
  show ?case
  proof (cases r)
    case (Inl e)
    then show ?thesis using r by simp
  next
    case (Inr mc)
    then obtain m c where n: "nxt s = Some (Inr (m, c))" using r by (cases mc) simp
    obtain r' where r': "next_all nxt ss = Some r'" using Cons.IH [OF ss] by blast
    show ?thesis
    proof (cases r')
      case (Inl e)
      then show ?thesis using n r' by simp
    next
      case (Inr x)
      then obtain ms ss' where n': "next_all nxt ss = Some (Inr (ms, ss'))" using r' by (cases x) simp
      note IH = Cons.IH [OF ss, unfolded n', simplified]
      note mv = nxt_moved [OF s n] and ld = nxt_landed [OF s(1) _ n]
      show ?thesis
        unfolding next_all.simps n n' using IH mv ld by (simp add: All_less_Suc2)
    qed
  qed
qed

lemma conj_moved_length: "conj_moved s xs n s' \<Longrightarrow> conj_inv s' \<and> cj_initialized s' \<and> length (cj_searchers s') = length (cj_searchers s)"
  by (simp add: conj_moved_def conj_kept_def)

lemma conj_advance_list_ok:
  "conj_inv s \<Longrightarrow> cj_initialized s \<Longrightarrow> distinct xs \<Longrightarrow> \<forall>x\<in>set xs. x < length (cj_searchers s) \<Longrightarrow>
    \<forall>x\<in>set xs. \<forall>c. cj_currs s ! x = Some c \<longrightarrow> Number c < n \<Longrightarrow>
    \<exists>r. conj_advance_list adv s xs n = Some r \<and> (\<forall>s'. r = Inr s' \<longrightarrow> conj_moved s xs n s')"
proof (induction xs arbitrary: s)
  case Nil
  then show ?case by (simp add: conj_moved_refl)
next
  case (Cons x xs)
  obtain r where r: "conj_advance_child adv s x n = Some r" "\<forall>s'. r = Inr s' \<longrightarrow> conj_moved s [x] n s'"
    using conj_advance_child_ok [of s x n] Cons.prems by auto
  show ?case
  proof (cases r)
    case (Inl e)
    then show ?thesis using r(1) by simp
  next
    case (Inr s')
    then have mv: "conj_moved s [x] n s'" using r(2) by simp
    have same: "\<forall>y\<in>set xs. cj_currs s' ! y = cj_currs s ! y" using mv Cons.prems(3) by (auto simp: conj_moved_def)
    obtain r' where "conj_advance_list adv s' xs n = Some r'" "\<forall>s''. r' = Inr s'' \<longrightarrow> conj_moved s' xs n s''"
      using Cons.IH [of s'] conj_moved_length [OF mv] Cons.prems(3-5) same by auto
    then show ?thesis using r(1) Inr conj_moved_Cons [OF mv] Cons.prems(3) by auto
  qed
qed

lemma conj_advance_trailing_ok:
  "conj_inv s \<Longrightarrow> cj_initialized s \<Longrightarrow> distinct xs \<Longrightarrow> \<forall>x\<in>set xs. x < length (cj_searchers s) \<Longrightarrow>
    \<exists>r. conj_advance_trailing adv s xs n = Some r \<and> (\<forall>s'. r = Inr s' \<longrightarrow> conj_moved s xs n s')"
proof (induction xs arbitrary: s)
  case Nil
  then show ?case by (simp add: conj_moved_refl)
next
  case (Cons x xs)
  show ?case
  proof (cases "case cj_currs s ! x of None \<Rightarrow> False | Some c \<Rightarrow> Number c \<ge> n")
    case True
    then have above: "\<forall>d. cj_currs s ! x = Some d \<longrightarrow> n \<le> Number d" by auto
    obtain r where "conj_advance_trailing adv s xs n = Some r" "\<forall>s'. r = Inr s' \<longrightarrow> conj_moved s xs n s'"
      using Cons.IH [of s] Cons.prems by auto
    then show ?thesis using True conj_moved_skip [OF _ _ above] Cons.prems(3) by auto
  next
    case False
    then obtain r where r: "conj_advance_child adv s x n = Some r" "\<forall>s'. r = Inr s' \<longrightarrow> conj_moved s [x] n s'"
      using conj_advance_child_ok [of s x n] Cons.prems by (auto split: option.splits)
    show ?thesis
    proof (cases r)
      case (Inl e)
      then show ?thesis using r(1) False by simp
    next
      case (Inr s')
      then have mv: "conj_moved s [x] n s'" using r(2) by simp
      obtain r' where "conj_advance_trailing adv s' xs n = Some r'" "\<forall>s''. r' = Inr s'' \<longrightarrow> conj_moved s' xs n s''"
        using Cons.IH [of s'] conj_moved_length [OF mv] Cons.prems(3-4) by auto
      then show ?thesis using r(1) Inr False conj_moved_Cons [OF mv] Cons.prems(3) by auto
    qed
  qed
qed

text \<open>What a call of the loop promises, and the measure that every round decreases.\<close>

definition conj_post :: "composite \<Rightarrow> 's conj \<Rightarrow> document_match option \<Rightarrow> 's conj \<Rightarrow> bool" where
  "conj_post sc s m s' \<longleftrightarrow> conj_kept s s' \<and>
     (\<forall>p d. conj_upfrom s p \<longrightarrow> m = Some d \<longrightarrow>
        conj_hits hits sc s d \<and> p \<le> Number d \<and> conj_upfrom s' (Suc (Number d))) \<and>
     (\<forall>b. conj_upfrom s b \<longrightarrow> conj_aim s b \<longrightarrow> first_hit (conj_docs s) b m \<and>
        (\<forall>d. m = Some d \<longrightarrow> conj_hits exact sc s d \<and> conj_aim s' (Suc (Number d))))"

definition conj_weight :: "nat \<Rightarrow> document_match option \<Rightarrow> nat" where
  "conj_weight B m = (case m of None \<Rightarrow> 0 | Some d \<Rightarrow> B - Number d)"

definition conj_measure :: "nat \<Rightarrow> 's conj \<Rightarrow> nat" where
  "conj_measure B s = (\<Sum>i<length (cj_currs s). conj_weight B (cj_currs s ! i)) + conj_weight B (cj_currs s ! cj_maxIDIdx s)"

definition conj_bound :: "'s conj \<Rightarrow> nat \<Rightarrow> bool" where
  "conj_bound s B \<longleftrightarrow> (\<forall>i<length (cj_searchers s). \<forall>j\<in>docs_of hits (cj_searchers s ! i). j < B)"

lemma conj_bound_exists: "conj_inv s \<Longrightarrow> \<exists>B. conj_bound s B"
proof -
  assume "conj_inv s"
  then have "finite (\<Union>i<length (cj_searchers s). docs_of hits (cj_searchers s ! i))"
    using finite_docs by (auto simp: conj_inv_def)
  then obtain B where "\<forall>j\<in>(\<Union>i<length (cj_searchers s). docs_of hits (cj_searchers s ! i)). j < B"
    using finite_nat_set_iff_bounded by blast
  then show ?thesis by (auto simp: conj_bound_def)
qed

lemma conj_bound_kept:
  assumes k: "conj_kept s s'" and b: "conj_bound s B"
  shows "conj_bound s' B"
  unfolding conj_bound_def
proof (intro allI impI)
  fix i assume i: "i < length (cj_searchers s')"
  have "map hits (cj_searchers s') ! i = map hits (cj_searchers s) ! i" "length (cj_searchers s') = length (cj_searchers s)"
    using k by (simp_all add: conj_kept_def)
  then have "docs_of hits (cj_searchers s' ! i) = docs_of hits (cj_searchers s ! i)" using i by (simp add: docs_of_def)
  then show "\<forall>j\<in>docs_of hits (cj_searchers s' ! i). j < B"
    using b i \<open>length _ = _\<close> unfolding conj_bound_def by simp
qed

lemma conj_post_trans:
  assumes "conj_kept s s'" "\<forall>p. conj_upfrom s p \<longrightarrow> conj_upfrom s' p"
    "\<forall>b. conj_upfrom s b \<longrightarrow> conj_aim s b \<longrightarrow> conj_aim s' b" "conj_post sc s' m s''"
  shows "conj_post sc s m s''"
proof -
  have eq: "conj_hits hits sc s' = conj_hits hits sc s" "conj_hits exact sc s' = conj_hits exact sc s"
    using assms(1) by (intro conj_hits_cong; simp add: conj_kept_def)+
  have docs: "conj_docs s' = conj_docs s" using assms(1) by (rule conj_kept_docs)
  show ?thesis
    using assms(2-4) conj_kept_trans [OF assms(1)] unfolding conj_post_def eq docs by blast
qed

lemma conj_currs_bound:
  assumes "conj_inv s" "cj_initialized s" "conj_bound s B" "i < length (cj_searchers s)" "cj_currs s ! i = Some d"
  shows "Number d < B"
  using assms hit_doc unfolding conj_inv_def conj_bound_def by blast

lemma conj_weight_moved:
  assumes inv: "conj_inv s" "cj_initialized s" "conj_bound s B" and mv: "conj_moved s xs n s'"
    and xs: "\<forall>x\<in>set xs. x < length (cj_searchers s) \<and> (\<exists>d. cj_currs s ! x = Some d \<and> Number d < n)"
  shows "i < length (cj_searchers s) \<Longrightarrow> conj_weight B (cj_currs s' ! i) \<le> conj_weight B (cj_currs s ! i)"
    and "i \<in> set xs \<Longrightarrow> conj_weight B (cj_currs s' ! i) < conj_weight B (cj_currs s ! i)"
proof -
  show lt: "conj_weight B (cj_currs s' ! i) < conj_weight B (cj_currs s ! i)" if i: "i \<in> set xs" for i
  proof -
    obtain d where d: "cj_currs s ! i = Some d" "Number d < n" "i < length (cj_searchers s)" using xs i by blast
    have "Number d < B" using conj_currs_bound [OF inv d(3,1)] .
    moreover have "\<forall>d'. cj_currs s' ! i = Some d' \<longrightarrow> n \<le> Number d'" using mv i by (simp add: conj_moved_def)
    ultimately show ?thesis using d(1,2) by (auto simp: conj_weight_def split: option.split)
  qed
  show "conj_weight B (cj_currs s' ! i) \<le> conj_weight B (cj_currs s ! i)" if "i < length (cj_searchers s)"
  proof (cases "i \<in> set xs")
    case True
    then show ?thesis using lt by (simp add: less_imp_le)
  next
    case False
    then show ?thesis using mv by (simp add: conj_moved_def)
  qed
qed

lemma conj_measure_moved:
  assumes inv: "conj_inv s" "cj_initialized s" "conj_bound s B" and mv: "conj_moved s xs n s'"
    and xs: "\<forall>x\<in>set xs. x < length (cj_searchers s) \<and> (\<exists>d. cj_currs s ! x = Some d \<and> Number d < n)"
    and ne: "cj_searchers s \<noteq> []"
  shows "conj_measure B s' \<le> conj_measure B s" and "xs \<noteq> [] \<Longrightarrow> conj_measure B s' < conj_measure B s"
proof -
  have len: "length (cj_currs s') = length (cj_currs s)" "length (cj_currs s) = length (cj_searchers s)"
    "cj_maxIDIdx s' = cj_maxIDIdx s" "cj_maxIDIdx s < length (cj_searchers s)"
    using inv(1) mv ne by (simp_all add: conj_moved_def conj_kept_def conj_inv_def)
  note w = conj_weight_moved [OF inv mv xs]
  have m: "conj_weight B (cj_currs s' ! cj_maxIDIdx s') \<le> conj_weight B (cj_currs s ! cj_maxIDIdx s)"
    using w(1) len by simp
  have "(\<Sum>i<length (cj_currs s). conj_weight B (cj_currs s' ! i)) \<le> (\<Sum>i<length (cj_currs s). conj_weight B (cj_currs s ! i))"
    using w(1) len(2) by (intro sum_mono) simp
  then show "conj_measure B s' \<le> conj_measure B s" using m len(1) by (simp add: conj_measure_def)
  assume "xs \<noteq> []"
  then obtain x where x: "x \<in> set xs" "x < length (cj_currs s)" using xs len(2) by (cases xs) auto
  have "(\<Sum>i<length (cj_currs s). conj_weight B (cj_currs s' ! i)) < (\<Sum>i<length (cj_currs s). conj_weight B (cj_currs s ! i))"
    using w len(2) x by (intro sum_strict_mono_ex1) auto
  then show "conj_measure B s' < conj_measure B s" using m len(1) by (simp add: conj_measure_def)
qed

text \<open>Where every child has just moved to its first document from \<open>b\<close> on, the conjunction is ready for \<open>b\<close>.\<close>

lemma conj_aim_after:
  assumes len: "length (cj_searchers s') = length (cj_searchers s)" and docs: "conj_docs s' = conj_docs s"
    and landed: "\<And>i. i < length (cj_searchers s) \<Longrightarrow>
      first_hit (docs_of hits (cj_searchers s ! i)) b (cj_currs s' ! i) \<and>
      (\<forall>d. cj_currs s' ! i = Some d \<longrightarrow> exact (cj_searchers s' ! i) d \<and> live (cj_searchers s' ! i) (Suc (Number d)))"
  shows "conj_aim s' b"
proof -
  have sub: "conj_docs s \<subseteq> docs_of hits (cj_searchers s ! i)" if "i < length (cj_searchers s)" for i
    using that by (auto simp: conj_docs_def)
  show ?thesis
  proof (cases "\<exists>i<length (cj_searchers s). cj_currs s' ! i = None")
    case True
    then obtain i where i: "i < length (cj_searchers s)" "cj_currs s' ! i = None" by blast
    then have "\<forall>j\<in>docs_of hits (cj_searchers s ! i). j < b" using landed [OF i(1)] by (simp add: first_hit_def)
    then show ?thesis using sub [OF i(1)] unfolding conj_aim_def docs by blast
  next
    case False
    have "conj_ready (conj_docs s') s' b"
      unfolding conj_ready_def docs len
    proof (intro allI impI)
      fix i assume i: "i < length (cj_searchers s)"
      then obtain d where d: "cj_currs s' ! i = Some d" using False by (metis not_None_eq)
      then have "\<forall>j\<in>conj_docs s. b \<le> j \<longrightarrow> Number d \<le> j"
        using landed [OF i] sub [OF i] unfolding first_hit_def by auto
      then show "\<exists>d. cj_currs s' ! i = Some d \<and> exact (cj_searchers s' ! i) d \<and> live (cj_searchers s' ! i) (Suc (Number d)) \<and>
          (\<forall>j\<in>conj_docs s. b \<le> j \<longrightarrow> Number d \<le> j)"
        using landed [OF i] d by blast
    qed
    then show ?thesis by (simp add: conj_aim_def)
  qed
qed

lemma conj_match_ok:
  assumes inv: "conj_inv s" "cj_initialized s" and ne: "cj_searchers s \<noteq> []"
    and all: "\<forall>x<length (cj_searchers s). \<exists>d. cj_currs s ! x = Some d \<and> Number d = N"
  shows "\<exists>r. bindr (next_all nxt (cj_searchers s)) (\<lambda>(ms, ss).
       Some (Inr (Some (build_document_match sc (map the (cj_currs s))), s\<lparr>cj_currs := ms, cj_searchers := ss\<rparr>))) = Some r \<and>
     (\<forall>m s'. r = Inr (m, s') \<longrightarrow> conj_post sc s m s')"
proof -
  let ?n = "length (cj_searchers s)" and ?rv = "build_document_match sc (map the (cj_currs s))"
  have len: "length (cj_currs s) = ?n" using inv(1) by (simp add: conj_inv_def)
  have "\<forall>i<?n. inv (cj_searchers s ! i) \<and> upfrom (cj_searchers s ! i) (Suc N)"
    using inv all unfolding conj_inv_def by blast
  note all_ok = next_all_ok [OF this]
  obtain r where r: "next_all nxt (cj_searchers s) = Some r" using all_ok by blast
  show ?thesis
  proof (cases r)
    case (Inl e)
    then show ?thesis using r by simp
  next
    case (Inr x)
    then obtain ms ss where n: "next_all nxt (cj_searchers s) = Some (Inr (ms, ss))" using r by (cases x) simp
    note ok = all_ok [unfolded n, simplified]
    let ?s = "s\<lparr>cj_currs := ms, cj_searchers := ss\<rparr>"
    have maps: "map hits ss = map hits (cj_searchers s)" "map exact ss = map exact (cj_searchers s)"
      using ok by (simp_all add: list_eq_iff_nth_eq)
    have kept: "conj_kept s ?s"
      using ok maps inv ne unfolding conj_kept_def conj_inv_def by simp
    have docs: "conj_docs ?s = conj_docs s" using kept by (rule conj_kept_docs)
    have hit: "\<forall>i<?n. hits (cj_searchers s ! i) (the (cj_currs s ! i)) \<and> Number (the (cj_currs s ! i)) = N"
      using inv all unfolding conj_inv_def by force
    have "all_hit hits (cj_searchers s) N (map the (cj_currs s))"
      using hit len ne by (auto simp: all_hit_def list_all2_conv_all_nth in_set_conv_nth)
    then have rv: "conj_hits hits sc s ?rv" "Number ?rv = N"
      by (auto simp: conj_hits_def simp del: Number_build intro: all_hit_number)
    then have doc: "N \<in> conj_docs s" unfolding conj_docs_def docs_conj [of hits sc s, symmetric] by (rule docs_ofI)
    have "0 < ?n" using ne by simp
    then obtain d0 where d0: "cj_currs s ! 0 = Some d0" "Number d0 = N" using all by blast
    have up: "conj_upfrom s p \<Longrightarrow> p \<le> N" for p
      using d0 inv(2) \<open>0 < ?n\<close> unfolding conj_upfrom_def by auto
    have up': "conj_upfrom ?s (Suc N)" using ok inv(2) by (simp add: conj_upfrom_def)
    have aim: "first_hit (conj_docs s) b (Some ?rv) \<and> conj_hits exact sc s ?rv \<and> conj_aim ?s (Suc N)"
      if b: "conj_upfrom s b" "conj_aim s b" for b
    proof -
      have "b \<le> N" using up b(1) .
      then have ready: "conj_ready (conj_docs s) s b" using b(2) doc unfolding conj_aim_def by auto
      have ex: "\<forall>i<?n. exact (cj_searchers s ! i) (the (cj_currs s ! i)) \<and> live (cj_searchers s ! i) (Suc N)"
        using ready all unfolding conj_ready_def by force
      have "all_hit exact (cj_searchers s) N (map the (cj_currs s))"
        using ex hit len ne by (auto simp: all_hit_def list_all2_conv_all_nth in_set_conv_nth)
      then have 1: "conj_hits exact sc s ?rv" unfolding conj_hits_def by blast
      have "\<forall>j\<in>conj_docs s. b \<le> j \<longrightarrow> N \<le> j"
        using ready d0 \<open>0 < ?n\<close> unfolding conj_ready_def by force
      then have 2: "first_hit (conj_docs s) b (Some ?rv)" using doc \<open>b \<le> N\<close> rv(2) by (simp add: first_hit_def)
      have 3: "conj_aim ?s (Suc N)"
      proof (rule conj_aim_after [OF _ docs])
        fix i assume i: "i < ?n"
        then have "live (cj_searchers s ! i) (Suc N)" using ex by blast
        then show "first_hit (docs_of hits (cj_searchers s ! i)) (Suc N) (cj_currs ?s ! i) \<and>
          (\<forall>d. cj_currs ?s ! i = Some d \<longrightarrow> exact (cj_searchers ?s ! i) d \<and> live (cj_searchers ?s ! i) (Suc (Number d)))"
          using ok i by simp
      qed (use ok in simp)
      show ?thesis using 1 2 3 by blast
    qed
    have "conj_post sc s (Some ?rv) ?s"
      using kept rv up up' aim unfolding conj_post_def by simp
    then show ?thesis using n by simp
  qed
qed

definition conj_at :: "'s conj \<Rightarrow> nat option \<Rightarrow> bool" where
  "conj_at s pos \<longleftrightarrow> (case pos of
      None \<Rightarrow> True
    | Some i \<Rightarrow> i \<le> length (cj_searchers s) \<and> cj_searchers s \<noteq> [] \<and>
        (\<exists>M. cj_currs s ! cj_maxIDIdx s = Some M \<and>
          (\<forall>x<i. \<exists>d. cj_currs s ! x = Some d \<and> Number d = Number M)))"

lemma conj_stop_ok:
  assumes "conj_inv s" "cj_initialized s" "cj_searchers s = [] \<or> (\<exists>i<length (cj_searchers s). cj_currs s ! i = None)"
  shows "conj_post sc s None s"
proof -
  have "first_hit (conj_docs s) b None" if "conj_aim s b" for b
  proof -
    have "cj_searchers s = [] \<or> \<not> conj_ready (conj_docs s) s b" using assms(3) unfolding conj_ready_def by force
    then show ?thesis using that by (auto simp: conj_aim_def conj_docs_def first_hit_def)
  qed
  then show ?thesis using assms(1,2) by (simp add: conj_post_def conj_kept_def)
qed

lemma conj_post_moved:
  assumes mv: "conj_moved s xs n s'" and up: "\<And>p. conj_upfrom s p \<Longrightarrow> p \<le> n"
    and aim: "\<And>b. conj_aim s b \<Longrightarrow> \<forall>j\<in>conj_docs s. b \<le> j \<longrightarrow> n \<le> j"
    and post: "conj_post sc s' m s''"
  shows "conj_post sc s m s''"
  by (rule conj_post_trans [OF _ _ _ post]; use mv up aim in \<open>auto simp: conj_moved_def\<close>)

lemma conj_aim_curr:
  assumes "conj_aim s b" "i < length (cj_searchers s)" "cj_currs s ! i = Some d"
  shows "\<forall>j\<in>conj_docs s. b \<le> j \<longrightarrow> Number d \<le> j"
  using assms unfolding conj_aim_def conj_ready_def by force

lemma conj_upfrom_curr:
  "conj_upfrom s p \<Longrightarrow> cj_initialized s \<Longrightarrow> i < length (cj_searchers s) \<Longrightarrow> cj_currs s ! i = Some d \<Longrightarrow> p \<le> Number d"
  unfolding conj_upfrom_def by auto

lemma conj_upfrom_max: "conj_upfrom (s\<lparr>cj_maxIDIdx := i\<rparr>) p = conj_upfrom s p"
  unfolding conj_upfrom_def by simp

lemma conj_aim_max: "conj_aim (s\<lparr>cj_maxIDIdx := i\<rparr>) b = conj_aim s b"
  unfolding conj_aim_def conj_docs_def conj_ready_def by simp

lemma conj_loop_ok:
  "conj_inv s \<Longrightarrow> cj_initialized s \<Longrightarrow> conj_bound s B \<Longrightarrow> conj_at s pos \<Longrightarrow>
    \<exists>r. conj_loop nxt adv sc s pos = Some r \<and> (\<forall>m s'. r = Inr (m, s') \<longrightarrow> conj_post sc s m s')"
proof (induction "conj_measure B s" arbitrary: s pos rule: less_induct)
  case less
  note inv = less.prems(1,2)
  let ?n = "length (cj_searchers s)" and ?M = "cj_maxIDIdx s"
  have len: "length (cj_currs s) = ?n" "cj_searchers s \<noteq> [] \<longrightarrow> ?M < ?n" using inv by (simp_all add: conj_inv_def)
  have inner: "conj_at s (Some i) \<Longrightarrow>
    \<exists>r. conj_loop nxt adv sc s (Some i) = Some r \<and> (\<forall>m s'. r = Inr (m, s') \<longrightarrow> conj_post sc s m s')" for i
  proof (induction "?n - i" arbitrary: i)
    case 0
    then have i: "i = ?n" and ne: "cj_searchers s \<noteq> []" by (simp_all add: conj_at_def)
    obtain N where N: "\<forall>x<?n. \<exists>d. cj_currs s ! x = Some d \<and> Number d = N"
      using 0(2) i by (auto simp: conj_at_def)
    have eq: "conj_loop nxt adv sc s (Some i) = bindr (next_all nxt (cj_searchers s)) (\<lambda>(ms, ss).
       Some (Inr (Some (build_document_match sc (map the (cj_currs s))), s\<lparr>cj_currs := ms, cj_searchers := ss\<rparr>)))"
      by (subst conj_loop.simps) (simp add: i len(1) Let_def)
    show ?case unfolding eq by (rule conj_match_ok [OF inv ne N])
  next
    case (Suc k)
    then have i: "i < ?n" and ne: "cj_searchers s \<noteq> []" by auto
    have M: "?M < ?n" using len(2) ne by simp
    obtain m where m: "cj_currs s ! ?M = Some m" "\<forall>x<i. \<exists>d. cj_currs s ! x = Some d \<and> Number d = Number m"
      using Suc.prems by (auto simp: conj_at_def)
    note unf = conj_loop.simps [of nxt adv sc s "Some i"]
    show ?case
    proof (cases "cj_currs s ! i")
      case None
      then have "conj_loop nxt adv sc s (Some i) = Some (Inr (None, s))" unfolding unf using i len(1) by simp
      moreover have "conj_post sc s None s" using conj_stop_ok inv None i by blast
      ultimately show ?thesis by simp
    next
      case (Some c)
      consider "i = ?M \<or> Number m = Number c" | "i \<noteq> ?M" "Number m < Number c" | "i \<noteq> ?M" "Number c < Number m"
        by linarith
      then show ?thesis
      proof cases
        case 1
        then have eq: "conj_loop nxt adv sc s (Some i) = conj_loop nxt adv sc s (Some (i + 1))"
          unfolding unf using i len(1) Some m(1) by (auto simp: Let_def)
        have "conj_at s (Some (i + 1))"
          using Suc.prems i Some m 1 by (auto simp: conj_at_def less_Suc_eq)
        then show ?thesis unfolding eq using Suc.hyps by (intro Suc.hyps(1)) simp_all
      next
        case 2
        let ?s = "s\<lparr>cj_maxIDIdx := i\<rparr>" and ?n' = "Number c"
        have eq: "conj_loop nxt adv sc s (Some i) =
            bindr (conj_advance_list adv ?s [0..<i] ?n') (\<lambda>s. conj_loop nxt adv sc s None)"
          unfolding unf using i len(1) Some m(1) 2 by (simp add: Let_def)
        have inv': "conj_inv ?s" "cj_initialized ?s" "conj_bound ?s B"
          using inv less.prems(3) i by (simp_all add: conj_inv_def conj_bound_def)
        have below: "\<forall>x\<in>set [0..<i]. x < length (cj_searchers ?s) \<and> (\<exists>d. cj_currs ?s ! x = Some d \<and> Number d < ?n')"
          using m(2) 2(2) i by fastforce
        have drop: "conj_measure B ?s < conj_measure B s"
          using Some m(1) 2(2) conj_currs_bound [OF inv less.prems(3) i Some]
          by (simp add: conj_measure_def conj_weight_def)
        obtain r where r: "conj_advance_list adv ?s [0..<i] ?n' = Some r" "\<forall>s'. r = Inr s' \<longrightarrow> conj_moved ?s [0..<i] ?n' s'"
          using conj_advance_list_ok [OF inv'(1,2), of "[0..<i]" ?n'] below by fastforce
        show ?thesis
        proof (cases r)
          case (Inl e)
          then show ?thesis unfolding eq using r(1) by simp
        next
          case (Inr s')
          then have mv: "conj_moved ?s [0..<i] ?n' s'" using r(2) by simp
          have k: "conj_kept ?s s'" using mv by (simp add: conj_moved_def)
          have "conj_measure B s' < conj_measure B s"
            using conj_measure_moved(1) [OF inv' mv below] ne drop by simp
          then obtain r' where r': "conj_loop nxt adv sc s' None = Some r'" "\<forall>m s''. r' = Inr (m, s'') \<longrightarrow> conj_post sc s' m s''"
            using less.hyps [of s' None] k conj_bound_kept [OF k inv'(3)] by (auto simp: conj_kept_def conj_at_def)
          have "conj_post sc ?s m' s'' \<Longrightarrow> conj_post sc s m' s''" for m' s''
            by (rule conj_post_trans [of s ?s]) (use inv' in \<open>simp_all add: conj_kept_def conj_upfrom_max conj_aim_max\<close>)
          moreover have "conj_post sc s' m' s'' \<Longrightarrow> conj_post sc ?s m' s''" for m' s''
            using conj_upfrom_curr [of ?s _ i] conj_aim_curr [of ?s _ i] inv' i Some by (intro conj_post_moved [OF mv]) auto
          ultimately show ?thesis unfolding eq using r(1) Inr r' by simp
        qed
      next
        case 3
        have eq: "conj_loop nxt adv sc s (Some i) =
            bindr (conj_advance_child adv s i (Number m)) (\<lambda>s. conj_loop nxt adv sc s (Some i))"
          unfolding unf using i len(1) Some m(1) 3 by (simp add: Let_def)
        obtain r where r: "conj_advance_child adv s i (Number m) = Some r" "\<forall>s'. r = Inr s' \<longrightarrow> conj_moved s [i] (Number m) s'"
          using conj_advance_child_ok [OF inv i, of "Number m"] Some 3(2) by auto
        show ?thesis
        proof (cases r)
          case (Inl e)
          then show ?thesis unfolding eq using r(1) by simp
        next
          case (Inr s')
          then have mv: "conj_moved s [i] (Number m) s'" using r(2) by simp
          have k: "conj_kept s s'" using mv by (simp add: conj_moved_def)
          have below: "\<forall>x\<in>set [i]. x < ?n \<and> (\<exists>d. cj_currs s ! x = Some d \<and> Number d < Number m)" using i Some 3(2) by simp
          have at: "conj_at s' (Some i)"
            using mv k m 3(1) i ne unfolding conj_at_def conj_moved_def conj_kept_def by auto
          have "conj_measure B s' < conj_measure B s"
            using conj_measure_moved(2) [OF inv less.prems(3) mv below ne] by simp
          then obtain r' where r': "conj_loop nxt adv sc s' (Some i) = Some r'" "\<forall>m s''. r' = Inr (m, s'') \<longrightarrow> conj_post sc s' m s''"
            using less.hyps [of s' "Some i"] k at conj_bound_kept [OF k less.prems(3)] by (auto simp: conj_kept_def)
          have "conj_post sc s' m' s'' \<Longrightarrow> conj_post sc s m' s''" for m' s''
            using conj_upfrom_curr [of s _ ?M] conj_aim_curr [of s _ ?M] inv M m(1) by (intro conj_post_moved [OF mv]) auto
          then show ?thesis unfolding eq using r(1) Inr r' by simp
        qed
      qed
    qed
  qed
  show ?case
  proof (cases pos)
    case (Some i)
    then show ?thesis using inner less.prems(4) by simp
  next
    case None
    note unf = conj_loop.simps [of nxt adv sc s None]
    show ?thesis
    proof (cases "?M < length (cj_currs s) \<and> cj_currs s ! ?M \<noteq> None")
      case True
      then have "conj_loop nxt adv sc s None = conj_loop nxt adv sc s (Some 0)" unfolding unf by simp
      moreover have "conj_at s (Some 0)" using True len(1) by (auto simp: conj_at_def)
      ultimately show ?thesis unfolding None using inner by simp
    next
      case False
      then have "conj_loop nxt adv sc s None = Some (Inr (None, s))" unfolding unf by auto
      moreover have "conj_post sc s None s" using False len inv by (intro conj_stop_ok) auto
      ultimately show ?thesis unfolding None by simp
    qed
  qed
qed

lemma conj_init_ok:
  assumes inv: "conj_inv s" and fresh: "\<not> cj_initialized s"
  shows "\<exists>r. conj_init nxt s = Some r \<and> (\<forall>s'. r = Inr s' \<longrightarrow> conj_kept s s' \<and>
    (\<forall>p. conj_upfrom s p \<longrightarrow> conj_upfrom s' p) \<and> (\<forall>b. conj_live s b \<longrightarrow> conj_live s' b))"
proof -
  let ?n = "length (cj_searchers s)"
  have "\<forall>i<?n. inv (cj_searchers s ! i) \<and> upfrom (cj_searchers s ! i) 0"
    using inv upfrom_0 by (simp add: conj_inv_def)
  note base = next_all_ok [OF this]
  obtain r where r: "next_all nxt (cj_searchers s) = Some r" using base by blast
  show ?thesis
  proof (cases r)
    case (Inl e)
    then show ?thesis using r by (simp add: conj_init_def)
  next
    case (Inr x)
    then obtain ms ss where n: "next_all nxt (cj_searchers s) = Some (Inr (ms, ss))" using r by (cases x) simp
    let ?s = "s\<lparr>cj_searchers := ss, cj_currs := ms, cj_initialized := True\<rparr>"
    note ok = base [unfolded n, simplified]
    have maps: "map hits ss = map hits (cj_searchers s)" "map exact ss = map exact (cj_searchers s)"
      using ok by (simp_all add: list_eq_iff_nth_eq)
    have ne: "ss = [] \<longleftrightarrow> cj_searchers s = []" using ok by (metis length_0_conv)
    have kept: "conj_kept s ?s"
      using ok maps inv ne unfolding conj_kept_def conj_inv_def by simp
    have docs: "conj_docs ?s = conj_docs s" using kept by (rule conj_kept_docs)
    have up: "conj_upfrom ?s p" if p: "conj_upfrom s p" for p
    proof -
      have "\<forall>i<?n. inv (cj_searchers s ! i) \<and> upfrom (cj_searchers s ! i) p"
        using inv p fresh unfolding conj_inv_def conj_upfrom_def by simp
      from next_all_ok [OF this, unfolded n, simplified] show ?thesis by (simp add: conj_upfrom_def)
    qed
    have live: "conj_live ?s b" if b: "conj_live s b" for b
    proof -
      have lv: "\<forall>i<?n. live (cj_searchers s ! i) b" using b fresh by (simp add: conj_live_def)
      then have "conj_upfrom s b" using live_upfrom fresh by (simp add: conj_upfrom_def)
      moreover have "conj_aim ?s b"
      proof (rule conj_aim_after [OF _ docs])
        fix i assume i: "i < ?n"
        then have "live (cj_searchers s ! i) b" using lv by blast
        then show "first_hit (docs_of hits (cj_searchers s ! i)) b (cj_currs ?s ! i) \<and>
          (\<forall>d. cj_currs ?s ! i = Some d \<longrightarrow> exact (cj_searchers ?s ! i) d \<and> live (cj_searchers ?s ! i) (Suc (Number d)))"
          using ok i by simp
      qed (use ok in simp)
      ultimately show ?thesis using up by (simp add: conj_live_def)
    qed
    show ?thesis using n kept up live by (simp add: conj_init_def)
  qed
qed

lemma conj_prepared:
  assumes inv: "conj_inv s"
  shows "\<exists>r. (if cj_initialized s then Some (Inr s) else conj_init nxt s) = Some r \<and> (\<forall>s'. r = Inr s' \<longrightarrow> conj_kept s s' \<and>
    (\<forall>p. conj_upfrom s p \<longrightarrow> conj_upfrom s' p) \<and> (\<forall>b. conj_live s b \<longrightarrow> conj_live s' b))"
  using conj_init_ok [OF inv] inv by (cases "cj_initialized s") (simp_all add: conj_kept_def)

text \<open>The loop from an initialised state, in the words of the contract.\<close>

lemma conj_loop_contract:
  assumes kept: "conj_kept s0 s" and p: "conj_upfrom s p" and P: "P \<Longrightarrow> conj_live s p"
  shows "\<exists>r. conj_loop nxt adv sc s None = Some r \<and> (\<forall>m s'. r = Inr (m, s') \<longrightarrow>
      conj_inv s' \<and> conj_hits hits sc s' = conj_hits hits sc s0 \<and> conj_hits exact sc s' = conj_hits exact sc s0 \<and>
      (\<forall>d. m = Some d \<longrightarrow> conj_hits hits sc s0 d \<and> p \<le> Number d \<and> conj_upfrom s' (Suc (Number d))) \<and>
      (P \<longrightarrow> first_hit (docs_of (conj_hits hits sc) s0) p m \<and>
         (\<forall>d. m = Some d \<longrightarrow> conj_hits exact sc s0 d \<and> conj_live s' (Suc (Number d)))))"
proof -
  have inv: "conj_inv s" "cj_initialized s" using kept by (simp_all add: conj_kept_def)
  obtain B where B: "conj_bound s B" using conj_bound_exists [OF inv(1)] by blast
  have "conj_at s None" by (simp add: conj_at_def)
  from conj_loop_ok [OF inv B this, where sc = sc]
  obtain r where r: "conj_loop nxt adv sc s None = Some r" "\<forall>m s'. r = Inr (m, s') \<longrightarrow> conj_post sc s m s'" by blast
  have docs: "conj_docs s = docs_of (conj_hits hits sc) s0"
    using conj_kept_docs [OF kept] docs_conj [of hits sc s0] conj_docs_def [of s0] by simp
  have cong: "conj_hits hits sc s' = conj_hits hits sc s0" "conj_hits exact sc s' = conj_hits exact sc s0"
    if "conj_kept s0 s'" for s'
    using that by (intro conj_hits_cong; simp add: conj_kept_def)+
  show ?thesis
  proof (intro exI [of _ r] conjI r(1) allI impI)
    fix m s' assume m: "r = Inr (m, s')"
    then have post: "conj_post sc s m s'" using r(2) by blast
    then have k: "conj_kept s0 s'" using conj_kept_trans kept unfolding conj_post_def by blast
    show "conj_inv s'" using k by (simp add: conj_kept_def)
    show "conj_hits hits sc s' = conj_hits hits sc s0" "conj_hits exact sc s' = conj_hits exact sc s0" using cong [OF k] .
    show "conj_hits hits sc s0 d" "p \<le> Number d" "conj_upfrom s' (Suc (Number d))" if "m = Some d" for d
      using post that p cong(1) [OF kept] unfolding conj_post_def by simp_all
    assume P
    then have b: "conj_upfrom s p" "conj_aim s p" using P inv(2) by (simp_all add: conj_live_def)
    show "first_hit (docs_of (conj_hits hits sc) s0) p m" using post b docs unfolding conj_post_def by simp
    fix d assume d: "m = Some d"
    show "conj_hits exact sc s0 d" using post b d cong(2) [OF kept] unfolding conj_post_def by simp
    show "conj_live s' (Suc (Number d))" using post b d k unfolding conj_post_def conj_live_def conj_kept_def by simp
  qed
qed

lemma conj_live_upfrom: "conj_live s b \<Longrightarrow> conj_upfrom s b"
  using live_upfrom unfolding conj_live_def conj_upfrom_def by (auto split: if_splits)

lemma conjunction_searcher:
  "searcher (conj_next nxt adv sc) (conj_advance nxt adv sc) conj_inv (conj_hits hits sc) (conj_hits exact sc) conj_upfrom conj_live"
proof
  fix s assume inv: "conj_inv s"
  show "finite (docs_of (conj_hits hits sc) s)"
  proof (cases "cj_searchers s")
    case (Cons c cs)
    then have "inv c" using inv unfolding conj_inv_def by force
    then show ?thesis using Cons finite_docs unfolding docs_conj by simp
  qed (simp add: docs_conj)
  show "conj_upfrom s 0" using inv upfrom_0 by (simp add: conj_upfrom_def conj_inv_def)
next
  fix s b assume "conj_live s b"
  then show "conj_upfrom s b" by (rule conj_live_upfrom)
next
  fix s p assume inv: "conj_inv s" and p: "conj_upfrom s p"
  obtain r where r: "(if cj_initialized s then Some (Inr s) else conj_init nxt s) = Some r" 
    "\<forall>s'. r = Inr s' \<longrightarrow> conj_kept s s' \<and>
      (\<forall>p. conj_upfrom s p \<longrightarrow> conj_upfrom s' p) \<and> (\<forall>b. conj_live s b \<longrightarrow> conj_live s' b)"
    using conj_prepared [OF inv] by blast
  show "\<exists>r. conj_next nxt adv sc s = Some r \<and> (\<forall>m s'. r = Inr (m, s') \<longrightarrow>
        conj_inv s' \<and> conj_hits hits sc s' = conj_hits hits sc s \<and> conj_hits exact sc s' = conj_hits exact sc s \<and>
        (\<forall>d. m = Some d \<longrightarrow> conj_hits hits sc s d \<and> p \<le> Number d \<and> conj_upfrom s' (Suc (Number d))) \<and>
        (conj_live s p \<longrightarrow> first_hit (docs_of (conj_hits hits sc) s) p m \<and>
          (\<forall>d. m = Some d \<longrightarrow> conj_hits exact sc s d \<and> conj_live s' (Suc (Number d)))))"
  proof (cases r)
    case (Inl e)
    then show ?thesis using r(1) by (simp add: conj_next_def)
  next
    case (Inr s1)
    then have eq: "conj_next nxt adv sc s = conj_loop nxt adv sc s1 None" using r(1) by (simp add: conj_next_def)
    have k: "conj_kept s s1" "conj_upfrom s1 p" "conj_live s p \<longrightarrow> conj_live s1 p" using r(2) Inr p by blast+
    show ?thesis unfolding eq using k(3) by (intro conj_loop_contract k(1,2)) blast
  qed
next
  fix s n assume inv: "conj_inv s"
  obtain r where r: "(if cj_initialized s then Some (Inr s) else conj_init nxt s) = Some r" 
    "\<forall>s'. r = Inr s' \<longrightarrow> conj_kept s s' \<and>
      (\<forall>p. conj_upfrom s p \<longrightarrow> conj_upfrom s' p) \<and> (\<forall>b. conj_live s b \<longrightarrow> conj_live s' b)"
    using conj_prepared [OF inv] by blast
  show "\<exists>r. conj_advance nxt adv sc s n = Some r \<and> (\<forall>m s'. r = Inr (m, s') \<longrightarrow>
        conj_inv s' \<and> conj_hits hits sc s' = conj_hits hits sc s \<and> conj_hits exact sc s' = conj_hits exact sc s \<and>
        (\<forall>d. m = Some d \<longrightarrow> conj_hits hits sc s d \<and> n \<le> Number d \<and> conj_upfrom s' (Suc (Number d))) \<and>
        ((\<exists>b\<le>n. conj_live s b) \<longrightarrow> first_hit (docs_of (conj_hits hits sc) s) n m \<and>
          (\<forall>d. m = Some d \<longrightarrow> conj_hits exact sc s d \<and> conj_live s' (Suc (Number d)))))"
  proof (cases r)
    case (Inl e)
    then show ?thesis using r(1) by (simp add: conj_advance_def)
  next
    case (Inr s1)
    then have k: "conj_kept s s1" and lv: "\<forall>b. conj_live s b \<longrightarrow> conj_live s1 b" using r(2) by blast+
    have i1: "conj_inv s1" "cj_initialized s1" using k by (simp_all add: conj_kept_def)
    let ?xs = "[0..<length (cj_searchers s1)]"
    obtain r2 where r2: "conj_advance_trailing adv s1 ?xs n = Some r2" "\<forall>s'. r2 = Inr s' \<longrightarrow> conj_moved s1 ?xs n s'"
      using conj_advance_trailing_ok [OF i1, of ?xs n] by auto
    show ?thesis
    proof (cases r2)
      case (Inl e)
      then show ?thesis using r(1) r2(1) Inr by (simp add: conj_advance_def)
    next
      case (Inr s2)
      then have mv: "conj_moved s1 ?xs n s2" using r2(2) by blast
      then have k2: "conj_kept s s2" using conj_kept_trans [OF k] by (simp add: conj_moved_def)
      then have init: "cj_initialized s2" "length (cj_searchers s2) = length (cj_searchers s1)"
        using conj_moved_length [OF mv] by simp_all
      have eq: "conj_advance nxt adv sc s n = conj_loop nxt adv sc s2 None"
        using r(1) r2(1) \<open>r = Inr s1\<close> Inr init by (simp add: conj_advance_def conj_next_def)
      have up: "conj_upfrom s2 n" using mv init unfolding conj_moved_def conj_upfrom_def by simp
      have "conj_live s2 n" if "b \<le> n" "conj_live s b" for b
      proof -
        have "conj_aim s1 b" using lv that(2) i1(2) by (simp add: conj_live_def)
        then have "conj_aim s1 n"
          using that(1) unfolding conj_aim_def conj_ready_def by (meson le_trans less_le_trans)
        then show ?thesis using mv up init by (simp add: conj_moved_def conj_live_def)
      qed
      then have "\<exists>b\<le>n. conj_live s b \<Longrightarrow> conj_live s2 n" by blast
      then show ?thesis unfolding eq by (rule conj_loop_contract [OF k2 up])
    qed
  qed
qed

end

end
