(* ===== verification/Disjunction.thy ===== *)
theory Disjunction
  imports Searcher
begin

text \<open>
  The slice disjunction searcher (\<open>search_disjunction_slice.go\<close>): the children that stand at the
  smallest document are collected by \<open>updateMatches\<close>, and the document is returned when at
  least \<open>min\<close> of them do.
\<close>

section \<open>Operations\<close>

record 's disj =
  dj_searchers :: "'s list"
  dj_currs :: "document_match option list"
  dj_min :: int
  dj_matching :: "document_match list"
  dj_matchingIdxs :: "nat list"
  dj_initialized :: bool

definition new_disjunction_slice :: "'s list \<Rightarrow> int \<Rightarrow> 's disj" where
  "new_disjunction_slice ss k =
     \<lparr>dj_searchers = ss, dj_currs = replicate (length ss) None, dj_min = k,
      dj_matching = [], dj_matchingIdxs = [], dj_initialized = False\<rparr>"

fun update_matches_loop ::
  "document_match option list \<Rightarrow> nat \<Rightarrow> document_match list \<Rightarrow> nat list \<Rightarrow> document_match list \<times> nat list" where
  "update_matches_loop [] i matching idxs = (matching, idxs)"
| "update_matches_loop (None # cs) i matching idxs = update_matches_loop cs (i + 1) matching idxs"
| "update_matches_loop (Some c # cs) i matching idxs =
     (if matching \<noteq> [] \<and> Number c > Number (hd matching) then update_matches_loop cs (i + 1) matching idxs
      else if matching \<noteq> [] \<and> Number c < Number (hd matching) then update_matches_loop cs (i + 1) [c] [i]
      else update_matches_loop cs (i + 1) (matching @ [c]) (idxs @ [i]))"

definition update_matches :: "'s disj \<Rightarrow> 's disj" where
  "update_matches s =
     (let (matching, idxs) = update_matches_loop (dj_currs s) 0 [] [] in
      s\<lparr>dj_matching := matching, dj_matchingIdxs := idxs\<rparr>)"

fun disj_next_list ::
  "('s \<Rightarrow> ('e, 's) step) \<Rightarrow> 's disj \<Rightarrow> nat list \<Rightarrow> ('e, 's disj) result option" where
  "disj_next_list nxt s [] = Some (Inr s)"
| "disj_next_list nxt s (i # is) =
     bindr (nxt (dj_searchers s ! i)) (\<lambda>(m, c).
       disj_next_list nxt (s\<lparr>dj_currs := (dj_currs s)[i := m], dj_searchers := (dj_searchers s)[i := c]\<rparr>) is)"

definition disj_init :: "('s \<Rightarrow> ('e, 's) step) \<Rightarrow> 's disj \<Rightarrow> ('e, 's disj) result option" where
  "disj_init nxt s =
     bindr (disj_next_list nxt s [0..<length (dj_searchers s)]) (\<lambda>s.
       Some (Inr ((update_matches s)\<lparr>dj_initialized := True\<rparr>)))"

partial_function (option) disj_loop :: "('s \<Rightarrow> ('e, 's) step) \<Rightarrow> composite \<Rightarrow> 's disj \<Rightarrow> ('e, 's disj) step" where
  "disj_loop nxt sc s =
     (if dj_matching s \<noteq> [] then
        let rv = (if int (length (dj_matching s)) \<ge> dj_min s then Some (build_document_match sc (dj_matching s)) else None) in
        bindr (disj_next_list nxt s (dj_matchingIdxs s)) (\<lambda>s.
          if rv \<noteq> None then Some (Inr (rv, update_matches s)) else disj_loop nxt sc (update_matches s))
      else Some (Inr (None, s)))"

definition disj_next :: "('s \<Rightarrow> ('e, 's) step) \<Rightarrow> composite \<Rightarrow> 's disj \<Rightarrow> ('e, 's disj) step" where
  "disj_next nxt sc s =
     bindr (if dj_initialized s then Some (Inr s) else disj_init nxt s) (\<lambda>s. disj_loop nxt sc s)"

fun disj_advance_list ::
  "('s \<Rightarrow> nat \<Rightarrow> ('e, 's) step) \<Rightarrow> 's disj \<Rightarrow> nat list \<Rightarrow> nat \<Rightarrow> ('e, 's disj) result option" where
  "disj_advance_list adv s [] number = Some (Inr s)"
| "disj_advance_list adv s (i # is) number =
     (if (case dj_currs s ! i of None \<Rightarrow> False | Some c \<Rightarrow> Number c \<ge> number)
      then disj_advance_list adv s is number
      else bindr (adv (dj_searchers s ! i) number) (\<lambda>(m, c).
        disj_advance_list adv (s\<lparr>dj_currs := (dj_currs s)[i := m], dj_searchers := (dj_searchers s)[i := c]\<rparr>) is number))"

definition disj_advance ::
  "('s \<Rightarrow> ('e, 's) step) \<Rightarrow> ('s \<Rightarrow> nat \<Rightarrow> ('e, 's) step) \<Rightarrow> composite \<Rightarrow> 's disj \<Rightarrow> nat \<Rightarrow> ('e, 's disj) step" where
  "disj_advance nxt adv sc s number =
     bindr (if dj_initialized s then Some (Inr s) else disj_init nxt s) (\<lambda>s.
       bindr (disj_advance_list adv s [0..<length (dj_searchers s)] number) (\<lambda>s.
         disj_next nxt sc (update_matches s)))"

section \<open>The children at the smallest document\<close>

definition smallest :: "document_match option list \<Rightarrow> document_match \<Rightarrow> bool" where
  "smallest cs c \<longleftrightarrow> (\<forall>d. Some d \<in> set cs \<longrightarrow> Number c \<le> Number d)"

definition smallest_idxs :: "document_match option list \<Rightarrow> nat list" where
  "smallest_idxs cs = filter (\<lambda>i. \<exists>c. cs ! i = Some c \<and> smallest cs c) [0..<length cs]"

definition matches_at :: "document_match option list \<Rightarrow> nat list \<Rightarrow> document_match list" where
  "matches_at cs is = map (\<lambda>i. the (cs ! i)) is"

lemma smallest_snoc: "smallest (cs @ [x]) c \<longleftrightarrow> smallest cs c \<and> (\<forall>d. x = Some d \<longrightarrow> Number c \<le> Number d)"
  by (auto simp: smallest_def)

lemma matches_at_snoc: "\<forall>i\<in>set is. i < length cs \<Longrightarrow> matches_at (cs @ [x]) is = matches_at cs is"
  by (simp add: matches_at_def nth_append)

lemma smallest_idxs_set: "i \<in> set (smallest_idxs cs) \<longleftrightarrow> i < length cs \<and> (\<exists>c. cs ! i = Some c \<and> smallest cs c)"
  by (auto simp: smallest_idxs_def)

lemma smallest_exists: "Some d \<in> set cs \<Longrightarrow> smallest_idxs cs \<noteq> []"
proof -
  assume d: "Some d \<in> set cs"
  define N where "N = (LEAST n. \<exists>d. Some d \<in> set cs \<and> Number d = n)"
  have "\<exists>d. Some d \<in> set cs \<and> Number d = N" unfolding N_def by (rule LeastI [of _ "Number d"]) (use d in blast)
  then obtain c where c: "Some c \<in> set cs" "Number c = N" by blast
  have "smallest cs c" unfolding smallest_def c(2) N_def by (blast intro: Least_le)
  then show ?thesis using c(1) smallest_idxs_set [of _ cs] by (metis in_set_conv_nth list.set_cases list.distinct(1) empty_iff empty_set)
qed

lemma smallest_idxs_snoc:
  "smallest_idxs (cs @ [x]) =
     (case x of
        None \<Rightarrow> smallest_idxs cs
      | Some c \<Rightarrow>
          if \<exists>d. Some d \<in> set cs \<and> Number d < Number c then smallest_idxs cs
          else if \<exists>d. Some d \<in> set cs \<and> Number d = Number c then smallest_idxs cs @ [length cs]
          else [length cs])"
proof (cases x)
  case None
  have "filter (\<lambda>i. \<exists>c. (cs @ [None]) ! i = Some c \<and> smallest cs c) [0..<length cs] = smallest_idxs cs"
    unfolding smallest_idxs_def by (rule filter_cong) (auto simp: nth_append)
  then show ?thesis by (simp add: None smallest_idxs_def smallest_snoc)
next
  case (Some c)
  have last: "(\<exists>d. (cs @ [Some c]) ! length cs = Some d \<and> smallest (cs @ [Some c]) d) \<longleftrightarrow> smallest cs c"
    by (simp add: smallest_snoc)
  have eq: "smallest_idxs (cs @ [Some c]) =
      filter (\<lambda>i. \<exists>d. cs ! i = Some d \<and> smallest cs d \<and> Number d \<le> Number c) [0..<length cs] @ (if smallest cs c then [length cs] else [])"
    unfolding smallest_idxs_def
    using last by (simp add: smallest_snoc) (intro filter_cong; auto simp: nth_append)
  consider (lt) "\<exists>d. Some d \<in> set cs \<and> Number d < Number c"
    | (eq) "\<not> (\<exists>d. Some d \<in> set cs \<and> Number d < Number c)" "\<exists>d. Some d \<in> set cs \<and> Number d = Number c"
    | (gt) "\<forall>d. Some d \<in> set cs \<longrightarrow> Number c < Number d"
    by (meson linorder_neqE_nat)
  then show ?thesis
  proof cases
    case lt
    then obtain d where d: "Some d \<in> set cs" "Number d < Number c" by blast
    have "\<not> smallest cs c" using d by (auto simp: smallest_def)
    moreover have "smallest cs e \<Longrightarrow> Number e \<le> Number c" for e using d unfolding smallest_def by force
    ultimately show ?thesis unfolding Some eq using lt unfolding smallest_idxs_def by (simp cong: conj_cong)
  next
    case eq: eq
    then have "smallest cs c" by (auto simp: smallest_def not_less)
    moreover have "smallest cs e \<Longrightarrow> Number e \<le> Number c" for e using eq(2) unfolding smallest_def by force
    ultimately show ?thesis unfolding Some \<open>smallest_idxs (cs @ [Some c]) = _\<close> using eq unfolding smallest_idxs_def by (auto cong: conj_cong)
  next
    case gt
    then have "smallest cs c" by (auto simp: smallest_def less_imp_le)
    moreover have "filter (\<lambda>i. \<exists>d. cs ! i = Some d \<and> smallest cs d \<and> Number d \<le> Number c) [0..<length cs] = []"
      using gt by (auto simp: filter_empty_conv) (metis leD nth_mem)
    ultimately show ?thesis unfolding Some eq using gt by auto
  qed
qed

lemma update_matches_loop_eq:
  "update_matches_loop cs (length pre) (matches_at pre (smallest_idxs pre)) (smallest_idxs pre) =
     (matches_at (pre @ cs) (smallest_idxs (pre @ cs)), smallest_idxs (pre @ cs))"
proof (induction cs arbitrary: pre)
  case Nil
  then show ?case by simp
next
  case (Cons x cs)
  have lt: "\<forall>i\<in>set (smallest_idxs pre). i < length pre" by (simp add: smallest_idxs_set)
  note IH = Cons.IH [of "pre @ [x]", simplified, unfolded smallest_idxs_snoc]
  show ?case
  proof (cases x)
    case None
    then show ?thesis using IH matches_at_snoc [OF lt, of None] by simp
  next
    case (Some c)
    have c: "matches_at (pre @ [Some c]) [length pre] = [c]" by (simp add: matches_at_def)
    have app: "matches_at (pre @ [Some c]) (smallest_idxs pre @ [length pre]) = matches_at pre (smallest_idxs pre) @ [c]"
      using matches_at_snoc [OF lt] c by (simp add: matches_at_def)
    show ?thesis
    proof (cases "smallest_idxs pre")
      case Nil
      then have "\<forall>d. Some d \<notin> set pre" using smallest_exists by blast
      then show ?thesis using IH Some Nil c by (simp add: matches_at_def)
    next
      case (Cons i rest)
      then obtain d where d: "i < length pre" "pre ! i = Some d" "smallest pre d"
        using smallest_idxs_set [of i pre] by auto
      have hd: "matches_at pre (smallest_idxs pre) = d # matches_at pre rest" using Cons d by (simp add: matches_at_def)
      have mem: "Some d \<in> set pre" using d by (metis nth_mem)
      have min: "Number d \<le> Number e" if "Some e \<in> set pre" for e using d(3) that by (simp add: smallest_def)
      consider "Number d < Number c" | "Number d = Number c" | "Number c < Number d" by linarith
      then show ?thesis
      proof cases
        case 1
        then have ex: "\<exists>d. Some d \<in> set pre \<and> Number d < Number c" using mem by blast
        show ?thesis using IH[unfolded Some] ex Some 1 hd matches_at_snoc [OF lt, of "Some c"] by simp
      next
        case 2
        then have nex: "\<not> (\<exists>d. Some d \<in> set pre \<and> Number d < Number c)" using min by force
        have ex: "\<exists>d. Some d \<in> set pre \<and> Number d = Number c" using mem 2 by blast
        show ?thesis using IH [unfolded Some] nex ex Some 2 hd app by simp
      next
        case 3
        then have nex: "\<not> (\<exists>d. Some d \<in> set pre \<and> Number d < Number c)" "\<not> (\<exists>d. Some d \<in> set pre \<and> Number d = Number c)"
          using min by force+
        show ?thesis using IH [unfolded Some] nex Some 3 hd c by simp
      qed
    qed
  qed
qed

lemma update_matches_eq:
  "update_matches s = s\<lparr>dj_matching := matches_at (dj_currs s) (smallest_idxs (dj_currs s)), dj_matchingIdxs := smallest_idxs (dj_currs s)\<rparr>"
  using update_matches_loop_eq [of "dj_currs s" "[]"] by (simp add: update_matches_def smallest_idxs_def matches_at_def)

section \<open>Moving the children at some positions\<close>

definition disj_frame :: "'s disj \<Rightarrow> 's disj \<Rightarrow> bool" where
  "disj_frame s s' \<longleftrightarrow> length (dj_searchers s') = length (dj_searchers s) \<and> length (dj_currs s') = length (dj_currs s) \<and>
     dj_min s' = dj_min s \<and> dj_initialized s' = dj_initialized s"

definition disj_moves :: "('s \<Rightarrow> document_match option \<Rightarrow> 's \<Rightarrow> document_match option \<Rightarrow> bool) \<Rightarrow> 's disj \<Rightarrow> nat list \<Rightarrow> 's disj \<Rightarrow> bool" where
  "disj_moves Q s xs s' \<longleftrightarrow> disj_frame s s' \<and>
     (\<forall>i\<in>set xs. Q (dj_searchers s ! i) (dj_currs s ! i) (dj_searchers s' ! i) (dj_currs s' ! i)) \<and>
     (\<forall>i. i \<notin> set xs \<longrightarrow> dj_searchers s' ! i = dj_searchers s ! i \<and> dj_currs s' ! i = dj_currs s ! i)"

lemma disj_moves_Cons:
  assumes 1: "disj_moves Q (s\<lparr>dj_currs := (dj_currs s)[x := m], dj_searchers := (dj_searchers s)[x := c]\<rparr>) xs s'"
    and Q: "Q (dj_searchers s ! x) (dj_currs s ! x) c m" and x: "x \<notin> set xs" "x < length (dj_searchers s)" "x < length (dj_currs s)"
  shows "disj_moves Q s (x # xs) s'"
  unfolding disj_moves_def
proof (intro conjI allI ballI impI)
  show "disj_frame s s'" using 1 by (simp add: disj_moves_def disj_frame_def)
  show "Q (dj_searchers s ! i) (dj_currs s ! i) (dj_searchers s' ! i) (dj_currs s' ! i)" if "i \<in> set (x # xs)" for i
    using 1 Q x that by (cases "i = x") (auto simp: disj_moves_def)
  show "dj_searchers s' ! i = dj_searchers s ! i" "dj_currs s' ! i = dj_currs s ! i" if "i \<notin> set (x # xs)" for i
    using 1 that by (simp_all add: disj_moves_def)
qed

definition next_ready ::
  "('s \<Rightarrow> ('e, 's) step) \<Rightarrow> ('s \<Rightarrow> document_match option \<Rightarrow> 's \<Rightarrow> document_match option \<Rightarrow> bool) \<Rightarrow> 's \<Rightarrow> document_match option \<Rightarrow> bool" where
  "next_ready nxt Q c m \<longleftrightarrow> (\<exists>r. nxt c = Some r \<and> (\<forall>m' c'. r = Inr (m', c') \<longrightarrow> Q c m c' m'))"

lemma disj_next_list_ok:
  "distinct xs \<Longrightarrow> \<forall>x\<in>set xs. x < length (dj_searchers s) \<and> x < length (dj_currs s) \<and>
      next_ready nxt Q (dj_searchers s ! x) (dj_currs s ! x) \<Longrightarrow>
    \<exists>r. disj_next_list nxt s xs = Some r \<and> (\<forall>s'. r = Inr s' \<longrightarrow> disj_moves Q s xs s')"
proof (induction xs arbitrary: s)
  case Nil
  then show ?case by (simp add: disj_moves_def disj_frame_def)
next
  case (Cons x xs)
  obtain r where r: "nxt (dj_searchers s ! x) = Some r"
    "\<forall>m c. r = Inr (m, c) \<longrightarrow> Q (dj_searchers s ! x) (dj_currs s ! x) c m"
    using Cons.prems(2) unfolding next_ready_def by auto
  show ?case
  proof (cases r)
    case (Inl e)
    then show ?thesis using r(1) by simp
  next
    case (Inr mc)
    then obtain m c where mc: "r = Inr (m, c)" by (cases mc) simp
    let ?s = "s\<lparr>dj_currs := (dj_currs s)[x := m], dj_searchers := (dj_searchers s)[x := c]\<rparr>"
    have "\<forall>y\<in>set xs. x \<noteq> y" using Cons.prems(1) by auto
    then have "\<forall>y\<in>set xs. y < length (dj_searchers ?s) \<and> y < length (dj_currs ?s) \<and>
      next_ready nxt Q (dj_searchers ?s ! y) (dj_currs ?s ! y)" using Cons.prems(2) by simp
    then obtain r' where r': "disj_next_list nxt ?s xs = Some r'" "\<forall>s'. r' = Inr s' \<longrightarrow> disj_moves Q ?s xs s'"
      using Cons.IH Cons.prems(1) by (meson distinct.simps(2))
    moreover have "disj_next_list nxt s (x # xs) = Some r'" using r(1) mc r'(1) by simp
    moreover have "disj_moves Q ?s xs s' \<Longrightarrow> disj_moves Q s (x # xs) s'" for s'
      using Cons.prems r(2) mc by (intro disj_moves_Cons [of Q s]) simp_all
    ultimately show ?thesis by blast
  qed
qed

lemma disj_advance_list_ok:
  "distinct xs \<Longrightarrow> \<forall>x\<in>set xs. x < length (dj_searchers s) \<and> x < length (dj_currs s) \<Longrightarrow>
    \<forall>x\<in>set xs. \<forall>c. dj_currs s ! x = Some c \<longrightarrow> n \<le> Number c \<longrightarrow>
      Q (dj_searchers s ! x) (dj_currs s ! x) (dj_searchers s ! x) (dj_currs s ! x) \<Longrightarrow>
    \<forall>x\<in>set xs. (\<forall>c. dj_currs s ! x = Some c \<longrightarrow> Number c < n) \<longrightarrow>
      next_ready (\<lambda>c. adv c n) Q (dj_searchers s ! x) (dj_currs s ! x) \<Longrightarrow>
    \<exists>r. disj_advance_list adv s xs n = Some r \<and> (\<forall>s'. r = Inr s' \<longrightarrow> disj_moves Q s xs s')"
proof (induction xs arbitrary: s)
  case Nil
  then show ?case by (simp add: disj_moves_def disj_frame_def)
next
  case (Cons x xs)
  have ne: "\<forall>y\<in>set xs. x \<noteq> y" "distinct xs" using Cons.prems(1) by auto
  have cond: "(case dj_currs s ! x of None \<Rightarrow> False | Some c \<Rightarrow> Number c \<ge> n) \<longleftrightarrow> (\<exists>c. dj_currs s ! x = Some c \<and> n \<le> Number c)"
    by (simp split: option.split)
  show ?case
  proof (cases "\<exists>c. dj_currs s ! x = Some c \<and> n \<le> Number c")
    case True
    obtain r where "disj_advance_list adv s xs n = Some r" "\<forall>s'. r = Inr s' \<longrightarrow> disj_moves Q s xs s'"
      using Cons.IH [of s] Cons.prems by auto
    moreover have "Q (dj_searchers s ! x) (dj_currs s ! x) (dj_searchers s ! x) (dj_currs s ! x)"
      using True Cons.prems(3) by auto
    then have "disj_moves Q s xs s' \<Longrightarrow> disj_moves Q s (x # xs) s'" for s'
      using disj_moves_Cons [where Q = Q and s = s and x = x and m = "dj_currs s ! x" and c = "dj_searchers s ! x"] True Cons.prems by simp
    ultimately show ?thesis using True cond by auto
  next
    case False
    then have "next_ready (\<lambda>c. adv c n) Q (dj_searchers s ! x) (dj_currs s ! x)"
      using Cons.prems(4) by (simp add: not_le)
    then obtain r where r: "adv (dj_searchers s ! x) n = Some r"
      "\<forall>m c. r = Inr (m, c) \<longrightarrow> Q (dj_searchers s ! x) (dj_currs s ! x) c m"
      unfolding next_ready_def by blast
    show ?thesis
    proof (cases r)
      case (Inl e)
      then show ?thesis using r(1) False by (auto split: option.split)
    next
      case (Inr mc)
      then obtain m c where mc: "r = Inr (m, c)" by (cases mc) simp
      let ?s = "s\<lparr>dj_currs := (dj_currs s)[x := m], dj_searchers := (dj_searchers s)[x := c]\<rparr>"
      have "\<exists>r. disj_advance_list adv ?s xs n = Some r \<and> (\<forall>s'. r = Inr s' \<longrightarrow> disj_moves Q ?s xs s')"
        by (rule Cons.IH [OF ne(2)]) (use Cons.prems(2-4) ne(1) in simp_all)
      then obtain r' where r': "disj_advance_list adv ?s xs n = Some r'" "\<forall>s'. r' = Inr s' \<longrightarrow> disj_moves Q ?s xs s'" by blast
      moreover have "disj_advance_list adv s (x # xs) n = Some r'" using r(1) mc r'(1) False by (auto split: option.split)
      moreover have "disj_moves Q ?s xs s' \<Longrightarrow> disj_moves Q s (x # xs) s'" for s'
        using Cons.prems r(2) mc by (intro disj_moves_Cons [of Q s]) simp_all
      ultimately show ?thesis by blast
    qed
  qed
qed

section \<open>What a disjunction matches\<close>

definition somes :: "document_match option list \<Rightarrow> document_match list" where
  "somes ms = map the (filter (\<lambda>m. m \<noteq> None) ms)"

lemma somes_simps [simp]: "somes [] = []" "somes (None # ms) = somes ms" "somes (Some d # ms) = d # somes ms"
  by (simp_all add: somes_def)

definition some_hit :: "('s \<Rightarrow> document_match \<Rightarrow> bool) \<Rightarrow> 's list \<Rightarrow> nat \<Rightarrow> document_match option list \<Rightarrow> bool" where
  "some_hit hits ss j ms \<longleftrightarrow> list_all2 (\<lambda>s m. \<forall>d. m = Some d \<longrightarrow> hits s d \<and> Number d = j) ss ms"

text \<open>
  The match is built from the constituents in the order of the children; a heap gives them in
  another order, so the order is a parameter \<open>P\<close>.
\<close>

type_synonym reorder = "document_match list \<Rightarrow> document_match list \<Rightarrow> bool"

definition reordering :: "reorder \<Rightarrow> bool" where
  "reordering P \<longleftrightarrow> (\<forall>a. P a a) \<and> (\<forall>a b. P a b \<longrightarrow> mset a = mset b)"

definition permuted :: reorder where
  "permuted a b \<longleftrightarrow> mset a = mset b"

lemma reorderings [simp]: "reordering (=)" "reordering permuted"
  by (simp_all add: reordering_def permuted_def)

lemma reorderingD:
  assumes "reordering P"
  shows "P a a" "P a b \<Longrightarrow> length a = length b" "P a b \<Longrightarrow> set a = set b" "P a b \<Longrightarrow> a = [] \<longleftrightarrow> b = []"
proof -
  show "P a a" using assms by (simp add: reordering_def)
  have "P a b \<Longrightarrow> mset a = mset b" using assms by (simp add: reordering_def)
  then show "P a b \<Longrightarrow> length a = length b" "P a b \<Longrightarrow> set a = set b" "P a b \<Longrightarrow> a = [] \<longleftrightarrow> b = []"
    by (auto dest: mset_eq_length mset_eq_setD)
qed

definition disj_hits_via :: "reorder \<Rightarrow> ('s \<Rightarrow> document_match \<Rightarrow> bool) \<Rightarrow> composite \<Rightarrow> 's disj \<Rightarrow> document_match \<Rightarrow> bool" where
  "disj_hits_via P hits sc s d \<longleftrightarrow> (\<exists>j ms cs. some_hit hits (dj_searchers s) j ms \<and> P cs (somes ms) \<and> somes ms \<noteq> [] \<and>
     dj_min s \<le> int (length (somes ms)) \<and> d = build_document_match sc cs)"

text \<open>Where nothing was missed the match is built from every child that has the document.\<close>

definition disj_exact_via :: "reorder \<Rightarrow> ('s \<Rightarrow> document_match \<Rightarrow> bool) \<Rightarrow> ('s \<Rightarrow> document_match \<Rightarrow> bool) \<Rightarrow> composite \<Rightarrow> 's disj \<Rightarrow> document_match \<Rightarrow> bool" where
  "disj_exact_via P hits exact sc s d \<longleftrightarrow> (\<exists>j ms cs. some_hit exact (dj_searchers s) j ms \<and> P cs (somes ms) \<and> somes ms \<noteq> [] \<and>
     dj_min s \<le> int (length (somes ms)) \<and> d = build_document_match sc cs \<and>
     list_all2 (\<lambda>s m. m = None \<longrightarrow> j \<notin> docs_of hits s) (dj_searchers s) ms)"

abbreviation disj_hits :: "('s \<Rightarrow> document_match \<Rightarrow> bool) \<Rightarrow> composite \<Rightarrow> 's disj \<Rightarrow> document_match \<Rightarrow> bool" where
  "disj_hits \<equiv> disj_hits_via (=)"

abbreviation disj_exact :: "('s \<Rightarrow> document_match \<Rightarrow> bool) \<Rightarrow> ('s \<Rightarrow> document_match \<Rightarrow> bool) \<Rightarrow> composite \<Rightarrow> 's disj \<Rightarrow> document_match \<Rightarrow> bool" where
  "disj_exact \<equiv> disj_exact_via (=)"

definition match_count :: "('s \<Rightarrow> document_match \<Rightarrow> bool) \<Rightarrow> 's list \<Rightarrow> nat \<Rightarrow> nat" where
  "match_count hits ss j = length (filter (\<lambda>c. j \<in> docs_of hits c) ss)"

lemma some_hit_count: "some_hit hits ss j ms \<Longrightarrow> length (somes ms) \<le> match_count hits ss j"
  unfolding some_hit_def
proof (induction rule: list_all2_induct)
  case (Cons c ss m ms)
  then show ?case by (cases m) (auto simp: match_count_def intro: docs_ofI)
qed simp

lemma some_hit_exists: "\<exists>ms. some_hit hits ss j ms \<and> length (somes ms) = match_count hits ss j"
proof (induction ss)
  case Nil
  show ?case by (intro exI [of _ "[]"]) (simp add: some_hit_def match_count_def)
next
  case (Cons c ss)
  then obtain ms where ms: "some_hit hits ss j ms" "length (somes ms) = match_count hits ss j" by blast
  show ?case
  proof (cases "j \<in> docs_of hits c")
    case True
    then obtain d where "hits c d" "Number d = j" by (rule docs_ofE)
    then show ?thesis using ms True
      by (intro exI [of _ "Some d # ms"]) (simp add: some_hit_def match_count_def)
  next
    case False
    then show ?thesis using ms by (intro exI [of _ "None # ms"]) (simp add: some_hit_def match_count_def)
  qed
qed

lemma some_hit_number:
  assumes "some_hit hits ss j ms" "somes ms \<noteq> []" "reordering P" "P cs (somes ms)"
  shows "Number (build_document_match sc cs) = j"
proof -
  have "\<forall>d\<in>set (somes ms). Number d = j"
    using assms(1) unfolding some_hit_def
  proof (induction rule: list_all2_induct)
    case (Cons c ss m ms)
    then show ?case by (cases m) simp_all
  qed simp
  moreover have "cs \<noteq> []" "set cs = set (somes ms)" using assms(2) reorderingD(3,4) [OF assms(3,4)] by simp_all
  ultimately show ?thesis unfolding Number_build using hd_in_set by metis
qed

lemma docs_disj:
  assumes P: "reordering P"
  shows "j \<in> docs_of (disj_hits_via P hits sc) s \<longleftrightarrow>
     1 \<le> match_count hits (dj_searchers s) j \<and> dj_min s \<le> int (match_count hits (dj_searchers s) j)"
proof
  assume "j \<in> docs_of (disj_hits_via P hits sc) s"
  then obtain d where d: "disj_hits_via P hits sc s d" "Number d = j" by (rule docs_ofE)
  then obtain j' ms cs where ms: "some_hit hits (dj_searchers s) j' ms" "somes ms \<noteq> []"
    "dj_min s \<le> int (length (somes ms))" "P cs (somes ms)" "d = build_document_match sc cs"
    unfolding disj_hits_via_def by blast
  have "j' = j" using some_hit_number [OF ms(1,2) P ms(4), of sc] ms(5) d(2) by simp
  then have "length (somes ms) \<le> match_count hits (dj_searchers s) j" using some_hit_count [OF ms(1)] by simp
  moreover have "1 \<le> length (somes ms)" using ms(2) by (cases "somes ms") simp_all
  ultimately show "1 \<le> match_count hits (dj_searchers s) j \<and> dj_min s \<le> int (match_count hits (dj_searchers s) j)"
    using ms(3) by linarith
next
  assume c: "1 \<le> match_count hits (dj_searchers s) j \<and> dj_min s \<le> int (match_count hits (dj_searchers s) j)"
  obtain ms where ms: "some_hit hits (dj_searchers s) j ms" "length (somes ms) = match_count hits (dj_searchers s) j"
    using some_hit_exists by blast
  then have ne: "somes ms \<noteq> []" using c by auto
  then have "disj_hits_via P hits sc s (build_document_match sc (somes ms))"
    unfolding disj_hits_via_def using ms c reorderingD(1) [OF P]
    by (intro exI [of _ j] exI [of _ ms] exI [of _ "somes ms"]) simp
  then show "j \<in> docs_of (disj_hits_via P hits sc) s"
    by (rule docs_ofI) (rule some_hit_number [OF ms(1) ne P reorderingD(1) [OF P]])
qed

lemma match_count_cong:
  "map hits ss' = map hits ss \<Longrightarrow> match_count hits ss' j = match_count hits ss j"
proof -
  assume a: "map hits ss' = map hits ss"
  have eq: "match_count hits ss j = length (filter (\<lambda>h. \<exists>d. h d \<and> Number d = j) (map hits ss))" for ss
    unfolding match_count_def filter_map length_map comp_def
    by (intro arg_cong [of _ _ length] filter_cong) (auto simp: docs_of_def)
  show ?thesis unfolding eq a ..
qed

section \<open>The contract, from the children's\<close>

context searcher
begin

definition disj_standing :: "'s disj \<Rightarrow> bool" where
  "disj_standing s \<longleftrightarrow> length (dj_currs s) = length (dj_searchers s) \<and>
     (\<forall>i<length (dj_searchers s). standing (dj_searchers s ! i) (dj_currs s ! i))"

definition disj_inv :: "'s disj \<Rightarrow> bool" where
  "disj_inv s \<longleftrightarrow>
     (if dj_initialized s then disj_standing s \<and> update_matches s = s
      else length (dj_currs s) = length (dj_searchers s) \<and> (\<forall>i<length (dj_searchers s). inv (dj_searchers s ! i)))"

definition disj_upfrom :: "'s disj \<Rightarrow> nat \<Rightarrow> bool" where
  "disj_upfrom s p \<longleftrightarrow>
     (if dj_initialized s then \<forall>i<length (dj_searchers s). \<forall>d. dj_currs s ! i = Some d \<longrightarrow> p \<le> Number d
      else \<forall>i<length (dj_searchers s). upfrom (dj_searchers s ! i) p)"

definition disj_live :: "'s disj \<Rightarrow> nat \<Rightarrow> bool" where
  "disj_live s b \<longleftrightarrow>
     (if dj_initialized s then disj_upfrom s b \<and> (\<forall>i<length (dj_searchers s). standing_live (dj_searchers s ! i) (dj_currs s ! i) b)
      else \<forall>i<length (dj_searchers s). live (dj_searchers s ! i) b)"

definition disj_kept :: "'s disj \<Rightarrow> 's disj \<Rightarrow> bool" where
  "disj_kept s s' \<longleftrightarrow> disj_inv s' \<and> dj_initialized s' \<and> dj_min s' = dj_min s \<and>
     map hits (dj_searchers s') = map hits (dj_searchers s) \<and> map exact (dj_searchers s') = map exact (dj_searchers s)"

lemma disj_kept_trans: "disj_kept s s' \<Longrightarrow> disj_kept s' s'' \<Longrightarrow> disj_kept s s''"
  by (simp add: disj_kept_def)

lemma update_matches_simps [simp]:
  "dj_searchers (update_matches s) = dj_searchers s" "dj_currs (update_matches s) = dj_currs s"
  "dj_min (update_matches s) = dj_min s" "dj_initialized (update_matches s) = dj_initialized s"
  "dj_matching (update_matches s) = matches_at (dj_currs s) (smallest_idxs (dj_currs s))"
  "dj_matchingIdxs (update_matches s) = smallest_idxs (dj_currs s)"
  "update_matches (update_matches s) = update_matches s"
  by (simp_all add: update_matches_eq)

lemma disj_kept_hits:
  assumes "disj_kept s s'"
  shows "disj_hits_via P hits sc s' = disj_hits_via P hits sc s"
    "disj_exact_via P hits exact sc s' = disj_exact_via P hits exact sc s"
proof -
  have m: "map hits (dj_searchers s') = map hits (dj_searchers s)" "map exact (dj_searchers s') = map exact (dj_searchers s)"
    "dj_min s' = dj_min s" using assms by (simp_all add: disj_kept_def)
  have eq: "some_hit h ss j ms = list_all2 (\<lambda>h m. \<forall>d. m = Some d \<longrightarrow> h d \<and> Number d = j) (map h ss) ms" for h :: "'s \<Rightarrow> document_match \<Rightarrow> bool" and ss j ms
    by (simp add: some_hit_def list_all2_map1)
  have eq2: "list_all2 (\<lambda>s m. m = None \<longrightarrow> j \<notin> docs_of hits s) ss ms =
      list_all2 (\<lambda>h m. m = None \<longrightarrow> j \<notin> Number ` {d. h d}) (map hits ss) ms" for ss j ms
    by (simp add: list_all2_map1 docs_of_def)
  show "disj_hits_via P hits sc s' = disj_hits_via P hits sc s"
    "disj_exact_via P hits exact sc s' = disj_exact_via P hits exact sc s"
    unfolding fun_eq_iff disj_hits_via_def disj_exact_via_def eq eq2 m by simp_all
qed

text \<open>All children moved at least to \<open>lo\<close>.\<close>

definition disj_stepped :: "nat \<Rightarrow> 's disj \<Rightarrow> 's disj \<Rightarrow> bool" where
  "disj_stepped lo s s' \<longleftrightarrow> disj_frame s s' \<and>
     (\<forall>i<length (dj_searchers s). child_step lo (dj_searchers s ! i) (dj_currs s ! i) (dj_searchers s' ! i) (dj_currs s' ! i))"

lemma disj_stepped_ok:
  assumes st: "disj_stepped lo s s'" and len: "length (dj_currs s) = length (dj_searchers s)" and init: "dj_initialized s"
  shows "disj_kept s (update_matches s')" "disj_upfrom (update_matches s') lo"
    "disj_live s b \<Longrightarrow> b \<le> lo \<Longrightarrow> disj_live (update_matches s') lo"
proof -
  have f: "length (dj_searchers s') = length (dj_searchers s)" "length (dj_currs s') = length (dj_currs s)"
    "dj_min s' = dj_min s" "dj_initialized s'"
    using st init by (simp_all add: disj_stepped_def disj_frame_def)
  have step: "child_step lo (dj_searchers s ! i) (dj_currs s ! i) (dj_searchers s' ! i) (dj_currs s' ! i)"
    if "i < length (dj_searchers s)" for i using st that by (simp add: disj_stepped_def)
  have "map hits (dj_searchers s') = map hits (dj_searchers s)" "map exact (dj_searchers s') = map exact (dj_searchers s)"
    using step f(1) by (simp_all add: list_eq_iff_nth_eq child_step_def)
  moreover have "disj_standing s'" using step f len by (simp add: disj_standing_def child_step_def)
  ultimately show "disj_kept s (update_matches s')" using f by (simp add: disj_kept_def disj_inv_def disj_standing_def)
  show up: "disj_upfrom (update_matches s') lo" using step f by (simp add: disj_upfrom_def child_step_def)
  show "disj_live (update_matches s') lo" if "disj_live s b" "b \<le> lo"
  proof -
    have "standing_live (dj_searchers s ! i) (dj_currs s ! i) b" if "i < length (dj_searchers s)" for i
      using \<open>disj_live s b\<close> that init by (simp add: disj_live_def)
    then have "standing_live (dj_searchers s' ! i) (dj_currs s' ! i) lo" if "i < length (dj_searchers s)" for i
      using step [OF that] that \<open>b \<le> lo\<close> unfolding child_step_def by blast
    then show ?thesis using up f by (simp add: disj_live_def)
  qed
qed

text \<open>The children at the smallest document move on; the others already stand above it.\<close>

lemma disj_bump_ready:
  assumes inv: "disj_inv s" and init: "dj_initialized s" and N: "\<forall>i\<in>set (smallest_idxs (dj_currs s)). \<exists>c. dj_currs s ! i = Some c \<and> Number c = N"
  shows "\<forall>x\<in>set (smallest_idxs (dj_currs s)). x < length (dj_searchers s) \<and> x < length (dj_currs s) \<and>
      next_ready nxt (child_step (Suc N)) (dj_searchers s ! x) (dj_currs s ! x)"
proof
  have len: "length (dj_currs s) = length (dj_searchers s)" and st: "\<forall>i<length (dj_searchers s). standing (dj_searchers s ! i) (dj_currs s ! i)"
    using inv init by (simp_all add: disj_inv_def disj_standing_def)
  fix x assume x: "x \<in> set (smallest_idxs (dj_currs s))"
  then obtain c where c: "dj_currs s ! x = Some c" "Number c = N" using N by blast
  have lt: "x < length (dj_searchers s)" using x len by (simp add: smallest_idxs_set)
  then have sx: "standing (dj_searchers s ! x) (Some c)" using st c(1) by metis
  then have "inv (dj_searchers s ! x)" by (simp add: standing_def)
  then have "next_ready nxt (child_step (Suc N)) (dj_searchers s ! x) (dj_currs s ! x)"
    using nxt_total child_step_next [OF sx] c unfolding next_ready_def by metis
  then show "x < length (dj_searchers s) \<and> x < length (dj_currs s) \<and>
    next_ready nxt (child_step (Suc N)) (dj_searchers s ! x) (dj_currs s ! x)" using lt len by simp
qed

lemma disj_bump_stepped:
  assumes inv: "disj_inv s" and init: "dj_initialized s" and N: "\<forall>i\<in>set (smallest_idxs (dj_currs s)). \<exists>c. dj_currs s ! i = Some c \<and> Number c = N"
    and ne: "smallest_idxs (dj_currs s) \<noteq> []"
    and mv: "disj_moves (child_step (Suc N)) s xs s'" and xs: "set xs = set (smallest_idxs (dj_currs s))"
  shows "disj_stepped (Suc N) s s'"
  unfolding disj_stepped_def
proof (intro conjI allI impI)
  let ?I = "smallest_idxs (dj_currs s)"
  have len: "length (dj_currs s) = length (dj_searchers s)" and st: "\<forall>i<length (dj_searchers s). standing (dj_searchers s ! i) (dj_currs s ! i)"
    using inv init by (simp_all add: disj_inv_def disj_standing_def)
  show "disj_frame s s'" using mv by (simp add: disj_moves_def)
  fix i assume i: "i < length (dj_searchers s)"
  show "child_step (Suc N) (dj_searchers s ! i) (dj_currs s ! i) (dj_searchers s' ! i) (dj_currs s' ! i)"
  proof (cases "i \<in> set ?I")
    case True
    then show ?thesis using mv xs by (simp add: disj_moves_def)
  next
    case False
    have "Suc N \<le> Number d" if d: "dj_currs s ! i = Some d" for d
    proof -
      obtain x where xI: "x \<in> set ?I" using ne by (cases ?I) auto
      obtain c where x: "dj_currs s ! x = Some c" "smallest (dj_currs s) c"
        using xI unfolding smallest_idxs_set by blast
      have "Number c = N" using N [rule_format, OF xI] x(1) by auto
      have "\<not> smallest (dj_currs s) d" using False d i len unfolding smallest_idxs_set by auto
      then obtain e where "Some e \<in> set (dj_currs s)" "Number e < Number d" unfolding smallest_def by (auto simp: not_le)
      then have "Number c < Number d" using x(2) unfolding smallest_def by force
      then show ?thesis using \<open>Number c = N\<close> by simp
    qed
    then show ?thesis using mv xs False st i by (simp add: disj_moves_def child_step_stay)
  qed
qed

lemma disj_match_ok:
  assumes inv: "disj_inv s" "dj_initialized s" and ne: "dj_matching s \<noteq> []"
  obtains N ms where "\<forall>i\<in>set (smallest_idxs (dj_currs s)). \<exists>c. dj_currs s ! i = Some c \<and> Number c = N"
    "smallest_idxs (dj_currs s) \<noteq> []" "dj_matchingIdxs s = smallest_idxs (dj_currs s)"
    "somes ms = dj_matching s" "some_hit hits (dj_searchers s) N ms"
    "\<And>p. disj_upfrom s p \<Longrightarrow> p \<le> N"
    "\<And>b. disj_live s b \<Longrightarrow> some_hit exact (dj_searchers s) N ms"
    "\<And>b. disj_live s b \<Longrightarrow> list_all2 (\<lambda>s m. m = None \<longrightarrow> N \<notin> docs_of hits s) (dj_searchers s) ms"
    "\<And>b j. disj_live s b \<Longrightarrow> b \<le> j \<Longrightarrow> j < N \<Longrightarrow> match_count hits (dj_searchers s) j = 0"
proof -
  let ?cs = "dj_currs s" and ?n = "length (dj_searchers s)" and ?I = "smallest_idxs (dj_currs s)"
  have len: "length ?cs = ?n" and st: "\<forall>i<?n. standing (dj_searchers s ! i) (?cs ! i)" and upd: "update_matches s = s"
    using inv by (simp_all add: disj_inv_def disj_standing_def)
  have mt: "dj_matching s = matches_at ?cs ?I" "dj_matchingIdxs s = ?I" using upd update_matches_simps(5,6) by metis+
  then have Ine: "?I \<noteq> []" using ne by (auto simp: matches_at_def)
  then obtain x0 where "x0 \<in> set ?I" by (cases ?I) auto
  then obtain x c where x: "x < ?n" "?cs ! x = Some c" "smallest ?cs c"
    using len unfolding smallest_idxs_set by auto
  define N where "N = Number c"
  have memc: "Some c \<in> set ?cs" using x len by (metis nth_mem)
  have all: "\<forall>i\<in>set ?I. \<exists>d. ?cs ! i = Some d \<and> Number d = N"
  proof
    fix i assume "i \<in> set ?I"
    then obtain d where d: "i < length ?cs" "?cs ! i = Some d" "smallest ?cs d" unfolding smallest_idxs_set by blast
    then have "Some d \<in> set ?cs" by (metis nth_mem)
    then have "Number d = N" using d(3) x(3) memc unfolding smallest_def N_def by (simp add: antisym)
    then show "\<exists>d. ?cs ! i = Some d \<and> Number d = N" using d(2) by blast
  qed
  let ?f = "\<lambda>i. if i \<in> set ?I then ?cs ! i else None"
  define ms where "ms = map ?f [0..<?n]"
  have other: "N < Number d" if i: "i < ?n" "i \<notin> set ?I" and d: "?cs ! i = Some d" for i d
  proof -
    have "\<not> smallest ?cs d" using i d len unfolding smallest_idxs_set by auto
    then obtain e where "Some e \<in> set ?cs" "Number e < Number d" unfolding smallest_def by (auto simp: not_le)
    then show ?thesis using x(3) unfolding smallest_def N_def by force
  qed
  have "somes ms = map (\<lambda>i. the (?f i)) (filter (\<lambda>i. ?f i \<noteq> None) [0..<?n])"
    by (simp add: ms_def somes_def filter_map comp_def)
  also have "filter (\<lambda>i. ?f i \<noteq> None) [0..<?n] = ?I"
    unfolding smallest_idxs_def len by (intro filter_cong) auto
  finally have somes: "somes ms = dj_matching s" unfolding mt(1) matches_at_def by simp
  have nth: "ms ! i = (if i \<in> set ?I then ?cs ! i else None)" if "i < ?n" for i using that by (simp add: ms_def)
  have lms: "length ms = ?n" by (simp add: ms_def)
  have hit: "some_hit hits (dj_searchers s) N ms"
    unfolding some_hit_def list_all2_conv_all_nth
    using lms nth all st by (auto simp: standing_def)
  show ?thesis
  proof (rule that [OF all Ine mt(2) somes hit])
    fix p assume "disj_upfrom s p"
    then show "p \<le> N" using x inv(2) by (simp add: disj_upfrom_def N_def)
  next
    fix b assume b: "disj_live s b"
    then have lv: "\<forall>i<?n. standing_live (dj_searchers s ! i) (?cs ! i) b" and "disj_upfrom s b"
      using inv(2) by (simp_all add: disj_live_def)
    then have bN: "b \<le> N" using x inv(2) by (simp add: disj_upfrom_def N_def)
    show "some_hit exact (dj_searchers s) N ms"
      unfolding some_hit_def list_all2_conv_all_nth
      using lms nth all lv by (auto simp: standing_live_def)
    show "list_all2 (\<lambda>s m. m = None \<longrightarrow> N \<notin> docs_of hits s) (dj_searchers s) ms"
      unfolding list_all2_conv_all_nth
    proof (intro conjI allI impI)
      fix i assume i: "i < ?n" and none: "ms ! i = None"
      have out: "i \<notin> set ?I" using none nth [OF i] all by fastforce
      show "N \<notin> docs_of hits (dj_searchers s ! i)"
        using standing_live_gone lv i bN other [OF i out] by blast
    qed (simp add: lms)
    fix j assume j: "b \<le> j" "j < N"
    have "j \<notin> docs_of hits (dj_searchers s ! i)" if i: "i < ?n" for i
    proof (rule standing_live_gone)
      show "standing_live (dj_searchers s ! i) (?cs ! i) b" using lv i by blast
      show "\<forall>d. ?cs ! i = Some d \<longrightarrow> j < Number d"
      proof (intro allI impI)
        fix d assume "?cs ! i = Some d"
        then have "Some d \<in> set ?cs" using i len by (metis nth_mem)
        then show "j < Number d" using x(3) j(2) unfolding smallest_def N_def by force
      qed
    qed (rule j(1))
    then show "match_count hits (dj_searchers s) j = 0" by (auto simp: match_count_def filter_empty_conv in_set_conv_nth)
  qed
qed

lemma some_hit_count_exact:
  assumes "some_hit hits ss j ms" "list_all2 (\<lambda>s m. m = None \<longrightarrow> j \<notin> docs_of hits s) ss ms"
  shows "match_count hits ss j = length (somes ms)"
  using assms(2,1)
proof (induction rule: list_all2_induct)
  case (Cons c ss m ms)
  then show ?case by (cases m) (auto simp: some_hit_def match_count_def intro: docs_ofI)
qed (simp add: match_count_def)

definition disj_post :: "reorder \<Rightarrow> composite \<Rightarrow> 's disj \<Rightarrow> document_match option \<Rightarrow> 's disj \<Rightarrow> bool" where
  "disj_post P sc s m s' \<longleftrightarrow> disj_kept s s' \<and>
     (\<forall>p d. disj_upfrom s p \<longrightarrow> m = Some d \<longrightarrow> disj_hits_via P hits sc s d \<and> p \<le> Number d \<and> disj_upfrom s' (Suc (Number d))) \<and>
     (\<forall>b. disj_live s b \<longrightarrow> first_hit (docs_of (disj_hits_via P hits sc) s) b m \<and>
        (\<forall>d. m = Some d \<longrightarrow> disj_exact_via P hits exact sc s d \<and> disj_live s' (Suc (Number d))))"

definition disj_bound :: "'s disj \<Rightarrow> nat \<Rightarrow> bool" where
  "disj_bound s B \<longleftrightarrow> (\<forall>c\<in>set (dj_searchers s). \<forall>j\<in>docs_of hits c. j < B)"

definition disj_measure :: "nat \<Rightarrow> 's disj \<Rightarrow> nat" where
  "disj_measure B s = (\<Sum>i<length (dj_currs s). doc_weight B (dj_currs s ! i))"

lemma disj_bound_kept: "disj_kept s s' \<Longrightarrow> disj_bound s B \<Longrightarrow> disj_bound s' B"
proof -
  assume k: "disj_kept s s'" and b: "disj_bound s B"
  have eq: "disj_bound s B \<longleftrightarrow> (\<forall>h\<in>set (map hits (dj_searchers s)). \<forall>d. h d \<longrightarrow> Number d < B)" for s
    by (auto simp: disj_bound_def docs_of_def)
  show ?thesis using b k unfolding eq disj_kept_def by simp
qed

lemma disj_bound_exists:
  assumes "\<forall>i<length (dj_searchers s). inv (dj_searchers s ! i)"
  shows "\<exists>B. disj_bound s B"
proof -
  have "\<forall>c\<in>set (dj_searchers s). finite (docs_of hits c)" using assms finite_docs by (metis in_set_conv_nth)
  then have "finite (\<Union>c\<in>set (dj_searchers s). docs_of hits c)" by simp
  then obtain B where "\<forall>j\<in>(\<Union>c\<in>set (dj_searchers s). docs_of hits c). j < B"
    using finite_nat_set_iff_bounded by blast
  then show ?thesis by (auto simp: disj_bound_def)
qed

lemma disj_measure_bump:
  assumes inv: "disj_inv s" "dj_initialized s" and B: "disj_bound s B" and st: "disj_stepped (Suc N) s s'"
    and N: "\<forall>i\<in>set (smallest_idxs (dj_currs s)). \<exists>c. dj_currs s ! i = Some c \<and> Number c = N" and ne: "smallest_idxs (dj_currs s) \<noteq> []"
    and stay: "\<forall>i. i \<notin> set (smallest_idxs (dj_currs s)) \<longrightarrow> dj_currs s' ! i = dj_currs s ! i"
  shows "disj_measure B s' < disj_measure B s"
proof -
  have len: "length (dj_currs s) = length (dj_searchers s)" and sts: "\<forall>i<length (dj_searchers s). standing (dj_searchers s ! i) (dj_currs s ! i)"
    using inv by (simp_all add: disj_inv_def disj_standing_def)
  have len': "length (dj_currs s') = length (dj_currs s)" using st by (simp add: disj_stepped_def disj_frame_def)
  have drop: "doc_weight B (dj_currs s' ! x) < doc_weight B (dj_currs s ! x)"
    if xI: "x \<in> set (smallest_idxs (dj_currs s))" for x
  proof -
    obtain d where x: "x < length (dj_searchers s)" "dj_currs s ! x = Some d" "Number d = N"
      using N [rule_format, OF xI] xI len unfolding smallest_idxs_set by auto
    have "standing (dj_searchers s ! x) (Some d)" using sts x by metis
    then have "Number d \<in> docs_of hits (dj_searchers s ! x)" by (rule standing_doc)
    moreover have "dj_searchers s ! x \<in> set (dj_searchers s)" using x(1) by simp
    ultimately have "Number d < B" using B unfolding disj_bound_def by blast
    moreover have "\<forall>e. dj_currs s' ! x = Some e \<longrightarrow> Number d < Number e"
      using st x unfolding disj_stepped_def child_step_def by auto
    ultimately show ?thesis unfolding x(2) by (rule doc_weight_less)
  qed
  have "doc_weight B (dj_currs s' ! x) \<le> doc_weight B (dj_currs s ! x)" if "x < length (dj_searchers s)" for x
    using drop stay by (metis le_refl less_imp_le)
  moreover obtain i where i: "i \<in> set (smallest_idxs (dj_currs s))" using ne by (cases "smallest_idxs (dj_currs s)") auto
  moreover have "i < length (dj_searchers s)" using i len unfolding smallest_idxs_set by simp
  ultimately show ?thesis unfolding disj_measure_def
    using sum_update_less [OF len', of "doc_weight B" i] drop [OF i] len by simp
qed

text \<open>One round of \<open>Next\<close>: no child is left, a document is found, or too few children have it.\<close>

lemma disj_post_end:
  assumes inv: "disj_inv s" "dj_initialized s" and none: "dj_matching s = []" and P: "reordering P"
  shows "disj_post P sc s None s"
proof -
  have len: "length (dj_currs s) = length (dj_searchers s)" using inv by (simp add: disj_inv_def disj_standing_def)
  have "update_matches s = s" using inv by (simp add: disj_inv_def)
  then have "matches_at (dj_currs s) (smallest_idxs (dj_currs s)) = []" using none update_matches_simps(5) by metis
  then have none: "\<forall>d. Some d \<notin> set (dj_currs s)" using smallest_exists by (auto simp: matches_at_def)
  have "first_hit (docs_of (disj_hits_via P hits sc) s) b None" if b: "disj_live s b" for b
  proof -
    have lv: "\<forall>i<length (dj_searchers s). standing_live (dj_searchers s ! i) (dj_currs s ! i) b"
      using b inv(2) by (simp add: disj_live_def)
    have "match_count hits (dj_searchers s) j = 0" if j: "b \<le> j" for j
    proof -
      have "j \<notin> docs_of hits (dj_searchers s ! i)" if i: "i < length (dj_searchers s)" for i
      proof (rule standing_live_gone)
        show "standing_live (dj_searchers s ! i) (dj_currs s ! i) b" using lv i by blast
        show "\<forall>d. dj_currs s ! i = Some d \<longrightarrow> j < Number d" using none i len by (metis nth_mem)
      qed (rule j)
      then show ?thesis by (auto simp: match_count_def filter_empty_conv in_set_conv_nth)
    qed
    then show ?thesis unfolding first_hit_def option.case Ball_def docs_disj [OF P] by (metis not_less not_one_le_zero)
  qed
  then show ?thesis using inv by (simp add: disj_post_def disj_kept_def)
qed

lemma disj_round:
  assumes inv: "disj_inv s" "dj_initialized s" and ne: "dj_matching s \<noteq> []" and P: "reordering P"
  obtains N where "\<forall>i\<in>set (smallest_idxs (dj_currs s)). \<exists>c. dj_currs s ! i = Some c \<and> Number c = N"
    "smallest_idxs (dj_currs s) \<noteq> []" "dj_matchingIdxs s = smallest_idxs (dj_currs s)"
    "\<And>s' cs. disj_stepped (Suc N) s s' \<Longrightarrow> P cs (dj_matching s) \<Longrightarrow> dj_min s \<le> int (length (dj_matching s)) \<Longrightarrow>
       disj_post P sc s (Some (build_document_match sc cs)) (update_matches s')"
    "\<And>s' m s''. disj_stepped (Suc N) s s' \<Longrightarrow> \<not> dj_min s \<le> int (length (dj_matching s)) \<Longrightarrow>
       disj_post P sc (update_matches s') m s'' \<Longrightarrow> disj_post P sc s m s''"
proof -
  let ?D = "docs_of (disj_hits_via P hits sc) s" and ?I = "smallest_idxs (dj_currs s)"
  have len: "length (dj_currs s) = length (dj_searchers s)" using inv by (simp add: disj_inv_def disj_standing_def)
  obtain N ms where N: "\<forall>i\<in>set ?I. \<exists>c. dj_currs s ! i = Some c \<and> Number c = N" "?I \<noteq> []" "dj_matchingIdxs s = ?I"
    "somes ms = dj_matching s" "some_hit hits (dj_searchers s) N ms"
    and up: "\<And>p. disj_upfrom s p \<Longrightarrow> p \<le> N"
    and ex: "\<And>b. disj_live s b \<Longrightarrow> some_hit exact (dj_searchers s) N ms"
    "\<And>b. disj_live s b \<Longrightarrow> list_all2 (\<lambda>s m. m = None \<longrightarrow> N \<notin> docs_of hits s) (dj_searchers s) ms"
    "\<And>b j. disj_live s b \<Longrightarrow> b \<le> j \<Longrightarrow> j < N \<Longrightarrow> match_count hits (dj_searchers s) j = 0"
    using disj_match_ok [OF inv ne] by blast
  have bN: "b \<le> N" if "disj_live s b" for b using up that inv(2) by (simp add: disj_live_def)
  have found: "disj_post P sc s (Some (build_document_match sc cs)) (update_matches s')"
    if st: "disj_stepped (Suc N) s s'" and cs: "P cs (dj_matching s)" and enough: "dj_min s \<le> int (length (dj_matching s))" for s' cs
  proof -
    note ok = disj_stepped_ok [OF st len inv(2)]
    let ?d = "build_document_match sc cs"
    have hit: "disj_hits_via P hits sc s ?d"
      unfolding disj_hits_via_def using N(4,5) ne enough cs by (intro exI [of _ N] exI [of _ ms] exI [of _ cs]) simp
    have num: "Number ?d = N" using some_hit_number [OF N(5) _ P] N(4) ne cs by metis
    have NinD: "N \<in> ?D" by (rule docs_ofI [where hits = "disj_hits_via P hits sc", OF hit num])
    have "first_hit ?D b (Some ?d)" "disj_exact_via P hits exact sc s ?d" if b: "disj_live s b" for b
    proof -
      have "N \<le> j" if "j \<in> ?D" "b \<le> j" for j
        using ex(3) [OF b that(2)] that(1) docs_disj [OF P] by (metis not_less not_one_le_zero)
      then show "first_hit ?D b (Some ?d)" using NinD num bN [OF b] by (simp add: first_hit_def)
      show "disj_exact_via P hits exact sc s ?d"
        unfolding disj_exact_via_def using N(4) ex(1,2) [OF b] ne enough cs
        by (intro exI [of _ N] exI [of _ ms] exI [of _ cs]) simp
    qed
    then show ?thesis using ok hit num up bN unfolding disj_post_def by (metis le_SucI option.inject)
  qed
  have skip: "disj_post P sc s m s''"
    if st: "disj_stepped (Suc N) s s'" and small: "\<not> dj_min s \<le> int (length (dj_matching s))"
      and p: "disj_post P sc (update_matches s') m s''" for s' m s''
  proof -
    note ok = disj_stepped_ok [OF st len inv(2)]
    note eqs = disj_kept_hits [OF ok(1), of P sc]
    then have D: "docs_of (disj_hits_via P hits sc) (update_matches s') = ?D" by (simp add: docs_of_def)
    have "first_hit ?D b m \<and> (\<forall>d. m = Some d \<longrightarrow> disj_exact_via P hits exact sc s d \<and> disj_live s'' (Suc (Number d)))" if b: "disj_live s b" for b
    proof -
      have lv: "disj_live (update_matches s') (Suc N)" using ok(3) [OF b] bN [OF b] by simp
      then have 1: "first_hit ?D (Suc N) m" "\<forall>d. m = Some d \<longrightarrow> disj_exact_via P hits exact sc s d \<and> disj_live s'' (Suc (Number d))"
        using p unfolding disj_post_def eqs D by blast+
      have "first_hit ?D b m"
      proof (rule first_hit_lower [OF 1(1)])
        show "b \<le> Suc N" using bN [OF b] by simp
        fix j assume j: "j \<in> ?D" "b \<le> j" "j < Suc N"
        have c: "1 \<le> match_count hits (dj_searchers s) j" "dj_min s \<le> int (match_count hits (dj_searchers s) j)"
          using j(1) docs_disj [OF P] by blast+
        show False
        proof (cases "j = N")
          case True
          then show False using c(2) small some_hit_count_exact [OF N(5) ex(2) [OF b]] N(4) by simp
        next
          case False
          then show False using ex(3) [OF b j(2)] j(3) c(1) by simp
        qed
      qed
      then show ?thesis using 1(2) by blast
    qed
    moreover have "disj_hits_via P hits sc s d \<and> p' \<le> Number d \<and> disj_upfrom s'' (Suc (Number d))" if "disj_upfrom s p'" "m = Some d" for p' d
    proof -
      have "p' \<le> N" using up that(1) .
      moreover have "Suc N \<le> Number d" "disj_hits_via P hits sc s d" "disj_upfrom s'' (Suc (Number d))"
        using p ok(2) that(2) unfolding disj_post_def eqs by blast+
      ultimately show ?thesis by simp
    qed
    moreover have "disj_kept s s''" using p disj_kept_trans [OF ok(1)] by (simp add: disj_post_def)
    ultimately show ?thesis unfolding disj_post_def by blast
  qed
  show ?thesis by (rule that [OF N(1-3) found skip])
qed

lemma disj_loop_ok:
  "disj_inv s \<Longrightarrow> dj_initialized s \<Longrightarrow> disj_bound s B \<Longrightarrow>
    \<exists>r. disj_loop nxt sc s = Some r \<and> (\<forall>m s'. r = Inr (m, s') \<longrightarrow> disj_post (=) sc s m s')"
proof (induction "disj_measure B s" arbitrary: s rule: less_induct)
  case less
  note inv = less.prems(1,2)
  let ?I = "smallest_idxs (dj_currs s)"
  have len: "length (dj_currs s) = length (dj_searchers s)" using inv by (simp add: disj_inv_def disj_standing_def)
  show ?case
  proof (cases "dj_matching s = []")
    case True
    then have "disj_loop nxt sc s = Some (Inr (None, s))" by (subst disj_loop.simps) simp
    then show ?thesis using disj_post_end [OF inv True] by simp
  next
    case False
    obtain N where N: "\<forall>i\<in>set ?I. \<exists>c. dj_currs s ! i = Some c \<and> Number c = N" "?I \<noteq> []" "dj_matchingIdxs s = ?I"
      and found: "\<And>s'. disj_stepped (Suc N) s s' \<Longrightarrow> dj_min s \<le> int (length (dj_matching s)) \<Longrightarrow>
        disj_post (=) sc s (Some (build_document_match sc (dj_matching s))) (update_matches s')"
      and skip: "\<And>s' m s''. disj_stepped (Suc N) s s' \<Longrightarrow> \<not> dj_min s \<le> int (length (dj_matching s)) \<Longrightarrow>
        disj_post (=) sc (update_matches s') m s'' \<Longrightarrow> disj_post (=) sc s m s''"
      using disj_round [OF inv False reorderings(1), of sc thesis] by blast
    have "distinct ?I" by (simp add: smallest_idxs_def)
    then obtain r where r: "disj_next_list nxt s ?I = Some r" "\<forall>s'. r = Inr s' \<longrightarrow> disj_moves (child_step (Suc N)) s ?I s'"
      using disj_next_list_ok disj_bump_ready [OF inv N(1)] by blast
    let ?rv = "if dj_min s \<le> int (length (dj_matching s)) then Some (build_document_match sc (dj_matching s)) else None"
    have eq: "disj_loop nxt sc s = bindr (disj_next_list nxt s ?I) (\<lambda>s. if ?rv \<noteq> None then Some (Inr (?rv, update_matches s)) else disj_loop nxt sc (update_matches s))"
      by (subst disj_loop.simps) (simp only: Let_def False N(3) if_True simp_thms)
    show ?thesis
    proof (cases r)
      case (Inl e)
      then show ?thesis unfolding eq using r(1) by simp
    next
      case (Inr s')
      then have mv: "disj_moves (child_step (Suc N)) s ?I s'" using r(2) by blast
      then have st: "disj_stepped (Suc N) s s'" using disj_bump_stepped [OF inv N(1,2)] by blast
      note k = disj_stepped_ok(1) [OF st len inv(2)]
      show ?thesis
      proof (cases "dj_min s \<le> int (length (dj_matching s))")
        case True
        then show ?thesis unfolding eq using r(1) Inr found [OF st True] by simp
      next
        case small: False
        have res: "disj_loop nxt sc s = disj_loop nxt sc (update_matches s')" unfolding eq using r(1) Inr small by simp
        have "\<forall>i. i \<notin> set ?I \<longrightarrow> dj_currs s' ! i = dj_currs s ! i" using mv by (simp add: disj_moves_def)
        then have "disj_measure B (update_matches s') < disj_measure B s"
          using disj_measure_bump [OF inv less.prems(3) st N(1,2)] by (simp add: disj_measure_def)
        then show ?thesis unfolding res
          using less.hyps k disj_bound_kept [OF k less.prems(3)] skip [OF st small] unfolding disj_kept_def by blast
      qed
    qed
  qed
qed

definition fresh_step :: "'s \<Rightarrow> document_match option \<Rightarrow> 's \<Rightarrow> document_match option \<Rightarrow> bool" where
  "fresh_step s m0 s' m \<longleftrightarrow> standing s' m \<and> hits s' = hits s \<and> exact s' = exact s \<and>
     (\<forall>p d. upfrom s p \<longrightarrow> m = Some d \<longrightarrow> p \<le> Number d) \<and> (\<forall>b. live s b \<longrightarrow> standing_live s' m b)"

text \<open>Every child moved to its first match, in any order.\<close>

lemma disj_init_moved:
  assumes fresh: "\<not> dj_initialized s" and len: "length (dj_currs s) = length (dj_searchers s)"
    and mv: "disj_moves fresh_step s xs s1" and xs: "set xs = {0..<length (dj_searchers s)}"
  shows "disj_kept s ((update_matches s1)\<lparr>dj_initialized := True\<rparr>)"
    "disj_upfrom s p \<Longrightarrow> disj_upfrom ((update_matches s1)\<lparr>dj_initialized := True\<rparr>) p"
    "disj_live s b \<Longrightarrow> disj_live ((update_matches s1)\<lparr>dj_initialized := True\<rparr>) b"
proof -
  let ?n = "length (dj_searchers s)" and ?s = "(update_matches s1)\<lparr>dj_initialized := True\<rparr>"
  have l1: "length (dj_searchers s1) = ?n" "length (dj_currs s1) = ?n" "dj_min s1 = dj_min s"
    using mv len by (simp_all add: disj_moves_def disj_frame_def)
  have step: "fresh_step (dj_searchers s ! i) (dj_currs s ! i) (dj_searchers s1 ! i) (dj_currs s1 ! i)" if "i < ?n" for i
    using mv xs that by (simp add: disj_moves_def)
  have upd: "update_matches ?s = ?s" by (simp add: update_matches_eq)
  have maps: "map hits (dj_searchers s1) = map hits (dj_searchers s)" "map exact (dj_searchers s1) = map exact (dj_searchers s)"
    using step l1 by (simp_all add: list_eq_iff_nth_eq fresh_step_def)
  have "disj_standing ?s" using step l1 by (simp add: disj_standing_def fresh_step_def)
  then show "disj_kept s ?s" using maps l1 upd by (simp add: disj_kept_def disj_inv_def)
  show up: "disj_upfrom ?s p" if "disj_upfrom s p" for p
    using that step l1 fresh unfolding disj_upfrom_def fresh_step_def by simp
  show "disj_live ?s b" if b: "disj_live s b"
  proof -
    have lv: "\<forall>i<?n. live (dj_searchers s ! i) b" using b fresh by (simp add: disj_live_def)
    then have "disj_upfrom ?s b" using live_upfrom fresh by (intro up) (simp add: disj_upfrom_def)
    then show ?thesis using lv step l1 unfolding disj_live_def fresh_step_def by simp
  qed
qed

lemma fresh_ready:
  assumes "inv c"
  shows "next_ready nxt fresh_step c m"
  unfolding next_ready_def fresh_step_def using nxt_total [OF assms] standing_fresh [OF assms] by blast

lemma disj_init_ok:
  assumes inv: "disj_inv s" and fresh: "\<not> dj_initialized s"
  shows "\<exists>r. disj_init nxt s = Some r \<and> (\<forall>s'. r = Inr s' \<longrightarrow> disj_kept s s' \<and>
    (\<forall>p. disj_upfrom s p \<longrightarrow> disj_upfrom s' p) \<and> (\<forall>b. disj_live s b \<longrightarrow> disj_live s' b))"
proof -
  let ?n = "length (dj_searchers s)"
  have len: "length (dj_currs s) = ?n" and ci: "\<forall>i<?n. inv (dj_searchers s ! i)" using inv fresh by (simp_all add: disj_inv_def)
  have "\<forall>x\<in>set [0..<?n]. x < length (dj_searchers s) \<and> x < length (dj_currs s) \<and>
      next_ready nxt fresh_step (dj_searchers s ! x) (dj_currs s ! x)"
    using ci len fresh_ready by simp
  then obtain r where r: "disj_next_list nxt s [0..<?n] = Some r" "\<forall>s'. r = Inr s' \<longrightarrow> disj_moves fresh_step s [0..<?n] s'"
    using disj_next_list_ok [of "[0..<?n]" s nxt fresh_step] by auto
  show ?thesis
  proof (cases r)
    case (Inl e)
    then show ?thesis using r(1) by (simp add: disj_init_def)
  next
    case (Inr s1)
    then have mv: "disj_moves fresh_step s [0..<?n] s1" using r(2) by blast
    note ok = disj_init_moved [OF fresh len mv set_upt]
    have "disj_init nxt s = Some (Inr ((update_matches s1)\<lparr>dj_initialized := True\<rparr>))" using r(1) Inr by (simp add: disj_init_def)
    then show ?thesis using ok by blast
  qed
qed

lemma disj_prepared:
  assumes inv: "disj_inv s"
  shows "\<exists>r. (if dj_initialized s then Some (Inr s) else disj_init nxt s) = Some r \<and> (\<forall>s'. r = Inr s' \<longrightarrow> disj_kept s s' \<and>
    (\<forall>p. disj_upfrom s p \<longrightarrow> disj_upfrom s' p) \<and> (\<forall>b. disj_live s b \<longrightarrow> disj_live s' b))"
  using disj_init_ok [OF inv] inv by (cases "dj_initialized s") (simp_all add: disj_kept_def)

lemma disj_live_upfrom: "disj_live s b \<Longrightarrow> disj_upfrom s b"
  using live_upfrom unfolding disj_live_def disj_upfrom_def by (auto split: if_splits)

lemma disj_post_contract:
  assumes kept: "disj_kept s0 s" and p: "disj_upfrom s p" and post: "disj_post P sc s m s'"
  shows "disj_inv s'" "disj_hits_via P hits sc s' = disj_hits_via P hits sc s0"
    "disj_exact_via P hits exact sc s' = disj_exact_via P hits exact sc s0"
    "m = Some d \<Longrightarrow> disj_hits_via P hits sc s0 d \<and> p \<le> Number d \<and> disj_upfrom s' (Suc (Number d))"
    "disj_live s p \<Longrightarrow> first_hit (docs_of (disj_hits_via P hits sc) s0) p m \<and>
       (\<forall>d. m = Some d \<longrightarrow> disj_exact_via P hits exact sc s0 d \<and> disj_live s' (Suc (Number d)))"
proof -
  note eqs = disj_kept_hits [OF kept, of P sc]
  have docs: "docs_of (disj_hits_via P hits sc) s = docs_of (disj_hits_via P hits sc) s0" using eqs(1) by (simp add: docs_of_def)
  have k: "disj_kept s0 s'" using disj_kept_trans [OF kept] post unfolding disj_post_def by blast
  show "disj_inv s'" using k by (simp add: disj_kept_def)
  show "disj_hits_via P hits sc s' = disj_hits_via P hits sc s0"
    "disj_exact_via P hits exact sc s' = disj_exact_via P hits exact sc s0"
    using disj_kept_hits [OF k] .
  show "disj_hits_via P hits sc s0 d \<and> p \<le> Number d \<and> disj_upfrom s' (Suc (Number d))" if "m = Some d"
    using post p that unfolding disj_post_def eqs by blast
  show "first_hit (docs_of (disj_hits_via P hits sc) s0) p m \<and>
      (\<forall>d. m = Some d \<longrightarrow> disj_exact_via P hits exact sc s0 d \<and> disj_live s' (Suc (Number d)))" if "disj_live s p"
    using post that unfolding disj_post_def eqs docs by blast
qed

lemma disj_kept_bound: "disj_kept s0 s \<Longrightarrow> \<exists>B. disj_bound s B"
  by (rule disj_bound_exists) (auto simp: disj_kept_def disj_inv_def disj_standing_def standing_def)

lemma disj_loop_contract:
  assumes kept: "disj_kept s0 s" and p: "disj_upfrom s p" and live: "P \<Longrightarrow> disj_live s p"
  shows "\<exists>r. disj_loop nxt sc s = Some r \<and> (\<forall>m s'. r = Inr (m, s') \<longrightarrow>
      disj_inv s' \<and> disj_hits hits sc s' = disj_hits hits sc s0 \<and> disj_exact hits exact sc s' = disj_exact hits exact sc s0 \<and>
      (\<forall>d. m = Some d \<longrightarrow> disj_hits hits sc s0 d \<and> p \<le> Number d \<and> disj_upfrom s' (Suc (Number d))) \<and>
      (P \<longrightarrow> first_hit (docs_of (disj_hits hits sc) s0) p m \<and>
         (\<forall>d. m = Some d \<longrightarrow> disj_exact hits exact sc s0 d \<and> disj_live s' (Suc (Number d)))))"
proof -
  have inv: "disj_inv s" "dj_initialized s" using kept by (simp_all add: disj_kept_def)
  obtain B where B: "disj_bound s B" using disj_kept_bound [OF kept] by blast
  obtain r where r: "disj_loop nxt sc s = Some r" "\<forall>m s'. r = Inr (m, s') \<longrightarrow> disj_post (=) sc s m s'"
    using disj_loop_ok [OF inv B, where sc = sc] by blast
  show ?thesis
    using r disj_post_contract [OF kept p, of "(=)" sc] live by (intro exI [of _ r] conjI r(1) allI impI) blast+
qed

lemma disjunction_searcher:
  "searcher (disj_next nxt sc) (disj_advance nxt adv sc) disj_inv (disj_hits hits sc) (disj_exact hits exact sc) disj_upfrom disj_live"
proof
  fix s assume inv: "disj_inv s"
  have ci: "\<forall>c\<in>set (dj_searchers s). inv c"
    using inv by (auto simp: disj_inv_def disj_standing_def standing_def in_set_conv_nth split: if_splits)
  have "docs_of (disj_hits hits sc) s \<subseteq> (\<Union>c\<in>set (dj_searchers s). docs_of hits c)"
  proof
    fix j assume "j \<in> docs_of (disj_hits hits sc) s"
    then have "match_count hits (dj_searchers s) j \<noteq> 0" unfolding docs_disj [OF reorderings(1)] by auto
    then show "j \<in> (\<Union>c\<in>set (dj_searchers s). docs_of hits c)" by (auto simp: match_count_def filter_empty_conv)
  qed
  then show "finite (docs_of (disj_hits hits sc) s)" by (rule finite_subset) (use finite_docs ci in blast)
  show "disj_upfrom s 0" using ci upfrom_0 by (simp add: disj_upfrom_def)
next
  fix s b assume "disj_live s b"
  then show "disj_upfrom s b" by (rule disj_live_upfrom)
next
  fix s p assume inv: "disj_inv s" and p: "disj_upfrom s p"
  obtain r where r: "(if dj_initialized s then Some (Inr s) else disj_init nxt s) = Some r"
    "\<forall>s'. r = Inr s' \<longrightarrow> disj_kept s s' \<and>
      (\<forall>p. disj_upfrom s p \<longrightarrow> disj_upfrom s' p) \<and> (\<forall>b. disj_live s b \<longrightarrow> disj_live s' b)"
    using disj_prepared [OF inv] by blast
  show "\<exists>r. disj_next nxt sc s = Some r \<and> (\<forall>m s'. r = Inr (m, s') \<longrightarrow>
        disj_inv s' \<and> disj_hits hits sc s' = disj_hits hits sc s \<and> disj_exact hits exact sc s' = disj_exact hits exact sc s \<and>
        (\<forall>d. m = Some d \<longrightarrow> disj_hits hits sc s d \<and> p \<le> Number d \<and> disj_upfrom s' (Suc (Number d))) \<and>
        (disj_live s p \<longrightarrow> first_hit (docs_of (disj_hits hits sc) s) p m \<and>
          (\<forall>d. m = Some d \<longrightarrow> disj_exact hits exact sc s d \<and> disj_live s' (Suc (Number d)))))"
  proof (cases r)
    case (Inl e)
    then show ?thesis using r(1) by (simp add: disj_next_def)
  next
    case (Inr s1)
    then have eq: "disj_next nxt sc s = disj_loop nxt sc s1" using r(1) by (simp add: disj_next_def)
    have k: "disj_kept s s1" "disj_upfrom s1 p" "disj_live s p \<longrightarrow> disj_live s1 p" using r(2) Inr p by blast+
    show ?thesis unfolding eq using k(3) by (intro disj_loop_contract k(1,2)) blast
  qed
next
  fix s n assume inv: "disj_inv s"
  obtain r where r: "(if dj_initialized s then Some (Inr s) else disj_init nxt s) = Some r"
    "\<forall>s'. r = Inr s' \<longrightarrow> disj_kept s s' \<and>
      (\<forall>p. disj_upfrom s p \<longrightarrow> disj_upfrom s' p) \<and> (\<forall>b. disj_live s b \<longrightarrow> disj_live s' b)"
    using disj_prepared [OF inv] by blast
  show "\<exists>r. disj_advance nxt adv sc s n = Some r \<and> (\<forall>m s'. r = Inr (m, s') \<longrightarrow>
        disj_inv s' \<and> disj_hits hits sc s' = disj_hits hits sc s \<and> disj_exact hits exact sc s' = disj_exact hits exact sc s \<and>
        (\<forall>d. m = Some d \<longrightarrow> disj_hits hits sc s d \<and> n \<le> Number d \<and> disj_upfrom s' (Suc (Number d))) \<and>
        ((\<exists>b\<le>n. disj_live s b) \<longrightarrow> first_hit (docs_of (disj_hits hits sc) s) n m \<and>
          (\<forall>d. m = Some d \<longrightarrow> disj_exact hits exact sc s d \<and> disj_live s' (Suc (Number d)))))"
  proof (cases r)
    case (Inl e)
    then show ?thesis using r(1) by (simp add: disj_advance_def)
  next
    case (Inr s1)
    then have k: "disj_kept s s1" and lv: "\<forall>b. disj_live s b \<longrightarrow> disj_live s1 b" using r(2) by blast+
    have i1: "disj_inv s1" "dj_initialized s1" using k by (simp_all add: disj_kept_def)
    let ?n = "length (dj_searchers s1)"
    have len: "length (dj_currs s1) = ?n" and st: "\<forall>i<?n. standing (dj_searchers s1 ! i) (dj_currs s1 ! i)"
      using i1 by (simp_all add: disj_inv_def disj_standing_def)
    have ready: "next_ready (\<lambda>c. adv c n) (child_step n) (dj_searchers s1 ! x) (dj_currs s1 ! x)"
      if x: "x < ?n" "\<forall>c. dj_currs s1 ! x = Some c \<longrightarrow> Number c < n" for x
    proof -
      have sx: "standing (dj_searchers s1 ! x) (dj_currs s1 ! x)" using st x(1) by blast
      then have "inv (dj_searchers s1 ! x)" by (simp add: standing_def)
      then show ?thesis unfolding next_ready_def using adv_total child_step_advance [OF sx x(2)] by metis
    qed
    have "\<exists>r. disj_advance_list adv s1 [0..<?n] n = Some r \<and> (\<forall>s'. r = Inr s' \<longrightarrow> disj_moves (child_step n) s1 [0..<?n] s')"
      by (rule disj_advance_list_ok) (use len st ready child_step_stay in auto)
    then obtain r2 where r2: "disj_advance_list adv s1 [0..<?n] n = Some r2" "\<forall>s'. r2 = Inr s' \<longrightarrow> disj_moves (child_step n) s1 [0..<?n] s'"
      by blast
    show ?thesis
    proof (cases r2)
      case (Inl e)
      then show ?thesis using r(1) r2(1) Inr by (simp add: disj_advance_def)
    next
      case (Inr s2)
      then have "disj_stepped n s1 s2" using r2(2) by (simp add: disj_moves_def disj_stepped_def)
      note ok = disj_stepped_ok [OF this len i1(2)]
      have k2: "disj_kept s (update_matches s2)" using disj_kept_trans [OF k ok(1)] .
      then have "dj_initialized s2" by (simp add: disj_kept_def)
      then have eq: "disj_advance nxt adv sc s n = disj_loop nxt sc (update_matches s2)"
        using r(1) r2(1) \<open>r = Inr s1\<close> Inr by (simp add: disj_advance_def disj_next_def)
      have "\<exists>b\<le>n. disj_live s b \<Longrightarrow> disj_live (update_matches s2) n" using ok(3) lv by blast
      then show ?thesis unfolding eq by (rule disj_loop_contract [OF k2 ok(2)])
    qed
  qed
qed

end

end
