(* ===== verification/Leaf_Searchers.thy ===== *)
theory Leaf_Searchers
  imports Conjunction Disjunction
begin

text \<open>
  The searchers at the leaves of a query: match none, a term or all documents over a postings
  iterator (\<open>search_match_none.go\<close>, \<open>search_term.go\<close>, \<open>search_match_all.go\<close>), the unadorned
  one-hit iterator of \<open>index/unadorned.go\<close>, and the filter around another searcher
  (\<open>search_filter.go\<close>). Each of them satisfies the contract, so it can stand in a conjunction
  or disjunction.
\<close>

section \<open>Match none\<close>

definition match_none_next :: "unit \<Rightarrow> ('e, unit) step" where
  "match_none_next s = Some (Inr (None, s))"

definition match_none_advance :: "unit \<Rightarrow> nat \<Rightarrow> ('e, unit) step" where
  "match_none_advance s number = Some (Inr (None, s))"

interpretation match_none: searcher match_none_next match_none_advance "\<lambda>_. True" "\<lambda>_ _. False" "\<lambda>_ _. False" "\<lambda>_ _. True" "\<lambda>_ _. True"
  by unfold_locales (simp_all add: match_none_next_def match_none_advance_def docs_of_def first_hit_def)

section \<open>Term and match all over a postings iterator\<close>

record posting =
  PNumber :: nat
  PFrequency :: int
  PNorm :: float64
  PLocations :: "(string \<times> location) list"

type_synonym ('e, 'p) postings_step = "('e, posting option \<times> 'p) result"

text \<open>A match from the pool is reset.\<close>

definition reset_match :: document_match where
  "reset_match = \<lparr>Number = 0, Score = 0, Locations = Map.empty, SortValue = [], docValues = Map.empty,
     HitNumber = 0, FieldTermLocations = []\<rparr>"

record term_options =
  to_explain :: bool
  to_includeTermVectors :: bool
  to_explanation :: "posting \<Rightarrow> float64"
  to_score :: "posting \<Rightarrow> float64"
  to_queryTerm :: string

definition term_build :: "term_options \<Rightarrow> posting \<Rightarrow> document_match" where
  "term_build o' p =
     (let rv = reset_match\<lparr>Number := PNumber p, Score := (if to_explain o' then to_explanation o' p else to_score o' p)\<rparr> in
      if to_includeTermVectors o'
      then rv\<lparr>FieldTermLocations := map (\<lambda>(f, l). \<lparr>FtlField = f, FtlTerm = to_queryTerm o', FtlLocation = l\<rparr>) (PLocations p)\<rparr>
      else rv)"

definition match_all_build :: "term_options \<Rightarrow> posting \<Rightarrow> document_match" where
  "match_all_build o' p =
     reset_match\<lparr>Number := PNumber p, Score := (if to_explain o' then to_explanation o' p else to_score o' p)\<rparr>"

text \<open>\<open>Next\<close> and \<open>Advance\<close> of both searchers, over the iterator's own.\<close>

definition term_next :: "('p \<Rightarrow> ('e, 'p) postings_step) \<Rightarrow> (posting \<Rightarrow> document_match) \<Rightarrow> 'p \<Rightarrow> ('e, 'p) step" where
  "term_next pnext build s =
     (case pnext s of
        Inl e \<Rightarrow> Some (Inl e)
      | Inr (None, s') \<Rightarrow> Some (Inr (None, s'))
      | Inr (Some p, s') \<Rightarrow> Some (Inr (Some (build p), s')))"

definition term_advance :: "('p \<Rightarrow> nat \<Rightarrow> ('e, 'p) postings_step) \<Rightarrow> (posting \<Rightarrow> document_match) \<Rightarrow> 'p \<Rightarrow> nat \<Rightarrow> ('e, 'p) step" where
  "term_advance padv build s number =
     (case padv s number of
        Inl e \<Rightarrow> Some (Inl e)
      | Inr (None, s') \<Rightarrow> Some (Inr (None, s'))
      | Inr (Some p, s') \<Rightarrow> Some (Inr (Some (build p), s')))"

lemma Number_term_build [simp]: "Number (term_build o' p) = PNumber p"
  by (simp add: term_build_def Let_def)

lemma Number_match_all_build [simp]: "Number (match_all_build o' p) = PNumber p"
  by (simp add: match_all_build_def)

text \<open>
  The contract of a postings iterator, in the words of the searchers' contract: \<open>postings\<close> are
  its postings in ascending order, \<open>pupfrom s b\<close> says that \<open>Next\<close> returns nothing below \<open>b\<close> and
  \<open>plive s b\<close> that it returns the first one from \<open>b\<close> on.
\<close>

definition first_posting :: "posting list \<Rightarrow> nat \<Rightarrow> posting option" where
  "first_posting ps n = find (\<lambda>p. n \<le> PNumber p) ps"

locale postings_iterator =
  fixes pnext :: "'p \<Rightarrow> ('e, 'p) postings_step" and padv :: "'p \<Rightarrow> nat \<Rightarrow> ('e, 'p) postings_step"
    and pinv :: "'p \<Rightarrow> bool" and postings :: "'p \<Rightarrow> posting list"
    and pupfrom :: "'p \<Rightarrow> nat \<Rightarrow> bool" and plive :: "'p \<Rightarrow> nat \<Rightarrow> bool"
  assumes ascending: "pinv s \<Longrightarrow> sorted_wrt (\<lambda>p q. PNumber p < PNumber q) (postings s)"
    and pupfrom_0: "pupfrom s 0"
    and plive_upfrom: "plive s b \<Longrightarrow> pupfrom s b"
    and pnext_ok: "pinv s \<Longrightarrow> pupfrom s n \<Longrightarrow> pnext s = Inr (m, s') \<Longrightarrow>
      pinv s' \<and> postings s' = postings s \<and>
      (\<forall>p. m = Some p \<longrightarrow> p \<in> set (postings s) \<and> n \<le> PNumber p \<and> pupfrom s' (Suc (PNumber p))) \<and>
      (plive s n \<longrightarrow> m = first_posting (postings s) n \<and> (\<forall>p. m = Some p \<longrightarrow> plive s' (Suc (PNumber p))))"
    and padv_ok: "pinv s \<Longrightarrow> padv s n = Inr (m, s') \<Longrightarrow>
      pinv s' \<and> postings s' = postings s \<and>
      (\<forall>p. m = Some p \<longrightarrow> p \<in> set (postings s) \<and> n \<le> PNumber p \<and> pupfrom s' (Suc (PNumber p))) \<and>
      ((\<exists>b\<le>n. plive s b) \<longrightarrow> m = first_posting (postings s) n \<and> (\<forall>p. m = Some p \<longrightarrow> plive s' (Suc (PNumber p))))"

lemma first_posting_hit:
  assumes "sorted_wrt (\<lambda>p q. PNumber p < PNumber q) ps" and build: "\<And>p. Number (build p) = PNumber p"
  shows "first_hit (PNumber ` set ps) n (map_option build (first_posting ps n))"
  using assms(1) by (induction ps) (auto simp: first_posting_def first_hit_def build less_imp_le split: option.splits)

context postings_iterator
begin

definition term_hits :: "(posting \<Rightarrow> document_match) \<Rightarrow> 'p \<Rightarrow> document_match \<Rightarrow> bool" where
  "term_hits build s d \<longleftrightarrow> d \<in> build ` set (postings s)"

lemma term_docs:
  assumes build: "\<And>p. Number (build p) = PNumber p"
  shows "docs_of (term_hits build) s = PNumber ` set (postings s)"
proof -
  have "docs_of (term_hits build) s = Number ` build ` set (postings s)" by (auto simp: docs_of_def term_hits_def)
  then show ?thesis by (simp add: image_image build)
qed

lemma term_step:
  assumes build: "\<And>p. Number (build p) = PNumber p" and inv: "pinv s"
    and ok: "pinv s' \<and> postings s' = postings s \<and>
      (\<forall>p. m = Some p \<longrightarrow> p \<in> set (postings s) \<and> n \<le> PNumber p \<and> pupfrom s' (Suc (PNumber p))) \<and>
      (P \<longrightarrow> m = first_posting (postings s) n \<and> (\<forall>p. m = Some p \<longrightarrow> plive s' (Suc (PNumber p))))"
  shows "pinv s' \<and> term_hits build s' = term_hits build s \<and> term_hits build s' = term_hits build s \<and>
    (\<forall>d. map_option build m = Some d \<longrightarrow> term_hits build s d \<and> n \<le> Number d \<and> pupfrom s' (Suc (Number d))) \<and>
    (P \<longrightarrow> first_hit (docs_of (term_hits build) s) n (map_option build m) \<and>
      (\<forall>d. map_option build m = Some d \<longrightarrow> term_hits build s d \<and> plive s' (Suc (Number d))))"
proof -
  have "term_hits build s' = term_hits build s" using ok by (simp add: term_hits_def fun_eq_iff)
  moreover have "term_hits build s d \<and> n \<le> Number d \<and> pupfrom s' (Suc (Number d)) \<and> (P \<longrightarrow> plive s' (Suc (Number d)))"
    if d: "map_option build m = Some d" for d
  proof -
    obtain p where p: "m = Some p" "d = build p" using d by auto
    then show ?thesis using ok by (simp add: p build term_hits_def)
  qed
  moreover have "P \<Longrightarrow> first_hit (docs_of (term_hits build) s) n (map_option build m)"
    unfolding term_docs [OF build] using ok first_posting_hit [OF ascending [OF inv] build] by simp
  ultimately show ?thesis using ok by simp
qed

lemma term_searcher:
  assumes build: "\<And>p. Number (build p) = PNumber p"
  shows "searcher (term_next pnext build) (term_advance padv build) pinv (term_hits build) (term_hits build) pupfrom plive"
proof
  show "finite (docs_of (term_hits build) s)" for s unfolding term_docs [OF build] by simp
  show "pupfrom s 0" for s by (rule pupfrom_0)
  show "plive s b \<Longrightarrow> pupfrom s b" for s b by (rule plive_upfrom)
next
  fix s p assume inv: "pinv s" and up: "pupfrom s p"
  show "\<exists>r. term_next pnext build s = Some r \<and> (\<forall>m s'. r = Inr (m, s') \<longrightarrow>
        pinv s' \<and> term_hits build s' = term_hits build s \<and> term_hits build s' = term_hits build s \<and>
        (\<forall>d. m = Some d \<longrightarrow> term_hits build s d \<and> p \<le> Number d \<and> pupfrom s' (Suc (Number d))) \<and>
        (plive s p \<longrightarrow> first_hit (docs_of (term_hits build) s) p m \<and>
          (\<forall>d. m = Some d \<longrightarrow> term_hits build s d \<and> plive s' (Suc (Number d)))))"
  proof (cases "pnext s")
    case (Inl e)
    then show ?thesis by (simp add: term_next_def)
  next
    case (Inr ms)
    then obtain m s' where n: "pnext s = Inr (m, s')" by (cases ms) simp
    have eq: "term_next pnext build s = Some (Inr (map_option build m, s'))"
      by (simp add: term_next_def n split: option.split)
    show ?thesis unfolding eq using term_step [OF build inv pnext_ok [OF inv up n]] by simp
  qed
next
  fix s n assume inv: "pinv s"
  show "\<exists>r. term_advance padv build s n = Some r \<and> (\<forall>m s'. r = Inr (m, s') \<longrightarrow>
        pinv s' \<and> term_hits build s' = term_hits build s \<and> term_hits build s' = term_hits build s \<and>
        (\<forall>d. m = Some d \<longrightarrow> term_hits build s d \<and> n \<le> Number d \<and> pupfrom s' (Suc (Number d))) \<and>
        ((\<exists>b\<le>n. plive s b) \<longrightarrow> first_hit (docs_of (term_hits build) s) n m \<and>
          (\<forall>d. m = Some d \<longrightarrow> term_hits build s d \<and> plive s' (Suc (Number d)))))"
  proof (cases "padv s n")
    case (Inl e)
    then show ?thesis by (simp add: term_advance_def)
  next
    case (Inr ms)
    then obtain m s' where n: "padv s n = Inr (m, s')" by (cases ms) simp
    have eq: "term_advance padv build s n = Some (Inr (map_option build m, s'))"
      by (simp add: term_advance_def n split: option.split)
    show ?thesis unfolding eq using term_step [OF build inv padv_ok [OF inv n]] by simp
  qed
qed

end

section \<open>The filter\<close>

partial_function (option) filter_loop ::
  "('s \<Rightarrow> ('e, 's) step) \<Rightarrow> (document_match \<Rightarrow> bool) \<Rightarrow> 's \<Rightarrow> ('e, 's) step" where
  "filter_loop nxt accept s =
     bindr (nxt s) (\<lambda>(m, s').
       case m of
         None \<Rightarrow> Some (Inr (None, s'))
       | Some d \<Rightarrow> if accept d then Some (Inr (Some d, s')) else filter_loop nxt accept s')"

definition filter_next :: "('s \<Rightarrow> ('e, 's) step) \<Rightarrow> (document_match \<Rightarrow> bool) \<Rightarrow> 's \<Rightarrow> ('e, 's) step" where
  "filter_next nxt accept s = filter_loop nxt accept s"

definition filter_advance ::
  "('s \<Rightarrow> ('e, 's) step) \<Rightarrow> ('s \<Rightarrow> nat \<Rightarrow> ('e, 's) step) \<Rightarrow> (document_match \<Rightarrow> bool) \<Rightarrow> 's \<Rightarrow> nat \<Rightarrow> ('e, 's) step" where
  "filter_advance nxt adv accept s number =
     bindr (adv s number) (\<lambda>(m, s').
       case m of
         None \<Rightarrow> Some (Inr (None, s'))
       | Some d \<Rightarrow> if accept d then Some (Inr (Some d, s')) else filter_next nxt accept s')"

definition accepted :: "(document_match \<Rightarrow> bool) \<Rightarrow> ('s \<Rightarrow> document_match \<Rightarrow> bool) \<Rightarrow> 's \<Rightarrow> document_match \<Rightarrow> bool" where
  "accepted accept hits s d \<longleftrightarrow> hits s d \<and> accept d"

text \<open>The filter function is expected to look at the document only, not at the match.\<close>

definition by_document :: "(document_match \<Rightarrow> bool) \<Rightarrow> bool" where
  "by_document accept \<longleftrightarrow> (\<forall>d d'. Number d = Number d' \<longrightarrow> accept d = accept d')"

context searcher
begin

definition filter_post :: "(document_match \<Rightarrow> bool) \<Rightarrow> 's \<Rightarrow> nat \<Rightarrow> bool \<Rightarrow> document_match option \<Rightarrow> 's \<Rightarrow> bool" where
  "filter_post accept s p P m s' \<longleftrightarrow> inv s' \<and> hits s' = hits s \<and> exact s' = exact s \<and>
     (\<forall>d. m = Some d \<longrightarrow> accepted accept hits s d \<and> p \<le> Number d \<and> upfrom s' (Suc (Number d))) \<and>
     (P \<longrightarrow> first_hit (docs_of (accepted accept hits) s) p m \<and>
        (\<forall>d. m = Some d \<longrightarrow> accepted accept exact s d \<and> live s' (Suc (Number d))))"

lemma filter_post_stop:
  assumes acc: "by_document accept"
    and mv: "inv s'" "hits s' = hits s" "exact s' = exact s"
      "\<And>d. m = Some d \<Longrightarrow> hits s d \<and> p \<le> Number d \<and> upfrom s' (Suc (Number d))"
    and ld: "P \<Longrightarrow> first_hit (docs_of hits s) p m \<and> (\<forall>d. m = Some d \<longrightarrow> exact s d \<and> live s' (Suc (Number d)))"
    and stop: "\<And>d. m = Some d \<Longrightarrow> accept d"
  shows "filter_post accept s p P m s'"
proof -
  have sub: "docs_of (accepted accept hits) s \<subseteq> docs_of hits s" by (auto simp: docs_of_def accepted_def)
  have "first_hit (docs_of (accepted accept hits) s) p m" if P
  proof (cases m)
    case None
    then show ?thesis using ld [OF that] sub by (auto simp: first_hit_def)
  next
    case (Some d)
    have "Number d \<in> docs_of (accepted accept hits) s"
      using mv(4) [OF Some] stop [OF Some] by (intro docs_ofI [of "accepted accept hits"]) (simp_all add: accepted_def)
    then show ?thesis using ld [OF that] sub Some by (auto simp: first_hit_def)
  qed
  then show ?thesis using mv ld stop unfolding filter_post_def accepted_def by blast
qed

lemma filter_post_skip:
  assumes acc: "by_document accept"
    and mv: "inv s'" "hits s' = hits s" "exact s' = exact s" "p \<le> Number d" "\<not> accept d"
    and ld: "P \<Longrightarrow> first_hit (docs_of hits s) p (Some d)"
    and post: "filter_post accept s' (Suc (Number d)) P m s''"
  shows "filter_post accept s p P m s''"
proof -
  have eq: "accepted accept hits s' = accepted accept hits s" "accepted accept exact s' = accepted accept exact s"
    using mv by (simp_all add: accepted_def fun_eq_iff)
  have docs: "docs_of (accepted accept hits) s' = docs_of (accepted accept hits) s" by (simp add: docs_of_def eq)
  have "first_hit (docs_of (accepted accept hits) s) p m" if P
  proof (rule first_hit_lower)
    show "first_hit (docs_of (accepted accept hits) s) (Suc (Number d)) m" using post that docs by (simp add: filter_post_def)
    show "p \<le> Suc (Number d)" using mv(4) by simp
    fix j assume j: "j \<in> docs_of (accepted accept hits) s" "p \<le> j" "j < Suc (Number d)"
    then obtain e where e: "hits s e" "accept e" "Number e = j" by (auto simp: docs_of_def accepted_def)
    then have "j \<in> docs_of hits s" by (intro docs_ofI)
    then have "Number d \<le> j" using ld [OF that] j(2) by (simp add: first_hit_def)
    then have "Number e = Number d" using e(3) j(3) by simp
    then show False using acc e(2) mv(5) unfolding by_document_def by blast
  qed
  then show ?thesis using post eq mv unfolding filter_post_def by fastforce
qed

lemma filter_loop_bounded:
  assumes acc: "by_document accept"
  shows "\<forall>j\<in>docs_of hits s. j < B \<Longrightarrow> inv s \<Longrightarrow> upfrom s p \<Longrightarrow> (P \<Longrightarrow> live s p) \<Longrightarrow>
    \<exists>r. filter_loop nxt accept s = Some r \<and> (\<forall>m s'. r = Inr (m, s') \<longrightarrow> filter_post accept s p P m s')"
proof (induction "B - p" arbitrary: s p rule: less_induct)
  case less
  obtain r where r: "nxt s = Some r" using nxt_total [OF less.prems(2)] by blast
  have unf: "filter_loop nxt accept s = bindr (Some r) (\<lambda>(m, s').
     case m of None \<Rightarrow> Some (Inr (None, s')) | Some d \<Rightarrow> if accept d then Some (Inr (Some d, s')) else filter_loop nxt accept s')"
    by (subst filter_loop.simps) (simp only: r)
  show ?case
  proof (cases r)
    case (Inl e)
    then show ?thesis unfolding unf by simp
  next
    case (Inr ms)
    then obtain m s' where m: "r = Inr (m, s')" by (cases ms) simp
    then have n: "nxt s = Some (Inr (m, s'))" using r by simp
    note mv = nxt_moved [OF less.prems(2,3) n] and ld = nxt_landed [OF less.prems(2) _ n]
    show ?thesis
    proof (cases "\<forall>d. m = Some d \<longrightarrow> accept d")
      case True
      then have "filter_loop nxt accept s = Some (Inr (m, s'))" unfolding unf m by (simp split: option.split)
      moreover have "filter_post accept s p P m s'"
        by (rule filter_post_stop [OF acc mv(1-3)]) (use mv ld less.prems(4) True in auto)
      ultimately show ?thesis by simp
    next
      case False
      then obtain d where d: "m = Some d" "\<not> accept d" by blast
      have res: "filter_loop nxt accept s = filter_loop nxt accept s'" unfolding unf m using d by simp
      have "Number d < B" using mv(4) [OF d(1)] less.prems(1) hit_doc by blast
      then have smaller: "B - Suc (Number d) < B - p" using mv(5) [OF d(1)] by simp
      have lv: "live s' (Suc (Number d))" if P using ld(3) [OF less.prems(4) [OF that] d(1)] .
      have bnd: "\<forall>j\<in>docs_of hits s'. j < B" using less.prems(1) mv(7) by simp
      obtain r' where r': "filter_loop nxt accept s' = Some r'"
        "\<forall>m s''. r' = Inr (m, s'') \<longrightarrow> filter_post accept s' (Suc (Number d)) P m s''"
        using less.hyps [OF smaller bnd mv(1) mv(6) [OF d(1)] lv] by blast
      have "filter_post accept s p P m'' s''" if "filter_post accept s' (Suc (Number d)) P m'' s''" for m'' s''
        by (rule filter_post_skip [OF acc mv(1-3) mv(5) [OF d(1)] d(2) _ that]) (use ld(1) less.prems(4) d(1) in auto)
      then show ?thesis unfolding res using r' by blast
    qed
  qed
qed

lemma filter_loop_ok:
  assumes acc: "by_document accept" and inv: "inv s" and up: "upfrom s p" and P: "P \<Longrightarrow> live s p"
  shows "\<exists>r. filter_loop nxt accept s = Some r \<and> (\<forall>m s'. r = Inr (m, s') \<longrightarrow> filter_post accept s p P m s')"
proof -
  obtain B where "\<forall>j\<in>docs_of hits s. j < B" using finite_docs [OF inv] finite_nat_set_iff_bounded by blast
  from filter_loop_bounded [OF acc this inv up P] show ?thesis .
qed

lemma filter_searcher:
  assumes acc: "by_document accept"
  shows "searcher (filter_next nxt accept) (filter_advance nxt adv accept) inv (accepted accept hits) (accepted accept exact) upfrom live"
proof
  have cong: "accepted accept h s' = accepted accept h s" if "h s' = h s" for h :: "'s \<Rightarrow> document_match \<Rightarrow> bool" and s s'
    using that by (simp add: accepted_def fun_eq_iff)
  have post: "inv s' \<and> accepted accept hits s' = accepted accept hits s \<and> accepted accept exact s' = accepted accept exact s \<and>
     (\<forall>d. m = Some d \<longrightarrow> accepted accept hits s d \<and> p \<le> Number d \<and> upfrom s' (Suc (Number d))) \<and>
     (P \<longrightarrow> first_hit (docs_of (accepted accept hits) s) p m \<and>
        (\<forall>d. m = Some d \<longrightarrow> accepted accept exact s d \<and> live s' (Suc (Number d))))"
    if "filter_post accept s p P m s'" for s p P m s'
    using that cong unfolding filter_post_def by blast
  show "finite (docs_of (accepted accept hits) s)" if "inv s" for s
    using finite_docs [OF that] by (rule finite_subset [rotated]) (auto simp: docs_of_def accepted_def)
  show "upfrom s 0" if "inv s" for s using upfrom_0 [OF that] .
  show "upfrom s b" if "live s b" for s b using live_upfrom [OF that] .
  show "\<exists>r. filter_next nxt accept s = Some r \<and> (\<forall>m s'. r = Inr (m, s') \<longrightarrow>
        inv s' \<and> accepted accept hits s' = accepted accept hits s \<and> accepted accept exact s' = accepted accept exact s \<and>
        (\<forall>d. m = Some d \<longrightarrow> accepted accept hits s d \<and> p \<le> Number d \<and> upfrom s' (Suc (Number d))) \<and>
        (live s p \<longrightarrow> first_hit (docs_of (accepted accept hits) s) p m \<and>
          (\<forall>d. m = Some d \<longrightarrow> accepted accept exact s d \<and> live s' (Suc (Number d)))))" if "inv s" "upfrom s p" for s p
    unfolding filter_next_def using filter_loop_ok [OF acc that, where P = "live s p"] post by blast
  fix s n assume inv: "inv s"
  show "\<exists>r. filter_advance nxt adv accept s n = Some r \<and> (\<forall>m s'. r = Inr (m, s') \<longrightarrow>
        inv s' \<and> accepted accept hits s' = accepted accept hits s \<and> accepted accept exact s' = accepted accept exact s \<and>
        (\<forall>d. m = Some d \<longrightarrow> accepted accept hits s d \<and> n \<le> Number d \<and> upfrom s' (Suc (Number d))) \<and>
        ((\<exists>b\<le>n. live s b) \<longrightarrow> first_hit (docs_of (accepted accept hits) s) n m \<and>
          (\<forall>d. m = Some d \<longrightarrow> accepted accept exact s d \<and> live s' (Suc (Number d)))))"
  proof -
    let ?P = "\<exists>b\<le>n. live s b"
    obtain r where r: "adv s n = Some r" using adv_total [OF inv] by blast
    have "\<exists>r. filter_advance nxt adv accept s n = Some r \<and> (\<forall>m s'. r = Inr (m, s') \<longrightarrow> filter_post accept s n ?P m s')"
    proof (cases r)
      case (Inl e)
      then show ?thesis using r by (simp add: filter_advance_def)
    next
      case (Inr ms)
      then obtain m s' where m: "adv s n = Some (Inr (m, s'))" using r by (cases ms) simp
      note mv = adv_moved [OF inv m] and ld = adv_landed [OF inv _ _ m]
      show ?thesis
      proof (cases "\<forall>d. m = Some d \<longrightarrow> accept d")
        case True
        then have "filter_advance nxt adv accept s n = Some (Inr (m, s'))"
          unfolding filter_advance_def m by (simp split: option.split)
        moreover have "filter_post accept s n ?P m s'"
          by (rule filter_post_stop [OF acc mv(1-3)]) (use mv ld True in auto)
        ultimately show ?thesis by simp
      next
        case False
        then obtain d where d: "m = Some d" "\<not> accept d" by blast
        have res: "filter_advance nxt adv accept s n = filter_loop nxt accept s'"
          unfolding filter_advance_def m using d by (simp add: filter_next_def)
        obtain r' where r': "filter_loop nxt accept s' = Some r'"
          "\<forall>m s''. r' = Inr (m, s'') \<longrightarrow> filter_post accept s' (Suc (Number d)) ?P m s''"
          using filter_loop_ok [OF acc mv(1) mv(6) [OF d(1)], where P = ?P] ld(3) d(1) by blast
        have "filter_post accept s n ?P m'' s''" if "filter_post accept s' (Suc (Number d)) ?P m'' s''" for m'' s''
          by (rule filter_post_skip [OF acc mv(1-3) mv(5) [OF d(1)] d(2) _ that]) (use ld(1) d(1) in auto)
        then show ?thesis unfolding res using r' by blast
      qed
    qed
    then show ?thesis using post by blast
  qed
qed

end

section \<open>The unadorned one-hit iterator\<close>

text \<open>Document numbers are 64-bit; the highest one marks the hit as consumed.\<close>

definition docNum1HitFinished :: nat where
  "docNum1HitFinished = 2 ^ 64 - 1"

definition unadorned_posting :: "nat \<Rightarrow> posting" where
  "unadorned_posting n = \<lparr>PNumber = n, PFrequency = 0, PNorm = 0, PLocations = []\<rparr>"

definition one_hit_docnum_at_or_after :: "nat \<Rightarrow> nat \<Rightarrow> nat option \<times> nat" where
  "one_hit_docnum_at_or_after docNum atOrAfter =
     (if docNum = docNum1HitFinished then (None, docNum)
      else if docNum < atOrAfter then (None, docNum1HitFinished)
      else (Some docNum, docNum1HitFinished))"

definition one_hit_at_or_after :: "nat \<Rightarrow> nat \<Rightarrow> ('e, nat) postings_step" where
  "one_hit_at_or_after docNum atOrAfter =
     (case one_hit_docnum_at_or_after docNum atOrAfter of
        (None, s) \<Rightarrow> Inr (None, s)
      | (Some n, s) \<Rightarrow> Inr (Some (unadorned_posting n), s))"

definition one_hit_next :: "nat \<Rightarrow> ('e, nat) postings_step" where
  "one_hit_next docNum = one_hit_at_or_after docNum 0"

definition one_hit_advance :: "nat \<Rightarrow> nat \<Rightarrow> ('e, nat) postings_step" where
  "one_hit_advance docNum n = one_hit_at_or_after docNum n"

end
