(* ===== verification/Snapshot_Postings.thy ===== *)
theory Snapshot_Postings
  imports Leaf_Searchers
begin

text \<open>
  The postings iterator of a snapshot (\<open>index/postings.go\<close>): it chains the iterators of the
  segments, adds the offset of a segment to its local document numbers, and finds the segment of a
  document number by binary search (\<open>segmentIndexAndLocalDocNumFromGlobal\<close>, \<open>index/snapshot.go\<close>).
\<close>

section \<open>The binary search of the standard library\<close>

function sort_search_loop :: "(nat \<Rightarrow> bool) \<Rightarrow> nat \<Rightarrow> nat \<Rightarrow> nat" where
  "sort_search_loop f i j =
     (if i < j then
        if \<not> f ((i + j) div 2) then sort_search_loop f ((i + j) div 2 + 1) j else sort_search_loop f i ((i + j) div 2)
      else i)"
  by pat_completeness auto
termination by (relation "measure (\<lambda>(_, i, j). j - i)") auto

declare sort_search_loop.simps [simp del]

definition sort_search :: "nat \<Rightarrow> (nat \<Rightarrow> bool) \<Rightarrow> nat" where
  "sort_search n f = sort_search_loop f 0 n"

definition search_mono :: "nat \<Rightarrow> (nat \<Rightarrow> bool) \<Rightarrow> bool" where
  "search_mono n f \<longleftrightarrow> (\<forall>a b. a \<le> b \<longrightarrow> b < n \<longrightarrow> f a \<longrightarrow> f b)"

lemma sort_search_loop_least:
  assumes mono: "search_mono n f"
  shows "i \<le> j \<Longrightarrow> j \<le> n \<Longrightarrow> \<forall>k<i. \<not> f k \<Longrightarrow> (\<forall>k. j \<le> k \<longrightarrow> k < n \<longrightarrow> f k) \<Longrightarrow>
    sort_search_loop f i j \<le> n \<and> (\<forall>k. k < sort_search_loop f i j \<longrightarrow> \<not> f k) \<and> (\<forall>k. sort_search_loop f i j \<le> k \<longrightarrow> k < n \<longrightarrow> f k)"
proof (induction "j - i" arbitrary: i j rule: less_induct)
  case less
  let ?h = "(i + j) div 2"
  show ?case
  proof (cases "i < j")
    case False
    then show ?thesis using less.prems by (simp add: sort_search_loop.simps)
  next
    case True
    then have h: "i \<le> ?h" "?h < j" "?h < n" using less.prems(2) by auto
    show ?thesis
    proof (cases "f ?h")
      case False
      have "\<forall>k<?h + 1. \<not> f k"
      proof (intro allI impI notI)
        fix k assume "k < ?h + 1" "f k"
        then have "k \<le> ?h" by simp
        then show False using mono \<open>f k\<close> h(3) False unfolding search_mono_def by blast
      qed
      note IH = less.hyps [OF _ _ less.prems(2) this less.prems(4)]
      have "sort_search_loop f i j = sort_search_loop f (?h + 1) j"
        using True False by (subst sort_search_loop.simps) simp
      then show ?thesis using IH h by simp
    next
      case f: True
      have "\<forall>k. ?h \<le> k \<longrightarrow> k < n \<longrightarrow> f k" using mono f unfolding search_mono_def by blast
      note IH = less.hyps [OF _ h(1) _ less.prems(3) this]
      have "sort_search_loop f i j = sort_search_loop f i ?h"
        using True f by (subst sort_search_loop.simps) simp
      then show ?thesis using IH h by simp
    qed
  qed
qed

lemma sort_search_least:
  assumes "search_mono n f"
  shows "sort_search n f \<le> n" "k < sort_search n f \<Longrightarrow> \<not> f k" "sort_search n f \<le> k \<Longrightarrow> k < n \<Longrightarrow> f k"
  using sort_search_loop_least [OF assms, of 0 n] unfolding sort_search_def by simp_all

section \<open>Operations\<close>

text \<open>
  \<open>si_fresh\<close> are the iterators that \<open>Snapshot.PostingsIterator\<close> builds for the same term;
  \<open>si_currID\<close> is None while no posting has been returned.
\<close>

record 'it snap_iter =
  si_fresh :: "'it list"
  si_offsets :: "nat list"
  si_iterators :: "'it list"
  si_segmentOffset :: nat
  si_currID :: "nat option"

datatype 'e snap_error = Segment_error 'e | Segment_out_of_bounds nat nat | Offset_panic

definition new_snap_iter :: "nat list \<Rightarrow> 'it list \<Rightarrow> 'it snap_iter" where
  "new_snap_iter offs its = \<lparr>si_fresh = its, si_offsets = offs, si_iterators = its, si_segmentOffset = 0, si_currID = None\<rparr>"

text \<open>None is the index -1, at which the code panics: no offset is at or below the number.\<close>

definition segment_index :: "nat list \<Rightarrow> nat \<Rightarrow> (nat \<times> nat) option" where
  "segment_index offs docNum =
     (let k = sort_search (length offs) (\<lambda>x. offs ! x > docNum) in
      if k = 0 then None else Some (k - 1, docNum - offs ! (k - 1)))"

definition set_number :: "nat \<Rightarrow> posting \<Rightarrow> posting" where
  "set_number off p = p\<lparr>PNumber := PNumber p + off\<rparr>"

definition snap_found :: "'it snap_iter \<Rightarrow> nat \<Rightarrow> posting \<Rightarrow> 'it \<Rightarrow> posting option \<times> 'it snap_iter" where
  "snap_found s k p it =
     (let rv = set_number (si_offsets s ! k) p in
      (Some rv, s\<lparr>si_iterators := (si_iterators s)[k := it], si_currID := Some (PNumber rv)\<rparr>))"

function snap_next :: "('it \<Rightarrow> ('e, 'it) postings_step) \<Rightarrow> 'it snap_iter \<Rightarrow> ('e snap_error, 'it snap_iter) postings_step" where
  "snap_next inext s =
     (let k = si_segmentOffset s in
      if k < length (si_iterators s) then
        (case inext (si_iterators s ! k) of
           Inl e \<Rightarrow> Inl (Segment_error e)
         | Inr (Some p, it) \<Rightarrow> Inr (snap_found s k p it)
         | Inr (None, it) \<Rightarrow>
             snap_next inext (s\<lparr>si_iterators := (si_iterators s)[k := it], si_segmentOffset := k + 1\<rparr>))
      else Inr (None, s))"
  by pat_completeness auto
termination by (relation "measure (\<lambda>(_, s). length (si_iterators s) - si_segmentOffset s)") auto

declare snap_next.simps [simp del]

definition snap_advance ::
  "('it \<Rightarrow> ('e, 'it) postings_step) \<Rightarrow> ('it \<Rightarrow> nat \<Rightarrow> ('e, 'it) postings_step) \<Rightarrow>
   'it snap_iter \<Rightarrow> nat \<Rightarrow> ('e snap_error, 'it snap_iter) postings_step" where
  "snap_advance inext iadv s number =
     (let s = (case si_currID s of
                 None \<Rightarrow> s
               | Some c \<Rightarrow> if c \<ge> number then new_snap_iter (si_offsets s) (si_fresh s) else s) in
      case segment_index (si_offsets s) number of
        None \<Rightarrow> Inl Offset_panic
      | Some (segIndex, ldocNum) \<Rightarrow>
          if segIndex \<ge> length (si_iterators s) then Inl (Segment_out_of_bounds segIndex (length (si_iterators s)))
          else
            case iadv (si_iterators s ! segIndex) ldocNum of
              Inl e \<Rightarrow> Inl (Segment_error e)
            | Inr (None, it) \<Rightarrow>
                snap_next inext (s\<lparr>si_segmentOffset := segIndex, si_iterators := (si_iterators s)[segIndex := it]\<rparr>)
            | Inr (Some p, it) \<Rightarrow> Inr (snap_found (s\<lparr>si_segmentOffset := segIndex\<rparr>) segIndex p it))"

section \<open>The iterator of one segment\<close>

text \<open>\<open>remaining\<close> are the postings it has not returned yet; \<open>Advance\<close> skips those below the number.\<close>

definition first_of :: "posting list \<Rightarrow> posting option" where
  "first_of ps = (case ps of [] \<Rightarrow> None | p # _ \<Rightarrow> Some p)"

locale segment_iterator =
  fixes inext :: "'it \<Rightarrow> ('e, 'it) postings_step" and iadv :: "'it \<Rightarrow> nat \<Rightarrow> ('e, 'it) postings_step"
    and iinv :: "'it \<Rightarrow> bool" and remaining :: "'it \<Rightarrow> posting list"
  assumes inext_ok: "iinv it \<Longrightarrow> inext it = Inr (m, it') \<Longrightarrow>
      iinv it' \<and> m = first_of (remaining it) \<and> remaining it' = tl (remaining it)"
    and iadv_ok: "iinv it \<Longrightarrow> iadv it n = Inr (m, it') \<Longrightarrow>
      iinv it' \<and> m = first_of (dropWhile (\<lambda>p. PNumber p < n) (remaining it)) \<and>
      remaining it' = tl (dropWhile (\<lambda>p. PNumber p < n) (remaining it))"

definition one_hit_left :: "nat \<Rightarrow> posting list" where
  "one_hit_left docNum = (if docNum = docNum1HitFinished then [] else [unadorned_posting docNum])"

interpretation one_hit: segment_iterator one_hit_next one_hit_advance "\<lambda>_. True" one_hit_left
  by unfold_locales
    (auto simp: one_hit_left_def one_hit_next_def one_hit_advance_def one_hit_at_or_after_def one_hit_docnum_at_or_after_def
      first_of_def unadorned_posting_def split: if_splits)

section \<open>The contract of the chain, from the segments'\<close>

lemma segment_index_ok:
  assumes "sorted offs" "segment_index offs n = Some (k, l)"
  shows "k < length offs" "offs ! k \<le> n" "l = n - offs ! k" "k < j \<Longrightarrow> j < length offs \<Longrightarrow> n < offs ! j"
proof -
  let ?f = "\<lambda>x. n < offs ! x" and ?r = "sort_search (length offs) (\<lambda>x. n < offs ! x)"
  have mono: "search_mono (length offs) ?f"
    using assms(1) unfolding search_mono_def by (meson less_le_trans sorted_nth_mono)
  have r: "?r \<noteq> 0" "k = ?r - 1" "l = n - offs ! k"
    using assms(2) by (auto simp: segment_index_def Let_def split: if_splits)
  show "l = n - offs ! k" by (rule r(3))
  show "k < length offs" using r sort_search_least(1) [OF mono] by simp
  show "offs ! k \<le> n" using r sort_search_least(2) [OF mono, of k] by simp
  show "n < offs ! j" if "k < j" "j < length offs" using that r sort_search_least(3) [OF mono, of j] by simp
qed

text \<open>The postings of segment \<open>k\<close> under their global numbers.\<close>

definition global :: "nat list \<Rightarrow> nat \<Rightarrow> posting list \<Rightarrow> posting list" where
  "global offs k ps = map (set_number (offs ! k)) ps"

lemma PNumber_set_number [simp]: "PNumber (set_number off p) = PNumber p + off"
  by (simp add: set_number_def)

text \<open>
  In the list of all segments' postings the segments before \<open>j\<close> lie below \<open>b\<close> and segment \<open>j\<close> has
  \<open>p\<close> first among those from \<open>b\<close> on.
\<close>

lemma find_concat:
  assumes "j < n" "\<forall>k<j. \<forall>q\<in>set (G k). \<not> P q" "filter P (G j) = p # rest"
  shows "find P (concat (map G [0..<n])) = Some p"
proof -
  have "[0..<n] = [0..<j] @ j # [Suc j..<n]" using assms(1) by (metis upt_conv_Cons le_add_diff_inverse less_imp_le upt_add_eq_append zero_le)
  moreover have "filter P (concat (map G [0..<j])) = []" using assms(2) by (auto simp: filter_empty_conv)
  ultimately have "filter P (concat (map G [0..<n])) = p # rest @ filter P (concat (map G [Suc j..<n]))"
    using assms(3) by simp
  moreover have "find P xs = Some q" if "filter P xs = q # qs" for xs q qs
    using that by (induction xs) (auto split: if_splits)
  ultimately show ?thesis by blast
qed

context segment_iterator
begin

definition snap_postings :: "'it snap_iter \<Rightarrow> posting list" where
  "snap_postings s = concat (map (\<lambda>k. global (si_offsets s) k (remaining (si_fresh s ! k))) [0..<length (si_fresh s)])"

definition snap_inv :: "'it snap_iter \<Rightarrow> bool" where
  "snap_inv s \<longleftrightarrow> length (si_iterators s) = length (si_fresh s) \<and> length (si_offsets s) = length (si_fresh s) \<and>
     sorted (si_offsets s) \<and>
     (\<forall>k<length (si_fresh s). iinv (si_fresh s ! k) \<and> iinv (si_iterators s ! k) \<and>
        sorted_wrt (\<lambda>p q. PNumber p < PNumber q) (remaining (si_fresh s ! k)) \<and>
        (\<exists>i. remaining (si_iterators s ! k) = drop i (remaining (si_fresh s ! k))) \<and>
        (\<forall>j<length (si_fresh s). k < j \<longrightarrow> (\<forall>p\<in>set (remaining (si_fresh s ! k)). PNumber p + si_offsets s ! k < si_offsets s ! j)))"

definition snap_upfrom :: "'it snap_iter \<Rightarrow> nat \<Rightarrow> bool" where
  "snap_upfrom s b \<longleftrightarrow> (\<forall>k<length (si_fresh s). si_segmentOffset s \<le> k \<longrightarrow>
     (\<forall>p\<in>set (remaining (si_iterators s ! k)). b \<le> PNumber p + si_offsets s ! k))"

definition snap_live :: "'it snap_iter \<Rightarrow> nat \<Rightarrow> bool" where
  "snap_live s b \<longleftrightarrow> snap_upfrom s b \<and> (\<forall>k<length (si_fresh s).
     if k < si_segmentOffset s then \<forall>p\<in>set (remaining (si_fresh s ! k)). PNumber p + si_offsets s ! k < b
     else remaining (si_iterators s ! k) = filter (\<lambda>p. b \<le> PNumber p + si_offsets s ! k) (remaining (si_fresh s ! k)))"

lemma snap_sorted:
  assumes inv: "snap_inv s"
  shows "sorted_wrt (\<lambda>p q. PNumber p < PNumber q) (snap_postings s)"
proof -
  have "sorted_wrt (\<lambda>p q. PNumber p < PNumber q) (concat (map (\<lambda>k. global (si_offsets s) k (remaining (si_fresh s ! k))) [0..<n]))"
    if "n \<le> length (si_fresh s)" for n
    using that
  proof (induction n)
    case (Suc n)
    have 1: "sorted_wrt (\<lambda>p q. PNumber p < PNumber q) (global (si_offsets s) n (remaining (si_fresh s ! n)))"
      using inv Suc.prems unfolding snap_inv_def by (simp add: global_def sorted_wrt_map)
    have 2: "PNumber p < PNumber q"
      if p: "p \<in> set (concat (map (\<lambda>k. global (si_offsets s) k (remaining (si_fresh s ! k))) [0..<n]))"
        and q: "q \<in> set (global (si_offsets s) n (remaining (si_fresh s ! n)))" for p q
    proof -
      obtain k p' where k: "k < n" "p' \<in> set (remaining (si_fresh s ! k))" "PNumber p = PNumber p' + si_offsets s ! k"
        using p by (auto simp: global_def)
      moreover have "si_offsets s ! n \<le> PNumber q" using q by (auto simp: global_def)
      moreover have "PNumber p' + si_offsets s ! k < si_offsets s ! n"
        using inv Suc.prems k unfolding snap_inv_def by simp
      ultimately show ?thesis by simp
    qed
    show ?case using Suc 1 2 by (simp add: sorted_wrt_append)
  qed simp
  then show ?thesis unfolding snap_postings_def by blast
qed

definition snap_post :: "'it snap_iter \<Rightarrow> nat \<Rightarrow> bool \<Rightarrow> posting option \<Rightarrow> 'it snap_iter \<Rightarrow> bool" where
  "snap_post s n P m s' \<longleftrightarrow> snap_inv s' \<and> snap_postings s' = snap_postings s \<and>
    (\<forall>p. m = Some p \<longrightarrow> p \<in> set (snap_postings s) \<and> n \<le> PNumber p \<and> snap_upfrom s' (Suc (PNumber p))) \<and>
    (P \<longrightarrow> m = first_posting (snap_postings s) n \<and> (\<forall>p. m = Some p \<longrightarrow> snap_live s' (Suc (PNumber p))))"

text \<open>What returning \<open>p\<close> from segment \<open>k\<close> promises.\<close>

lemma snap_found_ok:
  assumes inv: "snap_inv s" and seg: "si_segmentOffset s = k" "k < length (si_fresh s)"
    and it: "iinv it" "remaining it = rest" and mem: "\<exists>i. p # rest = drop i (remaining (si_fresh s ! k))"
    and n: "n \<le> PNumber p + si_offsets s ! k"
    and res: "snap_found s k p it = (m, s')"
    and P: "P \<Longrightarrow> p # rest = filter (\<lambda>p. n \<le> PNumber p + si_offsets s ! k) (remaining (si_fresh s ! k))"
      "P \<Longrightarrow> \<forall>j<k. \<forall>q\<in>set (remaining (si_fresh s ! j)). PNumber q + si_offsets s ! j < n"
      "P \<Longrightarrow> \<forall>j<length (si_fresh s). k < j \<longrightarrow> remaining (si_iterators s ! j) = remaining (si_fresh s ! j)"
  shows "snap_post s n P m s'"
proof -
  let ?F = "\<lambda>j. remaining (si_fresh s ! j)" and ?o = "si_offsets s" and ?n = "length (si_fresh s)"
  define N where "N = PNumber p + ?o ! k"
  have len: "length (si_iterators s) = ?n" "length ?o = ?n" using inv by (simp_all add: snap_inv_def)
  have m: "m = Some (set_number (?o ! k) p)" and s': "s' = s\<lparr>si_iterators := (si_iterators s)[k := it], si_currID := Some N\<rparr>"
    using res by (auto simp: snap_found_def Let_def N_def)
  obtain i where i: "p # rest = drop i (?F k)" using mem by blast
  then have rest: "rest = drop (Suc i) (?F k)" by (metis drop_Suc list.sel(3) tl_drop)
  have inv': "snap_inv s'" using inv seg(2) it rest len unfolding snap_inv_def s' by (auto simp: nth_list_update)
  have post: "snap_postings s' = snap_postings s" by (simp add: snap_postings_def s')
  have pF: "p \<in> set (?F k)" using i by (metis in_set_dropD list.set_intros(1))
  have sorted: "sorted_wrt (\<lambda>p q. PNumber p < PNumber q) (p # rest)"
    unfolding i using inv seg(2) by (simp add: snap_inv_def sorted_wrt_drop)
  have memp: "set_number (?o ! k) p \<in> set (snap_postings s)"
    using pF seg(2) by (auto simp: snap_postings_def global_def intro!: bexI [of _ k])
  have above: "N < PNumber q + ?o ! j" if j: "k < j" "j < ?n" for q j
    using inv j pF seg(2) unfolding snap_inv_def N_def by (metis less_le_trans le_add2)
  have up: "snap_upfrom s' (Suc N)"
    unfolding snap_upfrom_def
  proof (intro allI impI ballI)
    fix j q assume j: "j < length (si_fresh s')" "si_segmentOffset s' \<le> j" and q: "q \<in> set (remaining (si_iterators s' ! j))"
    show "Suc N \<le> PNumber q + si_offsets s' ! j"
    proof (cases "j = k")
      case True
      then have "q \<in> set rest" using q it seg len by (simp add: s')
      then have "PNumber p < PNumber q" using sorted by simp
      then show ?thesis using True by (simp add: s' N_def)
    next
      case False
      then show ?thesis using above [of j q] j seg by (simp add: s')
    qed
  qed
  have live: "first_posting (snap_postings s) n = m \<and> snap_live s' (Suc N)" if p: P
  proof
    have "filter (\<lambda>q. n \<le> PNumber q) (global ?o k (?F k)) = map (set_number (?o ! k)) (p # rest)"
      unfolding P(1) [OF p] by (simp add: global_def filter_map comp_def)
    then show "first_posting (snap_postings s) n = m"
      unfolding first_posting_def snap_postings_def m
    proof (intro find_concat [of k _ _ _ _ "map (set_number (?o ! k)) rest"])
      show "\<forall>j<k. \<forall>q\<in>set (global ?o j (?F j)). \<not> n \<le> PNumber q" using P(2) [OF p] by (fastforce simp: global_def not_le)
    qed (use seg(2) in simp_all)
    show "snap_live s' (Suc N)"
      unfolding snap_live_def
    proof (intro conjI up allI impI)
      fix j assume "j < length (si_fresh s')"
      then have j: "j < ?n" by (simp add: s')
      consider "j < k" | "j = k" | "k < j" by linarith
      then show "if j < si_segmentOffset s' then \<forall>p\<in>set (remaining (si_fresh s' ! j)). PNumber p + si_offsets s' ! j < Suc N
          else remaining (si_iterators s' ! j) = filter (\<lambda>p. Suc N \<le> PNumber p + si_offsets s' ! j) (remaining (si_fresh s' ! j))"
      proof cases
        case 1
        then have "\<forall>p\<in>set (?F j). PNumber p + ?o ! j < Suc N" using P(2) [OF p] n unfolding N_def by fastforce
        then show ?thesis using 1 seg by (simp add: s')
      next
        case 2
        have "rest = filter (\<lambda>q. Suc N \<le> PNumber q + ?o ! k) (p # rest)"
          using sorted unfolding N_def by (auto simp: filter_id_conv less_eq_Suc_le)
        also have "\<dots> = filter (\<lambda>q. Suc N \<le> PNumber q + ?o ! k) (?F k)"
          unfolding P(1) [OF p] filter_filter using n by (intro filter_cong) (auto simp: N_def)
        finally show ?thesis using 2 seg it len by (simp add: s')
      next
        case 3
        then have "filter (\<lambda>q. Suc N \<le> PNumber q + ?o ! j) (?F j) = ?F j"
          using above [OF 3 j] by (auto simp: filter_id_conv Suc_le_eq)
        then show ?thesis using 3 P(3) [OF p] seg j by (simp add: s')
      qed
    qed
  qed
  have num: "PNumber (set_number (?o ! k) p) = N" by (simp add: N_def)
  show ?thesis using inv' post memp n up live unfolding snap_post_def m num [symmetric] by (auto simp: N_def)
qed

lemma first_of_cases: "first_of ps = None \<longleftrightarrow> ps = []" "first_of ps = Some p \<longleftrightarrow> ps = p # tl ps"
  by (cases ps; auto simp: first_of_def)+

lemma snap_range:
  assumes "snap_inv s" "k < j" "j < length (si_fresh s)" "p \<in> set (remaining (si_fresh s ! k))"
  shows "PNumber p + si_offsets s ! k < si_offsets s ! j"
proof -
  have "k < length (si_fresh s)" using assms by simp
  then show ?thesis using assms unfolding snap_inv_def by blast
qed

lemma snap_inv_moved:
  assumes "snap_inv s" "k < length (si_fresh s)" "iinv it" "\<exists>i. remaining it = drop i (remaining (si_fresh s ! k))"
  shows "snap_inv (s\<lparr>si_iterators := (si_iterators s)[k := it], si_segmentOffset := x\<rparr>)"
    "snap_inv (s\<lparr>si_segmentOffset := x, si_iterators := (si_iterators s)[k := it]\<rparr>)"
proof -
  have "\<forall>j<length (si_fresh s). iinv ((si_iterators s)[k := it] ! j) \<and> (\<exists>i. remaining ((si_iterators s)[k := it] ! j) = drop i (remaining (si_fresh s ! j)))"
  proof (intro allI impI)
    fix j assume "j < length (si_fresh s)"
    then show "iinv ((si_iterators s)[k := it] ! j) \<and> (\<exists>i. remaining ((si_iterators s)[k := it] ! j) = drop i (remaining (si_fresh s ! j)))"
      using assms unfolding snap_inv_def by (cases "j = k") simp_all
  qed
  then show "snap_inv (s\<lparr>si_iterators := (si_iterators s)[k := it], si_segmentOffset := x\<rparr>)"
    "snap_inv (s\<lparr>si_segmentOffset := x, si_iterators := (si_iterators s)[k := it]\<rparr>)"
    using assms(1) unfolding snap_inv_def by simp_all
qed

lemma drop_all_ex: "remaining it = [] \<Longrightarrow> \<exists>i. remaining it = drop i ps"
  by (intro exI [of _ "length ps"]) simp

lemma snap_later:
  assumes inv: "snap_inv s" and k: "k < j" "j < length (si_fresh s)"
    and p: "p \<in> set (remaining (si_fresh s ! k))" "n \<le> PNumber p + si_offsets s ! k"
  shows "filter (\<lambda>p. n \<le> PNumber p + si_offsets s ! j) (remaining (si_fresh s ! j)) = remaining (si_fresh s ! j)"
proof -
  have "n < si_offsets s ! j" using snap_range [OF inv k p(1)] p(2) by simp
  then show ?thesis by (simp add: filter_id_conv)
qed

lemma snap_none:
  assumes "snap_inv s" "\<forall>j<length (si_fresh s). \<forall>q\<in>set (remaining (si_fresh s ! j)). PNumber q + si_offsets s ! j < n"
  shows "first_posting (snap_postings s) n = None"
  using assms(2) by (fastforce simp: first_posting_def find_None_iff snap_postings_def global_def)

lemma snap_next_ok:
  "snap_inv s \<Longrightarrow> snap_upfrom s n \<Longrightarrow> (P \<Longrightarrow> snap_live s n) \<Longrightarrow> snap_next inext s = Inr (m, s') \<Longrightarrow> snap_post s n P m s'"
proof (induction "length (si_fresh s) - si_segmentOffset s" arbitrary: s rule: less_induct)
  case less
  note inv = less.prems(1)
  let ?k = "si_segmentOffset s" and ?n = "length (si_fresh s)"
  have len: "length (si_iterators s) = ?n" "length (si_offsets s) = ?n" using inv by (simp_all add: snap_inv_def)
  show ?case
  proof (cases "?k < ?n")
    case False
    then have r: "m = None" "s' = s" using less.prems(4) len by (auto simp: snap_next.simps [of _ s] Let_def)
    have "first_posting (snap_postings s) n = None" if P
      using less.prems(3) [OF that] False by (intro snap_none [OF inv]) (auto simp: snap_live_def split: if_splits)
    then show ?thesis using inv r by (auto simp: snap_post_def)
  next
    case True
    obtain m1 it where it: "inext (si_iterators s ! ?k) = Inr (m1, it)"
      using less.prems(4) True len by (auto simp: snap_next.simps [of _ s] Let_def split: sum.splits)
    have "iinv (si_iterators s ! ?k)" using inv True by (simp add: snap_inv_def)
    note ok = inext_ok [OF this it]
    obtain i where i: "remaining (si_iterators s ! ?k) = drop i (remaining (si_fresh s ! ?k))"
      using inv True by (auto simp: snap_inv_def)
    show ?thesis
    proof (cases m1)
      case None
      let ?s = "s\<lparr>si_iterators := (si_iterators s)[?k := it], si_segmentOffset := ?k + 1\<rparr>"
      have res: "snap_next inext ?s = Inr (m, s')"
        using less.prems(4) True len it None by (simp add: snap_next.simps [of _ s] Let_def)
      have "first_of (remaining (si_iterators s ! ?k)) = None" using ok None by metis
      then have nil0: "remaining (si_iterators s ! ?k) = []" unfolding first_of_cases(1) .
      then have nil: "remaining (si_iterators s ! ?k) = []" "remaining it = []" using ok by simp_all
      have inv': "snap_inv ?s" using ok drop_all_ex [OF nil(2)] by (intro snap_inv_moved(1) [OF inv True]) blast+
      have up': "snap_upfrom ?s n" using less.prems(2) by (auto simp: snap_upfrom_def nth_list_update)
      have live': "snap_live ?s n" if P
        using less.prems(3) [OF that] up' nil True len
        by (auto simp: snap_live_def nth_list_update less_Suc_eq filter_empty_conv not_le dest: sym [of "[]"])
      have smaller: "length (si_fresh ?s) - si_segmentOffset ?s < ?n - ?k" using True by simp
      have "snap_post ?s n P m s'" by (rule less.hyps [OF smaller inv' up' live' res])
      moreover have "snap_postings ?s = snap_postings s" by (simp add: snap_postings_def)
      ultimately show ?thesis by (simp add: snap_post_def)
    next
      case (Some p)
      then have pr: "remaining (si_iterators s ! ?k) = p # remaining it" using ok first_of_cases(2) by metis
      have res: "snap_found s ?k p it = (m, s')"
        using less.prems(4) True len it Some by (simp add: snap_next.simps [of _ s] Let_def)
      have pn: "n \<le> PNumber p + si_offsets s ! ?k" using less.prems(2) True pr by (simp add: snap_upfrom_def)
      have pF: "p \<in> set (remaining (si_fresh s ! ?k))" using pr i by (metis in_set_dropD list.set_intros(1))
      show ?thesis
      proof (rule snap_found_ok [OF inv refl True _ refl _ pn res])
        show "iinv it" using ok by blast
        show "\<exists>i. p # remaining it = drop i (remaining (si_fresh s ! ?k))" using pr i by metis
        assume P
        note lv = less.prems(3) [OF this]
        show "p # remaining it = filter (\<lambda>p. n \<le> PNumber p + si_offsets s ! ?k) (remaining (si_fresh s ! ?k))"
          using lv True pr by (auto simp: snap_live_def)
        show "\<forall>j<?k. \<forall>q\<in>set (remaining (si_fresh s ! j)). PNumber q + si_offsets s ! j < n"
          using lv True by (auto simp: snap_live_def)
        show "\<forall>j<?n. ?k < j \<longrightarrow> remaining (si_iterators s ! j) = remaining (si_fresh s ! j)"
          using lv snap_later [OF inv _ _ pF pn] by (auto simp: snap_live_def)
      qed
    qed
  qed
qed

lemma snap_advance_from:
  assumes inv: "snap_inv s" and seg: "segment_index (si_offsets s) n = Some (k, l)" and k: "k < length (si_fresh s)"
    and it: "iadv (si_iterators s ! k) l = Inr (m1, it)" and P: "P \<Longrightarrow> \<exists>b\<le>n. snap_live s b"
    and res: "(case m1 of
        None \<Rightarrow> snap_next inext (s\<lparr>si_segmentOffset := k, si_iterators := (si_iterators s)[k := it]\<rparr>)
      | Some p \<Rightarrow> Inr (snap_found (s\<lparr>si_segmentOffset := k\<rparr>) k p it)) = Inr (m, s')"
  shows "snap_post s n P m s'"
proof -
  let ?F = "\<lambda>j. remaining (si_fresh s ! j)" and ?o = "si_offsets s" and ?n = "length (si_fresh s)"
  have len: "length (si_iterators s) = ?n" "length ?o = ?n" "sorted ?o" using inv by (simp_all add: snap_inv_def)
  note sg = segment_index_ok [OF len(3) seg]
  have later: "n < ?o ! j" if "k < j" "j < ?n" for j using sg(4) that len by simp
  have before: "\<forall>q\<in>set (?F j). PNumber q + ?o ! j < n" if "j < k" for j
  proof
    fix q assume "q \<in> set (?F j)"
    then have "PNumber q + ?o ! j < ?o ! k" using inv k that unfolding snap_inv_def by simp
    then show "PNumber q + ?o ! j < n" using sg(2) by simp
  qed
  have "iinv (si_iterators s ! k)" using inv k by (simp add: snap_inv_def)
  note ok = iadv_ok [OF this it]
  define r where "r = dropWhile (\<lambda>p. PNumber p < l) (remaining (si_iterators s ! k))"
  have suf: "\<exists>i. remaining (si_iterators s ! j) = drop i (?F j)" if "j < ?n" for j using inv that by (simp add: snap_inv_def)
  have sub: "set (remaining (si_iterators s ! j)) \<subseteq> set (?F j)" if "j < ?n" for j
    using suf [OF that] by (metis set_drop_subset)
  obtain i where i: "remaining (si_iterators s ! k) = drop i (?F k)" using suf [OF k] by blast
  have rdrop: "\<exists>i. r = drop i (?F k)" unfolding r_def i dropWhile_eq_drop drop_drop by blast
  have Fs: "sorted_wrt (\<lambda>p q. PNumber p < PNumber q) (?F k)" using inv k by (simp add: snap_inv_def)
  have drop_filter: "dropWhile (\<lambda>p. PNumber p < l) ps = filter (\<lambda>p. n \<le> PNumber p + ?o ! k) ps"
    if "sorted_wrt (\<lambda>p q. PNumber p < PNumber q) ps" for ps
    using that
  proof (induction ps)
    case (Cons p ps)
    have iff: "PNumber p < l \<longleftrightarrow> \<not> n \<le> PNumber p + ?o ! k" using sg(2,3) by auto
    show ?case
    proof (cases "PNumber p < l")
      case False
      then have "\<forall>q\<in>set ps. n \<le> PNumber q + ?o ! k" using Cons.prems sg(2,3) by fastforce
      then show ?thesis using False iff by (simp add: filter_id_conv)
    qed (use Cons iff in simp)
  qed simp
  have rP: "r = filter (\<lambda>p. n \<le> PNumber p + ?o ! k) (?F k)" "\<forall>j<?n. k < j \<longrightarrow> remaining (si_iterators s ! j) = ?F j" if p: P
  proof -
    obtain b where b: "b \<le> n" "snap_live s b" using P [OF p] by blast
    have "r = filter (\<lambda>p. n \<le> PNumber p + ?o ! k) (remaining (si_iterators s ! k))"
      unfolding r_def using Fs by (intro drop_filter) (simp add: i sorted_wrt_drop)
    also have "\<dots> = filter (\<lambda>p. n \<le> PNumber p + ?o ! k) (?F k)"
    proof (cases "k < si_segmentOffset s")
      case True
      then have all: "\<forall>q\<in>set (?F k). \<not> n \<le> PNumber q + ?o ! k" using b k by (fastforce simp: snap_live_def)
      then show ?thesis using sub [OF k] by (metis (no_types, lifting) filter_False subsetD)
    next
      case False
      then show ?thesis using b k by (auto simp: snap_live_def intro!: filter_cong)
    qed
    finally show "r = filter (\<lambda>p. n \<le> PNumber p + ?o ! k) (?F k)" .
    show "\<forall>j<?n. k < j \<longrightarrow> remaining (si_iterators s ! j) = ?F j"
    proof (intro allI impI)
      fix j assume j: "j < ?n" "k < j"
      have all: "\<forall>q\<in>set (?F j). b \<le> PNumber q + ?o ! j" using later [OF j(2,1)] b(1) by auto
      show "remaining (si_iterators s ! j) = ?F j"
      proof (cases "j < si_segmentOffset s")
        case True
        then have "\<forall>q\<in>set (?F j). PNumber q + ?o ! j < b" using b j by (simp add: snap_live_def)
        then have "?F j = []" using all by (cases "?F j") auto
        then show ?thesis using sub [OF j(1)] by simp
      next
        case False
        then have "remaining (si_iterators s ! j) = filter (\<lambda>p. b \<le> PNumber p + ?o ! j) (?F j)" using b j by (simp add: snap_live_def)
        then show ?thesis using all by (simp add: filter_id_conv)
      qed
    qed
  qed
  show ?thesis
  proof (cases m1)
    case None
    let ?s = "s\<lparr>si_segmentOffset := k, si_iterators := (si_iterators s)[k := it]\<rparr>"
    have "first_of r = None" using ok None unfolding r_def by metis
    then have nil0: "r = []" unfolding first_of_cases(1) .
    then have nil: "r = []" "remaining it = []" using ok [folded r_def] by simp_all
    have inv': "snap_inv ?s" using ok drop_all_ex [OF nil(2)] by (intro snap_inv_moved(2) [OF inv k]) blast+
    have up': "snap_upfrom ?s n"
      using later len nil by (auto simp: snap_upfrom_def nth_list_update less_imp_le trans_le_add2)
    have live': "snap_live ?s n" if p: P
      unfolding snap_live_def
    proof (intro conjI up' allI impI)
      fix j assume "j < length (si_fresh ?s)"
      then have j: "j < ?n" by simp
      consider "j < k" | "j = k" | "k < j" by linarith
      then show "if j < si_segmentOffset ?s then \<forall>p\<in>set (remaining (si_fresh ?s ! j)). PNumber p + si_offsets ?s ! j < n
          else remaining (si_iterators ?s ! j) = filter (\<lambda>p. n \<le> PNumber p + si_offsets ?s ! j) (remaining (si_fresh ?s ! j))"
      proof cases
        case 3
        then have "\<forall>q\<in>set (?F j). n \<le> PNumber q + ?o ! j" using later j by (simp add: less_imp_le trans_le_add2)
        then show ?thesis using 3 rP(2) [OF p] j by (simp add: filter_id_conv)
      qed (use before rP(1) [OF p] nil len k in simp_all)
    qed
    have "snap_post ?s n P m s'" by (rule snap_next_ok [OF inv' up' live']) (use res None in simp_all)
    moreover have "snap_postings ?s = snap_postings s" by (simp add: snap_postings_def)
    ultimately show ?thesis by (simp add: snap_post_def)
  next
    case (Some p)
    let ?s = "s\<lparr>si_segmentOffset := k\<rparr>"
    have r: "r = p # remaining it" using ok Some first_of_cases(2) unfolding r_def by metis
    have pn: "n \<le> PNumber p + ?o ! k"
    proof -
      have "\<not> PNumber p < l" using r hd_dropWhile [of "\<lambda>p. PNumber p < l"] unfolding r_def by (metis list.distinct(1) list.sel(1))
      then show ?thesis using sg(2,3) by simp
    qed
    have "snap_post ?s n P m s'"
    proof (rule snap_found_ok)
      show "snap_inv ?s" using inv by (simp add: snap_inv_def)
      show "iinv it" using ok by blast
      show "\<exists>i. p # remaining it = drop i (remaining (si_fresh ?s ! k))" using rdrop r by simp
      show "snap_found ?s k p it = (m, s')" using res Some by simp
    qed (use k pn rP r before in simp_all)
    moreover have "snap_postings ?s = snap_postings s" by (simp add: snap_postings_def)
    ultimately show ?thesis by (simp add: snap_post_def)
  qed
qed

lemma snap_new:
  assumes "length offs = length its" "sorted offs"
    "\<And>k. k < length its \<Longrightarrow> iinv (its ! k) \<and> sorted_wrt (\<lambda>p q. PNumber p < PNumber q) (remaining (its ! k))"
    "\<And>j k p. k < j \<Longrightarrow> j < length its \<Longrightarrow> p \<in> set (remaining (its ! k)) \<Longrightarrow> PNumber p + offs ! k < offs ! j"
  shows "snap_inv (new_snap_iter offs its)" "snap_live (new_snap_iter offs its) 0"
  using assms by (auto simp: new_snap_iter_def snap_inv_def snap_live_def snap_upfrom_def intro: exI [of _ 0])

lemma snap_fresh:
  assumes "snap_inv s"
  shows "snap_inv (new_snap_iter (si_offsets s) (si_fresh s))" "snap_live (new_snap_iter (si_offsets s) (si_fresh s)) 0"
    "snap_postings (new_snap_iter (si_offsets s) (si_fresh s)) = snap_postings s"
  using assms by (auto simp: new_snap_iter_def snap_inv_def snap_live_def snap_upfrom_def snap_postings_def intro: exI [of _ 0])

lemma snap_advance_ok:
  assumes inv: "snap_inv s" and res: "snap_advance inext iadv s n = Inr (m, s')"
  shows "snap_post s n (\<exists>b\<le>n. snap_live s b) m s'"
proof -
  define s1 where "s1 = (case si_currID s of None \<Rightarrow> s | Some c \<Rightarrow> if c \<ge> n then new_snap_iter (si_offsets s) (si_fresh s) else s)"
  have s1: "s1 = s \<or> s1 = new_snap_iter (si_offsets s) (si_fresh s)" by (auto simp: s1_def split: option.split)
  then have inv1: "snap_inv s1" and P1: "\<exists>b\<le>n. snap_live s b \<Longrightarrow> \<exists>b\<le>n. snap_live s1 b"
    and post1: "snap_postings s1 = snap_postings s" and len: "length (si_iterators s1) = length (si_fresh s1)"
    using snap_fresh [OF inv] inv by (auto simp: snap_inv_def)
  obtain k l where seg: "segment_index (si_offsets s1) n = Some (k, l)"
    using res unfolding snap_advance_def s1_def [symmetric] Let_def by (auto split: option.splits)
  then have k: "k < length (si_fresh s1)"
    using res len unfolding snap_advance_def s1_def [symmetric] Let_def by (auto split: if_splits)
  obtain m1 it where it: "iadv (si_iterators s1 ! k) l = Inr (m1, it)"
    using res seg unfolding snap_advance_def s1_def [symmetric] Let_def by (auto split: if_splits sum.splits)
  have "snap_post s1 n (\<exists>b\<le>n. snap_live s b) m s'"
    by (rule snap_advance_from [OF inv1 seg k it P1])
      (use res seg it k len in \<open>auto simp: snap_advance_def s1_def [symmetric] Let_def split: option.splits if_splits\<close>)
  then show ?thesis unfolding snap_post_def post1 .
qed

lemma snapshot_iterator:
  "postings_iterator (snap_next inext) (snap_advance inext iadv) snap_inv snap_postings snap_upfrom snap_live"
proof
  show "snap_inv s \<Longrightarrow> sorted_wrt (\<lambda>p q. PNumber p < PNumber q) (snap_postings s)" for s by (rule snap_sorted)
  show "snap_upfrom s 0" for s by (simp add: snap_upfrom_def)
  show "snap_live s b \<Longrightarrow> snap_upfrom s b" for s b by (simp add: snap_live_def)
  show "snap_inv s' \<and> snap_postings s' = snap_postings s \<and>
      (\<forall>p. m = Some p \<longrightarrow> p \<in> set (snap_postings s) \<and> n \<le> PNumber p \<and> snap_upfrom s' (Suc (PNumber p))) \<and>
      (snap_live s n \<longrightarrow> m = first_posting (snap_postings s) n \<and> (\<forall>p. m = Some p \<longrightarrow> snap_live s' (Suc (PNumber p))))"
    if "snap_inv s" "snap_upfrom s n" "snap_next inext s = Inr (m, s')" for s n m s'
    using snap_next_ok [OF that(1,2) _ that(3), of "snap_live s n"] unfolding snap_post_def by simp
  show "snap_inv s' \<and> snap_postings s' = snap_postings s \<and>
      (\<forall>p. m = Some p \<longrightarrow> p \<in> set (snap_postings s) \<and> n \<le> PNumber p \<and> snap_upfrom s' (Suc (PNumber p))) \<and>
      ((\<exists>b\<le>n. snap_live s b) \<longrightarrow> m = first_posting (snap_postings s) n \<and> (\<forall>p. m = Some p \<longrightarrow> snap_live s' (Suc (PNumber p))))"
    if "snap_inv s" "snap_advance inext iadv s n = Inr (m, s')" for s n m s'
    using snap_advance_ok [OF that] unfolding snap_post_def by simp
qed

end

end
