(* ===== verification/Disjunction_Heap.thy ===== *)
theory Disjunction_Heap
  imports Disjunction Go_Heap
begin

text \<open>
  The heap disjunction searcher (\<open>search_disjunction_heap.go\<close>), used from ten children on: the
  children that have a current match wait in a binary heap ordered by document number, and
  \<open>updateMatches\<close> pops those that stand at the smallest document. It keeps the contract of the
  slice searcher; only the order of a match's constituents differs.
\<close>

section \<open>Operations\<close>

text \<open>
  A \<open>searcherCurr\<close>; its searcher is the position of the child in \<open>s.searchers\<close>, where the
  child's state is kept.
\<close>

record searcher_curr =
  sc_searcher :: nat
  sc_curr :: "document_match option"

record 's heap_disj =
  hd_searchers :: "'s list"
  hd_heap :: "searcher_curr list"
  hd_min :: int
  hd_matching :: "document_match list"
  hd_matchingCurrs :: "searcher_curr list"
  hd_initialized :: bool

definition new_disjunction_heap :: "'s list \<Rightarrow> int \<Rightarrow> 's heap_disj" where
  "new_disjunction_heap ss k =
     \<lparr>hd_searchers = ss, hd_heap = [], hd_min = k, hd_matching = [], hd_matchingCurrs = [], hd_initialized = False\<rparr>"

text \<open>\<open>Less\<close>, on the two elements; a match number is read through the pointer \<open>curr\<close>.\<close>

definition curr_number :: "searcher_curr \<Rightarrow> nat" where
  "curr_number c = Number (the (sc_curr c))"

definition curr_less :: "searcher_curr \<Rightarrow> searcher_curr \<Rightarrow> bool" where
  "curr_less a b =
     (case sc_curr a of
        None \<Rightarrow> True
      | Some c \<Rightarrow> (case sc_curr b of None \<Rightarrow> False | Some d \<Rightarrow> Number c < Number d))"

definition push_curr :: "searcher_curr \<Rightarrow> 's heap_disj \<Rightarrow> 's heap_disj" where
  "push_curr c s = s\<lparr>hd_heap := heap_push curr_less c (hd_heap s)\<rparr>"

text \<open>The loop of \<open>updateMatches\<close>; \<open>nx\<close> was popped last.\<close>

lemma heap_pop_length: "heap_pop lt h = Some (x, h') \<Longrightarrow> length h' < length h"
  by (auto simp: heap_pop_def Let_def length_heap_down split: if_splits)

function pop_same :: "searcher_curr \<Rightarrow> searcher_curr list \<Rightarrow> searcher_curr list \<Rightarrow> searcher_curr list \<times> searcher_curr list" where
  "pop_same nx h cs =
     (if h \<noteq> [] \<and> curr_number nx = curr_number (h ! 0)
      then (case heap_pop curr_less h of None \<Rightarrow> (cs, h) | Some (c, h') \<Rightarrow> pop_same c h' (cs @ [c]))
      else (cs, h))"
  by pat_completeness auto
termination
  by (relation "measure (\<lambda>(nx, h, cs). length h)") (auto dest: heap_pop_length)

declare pop_same.simps [simp del]

definition pop_matches :: "searcher_curr list \<Rightarrow> searcher_curr list \<times> searcher_curr list" where
  "pop_matches h = (case heap_pop curr_less h of None \<Rightarrow> ([], h) | Some (c, h') \<Rightarrow> pop_same c h' [c])"

definition heap_update_matches :: "'s heap_disj \<Rightarrow> 's heap_disj" where
  "heap_update_matches s =
     (let (cs, h) = pop_matches (hd_heap s) in
      s\<lparr>hd_heap := h, hd_matching := map (\<lambda>c. the (sc_curr c)) cs, hd_matchingCurrs := cs\<rparr>)"

fun heap_init_list ::
  "('s \<Rightarrow> ('e, 's) step) \<Rightarrow> 's heap_disj \<Rightarrow> nat list \<Rightarrow> ('e, 's heap_disj) result option" where
  "heap_init_list nxt s [] = Some (Inr s)"
| "heap_init_list nxt s (i # is) =
     bindr (nxt (hd_searchers s ! i)) (\<lambda>(m, c).
       let s = s\<lparr>hd_searchers := (hd_searchers s)[i := c]\<rparr> in
       heap_init_list nxt (if m \<noteq> None then push_curr \<lparr>sc_searcher = i, sc_curr = m\<rparr> s else s) is)"

definition heap_init :: "('s \<Rightarrow> ('e, 's) step) \<Rightarrow> 's heap_disj \<Rightarrow> ('e, 's heap_disj) result option" where
  "heap_init nxt s =
     bindr (heap_init_list nxt s [0..<length (hd_searchers s)]) (\<lambda>s.
       Some (Inr ((heap_update_matches s)\<lparr>hd_initialized := True\<rparr>)))"

text \<open>\<open>Next\<close> on all the matching searchers.\<close>

fun heap_next_list ::
  "('s \<Rightarrow> ('e, 's) step) \<Rightarrow> 's heap_disj \<Rightarrow> searcher_curr list \<Rightarrow> ('e, 's heap_disj) result option" where
  "heap_next_list nxt s [] = Some (Inr s)"
| "heap_next_list nxt s (x # xs) =
     bindr (nxt (hd_searchers s ! sc_searcher x)) (\<lambda>(m, c).
       let s = s\<lparr>hd_searchers := (hd_searchers s)[sc_searcher x := c]\<rparr> in
       heap_next_list nxt (if m \<noteq> None then push_curr (x\<lparr>sc_curr := m\<rparr>) s else s) xs)"

partial_function (option) heap_loop :: "('s \<Rightarrow> ('e, 's) step) \<Rightarrow> composite \<Rightarrow> 's heap_disj \<Rightarrow> ('e, 's heap_disj) step" where
  "heap_loop nxt sc s =
     (if hd_matching s \<noteq> [] then
        let rv = (if int (length (hd_matching s)) \<ge> hd_min s then Some (build_document_match sc (hd_matching s)) else None) in
        bindr (heap_next_list nxt s (hd_matchingCurrs s)) (\<lambda>s.
          if rv \<noteq> None then Some (Inr (rv, heap_update_matches s)) else heap_loop nxt sc (heap_update_matches s))
      else Some (Inr (None, s)))"

definition heap_next :: "('s \<Rightarrow> ('e, 's) step) \<Rightarrow> composite \<Rightarrow> 's heap_disj \<Rightarrow> ('e, 's heap_disj) step" where
  "heap_next nxt sc s =
     bindr (if hd_initialized s then Some (Inr s) else heap_init nxt s) (\<lambda>s. heap_loop nxt sc s)"

lemma bindr_cong [fundef_cong]:
  "x = x' \<Longrightarrow> (\<And>a. x' = Some (Inr a) \<Longrightarrow> f a = f' a) \<Longrightarrow> bindr x f = bindr x' f'"
  by (cases x') (auto simp: bindr_def split: sum.split)

text \<open>The searchers below the number advance; those that still have a match wait in \<open>matchingCurrs\<close>.\<close>

function heap_advance_loop ::
  "('s \<Rightarrow> nat \<Rightarrow> ('e, 's) step) \<Rightarrow> 's heap_disj \<Rightarrow> nat \<Rightarrow> ('e, 's heap_disj) result option" where
  "heap_advance_loop adv s number =
     (if hd_heap s \<noteq> [] \<and> curr_number (hd_heap s ! 0) < number then
        (case heap_pop curr_less (hd_heap s) of
           None \<Rightarrow> Some (Inr s)
         | Some (x, h) \<Rightarrow>
             bindr (adv (hd_searchers s ! sc_searcher x) number) (\<lambda>(m, c).
               heap_advance_loop adv
                 (s\<lparr>hd_heap := h, hd_searchers := (hd_searchers s)[sc_searcher x := c],
                    hd_matchingCurrs := (if m \<noteq> None then hd_matchingCurrs s @ [x\<lparr>sc_curr := m\<rparr>] else hd_matchingCurrs s)\<rparr>)
                 number))
      else Some (Inr s))"
  by pat_completeness auto
termination
  by (relation "measure (\<lambda>(adv, s, number). length (hd_heap s))") (auto dest: heap_pop_length)

declare heap_advance_loop.simps [simp del]

definition heap_advance ::
  "('s \<Rightarrow> ('e, 's) step) \<Rightarrow> ('s \<Rightarrow> nat \<Rightarrow> ('e, 's) step) \<Rightarrow> composite \<Rightarrow> 's heap_disj \<Rightarrow> nat \<Rightarrow> ('e, 's heap_disj) step" where
  "heap_advance nxt adv sc s number =
     bindr (if hd_initialized s then Some (Inr s) else heap_init nxt s) (\<lambda>s.
       let s = fold push_curr (hd_matchingCurrs s) s;
           s = s\<lparr>hd_matching := [], hd_matchingCurrs := []\<rparr> in
       bindr (heap_advance_loop adv s number) (\<lambda>s.
         let s = fold push_curr (hd_matchingCurrs s) s;
             s = s\<lparr>hd_matchingCurrs := []\<rparr> in
         heap_next nxt sc (heap_update_matches s)))"

section \<open>The order of the heap\<close>

text \<open>On cells that have a match \<open>Less\<close> compares the numbers, which is a weak order.\<close>

definition number_less :: "searcher_curr \<Rightarrow> searcher_curr \<Rightarrow> bool" where
  "number_less a b \<longleftrightarrow> curr_number a < curr_number b"

interpretation number_order: weak_order number_less
  by unfold_locales (auto simp: number_less_def)

definition cells_set :: "searcher_curr list \<Rightarrow> bool" where
  "cells_set cs \<longleftrightarrow> (\<forall>c\<in>set cs. sc_curr c \<noteq> None)"

lemma curr_less_number: "sc_curr a \<noteq> None \<Longrightarrow> sc_curr b \<noteq> None \<Longrightarrow> curr_less a b = number_less a b"
  by (auto simp: curr_less_def number_less_def curr_number_def)

lemma agree_number: "cells_set h \<Longrightarrow> agree_on (set h) curr_less number_less"
  by (simp add: agree_on_def cells_set_def curr_less_number)

definition cell_heap :: "searcher_curr list \<Rightarrow> bool" where
  "cell_heap h \<longleftrightarrow> cells_set h \<and> heap_ok number_less h"

lemma cell_heap_Nil [simp]: "cell_heap []"
  by (simp add: cell_heap_def cells_set_def)

lemma cell_heap_push:
  assumes "cell_heap h" "sc_curr c \<noteq> None"
  shows "cell_heap (heap_push curr_less c h)" "mset (heap_push curr_less c h) = add_mset c (mset h)"
proof -
  have ok: "cells_set (c # h)" "heap_ok number_less h" using assms by (simp_all add: cell_heap_def cells_set_def)
  have eq: "heap_push curr_less c h = heap_push number_less c h" by (rule heap_push_cong [OF agree_number [OF ok(1)]])
  note push = number_order.heap_push_spec [OF ok(2), of c]
  show m: "mset (heap_push curr_less c h) = add_mset c (mset h)" unfolding eq by (rule push(2))
  then have "set (heap_push curr_less c h) = set (c # h)" by (metis mset.simps(2) set_mset_mset)
  then show "cell_heap (heap_push curr_less c h)" using ok push(1) by (simp add: cell_heap_def cells_set_def eq)
qed

lemma cell_heap_pop:
  assumes h: "cell_heap h" and pop: "heap_pop curr_less h = Some (x, h')"
  shows "cell_heap h'" "mset h = add_mset x (mset h')" "x = h ! 0" "\<forall>y\<in>set h. curr_number x \<le> curr_number y"
proof -
  have ok: "cells_set h" "heap_ok number_less h" using h by (simp_all add: cell_heap_def)
  have "heap_pop number_less h = Some (x, h')" using heap_pop_cong [OF agree_number [OF ok(1)]] pop by simp
  note p = number_order.heap_pop_Some [OF ok(2) this]
  show m: "mset h = add_mset x (mset h')" and "x = h ! 0" using p by simp_all
  show "\<forall>y\<in>set h. curr_number x \<le> curr_number y" using p by (metis number_less_def not_less)
  have "set h' \<subseteq> set h" using m by (metis set_mset_add_mset_insert set_mset_mset subset_insertI)
  then show "cell_heap h'" using p ok(1) by (auto simp: cell_heap_def cells_set_def)
qed

lemma pop_same_ok:
  assumes "cell_heap h" "\<forall>c\<in>set h. curr_number nx \<le> curr_number c" "pop_same nx h cs = (cs', h')"
  shows "\<exists>ds. cs' = cs @ ds \<and> mset h = mset ds + mset h' \<and> cell_heap h' \<and>
    (\<forall>c\<in>set ds. curr_number c = curr_number nx) \<and> (\<forall>c\<in>set h'. curr_number nx < curr_number c)"
  using assms
proof (induction nx h cs rule: pop_same.induct)
  case (1 nx h cs)
  show ?case
  proof (cases "h \<noteq> [] \<and> curr_number nx = curr_number (h ! 0)")
    case True
    then obtain c g where pop: "heap_pop curr_less h = Some (c, g)"
      using heap_pop_None [of curr_less h] by (cases "heap_pop curr_less h") auto
    note p = cell_heap_pop [OF "1.prems"(1) pop]
    have num: "curr_number c = curr_number nx" using p(3) True by simp
    have sub: "set h = insert c (set g)" using p(2) by (metis set_mset_add_mset_insert set_mset_mset)
    have "pop_same c g (cs @ [c]) = (cs', h')" using "1.prems"(3) True pop by (subst (asm) pop_same.simps) simp
    then obtain ds where "cs' = (cs @ [c]) @ ds" "mset g = mset ds + mset h'" "cell_heap h'"
      "\<forall>d\<in>set ds. curr_number d = curr_number c" "\<forall>d\<in>set h'. curr_number c < curr_number d"
      using "1.IH" [OF True pop refl p(1)] p(4) sub by auto
    then show ?thesis using p(2) num by (intro exI [of _ "c # ds"]) simp
  next
    case False
    then have res: "cs' = cs" "h' = h" using "1.prems"(3) by (subst (asm) pop_same.simps, simp split: if_splits)+
    have "curr_number nx < curr_number c" if c: "c \<in> set h" for c
    proof -
      have "h \<noteq> []" using c by auto
      then have "curr_number nx < curr_number (h ! 0)" using False "1.prems"(2) by (simp add: le_neq_implies_less)
      moreover obtain k where "k < length h" "h ! k = c" using c by (auto simp: in_set_conv_nth)
      then have "\<not> number_less c (h ! 0)"
        using number_order.heap_ok_min [of h k] "1.prems"(1) by (simp add: cell_heap_def)
      ultimately show ?thesis by (simp add: number_less_def)
    qed
    then show ?thesis using res "1.prems"(1) by simp
  qed
qed

text \<open>\<open>updateMatches\<close> pops exactly the cells at the smallest document.\<close>

lemma pop_matches_ok:
  assumes h: "cell_heap h" and pop: "pop_matches h = (cs, h')"
  shows "mset h = mset cs + mset h'" "cell_heap h'" "cs = [] \<longleftrightarrow> h = []"
    "c \<in> set h \<Longrightarrow> c \<in> set cs \<longleftrightarrow> (\<forall>d\<in>set h. curr_number c \<le> curr_number d)"
proof -
  have "mset h = mset cs + mset h' \<and> cell_heap h' \<and> (cs = [] \<longleftrightarrow> h = []) \<and>
    (\<forall>c\<in>set h. c \<in> set cs \<longleftrightarrow> (\<forall>d\<in>set h. curr_number c \<le> curr_number d))"
  proof (cases "heap_pop curr_less h")
    case None
    then show ?thesis using pop h unfolding pop_matches_def by (simp del: heap_pop_None) (use None in simp)
  next
    case (Some xg)
    obtain x g where xg: "xg = (x, g)" by (cases xg)
    note p = cell_heap_pop [OF h Some [unfolded xg]]
    have hs: "set h = insert x (set g)" using p(2) by (metis set_mset_add_mset_insert set_mset_mset)
    obtain ds where ds: "cs = [x] @ ds" "mset g = mset ds + mset h'" "cell_heap h'"
      "\<forall>c\<in>set ds. curr_number c = curr_number x" "\<forall>c\<in>set h'. curr_number x < curr_number c"
      using pop_same_ok [OF p(1), of x "[x]" cs h'] p(4) hs pop Some xg by (auto simp: pop_matches_def)
    have ms: "mset h = mset cs + mset h'" using p(2) ds(1,2) by simp
    then have un: "set h = set cs \<union> set h'" by (metis set_mset_mset set_mset_union)
    have low: "c \<in> set cs \<longleftrightarrow> curr_number c \<le> curr_number x" if "c \<in> set h" for c
      using that ds(1,4,5) un by force
    have min: "curr_number c \<le> curr_number x \<longleftrightarrow> (\<forall>d\<in>set h. curr_number c \<le> curr_number d)" for c
      using p(4) hs by force
    have "h \<noteq> []" "cs \<noteq> []" using hs ds(1) by auto
    then show ?thesis using ms ds(3) low min by blast
  qed
  then show "mset h = mset cs + mset h'" "cell_heap h'" "cs = [] \<longleftrightarrow> h = []"
    "c \<in> set h \<Longrightarrow> c \<in> set cs \<longleftrightarrow> (\<forall>d\<in>set h. curr_number c \<le> curr_number d)" by blast+
qed

section \<open>The slice searcher that a heap searcher stands for\<close>

definition curr_at :: "searcher_curr list \<Rightarrow> nat \<Rightarrow> document_match option" where
  "curr_at cs i = Option.bind (find (\<lambda>c. sc_searcher c = i) cs) sc_curr"

definition cells_ok :: "nat \<Rightarrow> searcher_curr list \<Rightarrow> bool" where
  "cells_ok n cs \<longleftrightarrow> distinct (map sc_searcher cs) \<and> (\<forall>c\<in>set cs. sc_searcher c < n)"

lemma curr_at_simps [simp]:
  "curr_at [] i = None" "curr_at (c # cs) i = (if sc_searcher c = i then sc_curr c else curr_at cs i)"
  by (simp_all add: curr_at_def)

lemma curr_at_out: "i \<notin> sc_searcher ` set cs \<Longrightarrow> curr_at cs i = None"
  by (induction cs) auto

lemma curr_at_in: "distinct (map sc_searcher cs) \<Longrightarrow> c \<in> set cs \<Longrightarrow> curr_at cs (sc_searcher c) = sc_curr c"
  by (induction cs) auto

lemma curr_at_Some:
  "distinct (map sc_searcher cs) \<Longrightarrow> curr_at cs i = Some d \<longleftrightarrow> (\<exists>c\<in>set cs. sc_searcher c = i \<and> sc_curr c = Some d)"
  by (induction cs) (auto simp: image_iff split: if_splits dest: curr_at_out)

lemma cells_ok_perm: "mset cs = mset ds \<Longrightarrow> cells_ok n cs = cells_ok n ds"
proof -
  assume m: "mset cs = mset ds"
  then have "mset (map sc_searcher cs) = mset (map sc_searcher ds)" by simp
  then have "distinct (map sc_searcher cs) = distinct (map sc_searcher ds)" by (rule mset_eq_imp_distinct_iff)
  then show ?thesis unfolding cells_ok_def using mset_eq_setD [OF m] by simp
qed

lemma curr_at_perm:
  assumes "cells_ok n cs" "mset cs = mset ds"
  shows "curr_at ds = curr_at cs"
proof
  fix i
  have d: "distinct (map sc_searcher cs)" "distinct (map sc_searcher ds)"
    using assms cells_ok_perm [OF assms(2)] by (simp_all add: cells_ok_def)
  have "set cs = set ds" using assms(2) by (rule mset_eq_setD)
  then have "curr_at ds i = Some x \<longleftrightarrow> curr_at cs i = Some x" for x
    unfolding curr_at_Some [OF d(1)] curr_at_Some [OF d(2)] by simp
  then show "curr_at ds i = curr_at cs i" by (metis option.exhaust)
qed

definition slice_of :: "'s heap_disj \<Rightarrow> searcher_curr list \<Rightarrow> 's disj" where
  "slice_of s cs =
     \<lparr>dj_searchers = hd_searchers s, dj_currs = map (curr_at cs) [0..<length (hd_searchers s)], dj_min = hd_min s,
      dj_matching = [], dj_matchingIdxs = [], dj_initialized = hd_initialized s\<rparr>"

lemma slice_of_simps [simp]:
  "dj_searchers (slice_of s cs) = hd_searchers s" "length (dj_currs (slice_of s cs)) = length (hd_searchers s)"
  "i < length (hd_searchers s) \<Longrightarrow> dj_currs (slice_of s cs) ! i = curr_at cs i"
  "dj_min (slice_of s cs) = hd_min s" "dj_initialized (slice_of s cs) = hd_initialized s"
  by (simp_all add: slice_of_def)

lemma slice_of_perm: "cells_ok n cs \<Longrightarrow> mset cs = mset ds \<Longrightarrow> slice_of s ds = slice_of s cs"
  using curr_at_perm [of n cs ds] by (simp add: slice_of_def)

lemma slice_of_move:
  assumes "hd_searchers s' = (hd_searchers s)[i := c]" "hd_min s' = hd_min s" "hd_initialized s' = hd_initialized s"
    and "curr_at cs' = (curr_at cs)(i := m)"
  shows "slice_of s' cs' = (slice_of s cs)\<lparr>dj_currs := (dj_currs (slice_of s cs))[i := m], dj_searchers := (dj_searchers (slice_of s cs))[i := c]\<rparr>"
proof -
  have "map (curr_at cs') [0..<length (hd_searchers s)] = (map (curr_at cs) [0..<length (hd_searchers s)])[i := m]"
    by (rule nth_equalityI) (simp_all add: nth_list_update assms(4))
  then show ?thesis using assms(1-3) by (simp add: slice_of_def)
qed

text \<open>The cell \<open>x\<close> moves to \<open>m\<close>: it is kept with its new match or dropped.\<close>

lemma curr_at_move:
  assumes ok: "cells_ok n (x # cs)" and cs': "mset cs' = (if m \<noteq> None then add_mset (x\<lparr>sc_curr := m\<rparr>) (mset cs) else mset cs)"
  shows "cells_ok n cs'" "curr_at cs' = (curr_at (x # cs))(sc_searcher x := m)"
proof -
  let ?ds = "if m \<noteq> None then x\<lparr>sc_curr := m\<rparr> # cs else cs"
  have ds: "cells_ok n ?ds" using ok by (auto simp: cells_ok_def)
  have ms: "mset ?ds = mset cs'" using cs' by simp
  show "cells_ok n cs'" using ds cells_ok_perm [OF ms] by simp
  have "sc_searcher x \<notin> sc_searcher ` set cs" using ok by (simp add: cells_ok_def)
  then have "curr_at ?ds = (curr_at (x # cs))(sc_searcher x := m)"
    using curr_at_out by (auto simp: fun_eq_iff)
  then show "curr_at cs' = (curr_at (x # cs))(sc_searcher x := m)" using curr_at_perm [OF ds ms] by simp
qed

section \<open>Moving the popped children\<close>

definition heap_moved ::
  "('s \<Rightarrow> document_match option \<Rightarrow> 's \<Rightarrow> document_match option \<Rightarrow> bool) \<Rightarrow> 's heap_disj \<Rightarrow> searcher_curr list \<Rightarrow> 's heap_disj \<Rightarrow> bool" where
  "heap_moved Q s xs s' \<longleftrightarrow> cells_ok (length (hd_searchers s)) (hd_heap s') \<and> cell_heap (hd_heap s') \<and>
     disj_moves Q (slice_of s (xs @ hd_heap s)) (map sc_searcher xs) (slice_of s' (hd_heap s'))"

lemma heap_next_list_ok:
  "cells_ok (length (hd_searchers s)) (xs @ hd_heap s) \<Longrightarrow> cell_heap (hd_heap s) \<Longrightarrow>
    \<forall>x\<in>set xs. next_ready nxt Q (hd_searchers s ! sc_searcher x) (sc_curr x) \<Longrightarrow>
    \<exists>r. heap_next_list nxt s xs = Some r \<and> (\<forall>s'. r = Inr s' \<longrightarrow> heap_moved Q s xs s')"
proof (induction xs arbitrary: s)
  case Nil
  then show ?case by (simp add: heap_moved_def disj_moves_def disj_frame_def)
next
  case (Cons x xs)
  let ?n = "length (hd_searchers s)" and ?i = "sc_searcher x"
  have i: "?i < ?n" "?i \<notin> sc_searcher ` set xs" "distinct (map sc_searcher xs)"
    using Cons.prems(1) by (simp_all add: cells_ok_def)
  have ready: "next_ready nxt Q (hd_searchers s ! ?i) (sc_curr x)" using Cons.prems(3) by simp
  then obtain r where r: "nxt (hd_searchers s ! ?i) = Some r" "\<forall>m c. r = Inr (m, c) \<longrightarrow> Q (hd_searchers s ! ?i) (sc_curr x) c m"
    unfolding next_ready_def by blast
  show ?case
  proof (cases r)
    case (Inl e)
    then show ?thesis using r(1) by simp
  next
    case (Inr mc)
    then obtain m c where mc: "r = Inr (m, c)" by (cases mc) simp
    let ?s0 = "s\<lparr>hd_searchers := (hd_searchers s)[?i := c]\<rparr>"
    let ?s = "if m \<noteq> None then push_curr (x\<lparr>sc_curr := m\<rparr>) ?s0 else ?s0"
    have ms: "mset (hd_heap ?s) = (if m \<noteq> None then add_mset (x\<lparr>sc_curr := m\<rparr>) (mset (hd_heap s)) else mset (hd_heap s))"
      and ch: "cell_heap (hd_heap ?s)"
      using cell_heap_push [OF Cons.prems(2), of "x\<lparr>sc_curr := m\<rparr>"] Cons.prems(2) by (auto simp: push_curr_def)
    have "mset (xs @ hd_heap ?s) = (if m \<noteq> None then add_mset (x\<lparr>sc_curr := m\<rparr>) (mset (xs @ hd_heap s)) else mset (xs @ hd_heap s))"
      unfolding mset_append ms by simp
    note mv = curr_at_move [OF Cons.prems(1) [unfolded append_Cons] this]
    have ss: "hd_searchers ?s = (hd_searchers s)[?i := c]" "hd_min ?s = hd_min s" "hd_initialized ?s = hd_initialized s"
      by (simp_all add: push_curr_def)
    have rd: "\<forall>y\<in>set xs. next_ready nxt Q (hd_searchers ?s ! sc_searcher y) (sc_curr y)"
      unfolding ss using Cons.prems(3) i(2) by (auto simp: nth_list_update image_iff)
    have len: "length (hd_searchers ?s) = ?n" unfolding ss by simp
    have "\<exists>r. heap_next_list nxt ?s xs = Some r \<and> (\<forall>s'. r = Inr s' \<longrightarrow> heap_moved Q ?s xs s')"
      by (rule Cons.IH) (use len mv(1) ch rd in simp_all)
    moreover have "heap_next_list nxt s (x # xs) = heap_next_list nxt ?s xs" using r(1) mc by simp
    moreover have "heap_moved Q s (x # xs) s'" if h: "heap_moved Q ?s xs s'" for s'
    proof -
      have "disj_moves Q (slice_of ?s (xs @ hd_heap ?s)) (map sc_searcher xs) (slice_of s' (hd_heap s'))"
        using h by (simp only: heap_moved_def)
      then have "disj_moves Q (slice_of s (x # xs @ hd_heap s)) (?i # map sc_searcher xs) (slice_of s' (hd_heap s'))"
        unfolding slice_of_move [OF ss mv(2)]
        by (rule disj_moves_Cons) (use r(2) mc i in simp_all)
      then show ?thesis using h len by (simp add: heap_moved_def)
    qed
    ultimately show ?thesis by metis
  qed
qed

lemma heap_init_list_eq: "heap_init_list nxt s is = heap_next_list nxt s (map (\<lambda>i. \<lparr>sc_searcher = i, sc_curr = None\<rparr>) is)"
  by (induction "is" arbitrary: s) (simp_all add: Let_def cong: if_cong)

text \<open>The cells that \<open>Advance\<close> moves, and those that stay in the heap at or above the number.\<close>

definition heap_advanced ::
  "('s \<Rightarrow> document_match option \<Rightarrow> 's \<Rightarrow> document_match option \<Rightarrow> bool) \<Rightarrow> nat \<Rightarrow> 's heap_disj \<Rightarrow> 's heap_disj \<Rightarrow> bool" where
  "heap_advanced Q number s s' \<longleftrightarrow> cells_ok (length (hd_searchers s)) (hd_matchingCurrs s' @ hd_heap s') \<and>
     cell_heap (hd_heap s') \<and> cells_set (hd_matchingCurrs s') \<and> (\<forall>x\<in>set (hd_heap s'). number \<le> curr_number x) \<and>
     (\<exists>xs. set xs \<subseteq> sc_searcher ` set (hd_heap s) \<and>
        sc_searcher ` set (hd_matchingCurrs s') \<subseteq> sc_searcher ` set (hd_matchingCurrs s) \<union> set xs \<and>
        disj_moves Q (slice_of s (hd_matchingCurrs s @ hd_heap s)) xs (slice_of s' (hd_matchingCurrs s' @ hd_heap s')))"

lemma heap_advance_loop_ok:
  "cells_ok (length (hd_searchers s)) (hd_matchingCurrs s @ hd_heap s) \<Longrightarrow> cell_heap (hd_heap s) \<Longrightarrow>
    cells_set (hd_matchingCurrs s) \<Longrightarrow>
    \<forall>x\<in>set (hd_heap s). curr_number x < number \<longrightarrow> next_ready (\<lambda>c. adv c number) Q (hd_searchers s ! sc_searcher x) (sc_curr x) \<Longrightarrow>
    \<exists>r. heap_advance_loop adv s number = Some r \<and> (\<forall>s'. r = Inr s' \<longrightarrow> heap_advanced Q number s s')"
proof (induction "length (hd_heap s)" arbitrary: s rule: less_induct)
  case less
  show ?case
  proof (cases "hd_heap s \<noteq> [] \<and> curr_number (hd_heap s ! 0) < number")
    case False
    then have "heap_advance_loop adv s number = Some (Inr s)" by (subst heap_advance_loop.simps) (rule if_not_P)
    moreover have "number \<le> curr_number x" if x: "x \<in> set (hd_heap s)" for x
    proof -
      obtain k where k: "k < length (hd_heap s)" "hd_heap s ! k = x" using x by (auto simp: in_set_conv_nth)
      then have "curr_number (hd_heap s ! 0) \<le> curr_number x"
        using number_order.heap_ok_min [of "hd_heap s" k] less.prems(2) by (simp add: cell_heap_def number_less_def not_less)
      moreover have "number \<le> curr_number (hd_heap s ! 0)" using False x by auto
      ultimately show ?thesis by simp
    qed
    moreover have "disj_moves Q t [] t" for t :: "'a disj" by (simp add: disj_moves_def disj_frame_def)
    then have "\<exists>xs. set xs \<subseteq> sc_searcher ` set (hd_heap s) \<and>
        sc_searcher ` set (hd_matchingCurrs s) \<subseteq> sc_searcher ` set (hd_matchingCurrs s) \<union> set xs \<and>
        disj_moves Q (slice_of s (hd_matchingCurrs s @ hd_heap s)) xs (slice_of s (hd_matchingCurrs s @ hd_heap s))"
      by (intro exI [of _ "[]"]) simp
    ultimately show ?thesis using less.prems(1-3) unfolding heap_advanced_def by blast
  next
    case True
    then obtain x h where pop: "heap_pop curr_less (hd_heap s) = Some (x, h)"
      using heap_pop_None [of curr_less "hd_heap s"] by (cases "heap_pop curr_less (hd_heap s)") auto
    note p = cell_heap_pop [OF less.prems(2) pop]
    have hs: "set (hd_heap s) = insert x (set h)" using p(2) by (metis set_mset_add_mset_insert set_mset_mset)
    let ?i = "sc_searcher x" and ?n = "length (hd_searchers s)" and ?mc = "hd_matchingCurrs s"
    have ms: "mset (?mc @ hd_heap s) = mset (x # ?mc @ h)" using p(2) by simp
    have ok: "cells_ok ?n (x # ?mc @ h)" using less.prems(1) cells_ok_perm [OF ms] by simp
    have ready: "next_ready (\<lambda>c. adv c number) Q (hd_searchers s ! ?i) (sc_curr x)"
      using less.prems(4) hs True p(3) by auto
    then obtain r where r: "adv (hd_searchers s ! ?i) number = Some r" "\<forall>m c. r = Inr (m, c) \<longrightarrow> Q (hd_searchers s ! ?i) (sc_curr x) c m"
      unfolding next_ready_def by blast
    show ?thesis
    proof (cases r)
      case (Inl e)
      then show ?thesis using r(1) pop True by (subst heap_advance_loop.simps) simp
    next
      case (Inr mc)
      then obtain m c where mc: "r = Inr (m, c)" by (cases mc) simp
      let ?s = "s\<lparr>hd_heap := h, hd_searchers := (hd_searchers s)[?i := c],
        hd_matchingCurrs := (if m \<noteq> None then ?mc @ [x\<lparr>sc_curr := m\<rparr>] else ?mc)\<rparr>"
      have eq: "heap_advance_loop adv s number = heap_advance_loop adv ?s number"
        using r(1) mc pop True by (subst heap_advance_loop.simps) simp
      have "mset (hd_matchingCurrs ?s @ hd_heap ?s) = (if m \<noteq> None then add_mset (x\<lparr>sc_curr := m\<rparr>) (mset (?mc @ h)) else mset (?mc @ h))"
        by simp
      note mv = curr_at_move [OF ok this]
      have sl: "slice_of s (x # ?mc @ h) = slice_of s (?mc @ hd_heap s)" by (rule slice_of_perm [OF less.prems(1) ms])
      have ss: "hd_searchers ?s = (hd_searchers s)[?i := c]" "hd_min ?s = hd_min s" "hd_initialized ?s = hd_initialized s"
        by simp_all
      have i: "?i < ?n" "?i \<notin> sc_searcher ` set h" using ok by (auto simp: cells_ok_def)
      have rd: "\<forall>y\<in>set (hd_heap ?s). curr_number y < number \<longrightarrow>
          next_ready (\<lambda>c. adv c number) Q (hd_searchers ?s ! sc_searcher y) (sc_curr y)"
        using less.prems(4) hs i(2) by (auto simp: nth_list_update image_iff)
      have pre: "length (hd_heap ?s) < length (hd_heap s)" "cells_ok (length (hd_searchers ?s)) (hd_matchingCurrs ?s @ hd_heap ?s)"
        "cell_heap (hd_heap ?s)" "cells_set (hd_matchingCurrs ?s)"
        using heap_pop_length [OF pop] mv(1) p(1) less.prems(3) by (simp_all add: cells_set_def)
      note IH = less.hyps [OF pre rd]
      have "heap_advanced Q number s s'" if h: "heap_advanced Q number ?s s'" for s'
      proof -
        obtain xs where xs: "set xs \<subseteq> sc_searcher ` set h"
          "sc_searcher ` set (hd_matchingCurrs s') \<subseteq> sc_searcher ` set (hd_matchingCurrs ?s) \<union> set xs"
          "disj_moves Q (slice_of ?s (hd_matchingCurrs ?s @ hd_heap ?s)) xs (slice_of s' (hd_matchingCurrs s' @ hd_heap s'))"
          using h unfolding heap_advanced_def by auto
        have "disj_moves Q (slice_of s (x # ?mc @ h)) (?i # xs) (slice_of s' (hd_matchingCurrs s' @ hd_heap s'))"
          by (rule disj_moves_Cons [OF xs(3) [unfolded slice_of_move [OF ss mv(2)]]])
            (use r(2) mc i xs(1) in auto)
        moreover have "set (?i # xs) \<subseteq> sc_searcher ` set (hd_heap s)" using xs(1) hs by auto
        moreover have "sc_searcher ` set (hd_matchingCurrs s') \<subseteq> sc_searcher ` set ?mc \<union> set (?i # xs)"
          using xs(2) by (auto split: if_splits)
        ultimately show ?thesis using h unfolding heap_advanced_def sl by (metis length_list_update ss(1))
      qed
      then show ?thesis unfolding eq using IH by blast
    qed
  qed
qed

lemma push_curr_simps [simp]:
  "hd_heap (push_curr c s) = heap_push curr_less c (hd_heap s)" "(push_curr c s)\<lparr>hd_heap := h\<rparr> = s\<lparr>hd_heap := h\<rparr>"
  "hd_matchingCurrs (push_curr c s) = hd_matchingCurrs s"
  by (simp_all add: push_curr_def)

lemma push_all_ok:
  "cell_heap (hd_heap s) \<Longrightarrow> cells_set cs \<Longrightarrow>
    \<exists>h. fold push_curr cs s = s\<lparr>hd_heap := h\<rparr> \<and> cell_heap h \<and> mset h = mset (cs @ hd_heap s)"
proof (induction cs arbitrary: s)
  case Nil
  then show ?case by (intro exI [of _ "hd_heap s"]) simp
next
  case (Cons c cs)
  have c: "sc_curr c \<noteq> None" "cells_set cs" using Cons.prems(2) by (simp_all add: cells_set_def)
  note push = cell_heap_push [OF Cons.prems(1) c(1)]
  obtain h where "fold push_curr cs (push_curr c s) = (push_curr c s)\<lparr>hd_heap := h\<rparr>" "cell_heap h"
    "mset h = mset (cs @ hd_heap (push_curr c s))"
    using Cons.IH [of "push_curr c s"] push(1) c(2) by auto
  then show ?case using push(2) by (intro exI [of _ h]) simp
qed

section \<open>The contract, from the slice searcher's\<close>

definition stands_for :: "'s heap_disj \<Rightarrow> 's disj" where
  "stands_for s = update_matches (slice_of s (hd_matchingCurrs s @ hd_heap s))"

lemma stands_for_simps [simp]:
  "dj_searchers (stands_for s) = hd_searchers s" "length (dj_currs (stands_for s)) = length (hd_searchers s)"
  "dj_min (stands_for s) = hd_min s" "dj_initialized (stands_for s) = hd_initialized s"
  by (simp_all add: stands_for_def update_matches_eq)

text \<open>After \<open>updateMatches\<close>: \<open>matchingCurrs\<close> are the cells at the smallest document.\<close>

definition cells_split :: "'s heap_disj \<Rightarrow> bool" where
  "cells_split s \<longleftrightarrow> cells_ok (length (hd_searchers s)) (hd_matchingCurrs s @ hd_heap s) \<and>
     cell_heap (hd_heap s) \<and> cells_set (hd_matchingCurrs s) \<and>
     hd_matching s = map (\<lambda>c. the (sc_curr c)) (hd_matchingCurrs s) \<and>
     (\<forall>c\<in>set (hd_matchingCurrs s @ hd_heap s).
        c \<in> set (hd_matchingCurrs s) \<longleftrightarrow> (\<forall>d\<in>set (hd_matchingCurrs s @ hd_heap s). curr_number c \<le> curr_number d))"

lemma heap_update_ok:
  assumes "cells_ok (length (hd_searchers s)) (hd_heap s)" "cell_heap (hd_heap s)"
  shows "cells_split (heap_update_matches s)" "stands_for (heap_update_matches s) = update_matches (slice_of s (hd_heap s))"
    "cells_split ((heap_update_matches s)\<lparr>hd_initialized := b\<rparr>)"
proof -
  obtain cs h where pop: "pop_matches (hd_heap s) = (cs, h)" by (cases "pop_matches (hd_heap s)")
  note p = pop_matches_ok [OF assms(2) pop]
  have ms: "mset (hd_heap s) = mset (cs @ h)" using p(1) by simp
  have ok: "cells_ok (length (hd_searchers s)) (cs @ h)" using assms(1) cells_ok_perm [OF ms] by simp
  have u: "heap_update_matches s = s\<lparr>hd_heap := h, hd_matching := map (\<lambda>c. the (sc_curr c)) cs, hd_matchingCurrs := cs\<rparr>"
    by (simp add: heap_update_matches_def pop)
  have sets: "set (hd_heap s) = set (cs @ h)" using ms by (rule mset_eq_setD)
  then have "cells_set cs" using assms(2) by (auto simp: cell_heap_def cells_set_def)
  then show "cells_split (heap_update_matches s)" "cells_split ((heap_update_matches s)\<lparr>hd_initialized := b\<rparr>)"
    using ok p(2,4) sets unfolding cells_split_def u by auto
  have "slice_of (heap_update_matches s) (cs @ h) = slice_of s (hd_heap s)"
    using slice_of_perm [OF assms(1) ms, of s] by (simp add: slice_of_def u)
  then show "stands_for (heap_update_matches s) = update_matches (slice_of s (hd_heap s))"
    by (simp add: stands_for_def u)
qed

lemma cells_split_matching:
  assumes "cells_split s"
  shows "set (map sc_searcher (hd_matchingCurrs s)) = set (smallest_idxs (dj_currs (stands_for s)))"
    "permuted (hd_matching s) (dj_matching (stands_for s))"
    "\<forall>c\<in>set (hd_matchingCurrs s). sc_curr c = dj_currs (stands_for s) ! sc_searcher c"
proof -
  let ?cs = "hd_matchingCurrs s" and ?all = "hd_matchingCurrs s @ hd_heap s" and ?n = "length (hd_searchers s)"
  let ?currs = "dj_currs (stands_for s)"
  have ok: "distinct (map sc_searcher ?all)" "\<forall>c\<in>set ?all. sc_searcher c < ?n" "cells_set ?all"
    using assms by (auto simp: cells_split_def cells_ok_def cell_heap_def cells_set_def)
  have nth: "?currs ! i = curr_at ?all i" if "i < ?n" for i
    using that by (simp add: stands_for_def update_matches_eq)
  have len: "length ?currs = ?n" by simp
  have mem: "Some d \<in> set ?currs \<longleftrightarrow> (\<exists>c\<in>set ?all. sc_curr c = Some d)" for d
    unfolding in_set_conv_nth len using nth curr_at_Some [OF ok(1)] ok(2) by metis
  have small: "smallest ?currs d \<longleftrightarrow> (\<forall>c\<in>set ?all. Number d \<le> curr_number c)" for d
    unfolding smallest_def mem using ok(3) by (force simp: cells_set_def curr_number_def)
  show at: "\<forall>c\<in>set ?cs. sc_curr c = ?currs ! sc_searcher c"
  proof
    fix c assume c: "c \<in> set ?cs"
    then have "curr_at ?all (sc_searcher c) = sc_curr c" using curr_at_in [OF ok(1), of c] by simp
    then show "sc_curr c = ?currs ! sc_searcher c" using nth ok(2) c by simp
  qed
  show idxs: "set (map sc_searcher ?cs) = set (smallest_idxs ?currs)"
  proof (intro set_eqI)
    fix i
    have "i \<in> set (smallest_idxs ?currs) \<longleftrightarrow> i < ?n \<and> (\<exists>d. curr_at ?all i = Some d \<and> smallest ?currs d)"
      unfolding smallest_idxs_set len using nth by auto
    also have "\<dots> \<longleftrightarrow> (\<exists>c\<in>set ?all. sc_searcher c = i \<and> (\<forall>d\<in>set ?all. curr_number c \<le> curr_number d))"
    proof
      assume "i < ?n \<and> (\<exists>d. curr_at ?all i = Some d \<and> smallest ?currs d)"
      then obtain d c where c: "c \<in> set ?all" "sc_searcher c = i" "sc_curr c = Some d" "\<forall>e\<in>set ?all. Number d \<le> curr_number e"
        unfolding curr_at_Some [OF ok(1)] small by blast
      then have "curr_number c = Number d" by (simp add: curr_number_def)
      then show "\<exists>c\<in>set ?all. sc_searcher c = i \<and> (\<forall>d\<in>set ?all. curr_number c \<le> curr_number d)" using c by metis
    next
      assume "\<exists>c\<in>set ?all. sc_searcher c = i \<and> (\<forall>d\<in>set ?all. curr_number c \<le> curr_number d)"
      then obtain c where c: "c \<in> set ?all" "sc_searcher c = i" "\<forall>d\<in>set ?all. curr_number c \<le> curr_number d" by blast
      then obtain d where d: "sc_curr c = Some d" using ok(3) by (auto simp: cells_set_def)
      then have "curr_number c = Number d" by (simp add: curr_number_def)
      then have "smallest ?currs d" "curr_at ?all i = Some d" using c d unfolding curr_at_Some [OF ok(1)] small by metis+
      then show "i < ?n \<and> (\<exists>d. curr_at ?all i = Some d \<and> smallest ?currs d)" using ok(2) c(1,2) by blast
    qed
    also have "\<dots> \<longleftrightarrow> (\<exists>c\<in>set ?cs. sc_searcher c = i)"
      using assms unfolding cells_split_def by (metis Un_iff set_append)
    finally show "i \<in> set (map sc_searcher ?cs) \<longleftrightarrow> i \<in> set (smallest_idxs ?currs)" by auto
  qed
  have "distinct (smallest_idxs ?currs)" "distinct (map sc_searcher ?cs)" using ok(1) by (simp_all add: smallest_idxs_def)
  then have "mset (map sc_searcher ?cs) = mset (smallest_idxs ?currs)" using idxs set_eq_iff_mset_eq_distinct by blast
  then have "mset (map (\<lambda>i. the (?currs ! i)) (map sc_searcher ?cs)) = mset (map (\<lambda>i. the (?currs ! i)) (smallest_idxs ?currs))"
    by (simp only: mset_map)
  moreover have "map (\<lambda>i. the (?currs ! i)) (map sc_searcher ?cs) = hd_matching s"
    using at assms by (simp add: cells_split_def)
  moreover have "dj_matching (stands_for s) = map (\<lambda>i. the (?currs ! i)) (smallest_idxs ?currs)"
    by (simp add: stands_for_def update_matches_eq matches_at_def)
  ultimately show "permuted (hd_matching s) (dj_matching (stands_for s))" by (simp only: permuted_def)
qed

context searcher
begin

definition heap_inv :: "'s heap_disj \<Rightarrow> bool" where
  "heap_inv s \<longleftrightarrow> disj_inv (stands_for s) \<and>
     (if hd_initialized s then cells_split s else hd_heap s = [] \<and> hd_matchingCurrs s = [])"

definition heap_post :: "composite \<Rightarrow> 's heap_disj \<Rightarrow> document_match option \<Rightarrow> 's heap_disj \<Rightarrow> bool" where
  "heap_post sc s m s' \<longleftrightarrow> heap_inv s' \<and> disj_post permuted sc (stands_for s) m (stands_for s')"

lemma disj_moves_from:
  "disj_moves Q (stands_for s) xs t = disj_moves Q (slice_of s (hd_matchingCurrs s @ hd_heap s)) xs t"
  by (simp add: disj_moves_def disj_frame_def stands_for_def)

lemma disj_moves_length: "disj_moves Q (slice_of s cs) xs (slice_of s' cs') \<Longrightarrow> length (hd_searchers s') = length (hd_searchers s)"
  by (simp add: disj_moves_def disj_frame_def)

lemma heap_loop_ok:
  "heap_inv s \<Longrightarrow> hd_initialized s \<Longrightarrow> disj_bound (stands_for s) B \<Longrightarrow>
    \<exists>r. heap_loop nxt sc s = Some r \<and> (\<forall>m s'. r = Inr (m, s') \<longrightarrow> heap_post sc s m s')"
proof (induction "disj_measure B (stands_for s)" arbitrary: s rule: less_induct)
  case less
  let ?S = "stands_for s" and ?mc = "hd_matchingCurrs s"
  have inv: "disj_inv ?S" "dj_initialized ?S" and split: "cells_split s"
    using less.prems(1,2) by (simp_all add: heap_inv_def)
  note mt = cells_split_matching [OF split]
  have empty: "hd_matching s = [] \<longleftrightarrow> dj_matching ?S = []" and len: "length (hd_matching s) = length (dj_matching ?S)"
    using mt(2) reorderingD(2,4) [OF reorderings(2)] by blast+
  show ?case
  proof (cases "hd_matching s = []")
    case True
    then have "heap_loop nxt sc s = Some (Inr (None, s))" by (subst heap_loop.simps) simp
    moreover have "heap_post sc s None s"
      using disj_post_end [OF inv _ reorderings(2)] True empty less.prems(1) by (simp add: heap_post_def)
    ultimately show ?thesis by simp
  next
    case False
    let ?I = "smallest_idxs (dj_currs ?S)"
    obtain N where N: "\<forall>i\<in>set ?I. \<exists>c. dj_currs ?S ! i = Some c \<and> Number c = N" "?I \<noteq> []"
      and found: "\<And>t. disj_stepped (Suc N) ?S t \<Longrightarrow> dj_min ?S \<le> int (length (dj_matching ?S)) \<Longrightarrow>
        disj_post permuted sc ?S (Some (build_document_match sc (hd_matching s))) (update_matches t)"
      and skip: "\<And>t m s''. disj_stepped (Suc N) ?S t \<Longrightarrow> \<not> dj_min ?S \<le> int (length (dj_matching ?S)) \<Longrightarrow>
        disj_post permuted sc (update_matches t) m s'' \<Longrightarrow> disj_post permuted sc ?S m s''"
      using disj_round [OF inv False [unfolded empty] reorderings(2), of sc thesis] mt(2) by blast
    have "\<forall>x\<in>set ?mc. next_ready nxt (child_step (Suc N)) (hd_searchers s ! sc_searcher x) (sc_curr x)"
    proof
      fix x assume x: "x \<in> set ?mc"
      then have "sc_searcher x \<in> set ?I" using mt(1) by auto
      then show "next_ready nxt (child_step (Suc N)) (hd_searchers s ! sc_searcher x) (sc_curr x)"
        using disj_bump_ready [OF inv N(1)] mt(3) x by auto
    qed
    then obtain r where r: "heap_next_list nxt s ?mc = Some r" "\<forall>s'. r = Inr s' \<longrightarrow> heap_moved (child_step (Suc N)) s ?mc s'"
      using heap_next_list_ok [of s ?mc] split unfolding cells_split_def by blast
    let ?rv = "if hd_min s \<le> int (length (hd_matching s)) then Some (build_document_match sc (hd_matching s)) else None"
    have eq: "heap_loop nxt sc s = bindr (heap_next_list nxt s ?mc) (\<lambda>s. if ?rv \<noteq> None then Some (Inr (?rv, heap_update_matches s)) else heap_loop nxt sc (heap_update_matches s))"
      by (subst heap_loop.simps) (simp only: Let_def False if_True simp_thms)
    show ?thesis
    proof (cases r)
      case (Inl e)
      then show ?thesis unfolding eq using r(1) by simp
    next
      case (Inr s')
      let ?t = "slice_of s' (hd_heap s')"
      have hm: "heap_moved (child_step (Suc N)) s ?mc s'" using r(2) Inr by blast
      then have mv: "disj_moves (child_step (Suc N)) ?S (map sc_searcher ?mc) ?t" by (simp add: heap_moved_def disj_moves_from)
      have st: "disj_stepped (Suc N) ?S ?t" by (rule disj_bump_stepped [OF inv N mv mt(1)])
      have "length (hd_searchers s') = length (hd_searchers s)" using hm disj_moves_length unfolding heap_moved_def by blast
      then have ok: "cells_ok (length (hd_searchers s')) (hd_heap s')" "cell_heap (hd_heap s')" using hm by (simp_all add: heap_moved_def)
      note u = heap_update_ok [OF ok]
      have lenS: "length (dj_currs ?S) = length (dj_searchers ?S)" by simp
      note k = disj_stepped_ok(1) [OF st lenS inv(2)]
      then have "disj_inv (stands_for (heap_update_matches s'))" and init: "dj_initialized (stands_for (heap_update_matches s'))"
        unfolding u(2) disj_kept_def by blast+
      then have hi: "heap_inv (heap_update_matches s')" using u(1) unfolding heap_inv_def by simp
      show ?thesis
      proof (cases "hd_min s \<le> int (length (hd_matching s))")
        case True
        then have "disj_post permuted sc ?S (Some (build_document_match sc (hd_matching s))) (update_matches ?t)"
          using found [OF st] len by simp
        then have "heap_post sc s (Some (build_document_match sc (hd_matching s))) (heap_update_matches s')"
          using hi u(2) by (simp add: heap_post_def)
        then show ?thesis unfolding eq using r(1) Inr True by simp
      next
        case small: False
        have res: "heap_loop nxt sc s = heap_loop nxt sc (heap_update_matches s')" unfolding eq using r(1) Inr small by simp
        have "\<forall>i. i \<notin> set ?I \<longrightarrow> dj_currs ?t ! i = dj_currs ?S ! i" using mv mt(1) unfolding disj_moves_def by blast
        then have less': "disj_measure B (stands_for (heap_update_matches s')) < disj_measure B ?S"
          unfolding u(2) using disj_measure_bump [OF inv less.prems(3) st N] by (simp add: disj_measure_def)
        have "disj_bound (stands_for (heap_update_matches s')) B" unfolding u(2) by (rule disj_bound_kept [OF k less.prems(3)])
        then obtain r' where r': "heap_loop nxt sc (heap_update_matches s') = Some r'"
          "\<forall>m s''. r' = Inr (m, s'') \<longrightarrow> heap_post sc (heap_update_matches s') m s''"
          using less.hyps [OF less' hi] init by auto
        have "heap_post sc (heap_update_matches s') m s'' \<Longrightarrow> heap_post sc s m s''" for m s''
          unfolding heap_post_def u(2) using skip [OF st] small len by simp
        then show ?thesis unfolding res using r' by blast
      qed
    qed
  qed
qed

lemma heap_init_ok:
  assumes inv: "heap_inv s" and fresh: "\<not> hd_initialized s"
  shows "\<exists>r. heap_init nxt s = Some r \<and> (\<forall>s'. r = Inr s' \<longrightarrow> heap_inv s' \<and> disj_kept (stands_for s) (stands_for s') \<and>
    (\<forall>p. disj_upfrom (stands_for s) p \<longrightarrow> disj_upfrom (stands_for s') p) \<and>
    (\<forall>b. disj_live (stands_for s) b \<longrightarrow> disj_live (stands_for s') b))"
proof -
  let ?n = "length (hd_searchers s)" and ?new = "map (\<lambda>i. \<lparr>sc_searcher = i, sc_curr = None\<rparr>) [0..<length (hd_searchers s)]"
  have empty: "hd_heap s = []" "hd_matchingCurrs s = []" and di: "disj_inv (stands_for s)"
    using inv fresh by (simp_all add: heap_inv_def)
  have "\<forall>i<?n. inv (hd_searchers s ! i)" using di fresh by (simp add: disj_inv_def)
  then have ready: "\<forall>x\<in>set ?new. next_ready nxt fresh_step (hd_searchers s ! sc_searcher x) (sc_curr x)"
    using fresh_ready by simp
  have ids: "map sc_searcher ?new = [0..<?n]" by (simp add: comp_def)
  then have okn: "cells_ok ?n (?new @ hd_heap s)" using empty by (simp add: cells_ok_def comp_def)
  obtain r where r: "heap_next_list nxt s ?new = Some r" "\<forall>s'. r = Inr s' \<longrightarrow> heap_moved fresh_step s ?new s'"
    using heap_next_list_ok [OF okn _ ready] empty by auto
  show ?thesis
  proof (cases r)
    case (Inl e)
    then show ?thesis using r(1) by (simp add: heap_init_def heap_init_list_eq)
  next
    case (Inr s1)
    let ?t = "slice_of s1 (hd_heap s1)" and ?s = "(heap_update_matches s1)\<lparr>hd_initialized := True\<rparr>"
    have hm: "heap_moved fresh_step s ?new s1" using r(2) Inr by blast
    have "curr_at ?new i = None" for i
    proof (cases "i < ?n")
      case True
      then have "\<lparr>sc_searcher = i, sc_curr = None\<rparr> \<in> set ?new" by simp
      then show ?thesis using curr_at_in [of ?new "\<lparr>sc_searcher = i, sc_curr = None\<rparr>"] unfolding ids by simp
    next
      case False
      then show ?thesis by (intro curr_at_out) auto
    qed
    then have "slice_of s (?new @ hd_heap s) = slice_of s (hd_matchingCurrs s @ hd_heap s)" using empty by (simp add: slice_of_def)
    then have mv: "disj_moves fresh_step (stands_for s) [0..<?n] ?t"
      using hm unfolding heap_moved_def disj_moves_from ids by simp
    have "length (hd_searchers s1) = ?n" using hm disj_moves_length unfolding heap_moved_def by blast
    then have ok: "cells_ok (length (hd_searchers s1)) (hd_heap s1)" "cell_heap (hd_heap s1)" using hm by (simp_all add: heap_moved_def)
    note u = heap_update_ok [OF ok]
    have "slice_of ?s = (\<lambda>cs. (slice_of (heap_update_matches s1) cs)\<lparr>dj_initialized := True\<rparr>)" by (simp add: fun_eq_iff slice_of_def)
    then have st: "stands_for ?s = (update_matches ?t)\<lparr>dj_initialized := True\<rparr>"
      unfolding u(2) [symmetric] by (simp add: stands_for_def update_matches_eq)
    have fr: "\<not> dj_initialized (stands_for s)" "length (dj_currs (stands_for s)) = length (dj_searchers (stands_for s))"
      using fresh by simp_all
    have xs: "set [0..<?n] = {0..<length (dj_searchers (stands_for s))}" by simp
    note im = disj_init_moved [OF fr mv xs, folded st]
    have "heap_inv ?s" using im(1) u(3) [of True] by (simp add: heap_inv_def disj_kept_def)
    moreover have "heap_init nxt s = Some (Inr ?s)" using r(1) Inr by (simp add: heap_init_def heap_init_list_eq)
    ultimately show ?thesis using im by blast
  qed
qed

lemma heap_prepared:
  assumes inv: "heap_inv s"
  shows "\<exists>r. (if hd_initialized s then Some (Inr s) else heap_init nxt s) = Some r \<and> (\<forall>s'. r = Inr s' \<longrightarrow>
    heap_inv s' \<and> disj_kept (stands_for s) (stands_for s') \<and>
    (\<forall>p. disj_upfrom (stands_for s) p \<longrightarrow> disj_upfrom (stands_for s') p) \<and>
    (\<forall>b. disj_live (stands_for s) b \<longrightarrow> disj_live (stands_for s') b))"
proof (cases "hd_initialized s")
  case True
  then have "disj_kept (stands_for s) (stands_for s)" using inv by (simp add: heap_inv_def disj_kept_def)
  then show ?thesis using True inv by simp
next
  case False
  then show ?thesis using heap_init_ok [OF inv] by simp
qed

definition heap_hits :: "composite \<Rightarrow> 's heap_disj \<Rightarrow> document_match \<Rightarrow> bool" where
  "heap_hits sc s = disj_hits_via permuted hits sc (stands_for s)"

definition heap_exact :: "composite \<Rightarrow> 's heap_disj \<Rightarrow> document_match \<Rightarrow> bool" where
  "heap_exact sc s = disj_exact_via permuted hits exact sc (stands_for s)"

lemma docs_heap: "docs_of (heap_hits sc) s = docs_of (disj_hits_via permuted hits sc) (stands_for s)"
  by (simp add: docs_of_def heap_hits_def)

definition heap_upfrom :: "'s heap_disj \<Rightarrow> nat \<Rightarrow> bool" where
  "heap_upfrom s = disj_upfrom (stands_for s)"

definition heap_live :: "'s heap_disj \<Rightarrow> nat \<Rightarrow> bool" where
  "heap_live s = disj_live (stands_for s)"

lemma heap_loop_contract:
  assumes inv: "heap_inv s" and kept: "disj_kept (stands_for s0) (stands_for s)" and p: "heap_upfrom s p" and live: "P \<Longrightarrow> heap_live s p"
  shows "\<exists>r. heap_loop nxt sc s = Some r \<and> (\<forall>m s'. r = Inr (m, s') \<longrightarrow>
      heap_inv s' \<and> heap_hits sc s' = heap_hits sc s0 \<and> heap_exact sc s' = heap_exact sc s0 \<and>
      (\<forall>d. m = Some d \<longrightarrow> heap_hits sc s0 d \<and> p \<le> Number d \<and> heap_upfrom s' (Suc (Number d))) \<and>
      (P \<longrightarrow> first_hit (docs_of (heap_hits sc) s0) p m \<and>
         (\<forall>d. m = Some d \<longrightarrow> heap_exact sc s0 d \<and> heap_live s' (Suc (Number d)))))"
proof -
  have init: "hd_initialized s" using kept by (simp add: disj_kept_def)
  obtain B where B: "disj_bound (stands_for s) B" using disj_kept_bound [OF kept] by blast
  obtain r where r: "heap_loop nxt sc s = Some r" "\<forall>m s'. r = Inr (m, s') \<longrightarrow> heap_post sc s m s'"
    using heap_loop_ok [OF inv init B, where sc = sc] by blast
  note c = disj_post_contract [OF kept p [unfolded heap_upfrom_def], of permuted sc]
  show ?thesis
    unfolding heap_hits_def heap_exact_def heap_upfrom_def heap_live_def docs_heap
    using r c live unfolding heap_post_def heap_live_def by (intro exI [of _ r] conjI r(1) allI impI) blast+
qed

lemma heap_advance_step:
  assumes inv: "heap_inv s" and init: "hd_initialized s"
  defines "s0 \<equiv> (fold push_curr (hd_matchingCurrs s) s)\<lparr>hd_matching := [], hd_matchingCurrs := []\<rparr>"
  shows "\<exists>r. heap_advance_loop adv s0 n = Some r \<and> (\<forall>s'. r = Inr s' \<longrightarrow>
    (\<exists>t. disj_stepped n (stands_for s) t \<and>
      heap_inv (heap_update_matches ((fold push_curr (hd_matchingCurrs s') s')\<lparr>hd_matchingCurrs := []\<rparr>)) \<and>
      stands_for (heap_update_matches ((fold push_curr (hd_matchingCurrs s') s')\<lparr>hd_matchingCurrs := []\<rparr>)) = update_matches t))"
proof -
  let ?S = "stands_for s" and ?all = "hd_matchingCurrs s @ hd_heap s" and ?n = "length (hd_searchers s)"
  have split: "cells_split s" and di: "disj_inv ?S" using inv init by (simp_all add: heap_inv_def)
  have cells: "cells_ok ?n ?all" "cell_heap (hd_heap s)" "cells_set (hd_matchingCurrs s)"
    using split by (simp_all add: cells_split_def)
  obtain h where h: "fold push_curr (hd_matchingCurrs s) s = s\<lparr>hd_heap := h\<rparr>" "cell_heap h" "mset h = mset ?all"
    using push_all_ok [OF cells(2,3)] by blast
  have s0: "s0 = s\<lparr>hd_heap := h, hd_matching := [], hd_matchingCurrs := []\<rparr>" by (simp add: s0_def h(1))
  have okh: "cells_ok ?n h" using cells(1) cells_ok_perm [OF h(3)] by simp
  have sl: "slice_of s0 h = slice_of s ?all"
    using slice_of_perm [OF cells(1) h(3) [symmetric]] by (simp add: slice_of_def s0)
  have lenS: "length (dj_currs ?S) = length (dj_searchers ?S)" and initS: "dj_initialized ?S" using init by simp_all
  have st: "standing (hd_searchers s ! i) (dj_currs ?S ! i)" if "i < ?n" for i
    using di initS that by (simp add: disj_inv_def disj_standing_def)
  have at: "curr_at h i = dj_currs ?S ! i" if "i < ?n" for i
    using curr_at_perm [OF cells(1) h(3) [symmetric]] that by (simp add: stands_for_def)
  have "\<forall>x\<in>set (hd_heap s0). curr_number x < n \<longrightarrow>
      next_ready (\<lambda>c. adv c n) (child_step n) (hd_searchers s0 ! sc_searcher x) (sc_curr x)"
  proof (intro ballI impI)
    fix x assume x: "x \<in> set (hd_heap s0)" "curr_number x < n"
    then have xh: "x \<in> set h" "sc_searcher x < ?n" using okh by (simp_all add: s0 cells_ok_def)
    then have "curr_at h (sc_searcher x) = sc_curr x" using curr_at_in okh by (simp add: cells_ok_def)
    then have sx: "standing (hd_searchers s ! sc_searcher x) (sc_curr x)" using st at xh(2) by metis
    moreover have "\<forall>c. sc_curr x = Some c \<longrightarrow> Number c < n" using x(2) by (auto simp: curr_number_def)
    moreover have "inv (hd_searchers s ! sc_searcher x)" using sx by (simp add: standing_def)
    ultimately show "next_ready (\<lambda>c. adv c n) (child_step n) (hd_searchers s0 ! sc_searcher x) (sc_curr x)"
      unfolding next_ready_def s0 using adv_total child_step_advance by simp metis
  qed
  then have "\<exists>r. heap_advance_loop adv s0 n = Some r \<and> (\<forall>s'. r = Inr s' \<longrightarrow> heap_advanced (child_step n) n s0 s')"
    using heap_advance_loop_ok [of s0 n adv "child_step n"] okh h(2) by (simp add: s0 cells_set_def)
  moreover have "\<exists>t. disj_stepped n ?S t \<and>
      heap_inv (heap_update_matches ((fold push_curr (hd_matchingCurrs s') s')\<lparr>hd_matchingCurrs := []\<rparr>)) \<and>
      stands_for (heap_update_matches ((fold push_curr (hd_matchingCurrs s') s')\<lparr>hd_matchingCurrs := []\<rparr>)) = update_matches t"
    if adv: "heap_advanced (child_step n) n s0 s'" for s'
  proof -
    let ?all' = "hd_matchingCurrs s' @ hd_heap s'"
    let ?t = "slice_of s' ?all'"
    obtain xs where xs: "sc_searcher ` set (hd_matchingCurrs s') \<subseteq> set xs" "disj_moves (child_step n) ?S xs ?t"
      using adv unfolding heap_advanced_def disj_moves_from s0 sl [unfolded s0, symmetric] by auto
    have len': "length (hd_searchers s') = ?n" using xs(2) by (simp add: disj_moves_def disj_frame_def)
    have ok': "cells_ok ?n ?all'" "cell_heap (hd_heap s')" "cells_set (hd_matchingCurrs s')" "\<forall>x\<in>set (hd_heap s'). n \<le> curr_number x"
      using adv by (simp_all add: heap_advanced_def s0)
    have stp: "disj_stepped n ?S ?t"
      unfolding disj_stepped_def
    proof (intro conjI allI impI)
      show "disj_frame ?S ?t" using xs(2) by (simp add: disj_moves_def)
      fix i assume "i < length (dj_searchers ?S)"
      then have i: "i < ?n" by simp
      show "child_step n (dj_searchers ?S ! i) (dj_currs ?S ! i) (dj_searchers ?t ! i) (dj_currs ?t ! i)"
      proof (cases "i \<in> set xs")
        case True
        then show ?thesis using xs(2) by (simp add: disj_moves_def)
      next
        case False
        then have same: "dj_searchers ?t ! i = dj_searchers ?S ! i" "dj_currs ?t ! i = dj_currs ?S ! i"
          using xs(2) by (simp_all add: disj_moves_def)
        have "n \<le> Number d" if d: "dj_currs ?S ! i = Some d" for d
        proof -
          have "curr_at ?all' i = Some d" using same(2) d i len' by simp
          then obtain x where x: "x \<in> set ?all'" "sc_searcher x = i" "sc_curr x = Some d"
            using curr_at_Some ok'(1) unfolding cells_ok_def by metis
          then have "x \<in> set (hd_heap s')" using False xs(1) by auto
          then show ?thesis using ok'(4) x(3) by (auto simp: curr_number_def)
        qed
        then show ?thesis unfolding same using st i by (intro child_step_stay) simp_all
      qed
    qed
    obtain h' where h': "fold push_curr (hd_matchingCurrs s') s' = s'\<lparr>hd_heap := h'\<rparr>" "cell_heap h'" "mset h' = mset ?all'"
      using push_all_ok [OF ok'(2,3)] by blast
    let ?s = "s'\<lparr>hd_heap := h', hd_matchingCurrs := []\<rparr>"
    have oks: "cells_ok (length (hd_searchers ?s)) (hd_heap ?s)" "cell_heap (hd_heap ?s)"
      using ok'(1) h'(2) cells_ok_perm [OF h'(3)] len' by simp_all
    note u = heap_update_ok [OF oks]
    have "slice_of ?s (hd_heap ?s) = ?t"
      using slice_of_perm [OF ok'(1) h'(3) [symmetric], of s'] by (simp add: slice_of_def)
    then have sf: "stands_for (heap_update_matches ?s) = update_matches ?t" using u(2) by simp
    have "disj_inv (update_matches ?t)" "dj_initialized (update_matches ?t)"
      using disj_stepped_ok(1) [OF stp lenS initS] by (simp_all add: disj_kept_def)
    then have "hd_initialized (heap_update_matches ?s)" using sf stands_for_simps(4) by metis
    then have "heap_inv (heap_update_matches ?s)"
      using u(1) \<open>disj_inv (update_matches ?t)\<close> unfolding heap_inv_def sf by simp
    then show ?thesis using stp sf unfolding h'(1) by (intro exI [of _ ?t]) simp
  qed
  ultimately show ?thesis by blast
qed

lemma heap_disjunction_searcher:
  "searcher (heap_next nxt sc) (heap_advance nxt adv sc) heap_inv (heap_hits sc) (heap_exact sc) heap_upfrom heap_live"
proof
  note defs = heap_inv_def heap_upfrom_def heap_live_def docs_heap
  fix s assume inv: "heap_inv s"
  then have di: "disj_inv (stands_for s)" by (simp add: heap_inv_def)
  have ci: "\<forall>c\<in>set (hd_searchers s). inv c"
    using di by (auto simp: disj_inv_def disj_standing_def standing_def in_set_conv_nth split: if_splits)
  have "docs_of (heap_hits sc) s = docs_of (disj_hits hits sc) (stands_for s)"
    unfolding docs_heap set_eq_iff docs_disj [OF reorderings(1)] docs_disj [OF reorderings(2)] by simp
  moreover have "finite (docs_of (disj_hits hits sc) (stands_for s))"
    by (rule searcher.searcher_finite [OF disjunction_searcher di])
  ultimately show "finite (docs_of (heap_hits sc) s)" by simp
  show "heap_upfrom s 0" unfolding heap_upfrom_def by (rule searcher.searcher_from_0 [OF disjunction_searcher di])
next
  fix s b assume "heap_live s b"
  then show "heap_upfrom s b" unfolding heap_live_def heap_upfrom_def by (rule disj_live_upfrom)
next
  fix s p assume inv: "heap_inv s" and p: "heap_upfrom s p"
  obtain r where r: "(if hd_initialized s then Some (Inr s) else heap_init nxt s) = Some r"
    "\<forall>s'. r = Inr s' \<longrightarrow> heap_inv s' \<and> disj_kept (stands_for s) (stands_for s') \<and>
      (\<forall>p. disj_upfrom (stands_for s) p \<longrightarrow> disj_upfrom (stands_for s') p) \<and>
      (\<forall>b. disj_live (stands_for s) b \<longrightarrow> disj_live (stands_for s') b)"
    using heap_prepared [OF inv] by blast
  show "\<exists>r. heap_next nxt sc s = Some r \<and> (\<forall>m s'. r = Inr (m, s') \<longrightarrow>
        heap_inv s' \<and> heap_hits sc s' = heap_hits sc s \<and> heap_exact sc s' = heap_exact sc s \<and>
        (\<forall>d. m = Some d \<longrightarrow> heap_hits sc s d \<and> p \<le> Number d \<and> heap_upfrom s' (Suc (Number d))) \<and>
        (heap_live s p \<longrightarrow> first_hit (docs_of (heap_hits sc) s) p m \<and>
          (\<forall>d. m = Some d \<longrightarrow> heap_exact sc s d \<and> heap_live s' (Suc (Number d)))))"
  proof (cases r)
    case (Inl e)
    then show ?thesis using r(1) by (simp add: heap_next_def)
  next
    case (Inr s1)
    then have eq: "heap_next nxt sc s = heap_loop nxt sc s1" using r(1) by (simp add: heap_next_def)
    have k: "heap_inv s1" "disj_kept (stands_for s) (stands_for s1)" "heap_upfrom s1 p" "heap_live s p \<longrightarrow> heap_live s1 p"
      using r(2) Inr p unfolding heap_upfrom_def heap_live_def by blast+
    show ?thesis unfolding eq using k(4) by (intro heap_loop_contract k(1-3)) blast
  qed
next
  fix s n assume inv: "heap_inv s"
  obtain r where r: "(if hd_initialized s then Some (Inr s) else heap_init nxt s) = Some r"
    "\<forall>s'. r = Inr s' \<longrightarrow> heap_inv s' \<and> disj_kept (stands_for s) (stands_for s') \<and>
      (\<forall>p. disj_upfrom (stands_for s) p \<longrightarrow> disj_upfrom (stands_for s') p) \<and>
      (\<forall>b. disj_live (stands_for s) b \<longrightarrow> disj_live (stands_for s') b)"
    using heap_prepared [OF inv] by blast
  show "\<exists>r. heap_advance nxt adv sc s n = Some r \<and> (\<forall>m s'. r = Inr (m, s') \<longrightarrow>
        heap_inv s' \<and> heap_hits sc s' = heap_hits sc s \<and> heap_exact sc s' = heap_exact sc s \<and>
        (\<forall>d. m = Some d \<longrightarrow> heap_hits sc s d \<and> n \<le> Number d \<and> heap_upfrom s' (Suc (Number d))) \<and>
        ((\<exists>b\<le>n. heap_live s b) \<longrightarrow> first_hit (docs_of (heap_hits sc) s) n m \<and>
          (\<forall>d. m = Some d \<longrightarrow> heap_exact sc s d \<and> heap_live s' (Suc (Number d)))))"
  proof (cases r)
    case (Inl e)
    then show ?thesis using r(1) by (simp add: heap_advance_def)
  next
    case (Inr s1)
    then have k: "heap_inv s1" "disj_kept (stands_for s) (stands_for s1)"
      and lv: "\<forall>b. heap_live s b \<longrightarrow> heap_live s1 b" using r(2) unfolding heap_live_def by blast+
    have i1: "hd_initialized s1" using k(2) by (simp add: disj_kept_def)
    let ?s0 = "(fold push_curr (hd_matchingCurrs s1) s1)\<lparr>hd_matching := [], hd_matchingCurrs := []\<rparr>"
    let ?next = "\<lambda>s'. heap_update_matches ((fold push_curr (hd_matchingCurrs s') s')\<lparr>hd_matchingCurrs := []\<rparr>)"
    obtain r2 where r2: "heap_advance_loop adv ?s0 n = Some r2"
      "\<forall>s'. r2 = Inr s' \<longrightarrow> (\<exists>t. disj_stepped n (stands_for s1) t \<and> heap_inv (?next s') \<and> stands_for (?next s') = update_matches t)"
      using heap_advance_step [OF k(1) i1] by blast
    have eq: "heap_advance nxt adv sc s n = bindr (Some r2) (\<lambda>s'. heap_next nxt sc (?next s'))"
      unfolding heap_advance_def r(1) Inr Let_def bindr_simps r2(1) ..
    show ?thesis
    proof (cases r2)
      case (Inl e)
      then show ?thesis unfolding eq by simp
    next
      case (Inr s2)
      then obtain t where t: "disj_stepped n (stands_for s1) t" "heap_inv (?next s2)" "stands_for (?next s2) = update_matches t"
        using r2(2) by blast
      have lenS: "length (dj_currs (stands_for s1)) = length (dj_searchers (stands_for s1))" and initS: "dj_initialized (stands_for s1)"
        using i1 by simp_all
      note ok = disj_stepped_ok [OF t(1) lenS initS, folded t(3)]
      have k2: "disj_kept (stands_for s) (stands_for (?next s2))" using disj_kept_trans [OF k(2) ok(1)] .
      then have "hd_initialized (?next s2)" using stands_for_simps(4) unfolding disj_kept_def by blast
      then have eq': "heap_advance nxt adv sc s n = heap_loop nxt sc (?next s2)"
        unfolding eq Inr by (simp add: heap_next_def)
      have live: "\<exists>b\<le>n. heap_live s b \<Longrightarrow> heap_live (?next s2) n"
        using ok(3) lv unfolding heap_live_def by blast
      have up: "heap_upfrom (?next s2) n" unfolding heap_upfrom_def by (rule ok(2))
      show ?thesis unfolding eq' by (rule heap_loop_contract [OF t(2) k2 up live])
    qed
  qed
qed

end

lemma new_disjunction_heap_ok:
  assumes s: "searcher nxt adv cinv hits exact upfrom live" and ss: "\<forall>c\<in>set ss. cinv c \<and> live c 0"
  shows "searcher.heap_inv cinv hits upfrom (new_disjunction_heap ss k)"
    "searcher.heap_live hits exact upfrom live (new_disjunction_heap ss k) 0"
    "docs_of (searcher.heap_hits hits sc) (new_disjunction_heap ss k) =
      {j. 1 \<le> match_count hits ss j \<and> k \<le> int (match_count hits ss j)}"
  using ss
  by (auto simp: searcher.heap_inv_def [OF s] searcher.heap_live_def [OF s] searcher.disj_inv_def [OF s]
      searcher.disj_live_def [OF s] searcher.docs_heap [OF s] docs_disj [OF reorderings(2)] new_disjunction_heap_def
      stands_for_def slice_of_def update_matches_eq)

end
