(* ===== verification/Composite_Runs.thy ===== *)
theory Composite_Runs
  imports Snapshot_Postings Disjunction_Heap
begin

text \<open>
  The composite searchers over any children that keep the contract of \<open>Searcher\<close>, and the
  chain from a postings iterator to a whole query: the interpretations on the model's own
  iterators, and what running a conjunction, a disjunction or a filter returns.
\<close>

section \<open>Interpretations\<close>

interpretation one_hit_snapshot: postings_iterator
  "snap_next one_hit_next" "snap_advance one_hit_next one_hit_advance"
  one_hit.snap_inv one_hit.snap_postings one_hit.snap_upfrom one_hit.snap_live
  by (rule one_hit.snapshot_iterator)

interpretation one_hit_term: searcher
  "term_next (snap_next one_hit_next) (term_build opt)"
  "term_advance (snap_advance one_hit_next one_hit_advance) (term_build opt)"
  one_hit.snap_inv "one_hit_snapshot.term_hits (term_build opt)" "one_hit_snapshot.term_hits (term_build opt)"
  one_hit.snap_upfrom one_hit.snap_live
  for opt
  by (rule one_hit_snapshot.term_searcher) simp

interpretation one_hit_all: searcher
  "term_next (snap_next one_hit_next) (match_all_build opt)"
  "term_advance (snap_advance one_hit_next one_hit_advance) (match_all_build opt)"
  one_hit.snap_inv "one_hit_snapshot.term_hits (match_all_build opt)" "one_hit_snapshot.term_hits (match_all_build opt)"
  one_hit.snap_upfrom one_hit.snap_live
  for opt
  by (rule one_hit_snapshot.term_searcher) simp

section \<open>Runs\<close>

lemma from_on_0: "from_on D 0 = sorted_list_of_set D"
  by (simp add: from_on_def)

lemma new_conjunction_ok:
  assumes s: "searcher nxt adv cinv hits exact upfrom live" and ss: "ss \<noteq> []" "\<forall>c\<in>set ss. cinv c \<and> live c 0"
  shows "searcher.conj_inv cinv hits upfrom (new_conjunction ss)" "searcher.conj_live hits exact upfrom live (new_conjunction ss) 0"
    "docs_of (conj_hits hits sc) (new_conjunction ss) = \<Inter> (docs_of hits ` set ss)"
  using ss by (simp_all add: searcher.conj_inv_def [OF s] searcher.conj_live_def [OF s] new_conjunction_def docs_conj)

lemma new_disjunction_ok:
  assumes s: "searcher nxt adv cinv hits exact upfrom live" and ss: "\<forall>c\<in>set ss. cinv c \<and> live c 0"
  shows "searcher.disj_inv cinv hits upfrom (new_disjunction_slice ss k)" "searcher.disj_live hits exact upfrom live (new_disjunction_slice ss k) 0"
    "docs_of (disj_hits hits sc) (new_disjunction_slice ss k) =
      {j. 1 \<le> match_count hits ss j \<and> k \<le> int (match_count hits ss j)}"
  using ss by (auto simp: searcher.disj_inv_def [OF s] searcher.disj_live_def [OF s] new_disjunction_slice_def docs_disj [OF reorderings(1)])

definition opt0 :: term_options where
  "opt0 = \<lparr>to_explain = False, to_includeTermVectors = False, to_explanation = (\<lambda>_. 0), to_score = (\<lambda>_. 0), to_queryTerm = ''a''\<rparr>"

definition child_a :: "nat snap_iter" where "child_a = new_snap_iter [0, 10] [1, 2]"
definition child_b :: "nat snap_iter" where "child_b = new_snap_iter [0, 10] [5, 2]"
definition composite0 :: composite where
  "composite0 = \<lparr>opt_explain = False, explain_composite = (\<lambda>_. 0), score_composite = (\<lambda>_. 0)\<rparr>"

lemma one_hit_left_small: "n < 100 \<Longrightarrow> one_hit_left n = [unadorned_posting n]"
  by (simp add: one_hit_left_def docNum1HitFinished_def)

lemma two_segments:
  assumes "a < 10" "b < 100"
  shows "one_hit.snap_inv (new_snap_iter [0, 10] [a, b]) \<and> one_hit.snap_live (new_snap_iter [0, 10] [a, b]) 0"
    "docs_of (one_hit_snapshot.term_hits (term_build opt0)) (new_snap_iter [0, 10] [a, b]) = {a, 10 + b}"
proof -
  have ab: "one_hit_left a = [unadorned_posting a]" "one_hit_left b = [unadorned_posting b]"
    using assms by (simp_all add: one_hit_left_small)
  show "one_hit.snap_inv (new_snap_iter [0, 10] [a, b]) \<and> one_hit.snap_live (new_snap_iter [0, 10] [a, b]) 0"
    by (intro conjI one_hit.snap_new) (use assms ab in \<open>auto simp: less_2_cases_iff numeral_2_eq_2 less_Suc_eq unadorned_posting_def\<close>)
  show "docs_of (one_hit_snapshot.term_hits (term_build opt0)) (new_snap_iter [0, 10] [a, b]) = {a, 10 + b}"
    by (simp add: one_hit_snapshot.term_docs one_hit.snap_postings_def new_snap_iter_def global_def ab unadorned_posting_def add.commute)
qed

lemma children_ok:
  "\<forall>c\<in>set [child_a, child_b]. one_hit.snap_inv c \<and> one_hit.snap_live c 0"
  "docs_of (one_hit_snapshot.term_hits (term_build opt0)) child_a = {1, 12}"
  "docs_of (one_hit_snapshot.term_hits (term_build opt0)) child_b = {5, 12}"
  using two_segments [of 1 2] two_segments [of 5 2] by (simp_all add: child_a_def child_b_def)

text \<open>
  C22: A conjunction of children that keep the searcher contract terminates and returns, in
  ascending order and once each, exactly the documents that every child has; each match is built
  from one match per child. An error of a child ends the run after a first part of them.
\<close>

theorem conjunction_run:
  assumes "searcher nxt adv cinv hits exact upfrom live" and "ss \<noteq> []" and "\<forall>c\<in>set ss. cinv c \<and> live c 0"
  shows "\<exists>ds out. run (conj_next nxt adv sc) (new_conjunction ss) ds out \<and>
    (\<forall>d\<in>set ds. conj_hits exact sc (new_conjunction ss) d) \<and>
    map Number ds = take (length ds) (sorted_list_of_set (\<Inter> (docs_of hits ` set ss))) \<and>
    (out = None \<longrightarrow> map Number ds = sorted_list_of_set (\<Inter> (docs_of hits ` set ss)))"
  using searcher.searcher_run [OF searcher.conjunction_searcher [OF assms(1)] new_conjunction_ok(1,2) [OF assms], of sc]
  by (simp add: new_conjunction_ok(3) [OF assms] from_on_0)

theorem conjunction_run_witness:
  "\<exists>ds out. run (conj_next (term_next (snap_next one_hit_next) (term_build opt0))
        (term_advance (snap_advance one_hit_next one_hit_advance) (term_build opt0)) composite0)
      (new_conjunction [child_a, child_b]) ds (out :: unit snap_error option) \<and> (out = None \<longrightarrow> map Number ds = [12])"
proof -
  have "\<Inter> (docs_of (one_hit_snapshot.term_hits (term_build opt0)) ` set [child_a, child_b]) = {12}"
    by (simp add: children_ok(2,3))
  then have sorted: "sorted_list_of_set (\<Inter> (docs_of (one_hit_snapshot.term_hits (term_build opt0)) ` set [child_a, child_b])) = [12]"
    by simp
  have ne: "[child_a, child_b] \<noteq> []" by simp
  show ?thesis
    using conjunction_run [OF one_hit_term.searcher_axioms [of opt0] ne children_ok(1), where sc = composite0]
    unfolding sorted by (elim exE conjE) (intro exI conjI)
qed

text \<open>
  Advancing a conjunction of such children to a number returns the first document at or
  above it that every child has, and nil when there is none.
\<close>

theorem conjunction_advance_first:
  assumes "searcher nxt adv cinv hits exact upfrom live" and "ss \<noteq> []" and "\<forall>c\<in>set ss. cinv c \<and> live c 0"
  shows "\<exists>r. conj_advance nxt adv sc (new_conjunction ss) n = Some r \<and>
    (\<forall>m s. r = Inr (m, s) \<longrightarrow> (\<forall>d. m = Some d \<longrightarrow> conj_hits exact sc (new_conjunction ss) d) \<and>
       map_option Number m = (case from_on (\<Inter> (docs_of hits ` set ss)) n of [] \<Rightarrow> None | j # _ \<Rightarrow> Some j))"
  using searcher.live_advance [OF searcher.conjunction_searcher [OF assms(1)] new_conjunction_ok(1,2) [OF assms] le0, of sc n]
  unfolding new_conjunction_ok(3) [OF assms] .

theorem conjunction_advance_first_witness:
  "\<exists>r. conj_advance (term_next (snap_next one_hit_next) (term_build opt0))
        (term_advance (snap_advance one_hit_next one_hit_advance) (term_build opt0)) composite0
      (new_conjunction [child_a, child_b]) 3 = Some r \<and>
    (\<forall>m s. r = Inr (m, s) \<longrightarrow> map_option Number m = Some 12)"
proof -
  have "\<Inter> (docs_of (one_hit_snapshot.term_hits (term_build opt0)) ` set [child_a, child_b]) = {12}"
    by (simp add: children_ok(2,3))
  then have from_on: "from_on (\<Inter> (docs_of (one_hit_snapshot.term_hits (term_build opt0)) ` set [child_a, child_b])) 3 = [12]"
    by (simp add: from_on_def Collect_conv_if)
  have ne: "[child_a, child_b] \<noteq> []" by simp
  show ?thesis
    using conjunction_advance_first [OF one_hit_term.searcher_axioms [of opt0] ne children_ok(1), where sc = composite0 and n = 3]
    unfolding from_on list.case by blast
qed

text \<open>
  C23: A slice disjunction of such children terminates and returns, in ascending order and once
  each, exactly the documents that at least \<open>min\<close> of them (and at least one) have; each match is
  built from a match of every child that has the document.
\<close>

theorem disjunction_run:
  assumes "searcher nxt adv cinv hits exact upfrom live" and "\<forall>c\<in>set ss. cinv c \<and> live c 0"
  shows "\<exists>ds out. run (disj_next nxt sc) (new_disjunction_slice ss k) ds out \<and>
    (\<forall>d\<in>set ds. disj_exact hits exact sc (new_disjunction_slice ss k) d) \<and>
    map Number ds = take (length ds) (sorted_list_of_set {j. 1 \<le> match_count hits ss j \<and> k \<le> int (match_count hits ss j)}) \<and>
    (out = None \<longrightarrow> map Number ds = sorted_list_of_set {j. 1 \<le> match_count hits ss j \<and> k \<le> int (match_count hits ss j)})"
  using searcher.searcher_run [OF searcher.disjunction_searcher [OF assms(1)] new_disjunction_ok(1,2) [OF assms], of sc]
  unfolding new_disjunction_ok(3) [OF assms] from_on_0 .

theorem disjunction_run_witness:
  "\<exists>ds out. run (disj_next (term_next (snap_next one_hit_next) (term_build opt0)) composite0)
      (new_disjunction_slice [child_a, child_b] 1) ds (out :: unit snap_error option) \<and> (out = None \<longrightarrow> map Number ds = [1, 5, 12])"
proof -
  have "{j. 1 \<le> match_count (one_hit_snapshot.term_hits (term_build opt0)) [child_a, child_b] j \<and>
      1 \<le> int (match_count (one_hit_snapshot.term_hits (term_build opt0)) [child_a, child_b] j)} = {1, 5, 12}"
    by (auto simp: match_count_def children_ok(2,3))
  then have sorted: "sorted_list_of_set {j. 1 \<le> match_count (one_hit_snapshot.term_hits (term_build opt0)) [child_a, child_b] j \<and>
      1 \<le> int (match_count (one_hit_snapshot.term_hits (term_build opt0)) [child_a, child_b] j)} = [1, 5, 12]"
    by simp
  show ?thesis
    using disjunction_run [OF one_hit_term.searcher_axioms [of opt0] children_ok(1), where sc = composite0 and k = 1]
    unfolding sorted by (elim exE conjE) (intro exI conjI)
qed

text \<open>
  C24: The heap disjunction returns the same documents as the slice disjunction: in ascending order
  and once each, those that at least \<open>min\<close> children (and at least one) have; each match is built
  from one match of every child that has the document, in some order.
\<close>

theorem heap_disjunction_run:
  assumes "searcher nxt adv cinv hits exact upfrom live" and "\<forall>c\<in>set ss. cinv c \<and> live c 0"
  shows "\<exists>ds out. run (heap_next nxt sc) (new_disjunction_heap ss k) ds out \<and>
    (\<forall>d\<in>set ds. disj_exact_via permuted hits exact sc (new_disjunction_slice ss k) d) \<and>
    map Number ds = take (length ds) (sorted_list_of_set {j. 1 \<le> match_count hits ss j \<and> k \<le> int (match_count hits ss j)}) \<and>
    (out = None \<longrightarrow> map Number ds = sorted_list_of_set {j. 1 \<le> match_count hits ss j \<and> k \<le> int (match_count hits ss j)})"
proof -
  have eq: "searcher.heap_exact hits exact sc (new_disjunction_heap ss k) = disj_exact_via permuted hits exact sc (new_disjunction_slice ss k)"
    by (simp add: searcher.heap_exact_def [OF assms(1)] disj_exact_via_def fun_eq_iff new_disjunction_heap_def new_disjunction_slice_def)
  show ?thesis
    using searcher.searcher_run [OF searcher.heap_disjunction_searcher [OF assms(1)] new_disjunction_heap_ok(1,2) [OF assms, of k], of sc]
    unfolding eq new_disjunction_heap_ok(3) [OF assms] from_on_0 .
qed

theorem heap_disjunction_run_witness:
  "\<exists>ds out. run (heap_next (term_next (snap_next one_hit_next) (term_build opt0)) composite0)
      (new_disjunction_heap [child_a, child_b] 2) ds (out :: unit snap_error option) \<and> (out = None \<longrightarrow> map Number ds = [12])"
proof -
  have "{j. 1 \<le> match_count (one_hit_snapshot.term_hits (term_build opt0)) [child_a, child_b] j \<and>
      2 \<le> int (match_count (one_hit_snapshot.term_hits (term_build opt0)) [child_a, child_b] j)} = {12}"
    by (auto simp: match_count_def children_ok(2,3))
  then have sorted: "sorted_list_of_set {j. 1 \<le> match_count (one_hit_snapshot.term_hits (term_build opt0)) [child_a, child_b] j \<and>
      2 \<le> int (match_count (one_hit_snapshot.term_hits (term_build opt0)) [child_a, child_b] j)} = [12]"
    by simp
  show ?thesis
    using heap_disjunction_run [OF one_hit_term.searcher_axioms [of opt0] children_ok(1), where sc = composite0 and k = 2]
    unfolding sorted by (elim exE conjE) (intro exI conjI)
qed

text \<open>
  C27: A disjunction keeps the searcher contract, so disjunctions can be the children of a
  conjunction: the query returns exactly the documents that enough children of every disjunction have.
\<close>

theorem conjunction_of_disjunctions_run:
  assumes "searcher nxt adv cinv hits exact upfrom live" and "css \<noteq> []"
    and "\<forall>cs\<in>set css. \<forall>c\<in>set cs. cinv c \<and> live c 0"
  shows "\<exists>ds out. run (conj_next (disj_next nxt sc) (disj_advance nxt adv sc) sc)
      (new_conjunction (map (\<lambda>cs. new_disjunction_slice cs 1) css)) ds out \<and>
    (out = None \<longrightarrow> set (map Number ds) = {j. \<forall>cs\<in>set css. \<exists>c\<in>set cs. j \<in> docs_of hits c})"
proof -
  let ?ss = "map (\<lambda>cs. new_disjunction_slice cs 1) css"
  note disj = searcher.disjunction_searcher [OF assms(1), of sc]
  have ss: "?ss \<noteq> []" "\<forall>c\<in>set ?ss. searcher.disj_inv cinv hits upfrom c \<and> searcher.disj_live hits exact upfrom live c 0"
    using assms new_disjunction_ok(1,2) [OF assms(1)] by auto
  have eq: "1 \<le> match_count hits cs j \<longleftrightarrow> (\<exists>c\<in>set cs. j \<in> docs_of hits c)" for cs j
    by (auto simp: match_count_def Suc_le_eq filter_empty_conv)
  have "docs_of (disj_hits hits sc) (new_disjunction_slice cs 1) = {j. \<exists>c\<in>set cs. j \<in> docs_of hits c}" for cs
    by (auto simp: docs_disj [OF reorderings(1)] new_disjunction_slice_def eq [symmetric])
  then have docs: "\<Inter> (docs_of (disj_hits hits sc) ` set ?ss) = {j. \<forall>cs\<in>set css. \<exists>c\<in>set cs. j \<in> docs_of hits c}" by auto
  obtain c where "c \<in> set ?ss" using ss(1) by (cases ?ss) auto
  then have "searcher.disj_inv cinv hits upfrom c" using ss(2) by blast
  moreover have sub: "\<Inter> (docs_of (disj_hits hits sc) ` set ?ss) \<subseteq> docs_of (disj_hits hits sc) c"
    using \<open>c \<in> set ?ss\<close> by (rule INF_lower)
  ultimately have "finite (docs_of (disj_hits hits sc) c)" by (intro searcher.searcher_finite [OF disj]) simp_all
  with sub have fin: "finite {j. \<forall>cs\<in>set css. \<exists>c\<in>set cs. j \<in> docs_of hits c}" unfolding docs by (rule finite_subset)
  obtain ds out where r: "run (conj_next (disj_next nxt sc) (disj_advance nxt adv sc) sc) (new_conjunction ?ss) ds out"
    "out = None \<longrightarrow> map Number ds = sorted_list_of_set {j. \<forall>cs\<in>set css. \<exists>c\<in>set cs. j \<in> docs_of hits c}"
    using searcher.searcher_run [OF searcher.conjunction_searcher [OF disj] new_conjunction_ok(1,2) [OF disj ss], of sc]
    unfolding new_conjunction_ok(3) [OF disj ss] from_on_0 docs by (elim exE conjE)
  show ?thesis
  proof (intro exI conjI impI)
    show "run (conj_next (disj_next nxt sc) (disj_advance nxt adv sc) sc) (new_conjunction ?ss) ds out" by (rule r(1))
    assume "out = None"
    with r(2) have eq: "map Number ds = sorted_list_of_set {j. \<forall>cs\<in>set css. \<exists>c\<in>set cs. j \<in> docs_of hits c}" by (rule mp)
    show "set (map Number ds) = {j. \<forall>cs\<in>set css. \<exists>c\<in>set cs. j \<in> docs_of hits c}"
      unfolding eq using fin by (rule set_sorted_list_of_set)
  qed
qed

theorem conjunction_of_disjunctions_run_witness:
  "\<exists>ds out. run (conj_next (disj_next (term_next (snap_next one_hit_next) (term_build opt0)) composite0)
        (disj_advance (term_next (snap_next one_hit_next) (term_build opt0))
          (term_advance (snap_advance one_hit_next one_hit_advance) (term_build opt0)) composite0) composite0)
      (new_conjunction (map (\<lambda>cs. new_disjunction_slice cs 1) [[child_a, child_b], [child_b]])) ds (out :: unit snap_error option) \<and>
    (out = None \<longrightarrow> set (map Number ds) = {5, 12})"
proof -
  have docs: "{j. \<forall>cs\<in>set [[child_a, child_b], [child_b]]. \<exists>c\<in>set cs. j \<in> docs_of (one_hit_snapshot.term_hits (term_build opt0)) c} = {5, 12}"
    by (auto simp: children_ok(2,3))
  have ok: "[[child_a, child_b], [child_b]] \<noteq> []" "\<forall>cs\<in>set [[child_a, child_b], [child_b]]. \<forall>c\<in>set cs. one_hit.snap_inv c \<and> one_hit.snap_live c 0"
    using children_ok(1) by simp_all
  show ?thesis
    using conjunction_of_disjunctions_run [OF one_hit_term.searcher_axioms [of opt0] ok, where sc = composite0]
    unfolding docs .
qed

text \<open>
  Advancing a slice disjunction returns the first document at or above the number that enough
  of its children have, and nil when there is none.
\<close>

theorem disjunction_advance_first:
  assumes "searcher nxt adv cinv hits exact upfrom live" and "\<forall>c\<in>set ss. cinv c \<and> live c 0"
  shows "\<exists>r. disj_advance nxt adv sc (new_disjunction_slice ss k) n = Some r \<and>
    (\<forall>m s. r = Inr (m, s) \<longrightarrow> (\<forall>d. m = Some d \<longrightarrow> disj_exact hits exact sc (new_disjunction_slice ss k) d) \<and>
       map_option Number m =
         (case from_on {j. 1 \<le> match_count hits ss j \<and> k \<le> int (match_count hits ss j)} n of [] \<Rightarrow> None | j # _ \<Rightarrow> Some j))"
  using searcher.live_advance [OF searcher.disjunction_searcher [OF assms(1), of sc] new_disjunction_ok(1,2) [OF assms, of k] le0, of n]
  unfolding new_disjunction_ok(3) [OF assms] .

theorem disjunction_advance_first_witness:
  "\<exists>r. disj_advance (term_next (snap_next one_hit_next) (term_build opt0))
        (term_advance (snap_advance one_hit_next one_hit_advance) (term_build opt0)) composite0
      (new_disjunction_slice [child_a, child_b] 1) 3 = Some r \<and>
    (\<forall>m s. r = Inr (m, s) \<longrightarrow> map_option Number m = Some 5)"
proof -
  let ?D = "{j. 1 \<le> match_count (one_hit_snapshot.term_hits (term_build opt0)) [child_a, child_b] j \<and>
      1 \<le> int (match_count (one_hit_snapshot.term_hits (term_build opt0)) [child_a, child_b] j)}"
  have "{i \<in> ?D. 3 \<le> i} = {5, 12}" by (auto simp: match_count_def children_ok(2,3))
  then have from_on: "from_on ?D 3 = [5, 12]" unfolding from_on_def by simp
  show ?thesis
    using disjunction_advance_first [OF one_hit_term.searcher_axioms [of opt0] children_ok(1), where sc = composite0 and k = 1 and n = 3]
    unfolding from_on list.case by blast
qed

text \<open>
  A filter whose function looks at the document only returns, in ascending order, exactly
  the documents of its child that the function accepts.
\<close>

theorem filter_run:
  assumes "searcher nxt adv cinv hits exact upfrom live" and "cinv c" and "live c 0" and "by_document accept"
  shows "\<exists>ds out. run (filter_next nxt accept) c ds out \<and> (\<forall>d\<in>set ds. exact c d \<and> accept d) \<and>
    (out = None \<longrightarrow> map Number ds = sorted_list_of_set (docs_of (\<lambda>c d. hits c d \<and> accept d) c))"
proof -
  have eq: "accepted accept hits = (\<lambda>c d. hits c d \<and> accept d)" by (simp add: fun_eq_iff accepted_def)
  show ?thesis
    using searcher.searcher_run [OF searcher.filter_searcher [OF assms(1,4)] assms(2,3)]
    unfolding from_on_0 eq by (elim exE conjE) (intro exI conjI; (assumption | simp add: accepted_def)?)
qed

theorem filter_run_witness:
  "\<exists>ds out. run (filter_next (term_next (snap_next one_hit_next) (term_build opt0)) (\<lambda>d. 10 < Number d)) child_a ds
      (out :: unit snap_error option) \<and> (out = None \<longrightarrow> map Number ds = [12])"
proof -
  have "by_document (\<lambda>d. 10 < Number d)" by (simp add: by_document_def)
  note run = filter_run [OF one_hit_term.searcher_axioms [of opt0] _ _ this, of child_a]
  have "docs_of (\<lambda>c d. one_hit_snapshot.term_hits (term_build opt0) c d \<and> 10 < Number d) child_a =
      {j \<in> docs_of (one_hit_snapshot.term_hits (term_build opt0)) child_a. 10 < j}"
    by (auto simp: docs_of_def)
  also have "\<dots> = {12}" by (auto simp: children_ok(2))
  finally have "sorted_list_of_set (docs_of (\<lambda>c d. one_hit_snapshot.term_hits (term_build opt0) c d \<and> 10 < Number d) child_a) = [12]"
    by simp
  moreover have "one_hit.snap_inv child_a" "one_hit.snap_live child_a 0" using children_ok(1) by simp_all
  note run [OF this]
  ultimately show ?thesis by (elim exE conjE) (intro exI conjI; simp)
qed

text \<open>
  C26: The postings iterator of a snapshot, over segments whose offsets ascend past their document
  numbers, returns the postings of all segments in ascending order under their global numbers.
\<close>

theorem snapshot_postings_run:
  assumes "segment_iterator inext iadv iinv remaining" and "length offs = length its" and "sorted offs"
    and "\<forall>it\<in>set its. iinv it \<and> sorted_wrt (\<lambda>p q. PNumber p < PNumber q) (remaining it)"
    and "\<forall>j<length its. \<forall>k<j. \<forall>p\<in>set (remaining (its ! k)). PNumber p + offs ! k < offs ! j"
  shows "\<exists>ds out. run (term_next (snap_next inext) (term_build opt)) (new_snap_iter offs its) ds out \<and>
    (out = None \<longrightarrow> map Number ds =
       concat (map (\<lambda>k. map (\<lambda>p. PNumber p + offs ! k) (remaining (its ! k))) [0..<length its]))"
proof -
  let ?s = "new_snap_iter offs its"
  note si = segment_iterator.snapshot_iterator [OF assms(1)]
  have ok: "segment_iterator.snap_inv iinv remaining ?s" "segment_iterator.snap_live remaining ?s 0"
    using segment_iterator.snap_new [OF assms(1-3)] assms(4,5) by (metis less_trans nth_mem)+
  let ?ps = "segment_iterator.snap_postings remaining ?s"
  have "sorted_wrt (\<lambda>p q. PNumber p < PNumber q) ?ps" by (rule postings_iterator.ascending [OF si ok(1)])
  then have "sorted_wrt (<) (map PNumber ?ps)" by (simp add: sorted_wrt_map)
  then have "sorted_list_of_set (PNumber ` set ?ps) = map PNumber ?ps"
    unfolding set_map [symmetric] by (intro sorted_list_of_set.idem_if_sorted_distinct) (simp_all only: strict_sorted_iff)
  moreover have "map PNumber ?ps = concat (map (\<lambda>k. map (\<lambda>p. PNumber p + offs ! k) (remaining (its ! k))) [0..<length its])"
    by (simp add: segment_iterator.snap_postings_def [OF assms(1)] new_snap_iter_def global_def map_concat comp_def)
  ultimately have sorted: "sorted_list_of_set (PNumber ` set ?ps) =
      concat (map (\<lambda>k. map (\<lambda>p. PNumber p + offs ! k) (remaining (its ! k))) [0..<length its])"
    by (rule trans)
  show ?thesis
    using searcher.searcher_run [OF postings_iterator.term_searcher [OF si Number_term_build [of opt]] ok]
    unfolding from_on_0 postings_iterator.term_docs [OF si Number_term_build [of opt]] sorted by (elim exE conjE) (intro exI conjI)
qed

theorem snapshot_postings_run_witness:
  "\<exists>ds out. run (term_next (snap_next one_hit_next) (term_build opt0)) (new_snap_iter [0, 10] [1, 2]) ds (out :: unit snap_error option) \<and>
    (out = None \<longrightarrow> map Number ds = [1, 12])"
proof -
  have left: "one_hit_left (Suc 0) = [unadorned_posting 1]" "one_hit_left 2 = [unadorned_posting 2]"
    by (simp_all add: one_hit_left_small)
  have "\<exists>ds out. run (term_next (snap_next one_hit_next) (term_build opt0)) (new_snap_iter [0, 10] [1, 2]) ds (out :: unit snap_error option) \<and>
    (out = None \<longrightarrow> map Number ds =
      concat (map (\<lambda>k. map (\<lambda>p. PNumber p + [0, 10] ! k) (one_hit_left ([1, 2] ! k))) [0..<length [1, 2 :: nat]]))"
    by (rule snapshot_postings_run [OF one_hit.segment_iterator_axioms])
      (simp_all add: left less_Suc_eq unadorned_posting_def)
  then show ?thesis by (simp add: left unadorned_posting_def upt_rec)
qed

end
