(* ===== verification/Boolean_Searcher.thy ===== *)
theory Boolean_Searcher
  imports Disjunction
begin

text \<open>
  The boolean searcher (\<open>search_boolean.go\<close>): the documents of the must searcher (of the should
  searcher when there is none), without those of the must-not searcher, and with the should
  searcher's match as a second constituent. \<open>Next\<close> keeps its part of the contract; \<open>Advance\<close>
  does when there is no must searcher or no should searcher.
\<close>

section \<open>Operations\<close>

record 's bool_searcher =
  bl_must :: "'s option"
  bl_should :: "'s option"
  bl_mustNot :: "'s option"
  bl_currMust :: "document_match option"
  bl_currShould :: "document_match option"
  bl_currMustNot :: "document_match option"
  bl_currentMatch :: "document_match option"
  bl_initialized :: bool
  bl_done :: bool

definition new_boolean :: "'s option \<Rightarrow> 's option \<Rightarrow> 's option \<Rightarrow> 's bool_searcher" where
  "new_boolean must should mustNot =
     \<lparr>bl_must = must, bl_should = should, bl_mustNot = mustNot, bl_currMust = None, bl_currShould = None,
      bl_currMustNot = None, bl_currentMatch = None, bl_initialized = False, bl_done = False\<rparr>"

text \<open>The children move by a step \<open>f\<close>; a nil child stays.\<close>

definition move_must :: "('s \<Rightarrow> ('e, 's) step) \<Rightarrow> 's bool_searcher \<Rightarrow> ('e, 's bool_searcher) result option" where
  "move_must f s =
     (case bl_must s of
        None \<Rightarrow> Some (Inr s)
      | Some c \<Rightarrow> bindr (f c) (\<lambda>(m, c). Some (Inr (s\<lparr>bl_must := Some c, bl_currMust := m\<rparr>))))"

definition move_should :: "('s \<Rightarrow> ('e, 's) step) \<Rightarrow> 's bool_searcher \<Rightarrow> ('e, 's bool_searcher) result option" where
  "move_should f s =
     (case bl_should s of
        None \<Rightarrow> Some (Inr s)
      | Some c \<Rightarrow> bindr (f c) (\<lambda>(m, c). Some (Inr (s\<lparr>bl_should := Some c, bl_currShould := m\<rparr>))))"

definition move_mustNot :: "('s \<Rightarrow> ('e, 's) step) \<Rightarrow> 's bool_searcher \<Rightarrow> ('e, 's bool_searcher) result option" where
  "move_mustNot f s =
     (case bl_mustNot s of
        None \<Rightarrow> Some (Inr s)
      | Some c \<Rightarrow> bindr (f c) (\<lambda>(m, c). Some (Inr (s\<lparr>bl_mustNot := Some c, bl_currMustNot := m\<rparr>))))"

text \<open>The three tests that set \<open>currentMatch\<close>, at the end of every movement.\<close>

definition current_of :: "'s bool_searcher \<Rightarrow> document_match option" where
  "current_of s =
     (if bl_must s \<noteq> None \<and> bl_currMust s \<noteq> None then bl_currMust s
      else if bl_must s = None \<and> bl_currShould s \<noteq> None then bl_currShould s
      else None)"

definition set_current :: "'s bool_searcher \<Rightarrow> 's bool_searcher" where
  "set_current s = s\<lparr>bl_currentMatch := current_of s\<rparr>"

definition bool_init :: "('s \<Rightarrow> ('e, 's) step) \<Rightarrow> 's bool_searcher \<Rightarrow> ('e, 's bool_searcher) result option" where
  "bool_init nxt s =
     bindr (move_must nxt s) (\<lambda>s.
     bindr (move_should nxt s) (\<lambda>s.
     bindr (move_mustNot nxt s) (\<lambda>s.
       Some (Inr ((set_current s)\<lparr>bl_initialized := True\<rparr>)))))"

definition bool_advance_next_must :: "('s \<Rightarrow> ('e, 's) step) \<Rightarrow> 's bool_searcher \<Rightarrow> ('e, 's bool_searcher) result option" where
  "bool_advance_next_must nxt s =
     bindr (if bl_must s \<noteq> None then move_must nxt s else move_should nxt s) (\<lambda>s. Some (Inr (set_current s)))"

text \<open>Whether the must-not searcher has the document \<open>n\<close> of the candidate; then the candidate is passed.\<close>

definition bool_excludes ::
  "('s \<Rightarrow> ('e, 's) step) \<Rightarrow> ('s \<Rightarrow> nat \<Rightarrow> ('e, 's) step) \<Rightarrow> document_match \<Rightarrow> nat \<Rightarrow> 's bool_searcher \<Rightarrow> ('e, bool \<times> 's bool_searcher) result option" where
  "bool_excludes nxt adv x n s =
     (if Number x < n then
        bindr (move_mustNot (\<lambda>c. adv c n) s) (\<lambda>s.
          if map_option Number (bl_currMustNot s) = Some n
          then bindr (bool_advance_next_must nxt s) (\<lambda>s. Some (Inr (True, s)))
          else Some (Inr (False, s)))
      else if Number x = n then bindr (bool_advance_next_must nxt s) (\<lambda>s. Some (Inr (True, s)))
      else Some (Inr (False, s)))"

definition build_constituents :: "'s bool_searcher \<Rightarrow> document_match list" where
  "build_constituents s =
     (case bl_currMust s of None \<Rightarrow> [the (bl_currShould s)] | Some m \<Rightarrow> [m, the (bl_currShould s)])"

definition bool_found ::
  "('s \<Rightarrow> ('e, 's) step) \<Rightarrow> composite \<Rightarrow> document_match list \<Rightarrow> 's bool_searcher \<Rightarrow> ('e, 's bool_searcher) step" where
  "bool_found nxt sc cons s =
     bindr (bool_advance_next_must nxt s) (\<lambda>s. Some (Inr (Some (build_document_match sc cons), s)))"

definition bool_skip :: "('s \<Rightarrow> ('e, 's) step) \<Rightarrow> 's bool_searcher \<Rightarrow> ('e, 's bool_searcher) step" where
  "bool_skip nxt s = bindr (bool_advance_next_must nxt s) (\<lambda>s. Some (Inr (None, s)))"

text \<open>
  A candidate that is not excluded: it is a match when the should searcher has it too, or when it
  does not have to.
\<close>

definition bool_try ::
  "('s \<Rightarrow> ('e, 's) step) \<Rightarrow> ('s \<Rightarrow> nat \<Rightarrow> ('e, 's) step) \<Rightarrow> ('s \<Rightarrow> int) \<Rightarrow> composite \<Rightarrow> nat \<Rightarrow> 's bool_searcher \<Rightarrow> ('e, 's bool_searcher) step" where
  "bool_try nxt adv min_of sc n s =
     (let shouldCmp = (case bl_currShould s of None \<Rightarrow> 1 | Some y \<Rightarrow> sgn (int (Number y) - int n)) in
      if shouldCmp < 0 then
        bindr (move_should (\<lambda>c. adv c n) s) (\<lambda>s.
          if map_option Number (bl_currShould s) = Some n then bool_found nxt sc (build_constituents s) s
          else if min_of (the (bl_should s)) = 0 then bool_found nxt sc [the (bl_currMust s)] s
          else bool_skip nxt s)
      else if shouldCmp = 0 then bool_found nxt sc (build_constituents s) s
      else if bl_should s = None \<or> min_of (the (bl_should s)) = 0 then bool_found nxt sc [the (bl_currMust s)] s
      else bool_skip nxt s)"

text \<open>One round of \<open>nextInternal\<close>: None when it goes on.\<close>

definition bool_round ::
  "('s \<Rightarrow> ('e, 's) step) \<Rightarrow> ('s \<Rightarrow> nat \<Rightarrow> ('e, 's) step) \<Rightarrow> ('s \<Rightarrow> int) \<Rightarrow> composite \<Rightarrow> nat \<Rightarrow> 's bool_searcher \<Rightarrow> ('e, 's bool_searcher) step" where
  "bool_round nxt adv min_of sc n s =
     bindr (case bl_currMustNot s of None \<Rightarrow> Some (Inr (False, s)) | Some x \<Rightarrow> bool_excludes nxt adv x n s) (\<lambda>(ex, s).
       if ex then Some (Inr (None, s)) else bool_try nxt adv min_of sc n s)"

partial_function (option) bool_loop ::
  "('s \<Rightarrow> ('e, 's) step) \<Rightarrow> ('s \<Rightarrow> nat \<Rightarrow> ('e, 's) step) \<Rightarrow> ('s \<Rightarrow> int) \<Rightarrow> composite \<Rightarrow> 's bool_searcher \<Rightarrow> ('e, 's bool_searcher) step" where
  "bool_loop nxt adv min_of sc s =
     (if bl_currentMatch s = None then Some (Inr (None, s))
      else bindr (bool_round nxt adv min_of sc (Number (the (bl_currentMatch s))) s) (\<lambda>ms.
        if fst ms \<noteq> None then Some (Inr ms) else bool_loop nxt adv min_of sc (snd ms)))"

definition bool_next ::
  "('s \<Rightarrow> ('e, 's) step) \<Rightarrow> ('s \<Rightarrow> nat \<Rightarrow> ('e, 's) step) \<Rightarrow> ('s \<Rightarrow> int) \<Rightarrow> composite \<Rightarrow> 's bool_searcher \<Rightarrow> ('e, 's bool_searcher) step" where
  "bool_next nxt adv min_of sc s =
     (if bl_done s then Some (Inr (None, s))
      else
        bindr (if bl_initialized s then Some (Inr s) else bool_init nxt s) (\<lambda>s.
        bindr (bool_loop nxt adv min_of sc s) (\<lambda>(rv, s).
          Some (Inr (rv, if rv = None then s\<lparr>bl_done := True\<rparr> else s)))))"

text \<open>The must-not searcher is not moved when it stands at or above the number.\<close>

definition advance_if_trailing :: "('s \<Rightarrow> nat \<Rightarrow> ('e, 's) step) \<Rightarrow> nat \<Rightarrow> 's bool_searcher \<Rightarrow> ('e, 's bool_searcher) result option" where
  "advance_if_trailing adv number s =
     bindr (move_must (\<lambda>c. adv c number) s) (\<lambda>s.
     bindr (move_should (\<lambda>c. adv c number) s) (\<lambda>s.
     bindr (if case bl_currMustNot s of None \<Rightarrow> True | Some x \<Rightarrow> Number x < number
            then move_mustNot (\<lambda>c. adv c number) s else Some (Inr s)) (\<lambda>s.
       Some (Inr (set_current s)))))"

definition bool_advance ::
  "('s \<Rightarrow> ('e, 's) step) \<Rightarrow> ('s \<Rightarrow> nat \<Rightarrow> ('e, 's) step) \<Rightarrow> ('s \<Rightarrow> int) \<Rightarrow> composite \<Rightarrow> 's bool_searcher \<Rightarrow> nat \<Rightarrow> ('e, 's bool_searcher) step" where
  "bool_advance nxt adv min_of sc s number =
     (if bl_done s then Some (Inr (None, s))
      else
        bindr (if bl_initialized s then Some (Inr s) else bool_init nxt s) (\<lambda>s.
        bindr (if case bl_currentMatch s of None \<Rightarrow> True | Some c \<Rightarrow> Number c < number
               then advance_if_trailing adv number s else Some (Inr s)) (\<lambda>s.
          bool_next nxt adv min_of sc s)))"

section \<open>What a boolean searcher matches\<close>

text \<open>\<open>E\<close> are the documents for which the must searcher's match alone is not enough.\<close>

definition bool_form ::
  "composite \<Rightarrow> (document_match \<Rightarrow> bool) option \<Rightarrow> (document_match \<Rightarrow> bool) option \<Rightarrow> bool \<Rightarrow> nat set \<Rightarrow> document_match \<Rightarrow> bool" where
  "bool_form sc M S req E d \<longleftrightarrow>
     (case M of
        None \<Rightarrow> \<exists>h y. S = Some h \<and> h y \<and> d = build_document_match sc [y]
      | Some g \<Rightarrow> \<exists>x. g x \<and>
          (\<not> req \<and> Number x \<notin> E \<and> d = build_document_match sc [x] \<or>
           (\<exists>h y. S = Some h \<and> h y \<and> Number y = Number x \<and> d = build_document_match sc [x, y])))"

lemma bool_form_intros:
  "h y \<Longrightarrow> bool_form sc None (Some h) req E (build_document_match sc [y])"
  "g x \<Longrightarrow> \<not> req \<Longrightarrow> Number x \<notin> E \<Longrightarrow> bool_form sc (Some g) S req E (build_document_match sc [x])"
  "g x \<Longrightarrow> h y \<Longrightarrow> Number y = Number x \<Longrightarrow> bool_form sc (Some g) (Some h) req E (build_document_match sc [x, y])"
  unfolding bool_form_def by auto

definition docs_opt :: "(document_match \<Rightarrow> bool) option \<Rightarrow> nat set" where
  "docs_opt H = (case H of None \<Rightarrow> {} | Some h \<Rightarrow> Number ` {d. h d})"

definition bool_docs :: "(document_match \<Rightarrow> bool) option \<Rightarrow> (document_match \<Rightarrow> bool) option \<Rightarrow> bool \<Rightarrow> (document_match \<Rightarrow> bool) option \<Rightarrow> nat set" where
  "bool_docs M S req H =
     (if M = None then docs_opt S else if req then docs_opt M \<inter> docs_opt S else docs_opt M) - docs_opt H"

lemma docs_opt_simps [simp]: "docs_opt None = {}" "docs_opt (Some h) = Number ` {d. h d}"
  by (simp_all add: docs_opt_def)

lemma bool_form_docs:
  "Number ` {d. bool_form sc M S req {} d \<and> Number d \<notin> docs_opt H} = bool_docs M S req H"
proof (cases M)
  case None
  then show ?thesis by (cases S) (auto simp: bool_form_def bool_docs_def image_iff, metis Number_build list.sel(1))
next
  case (Some g)
  have "j \<in> Number ` {d. bool_form sc M S req {} d \<and> Number d \<notin> docs_opt H} \<longleftrightarrow> j \<in> bool_docs M S req H" for j
  proof
    assume "j \<in> Number ` {d. bool_form sc M S req {} d \<and> Number d \<notin> docs_opt H}"
    then obtain d where "bool_form sc M S req {} d" "Number d \<notin> docs_opt H" "j = Number d" by blast
    then show "j \<in> bool_docs M S req H" using Some by (auto simp: bool_form_def bool_docs_def image_iff, metis)
  next
    assume j: "j \<in> bool_docs M S req H"
    then obtain x where x: "g x" "Number x = j" "j \<notin> docs_opt H" using Some by (auto simp: bool_docs_def split: if_splits)
    show "j \<in> Number ` {d. bool_form sc M S req {} d \<and> Number d \<notin> docs_opt H}"
    proof (cases req)
      case False
      then have "bool_form sc M S req {} (build_document_match sc [x])" using Some x bool_form_intros(2) [of g x] by simp
      then show ?thesis using x by (intro image_eqI [of _ _ "build_document_match sc [x]"]) simp_all
    next
      case True
      then obtain h y where y: "S = Some h" "h y" "Number y = j" using j Some by (cases S) (auto simp: bool_docs_def)
      then have "bool_form sc M S req {} (build_document_match sc [x, y])" using Some x y bool_form_intros(3) [of g x h y] by simp
      then show ?thesis using x by (intro image_eqI [of _ _ "build_document_match sc [x, y]"]) simp_all
    qed
  qed
  then show ?thesis by blast
qed

section \<open>The contract, from the children's\<close>

text \<open>Children with their \<open>Min\<close>, which no step changes.\<close>

locale min_searcher = searcher nxt adv inv hits exact upfrom live
  for nxt :: "'s \<Rightarrow> ('e, 's) step" and adv :: "'s \<Rightarrow> nat \<Rightarrow> ('e, 's) step"
    and inv :: "'s \<Rightarrow> bool" and hits :: "'s \<Rightarrow> document_match \<Rightarrow> bool" and exact :: "'s \<Rightarrow> document_match \<Rightarrow> bool"
    and upfrom :: "'s \<Rightarrow> nat \<Rightarrow> bool" and live :: "'s \<Rightarrow> nat \<Rightarrow> bool" +
  fixes min_of :: "'s \<Rightarrow> int"
  assumes min_nxt: "inv s \<Longrightarrow> nxt s = Some (Inr (m, s')) \<Longrightarrow> min_of s' = min_of s"
    and min_adv: "inv s \<Longrightarrow> adv s n = Some (Inr (m, s')) \<Longrightarrow> min_of s' = min_of s"
begin

definition bool_view :: "'s bool_searcher \<Rightarrow> (document_match \<Rightarrow> bool) option \<times> (document_match \<Rightarrow> bool) option \<times>
    (document_match \<Rightarrow> bool) option \<times> (document_match \<Rightarrow> bool) option \<times> int option \<times> (document_match \<Rightarrow> bool) option" where
  "bool_view s = (map_option hits (bl_must s), map_option exact (bl_must s), map_option hits (bl_should s),
     map_option exact (bl_should s), map_option min_of (bl_should s), map_option hits (bl_mustNot s))"

definition bool_required :: "'s bool_searcher \<Rightarrow> bool" where
  "bool_required s \<longleftrightarrow> (\<exists>k. map_option min_of (bl_should s) = Some k \<and> k \<noteq> 0)"

definition excluded :: "'s bool_searcher \<Rightarrow> nat set" where
  "excluded s = docs_opt (map_option hits (bl_mustNot s))"

definition bool_hits :: "composite \<Rightarrow> 's bool_searcher \<Rightarrow> document_match \<Rightarrow> bool" where
  "bool_hits sc s d \<longleftrightarrow>
     bool_form sc (map_option hits (bl_must s)) (map_option hits (bl_should s)) (bool_required s) {} d \<and> Number d \<notin> excluded s"

definition bool_exact :: "composite \<Rightarrow> 's bool_searcher \<Rightarrow> document_match \<Rightarrow> bool" where
  "bool_exact sc s d \<longleftrightarrow>
     bool_form sc (map_option exact (bl_must s)) (map_option exact (bl_should s)) (bool_required s)
       (docs_opt (map_option hits (bl_should s))) d \<and> Number d \<notin> excluded s"

lemma docs_bool:
  "docs_of (bool_hits sc) s =
     bool_docs (map_option hits (bl_must s)) (map_option hits (bl_should s)) (bool_required s) (map_option hits (bl_mustNot s))"
  by (simp add: docs_of_def bool_hits_def excluded_def bool_form_docs)

lemma bool_view_eq:
  assumes "bool_view s' = bool_view s"
  shows "bool_hits sc s' = bool_hits sc s" "bool_exact sc s' = bool_exact sc s" "excluded s' = excluded s"
    "docs_of (bool_hits sc) s' = docs_of (bool_hits sc) s"
proof -
  have v: "map_option hits (bl_must s') = map_option hits (bl_must s)" "map_option exact (bl_must s') = map_option exact (bl_must s)"
    "map_option hits (bl_should s') = map_option hits (bl_should s)" "map_option exact (bl_should s') = map_option exact (bl_should s)"
    "map_option min_of (bl_should s') = map_option min_of (bl_should s)" "map_option hits (bl_mustNot s') = map_option hits (bl_mustNot s)"
    using assms by (simp_all add: bool_view_def)
  show "bool_hits sc s' = bool_hits sc s" "bool_exact sc s' = bool_exact sc s" "excluded s' = excluded s"
    unfolding bool_hits_def bool_exact_def excluded_def bool_required_def fun_eq_iff v by simp_all
  then show "docs_of (bool_hits sc) s' = docs_of (bool_hits sc) s" by (simp add: docs_of_def)
qed

definition opt_standing :: "'s option \<Rightarrow> document_match option \<Rightarrow> bool" where
  "opt_standing c m \<longleftrightarrow> (case c of None \<Rightarrow> m = None | Some c \<Rightarrow> standing c m)"

definition opt_live :: "'s option \<Rightarrow> document_match option \<Rightarrow> nat \<Rightarrow> bool" where
  "opt_live c m b \<longleftrightarrow> (\<forall>x. c = Some x \<longrightarrow> standing_live x m b)"

lemma opt_gone:
  assumes "opt_live c m b" "b \<le> j" "\<forall>d. m = Some d \<longrightarrow> j < Number d"
  shows "j \<notin> docs_opt (map_option hits c)"
  using assms standing_live_gone [of _ m b j] by (cases c) (auto simp: opt_live_def docs_of_def)

lemma opt_doc: "opt_standing c (Some d) \<Longrightarrow> Number d \<in> docs_opt (map_option hits c)"
  using standing_doc [of _ d] by (cases c) (auto simp: opt_standing_def docs_of_def)

text \<open>
  The must-not searcher has missed nothing from the candidate on, whatever the others missed.
\<close>

definition bool_ok :: "'s bool_searcher \<Rightarrow> bool" where
  "bool_ok s \<longleftrightarrow> opt_standing (bl_must s) (bl_currMust s) \<and> opt_standing (bl_should s) (bl_currShould s) \<and>
     opt_standing (bl_mustNot s) (bl_currMustNot s) \<and> bl_currentMatch s = current_of s \<and>
     (\<forall>c. bl_currentMatch s = Some c \<longrightarrow> (\<exists>b\<le>Number c. opt_live (bl_mustNot s) (bl_currMustNot s) b))"

definition bool_live_at :: "'s bool_searcher \<Rightarrow> nat \<Rightarrow> nat \<Rightarrow> bool" where
  "bool_live_at s b n \<longleftrightarrow>
     (if bl_must s = None then opt_live (bl_should s) (bl_currShould s) b
      else opt_live (bl_must s) (bl_currMust s) b \<and> (\<exists>b'\<le>n. opt_live (bl_should s) (bl_currShould s) b'))"

text \<open>The candidate \<open>n\<close> stays while another child moves, or it is passed.\<close>

definition bool_held :: "nat \<Rightarrow> 's bool_searcher \<Rightarrow> 's bool_searcher \<Rightarrow> bool" where
  "bool_held n s s' \<longleftrightarrow> bool_ok s' \<and> bool_view s' = bool_view s \<and> bl_initialized s' = bl_initialized s \<and> bl_done s' = bl_done s \<and>
     bl_currentMatch s' = bl_currentMatch s \<and> (\<forall>b. bool_live_at s b n \<longrightarrow> bool_live_at s' b n)"

definition bool_passed :: "nat \<Rightarrow> 's bool_searcher \<Rightarrow> 's bool_searcher \<Rightarrow> bool" where
  "bool_passed n s s' \<longleftrightarrow> bool_ok s' \<and> bool_view s' = bool_view s \<and> bl_initialized s' = bl_initialized s \<and> bl_done s' = bl_done s \<and>
     (\<forall>d. bl_currentMatch s' = Some d \<longrightarrow> n < Number d) \<and> (\<forall>b. bool_live_at s b n \<longrightarrow> bool_live_at s' (Suc n) (Suc n))"

lemma bool_held_passed: "bool_held n s s' \<Longrightarrow> bool_passed n s' s'' \<Longrightarrow> bool_passed n s s''"
  unfolding bool_held_def bool_passed_def by (elim conjE, intro conjI) (simp_all, blast)

lemma bool_currents:
  assumes "bool_ok s" "bl_currentMatch s = Some c"
  shows "bl_must s \<noteq> None \<Longrightarrow> bl_currMust s = Some c" "bl_must s = None \<Longrightarrow> bl_currShould s = Some c"
    "bl_must s = None \<Longrightarrow> bl_currMust s = None" "bl_must s = None \<Longrightarrow> bl_should s \<noteq> None"
  using assms by (auto simp: bool_ok_def current_of_def opt_standing_def split: if_splits option.splits)

lemma set_current_simps [simp]:
  "bl_must (set_current s) = bl_must s" "bl_should (set_current s) = bl_should s" "bl_mustNot (set_current s) = bl_mustNot s"
  "bl_currMust (set_current s) = bl_currMust s" "bl_currShould (set_current s) = bl_currShould s"
  "bl_currMustNot (set_current s) = bl_currMustNot s" "bl_initialized (set_current s) = bl_initialized s"
  "bl_done (set_current s) = bl_done s" "bl_currentMatch (set_current s) = current_of s" "current_of (set_current s) = current_of s"
  by (simp_all add: set_current_def current_of_def)

lemma bool_driver_ok:
  assumes ok: "bool_ok s" and c: "bl_currentMatch s = Some c" and n: "Number c = n"
  shows "\<exists>r. bool_advance_next_must nxt s = Some r \<and> (\<forall>s'. r = Inr s' \<longrightarrow> bool_passed n s s')"
proof -
  obtain b where b: "opt_live (bl_mustNot s) (bl_currMustNot s) b" "b \<le> n"
    and st: "opt_standing (bl_must s) (bl_currMust s)" "opt_standing (bl_should s) (bl_currShould s)"
      "opt_standing (bl_mustNot s) (bl_currMustNot s)"
    using ok c n by (auto simp: bool_ok_def)
  show ?thesis
  proof (cases "bl_must s")
    case (Some M)
    have sM: "standing M (Some c)" using st(1) Some bool_currents(1) [OF ok c] by (simp add: opt_standing_def)
    then have iM: "inv M" by (simp add: standing_def)
    then obtain r where r: "nxt M = Some r" using nxt_total by blast
    show ?thesis
    proof (cases r)
      case (Inl e)
      then show ?thesis using r Some by (simp add: bool_advance_next_must_def move_must_def)
    next
      case (Inr mc)
      obtain m M' where mc: "mc = (m, M')" by (cases mc)
      note nx = standing_next [OF sM r [unfolded Inr mc]]
      let ?s = "set_current (s\<lparr>bl_must := Some M', bl_currMust := m\<rparr>)"
      have cur: "bl_currentMatch ?s = m" by (simp add: current_of_def)
      have "bool_ok ?s"
        unfolding bool_ok_def using st nx(1,4) n b cur by (auto simp: opt_standing_def, metis le_trans less_imp_le)
      moreover have "bool_view ?s = bool_view s" using nx(2,3) Some by (simp add: bool_view_def)
      moreover have "\<forall>d. bl_currentMatch ?s = Some d \<longrightarrow> n < Number d" using nx(4) n cur by simp
      moreover have "bool_live_at ?s (Suc n) (Suc n)" if "bool_live_at s b n" for b
        using that nx(5) Some n bool_currents(1) [OF ok c] by (auto simp: bool_live_at_def opt_live_def intro: le_SucI)
      ultimately have "bool_passed n s ?s" by (simp add: bool_passed_def)
      then show ?thesis using r Some Inr mc by (simp add: bool_advance_next_must_def move_must_def)
    qed
  next
    case None
    then obtain S where S: "bl_should s = Some S" using bool_currents(4) [OF ok c] by blast
    have cm: "bl_currMust s = None" using bool_currents(3) [OF ok c None] .
    have sS: "standing S (Some c)" using st(2) S bool_currents(2) [OF ok c None] by (simp add: opt_standing_def)
    then have iS: "inv S" by (simp add: standing_def)
    then obtain r where r: "nxt S = Some r" using nxt_total by blast
    show ?thesis
    proof (cases r)
      case (Inl e)
      then show ?thesis using r S None by (simp add: bool_advance_next_must_def move_should_def)
    next
      case (Inr mc)
      obtain m S' where mc: "mc = (m, S')" by (cases mc)
      note nx = standing_next [OF sS r [unfolded Inr mc]] and mn = min_nxt [OF iS r [unfolded Inr mc]]
      let ?s = "set_current (s\<lparr>bl_should := Some S', bl_currShould := m\<rparr>)"
      have cur: "bl_currentMatch ?s = m" using None cm by (simp add: current_of_def)
      have "bool_ok ?s"
        unfolding bool_ok_def using st nx(1,4) n b cur by (auto simp: opt_standing_def, metis le_trans less_imp_le)
      moreover have "bool_view ?s = bool_view s" using nx(2,3) mn S by (simp add: bool_view_def)
      moreover have "\<forall>d. bl_currentMatch ?s = Some d \<longrightarrow> n < Number d" using nx(4) n cur by simp
      moreover have "bool_live_at ?s (Suc n) (Suc n)" if "bool_live_at s b n" for b
        using that nx(5) S None n bool_currents(2) [OF ok c None] by (auto simp: bool_live_at_def opt_live_def)
      ultimately have "bool_passed n s ?s" by (simp add: bool_passed_def)
      then show ?thesis using r S None Inr mc by (simp add: bool_advance_next_must_def move_should_def)
    qed
  qed
qed

lemma bool_should_ok:
  assumes ok: "bool_ok s" and c: "bl_currentMatch s = Some c" and n: "Number c = n" and must: "bl_must s \<noteq> None"
    and below: "\<forall>y. bl_currShould s = Some y \<longrightarrow> Number y < n"
  shows "\<exists>r. move_should (\<lambda>c. adv c n) s = Some r \<and> (\<forall>s'. r = Inr s' \<longrightarrow>
    bool_held n s s' \<and> (\<forall>y. bl_currShould s' = Some y \<longrightarrow> n \<le> Number y))"
proof (cases "bl_should s")
  case None
  then have "bl_currShould s = None" using ok by (simp add: bool_ok_def opt_standing_def)
  then show ?thesis using None ok by (simp add: move_should_def bool_held_def)
next
  case (Some S)
  have st: "standing S (bl_currShould s)" using ok Some by (simp add: bool_ok_def opt_standing_def)
  then have iS: "inv S" by (simp add: standing_def)
  then obtain r where r: "adv S n = Some r" using adv_total by blast
  show ?thesis
  proof (cases r)
    case (Inl e)
    then show ?thesis using r Some by (simp add: move_should_def)
  next
    case (Inr mc)
    obtain m S' where mc: "mc = (m, S')" by (cases mc)
    note ad = standing_advance [OF st below r [unfolded Inr mc]] and mn = min_adv [OF iS r [unfolded Inr mc]]
    let ?s = "s\<lparr>bl_should := Some S', bl_currShould := m\<rparr>"
    have "current_of ?s = current_of s" using must by (auto simp: current_of_def)
    then have "bool_ok ?s" using ok ad(1) by (auto simp: bool_ok_def opt_standing_def)
    moreover have "bool_view ?s = bool_view s" using ad(2,3) mn Some by (simp add: bool_view_def)
    moreover have "bool_live_at ?s b n" if "bool_live_at s b n" for b
      using that must ad(5) Some by (auto simp: bool_live_at_def opt_live_def)
    ultimately have "bool_held n s ?s" by (simp add: bool_held_def)
    then show ?thesis using r Some Inr mc ad(4) by (simp add: move_should_def)
  qed
qed

lemma bool_mustNot_ok:
  assumes ok: "bool_ok s" and c: "bl_currentMatch s = Some c" and n: "Number c = n"
    and below: "\<forall>y. bl_currMustNot s = Some y \<longrightarrow> Number y < n"
  shows "\<exists>r. move_mustNot (\<lambda>c. adv c n) s = Some r \<and> (\<forall>s'. r = Inr s' \<longrightarrow>
    bool_held n s s' \<and> (map_option Number (bl_currMustNot s') = Some n \<longleftrightarrow> n \<in> excluded s))"
proof (cases "bl_mustNot s")
  case None
  then have "bl_currMustNot s = None" using ok by (simp add: bool_ok_def opt_standing_def)
  then show ?thesis using None ok by (simp add: move_mustNot_def bool_held_def excluded_def)
next
  case (Some X)
  have st: "standing X (bl_currMustNot s)" using ok Some by (simp add: bool_ok_def opt_standing_def)
  obtain b where b: "standing_live X (bl_currMustNot s) b" "b \<le> n"
    using ok c n Some by (auto simp: bool_ok_def opt_live_def)
  have "inv X" using st by (simp add: standing_def)
  then obtain r where r: "adv X n = Some r" using adv_total by blast
  show ?thesis
  proof (cases r)
    case (Inl e)
    then show ?thesis using r Some by (simp add: move_mustNot_def)
  next
    case (Inr mc)
    obtain m X' where mc: "mc = (m, X')" by (cases mc)
    note ad = standing_advance [OF st below r [unfolded Inr mc]]
    note lv = ad(5) [OF b]
    let ?s = "s\<lparr>bl_mustNot := Some X', bl_currMustNot := m\<rparr>"
    have "current_of ?s = current_of s" by (simp add: current_of_def)
    then have "bool_ok ?s" using ok ad(1) lv c n by (auto simp: bool_ok_def opt_standing_def opt_live_def)
    moreover have "bool_view ?s = bool_view s" using ad(2) Some by (simp add: bool_view_def)
    ultimately have held: "bool_held n s ?s" by (simp add: bool_held_def bool_live_at_def)
    have "excluded s = docs_opt (map_option hits (Some X'))" using ad(2) Some by (simp add: excluded_def)
    moreover have "n \<in> docs_opt (map_option hits (Some X'))" if "map_option Number m = Some n"
      using that opt_doc [of "Some X'"] ad(1) by (auto simp: opt_standing_def)
    moreover have "n \<notin> docs_opt (map_option hits (Some X'))" if "map_option Number m \<noteq> Some n"
      using opt_gone [of "Some X'" m n n] lv ad(4) that by (force simp: opt_live_def)
    ultimately show ?thesis using r Some Inr mc held by (auto simp: move_mustNot_def)
  qed
qed

lemma bool_excludes_ok:
  assumes ok: "bool_ok s" and c: "bl_currentMatch s = Some c" and n: "Number c = n" and x: "bl_currMustNot s = Some x"
  shows "\<exists>r. bool_excludes nxt adv x n s = Some r \<and> (\<forall>ex s'. r = Inr (ex, s') \<longrightarrow>
    (if ex then n \<in> excluded s \<and> bool_passed n s s' else n \<notin> excluded s \<and> bool_held n s s'))"
proof -
  have st: "opt_standing (bl_mustNot s) (Some x)" using ok x by (simp add: bool_ok_def)
  have held: "bool_held n s s" using ok by (simp add: bool_held_def)
  obtain r0 where r0: "bool_advance_next_must nxt s = Some r0" "\<forall>s'. r0 = Inr s' \<longrightarrow> bool_passed n s s'"
    using bool_driver_ok [OF ok c n] by blast
  consider "Number x < n" | "Number x = n" | "n < Number x" by linarith
  then show ?thesis
  proof cases
    case 1
    then obtain r where r: "move_mustNot (\<lambda>c. adv c n) s = Some r" "\<forall>s'. r = Inr s' \<longrightarrow>
        bool_held n s s' \<and> (map_option Number (bl_currMustNot s') = Some n \<longleftrightarrow> n \<in> excluded s)"
      using bool_mustNot_ok [OF ok c n] x by auto
    show ?thesis
    proof (cases r)
      case (Inl e)
      then show ?thesis using r 1 by (simp add: bool_excludes_def)
    next
      case (Inr s1)
      then have h: "bool_held n s s1" and ex: "map_option Number (bl_currMustNot s1) = Some n \<longleftrightarrow> n \<in> excluded s" using r(2) by blast+
      have "bool_ok s1" "bl_currentMatch s1 = Some c" using h c by (simp_all add: bool_held_def)
      then obtain r2 where r2: "bool_advance_next_must nxt s1 = Some r2" "\<forall>s'. r2 = Inr s' \<longrightarrow> bool_passed n s1 s'"
        using bool_driver_ok n by blast
      show ?thesis
      proof (cases "n \<in> excluded s")
        case True
        then have eq: "bool_excludes nxt adv x n s = bindr (Some r2) (\<lambda>s. Some (Inr (True, s)))"
          using r(1) r2(1) Inr 1 ex by (simp add: bool_excludes_def)
        show ?thesis unfolding eq using True r2(2) bool_held_passed [OF h] by (cases r2) simp_all
      next
        case False
        then have "bool_excludes nxt adv x n s = Some (Inr (False, s1))"
          using r(1) Inr 1 ex by (auto simp: bool_excludes_def)
        then show ?thesis using False h by simp
      qed
    qed
  next
    case 2
    then have "n \<in> excluded s" using opt_doc [OF st] by (simp add: excluded_def)
    moreover have eq: "bool_excludes nxt adv x n s = bindr (Some r0) (\<lambda>s. Some (Inr (True, s)))"
      using 2 r0(1) by (simp add: bool_excludes_def)
    ultimately show ?thesis unfolding eq using r0(2) by (cases r0) simp_all
  next
    case 3
    obtain b where "opt_live (bl_mustNot s) (Some x) b" "b \<le> n" using ok c n x by (auto simp: bool_ok_def)
    then have "n \<notin> excluded s" unfolding excluded_def by (rule opt_gone) (use 3 in simp)
    then show ?thesis using 3 held by (simp add: bool_excludes_def)
  qed
qed

text \<open>A round that ends with the candidate \<open>n\<close> passed: whether it was a match.\<close>

definition bool_decided :: "composite \<Rightarrow> nat \<Rightarrow> 's bool_searcher \<Rightarrow> document_match option \<Rightarrow> 's bool_searcher \<Rightarrow> bool" where
  "bool_decided sc n s rv s' \<longleftrightarrow> bool_passed n s s' \<and>
     (\<forall>d. rv = Some d \<longrightarrow> Number d = n \<and> bool_hits sc s d \<and> (\<forall>b. bool_live_at s b n \<longrightarrow> bool_exact sc s d)) \<and>
     (rv = None \<longrightarrow> (\<forall>b. bool_live_at s b n \<longrightarrow> n \<notin> docs_of (bool_hits sc) s))"

lemma bool_found_ok:
  assumes "bool_ok s" "bl_currentMatch s = Some c" "Number c = n" and "hd cons = c"
    and "bool_hits sc s (build_document_match sc cons)"
    and "\<And>b. bool_live_at s b n \<Longrightarrow> bool_exact sc s (build_document_match sc cons)"
  shows "\<exists>r. bool_found nxt sc cons s = Some r \<and> (\<forall>rv s'. r = Inr (rv, s') \<longrightarrow> bool_decided sc n s rv s')"
proof -
  obtain r where r: "bool_advance_next_must nxt s = Some r" "\<forall>s'. r = Inr s' \<longrightarrow> bool_passed n s s'"
    using bool_driver_ok [OF assms(1-3)] by blast
  show ?thesis
  proof (cases r)
    case (Inl e)
    then show ?thesis using r(1) by (simp add: bool_found_def)
  next
    case (Inr s')
    then have "bool_decided sc n s (Some (build_document_match sc cons)) s'"
      using r(2) assms(3-6) by (auto simp: bool_decided_def)
    then show ?thesis using r(1) Inr by (simp add: bool_found_def)
  qed
qed

lemma bool_skip_ok:
  assumes "bool_ok s" "bl_currentMatch s = Some c" "Number c = n"
    and "\<And>b. bool_live_at s b n \<Longrightarrow> n \<notin> docs_of (bool_hits sc) s"
  shows "\<exists>r. bool_skip nxt s = Some r \<and> (\<forall>rv s'. r = Inr (rv, s') \<longrightarrow> bool_decided sc n s rv s')"
proof -
  obtain r where r: "bool_advance_next_must nxt s = Some r" "\<forall>s'. r = Inr s' \<longrightarrow> bool_passed n s s'"
    using bool_driver_ok [OF assms(1-3)] by blast
  show ?thesis
  proof (cases r)
    case (Inl e)
    then show ?thesis using r(1) by (simp add: bool_skip_def)
  next
    case (Inr s')
    then have "bool_decided sc n s None s'" using r(2) assms(4) by (auto simp: bool_decided_def)
    then show ?thesis using r(1) Inr by (simp add: bool_skip_def)
  qed
qed

text \<open>The candidate against the should searcher's document.\<close>

lemma bool_both:
  assumes ok: "bool_ok s" and c: "bl_currentMatch s = Some c" and n: "Number c = n" and out: "n \<notin> excluded s"
    and y: "bl_currShould s = Some y" "Number y = n"
  shows "\<exists>r. bool_found nxt sc (build_constituents s) s = Some r \<and> (\<forall>rv s'. r = Inr (rv, s') \<longrightarrow> bool_decided sc n s rv s')"
proof (cases "bl_must s")
  case None
  have y': "c = y" using bool_currents(2) [OF ok c None] y(1) by simp
  have cons: "build_constituents s = [y]" using bool_currents(3) [OF ok c None] y by (simp add: build_constituents_def)
  obtain S where S: "bl_should s = Some S" using bool_currents(4) [OF ok c None] by blast
  have hy: "hits S y" using ok S y by (simp add: bool_ok_def opt_standing_def standing_def)
  show ?thesis
    unfolding cons
  proof (rule bool_found_ok [OF ok c n])
    show "bool_hits sc s (build_document_match sc [y])" using None S hy out y bool_form_intros(1) by (simp add: bool_hits_def)
    show "bool_exact sc s (build_document_match sc [y])" if "bool_live_at s b n" for b
    proof -
      have "exact S y" using that None S y by (simp add: bool_live_at_def opt_live_def standing_live_def)
      then show ?thesis using None S out y bool_form_intros(1) by (simp add: bool_exact_def)
    qed
  qed (simp add: y')
next
  case (Some M)
  have x: "bl_currMust s = Some c" using bool_currents(1) [OF ok c] Some by simp
  have cons: "build_constituents s = [c, y]" using x y by (simp add: build_constituents_def)
  obtain S where S: "bl_should s = Some S" using ok y by (cases "bl_should s") (simp_all add: bool_ok_def opt_standing_def)
  have h: "hits S y" "hits M c" using ok S Some x y by (simp_all add: bool_ok_def opt_standing_def standing_def)
  show ?thesis
    unfolding cons
  proof (rule bool_found_ok [OF ok c n])
    show "bool_hits sc s (build_document_match sc [c, y])" using Some S h out y n bool_form_intros(3) by (simp add: bool_hits_def)
    show "bool_exact sc s (build_document_match sc [c, y])" if "bool_live_at s b n" for b
    proof -
      have "exact M c" "exact S y" using that Some S x y by (auto simp: bool_live_at_def opt_live_def standing_live_def)
      then show ?thesis using Some S out y n bool_form_intros(3) by (simp add: bool_exact_def)
    qed
  qed simp
qed

lemma bool_alone:
  assumes ok: "bool_ok s" and c: "bl_currentMatch s = Some c" and n: "Number c = n" and out: "n \<notin> excluded s"
    and must: "bl_must s \<noteq> None" and above: "\<forall>y. bl_currShould s = Some y \<longrightarrow> n < Number y"
  shows "\<exists>r. (if bl_should s = None \<or> min_of (the (bl_should s)) = 0 then bool_found nxt sc [the (bl_currMust s)] s else bool_skip nxt s) = Some r \<and>
    (\<forall>rv s'. r = Inr (rv, s') \<longrightarrow> bool_decided sc n s rv s')"
proof -
  obtain M where M: "bl_must s = Some M" using must by blast
  have x: "bl_currMust s = Some c" using bool_currents(1) [OF ok c must] .
  have hc: "hits M c" using ok M x by (simp add: bool_ok_def opt_standing_def standing_def)
  have gone: "n \<notin> docs_opt (map_option hits (bl_should s))" if lv: "bool_live_at s b n" for b
  proof -
    obtain b' where "b' \<le> n" "opt_live (bl_should s) (bl_currShould s) b'" using lv M by (auto simp: bool_live_at_def)
    then show ?thesis using opt_gone above by blast
  qed
  have req: "bool_required s \<longleftrightarrow> \<not> (bl_should s = None \<or> min_of (the (bl_should s)) = 0)"
    by (cases "bl_should s") (simp_all add: bool_required_def)
  show ?thesis
  proof (cases "bool_required s")
    case False
    have "\<exists>r. bool_found nxt sc [c] s = Some r \<and> (\<forall>rv s'. r = Inr (rv, s') \<longrightarrow> bool_decided sc n s rv s')"
    proof (rule bool_found_ok [OF ok c n])
      show "bool_hits sc s (build_document_match sc [c])" using M hc False out n bool_form_intros(2) by (simp add: bool_hits_def)
      show "bool_exact sc s (build_document_match sc [c])" if "bool_live_at s b n" for b
      proof -
        have "exact M c" using that M x by (simp add: bool_live_at_def opt_live_def standing_live_def)
        then show ?thesis using gone [OF that] M False out n bool_form_intros(2) by (simp add: bool_exact_def)
      qed
    qed simp
    then show ?thesis using False req x by auto
  next
    case True
    have "\<exists>r. bool_skip nxt s = Some r \<and> (\<forall>rv s'. r = Inr (rv, s') \<longrightarrow> bool_decided sc n s rv s')"
      by (rule bool_skip_ok [OF ok c n]) (use gone True M in \<open>auto simp: docs_bool bool_docs_def\<close>)
    then show ?thesis using True req by auto
  qed
qed

lemma bool_held_decided: "bool_held n s s' \<Longrightarrow> bool_decided sc n s' rv s'' \<Longrightarrow> bool_decided sc n s rv s''"
  using bool_held_passed bool_view_eq unfolding bool_decided_def bool_held_def by metis

lemma bool_try_ok:
  assumes ok: "bool_ok s" and c: "bl_currentMatch s = Some c" and n: "Number c = n" and out: "n \<notin> excluded s"
  shows "\<exists>r. bool_try nxt adv min_of sc n s = Some r \<and> (\<forall>rv s'. r = Inr (rv, s') \<longrightarrow> bool_decided sc n s rv s')"
proof -
  have self: "bl_must s = None \<Longrightarrow> bl_currShould s = Some c" by (rule bool_currents(2) [OF ok c])
  consider (none) "bl_currShould s = None" | (below) y where "bl_currShould s = Some y" "Number y < n"
    | (eq) y where "bl_currShould s = Some y" "Number y = n" | (above) y where "bl_currShould s = Some y" "n < Number y"
    by (metis linorder_neqE_nat option.exhaust)
  then show ?thesis
  proof cases
    case none
    then have "bool_try nxt adv min_of sc n s =
        (if bl_should s = None \<or> min_of (the (bl_should s)) = 0 then bool_found nxt sc [the (bl_currMust s)] s else bool_skip nxt s)"
      by (simp add: bool_try_def)
    moreover have "bl_must s \<noteq> None" using none self by auto
    ultimately show ?thesis using bool_alone [OF ok c n out, of sc] none by auto
  next
    case above
    then have "bool_try nxt adv min_of sc n s =
        (if bl_should s = None \<or> min_of (the (bl_should s)) = 0 then bool_found nxt sc [the (bl_currMust s)] s else bool_skip nxt s)"
      by (simp add: bool_try_def sgn_if)
    moreover have "bl_must s \<noteq> None" using above self n by auto
    ultimately show ?thesis using bool_alone [OF ok c n out, of sc] above by auto
  next
    case eq
    then have "bool_try nxt adv min_of sc n s = bool_found nxt sc (build_constituents s) s" by (simp add: bool_try_def)
    then show ?thesis using bool_both [OF ok c n out eq] by simp
  next
    case below
    have must: "bl_must s \<noteq> None" using below self n by auto
    obtain r where r: "move_should (\<lambda>c. adv c n) s = Some r" "\<forall>s'. r = Inr s' \<longrightarrow>
        bool_held n s s' \<and> (\<forall>y. bl_currShould s' = Some y \<longrightarrow> n \<le> Number y)"
      using bool_should_ok [OF ok c n must] below by auto
    have eq: "bool_try nxt adv min_of sc n s = bindr (move_should (\<lambda>c. adv c n) s) (\<lambda>s.
          if map_option Number (bl_currShould s) = Some n then bool_found nxt sc (build_constituents s) s
          else if min_of (the (bl_should s)) = 0 then bool_found nxt sc [the (bl_currMust s)] s
          else bool_skip nxt s)"
      using below by (simp add: bool_try_def sgn_if)
    show ?thesis
    proof (cases r)
      case (Inl e)
      then show ?thesis unfolding eq r(1) by simp
    next
      case (Inr s1)
      then have h: "bool_held n s s1" and up: "\<forall>y. bl_currShould s1 = Some y \<longrightarrow> n \<le> Number y" using r(2) by blast+
      have ok1: "bool_ok s1" "bl_currentMatch s1 = Some c" and v1: "bool_view s1 = bool_view s" using h c by (simp_all add: bool_held_def)
      have out1: "n \<notin> excluded s1" using out bool_view_eq(3) [OF v1] by simp
      have must1: "bl_must s1 \<noteq> None" and should1: "bl_should s1 \<noteq> None"
        using v1 must below ok by (auto simp: bool_view_def bool_ok_def opt_standing_def split: option.splits)
      have "\<exists>r. (if map_option Number (bl_currShould s1) = Some n then bool_found nxt sc (build_constituents s1) s1
          else if min_of (the (bl_should s1)) = 0 then bool_found nxt sc [the (bl_currMust s1)] s1
          else bool_skip nxt s1) = Some r \<and> (\<forall>rv s'. r = Inr (rv, s') \<longrightarrow> bool_decided sc n s1 rv s')"
      proof (cases "map_option Number (bl_currShould s1) = Some n")
        case True
        then show ?thesis using bool_both [OF ok1 n out1] by auto
      next
        case False
        then have "\<forall>y. bl_currShould s1 = Some y \<longrightarrow> n < Number y" using up by (auto simp: le_less)
        then show ?thesis unfolding if_not_P [OF False] using bool_alone [OF ok1 n out1 must1, of sc] should1 by simp
      qed
      then show ?thesis unfolding eq r(1) Inr bindr_simps using bool_held_decided [OF h] by blast
    qed
  qed
qed

lemma bool_round_ok:
  assumes ok: "bool_ok s" and c: "bl_currentMatch s = Some c" and n: "Number c = n"
  shows "\<exists>r. bool_round nxt adv min_of sc n s = Some r \<and> (\<forall>rv s'. r = Inr (rv, s') \<longrightarrow> bool_decided sc n s rv s')"
proof -
  have "\<exists>r. (case bl_currMustNot s of None \<Rightarrow> Some (Inr (False, s)) | Some x \<Rightarrow> bool_excludes nxt adv x n s) = Some r \<and>
    (\<forall>ex s'. r = Inr (ex, s') \<longrightarrow> (if ex then n \<in> excluded s \<and> bool_passed n s s' else n \<notin> excluded s \<and> bool_held n s s'))"
  proof (cases "bl_currMustNot s")
    case (Some x)
    then show ?thesis using bool_excludes_ok [OF ok c n Some] by simp
  next
    case None
    obtain b where "opt_live (bl_mustNot s) None b" "b \<le> n" using ok c n None by (auto simp: bool_ok_def)
    then have "n \<notin> excluded s" unfolding excluded_def by (rule opt_gone) simp
    moreover have "bool_held n s s" using ok by (simp add: bool_held_def)
    ultimately show ?thesis using None by simp
  qed
  then obtain r where r: "(case bl_currMustNot s of None \<Rightarrow> Some (Inr (False, s)) | Some x \<Rightarrow> bool_excludes nxt adv x n s) = Some r"
    "\<forall>ex s'. r = Inr (ex, s') \<longrightarrow> (if ex then n \<in> excluded s \<and> bool_passed n s s' else n \<notin> excluded s \<and> bool_held n s s')"
    by blast
  show ?thesis
  proof (cases r)
    case (Inl e)
    then show ?thesis using r(1) by (simp add: bool_round_def)
  next
    case (Inr es)
    obtain ex s1 where es: "es = (ex, s1)" by (cases es)
    have eq: "bool_round nxt adv min_of sc n s = (if ex then Some (Inr (None, s1)) else bool_try nxt adv min_of sc n s1)"
      using r(1) Inr es by (simp add: bool_round_def)
    show ?thesis
    proof (cases ex)
      case True
      then have x: "n \<in> excluded s" "bool_passed n s s1" using r(2) Inr es by auto
      then have "n \<notin> docs_of (bool_hits sc) s" by (auto simp: docs_of_def bool_hits_def)
      then show ?thesis unfolding eq using True x(2) by (simp add: bool_decided_def)
    next
      case False
      then have x: "n \<notin> excluded s" "bool_held n s s1" using r(2) Inr es by auto
      then have ok1: "bool_ok s1" "bl_currentMatch s1 = Some c" and "n \<notin> excluded s1"
        using c bool_view_eq(3) [of s1 s] by (simp_all add: bool_held_def)
      then show ?thesis unfolding eq using bool_try_ok [OF ok1 n, of sc] bool_held_decided [OF x(2)] False by simp blast
    qed
  qed
qed

lemma bool_driver_gone:
  assumes ok: "bool_ok s" and lv: "bool_live_at s b n" and j: "b \<le> j" "\<forall>c. bl_currentMatch s = Some c \<longrightarrow> j < Number c"
  shows "j \<notin> docs_of (bool_hits sc) s"
proof (cases "bl_must s")
  case None
  then have "current_of s = bl_currShould s" by (auto simp: current_of_def)
  then have "\<forall>d. bl_currShould s = Some d \<longrightarrow> j < Number d" using ok j(2) by (auto simp: bool_ok_def)
  then have "j \<notin> docs_opt (map_option hits (bl_should s))" using opt_gone j(1) lv None by (simp add: bool_live_at_def)
  then show ?thesis using None by (simp add: docs_bool bool_docs_def)
next
  case (Some M)
  then have "current_of s = bl_currMust s" by (auto simp: current_of_def)
  then have "\<forall>d. bl_currMust s = Some d \<longrightarrow> j < Number d" using ok j(2) by (auto simp: bool_ok_def)
  moreover have "opt_live (bl_must s) (bl_currMust s) b" using lv Some by (simp add: bool_live_at_def)
  ultimately have "j \<notin> docs_opt (map_option hits (bl_must s))" using opt_gone j(1) by blast
  then show ?thesis using Some by (simp add: docs_bool bool_docs_def)
qed

definition bool_from :: "'s bool_searcher \<Rightarrow> nat \<Rightarrow> bool" where
  "bool_from s p \<longleftrightarrow> (\<forall>d. bl_currentMatch s = Some d \<longrightarrow> p \<le> Number d)"

definition bool_post :: "composite \<Rightarrow> 's bool_searcher \<Rightarrow> document_match option \<Rightarrow> 's bool_searcher \<Rightarrow> bool" where
  "bool_post sc s m s' \<longleftrightarrow> bool_ok s' \<and> bool_view s' = bool_view s \<and> bl_initialized s' = bl_initialized s \<and> bl_done s' = bl_done s \<and>
     (\<forall>p d. bool_from s p \<longrightarrow> m = Some d \<longrightarrow> bool_hits sc s d \<and> p \<le> Number d \<and> bool_from s' (Suc (Number d))) \<and>
     (\<forall>b. bool_from s b \<longrightarrow> bool_live_at s b b \<longrightarrow> first_hit (docs_of (bool_hits sc) s) b m \<and>
        (\<forall>d. m = Some d \<longrightarrow> bool_exact sc s d \<and> bool_live_at s' (Suc (Number d)) (Suc (Number d))))"

lemma bool_live_at_mono: "bool_live_at s b n \<Longrightarrow> n \<le> n' \<Longrightarrow> bool_live_at s b n'"
  unfolding bool_live_at_def by (meson le_trans)

lemma bool_post_end:
  assumes "bool_ok s" "bl_currentMatch s = None"
  shows "bool_post sc s None s"
proof -
  have "i < b" if "bool_live_at s b b" "i \<in> docs_of (bool_hits sc) s" for b i
    using bool_driver_gone [OF assms(1) that(1), of i sc] that(2) assms(2) by (auto simp: not_le [symmetric])
  then have "first_hit (docs_of (bool_hits sc) s) b None" if "bool_live_at s b b" for b
    using that unfolding first_hit_def by simp
  then show ?thesis using assms by (simp add: bool_post_def)
qed

lemma bool_post_found:
  assumes ok: "bool_ok s" and c: "bl_currentMatch s = Some c" "Number c = n" and d: "bool_decided sc n s (Some d) s'"
  shows "bool_post sc s (Some d) s'"
proof -
  let ?D = "docs_of (bool_hits sc) s"
  have x: "Number d = n" "bool_hits sc s d" "\<And>b. bool_live_at s b n \<Longrightarrow> bool_exact sc s d" and p: "bool_passed n s s'"
    using d by (auto simp: bool_decided_def)
  have bn: "b \<le> n" if "bool_from s b" for b using that c by (simp add: bool_from_def)
  have nD: "n \<in> ?D" by (rule docs_ofI [where hits = "bool_hits sc"], rule x(2), rule x(1))
  have "first_hit ?D b (Some d)" if b: "bool_from s b" "bool_live_at s b b" for b
  proof -
    have "n \<le> j" if "j \<in> ?D" "b \<le> j" for j
    proof (rule ccontr)
      assume "\<not> n \<le> j"
      then have "j \<notin> ?D" using bool_driver_gone [OF ok b(2) that(2)] c by simp
      then show False using that(1) ..
    qed
    then show ?thesis using nD bn [OF b(1)] x(1) by (simp add: first_hit_def)
  qed
  moreover have "bool_exact sc s d \<and> bool_live_at s' (Suc (Number d)) (Suc (Number d))" if b: "bool_from s b" "bool_live_at s b b" for b
  proof -
    have "bool_live_at s b n" using bool_live_at_mono [OF b(2) bn [OF b(1)]] .
    then show ?thesis using x p unfolding bool_passed_def by blast
  qed
  moreover have "bool_from s' (Suc (Number d))" using p x(1) by (auto simp: bool_passed_def bool_from_def)
  ultimately show ?thesis using p x bn unfolding bool_post_def bool_passed_def by simp
qed

lemma bool_post_skip:
  assumes ok: "bool_ok s" and c: "bl_currentMatch s = Some c" "Number c = n" and d: "bool_decided sc n s None s'"
    and post: "bool_post sc s' m s''"
  shows "bool_post sc s m s''"
proof -
  have p: "bool_passed n s s'" and out: "\<And>b. bool_live_at s b n \<Longrightarrow> n \<notin> docs_of (bool_hits sc) s"
    using d by (auto simp: bool_decided_def)
  have v: "bool_view s' = bool_view s" using p by (simp add: bool_passed_def)
  note eqs = bool_view_eq [OF v]
  have bn: "b \<le> n" if "bool_from s b" for b using that c by (simp add: bool_from_def)
  have from': "bool_from s' (Suc n)" using p by (auto simp: bool_passed_def bool_from_def)
  have "first_hit (docs_of (bool_hits sc) s) b m \<and>
      (\<forall>d. m = Some d \<longrightarrow> bool_exact sc s d \<and> bool_live_at s'' (Suc (Number d)) (Suc (Number d)))"
    if b: "bool_from s b" "bool_live_at s b b" for b
  proof -
    have bn': "bool_live_at s b n" using bool_live_at_mono [OF b(2) bn [OF b(1)]] .
    then have "bool_live_at s' (Suc n) (Suc n)" using p unfolding bool_passed_def by blast
    then have 1: "first_hit (docs_of (bool_hits sc) s) (Suc n) m"
      "\<forall>d. m = Some d \<longrightarrow> bool_exact sc s d \<and> bool_live_at s'' (Suc (Number d)) (Suc (Number d))"
      using post from' unfolding bool_post_def eqs by blast+
    have "first_hit (docs_of (bool_hits sc) s) b m"
    proof (rule first_hit_lower [OF 1(1)])
      show "b \<le> Suc n" using bn [OF b(1)] by simp
      fix j assume j: "j \<in> docs_of (bool_hits sc) s" "b \<le> j" "j < Suc n"
      show False
      proof (cases "j = n")
        case True
        then show False using out [OF bn'] j(1) by simp
      next
        case False
        then have "j \<notin> docs_of (bool_hits sc) s" using bool_driver_gone [OF ok b(2) j(2)] j(3) c by simp
        then show False using j(1) ..
      qed
    qed
    then show ?thesis using 1(2) by blast
  qed
  moreover have "bool_hits sc s d \<and> q \<le> Number d \<and> bool_from s'' (Suc (Number d))" if "bool_from s q" "m = Some d" for q d
  proof -
    have "Suc n \<le> Number d" "bool_hits sc s d" "bool_from s'' (Suc (Number d))"
      using post from' that(2) unfolding bool_post_def eqs by blast+
    then show ?thesis using bn [OF that(1)] by simp
  qed
  ultimately show ?thesis using post p v unfolding bool_post_def bool_passed_def by simp
qed

lemma bool_loop_ok:
  "bool_ok s \<Longrightarrow> \<forall>c\<in>set_option (if bl_must s = None then bl_should s else bl_must s). \<forall>j\<in>docs_of hits c. j < B \<Longrightarrow>
    \<exists>r. bool_loop nxt adv min_of sc s = Some r \<and> (\<forall>m s'. r = Inr (m, s') \<longrightarrow> bool_post sc s m s')"
proof (induction "doc_weight B (bl_currentMatch s)" arbitrary: s rule: less_induct)
  case less
  note ok = less.prems(1)
  show ?case
  proof (cases "bl_currentMatch s")
    case None
    then have "bool_loop nxt adv min_of sc s = Some (Inr (None, s))" by (subst bool_loop.simps) simp
    then show ?thesis using bool_post_end [OF ok None] by simp
  next
    case (Some c)
    define n where "n = Number c"
    then have n: "Number c = n" ..
    obtain r where r: "bool_round nxt adv min_of sc n s = Some r" "\<forall>rv s'. r = Inr (rv, s') \<longrightarrow> bool_decided sc n s rv s'"
      using bool_round_ok [OF ok Some n] by blast
    have eq: "bool_loop nxt adv min_of sc s = bindr (Some r) (\<lambda>ms.
        if fst ms \<noteq> None then Some (Inr ms) else bool_loop nxt adv min_of sc (snd ms))"
      using r(1) Some n by (subst bool_loop.simps) simp
    show ?thesis
    proof (cases r)
      case (Inl e)
      then show ?thesis unfolding eq by simp
    next
      case (Inr ms)
      obtain rv s' where ms: "ms = (rv, s')" by (cases ms)
      then have dec: "bool_decided sc n s rv s'" using r(2) Inr by blast
      show ?thesis
      proof (cases rv)
        case (Some d)
        then show ?thesis unfolding eq Inr ms
          using bool_post_found [OF ok \<open>bl_currentMatch s = Some c\<close> n] dec by simp
      next
        case None
        have res: "bool_loop nxt adv min_of sc s = bool_loop nxt adv min_of sc s'" unfolding eq Inr ms using None by simp
        have p: "bool_ok s'" "bool_view s' = bool_view s" "\<forall>d. bl_currentMatch s' = Some d \<longrightarrow> n < Number d"
          using dec by (auto simp: bool_decided_def bool_passed_def)
        have view: "map_option hits (bl_must s') = map_option hits (bl_must s)" "map_option hits (bl_should s') = map_option hits (bl_should s)"
          using p(2) by (simp_all add: bool_view_def)
        have docs: "(\<forall>c\<in>set_option o'. \<forall>j\<in>docs_of hits c. j < B) \<longleftrightarrow> (\<forall>j\<in>docs_opt (map_option hits o'). j < B)" for o'
          by (cases o') (auto simp: docs_of_def)
        have none: "bl_must s' = None \<longleftrightarrow> bl_must s = None" using view(1) by (metis option.map_disc_iff)
        have B': "\<forall>c\<in>set_option (if bl_must s' = None then bl_should s' else bl_must s'). \<forall>j\<in>docs_of hits c. j < B"
          using less.prems(2) view none unfolding docs by (simp split: if_splits)
        have st: "opt_standing (if bl_must s = None then bl_should s else bl_must s) (Some c)"
          using ok bool_currents(1,2) [OF ok Some] by (auto simp: bool_ok_def)
        then have "n < B" using less.prems(2) opt_doc [OF st] n unfolding docs by simp
        then have "doc_weight B (bl_currentMatch s') < doc_weight B (bl_currentMatch s)"
          unfolding Some using p(3) n by (intro doc_weight_less) simp_all
        then obtain r' where "bool_loop nxt adv min_of sc s' = Some r'" "\<forall>m s''. r' = Inr (m, s'') \<longrightarrow> bool_post sc s' m s''"
          using less.hyps p(1) B' by blast
        then show ?thesis unfolding res
          using bool_post_skip [OF ok \<open>bl_currentMatch s = Some c\<close> n] dec None by blast
      qed
    qed
  qed
qed

lemma bool_loop_total:
  assumes ok: "bool_ok s"
  shows "\<exists>r. bool_loop nxt adv min_of sc s = Some r \<and> (\<forall>m s'. r = Inr (m, s') \<longrightarrow> bool_post sc s m s')"
proof -
  let ?o = "if bl_must s = None then bl_should s else bl_must s"
  have "\<forall>c\<in>set_option ?o. finite (docs_of hits c)"
    using ok finite_docs by (auto simp: bool_ok_def opt_standing_def standing_def)
  then have "finite (\<Union>c\<in>set_option ?o. docs_of hits c)" by (cases ?o) simp_all
  then obtain B where "\<forall>j\<in>(\<Union>c\<in>set_option ?o. docs_of hits c). j < B"
    using finite_nat_set_iff_bounded by blast
  then show ?thesis using bool_loop_ok [OF ok, of B sc] by blast
qed

text \<open>The state before the first call: the must-not searcher must be live from the start.\<close>

definition bool_fresh :: "'s bool_searcher \<Rightarrow> bool" where
  "bool_fresh s \<longleftrightarrow> \<not> bl_done s \<and> bl_currMust s = None \<and> bl_currShould s = None \<and> bl_currMustNot s = None \<and>
     (\<forall>c\<in>set_option (bl_must s) \<union> set_option (bl_should s). inv c) \<and> (\<forall>c\<in>set_option (bl_mustNot s). inv c \<and> live c 0)"

definition opt_move :: "('s \<Rightarrow> ('e, 's) step) \<Rightarrow> 's option \<Rightarrow> document_match option \<Rightarrow> ('e, document_match option \<times> 's option) result option" where
  "opt_move f c m = (case c of None \<Rightarrow> Some (Inr (m, None)) | Some x \<Rightarrow> bindr (f x) (\<lambda>(m, x). Some (Inr (m, Some x))))"

lemma moves_opt:
  "move_must f s = bindr (opt_move f (bl_must s) (bl_currMust s)) (\<lambda>(m, c). Some (Inr (s\<lparr>bl_must := c, bl_currMust := m\<rparr>)))"
  "move_should f s = bindr (opt_move f (bl_should s) (bl_currShould s)) (\<lambda>(m, c). Some (Inr (s\<lparr>bl_should := c, bl_currShould := m\<rparr>)))"
  "move_mustNot f s = bindr (opt_move f (bl_mustNot s) (bl_currMustNot s)) (\<lambda>(m, c). Some (Inr (s\<lparr>bl_mustNot := c, bl_currMustNot := m\<rparr>)))"
proof -
  have bindr_assoc: "bindr (bindr x g) h = bindr x (\<lambda>y. bindr (g y) h)" for x :: "('x, 'y) result option" and g h
    by (cases x) (auto simp: bindr_def split: sum.split)
  show "move_must f s = bindr (opt_move f (bl_must s) (bl_currMust s)) (\<lambda>(m, c). Some (Inr (s\<lparr>bl_must := c, bl_currMust := m\<rparr>)))"
    by (cases "bl_must s") (simp_all add: move_must_def opt_move_def bindr_assoc split_def)
  show "move_should f s = bindr (opt_move f (bl_should s) (bl_currShould s)) (\<lambda>(m, c). Some (Inr (s\<lparr>bl_should := c, bl_currShould := m\<rparr>)))"
    by (cases "bl_should s") (simp_all add: move_should_def opt_move_def bindr_assoc split_def)
  show "move_mustNot f s = bindr (opt_move f (bl_mustNot s) (bl_currMustNot s)) (\<lambda>(m, c). Some (Inr (s\<lparr>bl_mustNot := c, bl_currMustNot := m\<rparr>)))"
    by (cases "bl_mustNot s") (simp_all add: move_mustNot_def opt_move_def bindr_assoc split_def)
qed

definition opt_moved :: "'s option \<Rightarrow> 's option \<Rightarrow> document_match option \<Rightarrow> bool" where
  "opt_moved c c' m \<longleftrightarrow> opt_standing c' m \<and> map_option hits c' = map_option hits c \<and> map_option exact c' = map_option exact c \<and>
     map_option min_of c' = map_option min_of c \<and> (c' = None \<longleftrightarrow> c = None)"

lemma opt_next_ok:
  assumes "\<forall>x\<in>set_option c. inv x"
  shows "\<exists>r. opt_move nxt c None = Some r \<and> (\<forall>m c'. r = Inr (m, c') \<longrightarrow> opt_moved c c' m \<and>
    (\<forall>p d. (\<forall>x\<in>set_option c. upfrom x p) \<longrightarrow> m = Some d \<longrightarrow> p \<le> Number d) \<and>
    (\<forall>b. (\<forall>x\<in>set_option c. live x b) \<longrightarrow> opt_live c' m b))"
proof (cases c)
  case None
  then show ?thesis by (simp add: opt_move_def opt_moved_def opt_standing_def opt_live_def)
next
  case (Some x)
  then have ix: "inv x" using assms by simp
  obtain r where r: "nxt x = Some r" using nxt_total [OF ix] by blast
  show ?thesis
  proof (cases r)
    case (Inl e)
    then show ?thesis using r Some by (simp add: opt_move_def)
  next
    case (Inr mx)
    obtain m x' where mx: "mx = (m, x')" by (cases mx)
    note f = standing_fresh [OF ix r [unfolded Inr mx]] and mn = min_nxt [OF ix r [unfolded Inr mx]]
    have "opt_moved c (Some x') m" using f(1-3) mn Some by (simp add: opt_moved_def opt_standing_def)
    then show ?thesis using r Some Inr mx f(4,5) by (simp add: opt_move_def opt_live_def)
  qed
qed

lemma opt_advance_ok:
  assumes st: "opt_standing c m0" and below: "\<forall>y. m0 = Some y \<longrightarrow> Number y < n"
  shows "\<exists>r. opt_move (\<lambda>x. adv x n) c m0 = Some r \<and> (\<forall>m c'. r = Inr (m, c') \<longrightarrow> opt_moved c c' m \<and>
    (\<forall>d. m = Some d \<longrightarrow> n \<le> Number d) \<and> (\<forall>b\<le>n. opt_live c m0 b \<longrightarrow> opt_live c' m n))"
proof (cases c)
  case None
  then show ?thesis using st by (simp add: opt_move_def opt_moved_def opt_standing_def opt_live_def)
next
  case (Some x)
  then have sx: "standing x m0" and ix: "inv x" using st by (simp_all add: opt_standing_def standing_def)
  obtain r where r: "adv x n = Some r" using adv_total [OF ix] by blast
  show ?thesis
  proof (cases r)
    case (Inl e)
    then show ?thesis using r Some by (simp add: opt_move_def)
  next
    case (Inr mx)
    obtain m x' where mx: "mx = (m, x')" by (cases mx)
    note f = standing_advance [OF sx below r [unfolded Inr mx]] and mn = min_adv [OF ix r [unfolded Inr mx]]
    have "opt_moved c (Some x') m" using f(1-3) mn Some by (simp add: opt_moved_def opt_standing_def)
    then show ?thesis using r Some Inr mx f(4,5) by (auto simp: opt_move_def opt_live_def)
  qed
qed

lemma bool_init_ok:
  assumes fresh: "bool_fresh s"
  shows "\<exists>r. bool_init nxt s = Some r \<and> (\<forall>s'. r = Inr s' \<longrightarrow>
    bool_ok s' \<and> bool_view s' = bool_view s \<and> bl_initialized s' \<and> \<not> bl_done s' \<and> (bl_must s' = None \<longleftrightarrow> bl_must s = None) \<and>
    (\<forall>p. (\<forall>c\<in>set_option (if bl_must s = None then bl_should s else bl_must s). upfrom c p) \<longrightarrow> bool_from s' p) \<and>
    (\<forall>b. (\<forall>c\<in>set_option (bl_must s) \<union> set_option (bl_should s). live c b) \<longrightarrow> bool_live_at s' b b))"
proof -
  have cs: "bl_currMust s = None" "bl_currShould s = None" "bl_currMustNot s = None" and nd: "\<not> bl_done s"
    using fresh by (simp_all add: bool_fresh_def)
  obtain r1 where r1: "opt_move nxt (bl_must s) None = Some r1" "\<forall>m c'. r1 = Inr (m, c') \<longrightarrow> opt_moved (bl_must s) c' m \<and>
      (\<forall>p d. (\<forall>x\<in>set_option (bl_must s). upfrom x p) \<longrightarrow> m = Some d \<longrightarrow> p \<le> Number d) \<and>
      (\<forall>b. (\<forall>x\<in>set_option (bl_must s). live x b) \<longrightarrow> opt_live c' m b)"
    using opt_next_ok [of "bl_must s"] fresh by (auto simp: bool_fresh_def)
  obtain r2 where r2: "opt_move nxt (bl_should s) None = Some r2" "\<forall>m c'. r2 = Inr (m, c') \<longrightarrow> opt_moved (bl_should s) c' m \<and>
      (\<forall>p d. (\<forall>x\<in>set_option (bl_should s). upfrom x p) \<longrightarrow> m = Some d \<longrightarrow> p \<le> Number d) \<and>
      (\<forall>b. (\<forall>x\<in>set_option (bl_should s). live x b) \<longrightarrow> opt_live c' m b)"
    using opt_next_ok [of "bl_should s"] fresh by (auto simp: bool_fresh_def)
  obtain r3 where r3: "opt_move nxt (bl_mustNot s) None = Some r3" "\<forall>m c'. r3 = Inr (m, c') \<longrightarrow> opt_moved (bl_mustNot s) c' m \<and>
      opt_live c' m 0"
    using opt_next_ok [of "bl_mustNot s"] fresh by (auto simp: bool_fresh_def)
  have eq: "bool_init nxt s = bindr (Some r1) (\<lambda>(m1, c1). bindr (Some r2) (\<lambda>(m2, c2). bindr (Some r3) (\<lambda>(m3, c3).
      Some (Inr ((set_current (s\<lparr>bl_must := c1, bl_currMust := m1, bl_should := c2, bl_currShould := m2,
        bl_mustNot := c3, bl_currMustNot := m3\<rparr>))\<lparr>bl_initialized := True\<rparr>)))))"
    by (cases r1; cases r2; cases r3) (auto simp: bool_init_def moves_opt cs r1(1) r2(1) r3(1))
  show ?thesis
  proof (cases "(\<exists>e. r1 = Inl e) \<or> (\<exists>e. r2 = Inl e) \<or> (\<exists>e. r3 = Inl e)")
    case True
    then show ?thesis unfolding eq by (cases r1; cases r2; cases r3) (auto split: prod.split)
  next
    case False
    then obtain m1 c1 m2 c2 m3 c3 where rs: "r1 = Inr (m1, c1)" "r2 = Inr (m2, c2)" "r3 = Inr (m3, c3)"
      by (metis old.sum.exhaust surj_pair)
    let ?s = "(set_current (s\<lparr>bl_must := c1, bl_currMust := m1, bl_should := c2, bl_currShould := m2,
      bl_mustNot := c3, bl_currMustNot := m3\<rparr>))\<lparr>bl_initialized := True\<rparr>"
    have m: "opt_moved (bl_must s) c1 m1" "opt_moved (bl_should s) c2 m2" "opt_moved (bl_mustNot s) c3 m3" "opt_live c3 m3 0"
      using r1(2) r2(2) r3(2) rs by blast+
    have cur: "bl_currentMatch ?s = (if c1 = None then m2 else m1)" "current_of ?s = bl_currentMatch ?s"
      using m(1) by (auto simp: current_of_def set_current_def)
    have "bool_ok ?s" unfolding bool_ok_def cur(2) using m by (auto simp: opt_moved_def)
    moreover have "bool_view ?s = bool_view s" using m by (simp add: opt_moved_def bool_view_def)
    moreover have "bl_must ?s = None \<longleftrightarrow> bl_must s = None" using m(1) by (simp add: opt_moved_def)
    moreover have "bool_from ?s p" if "\<forall>c\<in>set_option (if bl_must s = None then bl_should s else bl_must s). upfrom c p" for p
      unfolding bool_from_def cur(1) using that r1(2) r2(2) rs m(1) by (auto simp: opt_moved_def split: if_splits)
    moreover have "bool_live_at ?s b b" if "\<forall>c\<in>set_option (bl_must s) \<union> set_option (bl_should s). live c b" for b
    proof -
      have "opt_live c1 m1 b" "opt_live c2 m2 b" using that r1(2) r2(2) rs by blast+
      then show ?thesis by (auto simp: bool_live_at_def)
    qed
    ultimately show ?thesis unfolding eq rs using nd by simp
  qed
qed

definition bool_inv :: "'s bool_searcher \<Rightarrow> bool" where
  "bool_inv s \<longleftrightarrow> (if bl_initialized s then bool_ok s else bool_fresh s)"

definition bool_upfrom :: "'s bool_searcher \<Rightarrow> nat \<Rightarrow> bool" where
  "bool_upfrom s p \<longleftrightarrow> bl_done s \<or>
     (if bl_initialized s then bool_from s p
      else \<forall>c\<in>set_option (if bl_must s = None then bl_should s else bl_must s). upfrom c p)"

definition bool_live :: "'s bool_searcher \<Rightarrow> nat \<Rightarrow> bool" where
  "bool_live s b \<longleftrightarrow>
     (if bl_done s then \<forall>j\<in>bool_docs (map_option hits (bl_must s)) (map_option hits (bl_should s)) (bool_required s) (map_option hits (bl_mustNot s)). j < b
      else if bl_initialized s then bool_from s b \<and> bool_live_at s b b
      else \<forall>c\<in>set_option (bl_must s) \<union> set_option (bl_should s). live c b)"

lemma bool_live_upfrom: "bool_live s b \<Longrightarrow> bool_upfrom s b"
  using live_upfrom by (auto simp: bool_live_def bool_upfrom_def split: if_splits)

lemma bool_prepared:
  assumes inv: "bool_inv s" and nd: "\<not> bl_done s"
  shows "\<exists>r. (if bl_initialized s then Some (Inr s) else bool_init nxt s) = Some r \<and> (\<forall>s'. r = Inr s' \<longrightarrow>
    bool_ok s' \<and> bool_view s' = bool_view s \<and> bl_initialized s' \<and> \<not> bl_done s' \<and>
    (\<forall>p. bool_upfrom s p \<longrightarrow> bool_from s' p) \<and> (\<forall>b. bool_live s b \<longrightarrow> bool_from s' b \<and> bool_live_at s' b b))"
proof (cases "bl_initialized s")
  case True
  then show ?thesis using assms by (simp add: bool_inv_def bool_upfrom_def bool_live_def)
next
  case False
  have "bool_fresh s" using False inv by (simp add: bool_inv_def)
  then obtain r where r: "bool_init nxt s = Some r" "\<forall>s'. r = Inr s' \<longrightarrow>
    bool_ok s' \<and> bool_view s' = bool_view s \<and> bl_initialized s' \<and> \<not> bl_done s' \<and> (bl_must s' = None \<longleftrightarrow> bl_must s = None) \<and>
    (\<forall>p. (\<forall>c\<in>set_option (if bl_must s = None then bl_should s else bl_must s). upfrom c p) \<longrightarrow> bool_from s' p) \<and>
    (\<forall>b. (\<forall>c\<in>set_option (bl_must s) \<union> set_option (bl_should s). live c b) \<longrightarrow> bool_live_at s' b b)"
    using bool_init_ok by blast
  have up: "bool_upfrom s p \<longleftrightarrow> (\<forall>c\<in>set_option (if bl_must s = None then bl_should s else bl_must s). upfrom c p)" for p
    using False nd by (simp add: bool_upfrom_def)
  have lv: "bool_live s b \<longleftrightarrow> (\<forall>c\<in>set_option (bl_must s) \<union> set_option (bl_should s). live c b)" for b
    using False nd by (simp add: bool_live_def)
  show ?thesis using r False bool_live_upfrom unfolding lv [symmetric] up [symmetric] by simp
qed

lemma bool_next_post:
  assumes init: "bl_initialized s" "\<not> bl_done s" and ok: "bool_ok s"
  shows "\<exists>r. bool_next nxt adv min_of sc s = Some r \<and> (\<forall>m s'. r = Inr (m, s') \<longrightarrow>
    bool_inv s' \<and> bool_view s' = bool_view s \<and>
    (\<forall>p d. bool_from s p \<longrightarrow> m = Some d \<longrightarrow> bool_hits sc s d \<and> p \<le> Number d \<and> bool_upfrom s' (Suc (Number d))) \<and>
    (\<forall>b. bool_from s b \<longrightarrow> bool_live_at s b b \<longrightarrow> first_hit (docs_of (bool_hits sc) s) b m \<and>
      (\<forall>d. m = Some d \<longrightarrow> bool_exact sc s d \<and> bool_live s' (Suc (Number d)))))"
proof -
  obtain r where r: "bool_loop nxt adv min_of sc s = Some r" "\<forall>m s'. r = Inr (m, s') \<longrightarrow> bool_post sc s m s'"
    using bool_loop_total [OF ok] by blast
  have eq: "bool_next nxt adv min_of sc s = bindr (Some r) (\<lambda>(rv, s). Some (Inr (rv, if rv = None then s\<lparr>bl_done := True\<rparr> else s)))"
    using init r(1) by (simp add: bool_next_def)
  show ?thesis
  proof (cases r)
    case (Inl e)
    then show ?thesis unfolding eq by simp
  next
    case (Inr ms)
    obtain m s' where ms: "ms = (m, s')" by (cases ms)
    then have post: "bool_post sc s m s'" using r(2) Inr by blast
    let ?s = "if m = None then s'\<lparr>bl_done := True\<rparr> else s'"
    have res: "bool_next nxt adv min_of sc s = Some (Inr (m, ?s))" unfolding eq Inr ms by simp
    have i: "bl_initialized s'" "\<not> bl_done s'" "bool_ok s'" using post init by (simp_all add: bool_post_def)
    have "bool_inv ?s" using i by (simp add: bool_inv_def bool_ok_def current_of_def)
    moreover have "bool_view ?s = bool_view s" using post by (simp add: bool_post_def bool_view_def)
    moreover have "bool_hits sc s d \<and> p \<le> Number d \<and> bool_upfrom ?s (Suc (Number d))" if "bool_from s p" "m = Some d" for p d
      using post that i by (simp add: bool_post_def bool_upfrom_def)
    moreover have "first_hit (docs_of (bool_hits sc) s) b m \<and> (\<forall>d. m = Some d \<longrightarrow> bool_exact sc s d \<and> bool_live ?s (Suc (Number d)))"
      if "bool_from s b" "bool_live_at s b b" for b
      using post that i by (simp add: bool_post_def bool_live_def)
    ultimately show ?thesis unfolding res by blast
  qed
qed

lemma bool_next_walks:
  assumes inv: "bool_inv s" and p: "bool_upfrom s p"
  shows "\<exists>r. bool_next nxt adv min_of sc s = Some r \<and> (\<forall>m s'. r = Inr (m, s') \<longrightarrow>
        bool_inv s' \<and> bool_hits sc s' = bool_hits sc s \<and> bool_exact sc s' = bool_exact sc s \<and>
        (\<forall>d. m = Some d \<longrightarrow> bool_hits sc s d \<and> p \<le> Number d \<and> bool_upfrom s' (Suc (Number d))) \<and>
        (bool_live s p \<longrightarrow> first_hit (docs_of (bool_hits sc) s) p m \<and>
          (\<forall>d. m = Some d \<longrightarrow> bool_exact sc s d \<and> bool_live s' (Suc (Number d)))))"
proof (cases "bl_done s")
  case True
  then have "bool_next nxt adv min_of sc s = Some (Inr (None, s))" by (simp add: bool_next_def)
  moreover have "bool_live s p \<Longrightarrow> first_hit (docs_of (bool_hits sc) s) p None"
    using True by (simp add: bool_live_def docs_bool first_hit_def)
  ultimately show ?thesis using inv by simp
next
  case False
  obtain r where r: "(if bl_initialized s then Some (Inr s) else bool_init nxt s) = Some r" "\<forall>s'. r = Inr s' \<longrightarrow>
    bool_ok s' \<and> bool_view s' = bool_view s \<and> bl_initialized s' \<and> \<not> bl_done s' \<and>
    (\<forall>p. bool_upfrom s p \<longrightarrow> bool_from s' p) \<and> (\<forall>b. bool_live s b \<longrightarrow> bool_from s' b \<and> bool_live_at s' b b)"
    using bool_prepared [OF inv False] by blast
  show ?thesis
  proof (cases r)
    case (Inl e)
    then show ?thesis using r(1) False by (simp add: bool_next_def)
  next
    case (Inr s1)
    then have s1: "bool_ok s1" "bl_initialized s1" "\<not> bl_done s1" and v: "bool_view s1 = bool_view s"
      and up: "bool_from s1 p" and lv: "bool_live s p \<longrightarrow> bool_live_at s1 p p"
      using r(2) p by blast+
    have eq: "bool_next nxt adv min_of sc s = bool_next nxt adv min_of sc s1"
      using r(1) False Inr s1(2,3) by (simp add: bool_next_def)
    note vw = bool_view_eq [OF v]
    obtain r' where r': "bool_next nxt adv min_of sc s1 = Some r'" "\<forall>m s'. r' = Inr (m, s') \<longrightarrow>
        bool_inv s' \<and> bool_view s' = bool_view s1 \<and>
        (\<forall>p d. bool_from s1 p \<longrightarrow> m = Some d \<longrightarrow> bool_hits sc s d \<and> p \<le> Number d \<and> bool_upfrom s' (Suc (Number d))) \<and>
        (\<forall>b. bool_from s1 b \<longrightarrow> bool_live_at s1 b b \<longrightarrow> first_hit (docs_of (bool_hits sc) s) b m \<and>
          (\<forall>d. m = Some d \<longrightarrow> bool_exact sc s d \<and> bool_live s' (Suc (Number d))))"
      using bool_next_post [OF s1(2,3,1), of sc] unfolding vw by blast
    have "bool_hits sc s' = bool_hits sc s \<and> bool_exact sc s' = bool_exact sc s" if "bool_view s' = bool_view s1" for s'
      using bool_view_eq [OF that] vw by simp
    then show ?thesis unfolding eq using r' up lv by blast
  qed
qed

lemma boolean_walker:
  "walker (bool_next nxt adv min_of sc) bool_inv (bool_hits sc) (bool_exact sc) bool_upfrom bool_live"
proof
  fix s assume inv: "bool_inv s"
  let ?o = "if bl_must s = None then bl_should s else bl_must s"
  have ci: "\<forall>c\<in>set_option ?o. inv c"
    using inv by (auto simp: bool_inv_def bool_ok_def bool_fresh_def opt_standing_def standing_def split: if_splits)
  have "docs_of (bool_hits sc) s \<subseteq> docs_opt (map_option hits ?o)" by (auto simp: docs_bool bool_docs_def split: if_splits)
  moreover have "finite (docs_opt (map_option hits ?o))"
  proof (cases ?o)
    case (Some c)
    then have "finite (docs_of hits c)" using ci by (intro finite_docs) (simp add: Some)
    then show ?thesis unfolding Some by (simp add: docs_of_def)
  qed simp
  ultimately show "finite (docs_of (bool_hits sc) s)" by (rule finite_subset)
  show "bool_upfrom s 0" using ci upfrom_0 by (simp add: bool_upfrom_def bool_from_def)
qed (rule bool_live_upfrom, assumption, rule bool_next_walks)

text \<open>
  \<open>Advance\<close> moves the should searcher even when it stands above the number already, so it is
  right only when there is no must searcher beside it.
\<close>

lemma advance_if_trailing_ok:
  assumes ok: "bool_ok s" and below: "\<forall>c. bl_currentMatch s = Some c \<longrightarrow> Number c < n"
    and one: "bl_must s = None \<or> bl_should s = None" and lv: "bool_live_at s b b" and b: "b \<le> n"
  shows "\<exists>r. advance_if_trailing adv n s = Some r \<and> (\<forall>s'. r = Inr s' \<longrightarrow>
    bool_ok s' \<and> bool_view s' = bool_view s \<and> bl_initialized s' = bl_initialized s \<and> bl_done s' = bl_done s \<and>
    bool_from s' n \<and> bool_live_at s' n n)"
proof -
  let ?adv = "\<lambda>x. adv x n" and ?cond = "case bl_currMustNot s of None \<Rightarrow> True | Some x \<Rightarrow> Number x < n"
  have st: "opt_standing (bl_must s) (bl_currMust s)" "opt_standing (bl_should s) (bl_currShould s)" "opt_standing (bl_mustNot s) (bl_currMustNot s)"
    and cur: "bl_currentMatch s = current_of s" using ok by (simp_all add: bool_ok_def)
  have none: "bl_must s = None \<Longrightarrow> bl_currMust s = None" "bl_should s = None \<Longrightarrow> bl_currShould s = None"
    using st(1,2) by (simp_all add: opt_standing_def)
  have cm: "\<forall>y. bl_currMust s = Some y \<longrightarrow> Number y < n" using below cur none by (auto simp: current_of_def split: if_splits)
  have cs: "\<forall>y. bl_currShould s = Some y \<longrightarrow> Number y < n" using below cur none one by (auto simp: current_of_def split: if_splits)
  obtain r1 where r1: "opt_move ?adv (bl_must s) (bl_currMust s) = Some r1" "\<forall>m c'. r1 = Inr (m, c') \<longrightarrow> opt_moved (bl_must s) c' m \<and>
      (\<forall>d. m = Some d \<longrightarrow> n \<le> Number d) \<and> (\<forall>b\<le>n. opt_live (bl_must s) (bl_currMust s) b \<longrightarrow> opt_live c' m n)"
    using opt_advance_ok [OF st(1) cm] by blast
  obtain r2 where r2: "opt_move ?adv (bl_should s) (bl_currShould s) = Some r2" "\<forall>m c'. r2 = Inr (m, c') \<longrightarrow> opt_moved (bl_should s) c' m \<and>
      (\<forall>d. m = Some d \<longrightarrow> n \<le> Number d) \<and> (\<forall>b\<le>n. opt_live (bl_should s) (bl_currShould s) b \<longrightarrow> opt_live c' m n)"
    using opt_advance_ok [OF st(2) cs] by blast
  have "\<exists>r. (if ?cond then opt_move ?adv (bl_mustNot s) (bl_currMustNot s) else Some (Inr (bl_currMustNot s, bl_mustNot s))) = Some r \<and>
      (\<forall>m c'. r = Inr (m, c') \<longrightarrow> opt_moved (bl_mustNot s) c' m \<and>
        (\<forall>b\<le>n. opt_live (bl_mustNot s) (bl_currMustNot s) b \<longrightarrow> (\<exists>b'\<le>n. opt_live c' m b')))"
  proof (cases ?cond)
    case True
    then have cn: "\<forall>y. bl_currMustNot s = Some y \<longrightarrow> Number y < n" by auto
    obtain r where r: "opt_move ?adv (bl_mustNot s) (bl_currMustNot s) = Some r" "\<forall>m c'. r = Inr (m, c') \<longrightarrow> opt_moved (bl_mustNot s) c' m \<and>
        (\<forall>d. m = Some d \<longrightarrow> n \<le> Number d) \<and> (\<forall>b\<le>n. opt_live (bl_mustNot s) (bl_currMustNot s) b \<longrightarrow> opt_live c' m n)"
      using opt_advance_ok [OF st(3) cn] by (elim exE conjE) (rule that)
    show ?thesis unfolding if_P [OF True] r(1) using r(2) by auto
  next
    case False
    then show ?thesis using st(3) by (simp add: opt_moved_def, blast)
  qed
  then obtain r3 where r3: "(if ?cond then opt_move ?adv (bl_mustNot s) (bl_currMustNot s) else Some (Inr (bl_currMustNot s, bl_mustNot s))) = Some r3"
    "\<forall>m c'. r3 = Inr (m, c') \<longrightarrow> opt_moved (bl_mustNot s) c' m \<and>
        (\<forall>b\<le>n. opt_live (bl_mustNot s) (bl_currMustNot s) b \<longrightarrow> (\<exists>b'\<le>n. opt_live c' m b'))" by blast
  have step3: "(if ?cond then move_mustNot ?adv t else Some (Inr t)) = bindr (Some r3) (\<lambda>(m, c). Some (Inr (t\<lparr>bl_mustNot := c, bl_currMustNot := m\<rparr>)))"
    if "bl_mustNot t = bl_mustNot s" "bl_currMustNot t = bl_currMustNot s" for t
    using r3(1) that by (cases ?cond) (auto simp: moves_opt)
  have eq: "advance_if_trailing adv n s = bindr (Some r1) (\<lambda>(m1, c1). bindr (Some r2) (\<lambda>(m2, c2). bindr (Some r3) (\<lambda>(m3, c3).
      Some (Inr (set_current (s\<lparr>bl_must := c1, bl_currMust := m1, bl_should := c2, bl_currShould := m2,
        bl_mustNot := c3, bl_currMustNot := m3\<rparr>))))))"
    unfolding advance_if_trailing_def moves_opt(1,2) r1(1)
    by (cases r1; cases r2; cases r3) (auto simp: r2(1) step3)
  show ?thesis
  proof (cases "(\<exists>e. r1 = Inl e) \<or> (\<exists>e. r2 = Inl e) \<or> (\<exists>e. r3 = Inl e)")
    case True
    then show ?thesis unfolding eq by (cases r1; cases r2; cases r3) (auto split: prod.split)
  next
    case False
    then obtain m1 c1 m2 c2 m3 c3 where rs: "r1 = Inr (m1, c1)" "r2 = Inr (m2, c2)" "r3 = Inr (m3, c3)"
      by (metis old.sum.exhaust surj_pair)
    let ?s = "set_current (s\<lparr>bl_must := c1, bl_currMust := m1, bl_should := c2, bl_currShould := m2,
      bl_mustNot := c3, bl_currMustNot := m3\<rparr>)"
    have m: "opt_moved (bl_must s) c1 m1" "opt_moved (bl_should s) c2 m2" "opt_moved (bl_mustNot s) c3 m3"
      using r1(2) r2(2) r3(2) rs by blast+
    have up: "\<forall>d. m1 = Some d \<longrightarrow> n \<le> Number d" "\<forall>d. m2 = Some d \<longrightarrow> n \<le> Number d" using r1(2) r2(2) rs by blast+
    have cur': "bl_currentMatch ?s = (if c1 = None then m2 else m1)" using m(1) by (auto simp: current_of_def opt_moved_def opt_standing_def)
    have from_n: "bool_from ?s n" unfolding bool_from_def cur' using up by simp
    have live': "bool_live_at ?s n n"
      using lv b r1(2) r2(2) rs m(1) one by (auto simp: bool_live_at_def opt_moved_def opt_live_def)
    have view: "bool_view ?s = bool_view s" using m by (simp add: opt_moved_def bool_view_def)
    have neg: "\<exists>b'\<le>Number d. opt_live c3 m3 b'" if d: "bl_currentMatch ?s = Some d" for d
    proof (cases "bl_currentMatch s")
      case (Some c)
      then obtain b0 where "opt_live (bl_mustNot s) (bl_currMustNot s) b0" "b0 \<le> n"
        using ok below by (fastforce simp: bool_ok_def)
      then obtain b' where "b' \<le> n" "opt_live c3 m3 b'" using r3(2) rs by blast
      moreover have "n \<le> Number d" using from_n d by (simp add: bool_from_def)
      ultimately show ?thesis by (meson le_trans)
    next
      case None
      let ?o = "if bl_must s = None then bl_should s else bl_must s" and ?cur = "if bl_must s = None then bl_currShould s else bl_currMust s"
      have "?cur = None" using None cur by (auto simp: current_of_def split: if_splits)
      then have o: "opt_live ?o None b" using lv by (auto simp: bool_live_at_def)
      have "opt_standing (if c1 = None then c2 else c1) (Some d)" using d m unfolding cur' by (auto simp: opt_moved_def)
      then have "Number d \<in> docs_opt (map_option hits (if c1 = None then c2 else c1))" by (rule opt_doc)
      then have "Number d \<in> docs_opt (map_option hits ?o)" using m by (auto simp: opt_moved_def split: if_splits)
      moreover have "b \<le> Number d" using from_n d b by (auto simp: bool_from_def)
      then have "Number d \<notin> docs_opt (map_option hits ?o)" by (rule opt_gone [OF o]) simp
      ultimately show ?thesis by blast
    qed
    then have "bool_ok ?s" using m by (auto simp: bool_ok_def opt_moved_def)
    then show ?thesis unfolding eq rs using view from_n live' by simp
  qed
qed

lemma bool_live_at_from:
  assumes "bool_ok s" "bool_live_at s b b" "bool_from s n" "b \<le> n"
  shows "bool_live_at s n n"
proof -
  have cur: "bl_currentMatch s = current_of s" using assms(1) by (simp add: bool_ok_def)
  have mono: "opt_live c m b \<Longrightarrow> \<forall>d. m = Some d \<longrightarrow> n \<le> Number d \<Longrightarrow> opt_live c m n" for c m
    using standing_live_mono assms(4) unfolding opt_live_def by blast
  show ?thesis
  proof (cases "bl_must s = None")
    case True
    then have "\<forall>d. bl_currShould s = Some d \<longrightarrow> n \<le> Number d" using assms(3) cur by (auto simp: bool_from_def current_of_def)
    then show ?thesis using assms(2) mono True by (simp add: bool_live_at_def)
  next
    case False
    then have "\<forall>d. bl_currMust s = Some d \<longrightarrow> n \<le> Number d" using assms(3) cur by (auto simp: bool_from_def current_of_def)
    then show ?thesis using assms(2,4) mono False by (auto simp: bool_live_at_def intro: le_trans)
  qed
qed

lemma bool_advance_ok:
  assumes inv: "bool_inv s" and lv: "bool_live s b" and b: "b \<le> n" and one: "bl_must s = None \<or> bl_should s = None"
  shows "\<exists>r. bool_advance nxt adv min_of sc s n = Some r \<and> (\<forall>m s'. r = Inr (m, s') \<longrightarrow>
    bool_inv s' \<and> bool_view s' = bool_view s \<and> first_hit (docs_of (bool_hits sc) s) n m \<and>
    (\<forall>d. m = Some d \<longrightarrow> bool_exact sc s d \<and> bool_live s' (Suc (Number d))))"
proof (cases "bl_done s")
  case True
  then have "bool_advance nxt adv min_of sc s n = Some (Inr (None, s))" by (simp add: bool_advance_def)
  moreover have "first_hit (docs_of (bool_hits sc) s) n None"
    using lv True b by (auto simp: bool_live_def docs_bool first_hit_def)
  ultimately show ?thesis using inv by simp
next
  case False
  obtain r where r: "(if bl_initialized s then Some (Inr s) else bool_init nxt s) = Some r" "\<forall>s'. r = Inr s' \<longrightarrow>
    bool_ok s' \<and> bool_view s' = bool_view s \<and> bl_initialized s' \<and> \<not> bl_done s' \<and>
    (\<forall>p. bool_upfrom s p \<longrightarrow> bool_from s' p) \<and> (\<forall>b. bool_live s b \<longrightarrow> bool_from s' b \<and> bool_live_at s' b b)"
    using bool_prepared [OF inv False] by blast
  show ?thesis
  proof (cases r)
    case (Inl e)
    then show ?thesis using r(1) False by (simp add: bool_advance_def)
  next
    case (Inr s1)
    then have s1: "bool_ok s1" "bl_initialized s1" "\<not> bl_done s1" and v1: "bool_view s1 = bool_view s"
      and lv1: "bool_live_at s1 b b" using r(2) lv by blast+
    have one1: "bl_must s1 = None \<or> bl_should s1 = None" using one v1 unfolding bool_view_def by (metis option.map_disc_iff prod.inject)
    let ?trail = "case bl_currentMatch s1 of None \<Rightarrow> True | Some c \<Rightarrow> Number c < n"
    have "\<exists>r. (if ?trail then advance_if_trailing adv n s1 else Some (Inr s1)) = Some r \<and> (\<forall>s'. r = Inr s' \<longrightarrow>
      bool_ok s' \<and> bool_view s' = bool_view s \<and> bl_initialized s' \<and> \<not> bl_done s' \<and> bool_from s' n \<and> bool_live_at s' n n)"
    proof (cases ?trail)
      case True
      then have "\<forall>c. bl_currentMatch s1 = Some c \<longrightarrow> Number c < n" by auto
      then show ?thesis using advance_if_trailing_ok [OF s1(1) _ one1 lv1 b] s1 v1 True by auto
    next
      case False
      then have "bool_from s1 n" by (auto simp: bool_from_def split: option.splits)
      moreover from this have "bool_live_at s1 n n" by (rule bool_live_at_from [OF s1(1) lv1 _ b])
      ultimately show ?thesis using s1 v1 unfolding if_not_P [OF False] by simp
    qed
    then obtain r2 where r2: "(if ?trail then advance_if_trailing adv n s1 else Some (Inr s1)) = Some r2" "\<forall>s'. r2 = Inr s' \<longrightarrow>
      bool_ok s' \<and> bool_view s' = bool_view s \<and> bl_initialized s' \<and> \<not> bl_done s' \<and> bool_from s' n \<and> bool_live_at s' n n" by blast
    have eq: "bool_advance nxt adv min_of sc s n = bindr (Some r2) (bool_next nxt adv min_of sc)"
      unfolding bool_advance_def if_not_P [OF False] r(1) Inr bindr_simps r2(1) ..
    show ?thesis
    proof (cases r2)
      case (Inl e)
      then show ?thesis unfolding eq by simp
    next
      case (Inr s2)
      then have s2: "bool_ok s2" "bool_view s2 = bool_view s" "bl_initialized s2" "\<not> bl_done s2" "bool_from s2 n" "bool_live_at s2 n n"
        using r2(2) by blast+
      have "bool_inv s2" "bool_upfrom s2 n" using s2 by (simp_all add: bool_inv_def bool_upfrom_def)
      then show ?thesis unfolding eq Inr bindr_simps
        using bool_next_post [OF s2(3,4,1), of sc] s2(5,6) bool_view_eq [OF s2(2)] s2(2) by metis
    qed
  qed
qed

end

lemma new_boolean_ok:
  assumes s: "min_searcher nxt adv cinv hits exact upfrom live min_of"
    and cs: "\<forall>c\<in>set_option must \<union> set_option should \<union> set_option mustNot. cinv c \<and> live c 0"
  shows "min_searcher.bool_inv cinv hits exact upfrom live (new_boolean must should mustNot)"
    "min_searcher.bool_live hits exact live min_of (new_boolean must should mustNot) 0"
  using cs by (simp_all add: min_searcher.bool_inv_def [OF s] min_searcher.bool_live_def [OF s] min_searcher.bool_fresh_def [OF s] new_boolean_def)

end
