(* ===== verification/Boolean_Runs.thy ===== *)
theory Boolean_Runs
  imports Composite_Runs Boolean_Searcher
begin

text \<open>
  The boolean searcher over the model's own searchers: what its runs return, where \<open>Advance\<close> is
  right, and a query on which it loses a document.
\<close>

section \<open>\<open>Min\<close> of the disjunction\<close>

lemma disj_next_list_min: "disj_next_list nxt s xs = Some (Inr s') \<Longrightarrow> dj_min s' = dj_min s"
proof (induction xs arbitrary: s)
  case (Cons x xs)
  then show ?case
    by (cases "nxt (dj_searchers s ! x)") (auto simp: bindr_def split: sum.splits dest: Cons.IH)
qed simp

lemma disj_advance_list_min: "disj_advance_list adv s xs n = Some (Inr s') \<Longrightarrow> dj_min s' = dj_min s"
proof (induction xs arbitrary: s)
  case (Cons x xs)
  show ?case
  proof (cases "case dj_currs s ! x of None \<Rightarrow> False | Some c \<Rightarrow> n \<le> Number c")
    case True
    then show ?thesis using Cons by simp
  next
    case False
    then show ?thesis using Cons.prems
      by (cases "adv (dj_searchers s ! x) n") (auto simp: bindr_def split: sum.splits if_splits dest: Cons.IH)
  qed
qed simp

lemma dj_min_update [simp]: "dj_min (update_matches s) = dj_min s"
  by (simp add: update_matches_eq)

lemma bindr_Inr: "bindr m f = Some (Inr b) \<longleftrightarrow> (\<exists>a. m = Some (Inr a) \<and> f a = Some (Inr b))"
proof (cases m)
  case (Some r)
  then show ?thesis by (cases r) auto
qed simp

lemma disj_loop_min:
  assumes "disj_loop nxt sc s = Some (Inr (m, s'))"
  shows "dj_min s' = dj_min s"
proof -
  have "\<forall>m s'. y = Inr (m, s') \<longrightarrow> dj_min s' = dj_min s" if "disj_loop nxt sc s = Some y" for y
    using that
  proof (rule disj_loop.raw_induct [rotated], goal_cases)
    case (1 loop nxt sc s y)
    from 1(2) show ?case
      by (auto simp: Let_def bindr_Inr split: if_splits dest!: disj_next_list_min 1(1))
  qed
  then show ?thesis using assms by blast
qed

lemma disj_prepare_min:
  "(if dj_initialized s then Some (Inr s) else disj_init nxt s) = Some (Inr s') \<Longrightarrow> dj_min s' = dj_min s"
  by (auto simp: disj_init_def bindr_Inr split: if_splits dest!: disj_next_list_min)

lemma disj_next_min: "disj_next nxt sc s = Some (Inr (m, s')) \<Longrightarrow> dj_min s' = dj_min s"
  unfolding disj_next_def bindr_Inr using disj_prepare_min disj_loop_min by metis

lemma disj_advance_min: "disj_advance nxt adv sc s n = Some (Inr (m, s')) \<Longrightarrow> dj_min s' = dj_min s"
  unfolding disj_advance_def bindr_Inr using disj_prepare_min disj_advance_list_min disj_next_min dj_min_update by metis

section \<open>Interpretations\<close>

lemma term_min_searcher:
  assumes "searcher nxt adv cinv hits exact upfrom live"
  shows "min_searcher nxt adv cinv hits exact upfrom live (\<lambda>_. 0)"
  using assms by (simp add: min_searcher_def min_searcher_axioms_def)

lemma disj_min_searcher:
  assumes "searcher nxt adv cinv hits exact upfrom live"
  shows "min_searcher (disj_next nxt sc) (disj_advance nxt adv sc) (searcher.disj_inv cinv hits upfrom)
    (disj_hits hits sc) (disj_exact hits exact sc) (searcher.disj_upfrom upfrom) (searcher.disj_live hits exact upfrom live) dj_min"
  using searcher.disjunction_searcher [OF assms] disj_next_min disj_advance_min
  unfolding min_searcher_def min_searcher_axioms_def by blast

interpretation boolean_terms: min_searcher
  "term_next (snap_next one_hit_next) (term_build opt)"
  "term_advance (snap_advance one_hit_next one_hit_advance) (term_build opt)"
  one_hit.snap_inv "one_hit_snapshot.term_hits (term_build opt)" "one_hit_snapshot.term_hits (term_build opt)"
  one_hit.snap_upfrom one_hit.snap_live "\<lambda>_. 0"
  for opt
  by (rule term_min_searcher [OF one_hit_term.searcher_axioms])

interpretation boolean_walk: walker
  "bool_next (term_next (snap_next one_hit_next) (term_build opt)) (term_advance (snap_advance one_hit_next one_hit_advance) (term_build opt)) (\<lambda>_. 0) sc"
  "boolean_terms.bool_inv opt" "boolean_terms.bool_hits opt sc" "boolean_terms.bool_exact opt sc"
  "boolean_terms.bool_upfrom" "boolean_terms.bool_live opt"
  for opt sc
  by (rule boolean_terms.boolean_walker)

section \<open>Runs\<close>

definition required_by :: "('s \<Rightarrow> int) \<Rightarrow> 's option \<Rightarrow> bool" where
  "required_by min_of should \<longleftrightarrow> (\<exists>c. should = Some c \<and> min_of c \<noteq> 0)"

lemma new_boolean_docs:
  assumes s: "min_searcher nxt adv cinv hits exact upfrom live min_of"
  shows "docs_of (min_searcher.bool_hits hits min_of sc) (new_boolean must should mustNot) =
      bool_docs (map_option hits must) (map_option hits should) (required_by min_of should) (map_option hits mustNot)"
    "min_searcher.bool_exact hits exact min_of sc (new_boolean must should mustNot) d \<Longrightarrow>
      bool_form sc (map_option exact must) (map_option exact should) (required_by min_of should) (docs_opt (map_option hits should)) d"
proof -
  have r: "min_searcher.bool_required min_of (new_boolean must should mustNot) = required_by min_of should"
    by (cases should) (simp_all add: min_searcher.bool_required_def [OF s] new_boolean_def required_by_def)
  show "docs_of (min_searcher.bool_hits hits min_of sc) (new_boolean must should mustNot) =
      bool_docs (map_option hits must) (map_option hits should) (required_by min_of should) (map_option hits mustNot)"
    unfolding min_searcher.docs_bool [OF s] r by (simp add: new_boolean_def)
  show "min_searcher.bool_exact hits exact min_of sc (new_boolean must should mustNot) d \<Longrightarrow>
      bool_form sc (map_option exact must) (map_option exact should) (required_by min_of should) (docs_opt (map_option hits should)) d"
    unfolding min_searcher.bool_exact_def [OF s] r by (simp add: new_boolean_def)
qed

lemma first_hit_from_on:
  assumes "finite D" "first_hit D n m"
  shows "map_option Number m = (case from_on D n of [] \<Rightarrow> None | j # _ \<Rightarrow> Some j)"
proof (cases m)
  case None
  then show ?thesis using from_on_None assms by simp
next
  case (Some d)
  then show ?thesis using from_on_Some [OF assms(1), of n d] assms(2) by simp
qed

text \<open>
  C20: Repeated \<open>Next\<close> on a boolean searcher terminates and returns, in ascending order and once
  each, exactly the documents of the must searcher (of the should searcher when there is none) that
  the must-not searcher does not have and, when the should searcher demands a match, that searcher
  has; each match is built from the must match and the should match whenever there is one.
\<close>

theorem boolean_run:
  assumes "min_searcher nxt adv cinv hits exact upfrom live min_of"
    and "\<forall>c\<in>set_option must \<union> set_option should \<union> set_option mustNot. cinv c \<and> live c 0"
  shows "\<exists>ds out. run (bool_next nxt adv min_of sc) (new_boolean must should mustNot) ds out \<and>
    (\<forall>d\<in>set ds. bool_form sc (map_option exact must) (map_option exact should) (required_by min_of should) (docs_opt (map_option hits should)) d) \<and>
    map Number ds = take (length ds) (sorted_list_of_set
      (bool_docs (map_option hits must) (map_option hits should) (required_by min_of should) (map_option hits mustNot))) \<and>
    (out = None \<longrightarrow> map Number ds = sorted_list_of_set
      (bool_docs (map_option hits must) (map_option hits should) (required_by min_of should) (map_option hits mustNot)))"
proof -
  note w = min_searcher.boolean_walker [OF assms(1)]
  note nb = new_boolean_docs [OF assms(1), where must = must and should = should and mustNot = mustNot]
  obtain ds out where r: "run (bool_next nxt adv min_of sc) (new_boolean must should mustNot) ds out"
    "\<forall>d\<in>set ds. min_searcher.bool_exact hits exact min_of sc (new_boolean must should mustNot) d"
    "map Number ds = take (length ds) (sorted_list_of_set
      (bool_docs (map_option hits must) (map_option hits should) (required_by min_of should) (map_option hits mustNot)))"
    "out = None \<longrightarrow> map Number ds = sorted_list_of_set
      (bool_docs (map_option hits must) (map_option hits should) (required_by min_of should) (map_option hits mustNot))"
    using walker.live_run [OF w new_boolean_ok [OF assms], of sc] unfolding nb(1) from_on_0 by (elim exE conjE)
  show ?thesis using r nb(2) by (intro exI conjI ballI) blast+
qed

theorem boolean_run_witness:
  "\<exists>ds out. run (bool_next (term_next (snap_next one_hit_next) (term_build opt0))
        (term_advance (snap_advance one_hit_next one_hit_advance) (term_build opt0)) (\<lambda>_. 0) composite0)
      (new_boolean (Some child_a) None (Some child_b)) ds (out :: unit snap_error option) \<and> (out = None \<longrightarrow> map Number ds = [1])"
proof -
  have ok: "\<forall>c\<in>set_option (Some child_a) \<union> set_option None \<union> set_option (Some child_b). one_hit.snap_inv c \<and> one_hit.snap_live c 0"
    using children_ok(1) by simp
  have "bool_docs (Some (one_hit_snapshot.term_hits (term_build opt0) child_a)) None (required_by (\<lambda>_. 0) (None :: nat snap_iter option))
      (Some (one_hit_snapshot.term_hits (term_build opt0) child_b)) = {1}"
    using children_ok(2,3) by (auto simp: bool_docs_def required_by_def docs_of_def)
  then have sorted: "sorted_list_of_set (bool_docs (map_option (one_hit_snapshot.term_hits (term_build opt0)) (Some child_a))
      (map_option (one_hit_snapshot.term_hits (term_build opt0)) None) (required_by (\<lambda>_. 0) (None :: nat snap_iter option))
      (map_option (one_hit_snapshot.term_hits (term_build opt0)) (Some child_b))) = [1]" by simp
  show ?thesis
    using boolean_run [OF boolean_terms.min_searcher_axioms [of opt0] ok, where sc = composite0]
    unfolding sorted by (elim exE conjE) (intro exI conjI)
qed

text \<open>
  C25: \<open>Advance\<close> of a boolean searcher without a must searcher or without a should searcher returns
  the first of its documents at or above the number, and nil when there is none.
\<close>

theorem boolean_advance_first:
  assumes "min_searcher nxt adv cinv hits exact upfrom live min_of"
    and "\<forall>c\<in>set_option must \<union> set_option should \<union> set_option mustNot. cinv c \<and> live c 0"
    and "must = None \<or> should = None"
  shows "\<exists>r. bool_advance nxt adv min_of sc (new_boolean must should mustNot) n = Some r \<and>
    (\<forall>m s. r = Inr (m, s) \<longrightarrow> map_option Number m =
      (case from_on (bool_docs (map_option hits must) (map_option hits should) (required_by min_of should) (map_option hits mustNot)) n of
         [] \<Rightarrow> None | j # _ \<Rightarrow> Some j))"
proof -
  let ?s = "new_boolean must should mustNot"
  have one: "bl_must ?s = None \<or> bl_should ?s = None" using assms(3) by (simp add: new_boolean_def)
  note ok = new_boolean_ok [OF assms(1,2)]
  have fin: "finite (docs_of (min_searcher.bool_hits hits min_of sc) ?s)"
    by (rule walker.finite_docs [OF min_searcher.boolean_walker [OF assms(1)] ok(1)])
  show ?thesis
    using min_searcher.bool_advance_ok [OF assms(1) ok le0 one, of sc n] first_hit_from_on [OF fin, of n]
    unfolding new_boolean_docs(1) [OF assms(1)] by blast
qed

theorem boolean_advance_first_witness:
  "\<exists>r. bool_advance (term_next (snap_next one_hit_next) (term_build opt0))
        (term_advance (snap_advance one_hit_next one_hit_advance) (term_build opt0)) (\<lambda>_. 0) composite0
      (new_boolean (Some child_a) None (Some (new_snap_iter [0, 10] [5, 3]))) 2 = Some r \<and>
    (\<forall>m s. r = Inr (m, s) \<longrightarrow> map_option Number m = Some 12)"
proof -
  let ?c = "new_snap_iter [0, 10] [5, 3 :: nat]"
  have ok: "\<forall>c\<in>set_option (Some child_a) \<union> set_option None \<union> set_option (Some ?c). one_hit.snap_inv c \<and> one_hit.snap_live c 0"
    using children_ok(1) two_segments(1) [of 5 3] by simp
  have "bool_docs (Some (one_hit_snapshot.term_hits (term_build opt0) child_a)) None (required_by (\<lambda>_. 0) (None :: nat snap_iter option))
      (Some (one_hit_snapshot.term_hits (term_build opt0) ?c)) = {1, 12}"
    using children_ok(2) two_segments(2) [of 5 3] by (auto simp: bool_docs_def required_by_def docs_of_def)
  then have D: "bool_docs (map_option (one_hit_snapshot.term_hits (term_build opt0)) (Some child_a))
      (map_option (one_hit_snapshot.term_hits (term_build opt0)) None) (required_by (\<lambda>_. 0) (None :: nat snap_iter option))
      (map_option (one_hit_snapshot.term_hits (term_build opt0)) (Some ?c)) = {1, 12}" by simp
  have "{i \<in> {1, 12 :: nat}. 2 \<le> i} = {12}" by auto
  then have from_on: "from_on {1, 12 :: nat} 2 = [12]" unfolding from_on_def by simp
  have one: "Some child_a = None \<or> (None :: nat snap_iter option) = None" by simp
  show ?thesis
    using boolean_advance_first [OF boolean_terms.min_searcher_axioms [of opt0] ok one, where sc = composite0 and n = 2]
    unfolding D from_on list.case by blast
qed

section \<open>Documents that \<open>Advance\<close> loses\<close>

text \<open>
  \<open>Advance\<close> moves the should searcher even when it stands at or above the number. Once the should
  searcher is past a document \<open>j\<close>, a searcher that demands its match returns nothing up to \<open>j\<close>.
\<close>

context min_searcher
begin

definition should_past :: "nat \<Rightarrow> 's bool_searcher \<Rightarrow> bool" where
  "should_past j s \<longleftrightarrow> bl_must s \<noteq> None \<and> bl_currentMatch s = bl_currMust s \<and>
     (\<exists>c. bl_should s = Some c \<and> inv c \<and> min_of c \<noteq> 0) \<and> (\<forall>y. bl_currShould s = Some y \<longrightarrow> j < Number y)"

lemma move_must_past:
  assumes "move_must f s = Some (Inr s')"
  shows "bl_must s \<noteq> None \<Longrightarrow> bl_must s' \<noteq> None" "bl_should s' = bl_should s" "bl_currShould s' = bl_currShould s"
    "bl_done s' = bl_done s" "bl_initialized s' = bl_initialized s"
  using assms by (auto simp: move_must_def bindr_Inr split: option.splits)

lemma move_mustNot_past:
  assumes "move_mustNot f s = Some (Inr s')"
  shows "bl_must s' = bl_must s" "bl_should s' = bl_should s" "bl_currShould s' = bl_currShould s"
    "bl_currMust s' = bl_currMust s" "bl_currentMatch s' = bl_currentMatch s"
    "bl_done s' = bl_done s" "bl_initialized s' = bl_initialized s"
  using assms by (auto simp: move_mustNot_def bindr_Inr split: option.splits)

lemma current_of_must: "bl_must s \<noteq> None \<Longrightarrow> current_of s = bl_currMust s"
  by (cases "bl_currMust s") (auto simp: current_of_def)

lemma next_must_past:
  assumes "should_past j s" "bool_advance_next_must nxt s = Some (Inr s')"
  shows "should_past j s'"
proof -
  obtain t where t: "move_must nxt s = Some (Inr t)" "s' = set_current t"
    using assms by (auto simp: bool_advance_next_must_def bindr_Inr should_past_def)
  note m = move_must_past [OF t(1)]
  have "bl_must t \<noteq> None" using m(1) assms(1) by (simp add: should_past_def)
  then show ?thesis using assms(1) m(2,3) current_of_must [of t] unfolding t(2) should_past_def set_current_def by simp
qed

lemma excludes_past:
  assumes "should_past j s" "bool_excludes nxt adv x n s = Some (Inr (ex, s'))"
  shows "should_past j s' \<and> (\<not> ex \<longrightarrow> bl_currMust s' = bl_currMust s)"
proof -
  have mn: "should_past j t \<and> bl_currMust t = bl_currMust s" if "move_mustNot f s = Some (Inr t)" for f t
    using assms(1) move_mustNot_past [OF that] by (simp add: should_past_def)
  show ?thesis
    using assms(2,1) mn by (auto simp: bool_excludes_def bindr_Inr split: if_splits dest: next_must_past)
qed

lemma found_past:
  assumes "should_past j s" "bool_found nxt sc cons s = Some (Inr (m, s'))" "j < Number (hd cons)"
  shows "should_past j s' \<and> (\<forall>d. m = Some d \<longrightarrow> j < Number d)"
  using assms next_must_past by (auto simp: bool_found_def bindr_Inr)

lemma skip_past:
  assumes "should_past j s" "bool_skip nxt s = Some (Inr (m, s'))"
  shows "should_past j s' \<and> m = None"
  using assms next_must_past by (auto simp: bool_skip_def bindr_Inr)

lemma try_past:
  assumes past: "should_past j s" and n: "bl_currMust s = Some x" "Number x = n"
    and run: "bool_try nxt adv min_of sc n s = Some (Inr (m, s'))"
  shows "should_past j s' \<and> (\<forall>d. m = Some d \<longrightarrow> j < Number d)"
proof -
  obtain c where c: "bl_should s = Some c" "inv c" "min_of c \<noteq> 0" using past by (auto simp: should_past_def)
  show ?thesis
  proof (cases "bl_currShould s")
    case None
    then have "bool_skip nxt s = Some (Inr (m, s'))" using run c by (simp add: bool_try_def)
    then show ?thesis using skip_past [OF past] by simp
  next
    case (Some y)
    have y: "j < Number y" using past Some by (simp add: should_past_def)
    consider "Number y < n" | "Number y = n" | "n < Number y" by linarith
    then show ?thesis
    proof cases
      case 1
      obtain t where t: "move_should (\<lambda>c. adv c n) s = Some (Inr t)"
        "(if map_option Number (bl_currShould t) = Some n then bool_found nxt sc (build_constituents t) t
          else if min_of (the (bl_should t)) = 0 then bool_found nxt sc [the (bl_currMust t)] t
          else bool_skip nxt t) = Some (Inr (m, s'))"
        using run Some 1 by (auto simp: bool_try_def bindr_Inr)
      then obtain m' c' where a: "adv c n = Some (Inr (m', c'))" "t = s\<lparr>bl_should := Some c', bl_currShould := m'\<rparr>"
        using c(1) by (auto simp: move_should_def bindr_Inr)
      note mv = adv_moved [OF c(2) a(1)]
      have "j < Number d" if "m' = Some d" for d using mv(5) [OF that] 1 y by simp
      then have past': "should_past j t"
        using past mv(1) min_adv [OF c(2) a(1)] c(3) unfolding a(2) should_past_def by simp
      have must: "bl_currMust t = Some x" using n(1) by (simp add: a(2))
      show ?thesis
      proof (cases "map_option Number (bl_currShould t) = Some n")
        case True
        then have "bool_found nxt sc (build_constituents t) t = Some (Inr (m, s'))" using t(2) by simp
        moreover have "j < Number (hd (build_constituents t))" using must n(2) y 1 by (simp add: build_constituents_def)
        ultimately show ?thesis using found_past [OF past'] by blast
      next
        case False
        have "min_of (the (bl_should t)) \<noteq> 0" using past' by (auto simp: should_past_def)
        with False have "bool_skip nxt t = Some (Inr (m, s'))" using t(2) by (simp only: if_False)
        then show ?thesis using skip_past [OF past'] by blast
      qed
    next
      case 2
      then have "bool_found nxt sc (build_constituents s) s = Some (Inr (m, s'))" using run Some by (simp add: bool_try_def)
      moreover have "j < Number (hd (build_constituents s))" using n y 2 by (simp add: build_constituents_def)
      ultimately show ?thesis using found_past [OF past] by blast
    next
      case 3
      then have "bool_skip nxt s = Some (Inr (m, s'))" using run Some c by (simp add: bool_try_def)
      then show ?thesis using skip_past [OF past] by simp
    qed
  qed
qed

lemma round_past:
  assumes "should_past j s" "bl_currentMatch s = Some x" "bool_round nxt adv min_of sc (Number x) s = Some (Inr (m, s'))"
  shows "should_past j s' \<and> (\<forall>d. m = Some d \<longrightarrow> j < Number d)"
proof -
  have x: "bl_currMust s = Some x" using assms(1,2) by (simp add: should_past_def)
  obtain ex t where t: "(case bl_currMustNot s of None \<Rightarrow> Some (Inr (False, s)) | Some z \<Rightarrow> bool_excludes nxt adv z (Number x) s) = Some (Inr (ex, t))"
    "(if ex then Some (Inr (None, t)) else bool_try nxt adv min_of sc (Number x) t) = Some (Inr (m, s'))"
    using assms(3) by (auto simp: bool_round_def bindr_Inr)
  have past: "should_past j t \<and> (\<not> ex \<longrightarrow> bl_currMust t = Some x)"
    using t(1) assms(1) x excludes_past by (auto split: option.splits)
  show ?thesis
  proof (cases ex)
    case True
    then show ?thesis using t(2) past by simp
  next
    case False
    then show ?thesis using t(2) past try_past [of j t x "Number x"] by simp
  qed
qed

lemma loop_past:
  assumes "bool_loop nxt adv min_of sc s = Some (Inr (Some d, s'))" "should_past j s"
  shows "j < Number d"
proof -
  let ?P = "\<lambda>nxt' adv' min_of' sc' s (y :: ('e, document_match option \<times> 's bool_searcher) result). nxt' = nxt \<and> adv' = adv \<and> min_of' = min_of \<and> should_past j s \<longrightarrow>
    (\<forall>d s'. y = Inr (Some d, s') \<longrightarrow> j < Number d)"
  have "?P nxt adv min_of sc s (Inr (Some d, s'))"
    using assms(1)
  proof (rule bool_loop.raw_induct [where P = ?P, rotated], goal_cases)
    case (1 loop nxt' adv' min_of' sc' s y)
    show ?case
    proof (intro impI allI)
      fix d s' assume eq: "nxt' = nxt \<and> adv' = adv \<and> min_of' = min_of \<and> should_past j s" and y: "y = Inr (Some d, s')"
      then obtain x ms where x: "bl_currentMatch s = Some x"
        "bool_round nxt adv min_of sc' (Number x) s = Some (Inr ms)"
        "(if fst ms \<noteq> None then Some (Inr ms) else loop nxt adv min_of sc' (snd ms)) = Some (Inr (Some d, s'))"
        using 1(2) by (auto simp: bindr_Inr split: if_splits)
      obtain m t where ms: "ms = (m, t)" by (cases ms)
      have past: "should_past j t \<and> (\<forall>d. m = Some d \<longrightarrow> j < Number d)"
        using round_past [of j s x] x(1,2) eq unfolding ms by blast
      show "j < Number d"
      proof (cases m)
        case None
        then have "loop nxt adv min_of sc' t = Some (Inr (Some d, s'))" using x(3) ms by simp
        from 1(1) [OF this] past show ?thesis by blast
      next
        case (Some d')
        then show ?thesis using x(3) ms past by simp
      qed
    qed
  qed
  then show ?thesis using assms by blast
qed

lemma advance_past:
  assumes must: "nxt must = Some (Inr (Some x, must1))" "Number x < n"
    and should: "inv should" "min_of should \<noteq> 0" "nxt should = Some (Inr (Some y, should1))"
    and past: "adv should1 n = Some (Inr (r, should2))" "\<And>z. r = Some z \<Longrightarrow> j < Number z"
    and run: "bool_advance nxt adv min_of sc (new_boolean (Some must) (Some should) mustNot) n = Some (Inr (Some d, s))"
  shows "j < Number d"
proof -
  note sh = nxt_moved [OF should(1) upfrom_0 [OF should(1)] should(3)]
  have inv2: "inv should2" and min2: "min_of should2 \<noteq> 0"
    using adv_moved(1) [OF sh(1) past(1)] min_adv [OF sh(1) past(1)] min_nxt [OF should(1,3)] should(2) by simp_all
  obtain s1 where s1: "bool_init nxt (new_boolean (Some must) (Some should) mustNot) = Some (Inr s1)"
    "bindr (if case bl_currentMatch s1 of None \<Rightarrow> True | Some c \<Rightarrow> Number c < n then advance_if_trailing adv n s1 else Some (Inr s1))
       (bool_next nxt adv min_of sc) = Some (Inr (Some d, s))"
    using run by (auto simp: bool_advance_def bindr_Inr new_boolean_def)
  then obtain t where t: "move_mustNot nxt (new_boolean (Some must) (Some should) mustNot
      \<lparr>bl_must := Some must1, bl_currMust := Some x, bl_should := Some should1, bl_currShould := Some y\<rparr>) = Some (Inr t)"
    "s1 = (set_current t)\<lparr>bl_initialized := True\<rparr>"
    by (auto simp: bool_init_def bindr_Inr move_must_def move_should_def must(1) should(3) new_boolean_def)
  note mt = move_mustNot_past [OF t(1)]
  have cur: "bl_currentMatch s1 = Some x" and s1f: "bl_must s1 = Some must1" "bl_should s1 = Some should1" "\<not> bl_done s1" "bl_initialized s1"
    using mt by (simp_all add: t(2) set_current_def current_of_def new_boolean_def)
  obtain s2 where s2: "advance_if_trailing adv n s1 = Some (Inr s2)" "bool_next nxt adv min_of sc s2 = Some (Inr (Some d, s))"
    using s1(2) cur must(2) by (auto simp: bindr_Inr)
  then obtain a where a: "move_must (\<lambda>c. adv c n) s1 = Some (Inr a)"
    "bindr (move_should (\<lambda>c. adv c n) a) (\<lambda>s. bindr (if case bl_currMustNot s of None \<Rightarrow> True | Some x \<Rightarrow> Number x < n
            then move_mustNot (\<lambda>c. adv c n) s else Some (Inr s)) (\<lambda>s. Some (Inr (set_current s)))) = Some (Inr s2)"
    by (auto simp: advance_if_trailing_def bindr_Inr)
  note ma = move_must_past [OF a(1)]
  have af: "bl_must a \<noteq> None" "bl_should a = Some should1" "\<not> bl_done a" "bl_initialized a"
    using ma s1f by simp_all
  let ?b = "a\<lparr>bl_should := Some should2, bl_currShould := r\<rparr>"
  obtain c where c: "(if case bl_currMustNot ?b of None \<Rightarrow> True | Some x \<Rightarrow> Number x < n
            then move_mustNot (\<lambda>c. adv c n) ?b else Some (Inr ?b)) = Some (Inr c)" "s2 = set_current c"
    using a(2) af(2) past(1) by (auto simp: move_should_def bindr_Inr)
  have cf: "bl_must c = bl_must ?b \<and> bl_should c = bl_should ?b \<and> bl_currShould c = bl_currShould ?b \<and>
      bl_done c = bl_done ?b \<and> bl_initialized c = bl_initialized ?b"
    using c(1) move_mustNot_past [of _ ?b c] by (auto split: if_splits)
  have "should_past j s2"
    using cf af inv2 min2 past(2) current_of_must [of c] unfolding c(2) should_past_def set_current_def by simp
  moreover have "\<not> bl_done s2" "bl_initialized s2" using cf af by (simp_all add: c(2) set_current_def)
  then obtain s3 where "bool_loop nxt adv min_of sc s2 = Some (Inr (Some d, s3))"
    using s2(2) by (auto simp: bool_next_def bindr_Inr)
  ultimately show ?thesis using loop_past by blast
qed

end

text \<open>
  The must searcher has the documents 3, 7, 40 and 41, the should searcher, a disjunction, 7, 8, 18
  and 19. The first matches are 3 and 7; when the must searcher advances to 5 it stands at 7, but the
  should searcher has passed 7 already and is moved on to 8.
\<close>

definition lost_must :: "nat snap_iter disj" where
  "lost_must = new_disjunction_slice [new_snap_iter [0, 10] [3, 30], new_snap_iter [0, 10] [7, 31]] 1"

definition lost_should :: "nat snap_iter disj" where
  "lost_should = new_disjunction_slice [new_snap_iter [0, 10] [7, 9], new_snap_iter [0, 10] [8, 8]] 1"

lemma disj_loop_unfold:
  "dj_matching s = [] \<Longrightarrow> disj_loop nxt sc s = Some (Inr (None, s))"
  "dj_matching s = c # cs \<Longrightarrow> disj_loop nxt sc s =
     (let rv = (if int (length (dj_matching s)) \<ge> dj_min s then Some (build_document_match sc (dj_matching s)) else None) in
        bindr (disj_next_list nxt s (dj_matchingIdxs s)) (\<lambda>s.
          if rv \<noteq> None then Some (Inr (rv, update_matches s)) else disj_loop nxt sc (update_matches s)))"
  by (subst disj_loop.simps; simp)+

lemma bool_loop_unfold:
  "bl_currentMatch s = None \<Longrightarrow> bool_loop nxt adv min_of sc s = Some (Inr (None, s))"
  "bl_currentMatch s = Some c \<Longrightarrow> bool_loop nxt adv min_of sc s =
     bindr (bool_round nxt adv min_of sc (Number c) s) (\<lambda>ms.
        if fst ms \<noteq> None then Some (Inr ms) else bool_loop nxt adv min_of sc (snd ms))"
  by (subst bool_loop.simps; simp)+

lemma sort_search_2: "sort_search (Suc (Suc 0)) f = (if f 1 then (if f 0 then 0 else 1) else 2)"
  by (simp add: sort_search_def sort_search_loop.simps)

lemmas term_evals = term_next_def term_advance_def snap_next.simps snap_advance_def segment_index_def sort_search_2
  new_snap_iter_def one_hit_next_def one_hit_advance_def one_hit_at_or_after_def one_hit_docnum_at_or_after_def
  docNum1HitFinished_def snap_found_def set_number_def unadorned_posting_def Let_def term_build_def reset_match_def opt0_def

lemmas disj_evals = lost_must_def lost_should_def new_disjunction_slice_def disj_next_def disj_init_def disj_advance_def
  update_matches_def disj_loop_unfold upt_rec build_document_match_def composite0_def merge_field_term_locations_def

lemmas bool_evals = new_boolean_def bool_advance_def bool_init_def advance_if_trailing_def move_must_def move_should_def
  move_mustNot_def set_current_def current_of_def bool_next_def bool_loop_unfold bool_round_def bool_try_def bool_skip_def
  bool_advance_next_must_def

text \<open>
  C21: \<open>Advance\<close> loses documents beside a must searcher. Let the first must match lie below the
  number and the first match of a should searcher that demands one, the document \<open>j\<close>, at or above it,
  so that the should searcher need not move; \<open>Advance\<close> advances it all the same, and if that
  takes it past \<open>j\<close>, only documents above \<open>j\<close> are ever returned, although \<open>j\<close> is at or above the
  number and is a document of the boolean searcher. A disjunction as the should searcher is taken past
  its match: on the query above \<open>Advance\<close> returns nil instead of the document 7.
\<close>

theorem boolean_advance_loses:
  assumes "min_searcher nxt adv cinv hits exact upfrom live min_of"
    and "nxt must = Some (Inr (Some x, must1))" and "Number x < n"
    and "cinv should" and "min_of should \<noteq> 0" and "nxt should = Some (Inr (Some y, should1))"
    and "n \<le> Number y" and "Number y \<in> docs_of hits must" and "Number y \<notin> docs_opt (map_option hits mustNot)"
    and "adv should1 n = Some (Inr (r, should2))" and "\<And>z. r = Some z \<Longrightarrow> Number y < Number z"
  shows "Number y \<in> bool_docs (Some (hits must)) (Some (hits should)) (required_by min_of (Some should)) (map_option hits mustNot) \<and>
    n \<le> Number y \<and>
    (\<forall>d s. bool_advance nxt adv min_of sc (new_boolean (Some must) (Some should) mustNot) n = Some (Inr (Some d, s)) \<longrightarrow> Number y < Number d)"
proof -
  have s: "searcher nxt adv cinv hits exact upfrom live" using assms(1) by (simp add: min_searcher_def)
  then have w: "walker nxt cinv hits exact upfrom live" by (simp add: searcher_def)
  have "hits should y"
    using walker.nxt_moved(4) [OF w assms(4) walker.upfrom_0 [OF w assms(4)] assms(6)] by simp
  then have "Number y \<in> bool_docs (Some (hits must)) (Some (hits should)) (required_by min_of (Some should)) (map_option hits mustNot)"
    using assms(8,9) by (auto simp: bool_docs_def docs_of_def)
  then show ?thesis
    using assms(7) min_searcher.advance_past [OF assms(1-6,10,11), of sc mustNot] by blast
qed

theorem boolean_advance_loses_witness:
  "7 \<in> bool_docs (Some (disj_hits (one_hit_snapshot.term_hits (term_build opt0)) composite0 lost_must))
      (Some (disj_hits (one_hit_snapshot.term_hits (term_build opt0)) composite0 lost_should)) (required_by dj_min (Some lost_should)) None \<and>
   (\<exists>s. bool_advance (disj_next (term_next (snap_next one_hit_next) (term_build opt0)) composite0)
        (disj_advance (term_next (snap_next one_hit_next) (term_build opt0))
          (term_advance (snap_advance one_hit_next one_hit_advance) (term_build opt0)) composite0) dj_min composite0
        (new_boolean (Some lost_must) (Some lost_should) None) 5 = Some (Inr (None, s) :: unit snap_error + _))"
proof
  let ?next = "disj_next (term_next (snap_next one_hit_next) (term_build opt0)) composite0 ::
    nat snap_iter disj \<Rightarrow> (unit snap_error, nat snap_iter disj) step"
  let ?adv = "disj_advance (term_next (snap_next one_hit_next) (term_build opt0))
    (term_advance (snap_advance one_hit_next one_hit_advance) (term_build opt0)) composite0 ::
    nat snap_iter disj \<Rightarrow> nat \<Rightarrow> (unit snap_error, nat snap_iter disj) step"
  note s = disj_min_searcher [OF one_hit_term.searcher_axioms [of opt0], of composite0]
  have ok: "searcher.disj_inv one_hit.snap_inv (one_hit_snapshot.term_hits (term_build opt0)) one_hit.snap_upfrom lost_should"
    using new_disjunction_ok(1) [OF one_hit_term.searcher_axioms [of opt0]] two_segments(1) [of 7 9] two_segments(1) [of 8 8]
    unfolding lost_should_def by simp
  have must: "\<exists>x m. ?next lost_must = Some (Inr (Some x, m)) \<and> Number x = 3"
    by (simp add: disj_evals term_evals)
  have should: "\<exists>y c r c'. ?next lost_should = Some (Inr (Some y, c)) \<and> Number y = 7 \<and>
      ?adv c 5 = Some (Inr (r, c')) \<and> map_option Number r = Some 8"
    by (simp add: disj_evals term_evals)
  obtain x m where x: "?next lost_must = Some (Inr (Some x, m))" "Number x = 3" using must by blast
  obtain y c r c' where y: "?next lost_should = Some (Inr (Some y, c))" "Number y = 7"
    "?adv c 5 = Some (Inr (r, c'))" "map_option Number r = Some 8"
    using should by blast
  have "7 \<in> docs_of (one_hit_snapshot.term_hits (term_build opt0)) (new_snap_iter [0, 10] [7, 31])"
    using two_segments(2) [of 7 31] by simp
  then have docs: "7 \<in> docs_of (disj_hits (one_hit_snapshot.term_hits (term_build opt0)) composite0) lost_must"
    unfolding docs_disj [OF reorderings(1)]
    by (auto simp: match_count_def Suc_le_eq filter_empty_conv lost_must_def new_disjunction_slice_def)
  show "7 \<in> bool_docs (Some (disj_hits (one_hit_snapshot.term_hits (term_build opt0)) composite0 lost_must))
      (Some (disj_hits (one_hit_snapshot.term_hits (term_build opt0)) composite0 lost_should)) (required_by dj_min (Some lost_should)) None"
  proof -
    have min: "dj_min lost_should \<noteq> 0" by (simp add: lost_should_def new_disjunction_slice_def)
    have past: "Number y < Number z" if "r = Some z" for z using that y(2,4) by simp
    have lt: "Number x < 5" "5 \<le> Number y" "Number y \<notin> docs_opt (map_option (disj_hits (one_hit_snapshot.term_hits (term_build opt0)) composite0) None)"
      using x(2) y(2) by simp_all
    show ?thesis
      using boolean_advance_loses [OF s x(1) lt(1) ok min y(1) lt(2) _ lt(3) y(3) past, where sc = composite0] docs
      unfolding y(2) by simp
  qed
  show "\<exists>s. bool_advance ?next ?adv dj_min composite0 (new_boolean (Some lost_must) (Some lost_should) None) 5 = Some (Inr (None, s))"
    by (simp add: bool_evals disj_evals term_evals)
qed

end
