(* ===== verification/Phrase_Paths.thy ===== *)
theory Phrase_Paths
  imports Searcher
begin

text \<open>
  Phrases in the locations of a match (\<open>search_phrase.go\<close>): the search for phrase paths and the
  check of a match against the phrase. The paths are shown to be exactly the occurrences of the
  phrase within the slop.
\<close>

section \<open>Phrase paths\<close>

text \<open>
  Locations are pointers in the code. All locations of a map are allocated one by one, so a
  pointer is identified by the term and the index in its list.
\<close>

record phrase_part =
  pp_term :: string
  pp_index :: nat
  pp_loc :: location

type_synonym phrase_path = "phrase_part list"

definition edit_distance :: "int \<Rightarrow> int \<Rightarrow> int" where
  "edit_distance p1 p2 = (let dist = p1 - p2 in if dist < 0 then - dist else dist)"

definition placeholder :: "string list \<Rightarrow> bool" where
  "placeholder car \<longleftrightarrow> length car = 0 \<or> length car = 1 \<and> car ! 0 = ''''"

definition used_in :: "phrase_path \<Rightarrow> string \<Rightarrow> nat \<Rightarrow> bool" where
  "used_in p t i = list_ex (\<lambda>ppart. pp_term ppart = t \<and> pp_index ppart = i) p"

fun find_phrase_paths ::
  "int \<Rightarrow> string list list \<Rightarrow> term_location_map \<Rightarrow> phrase_path \<Rightarrow> int \<Rightarrow> phrase_path list \<Rightarrow> phrase_path list" where
  "find_phrase_paths prevPos [] tlm p remainingSlop rv = rv @ [p]"
| "find_phrase_paths prevPos (car # cdr) tlm p remainingSlop rv =
     (if placeholder car
      then find_phrase_paths (if prevPos = 0 then 0 else prevPos + 1) cdr tlm p remainingSlop rv
      else
        fold (\<lambda>carTerm rv.
          fold (\<lambda>(i, loc) rv.
            let dist = (if prevPos \<noteq> 0 then edit_distance (prevPos + 1) (Pos loc) else 0) in
            if (prevPos = 0 \<or> remainingSlop - dist \<ge> 0) \<and> \<not> used_in p carTerm i
            then find_phrase_paths (Pos loc) cdr tlm (p @ [\<lparr>pp_term = carTerm, pp_index = i, pp_loc = loc\<rparr>])
                   (remainingSlop - dist) rv
            else rv)
          (enumerate 0 (locs_of tlm carTerm)) rv)
        car rv)"

text \<open>
  \<open>checkCurrMustMatchField\<close> and \<open>checkCurrMustMatch\<close>: the fields of a match are visited in the order
  of the map, an argument. The result is None when completing the match panics, and otherwise the
  match or nil.
\<close>

definition check_curr_must_match_field ::
  "string list list \<Rightarrow> int \<Rightarrow> string \<Rightarrow> term_location_map \<Rightarrow> field_term_location list \<Rightarrow> field_term_location list" where
  "check_curr_must_match_field terms slop field tlm ftls =
     fold (\<lambda>p ftls. fold (\<lambda>pp ftls. ftls @ [\<lparr>FtlField = field, FtlTerm = pp_term pp,
         FtlLocation = \<lparr>Pos = Pos (pp_loc pp), Start = Start (pp_loc pp), End = End (pp_loc pp)\<rparr>\<rparr>]) p ftls)
       (find_phrase_paths 0 terms tlm [] slop []) ftls"

record phrase_spec =
  ph_terms :: "string list list"
  ph_slop :: int
  ph_sort :: "location list \<Rightarrow> location list"
  ph_fields :: "field_term_location_map \<Rightarrow> string list"

definition check_curr_must_match :: "phrase_spec \<Rightarrow> document_match \<Rightarrow> document_match option option" where
  "check_curr_must_match ph currMust =
     (case complete_match (ph_sort ph) currMust of
        None \<Rightarrow> None
      | Some dm \<Rightarrow>
          let locations = Locations dm;
              dm = dm\<lparr>Locations := Map.empty\<rparr>;
              ftls = fold (\<lambda>field. check_curr_must_match_field (ph_terms ph) (ph_slop ph) field (tlm_of locations field))
                (ph_fields ph locations) (FieldTermLocations dm)
          in Some (if length ftls > 0 then Some (dm\<lparr>FieldTermLocations := ftls\<rparr>) else None))"

section \<open>The paths are the occurrences of the phrase\<close>

text \<open>
  An occurrence takes for every slot of the phrase that is no placeholder a location of one of its
  terms, none twice. Going from slot \<open>i\<close> to the next slot \<open>j\<close>, the position should move by \<open>j - i\<close>;
  the displacements from that add up to at most the slop.
\<close>

definition phrase_slots :: "nat \<Rightarrow> string list list \<Rightarrow> (nat \<times> string list) list" where
  "phrase_slots n terms = filter (\<lambda>(i, car). \<not> placeholder car) (enumerate n terms)"

definition fits :: "term_location_map \<Rightarrow> nat \<times> string list \<Rightarrow> phrase_part \<Rightarrow> bool" where
  "fits tlm slot pp \<longleftrightarrow> pp_term pp \<in> set (snd slot) \<and> pp_index pp < length (locs_of tlm (pp_term pp)) \<and>
     pp_loc pp = locs_of tlm (pp_term pp) ! pp_index pp"

definition pointer :: "phrase_part \<Rightarrow> string \<times> nat" where
  "pointer pp = (pp_term pp, pp_index pp)"

fun displacement :: "(nat \<times> 'a) list \<Rightarrow> phrase_path \<Rightarrow> int" where
  "displacement (a # b # ss) (x # y # ps) =
     \<bar>(Pos (pp_loc y) - Pos (pp_loc x)) - (int (fst b) - int (fst a))\<bar> + displacement (b # ss) (y # ps)"
| "displacement _ _ = 0"

definition occurrence :: "string list list \<Rightarrow> term_location_map \<Rightarrow> int \<Rightarrow> phrase_path \<Rightarrow> bool" where
  "occurrence terms tlm slop q \<longleftrightarrow>
     list_all2 (fits tlm) (phrase_slots 0 terms) q \<and> distinct (map pointer q) \<and>
     displacement (phrase_slots 0 terms) q \<le> slop"

text \<open>Positions of tokens start at 1; 0 stands for no position.\<close>

definition real_positions :: "term_location_map \<Rightarrow> bool" where
  "real_positions tlm \<longleftrightarrow> (\<forall>t. \<forall>loc\<in>set (locs_of tlm t). 0 < Pos loc)"

lemma real_positionsD: "real_positions tlm \<Longrightarrow> loc \<in> set (locs_of tlm t) \<Longrightarrow> 0 < Pos loc"
  by (simp add: real_positions_def)

text \<open>The displacement of the first part from a previous position, 0 when there is none.\<close>

definition lead :: "int \<Rightarrow> nat \<Rightarrow> (nat \<times> 'a) list \<Rightarrow> phrase_path \<Rightarrow> int" where
  "lead prevPos n ss q =
     (if prevPos = 0 then 0
      else case (ss, q) of
        (a # _, x # _) \<Rightarrow> \<bar>Pos (pp_loc x) - (prevPos + 1 + (int (fst a) - int n))\<bar>
      | _ \<Rightarrow> 0)"

lemma phrase_slots_simps [simp]:
  "phrase_slots n [] = []"
  "phrase_slots n (car # cdr) = (if placeholder car then phrase_slots (Suc n) cdr else (n, car) # phrase_slots (Suc n) cdr)"
  by (simp_all add: phrase_slots_def enumerate_simps)

lemma edit_distance_abs: "edit_distance a b = \<bar>b - a\<bar>"
  by (simp add: edit_distance_def Let_def)

lemma used_in_iff: "used_in p t i \<longleftrightarrow> (t, i) \<in> set (map pointer p)"
  by (auto simp: used_in_def list_ex_iff pointer_def image_iff)

lemma lead_displacement_Cons:
  "Pos (pp_loc x) \<noteq> 0 \<Longrightarrow> displacement ((n, c) # ss) (x # q) = lead (Pos (pp_loc x)) (Suc n) ss q + displacement ss q"
  by (cases ss; cases q) (auto simp: lead_def)

lemma displacement_nonneg: "0 \<le> displacement ss q"
  by (induction ss q rule: displacement.induct) auto

lemma lead_nonneg: "0 \<le> lead p n ss q"
  by (auto simp: lead_def split: list.splits)

lemma set_fold_Union:
  assumes "\<And>x rv. x \<in> set xs \<Longrightarrow> set (f x rv) = set rv \<union> A x"
  shows "set (fold f xs rv) = set rv \<union> (\<Union>x\<in>set xs. A x)"
  using assms by (induction xs arbitrary: rv) auto

lemma union_of_choices:
  "(\<Union>t\<in>T. \<Union>(i, loc)\<in>E t. {p @ f t i loc # q' | q'. P t i loc \<and> Q t i loc q'}) =
    {p @ q | q. \<exists>t\<in>T. \<exists>(i, loc)\<in>E t. P t i loc \<and> (\<exists>q'. q = f t i loc # q' \<and> Q t i loc q')}"
  by (fastforce simp: split_beta)

definition continues :: "int \<Rightarrow> nat \<Rightarrow> string list list \<Rightarrow> term_location_map \<Rightarrow> phrase_path \<Rightarrow> int \<Rightarrow> phrase_path \<Rightarrow> bool" where
  "continues prevPos n terms tlm p slop q \<longleftrightarrow>
     list_all2 (fits tlm) (phrase_slots n terms) q \<and> distinct (map pointer q) \<and>
     set (map pointer p) \<inter> set (map pointer q) = {} \<and>
     lead prevPos n (phrase_slots n terms) q + displacement (phrase_slots n terms) q \<le> slop"

lemma continues_Nil: "0 \<le> slop \<Longrightarrow> continues prevPos n [] tlm p slop q \<longleftrightarrow> q = []"
  by (auto simp: continues_def lead_def)

lemma continues_placeholder:
  assumes "placeholder car" and "0 \<le> prevPos"
  shows "continues prevPos n (car # cdr) tlm p slop q \<longleftrightarrow>
    continues (if prevPos = 0 then 0 else prevPos + 1) (Suc n) cdr tlm p slop q"
proof -
  have "lead prevPos n ss q = lead (if prevPos = 0 then 0 else prevPos + 1) (Suc n) ss q" for ss :: "(nat \<times> string list) list"
    using assms(2) by (auto simp: lead_def algebra_simps split: list.splits)
  then show ?thesis using assms(1) by (simp add: continues_def)
qed

lemma continues_slot:
  assumes "\<not> placeholder car" and pos: "real_positions tlm"
  shows "continues prevPos n (car # cdr) tlm p slop q \<longleftrightarrow>
    (\<exists>t\<in>set car. \<exists>(i, loc)\<in>set (enumerate 0 (locs_of tlm t)).
       let dist = (if prevPos \<noteq> 0 then edit_distance (prevPos + 1) (Pos loc) else 0);
           x = \<lparr>pp_term = t, pp_index = i, pp_loc = loc\<rparr>
       in \<not> used_in p t i \<and> (\<exists>q'. q = x # q' \<and> continues (Pos loc) (Suc n) cdr tlm (p @ [x]) (slop - dist) q'))"
    (is "_ \<longleftrightarrow> ?R")
proof
  assume c: "continues prevPos n (car # cdr) tlm p slop q"
  then obtain x q' where q: "q = x # q'" "fits tlm (n, car) x" "list_all2 (fits tlm) (phrase_slots (Suc n) cdr) q'"
    using assms(1) by (auto simp: continues_def list_all2_Cons1)
  have x: "pp_term x \<in> set car" "(pp_index x, pp_loc x) \<in> set (enumerate 0 (locs_of tlm (pp_term x)))"
    "x = \<lparr>pp_term = pp_term x, pp_index = pp_index x, pp_loc = pp_loc x\<rparr>" "Pos (pp_loc x) \<noteq> 0"
    using q(2) real_positionsD [OF pos, of "pp_loc x" "pp_term x"] by (auto simp: fits_def in_set_enumerate_eq)
  show ?R
    by (intro bexI [OF _ x(1)] bexI [OF _ x(2)])
      (use c q assms(1) x lead_displacement_Cons [OF x(4), of n car "phrase_slots (Suc n) cdr" q'] in
        \<open>auto simp: continues_def Let_def used_in_iff pointer_def lead_def edit_distance_abs\<close>)
next
  assume ?R
  then obtain t i loc q' where r: "t \<in> set car" "(i, loc) \<in> set (enumerate 0 (locs_of tlm t))" "\<not> used_in p t i"
    "q = \<lparr>pp_term = t, pp_index = i, pp_loc = loc\<rparr> # q'"
    "continues (Pos loc) (Suc n) cdr tlm (p @ [\<lparr>pp_term = t, pp_index = i, pp_loc = loc\<rparr>])
       (slop - (if prevPos \<noteq> 0 then edit_distance (prevPos + 1) (Pos loc) else 0)) q'"
    by (auto simp: Let_def)
  let ?x = "\<lparr>pp_term = t, pp_index = i, pp_loc = loc\<rparr>"
  have "0 < Pos loc" by (rule real_positionsD [OF pos, of loc t]) (use r(2) in \<open>auto simp: in_set_enumerate_eq\<close>)
  then have "Pos (pp_loc ?x) \<noteq> 0" by simp
  from lead_displacement_Cons [OF this, of n car "phrase_slots (Suc n) cdr" q'] r assms(1)
  show "continues prevPos n (car # cdr) tlm p slop q"
    by (auto simp: continues_def used_in_iff pointer_def lead_def edit_distance_abs fits_def in_set_enumerate_eq)
qed

lemma find_phrase_paths_set:
  assumes pos: "real_positions tlm"
  shows "0 \<le> prevPos \<Longrightarrow> 0 \<le> slop \<Longrightarrow>
    set (find_phrase_paths prevPos terms tlm p slop rv) = set rv \<union> {p @ q | q. continues prevPos n terms tlm p slop q}"
proof (induction terms arbitrary: prevPos n p slop rv)
  case Nil
  then show ?case by (auto simp: continues_Nil)
next
  case (Cons car cdr)
  show ?case
  proof (cases "placeholder car")
    case True
    then show ?thesis using Cons.IH [of "if prevPos = 0 then 0 else prevPos + 1" slop p rv "Suc n"] Cons.prems
      by (simp add: continues_placeholder)
  next
    case False
    define dist where "dist loc = (if prevPos \<noteq> 0 then edit_distance (prevPos + 1) (Pos loc) else 0)" for loc :: location
    define part where "part t i loc = \<lparr>pp_term = t, pp_index = i, pp_loc = loc\<rparr>" for t i loc
    define A where "A t i loc = {p @ part t i loc # q' | q'. \<not> used_in p t i \<and>
      continues (Pos loc) (Suc n) cdr tlm (p @ [part t i loc]) (slop - dist loc) q'}" for t i loc
    have neg: "\<not> continues (Pos loc) (Suc n) cdr tlm p' (slop - dist loc) q'" if "slop - dist loc < 0" for loc p' q'
    proof
      assume "continues (Pos loc) (Suc n) cdr tlm p' (slop - dist loc) q'"
      with that show False
        using lead_nonneg [of "Pos loc" "Suc n" "phrase_slots (Suc n) cdr" q'] displacement_nonneg [of "phrase_slots (Suc n) cdr" q']
        by (simp add: continues_def)
    qed
    have one: "set (if (prevPos = 0 \<or> slop - dist loc \<ge> 0) \<and> \<not> used_in p t i
        then find_phrase_paths (Pos loc) cdr tlm (p @ [part t i loc]) (slop - dist loc) rv else rv) = set rv \<union> A t i loc"
      if "(i, loc) \<in> set (enumerate 0 (locs_of tlm t))" for t i loc rv
    proof -
      have "0 < Pos loc" by (rule real_positionsD [OF pos, of loc t]) (use that in \<open>auto simp: in_set_enumerate_eq\<close>)
      moreover have "slop - dist loc \<ge> 0" if "prevPos = 0" using that Cons.prems by (simp add: dist_def)
      ultimately show ?thesis
        using Cons.IH [of "Pos loc" "slop - dist loc" "p @ [part t i loc]" rv "Suc n"] neg [of loc]
        by (cases "slop - dist loc \<ge> 0") (auto simp: A_def)
    qed
    have "set (find_phrase_paths prevPos (car # cdr) tlm p slop rv) =
        set rv \<union> (\<Union>t\<in>set car. \<Union>(i, loc)\<in>set (enumerate 0 (locs_of tlm t)). A t i loc)"
      unfolding find_phrase_paths.simps if_not_P [OF False] Let_def dist_def [symmetric] part_def [symmetric]
      by (intro set_fold_Union, simp only: split_paired_all case_prod_conv, rule one)
    also have "(\<Union>t\<in>set car. \<Union>(i, loc)\<in>set (enumerate 0 (locs_of tlm t)). A t i loc) =
        {p @ q | q. continues prevPos n (car # cdr) tlm p slop q}"
      unfolding continues_slot [OF False pos] Let_def dist_def [symmetric] part_def [symmetric] A_def by (rule union_of_choices)
    finally show ?thesis .
  qed
qed

lemma continues_occurrence: "continues 0 0 terms tlm [] slop q \<longleftrightarrow> occurrence terms tlm slop q"
  by (simp add: continues_def occurrence_def lead_def)

lemma paths_occurrences:
  assumes "real_positions tlm" and "0 \<le> slop"
  shows "set (find_phrase_paths 0 terms tlm [] slop []) = {q. occurrence terms tlm slop q}"
  using find_phrase_paths_set [OF assms(1) order_refl assms(2), of terms "[]" "[]" 0] by (simp add: continues_occurrence)

section \<open>Phrases without slop\<close>

lemma ex_offset [simp]: "\<exists>b :: int. p = b + i"
  by (rule exI [of _ "p - i"]) simp

lemma displacement_zero:
  "length ss = length q \<Longrightarrow>
    displacement ss q \<le> 0 \<longleftrightarrow> (\<exists>b. list_all2 (\<lambda>s x. Pos (pp_loc x) = b + int (fst s)) ss q)"
proof (induction ss q rule: displacement.induct)
  case (1 a b ss x y ps)
  let ?at = "\<lambda>c. list_all2 (\<lambda>s x. Pos (pp_loc x) = c + int (fst s))"
  have "displacement (a # b # ss) (x # y # ps) \<le> 0 \<longleftrightarrow>
      Pos (pp_loc y) - Pos (pp_loc x) = int (fst b) - int (fst a) \<and> displacement (b # ss) (y # ps) \<le> 0"
    using displacement_nonneg [of "b # ss" "y # ps"] by auto
  also have "\<dots> \<longleftrightarrow> Pos (pp_loc y) - Pos (pp_loc x) = int (fst b) - int (fst a) \<and> (\<exists>c. ?at c (b # ss) (y # ps))"
    using 1 by simp
  also have "\<dots> \<longleftrightarrow> (\<exists>c. ?at c (a # b # ss) (x # y # ps))" by auto
  finally show ?case .
qed (auto simp: length_Suc_conv eq_commute [of "Suc 0"])

lemma distinct_slots: "distinct (map fst (phrase_slots n terms))"
  unfolding phrase_slots_def by (intro distinct_map_filter) simp

lemma pointer_loc: "fits tlm s x \<Longrightarrow> fits tlm s' y \<Longrightarrow> pointer x = pointer y \<Longrightarrow> pp_loc x = pp_loc y"
  by (simp add: fits_def pointer_def)

lemma aligned_distinct:
  assumes "list_all2 (fits tlm) ss q" and "list_all2 (\<lambda>s x. Pos (pp_loc x) = b + int (fst s)) ss q" and "distinct (map fst ss)"
  shows "distinct (map pointer q)"
proof -
  have len: "length ss = length q" using assms(1) by (rule list_all2_lengthD)
  have "i = j" if ij: "i < length q" "j < length q" "pointer (q ! i) = pointer (q ! j)" for i j
  proof -
    have "pp_loc (q ! i) = pp_loc (q ! j)"
      using list_all2_nthD2 [OF assms(1)] ij by (blast intro: pointer_loc)
    then have "fst (ss ! i) = fst (ss ! j)"
      using list_all2_nthD2 [OF assms(2) ij(1)] list_all2_nthD2 [OF assms(2) ij(2)] by simp
    then show ?thesis using assms(3) ij(1,2) len by (simp add: distinct_conv_nth) blast
  qed
  then show ?thesis by (auto simp: distinct_conv_nth)
qed

lemma occurrence_aligned:
  "(\<exists>q. occurrence terms tlm 0 q) \<longleftrightarrow>
    (\<exists>b. \<forall>(i, car)\<in>set (phrase_slots 0 terms). \<exists>t\<in>set car. \<exists>loc\<in>set (locs_of tlm t). Pos loc = b + int i)"
    (is "?L \<longleftrightarrow> ?R")
proof
  assume ?L
  then obtain q where q: "list_all2 (fits tlm) (phrase_slots 0 terms) q" "displacement (phrase_slots 0 terms) q \<le> 0"
    by (auto simp: occurrence_def)
  then obtain b where b: "list_all2 (\<lambda>s x. Pos (pp_loc x) = b + int (fst s)) (phrase_slots 0 terms) q"
    using displacement_zero list_all2_lengthD by blast
  have "\<exists>x. fits tlm s x \<and> Pos (pp_loc x) = b + int (fst s)" if "s \<in> set (phrase_slots 0 terms)" for s
    using that q(1) b unfolding list_all2_conv_all_nth in_set_conv_nth by metis
  then have "\<exists>t\<in>set (snd s). \<exists>loc\<in>set (locs_of tlm t). Pos loc = b + int (fst s)" if "s \<in> set (phrase_slots 0 terms)" for s
    using that unfolding fits_def by (metis nth_mem)
  then show ?R by (intro exI [of _ b]) fastforce
next
  assume ?R
  then obtain b where b: "\<And>s. s \<in> set (phrase_slots 0 terms) \<Longrightarrow>
    \<exists>t\<in>set (snd s). \<exists>loc\<in>set (locs_of tlm t). Pos loc = b + int (fst s)" unfolding split_beta by blast
  have "\<exists>x. fits tlm s x \<and> Pos (pp_loc x) = b + int (fst s)" if s: "s \<in> set (phrase_slots 0 terms)" for s
  proof -
    from b [OF s] obtain t loc where t: "t \<in> set (snd s)" "loc \<in> set (locs_of tlm t)" "Pos loc = b + int (fst s)" by blast
    from t(2) obtain k where "k < length (locs_of tlm t)" "locs_of tlm t ! k = loc" by (auto simp: in_set_conv_nth)
    with t have "t \<in> set (snd s)" "k < length (locs_of tlm t)" "Pos (locs_of tlm t ! k) = b + int (fst s)" by simp_all
    then show ?thesis
      by (intro exI [of _ "\<lparr>pp_term = t, pp_index = k, pp_loc = locs_of tlm t ! k\<rparr>"]) (simp add: fits_def)
  qed
  then obtain f where f: "\<And>s. s \<in> set (phrase_slots 0 terms) \<Longrightarrow> fits tlm s (f s) \<and> Pos (pp_loc (f s)) = b + int (fst s)"
    by metis
  let ?q = "map f (phrase_slots 0 terms)"
  have q: "list_all2 (fits tlm) (phrase_slots 0 terms) ?q"
    "list_all2 (\<lambda>s x. Pos (pp_loc x) = b + int (fst s)) (phrase_slots 0 terms) ?q"
    using f by (auto simp: list_all2_map2 list_all2_same)
  then have "displacement (phrase_slots 0 terms) ?q \<le> 0" using displacement_zero list_all2_lengthD by blast
  then show ?L using q aligned_distinct [OF q distinct_slots] by (auto simp: occurrence_def)
qed

section \<open>The match of a phrase\<close>

definition part_location :: "string \<Rightarrow> phrase_part \<Rightarrow> field_term_location" where
  "part_location field pp = \<lparr>FtlField = field, FtlTerm = pp_term pp, FtlLocation = pp_loc pp\<rparr>"

lemma fold_appends: "(\<And>x acc. x \<in> set xs \<Longrightarrow> f x acc = acc @ g x) \<Longrightarrow> fold f xs acc = acc @ concat (map g xs)"
  by (induction xs arbitrary: acc) auto

lemma check_field_eq:
  "check_curr_must_match_field terms slop field tlm ftls =
    ftls @ concat (map (map (part_location field)) (find_phrase_paths 0 terms tlm [] slop []))"
  unfolding check_curr_must_match_field_def
proof (rule fold_appends)
  show "fold (\<lambda>pp ftls. ftls @ [\<lparr>FtlField = field, FtlTerm = pp_term pp,
      FtlLocation = \<lparr>Pos = Pos (pp_loc pp), Start = Start (pp_loc pp), End = End (pp_loc pp)\<rparr>\<rparr>]) p acc =
      acc @ map (part_location field) p" for p acc
    by (subst fold_appends [where g = "\<lambda>pp. [part_location field pp]"]) (simp_all add: part_location_def)
qed

definition phrase_locations :: "phrase_spec \<Rightarrow> field_term_location_map \<Rightarrow> field_term_location list" where
  "phrase_locations ph locations = concat (map (\<lambda>field. concat (map (map (part_location field))
     (find_phrase_paths 0 (ph_terms ph) (tlm_of locations field) [] (ph_slop ph) []))) (ph_fields ph locations))"

lemma complete_match_unchanged:
  "complete_match srt dm = Some dm' \<Longrightarrow> Number dm' = Number dm \<and> FieldTermLocations dm' = []"
  by (auto simp: complete_match_def split: if_splits option.splits)

lemma check_curr_must_match_eq:
  assumes "complete_match (ph_sort ph) dm = Some dm'"
  shows "check_curr_must_match ph dm =
    (let ftls = phrase_locations ph (Locations dm')
     in Some (if ftls = [] then None else Some (dm'\<lparr>Locations := Map.empty, FieldTermLocations := ftls\<rparr>)))"
proof -
  have "fold (\<lambda>field. check_curr_must_match_field (ph_terms ph) (ph_slop ph) field (tlm_of (Locations dm') field))
      (ph_fields ph (Locations dm')) [] = phrase_locations ph (Locations dm')"
    unfolding phrase_locations_def by (subst fold_appends) (simp_all add: check_field_eq)
  then show ?thesis
    using assms complete_match_unchanged [OF assms] by (simp add: check_curr_must_match_def Let_def)
qed

lemma check_curr_must_match_number:
  "check_curr_must_match ph dm = Some (Some d) \<Longrightarrow> Number d = Number dm"
proof -
  assume check: "check_curr_must_match ph dm = Some (Some d)"
  then obtain dm' where dm': "complete_match (ph_sort ph) dm = Some dm'"
    by (cases "complete_match (ph_sort ph) dm") (simp_all add: check_curr_must_match_def)
  have "d = dm'\<lparr>Locations := Map.empty, FieldTermLocations := phrase_locations ph (Locations dm')\<rparr>"
    using check unfolding check_curr_must_match_eq [OF dm'] Let_def by (simp split: if_splits)
  then show ?thesis using complete_match_unchanged [OF dm'] by simp
qed

lemma phrase_locations_set:
  assumes "\<And>f. real_positions (tlm_of m f)" and "0 \<le> ph_slop ph"
  shows "set (phrase_locations ph m) =
    {part_location f pp | f q pp. f \<in> set (ph_fields ph m) \<and> occurrence (ph_terms ph) (tlm_of m f) (ph_slop ph) q \<and> pp \<in> set q}"
  unfolding phrase_locations_def
  by (auto simp: paths_occurrences [OF assms(1) assms(2)])

lemma occurrence_nonempty: "phrase_slots 0 terms \<noteq> [] \<Longrightarrow> occurrence terms tlm slop q \<Longrightarrow> q \<noteq> []"
  by (auto simp: occurrence_def)

lemma tlm_of_outside: "f \<notin> dom m \<Longrightarrow> tlm_of m f = Map.empty"
  by (auto simp: tlm_of_def domIff)

lemma in_dom_of_loc: "loc \<in> set (locs_of (tlm_of m f) t) \<Longrightarrow> f \<in> dom m"
  by (cases "m f") (simp_all add: tlm_of_def locs_of_def domIff)

lemma check_hit_iff:
  assumes "complete_match (ph_sort ph) dm = Some dm'"
  shows "(\<exists>d. check_curr_must_match ph dm = Some (Some d)) \<longleftrightarrow> phrase_locations ph (Locations dm') \<noteq> []"
  unfolding check_curr_must_match_eq [OF assms] Let_def by simp

lemma check_hit_occurrence:
  assumes dm': "complete_match (ph_sort ph) dm = Some dm'" and real: "\<And>f. real_positions (tlm_of (Locations dm') f)"
    and slop: "0 \<le> ph_slop ph" and slots: "phrase_slots 0 (ph_terms ph) \<noteq> []"
  shows "(\<exists>d. check_curr_must_match ph dm = Some (Some d)) \<longleftrightarrow>
    (\<exists>f\<in>set (ph_fields ph (Locations dm')). \<exists>q. occurrence (ph_terms ph) (tlm_of (Locations dm') f) (ph_slop ph) q)"
proof -
  note locs = phrase_locations_set [OF real slop]
  have "phrase_locations ph (Locations dm') \<noteq> []"
    if "f \<in> set (ph_fields ph (Locations dm'))" "occurrence (ph_terms ph) (tlm_of (Locations dm') f) (ph_slop ph) q" for f q
  proof -
    have "hd q \<in> set q" using occurrence_nonempty [OF slots that(2)] by simp
    with that have "part_location f (hd q) \<in> set (phrase_locations ph (Locations dm'))" unfolding locs by blast
    then show ?thesis by auto
  qed
  moreover have "\<exists>f\<in>set (ph_fields ph (Locations dm')). \<exists>q. occurrence (ph_terms ph) (tlm_of (Locations dm') f) (ph_slop ph) q"
    if ne: "phrase_locations ph (Locations dm') \<noteq> []"
  proof -
    have "hd (phrase_locations ph (Locations dm')) \<in> set (phrase_locations ph (Locations dm'))" using ne by simp
    then show ?thesis unfolding locs by blast
  qed
  ultimately show ?thesis unfolding check_hit_iff [OF dm'] by blast
qed

text \<open>\<open>cold\<close>, any token, \<open>beer\<close>: only the second \<open>beer\<close> stands two after \<open>cold\<close>.\<close>

definition example_tlm :: term_location_map where
  "example_tlm = [''beer'' \<mapsto> [\<lparr>Pos = 1, Start = 0, End = 4\<rparr>, \<lparr>Pos = 4, Start = 15, End = 19\<rparr>],
                  ''cold'' \<mapsto> [\<lparr>Pos = 2, Start = 5, End = 9\<rparr>]]"

lemma example_positions: "real_positions example_tlm"
  by (simp add: real_positions_def example_tlm_def locs_of_def)

lemma example_paths:
  "{q. occurrence [[''cold''], [''''], [''beer'']] example_tlm 0 q} =
     {[\<lparr>pp_term = ''cold'', pp_index = 0, pp_loc = \<lparr>Pos = 2, Start = 5, End = 9\<rparr>\<rparr>,
       \<lparr>pp_term = ''beer'', pp_index = 1, pp_loc = \<lparr>Pos = 4, Start = 15, End = 19\<rparr>\<rparr>]}"
  unfolding paths_occurrences [OF example_positions order_refl, symmetric]
  by (simp add: placeholder_def edit_distance_def used_in_def example_tlm_def locs_of_def enumerate_simps)

section \<open>The locations of a match\<close>

text \<open>
  The check completes the match and looks into its locations. A match comes from the searchers
  with its locations listed and not yet in the map, at positions from 1 on; completing it does not
  panic, and the range over the map visits its fields.
\<close>

definition checkable :: "phrase_spec \<Rightarrow> document_match \<Rightarrow> bool" where
  "checkable ph d \<longleftrightarrow> Locations d = Map.empty \<and> (\<forall>x\<in>set (FieldTermLocations d). 0 < Pos (FtlLocation x)) \<and>
     (\<exists>dm'. complete_match (ph_sort ph) d = Some dm' \<and> set (ph_fields ph (Locations dm')) = dom (Locations dm'))"

definition completed_locations :: "phrase_spec \<Rightarrow> document_match \<Rightarrow> string \<Rightarrow> term_location_map" where
  "completed_locations ph d f = tlm_of (Locations (the (complete_match (ph_sort ph) d))) f"

definition holds_phrase :: "phrase_spec \<Rightarrow> document_match \<Rightarrow> bool" where
  "holds_phrase ph d \<longleftrightarrow> (\<exists>f q. occurrence (ph_terms ph) (completed_locations ph d f) (ph_slop ph) q)"

definition phrase_hit :: "phrase_spec \<Rightarrow> document_match \<Rightarrow> document_match \<Rightarrow> bool" where
  "phrase_hit ph d h \<longleftrightarrow> Number h = Number d \<and> set (FieldTermLocations h) =
     {part_location f pp | f q pp. occurrence (ph_terms ph) (completed_locations ph d f) (ph_slop ph) q \<and> pp \<in> set q}"

lemma completed_set:
  assumes "checkable ph d" and "\<And>p. mset (ph_sort ph p) = mset p"
  shows "set (locs_of (completed_locations ph d f) t) =
    {FtlLocation x | x. x \<in> set (FieldTermLocations d) \<and> FtlField x = f \<and> FtlTerm x = t}"
proof -
  obtain dm' where dm': "complete_match (ph_sort ph) d = Some dm'" using assms(1) by (auto simp: checkable_def)
  show ?thesis
    using complete_match_set [OF dm' assms(2), of f t] assms(1) dm'
    by (simp add: checkable_def completed_locations_def locations_at_def tlm_of_def locs_of_def)
qed

lemma completed_positions:
  assumes "checkable ph d" and "\<And>p. mset (ph_sort ph p) = mset p"
  shows "real_positions (completed_locations ph d f)"
  using assms(1) unfolding real_positions_def completed_set [OF assms] checkable_def by blast

lemma occurrence_field:
  assumes "phrase_slots 0 terms \<noteq> []" and "occurrence terms (tlm_of m f) slop q"
  shows "f \<in> dom m"
proof -
  have "q \<noteq> []" using assms by (rule occurrence_nonempty)
  then obtain x s where "fits (tlm_of m f) s x"
    using assms(2) by (cases q; cases "phrase_slots 0 terms") (auto simp: occurrence_def)
  then have "pp_loc x \<in> set (locs_of (tlm_of m f) (pp_term x))" by (simp add: fits_def)
  then show ?thesis by (rule in_dom_of_loc)
qed

lemma check_decides:
  assumes ok: "checkable ph d" and sort: "\<And>p. mset (ph_sort ph p) = mset p"
    and slop: "0 \<le> ph_slop ph" and slots: "phrase_slots 0 (ph_terms ph) \<noteq> []"
  shows "if holds_phrase ph d then \<exists>h. check_curr_must_match ph d = Some (Some h) \<and> phrase_hit ph d h
    else check_curr_must_match ph d = Some None"
proof -
  obtain dm' where dm': "complete_match (ph_sort ph) d = Some dm'" and fields: "set (ph_fields ph (Locations dm')) = dom (Locations dm')"
    using ok by (auto simp: checkable_def)
  have tlm: "completed_locations ph d = tlm_of (Locations dm')" using dm' by (simp add: completed_locations_def fun_eq_iff)
  have real: "real_positions (tlm_of (Locations dm') f)" for f using completed_positions [OF ok sort] unfolding tlm .
  have locs: "set (phrase_locations ph (Locations dm')) =
    {part_location f pp | f q pp. occurrence (ph_terms ph) (tlm_of (Locations dm') f) (ph_slop ph) q \<and> pp \<in> set q}"
    unfolding phrase_locations_set [OF real slop] fields using occurrence_field [OF slots] by blast
  have holds: "holds_phrase ph d \<longleftrightarrow> phrase_locations ph (Locations dm') \<noteq> []"
    using check_hit_occurrence [OF dm' real slop slots] occurrence_field [OF slots] check_hit_iff [OF dm']
    unfolding holds_phrase_def tlm fields by blast
  show ?thesis
    unfolding holds using complete_match_unchanged [OF dm'] locs
    by (simp add: check_curr_must_match_eq [OF dm'] phrase_hit_def tlm Let_def)
qed

text \<open>
  Without slop, the locations of a match hold a phrase exactly when there are a field and a
  base from which every slot of the phrase has one of its terms at its own offset, among the
  locations its searchers reported.
\<close>

lemma exact_phrase_match:
  assumes ok: "checkable ph d" and sort: "\<And>p. mset (ph_sort ph p) = mset p" and "ph_slop ph = 0"
  shows "holds_phrase ph d \<longleftrightarrow>
    (\<exists>f b. \<forall>(i, car)\<in>set (phrase_slots 0 (ph_terms ph)). \<exists>x\<in>set (FieldTermLocations d).
       FtlField x = f \<and> FtlTerm x \<in> set car \<and> Pos (FtlLocation x) = b + int i)"
proof -
  have "(\<exists>t\<in>set car. \<exists>loc\<in>set (locs_of (completed_locations ph d f) t). Pos loc = n) \<longleftrightarrow>
      (\<exists>x\<in>set (FieldTermLocations d). FtlField x = f \<and> FtlTerm x \<in> set car \<and> Pos (FtlLocation x) = n)" for car f n
    unfolding completed_set [OF ok sort] by blast
  then show ?thesis unfolding holds_phrase_def assms(3) occurrence_aligned by (simp only: split_beta)
qed

end
