(* ===== verification/Phrase_Searcher.thy ===== *)
theory Phrase_Searcher
  imports Phrase_Paths Composite_Runs
begin

text \<open>
  The phrase searcher (\<open>search_phrase.go\<close>): the position searchers it opens, and \<open>Next\<close> and
  \<open>Advance\<close> over the searcher of the required terms. It is shown to return the matches of the
  required terms that hold the phrase, and to keep the contract of \<open>Searcher\<close>.
\<close>

section \<open>Next and Advance\<close>

record 's phrase =
  ps_must :: 's
  ps_currMust :: "document_match option"
  ps_initialized :: bool

definition new_phrase :: "'s \<Rightarrow> 's phrase" where
  "new_phrase must = \<lparr>ps_must = must, ps_currMust = None, ps_initialized = False\<rparr>"

text \<open>The searcher of the required terms is never nil: the constructor sets it.\<close>

definition advance_next_must :: "('s \<Rightarrow> ('e, 's) step) \<Rightarrow> 's phrase \<Rightarrow> ('e, 's phrase) result option" where
  "advance_next_must nxt s =
     bindr (nxt (ps_must s)) (\<lambda>(m, c). Some (Inr (s\<lparr>ps_currMust := m, ps_must := c\<rparr>)))"

definition init_phrase :: "('s \<Rightarrow> ('e, 's) step) \<Rightarrow> 's phrase \<Rightarrow> ('e, 's phrase) result option" where
  "init_phrase nxt s = bindr (advance_next_must nxt s) (\<lambda>s. Some (Inr (s\<lparr>ps_initialized := True\<rparr>)))"

partial_function (option) phrase_loop ::
  "('s \<Rightarrow> ('e, 's) step) \<Rightarrow> (document_match \<Rightarrow> document_match option option) \<Rightarrow> 's phrase \<Rightarrow> ('e, 's phrase) step" where
  "phrase_loop nxt check s =
     (case ps_currMust s of
        None \<Rightarrow> Some (Inr (None, s))
      | Some currMust \<Rightarrow>
          (case check currMust of
             None \<Rightarrow> None
           | Some rv \<Rightarrow>
               bindr (advance_next_must nxt s) (\<lambda>s.
                 if rv \<noteq> None then Some (Inr (rv, s)) else phrase_loop nxt check s)))"

definition phrase_next ::
  "('s \<Rightarrow> ('e, 's) step) \<Rightarrow> (document_match \<Rightarrow> document_match option option) \<Rightarrow> 's phrase \<Rightarrow> ('e, 's phrase) step" where
  "phrase_next nxt check s =
     bindr (if ps_initialized s then Some (Inr s) else init_phrase nxt s) (\<lambda>s. phrase_loop nxt check s)"

definition phrase_advance ::
  "('s \<Rightarrow> ('e, 's) step) \<Rightarrow> ('s \<Rightarrow> nat \<Rightarrow> ('e, 's) step) \<Rightarrow> (document_match \<Rightarrow> document_match option option) \<Rightarrow>
   's phrase \<Rightarrow> nat \<Rightarrow> ('e, 's phrase) step" where
  "phrase_advance nxt adv check s number =
     bindr (if ps_initialized s then Some (Inr s) else init_phrase nxt s) (\<lambda>s.
       case ps_currMust s of
         None \<Rightarrow> Some (Inr (None, s))
       | Some c \<Rightarrow>
           if Number c \<ge> number then phrase_next nxt check s
           else bindr (adv (ps_must s) number) (\<lambda>(m, c).
             phrase_next nxt check (s\<lparr>ps_currMust := m, ps_must := c\<rparr>)))"

section \<open>The position searchers\<close>

text \<open>
  What the constructor opens for the conjunction, from a term searcher and a disjunction that may
  fail. An error comes with the searchers that were closed.
\<close>

fun open_alternatives :: "(string \<Rightarrow> ('e, 's) result) \<Rightarrow> string list \<Rightarrow> 's list \<Rightarrow> ('e, 's list) result" where
  "open_alternatives new_term [] termSearchers = Inr termSearchers"
| "open_alternatives new_term (t # ts) termSearchers =
     (if t = '''' then open_alternatives new_term ts termSearchers
      else case new_term t of
        Inl e \<Rightarrow> Inl e
      | Inr s \<Rightarrow> open_alternatives new_term ts (termSearchers @ [s]))"

fun position_searchers ::
  "(string \<Rightarrow> ('e, 's) result) \<Rightarrow> ('s list \<Rightarrow> ('e, 's) result) \<Rightarrow> string list list \<Rightarrow> 's list \<Rightarrow>
   ('e \<times> 's list, 's list) result" where
  "position_searchers new_term new_disjunction [] opened = Inr opened"
| "position_searchers new_term new_disjunction (termPos # terms) opened =
     (if length termPos = 1 \<and> termPos ! 0 \<noteq> '''' then
        case new_term (termPos ! 0) of
          Inl e \<Rightarrow> Inl (e, opened)
        | Inr s \<Rightarrow> position_searchers new_term new_disjunction terms (opened @ [s])
      else if length termPos > 1 then
        case open_alternatives new_term termPos [] of
          Inl e \<Rightarrow> Inl (e, opened)
        | Inr ss \<Rightarrow>
            (case new_disjunction ss of
               Inl e \<Rightarrow> Inl (e, opened)
             | Inr s \<Rightarrow> position_searchers new_term new_disjunction terms (opened @ [s]))
      else position_searchers new_term new_disjunction terms opened)"

definition new_phrase_searcher ::
  "(string \<Rightarrow> ('e, 's) result) \<Rightarrow> ('s list \<Rightarrow> ('e, 's) result) \<Rightarrow> ('s list \<Rightarrow> ('e, 'm) result) \<Rightarrow>
   string list list \<Rightarrow> ('e \<times> 's list, 'm phrase) result" where
  "new_phrase_searcher new_term new_disjunction make_conjunction terms =
     (case position_searchers new_term new_disjunction terms [] of
        Inl e \<Rightarrow> Inl e
      | Inr ss \<Rightarrow>
          (case make_conjunction ss of
             Inl e \<Rightarrow> Inl (e, ss)
           | Inr must \<Rightarrow> Inr (new_phrase must)))"

text \<open>The constructor opens one searcher for every slot of the phrase that is no placeholder.\<close>

lemma position_searchers_slots:
  "position_searchers new_term new_disjunction terms opened = Inr ss \<Longrightarrow>
    length ss = length opened + length (phrase_slots n terms)"
proof (induction new_term new_disjunction terms opened arbitrary: n rule: position_searchers.induct)
  case (2 new_term new_disjunction termPos terms opened)
  show ?case
  proof (cases "placeholder termPos")
    case True
    then have no: "\<not> (length termPos = 1 \<and> termPos ! 0 \<noteq> '''')" "\<not> length termPos > 1" by (auto simp: placeholder_def)
    then have eq: "position_searchers new_term new_disjunction (termPos # terms) opened =
        position_searchers new_term new_disjunction terms opened"
      by (simp only: position_searchers.simps no if_False)
    show ?thesis using 2(3) [OF no 2(4) [unfolded eq], of "Suc n"] True by simp
  next
    case False
    then consider "length termPos = 1 \<and> termPos ! 0 \<noteq> ''''" | "length termPos > 1" "\<not> (length termPos = 1 \<and> termPos ! 0 \<noteq> '''')"
      unfolding placeholder_def by (metis One_nat_def less_one linorder_neqE_nat)
    then show ?thesis
    proof cases
      case one: 1
      then show ?thesis using 2(1) [of _ "Suc n"] 2(4) False by (auto split: sum.splits)
    next
      case two: 2
      then show ?thesis using 2(2) [of _ _ "Suc n"] 2(4) False by (auto split: sum.splits)
    qed
  qed
qed simp

section \<open>The phrase searcher keeps the contract\<close>

text \<open>
  The children report the locations of a document alike in every match of it, so that the check
  gives one answer per document, and completing their matches does not panic.
\<close>

definition check_ok :: "('s \<Rightarrow> document_match \<Rightarrow> bool) \<Rightarrow> (document_match \<Rightarrow> document_match option option) \<Rightarrow> 's \<Rightarrow> bool" where
  "check_ok hits check s \<longleftrightarrow>
     (\<forall>c. hits s c \<longrightarrow> check c \<noteq> None \<and> (\<forall>d. check c = Some (Some d) \<longrightarrow> Number d = Number c)) \<and>
     (\<forall>c c'. hits s c \<and> hits s c' \<and> Number c = Number c' \<longrightarrow> (check c = Some None \<longleftrightarrow> check c' = Some None))"

lemma check_okD:
  assumes "check_ok hits check s" and "hits s c"
  shows "check c \<noteq> None" "check c = Some (Some d) \<Longrightarrow> Number d = Number c"
    "hits s c' \<Longrightarrow> Number c = Number c' \<Longrightarrow> check c = Some None \<Longrightarrow> check c' = Some None"
  using assms unfolding check_ok_def by blast+

definition phrase_hits :: "('s \<Rightarrow> document_match \<Rightarrow> bool) \<Rightarrow> (document_match \<Rightarrow> document_match option option) \<Rightarrow>
    's phrase \<Rightarrow> document_match \<Rightarrow> bool" where
  "phrase_hits hits check s d \<longleftrightarrow> (\<exists>c. hits (ps_must s) c \<and> check c = Some (Some d))"

lemma phrase_hits_cong: "hits (ps_must s') = hits (ps_must s) \<Longrightarrow> phrase_hits hits check s' = phrase_hits hits check s"
  by (simp add: phrase_hits_def fun_eq_iff)

lemma docs_phrase_subset: "check_ok hits check (ps_must s) \<Longrightarrow> docs_of (phrase_hits hits check) s \<subseteq> docs_of hits (ps_must s)"
proof
  fix j assume ok: "check_ok hits check (ps_must s)" and "j \<in> docs_of (phrase_hits hits check) s"
  then obtain c d where c: "hits (ps_must s) c" "check c = Some (Some d)" "Number d = j"
    unfolding docs_of_def phrase_hits_def by blast
  then have "Number c = j" using check_okD(2) [where hits = hits, OF ok c(1,2)] by simp
  with c(1) show "j \<in> docs_of hits (ps_must s)" by (rule docs_ofI)
qed

lemma check_ok_cong: "hits s' = hits s \<Longrightarrow> check_ok hits check s' = check_ok hits check s"
  by (simp add: check_ok_def)

context searcher
begin

definition phrase_inv :: "(document_match \<Rightarrow> document_match option option) \<Rightarrow> 's phrase \<Rightarrow> bool" where
  "phrase_inv check s \<longleftrightarrow> check_ok hits check (ps_must s) \<and>
     (if ps_initialized s then standing (ps_must s) (ps_currMust s) else inv (ps_must s))"

definition phrase_upfrom :: "'s phrase \<Rightarrow> nat \<Rightarrow> bool" where
  "phrase_upfrom s p \<longleftrightarrow>
     (if ps_initialized s then \<forall>c. ps_currMust s = Some c \<longrightarrow> p \<le> Number c else upfrom (ps_must s) p)"

definition phrase_live :: "'s phrase \<Rightarrow> nat \<Rightarrow> bool" where
  "phrase_live s b \<longleftrightarrow>
     (if ps_initialized s then standing_live (ps_must s) (ps_currMust s) b else live (ps_must s) b)"

definition phrase_post :: "(document_match \<Rightarrow> document_match option option) \<Rightarrow> 's phrase \<Rightarrow> nat \<Rightarrow> bool \<Rightarrow>
    document_match option \<Rightarrow> 's phrase \<Rightarrow> bool" where
  "phrase_post check s p P m s' \<longleftrightarrow>
     phrase_inv check s' \<and> hits (ps_must s') = hits (ps_must s) \<and> exact (ps_must s') = exact (ps_must s) \<and>
     (\<forall>d. m = Some d \<longrightarrow> phrase_hits hits check s d \<and> p \<le> Number d \<and> phrase_upfrom s' (Suc (Number d))) \<and>
     (P \<longrightarrow> first_hit (docs_of (phrase_hits hits check) s) p m \<and>
        (\<forall>d. m = Some d \<longrightarrow> phrase_hits exact check s d \<and> phrase_live s' (Suc (Number d))))"

lemma phrase_post_none:
  assumes "phrase_inv check s" "ps_initialized s" "ps_currMust s = None" "P \<Longrightarrow> \<exists>b\<le>p. phrase_live s b"
  shows "phrase_post check s p P None s"
proof -
  have ok: "check_ok hits check (ps_must s)" using assms(1) by (simp add: phrase_inv_def)
  have "first_hit (docs_of (phrase_hits hits check) s) p None" if hyp: P
  proof -
    obtain b where "b \<le> p" "\<forall>i\<in>docs_of hits (ps_must s). i < b"
      using assms(4) [OF hyp] assms(2,3) by (auto simp: phrase_live_def standing_live_def first_hit_def)
    then show ?thesis using docs_phrase_subset [OF ok] by (fastforce simp: first_hit_def)
  qed
  then show ?thesis using assms(1) by (simp add: phrase_post_def)
qed

lemma phrase_post_found:
  assumes s: "phrase_inv check s" "ps_initialized s" "ps_currMust s = Some c" "phrase_upfrom s p"
    and P: "P \<Longrightarrow> phrase_live s p" and n: "nxt (ps_must s) = Some (Inr (m1, s1))" and d: "check c = Some (Some d)"
  shows "phrase_post check s p P (Some d) (s\<lparr>ps_currMust := m1, ps_must := s1\<rparr>)"
proof -
  have ok: "check_ok hits check (ps_must s)" and st: "standing (ps_must s) (Some c)"
    using s(1-3) by (simp_all add: phrase_inv_def)
  have c: "hits (ps_must s) c" using st by (simp add: standing_def)
  have num: "Number d = Number c" using check_okD(2) [where hits = hits, OF ok c d] .
  note nx = standing_next [OF st n]
  have ok1: "check_ok hits check s1" using ok check_ok_cong [OF nx(2)] by simp
  have low: "p \<le> Number c" using s(2-4) by (simp add: phrase_upfrom_def)
  have hit: "phrase_hits hits check s d" using c d unfolding phrase_hits_def by blast
  have "first_hit (docs_of (phrase_hits hits check) s) p (Some d) \<and> phrase_hits exact check s d \<and> standing_live s1 m1 (Suc (Number c))" if P
  proof -
    have sl: "standing_live (ps_must s) (Some c) p" using P [OF that] s(2,3) by (simp add: phrase_live_def)
    then have "\<forall>i\<in>docs_of hits (ps_must s). p \<le> i \<longrightarrow> Number c \<le> i" "exact (ps_must s) c"
      by (simp_all add: standing_live_def first_hit_def)
    moreover have "Number d \<in> docs_of (phrase_hits hits check) s" by (rule docs_ofI [of "phrase_hits hits check", OF hit refl])
    ultimately show ?thesis
      using nx(5) [OF sl] docs_phrase_subset [OF ok] d low num unfolding first_hit_def phrase_hits_def by auto
  qed
  then show ?thesis
    using ok1 nx(1-4) hit low num s(2)
    by (auto simp: phrase_post_def phrase_inv_def phrase_upfrom_def phrase_live_def Suc_le_eq)
qed

lemma phrase_post_skip:
  assumes s: "phrase_inv check s" "ps_initialized s" "ps_currMust s = Some c" "phrase_upfrom s p"
    and P: "P \<Longrightarrow> phrase_live s p" and d: "check c = Some None"
    and s2: "hits (ps_must s2) = hits (ps_must s)" "exact (ps_must s2) = exact (ps_must s)"
    and post: "phrase_post check s2 (Suc (Number c)) P m s'"
  shows "phrase_post check s p P m s'"
proof -
  have ok: "check_ok hits check (ps_must s)" and c: "hits (ps_must s) c"
    using s(1-3) by (simp_all add: phrase_inv_def standing_def)
  have low: "p \<le> Number c" using s(2-4) by (simp add: phrase_upfrom_def)
  note eq = phrase_hits_cong [of hits, OF s2(1)] phrase_hits_cong [of exact, OF s2(2)]
  have docs: "docs_of (phrase_hits hits check) s2 = docs_of (phrase_hits hits check) s" by (simp add: docs_of_def eq(1))
  have "first_hit (docs_of (phrase_hits hits check) s) p m" if P
  proof (rule first_hit_lower)
    show "first_hit (docs_of (phrase_hits hits check) s) (Suc (Number c)) m" using post that docs by (simp add: phrase_post_def)
    show "p \<le> Suc (Number c)" using low by simp
    fix j assume j: "j \<in> docs_of (phrase_hits hits check) s" "p \<le> j" "j < Suc (Number c)"
    then obtain e d' where e: "hits (ps_must s) e" "check e = Some (Some d')" "Number d' = j"
      unfolding docs_of_def phrase_hits_def by blast
    then have ej: "Number e = j" using check_okD(2) [where hits = hits, OF ok e(1,2)] by simp
    have "Number c \<le> j"
      using P [OF that] s(2,3) j(1,2) docs_phrase_subset [OF ok] by (auto simp: phrase_live_def standing_live_def first_hit_def)
    then have "Number e = Number c" using ej j(3) by simp
    then show False using check_okD(3) [where hits = hits, OF ok c e(1)] d e(2) by simp
  qed
  then show ?thesis using post low unfolding phrase_post_def s2 eq by fastforce
qed

lemma phrase_loop_ok:
  "\<forall>j\<in>docs_of hits (ps_must s). j < B \<Longrightarrow> phrase_inv check s \<Longrightarrow> ps_initialized s \<Longrightarrow> phrase_upfrom s p \<Longrightarrow>
    (P \<Longrightarrow> phrase_live s p) \<Longrightarrow>
    \<exists>r. phrase_loop nxt check s = Some r \<and> (\<forall>m s'. r = Inr (m, s') \<longrightarrow> phrase_post check s p P m s')"
proof (induction "case ps_currMust s of None \<Rightarrow> 0 | Some c \<Rightarrow> B - Number c" arbitrary: s p rule: less_induct)
  case less
  note prems = less.prems
  show ?case
  proof (cases "ps_currMust s")
    case None
    have "phrase_post check s p P None s" by (rule phrase_post_none [OF prems(2,3) None]) (use prems(5) in blast)
    then show ?thesis using None by (simp add: phrase_loop.simps)
  next
    case (Some c)
    have st: "standing (ps_must s) (Some c)" and ok: "check_ok hits check (ps_must s)"
      using prems(2,3) Some by (simp_all add: phrase_inv_def)
    have c: "hits (ps_must s) c" and inv: "inv (ps_must s)" using st by (simp_all add: standing_def)
    obtain rv where rv: "check c = Some rv" using check_okD(1) [where hits = hits, OF ok c] by blast
    obtain r where r: "nxt (ps_must s) = Some r" using nxt_total [OF inv] by blast
    show ?thesis
    proof (cases r)
      case (Inl e)
      then show ?thesis using Some rv r by (simp add: phrase_loop.simps advance_next_must_def)
    next
      case (Inr ms)
      then obtain m1 s1 where n: "nxt (ps_must s) = Some (Inr (m1, s1))" using r by (cases ms) simp
      let ?s = "s\<lparr>ps_currMust := m1, ps_must := s1\<rparr>"
      note nx = standing_next [OF st n]
      show ?thesis
      proof (cases rv)
        case (Some d)
        have "phrase_loop nxt check s = Some (Inr (Some d, ?s))"
          using \<open>ps_currMust s = Some c\<close> rv n Some by (simp add: phrase_loop.simps advance_next_must_def)
        then show ?thesis
          using phrase_post_found [OF prems(2,3) \<open>ps_currMust s = Some c\<close> prems(4,5) n] rv Some by simp
      next
        case None
        have res: "phrase_loop nxt check s = phrase_loop nxt check ?s"
          using Some rv n None by (subst phrase_loop.simps) (simp add: advance_next_must_def)
        have "check_ok hits check s1" using ok check_ok_cong [OF nx(2)] by simp
        then have inv': "phrase_inv check ?s" using nx(1) prems(3) by (simp add: phrase_inv_def)
        have up: "phrase_upfrom ?s (Suc (Number c))" using nx(4) prems(3) by (simp add: phrase_upfrom_def Suc_le_eq)
        have lv: "phrase_live ?s (Suc (Number c))" if P
          using prems(5) [OF that] nx(5) prems(3) Some by (simp add: phrase_live_def)
        have bnd: "\<forall>j\<in>docs_of hits (ps_must ?s). j < B" using prems(1) nx(2) by (simp add: docs_of_def)
        have "Number c < B" using prems(1) hit_doc [OF c] by blast
        then have small: "(case ps_currMust ?s of None \<Rightarrow> 0 | Some c \<Rightarrow> B - Number c) < (case ps_currMust s of None \<Rightarrow> 0 | Some c \<Rightarrow> B - Number c)"
          using Some nx(4) by (cases m1) auto
        obtain r' where r': "phrase_loop nxt check ?s = Some r'"
          "\<forall>m s'. r' = Inr (m, s') \<longrightarrow> phrase_post check ?s (Suc (Number c)) P m s'"
          using less.hyps [OF small bnd inv' _ up lv] prems(3) by auto
        have "phrase_post check s p P m s'" if "phrase_post check ?s (Suc (Number c)) P m s'" for m s'
          by (rule phrase_post_skip [OF prems(2,3) Some prems(4,5) _ _ _ that]) (use rv None nx(2,3) in simp_all)
        then show ?thesis unfolding res using r' by blast
      qed
    qed
  qed
qed

lemma phrase_prepare:
  assumes "phrase_inv check s"
  shows "\<exists>r. (if ps_initialized s then Some (Inr s) else init_phrase nxt s) = Some r \<and>
    (\<forall>s'. r = Inr s' \<longrightarrow> phrase_inv check s' \<and> ps_initialized s' \<and>
       hits (ps_must s') = hits (ps_must s) \<and> exact (ps_must s') = exact (ps_must s) \<and>
       (\<forall>p. phrase_upfrom s p \<longrightarrow> phrase_upfrom s' p) \<and> (\<forall>b. phrase_live s b \<longrightarrow> phrase_live s' b))"
proof (cases "ps_initialized s")
  case False
  then have inv: "inv (ps_must s)" and ok: "check_ok hits check (ps_must s)" using assms by (simp_all add: phrase_inv_def)
  obtain r where r: "nxt (ps_must s) = Some r" using nxt_total [OF inv] by blast
  show ?thesis
  proof (cases r)
    case (Inl e)
    then show ?thesis using r False by (simp add: init_phrase_def advance_next_must_def)
  next
    case (Inr ms)
    then obtain m c where n: "nxt (ps_must s) = Some (Inr (m, c))" using r by (cases ms) simp
    note fr = standing_fresh [OF inv n]
    have "check_ok hits check c" using ok check_ok_cong [OF fr(2)] by simp
    then show ?thesis
      using False n fr by (simp add: init_phrase_def advance_next_must_def phrase_inv_def phrase_upfrom_def phrase_live_def)
  qed
qed (use assms in simp)

lemma phrase_loop_total:
  assumes "phrase_inv check s" "ps_initialized s" "phrase_upfrom s p" "P \<Longrightarrow> phrase_live s p"
  shows "\<exists>r. phrase_loop nxt check s = Some r \<and> (\<forall>m s'. r = Inr (m, s') \<longrightarrow> phrase_post check s p P m s')"
proof -
  have "inv (ps_must s)" using assms(1,2) by (simp add: phrase_inv_def standing_def)
  from finite_docs [OF this] obtain B where "\<forall>j\<in>docs_of hits (ps_must s). j < B"
    using finite_nat_set_iff_bounded by blast
  from phrase_loop_ok [OF this assms] show ?thesis .
qed

lemma phrase_post_cong:
  assumes "phrase_post check s' p P m s''" "hits (ps_must s') = hits (ps_must s)" "exact (ps_must s') = exact (ps_must s)"
  shows "phrase_post check s p P m s''"
  using assms phrase_hits_cong [of hits, OF assms(2)] phrase_hits_cong [of exact, OF assms(3)]
  by (simp add: phrase_post_def docs_of_def)

lemma phrase_next_ok:
  assumes "phrase_inv check s" "phrase_upfrom s p" "P \<Longrightarrow> phrase_live s p"
  shows "\<exists>r. phrase_next nxt check s = Some r \<and> (\<forall>m s'. r = Inr (m, s') \<longrightarrow> phrase_post check s p P m s')"
proof -
  obtain r where r: "(if ps_initialized s then Some (Inr s) else init_phrase nxt s) = Some r"
    "\<forall>s'. r = Inr s' \<longrightarrow> phrase_inv check s' \<and> ps_initialized s' \<and>
       hits (ps_must s') = hits (ps_must s) \<and> exact (ps_must s') = exact (ps_must s) \<and>
       (\<forall>p. phrase_upfrom s p \<longrightarrow> phrase_upfrom s' p) \<and> (\<forall>b. phrase_live s b \<longrightarrow> phrase_live s' b)"
    using phrase_prepare [OF assms(1)] by blast
  show ?thesis
  proof (cases r)
    case (Inl e)
    then show ?thesis unfolding phrase_next_def r(1) by simp
  next
    case (Inr s1)
    have s1: "phrase_inv check s1" "ps_initialized s1" "phrase_upfrom s1 p" "P \<Longrightarrow> phrase_live s1 p"
      "hits (ps_must s1) = hits (ps_must s)" "exact (ps_must s1) = exact (ps_must s)"
      using r(2) Inr assms(2,3) by blast+
    show ?thesis unfolding phrase_next_def r(1) Inr bindr_simps
      using phrase_loop_total [OF s1(1-4)] phrase_post_cong [OF _ s1(5,6)] by blast
  qed
qed

lemma phrase_advance_ok:
  assumes inv: "phrase_inv check s" and P: "P \<Longrightarrow> \<exists>b\<le>n. phrase_live s b"
  shows "\<exists>r. phrase_advance nxt adv check s n = Some r \<and> (\<forall>m s'. r = Inr (m, s') \<longrightarrow> phrase_post check s n P m s')"
proof -
  obtain r where r: "(if ps_initialized s then Some (Inr s) else init_phrase nxt s) = Some r"
    "\<forall>s'. r = Inr s' \<longrightarrow> phrase_inv check s' \<and> ps_initialized s' \<and>
       hits (ps_must s') = hits (ps_must s) \<and> exact (ps_must s') = exact (ps_must s) \<and>
       (\<forall>p. phrase_upfrom s p \<longrightarrow> phrase_upfrom s' p) \<and> (\<forall>b. phrase_live s b \<longrightarrow> phrase_live s' b)"
    using phrase_prepare [OF inv] by blast
  show ?thesis
  proof (cases r)
    case (Inl e)
    then show ?thesis unfolding phrase_advance_def r(1) by simp
  next
    case (Inr s1)
    have s1: "phrase_inv check s1" "ps_initialized s1" "P \<Longrightarrow> \<exists>b\<le>n. phrase_live s1 b"
      and eq: "hits (ps_must s1) = hits (ps_must s)" "exact (ps_must s1) = exact (ps_must s)"
      using r(2) Inr P by blast+
    have st: "standing (ps_must s1) (ps_currMust s1)" and ok: "check_ok hits check (ps_must s1)"
      using s1(1,2) by (simp_all add: phrase_inv_def)
    note unf = phrase_advance_def r(1) Inr bindr_simps
    show ?thesis
    proof (cases "ps_currMust s1")
      case None
      then have "phrase_post check s n P None s1"
        using phrase_post_cong [OF phrase_post_none [OF s1(1,2) None s1(3)] eq] by blast
      then show ?thesis unfolding unf using None by simp
    next
      case (Some c)
      show ?thesis
      proof (cases "n \<le> Number c")
        case True
        have l: "phrase_live s1 n" if hyp: P
        proof -
          obtain b where "b \<le> n" "phrase_live s1 b" using s1(3) [OF hyp] by blast
          then show ?thesis
            using standing_live_mono [of "ps_must s1" "ps_currMust s1" b n] True Some s1(2) by (simp add: phrase_live_def)
        qed
        have u: "phrase_upfrom s1 n" using True Some s1(2) by (simp add: phrase_upfrom_def)
        have run: "phrase_advance nxt adv check s n = phrase_next nxt check s1" unfolding unf using Some True by simp
        show ?thesis unfolding run using phrase_next_ok [OF s1(1) u l] phrase_post_cong [OF _ eq] by blast
      next
        case False
        have below: "\<forall>d. ps_currMust s1 = Some d \<longrightarrow> Number d < n" using Some False by simp
        have inv1: "inv (ps_must s1)" using st by (simp add: standing_def)
        obtain q where q: "adv (ps_must s1) n = Some q" using adv_total [OF inv1] by blast
        show ?thesis
        proof (cases q)
          case (Inl e)
          then show ?thesis unfolding unf using Some False q by simp
        next
          case (Inr ms)
          then obtain m c' where a: "adv (ps_must s1) n = Some (Inr (m, c'))" using q by (cases ms) simp
          let ?s = "s1\<lparr>ps_currMust := m, ps_must := c'\<rparr>"
          note ad = standing_advance [OF st below a]
          have "check_ok hits check c'" using ok check_ok_cong [OF ad(2)] by simp
          then have i: "phrase_inv check ?s" using ad(1) s1(2) by (simp add: phrase_inv_def)
          have u: "phrase_upfrom ?s n" using ad(4) s1(2) by (simp add: phrase_upfrom_def)
          have l: "phrase_live ?s n" if hyp: P
          proof -
            obtain b where "b \<le> n" "phrase_live s1 b" using s1(3) [OF hyp] by blast
            then show ?thesis using ad(5) s1(2) by (simp add: phrase_live_def)
          qed
          have eq': "hits (ps_must ?s) = hits (ps_must s)" "exact (ps_must ?s) = exact (ps_must s)"
            using ad(2,3) eq by simp_all
          have run: "phrase_advance nxt adv check s n = phrase_next nxt check ?s"
            unfolding unf using Some False a by simp
          show ?thesis unfolding run using phrase_next_ok [OF i u l] phrase_post_cong [OF _ eq'] by blast
        qed
      qed
    qed
  qed
qed

lemma phrase_searcher:
  "searcher (phrase_next nxt check) (phrase_advance nxt adv check) (phrase_inv check) (phrase_hits hits check)
     (phrase_hits exact check) phrase_upfrom phrase_live"
proof
  have post: "phrase_inv check s' \<and> phrase_hits hits check s' = phrase_hits hits check s \<and>
     phrase_hits exact check s' = phrase_hits exact check s \<and>
     (\<forall>d. m = Some d \<longrightarrow> phrase_hits hits check s d \<and> p \<le> Number d \<and> phrase_upfrom s' (Suc (Number d))) \<and>
     (P \<longrightarrow> first_hit (docs_of (phrase_hits hits check) s) p m \<and>
        (\<forall>d. m = Some d \<longrightarrow> phrase_hits exact check s d \<and> phrase_live s' (Suc (Number d))))"
    if "phrase_post check s p P m s'" for s p P m s'
    using that phrase_hits_cong [of hits s' s] phrase_hits_cong [of exact s' s] unfolding phrase_post_def by blast
  show "finite (docs_of (phrase_hits hits check) s)" if "phrase_inv check s" for s
  proof -
    have i: "inv (ps_must s)" and ok: "check_ok hits check (ps_must s)"
      using that by (simp_all add: phrase_inv_def standing_def split: if_splits)
    show ?thesis by (rule finite_subset [OF docs_phrase_subset [OF ok] finite_docs [OF i]])
  qed
  show "phrase_upfrom s 0" if "phrase_inv check s" for s
    using that upfrom_0 by (simp add: phrase_upfrom_def phrase_inv_def)
  show "phrase_upfrom s b" if "phrase_live s b" for s b
    using that live_upfrom by (auto simp: phrase_upfrom_def phrase_live_def standing_live_def first_hit_def split: if_splits)
  show "\<exists>r. phrase_next nxt check s = Some r \<and> (\<forall>m s'. r = Inr (m, s') \<longrightarrow>
        phrase_inv check s' \<and> phrase_hits hits check s' = phrase_hits hits check s \<and>
        phrase_hits exact check s' = phrase_hits exact check s \<and>
        (\<forall>d. m = Some d \<longrightarrow> phrase_hits hits check s d \<and> p \<le> Number d \<and> phrase_upfrom s' (Suc (Number d))) \<and>
        (phrase_live s p \<longrightarrow> first_hit (docs_of (phrase_hits hits check) s) p m \<and>
          (\<forall>d. m = Some d \<longrightarrow> phrase_hits exact check s d \<and> phrase_live s' (Suc (Number d)))))"
    if st: "phrase_inv check s" "phrase_upfrom s p" for s p
  proof -
    obtain r where r: "phrase_next nxt check s = Some r"
      "\<forall>m s'. r = Inr (m, s') \<longrightarrow> phrase_post check s p (phrase_live s p) m s'"
      using phrase_next_ok [OF st, where P = "phrase_live s p"] by blast
    show ?thesis by (rule exI [of _ r], rule conjI [OF r(1)]) (intro allI impI, rule post, use r(2) in blast)
  qed
  show "\<exists>r. phrase_advance nxt adv check s n = Some r \<and> (\<forall>m s'. r = Inr (m, s') \<longrightarrow>
        phrase_inv check s' \<and> phrase_hits hits check s' = phrase_hits hits check s \<and>
        phrase_hits exact check s' = phrase_hits exact check s \<and>
        (\<forall>d. m = Some d \<longrightarrow> phrase_hits hits check s d \<and> n \<le> Number d \<and> phrase_upfrom s' (Suc (Number d))) \<and>
        ((\<exists>b\<le>n. phrase_live s b) \<longrightarrow> first_hit (docs_of (phrase_hits hits check) s) n m \<and>
          (\<forall>d. m = Some d \<longrightarrow> phrase_hits exact check s d \<and> phrase_live s' (Suc (Number d)))))"
    if st: "phrase_inv check s" for s n
  proof -
    obtain r where r: "phrase_advance nxt adv check s n = Some r"
      "\<forall>m s'. r = Inr (m, s') \<longrightarrow> phrase_post check s n (\<exists>b\<le>n. phrase_live s b) m s'"
      using phrase_advance_ok [OF st, where P = "\<exists>b\<le>n. phrase_live s b"] by blast
    show ?thesis by (rule exI [of _ r], rule conjI [OF r(1)]) (intro allI impI, rule post, use r(2) in blast)
  qed
qed

end

section \<open>Where the check gives one answer per document\<close>

lemma check_ok_unique:
  assumes "\<And>c. hits s c \<Longrightarrow> complete_match (ph_sort ph) c \<noteq> None" and "inj_on Number {c. hits s c}"
  shows "check_ok hits (check_curr_must_match ph) s"
proof -
  have "check_curr_must_match ph c \<noteq> None" if "hits s c" for c
    using assms(1) [OF that] by (auto simp: check_curr_must_match_eq Let_def)
  moreover have "c = c'" if "hits s c" "hits s c'" "Number c = Number c'" for c c'
    using assms(2) that by (auto simp: inj_on_def)
  ultimately show ?thesis unfolding check_ok_def using check_curr_must_match_number by blast
qed

lemma conj_hits_inj:
  assumes "\<forall>c\<in>set (cj_searchers s). inj_on Number {d. hits c d}"
  shows "inj_on Number {d. conj_hits hits sc s d}"
proof (rule inj_onI)
  fix d d' assume dd: "d \<in> {d. conj_hits hits sc s d}" "d' \<in> {d. conj_hits hits sc s d}" "Number d = Number d'"
  then obtain j ds j' ds' where ds: "all_hit hits (cj_searchers s) j ds" "d = build_document_match sc ds"
    and ds': "all_hit hits (cj_searchers s) j' ds'" "d' = build_document_match sc ds'"
    unfolding conj_hits_def by blast
  have j: "j' = j" using dd(3) ds ds' all_hit_number [of hits _ _ _ sc] by metis
  have la: "list_all2 hits (cj_searchers s) ds" "list_all2 hits (cj_searchers s) ds'"
    and nums: "\<forall>x\<in>set ds. Number x = j" "\<forall>x\<in>set ds'. Number x = j"
    using ds(1) ds'(1) j by (simp_all add: all_hit_def)
  have "ds = ds'"
  proof (rule nth_equalityI)
    show len: "length ds = length ds'" using la list_all2_lengthD by metis
    fix i assume i: "i < length ds"
    have "Number (ds ! i) = Number (ds' ! i)" using nums i len by simp
    moreover have "hits (cj_searchers s ! i) (ds ! i)" "hits (cj_searchers s ! i) (ds' ! i)"
      using list_all2_nthD2 [OF la(1) i] list_all2_nthD2 [OF la(2)] i len by simp_all
    moreover have "i < length (cj_searchers s)" using list_all2_lengthD [OF la(1)] i by simp
    ultimately show "ds ! i = ds' ! i" using assms unfolding inj_on_def by (metis mem_Collect_eq nth_mem)
  qed
  then show "d = d'" using ds(2) ds'(2) by simp
qed

context postings_iterator
begin

lemma term_hits_inj:
  assumes build: "\<And>p. Number (build p) = PNumber p" and inv: "pinv s"
  shows "inj_on Number {d. term_hits build s d}"
proof -
  have "distinct (map PNumber (postings s))"
    using ascending [OF inv] unfolding sorted_wrt_map [of "(<)" PNumber, symmetric] strict_sorted_iff by blast
  then have inj: "inj_on PNumber (set (postings s))" by (simp add: distinct_map)
  show ?thesis
  proof (rule inj_onI)
    fix d d' assume "d \<in> {d. term_hits build s d}" "d' \<in> {d. term_hits build s d}" "Number d = Number d'"
    then obtain p p' where "p \<in> set (postings s)" "p' \<in> set (postings s)" "d = build p" "d' = build p'" "PNumber p = PNumber p'"
      by (auto simp: term_hits_def build)
    then show "d = d'" using inj_onD [OF inj] by blast
  qed
qed

end

section \<open>Runs of a phrase searcher\<close>

lemma run_step_cong:
  assumes "run nxt s ds out" and "nxt s' = nxt s"
  shows "run nxt s' ds out"
  using assms(1)
proof cases
  case (run_none c)
  then show ?thesis using assms(2) by (auto intro: run.run_none)
next
  case (run_err e)
  then show ?thesis using assms(2) by (auto intro: run.run_err)
next
  case (run_some d c ds')
  then show ?thesis using assms(2) by (auto intro: run.run_some)
qed

lemma phrase_loop_run:
  assumes "run nxt c ds out" and "\<forall>d\<in>set ds. check d \<noteq> None" and "check d \<noteq> None"
  shows "run (phrase_next nxt check) \<lparr>ps_must = c, ps_currMust = Some d, ps_initialized = True\<rparr>
    (List.map_filter (\<lambda>d. the (check d)) (if out = None then d # ds else butlast (d # ds))) out"
  using assms
proof (induction arbitrary: d rule: run.induct)
  case (run_none c c')
  let ?s = "\<lambda>m. \<lparr>ps_must = c', ps_currMust = m, ps_initialized = True\<rparr>"
  have stop: "run (phrase_next nxt check) (?s None) [] None"
    by (rule run.run_none [of _ _ "?s None"]) (simp add: phrase_next_def phrase_loop.simps)
  obtain rv where rv: "check d = Some rv" using run_none.prems(2) by blast
  show ?case
  proof (cases rv)
    case None
    then show ?thesis using run_none.hyps rv
      by (simp add: List.map_filter_simps, intro run.run_none [of _ _ "?s None"])
        (simp add: phrase_next_def phrase_loop.simps advance_next_must_def)
  next
    case (Some r)
    then show ?thesis using run_none.hyps rv
      by (simp add: List.map_filter_simps, intro run.run_some [OF _ stop])
        (simp add: phrase_next_def phrase_loop.simps advance_next_must_def)
  qed
next
  case (run_err c e)
  then show ?case
    by (auto simp: List.map_filter_simps phrase_next_def phrase_loop.simps advance_next_must_def intro!: run.run_err)
next
  case (run_some c x c' ds out)
  let ?s = "\<lparr>ps_must = c, ps_currMust = Some d, ps_initialized = True\<rparr>"
  let ?s' = "\<lparr>ps_must = c', ps_currMust = Some x, ps_initialized = True\<rparr>"
  let ?xs = "if out = None then x # ds else butlast (x # ds)"
  have rest: "run (phrase_next nxt check) ?s' (List.map_filter (\<lambda>d. the (check d)) ?xs) out"
    using run_some.IH [of x] run_some.prems(1) by simp
  have xs: "(if out = None then d # x # ds else butlast (d # x # ds)) = d # ?xs" by simp
  obtain rv where rv: "check d = Some rv" using run_some.prems(2) by blast
  show ?case
  proof (cases rv)
    case None
    have "phrase_next nxt check ?s = phrase_next nxt check ?s'"
      using run_some.hyps(1) rv None
      by (simp add: phrase_next_def) (subst phrase_loop.simps, simp add: advance_next_must_def)
    from run_step_cong [OF rest this] show ?thesis unfolding xs using rv None by (simp add: List.map_filter_simps)
  next
    case (Some r)
    have "phrase_next nxt check ?s = Some (Inr (Some r, ?s'))"
      using run_some.hyps(1) rv Some by (simp add: phrase_next_def phrase_loop.simps advance_next_must_def)
    from run.run_some [OF this rest] show ?thesis unfolding xs using rv Some by (simp add: List.map_filter_simps)
  qed
qed

lemma phrase_first_run:
  assumes "run nxt c ds out" and "\<forall>d\<in>set ds. check d \<noteq> None"
  shows "run (phrase_next nxt check) (new_phrase c)
    (List.map_filter (\<lambda>d. the (check d)) (if out = None then ds else butlast ds)) out"
  using assms(1)
proof cases
  case (run_none c')
  let ?s = "\<lparr>ps_must = c', ps_currMust = None, ps_initialized = True\<rparr>"
  from run_none show ?thesis
    by (simp add: List.map_filter_simps, intro run.run_none [of _ _ ?s])
      (simp add: phrase_next_def init_phrase_def advance_next_must_def new_phrase_def phrase_loop.simps)
next
  case (run_err e)
  then show ?thesis
    by (auto simp: List.map_filter_simps phrase_next_def init_phrase_def advance_next_must_def new_phrase_def intro!: run.run_err)
next
  case (run_some d c' ds')
  let ?s' = "\<lparr>ps_must = c', ps_currMust = Some d, ps_initialized = True\<rparr>"
  have eq: "phrase_next nxt check (new_phrase c) = phrase_next nxt check ?s'"
    using run_some by (simp add: phrase_next_def init_phrase_def advance_next_must_def new_phrase_def)
  have "run (phrase_next nxt check) ?s' (List.map_filter (\<lambda>d. the (check d)) (if out = None then ds else butlast ds)) out"
    using phrase_loop_run [of nxt c' ds' out check d] run_some assms(2) unfolding run_some(1) by auto
  from run_step_cong [OF this eq] show ?thesis .
qed

lemma filtered_hits:
  assumes "\<forall>d\<in>set ds. if P d then \<exists>h. check d = Some (Some h) \<and> R d h else check d = Some None"
  shows "list_all2 R (filter P ds) (List.map_filter (\<lambda>d. the (check d)) ds)"
  using assms
proof (induction ds)
  case (Cons d ds)
  then have rest: "list_all2 R (filter P ds) (List.map_filter (\<lambda>d. the (check d)) ds)" by simp
  have "if P d then \<exists>h. check d = Some (Some h) \<and> R d h else check d = Some None" using Cons.prems by simp
  then show ?case using rest by (auto simp: List.map_filter_simps split: if_splits)
qed (simp add: List.map_filter_simps)

text \<open>
  C40: Over a searcher of the required terms whose calls to \<open>Next\<close> return the matches \<open>ds\<close> and then nil
  or an error, the phrase searcher returns, in the same order, one hit for every match that holds
  the phrase within the slop, and its locations are exactly those of the occurrences; then it
  returns nil or that error. Because \<open>Next\<close> fetches the following match before it returns a hit, the
  last match before an error is never returned, even if it holds the phrase. Without slop a match
  holds the phrase exactly when there are a field and a base position from which every slot that is no
  placeholder has one of its terms at its offset. The phrase has a slot that is no placeholder,
  the slop is not negative, the matches come with listed locations at positions from 1 on, and
  completing them does not panic.
\<close>

theorem phrase_run:
  assumes run: "run nxt c ds out" and ok: "\<forall>d\<in>set ds. checkable ph d" and sort: "\<And>p. mset (ph_sort ph p) = mset p"
    and slop: "0 \<le> ph_slop ph" and slots: "phrase_slots 0 (ph_terms ph) \<noteq> []"
  shows "(\<exists>hs. run (phrase_next nxt (check_curr_must_match ph)) (new_phrase c) hs out \<and>
      list_all2 (phrase_hit ph) (filter (holds_phrase ph) (if out = None then ds else butlast ds)) hs) \<and>
    (ph_slop ph = 0 \<longrightarrow> (\<forall>d\<in>set ds. holds_phrase ph d \<longleftrightarrow>
      (\<exists>f b. \<forall>(i, car)\<in>set (phrase_slots 0 (ph_terms ph)). \<exists>x\<in>set (FieldTermLocations d).
         FtlField x = f \<and> FtlTerm x \<in> set car \<and> Pos (FtlLocation x) = b + int i)))"
proof -
  let ?ds = "if out = None then ds else butlast ds"
  have dec: "if holds_phrase ph d then \<exists>h. check_curr_must_match ph d = Some (Some h) \<and> phrase_hit ph d h
      else check_curr_must_match ph d = Some None" if "d \<in> set ds" for d
    using check_decides [OF _ sort slop slots] ok that by blast
  then have "\<forall>d\<in>set ds. check_curr_must_match ph d \<noteq> None" by (metis option.distinct(1))
  note hits = phrase_first_run [OF run this]
  have "\<forall>d\<in>set ?ds. if holds_phrase ph d then \<exists>h. check_curr_must_match ph d = Some (Some h) \<and> phrase_hit ph d h
      else check_curr_must_match ph d = Some None"
    using dec by (auto dest: in_set_butlastD)
  from filtered_hits [OF this] hits show ?thesis using exact_phrase_match [OF _ sort] ok by blast
qed

definition pop_next :: "document_match list \<Rightarrow> (string, document_match list) step" where
  "pop_next ds = (case ds of [] \<Rightarrow> Some (Inl ''closed'') | d # ds \<Rightarrow> Some (Inr (Some d, ds)))"

lemma pop_run: "run pop_next ds ds (Some ''closed'')"
proof (induction ds)
  case Nil
  then show ?case by (intro run.run_err) (simp add: pop_next_def)
next
  case (Cons d ds)
  then show ?case by (intro run.run_some [where s' = ds]) (simp_all add: pop_next_def)
qed

definition beer_match :: "nat \<Rightarrow> int \<Rightarrow> int \<Rightarrow> document_match" where
  "beer_match n i j = (example_match n 0 1)\<lparr>FieldTermLocations :=
     [\<lparr>FtlField = ''desc'', FtlTerm = ''cold'', FtlLocation = \<lparr>Pos = i, Start = 0, End = 4\<rparr>\<rparr>,
      \<lparr>FtlField = ''desc'', FtlTerm = ''beer'', FtlLocation = \<lparr>Pos = j, Start = 9, End = 13\<rparr>\<rparr>]\<rparr>"

definition beer_phrase :: phrase_spec where
  "beer_phrase = \<lparr>ph_terms = [[''cold''], [''beer'']], ph_slop = 0, ph_sort = (\<lambda>p. p), ph_fields = (\<lambda>_. [''desc''])\<rparr>"

lemma beer_checkable: "0 < i \<Longrightarrow> 0 < j \<Longrightarrow> checkable beer_phrase (beer_match n i j)"
  by (auto simp: checkable_def beer_phrase_def beer_match_def complete_match_def complete_step_def example_match_def Let_def
      dedupe_all_def tlm_of_def split: if_splits)

theorem phrase_run_witness:
  "\<exists>hs. run (phrase_next pop_next (check_curr_must_match beer_phrase))
      (new_phrase [beer_match 3 1 2, beer_match 5 2 4, beer_match 7 4 5]) hs (Some ''closed'') \<and> map Number hs = [3]"
proof -
  let ?ds = "[beer_match 3 1 2, beer_match 5 2 4, beer_match 7 4 5]"
  have ok: "\<forall>d\<in>set ?ds. checkable beer_phrase d" by (simp add: beer_checkable)
  have slots: "phrase_slots 0 (ph_terms beer_phrase) = [(0, [''cold'']), (1, [''beer''])]"
    by (simp add: beer_phrase_def placeholder_def)
  have "\<And>p. mset (ph_sort beer_phrase p) = mset p" "0 \<le> ph_slop beer_phrase" "phrase_slots 0 (ph_terms beer_phrase) \<noteq> []"
    by (simp_all add: beer_phrase_def slots placeholder_def)
  note run = phrase_run [OF pop_run ok this]
  have zero: "ph_slop beer_phrase = 0" by (simp add: beer_phrase_def)
  have "holds_phrase beer_phrase d \<longleftrightarrow>
      (\<exists>f b. \<forall>(i, car)\<in>set (phrase_slots 0 (ph_terms beer_phrase)). \<exists>x\<in>set (FieldTermLocations d).
         FtlField x = f \<and> FtlTerm x \<in> set car \<and> Pos (FtlLocation x) = b + int i)" if "d \<in> set ?ds" for d
    using conjunct2 [OF run] zero that by blast
  then have "holds_phrase beer_phrase (beer_match 3 1 2)" "\<not> holds_phrase beer_phrase (beer_match 5 2 4)"
    unfolding slots by (auto simp: beer_match_def)
  then have "filter (holds_phrase beer_phrase) (if Some ''closed'' = None then ?ds else butlast ?ds) = [beer_match 3 1 2]" by simp
  with conjunct1 [OF run] obtain hs where "run (phrase_next pop_next (check_curr_must_match beer_phrase)) (new_phrase ?ds) hs (Some ''closed'')"
    "list_all2 (phrase_hit beer_phrase) [beer_match 3 1 2] hs" by auto
  then show ?thesis
    by (intro exI [of _ hs]) (auto simp: list_all2_Cons1 phrase_hit_def beer_match_def example_match_def)
qed

end
