(* ===== verification/Introducer.thy ===== *)
theory Introducer
  imports Prelude "HOL-Library.AList"
begin

text \<open>
  The roots of the index and how the introducer replaces them (\<open>index/segment.go\<close>,
  \<open>index/introducer.go\<close>, the merge records of \<open>index/merge.go\<close>). A segment is the list of its
  documents, which never changes; a snapshot of it adds the documents deleted since. Bitmaps are
  sets of document numbers, a nil bitmap is None. What finds the documents with a term in a
  segment is an argument. A panic, such as an index out of range, is None.
\<close>

section \<open>Segments and their snapshots\<close>

record 'd segment_wrapper =
  seg_docs :: "'d list"
  Persisted :: bool

record 'd segment_snapshot =
  ss_id :: nat
  ss_segment :: "'d segment_wrapper"
  ss_deleted :: "nat set option"

definition bitmap :: "nat set option \<Rightarrow> nat set" where
  "bitmap b = (case b of None \<Rightarrow> {} | Some s \<Rightarrow> s)"

definition seg_count :: "'d segment_wrapper \<Rightarrow> nat" where
  "seg_count s = length (seg_docs s)"

definition ss_count :: "'d segment_snapshot \<Rightarrow> nat" where
  "ss_count ss =
     (case ss_deleted ss of None \<Rightarrow> seg_count (ss_segment ss)
      | Some deleted \<Rightarrow> seg_count (ss_segment ss) - card deleted)"

definition doc_numbers_live :: "'d segment_snapshot \<Rightarrow> nat set" where
  "doc_numbers_live ss =
     (case ss_deleted ss of None \<Rightarrow> {0..<seg_count (ss_segment ss)}
      | Some deleted \<Rightarrow> {0..<seg_count (ss_segment ss)} - deleted)"

text \<open>What a reader sees of a segment: its documents that are not deleted.\<close>

definition live_docs :: "'d segment_snapshot \<Rightarrow> 'd list" where
  "live_docs ss = map (nth (seg_docs (ss_segment ss))) (filter (\<lambda>i. i \<notin> bitmap (ss_deleted ss)) [0..<length (seg_docs (ss_segment ss))])"

definition valid_snapshot :: "'d segment_snapshot \<Rightarrow> bool" where
  "valid_snapshot ss \<longleftrightarrow> bitmap (ss_deleted ss) \<subseteq> {0..<seg_count (ss_segment ss)}"

lemma bitmap_simps [simp]: "bitmap None = {}" "bitmap (Some s) = s"
  by (simp_all add: bitmap_def)

lemma doc_numbers_live: "doc_numbers_live ss = {0..<seg_count (ss_segment ss)} - bitmap (ss_deleted ss)"
  by (simp add: doc_numbers_live_def bitmap_def split: option.split)

lemma length_live: "length (filter (\<lambda>i. i \<notin> D) [0..<n]) = card ({0..<n} - D)"
proof -
  have "set (filter (\<lambda>i. i \<notin> D) [0..<n]) = {0..<n} - D" by auto
  then show ?thesis by (metis distinct_card distinct_filter distinct_upt)
qed

lemma ss_count: "valid_snapshot ss \<Longrightarrow> ss_count ss = length (live_docs ss)"
proof -
  assume v: "valid_snapshot ss"
  have "length (live_docs ss) = card ({0..<seg_count (ss_segment ss)} - bitmap (ss_deleted ss))"
    by (simp add: live_docs_def length_live seg_count_def)
  also have "\<dots> = seg_count (ss_segment ss) - card (bitmap (ss_deleted ss))"
    using v by (subst card_Diff_subset) (auto simp: valid_snapshot_def intro: finite_subset)
  finally show ?thesis by (simp add: ss_count_def bitmap_def split: option.split)
qed

lemma live_docs_image: "mset (live_docs ss) = image_mset (nth (seg_docs (ss_segment ss))) (mset_set (doc_numbers_live ss))"
proof -
  let ?is = "filter (\<lambda>i. i \<notin> bitmap (ss_deleted ss)) [0..<length (seg_docs (ss_segment ss))]"
  have "mset_set (doc_numbers_live ss) = mset ?is"
  proof -
    have "doc_numbers_live ss = set ?is" by (auto simp: doc_numbers_live seg_count_def)
    then show ?thesis by (simp add: mset_set_set del: set_filter)
  qed
  then show ?thesis by (simp add: live_docs_def)
qed

section \<open>Introducing a batch\<close>

record 'd snapshot =
  epoch :: nat
  segments :: "'d segment_snapshot list"
  offsets :: "nat list"

record ('d, 't) segment_introduction =
  intro_id :: nat
  intro_data :: "'d segment_wrapper option"
  obsoletes :: "nat \<rightharpoonup> nat set"
  idTerms :: "'t list"

text \<open>The loop over the segments of the root.\<close>

fun introduce_loop ::
    "('d segment_wrapper \<Rightarrow> 't list \<Rightarrow> ('e, nat set) result) \<Rightarrow> ('d, 't) segment_introduction \<Rightarrow> 'd segment_snapshot list \<Rightarrow>
     nat \<Rightarrow> 'd segment_snapshot list \<Rightarrow> nat list \<Rightarrow> ('e, nat \<times> 'd segment_snapshot list \<times> nat list) result" where
  "introduce_loop docs_matching nxt [] running segs offs = Inr (running, segs, offs)"
| "introduce_loop docs_matching nxt (ss # rest) running segs offs =
     bind_result (case obsoletes nxt (ss_id ss) of
         Some delta \<Rightarrow> Inr delta
       | None \<Rightarrow> docs_matching (ss_segment ss) (idTerms nxt))
       (\<lambda>delta.
          let deleted = (case ss_deleted ss of None \<Rightarrow> delta | Some d \<Rightarrow> d \<union> delta);
              newss = ss\<lparr>ss_deleted := (if deleted = {} then None else Some deleted)\<rparr>
          in if ss_count newss > 0
             then introduce_loop docs_matching nxt rest (running + seg_count (ss_segment newss)) (segs @ [newss]) (offs @ [running])
             else introduce_loop docs_matching nxt rest running segs offs)"

definition introduce_segment ::
    "('d segment_wrapper \<Rightarrow> 't list \<Rightarrow> ('e, nat set) result) \<Rightarrow> ('d, 't) segment_introduction \<Rightarrow> nat \<Rightarrow> 'd snapshot \<Rightarrow>
     ('e, 'd snapshot) result" where
  "introduce_segment docs_matching nxt e root =
     bind_result (introduce_loop docs_matching nxt (segments root) 0 [] [])
       (\<lambda>(running, segs, offs).
          case intro_data nxt of
            None \<Rightarrow> Inr \<lparr>epoch = e, segments = segs, offsets = offs\<rparr>
          | Some data \<Rightarrow> Inr \<lparr>epoch = e, segments = segs @ [\<lparr>ss_id = intro_id nxt, ss_segment = data, ss_deleted = None\<rparr>],
              offsets = offs @ [running]\<rparr>)"

text \<open>The optimistic part of \<open>prepareSegment\<close>: what a batch obsoletes in the segments of a root.\<close>

fun prepare_obsoletes ::
    "('d segment_wrapper \<Rightarrow> 't list \<Rightarrow> ('e, nat set) result) \<Rightarrow> 't list \<Rightarrow> 'd segment_snapshot list \<Rightarrow> (nat \<rightharpoonup> nat set) \<Rightarrow>
     ('e, nat \<rightharpoonup> nat set) result" where
  "prepare_obsoletes docs_matching ids [] obs = Inr obs"
| "prepare_obsoletes docs_matching ids (ss # rest) obs =
     bind_result (docs_matching (ss_segment ss) ids)
       (\<lambda>delta. prepare_obsoletes docs_matching ids rest (obs(ss_id ss \<mapsto> delta)))"

section \<open>Introducing persisted segments\<close>

definition introduce_persist :: "(nat \<rightharpoonup> 'd segment_wrapper) \<Rightarrow> nat \<Rightarrow> 'd snapshot \<Rightarrow> 'd snapshot" where
  "introduce_persist persisted e root =
     \<lparr>epoch = e,
      segments = map (\<lambda>ss. case persisted (ss_id ss) of
          Some replacement \<Rightarrow> ss\<lparr>ss_segment := replacement\<rparr>
        | None \<Rightarrow> ss) (segments root),
      offsets = offsets root\<rparr>"

section \<open>Introducing a merge\<close>

text \<open>
  The merge record: the merged segments as they were when the merge began (a nil pointer for one
  that was empty), the new numbers of their documents, and the new segment.
\<close>

record 'd segment_merge =
  sm_id :: nat
  old :: "(nat \<times> 'd segment_snapshot option) list"
  oldNewDocNums :: "nat \<rightharpoonup> nat list"
  new :: "'d segment_wrapper option"

text \<open>The new numbers of some old documents, as they go into a bitmap.\<close>

definition renumber :: "nat list \<Rightarrow> nat set \<Rightarrow> nat set option" where
  "renumber nums docs =
     (if \<forall>d\<in>docs. d < length nums then Some ((\<lambda>d. nums ! d mod 2 ^ 32) ` docs) else None)"

definition doc_nums :: "'d segment_merge \<Rightarrow> nat \<Rightarrow> nat list" where
  "doc_nums sm i = (case oldNewDocNums sm i of None \<Rightarrow> [] | Some nums \<Rightarrow> nums)"

definition process_segment_now ::
    "'d segment_merge \<Rightarrow> 'd segment_snapshot \<Rightarrow> nat set \<Rightarrow> (bool \<times> 'd segment_merge \<times> nat set) option" where
  "process_segment_now sm now newSegmentDeleted =
     (case map_of (old sm) (ss_id now) of
        None \<Rightarrow> Some (False, sm, newSegmentDeleted)
      | Some at_merge \<Rightarrow>
          (case (case (at_merge, ss_deleted now) of
               (Some atm, Some deleted) \<Rightarrow>
                 (let deletedSince = (case ss_deleted atm of None \<Rightarrow> deleted | Some d \<Rightarrow> deleted - d) in
                  map_option (\<lambda>nums. newSegmentDeleted \<union> nums) (renumber (doc_nums sm (ss_id now)) deletedSince))
             | _ \<Rightarrow> Some newSegmentDeleted) of
             None \<Rightarrow> None
           | Some newSegmentDeleted \<Rightarrow>
               Some (True, sm\<lparr>old := filter (\<lambda>e. fst e \<noteq> ss_id now) (old sm)\<rparr>, newSegmentDeleted)))"

fun merge_loop ::
    "'d segment_snapshot list \<Rightarrow> 'd segment_merge \<Rightarrow> nat set \<Rightarrow> nat \<Rightarrow> 'd segment_snapshot list \<Rightarrow> nat list \<Rightarrow>
     ('d segment_merge \<times> nat set \<times> nat \<times> 'd segment_snapshot list \<times> nat list) option" where
  "merge_loop [] sm newSegmentDeleted running segs offs = Some (sm, newSegmentDeleted, running, segs, offs)"
| "merge_loop (ss # rest) sm newSegmentDeleted running segs offs =
     (case process_segment_now sm ss newSegmentDeleted of
        None \<Rightarrow> None
      | Some (segmentIsGoingAway, sm, newSegmentDeleted) \<Rightarrow>
          if \<not> segmentIsGoingAway \<and> ss_count ss > 0
          then merge_loop rest sm newSegmentDeleted (running + seg_count (ss_segment ss)) (segs @ [ss]) (offs @ [running])
          else merge_loop rest sm newSegmentDeleted running segs offs)"

text \<open>What is left of the old segments is no longer in the root: its documents are obsolete.\<close>

fun obsolete_loop :: "'d segment_merge \<Rightarrow> (nat \<times> 'd segment_snapshot option) list \<Rightarrow> nat set \<Rightarrow> nat set option" where
  "obsolete_loop sm [] newSegmentDeleted = Some newSegmentDeleted"
| "obsolete_loop sm ((segID, ss) # rest) newSegmentDeleted =
     (case ss of
        None \<Rightarrow> None
      | Some ss \<Rightarrow>
          (case renumber (doc_nums sm segID) (doc_numbers_live ss) of
             None \<Rightarrow> None
           | Some nums \<Rightarrow> obsolete_loop sm rest (newSegmentDeleted \<union> nums)))"

text \<open>The new root, and whether the merged segment was skipped.\<close>

definition introduce_merge :: "'d segment_merge \<Rightarrow> nat \<Rightarrow> 'd snapshot \<Rightarrow> ('d snapshot \<times> bool) option" where
  "introduce_merge sm e root =
     (case merge_loop (segments root) sm {} 0 [] [] of
        None \<Rightarrow> None
      | Some (sm, newSegmentDeleted, running, segs, offs) \<Rightarrow>
          (case obsolete_loop sm (old sm) newSegmentDeleted of
             None \<Rightarrow> None
           | Some newSegmentDeleted \<Rightarrow>
               (case new sm of
                  Some data \<Rightarrow>
                    if seg_count data > card newSegmentDeleted
                    then Some (\<lparr>epoch = e,
                        segments = segs @ [\<lparr>ss_id = sm_id sm, ss_segment = data, ss_deleted = Some newSegmentDeleted\<rparr>],
                        offsets = offs @ [running]\<rparr>, False)
                    else Some (\<lparr>epoch = e, segments = segs, offsets = offs\<rparr>, True)
                | None \<Rightarrow> Some (\<lparr>epoch = e, segments = segs, offsets = offs\<rparr>, True))))"

section \<open>Planning a merge\<close>

text \<open>\<open>planSegmentsToMerge\<close>: the old map, and the segments to merge with the documents to drop.\<close>

fun plan_segments_loop ::
    "'d segment_snapshot list \<Rightarrow> (nat \<times> 'd segment_snapshot option) list \<Rightarrow> ('d segment_wrapper \<times> nat set option) list \<Rightarrow>
     (nat \<times> 'd segment_snapshot option) list \<times> ('d segment_wrapper \<times> nat set option) list" where
  "plan_segments_loop [] oldMap toMerge = (oldMap, toMerge)"
| "plan_segments_loop (ss # rest) oldMap toMerge =
     (if Persisted (ss_segment ss) then
        if ss_count ss = 0 then plan_segments_loop rest (AList.update (ss_id ss) None oldMap) toMerge
        else plan_segments_loop rest (AList.update (ss_id ss) (Some ss) oldMap) (toMerge @ [(ss_segment ss, ss_deleted ss)])
      else plan_segments_loop rest (AList.update (ss_id ss) (Some ss) oldMap) toMerge)"

type_synonym ('e, 'd) merger =
  "('d segment_wrapper \<times> nat set option) list \<Rightarrow> ('e, 'd segment_wrapper \<times> nat list list) result"

text \<open>
  \<open>executeMergeTask\<close> up to the introduction: an empty task is not merged, and the new numbers are
  filed under the identifier of the task's segment with the same index. An index beyond the task
  panics. The argument writes the merged segment and loads it.
\<close>

definition execute_merge_task ::
    "('e, 'd) merger \<Rightarrow> nat \<Rightarrow> 'd segment_snapshot list \<Rightarrow> ('e, 'd segment_merge option) result option" where
  "execute_merge_task merge newSegmentID task =
     (if task = [] then Some (Inr None)
      else case plan_segments_loop task [] [] of
        (oldMap, toMerge) \<Rightarrow>
          if toMerge = []
          then Some (Inr (Some \<lparr>sm_id = newSegmentID, old = oldMap, oldNewDocNums = Map.empty, new = None\<rparr>))
          else
            (case merge toMerge of
               Inl e \<Rightarrow> Some (Inl e)
             | Inr (data, newDocNums) \<Rightarrow>
                 if length newDocNums \<le> length task
                 then Some (Inr (Some \<lparr>sm_id = newSegmentID, old = oldMap,
                   oldNewDocNums = map_of (rev (zip (map ss_id task) newDocNums)), new = Some data\<rparr>))
                 else None))"

text \<open>
  \<open>persistSnapshotMaybeMerge\<close> and \<open>mergeSegmentBases\<close>: the in-memory segments of a snapshot are
  merged whatever they hold. Too few of them are not merged.
\<close>

definition merge_segment_bases ::
    "('e, 'd) merger \<Rightarrow> nat \<Rightarrow> nat \<Rightarrow> 'd snapshot \<Rightarrow> ('e, 'd segment_merge option) result option" where
  "merge_segment_bases merge minSegments newSegmentID snap =
     (let mem = filter (\<lambda>ss. \<not> Persisted (ss_segment ss)) (segments snap) in
      if length mem < minSegments then Some (Inr None)
      else
        (case merge (map (\<lambda>ss. (ss_segment ss, ss_deleted ss)) mem) of
           Inl e \<Rightarrow> Some (Inl e)
         | Inr (data, newDocNums) \<Rightarrow>
             if length mem \<le> length newDocNums
             then Some (Inr (Some \<lparr>sm_id = newSegmentID, old = rev (map (\<lambda>ss. (ss_id ss, Some ss)) mem),
               oldNewDocNums = map_of (rev (zip (map ss_id mem) newDocNums)), new = Some data\<rparr>))
             else None))"

text \<open>
  What \<open>persistSnapshotMaybeMerge\<close> writes to the disk instead of a snapshot when the merged segment
  was introduced: the segments that were not merged, and the merged one of the new root.
\<close>

definition equiv_snapshot :: "'d segment_merge \<Rightarrow> 'd snapshot \<Rightarrow> 'd snapshot \<Rightarrow> 'd snapshot" where
  "equiv_snapshot sm newSnapshot snap =
     \<lparr>epoch = epoch snap,
      segments = filter (\<lambda>ss. Persisted (ss_segment ss)) (segments snap) @
        (case find (\<lambda>ss. ss_id ss = sm_id sm) (segments newSnapshot) of
           None \<Rightarrow> []
         | Some ss \<Rightarrow> [\<lparr>ss_id = sm_id sm, ss_segment = ss_segment ss, ss_deleted = None\<rparr>]),
      offsets = []\<rparr>"

text \<open>
  The end of \<open>mergeSegmentBases\<close>: the introducer's answer is the new root and whether it skipped the
  merge; after a skipped merge the snapshot is nil. \<open>persistSnapshotMaybeMerge\<close> then returns false
  (None), and \<open>persistSnapshot\<close> hands the snapshot itself to \<open>persistSnapshotDirect\<close>. It does so, too,
  under memory pressure and when no merge was begun: there are too few segments in memory or, with
  \<open>MergePlanningByBytes\<close>, too many bytes. An error ends \<open>persistSnapshot\<close> and nothing is written.
\<close>

definition merge_outcome :: "'d snapshot \<times> bool \<Rightarrow> 'd snapshot option" where
  "merge_outcome status = (case status of (newSnapshot, skipped) \<Rightarrow> if skipped then None else Some newSnapshot)"

definition persist_maybe_merge :: "('d segment_merge \<times> 'd snapshot \<times> bool) option \<Rightarrow> 'd snapshot \<Rightarrow> 'd snapshot option" where
  "persist_maybe_merge merge snap =
     (case merge of
        None \<Rightarrow> None
      | Some (sm, status) \<Rightarrow>
          (case merge_outcome status of
             None \<Rightarrow> None
           | Some newSnapshot \<Rightarrow> Some (equiv_snapshot sm newSnapshot snap)))"

definition persist_snapshot :: "bool \<Rightarrow> ('d segment_merge \<times> 'd snapshot \<times> bool) option \<Rightarrow> 'd snapshot \<Rightarrow> 'd snapshot" where
  "persist_snapshot pressure merge snap =
     (if \<not> pressure then
        case persist_maybe_merge merge snap of
          None \<Rightarrow> snap
        | Some written \<Rightarrow> written
      else snap)"

section \<open>The documents with a term\<close>

text \<open>
  \<open>DocsMatchingTerms\<close> of \<open>zapxbluge/adapter.go\<close>. The argument is what the dictionary of the term's
  field gives: the numbers its iterator returns, or an error.
\<close>

fun add_numbers :: "nat list \<Rightarrow> nat set \<Rightarrow> nat set" where
  "add_numbers [] rv = rv"
| "add_numbers (n # ns) rv = add_numbers ns (insert (n mod 2 ^ 32) rv)"

fun docs_matching_loop :: "('t \<Rightarrow> ('e, nat list) result) \<Rightarrow> 't list \<Rightarrow> nat set \<Rightarrow> ('e, nat set) result" where
  "docs_matching_loop postings [] rv = Inr rv"
| "docs_matching_loop postings (t # ts) rv =
     bind_result (postings t) (\<lambda>ns. docs_matching_loop postings ts (add_numbers ns rv))"

definition docs_matching_terms ::
    "('d segment_wrapper \<Rightarrow> 't \<Rightarrow> ('e, nat list) result) \<Rightarrow> 'd segment_wrapper \<Rightarrow> 't list \<Rightarrow> ('e, nat set) result" where
  "docs_matching_terms postings s ts = docs_matching_loop (postings s) ts {}"

text \<open>
  The contract of a segment's term index: the postings of a term are the documents with the term.
  The numbers of a segment fit 32 bits.
\<close>

definition doc_numbers_fit :: "'d segment_wrapper \<Rightarrow> bool" where
  "doc_numbers_fit s \<longleftrightarrow> seg_count s \<le> 2 ^ 32"

definition matching_docs :: "('d \<Rightarrow> 't \<Rightarrow> bool) \<Rightarrow> 't list \<Rightarrow> 'd segment_wrapper \<Rightarrow> nat set" where
  "matching_docs has_term ts s = {d. d < seg_count s \<and> (\<exists>t\<in>set ts. has_term (seg_docs s ! d) t)}"

locale term_index =
  fixes postings :: "'d segment_wrapper \<Rightarrow> 't \<Rightarrow> ('e, nat list) result"
    and has_term :: "'d \<Rightarrow> 't \<Rightarrow> bool"
  assumes postings_set: "postings s t = Inr ns \<Longrightarrow> set ns = matching_docs has_term [t] s"
begin

lemma add_numbers: "(\<And>n. n \<in> set ns \<Longrightarrow> n < 2 ^ 32) \<Longrightarrow> add_numbers ns rv = rv \<union> set ns"
  by (induction ns arbitrary: rv) auto

lemma docs_matching_loop:
  "doc_numbers_fit s \<Longrightarrow> docs_matching_loop (postings s) ts rv = Inr r \<Longrightarrow> r = rv \<union> matching_docs has_term ts s"
proof (induction ts arbitrary: rv)
  case (Cons t ts)
  then obtain ns where ns: "postings s t = Inr ns" and r: "docs_matching_loop (postings s) ts (add_numbers ns rv) = Inr r"
    by (auto split: sum.splits)
  note set = postings_set [OF ns]
  have "add_numbers ns rv = rv \<union> set ns"
    using Cons.prems(1) set by (intro add_numbers) (auto simp: matching_docs_def doc_numbers_fit_def)
  then show ?case using Cons.IH [OF Cons.prems(1) r] set by (auto simp: matching_docs_def)
qed (simp add: matching_docs_def)

lemma docs_matching:
  "doc_numbers_fit s \<Longrightarrow> docs_matching_terms postings s ts = Inr r \<Longrightarrow> r = matching_docs has_term ts s"
  unfolding docs_matching_terms_def by (drule (1) docs_matching_loop) simp

end

section \<open>The contract of a merge\<close>

text \<open>The documents a merge keeps, by segment and number.\<close>

definition kept :: "('d segment_wrapper \<times> nat set option) list \<Rightarrow> (nat \<times> nat) set" where
  "kept inputs = {(i, d). i < length inputs \<and> d < seg_count (fst (inputs ! i)) \<and> d \<notin> bitmap (snd (inputs ! i))}"

text \<open>
  The contract: a list of new numbers for each segment, one for each document; the kept documents
  are numbered one to one, and the merged segment has them under their new numbers.
\<close>

locale segment_merger =
  fixes merge :: "('e, 'd) merger"
  assumes merge_segments: "merge inputs = Inr (data, numss) \<Longrightarrow> length numss = length inputs"
    and merge_lengths: "merge inputs = Inr (data, numss) \<Longrightarrow> i < length inputs \<Longrightarrow>
      length (numss ! i) = seg_count (fst (inputs ! i))"
    and merge_bij: "merge inputs = Inr (data, numss) \<Longrightarrow> (\<And>x. x \<in> set inputs \<Longrightarrow> doc_numbers_fit (fst x)) \<Longrightarrow>
      bij_betw (\<lambda>(i, d). numss ! i ! d) (kept inputs) {0..<seg_count data}"
    and merge_docs: "merge inputs = Inr (data, numss) \<Longrightarrow> (\<And>x. x \<in> set inputs \<Longrightarrow> doc_numbers_fit (fst x)) \<Longrightarrow>
      (i, d) \<in> kept inputs \<Longrightarrow> seg_docs data ! (numss ! i ! d) = seg_docs (fst (inputs ! i)) ! d"
    and merge_persisted: "merge inputs = Inr (data, numss) \<Longrightarrow> Persisted data"

end
