(* ===== verification/Introducer_Store.thy ===== *)
theory Introducer_Store
  imports Introducer
begin

text \<open>
  What a root stores, its well-formedness, and what each of the three introductions does to both:
  a batch deletes the documents with one of its terms and adds its own, a persisted segment and a
  merge change nothing. A merge may have begun on any older root.
\<close>

section \<open>The store and the invariant of a root\<close>

definition store_of :: "'d segment_snapshot list \<Rightarrow> 'd multiset" where
  "store_of segs = (\<Sum>ss\<leftarrow>segs. mset (live_docs ss))"

fun seg_offsets :: "nat \<Rightarrow> 'd segment_snapshot list \<Rightarrow> nat list" where
  "seg_offsets n [] = []"
| "seg_offsets n (ss # rest) = n # seg_offsets (n + seg_count (ss_segment ss)) rest"

definition well_formed :: "'d segment_snapshot \<Rightarrow> bool" where
  "well_formed ss \<longleftrightarrow> valid_snapshot ss \<and> doc_numbers_fit (ss_segment ss) \<and> ss_count ss > 0"

definition root_ok :: "'d snapshot \<Rightarrow> bool" where
  "root_ok root \<longleftrightarrow> distinct (map ss_id (segments root)) \<and> (\<forall>ss\<in>set (segments root). well_formed ss) \<and>
     offsets root = seg_offsets 0 (segments root)"

definition full_count :: "'d segment_snapshot list \<Rightarrow> nat" where
  "full_count segs = (\<Sum>ss\<leftarrow>segs. seg_count (ss_segment ss))"

lemma store_of_simps [simp]:
  "store_of [] = {#}" "store_of (ss # segs) = mset (live_docs ss) + store_of segs"
  "store_of (segs @ segs') = store_of segs + store_of segs'"
  by (simp_all add: store_of_def)

lemma full_count_simps [simp]:
  "full_count [] = 0" "full_count (ss # segs) = seg_count (ss_segment ss) + full_count segs"
  "full_count (segs @ segs') = full_count segs + full_count segs'"
  by (simp_all add: full_count_def)

lemma seg_offsets_append [simp]: "seg_offsets n (segs @ segs') = seg_offsets n segs @ seg_offsets (n + full_count segs) segs'"
  by (induction n segs rule: seg_offsets.induct) (simp_all add: add.assoc)

lemma length_seg_offsets [simp]: "length (seg_offsets n segs) = length segs"
  by (induction n segs rule: seg_offsets.induct) simp_all

lemma well_formedD: "well_formed ss \<Longrightarrow> valid_snapshot ss" "well_formed ss \<Longrightarrow> doc_numbers_fit (ss_segment ss)" "well_formed ss \<Longrightarrow> ss_count ss > 0"
  by (simp_all add: well_formed_def)

text \<open>A segment without live documents adds nothing to the store.\<close>

lemma store_of_filter_live: "(\<And>ss. ss \<in> set segs \<Longrightarrow> valid_snapshot ss) \<Longrightarrow> store_of (filter (\<lambda>ss. ss_count ss > 0) segs) = store_of segs"
  by (induction segs) (auto simp: ss_count)

section \<open>A batch\<close>

definition mark_deleted :: "nat set \<Rightarrow> 'd segment_snapshot \<Rightarrow> 'd segment_snapshot" where
  "mark_deleted delta ss = ss\<lparr>ss_deleted :=
     (if bitmap (ss_deleted ss) \<union> delta = {} then None else Some (bitmap (ss_deleted ss) \<union> delta))\<rparr>"

lemma mark_deleted_simps [simp]:
  "ss_id (mark_deleted delta ss) = ss_id ss" "ss_segment (mark_deleted delta ss) = ss_segment ss"
  "bitmap (ss_deleted (mark_deleted delta ss)) = bitmap (ss_deleted ss) \<union> delta"
  by (simp_all add: mark_deleted_def)

lemma filter_index: "filter P (map (nth xs) (filter Q [0..<length xs])) = map (nth xs) (filter (\<lambda>i. Q i \<and> P (xs ! i)) [0..<length xs])"
  by (simp add: filter_map o_def)

lemma mark_deleted_live:
  "live_docs (mark_deleted (matching_docs h ts (ss_segment ss)) ss) = filter (\<lambda>d. \<not> (\<exists>t\<in>set ts. h d t)) (live_docs ss)"
  unfolding live_docs_def mark_deleted_simps filter_index
  by (rule arg_cong [where f = "map _"], rule filter_cong) (auto simp: matching_docs_def seg_count_def)

lemma mark_deleted_valid: "valid_snapshot ss \<Longrightarrow> valid_snapshot (mark_deleted (matching_docs h ts (ss_segment ss)) ss)"
  by (auto simp: valid_snapshot_def matching_docs_def)

text \<open>What an introduction knows of a segment is right: the prepared bitmap is what the segment's index gives.\<close>

definition obsoletes_right :: "('d \<Rightarrow> 't \<Rightarrow> bool) \<Rightarrow> ('d, 't) segment_introduction \<Rightarrow> 'd segment_snapshot list \<Rightarrow> bool" where
  "obsoletes_right h nxt segs \<longleftrightarrow>
     (\<forall>ss\<in>set segs. \<forall>delta. obsoletes nxt (ss_id ss) = Some delta \<longrightarrow> delta = matching_docs h (idTerms nxt) (ss_segment ss))"

definition intro_docs :: "('d, 't) segment_introduction \<Rightarrow> 'd list" where
  "intro_docs nxt = (case intro_data nxt of None \<Rightarrow> [] | Some data \<Rightarrow> seg_docs data)"

definition intro_segments :: "('d, 't) segment_introduction \<Rightarrow> 'd segment_snapshot list" where
  "intro_segments nxt = (case intro_data nxt of None \<Rightarrow> [] | Some data \<Rightarrow> [\<lparr>ss_id = intro_id nxt, ss_segment = data, ss_deleted = None\<rparr>])"

lemma intro_segments_well_formed:
  "(\<And>data. intro_data nxt = Some data \<Longrightarrow> 0 < seg_count data \<and> doc_numbers_fit data) \<Longrightarrow>
   ss \<in> set (intro_segments nxt) \<Longrightarrow> well_formed ss"
  by (auto simp: intro_segments_def well_formed_def valid_snapshot_def ss_count_def split: option.splits)

context term_index
begin

definition introduced :: "'t list \<Rightarrow> 'd segment_snapshot list \<Rightarrow> 'd segment_snapshot list" where
  "introduced ts segs = filter (\<lambda>ss. ss_count ss > 0) (map (\<lambda>ss. mark_deleted (matching_docs has_term ts (ss_segment ss)) ss) segs)"

lemma introduce_loop:
  assumes "introduce_loop (docs_matching_terms postings) nxt segs running segs0 offs0 = Inr (running', segs', offs')"
    and "obsoletes_right has_term nxt segs" and "\<And>ss. ss \<in> set segs \<Longrightarrow> doc_numbers_fit (ss_segment ss)"
  shows "segs' = segs0 @ introduced (idTerms nxt) segs \<and> offs' = offs0 @ seg_offsets running (introduced (idTerms nxt) segs) \<and>
    running' = running + full_count (introduced (idTerms nxt) segs)"
  using assms
proof (induction segs arbitrary: running segs0 offs0)
  case Nil
  then show ?case by (simp add: introduced_def)
next
  case (Cons ss segs)
  have ors: "obsoletes_right has_term nxt segs" using Cons.prems(2) by (simp add: obsoletes_right_def)
  have fit: "\<And>ss. ss \<in> set segs \<Longrightarrow> doc_numbers_fit (ss_segment ss)" using Cons.prems(3) by simp
  obtain delta where d: "(case obsoletes nxt (ss_id ss) of Some delta \<Rightarrow> Inr delta
       | None \<Rightarrow> docs_matching_terms postings (ss_segment ss) (idTerms nxt)) = Inr delta"
    using Cons.prems(1) by (fastforce split: sum.splits)
  let ?new = "mark_deleted delta ss"
  have delta: "delta = matching_docs has_term (idTerms nxt) (ss_segment ss)"
    using d Cons.prems(2,3) docs_matching [of "ss_segment ss" "idTerms nxt" delta]
    by (auto simp: obsoletes_right_def split: option.splits)
  have mark: "ss\<lparr>ss_deleted := (if (case ss_deleted ss of None \<Rightarrow> delta | Some d \<Rightarrow> d \<union> delta) = {} then None
      else Some (case ss_deleted ss of None \<Rightarrow> delta | Some d \<Rightarrow> d \<union> delta))\<rparr> = mark_deleted delta ss"
    by (simp add: mark_deleted_def split: option.split)
  have step: "introduce_loop (docs_matching_terms postings) nxt (ss # segs) running segs0 offs0 =
      (if ss_count ?new > 0
       then introduce_loop (docs_matching_terms postings) nxt segs (running + seg_count (ss_segment ?new)) (segs0 @ [?new]) (offs0 @ [running])
       else introduce_loop (docs_matching_terms postings) nxt segs running segs0 offs0)"
    unfolding introduce_loop.simps d sum.case Let_def mark mark_deleted_simps ..
  show ?case
  proof (cases "ss_count ?new > 0")
    case True
    then show ?thesis
      using Cons.prems(1) Cons.IH [OF _ ors fit, of "running + seg_count (ss_segment ?new)" "segs0 @ [?new]" "offs0 @ [running]"]
      unfolding step by (simp add: introduced_def delta)
  next
    case False
    then show ?thesis
      using Cons.prems(1) Cons.IH [OF _ ors fit, of running segs0 offs0] unfolding step by (simp add: introduced_def delta)
  qed
qed

lemma introduced_well_formed:
  "(\<And>ss. ss \<in> set segs \<Longrightarrow> well_formed ss) \<Longrightarrow> ss \<in> set (introduced ts segs) \<Longrightarrow> well_formed ss"
  by (auto simp: introduced_def well_formed_def intro: mark_deleted_valid)

lemma introduced_ids: "distinct (map ss_id segs) \<Longrightarrow> distinct (map ss_id (introduced ts segs))"
  by (simp add: introduced_def filter_map o_def distinct_map_filter)

lemma introduced_origin:
  "ss \<in> set (introduced ts segs) \<Longrightarrow> \<exists>ss'\<in>set segs. ss_id ss' = ss_id ss \<and> ss_segment ss' = ss_segment ss \<and> bitmap (ss_deleted ss') \<subseteq> bitmap (ss_deleted ss)"
  by (auto simp: introduced_def)

lemma introduced_store:
  assumes "\<And>ss. ss \<in> set segs \<Longrightarrow> well_formed ss"
  shows "store_of (introduced ts segs) = filter_mset (\<lambda>d. \<not> (\<exists>t\<in>set ts. has_term d t)) (store_of segs)"
proof -
  have "store_of (introduced ts segs) = store_of (map (\<lambda>ss. mark_deleted (matching_docs has_term ts (ss_segment ss)) ss) segs)"
    unfolding introduced_def using assms by (intro store_of_filter_live) (auto dest: well_formedD intro: mark_deleted_valid)
  also have "\<dots> = filter_mset (\<lambda>d. \<not> (\<exists>t\<in>set ts. has_term d t)) (store_of segs)"
    by (induction segs) (simp_all add: mark_deleted_live)
  finally show ?thesis .
qed

text \<open>A batch's introduction: the new root, its store and its invariant.\<close>

lemma introduce_segment_root:
  assumes "introduce_segment (docs_matching_terms postings) nxt e root = Inr root'" and ok: "root_ok root"
    and "obsoletes_right has_term nxt (segments root)"
  shows "segments root' = introduced (idTerms nxt) (segments root) @ intro_segments nxt"
    and "offsets root' = seg_offsets 0 (segments root')" and "epoch root' = e"
proof -
  obtain running segs offs where l: "introduce_loop (docs_matching_terms postings) nxt (segments root) 0 [] [] = Inr (running, segs, offs)"
    using assms(1) by (auto simp: introduce_segment_def split: sum.splits)
  have "\<And>ss. ss \<in> set (segments root) \<Longrightarrow> doc_numbers_fit (ss_segment ss)" using ok by (simp add: root_ok_def well_formed_def)
  note r = introduce_loop [OF l assms(3) this]
  show "segments root' = introduced (idTerms nxt) (segments root) @ intro_segments nxt"
    and "offsets root' = seg_offsets 0 (segments root')" and "epoch root' = e"
    using assms(1) r by (auto simp: introduce_segment_def l intro_segments_def split: option.splits)
qed

lemma introduce_segment_ok:
  assumes i: "introduce_segment (docs_matching_terms postings) nxt e root = Inr root'" and ok: "root_ok root"
    and o: "obsoletes_right has_term nxt (segments root)"
    and new: "\<And>data. intro_data nxt = Some data \<Longrightarrow> 0 < seg_count data \<and> doc_numbers_fit data"
    and fresh: "intro_id nxt \<notin> ss_id ` set (segments root)"
  shows "root_ok root'"
    and "store_of (segments root') =
      filter_mset (\<lambda>d. \<not> (\<exists>t\<in>set (idTerms nxt). has_term d t)) (store_of (segments root)) + mset (intro_docs nxt)"
proof -
  note r = introduce_segment_root [OF i ok o]
  have wf: "\<And>ss. ss \<in> set (segments root) \<Longrightarrow> well_formed ss" and dist: "distinct (map ss_id (segments root))"
    using ok by (simp_all add: root_ok_def)
  have ids: "ss_id ss \<in> ss_id ` set (segments root)" if "ss \<in> set (introduced (idTerms nxt) (segments root))" for ss
    using introduced_origin [OF that] by (metis imageI)
  have "distinct (map ss_id (segments root'))"
    unfolding r(1) using introduced_ids [OF dist] ids fresh
    by (auto simp: intro_segments_def split: option.splits)
  moreover have "well_formed ss" if "ss \<in> set (segments root')" for ss
    using that introduced_well_formed [of "segments root" ss, OF wf] intro_segments_well_formed [of nxt ss, OF new]
    unfolding r(1) by auto
  ultimately show "root_ok root'" using r(2) by (simp add: root_ok_def)
  show "store_of (segments root') =
      filter_mset (\<lambda>d. \<not> (\<exists>t\<in>set (idTerms nxt). has_term d t)) (store_of (segments root)) + mset (intro_docs nxt)"
    using introduced_store [of "segments root", OF wf]
    by (auto simp: r(1) intro_segments_def intro_docs_def live_docs_def map_nth split: option.splits)
qed

end

section \<open>Persisted segments\<close>

definition persisted_right :: "(nat \<rightharpoonup> 'd segment_wrapper) \<Rightarrow> 'd segment_snapshot list \<Rightarrow> bool" where
  "persisted_right persisted segs \<longleftrightarrow>
     (\<forall>ss\<in>set segs. \<forall>r. persisted (ss_id ss) = Some r \<longrightarrow> seg_docs r = seg_docs (ss_segment ss))"

definition replaced :: "(nat \<rightharpoonup> 'd segment_wrapper) \<Rightarrow> 'd segment_snapshot \<Rightarrow> 'd segment_snapshot" where
  "replaced persisted ss = (case persisted (ss_id ss) of Some replacement \<Rightarrow> ss\<lparr>ss_segment := replacement\<rparr> | None \<Rightarrow> ss)"

lemma replaced_simps [simp]: "ss_id (replaced persisted ss) = ss_id ss" "ss_deleted (replaced persisted ss) = ss_deleted ss"
  by (simp_all add: replaced_def split: option.split)

lemma replaced_docs: "persisted_right persisted segs \<Longrightarrow> ss \<in> set segs \<Longrightarrow> seg_docs (ss_segment (replaced persisted ss)) = seg_docs (ss_segment ss)"
  by (cases "persisted (ss_id ss)") (auto simp: replaced_def dest: persisted_right_def [THEN iffD1, rule_format])

lemma same_docs:
  assumes "seg_docs (ss_segment a) = seg_docs (ss_segment b)" and "ss_deleted a = ss_deleted b"
  shows "live_docs a = live_docs b" "valid_snapshot a = valid_snapshot b" "seg_count (ss_segment a) = seg_count (ss_segment b)"
    "well_formed a = well_formed b"
  using assms by (simp_all add: live_docs_def valid_snapshot_def seg_count_def well_formed_def doc_numbers_fit_def ss_count_def split: option.split)

lemma introduce_persist_segments: "segments (introduce_persist persisted e root) = map (replaced persisted) (segments root)"
  by (simp add: introduce_persist_def replaced_def)

lemma replaced_offsets:
  "(\<And>ss. ss \<in> set segs \<Longrightarrow> seg_count (ss_segment (f ss)) = seg_count (ss_segment ss)) \<Longrightarrow> seg_offsets n (map f segs) = seg_offsets n segs"
  by (induction n segs rule: seg_offsets.induct) auto

lemma introduce_persist_ok:
  assumes ok: "root_ok root" and r: "persisted_right persisted (segments root)"
  shows "root_ok (introduce_persist persisted e root)"
    and "store_of (segments (introduce_persist persisted e root)) = store_of (segments root)"
proof -
  note same = same_docs [OF replaced_docs [OF r] replaced_simps(2)]
  show "root_ok (introduce_persist persisted e root)"
    using ok unfolding root_ok_def introduce_persist_segments
    by (auto simp: same o_def introduce_persist_def replaced_offsets)
  show "store_of (segments (introduce_persist persisted e root)) = store_of (segments root)"
    unfolding introduce_persist_segments store_of_def by (auto simp: same o_def intro: arg_cong [where f = sum_list])
qed

section \<open>A merge\<close>

text \<open>The documents a merge record moves, as pairs of segment and number, and their new numbers.\<close>

definition merge_pairs :: "'d segment_merge \<Rightarrow> (nat \<times> nat) set" where
  "merge_pairs sm = {(i, d). \<exists>ss. map_of (old sm) i = Some (Some ss) \<and> d \<in> doc_numbers_live ss}"

definition new_number :: "'d segment_merge \<Rightarrow> nat \<times> nat \<Rightarrow> nat" where
  "new_number sm = (\<lambda>(i, d). doc_nums sm i ! d)"

text \<open>A merge record is right when the merged segment has exactly the documents that were live.\<close>

definition merge_right :: "'d segment_merge \<Rightarrow> 'd segment_wrapper \<Rightarrow> bool" where
  "merge_right sm data \<longleftrightarrow> new sm = Some data \<and> distinct (map fst (old sm)) \<and>
     (\<forall>e\<in>set (old sm). \<exists>ss. snd e = Some ss \<and> valid_snapshot ss \<and> length (doc_nums sm (fst e)) = seg_count (ss_segment ss)) \<and>
     doc_numbers_fit data \<and>
     bij_betw (new_number sm) (merge_pairs sm) {0..<seg_count data} \<and>
     (\<forall>i ss d. map_of (old sm) i = Some (Some ss) \<longrightarrow> d \<in> doc_numbers_live ss \<longrightarrow>
        seg_docs data ! (doc_nums sm i ! d) = seg_docs (ss_segment ss) ! d)"

text \<open>What has become of the merged segments: the same documents, at least as many deleted.\<close>

definition later_than :: "'d segment_snapshot \<Rightarrow> 'd segment_snapshot \<Rightarrow> bool" where
  "later_than before now \<longleftrightarrow> seg_docs (ss_segment before) = seg_docs (ss_segment now) \<and> bitmap (ss_deleted before) \<subseteq> bitmap (ss_deleted now)"

definition merge_tracks :: "'d segment_merge \<Rightarrow> 'd segment_snapshot list \<Rightarrow> bool" where
  "merge_tracks sm segs \<longleftrightarrow> (\<forall>now\<in>set segs. \<forall>ss. map_of (old sm) (ss_id now) = Some (Some ss) \<longrightarrow> later_than ss now)"

definition staying :: "'d segment_merge \<Rightarrow> 'd segment_snapshot list \<Rightarrow> 'd segment_snapshot list" where
  "staying sm segs = filter (\<lambda>ss. map_of (old sm) (ss_id ss) = None \<and> ss_count ss > 0) segs"

definition deleted_since :: "'d segment_merge \<Rightarrow> 'd segment_snapshot \<Rightarrow> nat set" where
  "deleted_since sm ss = (case map_of (old sm) (ss_id ss) of
       Some (Some atm) \<Rightarrow> bitmap (ss_deleted ss) - bitmap (ss_deleted atm)
     | _ \<Rightarrow> {})"

definition without :: "nat set \<Rightarrow> 'd segment_merge \<Rightarrow> 'd segment_merge" where
  "without S sm = sm\<lparr>old := filter (\<lambda>e. fst e \<notin> S) (old sm)\<rparr>"

lemma without_simps [simp]: "oldNewDocNums (without S sm) = oldNewDocNums sm" "new (without S sm) = new sm" "sm_id (without S sm) = sm_id sm"
  "doc_nums (without S sm) i = doc_nums sm i" "without {} sm = sm" "without S (without T sm) = without (S \<union> T) sm"
  by (simp_all add: without_def doc_nums_def) (metis (no_types, lifting) Un_iff filter_cong)

lemma map_of_without:
  fixes sm :: "'d segment_merge"
  shows "map_of (old (without S sm)) i = (if i \<in> S then None else map_of (old sm) i)"
proof -
  have "map_of (filter (\<lambda>e. fst e \<notin> S) es) i = (if i \<in> S then None else map_of es i)" for es :: "(nat \<times> 'd segment_snapshot option) list"
    by (induction es) auto
  then show ?thesis by (simp add: without_def)
qed

lemma live_pairs: "map_of (old sm) i = Some (Some ss) \<Longrightarrow> d \<in> doc_numbers_live ss \<Longrightarrow> (i, d) \<in> merge_pairs sm"
  by (simp add: merge_pairs_def)

text \<open>The new numbers of live documents fit a bitmap as they are.\<close>

lemma new_number_fits:
  assumes "merge_right sm data" "(i, d) \<in> merge_pairs sm"
  shows "doc_nums sm i ! d mod 2 ^ 32 = new_number sm (i, d)" "d < length (doc_nums sm i)"
proof -
  have "new_number sm (i, d) < seg_count data" and "seg_count data \<le> 2 ^ 32"
    using assms by (auto simp: merge_right_def bij_betw_def doc_numbers_fit_def)
  then show "doc_nums sm i ! d mod 2 ^ 32 = new_number sm (i, d)" by (simp add: new_number_def)
  obtain ss where ss: "map_of (old sm) i = Some (Some ss)" "d \<in> doc_numbers_live ss" using assms(2) by (auto simp: merge_pairs_def)
  have "length (doc_nums sm i) = seg_count (ss_segment ss)"
    using assms(1) map_of_SomeD [OF ss(1)] unfolding merge_right_def by fastforce
  then show "d < length (doc_nums sm i)" using ss(2) by (simp add: doc_numbers_live)
qed

lemma renumber_live:
  assumes "merge_right sm data" "\<And>d. d \<in> D \<Longrightarrow> (i, d) \<in> merge_pairs sm"
  shows "renumber (doc_nums sm i) D = Some (new_number sm ` ({i} \<times> D))"
proof -
  have "(\<lambda>d. doc_nums sm i ! d mod 2 ^ 32) ` D = new_number sm ` ({i} \<times> D)"
    using new_number_fits(1) [OF assms(1) assms(2)] by (auto simp: image_iff)
  then show ?thesis using new_number_fits(2) [OF assms(1) assms(2)] by (simp add: renumber_def)
qed

lemma process_segment_now:
  assumes r: "merge_right sm data" and t: "merge_tracks sm [ss]" and v: "valid_snapshot ss" and S: "ss_id ss \<notin> S"
  shows "process_segment_now (without S sm) ss N =
    (if map_of (old sm) (ss_id ss) = None then Some (False, without S sm, N)
     else Some (True, without (insert (ss_id ss) S) sm, N \<union> new_number sm ` ({ss_id ss} \<times> deleted_since sm ss)))"
proof (cases "map_of (old sm) (ss_id ss)")
  case None
  then show ?thesis using S by (simp add: process_segment_now_def map_of_without)
next
  case (Some e)
  obtain atm where e: "e = Some atm" using r map_of_SomeD [OF Some] unfolding merge_right_def by fastforce
  have l: "later_than atm ss" using t Some by (simp add: merge_tracks_def e)
  have live: "(ss_id ss, d) \<in> merge_pairs sm" if "d \<in> bitmap (ss_deleted ss) - bitmap (ss_deleted atm)" for d
  proof (rule live_pairs [OF Some [unfolded e]])
    show "d \<in> doc_numbers_live atm"
      using that v l by (auto simp: doc_numbers_live valid_snapshot_def later_than_def seg_count_def)
  qed
  have w: "without S sm\<lparr>old := filter (\<lambda>e. fst e \<noteq> ss_id ss) (old (without S sm))\<rparr> = without (insert (ss_id ss) S) sm"
    by (simp add: without_def conj_commute)
  have num: "renumber (doc_nums sm (ss_id ss)) (bitmap (ss_deleted ss) - bitmap (ss_deleted atm)) =
      Some (new_number sm ` ({ss_id ss} \<times> (bitmap (ss_deleted ss) - bitmap (ss_deleted atm))))"
    by (rule renumber_live [OF r live])
  show ?thesis
  proof (cases "ss_deleted ss")
    case None
    then show ?thesis using S Some w by (simp add: process_segment_now_def map_of_without e deleted_since_def)
  next
    case (Some D)
    have "(case ss_deleted atm of None \<Rightarrow> D | Some d \<Rightarrow> D - d) = bitmap (ss_deleted ss) - bitmap (ss_deleted atm)"
      by (simp add: Some split: option.split)
    then show ?thesis using S \<open>map_of (old sm) (ss_id ss) = Some e\<close> w num
      by (simp add: process_segment_now_def map_of_without e deleted_since_def Some)
  qed
qed


definition since_pairs :: "'d segment_merge \<Rightarrow> 'd segment_snapshot list \<Rightarrow> (nat \<times> nat) set" where
  "since_pairs sm segs = (\<Union>ss\<in>set segs. {ss_id ss} \<times> deleted_since sm ss)"

definition gone :: "'d segment_merge \<Rightarrow> 'd segment_snapshot list \<Rightarrow> nat set" where
  "gone sm segs = ss_id ` set segs \<inter> dom (map_of (old sm))"

lemma merge_loop:
  assumes r: "merge_right sm data"
  shows "distinct (map ss_id segs) \<Longrightarrow> merge_tracks sm segs \<Longrightarrow> (\<And>ss. ss \<in> set segs \<Longrightarrow> valid_snapshot ss) \<Longrightarrow>
    S \<inter> ss_id ` set segs = {} \<Longrightarrow>
    merge_loop segs (without S sm) N running segs0 offs0 =
      Some (without (S \<union> gone sm segs) sm, N \<union> new_number sm ` since_pairs sm segs,
        running + full_count (staying sm segs), segs0 @ staying sm segs, offs0 @ seg_offsets running (staying sm segs))"
proof (induction segs arbitrary: S N running segs0 offs0)
  case Nil
  then show ?case by (simp add: since_pairs_def staying_def gone_def)
next
  case (Cons ss segs)
  have t: "merge_tracks sm [ss]" "merge_tracks sm segs" using Cons.prems(2) by (simp_all add: merge_tracks_def)
  have v: "valid_snapshot ss" and vs: "\<And>ss. ss \<in> set segs \<Longrightarrow> valid_snapshot ss" using Cons.prems(3) by simp_all
  have S: "ss_id ss \<notin> S" "S \<inter> ss_id ` set segs = {}" "insert (ss_id ss) S \<inter> ss_id ` set segs = {}"
    using Cons.prems(1,4) by auto
  note step = process_segment_now [OF r t(1) v S(1), of N]
  have dist: "distinct (map ss_id segs)" using Cons.prems(1) by simp
  show ?case
  proof (cases "map_of (old sm) (ss_id ss)")
    case None
    have s: "since_pairs sm (ss # segs) = since_pairs sm segs" "gone sm (ss # segs) = gone sm segs"
      by (simp_all add: since_pairs_def deleted_since_def gone_def domIff None)
    show ?thesis
    proof (cases "ss_count ss > 0")
      case True
      then have eq: "staying sm (ss # segs) = ss # staying sm segs" by (simp add: staying_def None)
      show ?thesis
        using Cons.IH [OF dist t(2) vs S(2), of N "running + seg_count (ss_segment ss)" "segs0 @ [ss]" "offs0 @ [running]"] step True None
        by (simp add: s eq add.assoc)
    next
      case False
      then have eq: "staying sm (ss # segs) = staying sm segs" by (simp add: staying_def)
      show ?thesis using Cons.IH [OF dist t(2) vs S(2), of N running segs0 offs0] step False None by (simp add: s eq)
    qed
  next
    case (Some e)
    then have eq: "staying sm (ss # segs) = staying sm segs" by (simp add: staying_def)
    have s: "since_pairs sm (ss # segs) = {ss_id ss} \<times> deleted_since sm ss \<union> since_pairs sm segs"
      "gone sm (ss # segs) = insert (ss_id ss) (gone sm segs)"
      using Some by (auto simp: since_pairs_def gone_def)
    show ?thesis
      using Cons.IH [OF dist t(2) vs S(3), of "N \<union> new_number sm ` ({ss_id ss} \<times> deleted_since sm ss)" running segs0 offs0] step Some
      by (simp add: s eq image_Un Un_assoc)
  qed
qed

lemma obsolete_loop:
  assumes r: "merge_right sm data" and "set es \<subseteq> set (old sm)"
  shows "obsolete_loop (without S sm) es N = Some (N \<union> new_number sm ` {(i, d). \<exists>ss. (i, Some ss) \<in> set es \<and> d \<in> doc_numbers_live ss})"
  using assms(2)
proof (induction es arbitrary: N)
  case (Cons e es)
  obtain i ss where e: "e = (i, Some ss)" using r Cons.prems unfolding merge_right_def by (metis insert_subset list.simps(15) prod.collapse)
  have "map_of (old sm) i = Some (Some ss)"
    using r Cons.prems unfolding merge_right_def e by (intro map_of_is_SomeI) auto
  then have num: "renumber (doc_nums sm i) (doc_numbers_live ss) = Some (new_number sm ` ({i} \<times> doc_numbers_live ss))"
    by (intro renumber_live [OF r] live_pairs)
  have "{(j, d). \<exists>s. (j, Some s) \<in> set (e # es) \<and> d \<in> doc_numbers_live s} =
      {i} \<times> doc_numbers_live ss \<union> {(j, d). \<exists>s. (j, Some s) \<in> set es \<and> d \<in> doc_numbers_live s}"
    unfolding e by auto
  then show ?case using Cons.IH Cons.prems num by (simp add: e image_Un Un_assoc)
qed simp

text \<open>The moved documents that are deleted, or whose segment is gone, by the time of the introduction.\<close>

definition dead_pairs :: "'d segment_merge \<Rightarrow> 'd segment_snapshot list \<Rightarrow> (nat \<times> nat) set" where
  "dead_pairs sm segs = merge_pairs sm - {(i, d). \<exists>ss\<in>set segs. ss_id ss = i \<and> d \<in> doc_numbers_live ss}"

lemma dead_pairs:
  assumes r: "merge_right sm data" and dist: "distinct (map ss_id segs)" and t: "merge_tracks sm segs"
    and v: "\<And>ss. ss \<in> set segs \<Longrightarrow> valid_snapshot ss"
  shows "since_pairs sm segs \<union> {(i, d). \<exists>ss. (i, Some ss) \<in> set (old (without (gone sm segs) sm)) \<and> d \<in> doc_numbers_live ss} = dead_pairs sm segs"
    (is "?since \<union> ?rest = _")
proof -
  have "distinct (map fst (old sm))" using r by (simp add: merge_right_def)
  then have entry: "(i, e) \<in> set (old sm) \<longleftrightarrow> map_of (old sm) i = Some e" for i e by auto
  have rest: "(i, d) \<in> ?rest \<longleftrightarrow> (i, d) \<in> merge_pairs sm \<and> i \<notin> ss_id ` set segs" for i d
    by (auto simp: without_def entry merge_pairs_def gone_def)
  have since: "(i, d) \<in> ?since \<longleftrightarrow> (i, d) \<in> merge_pairs sm \<and> (\<exists>ss\<in>set segs. ss_id ss = i \<and> d \<notin> doc_numbers_live ss)" for i d
  proof -
    have "d \<in> deleted_since sm ss \<longleftrightarrow> (ss_id ss, d) \<in> merge_pairs sm \<and> d \<notin> doc_numbers_live ss" if ss: "ss \<in> set segs" for ss
    proof (cases "map_of (old sm) (ss_id ss)")
      case None
      then show ?thesis by (simp add: deleted_since_def merge_pairs_def)
    next
      case (Some e)
      obtain atm where e: "e = Some atm" using r map_of_SomeD [OF Some] unfolding merge_right_def by fastforce
      have "later_than atm ss" using t Some ss by (simp add: merge_tracks_def e)
      then show ?thesis using v [OF ss] Some
        by (auto simp: deleted_since_def merge_pairs_def e later_than_def doc_numbers_live valid_snapshot_def seg_count_def)
    qed
    then show ?thesis by (auto simp: since_pairs_def)
  qed
  have uniq: "ss = ss'" if "ss \<in> set segs" "ss' \<in> set segs" "ss_id ss = ss_id ss'" for ss ss'
    using that dist by (auto simp: distinct_map dest: inj_onD)
  have "(i, d) \<in> ?since \<or> (i, d) \<in> ?rest \<longleftrightarrow> (i, d) \<in> dead_pairs sm segs" for i d
    unfolding rest since dead_pairs_def using uniq by blast
  then show ?thesis by auto
qed


definition moving :: "'d segment_merge \<Rightarrow> 'd segment_snapshot list \<Rightarrow> 'd segment_snapshot list" where
  "moving sm segs = filter (\<lambda>ss. ss_id ss \<in> dom (map_of (old sm))) segs"

lemma finite_live [simp]: "finite (doc_numbers_live ss)"
  by (simp add: doc_numbers_live)

lemma pairs_store:
  "distinct (map ss_id segs) \<Longrightarrow> (\<And>ss d. ss \<in> set segs \<Longrightarrow> d \<in> doc_numbers_live ss \<Longrightarrow> g (ss_id ss, d) = seg_docs (ss_segment ss) ! d) \<Longrightarrow>
   image_mset g (mset_set (\<Union>ss\<in>set segs. {ss_id ss} \<times> doc_numbers_live ss)) = store_of segs"
proof (induction segs)
  case (Cons ss segs)
  have "mset_set (\<Union>ss\<in>set (ss # segs). {ss_id ss} \<times> doc_numbers_live ss) =
      mset_set ({ss_id ss} \<times> doc_numbers_live ss) + mset_set (\<Union>ss\<in>set segs. {ss_id ss} \<times> doc_numbers_live ss)"
    using Cons.prems(1) by (subst mset_set_Union [symmetric]) (auto intro: arg_cong [where f = mset_set])
  moreover have "mset_set ({ss_id ss} \<times> doc_numbers_live ss) = image_mset (Pair (ss_id ss)) (mset_set (doc_numbers_live ss))"
    by (subst image_mset_mset_set) (auto simp: inj_on_def intro: arg_cong [where f = mset_set])
  moreover have "image_mset (g \<circ> Pair (ss_id ss)) (mset_set (doc_numbers_live ss)) = mset (live_docs ss)"
    unfolding live_docs_image using Cons.prems(2) by (intro image_mset_cong) simp
  moreover have "image_mset g (mset_set (\<Union>ss\<in>set segs. {ss_id ss} \<times> doc_numbers_live ss)) = store_of segs"
    using Cons.prems by (intro Cons.IH) auto
  ultimately show ?case by (simp add: multiset.map_comp)
qed simp

lemma staying_moving: "(\<And>ss. ss \<in> set segs \<Longrightarrow> valid_snapshot ss) \<Longrightarrow> store_of (staying sm segs) + store_of (moving sm segs) = store_of segs"
  by (induction segs) (auto simp: staying_def moving_def domIff ss_count)

definition merged_snapshot :: "'d segment_merge \<Rightarrow> 'd segment_wrapper \<Rightarrow> 'd segment_snapshot list \<Rightarrow> 'd segment_snapshot" where
  "merged_snapshot sm data segs = \<lparr>ss_id = sm_id sm, ss_segment = data, ss_deleted = Some (new_number sm ` dead_pairs sm segs)\<rparr>"

lemma introduce_merge_root:
  assumes r: "merge_right sm data" and ok: "root_ok root" and t: "merge_tracks sm (segments root)"
  shows "introduce_merge sm e root =
    Some (if ss_count (merged_snapshot sm data (segments root)) > 0
      then (\<lparr>epoch = e, segments = staying sm (segments root) @ [merged_snapshot sm data (segments root)],
          offsets = seg_offsets 0 (staying sm (segments root) @ [merged_snapshot sm data (segments root)])\<rparr>, False)
      else (\<lparr>epoch = e, segments = staying sm (segments root), offsets = seg_offsets 0 (staying sm (segments root))\<rparr>, True))"
proof -
  have dist: "distinct (map ss_id (segments root))" and v: "\<And>ss. ss \<in> set (segments root) \<Longrightarrow> valid_snapshot ss"
    using ok by (simp_all add: root_ok_def well_formed_def)
  have l: "merge_loop (segments root) sm {} 0 [] [] =
      Some (without (gone sm (segments root)) sm, new_number sm ` since_pairs sm (segments root),
        full_count (staying sm (segments root)), staying sm (segments root), seg_offsets 0 (staying sm (segments root)))"
    using merge_loop [OF r dist t v, of "{}" "{}" 0 "[]" "[]"] by simp
  have "set (old (without (gone sm (segments root)) sm)) \<subseteq> set (old sm)" by (auto simp: without_def)
  from obsolete_loop [OF r this, of "gone sm (segments root)" "new_number sm ` since_pairs sm (segments root)"]
  have o: "obsolete_loop (without (gone sm (segments root)) sm) (old (without (gone sm (segments root)) sm))
      (new_number sm ` since_pairs sm (segments root)) = Some (new_number sm ` dead_pairs sm (segments root))"
    by (simp only: image_Un [symmetric] dead_pairs [OF r dist t v])
  have "new sm = Some data" using r by (simp add: merge_right_def)
  then show ?thesis by (simp add: introduce_merge_def l o ss_count_def merged_snapshot_def)
qed

lemma merged_live:
  assumes r: "merge_right sm data" and ok: "root_ok root" and t: "merge_tracks sm (segments root)"
  shows "valid_snapshot (merged_snapshot sm data (segments root))"
    and "mset (live_docs (merged_snapshot sm data (segments root))) = store_of (moving sm (segments root))"
proof -
  let ?X = "\<Union>ss\<in>set (moving sm (segments root)). {ss_id ss} \<times> doc_numbers_live ss"
  let ?P = "merge_pairs sm" and ?D = "dead_pairs sm (segments root)"
  have bij: "bij_betw (new_number sm) ?P {0..<seg_count data}" using r by (simp add: merge_right_def)
  have D: "?D \<subseteq> ?P" by (auto simp: dead_pairs_def)
  show "valid_snapshot (merged_snapshot sm data (segments root))"
    using bij D by (auto simp: valid_snapshot_def merged_snapshot_def bij_betw_def)
  have v: "\<And>ss. ss \<in> set (segments root) \<Longrightarrow> valid_snapshot ss" and dist: "distinct (map ss_id (segments root))"
    using ok by (simp_all add: root_ok_def well_formed_def)
  have at: "\<exists>atm. map_of (old sm) (ss_id ss) = Some (Some atm) \<and> doc_numbers_live ss \<subseteq> doc_numbers_live atm \<and>
      seg_docs (ss_segment atm) = seg_docs (ss_segment ss)" if "ss \<in> set (moving sm (segments root))" for ss
  proof -
    obtain e where e: "map_of (old sm) (ss_id ss) = Some e" using \<open>ss \<in> _\<close> by (auto simp: moving_def)
    obtain atm where atm: "e = Some atm" using r map_of_SomeD [OF e] unfolding merge_right_def by fastforce
    have "later_than atm ss" using t e \<open>ss \<in> _\<close> by (simp add: merge_tracks_def atm moving_def)
    then show ?thesis using e atm by (auto simp: later_than_def doc_numbers_live seg_count_def)
  qed
  have X: "?P - ?D = ?X"
  proof (intro set_eqI iffI)
    fix p assume "p \<in> ?P - ?D"
    then show "p \<in> ?X" by (auto simp: dead_pairs_def moving_def merge_pairs_def domIff)
  next
    fix p assume "p \<in> ?X"
    then obtain ss where ss: "ss \<in> set (moving sm (segments root))" "p \<in> {ss_id ss} \<times> doc_numbers_live ss" by blast
    then have "p \<in> ?P" using at [OF ss(1)] by (auto simp: merge_pairs_def)
    moreover have "p \<notin> ?D" using ss by (auto simp: dead_pairs_def moving_def)
    ultimately show "p \<in> ?P - ?D" by simp
  qed
  have "{0..<seg_count data} - new_number sm ` ?D = new_number sm ` ?X"
    using bij D unfolding X [symmetric] bij_betw_def by (metis inj_on_image_set_diff Diff_subset)
  then have "mset (live_docs (merged_snapshot sm data (segments root))) = image_mset (nth (seg_docs data)) (mset_set (new_number sm ` ?X))"
    by (simp add: live_docs_image doc_numbers_live merged_snapshot_def)
  also have "mset_set (new_number sm ` ?X) = image_mset (new_number sm) (mset_set ?X)"
    using bij unfolding X [symmetric] bij_betw_def by (intro image_mset_mset_set [symmetric]) (auto intro: inj_on_subset)
  also have "image_mset (nth (seg_docs data)) (image_mset (new_number sm) (mset_set ?X)) =
      image_mset (nth (seg_docs data) \<circ> new_number sm) (mset_set ?X)" by (simp add: multiset.map_comp)
  also have "\<dots> = store_of (moving sm (segments root))"
  proof (rule pairs_store)
    show "distinct (map ss_id (moving sm (segments root)))" using dist by (simp add: moving_def distinct_map_filter)
    fix ss d assume "ss \<in> set (moving sm (segments root))" "d \<in> doc_numbers_live ss"
    with at [OF this(1)] obtain atm where "map_of (old sm) (ss_id ss) = Some (Some atm)" "d \<in> doc_numbers_live atm"
      "seg_docs (ss_segment atm) = seg_docs (ss_segment ss)" by auto
    then show "(nth (seg_docs data) \<circ> new_number sm) (ss_id ss, d) = seg_docs (ss_segment ss) ! d"
      using r unfolding merge_right_def new_number_def by simp
  qed
  finally show "mset (live_docs (merged_snapshot sm data (segments root))) = store_of (moving sm (segments root))" .
qed

lemma introduce_merge_ok:
  assumes r: "merge_right sm data" and ok: "root_ok root" and t: "merge_tracks sm (segments root)"
    and fresh: "sm_id sm \<notin> ss_id ` set (segments root)"
  shows "\<exists>root' skipped. introduce_merge sm e root = Some (root', skipped) \<and> root_ok root' \<and> epoch root' = e \<and>
    store_of (segments root') = store_of (segments root) \<and>
    (skipped \<longleftrightarrow> store_of (moving sm (segments root)) = {#}) \<and>
    segments root' = staying sm (segments root) @ (if skipped then [] else [merged_snapshot sm data (segments root)])"
proof -
  let ?new = "merged_snapshot sm data (segments root)"
  note live = merged_live [OF r ok t]
  have v: "\<And>ss. ss \<in> set (segments root) \<Longrightarrow> valid_snapshot ss" using ok by (simp add: root_ok_def well_formed_def)
  note store = staying_moving [of "segments root" sm, OF v]
  have cnt: "ss_count ?new = 0 \<longleftrightarrow> store_of (moving sm (segments root)) = {#}"
    unfolding ss_count [OF live(1)] live(2) [symmetric] by simp
  have stay: "distinct (map ss_id (staying sm (segments root)))" "\<And>ss. ss \<in> set (staying sm (segments root)) \<Longrightarrow> well_formed ss"
    "sm_id sm \<notin> ss_id ` set (staying sm (segments root))"
    using ok fresh by (auto simp: root_ok_def staying_def distinct_map_filter)
  have new: "ss_count ?new > 0 \<Longrightarrow> well_formed ?new" "ss_id ?new = sm_id sm"
    using r live(1) by (simp_all add: well_formed_def merge_right_def) (simp_all add: merged_snapshot_def)
  show ?thesis
  proof (cases "ss_count ?new > 0")
    case True
    then show ?thesis
      unfolding introduce_merge_root [OF r ok t] using stay new live(2) store cnt
      by (auto simp: root_ok_def)
  next
    case False
    then show ?thesis
      unfolding introduce_merge_root [OF r ok t] using stay live(2) store cnt
      by (auto simp: root_ok_def)
  qed
qed

end
