(* ===== verification/Index_Runs.thy ===== *)
theory Index_Runs
  imports Introducer_Store
begin

text \<open>
  The index as a system of goroutines: writers that prepare batches, the merger, the persister and
  the introducer that replaces the root. Merges and persists may begin on any root there has been,
  in any number, and are introduced in any order. A run stores what its batches store one after
  another.
\<close>

section \<open>A merge record is right\<close>

lemma plan_segments_loop:
  "(\<And>ss. ss \<in> set task \<Longrightarrow> Persisted (ss_segment ss) \<and> ss_count ss > 0) \<Longrightarrow> distinct (map ss_id task) \<Longrightarrow>
   fst ` set oldMap \<inter> ss_id ` set task = {} \<Longrightarrow>
   plan_segments_loop task oldMap toMerge =
     (oldMap @ map (\<lambda>ss. (ss_id ss, Some ss)) task, toMerge @ map (\<lambda>ss. (ss_segment ss, ss_deleted ss)) task)"
proof (induction task arbitrary: oldMap toMerge)
  case (Cons ss task)
  have new: "AList.update k v xs = xs @ [(k, v)]" if "k \<notin> fst ` set xs" for k :: nat and v and xs :: "(nat \<times> 'a segment_snapshot option) list"
    using that by (induction xs) auto
  have ss: "Persisted (ss_segment ss)" "ss_count ss \<noteq> 0" using Cons.prems(1) [of ss] by simp_all
  have "plan_segments_loop (ss # task) oldMap toMerge =
      plan_segments_loop task (oldMap @ [(ss_id ss, Some ss)]) (toMerge @ [(ss_segment ss, ss_deleted ss)])"
    using ss Cons.prems(3) by (simp add: new)
  also have "\<dots> = ((oldMap @ [(ss_id ss, Some ss)]) @ map (\<lambda>ss. (ss_id ss, Some ss)) task,
      (toMerge @ [(ss_segment ss, ss_deleted ss)]) @ map (\<lambda>ss. (ss_segment ss, ss_deleted ss)) task)"
    using Cons.prems by (intro Cons.IH) auto
  finally show ?case by simp
qed simp

definition merge_inputs :: "'d segment_snapshot list \<Rightarrow> ('d segment_wrapper \<times> nat set option) list" where
  "merge_inputs task = map (\<lambda>ss. (ss_segment ss, ss_deleted ss)) task"

lemma map_of_rev_zip:
  assumes "distinct xs" "i < length xs" "length ys = length xs"
  shows "map_of (rev (zip xs ys)) (xs ! i) = Some (ys ! i)"
proof -
  have "map_of (rev (zip xs ys)) = map_of (zip xs ys)"
    using assms by (intro map_of_inject_set [THEN iffD2]) (auto simp: rev_map [symmetric])
  then show ?thesis using assms by (simp add: map_of_zip_nth)
qed

context segment_merger
begin

lemma record_right:
  assumes m: "merge (merge_inputs task) = Inr (data, numss)" and dist: "distinct (map ss_id task)"
    and wf: "\<And>ss. ss \<in> set task \<Longrightarrow> well_formed ss" and fit: "doc_numbers_fit data"
    and entries: "set entries = (\<lambda>ss. (ss_id ss, Some ss)) ` set task" "distinct (map fst entries)"
  shows "merge_right \<lparr>sm_id = k, old = entries, oldNewDocNums = map_of (rev (zip (map ss_id task) numss)), new = Some data\<rparr> data"
    (is "merge_right ?sm data")
proof -
  have fits: "doc_numbers_fit (fst x)" if "x \<in> set (merge_inputs task)" for x
    using that wf by (auto simp: merge_inputs_def well_formed_def)
  have len: "length numss = length task" using merge_segments [OF m] by (simp add: merge_inputs_def)
  have nums: "doc_nums ?sm (ss_id (task ! i)) = numss ! i" if "i < length task" for i
    using map_of_rev_zip [OF dist, of i numss] that len by (simp add: doc_nums_def)
  have entry: "map_of entries i = Some e \<longleftrightarrow> (\<exists>ss\<in>set task. i = ss_id ss \<and> e = Some ss)" for i e
    using entries by (auto simp: map_of_eq_Some_iff [OF entries(2)])
  have uniq: "ss = task ! i" if "ss \<in> set task" "i < length task" "ss_id ss = ss_id (task ! i)" for ss i
    using that dist by (auto simp: distinct_map dest: inj_onD)
  let ?r = "\<lambda>(i, d). (ss_id (task ! i), d)"
  have pairs: "merge_pairs ?sm = ?r ` kept (merge_inputs task)"
  proof (intro set_eqI iffI)
    fix p assume "p \<in> merge_pairs ?sm"
    then obtain ss d where p: "p = (ss_id ss, d)" "ss \<in> set task" "d \<in> doc_numbers_live ss"
      by (auto simp: merge_pairs_def entry)
    then obtain i where "i < length task" "ss = task ! i" by (auto simp: in_set_conv_nth)
    then have "(i, d) \<in> kept (merge_inputs task)" using p(3) by (simp add: kept_def merge_inputs_def doc_numbers_live)
    then show "p \<in> ?r ` kept (merge_inputs task)" using \<open>ss = _\<close> by (intro image_eqI [of _ _ "(i, d)"]) (simp_all add: p)
  next
    fix p assume "p \<in> ?r ` kept (merge_inputs task)"
    then obtain i d where "p = (ss_id (task ! i), d)" "i < length task" "d \<in> doc_numbers_live (task ! i)"
      by (auto simp: kept_def merge_inputs_def doc_numbers_live)
    then show "p \<in> merge_pairs ?sm" by (auto simp: merge_pairs_def entry intro!: exI [of _ "task ! i"])
  qed
  have num: "(new_number ?sm \<circ> ?r) x = (\<lambda>(i, d). numss ! i ! d) x" if "x \<in> kept (merge_inputs task)" for x
    using that nums by (auto simp: new_number_def kept_def merge_inputs_def)
  have bij: "bij_betw (new_number ?sm \<circ> ?r) (kept (merge_inputs task)) {0..<seg_count data}"
    using iffD2 [OF bij_betw_cong [of "kept (merge_inputs task)", OF num] merge_bij [OF m fits]] .
  have "bij_betw (new_number ?sm) (merge_pairs ?sm) {0..<seg_count data}"
    using bij unfolding pairs bij_betw_def by (auto intro: inj_on_imageI simp: image_comp)
  moreover have "\<exists>ss. snd e = Some ss \<and> valid_snapshot ss \<and> length (doc_nums ?sm (fst e)) = seg_count (ss_segment ss)"
    if e: "e \<in> set entries" for e
  proof -
    obtain i where i: "i < length task" "e = (ss_id (task ! i), Some (task ! i))" using e by (auto simp: entries in_set_conv_nth)
    have "length (numss ! i) = seg_count (ss_segment (task ! i))"
      using merge_lengths [OF m, of i] i(1) by (simp add: merge_inputs_def)
    then show ?thesis using i nums [OF i(1)] wf [of "task ! i"] by (simp add: well_formed_def)
  qed
  moreover have "seg_docs data ! (doc_nums ?sm i ! d) = seg_docs (ss_segment ss) ! d"
    if "map_of (old ?sm) i = Some (Some ss)" "d \<in> doc_numbers_live ss" for i ss d
  proof -
    have "ss \<in> set task" "i = ss_id ss" using that(1) by (auto simp: entry)
    then obtain j where j: "j < length task" "ss = task ! j" "i = ss_id (task ! j)" by (metis in_set_conv_nth)
    then have "(j, d) \<in> kept (merge_inputs task)" using that(2) by (simp add: kept_def merge_inputs_def doc_numbers_live)
    from merge_docs [OF m fits this] show ?thesis using j nums by (simp add: merge_inputs_def)
  qed
  ultimately show ?thesis using fit entries(2) by (simp add: merge_right_def)
qed

text \<open>A merge task over persisted segments with live documents: no index is out of range.\<close>

lemma execute_merge_task:
  assumes "task \<noteq> []" and dist: "distinct (map ss_id task)"
    and wf: "\<And>ss. ss \<in> set task \<Longrightarrow> well_formed ss \<and> Persisted (ss_segment ss)"
  shows "execute_merge_task merge k task = (case merge (merge_inputs task) of
      Inl e \<Rightarrow> Some (Inl e)
    | Inr (data, numss) \<Rightarrow> Some (Inr (Some \<lparr>sm_id = k, old = map (\<lambda>ss. (ss_id ss, Some ss)) task,
        oldNewDocNums = map_of (rev (zip (map ss_id task) numss)), new = Some data\<rparr>)))"
proof -
  have "plan_segments_loop task [] [] = (map (\<lambda>ss. (ss_id ss, Some ss)) task, merge_inputs task)"
    using plan_segments_loop [of task "[]" "[]"] wf dist by (simp add: merge_inputs_def well_formed_def)
  moreover have "merge_inputs task \<noteq> []" using assms(1) by (simp add: merge_inputs_def)
  moreover have "length numss \<le> length task" if "merge (merge_inputs task) = Inr (data, numss)" for data numss
    using merge_segments [OF that] by (simp add: merge_inputs_def)
  ultimately show ?thesis using assms(1) by (auto simp: execute_merge_task_def split: sum.split)
qed

definition fresh_record :: "nat \<Rightarrow> 'd segment_snapshot list \<Rightarrow> 'd segment_merge \<Rightarrow> bool" where
  "fresh_record k task sm \<longleftrightarrow> sm_id sm = k \<and> (\<exists>data. new sm = Some data \<and> Persisted data \<and> (doc_numbers_fit data \<longrightarrow> merge_right sm data)) \<and>
     (\<forall>i e. map_of (old sm) i = Some e \<longleftrightarrow> (\<exists>ss\<in>set task. i = ss_id ss \<and> e = Some ss))"

lemma fresh_recordI:
  assumes m: "merge (merge_inputs task) = Inr (data, numss)" and dist: "distinct (map ss_id task)"
    and wf: "\<And>ss. ss \<in> set task \<Longrightarrow> well_formed ss"
    and entries: "set entries = (\<lambda>ss. (ss_id ss, Some ss)) ` set task" "distinct (map fst entries)"
  shows "fresh_record k task \<lparr>sm_id = k, old = entries, oldNewDocNums = map_of (rev (zip (map ss_id task) numss)), new = Some data\<rparr>"
  using record_right [OF m dist wf _ entries, of k] merge_persisted [OF m] entries
  by (auto simp: fresh_record_def map_of_eq_Some_iff [OF entries(2)])

lemma execute_merge_task_record:
  assumes "execute_merge_task merge k task = Some (Inr (Some sm))" and dist: "distinct (map ss_id task)"
    and wf: "\<And>ss. ss \<in> set task \<Longrightarrow> well_formed ss \<and> Persisted (ss_segment ss)"
  shows "fresh_record k task sm"
proof -
  have "task \<noteq> []" using assms(1) by (auto simp: execute_merge_task_def)
  then obtain data numss where m: "merge (merge_inputs task) = Inr (data, numss)"
    "sm = \<lparr>sm_id = k, old = map (\<lambda>ss. (ss_id ss, Some ss)) task, oldNewDocNums = map_of (rev (zip (map ss_id task) numss)), new = Some data\<rparr>"
    using assms(1) execute_merge_task [OF _ dist wf] by (auto split: sum.splits)
  show ?thesis unfolding m(2) using wf dist by (intro fresh_recordI [OF m(1) dist]) (simp_all add: o_def)
qed

definition in_memory :: "'d snapshot \<Rightarrow> 'd segment_snapshot list" where
  "in_memory snap = filter (\<lambda>ss. \<not> Persisted (ss_segment ss)) (segments snap)"

lemma merge_segment_bases_record:
  assumes "merge_segment_bases merge minSegments k snap = Some (Inr (Some sm))" and ok: "root_ok snap"
  shows "fresh_record k (in_memory snap) sm"
proof -
  obtain data numss where m: "merge (merge_inputs (in_memory snap)) = Inr (data, numss)"
    "sm = \<lparr>sm_id = k, old = rev (map (\<lambda>ss. (ss_id ss, Some ss)) (in_memory snap)),
       oldNewDocNums = map_of (rev (zip (map ss_id (in_memory snap)) numss)), new = Some data\<rparr>"
    using assms(1) by (auto simp: merge_segment_bases_def in_memory_def merge_inputs_def Let_def split: if_splits sum.splits)
  have dist: "distinct (map ss_id (in_memory snap))" using ok by (simp add: root_ok_def in_memory_def distinct_map_filter)
  show ?thesis unfolding m(2)
    using ok dist by (intro fresh_recordI [OF m(1) dist]) (auto simp: root_ok_def in_memory_def o_def simp flip: rev_map)
qed

end

end
