(* ===== verification/Index_System.thy ===== *)
theory Index_System
  imports Index_Runs
begin

text \<open>
  The index as a system of goroutines (\<open>index/writer.go\<close>, \<open>index/persister.go\<close>,
  \<open>index/merge.go\<close>, \<open>index/introducer.go\<close>): writers that prepare batches, the merger, the persister,
  and the introducer that replaces the root. Merges and persists may begin on any root there has
  been, in any number, and are introduced in any order. What an index stores is what its batches
  store one after another.
\<close>

section \<open>States and steps\<close>

record ('d, 't) index_state =
  root :: "'d snapshot"
  history :: "'d snapshot list"
  prepared :: "('d, 't) segment_introduction list"
  merges :: "'d segment_merge list"
  persists :: "(nat \<rightharpoonup> 'd segment_wrapper) list"
  nextSnapshotEpoch :: nat
  nextSegmentID :: nat

text \<open>\<open>replaceRoot\<close>, with the epoch the introducer loop has drawn.\<close>

definition replace_root :: "'d snapshot \<Rightarrow> ('d, 't) index_state \<Rightarrow> ('d, 't) index_state" where
  "replace_root newSnapshot st = st\<lparr>root := newSnapshot, history := newSnapshot # history st,
     nextSnapshotEpoch := Suc (nextSnapshotEpoch st)\<rparr>"

text \<open>What \<open>persistSnapshotDirect\<close> hands to the introducer for a snapshot it has written.\<close>

definition persisted_view :: "'d segment_wrapper \<Rightarrow> 'd segment_wrapper" where
  "persisted_view s = s\<lparr>Persisted := True\<rparr>"

definition persist_map :: "'d snapshot \<Rightarrow> nat \<rightharpoonup> 'd segment_wrapper" where
  "persist_map snap = map_of (rev (map (\<lambda>ss. (ss_id ss, persisted_view (ss_segment ss)))
     (filter (\<lambda>ss. \<not> Persisted (ss_segment ss)) (segments snap))))"

definition data_ok :: "'d segment_wrapper option \<Rightarrow> bool" where
  "data_ok data = (case data of None \<Rightarrow> True | Some s \<Rightarrow> 0 < seg_count s \<and> doc_numbers_fit s)"

text \<open>
  A step is labelled with the terms and the documents of the batch it makes visible, if any. A
  merge is only begun where the merged segment's numbers fit 32 bits.
\<close>

inductive index_step ::
    "('d segment_wrapper \<Rightarrow> 't \<Rightarrow> ('e, nat list) result) \<Rightarrow> ('e, 'd) merger \<Rightarrow>
     ('d, 't) index_state \<Rightarrow> ('t list \<times> 'd list) option \<Rightarrow> ('d, 't) index_state \<Rightarrow> bool"
  for postings merge where
  prepare: "prepare_obsoletes (docs_matching_terms postings) ts (segments (root st)) Map.empty = Inr obs \<Longrightarrow> data_ok data \<Longrightarrow>
    index_step postings merge st None (st\<lparr>nextSegmentID := Suc (nextSegmentID st), prepared := prepared st @
      [\<lparr>intro_id = Suc (nextSegmentID st), intro_data = data, obsoletes = obs, idTerms = ts\<rparr>]\<rparr>)"
| introduce: "prepared st = xs @ nxt # ys \<Longrightarrow>
    introduce_segment (docs_matching_terms postings) nxt (nextSnapshotEpoch st) (root st) = Inr root' \<Longrightarrow>
    index_step postings merge st (Some (idTerms nxt, intro_docs nxt)) (replace_root root' (st\<lparr>prepared := xs @ ys\<rparr>))"
| introduce_error: "prepared st = xs @ nxt # ys \<Longrightarrow>
    introduce_segment (docs_matching_terms postings) nxt (nextSnapshotEpoch st) (root st) = Inl e \<Longrightarrow>
    index_step postings merge st None (st\<lparr>prepared := xs @ ys, nextSnapshotEpoch := Suc (nextSnapshotEpoch st)\<rparr>)"
| begin_merge: "snap \<in> set (history st) \<Longrightarrow> set task \<subseteq> set (segments snap) \<Longrightarrow> distinct task \<Longrightarrow>
    (\<forall>ss\<in>set task. Persisted (ss_segment ss)) \<Longrightarrow>
    execute_merge_task merge (Suc (nextSegmentID st)) task = Some (Inr (Some sm)) \<Longrightarrow> (\<forall>data. new sm = Some data \<longrightarrow> doc_numbers_fit data) \<Longrightarrow>
    index_step postings merge st None (st\<lparr>nextSegmentID := Suc (nextSegmentID st), merges := merges st @ [sm]\<rparr>)"
| begin_memory_merge: "snap \<in> set (history st) \<Longrightarrow>
    merge_segment_bases merge minSegments (Suc (nextSegmentID st)) snap = Some (Inr (Some sm)) \<Longrightarrow> (\<forall>data. new sm = Some data \<longrightarrow> doc_numbers_fit data) \<Longrightarrow>
    index_step postings merge st None (st\<lparr>nextSegmentID := Suc (nextSegmentID st), merges := merges st @ [sm]\<rparr>)"
| merge_error: "index_step postings merge st None (st\<lparr>nextSegmentID := Suc (nextSegmentID st)\<rparr>)"
| introduce_merged: "merges st = xs @ sm # ys \<Longrightarrow> introduce_merge sm (nextSnapshotEpoch st) (root st) = Some (root', skipped) \<Longrightarrow>
    index_step postings merge st None (replace_root root' (st\<lparr>merges := xs @ ys\<rparr>))"
| begin_persist: "snap \<in> set (history st) \<Longrightarrow> index_step postings merge st None (st\<lparr>persists := persists st @ [persist_map snap]\<rparr>)"
| introduce_persisted: "persists st = xs @ p # ys \<Longrightarrow>
    index_step postings merge st None (replace_root (introduce_persist p (nextSnapshotEpoch st) (root st)) (st\<lparr>persists := xs @ ys\<rparr>))"

inductive index_run ::
    "('d segment_wrapper \<Rightarrow> 't \<Rightarrow> ('e, nat list) result) \<Rightarrow> ('e, 'd) merger \<Rightarrow>
     ('d, 't) index_state \<Rightarrow> ('t list \<times> 'd list) list \<Rightarrow> ('d, 't) index_state \<Rightarrow> bool"
  for postings merge where
  run_done: "index_run postings merge st [] st"
| run_step: "index_run postings merge st trace st' \<Longrightarrow> index_step postings merge st' label st'' \<Longrightarrow>
    index_run postings merge st (trace @ (case label of None \<Rightarrow> [] | Some batch \<Rightarrow> [batch])) st''"

text \<open>A writer that has opened an index.\<close>

definition opened :: "'d snapshot \<Rightarrow> nat \<Rightarrow> nat \<Rightarrow> ('d, 't) index_state" where
  "opened snap e k = \<lparr>root = snap, history = [snap], prepared = [], merges = [], persists = [], nextSnapshotEpoch = e, nextSegmentID = k\<rparr>"

section \<open>The invariant\<close>

definition used :: "('d, 't) index_state \<Rightarrow> nat set" where
  "used st = (\<Union>snap\<in>set (history st). ss_id ` set (segments snap))"

definition pending_ids :: "('d, 't) index_state \<Rightarrow> nat list" where
  "pending_ids st = map intro_id (prepared st) @ map sm_id (merges st)"

definition intro_ok :: "('d \<Rightarrow> 't \<Rightarrow> bool) \<Rightarrow> ('d, 't) index_state \<Rightarrow> ('d, 't) segment_introduction \<Rightarrow> bool" where
  "intro_ok h st nxt \<longleftrightarrow> obsoletes_right h nxt (segments (root st)) \<and> dom (obsoletes nxt) \<subseteq> used st \<and> data_ok (intro_data nxt)"

definition merge_ok :: "('d, 't) index_state \<Rightarrow> 'd segment_merge \<Rightarrow> bool" where
  "merge_ok st sm \<longleftrightarrow> (\<exists>data. merge_right sm data) \<and> merge_tracks sm (segments (root st)) \<and> dom (map_of (old sm)) \<subseteq> used st"

definition persist_ok :: "('d, 't) index_state \<Rightarrow> (nat \<rightharpoonup> 'd segment_wrapper) \<Rightarrow> bool" where
  "persist_ok st p \<longleftrightarrow> persisted_right p (segments (root st)) \<and> dom p \<subseteq> used st"

definition history_ok :: "('d, 't) index_state \<Rightarrow> bool" where
  "history_ok st \<longleftrightarrow> root st \<in> set (history st) \<and> (\<forall>snap\<in>set (history st). root_ok snap \<and> epoch snap < nextSnapshotEpoch st) \<and>
     (\<forall>snap\<in>set (history st). \<forall>ss\<in>set (segments snap). \<forall>now\<in>set (segments (root st)). ss_id ss = ss_id now \<longrightarrow> later_than ss now)"

definition ids_ok :: "('d, 't) index_state \<Rightarrow> bool" where
  "ids_ok st \<longleftrightarrow> distinct (pending_ids st) \<and> set (pending_ids st) \<inter> used st = {} \<and> (\<forall>i\<in>used st \<union> set (pending_ids st). i \<le> nextSegmentID st)"

definition index_ok :: "('d \<Rightarrow> 't \<Rightarrow> bool) \<Rightarrow> ('d, 't) index_state \<Rightarrow> bool" where
  "index_ok h st \<longleftrightarrow> history_ok st \<and> ids_ok st \<and> (\<forall>nxt\<in>set (prepared st). intro_ok h st nxt) \<and>
     (\<forall>sm\<in>set (merges st). merge_ok st sm) \<and> (\<forall>p\<in>set (persists st). persist_ok st p)"

lemma later_than_refl [simp]: "later_than ss ss"
  by (simp add: later_than_def)

lemma later_than_trans: "later_than a b \<Longrightarrow> later_than b c \<Longrightarrow> later_than a c"
  by (auto simp: later_than_def)

lemma later_than_matching: "later_than a b \<Longrightarrow> matching_docs h ts (ss_segment a) = matching_docs h ts (ss_segment b)"
  by (simp add: later_than_def matching_docs_def seg_count_def)

text \<open>A new root whose segments are later versions of the root's, or new.\<close>

definition evolves :: "nat set \<Rightarrow> 'd segment_snapshot list \<Rightarrow> 'd segment_snapshot list \<Rightarrow> bool" where
  "evolves F segs segs' \<longleftrightarrow> (\<forall>ss'\<in>set segs'. ss_id ss' \<in> F \<or> (\<exists>ss\<in>set segs. ss_id ss = ss_id ss' \<and> later_than ss ss'))"

lemma evolvesE:
  assumes "evolves F segs segs'" "ss' \<in> set segs'" "ss_id ss' \<notin> F"
  obtains ss where "ss \<in> set segs" "ss_id ss = ss_id ss'" "later_than ss ss'"
  using assms by (auto simp: evolves_def)

lemma used_replace_root: "used (replace_root root' st) = used st \<union> ss_id ` set (segments root')"
  by (auto simp: used_def replace_root_def)

lemma root_used: "history_ok st \<Longrightarrow> ss \<in> set (segments (root st)) \<Longrightarrow> ss_id ss \<in> used st"
  by (auto simp: used_def history_ok_def)

lemma replace_root_simps [simp]:
  "root (replace_root r st) = r" "prepared (replace_root r st) = prepared st" "merges (replace_root r st) = merges st"
  "persists (replace_root r st) = persists st" "nextSegmentID (replace_root r st) = nextSegmentID st"
  "nextSnapshotEpoch (replace_root r st) = Suc (nextSnapshotEpoch st)" "history (replace_root r st) = r # history st"
  "pending_ids (replace_root r st) = pending_ids st"
  by (simp_all add: replace_root_def pending_ids_def)

lemma replace_root_history:
  assumes ok: "history_ok st" and r: "root_ok root'" "epoch root' = nextSnapshotEpoch st"
    and ev: "evolves F (segments (root st)) (segments root')" and F: "F \<inter> used st = {}"
  shows "history_ok (replace_root root' st)"
proof -
  have "later_than ss now" if ss: "snap \<in> set (root' # history st)" "ss \<in> set (segments snap)" and now: "now \<in> set (segments root')"
    and id: "ss_id ss = ss_id now" for snap ss now
  proof (cases "snap = root'")
    case True
    then have "ss = now" using r(1) ss now id by (auto simp: root_ok_def distinct_map dest: inj_onD)
    then show ?thesis by simp
  next
    case False
    then have old: "snap \<in> set (history st)" using ss(1) by simp
    then have "ss_id ss \<in> used st" using ss(2) by (auto simp: used_def)
    then have "ss_id now \<notin> F" using F id by auto
    then obtain s where s: "s \<in> set (segments (root st))" "ss_id s = ss_id now" "later_than s now"
      using evolvesE [OF ev now] by blast
    have "later_than ss s" using ok old ss(2) s(1) id s(2) unfolding history_ok_def by metis
    then show ?thesis using s(3) by (rule later_than_trans)
  qed
  then show ?thesis using ok r unfolding history_ok_def replace_root_simps by (auto simp: less_Suc_eq)
qed

text \<open>What was prepared stays right.\<close>

lemma replace_root_pending:
  assumes ok: "history_ok st" and ev: "evolves F (segments (root st)) (segments root')" and F: "F \<inter> used st = {}"
  shows "intro_ok h st nxt \<Longrightarrow> intro_ok h (replace_root root' st) nxt"
    and "merge_ok st sm \<Longrightarrow> merge_ok (replace_root root' st) sm"
    and "persist_ok st p \<Longrightarrow> persist_ok (replace_root root' st) p"
proof -
  have from_root: "\<exists>ss\<in>set (segments (root st)). ss_id ss = ss_id ss' \<and> later_than ss ss'"
    if "ss' \<in> set (segments root')" "ss_id ss' \<in> used st" for ss'
    using evolvesE [OF ev that(1)] F that(2) by (metis IntI empty_iff)
  show "intro_ok h (replace_root root' st) nxt" if i: "intro_ok h st nxt"
    unfolding intro_ok_def obsoletes_right_def replace_root_simps
  proof (intro conjI ballI allI impI)
    show "dom (obsoletes nxt) \<subseteq> used (replace_root root' st)" "data_ok (intro_data nxt)"
      using i by (auto simp: intro_ok_def used_replace_root)
    fix ss delta assume ss: "ss \<in> set (segments root')" and d: "obsoletes nxt (ss_id ss) = Some delta"
    then have "ss_id ss \<in> used st" using i by (auto simp: intro_ok_def)
    then obtain s where s: "s \<in> set (segments (root st))" "ss_id s = ss_id ss" "later_than s ss"
      using from_root [OF ss] by blast
    have "delta = matching_docs h (idTerms nxt) (ss_segment s)"
      using i d s(1,2) unfolding intro_ok_def obsoletes_right_def by metis
    then show "delta = matching_docs h (idTerms nxt) (ss_segment ss)" using later_than_matching [OF s(3)] by simp
  qed
  show "merge_ok (replace_root root' st) sm" if m: "merge_ok st sm"
    unfolding merge_ok_def merge_tracks_def replace_root_simps
  proof (intro conjI ballI allI impI)
    show "\<exists>data. merge_right sm data" "dom (map_of (old sm)) \<subseteq> used (replace_root root' st)"
      using m by (auto simp: merge_ok_def used_replace_root)
    fix now ss assume now: "now \<in> set (segments root')" and o: "map_of (old sm) (ss_id now) = Some (Some ss)"
    then have "ss_id now \<in> used st" using m by (auto simp: merge_ok_def)
    then obtain s where s: "s \<in> set (segments (root st))" "ss_id s = ss_id now" "later_than s now"
      using from_root [OF now] by blast
    have "later_than ss s" using m o s(1,2) unfolding merge_ok_def merge_tracks_def by metis
    then show "later_than ss now" using s(3) by (rule later_than_trans)
  qed
  show "persist_ok (replace_root root' st) p" if p: "persist_ok st p"
    unfolding persist_ok_def persisted_right_def replace_root_simps
  proof (intro conjI ballI allI impI)
    show "dom p \<subseteq> used (replace_root root' st)" using p by (auto simp: persist_ok_def used_replace_root)
    fix ss r assume ss: "ss \<in> set (segments root')" and r: "p (ss_id ss) = Some r"
    then have "ss_id ss \<in> used st" using p by (auto simp: persist_ok_def)
    then obtain s where s: "s \<in> set (segments (root st))" "ss_id s = ss_id ss" "later_than s ss"
      using from_root [OF ss] by blast
    then show "seg_docs r = seg_docs (ss_segment ss)"
      using p r unfolding persist_ok_def persisted_right_def later_than_def by metis
  qed
qed

lemma replace_root_ok:
  assumes ok: "index_ok h st" and r: "root_ok root'" "epoch root' = nextSnapshotEpoch st"
    and ev: "evolves F (segments (root st)) (segments root')"
    and F: "F \<inter> used st = {}" "F \<inter> set (pending_ids st) = {}" "\<And>i. i \<in> F \<Longrightarrow> i \<le> nextSegmentID st"
  shows "index_ok h (replace_root root' st)"
proof -
  have h: "history_ok st" and i: "ids_ok st" using ok by (simp_all add: index_ok_def)
  have used': "ss_id ` set (segments root') \<subseteq> used st \<union> F"
    using evolvesE [OF ev] root_used [OF h] by (metis (no_types, lifting) UnCI image_subsetI)
  have "ids_ok (replace_root root' st)"
    using i used' F(2,3) unfolding ids_ok_def used_replace_root replace_root_simps by (auto 0 3)
  moreover have "history_ok (replace_root root' st)" by (rule replace_root_history [OF h r ev F(1)])
  ultimately show ?thesis using ok replace_root_pending [OF h ev F(1)] by (simp add: index_ok_def)
qed


section \<open>Every step keeps the invariant\<close>

lemma unchanged_simps [simp]:
  "used (st\<lparr>prepared := P\<rparr>) = used st" "used (st\<lparr>merges := M\<rparr>) = used st" "used (st\<lparr>persists := Q\<rparr>) = used st"
  "used (st\<lparr>nextSegmentID := k\<rparr>) = used st" "used (st\<lparr>nextSnapshotEpoch := e\<rparr>) = used st"
  "history_ok (st\<lparr>prepared := P\<rparr>) = history_ok st" "history_ok (st\<lparr>merges := M\<rparr>) = history_ok st"
  "history_ok (st\<lparr>persists := Q\<rparr>) = history_ok st" "history_ok (st\<lparr>nextSegmentID := k\<rparr>) = history_ok st"
  "intro_ok h (st\<lparr>prepared := P\<rparr>) = intro_ok h st" "intro_ok h (st\<lparr>merges := M\<rparr>) = intro_ok h st"
  "intro_ok h (st\<lparr>persists := Q\<rparr>) = intro_ok h st" "intro_ok h (st\<lparr>nextSegmentID := k\<rparr>) = intro_ok h st"
  "intro_ok h (st\<lparr>nextSnapshotEpoch := e\<rparr>) = intro_ok h st"
  "merge_ok (st\<lparr>prepared := P\<rparr>) = merge_ok st" "merge_ok (st\<lparr>merges := M\<rparr>) = merge_ok st"
  "merge_ok (st\<lparr>persists := Q\<rparr>) = merge_ok st" "merge_ok (st\<lparr>nextSegmentID := k\<rparr>) = merge_ok st"
  "merge_ok (st\<lparr>nextSnapshotEpoch := e\<rparr>) = merge_ok st"
  "persist_ok (st\<lparr>prepared := P\<rparr>) = persist_ok st" "persist_ok (st\<lparr>merges := M\<rparr>) = persist_ok st"
  "persist_ok (st\<lparr>persists := Q\<rparr>) = persist_ok st" "persist_ok (st\<lparr>nextSegmentID := k\<rparr>) = persist_ok st"
  "persist_ok (st\<lparr>nextSnapshotEpoch := e\<rparr>) = persist_ok st"
  by (simp_all add: used_def history_ok_def fun_eq_iff intro_ok_def merge_ok_def persist_ok_def)

lemma pending_simps [simp]:
  "pending_ids (st\<lparr>prepared := P\<rparr>) = map intro_id P @ map sm_id (merges st)"
  "pending_ids (st\<lparr>merges := M\<rparr>) = map intro_id (prepared st) @ map sm_id M"
  "pending_ids (st\<lparr>persists := Q\<rparr>) = pending_ids st" "pending_ids (st\<lparr>nextSegmentID := k\<rparr>) = pending_ids st"
  "pending_ids (st\<lparr>nextSnapshotEpoch := e\<rparr>) = pending_ids st"
  by (simp_all add: pending_ids_def)

text \<open>Taking something out of what is pending.\<close>

lemma take_prepared:
  assumes ok: "index_ok h st" and p: "prepared st = xs @ nxt # ys"
  shows "index_ok h (st\<lparr>prepared := xs @ ys\<rparr>)" "intro_ok h st nxt" "intro_id nxt \<notin> used st"
    "intro_id nxt \<notin> set (pending_ids (st\<lparr>prepared := xs @ ys\<rparr>))" "intro_id nxt \<le> nextSegmentID st"
proof -
  have "distinct (pending_ids st)" "set (pending_ids st) \<inter> used st = {}" "\<And>i. i \<in> used st \<union> set (pending_ids st) \<Longrightarrow> i \<le> nextSegmentID st"
    using ok by (simp_all add: index_ok_def ids_ok_def)
  then show "index_ok h (st\<lparr>prepared := xs @ ys\<rparr>)" "intro_ok h st nxt" "intro_id nxt \<notin> used st"
    "intro_id nxt \<notin> set (pending_ids (st\<lparr>prepared := xs @ ys\<rparr>))" "intro_id nxt \<le> nextSegmentID st"
    using ok p by (auto simp: index_ok_def ids_ok_def pending_ids_def)
qed

lemma take_merge:
  assumes ok: "index_ok h st" and m: "merges st = xs @ sm # ys"
  shows "index_ok h (st\<lparr>merges := xs @ ys\<rparr>)" "merge_ok st sm" "sm_id sm \<notin> used st"
    "sm_id sm \<notin> set (pending_ids (st\<lparr>merges := xs @ ys\<rparr>))" "sm_id sm \<le> nextSegmentID st"
proof -
  have "distinct (pending_ids st)" "set (pending_ids st) \<inter> used st = {}" "\<And>i. i \<in> used st \<union> set (pending_ids st) \<Longrightarrow> i \<le> nextSegmentID st"
    using ok by (simp_all add: index_ok_def ids_ok_def)
  then show "index_ok h (st\<lparr>merges := xs @ ys\<rparr>)" "merge_ok st sm" "sm_id sm \<notin> used st"
    "sm_id sm \<notin> set (pending_ids (st\<lparr>merges := xs @ ys\<rparr>))" "sm_id sm \<le> nextSegmentID st"
    using ok m by (auto simp: index_ok_def ids_ok_def pending_ids_def)
qed

lemma take_persist:
  assumes ok: "index_ok h st" and p: "persists st = xs @ q # ys"
  shows "index_ok h (st\<lparr>persists := xs @ ys\<rparr>)" "persist_ok st q"
  using ok p by (auto simp: index_ok_def ids_ok_def)

text \<open>Adding to what is pending.\<close>

lemma next_id_ok: "index_ok h st \<Longrightarrow> index_ok h (st\<lparr>nextSegmentID := Suc (nextSegmentID st)\<rparr>)"
  by (auto simp: index_ok_def ids_ok_def le_SucI)

lemma next_id_fresh: "index_ok h st \<Longrightarrow> Suc (nextSegmentID st) \<notin> used st \<union> set (pending_ids st)"
  by (metis Suc_n_not_le_n ids_ok_def index_ok_def)

lemma add_merge_ok:
  assumes ok: "index_ok h st" and m: "merge_ok st sm" "sm_id sm = Suc (nextSegmentID st)"
  shows "index_ok h (st\<lparr>nextSegmentID := Suc (nextSegmentID st), merges := merges st @ [sm]\<rparr>)"
  using ok m next_id_fresh [OF ok] by (auto simp: index_ok_def ids_ok_def pending_ids_def le_SucI)

lemma add_prepared_ok:
  assumes ok: "index_ok h st" and i: "intro_ok h st nxt" "intro_id nxt = Suc (nextSegmentID st)"
  shows "index_ok h (st\<lparr>nextSegmentID := Suc (nextSegmentID st), prepared := prepared st @ [nxt]\<rparr>)"
  using ok i next_id_fresh [OF ok] by (auto simp: index_ok_def ids_ok_def pending_ids_def le_SucI)

lemma persist_map_ok:
  assumes ok: "index_ok h st" and snap: "snap \<in> set (history st)"
  shows "persist_ok st (persist_map snap)"
proof -
  have m: "\<exists>ss\<in>set (segments snap). i = ss_id ss \<and> r = persisted_view (ss_segment ss)" if "persist_map snap i = Some r" for i r
    using map_of_SomeD [OF that [unfolded persist_map_def]] by auto
  have "seg_docs r = seg_docs (ss_segment now)" if now: "now \<in> set (segments (root st))" "persist_map snap (ss_id now) = Some r" for now r
  proof -
    obtain ss where ss: "ss \<in> set (segments snap)" "ss_id now = ss_id ss" "r = persisted_view (ss_segment ss)" using m [OF now(2)] by blast
    have "later_than ss now" using ok snap now(1) ss(1,2) unfolding index_ok_def history_ok_def by metis
    then show ?thesis by (simp add: ss(3) persisted_view_def later_than_def)
  qed
  moreover have "i \<in> used st" if "persist_map snap i = Some r" for i r using m [OF that] snap by (auto simp: used_def)
  ultimately show ?thesis unfolding persist_ok_def persisted_right_def by blast
qed

text \<open>A merge record that was made from segments of some root.\<close>

context segment_merger
begin

lemma record_ok:
  assumes ok: "index_ok h st" and snap: "snap \<in> set (history st)" "set task \<subseteq> set (segments snap)"
    and r: "fresh_record k task sm" and fit: "\<forall>data. new sm = Some data \<longrightarrow> doc_numbers_fit data"
  shows "merge_ok st sm" "sm_id sm = k"
proof -
  obtain data where "merge_right sm data" using r fit by (auto simp: fresh_record_def)
  moreover have "later_than ss now" if "now \<in> set (segments (root st))" "map_of (old sm) (ss_id now) = Some (Some ss)" for now ss
  proof -
    have "ss \<in> set (segments snap)" "ss_id now = ss_id ss" using r that(2) snap(2) by (auto simp: fresh_record_def)
    then show ?thesis using ok snap(1) that(1) unfolding index_ok_def history_ok_def by metis
  qed
  moreover have "dom (map_of (old sm)) \<subseteq> used st" using r snap by (fastforce simp: fresh_record_def used_def)
  ultimately show "merge_ok st sm" by (auto simp: merge_ok_def merge_tracks_def)
  show "sm_id sm = k" using r by (simp add: fresh_record_def)
qed

end

text \<open>What a writer prepares.\<close>

context term_index
begin

lemma prepare_obsoletes:
  "prepare_obsoletes (docs_matching_terms postings) ts segs obs0 = Inr obs \<Longrightarrow> (\<And>ss. ss \<in> set segs \<Longrightarrow> doc_numbers_fit (ss_segment ss)) \<Longrightarrow>
   distinct (map ss_id segs) \<Longrightarrow>
   obs i = (case find (\<lambda>ss. ss_id ss = i) segs of Some ss \<Rightarrow> Some (matching_docs has_term ts (ss_segment ss)) | None \<Rightarrow> obs0 i)"
proof (induction segs arbitrary: obs0)
  case (Cons ss segs)
  obtain delta where d: "docs_matching_terms postings (ss_segment ss) ts = Inr delta"
    "prepare_obsoletes (docs_matching_terms postings) ts segs (obs0(ss_id ss \<mapsto> delta)) = Inr obs"
    using Cons.prems(1) by (auto split: sum.splits)
  have "delta = matching_docs has_term ts (ss_segment ss)" using docs_matching [OF _ d(1)] Cons.prems(2) by simp
  moreover have "find (\<lambda>s. ss_id s = ss_id ss) segs = None" using Cons.prems(3) by (auto simp: find_None_iff) (metis imageI)
  ultimately show ?case using Cons.IH [OF d(2)] Cons.prems(2,3) by (auto split: option.split)
qed simp

lemma prepared_ok:
  assumes ok: "index_ok has_term st" and p: "prepare_obsoletes (docs_matching_terms postings) ts (segments (root st)) Map.empty = Inr obs"
    and d: "data_ok data"
  shows "intro_ok has_term st \<lparr>intro_id = k, intro_data = data, obsoletes = obs, idTerms = ts\<rparr>"
proof -
  have r: "root_ok (root st)" "history_ok st" using ok by (auto simp: index_ok_def history_ok_def)
  have "\<And>ss. ss \<in> set (segments (root st)) \<Longrightarrow> doc_numbers_fit (ss_segment ss)" and dist: "distinct (map ss_id (segments (root st)))"
    using r(1) by (auto simp: root_ok_def well_formed_def)
  note obs = prepare_obsoletes [OF p this]
  have uniq: "ss = ss'" if "ss \<in> set (segments (root st))" "ss' \<in> set (segments (root st))" "ss_id ss = ss_id ss'" for ss ss'
    using that dist by (auto simp: distinct_map dest: inj_onD)
  have found: "\<exists>ss\<in>set (segments (root st)). ss_id ss = i \<and> delta = matching_docs has_term ts (ss_segment ss)" if "obs i = Some delta" for i delta
  proof (cases "find (\<lambda>ss. ss_id ss = i) (segments (root st))")
    case None
    then show ?thesis using that obs [of i] by simp
  next
    case (Some ss)
    then have "ss \<in> set (segments (root st))" "ss_id ss = i" by (auto simp: find_Some_iff)
    then show ?thesis using that obs [of i] Some by auto
  qed
  have "delta = matching_docs has_term ts (ss_segment ss)" if "ss \<in> set (segments (root st))" "obs (ss_id ss) = Some delta" for ss delta
    using found [OF that(2)] uniq [OF that(1)] by metis
  moreover have "dom obs \<subseteq> used st" using found root_used [OF r(2)] by (metis domIff not_None_eq subsetI)
  ultimately show ?thesis using d by (auto simp: intro_ok_def obsoletes_right_def)
qed

end


section \<open>Runs\<close>

text \<open>What a batch does to what is stored.\<close>

definition batch_effect :: "('d \<Rightarrow> 't \<Rightarrow> bool) \<Rightarrow> 't list \<times> 'd list \<Rightarrow> 'd multiset \<Rightarrow> 'd multiset" where
  "batch_effect h batch M = filter_mset (\<lambda>d. \<not> (\<exists>t\<in>set (fst batch). h d t)) M + mset (snd batch)"

definition label_effect :: "('d \<Rightarrow> 't \<Rightarrow> bool) \<Rightarrow> ('t list \<times> 'd list) option \<Rightarrow> 'd multiset \<Rightarrow> 'd multiset" where
  "label_effect h label = (case label of None \<Rightarrow> id | Some batch \<Rightarrow> batch_effect h batch)"

definition store_root :: "('d, 't) index_state \<Rightarrow> 'd multiset" where
  "store_root st = store_of (segments (root st))"

locale index_parts = term_index postings has_term + segment_merger merge
  for postings :: "'d segment_wrapper \<Rightarrow> 't \<Rightarrow> ('e, nat list) result" and has_term :: "'d \<Rightarrow> 't \<Rightarrow> bool" and merge :: "('e, 'd) merger"
begin

lemma evolves_introduced:
  "evolves {intro_id nxt} segs (introduced ts segs @ intro_segments nxt)"
  unfolding evolves_def
proof (intro ballI)
  fix ss' assume "ss' \<in> set (introduced ts segs @ intro_segments nxt)"
  then consider "ss' \<in> set (introduced ts segs)" | "ss_id ss' = intro_id nxt" by (auto simp: intro_segments_def split: option.splits)
  then show "ss_id ss' \<in> {intro_id nxt} \<or> (\<exists>ss\<in>set segs. ss_id ss = ss_id ss' \<and> later_than ss ss')"
    by cases (use introduced_origin [of ss' ts segs] in \<open>auto simp: later_than_def\<close>)
qed

lemma introduce_step:
  assumes ok: "index_ok has_term st" and p: "prepared st = xs @ nxt # ys"
    and i: "introduce_segment (docs_matching_terms postings) nxt (nextSnapshotEpoch st) (root st) = Inr root'"
  shows "index_ok has_term (replace_root root' (st\<lparr>prepared := xs @ ys\<rparr>))"
    and "store_of (segments root') = batch_effect has_term (idTerms nxt, intro_docs nxt) (store_root st)"
proof -
  note t = take_prepared [OF ok p]
  have r: "root_ok (root st)" "history_ok st" using ok by (auto simp: index_ok_def history_ok_def)
  have o: "obsoletes_right has_term nxt (segments (root st))" and d: "data_ok (intro_data nxt)" using t(2) by (simp_all add: intro_ok_def)
  have fresh: "intro_id nxt \<notin> ss_id ` set (segments (root st))" using t(3) root_used [OF r(2)] by auto
  have d: "0 < seg_count data \<and> doc_numbers_fit data" if "intro_data nxt = Some data" for data using d that by (simp add: data_ok_def)
  note segs = introduce_segment_root [OF i r(1) o]
  note ok' = introduce_segment_ok [OF i r(1) o d fresh]
  show "store_of (segments root') = batch_effect has_term (idTerms nxt, intro_docs nxt) (store_root st)"
    using ok'(2) by (simp add: batch_effect_def store_root_def)
  show "index_ok has_term (replace_root root' (st\<lparr>prepared := xs @ ys\<rparr>))"
    using t ok'(1) segs(3) evolves_introduced [of nxt "segments (root st)" "idTerms nxt"]
    by (intro replace_root_ok [where F = "{intro_id nxt}"]) (auto simp: segs(1))
qed

lemma merge_step:
  assumes ok: "index_ok has_term st" and m: "merges st = xs @ sm # ys"
  shows "\<exists>root' skipped. introduce_merge sm (nextSnapshotEpoch st) (root st) = Some (root', skipped) \<and>
    index_ok has_term (replace_root root' (st\<lparr>merges := xs @ ys\<rparr>)) \<and> store_of (segments root') = store_root st"
proof -
  note t = take_merge [OF ok m]
  have r: "root_ok (root st)" "history_ok st" using ok by (auto simp: index_ok_def history_ok_def)
  obtain data where right: "merge_right sm data" and tr: "merge_tracks sm (segments (root st))" using t(2) by (auto simp: merge_ok_def)
  have fresh: "sm_id sm \<notin> ss_id ` set (segments (root st))" using t(3) root_used [OF r(2)] by auto
  obtain root' skipped where i: "introduce_merge sm (nextSnapshotEpoch st) (root st) = Some (root', skipped)" "root_ok root'"
    "epoch root' = nextSnapshotEpoch st" "store_of (segments root') = store_of (segments (root st))"
    "segments root' = staying sm (segments (root st)) @ (if skipped then [] else [merged_snapshot sm data (segments (root st))])"
    using introduce_merge_ok [OF right r(1) tr fresh] by blast
  have "evolves {sm_id sm} (segments (root st)) (segments root')"
    by (auto simp: evolves_def i(5) staying_def merged_snapshot_def split: if_splits)
  then have "index_ok has_term (replace_root root' (st\<lparr>merges := xs @ ys\<rparr>))"
    using t i by (intro replace_root_ok [where F = "{sm_id sm}"]) auto
  then show ?thesis using i(1,4) by (auto simp: store_root_def)
qed

lemma persist_step:
  assumes ok: "index_ok has_term st" and p: "persists st = xs @ q # ys"
  shows "index_ok has_term (replace_root (introduce_persist q (nextSnapshotEpoch st) (root st)) (st\<lparr>persists := xs @ ys\<rparr>))"
    and "store_of (segments (introduce_persist q (nextSnapshotEpoch st) (root st))) = store_root st"
proof -
  note t = take_persist [OF ok p]
  have r: "root_ok (root st)" using ok by (auto simp: index_ok_def history_ok_def)
  have right: "persisted_right q (segments (root st))" using t(2) by (simp add: persist_ok_def)
  note i = introduce_persist_ok [OF r right, of "nextSnapshotEpoch st"]
  show "store_of (segments (introduce_persist q (nextSnapshotEpoch st) (root st))) = store_root st" using i(2) by (simp add: store_root_def)
  have "evolves {} (segments (root st)) (segments (introduce_persist q (nextSnapshotEpoch st) (root st)))"
    using replaced_docs [OF right] by (auto simp: evolves_def introduce_persist_segments later_than_def)
  then show "index_ok has_term (replace_root (introduce_persist q (nextSnapshotEpoch st) (root st)) (st\<lparr>persists := xs @ ys\<rparr>))"
    using t i(1) by (intro replace_root_ok [where F = "{}"]) (auto simp: introduce_persist_def)
qed

lemma begin_merge_ok:
  assumes ok: "index_ok has_term st" and snap: "snap \<in> set (history st)" and task: "set task \<subseteq> set (segments snap)" "distinct task"
    "\<forall>ss\<in>set task. Persisted (ss_segment ss)"
    and e: "execute_merge_task merge (Suc (nextSegmentID st)) task = Some (Inr (Some sm))" "\<forall>data. new sm = Some data \<longrightarrow> doc_numbers_fit data"
  shows "index_ok has_term (st\<lparr>nextSegmentID := Suc (nextSegmentID st), merges := merges st @ [sm]\<rparr>)"
proof -
  have r: "root_ok snap" using ok snap by (auto simp: index_ok_def history_ok_def)
  have "distinct (map ss_id task)" using r task by (auto simp: root_ok_def distinct_map intro: inj_on_subset)
  moreover have "\<And>ss. ss \<in> set task \<Longrightarrow> well_formed ss \<and> Persisted (ss_segment ss)" using r task by (auto simp: root_ok_def)
  ultimately have "fresh_record (Suc (nextSegmentID st)) task sm" by (rule execute_merge_task_record [OF e(1)])
  from record_ok [OF ok snap task(1) this e(2)] show ?thesis by (rule add_merge_ok [OF ok])
qed

lemma begin_memory_merge_ok:
  assumes ok: "index_ok has_term st" and snap: "snap \<in> set (history st)"
    and e: "merge_segment_bases merge minSegments (Suc (nextSegmentID st)) snap = Some (Inr (Some sm))" "\<forall>data. new sm = Some data \<longrightarrow> doc_numbers_fit data"
  shows "index_ok has_term (st\<lparr>nextSegmentID := Suc (nextSegmentID st), merges := merges st @ [sm]\<rparr>)"
proof -
  have r: "root_ok snap" using ok snap by (auto simp: index_ok_def history_ok_def)
  have "set (in_memory snap) \<subseteq> set (segments snap)" by (auto simp: in_memory_def)
  from record_ok [OF ok snap this merge_segment_bases_record [OF e(1) r] e(2)] show ?thesis by (rule add_merge_ok [OF ok])
qed

lemma index_step_ok:
  assumes "index_step postings merge st label st'" and ok: "index_ok has_term st"
  shows "index_ok has_term st' \<and> store_root st' = label_effect has_term label (store_root st)"
  using assms(1)
proof cases
  case (prepare ts obs data)
  then show ?thesis using add_prepared_ok [OF ok prepared_ok [OF ok prepare(3,4)]] by (simp add: label_effect_def store_root_def)
next
  case (introduce xs nxt ys root')
  then show ?thesis using introduce_step [OF ok introduce(3,4)] by (simp add: label_effect_def store_root_def)
next
  case (introduce_error xs nxt ys e)
  then show ?thesis using take_prepared(1) [OF ok introduce_error(3)]
    by (auto simp: label_effect_def store_root_def index_ok_def ids_ok_def history_ok_def)
next
  case (begin_merge snap task sm)
  then show ?thesis using begin_merge_ok [OF ok begin_merge(3-8)] by (simp add: label_effect_def store_root_def)
next
  case (begin_memory_merge snap minSegments sm)
  then show ?thesis using begin_memory_merge_ok [OF ok begin_memory_merge(3-5)] by (simp add: label_effect_def store_root_def)
next
  case merge_error
  then show ?thesis using next_id_ok [OF ok] by (simp add: label_effect_def store_root_def)
next
  case (introduce_merged xs sm ys root' skipped)
  then show ?thesis using merge_step [OF ok introduce_merged(3)] by (auto simp: label_effect_def store_root_def)
next
  case (begin_persist snap)
  then show ?thesis using ok persist_map_ok [OF ok begin_persist(3)] by (auto simp: label_effect_def store_root_def index_ok_def ids_ok_def)
next
  case (introduce_persisted xs p ys)
  then show ?thesis using persist_step [OF ok introduce_persisted(3)] by (simp add: label_effect_def store_root_def)
qed

lemma index_run_ok:
  "index_run postings merge st trace st' \<Longrightarrow> index_ok has_term st \<Longrightarrow>
   index_ok has_term st' \<and> store_root st' = fold (batch_effect has_term) trace (store_root st)"
proof (induction rule: index_run.induct)
  case (run_step st trace st' label st'')
  then show ?case using index_step_ok [OF run_step(2)] by (auto simp: label_effect_def split: option.splits)
qed simp

end

lemma opened_ok:
  assumes "root_ok snap" "epoch snap < e" "\<And>ss. ss \<in> set (segments snap) \<Longrightarrow> ss_id ss \<le> k"
  shows "index_ok h (opened snap e k)"
proof -
  have "later_than ss now" if "ss \<in> set (segments snap)" "now \<in> set (segments snap)" "ss_id ss = ss_id now" for ss now
    using that assms(1) by (auto simp: root_ok_def distinct_map dest: inj_onD)
  then show ?thesis using assms by (auto simp: index_ok_def history_ok_def ids_ok_def opened_def used_def pending_ids_def)
qed

end
