(* ===== verification/Stored_Merge.thy ===== *)
theory Stored_Merge
  imports Index_Runs
begin

text \<open>
  How the text segments renumber when they are merged (\<open>mergeStoredAndRemap\<close> of
  \<open>internal/zapxtext/merge.go\<close>): the documents that are not dropped follow each other, a dropped
  one has the number \<open>docDropped\<close>. The contract of a merge holds of it.
\<close>

definition docDropped :: nat where
  "docDropped = 2 ^ 64 - 1"

fun remap_docs :: "nat set option \<Rightarrow> 'd list \<Rightarrow> nat \<Rightarrow> nat \<Rightarrow> nat list \<times> 'd list \<times> nat" where
  "remap_docs drops [] docNum newDocNum = ([], [], newDocNum)"
| "remap_docs drops (d # ds) docNum newDocNum =
     (if docNum mod 2 ^ 32 \<in> bitmap drops
      then (case remap_docs drops ds (docNum + 1) newDocNum of (nums, docs, n) \<Rightarrow> (docDropped # nums, docs, n))
      else (case remap_docs drops ds (docNum + 1) (newDocNum + 1) of (nums, docs, n) \<Rightarrow> (newDocNum # nums, d # docs, n)))"

fun remap_segments :: "('d segment_wrapper \<times> nat set option) list \<Rightarrow> nat \<Rightarrow> nat list list \<times> 'd list" where
  "remap_segments [] newDocNum = ([], [])"
| "remap_segments ((s, drops) # rest) newDocNum =
     (case remap_docs drops (seg_docs s) 0 newDocNum of (nums, docs, n) \<Rightarrow>
        case remap_segments rest n of (numss, docs') \<Rightarrow> (nums # numss, docs @ docs'))"

definition merge_stored :: "('e, 'd) merger" where
  "merge_stored toMerge =
     (case remap_segments toMerge 0 of (numss, docs) \<Rightarrow> Inr (\<lparr>seg_docs = docs, Persisted = True\<rparr>, numss))"

text \<open>The numbers of the documents that stay, in order, are consecutive.\<close>

lemma upt_Cons_Suc: "[0..<Suc n] = 0 # map Suc [0..<n]"
  by (simp add: upt_conv_Cons map_Suc_upt del: upt_Suc)

lemma remap_docs:
  "remap_docs drops ds docNum n = (nums, kept_docs, n') \<Longrightarrow> docNum + length ds \<le> 2 ^ 32 \<Longrightarrow>
   length nums = length ds \<and> n' = n + length kept_docs \<and>
   map (nth nums) (filter (\<lambda>j. docNum + j \<notin> bitmap drops) [0..<length ds]) = [n..<n'] \<and>
   map (nth ds) (filter (\<lambda>j. docNum + j \<notin> bitmap drops) [0..<length ds]) = kept_docs"
proof (induction drops ds docNum n arbitrary: nums kept_docs n' rule: remap_docs.induct)
  case (2 drops d ds docNum n)
  have m: "docNum mod 2 ^ 32 = docNum" using "2.prems"(2) by simp
  show ?case
  proof (cases "docNum \<in> bitmap drops")
    case True
    then obtain nums' where r: "remap_docs drops ds (docNum + 1) n = (nums', kept_docs, n')" "nums = docDropped # nums'"
      using "2.prems"(1) m by (auto split: prod.splits)
    show ?thesis
      using "2.IH"(1) [OF _ r(1)] True m "2.prems"(2)
      by (simp add: r(2) upt_Cons_Suc filter_map o_def del: upt_Suc)
  next
    case False
    then obtain nums' kept' where r: "remap_docs drops ds (docNum + 1) (n + 1) = (nums', kept', n')"
      "nums = n # nums'" "kept_docs = d # kept'"
      using "2.prems"(1) m by (auto split: prod.splits)
    show ?thesis
      using "2.IH"(2) [OF _ r(1)] False m "2.prems"(2)
      by (simp add: r(2,3) upt_Cons_Suc filter_map o_def upt_conv_Cons del: upt_Suc)
  qed
qed simp

definition kept_list :: "('d segment_wrapper \<times> nat set option) list \<Rightarrow> (nat \<times> nat) list" where
  "kept_list inputs = concat (map (\<lambda>i. map (Pair i) (filter (\<lambda>d. d \<notin> bitmap (snd (inputs ! i)))
     [0..<seg_count (fst (inputs ! i))])) [0..<length inputs])"

lemma kept_list_Cons:
  "kept_list (x # inputs) = map (Pair 0) (filter (\<lambda>d. d \<notin> bitmap (snd x)) [0..<seg_count (fst x)]) @
     map (\<lambda>(i, d). (Suc i, d)) (kept_list inputs)"
  by (simp add: kept_list_def upt_Cons_Suc map_concat o_def del: upt_Suc)

lemma set_kept_list: "set (kept_list inputs) = kept inputs"
  by (auto simp: kept_list_def kept_def)

lemma remap_segments:
  "remap_segments inputs n = (numss, docs) \<Longrightarrow> (\<And>x. x \<in> set inputs \<Longrightarrow> doc_numbers_fit (fst x)) \<Longrightarrow>
   map (\<lambda>(i, d). numss ! i ! d) (kept_list inputs) = [n..<n + length docs] \<and>
   map (\<lambda>(i, d). seg_docs (fst (inputs ! i)) ! d) (kept_list inputs) = docs"
proof (induction inputs n arbitrary: numss docs rule: remap_segments.induct)
  case (2 s drops rest n)
  obtain nums k n' where r: "remap_docs drops (seg_docs s) 0 n = (nums, k, n')" by (cases "remap_docs drops (seg_docs s) 0 n")
  obtain numss' docs' where r': "remap_segments rest n' = (numss', docs')" by fastforce
  have eq: "numss = nums # numss'" "docs = k @ docs'" using "2.prems"(1) by (simp_all add: r r')
  have fit: "0 + length (seg_docs s) \<le> 2 ^ 32" using "2.prems"(2) [of "(s, drops)"] by (simp add: doc_numbers_fit_def seg_count_def)
  note one = remap_docs [OF r fit, unfolded add_0, folded seg_count_def]
  have n': "n' = n + length k" using one by (elim conjE)
  have "\<And>x. x \<in> set rest \<Longrightarrow> doc_numbers_fit (fst x)" using "2.prems"(2) by simp
  note more = "2.IH" [OF r [symmetric] refl r' this]
  have first: "(\<lambda>(i, d). numss ! i ! d) \<circ> Pair 0 = nth nums"
    "(\<lambda>(i, d). seg_docs (fst (((s, drops) # rest) ! i)) ! d) \<circ> Pair 0 = nth (seg_docs s)"
    by (simp_all add: fun_eq_iff eq)
  have later: "(\<lambda>(i, d). numss ! i ! d) \<circ> (\<lambda>(i, d). (Suc i, d)) = (\<lambda>(i, d). numss' ! i ! d)"
    "(\<lambda>(i, d). seg_docs (fst (((s, drops) # rest) ! i)) ! d) \<circ> (\<lambda>(i, d). (Suc i, d)) = (\<lambda>(i, d). seg_docs (fst (rest ! i)) ! d)"
    by (simp_all add: fun_eq_iff eq)
  have "map (\<lambda>(i, d). numss ! i ! d) (kept_list ((s, drops) # rest)) = [n..<n'] @ [n'..<n' + length docs']"
    using one more by (elim conjE) (simp only: kept_list_Cons map_append map_map first later fst_conv snd_conv)
  moreover have "[n..<n'] @ [n'..<n' + length docs'] = [n..<n + length docs]"
    unfolding n' eq length_append add.assoc [symmetric] by (metis le_add1 upt_add_eq_append)
  moreover have "map (\<lambda>(i, d). seg_docs (fst (((s, drops) # rest) ! i)) ! d) (kept_list ((s, drops) # rest)) = docs"
    using one more by (elim conjE) (simp only: kept_list_Cons map_append map_map first later fst_conv snd_conv eq)
  ultimately show ?case by simp
qed (simp add: kept_list_def)

lemma remap_docs_length: "length (fst (remap_docs drops ds docNum n)) = length ds"
  by (induction drops ds docNum n rule: remap_docs.induct) (auto split: prod.splits)

lemma remap_segments_lengths:
  "map length (fst (remap_segments inputs n)) = map (\<lambda>x. seg_count (fst x)) inputs"
proof (induction inputs n rule: remap_segments.induct)
  case (2 s drops rest n)
  obtain nums k n' where r: "remap_docs drops (seg_docs s) 0 n = (nums, k, n')" by (cases "remap_docs drops (seg_docs s) 0 n")
  show ?case
    using remap_docs_length [of drops "seg_docs s" 0 n] "2.IH" [OF r [symmetric] refl]
    by (cases "remap_segments rest n'") (simp add: r seg_count_def)
qed simp

lemma merge_stored_segments:
  assumes "merge_stored inputs = Inr (data, numss)"
  shows "map length numss = map (\<lambda>x. seg_count (fst x)) inputs"
  using remap_segments_lengths [of inputs 0] assms by (auto simp: merge_stored_def split: prod.splits)

lemma distinct_kept_list: "distinct (kept_list inputs)"
proof (induction inputs)
  case (Cons x inputs)
  have "distinct (map (\<lambda>(i, d). (Suc i, d)) (kept_list inputs))"
    using Cons by (auto simp: distinct_map inj_on_def)
  then show ?case by (auto simp: kept_list_Cons distinct_map inj_on_def)
qed (simp add: kept_list_def)

lemma merge_stored_numbers:
  assumes "merge_stored inputs = Inr (data, numss)" and "\<And>x. x \<in> set inputs \<Longrightarrow> doc_numbers_fit (fst x)"
  shows "map (\<lambda>(i, d). numss ! i ! d) (kept_list inputs) = [0..<seg_count data]"
    and "map (\<lambda>(i, d). seg_docs (fst (inputs ! i)) ! d) (kept_list inputs) = seg_docs data"
  using remap_segments [of inputs 0 numss "seg_docs data", OF _ assms(2)] assms(1)
  by (auto simp: merge_stored_def seg_count_def split: prod.splits)

interpretation stored_merger: segment_merger "merge_stored :: ('e, 'd) merger"
proof
  fix inputs data numss assume m: "(merge_stored inputs :: ('e, 'd segment_wrapper \<times> nat list list) result) = Inr (data, numss)"
  note l = merge_stored_segments [OF m]
  then show "length numss = length inputs" using map_eq_imp_length_eq by blast
  show "length (numss ! i) = seg_count (fst (inputs ! i))" if "i < length inputs" for i
    using arg_cong [OF l, of "\<lambda>xs. xs ! i"] that \<open>length numss = length inputs\<close> by simp
  show "Persisted data" using m by (auto simp: merge_stored_def split: prod.splits)
next
  fix inputs data numss
  assume m: "(merge_stored inputs :: ('e, 'd segment_wrapper \<times> nat list list) result) = Inr (data, numss)"
    and fit: "\<And>x. x \<in> set inputs \<Longrightarrow> doc_numbers_fit (fst x)"
  note n = merge_stored_numbers [OF m fit]
  show "bij_betw (\<lambda>(i, d). numss ! i ! d) (kept inputs) {0..<seg_count data}"
  proof (rule bij_betw_imageI)
    show "inj_on (\<lambda>(i, d). numss ! i ! d) (kept inputs)"
      using n(1) distinct_kept_list [of inputs] by (metis distinct_map distinct_upt set_kept_list)
    show "(\<lambda>(i, d). numss ! i ! d) ` kept inputs = {0..<seg_count data}"
      using arg_cong [OF n(1), of set] by (simp add: set_kept_list)
  qed
  fix i d assume "(i, d) \<in> kept inputs"
  then obtain k where k: "k < length (kept_list inputs)" "kept_list inputs ! k = (i, d)"
    by (metis in_set_conv_nth set_kept_list)
  have len: "length (kept_list inputs) = seg_count data" using arg_cong [OF n(1), of length] by simp
  have "numss ! i ! d = k" using arg_cong [OF n(1), of "\<lambda>xs. xs ! k"] k len by simp
  moreover have "seg_docs data ! k = seg_docs (fst (inputs ! i)) ! d"
    using arg_cong [OF n(2), of "\<lambda>xs. xs ! k"] k by simp
  ultimately show "seg_docs data ! (numss ! i ! d) = seg_docs (fst (inputs ! i)) ! d" by simp
qed

end
