(* ===== verification/Inverted_Build.thy ===== *)
theory Inverted_Build
  imports Introducer
begin

text \<open>
  How an in-memory segment indexes its documents (\<open>internal/zapxtext/section_inverted_text_index.go\<close>):
  a first pass over all fields gives every term of a field a postings list and reserves room for
  it (\<open>realloc\<close>), a second pass gathers the terms of each document and appends them (\<open>process\<close>).
  The postings lists are those of the documents, and none outgrows its room. The order in which Go
  visits a map is the order of the list that stands for it; fields are given by their numbers.
\<close>

section \<open>Documents\<close>

record ('t, 'l) term_entry =
  te_term :: 't
  te_freq :: nat
  te_locs :: "'l list"

record ('t, 'l) doc_field =
  df_id :: nat
  df_length :: nat
  df_native :: bool
  df_terms :: "('t, 'l) term_entry list"

section \<open>The first pass\<close>

record 't term_room =
  Dicts :: "nat \<Rightarrow> 't \<rightharpoonup> nat"
  numTermsPerPostingsList :: "nat list"
  numLocsPerPostingsList :: "nat list"

text \<open>\<open>visitTerm\<close>: the number of postings lists is the length of the two counters.\<close>

definition visit_term :: "nat \<Rightarrow> ('t, 'l) term_entry \<Rightarrow> 't term_room \<Rightarrow> 't term_room" where
  "visit_term fieldID e r =
     (let r = (case Dicts r fieldID (te_term e) of
          Some p \<Rightarrow> r
        | None \<Rightarrow> r\<lparr>Dicts := (Dicts r)(fieldID := (Dicts r fieldID)(te_term e \<mapsto> Suc (length (numTermsPerPostingsList r)))),
            numTermsPerPostingsList := numTermsPerPostingsList r @ [0], numLocsPerPostingsList := numLocsPerPostingsList r @ [0]\<rparr>);
          pid = the (Dicts r fieldID (te_term e)) - 1
      in r\<lparr>numTermsPerPostingsList := (numTermsPerPostingsList r)[pid := numTermsPerPostingsList r ! pid + 1],
        numLocsPerPostingsList := (numLocsPerPostingsList r)[pid := numLocsPerPostingsList r ! pid + length (te_locs e)]\<rparr>)"

definition visit_field :: "('t, 'l) doc_field \<Rightarrow> 't term_room \<Rightarrow> 't term_room" where
  "visit_field f r = fold (visit_term (df_id f)) (df_terms f) r"

definition realloc :: "('t, 'l) doc_field list list \<Rightarrow> 't term_room" where
  "realloc docs = fold (\<lambda>doc. fold visit_field doc) docs
     \<lparr>Dicts = (\<lambda>_. Map.empty), numTermsPerPostingsList = [], numLocsPerPostingsList = []\<rparr>"

section \<open>The second pass\<close>

type_synonym ('t, 'l) acc_terms = "('t \<times> nat \<times> 'l list) list"

record ('t, 'l) accumulator =
  native :: "('t, 'l) acc_terms"
  nativeSet :: bool
  terms :: "('t, 'l) acc_terms"
  usingMap :: bool

definition empty_acc :: "('t, 'l) accumulator" where
  "empty_acc = \<lparr>native = [], nativeSet = False, terms = [], usingMap = False\<rparr>"

definition acc_is_empty :: "('t, 'l) accumulator \<Rightarrow> bool" where
  "acc_is_empty a = (if nativeSet a then native a = [] else \<not> usingMap a \<or> terms a = [])"

definition entry_triple :: "('t, 'l) term_entry \<Rightarrow> 't \<times> nat \<times> 'l list" where
  "entry_triple e = (te_term e, te_freq e, te_locs e)"

definition accumulate_term :: "'t \<times> nat \<times> 'l list \<Rightarrow> ('t, 'l) accumulator \<Rightarrow> ('t, 'l) accumulator" where
  "accumulate_term e a = (case e of (t, freq, locs) \<Rightarrow>
     case (case map_of (terms a) t of None \<Rightarrow> (0, []) | Some entry \<Rightarrow> entry) of (frequency, locations) \<Rightarrow>
       a\<lparr>usingMap := True, terms := AList.update t (frequency + freq, locations @ locs) (terms a)\<rparr>)"

definition materialize_native_terms :: "('t, 'l) accumulator \<Rightarrow> ('t, 'l) accumulator" where
  "materialize_native_terms a = (fold accumulate_term (native a) a)\<lparr>native := [], nativeSet := False\<rparr>"

definition process_field :: "('t, 'l) doc_field \<Rightarrow> ('t, 'l) accumulator \<times> nat \<Rightarrow> ('t, 'l) accumulator \<times> nat" where
  "process_field f al = (case al of (a, len) \<Rightarrow>
     (if \<not> nativeSet a \<and> \<not> usingMap a \<and> df_native f
      then a\<lparr>native := map entry_triple (df_terms f), nativeSet := True\<rparr>
      else fold accumulate_term (map entry_triple (df_terms f)) (if nativeSet a then materialize_native_terms a else a),
      len + df_length f))"

record ('t, 'l, 'n) inverted =
  Postings :: "nat set list"
  FreqNorms :: "(nat \<times> 'n \<times> nat) list list"
  Locs :: "'l list list"
  fieldStats :: "nat \<Rightarrow> nat \<times> nat"

text \<open>
  \<open>appendNativeTerm\<close> and \<open>appendAccumulatedTerm\<close>. A term without a postings list would index below
  zero and panic.
\<close>

definition append_term :: "('t \<rightharpoonup> nat) \<Rightarrow> nat \<Rightarrow> nat \<Rightarrow> 'n \<Rightarrow> 't \<times> nat \<times> 'l list \<Rightarrow> ('t, 'l, 'n) inverted \<Rightarrow> ('t, 'l, 'n) inverted option" where
  "append_term dict fieldID docNum norm e io = (case e of (t, frequency, locations) \<Rightarrow>
     case dict t of
       None \<Rightarrow> None
     | Some p \<Rightarrow>
         let pid = p - 1 in
         if p = 0 \<or> length (Postings io) \<le> pid then None
         else Some (io\<lparr>fieldStats := (fieldStats io)(fieldID := (fst (fieldStats io fieldID), snd (fieldStats io fieldID) + frequency)),
           Postings := (Postings io)[pid := insert docNum (Postings io ! pid)],
           FreqNorms := (FreqNorms io)[pid := FreqNorms io ! pid @ [(frequency, norm, length locations)]],
           Locs := (Locs io)[pid := Locs io ! pid @ locations]\<rparr>))"

fun append_terms :: "('t \<rightharpoonup> nat) \<Rightarrow> nat \<Rightarrow> nat \<Rightarrow> 'n \<Rightarrow> ('t, 'l) acc_terms \<Rightarrow> ('t, 'l, 'n) inverted \<Rightarrow> ('t, 'l, 'n) inverted option" where
  "append_terms dict fieldID docNum norm [] io = Some io"
| "append_terms dict fieldID docNum norm (e # es) io =
     Option.bind (append_term dict fieldID docNum norm e io) (append_terms dict fieldID docNum norm es)"

text \<open>The end of a document: each field with terms is counted and its terms are appended.\<close>

definition acc_entries :: "('t, 'l) accumulator \<Rightarrow> ('t, 'l) acc_terms" where
  "acc_entries a = (if nativeSet a then native a else terms a)"

fun finish_fields :: "(nat \<Rightarrow> 't \<rightharpoonup> nat) \<Rightarrow> (nat \<Rightarrow> nat \<Rightarrow> 'n) \<Rightarrow> nat \<Rightarrow> nat \<Rightarrow> (('t, 'l) accumulator \<times> nat) list \<Rightarrow>
    ('t, 'l, 'n) inverted \<Rightarrow> ('t, 'l, 'n) inverted option" where
  "finish_fields dicts normCalc docNum fid [] io = Some io"
| "finish_fields dicts normCalc docNum fid ((a, len) # rest) io =
     (if acc_is_empty a then finish_fields dicts normCalc docNum (Suc fid) rest io
      else Option.bind
        (append_terms (dicts fid) fid docNum (normCalc fid len) (acc_entries a)
          (io\<lparr>fieldStats := (fieldStats io)(fid := (fst (fieldStats io fid) + 1, snd (fieldStats io fid)))\<rparr>))
        (finish_fields dicts normCalc docNum (Suc fid) rest))"

text \<open>One document over \<open>n\<close> fields, then all of them. A field number beyond the fields panics.\<close>

fun gather_fields :: "('t, 'l) doc_field list \<Rightarrow> (('t, 'l) accumulator \<times> nat) list \<Rightarrow> (('t, 'l) accumulator \<times> nat) list option" where
  "gather_fields [] accs = Some accs"
| "gather_fields (f # fs) accs =
     (if df_id f < length accs then gather_fields fs (accs[df_id f := process_field f (accs ! df_id f)]) else None)"

definition process_document :: "(nat \<Rightarrow> 't \<rightharpoonup> nat) \<Rightarrow> (nat \<Rightarrow> nat \<Rightarrow> 'n) \<Rightarrow> nat \<Rightarrow> nat \<Rightarrow> ('t, 'l) doc_field list \<Rightarrow>
    ('t, 'l, 'n) inverted \<Rightarrow> ('t, 'l, 'n) inverted option" where
  "process_document dicts normCalc n docNum doc io =
     Option.bind (gather_fields doc (replicate n (empty_acc, 0))) (\<lambda>accs. finish_fields dicts normCalc docNum 0 accs io)"

fun process_documents :: "(nat \<Rightarrow> 't \<rightharpoonup> nat) \<Rightarrow> (nat \<Rightarrow> nat \<Rightarrow> 'n) \<Rightarrow> nat \<Rightarrow> nat \<Rightarrow> ('t, 'l) doc_field list list \<Rightarrow>
    ('t, 'l, 'n) inverted \<Rightarrow> ('t, 'l, 'n) inverted option" where
  "process_documents dicts normCalc n docNum [] io = Some io"
| "process_documents dicts normCalc n docNum (doc # docs) io =
     Option.bind (process_document dicts normCalc n docNum doc io) (process_documents dicts normCalc n (Suc docNum) docs)"

definition build_inverted :: "(nat \<Rightarrow> nat \<Rightarrow> 'n) \<Rightarrow> nat \<Rightarrow> ('t, 'l) doc_field list list \<Rightarrow> ('t, 'l, 'n) inverted option" where
  "build_inverted normCalc n docs =
     (let r = realloc docs; k = length (numTermsPerPostingsList r) in
      process_documents (Dicts r) normCalc n 0 docs
        \<lparr>Postings = replicate k {}, FreqNorms = replicate k [], Locs = replicate k [], fieldStats = (\<lambda>_. (0, 0))\<rparr>)"


section \<open>What a document has of a term\<close>

definition total_of :: "('t, 'l) acc_terms \<Rightarrow> 't \<rightharpoonup> nat \<times> 'l list" where
  "total_of es t =
     (if t \<in> fst ` set es then Some (\<Sum>e\<leftarrow>filter (\<lambda>e. fst e = t) es. fst (snd e), concat (map (\<lambda>e. snd (snd e)) (filter (\<lambda>e. fst e = t) es)))
      else None)"

definition field_triples :: "nat \<Rightarrow> ('t, 'l) doc_field list \<Rightarrow> ('t, 'l) acc_terms" where
  "field_triples fid doc = concat (map (\<lambda>f. map entry_triple (df_terms f)) (filter (\<lambda>f. df_id f = fid) doc))"

definition field_length :: "nat \<Rightarrow> ('t, 'l) doc_field list \<Rightarrow> nat" where
  "field_length fid doc = (\<Sum>f\<leftarrow>filter (\<lambda>f. df_id f = fid) doc. df_length f)"

definition native_ok :: "('t, 'l) doc_field \<Rightarrow> bool" where
  "native_ok f \<longleftrightarrow> (df_native f \<longrightarrow> distinct (map te_term (df_terms f)))"

lemma total_of_Nil [simp]: "total_of [] = Map.empty"
  by (simp add: total_of_def fun_eq_iff)

lemma total_of_empty: "total_of es = Map.empty \<longleftrightarrow> es = []"
proof
  assume e: "total_of es = Map.empty"
  show "es = []"
  proof (rule ccontr)
    assume "es \<noteq> []"
    then have "fst (hd es) \<in> fst ` set es" by simp
    then have "total_of es (fst (hd es)) \<noteq> None" by (simp add: total_of_def)
    then show False using e by simp
  qed
qed simp

lemma total_of_snoc:
  "total_of (es @ [(t, freq, locs)]) = (total_of es)(t \<mapsto> (case total_of es t of None \<Rightarrow> (freq, locs) | Some (f, l) \<Rightarrow> (f + freq, l @ locs)))"
proof -
  have "filter (\<lambda>e. fst e = t) es = []" if "t \<notin> fst ` set es" using that by (auto simp: filter_empty_conv)
  then show ?thesis by (auto simp: total_of_def fun_eq_iff split: option.split)
qed

lemma total_of_distinct: "distinct (map fst es) \<Longrightarrow> total_of es = map_of es"
proof (induction es rule: rev_induct)
  case (snoc e es)
  obtain t f l where e: "e = (t, f, l)" by (cases e)
  then have new: "t \<notin> fst ` set es" and IH: "total_of es = map_of es" using snoc by auto
  then have "map_of es t = None" by (simp add: map_of_eq_None_iff)
  then have "map_of (es @ [e]) = (map_of es)(t \<mapsto> (f, l))"
    by (auto simp: fun_eq_iff e map_add_def split: option.split)
  then show ?case using IH \<open>map_of es t = None\<close> unfolding e total_of_snoc by simp
qed simp

text \<open>The accumulator of a field holds the total of each of its terms.\<close>

abbreviation freq_sum :: "('t, 'l) acc_terms \<Rightarrow> nat" where
  "freq_sum es \<equiv> \<Sum>e\<leftarrow>es. fst (snd e)"

definition acc_ok :: "('t, 'l) acc_terms \<Rightarrow> ('t, 'l) accumulator \<Rightarrow> bool" where
  "acc_ok es a \<longleftrightarrow> distinct (map fst (acc_entries a)) \<and> map_of (acc_entries a) = total_of es \<and> freq_sum (acc_entries a) = freq_sum es \<and>
     (nativeSet a \<longrightarrow> \<not> usingMap a) \<and> (\<not> usingMap a \<longrightarrow> terms a = [])"

lemma empty_acc_ok: "acc_ok [] empty_acc"
  by (simp add: acc_ok_def empty_acc_def acc_entries_def)

lemma acc_is_empty: "acc_ok es a \<Longrightarrow> acc_is_empty a \<longleftrightarrow> acc_entries a = []"
  by (auto simp: acc_ok_def acc_is_empty_def acc_entries_def)

lemma freq_sum_update:
  "freq_sum (AList.update t (f + freq, l) es) = freq_sum es + freq" if "case map_of es t of None \<Rightarrow> f = 0 | Some x \<Rightarrow> f = fst x"
  using that by (induction es) auto

lemma accumulate_ok: "acc_ok es a \<Longrightarrow> \<not> nativeSet a \<Longrightarrow> acc_ok (es @ [e]) (accumulate_term e a) \<and> \<not> nativeSet (accumulate_term e a)"
proof -
  assume a: "acc_ok es a" "\<not> nativeSet a"
  obtain t freq locs where e: "e = (t, freq, locs)" by (cases e)
  have m: "map_of (terms a) = total_of es" "distinct (map fst (terms a))" "freq_sum (terms a) = freq_sum es" using a by (simp_all add: acc_ok_def acc_entries_def)
  show ?thesis
  proof (cases "total_of es t")
    case None
    then show ?thesis using a(2) m
      by (simp add: accumulate_term_def e acc_ok_def acc_entries_def update_conv' total_of_snoc distinct_update
        freq_sum_update [where f = 0, simplified])
  next
    case (Some x)
    then show ?thesis using a(2) m
      by (cases x) (simp add: accumulate_term_def e acc_ok_def acc_entries_def update_conv' total_of_snoc distinct_update freq_sum_update)
  qed
qed

lemma accumulate_fold:
  "acc_ok es a \<Longrightarrow> \<not> nativeSet a \<Longrightarrow> acc_ok (es @ fs) (fold accumulate_term fs a) \<and> \<not> nativeSet (fold accumulate_term fs a)"
proof (induction fs arbitrary: es a)
  case (Cons e fs)
  then show ?case using accumulate_ok [of es a e] Cons.IH [of "es @ [e]" "accumulate_term e a"] by simp
qed simp

lemma materialize_ok:
  assumes a: "acc_ok es a" "nativeSet a"
  shows "acc_ok es (materialize_native_terms a) \<and> \<not> nativeSet (materialize_native_terms a)"
proof -
  let ?b = "a\<lparr>nativeSet := False\<rparr>"
  have acc: "accumulate_term e (b\<lparr>nativeSet := x\<rparr>) = (accumulate_term e b)\<lparr>nativeSet := x\<rparr>" for e x and b :: "('a, 'b) accumulator"
    by (simp add: accumulate_term_def split: prod.split option.split)
  have fold: "fold accumulate_term L (b\<lparr>nativeSet := x\<rparr>) = (fold accumulate_term L b)\<lparr>nativeSet := x\<rparr>" for L x and b :: "('a, 'b) accumulator"
    by (induction L arbitrary: b) (simp_all add: acc)
  have n: "distinct (map fst (native a))" "map_of (native a) = total_of es" "terms a = []" "freq_sum (native a) = freq_sum es"
    using a by (simp_all add: acc_ok_def acc_entries_def)
  have "acc_ok [] ?b" using n(3) by (simp add: acc_ok_def acc_entries_def)
  then have r: "acc_ok (native a) (fold accumulate_term (native a) ?b)" "\<not> nativeSet (fold accumulate_term (native a) ?b)"
    using accumulate_fold [of "[]" ?b "native a"] by simp_all
  have "materialize_native_terms a = (fold accumulate_term (native a) ?b)\<lparr>native := []\<rparr>"
    by (simp add: materialize_native_terms_def fold)
  then show ?thesis using r n(2,4) total_of_distinct [OF n(1)] by (simp add: acc_ok_def acc_entries_def)
qed

lemma process_field_ok:
  assumes a: "acc_ok es a" and f: "native_ok f"
  shows "acc_ok (es @ map entry_triple (df_terms f)) (fst (process_field f (a, len)))" "snd (process_field f (a, len)) = len + df_length f"
proof -
  show "acc_ok (es @ map entry_triple (df_terms f)) (fst (process_field f (a, len)))"
  proof (cases "\<not> nativeSet a \<and> \<not> usingMap a \<and> df_native f")
    case True
    then have "total_of es = Map.empty" using a by (metis acc_ok_def acc_entries_def map_of.simps(1))
    then have "es = []" by (simp only: total_of_empty)
    moreover have d: "distinct (map fst (map entry_triple (df_terms f)))" using f True by (simp add: native_ok_def o_def entry_triple_def)
    ultimately show ?thesis using True a total_of_distinct [OF d] by (simp add: process_field_def acc_ok_def acc_entries_def)
  next
    case False
    let ?b = "if nativeSet a then materialize_native_terms a else a"
    have "acc_ok es ?b" "\<not> nativeSet ?b" using a materialize_ok [OF a] by auto
    then show ?thesis using accumulate_fold [of es ?b "map entry_triple (df_terms f)"]
      by (simp add: process_field_def if_not_P [OF False] del: not_ex)
  qed
  show "snd (process_field f (a, len)) = len + df_length f" by (simp add: process_field_def)
qed

definition accs_ok :: "('t, 'l) doc_field list \<Rightarrow> (('t, 'l) accumulator \<times> nat) list \<Rightarrow> bool" where
  "accs_ok doc accs \<longleftrightarrow> (\<forall>fid<length accs. acc_ok (field_triples fid doc) (fst (accs ! fid)) \<and> snd (accs ! fid) = field_length fid doc)"

lemma gather_fields:
  "accs_ok doc accs \<Longrightarrow> (\<And>f. f \<in> set fs \<Longrightarrow> native_ok f \<and> df_id f < length accs) \<Longrightarrow>
   \<exists>accs'. gather_fields fs accs = Some accs' \<and> accs_ok (doc @ fs) accs' \<and> length accs' = length accs"
proof (induction fs arbitrary: doc accs)
  case (Cons f fs)
  let ?accs = "accs[df_id f := process_field f (accs ! df_id f)]"
  have f: "native_ok f" "df_id f < length accs" using Cons.prems(2) by auto
  obtain a len where a: "accs ! df_id f = (a, len)" by fastforce
  have "acc_ok (field_triples (df_id f) doc) a" "len = field_length (df_id f) doc"
    using Cons.prems(1) f(2) a by (auto simp: accs_ok_def)
  from process_field_ok [OF this(1) f(1), of len] have "accs_ok (doc @ [f]) ?accs"
    using Cons.prems(1) f(2) \<open>len = _\<close> by (auto simp: accs_ok_def nth_list_update a field_triples_def field_length_def)
  from Cons.IH [OF this] Cons.prems(2) f(2) show ?case by auto
qed simp


section \<open>Appending a document\<close>

definition cell :: "('t, 'l, 'n) inverted \<Rightarrow> nat \<Rightarrow> nat set \<times> (nat \<times> 'n \<times> nat) list \<times> 'l list" where
  "cell io i = (Postings io ! i, FreqNorms io ! i, Locs io ! i)"

definition add_cell :: "nat \<Rightarrow> 'n \<Rightarrow> (nat \<times> 'l list) option \<Rightarrow> nat set \<times> (nat \<times> 'n \<times> nat) list \<times> 'l list \<Rightarrow>
    nat set \<times> (nat \<times> 'n \<times> nat) list \<times> 'l list" where
  "add_cell docNum norm x c = (case x of None \<Rightarrow> c
     | Some (f, l) \<Rightarrow> (insert docNum (fst c), fst (snd c) @ [(f, norm, length l)], snd (snd c) @ l))"

lemma add_cell_None [simp]: "add_cell docNum norm None c = c"
  by (simp add: add_cell_def)

definition dicts_ok :: "(nat \<Rightarrow> 't \<rightharpoonup> nat) \<Rightarrow> nat \<Rightarrow> bool" where
  "dicts_ok dicts k \<longleftrightarrow> (\<forall>fid t p. dicts fid t = Some p \<longrightarrow> 0 < p \<and> p \<le> k) \<and>
     (\<forall>fid t fid' t' p. dicts fid t = Some p \<longrightarrow> dicts fid' t' = Some p \<longrightarrow> fid = fid' \<and> t = t')"

definition sizes :: "('t, 'l, 'n) inverted \<Rightarrow> nat \<Rightarrow> bool" where
  "sizes io k \<longleftrightarrow> length (Postings io) = k \<and> length (FreqNorms io) = k \<and> length (Locs io) = k"

definition count_up :: "nat \<Rightarrow> nat \<Rightarrow> nat \<times> nat \<Rightarrow> nat \<times> nat" where
  "count_up c s x = (fst x + c, snd x + s)"

lemma append_term:
  assumes d: "dicts_ok dicts k" and sz: "sizes io k" and t: "dicts fid t = Some p"
  shows "\<exists>io'. append_term (dicts fid) fid docNum norm (t, f, l) io = Some io' \<and> sizes io' k \<and>
    fieldStats io' = (fieldStats io)(fid := count_up 0 f (fieldStats io fid)) \<and>
    (\<forall>fid' t' q. dicts fid' t' = Some q \<longrightarrow> cell io' (q - 1) =
      (if fid' = fid \<and> t' = t then add_cell docNum norm (Some (f, l)) (cell io (q - 1)) else cell io (q - 1)))"
proof -
  have "0 < p \<and> p \<le> k" using d t unfolding dicts_ok_def by blast
  then have p: "0 < p" "p - 1 < k" by linarith+
  have other: "q - 1 \<noteq> p - 1 \<longleftrightarrow> \<not> (fid' = fid \<and> t' = t)" if q: "dicts fid' t' = Some q" for fid' t' q
  proof -
    have q0: "0 < q" and same: "q = p \<Longrightarrow> fid' = fid \<and> t' = t" using d q t unfolding dicts_ok_def by blast+
    have "q - 1 \<noteq> p - 1 \<longleftrightarrow> q \<noteq> p" using p(1) q0 by linarith
    then show ?thesis using same q t by auto
  qed
  let ?io = "io\<lparr>fieldStats := (fieldStats io)(fid := (fst (fieldStats io fid), snd (fieldStats io fid) + f)),
      Postings := (Postings io)[p - 1 := insert docNum (Postings io ! (p - 1))],
      FreqNorms := (FreqNorms io)[p - 1 := FreqNorms io ! (p - 1) @ [(f, norm, length l)]],
      Locs := (Locs io)[p - 1 := Locs io ! (p - 1) @ l]\<rparr>"
  have "append_term (dicts fid) fid docNum norm (t, f, l) io = Some ?io"
    using p sz by (simp add: append_term_def t sizes_def Let_def)
  moreover have "sizes ?io k" using sz by (simp add: sizes_def)
  moreover have "cell ?io (q - 1) = (if fid' = fid \<and> t' = t then add_cell docNum norm (Some (f, l)) (cell io (q - 1)) else cell io (q - 1))"
    if "dicts fid' t' = Some q" for fid' t' q
    using other [OF that] p(2) sz t that by (auto simp: cell_def add_cell_def sizes_def)
  ultimately show ?thesis by (intro exI [of _ ?io]) (simp add: count_up_def)
qed

lemma append_terms:
  assumes d: "dicts_ok dicts k"
  shows "sizes io k \<Longrightarrow> distinct (map fst es) \<Longrightarrow> fst ` set es \<subseteq> dom (dicts fid) \<Longrightarrow>
    \<exists>io'. append_terms (dicts fid) fid docNum norm es io = Some io' \<and> sizes io' k \<and>
      fieldStats io' = (fieldStats io)(fid := count_up 0 (freq_sum es) (fieldStats io fid)) \<and>
      (\<forall>fid' t' q. dicts fid' t' = Some q \<longrightarrow> cell io' (q - 1) =
        (if fid' = fid then add_cell docNum norm (map_of es t') (cell io (q - 1)) else cell io (q - 1)))"
proof (induction es arbitrary: io)
  case Nil
  then show ?case by (simp add: count_up_def)
next
  case (Cons e es)
  obtain t f l where e: "e = (t, f, l)" by (cases e)
  obtain p where p: "dicts fid t = Some p" using Cons.prems(3) by (auto simp: e)
  obtain io1 where io1: "append_term (dicts fid) fid docNum norm e io = Some io1" "sizes io1 k"
    "fieldStats io1 = (fieldStats io)(fid := count_up 0 f (fieldStats io fid))"
    "\<And>fid' t' q. dicts fid' t' = Some q \<Longrightarrow> cell io1 (q - 1) =
      (if fid' = fid \<and> t' = t then add_cell docNum norm (Some (f, l)) (cell io (q - 1)) else cell io (q - 1))"
    using append_term [OF d Cons.prems(1) p, of docNum norm f l] unfolding e by blast
  have "distinct (map fst es)" "fst ` set es \<subseteq> dom (dicts fid)" and new: "map_of es t = None"
    using Cons.prems(2,3) by (auto simp: e map_of_eq_None_iff)
  then obtain io2 where io2: "append_terms (dicts fid) fid docNum norm es io1 = Some io2" "sizes io2 k"
    "fieldStats io2 = (fieldStats io1)(fid := count_up 0 (freq_sum es) (fieldStats io1 fid))"
    "\<And>fid' t' q. dicts fid' t' = Some q \<Longrightarrow> cell io2 (q - 1) =
      (if fid' = fid then add_cell docNum norm (map_of es t') (cell io1 (q - 1)) else cell io1 (q - 1))"
    using Cons.IH [OF io1(2)] by blast
  have "cell io2 (q - 1) = (if fid' = fid then add_cell docNum norm (map_of (e # es) t') (cell io (q - 1)) else cell io (q - 1))"
    if "dicts fid' t' = Some q" for fid' t' q
    using io2(4) [OF that] io1(4) [OF that] new by (auto simp: e)
  moreover have "fieldStats io2 = (fieldStats io)(fid := count_up 0 (freq_sum (e # es)) (fieldStats io fid))"
    by (simp add: io2(3) io1(3) e count_up_def add.assoc)
  ultimately show ?case using io1(1) io2(1,2) by (intro exI [of _ io2]) (simp add: e)
qed

definition doc_cell :: "(nat \<Rightarrow> nat \<Rightarrow> 'n) \<Rightarrow> nat \<Rightarrow> nat \<Rightarrow> (('t, 'l) accumulator \<times> nat) list \<Rightarrow> nat \<Rightarrow> 't \<Rightarrow>
    nat set \<times> (nat \<times> 'n \<times> nat) list \<times> 'l list \<Rightarrow> nat set \<times> (nat \<times> 'n \<times> nat) list \<times> 'l list" where
  "doc_cell normCalc docNum fid accs fid' t c =
     (if fid \<le> fid' \<and> fid' < fid + length accs
      then add_cell docNum (normCalc fid' (snd (accs ! (fid' - fid)))) (map_of (acc_entries (fst (accs ! (fid' - fid)))) t) c else c)"

definition doc_stats :: "nat \<Rightarrow> (('t, 'l) accumulator \<times> nat) list \<Rightarrow> nat \<Rightarrow> nat \<times> nat \<Rightarrow> nat \<times> nat" where
  "doc_stats fid accs fid' x =
     (if fid \<le> fid' \<and> fid' < fid + length accs \<and> acc_entries (fst (accs ! (fid' - fid))) \<noteq> []
      then count_up 1 (freq_sum (acc_entries (fst (accs ! (fid' - fid))))) x else x)"

lemma later_index: "fid < fid' \<Longrightarrow> (x # xs) ! (fid' - fid) = xs ! (fid' - Suc fid)"
  by (simp add: nth_Cons')

lemma finish_fields:
  assumes d: "dicts_ok dicts k"
  shows "sizes io k \<Longrightarrow> (\<And>i. i < length accs \<Longrightarrow> \<exists>es. acc_ok es (fst (accs ! i)) \<and> fst ` set es \<subseteq> dom (dicts (fid + i))) \<Longrightarrow>
    \<exists>io'. finish_fields dicts normCalc docNum fid accs io = Some io' \<and> sizes io' k \<and>
      (\<forall>fid'. fieldStats io' fid' = doc_stats fid accs fid' (fieldStats io fid')) \<and>
      (\<forall>fid' t' q. dicts fid' t' = Some q \<longrightarrow> cell io' (q - 1) = doc_cell normCalc docNum fid accs fid' t' (cell io (q - 1)))"
proof (induction accs arbitrary: fid io)
  case Nil
  then show ?case by (auto simp: doc_cell_def doc_stats_def)
next
  case (Cons al accs)
  obtain a len where al: "al = (a, len)" by (cases al)
  obtain es where a: "acc_ok es a" "fst ` set es \<subseteq> dom (dicts fid)" using Cons.prems(2) [of 0] by (auto simp: al)
  have rest: "\<exists>es. acc_ok es (fst (accs ! i)) \<and> fst ` set es \<subseteq> dom (dicts (Suc fid + i))" if "i < length accs" for i
    using Cons.prems(2) [of "Suc i"] that by simp
  have "dom (map_of (acc_entries a)) = fst ` set es" using a(1) by (auto simp: acc_ok_def total_of_def dom_def)
  then have e: "distinct (map fst (acc_entries a))" "fst ` set (acc_entries a) \<subseteq> dom (dicts fid)"
    using a by (auto simp: acc_ok_def dom_map_of_conv_image_fst)
  let ?io = "if acc_is_empty a then io else io\<lparr>fieldStats := (fieldStats io)(fid := (fst (fieldStats io fid) + 1, snd (fieldStats io fid)))\<rparr>"
  have "sizes ?io k" using Cons.prems(1) by (simp add: sizes_def)
  from append_terms [OF d this e, of docNum "normCalc fid len"]
  obtain io1 where io1: "append_terms (dicts fid) fid docNum (normCalc fid len) (acc_entries a) ?io = Some io1" "sizes io1 k"
    "fieldStats io1 = (fieldStats ?io)(fid := count_up 0 (freq_sum (acc_entries a)) (fieldStats ?io fid))"
    "\<And>fid' t' q. dicts fid' t' = Some q \<Longrightarrow> cell io1 (q - 1) =
        (if fid' = fid then add_cell docNum (normCalc fid len) (map_of (acc_entries a) t') (cell ?io (q - 1)) else cell ?io (q - 1))"
    by blast
  obtain io2 where io2: "finish_fields dicts normCalc docNum (Suc fid) accs io1 = Some io2" "sizes io2 k"
    "\<And>fid'. fieldStats io2 fid' = doc_stats (Suc fid) accs fid' (fieldStats io1 fid')"
    "\<And>fid' t' q. dicts fid' t' = Some q \<Longrightarrow> cell io2 (q - 1) = doc_cell normCalc docNum (Suc fid) accs fid' t' (cell io1 (q - 1))"
    using Cons.IH [OF io1(2) rest] by blast
  have run: "finish_fields dicts normCalc docNum fid (al # accs) io = Some io2"
    using io1(1) io2(1) acc_is_empty [OF a(1)] by (auto simp: al split: if_splits)
  have stats: "fieldStats io2 fid' = doc_stats fid (al # accs) fid' (fieldStats io fid')" for fid'
    using io2(3) [of fid'] io1(3) acc_is_empty [OF a(1)]
    by (cases fid' fid rule: linorder_cases) (auto simp: doc_stats_def al count_up_def nth_Cons')
  have cells: "cell io2 (q - 1) = doc_cell normCalc docNum fid (al # accs) fid' t' (cell io (q - 1))" if "dicts fid' t' = Some q" for fid' t' q
  proof -
    have "cell ?io i = cell io i" for i by (simp add: cell_def)
    then show ?thesis using io2(4) [OF that] io1(4) [OF that]
      by (cases fid' fid rule: linorder_cases) (auto simp: doc_cell_def al nth_Cons')
  qed
  show ?case using run stats cells io2(2) by blast
qed


section \<open>All documents\<close>

definition doc_ok :: "(nat \<Rightarrow> 't \<rightharpoonup> nat) \<Rightarrow> nat \<Rightarrow> ('t, 'l) doc_field list \<Rightarrow> bool" where
  "doc_ok dicts n doc \<longleftrightarrow> (\<forall>f\<in>set doc. native_ok f \<and> df_id f < n) \<and> (\<forall>fid. fst ` set (field_triples fid doc) \<subseteq> dom (dicts fid))"

text \<open>What one document adds to a postings list and to the statistics of a field.\<close>

definition spec_cell :: "(nat \<Rightarrow> nat \<Rightarrow> 'n) \<Rightarrow> nat \<Rightarrow> ('t, 'l) doc_field list \<Rightarrow> nat \<Rightarrow> 't \<Rightarrow>
    nat set \<times> (nat \<times> 'n \<times> nat) list \<times> 'l list \<Rightarrow> nat set \<times> (nat \<times> 'n \<times> nat) list \<times> 'l list" where
  "spec_cell normCalc docNum doc fid t = add_cell docNum (normCalc fid (field_length fid doc)) (total_of (field_triples fid doc) t)"

definition spec_stats :: "('t, 'l) doc_field list \<Rightarrow> nat \<Rightarrow> nat \<times> nat \<Rightarrow> nat \<times> nat" where
  "spec_stats doc fid x = (if field_triples fid doc = [] then x else count_up 1 (freq_sum (field_triples fid doc)) x)"

lemma field_triples_beyond: "(\<And>f. f \<in> set doc \<Longrightarrow> df_id f < n) \<Longrightarrow> n \<le> fid \<Longrightarrow> field_triples fid doc = []"
  by (force simp: field_triples_def filter_empty_conv)

lemma process_document:
  fixes doc :: "('t, 'l) doc_field list"
  assumes d: "dicts_ok dicts k" and sz: "sizes io k" and doc: "doc_ok dicts n doc"
  shows "\<exists>io'. process_document dicts normCalc n docNum doc io = Some io' \<and> sizes io' k \<and>
    (\<forall>fid. fieldStats io' fid = spec_stats doc fid (fieldStats io fid)) \<and>
    (\<forall>fid t q. dicts fid t = Some q \<longrightarrow> cell io' (q - 1) = spec_cell normCalc docNum doc fid t (cell io (q - 1)))"
proof -
  have start: "accs_ok ([] :: ('t, 'l) doc_field list) (replicate n (empty_acc, 0))"
    by (simp add: empty_acc_ok accs_ok_def field_triples_def field_length_def)
  have "native_ok f \<and> df_id f < length (replicate n (empty_acc, 0))" if "f \<in> set doc" for f using doc that by (simp add: doc_ok_def)
  from gather_fields [OF start this] obtain accs where accs: "gather_fields doc (replicate n (empty_acc, 0)) = Some accs" "accs_ok doc accs" "length accs = n"
    by auto
  have ok: "acc_ok (field_triples i doc) (fst (accs ! i))" "snd (accs ! i) = field_length i doc" if "i < n" for i
    using accs(2,3) that by (simp_all add: accs_ok_def)
  have "\<exists>es. acc_ok es (fst (accs ! i)) \<and> fst ` set es \<subseteq> dom (dicts (0 + i))" if "i < length accs" for i
    using ok(1) [of i] that accs(3) doc by (intro exI [of _ "field_triples i doc"]) (simp add: doc_ok_def)
  from finish_fields [OF d sz this] obtain io' where io': "finish_fields dicts normCalc docNum 0 accs io = Some io'" "sizes io' k"
    "\<And>fid'. fieldStats io' fid' = doc_stats 0 accs fid' (fieldStats io fid')"
    "\<And>fid' t' q. dicts fid' t' = Some q \<Longrightarrow> cell io' (q - 1) = doc_cell normCalc docNum 0 accs fid' t' (cell io (q - 1))"
    by blast
  have beyond: "field_triples fid doc = []" if "\<not> fid < n" for fid
    using field_triples_beyond [of doc n fid] doc that by (simp add: doc_ok_def)
  have none: "acc_entries (fst (accs ! i)) = [] \<longleftrightarrow> field_triples i doc = []" if "i < n" for i
    using ok(1) [OF that] unfolding acc_ok_def by (metis map_of_eq_empty_iff total_of_empty)
  have "fieldStats io' fid = spec_stats doc fid (fieldStats io fid)" for fid
    using io'(3) [of fid] ok(1) [of fid] beyond [of fid] none [of fid] accs(3) by (cases "fid < n") (auto simp: doc_stats_def spec_stats_def acc_ok_def)
  moreover have "cell io' (q - 1) = spec_cell normCalc docNum doc fid t (cell io (q - 1))" if "dicts fid t = Some q" for fid t q
    using io'(4) [OF that] ok [of fid] beyond [of fid] accs(3) by (cases "fid < n") (auto simp: doc_cell_def spec_cell_def acc_ok_def)
  ultimately show ?thesis using accs(1) io'(1,2) by (simp add: process_document_def)
qed

fun spec_cells :: "(nat \<Rightarrow> nat \<Rightarrow> 'n) \<Rightarrow> nat \<Rightarrow> ('t, 'l) doc_field list list \<Rightarrow> nat \<Rightarrow> 't \<Rightarrow>
    nat set \<times> (nat \<times> 'n \<times> nat) list \<times> 'l list \<Rightarrow> nat set \<times> (nat \<times> 'n \<times> nat) list \<times> 'l list" where
  "spec_cells normCalc docNum [] fid t c = c"
| "spec_cells normCalc docNum (doc # docs) fid t c = spec_cells normCalc (Suc docNum) docs fid t (spec_cell normCalc docNum doc fid t c)"

lemma process_documents:
  assumes d: "dicts_ok dicts k"
  shows "sizes io k \<Longrightarrow> (\<And>doc. doc \<in> set docs \<Longrightarrow> doc_ok dicts n doc) \<Longrightarrow>
    \<exists>io'. process_documents dicts normCalc n docNum docs io = Some io' \<and> sizes io' k \<and>
      (\<forall>fid. fieldStats io' fid = fold (\<lambda>doc. spec_stats doc fid) docs (fieldStats io fid)) \<and>
      (\<forall>fid t q. dicts fid t = Some q \<longrightarrow> cell io' (q - 1) = spec_cells normCalc docNum docs fid t (cell io (q - 1)))"
proof (induction docs arbitrary: docNum io)
  case (Cons doc docs)
  have "doc_ok dicts n doc" using Cons.prems(2) by simp
  from process_document [OF d Cons.prems(1) this]
  obtain io1 where io1: "process_document dicts normCalc n docNum doc io = Some io1" "sizes io1 k"
    "\<And>fid. fieldStats io1 fid = spec_stats doc fid (fieldStats io fid)"
    "\<And>fid t q. dicts fid t = Some q \<Longrightarrow> cell io1 (q - 1) = spec_cell normCalc docNum doc fid t (cell io (q - 1))" by blast
  have "\<And>doc. doc \<in> set docs \<Longrightarrow> doc_ok dicts n doc" using Cons.prems(2) by simp
  then obtain io2 where "process_documents dicts normCalc n (Suc docNum) docs io1 = Some io2" "sizes io2 k"
    "\<And>fid. fieldStats io2 fid = fold (\<lambda>doc. spec_stats doc fid) docs (fieldStats io1 fid)"
    "\<And>fid t q. dicts fid t = Some q \<Longrightarrow> cell io2 (q - 1) = spec_cells normCalc (Suc docNum) docs fid t (cell io1 (q - 1))"
    using Cons.IH [OF io1(2), of "Suc docNum"] by blast
  then show ?case using io1 by (intro exI [of _ io2]) simp
qed simp

text \<open>The whole of a postings list in closed form.\<close>

lemma spec_cells:
  "spec_cells normCalc docNum docs fid t c =
    (fst c \<union> {docNum + d | d. d < length docs \<and> t \<in> fst ` set (field_triples fid (docs ! d))},
     fst (snd c) @ concat (map (\<lambda>doc. case total_of (field_triples fid doc) t of None \<Rightarrow> []
       | Some (f, l) \<Rightarrow> [(f, normCalc fid (field_length fid doc), length l)]) docs),
     snd (snd c) @ concat (map (\<lambda>doc. case total_of (field_triples fid doc) t of None \<Rightarrow> [] | Some (f, l) \<Rightarrow> l) docs))"
proof (induction docs arbitrary: docNum c)
  case (Cons doc docs)
  have set: "{docNum + d | d. d < length (doc # docs) \<and> t \<in> fst ` set (field_triples fid ((doc # docs) ! d))} =
      (if t \<in> fst ` set (field_triples fid doc) then {docNum} else {}) \<union>
      {Suc docNum + d | d. d < length docs \<and> t \<in> fst ` set (field_triples fid (docs ! d))}" (is "?L = ?R")
  proof (intro set_eqI iffI)
    fix x assume "x \<in> ?L"
    then obtain d where "x = docNum + d" "d < length (doc # docs)" "t \<in> fst ` set (field_triples fid ((doc # docs) ! d))" by blast
    then show "x \<in> ?R" by (cases d) auto
  next
    fix x assume "x \<in> ?R"
    then consider "x = docNum" "t \<in> fst ` set (field_triples fid doc)"
      | d where "x = Suc docNum + d" "d < length docs" "t \<in> fst ` set (field_triples fid (docs ! d))" by (auto split: if_splits)
    then show "x \<in> ?L"
    proof cases
      case 1
      then show ?thesis by (intro CollectI exI [of _ 0]) simp
    next
      case (2 d)
      then show ?thesis by (intro CollectI exI [of _ "Suc d"]) simp
    qed
  qed
  show ?case unfolding set spec_cells.simps Cons.IH
    by (auto simp: spec_cell_def add_cell_def total_of_def)
qed simp


section \<open>The room of a postings list\<close>

definition doc_visits :: "('t, 'l) doc_field list \<Rightarrow> (nat \<times> ('t, 'l) term_entry) list" where
  "doc_visits doc = concat (map (\<lambda>f. map (Pair (df_id f)) (df_terms f)) doc)"

definition visits_of :: "nat \<Rightarrow> 't \<Rightarrow> (nat \<times> ('t, 'l) term_entry) list \<Rightarrow> (nat \<times> ('t, 'l) term_entry) list" where
  "visits_of fid t vs = filter (\<lambda>v. fst v = fid \<and> te_term (snd v) = t) vs"

abbreviation visit :: "nat \<times> ('t, 'l) term_entry \<Rightarrow> 't term_room \<Rightarrow> 't term_room" where
  "visit v \<equiv> visit_term (fst v) (snd v)"

lemma visit_field: "visit_field f r = fold visit (map (Pair (df_id f)) (df_terms f)) r"
  by (simp add: visit_field_def fold_map o_def)

lemma visit_doc: "fold visit_field doc r = fold visit (doc_visits doc) r"
  by (induction doc arbitrary: r) (simp_all add: doc_visits_def visit_field)

lemma realloc: "realloc docs = fold visit (concat (map doc_visits docs)) \<lparr>Dicts = (\<lambda>_. Map.empty), numTermsPerPostingsList = [], numLocsPerPostingsList = []\<rparr>"
proof -
  have "fold (\<lambda>doc. fold visit_field doc) docs r = fold visit (concat (map doc_visits docs)) r" for r :: "'a term_room"
    by (induction docs arbitrary: r) (simp_all add: visit_doc)
  then show ?thesis by (simp add: realloc_def)
qed

definition room_ok :: "(nat \<times> ('t, 'l) term_entry) list \<Rightarrow> 't term_room \<Rightarrow> bool" where
  "room_ok vs r \<longleftrightarrow> length (numLocsPerPostingsList r) = length (numTermsPerPostingsList r) \<and>
     dicts_ok (Dicts r) (length (numTermsPerPostingsList r)) \<and>
     (\<forall>fid t. Dicts r fid t = None \<longleftrightarrow> visits_of fid t vs = []) \<and>
     (\<forall>fid t p. Dicts r fid t = Some p \<longrightarrow> numTermsPerPostingsList r ! (p - 1) = length (visits_of fid t vs) \<and>
        numLocsPerPostingsList r ! (p - 1) = (\<Sum>v\<leftarrow>visits_of fid t vs. length (te_locs (snd v))))"

lemma room_okD:
  assumes "room_ok vs r"
  shows "dicts_ok (Dicts r) (length (numTermsPerPostingsList r))" "Dicts r fid t = None \<longleftrightarrow> visits_of fid t vs = []"
    "Dicts r fid t = Some p \<Longrightarrow> numTermsPerPostingsList r ! (p - 1) = length (visits_of fid t vs)"
    "Dicts r fid t = Some p \<Longrightarrow> numLocsPerPostingsList r ! (p - 1) = (\<Sum>v\<leftarrow>visits_of fid t vs. length (te_locs (snd v)))"
  using assms by (simp_all add: room_ok_def)

text \<open>A term that is new gets the next list, one that is not keeps its own.\<close>

definition with_term :: "nat \<Rightarrow> 't \<Rightarrow> 't term_room \<Rightarrow> 't term_room" where
  "with_term fid t r = (case Dicts r fid t of
       Some p \<Rightarrow> r
     | None \<Rightarrow> r\<lparr>Dicts := (Dicts r)(fid := (Dicts r fid)(t \<mapsto> Suc (length (numTermsPerPostingsList r)))),
         numTermsPerPostingsList := numTermsPerPostingsList r @ [0], numLocsPerPostingsList := numLocsPerPostingsList r @ [0]\<rparr>)"

definition counts_ok :: "(nat \<times> ('t, 'l) term_entry) list \<Rightarrow> 't term_room \<Rightarrow> bool" where
  "counts_ok vs r \<longleftrightarrow> length (numLocsPerPostingsList r) = length (numTermsPerPostingsList r) \<and>
     dicts_ok (Dicts r) (length (numTermsPerPostingsList r)) \<and>
     (\<forall>fid t p. Dicts r fid t = Some p \<longrightarrow> numTermsPerPostingsList r ! (p - 1) = length (visits_of fid t vs) \<and>
        numLocsPerPostingsList r ! (p - 1) = (\<Sum>v\<leftarrow>visits_of fid t vs. length (te_locs (snd v))))"

lemma dicts_ok_bound: "dicts_ok d k \<Longrightarrow> d fid t = Some p \<Longrightarrow> 0 < p \<and> p \<le> k"
  by (simp add: dicts_ok_def)

lemma dicts_ok_inj: "dicts_ok d k \<Longrightarrow> d fid t = Some p \<Longrightarrow> d fid' t' = Some p \<Longrightarrow> fid = fid' \<and> t = t'"
  unfolding dicts_ok_def by blast

lemma with_term:
  assumes r: "room_ok vs r"
  shows "counts_ok vs (with_term fid t r)" "\<exists>p. Dicts (with_term fid t r) fid t = Some p"
    "\<And>fid' t'. Dicts (with_term fid t r) fid' t' = None \<longleftrightarrow> \<not> (fid' = fid \<and> t' = t) \<and> visits_of fid' t' vs = []"
proof -
  have d: "dicts_ok (Dicts r) (length (numTermsPerPostingsList r))" using r by (simp add: room_ok_def)
  let ?k = "length (numTermsPerPostingsList r)"
  show "counts_ok vs (with_term fid t r)"
  proof (cases "Dicts r fid t")
    case None
    have e: "visits_of fid t vs = []" using None r by (simp add: room_ok_def)
    let ?r = "with_term fid t r"
    have D: "Dicts ?r fid' t' = (if fid' = fid \<and> t' = t then Some (Suc ?k) else Dicts r fid' t')" for fid' t'
      by (simp add: with_term_def None)
    have "dicts_ok (Dicts ?r) (Suc ?k)"
      unfolding dicts_ok_def D using dicts_ok_bound [OF d] dicts_ok_inj [OF d] by (fastforce split: if_splits)
    moreover have "numTermsPerPostingsList ?r ! (p - 1) = length (visits_of fid' t' vs) \<and>
        numLocsPerPostingsList ?r ! (p - 1) = (\<Sum>v\<leftarrow>visits_of fid' t' vs. length (te_locs (snd v)))" if p: "Dicts ?r fid' t' = Some p" for fid' t' p
    proof (cases "fid' = fid \<and> t' = t")
      case True
      then have "p = Suc ?k" using p by (simp add: D)
      then show ?thesis using True e r by (simp add: with_term_def None nth_append room_ok_def)
    next
      case False
      then have p': "Dicts r fid' t' = Some p" using p by (auto simp: D split: if_splits)
      then have "p - 1 < ?k" using dicts_ok_bound [OF d p'] by linarith
      then show ?thesis using p' r by (simp add: with_term_def None nth_append room_ok_def)
    qed
    moreover have "length (numTermsPerPostingsList ?r) = Suc ?k" "length (numLocsPerPostingsList ?r) = Suc ?k"
      using r by (simp_all add: with_term_def None room_ok_def)
    ultimately show ?thesis unfolding counts_ok_def by metis
  next
    case (Some p)
    then show ?thesis using r by (simp add: with_term_def counts_ok_def room_ok_def)
  qed
  show "\<exists>p. Dicts (with_term fid t r) fid t = Some p" by (auto simp: with_term_def split: option.split)
  show "Dicts (with_term fid t r) fid' t' = None \<longleftrightarrow> \<not> (fid' = fid \<and> t' = t) \<and> visits_of fid' t' vs = []" for fid' t'
  proof -
    have dom: "visits_of fid' t' vs = [] \<longleftrightarrow> Dicts r fid' t' = None" for fid' t' using r by (simp add: room_ok_def)
    show ?thesis unfolding dom by (auto simp: with_term_def split: option.split)
  qed
qed

lemma visit_ok:
  assumes r: "room_ok vs r"
  shows "room_ok (vs @ [v]) (visit v r)"
proof -
  obtain fid e where v: "v = (fid, e)" by (cases v)
  let ?w = "with_term fid (te_term e) r"
  note w = with_term [OF r, of fid "te_term e"]
  obtain p where p: "Dicts ?w fid (te_term e) = Some p" using w(2) by blast
  have d: "dicts_ok (Dicts ?w) (length (numTermsPerPostingsList ?w))" using w(1) by (simp add: counts_ok_def)
  have "0 < p \<and> p \<le> length (numTermsPerPostingsList ?w)" by (rule dicts_ok_bound [OF d p])
  then have p1: "p - 1 < length (numTermsPerPostingsList ?w)" by linarith
  have eq: "visit v r = ?w\<lparr>numTermsPerPostingsList := (numTermsPerPostingsList ?w)[p - 1 := numTermsPerPostingsList ?w ! (p - 1) + 1],
      numLocsPerPostingsList := (numLocsPerPostingsList ?w)[p - 1 := numLocsPerPostingsList ?w ! (p - 1) + length (te_locs e)]\<rparr>"
    using p by (simp add: visit_term_def v with_term_def Let_def)
  have vis: "visits_of fid' t' (vs @ [v]) = visits_of fid' t' vs @ (if fid' = fid \<and> t' = te_term e then [v] else [])" for fid' t'
    by (auto simp: visits_of_def v)
  have c: "numTermsPerPostingsList ?w ! (q - 1) = length (visits_of fid' t' vs)"
    "numLocsPerPostingsList ?w ! (q - 1) = (\<Sum>v\<leftarrow>visits_of fid' t' vs. length (te_locs (snd v)))" if "Dicts ?w fid' t' = Some q" for fid' t' q
    using w(1) that by (simp_all add: counts_ok_def)
  have lens: "length (numLocsPerPostingsList ?w) = length (numTermsPerPostingsList ?w)" using w(1) by (simp add: counts_ok_def)
  have "numTermsPerPostingsList (visit v r) ! (q - 1) = length (visits_of fid' t' (vs @ [v])) \<and>
      numLocsPerPostingsList (visit v r) ! (q - 1) = (\<Sum>v\<leftarrow>visits_of fid' t' (vs @ [v]). length (te_locs (snd v)))"
    if q: "Dicts (visit v r) fid' t' = Some q" for fid' t' q
  proof -
    have q': "Dicts ?w fid' t' = Some q" using q by (simp add: eq)
    show ?thesis
    proof (cases "fid' = fid \<and> t' = te_term e")
      case True
      then have "q = p" using p q' by simp
      then show ?thesis using True p1 c [OF q'] lens unfolding vis eq by (simp add: v)
    next
      case False
      have "q - 1 \<noteq> p - 1"
        using dicts_ok_bound [OF d q'] dicts_ok_bound [OF d p] dicts_ok_inj [OF d q', of fid "te_term e"] False p by (metis One_nat_def Suc_pred)
      moreover have "visits_of fid' t' (vs @ [v]) = visits_of fid' t' vs" unfolding vis using False by auto
      ultimately show ?thesis using c [OF q'] unfolding eq by simp
    qed
  qed
  moreover have "Dicts (visit v r) fid' t' = None \<longleftrightarrow> visits_of fid' t' (vs @ [v]) = []" for fid' t'
    unfolding vis using w(3) [of fid' t'] by (simp add: eq)
  moreover have "length (numLocsPerPostingsList (visit v r)) = length (numTermsPerPostingsList (visit v r))"
    "dicts_ok (Dicts (visit v r)) (length (numTermsPerPostingsList (visit v r)))"
    using d lens by (simp_all add: eq)
  ultimately show ?thesis unfolding room_ok_def by blast
qed

lemma room_ok_realloc: "room_ok (concat (map doc_visits docs)) (realloc docs)"
proof -
  have step: "room_ok (vs @ ws) (fold visit ws r)" if "room_ok vs r" for vs ws :: "(nat \<times> ('a, 'b) term_entry) list" and r
    using that
  proof (induction ws arbitrary: vs r)
    case (Cons w ws)
    then show ?case using Cons.IH [OF visit_ok [OF Cons.prems, of w]] by simp
  qed simp
  have "room_ok ([] :: (nat \<times> ('a, 'b) term_entry) list) \<lparr>Dicts = (\<lambda>_. Map.empty), numTermsPerPostingsList = [], numLocsPerPostingsList = []\<rparr>"
    by (simp add: room_ok_def dicts_ok_def visits_of_def)
  from step [OF this, of "concat (map doc_visits docs)"] show ?thesis unfolding realloc by simp
qed


section \<open>The index of a segment\<close>

lemma visits_triples: "map (\<lambda>v. entry_triple (snd v)) (visits_of fid t (doc_visits doc)) = filter (\<lambda>e. fst e = t) (field_triples fid doc)"
  by (induction doc) (auto simp: doc_visits_def visits_of_def field_triples_def filter_map o_def entry_triple_def)

lemma visits_of_append: "visits_of fid t (vs @ ws) = visits_of fid t vs @ visits_of fid t ws"
  by (simp add: visits_of_def)

lemma visits_empty:
  fixes docs :: "('t, 'l) doc_field list list"
  shows "visits_of fid t (concat (map doc_visits docs)) = [] \<longleftrightarrow> (\<forall>doc\<in>set docs. t \<notin> fst ` set (field_triples fid doc))"
proof -
  have "visits_of fid t (doc_visits doc) = [] \<longleftrightarrow> t \<notin> fst ` set (field_triples fid doc)" for doc :: "('t, 'l) doc_field list"
    using arg_cong [OF visits_triples [of fid t doc], of "\<lambda>xs. xs = []"] by (auto simp: filter_empty_conv)
  then show ?thesis by (induction docs) (auto simp: visits_of_append visits_of_def)
qed

definition postings_of :: "nat \<Rightarrow> 't \<Rightarrow> ('t, 'l) doc_field list list \<Rightarrow> nat set" where
  "postings_of fid t docs = {d. d < length docs \<and> t \<in> fst ` set (field_triples fid (docs ! d))}"

definition freq_norms_of :: "(nat \<Rightarrow> nat \<Rightarrow> 'n) \<Rightarrow> nat \<Rightarrow> 't \<Rightarrow> ('t, 'l) doc_field list list \<Rightarrow> (nat \<times> 'n \<times> nat) list" where
  "freq_norms_of normCalc fid t docs = concat (map (\<lambda>doc. case total_of (field_triples fid doc) t of None \<Rightarrow> []
     | Some (f, l) \<Rightarrow> [(f, normCalc fid (field_length fid doc), length l)]) docs)"

definition locs_of :: "nat \<Rightarrow> 't \<Rightarrow> ('t, 'l) doc_field list list \<Rightarrow> 'l list" where
  "locs_of fid t docs = concat (map (\<lambda>doc. case total_of (field_triples fid doc) t of None \<Rightarrow> [] | Some (f, l) \<Rightarrow> l) docs)"

definition stats_of :: "nat \<Rightarrow> ('t, 'l) doc_field list list \<Rightarrow> nat \<times> nat" where
  "stats_of fid docs = (length (filter (\<lambda>doc. field_triples fid doc \<noteq> []) docs), \<Sum>doc\<leftarrow>docs. freq_sum (field_triples fid doc))"

lemma stats_fold: "fold (\<lambda>doc. spec_stats doc fid) docs x = count_up (fst (stats_of fid docs)) (snd (stats_of fid docs)) x"
  by (induction docs arbitrary: x) (auto simp: stats_of_def spec_stats_def count_up_def)

text \<open>The two passes agree: no postings list outgrows the room the first pass reserves for it.\<close>

lemma freq_norms_room: "length (freq_norms_of normCalc fid t docs) \<le> length (visits_of fid t (concat (map doc_visits docs)))"
proof (induction docs)
  case (Cons doc docs)
  have "t \<in> fst ` set (field_triples fid doc) \<Longrightarrow> filter (\<lambda>e. fst e = t) (field_triples fid doc) \<noteq> []" by (auto simp: filter_empty_conv)
  then have "length (case total_of (field_triples fid doc) t of None \<Rightarrow> [] | Some (f, l) \<Rightarrow> [(f, normCalc fid (field_length fid doc), length l)])
      \<le> length (visits_of fid t (doc_visits doc))"
    using arg_cong [OF visits_triples [of fid t doc], of length] by (auto simp: total_of_def Suc_le_eq)
  then show ?case using Cons by (simp add: freq_norms_of_def visits_of_append)
qed (simp add: freq_norms_of_def)

lemma locs_room: "length (locs_of fid t docs) = (\<Sum>v\<leftarrow>visits_of fid t (concat (map doc_visits docs)). length (te_locs (snd v)))"
proof (induction docs)
  case (Cons doc docs)
  have "(\<Sum>v\<leftarrow>visits_of fid t (doc_visits doc). length (te_locs (snd v))) =
      (\<Sum>e\<leftarrow>map (\<lambda>v. entry_triple (snd v)) (visits_of fid t (doc_visits doc)). length (snd (snd e)))"
    by (simp add: o_def entry_triple_def)
  also have "\<dots> = length (case total_of (field_triples fid doc) t of None \<Rightarrow> [] | Some (f, l) \<Rightarrow> l)"
  proof (cases "t \<in> fst ` set (field_triples fid doc)")
    case False
    then have "filter (\<lambda>e. fst e = t) (field_triples fid doc) = []" by (auto simp: filter_empty_conv)
    then show ?thesis using False by (simp add: visits_triples total_of_def)
  qed (simp add: visits_triples total_of_def length_concat o_def)
  finally show ?case using Cons by (simp add: locs_of_def visits_of_append)
qed (simp add: locs_of_def visits_of_def)

text \<open>Documents as Go has them: a map has a term once, and the fields are those of the table.\<close>

definition go_documents :: "nat \<Rightarrow> ('t, 'l) doc_field list list \<Rightarrow> bool" where
  "go_documents n docs \<longleftrightarrow> (\<forall>doc\<in>set docs. \<forall>f\<in>set doc. native_ok f \<and> df_id f < n)"

lemma build_inverted:
  fixes docs :: "('t, 'l) doc_field list list" and normCalc :: "nat \<Rightarrow> nat \<Rightarrow> 'n"
  assumes docs: "go_documents n docs"
  obtains io where "build_inverted normCalc n docs = Some io"
    "\<And>fid. fieldStats io fid = stats_of fid docs"
    "\<And>fid t. Dicts (realloc docs) fid t = None \<longleftrightarrow> postings_of fid t docs = {}"
    "\<And>fid t p. Dicts (realloc docs) fid t = Some p \<Longrightarrow> Postings io ! (p - 1) = postings_of fid t docs"
    "\<And>fid t p. Dicts (realloc docs) fid t = Some p \<Longrightarrow> FreqNorms io ! (p - 1) = freq_norms_of normCalc fid t docs"
    "\<And>fid t p. Dicts (realloc docs) fid t = Some p \<Longrightarrow> Locs io ! (p - 1) = locs_of fid t docs"
    "\<And>fid t p. Dicts (realloc docs) fid t = Some p \<Longrightarrow> length (FreqNorms io ! (p - 1)) \<le> numTermsPerPostingsList (realloc docs) ! (p - 1)"
    "\<And>fid t p. Dicts (realloc docs) fid t = Some p \<Longrightarrow> length (Locs io ! (p - 1)) = numLocsPerPostingsList (realloc docs) ! (p - 1)"
proof -
  let ?r = "realloc docs"
  let ?k = "length (numTermsPerPostingsList ?r)"
  let ?io = "\<lparr>Postings = replicate ?k {}, FreqNorms = replicate ?k [], Locs = replicate ?k [], fieldStats = (\<lambda>_. (0, 0))\<rparr> :: ('t, 'l, 'n) inverted"
  have d: "dicts_ok (Dicts ?r) ?k" and none: "Dicts ?r fid t = None \<longleftrightarrow> (\<forall>doc\<in>set docs. t \<notin> fst ` set (field_triples fid doc))" for fid t
    using room_okD [OF room_ok_realloc [of docs]] by (simp_all only: visits_empty)
  have docs': "doc_ok (Dicts ?r) n doc" if "doc \<in> set docs" for doc
  proof -
    have "fst ` set (field_triples fid doc) \<subseteq> dom (Dicts ?r fid)" for fid
      using none that unfolding dom_def by blast
    then show ?thesis using docs that by (simp add: doc_ok_def go_documents_def)
  qed
  have sz: "sizes ?io ?k" by (simp add: sizes_def)
  obtain io where io: "process_documents (Dicts ?r) normCalc n 0 docs ?io = Some io"
    "\<And>fid. fieldStats io fid = fold (\<lambda>doc. spec_stats doc fid) docs (0, 0)"
    "\<And>fid t q. Dicts ?r fid t = Some q \<Longrightarrow> cell io (q - 1) = spec_cells normCalc 0 docs fid t (cell ?io (q - 1))"
    using process_documents [OF d sz, of docs n normCalc 0] docs' by auto
  have c: "cell io (p - 1) = (postings_of fid t docs, freq_norms_of normCalc fid t docs, locs_of fid t docs)" if p: "Dicts ?r fid t = Some p" for fid t p
  proof -
    have "p - 1 < ?k" using dicts_ok_bound [OF d p] by linarith
    then have "cell ?io (p - 1) = ({}, [], [])" by (simp add: cell_def)
    then show ?thesis using io(3) [OF p] by (simp add: spec_cells postings_of_def freq_norms_of_def locs_of_def)
  qed
  have n: "numTermsPerPostingsList ?r ! (p - 1) = length (visits_of fid t (concat (map doc_visits docs)))"
    "numLocsPerPostingsList ?r ! (p - 1) = (\<Sum>v\<leftarrow>visits_of fid t (concat (map doc_visits docs)). length (te_locs (snd v)))"
    if "Dicts ?r fid t = Some p" for fid t p
    using room_okD(3,4) [OF room_ok_realloc that] .
  show thesis
  proof (rule that [of io])
    show "build_inverted normCalc n docs = Some io" using io(1) by (simp add: build_inverted_def Let_def)
    show "fieldStats io fid = stats_of fid docs" for fid unfolding io(2) stats_fold by (simp add: count_up_def)
    show "Dicts ?r fid t = None \<longleftrightarrow> postings_of fid t docs = {}" for fid t
      unfolding none postings_of_def all_set_conv_all_nth by blast
    fix fid t p assume p: "Dicts ?r fid t = Some p"
    show "Postings io ! (p - 1) = postings_of fid t docs" and f: "FreqNorms io ! (p - 1) = freq_norms_of normCalc fid t docs"
      and l: "Locs io ! (p - 1) = locs_of fid t docs" using c [OF p] by (simp_all add: cell_def)
    show "length (FreqNorms io ! (p - 1)) \<le> numTermsPerPostingsList ?r ! (p - 1)" unfolding f n(1) [OF p] by (rule freq_norms_room)
    show "length (Locs io ! (p - 1)) = numLocsPerPostingsList ?r ! (p - 1)" unfolding l n(2) [OF p] by (rule locs_room)
  qed
qed


text \<open>
  The postings of a term of a field in a segment: what the iterator of its bitmap gives. Lists of
  fields that are no Go document (a map with a term twice, a field beyond the table) are refused.
\<close>

definition bitmap_numbers :: "nat \<Rightarrow> nat set \<Rightarrow> nat list" where
  "bitmap_numbers n s = filter (\<lambda>d. d \<in> s) [0..<n]"

definition inverted_postings :: "nat \<Rightarrow> ('t, 'l) doc_field list segment_wrapper \<Rightarrow> nat \<times> 't \<Rightarrow> (string, nat list) result" where
  "inverted_postings n s ft = (case ft of (fid, t) \<Rightarrow>
     if \<not> go_documents n (seg_docs s) then Inl ''invalid''
     else case build_inverted (\<lambda>_ _. ()) n (seg_docs s) of
       None \<Rightarrow> Inl ''panic''
     | Some io \<Rightarrow>
         (case Dicts (realloc (seg_docs s)) fid t of
            None \<Rightarrow> Inr []
          | Some p \<Rightarrow> Inr (bitmap_numbers (seg_count s) (Postings io ! (p - 1)))))"

definition doc_has_term :: "('t, 'l) doc_field list \<Rightarrow> nat \<times> 't \<Rightarrow> bool" where
  "doc_has_term doc ft = (\<exists>f\<in>set doc. df_id f = fst ft \<and> (\<exists>e\<in>set (df_terms f). te_term e = snd ft))"

lemma doc_has_term: "doc_has_term doc (fid, t) \<longleftrightarrow> t \<in> fst ` set (field_triples fid doc)"
  by (auto simp: doc_has_term_def field_triples_def entry_triple_def image_iff)

lemma inverted_postings:
  assumes "go_documents n (seg_docs s)"
  shows "\<exists>ns. inverted_postings n s (fid, t) = Inr ns \<and> set ns = postings_of fid t (seg_docs s)"
proof -
  obtain io where
    io: "build_inverted (\<lambda>_ _. ()) n (seg_docs s) = Some io" "Dicts (realloc (seg_docs s)) fid t = None \<longleftrightarrow> postings_of fid t (seg_docs s) = {}"
    "\<And>p. Dicts (realloc (seg_docs s)) fid t = Some p \<Longrightarrow> Postings io ! (p - 1) = postings_of fid t (seg_docs s)"
    using build_inverted [OF assms, of "\<lambda>_ _. ()"] by metis
  have sub: "postings_of fid t (seg_docs s) \<subseteq> {0..<seg_count s}" by (auto simp: postings_of_def seg_count_def)
  show ?thesis
  proof (cases "Dicts (realloc (seg_docs s)) fid t")
    case None
    then show ?thesis using assms io(1,2) by (simp add: inverted_postings_def)
  next
    case (Some p)
    then show ?thesis using assms io(1) io(3) [OF Some] sub by (auto simp: inverted_postings_def bitmap_numbers_def)
  qed
qed

interpretation inverted: term_index "inverted_postings n :: ('t, 'l) doc_field list segment_wrapper \<Rightarrow> nat \<times> 't \<Rightarrow> (string, nat list) result" doc_has_term for n
proof
  fix s :: "('t, 'l) doc_field list segment_wrapper" and ft ns
  assume i: "inverted_postings n s ft = Inr ns"
  obtain fid t where ft: "ft = (fid, t)" by fastforce
  have "go_documents n (seg_docs s)" using i by (auto simp: inverted_postings_def ft split: if_splits)
  then have "set ns = postings_of fid t (seg_docs s)" using inverted_postings [of n s fid t] i by (auto simp: ft)
  then show "set ns = matching_docs doc_has_term [ft] s"
    by (auto simp: matching_docs_def postings_of_def ft doc_has_term seg_count_def)
qed


text \<open>Looking up terms never fails in documents as Go has them.\<close>

lemma inverted_docs_matching:
  fixes s :: "('t, 'l) doc_field list segment_wrapper"
  assumes g: "go_documents n (seg_docs s)" and fit: "doc_numbers_fit s"
  shows "docs_matching_terms (inverted_postings n) s ts = Inr (matching_docs doc_has_term ts s)"
proof -
  have "\<exists>r. docs_matching_loop (inverted_postings n s) ts rv = Inr r" for rv
  proof (induction ts arbitrary: rv)
    case (Cons ft ts)
    obtain ns where "inverted_postings n s ft = Inr ns" using inverted_postings [OF g, of "fst ft" "snd ft"] by auto
    then show ?case using Cons by simp
  qed simp
  then obtain r where "docs_matching_terms (inverted_postings n) s ts = Inr r" by (auto simp: docs_matching_terms_def)
  with inverted.docs_matching [OF fit this] show ?thesis by simp
qed

end
