(* ===== verification/Index_Properties.thy ===== *)
theory Index_Properties
  imports Index_System Stored_Merge Inverted_Build
begin

text \<open>
  The properties of the index as a whole, on the model's own parts: terms are found in the inverted
  index a segment builds (theory Inverted_Build), merges renumber as the text segments do
  (theory Stored_Merge).
\<close>

type_synonym ('t, 'l) document = "('t, 'l) doc_field list"

interpretation stored_index: index_parts "inverted_postings n :: ('t, 'l) document segment_wrapper \<Rightarrow> nat \<times> 't \<Rightarrow> (string, nat list) result"
    doc_has_term "merge_stored :: (string, ('t, 'l) document) merger" for n
  by unfold_locales

abbreviation index_runs ::
    "nat \<Rightarrow> (('t, 'l) document, nat \<times> 't) index_state \<Rightarrow> ((nat \<times> 't) list \<times> ('t, 'l) document list) list \<Rightarrow>
     (('t, 'l) document, nat \<times> 't) index_state \<Rightarrow> bool" where
  "index_runs n \<equiv> index_run (inverted_postings n) merge_stored"

definition opened_on :: "'d snapshot \<Rightarrow> nat \<Rightarrow> nat \<Rightarrow> bool" where
  "opened_on snap e k \<longleftrightarrow> root_ok snap \<and> epoch snap < e \<and> (\<forall>ss\<in>set (segments snap). ss_id ss \<le> k)"

lemma opened_index_ok: "opened_on snap e k \<Longrightarrow> index_ok h (opened snap e k)"
  by (rule opened_ok) (auto simp: opened_on_def)

lemma index_runs_ok:
  assumes "opened_on snap e k" "index_runs n (opened snap e k) trace st"
  shows "index_ok doc_has_term st" "store_root st = fold (batch_effect doc_has_term) trace (store_of (segments snap))"
  using stored_index.index_run_ok [OF assms(2) opened_index_ok [OF assms(1)]]
  by (simp_all add: store_root_def opened_def)

section \<open>A run\<close>

text \<open>A run: a document is added, a memory merge begins, the document is replaced, and the merge is still to be introduced.\<close>

definition ex_doc :: "nat list \<Rightarrow> (nat, nat) document" where
  "ex_doc ts = [\<lparr>df_id = 0, df_length = length ts, df_native = False, df_terms = map (\<lambda>t. \<lparr>te_term = t, te_freq = 1, te_locs = []\<rparr>) ts\<rparr>]"

definition ex_segment :: "nat list \<Rightarrow> (nat, nat) document segment_wrapper" where
  "ex_segment ts = \<lparr>seg_docs = [ex_doc ts], Persisted = False\<rparr>"

definition ex_snapshot :: "nat \<Rightarrow> nat list \<Rightarrow> (nat, nat) document snapshot" where
  "ex_snapshot i ts = \<lparr>epoch = i, segments = [\<lparr>ss_id = i, ss_segment = ex_segment ts, ss_deleted = None\<rparr>], offsets = [0]\<rparr>"

definition ex_empty :: "(nat, nat) document snapshot" where
  "ex_empty = \<lparr>epoch = 0, segments = [], offsets = []\<rparr>"

definition ex_merge :: "(nat, nat) document segment_merge" where
  "ex_merge = \<lparr>sm_id = 3, old = [(1, Some \<lparr>ss_id = 1, ss_segment = ex_segment [1], ss_deleted = None\<rparr>)],
     oldNewDocNums = [1 \<mapsto> [0]], new = Some \<lparr>seg_docs = [ex_doc [1]], Persisted = True\<rparr>\<rparr>"

definition ex_state :: "((nat, nat) document, nat \<times> nat) index_state" where
  "ex_state = \<lparr>root = ex_snapshot 2 [1, 2], history = [ex_snapshot 2 [1, 2], ex_snapshot 1 [1], ex_empty], prepared = [], merges = [ex_merge],
     persists = [], nextSnapshotEpoch = 3, nextSegmentID = 3\<rparr>"

lemma ex_match: "docs_matching_terms (inverted_postings 1) (ex_segment [1]) [(0, 1)] = Inr {0}"
proof -
  have "go_documents 1 (seg_docs (ex_segment [1]))" "doc_numbers_fit (ex_segment [1])"
    by (simp_all add: ex_segment_def ex_doc_def go_documents_def native_ok_def doc_numbers_fit_def seg_count_def)
  from inverted_docs_matching [OF this] show ?thesis
    by (auto simp: matching_docs_def seg_count_def ex_segment_def ex_doc_def doc_has_term_def)
qed

lemma ex_memory_merge:
  "merge_segment_bases merge_stored 1 3 (ex_snapshot 1 [1]) = Some (Inr (Some ex_merge) :: (string, (nat, nat) document segment_merge option) result)"
  by (simp add: merge_segment_bases_def ex_snapshot_def ex_segment_def merge_stored_def ex_merge_def)

lemma ex_opened: "opened_on ex_empty 1 0"
  by (simp add: opened_on_def ex_empty_def root_ok_def)

lemma ex_run: "index_runs 1 (opened ex_empty 1 0) [([], [ex_doc [1]]), ([(0, 1)], [ex_doc [1, 2]])] ex_state"
proof -
  let ?post = "inverted_postings 1 :: (nat, nat) document segment_wrapper \<Rightarrow> nat \<times> nat \<Rightarrow> (string, nat list) result"
  let ?step = "index_step ?post (merge_stored :: (string, (nat, nat) document) merger)"
  let ?run = "index_runs 1 (opened ex_empty 1 0)"
  let ?i1 = "\<lparr>intro_id = 1, intro_data = Some (ex_segment [1]), obsoletes = Map.empty, idTerms = []\<rparr> :: ((nat, nat) document, nat \<times> nat) segment_introduction"
  let ?i2 = "\<lparr>intro_id = 2, intro_data = Some (ex_segment [1, 2]), obsoletes = [1 \<mapsto> {0}], idTerms = [(0, 1)]\<rparr> :: ((nat, nat) document, nat \<times> nat) segment_introduction"
  let ?s1 = "opened ex_empty 1 0\<lparr>nextSegmentID := 1, prepared := [?i1]\<rparr>"
  let ?s2 = "\<lparr>root = ex_snapshot 1 [1], history = [ex_snapshot 1 [1], ex_empty], prepared = [], merges = [], persists = [], nextSnapshotEpoch = 2, nextSegmentID = 1\<rparr> :: ((nat, nat) document, nat \<times> nat) index_state"
  let ?s3 = "?s2\<lparr>nextSegmentID := 2, prepared := [?i2]\<rparr>"
  let ?s4 = "?s3\<lparr>nextSegmentID := 3, merges := [ex_merge]\<rparr>"
  have 1: "?step (opened ex_empty 1 0) None ?s1"
    using index_step.prepare [of ?post "[]" "opened ex_empty 1 0" Map.empty "Some (ex_segment [1])" merge_stored]
    by (simp add: opened_def ex_empty_def data_ok_def ex_segment_def seg_count_def doc_numbers_fit_def)
  have 2: "?step ?s1 (Some ([], [ex_doc [1]])) ?s2"
  proof -
    have "?step ?s1 (Some (idTerms ?i1, intro_docs ?i1)) (replace_root (ex_snapshot 1 [1]) (?s1\<lparr>prepared := [] @ []\<rparr>))"
      by (rule index_step.introduce) (simp_all add: opened_def introduce_segment_def ex_empty_def ex_snapshot_def ex_segment_def)
    then show ?thesis by (simp add: opened_def ex_empty_def ex_snapshot_def intro_docs_def ex_segment_def replace_root_def numeral_2_eq_2)
  qed
  have 3: "?step ?s2 None ?s3"
    using index_step.prepare [of ?post "[(0, 1)]" ?s2 "[1 \<mapsto> {0}]" "Some (ex_segment [1, 2])" merge_stored] ex_match
    by (simp add: ex_snapshot_def data_ok_def seg_count_def doc_numbers_fit_def ex_segment_def numeral_2_eq_2)
  have 4: "?step ?s3 None ?s4"
    using index_step.begin_memory_merge [of "ex_snapshot 1 [1]" ?s3 merge_stored 1 ex_merge ?post] ex_memory_merge
    by (simp add: ex_merge_def doc_numbers_fit_def seg_count_def numeral_3_eq_3)
  have 5: "?step ?s4 (Some ([(0, 1)], [ex_doc [1, 2]])) ex_state"
    using index_step.introduce [of ?s4 "[]" ?i2 "[]" ?post "ex_snapshot 2 [1, 2]" merge_stored]
    by (simp add: ex_state_def introduce_segment_def ex_snapshot_def intro_docs_def ex_segment_def replace_root_def ss_count_def seg_count_def)
  have "?run ((((([] @ []) @ [([], [ex_doc [1]])]) @ []) @ []) @ [([(0, 1)], [ex_doc [1, 2]])]) ex_state"
    using run_step [OF run_step [OF run_step [OF run_step [OF run_step [OF run_done 1] 2] 3] 4] 5] by simp
  then show ?thesis by simp
qed

section \<open>What is stored\<close>

text \<open>
  C1: The index refines a multiset of documents: whatever the writers, the merger and the persister do
  in between, and in whatever order their work is introduced, the root stores what the batches
  introduced so far store one after another, each deleting the documents with one of its
  identifiers and adding its own.
\<close>

theorem index_store:
  assumes "opened_on snap e k" and "index_runs n (opened snap e k) trace st"
  shows "store_root st = fold (batch_effect doc_has_term) trace (store_of (segments snap))"
  using index_runs_ok(2) [OF assms] .

theorem index_store_witness: "store_root ex_state = {#ex_doc [1, 2]#}"
  using index_store [OF ex_opened ex_run]
  by (simp add: ex_empty_def batch_effect_def doc_has_term_def ex_doc_def)

text \<open>
  C3: Every root a reader can get is well formed: no two of its segments have the same identifier, none
  is without live documents, deleted numbers are numbers of documents, numbers fit 32 bits, and
  the offsets are the running totals that global numbers are built from.
\<close>

theorem index_roots_well_formed:
  assumes "opened_on snap e k" and "index_runs n (opened snap e k) trace st" and "reader \<in> set (history st)"
  shows "root_ok reader"
  using index_runs_ok(1) [OF assms(1,2)] assms(3) by (simp add: index_ok_def history_ok_def)

theorem index_roots_well_formed_witness: "root_ok (ex_snapshot 1 [1])"
  by (rule index_roots_well_formed [OF ex_opened ex_run]) (simp add: ex_state_def)

text \<open>
  C2: Introducing a merge never panics, neither on a nil snapshot of a merged segment nor on a document
  number out of range, however many batches have deleted documents or whole segments since the
  merge began, and it changes nothing of what is stored.
\<close>

theorem introduce_merge_safe:
  assumes "opened_on snap e k" and "index_runs n (opened snap e k) trace st" and "sm \<in> set (merges st)"
  shows "\<exists>root' skipped. introduce_merge sm (nextSnapshotEpoch st) (root st) = Some (root', skipped) \<and>
    root_ok root' \<and> store_of (segments root') = store_root st"
proof -
  note ok = index_runs_ok(1) [OF assms(1,2)]
  obtain xs ys where "merges st = xs @ sm # ys" using assms(3) by (meson split_list)
  from stored_index.merge_step [OF ok this] show ?thesis by (auto simp: index_ok_def history_ok_def)
qed

theorem introduce_merge_safe_witness:
  "\<exists>root' skipped. introduce_merge ex_merge 3 (ex_snapshot 2 [1, 2]) = Some (root', skipped) \<and> root_ok root' \<and>
    store_of (segments root') = store_root ex_state"
  using introduce_merge_safe [OF ex_opened ex_run, of ex_merge] by (simp add: ex_state_def)

section \<open>What a memory merge leaves on the disk\<close>

lemma find_append_None: "find P xs = None \<Longrightarrow> find P (xs @ ys) = find P ys"
  by (induction xs) (auto split: if_splits)

lemma memory_merge_store:
  assumes ok: "root_ok snap" and r: "merge_right sm data" and f: "\<And>i e. map_of (old sm) i = Some e \<longleftrightarrow>
      (\<exists>ss\<in>set (filter (\<lambda>ss. \<not> Persisted (ss_segment ss)) (segments snap)). i = ss_id ss \<and> e = Some ss)"
  shows "mset (seg_docs data) = store_of (filter (\<lambda>ss. \<not> Persisted (ss_segment ss)) (segments snap))"
proof -
  have uniq: "ss = ss'" if "ss \<in> set (segments snap)" "ss' \<in> set (segments snap)" "ss_id ss = ss_id ss'" for ss ss'
    using that ok by (auto simp: root_ok_def distinct_map dest: inj_onD)
  have t: "merge_tracks sm (segments snap)" unfolding merge_tracks_def f using uniq by fastforce
  have m: "moving sm (segments snap) = filter (\<lambda>ss. \<not> Persisted (ss_segment ss)) (segments snap)"
    unfolding moving_def using uniq by (intro filter_cong) (auto simp: dom_def f)
  have "dead_pairs sm (segments snap) = {}" by (auto simp: dead_pairs_def merge_pairs_def f)
  then have "mset (live_docs (merged_snapshot sm data (segments snap))) = mset (seg_docs data)"
    by (simp add: live_docs_def merged_snapshot_def map_nth)
  then show ?thesis using merged_live(2) [OF r ok t] m by simp
qed

lemma store_of_partition: "store_of xs = store_of (filter P xs) + store_of (filter (\<lambda>x. \<not> P x) xs)"
  by (induction xs) simp_all

lemma persist_snapshot_store:
  assumes snap: "root_ok snap" and now: "root_ok now" and fresh: "sm_id sm \<notin> ss_id ` set (segments now)"
    and r: "merge_right sm data" and t: "merge_tracks sm (segments now)"
    and f: "\<And>i e. map_of (old sm) i = Some e \<longleftrightarrow>
      (\<exists>ss\<in>set (filter (\<lambda>ss. \<not> Persisted (ss_segment ss)) (segments snap)). i = ss_id ss \<and> e = Some ss)"
  shows "\<exists>root' skipped. introduce_merge sm ep now = Some (root', skipped) \<and>
    epoch (persist_snapshot pressure (Some (sm, root', skipped)) snap) = epoch snap \<and>
    store_of (segments (persist_snapshot pressure (Some (sm, root', skipped)) snap)) = store_of (segments snap)"
proof -
  obtain root' skipped where i: "introduce_merge sm ep now = Some (root', skipped)"
    "segments root' = staying sm (segments now) @ (if skipped then [] else [merged_snapshot sm data (segments now)])"
    using introduce_merge_ok [OF r now t fresh] by blast
  have "find (\<lambda>ss. ss_id ss = sm_id sm) (staying sm (segments now)) = None"
    using fresh by (auto simp: find_None_iff staying_def) (metis imageI)
  note found = find_append_None [OF this]
  note parts = store_of_partition [of "segments snap" "\<lambda>ss. Persisted (ss_segment ss)"]
  have "store_of (segments (equiv_snapshot sm root' snap)) = store_of (segments snap)" if "\<not> skipped"
    using memory_merge_store [OF snap r f] that unfolding parts
    by (simp add: equiv_snapshot_def i(2) found merged_snapshot_def live_docs_def map_nth)
  then show ?thesis
    using i(1) by (auto simp: persist_snapshot_def persist_maybe_merge_def merge_outcome_def equiv_snapshot_def)
qed

text \<open>Every root there has been stores what a first part of the batches store.\<close>

lemma index_step_history:
  assumes "index_step postings merge st label st'"
  shows "history st' = history st \<or> history st' = root st' # history st"
  using assms by cases (simp_all add: replace_root_def)

lemma history_stores:
  assumes "index_runs n st0 trace st" "st0 = opened snap e k" "opened_on snap e k" "s \<in> set (history st)"
  shows "\<exists>j\<le>length trace. store_of (segments s) = fold (batch_effect doc_has_term) (take j trace) (store_of (segments snap))"
  using assms
proof (induction arbitrary: s rule: index_run.induct)
  case (run_done st)
  then show ?case by (simp add: opened_def)
next
  case (run_step st trace st' label st'')
  let ?t = "trace @ (case label of None \<Rightarrow> [] | Some batch \<Rightarrow> [batch])"
  have run: "index_runs n st ?t st''" using index_run.run_step [OF run_step.hyps] .
  from index_step_history [OF run_step.hyps(2)] run_step.prems(3)
  consider "s \<in> set (history st')" | "s = root st''" by auto
  then show ?case
  proof cases
    case 1
    then obtain j where "j \<le> length trace"
      "store_of (segments s) = fold (batch_effect doc_has_term) (take j trace) (store_of (segments snap))"
      using run_step.IH [OF run_step.prems(1,2)] by blast
    then show ?thesis by (intro exI [of _ j]) simp
  next
    case 2
    then show ?thesis
      using index_runs_ok(2) [OF run_step.prems(2) run [unfolded run_step.prems(1)]] unfolding store_root_def
      by (intro exI [of _ "length ?t"]) simp
  qed
qed

text \<open>
  C4: What the persister writes for a root, when it has merged the segments that root has in memory
  and the introducer has answered: under the root's epoch it writes a snapshot that stores exactly
  what the root stores, which is what a first part of the introduced batches stores. It is so
  whatever batches, merges and persists came between, under memory pressure or not, and also when
  the introducer skips the merge because every merged document has been deleted since.
\<close>

theorem memory_merge_on_disk:
  assumes "opened_on snap e k" and "index_runs n (opened snap e k) trace st"
    and "sm \<in> set (merges st)" and "old_snap \<in> set (history st)"
    and "merge_segment_bases (merge_stored :: (string, ('t, 'l) document) merger) minSegments (sm_id sm) old_snap = Some (Inr (Some sm))"
  shows "\<exists>root' skipped. introduce_merge sm (nextSnapshotEpoch st) (root st) = Some (root', skipped) \<and>
    (let written = persist_snapshot pressure (Some (sm, root', skipped)) old_snap in
       epoch written = epoch old_snap \<and> store_of (segments written) = store_of (segments old_snap) \<and>
       (\<exists>j\<le>length trace. store_of (segments written) = fold (batch_effect doc_has_term) (take j trace) (store_of (segments snap))))"
proof -
  note ok = index_runs_ok(1) [OF assms(1,2)]
  have r: "root_ok old_snap" "root_ok (root st)" "history_ok st" using ok assms(4) by (auto simp: index_ok_def history_ok_def)
  obtain xs ys where "merges st = xs @ sm # ys" using assms(3) by (meson split_list)
  note t = take_merge [OF ok this]
  obtain data where m: "merge_right sm data" and tr: "merge_tracks sm (segments (root st))" using t(2) by (auto simp: merge_ok_def)
  have fresh: "sm_id sm \<notin> ss_id ` set (segments (root st))" using t(3) root_used [OF r(3)] by auto
  have f: "map_of (old sm) i = Some e \<longleftrightarrow> (\<exists>ss\<in>set (filter (\<lambda>ss. \<not> Persisted (ss_segment ss)) (segments old_snap)). i = ss_id ss \<and> e = Some ss)" for i e
    using stored_merger.merge_segment_bases_record [OF assms(5) r(1)] by (simp add: stored_merger.fresh_record_def stored_merger.in_memory_def)
  show ?thesis
    using persist_snapshot_store [OF r(1,2) fresh m tr f] history_stores [OF assms(2) refl assms(1,4)] unfolding Let_def by metis
qed

theorem memory_merge_on_disk_witness:
  "\<exists>root'. introduce_merge ex_merge 3 (ex_snapshot 2 [1, 2]) = Some (root', True) \<and>
    store_of (segments (persist_snapshot False (Some (ex_merge, root', True)) (ex_snapshot 1 [1]))) = {#ex_doc [1]#}"
proof -
  have m: "ex_merge \<in> set (merges ex_state)" "ex_snapshot 1 [1] \<in> set (history ex_state)" "sm_id ex_merge = 3" "nextSnapshotEpoch ex_state = 3"
    "root ex_state = ex_snapshot 2 [1, 2]" by (simp_all add: ex_state_def ex_merge_def)
  have skip: "\<exists>r. introduce_merge ex_merge 3 (ex_snapshot 2 [1, 2]) = Some (r, True)"
    by (simp add: introduce_merge_def ex_snapshot_def ex_merge_def process_segment_now_def ss_count_def seg_count_def ex_segment_def
        renumber_def doc_nums_def doc_numbers_live_def)
  have "store_of (segments (ex_snapshot 1 [1])) = {#ex_doc [1]#}"
    by (simp add: ex_snapshot_def live_docs_def ex_segment_def)
  then show ?thesis
    using memory_merge_on_disk [OF ex_opened ex_run m(1,2), of 1 False, unfolded m(3-5), OF ex_memory_merge] skip
    by (auto simp: Let_def)
qed

section \<open>What a segment indexes\<close>

text \<open>
  C14: The inverted index a segment builds from its documents: it is always built; a term of a field has
  a postings list exactly when a document has the term in that field; the list holds those
  documents, their frequencies, norms and location counts in the order of the documents, and all
  their locations; no list outgrows the part of the shared array that the first pass reserves for
  it; and a field's statistics count its documents and their terms.
\<close>

theorem inverted_index_complete:
  assumes "go_documents n docs"
  shows "\<exists>io. build_inverted normCalc n docs = Some io \<and>
    (\<forall>fid t. case Dicts (realloc docs) fid t of
       None \<Rightarrow> postings_of fid t docs = {}
     | Some p \<Rightarrow> Postings io ! (p - 1) = postings_of fid t docs \<and> FreqNorms io ! (p - 1) = freq_norms_of normCalc fid t docs \<and>
         Locs io ! (p - 1) = locs_of fid t docs \<and>
         length (FreqNorms io ! (p - 1)) \<le> numTermsPerPostingsList (realloc docs) ! (p - 1) \<and>
         length (Locs io ! (p - 1)) = numLocsPerPostingsList (realloc docs) ! (p - 1)) \<and>
    (\<forall>fid. fieldStats io fid = stats_of fid docs)"
  by (rule build_inverted [OF assms, of normCalc]) (auto split: option.split)

theorem inverted_index_complete_witness:
  "\<exists>io. build_inverted (\<lambda>_ len. len) 1 [ex_doc [7, 8], ex_doc [8, 8]] = Some io \<and> fieldStats io 0 = (2, 4)"
proof -
  have "go_documents 1 [ex_doc [7, 8], ex_doc [8, 8]]" by (simp add: go_documents_def native_ok_def ex_doc_def)
  moreover have "stats_of 0 [ex_doc [7, 8], ex_doc [8, 8]] = (2, 4)" by (simp add: stats_of_def field_triples_def ex_doc_def entry_triple_def)
  ultimately show ?thesis using inverted_index_complete [of 1 "[ex_doc [7, 8], ex_doc [8, 8]]" "\<lambda>_ len. len"] by auto
qed

end
