(* ===== verification/Deletion_Policy.thy ===== *)
theory Deletion_Policy
  imports Prelude
begin

text \<open>
  Which files of the index may be deleted (\<open>index/deletion.go\<close>): the policy keeps the files of the
  \<open>n\<close> latest snapshots that were committed, and those of older ones until their snapshot file is
  gone. Whether the directory can remove a file is an argument of a cleanup. Go's maps are lists
  whose order plays no role.
\<close>

section \<open>The policy\<close>

record policy =
  keep_n :: nat
  liveEpochs :: "nat list"
  deletableEpochs :: "nat list"
  liveSegments :: "(nat \<times> nat list) list"
  knownSegmentFiles :: "nat list"

definition new_policy :: "nat \<Rightarrow> policy" where
  "new_policy n = \<lparr>keep_n = n, liveEpochs = [], deletableEpochs = [], liveSegments = [], knownSegmentFiles = []\<rparr>"

definition track_segment_files :: "nat list \<Rightarrow> policy \<Rightarrow> policy" where
  "track_segment_files ids p = p\<lparr>knownSegmentFiles := fold List.insert ids (knownSegmentFiles p)\<rparr>"

definition commit :: "nat \<Rightarrow> nat list \<Rightarrow> policy \<Rightarrow> policy" where
  "commit epoch snapshotSegments p =
     (let p = p\<lparr>knownSegmentFiles := fold List.insert snapshotSegments (knownSegmentFiles p),
            liveEpochs := liveEpochs p @ [epoch],
            liveSegments := (epoch, snapshotSegments) # filter (\<lambda>e. fst e \<noteq> epoch) (liveSegments p)\<rparr>;
          over = length (liveEpochs p) - keep_n p
      in if keep_n p < length (liveEpochs p)
         then p\<lparr>liveEpochs := drop over (liveEpochs p), deletableEpochs := deletableEpochs p @ take over (liveEpochs p)\<rparr>
         else p)"

text \<open>A cleanup returns the policy and the numbers of the files it has removed.\<close>

fun cleanup_snapshots_loop :: "(nat \<Rightarrow> bool) \<Rightarrow> nat list \<Rightarrow> nat list \<Rightarrow> policy \<Rightarrow> nat list \<Rightarrow> policy \<times> nat list" where
  "cleanup_snapshots_loop removes [] remaining p removed = (p\<lparr>deletableEpochs := remaining\<rparr>, removed)"
| "cleanup_snapshots_loop removes (e # es) remaining p removed =
     (if removes e
      then cleanup_snapshots_loop removes es remaining (p\<lparr>liveSegments := filter (\<lambda>x. fst x \<noteq> e) (liveSegments p)\<rparr>) (e # removed)
      else cleanup_snapshots_loop removes es (remaining @ [e]) p removed)"

definition cleanup_snapshots :: "(nat \<Rightarrow> bool) \<Rightarrow> policy \<Rightarrow> policy \<times> nat list" where
  "cleanup_snapshots removes p = cleanup_snapshots_loop removes (deletableEpochs p) [] p []"

fun cleanup_segments_loop :: "(nat \<Rightarrow> bool) \<Rightarrow> nat list \<Rightarrow> policy \<Rightarrow> nat list \<Rightarrow> policy \<times> nat list" where
  "cleanup_segments_loop removes [] p removed = (p, removed)"
| "cleanup_segments_loop removes (s # ss) p removed =
     (if list_ex (\<lambda>e. s \<in> set (snd e)) (liveSegments p) then cleanup_segments_loop removes ss p removed
      else if \<not> removes s then cleanup_segments_loop removes ss p removed
      else cleanup_segments_loop removes ss (p\<lparr>knownSegmentFiles := filter (\<lambda>k. k \<noteq> s) (knownSegmentFiles p)\<rparr>) (s # removed))"

definition cleanup :: "(nat \<Rightarrow> bool) \<Rightarrow> (nat \<Rightarrow> bool) \<Rightarrow> policy \<Rightarrow> policy \<times> nat list \<times> nat list" where
  "cleanup removes_snapshot removes_segment p =
     (case cleanup_snapshots removes_snapshot p of (p, snapshots) \<Rightarrow>
        case cleanup_segments_loop removes_segment (knownSegmentFiles p) p [] of (p, segs) \<Rightarrow> (p, snapshots, segs))"

section \<open>What each operation does\<close>

lemma set_fold_insert: "set (fold List.insert ids known) = set ids \<union> set known"
  by (induction ids arbitrary: known) auto

lemma cleanup_snapshots_loop:
  "cleanup_snapshots_loop removes es remaining p removed =
    (p\<lparr>liveSegments := filter (\<lambda>x. \<not> (fst x \<in> set es \<and> removes (fst x))) (liveSegments p),
       deletableEpochs := remaining @ filter (\<lambda>e. \<not> removes e) es\<rparr>, rev (filter removes es) @ removed)"
proof (induction es arbitrary: remaining p removed)
  case (Cons e es)
  have "filter (\<lambda>x. \<not> (fst x \<in> set es \<and> removes (fst x))) (filter (\<lambda>x. fst x \<noteq> e) xs) =
      filter (\<lambda>x. \<not> (fst x \<in> set (e # es) \<and> removes (fst x))) xs" if "removes e" for xs :: "(nat \<times> nat list) list"
    using that by (induction xs) auto
  moreover have "filter (\<lambda>x. \<not> (fst x \<in> set es \<and> removes (fst x))) xs = filter (\<lambda>x. \<not> (fst x \<in> set (e # es) \<and> removes (fst x))) xs"
    if "\<not> removes e" for xs :: "(nat \<times> nat list) list"
    using that by (induction xs) auto
  ultimately show ?case by (cases "removes e") (simp_all add: Cons.IH)
qed simp

definition in_use :: "policy \<Rightarrow> nat \<Rightarrow> bool" where
  "in_use p s \<longleftrightarrow> (\<exists>e\<in>set (liveSegments p). s \<in> set (snd e))"

lemma cleanup_segments_loop:
  "\<exists>removed'. cleanup_segments_loop removes ss p removed =
     (p\<lparr>knownSegmentFiles := filter (\<lambda>k. k \<notin> removed') (knownSegmentFiles p)\<rparr>, rev (filter (\<lambda>s. \<not> in_use p s \<and> removes s) ss) @ removed) \<and>
     removed' = {s \<in> set ss. \<not> in_use p s \<and> removes s}"
proof (induction ss arbitrary: p removed)
  case (Cons s ss)
  have use: "in_use (p\<lparr>knownSegmentFiles := k\<rparr>) = in_use p" for k by (simp add: in_use_def fun_eq_iff)
  have ex: "list_ex (\<lambda>e. s \<in> set (snd e)) (liveSegments p) \<longleftrightarrow> in_use p s" by (auto simp: in_use_def list_ex_iff)
  have split: "{x \<in> set (s # ss). \<not> in_use p x \<and> removes x} =
      (if \<not> in_use p s \<and> removes s then insert s {x \<in> set ss. \<not> in_use p x \<and> removes x} else {x \<in> set ss. \<not> in_use p x \<and> removes x})"
    by auto
  show ?case
  proof (cases "\<not> in_use p s \<and> removes s")
    case True
    then have "cleanup_segments_loop removes (s # ss) p removed =
        cleanup_segments_loop removes ss (p\<lparr>knownSegmentFiles := filter (\<lambda>k. k \<noteq> s) (knownSegmentFiles p)\<rparr>) (s # removed)"
      by (simp add: ex)
    then show ?thesis
      using Cons.IH [of "p\<lparr>knownSegmentFiles := filter (\<lambda>k. k \<noteq> s) (knownSegmentFiles p)\<rparr>" "s # removed"] True
      unfolding split by (auto simp: use conj_commute intro!: arg_cong [where f = "\<lambda>x. p\<lparr>knownSegmentFiles := x\<rparr>"] filter_cong)
  next
    case False
    then have "cleanup_segments_loop removes (s # ss) p removed = cleanup_segments_loop removes ss p removed" by (auto simp: ex)
    then show ?thesis using Cons.IH [of p removed] False unfolding split by auto
  qed
qed simp

text \<open>A whole cleanup: the policy after the snapshots, and what is left of the segments.\<close>

definition after_snapshots :: "(nat \<Rightarrow> bool) \<Rightarrow> policy \<Rightarrow> policy" where
  "after_snapshots removes_snapshot p = p\<lparr>liveSegments := filter (\<lambda>x. \<not> (fst x \<in> set (deletableEpochs p) \<and> removes_snapshot (fst x))) (liveSegments p),
     deletableEpochs := filter (\<lambda>e. \<not> removes_snapshot e) (deletableEpochs p)\<rparr>"

lemma after_snapshots_simps [simp]:
  "keep_n (after_snapshots r p) = keep_n p" "liveEpochs (after_snapshots r p) = liveEpochs p"
  "deletableEpochs (after_snapshots r p) = filter (\<lambda>e. \<not> r e) (deletableEpochs p)"
  "liveSegments (after_snapshots r p) = filter (\<lambda>x. \<not> (fst x \<in> set (deletableEpochs p) \<and> r (fst x))) (liveSegments p)"
  "knownSegmentFiles (after_snapshots r p) = knownSegmentFiles p"
  by (simp_all add: after_snapshots_def)

lemma cleanup_parts:
  assumes c: "cleanup removes_snapshot removes_segment p = (p', snaps, segs)"
  defines "q \<equiv> after_snapshots removes_snapshot p"
  shows "\<exists>known. p' = q\<lparr>knownSegmentFiles := known\<rparr> \<and> set known = {s \<in> set (knownSegmentFiles p). \<not> (\<not> in_use q s \<and> removes_segment s)}"
    and "set segs = {s \<in> set (knownSegmentFiles p). \<not> in_use q s \<and> removes_segment s}"
    and "set snaps = {e \<in> set (deletableEpochs p). removes_snapshot e}"
proof -
  have "cleanup_snapshots removes_snapshot p = (q, rev (filter removes_snapshot (deletableEpochs p)))"
    by (simp add: cleanup_snapshots_def cleanup_snapshots_loop q_def after_snapshots_def)
  moreover obtain gone where g: "cleanup_segments_loop removes_segment (knownSegmentFiles q) q [] =
      (q\<lparr>knownSegmentFiles := filter (\<lambda>k. k \<notin> gone) (knownSegmentFiles q)\<rparr>, rev (filter (\<lambda>s. \<not> in_use q s \<and> removes_segment s) (knownSegmentFiles q)))"
    "gone = {s \<in> set (knownSegmentFiles q). \<not> in_use q s \<and> removes_segment s}"
    using cleanup_segments_loop [of removes_segment "knownSegmentFiles q" q "[]"] by auto
  ultimately have eq: "p' = q\<lparr>knownSegmentFiles := filter (\<lambda>k. k \<notin> gone) (knownSegmentFiles q)\<rparr>"
    "segs = rev (filter (\<lambda>s. \<not> in_use q s \<and> removes_segment s) (knownSegmentFiles q))"
    "snaps = rev (filter removes_snapshot (deletableEpochs p))"
    using c by (simp_all add: cleanup_def)
  have k: "knownSegmentFiles q = knownSegmentFiles p" by (simp add: q_def)
  show "\<exists>known. p' = q\<lparr>knownSegmentFiles := known\<rparr> \<and> set known = {s \<in> set (knownSegmentFiles p). \<not> (\<not> in_use q s \<and> removes_segment s)}"
    by (rule exI [of _ "filter (\<lambda>k. k \<notin> gone) (knownSegmentFiles q)"]) (auto simp: eq(1) g(2) k)
  show "set segs = {s \<in> set (knownSegmentFiles p). \<not> in_use q s \<and> removes_segment s}"
    "set snaps = {e \<in> set (deletableEpochs p). removes_snapshot e}"
    by (auto simp: eq(2,3) k)
qed

lemma in_use_known [simp]: "in_use (q\<lparr>knownSegmentFiles := k\<rparr>) = in_use q"
  by (simp add: in_use_def fun_eq_iff)

section \<open>The files of a directory\<close>

record files =
  pol :: policy
  snapshot_files :: "nat set"
  segment_files :: "nat set"
  commits :: "(nat \<times> nat list) list"

text \<open>
  What happens to a directory: a segment is written, a snapshot all whose segments are there is
  written and committed under a new epoch, or a cleanup runs, in which any removal may fail. The
  latest commit comes first.
\<close>

inductive files_step :: "files \<Rightarrow> files \<Rightarrow> bool" where
  write_segment: "files_step f (f\<lparr>segment_files := insert s (segment_files f)\<rparr>)"
| write_snapshot: "epoch \<notin> fst ` set (commits f) \<Longrightarrow> set segs \<subseteq> segment_files f \<Longrightarrow>
    files_step f (f\<lparr>pol := commit epoch segs (pol f), snapshot_files := insert epoch (snapshot_files f), commits := (epoch, segs) # commits f\<rparr>)"
| clean: "cleanup removes_snapshot removes_segment (pol f) = (p, snaps, segs) \<Longrightarrow>
    files_step f (f\<lparr>pol := p, snapshot_files := snapshot_files f - set snaps, segment_files := segment_files f - set segs\<rparr>)"

inductive files_reachable :: "nat \<Rightarrow> files \<Rightarrow> bool" for n where
  files_start: "files_reachable n \<lparr>pol = track_segment_files ids (new_policy n), snapshot_files = {}, segment_files = set ids, commits = []\<rparr>"
| files_next: "files_reachable n f \<Longrightarrow> files_step f f' \<Longrightarrow> files_reachable n f'"

definition kept_epochs :: "policy \<Rightarrow> nat set" where
  "kept_epochs p = set (liveEpochs p) \<union> set (deletableEpochs p)"

definition epochs_ok :: "nat \<Rightarrow> policy \<Rightarrow> (nat \<times> nat list) list \<Rightarrow> bool" where
  "epochs_ok n p cs \<longleftrightarrow> keep_n p = n \<and> distinct (map fst cs) \<and> liveEpochs p = rev (map fst (take n cs)) \<and>
     set (deletableEpochs p) \<subseteq> fst ` set (drop n cs) \<and> set (liveSegments p) = {c \<in> set cs. fst c \<in> kept_epochs p}"

definition files_ok :: "nat \<Rightarrow> files \<Rightarrow> bool" where
  "files_ok n f \<longleftrightarrow> epochs_ok n (pol f) (commits f) \<and> kept_epochs (pol f) \<subseteq> snapshot_files f \<and>
     (\<forall>c\<in>set (liveSegments (pol f)). set (snd c) \<subseteq> segment_files f)"

text \<open>Which epochs are live and deletable after a commit.\<close>

lemma commit_simps [simp]:
  "keep_n (commit epoch segs p) = keep_n p"
  "liveSegments (commit epoch segs p) = (epoch, segs) # filter (\<lambda>e. fst e \<noteq> epoch) (liveSegments p)"
  by (simp_all add: commit_def Let_def)

lemma drop_Cons_later: "set (drop n xs) \<subseteq> set (drop n (x # xs))"
proof (cases n)
  case (Suc m)
  have "set (drop (Suc m) xs) \<subseteq> set (drop m xs)" by (rule set_drop_subset_set_drop) simp
  then show ?thesis by (simp add: Suc)
qed auto

lemma commit_epochs:
  assumes live: "liveEpochs p = rev (map fst (take n cs))" and n: "keep_n p = n" and del: "set (deletableEpochs p) \<subseteq> fst ` set (drop n cs)"
  shows "liveEpochs (commit epoch segs p) = rev (map fst (take n ((epoch, segs) # cs))) \<and>
    set (deletableEpochs (commit epoch segs p)) \<subseteq> fst ` set (drop n ((epoch, segs) # cs)) \<and>
    kept_epochs (commit epoch segs p) = insert epoch (kept_epochs p)"
proof (cases "n \<le> length cs")
  case True
  let ?live = "rev (map fst (take n cs))"
  have len: "length ?live = n" using True by simp
  have c: "liveEpochs (commit epoch segs p) = drop 1 (?live @ [epoch])"
    "deletableEpochs (commit epoch segs p) = deletableEpochs p @ take 1 (?live @ [epoch])"
    using len by (simp_all add: commit_def Let_def live n)
  have r: "?live @ [epoch] = rev (map fst (take (Suc n) ((epoch, segs) # cs)))" by simp
  have split: "take (Suc n) ((epoch, segs) # cs) = take n ((epoch, segs) # cs) @ [((epoch, segs) # cs) ! n]"
    using True by (intro take_Suc_conv_app_nth) simp
  have mem: "((epoch, segs) # cs) ! n \<in> set (drop n ((epoch, segs) # cs))"
    using True by (simp add: Cons_nth_drop_Suc [symmetric] del: drop_Suc_Cons)
  have "set (drop 1 (?live @ [epoch])) \<union> set (take 1 (?live @ [epoch])) = set (?live @ [epoch])"
    by (metis append_take_drop_id set_append sup_commute)
  then have "kept_epochs (commit epoch segs p) = insert epoch (kept_epochs p)" unfolding kept_epochs_def c live by auto
  moreover have "set (deletableEpochs (commit epoch segs p)) \<subseteq> fst ` set (drop n ((epoch, segs) # cs))"
    using del drop_Cons_later [of n cs "(epoch, segs)"] mem unfolding c(2) r split by auto
  ultimately show ?thesis unfolding c(1) r split by simp
next
  case False
  then have "liveEpochs (commit epoch segs p) = rev (map fst (take n cs)) @ [epoch]" "deletableEpochs (commit epoch segs p) = deletableEpochs p"
    by (simp_all add: commit_def Let_def live n)
  moreover have "take n ((epoch, segs) # cs) = (epoch, segs) # take n cs" using False by (cases n) simp_all
  ultimately show ?thesis using del drop_Cons_later [of n cs "(epoch, segs)"] by (auto simp: kept_epochs_def live)
qed

lemma files_okD:
  assumes "files_ok n f"
  shows "liveEpochs (pol f) = rev (map fst (take n (commits f)))"
    "set (liveSegments (pol f)) = {c \<in> set (commits f). fst c \<in> kept_epochs (pol f)}"
    "kept_epochs (pol f) \<subseteq> snapshot_files f" "\<forall>c\<in>set (liveSegments (pol f)). set (snd c) \<subseteq> segment_files f"
  using assms unfolding files_ok_def epochs_ok_def by blast+

lemma commit_ok:
  assumes ok: "files_ok n f" and new: "epoch \<notin> fst ` set (commits f)" and segs: "set segs \<subseteq> segment_files f"
  shows "files_ok n (f\<lparr>pol := commit epoch segs (pol f), snapshot_files := insert epoch (snapshot_files f), commits := (epoch, segs) # commits f\<rparr>)"
proof -
  have e: "epochs_ok n (pol f) (commits f)" using ok by (simp add: files_ok_def)
  have c: "liveEpochs (commit epoch segs (pol f)) = rev (map fst (take n ((epoch, segs) # commits f)))"
    "set (deletableEpochs (commit epoch segs (pol f))) \<subseteq> fst ` set (drop n ((epoch, segs) # commits f))"
    "kept_epochs (commit epoch segs (pol f)) = insert epoch (kept_epochs (pol f))"
    using commit_epochs [of "pol f" n "commits f" epoch segs] e by (simp_all only: epochs_ok_def)
  have same: "filter (\<lambda>e. fst e \<noteq> epoch) (liveSegments (pol f)) = liveSegments (pol f)"
    using new e by (intro filter_True) (force simp: epochs_ok_def)
  have "{c \<in> set ((epoch, segs) # commits f). fst c \<in> insert epoch (kept_epochs (pol f))} =
      insert (epoch, segs) {c \<in> set (commits f). fst c \<in> kept_epochs (pol f)}" using new by force
  then have "set (liveSegments (commit epoch segs (pol f))) = {c \<in> set ((epoch, segs) # commits f). fst c \<in> kept_epochs (commit epoch segs (pol f))}"
    unfolding commit_simps same c(3) using e by (simp add: epochs_ok_def)
  then have "epochs_ok n (commit epoch segs (pol f)) ((epoch, segs) # commits f)"
    using e new c(1,2) unfolding epochs_ok_def commit_simps by simp
  moreover have "kept_epochs (commit epoch segs (pol f)) \<subseteq> insert epoch (snapshot_files f)" unfolding c(3) using ok by (auto simp: files_ok_def)
  moreover have "\<forall>c\<in>set (liveSegments (commit epoch segs (pol f))). set (snd c) \<subseteq> segment_files f"
    unfolding commit_simps same using ok segs by (simp add: files_ok_def)
  ultimately show ?thesis by (simp add: files_ok_def)
qed

lemma clean_ok:
  assumes ok: "files_ok n f" and c: "cleanup removes_snapshot removes_segment (pol f) = (p, snaps, segs)"
  shows "files_ok n (f\<lparr>pol := p, snapshot_files := snapshot_files f - set snaps, segment_files := segment_files f - set segs\<rparr>)"
proof -
  let ?gone = "\<lambda>e. e \<in> set (deletableEpochs (pol f)) \<and> removes_snapshot e"
  have e: "epochs_ok n (pol f) (commits f)" using ok by (simp add: files_ok_def)
  note parts = cleanup_parts [OF c]
  obtain known where pq: "p = (after_snapshots removes_snapshot (pol f))\<lparr>knownSegmentFiles := known\<rparr>" using parts(1) by blast
  have p: "keep_n p = keep_n (pol f)" "liveEpochs p = liveEpochs (pol f)" "deletableEpochs p = filter (\<lambda>e. \<not> removes_snapshot e) (deletableEpochs (pol f))"
    "liveSegments p = filter (\<lambda>x. \<not> ?gone (fst x)) (liveSegments (pol f))" "in_use p = in_use (after_snapshots removes_snapshot (pol f))"
    unfolding pq by simp_all
  have gone: "set snaps = {e. ?gone e}" using parts(3) by simp
  have apart: "set (liveEpochs (pol f)) \<inter> set (deletableEpochs (pol f)) = {}"
  proof -
    have "distinct (map fst (take n (commits f) @ drop n (commits f)))" using e by (simp add: epochs_ok_def)
    then have "set (map fst (take n (commits f))) \<inter> fst ` set (drop n (commits f)) = {}" unfolding map_append distinct_append by simp
    then show ?thesis using e by (auto simp: epochs_ok_def)
  qed
  have k: "kept_epochs p = kept_epochs (pol f) - {e. ?gone e}" using apart by (auto simp: kept_epochs_def p)
  have "set (liveSegments p) = {c \<in> set (commits f). fst c \<in> kept_epochs p}" using e unfolding p(4) k by (auto simp: epochs_ok_def)
  then have "epochs_ok n p (commits f)" using e unfolding epochs_ok_def p(1-3) by auto
  moreover have "kept_epochs p \<subseteq> snapshot_files f - set snaps" using ok unfolding k gone by (auto simp: files_ok_def)
  moreover have "\<forall>c\<in>set (liveSegments p). set (snd c) \<subseteq> segment_files f - set segs"
  proof (intro ballI subsetI)
    fix c s assume cs: "c \<in> set (liveSegments p)" "s \<in> set (snd c)"
    then have "in_use p s" by (auto simp: in_use_def)
    then have "s \<notin> set segs" unfolding parts(2) p(5) by simp
    moreover have "s \<in> segment_files f" using cs ok unfolding p(4) files_ok_def by auto
    ultimately show "s \<in> segment_files f - set segs" by simp
  qed
  ultimately show ?thesis by (simp add: files_ok_def)
qed

lemma write_segment_ok: "files_ok n f \<Longrightarrow> files_ok n (f\<lparr>segment_files := insert s (segment_files f)\<rparr>)"
  by (auto simp: files_ok_def)

lemma files_step_ok: "files_step f f' \<Longrightarrow> files_ok n f \<Longrightarrow> files_ok n f'"
  by (induction rule: files_step.induct) (blast intro: write_segment_ok commit_ok clean_ok)+

lemma files_reachable_ok: "files_reachable n f \<Longrightarrow> files_ok n f"
proof (induction rule: files_reachable.induct)
  case (files_start ids)
  then show ?case by (simp add: files_ok_def epochs_ok_def kept_epochs_def track_segment_files_def new_policy_def)
qed (use files_step_ok in blast)

text \<open>When no removal fails a cleanup leaves the files of the latest snapshots and no others it knows.\<close>

lemma cleanup_complete:
  assumes c: "cleanup (\<lambda>_. True) (\<lambda>_. True) p = (p', snaps, segs)"
  shows "deletableEpochs p' = [] \<and> set snaps = set (deletableEpochs p) \<and> (\<forall>s\<in>set (knownSegmentFiles p'). in_use p' s)"
proof -
  note parts = cleanup_parts [OF c]
  obtain known where "p' = (after_snapshots (\<lambda>_. True) p)\<lparr>knownSegmentFiles := known\<rparr>"
    "set known = {s \<in> set (knownSegmentFiles p). \<not> (\<not> in_use (after_snapshots (\<lambda>_. True) p) s \<and> True)}" using parts(1) by blast
  then show ?thesis using parts(3) by simp
qed

text \<open>
  C5: However often a removal fails and whatever else happens to the directory, the files of the \<open>n\<close>
  snapshots committed last are there: their own and those of all their segments.
\<close>

theorem latest_snapshots_kept:
  assumes "files_reachable n f" and "(e, segs) \<in> set (take n (commits f))"
  shows "e \<in> snapshot_files f \<and> set segs \<subseteq> segment_files f"
proof -
  note f = files_okD [OF files_reachable_ok [OF assms(1)]]
  have "e \<in> set (liveEpochs (pol f))" unfolding f(1) set_rev set_map using assms(2) by (rule image_eqI [rotated]) simp
  then have k: "e \<in> kept_epochs (pol f)" by (simp add: kept_epochs_def)
  then have "(e, segs) \<in> set (liveSegments (pol f))" unfolding f(2) using in_set_takeD [OF assms(2)] by simp
  then show ?thesis using f(3,4) k by fastforce
qed

text \<open>A run: two snapshots are committed, and a cleanup keeps the files of the second.\<close>

lemma files_example:
  "\<exists>f. files_reachable 1 f \<and> commits f = [(2, [7]), (1, [5])] \<and> snapshot_files f = {2} \<and> segment_files f = {7}"
proof -
  let ?f0 = "\<lparr>pol = track_segment_files [5] (new_policy 1), snapshot_files = {}, segment_files = set [5], commits = []\<rparr>"
  let ?f1 = "?f0\<lparr>pol := commit 1 [5] (pol ?f0), snapshot_files := insert 1 (snapshot_files ?f0), commits := (1, [5]) # commits ?f0\<rparr>"
  let ?f2 = "?f1\<lparr>segment_files := insert 7 (segment_files ?f1)\<rparr>"
  let ?f3 = "?f2\<lparr>pol := commit 2 [7] (pol ?f2), snapshot_files := insert 2 (snapshot_files ?f2), commits := (2, [7]) # commits ?f2\<rparr>"
  have "files_reachable 1 ?f0" by (rule files_start)
  then have "files_reachable 1 ?f1" by (rule files_next) (rule write_snapshot; simp)
  then have "files_reachable 1 ?f2" by (rule files_next) (rule write_segment)
  then have f3: "files_reachable 1 ?f3" by (rule files_next) (rule write_snapshot; simp)
  obtain p snaps segs where c: "cleanup (\<lambda>_. True) (\<lambda>_. True) (pol ?f3) = (p, snaps, segs)" by (cases "cleanup (\<lambda>_. True) (\<lambda>_. True) (pol ?f3)")
  have "snaps = [1]" "segs = [5]"
    using c by (simp_all add: cleanup_def cleanup_snapshots_def commit_def track_segment_files_def new_policy_def List.insert_def)
  then show ?thesis using files_next [OF f3 clean [OF c]] by (intro exI conjI) (assumption, simp_all, auto)
qed

theorem latest_snapshots_kept_witness:
  "\<exists>f. files_reachable 1 f \<and> (2, [7]) \<in> set (take 1 (commits f)) \<and> 2 \<in> snapshot_files f \<and> {7} \<subseteq> segment_files f"
proof -
  obtain f where f: "files_reachable 1 f" "commits f = [(2, [7]), (1, [5])]" using files_example by blast
  then have m: "(2, [7]) \<in> set (take 1 (commits f))" by simp
  show ?thesis using latest_snapshots_kept [OF f(1) m] f(1) m by auto
qed

end
