(* ===== verification/Zap_Varint.thy ===== *)
theory Zap_Varint
  imports Prelude
begin

text \<open>
  The variable-length integers of the segment format: \<open>PutUvarint\<close> and \<open>Uvarint\<close> of the Go library
  \<open>encoding/binary\<close>, the size computations of \<open>internal/zapxtext/new.go\<close>, the reader over a slice
  in memory (\<open>memuvarint.go\<close>), and the slicing of a segment's bytes. A \<open>uint64\<close> is a
  \<open>64 word\<close>; a panic of the Go runtime is the error \<open>Panic\<close>.
\<close>

unbundle bit_operations_syntax

type_synonym u64 = "64 word"

datatype zap_error =
    Panic
  | MemUvarintOverflow
  | ChunkMissing nat nat
  | ChunkEmpty nat
  | ChunkProcess nat
  | ChunkDecompress nat
  | ChunkEncoding byte
  | ChunkSizeZero
  | UnknownChunkMode "32 word"
  | UnexpectedEOF
  | InvalidImpactCount u64
  | ImpactEndOverflow
  | ImpactOutOfBounds u64
  | InvalidImpactLength u64
  | ProcessFailed
  | DocValuesTooSmall
  | CorruptedChunkOffset
  | ChunkUnreadable
  | RoaringError
  | DroppedDocNum
  | NoReturn

named_theorems zap_simps \<open>rules about encoded streams and the positions in them\<close>

section \<open>Writing\<close>

function put_uvarint :: "u64 \<Rightarrow> bytes" where
  "put_uvarint x = (if x < 0x80 then [ucast x] else (ucast x OR 0x80) # put_uvarint (drop_bit 7 x))"
  by pat_completeness auto

lemma unat_drop_7: "unat (drop_bit 7 x) = unat x div 128" for x :: u64
  by (subst unat_drop_bit_eq) (simp add: drop_bit_eq_div)

termination put_uvarint
  by (relation "measure unat") (auto simp: unat_drop_7 word_less_nat_alt)

declare put_uvarint.simps [simp del]

function num_uvarint_bytes :: "u64 \<Rightarrow> nat" where
  "num_uvarint_bytes x = (if x < 0x80 then 1 else num_uvarint_bytes (drop_bit 7 x) + 1)"
  by pat_completeness auto
termination num_uvarint_bytes
  by (relation "measure unat") (auto simp: unat_drop_7 word_less_nat_alt)

declare num_uvarint_bytes.simps [simp del]

definition total_uvarint_bytes :: "u64 \<Rightarrow> u64 \<Rightarrow> u64 \<Rightarrow> u64 \<Rightarrow> u64 \<Rightarrow> u64 list \<Rightarrow> nat" where
  "total_uvarint_bytes a b c d e more =
     num_uvarint_bytes a + num_uvarint_bytes b + num_uvarint_bytes c + num_uvarint_bytes d +
     num_uvarint_bytes e + sum_list (map num_uvarint_bytes more)"

definition put_uvarints :: "u64 list \<Rightarrow> bytes" where
  "put_uvarints vs = concat (map put_uvarint vs)"

lemma put_uvarints_simps [simp]:
  "put_uvarints [] = []" "put_uvarints (v # vs) = put_uvarint v @ put_uvarints vs"
  "put_uvarints (vs @ ws) = put_uvarints vs @ put_uvarints ws"
  by (simp_all add: put_uvarints_def)

lemma length_put_uvarint: "length (put_uvarint x) = num_uvarint_bytes x"
  by (induction x rule: put_uvarint.induct) (subst put_uvarint.simps, subst num_uvarint_bytes.simps, simp)

lemma num_uvarint_bytes_pos: "0 < num_uvarint_bytes x"
  by (subst num_uvarint_bytes.simps) simp

lemma put_uvarint_not_Nil [simp]: "put_uvarint x \<noteq> []"
  by (subst put_uvarint.simps) simp

lemma length_put_uvarints: "length (put_uvarints vs) = sum_list (map num_uvarint_bytes vs)"
  by (induction vs) (simp_all add: length_put_uvarint)

lemma total_uvarint_bytes_eq:
  "total_uvarint_bytes a b c d e more = length (put_uvarints ([a, b, c, d, e] @ more))"
  by (simp add: total_uvarint_bytes_def length_put_uvarint length_put_uvarints)

text \<open>A value below \<open>2 ^ (7 * k)\<close> takes at most \<open>k\<close> bytes, so none takes more than ten.\<close>

lemma num_uvarint_bytes_le: "unat x < 2 ^ (7 * k) \<Longrightarrow> 0 < k \<Longrightarrow> num_uvarint_bytes x \<le> k"
proof (induction k arbitrary: x)
  case 0
  then show ?case by simp
next
  case (Suc k)
  show ?case
  proof (cases "x < 0x80")
    case True
    then show ?thesis by (subst num_uvarint_bytes.simps) simp
  next
    case False
    then have big: "128 \<le> unat x" by (simp add: word_less_nat_alt)
    have "unat x div 128 < 2 ^ (7 * k)"
      using Suc.prems(1) by (simp add: power_add less_mult_imp_div_less)
    moreover have "0 < k"
      using big Suc.prems(1) by (cases k) auto
    ultimately have "num_uvarint_bytes (drop_bit 7 x) \<le> k"
      by (intro Suc.IH) (simp_all add: unat_drop_7)
    with False show ?thesis by (subst num_uvarint_bytes.simps) simp
  qed
qed

definition maxVarintLen64 :: nat where
  "maxVarintLen64 = 10"

lemma num_uvarint_bytes_max: "num_uvarint_bytes x \<le> maxVarintLen64"
proof -
  have "unat x < 2 ^ (7 * 10)"
    by (rule less_le_trans [OF unsigned_less]) simp
  then show ?thesis
    unfolding maxVarintLen64_def by (rule num_uvarint_bytes_le) simp
qed

section \<open>Reading a slice\<close>

text \<open>The loop of \<open>binary.Uvarint\<close> at byte \<open>i\<close>; the shift is \<open>7 * i\<close>.\<close>

fun uvarint_loop :: "nat \<Rightarrow> u64 \<Rightarrow> bytes \<Rightarrow> u64 \<times> int" where
  "uvarint_loop i x [] = (0, 0)"
| "uvarint_loop i x (b # buf) =
     (if i = maxVarintLen64 then (0, - (int i + 1))
      else if b < 0x80 then
        (if i = maxVarintLen64 - 1 \<and> b > 1 then (0, - (int i + 1))
         else (x OR push_bit (7 * i) (ucast b), int i + 1))
      else uvarint_loop (Suc i) (x OR push_bit (7 * i) (ucast (b AND 0x7f))) buf)"

definition uvarint :: "bytes \<Rightarrow> u64 \<times> int" where
  "uvarint buf = uvarint_loop 0 0 buf"

lemma ucast_small:
  fixes v :: u64
  assumes "v < 0x80"
  shows "ucast (ucast v :: byte) = v"
proof -
  have "unat v < 128" using assms by (simp add: word_less_nat_alt)
  then have b: "unat (ucast v :: byte) = unat v"
    unfolding unsigned_ucast_eq by (intro take_bit_nat_eq_self) simp
  have "unat (ucast (ucast v :: byte) :: u64) = unat (ucast v :: byte)"
    unfolding unsigned_ucast_eq [where 'c = 64] by (intro take_bit_nat_eq_self) (rule less_le_trans [OF unsigned_less], simp)
  then have "unat (ucast (ucast v :: byte) :: u64) = unat v" by (simp only: b)
  then show ?thesis by (simp add: word_unat_eq_iff)
qed

lemma seven_bits: "ucast ((ucast v OR 0x80 :: byte) AND 0x7f) = v AND (0x7f :: u64)" for v :: u64
proof (rule bit_word_eqI)
  fix n :: nat assume "n < LENGTH(64)"
  have m: "(0x7f :: byte) = mask 7" "(0x7f :: u64) = mask 7" "(0x80 :: byte) = push_bit 7 1"
    by (simp_all add: mask_eq_exp_minus_1)
  have h: "bit (0x80 :: byte) k = (k = 7)" for k
    unfolding m by (simp only: bit_push_bit_iff bit_1_iff) auto
  show "bit (ucast ((ucast v OR 0x80 :: byte) AND 0x7f) :: u64) n = bit (v AND 0x7f) n"
    unfolding m(1,2) by (auto simp: bit_simps h simp del: bit_numeral_word_iff)
qed

lemma high_bit: "\<not> (ucast v OR 0x80 :: byte) < 0x80" for v :: u64
proof
  assume "(ucast v OR 0x80 :: byte) < 0x80"
  then have "unat (ucast v OR 0x80 :: byte) < 2 ^ 7" by (simp add: word_less_nat_alt)
  then have "\<not> bit (unat (ucast v OR 0x80 :: byte)) 7"
    by (metis bit_take_bit_iff less_irrefl take_bit_nat_eq_self)
  moreover have "(0x80 :: byte) = push_bit 7 1" by simp
  then have "bit (ucast v OR 0x80 :: byte) 7" by (simp only: bit_or_iff) (simp add: bit_simps)
  ultimately show False by (simp add: bit_unsigned_iff)
qed

lemma or_shifted: "(x OR push_bit k (v AND 0x7f)) OR push_bit (k + 7) (drop_bit 7 v) = x OR push_bit k v" for v :: u64
proof (rule bit_word_eqI)
  fix n :: nat assume "n < LENGTH(64)"
  have m: "(0x7f :: u64) = mask 7"
    by (simp_all add: mask_eq_exp_minus_1)
  have "7 + (n - (k + 7)) = n - k" if "k + 7 \<le> n"
    using that by simp
  then show "bit ((x OR push_bit k (v AND 0x7f)) OR push_bit (k + 7) (drop_bit 7 v)) n = bit (x OR push_bit k v) n"
    unfolding m using \<open>n < LENGTH(64)\<close> by (cases "k + 7 \<le> n") (auto simp: bit_simps)
qed

text \<open>What is left of a value below \<open>2 ^ (64 - 7 * i)\<close> is read from byte \<open>i\<close> on.\<close>

lemma uvarint_loop_put:
  assumes "unat v < 2 ^ (64 - 7 * i)" and "i \<le> 9"
  shows "uvarint_loop i x (put_uvarint v @ rest) = (x OR push_bit (7 * i) v, int (i + num_uvarint_bytes v))"
  using assms
proof (induction v arbitrary: i x rule: put_uvarint.induct)
  case (1 v)
  show ?case
  proof (cases "v < 0x80")
    case True
    have b: "(ucast v :: byte) < 0x80"
      using True by (simp add: word_less_nat_alt unsigned_ucast_eq take_bit_eq_mod)
    have one: "\<not> (ucast v :: byte) > 1" if "i = 9"
      using 1(2) that by (simp add: word_less_nat_alt unsigned_ucast_eq take_bit_eq_mod)
    show ?thesis
      using True b one 1(3)
      by (subst put_uvarint.simps, subst num_uvarint_bytes.simps)
        (auto simp: maxVarintLen64_def ucast_small)
  next
    case False
    then have big: "128 \<le> unat v" by (simp add: word_less_nat_alt)
    have i: "i < 9"
    proof (rule ccontr)
      assume "\<not> i < 9"
      with 1(3) have "i = 9" by simp
      with 1(2) big show False by simp
    qed
    have e: "64 - 7 * i = (64 - 7 * Suc i) + 7"
      using i by simp
    have "unat (drop_bit 7 v) < 2 ^ (64 - 7 * Suc i)"
      using 1(2) unfolding e power_add unat_drop_7 by (intro less_mult_imp_div_less) simp
    with 1(1) [OF False, of "Suc i"] i False high_bit [of v] show ?thesis
      by (subst put_uvarint.simps, subst num_uvarint_bytes.simps)
        (simp add: maxVarintLen64_def seven_bits or_shifted add.commute [of 7] del: push_bit_and)
  qed
qed

lemma uvarint_put [zap_simps]: "uvarint (put_uvarint v @ rest) = (v, int (num_uvarint_bytes v))"
proof -
  have "unat v < 2 ^ (64 - 7 * 0)"
    by (rule less_le_trans [OF unsigned_less]) simp
  then show ?thesis
    using uvarint_loop_put [of v 0 0 rest] by (simp add: uvarint_def)
qed

section \<open>The reader over a slice in memory\<close>

record mem_reader =
  rd_C :: nat
  rd_S :: bytes

definition new_mem_uvarint_reader :: "bytes \<Rightarrow> mem_reader" where
  "new_mem_uvarint_reader s = \<lparr>rd_C = 0, rd_S = s\<rparr>"

definition mem_len :: "mem_reader \<Rightarrow> nat" where
  "mem_len r = (if int (length (rd_S r)) - int (rd_C r) < 0 then 0 else length (rd_S r) - rd_C r)"

text \<open>
  The loop of \<open>ReadUvarint\<close> over the bytes from \<open>C\<close> on. The cursor of the reader moves only when
  the last byte is found; without one the index runs past the slice.
\<close>

fun read_uvarint_loop :: "nat \<Rightarrow> nat \<Rightarrow> u64 \<Rightarrow> bytes \<Rightarrow> (zap_error, u64) result \<times> nat option" where
  "read_uvarint_loop C s x [] = (Inl Panic, None)"
| "read_uvarint_loop C s x (b # bs) =
     (if b < 0x80 then
        (if 63 \<le> s \<and> (63 < s \<or> b > 1) then Inl MemUvarintOverflow
         else Inr (x OR push_bit s (ucast b)), Some (Suc C))
      else read_uvarint_loop (Suc C) (s + 7) (x OR push_bit s (ucast (b AND 0x7f))) bs)"

definition read_uvarint :: "mem_reader \<Rightarrow> (zap_error, u64) result \<times> mem_reader" where
  "read_uvarint r =
     (if rd_C r \<ge> length (rd_S r) then (Inr 0, r)
      else case read_uvarint_loop (rd_C r) 0 0 (drop (rd_C r) (rd_S r)) of
        (v, None) \<Rightarrow> (v, r)
      | (v, Some C) \<Rightarrow> (v, r\<lparr>rd_C := C\<rparr>))"

fun skip_uvarint_loop :: "nat \<Rightarrow> bytes \<Rightarrow> nat" where
  "skip_uvarint_loop C [] = C"
| "skip_uvarint_loop C (b # bs) = (if b < 0x80 then Suc C else skip_uvarint_loop (Suc C) bs)"

definition skip_uvarint :: "mem_reader \<Rightarrow> mem_reader" where
  "skip_uvarint r = r\<lparr>rd_C := skip_uvarint_loop (rd_C r) (drop (rd_C r) (rd_S r))\<rparr>"

definition skip_bytes :: "nat \<Rightarrow> mem_reader \<Rightarrow> mem_reader" where
  "skip_bytes n r = r\<lparr>rd_C := rd_C r + n\<rparr>"

definition mem_reset :: "bytes \<Rightarrow> mem_reader \<Rightarrow> mem_reader" where
  "mem_reset s r = r\<lparr>rd_C := 0, rd_S := s\<rparr>"

text \<open>What is still to be read.\<close>

definition remaining :: "mem_reader \<Rightarrow> bytes" where
  "remaining r = drop (rd_C r) (rd_S r)"

lemma remaining_new [zap_simps]: "remaining (new_mem_uvarint_reader s) = s" "remaining (mem_reset s r) = s"
  by (simp_all add: remaining_def new_mem_uvarint_reader_def mem_reset_def)

lemma mem_len_remaining: "mem_len r = length (remaining r)"
  by (simp add: mem_len_def remaining_def)

lemma read_uvarint_loop_put:
  assumes "unat v < 2 ^ (64 - 7 * i)" and "i \<le> 9"
  shows "read_uvarint_loop C (7 * i) x (put_uvarint v @ rest) =
    (Inr (x OR push_bit (7 * i) v), Some (C + num_uvarint_bytes v))"
  using assms
proof (induction v arbitrary: i x C rule: put_uvarint.induct)
  case (1 v)
  show ?case
  proof (cases "v < 0x80")
    case True
    have b: "(ucast v :: byte) < 0x80"
      using True by (simp add: word_less_nat_alt unsigned_ucast_eq take_bit_eq_mod)
    have one: "\<not> (ucast v :: byte) > 1" if "63 \<le> 7 * i"
    proof -
      have "i = 9" using that 1(3) by simp
      then show ?thesis
        using 1(2) by (simp add: word_less_nat_alt unsigned_ucast_eq take_bit_eq_mod)
    qed
    have "\<not> (63 < 7 * i)"
      using 1(3) by simp
    then show ?thesis
      using True b one
      by (subst put_uvarint.simps, subst num_uvarint_bytes.simps) (simp add: ucast_small)
  next
    case False
    then have big: "128 \<le> unat v" by (simp add: word_less_nat_alt)
    have i: "i < 9"
    proof (rule ccontr)
      assume "\<not> i < 9"
      with 1(3) have "i = 9" by simp
      with 1(2) big show False by simp
    qed
    have e: "64 - 7 * i = (64 - 7 * Suc i) + 7"
      using i by simp
    have "unat (drop_bit 7 v) < 2 ^ (64 - 7 * Suc i)"
      using 1(2) unfolding e power_add unat_drop_7 by (intro less_mult_imp_div_less) simp
    with 1(1) [OF False, of "Suc i"] i False high_bit [of v] show ?thesis
      by (subst put_uvarint.simps, subst num_uvarint_bytes.simps)
        (simp add: seven_bits or_shifted add.commute [of 7] del: push_bit_and)
  qed
qed

lemma drop_put_uvarint: "drop (num_uvarint_bytes v) (put_uvarint v @ rest) = rest"
  by (metis append_eq_conv_conj length_put_uvarint)

text \<open>Reading, skipping and skipping bytes behind an encoded value.\<close>

definition moved :: "nat \<Rightarrow> mem_reader \<Rightarrow> mem_reader" where
  "moved n r = r\<lparr>rd_C := rd_C r + n\<rparr>"

lemma remaining_moved: "remaining (moved n r) = drop n (remaining r)"
  by (simp add: remaining_def moved_def add.commute)

lemma moved_moved [simp]: "moved m (moved n r) = moved (n + m) r" "moved 0 r = r"
  by (simp_all add: moved_def add.assoc)

lemma read_uvarint_put:
  assumes "remaining r = put_uvarint v @ rest"
  shows "read_uvarint r = (Inr v, moved (num_uvarint_bytes v) r)"
    and "remaining (moved (num_uvarint_bytes v) r) = rest"
proof -
  have "rd_C r < length (rd_S r)"
    using assms by (metis append_is_Nil_conv drop_all linorder_not_less put_uvarint_not_Nil remaining_def)
  moreover have "unat v < 2 ^ (64 - 7 * 0)"
    by (rule less_le_trans [OF unsigned_less]) simp
  then have "read_uvarint_loop (rd_C r) 0 0 (put_uvarint v @ rest) =
      (Inr v, Some (rd_C r + num_uvarint_bytes v))"
    using read_uvarint_loop_put [of v 0 "rd_C r" 0 rest] by simp
  ultimately show "read_uvarint r = (Inr v, moved (num_uvarint_bytes v) r)"
    using assms by (simp add: read_uvarint_def remaining_def moved_def)
  show "remaining (moved (num_uvarint_bytes v) r) = rest"
    unfolding remaining_moved assms by (rule drop_put_uvarint)
qed

lemma skip_uvarint_loop_put:
  "skip_uvarint_loop C (put_uvarint v @ rest) = C + num_uvarint_bytes v"
proof (induction v arbitrary: C rule: put_uvarint.induct)
  case (1 v)
  show ?case
  proof (cases "v < 0x80")
    case True
    then have "(ucast v :: byte) < 0x80"
      by (simp add: word_less_nat_alt unsigned_ucast_eq take_bit_eq_mod)
    then show ?thesis
      using True by (subst put_uvarint.simps, subst num_uvarint_bytes.simps) simp
  next
    case False
    then show ?thesis
      using 1 [OF False] high_bit [of v]
      by (subst put_uvarint.simps, subst num_uvarint_bytes.simps) simp
  qed
qed

lemma skip_uvarint_put:
  "remaining r = put_uvarint v @ rest \<Longrightarrow> skip_uvarint r = moved (num_uvarint_bytes v) r"
  by (simp add: skip_uvarint_def remaining_def moved_def skip_uvarint_loop_put)

lemma skip_bytes_moved: "skip_bytes n r = moved n r"
  by (simp add: skip_bytes_def moved_def)

section \<open>Slices of a segment\<close>

text \<open>\<open>mem[lo:hi]\<close> with \<open>uint64\<close> bounds, of a slice whose capacity is its length.\<close>

definition mem_slice :: "bytes \<Rightarrow> u64 \<Rightarrow> u64 \<Rightarrow> (zap_error, bytes) result" where
  "mem_slice mem lo hi =
     (if lo \<le> hi \<and> unat hi \<le> length mem then Inr (take (unat hi - unat lo) (drop (unat lo) mem))
      else Inl Panic)"

definition fits :: "bytes \<Rightarrow> bool" where
  "fits mem \<longleftrightarrow> length mem < 2 ^ 63"

lemma unat_small: "n < 2 ^ 64 \<Longrightarrow> unat (of_nat n :: u64) = n"
  by (simp add: unat_of_nat)

lemma mem_slice_nat:
  assumes "fits mem" and "lo + n \<le> length mem" and "p = of_nat lo" and "q = of_nat (lo + n)"
  shows "mem_slice mem p q = Inr (take n (drop lo mem))"
proof -
  have "lo + n < 2 ^ 64" using assms by (simp add: fits_def)
  then have "unat p = lo" "unat q = lo + n"
    unfolding assms(3,4) by (intro unat_small, simp)+
  then show ?thesis
    using assms(2) by (simp add: mem_slice_def word_le_nat_alt)
qed

text \<open>An integer that is encoded at a position with ten bytes to spare.\<close>

definition uvarint_at :: "bytes \<Rightarrow> u64 \<Rightarrow> (zap_error, u64 \<times> int) result" where
  "uvarint_at mem pos =
     bind_result (mem_slice mem pos (pos + of_nat maxVarintLen64)) (\<lambda>buf. Inr (uvarint buf))"

lemma uvarint_at_put:
  assumes "fits mem" and "drop pos mem = put_uvarint v @ rest" and "pos + maxVarintLen64 \<le> length mem"
    and "p = of_nat pos"
  shows "uvarint_at mem p = Inr (v, int (num_uvarint_bytes v))"
proof -
  have "take maxVarintLen64 (put_uvarint v @ rest) =
      put_uvarint v @ take (maxVarintLen64 - num_uvarint_bytes v) rest"
    using num_uvarint_bytes_max [of v] by (simp add: length_put_uvarint)
  then show ?thesis
    using mem_slice_nat [OF assms(1,3,4)] assms(2,4) by (simp add: uvarint_at_def uvarint_put)
qed

end
