(* ===== verification/Zap_Int_Coder.thy ===== *)
theory Zap_Int_Coder
  imports Zap_Varint
begin

text \<open>
  The chunked streams of integers of a segment: how they are written (\<open>internal/zapxtext/intcoder.go\<close>)
  and read back (\<open>intDecoder.go\<close>), and how large a chunk is (\<open>chunk.go\<close>). The compression of
  the package \<open>snappy\<close> and the callbacks that may transform what is written and read
  (\<open>file_callbacks.go\<close>) are parameters; writes to the file do not fail.
\<close>

section \<open>Chunk sizes\<close>

definition get_chunk_size :: "32 word \<Rightarrow> u64 \<Rightarrow> u64 \<Rightarrow> (zap_error, u64) result" where
  "get_chunk_size chunkMode cardinality maxDocs =
     (if chunkMode = 0 then Inl ChunkSizeZero
      else if chunkMode \<le> 1024 then Inr (ucast chunkMode)
      else if chunkMode = 1025 then
        (if cardinality \<le> 1024 then (if maxDocs = 0 then Inl ChunkSizeZero else Inr maxDocs)
         else Inr 1024)
      else if chunkMode = 1026 then
        (let numChunks = cardinality div 1024 + 1; chunkSize = maxDocs div numChunks
         in if chunkSize = 0 then Inl ChunkSizeZero else Inr chunkSize)
      else Inl (UnknownChunkMode chunkMode))"

lemma unat_mode: "unat (ucast m :: u64) = unat m" for m :: "32 word"
  unfolding unsigned_ucast_eq
  by (intro take_bit_nat_eq_self) (rule less_le_trans [OF unsigned_less], simp)

lemma get_chunk_size_pos: "get_chunk_size chunkMode cardinality maxDocs = Inr cs \<Longrightarrow> 0 < cs"
  by (auto simp: get_chunk_size_def Let_def word_gt_0 word_unat_eq_iff unat_mode split: if_splits)

section \<open>Callbacks\<close>

text \<open>The processor of a file writer, if there is one, and of a file reader, which may fail.\<close>

type_synonym writer_processor = "(bytes \<Rightarrow> bytes) option"
type_synonym reader_processor = "(bytes \<Rightarrow> bytes option) option"

definition writer_process :: "writer_processor \<Rightarrow> bytes \<Rightarrow> bytes" where
  "writer_process pr data = (case pr of None \<Rightarrow> data | Some f \<Rightarrow> f data)"

definition reader_process :: "reader_processor \<Rightarrow> bytes \<Rightarrow> bytes option" where
  "reader_process fr data = (case fr of None \<Rightarrow> Some data | Some f \<Rightarrow> f data)"

section \<open>The coder\<close>

text \<open>The slice \<open>chunkLens\<close> is its backing array with its length; the array's length is its capacity.\<close>

record int_coder =
  ic_final :: bytes
  ic_chunkSize :: u64
  ic_chunkBuf :: bytes
  ic_chunkArr :: "u64 list"
  ic_chunkCount :: nat
  ic_currChunk :: u64
  ic_bytesWritten :: u64

definition ic_chunkLens :: "int_coder \<Rightarrow> u64 list" where
  "ic_chunkLens c = take (ic_chunkCount c) (ic_chunkArr c)"

definition total_chunks :: "u64 \<Rightarrow> u64 \<Rightarrow> (zap_error, nat) result" where
  "total_chunks chunkSize maxDocNum =
     (let total = maxDocNum div chunkSize + 1
      in if chunkSize = 0 \<or> 0x8000000000000000 \<le> total then Inl Panic else Inr (unat total))"

definition new_int_coder :: "u64 \<Rightarrow> u64 \<Rightarrow> (zap_error, int_coder) result" where
  "new_int_coder chunkSize maxDocNum =
     bind_result (total_chunks chunkSize maxDocNum) (\<lambda>total.
       Inr \<lparr>ic_final = [], ic_chunkSize = chunkSize, ic_chunkBuf = [],
            ic_chunkArr = replicate total 0, ic_chunkCount = total, ic_currChunk = 0,
            ic_bytesWritten = 0\<rparr>)"

definition int_coder_reset :: "int_coder \<Rightarrow> int_coder" where
  "int_coder_reset c =
     c\<lparr>ic_final := [], ic_bytesWritten := 0, ic_chunkBuf := [], ic_currChunk := 0,
       ic_chunkArr := replicate (ic_chunkCount c) 0 @ drop (ic_chunkCount c) (ic_chunkArr c)\<rparr>"

definition int_coder_set_chunk_size :: "u64 \<Rightarrow> u64 \<Rightarrow> int_coder \<Rightarrow> (zap_error, int_coder) result" where
  "int_coder_set_chunk_size chunkSize maxDocNum c =
     bind_result (total_chunks chunkSize maxDocNum) (\<lambda>total.
       Inr (if length (ic_chunkArr c) < total
         then c\<lparr>ic_chunkSize := chunkSize, ic_chunkArr := replicate total 0, ic_chunkCount := total\<rparr>
         else c\<lparr>ic_chunkSize := chunkSize, ic_chunkCount := total\<rparr>))"

definition intChunkRaw :: byte where "intChunkRaw = 0"
definition intChunkSnappy :: byte where "intChunkSnappy = 1"

text \<open>\<open>c.chunkLens[i] = v\<close>.\<close>

definition set_chunk_len :: "u64 \<Rightarrow> u64 \<Rightarrow> int_coder \<Rightarrow> (zap_error, int_coder) result" where
  "set_chunk_len i v c =
     (if unat i < ic_chunkCount c then Inr (c\<lparr>ic_chunkArr := (ic_chunkArr c)[unat i := v]\<rparr>)
      else Inl Panic)"

definition int_coder_close :: "(bytes \<Rightarrow> bytes) \<Rightarrow> int_coder \<Rightarrow> (zap_error, int_coder) result" where
  "int_coder_close encode c =
     (let encodingBytes = ic_chunkBuf c;
          c = c\<lparr>ic_bytesWritten := ic_bytesWritten c + of_nat (length encodingBytes)\<rparr>
      in bind_result
        (if encodingBytes \<noteq> [] then
           let compressed = encode encodingBytes;
               (flag, payload) = (if length compressed < length encodingBytes
                 then (intChunkSnappy, compressed) else (intChunkRaw, encodingBytes))
           in set_chunk_len (ic_currChunk c) (1 + of_nat (length payload))
                (c\<lparr>ic_final := ic_final c @ flag # payload\<rparr>)
         else set_chunk_len (ic_currChunk c) 0 c)
        (\<lambda>c. Inr (c\<lparr>ic_currChunk := of_nat (length (ic_chunkArr c))\<rparr>)))"

text \<open>The chunk of the document is the current one from here on.\<close>

definition int_coder_turn :: "(bytes \<Rightarrow> bytes) \<Rightarrow> u64 \<Rightarrow> int_coder \<Rightarrow> (zap_error, int_coder) result" where
  "int_coder_turn encode docNum c =
     (if ic_chunkSize c = 0 then Inl Panic
      else let chunk = docNum div ic_chunkSize c
        in if chunk \<noteq> ic_currChunk c then
             bind_result (int_coder_close encode c) (\<lambda>c. Inr (c\<lparr>ic_chunkBuf := [], ic_currChunk := chunk\<rparr>))
           else Inr c)"

definition int_coder_add ::
  "(bytes \<Rightarrow> bytes) \<Rightarrow> u64 \<Rightarrow> u64 list \<Rightarrow> int_coder \<Rightarrow> (zap_error, int_coder) result" where
  "int_coder_add encode docNum vals c =
     bind_result (int_coder_turn encode docNum c) (\<lambda>c.
       Inr (fold (\<lambda>val c. c\<lparr>ic_chunkBuf := ic_chunkBuf c @ put_uvarint val\<rparr>) vals c))"

definition int_coder_add_bytes ::
  "(bytes \<Rightarrow> bytes) \<Rightarrow> u64 \<Rightarrow> bytes \<Rightarrow> int_coder \<Rightarrow> (zap_error, int_coder) result" where
  "int_coder_add_bytes encode docNum buf c =
     bind_result (int_coder_turn encode docNum c) (\<lambda>c.
       Inr (c\<lparr>ic_chunkBuf := ic_chunkBuf c @ buf\<rparr>))"

text \<open>Every chunk that has bytes goes through the processor; the new lengths come with them.\<close>

fun process_chunks_loop :: "(bytes \<Rightarrow> bytes) \<Rightarrow> bytes \<Rightarrow> nat \<Rightarrow> u64 list \<Rightarrow> (zap_error, bytes \<times> u64 list) result" where
  "process_chunks_loop f final pos [] = Inr ([], [])"
| "process_chunks_loop f final pos (len # lens) =
     (if len = 0 then
        bind_result (process_chunks_loop f final pos lens) (\<lambda>(buf, lens). Inr (buf, 0 # lens))
      else let stop = pos + unat len
        in if length final < stop then Inl Panic
           else let processed = f (take (unat len) (drop pos final))
             in bind_result (process_chunks_loop f final stop lens) (\<lambda>(buf, lens).
                  Inr (processed @ buf, of_nat (length processed) # lens)))"

definition process_chunks :: "(bytes \<Rightarrow> bytes) \<Rightarrow> int_coder \<Rightarrow> (zap_error, int_coder) result" where
  "process_chunks f c =
     bind_result (process_chunks_loop f (ic_final c) 0 (ic_chunkLens c)) (\<lambda>(buf, lens).
       Inr (c\<lparr>ic_final := buf, ic_chunkArr := lens @ drop (ic_chunkCount c) (ic_chunkArr c)\<rparr>))"

fun end_offsets_loop :: "u64 \<Rightarrow> u64 list \<Rightarrow> u64 list" where
  "end_offsets_loop runningOffset [] = []"
| "end_offsets_loop runningOffset (len # lens) =
     (runningOffset + len) # end_offsets_loop (runningOffset + len) lens"

definition modify_lengths_to_end_offsets :: "u64 list \<Rightarrow> u64 list" where
  "modify_lengths_to_end_offsets lengths = end_offsets_loop 0 lengths"

text \<open>
  \<open>Write\<close> and \<open>writeAt\<close> to a file that holds \<open>out\<close>. The lengths become offsets in place.
\<close>

definition int_coder_write ::
  "writer_processor \<Rightarrow> bytes \<Rightarrow> int_coder \<Rightarrow> (zap_error, bytes \<times> int_coder) result" where
  "int_coder_write pr out c =
     bind_result (case pr of None \<Rightarrow> Inr c | Some f \<Rightarrow> process_chunks f c) (\<lambda>c.
       let chunkOffsets = modify_lengths_to_end_offsets (ic_chunkLens c)
       in Inr (out @ put_uvarint (of_nat (length chunkOffsets)) @ put_uvarints chunkOffsets @ ic_final c,
               c\<lparr>ic_chunkArr := chunkOffsets @ drop (ic_chunkCount c) (ic_chunkArr c)\<rparr>))"

definition termNotEncoded :: u64 where "termNotEncoded = 0"

definition int_coder_write_at ::
  "writer_processor \<Rightarrow> bytes \<Rightarrow> int_coder \<Rightarrow> (zap_error, u64 \<times> bytes \<times> int_coder) result" where
  "int_coder_write_at pr out c =
     (if ic_final c = [] then Inr (termNotEncoded, out, c)
      else bind_result (int_coder_write pr out c) (\<lambda>(out', c). Inr (of_nat (length out), out', c)))"

section \<open>The decoder\<close>

record int_decoder =
  id_startOffset :: u64
  id_dataStartOffset :: u64
  id_chunkOffsets :: "u64 list"
  id_curChunkBytes :: bytes
  id_data :: bytes
  id_r :: "mem_reader option"
  id_bytesRead :: u64

fun read_offsets :: "bytes \<Rightarrow> u64 \<Rightarrow> u64 \<Rightarrow> nat \<Rightarrow> (zap_error, u64 list \<times> u64) result" where
  "read_offsets buf offset n 0 = Inr ([], n)"
| "read_offsets buf offset n (Suc k) =
     bind_result (uvarint_at buf (offset + n)) (\<lambda>(v, read).
       bind_result (read_offsets buf offset (n + of_int read) k) (\<lambda>(vs, n). Inr (v # vs, n)))"

definition new_int_decoder :: "bytes \<Rightarrow> u64 \<Rightarrow> int_decoder option \<Rightarrow> (zap_error, int_decoder) result" where
  "new_int_decoder buf offset rv =
     (let rv = (case rv of
            None \<Rightarrow> \<lparr>id_startOffset = offset, id_dataStartOffset = 0, id_chunkOffsets = [],
              id_curChunkBytes = [], id_data = buf, id_r = None, id_bytesRead = 0\<rparr>
          | Some d \<Rightarrow> d\<lparr>id_startOffset := offset, id_data := buf\<rparr>)
      in bind_result
          (if offset = termNotEncoded then Inr (0, 0) else uvarint_at buf (offset + 0)) (\<lambda>(numChunks, read).
          if 2 ^ 63 \<le> unat numChunks then Inl Panic
          else bind_result (read_offsets buf offset (of_int read) (unat numChunks)) (\<lambda>(offsets, n).
            Inr (rv\<lparr>id_chunkOffsets := offsets, id_bytesRead := id_bytesRead rv + n,
                     id_dataStartOffset := offset + n\<rparr>))))"

definition read_chunk_boundary :: "nat \<Rightarrow> u64 list \<Rightarrow> u64 \<times> u64" where
  "read_chunk_boundary chunk offsets = (if 0 < chunk then offsets ! (chunk - 1) else 0, offsets ! chunk)"

definition load_chunk ::
  "(bytes \<Rightarrow> bytes option) \<Rightarrow> reader_processor \<Rightarrow> nat \<Rightarrow> int_decoder \<Rightarrow> (zap_error, int_decoder) result" where
  "load_chunk decode fr chunk d =
     (if id_startOffset d = termNotEncoded then Inr (d\<lparr>id_r := Some (new_mem_uvarint_reader [])\<rparr>)
      else if length (id_chunkOffsets d) \<le> chunk then Inl (ChunkMissing chunk (length (id_chunkOffsets d)))
      else let (s, e) = read_chunk_boundary chunk (id_chunkOffsets d);
               start = id_dataStartOffset d + s; stop = id_dataStartOffset d + e
        in bind_result (mem_slice (id_data d) start stop) (\<lambda>stored.
          case reader_process fr stored of
            None \<Rightarrow> Inl (ChunkProcess chunk)
          | Some [] \<Rightarrow> Inl (ChunkEmpty chunk)
          | Some (flag # payload) \<Rightarrow>
              bind_result
                (if flag = intChunkRaw then Inr payload
                 else if flag = intChunkSnappy then
                   (case decode payload of None \<Rightarrow> Inl (ChunkDecompress chunk) | Some b \<Rightarrow> Inr b)
                 else Inl (ChunkEncoding flag))
                (\<lambda>bytes. Inr (d\<lparr>id_curChunkBytes := bytes, id_bytesRead := id_bytesRead d + (stop - start),
                   id_r := Some (case id_r d of None \<Rightarrow> new_mem_uvarint_reader bytes | Some r \<Rightarrow> mem_reset bytes r)\<rparr>))))"

definition int_decoder_reset :: "int_decoder \<Rightarrow> int_decoder" where
  "int_decoder_reset d =
     \<lparr>id_startOffset = 0, id_dataStartOffset = 0, id_chunkOffsets = [], id_curChunkBytes = [],
      id_data = [], id_r = map_option (mem_reset []) (id_r d), id_bytesRead = 0\<rparr>"

definition int_decoder_is_nil :: "int_decoder \<Rightarrow> bool" where
  "int_decoder_is_nil d \<longleftrightarrow> id_curChunkBytes d = []"

text \<open>The reader of the chunk; before a chunk is loaded there is none and its methods panic.\<close>

definition decoder_read_uvarint :: "int_decoder \<Rightarrow> (zap_error, u64 \<times> int_decoder) result" where
  "decoder_read_uvarint d = (case id_r d of None \<Rightarrow> Inl Panic
     | Some r \<Rightarrow> (case read_uvarint r of (Inl e, r) \<Rightarrow> Inl e | (Inr v, r) \<Rightarrow> Inr (v, d\<lparr>id_r := Some r\<rparr>)))"

definition decoder_skip_uvarint :: "int_decoder \<Rightarrow> (zap_error, int_decoder) result" where
  "decoder_skip_uvarint d = (case id_r d of None \<Rightarrow> Inl Panic | Some r \<Rightarrow> Inr (d\<lparr>id_r := Some (skip_uvarint r)\<rparr>))"

definition decoder_skip_bytes :: "nat \<Rightarrow> int_decoder \<Rightarrow> (zap_error, int_decoder) result" where
  "decoder_skip_bytes n d = (case id_r d of None \<Rightarrow> Inl Panic | Some r \<Rightarrow> Inr (d\<lparr>id_r := Some (skip_bytes n r)\<rparr>))"

definition decoder_len :: "int_decoder \<Rightarrow> (zap_error, nat) result" where
  "decoder_len d = (case id_r d of None \<Rightarrow> Inl Panic | Some r \<Rightarrow> Inr (mem_len r))"

definition decoder_remaining_len :: "int_decoder \<Rightarrow> (zap_error, nat) result" where
  "decoder_remaining_len d = (case id_r d of None \<Rightarrow> Inl Panic
     | Some r \<Rightarrow> Inr (length (id_curChunkBytes d) - mem_len r))"

definition decoder_read_bytes :: "nat \<Rightarrow> nat \<Rightarrow> int_decoder \<Rightarrow> (zap_error, bytes) result" where
  "decoder_read_bytes start stop d =
     (if start \<le> stop \<and> stop \<le> length (id_curChunkBytes d)
      then Inr (take (stop - start) (drop start (id_curChunkBytes d))) else Inl Panic)"

section \<open>What the coder holds\<close>

text \<open>The bytes of a chunk as they are stored, before the processor.\<close>

definition stored_chunk :: "(bytes \<Rightarrow> bytes) \<Rightarrow> bytes \<Rightarrow> bytes" where
  "stored_chunk encode bs =
     (if bs = [] then []
      else if length (encode bs) < length bs then intChunkSnappy # encode bs else intChunkRaw # bs)"

lemma stored_chunk_Nil [simp]: "stored_chunk encode [] = []" "stored_chunk encode bs = [] \<longleftrightarrow> bs = []"
  by (simp_all add: stored_chunk_def)

text \<open>
  A coder that has received the bytes \<open>bs i\<close> for every chunk \<open>i\<close> and stands at chunk \<open>k\<close> of
  \<open>n\<close>; and one that is closed.
\<close>

definition coder_at :: "(bytes \<Rightarrow> bytes) \<Rightarrow> u64 \<Rightarrow> nat \<Rightarrow> (nat \<Rightarrow> bytes) \<Rightarrow> nat \<Rightarrow> int_coder \<Rightarrow> bool" where
  "coder_at encode cs n bs k c \<longleftrightarrow>
     ic_chunkSize c = cs \<and> 0 < cs \<and> ic_chunkCount c = n \<and> n \<le> length (ic_chunkArr c) \<and> n < 2 ^ 63 \<and>
     ic_currChunk c = of_nat k \<and> k < n \<and> ic_chunkBuf c = bs k \<and> (\<forall>i>k. bs i = []) \<and>
     ic_final c = concat (map (stored_chunk encode \<circ> bs) [0..<k]) \<and>
     (\<forall>i<length (ic_chunkArr c).
        ic_chunkArr c ! i = (if i < k then of_nat (length (stored_chunk encode (bs i))) else 0))"

definition stored_chunks :: "(bytes \<Rightarrow> bytes) \<Rightarrow> nat \<Rightarrow> (nat \<Rightarrow> bytes) \<Rightarrow> bytes list" where
  "stored_chunks encode n bs = map (stored_chunk encode \<circ> bs) [0..<n]"

lemma length_stored_chunks [simp]: "length (stored_chunks encode n bs) = n"
  by (simp add: stored_chunks_def)

definition coder_closed :: "(bytes \<Rightarrow> bytes) \<Rightarrow> nat \<Rightarrow> (nat \<Rightarrow> bytes) \<Rightarrow> int_coder \<Rightarrow> bool" where
  "coder_closed encode n bs c \<longleftrightarrow>
     ic_chunkCount c = n \<and> n \<le> length (ic_chunkArr c) \<and> n < 2 ^ 63 \<and>
     ic_final c = concat (stored_chunks encode n bs) \<and>
     ic_chunkLens c = map (\<lambda>b. of_nat (length b)) (stored_chunks encode n bs) \<and>
     (\<forall>i<length (ic_chunkArr c). n \<le> i \<longrightarrow> ic_chunkArr c ! i = 0)"

definition coder_fresh :: "u64 \<Rightarrow> nat \<Rightarrow> int_coder \<Rightarrow> bool" where
  "coder_fresh cs n c \<longleftrightarrow>
     ic_chunkSize c = cs \<and> 0 < cs \<and> ic_chunkCount c = n \<and> 0 < n \<and> n \<le> length (ic_chunkArr c) \<and> n < 2 ^ 63 \<and>
     ic_currChunk c = 0 \<and> ic_chunkBuf c = [] \<and> ic_final c = [] \<and>
     (\<forall>i<length (ic_chunkArr c). ic_chunkArr c ! i = 0)"

lemma coder_fresh_at: "coder_fresh cs n c \<Longrightarrow> coder_at encode cs n (\<lambda>i. []) 0 c"
  by (simp add: coder_fresh_def coder_at_def)

lemma total_chunks_eq:
  assumes "0 < cs" and "unat (maxDoc div cs) + 1 < 2 ^ 63"
  shows "total_chunks cs maxDoc = Inr (unat (maxDoc div cs) + 1)"
proof -
  have "unat (maxDoc div cs + 1) = unat (maxDoc div cs) + unat (1 :: u64)"
    using assms(2) by (intro iffD1 [OF unat_add_lem]) simp
  then show ?thesis
    using assms by (simp add: total_chunks_def Let_def word_gt_0 word_le_nat_alt)
qed

lemma new_int_coder_fresh:
  assumes "0 < cs" and "unat (maxDoc div cs) + 1 < 2 ^ 63"
  obtains c where "new_int_coder cs maxDoc = Inr c" and "coder_fresh cs (unat (maxDoc div cs) + 1) c"
  using assms by (simp add: new_int_coder_def total_chunks_eq coder_fresh_def nth_append del: replicate_Suc)

text \<open>A coder that was reset and is given another chunk size is as good as new.\<close>

definition coder_idle :: "int_coder \<Rightarrow> bool" where
  "coder_idle c \<longleftrightarrow> ic_currChunk c = 0 \<and> ic_chunkBuf c = [] \<and> ic_final c = [] \<and>
     (\<forall>i<length (ic_chunkArr c). ic_chunkArr c ! i = 0) \<and> ic_chunkCount c \<le> length (ic_chunkArr c)"

lemma int_coder_set_chunk_size_fresh:
  assumes "coder_idle c" and "0 < cs" and "unat (maxDoc div cs) + 1 < 2 ^ 63"
  obtains c' where "int_coder_set_chunk_size cs maxDoc c = Inr c'"
    and "coder_fresh cs (unat (maxDoc div cs) + 1) c'" and "coder_idle c'"
  using assms
  by (simp add: int_coder_set_chunk_size_def total_chunks_eq coder_fresh_def coder_idle_def del: replicate_Suc)

lemma int_coder_reset_idle:
  assumes "ic_chunkCount c \<le> length (ic_chunkArr c)"
    and "\<forall>i<length (ic_chunkArr c). ic_chunkCount c \<le> i \<longrightarrow> ic_chunkArr c ! i = 0"
  shows "coder_idle (int_coder_reset c)"
  using assms by (auto simp: coder_idle_def int_coder_reset_def nth_append)

lemma upto_Suc_split: "k < n \<Longrightarrow> [0..<n] = [0..<k] @ k # [Suc k..<n]"
  by (metis less_imp_le_nat upt_add_eq_append upt_conv_Cons le0 le_add_diff_inverse)

lemma concat_stored_after:
  assumes "\<forall>i>k. bs i = []" and "k < n"
  shows "concat (map (stored_chunk encode \<circ> bs) [0..<n]) =
    concat (map (stored_chunk encode \<circ> bs) [0..<k]) @ stored_chunk encode (bs k)"
proof -
  have "concat (map (stored_chunk encode \<circ> bs) [Suc k..<n]) = []"
    using assms(1) by simp
  then show ?thesis
    unfolding upto_Suc_split [OF assms(2)] by simp
qed

text \<open>Closing stores the current chunk and leaves the sentinel.\<close>

lemma int_coder_close_stores:
  assumes "coder_at encode cs n bs k c"
  shows "int_coder_close encode c = Inr (c\<lparr>
    ic_final := ic_final c @ stored_chunk encode (bs k),
    ic_chunkArr := (ic_chunkArr c)[k := of_nat (length (stored_chunk encode (bs k)))],
    ic_currChunk := of_nat (length (ic_chunkArr c)),
    ic_bytesWritten := ic_bytesWritten c + of_nat (length (bs k))\<rparr>)"
proof -
  have k: "unat (of_nat k :: u64) = k"
    using assms by (intro unat_small) (simp add: coder_at_def)
  show ?thesis
    using assms
    by (cases "bs k = []"; cases "length (encode (bs k)) < length (bs k)")
      (simp_all add: int_coder_close_def coder_at_def Let_def set_chunk_len_def k stored_chunk_def)
qed

lemma coder_closed_at:
  assumes "coder_at encode cs n bs k c" and "int_coder_close encode c = Inr c'"
  shows "coder_closed encode n bs c'"
proof -
  have e: "stored_chunk encode (bs i) = []" if "k < i" for i
    using assms(1) that by (simp add: coder_at_def)
  have "ic_chunkArr c' ! i = of_nat (length (stored_chunk encode (bs i)))" if "i < n" for i
    using assms that e [of i] unfolding int_coder_close_stores [OF assms(1)]
    by (cases "i < k"; cases "i = k") (auto simp: coder_at_def nth_list_update)
  moreover have "ic_final c' = concat (map (stored_chunk encode \<circ> bs) [0..<n])"
    using assms concat_stored_after [of k bs n encode]
    unfolding int_coder_close_stores [OF assms(1)] by (auto simp: coder_at_def)
  moreover have "\<forall>i<length (ic_chunkArr c'). n \<le> i \<longrightarrow> ic_chunkArr c' ! i = 0"
    using assms unfolding int_coder_close_stores [OF assms(1)] by (auto simp: coder_at_def)
  moreover have "ic_chunkCount c' = n" "n \<le> length (ic_chunkArr c')" "n < 2 ^ 63"
    using assms unfolding int_coder_close_stores [OF assms(1)] by (auto simp: coder_at_def)
  ultimately show ?thesis
    by (auto simp: coder_closed_def ic_chunkLens_def stored_chunks_def intro!: nth_equalityI)
qed

lemma int_coder_turn_at:
  assumes "coder_at encode cs n bs k c" and "docNum div cs = of_nat k'" and "k \<le> k'" and "k' < n"
  obtains c' where "int_coder_turn encode docNum c = Inr c'" and "coder_at encode cs n bs k' c'"
proof (cases "k = k'")
  case True
  then have "int_coder_turn encode docNum c = Inr c"
    using assms by (auto simp: int_coder_turn_def coder_at_def Let_def)
  then show ?thesis
    using that assms(1) True by blast
next
  case False
  have n: "n < 2 ^ 63" and cs: "cs \<noteq> 0" "ic_chunkSize c = cs" and kn: "k < n"
    and cur: "ic_currChunk c = of_nat k"
    using assms(1) by (auto simp: coder_at_def)
  have ne: "docNum div cs \<noteq> ic_currChunk c"
  proof
    assume "docNum div cs = ic_currChunk c"
    then have "unat (of_nat k' :: u64) = unat (of_nat k :: u64)"
      using assms(2) cur by simp
    then show False
      using False n assms(4) kn by (simp add: unat_small)
  qed
  have e: "bs i = []" if "k < i" for i
    using assms(1) that by (simp add: coder_at_def)
  let ?c = "c\<lparr>ic_final := ic_final c @ stored_chunk encode (bs k),
    ic_chunkArr := (ic_chunkArr c)[k := of_nat (length (stored_chunk encode (bs k)))],
    ic_bytesWritten := ic_bytesWritten c + of_nat (length (bs k)),
    ic_chunkBuf := [], ic_currChunk := docNum div cs\<rparr>"
  have "int_coder_turn encode docNum c = Inr ?c"
    using ne cs by (simp add: int_coder_turn_def Let_def int_coder_close_stores [OF assms(1)])
  moreover have "coder_at encode cs n bs k' ?c"
    using assms False e concat_stored_after [of k bs k' encode]
    by (auto simp: coder_at_def nth_list_update)
  ultimately show ?thesis using that by blast
qed

lemma fold_put_uvarint:
  "fold (\<lambda>val c. c\<lparr>ic_chunkBuf := ic_chunkBuf c @ put_uvarint val\<rparr>) vals c =
   c\<lparr>ic_chunkBuf := ic_chunkBuf c @ put_uvarints vals\<rparr>"
  by (induction vals arbitrary: c) simp_all

text \<open>\<open>Add\<close> writes what \<open>AddBytes\<close> writes for the encoded integers.\<close>

lemma int_coder_add_as_bytes: "int_coder_add encode docNum vals c = int_coder_add_bytes encode docNum (put_uvarints vals) c"
  by (cases "int_coder_turn encode docNum c")
    (simp_all add: int_coder_add_def int_coder_add_bytes_def fold_put_uvarint)

lemma int_coder_add_bytes_at:
  assumes "coder_at encode cs n bs k c" and "docNum div cs = of_nat k'" and "k \<le> k'" and "k' < n"
  obtains c' where "int_coder_add_bytes encode docNum buf c = Inr c'"
    and "coder_at encode cs n (bs(k' := bs k' @ buf)) k' c'"
proof -
  obtain c1 where c1: "int_coder_turn encode docNum c = Inr c1" "coder_at encode cs n bs k' c1"
    using assms by (rule int_coder_turn_at)
  have "concat (map (stored_chunk encode \<circ> bs(k' := bs k' @ buf)) [0..<k']) =
      concat (map (stored_chunk encode \<circ> bs) [0..<k'])"
    by (intro arg_cong [where f = concat]) simp
  then have "coder_at encode cs n (bs(k' := bs k' @ buf)) k' (c1\<lparr>ic_chunkBuf := ic_chunkBuf c1 @ buf\<rparr>)"
    using c1(2) unfolding coder_at_def by auto
  then show ?thesis
    using that c1(1) by (simp add: int_coder_add_bytes_def)
qed

section \<open>A whole stream\<close>

fun add_all ::
  "(bytes \<Rightarrow> bytes) \<Rightarrow> (u64 \<times> bytes) list \<Rightarrow> int_coder \<Rightarrow> (zap_error, int_coder) result" where
  "add_all encode [] c = Inr c"
| "add_all encode ((docNum, buf) # docs) c =
     bind_result (int_coder_add_bytes encode docNum buf c) (add_all encode docs)"

text \<open>The bytes of a chunk: those of its documents.\<close>

definition chunk_bytes :: "u64 \<Rightarrow> (u64 \<times> bytes) list \<Rightarrow> nat \<Rightarrow> bytes" where
  "chunk_bytes cs docs k = concat (map snd (filter (\<lambda>d. unat (fst d div cs) = k) docs))"

lemma chunk_bytes_simps [simp]:
  "chunk_bytes cs [] k = []"
  "chunk_bytes cs (d # docs) k = (if unat (fst d div cs) = k then snd d else []) @ chunk_bytes cs docs k"
  "chunk_bytes cs (docs @ docs') k = chunk_bytes cs docs k @ chunk_bytes cs docs' k"
  by (simp_all add: chunk_bytes_def)

lemma unat_div_mono: "d \<le> d' \<Longrightarrow> unat (d div cs) \<le> unat (d' div cs)" for d :: u64
  by (simp add: unat_div word_le_nat_alt div_le_mono)

lemma add_all_at:
  assumes "coder_at encode cs n bs k c" and "sorted (map fst docs)"
    and "\<forall>d\<in>set docs. k \<le> unat (fst d div cs) \<and> unat (fst d div cs) < n"
  obtains c' k' where "add_all encode docs c = Inr c'"
    and "coder_at encode cs n (\<lambda>i. bs i @ chunk_bytes cs docs i) k' c'"
  using assms
proof (induction docs arbitrary: c bs k thesis)
  case Nil
  then show ?case by simp
next
  case (Cons d docs)
  let ?k = "unat (fst d div cs)"
  have d: "fst d div cs = of_nat ?k" "k \<le> ?k" "?k < n"
    using Cons.prems(4) by simp_all
  obtain c1 where c1: "int_coder_add_bytes encode (fst d) (snd d) c = Inr c1"
      "coder_at encode cs n (bs(?k := bs ?k @ snd d)) ?k c1"
    by (rule int_coder_add_bytes_at [OF Cons.prems(2) d])
  have later: "\<forall>d'\<in>set docs. ?k \<le> unat (fst d' div cs) \<and> unat (fst d' div cs) < n"
    using Cons.prems(3,4) by (auto intro: unat_div_mono)
  obtain c2 k2 where c2: "add_all encode docs c1 = Inr c2"
      "coder_at encode cs n (\<lambda>i. (bs(?k := bs ?k @ snd d)) i @ chunk_bytes cs docs i) k2 c2"
    using Cons.prems(3) by (elim Cons.IH [OF _ c1(2) _ later]) simp
  have "(\<lambda>i. (bs(?k := bs ?k @ snd d)) i @ chunk_bytes cs docs i) = (\<lambda>i. bs i @ chunk_bytes cs (d # docs) i)"
    by auto
  then show ?case
    using Cons.prems(1) [of c2 k2] c1(1) c2 by (cases d) simp
qed

text \<open>The processor keeps the chunks apart.\<close>

definition processed_chunk :: "writer_processor \<Rightarrow> bytes \<Rightarrow> bytes" where
  "processed_chunk pr b = (if b = [] then [] else writer_process pr b)"

lemma processed_chunk_simps [simp]:
  "processed_chunk pr [] = []" "b \<noteq> [] \<Longrightarrow> processed_chunk (Some f) b = f b"
  "processed_chunk None b = b"
  by (simp_all add: processed_chunk_def writer_process_def)

lemma process_chunks_loop_eq:
  assumes "lens = map (\<lambda>b. of_nat (length b)) chunks" and "final = pre @ concat chunks" and "pos = length pre"
    and "length final < 2 ^ 63"
  shows "process_chunks_loop f final pos lens =
    Inr (concat (map (processed_chunk (Some f)) chunks),
         map (\<lambda>b. of_nat (length (processed_chunk (Some f) b))) chunks)"
  using assms
proof (induction chunks arbitrary: pre pos lens)
  case Nil
  then show ?case by simp
next
  case (Cons b chunks)
  have u: "unat (of_nat (length b) :: u64) = length b"
    using Cons.prems(2,4) by (intro unat_small) simp
  have IH: "process_chunks_loop f final (length (pre @ b)) (map (\<lambda>b. of_nat (length b)) chunks) =
    Inr (concat (map (processed_chunk (Some f)) chunks),
         map (\<lambda>b. of_nat (length (processed_chunk (Some f) b))) chunks)"
    using Cons.prems(2,4) by (intro Cons.IH [where pre = "pre @ b"]) simp_all
  show ?case
  proof (cases "b = []")
    case True
    then show ?thesis
      using IH Cons.prems by simp
  next
    case False
    then have "(of_nat (length b) :: u64) \<noteq> 0"
      using u by (metis length_0_conv unat_0)
    then show ?thesis
      using False IH Cons.prems u
      by (simp add: Let_def)
  qed
qed

lemma end_offsets_loop_nth:
  assumes "i < length chunks"
  shows "end_offsets_loop (of_nat m) (map (\<lambda>b. of_nat (length b)) chunks) ! i =
    of_nat (m + length (concat (take (Suc i) chunks)))"
  using assms
proof (induction chunks arbitrary: i m)
  case Nil
  then show ?case by simp
next
  case (Cons b chunks)
  then show ?case
    using Cons.IH [of _ "m + length b"] by (cases i) (auto simp: add.assoc)
qed

lemma length_end_offsets_loop [simp]: "length (end_offsets_loop r lens) = length lens"
  by (induction lens arbitrary: r) simp_all

definition offsets_of :: "bytes list \<Rightarrow> u64 list" where
  "offsets_of chunks = map (\<lambda>i. of_nat (length (concat (take (Suc i) chunks)))) [0..<length chunks]"

lemma modify_lengths_to_end_offsets_eq:
  "modify_lengths_to_end_offsets (map (\<lambda>b. of_nat (length b)) chunks) = offsets_of chunks"
  using end_offsets_loop_nth [of _ chunks 0]
  by (auto simp: modify_lengths_to_end_offsets_def offsets_of_def intro!: nth_equalityI)

text \<open>What \<open>Write\<close> puts behind the bytes that are there.\<close>

definition stream_bytes :: "bytes list \<Rightarrow> bytes" where
  "stream_bytes chunks = put_uvarint (of_nat (length chunks)) @ put_uvarints (offsets_of chunks) @ concat chunks"

lemma int_coder_write_eq:
  assumes "coder_closed encode n bs c" and "length (ic_final c) < 2 ^ 63"
  obtains c' where "int_coder_write pr out c =
      Inr (out @ stream_bytes (map (processed_chunk pr) (stored_chunks encode n bs)), c')"
    and "ic_chunkCount c' = n" and "length (ic_chunkArr c') = length (ic_chunkArr c)"
    and "drop n (ic_chunkArr c') = drop n (ic_chunkArr c)"
proof -
  define chunks where "chunks = stored_chunks encode n bs"
  have lens: "ic_chunkLens c = map (\<lambda>b. of_nat (length b)) chunks"
    and final: "ic_final c = concat chunks" and n: "ic_chunkCount c = n" "n \<le> length (ic_chunkArr c)"
    and len: "length chunks = n"
    using assms(1) by (auto simp: coder_closed_def chunks_def)
  have off: "length (offsets_of cs) = length cs" for cs
    by (simp add: offsets_of_def)
  show ?thesis
  proof (cases pr)
    case None
    have id: "map (processed_chunk None) chunks = chunks"
      by (intro map_idI) simp
    have "int_coder_write pr out c = Inr (out @ stream_bytes (map (processed_chunk pr) chunks),
        c\<lparr>ic_chunkArr := offsets_of chunks @ drop n (ic_chunkArr c)\<rparr>)"
      unfolding None id
      by (simp add: int_coder_write_def lens final Let_def modify_lengths_to_end_offsets_eq
          stream_bytes_def n off)
    then show ?thesis
      using that n unfolding chunks_def [symmetric] by (simp add: off len)
  next
    case (Some f)
    let ?lens = "map (\<lambda>b. of_nat (length (processed_chunk (Some f) b))) chunks :: u64 list"
    let ?chunks = "map (processed_chunk (Some f)) chunks"
    have "process_chunks_loop f (ic_final c) 0 (ic_chunkLens c) = Inr (concat ?chunks, ?lens)"
      unfolding lens final
      using assms(2) by (intro process_chunks_loop_eq [where pre = "[]"]) (simp_all add: final)
    then have p: "process_chunks f c =
        Inr (c\<lparr>ic_final := concat ?chunks, ic_chunkArr := ?lens @ drop n (ic_chunkArr c)\<rparr>)"
      by (simp add: process_chunks_def n)
    have "?lens = map (\<lambda>b. of_nat (length b)) ?chunks"
      by simp
    then have offs: "modify_lengths_to_end_offsets ?lens = offsets_of ?chunks"
      by (simp only: modify_lengths_to_end_offsets_eq)
    have "int_coder_write pr out c = Inr (out @ stream_bytes (map (processed_chunk pr) chunks),
        c\<lparr>ic_final := concat ?chunks, ic_chunkArr := offsets_of ?chunks @ drop n (ic_chunkArr c)\<rparr>)"
      by (simp add: Some int_coder_write_def p ic_chunkLens_def Let_def n len offs off stream_bytes_def)
    then show ?thesis
      using that n unfolding chunks_def [symmetric] by (simp add: off len)
  qed
qed

section \<open>Reading the stream back\<close>

lemma read_offsets_put:
  assumes "fits mem" and "drop (o' + m) mem = put_uvarints vs @ rest" and "maxVarintLen64 \<le> length rest"
  shows "read_offsets mem (of_nat o') (of_nat m) (length vs) = Inr (vs, of_nat (m + length (put_uvarints vs)))"
  using assms(2)
proof (induction vs arbitrary: m)
  case Nil
  then show ?case by simp
next
  case (Cons v vs)
  have d: "drop (o' + m) mem = put_uvarint v @ put_uvarints vs @ rest"
    using Cons.prems by simp
  have "length (drop (o' + m) mem) \<ge> maxVarintLen64"
    using assms(3) unfolding d by simp
  then have "o' + m + maxVarintLen64 \<le> length mem"
    unfolding length_drop by (simp add: maxVarintLen64_def)
  then have u: "uvarint_at mem (of_nat o' + of_nat m) = Inr (v, int (num_uvarint_bytes v))"
    using uvarint_at_put [OF assms(1) d] by simp
  have "drop (o' + (m + num_uvarint_bytes v)) mem = drop (num_uvarint_bytes v) (drop (o' + m) mem)"
    by (simp add: ac_simps)
  also have "\<dots> = put_uvarints vs @ rest"
    unfolding d by (rule drop_put_uvarint)
  finally have "read_offsets mem (of_nat o') (of_nat (m + num_uvarint_bytes v)) (length vs) =
      Inr (vs, of_nat (m + num_uvarint_bytes v + length (put_uvarints vs)))"
    by (rule Cons.IH)
  then show ?case
    using u by (simp add: length_put_uvarint)
qed

text \<open>A decoder over a stream of chunks.\<close>

definition decoder_on :: "bytes list \<Rightarrow> int_decoder \<Rightarrow> bool" where
  "decoder_on chunks d \<longleftrightarrow>
     fits (id_data d) \<and> id_startOffset d \<noteq> termNotEncoded \<and> id_chunkOffsets d = offsets_of chunks \<and>
     (\<exists>h rest. id_dataStartOffset d = of_nat h \<and> h \<le> length (id_data d) \<and>
        drop h (id_data d) = concat chunks @ rest)"

lemma length_offsets_of [simp]: "length (offsets_of chunks) = length chunks"
  by (simp add: offsets_of_def)

lemma new_int_decoder_on:
  assumes "fits mem" and "drop pos mem = stream_bytes chunks @ rest" and "maxVarintLen64 \<le> length rest"
    and "0 < pos" and "length chunks < 2 ^ 63"
  obtains d where "new_int_decoder mem (of_nat pos) rv = Inr d" and "decoder_on chunks d"
    and "id_curChunkBytes d = (case rv of None \<Rightarrow> [] | Some d \<Rightarrow> id_curChunkBytes d)"
    and "id_r d = (case rv of None \<Rightarrow> None | Some d \<Rightarrow> id_r d)"
proof -
  let ?n = "of_nat (length chunks) :: u64"
  let ?b = "num_uvarint_bytes ?n"
  let ?h = "pos + (?b + length (put_uvarints (offsets_of chunks)))"
  have d: "drop pos mem = put_uvarint ?n @ put_uvarints (offsets_of chunks) @ concat chunks @ rest"
    using assms(2) by (simp add: stream_bytes_def)
  have "maxVarintLen64 \<le> length (drop pos mem)"
    using assms(3) unfolding d by simp
  then have le: "pos + maxVarintLen64 \<le> length mem"
    unfolding length_drop by (simp add: maxVarintLen64_def)
  then have pos: "(of_nat pos :: u64) \<noteq> termNotEncoded"
    using assms(1,4) unat_small [of pos] by (auto simp: termNotEncoded_def fits_def)
  have u: "uvarint_at mem (of_nat pos) = Inr (?n, int ?b)"
    by (rule uvarint_at_put [OF assms(1) d le refl])
  have "drop (pos + ?b) mem = drop ?b (drop pos mem)"
    by (simp add: ac_simps)
  also have "\<dots> = put_uvarints (offsets_of chunks) @ concat chunks @ rest"
    unfolding d by (rule drop_put_uvarint)
  finally have d2: "drop (pos + ?b) mem = put_uvarints (offsets_of chunks) @ concat chunks @ rest" .
  have r: "read_offsets mem (of_nat pos) (of_nat ?b) (length (offsets_of chunks)) =
      Inr (offsets_of chunks, of_nat (?b + length (put_uvarints (offsets_of chunks))))"
    by (rule read_offsets_put [OF assms(1) d2]) (use assms(3) in simp)
  have "drop ?h mem = drop (length (put_uvarints (offsets_of chunks))) (drop (pos + ?b) mem)"
    by (simp add: ac_simps)
  then have d3: "drop ?h mem = concat chunks @ rest"
    unfolding d2 by simp
  have h: "?h \<le> length mem"
  proof (rule ccontr)
    assume "\<not> ?h \<le> length mem"
    then have "drop ?h mem = []" by simp
    with d3 assms(3) show False by (simp add: maxVarintLen64_def)
  qed
  have n: "unat ?n = length chunks"
    using assms(5) by (intro unat_small) simp
  let ?d = "(case rv of
            None \<Rightarrow> \<lparr>id_startOffset = of_nat pos, id_dataStartOffset = 0, id_chunkOffsets = [],
              id_curChunkBytes = [], id_data = mem, id_r = None, id_bytesRead = 0\<rparr>
          | Some d \<Rightarrow> d\<lparr>id_startOffset := of_nat pos, id_data := mem\<rparr>)"
  let ?d' = "?d\<lparr>id_chunkOffsets := offsets_of chunks,
      id_bytesRead := id_bytesRead ?d + of_nat (?b + length (put_uvarints (offsets_of chunks))),
      id_dataStartOffset := of_nat ?h\<rparr>"
  have "new_int_decoder mem (of_nat pos) rv = Inr ?d'"
    using r assms(5) pos u n by (simp add: new_int_decoder_def Let_def)
  moreover have "id_data ?d = mem" "id_startOffset ?d = of_nat pos"
    by (simp_all split: option.split)
  then have "decoder_on chunks ?d'"
    using assms(1) pos h d3 by (auto simp: decoder_on_def intro!: exI [of _ ?h])
  ultimately show ?thesis
    by (rule that) (simp_all split: option.split)
qed

lemma new_int_decoder_none:
  "new_int_decoder mem termNotEncoded rv = Inr d \<Longrightarrow> id_startOffset d = termNotEncoded"
  by (auto simp: new_int_decoder_def Let_def split: option.splits)

lemma mem_reset_new [simp]: "mem_reset s r = new_mem_uvarint_reader s"
  by (simp add: mem_reset_def new_mem_uvarint_reader_def)

text \<open>The stored bytes of a chunk.\<close>

lemma take_concat_split:
  "k < length chunks \<Longrightarrow>
   take (length (chunks ! k)) (drop (length (concat (take k chunks))) (concat chunks @ rest)) = chunks ! k"
proof -
  assume k: "k < length chunks"
  have "concat chunks = concat (take k chunks) @ chunks ! k @ concat (drop (Suc k) chunks)"
    using k by (metis append_take_drop_id concat.simps(2) concat_append Cons_nth_drop_Suc)
  then show ?thesis by simp
qed

lemma chunk_slice:
  assumes "decoder_on chunks d" and "k < length chunks"
  shows "mem_slice (id_data d) (id_dataStartOffset d + fst (read_chunk_boundary k (id_chunkOffsets d)))
      (id_dataStartOffset d + snd (read_chunk_boundary k (id_chunkOffsets d))) = Inr (chunks ! k)"
proof -
  obtain h rest where h: "id_dataStartOffset d = of_nat h" "h \<le> length (id_data d)"
      "drop h (id_data d) = concat chunks @ rest"
    using assms(1) by (auto simp: decoder_on_def)
  let ?p = "length (concat (take k chunks))"
  have off: "id_chunkOffsets d = offsets_of chunks" and f: "fits (id_data d)"
    using assms(1) by (auto simp: decoder_on_def)
  have s: "fst (read_chunk_boundary k (offsets_of chunks)) = of_nat ?p"
    using assms(2) by (cases k) (simp_all add: read_chunk_boundary_def offsets_of_def)
  have e: "snd (read_chunk_boundary k (offsets_of chunks)) = of_nat (?p + length (chunks ! k))"
    using assms(2) by (simp add: read_chunk_boundary_def offsets_of_def take_Suc_conv_app_nth)
  have tot: "length (concat chunks) = ?p + length (chunks ! k) + length (concat (drop (Suc k) chunks))"
    using assms(2)
    by (metis append_take_drop_id concat.simps(2) concat_append Cons_nth_drop_Suc length_append add.assoc)
  have "length (drop h (id_data d)) = length (concat chunks @ rest)"
    by (simp only: h(3))
  then have le: "h + ?p + length (chunks ! k) \<le> length (id_data d)"
    using tot h(2) by simp
  have "mem_slice (id_data d) (of_nat h + of_nat ?p) (of_nat h + of_nat (?p + length (chunks ! k))) =
      Inr (take (length (chunks ! k)) (drop (h + ?p) (id_data d)))"
    using le by (intro mem_slice_nat [OF f]) simp_all
  moreover have "drop (h + ?p) (id_data d) = drop ?p (concat chunks @ rest)"
    unfolding h(3) [symmetric] by (simp add: ac_simps)
  ultimately show ?thesis
    unfolding off s e h(1) by (simp only: take_concat_split [OF assms(2)])
qed

lemma load_chunk_on:
  assumes "decoder_on chunks d" and "k < length chunks"
    and "chunks ! k = processed_chunk pr (stored_chunk encode b)" and "b \<noteq> []"
    and "decode (encode b) = Some b" and "\<And>x. reader_process fr (writer_process pr x) = Some x"
  obtains d' where "load_chunk decode fr k d = Inr d'" and "decoder_on chunks d'"
    and "id_curChunkBytes d' = b" and "id_r d' = Some (new_mem_uvarint_reader b)"
proof -
  have st: "id_startOffset d \<noteq> termNotEncoded" and off: "id_chunkOffsets d = offsets_of chunks"
    using assms(1) by (auto simp: decoder_on_def)
  let ?s = "fst (read_chunk_boundary k (id_chunkOffsets d))" and ?e = "snd (read_chunk_boundary k (id_chunkOffsets d))"
  let ?d = "d\<lparr>id_curChunkBytes := b,
      id_bytesRead := id_bytesRead d + (id_dataStartOffset d + ?e - (id_dataStartOffset d + ?s)),
      id_r := Some (new_mem_uvarint_reader b)\<rparr>"
  have p: "reader_process fr (chunks ! k) = Some (stored_chunk encode b)"
    using assms(3,4,6) by (simp add: processed_chunk_def)
  have "load_chunk decode fr k d = Inr ?d"
  proof (cases "length (encode b) < length b")
    case True
    then show ?thesis
      using st off assms(2,4,5) p chunk_slice [OF assms(1,2)]
      by (cases "id_r d") (simp_all add: load_chunk_def split_def Let_def stored_chunk_def intChunkRaw_def intChunkSnappy_def)
  next
    case False
    then show ?thesis
      using st off assms(2,4,5) p chunk_slice [OF assms(1,2)]
      by (cases "id_r d") (simp_all add: load_chunk_def split_def Let_def stored_chunk_def)
  qed
  moreover have "decoder_on chunks ?d"
    using assms(1) by (auto simp: decoder_on_def)
  ultimately show ?thesis by (rule that) simp_all
qed

lemma load_chunk_empty:
  "decoder_on chunks d \<Longrightarrow> k < length chunks \<Longrightarrow> chunks ! k = [] \<Longrightarrow> load_chunk decode None k d = Inl (ChunkEmpty k)"
  using chunk_slice [of chunks d k]
  by (auto simp: load_chunk_def decoder_on_def split_def Let_def reader_process_def)

lemma load_chunk_missing:
  "decoder_on chunks d \<Longrightarrow> length chunks \<le> k \<Longrightarrow> load_chunk decode fr k d = Inl (ChunkMissing k (length chunks))"
  by (auto simp: load_chunk_def decoder_on_def)

lemma load_chunk_none:
  "id_startOffset d = termNotEncoded \<Longrightarrow>
   load_chunk decode fr k d = Inr (d\<lparr>id_r := Some (new_mem_uvarint_reader [])\<rparr>)"
  by (simp add: load_chunk_def)

section \<open>Round trip\<close>

fun add_ints ::
  "(bytes \<Rightarrow> bytes) \<Rightarrow> (u64 \<times> u64 list) list \<Rightarrow> int_coder \<Rightarrow> (zap_error, int_coder) result" where
  "add_ints encode [] c = Inr c"
| "add_ints encode ((docNum, vals) # docs) c =
     bind_result (int_coder_add encode docNum vals c) (add_ints encode docs)"

lemma add_ints_eq: "add_ints encode docs c = add_all encode (map (apsnd put_uvarints) docs) c"
proof (induction docs arbitrary: c)
  case (Cons d docs)
  then show ?case
    by (cases d; cases "int_coder_add_bytes encode (fst d) (put_uvarints (snd d)) c")
      (simp_all add: int_coder_add_as_bytes)
qed simp

definition write_ints ::
  "(bytes \<Rightarrow> bytes) \<Rightarrow> writer_processor \<Rightarrow> (u64 \<times> u64 list) list \<Rightarrow> bytes \<Rightarrow> int_coder \<Rightarrow>
   (zap_error, u64 \<times> bytes \<times> int_coder) result" where
  "write_ints encode pr docs out c =
     bind_result (add_ints encode docs c) (\<lambda>c.
       bind_result (int_coder_close encode c) (int_coder_write_at pr out))"

definition chunk_ints :: "u64 \<Rightarrow> (u64 \<times> u64 list) list \<Rightarrow> nat \<Rightarrow> u64 list" where
  "chunk_ints cs docs k = concat (map snd (filter (\<lambda>d. unat (fst d div cs) = k) docs))"

lemma chunk_bytes_ints: "chunk_bytes cs (map (apsnd put_uvarints) docs) k = put_uvarints (chunk_ints cs docs k)"
  by (induction docs) (simp_all add: chunk_ints_def)

fun decoder_read_many :: "nat \<Rightarrow> int_decoder \<Rightarrow> (zap_error, u64 list \<times> int_decoder) result" where
  "decoder_read_many 0 d = Inr ([], d)"
| "decoder_read_many (Suc n) d =
     bind_result (decoder_read_uvarint d) (\<lambda>(v, d).
       bind_result (decoder_read_many n d) (\<lambda>(vs, d). Inr (v # vs, d)))"

lemma decoder_read_put:
  assumes "id_r d = Some r" and "remaining r = put_uvarint v @ rest"
  obtains r' where "decoder_read_uvarint d = Inr (v, d\<lparr>id_r := Some r'\<rparr>)" and "remaining r' = rest"
    and "r' = moved (num_uvarint_bytes v) r"
  using assms read_uvarint_put [OF assms(2)] by (simp add: decoder_read_uvarint_def)

lemma decoder_read_many_put:
  assumes "id_r d = Some r" and "remaining r = put_uvarints vs @ rest"
  obtains r' where "decoder_read_many (length vs) d = Inr (vs, d\<lparr>id_r := Some r'\<rparr>)" and "remaining r' = rest"
  using assms
proof (induction vs arbitrary: d r thesis)
  case Nil
  have "d\<lparr>id_r := Some r\<rparr> = d"
    using Nil.prems(2) by simp
  then show ?case
    using Nil.prems(3) by (intro Nil.prems(1) [of r]) simp_all
next
  case (Cons v vs)
  have r: "remaining r = put_uvarint v @ put_uvarints vs @ rest"
    using Cons.prems(3) by simp
  obtain r1 where r1: "decoder_read_uvarint d = Inr (v, d\<lparr>id_r := Some r1\<rparr>)" "remaining r1 = put_uvarints vs @ rest"
    using decoder_read_put [OF Cons.prems(2) r] by metis
  obtain r2 where "decoder_read_many (length vs) (d\<lparr>id_r := Some r1\<rparr>) = Inr (vs, d\<lparr>id_r := Some r1, id_r := Some r2\<rparr>)"
      "remaining r2 = rest"
    using Cons.IH [where d = "d\<lparr>id_r := Some r1\<rparr>" and r = r1] r1(2) by auto
  then show ?case
    using r1(1) by (intro Cons.prems(1)) simp_all
qed

lemma sum_chunk_bytes:
  assumes "\<forall>d\<in>set docs. unat (fst d div cs) < n"
  shows "(\<Sum>k<n. length (chunk_bytes cs docs k)) = length (concat (map snd docs))"
  using assms
proof (induction docs)
  case (Cons d docs)
  have "(\<Sum>k<n. length (if unat (fst d div cs) = k then snd d else [])) = length (snd d)"
    using Cons.prems by (simp add: if_distrib cong: if_cong)
  then show ?case
    using Cons by (simp add: sum.distrib)
qed simp

lemma length_stored_chunks_le:
  "length (concat (stored_chunks encode n bs)) \<le> (\<Sum>k<n. length (bs k)) + n"
proof (induction n)
  case (Suc n)
  have "length (stored_chunk encode (bs n)) \<le> length (bs n) + 1"
    by (simp add: stored_chunk_def)
  then show ?case
    using Suc by (simp add: stored_chunks_def)
qed (simp add: stored_chunks_def)

text \<open>The chunks of a stream, as they are in the file.\<close>

definition stream_chunks ::
  "(bytes \<Rightarrow> bytes) \<Rightarrow> writer_processor \<Rightarrow> u64 \<Rightarrow> nat \<Rightarrow> (u64 \<times> bytes) list \<Rightarrow> bytes list" where
  "stream_chunks encode pr cs n docs = map (processed_chunk pr) (stored_chunks encode n (chunk_bytes cs docs))"

lemma length_stream_chunks [simp]: "length (stream_chunks encode pr cs n docs) = n"
  by (simp add: stream_chunks_def)

lemma nth_stream_chunks:
  "k < n \<Longrightarrow> stream_chunks encode pr cs n docs ! k = processed_chunk pr (stored_chunk encode (chunk_bytes cs docs k))"
  by (simp add: stream_chunks_def stored_chunks_def)

text \<open>
  A fresh coder stores every document's bytes; without any it writes nothing and its offset is zero.
\<close>

lemma write_all_fresh:
  assumes "coder_fresh cs n c" and "sorted (map fst docs)" and "\<forall>d\<in>set docs. unat (fst d div cs) < n"
    and "length (concat (map snd docs)) + n < 2 ^ 63"
  obtains c1 c2 where "add_all encode docs c = Inr c1" and "int_coder_close encode c1 = Inr c2"
    and "coder_closed encode n (chunk_bytes cs docs) c2"
    and "concat (map snd docs) = [] \<longrightarrow> int_coder_write_at pr out c2 = Inr (termNotEncoded, out, c2) \<and>
      coder_idle (int_coder_reset c2)"
    and "concat (map snd docs) \<noteq> [] \<longrightarrow> (\<exists>c3. int_coder_write_at pr out c2 =
      Inr (of_nat (length out), out @ stream_bytes (stream_chunks encode pr cs n docs), c3) \<and>
      coder_idle (int_coder_reset c3))"
proof -
  have ks: "\<forall>d\<in>set docs. 0 \<le> unat (fst d div cs) \<and> unat (fst d div cs) < n"
    using assms(3) by simp
  obtain c1 k where c1: "add_all encode docs c = Inr c1"
      "coder_at encode cs n (\<lambda>i. [] @ chunk_bytes cs docs i) k c1"
    by (rule add_all_at [OF coder_fresh_at [OF assms(1)] assms(2) ks])
  obtain c2 where c2: "int_coder_close encode c1 = Inr c2"
    using int_coder_close_stores [OF c1(2)] by simp
  have closed: "coder_closed encode n (chunk_bytes cs docs) c2"
    using coder_closed_at [OF c1(2) c2] by simp
  have final: "ic_final c2 = concat (stored_chunks encode n (chunk_bytes cs docs))"
    using closed by (simp add: coder_closed_def)
  have len: "length (ic_final c2) < 2 ^ 63"
    using length_stored_chunks_le [of encode n "chunk_bytes cs docs"] assms(4)
    unfolding final sum_chunk_bytes [OF assms(3)] by simp
  have "ic_final c2 = [] \<longleftrightarrow> (\<forall>k<n. chunk_bytes cs docs k = [])"
    unfolding final by (auto simp: stored_chunks_def)
  also have "\<dots> \<longleftrightarrow> (\<Sum>k<n. length (chunk_bytes cs docs k)) = 0"
    by (auto simp: sum_eq_0_iff)
  also have "\<dots> \<longleftrightarrow> concat (map snd docs) = []"
    unfolding sum_chunk_bytes [OF assms(3)] by simp
  finally have empty: "ic_final c2 = [] \<longleftrightarrow> concat (map snd docs) = []" .
  have zeros: "ic_chunkCount c2 = n" "n \<le> length (ic_chunkArr c2)"
      "\<forall>i<length (ic_chunkArr c2). n \<le> i \<longrightarrow> ic_chunkArr c2 ! i = 0"
    using closed by (simp_all add: coder_closed_def)
  have "\<exists>c3. int_coder_write_at pr out c2 =
      Inr (of_nat (length out), out @ stream_bytes (stream_chunks encode pr cs n docs), c3) \<and>
      coder_idle (int_coder_reset c3)"
    if ne: "concat (map snd docs) \<noteq> []"
  proof -
    obtain c3 where "int_coder_write pr out c2 =
        Inr (out @ stream_bytes (map (processed_chunk pr) (stored_chunks encode n (chunk_bytes cs docs))), c3)"
      and c3: "ic_chunkCount c3 = n" "length (ic_chunkArr c3) = length (ic_chunkArr c2)"
        "drop n (ic_chunkArr c3) = drop n (ic_chunkArr c2)"
      by (rule int_coder_write_eq [OF closed len])
    moreover have "ic_chunkArr c3 ! i = 0" if i: "i < length (ic_chunkArr c3)" "n \<le> i" for i
    proof -
      have "drop n (ic_chunkArr c3) ! (i - n) = drop n (ic_chunkArr c2) ! (i - n)"
        by (simp only: c3(3))
      then show ?thesis
        using i zeros c3(2) by simp
    qed
    then have "coder_idle (int_coder_reset c3)"
      using c3(1,2) zeros by (intro int_coder_reset_idle) auto
    moreover have "ic_final c2 \<noteq> []"
      using ne empty by blast
    ultimately show ?thesis
      by (auto simp: int_coder_write_at_def stream_chunks_def)
  qed
  moreover have "int_coder_write_at pr out c2 = Inr (termNotEncoded, out, c2)" if "concat (map snd docs) = []"
    using that empty by (simp add: int_coder_write_at_def)
  moreover have "coder_idle (int_coder_reset c2)"
    using zeros by (intro int_coder_reset_idle) auto
  ultimately show ?thesis
    using that [OF c1(1) c2 closed] by blast
qed

text \<open>
  C12: Integers added per document in ascending order to a coder and written behind a file come
  back: a decoder at the offset that the write reports loads every chunk that has integers, with
  exactly the integers of the chunk's documents in order, whatever compression and inverse callbacks
  are in use.
\<close>

theorem int_stream_round:
  assumes "new_int_coder cs maxDoc = Inr c"
    and "sorted (map fst docs)" and "\<forall>d\<in>set docs. fst d \<le> maxDoc"
    and "length (concat (map (put_uvarints \<circ> snd) docs)) + unat (maxDoc div cs) + 1 < 2 ^ 63"
    and "\<And>b. decode (encode b) = Some b" and "\<And>b. reader_process fr (writer_process pr b) = Some b"
    and "out \<noteq> []"
  shows "\<exists>off out' c'. write_ints encode pr docs out c = Inr (off, out', c') \<and>
    (\<forall>rest. maxVarintLen64 \<le> length rest \<longrightarrow> fits (out' @ rest) \<longrightarrow>
      (\<exists>d. new_int_decoder (out' @ rest) off None = Inr d \<and>
        (\<forall>k. chunk_ints cs docs k \<noteq> [] \<longrightarrow>
          (\<exists>d1 d2. load_chunk decode fr k d = Inr d1 \<and>
            decoder_read_many (length (chunk_ints cs docs k)) d1 = Inr (chunk_ints cs docs k, d2) \<and>
            decoder_len d2 = Inr 0))))"
proof -
  let ?docs = "map (apsnd put_uvarints) docs" and ?n = "unat (maxDoc div cs) + 1"
  have cs: "0 < cs"
    using assms(1) by (auto simp: new_int_coder_def total_chunks_def Let_def word_gt_0 split: if_splits)
  then have fresh: "coder_fresh cs ?n c"
    using assms(1,4) by (elim new_int_coder_fresh [of cs maxDoc]) simp_all
  have sorted: "sorted (map fst ?docs)"
    using assms(2) by (simp add: comp_def)
  have ks: "\<forall>d\<in>set ?docs. unat (fst d div cs) < ?n"
    using assms(3) unat_div_mono by (fastforce simp: less_Suc_eq_le)
  have bytes: "concat (map snd ?docs) = concat (map (put_uvarints \<circ> snd) docs)"
    by (simp add: comp_def)
  have len: "length (concat (map snd ?docs)) + ?n < 2 ^ 63"
    using assms(4) unfolding bytes by simp
  obtain c1 c2 where c: "add_all encode ?docs c = Inr c1" "int_coder_close encode c1 = Inr c2"
      "coder_closed encode ?n (chunk_bytes cs ?docs) c2"
      "concat (map snd ?docs) = [] \<longrightarrow> int_coder_write_at pr out c2 = Inr (termNotEncoded, out, c2) \<and>
        coder_idle (int_coder_reset c2)"
      "concat (map snd ?docs) \<noteq> [] \<longrightarrow> (\<exists>c3. int_coder_write_at pr out c2 =
        Inr (of_nat (length out), out @ stream_bytes (stream_chunks encode pr cs ?n ?docs), c3) \<and>
        coder_idle (int_coder_reset c3))"
    by (rule write_all_fresh [OF fresh sorted ks len, where encode = encode and pr = pr and out = out])
  have w: "write_ints encode pr docs out c = int_coder_write_at pr out c2"
    by (simp add: write_ints_def add_ints_eq c(1,2))
  show ?thesis
  proof (cases "concat (map snd ?docs) = []")
    case True
    then have "chunk_bytes cs ?docs k = []" for k
      by (auto simp: chunk_bytes_def)
    then have none: "chunk_ints cs docs k = []" for k
      by (metis chunk_bytes_ints put_uvarints_def concat_eq_Nil_conv list.set_intros(1) list.simps(9) neq_Nil_conv
          put_uvarint_not_Nil)
    have "\<exists>d. new_int_decoder mem termNotEncoded None = Inr d" for mem
      by (simp add: new_int_decoder_def)
    then show ?thesis
      unfolding w using c(4) True by (auto simp: none)
  next
    case False
    let ?chunks = "stream_chunks encode pr cs ?n ?docs"
    obtain c3 where c3: "int_coder_write_at pr out c2 = Inr (of_nat (length out), out @ stream_bytes ?chunks, c3)"
      using c(5) False by blast
    have "\<exists>d. new_int_decoder ((out @ stream_bytes ?chunks) @ rest) (of_nat (length out)) None = Inr d \<and>
        (\<forall>k. chunk_ints cs docs k \<noteq> [] \<longrightarrow>
          (\<exists>d1 d2. load_chunk decode fr k d = Inr d1 \<and>
            decoder_read_many (length (chunk_ints cs docs k)) d1 = Inr (chunk_ints cs docs k, d2) \<and>
            decoder_len d2 = Inr 0))"
      if rest: "maxVarintLen64 \<le> length rest" "fits ((out @ stream_bytes ?chunks) @ rest)" for rest
    proof -
      obtain d where d: "new_int_decoder ((out @ stream_bytes ?chunks) @ rest) (of_nat (length out)) None = Inr d"
          "decoder_on ?chunks d"
        by (rule new_int_decoder_on [OF rest(2) _ rest(1), where pos = "length out" and rv = None and chunks = ?chunks])
          (use assms(4,7) in simp_all)
      have "\<exists>d1 d2. load_chunk decode fr k d = Inr d1 \<and>
            decoder_read_many (length (chunk_ints cs docs k)) d1 = Inr (chunk_ints cs docs k, d2) \<and>
            decoder_len d2 = Inr 0" if k: "chunk_ints cs docs k \<noteq> []" for k
      proof -
        let ?vs = "chunk_ints cs docs k"
        have kn: "k < ?n"
          using k ks by (fastforce simp: chunk_ints_def filter_empty_conv)
        have b: "put_uvarints ?vs \<noteq> []"
          using k by (cases ?vs) simp_all
        obtain d1 where d1: "load_chunk decode fr k d = Inr d1"
            "id_r d1 = Some (new_mem_uvarint_reader (put_uvarints ?vs))"
          by (rule load_chunk_on [OF d(2), of k pr encode "put_uvarints ?vs" decode fr])
            (use kn b assms(5,6) in \<open>simp_all add: nth_stream_chunks chunk_bytes_ints\<close>)
        obtain r' where "decoder_read_many (length ?vs) d1 = Inr (?vs, d1\<lparr>id_r := Some r'\<rparr>)" "remaining r' = []"
          using decoder_read_many_put [OF d1(2), of ?vs "[]"] by (auto simp: zap_simps)
        then show ?thesis
          using d1(1) by (auto simp: decoder_len_def mem_len_remaining)
      qed
      then show ?thesis using d(1) by blast
    qed
    then show ?thesis
      unfolding w c3 by blast
  qed
qed

lemma put_uvarint_examples:
  "put_uvarint 1 = [1]" "put_uvarint 300 = [0xAC, 2]" "put_uvarint 7 = [7]"
  by (simp_all add: put_uvarint.simps drop_bit_eq_div)

theorem int_stream_round_witness:
  "\<exists>c off out' c'. new_int_coder 2 3 = Inr c \<and>
    write_ints (\<lambda>b. b) (Some rev) [(0, [1, 300]), (3, [7])] [9] c = Inr (off, out', c') \<and>
    (\<exists>d d1 d2. new_int_decoder (out' @ replicate 10 0) off None = Inr d \<and>
      load_chunk Some (Some (\<lambda>b. Some (rev b))) 0 d = Inr d1 \<and>
      decoder_read_many 2 d1 = Inr ([1, 300], d2))"
proof -
  let ?c = "\<lparr>ic_final = [], ic_chunkSize = 2, ic_chunkBuf = [], ic_chunkArr = replicate 2 0, ic_chunkCount = 2,
    ic_currChunk = 0, ic_bytesWritten = 0\<rparr>"
  let ?docs = "[(0, [1, 300]), (3, [7])] :: (u64 \<times> u64 list) list"
  have c: "new_int_coder 2 3 = Inr ?c"
    by (simp add: new_int_coder_def total_chunks_def)
  have k: "chunk_ints 2 ?docs 0 = [1, 300]"
    by (simp add: chunk_ints_def)
  have ok: "sorted (map fst ?docs)" "\<forall>d\<in>set ?docs. fst d \<le> 3"
      "length (concat (map (put_uvarints \<circ> snd) ?docs)) + unat (3 div (2 :: u64)) + 1 < 2 ^ 63"
      "[9] \<noteq> ([] :: bytes)"
    by (simp_all add: put_uvarint_examples)
  have inv: "Some b = Some b" "reader_process (Some (\<lambda>b. Some (rev b))) (writer_process (Some rev) b) = Some b"
    for b :: bytes
    by (simp_all add: reader_process_def writer_process_def)
  obtain off out' c' where w: "write_ints (\<lambda>b. b) (Some rev) ?docs [9] ?c = Inr (off, out', c')"
    and r: "\<forall>rest. maxVarintLen64 \<le> length rest \<longrightarrow> fits (out' @ rest) \<longrightarrow>
      (\<exists>d. new_int_decoder (out' @ rest) off None = Inr d \<and>
        (\<forall>k. chunk_ints 2 ?docs k \<noteq> [] \<longrightarrow>
          (\<exists>d1 d2. load_chunk Some (Some (\<lambda>b. Some (rev b))) k d = Inr d1 \<and>
            decoder_read_many (length (chunk_ints 2 ?docs k)) d1 = Inr (chunk_ints 2 ?docs k, d2) \<and>
            decoder_len d2 = Inr 0)))"
    using int_stream_round [OF c ok(1-3) inv ok(4)] by (elim exE conjE) (rule that)
  have rep: "replicate 2 (0 :: u64) = [0, 0]"
    by (simp add: numeral_2_eq_2)
  have out: "length out' = 10"
    using w
    by (auto simp: rep write_ints_def int_coder_add_def int_coder_turn_def int_coder_close_def Let_def set_chunk_len_def
        int_coder_write_at_def int_coder_write_def process_chunks_def ic_chunkLens_def
        modify_lengths_to_end_offsets_def intChunkRaw_def put_uvarint_examples put_uvarint.simps)
  have "maxVarintLen64 \<le> length (replicate 10 (0 :: byte))" "fits (out' @ replicate 10 0)"
    using out by (simp_all add: maxVarintLen64_def fits_def)
  then obtain d where d: "new_int_decoder (out' @ replicate 10 0) off None = Inr d"
      "\<forall>k. chunk_ints 2 ?docs k \<noteq> [] \<longrightarrow>
          (\<exists>d1 d2. load_chunk Some (Some (\<lambda>b. Some (rev b))) k d = Inr d1 \<and>
            decoder_read_many (length (chunk_ints 2 ?docs k)) d1 = Inr (chunk_ints 2 ?docs k, d2) \<and>
            decoder_len d2 = Inr 0)"
    using r by blast
  obtain d1 d2 where "load_chunk Some (Some (\<lambda>b. Some (rev b))) 0 d = Inr d1"
      "decoder_read_many 2 d1 = Inr ([1, 300], d2)"
    using d(2) [rule_format, of 0] by (auto simp: k numeral_2_eq_2)
  then show ?thesis
    using c w d(1) by blast
qed

end
