(* ===== verification/Zap_Impact.thy ===== *)
theory Zap_Impact
  imports Zap_Int_Coder
begin

text \<open>
  The block impacts of a term (\<open>internal/zapxtext/impact.go\<close>): for every block of postings the pairs
  of a frequency and a norm that bound all postings of the block, from which a search derives the
  best score a block can reach.
\<close>

section \<open>The coder\<close>

record impact =
  imp_Frequency :: u64
  imp_Norm :: u64

definition impactBlockSize :: nat where "impactBlockSize = 64"
definition impactMinPostings :: u64 where "impactMinPostings = 128"

text \<open>The array \<open>frontier\<close> up to \<open>frontierLen\<close> is a list of at most \<open>impactBlockSize\<close> impacts.\<close>

record impact_coder =
  mc_enabled :: bool
  mc_blockDocs :: nat
  mc_blockEnd :: u64
  mc_previousEnd :: u64
  mc_blocks :: u64
  mc_frontier :: "impact list"
  mc_encodedBlocks :: bytes

definition impact_coder_reset :: "u64 \<Rightarrow> impact_coder" where
  "impact_coder_reset cardinality =
     \<lparr>mc_enabled = (impactMinPostings \<le> cardinality), mc_blockDocs = 0, mc_blockEnd = 0,
      mc_previousEnd = 0, mc_blocks = 0, mc_frontier = [], mc_encodedBlocks = []\<rparr>"

definition add_to_frontier :: "u64 \<Rightarrow> u64 \<Rightarrow> impact list \<Rightarrow> (zap_error, impact list) result" where
  "add_to_frontier freq norm frontier =
     (if list_ex (\<lambda>i. freq \<le> imp_Frequency i \<and> imp_Norm i \<le> norm) frontier then Inr frontier
      else let kept = filter (\<lambda>i. \<not> (imp_Frequency i \<le> freq \<and> norm \<le> imp_Norm i)) frontier
        in if length kept < impactBlockSize
           then Inr (kept @ [\<lparr>imp_Frequency = freq, imp_Norm = norm\<rparr>]) else Inl Panic)"

definition impact_less :: "impact \<Rightarrow> impact \<Rightarrow> bool" where
  "impact_less a b \<longleftrightarrow>
     (if imp_Frequency a = imp_Frequency b then imp_Norm a < imp_Norm b
      else imp_Frequency a < imp_Frequency b)"

text \<open>The inner loop moves an impact in front of the larger ones at the end of the sorted part.\<close>

function insert_impact :: "impact \<Rightarrow> impact list \<Rightarrow> impact list" where
  "insert_impact x xs =
     (if xs \<noteq> [] \<and> impact_less x (last xs) then insert_impact x (butlast xs) @ [last xs] else xs @ [x])"
  by pat_completeness auto
termination insert_impact
  by (relation "measure (length \<circ> snd)") auto

declare insert_impact.simps [simp del]

definition sort_frontier :: "impact list \<Rightarrow> impact list" where
  "sort_frontier frontier = foldl (\<lambda>sorted x. insert_impact x sorted) [] frontier"

definition impact_bytes :: "impact \<Rightarrow> bytes" where
  "impact_bytes i = put_uvarint (imp_Frequency i) @ put_uvarint (imp_Norm i)"

definition flush_block :: "impact_coder \<Rightarrow> impact_coder" where
  "flush_block c =
     (if mc_blockDocs c = 0 then c
      else let frontier = sort_frontier (mc_frontier c)
        in c\<lparr>mc_encodedBlocks := mc_encodedBlocks c @ put_uvarint (mc_blockEnd c - mc_previousEnd c) @
               put_uvarint (of_nat (length frontier)) @ concat (map impact_bytes frontier),
             mc_previousEnd := mc_blockEnd c, mc_blocks := mc_blocks c + 1, mc_blockDocs := 0,
             mc_frontier := []\<rparr>)"

definition impact_add :: "u64 \<Rightarrow> u64 \<Rightarrow> u64 \<Rightarrow> impact_coder \<Rightarrow> (zap_error, impact_coder) result" where
  "impact_add docNum freq norm c =
     (if \<not> mc_enabled c then Inr c
      else bind_result (add_to_frontier freq norm (mc_frontier c)) (\<lambda>frontier.
        let c = c\<lparr>mc_blockEnd := docNum, mc_blockDocs := mc_blockDocs c + 1, mc_frontier := frontier\<rparr>
        in Inr (if mc_blockDocs c = impactBlockSize then flush_block c else c)))"

text \<open>\<open>writeAt\<close> to a file that holds \<open>out\<close>, with its two ways of writing the same layout.\<close>

definition impact_write_at :: "writer_processor \<Rightarrow> bytes \<Rightarrow> impact_coder \<Rightarrow> u64 \<times> bytes \<times> impact_coder" where
  "impact_write_at pr out c =
     (if \<not> mc_enabled c then (0, out, c)
      else let c = flush_block c in
        (of_nat (length out),
         (case pr of
            None \<Rightarrow>
              let blockCountLen = length (put_uvarint (mc_blocks c))
              in out @ put_uvarint (of_nat (blockCountLen + length (mc_encodedBlocks c))) @
                 put_uvarint (mc_blocks c) @ mc_encodedBlocks c
          | Some f \<Rightarrow>
              let encoded = f (put_uvarint (mc_blocks c) @ mc_encodedBlocks c)
              in out @ put_uvarint (of_nat (length encoded)) @ encoded), c))"

section \<open>The decoder\<close>

record impact_decoder =
  md_data :: bytes
  md_pos :: nat
  md_blocksLeft :: u64
  md_currentEnd :: u64
  md_currentValid :: bool
  md_impacts :: "impact list"

definition impact_read_uvarint :: "impact_decoder \<Rightarrow> (zap_error, u64 \<times> impact_decoder) result" where
  "impact_read_uvarint d =
     (if length (md_data d) \<le> md_pos d then Inl UnexpectedEOF
      else let (v, n) = uvarint (drop (md_pos d) (md_data d))
        in if n \<le> 0 then Inl UnexpectedEOF else Inr (v, d\<lparr>md_pos := md_pos d + nat n\<rparr>))"

definition impact_decoder_reset :: "bytes \<Rightarrow> (zap_error, impact_decoder) result" where
  "impact_decoder_reset data =
     (let d = \<lparr>md_data = data, md_pos = 0, md_blocksLeft = 0, md_currentEnd = 0, md_currentValid = False,
               md_impacts = []\<rparr>
      in bind_result (impact_read_uvarint d) (\<lambda>(blocks, d). Inr (d\<lparr>md_blocksLeft := blocks\<rparr>)))"

fun read_impacts :: "nat \<Rightarrow> impact_decoder \<Rightarrow> (zap_error, impact list \<times> impact_decoder) result" where
  "read_impacts 0 d = Inr ([], d)"
| "read_impacts (Suc n) d =
     bind_result (impact_read_uvarint d) (\<lambda>(freq, d).
     bind_result (impact_read_uvarint d) (\<lambda>(norm, d).
     bind_result (read_impacts n d) (\<lambda>(is, d). Inr (\<lparr>imp_Frequency = freq, imp_Norm = norm\<rparr> # is, d))))"

text \<open>One turn of the loop of \<open>advanceShallow\<close>: the next block is read.\<close>

definition read_block :: "impact_decoder \<Rightarrow> (zap_error, impact_decoder) result" where
  "read_block d =
     bind_result (impact_read_uvarint d) (\<lambda>(endDelta, d).
     bind_result (impact_read_uvarint d) (\<lambda>(n, d).
       if n = 0 \<or> of_nat impactBlockSize < n then Inl (InvalidImpactCount n)
       else bind_result (read_impacts (unat n) d) (\<lambda>(impacts, d).
         if NOT 0 - md_currentEnd d < endDelta then Inl ImpactEndOverflow
         else Inr (d\<lparr>md_impacts := impacts, md_currentEnd := md_currentEnd d + endDelta,
                     md_currentValid := True, md_blocksLeft := md_blocksLeft d - 1\<rparr>))))"

lemma impact_read_keeps:
  "impact_read_uvarint d = Inr (v, d') \<Longrightarrow>
   md_blocksLeft d' = md_blocksLeft d \<and> md_currentEnd d' = md_currentEnd d \<and> md_data d' = md_data d"
  by (auto simp: impact_read_uvarint_def Let_def split: if_splits prod.splits)

lemma read_impacts_keeps:
  "read_impacts n d = Inr (is, d') \<Longrightarrow>
   md_blocksLeft d' = md_blocksLeft d \<and> md_currentEnd d' = md_currentEnd d \<and> md_data d' = md_data d"
  by (induction n d arbitrary: "is" d' rule: read_impacts.induct)
    (fastforce split: sum.splits prod.splits dest!: impact_read_keeps)+

lemma read_block_left: "read_block d = Inr d' \<Longrightarrow> md_blocksLeft d' = md_blocksLeft d - 1"
  by (auto simp: read_block_def split: sum.splits prod.splits if_splits
      dest!: impact_read_keeps read_impacts_keeps)

function advance_shallow ::
  "u64 \<Rightarrow> impact_decoder \<Rightarrow> (zap_error, (u64 \<times> impact list) option \<times> impact_decoder) result" where
  "advance_shallow docNum d =
     (if \<not> md_currentValid d \<or> md_currentEnd d < docNum then
        (if md_blocksLeft d = 0 then Inr (None, d)
         else case read_block d of Inl e \<Rightarrow> Inl e | Inr d \<Rightarrow> advance_shallow docNum d)
      else Inr (Some (md_currentEnd d, md_impacts d), d))"
  by pat_completeness auto
termination advance_shallow
  by (relation "measure (\<lambda>(n, d). unat (md_blocksLeft d))")
    (auto dest!: read_block_left simp: unat_minus_one unat_gt_0 intro!: diff_less)

declare advance_shallow.simps [simp del]

text \<open>The metadata of a term at an offset of the segment, as \<open>AdvanceShallow\<close> of an iterator opens it.\<close>

definition open_impacts :: "bytes \<Rightarrow> reader_processor \<Rightarrow> u64 \<Rightarrow> (zap_error, impact_decoder) result" where
  "open_impacts mem fr offset =
     (if length mem \<le> unat offset then Inl (ImpactOutOfBounds offset)
      else let (len, n) = uvarint (drop (unat offset) mem)
        in if n \<le> 0 then Inl (InvalidImpactLength offset)
           else let start = offset + of_int n
             in if of_nat (length mem) - start < len then Inl (ImpactOutOfBounds len)
                else bind_result (mem_slice mem start (start + len)) (\<lambda>encoded.
                  case reader_process fr encoded of
                    None \<Rightarrow> Inl ProcessFailed
                  | Some data \<Rightarrow> impact_decoder_reset data))"

section \<open>Frontiers\<close>

text \<open>A posting is its document with its frequency and norm.\<close>

type_synonym scored = "u64 \<times> u64 \<times> u64"

text \<open>Impacts that bound the postings of a block, each of them reached by one.\<close>

definition covers :: "impact list \<Rightarrow> u64 \<Rightarrow> u64 \<Rightarrow> bool" where
  "covers is freq norm \<longleftrightarrow> (\<exists>i\<in>set is. freq \<le> imp_Frequency i \<and> imp_Norm i \<le> norm)"

definition bounds_block :: "impact list \<Rightarrow> scored list \<Rightarrow> bool" where
  "bounds_block is ps \<longleftrightarrow>
     (\<forall>(doc, freq, norm)\<in>set ps. covers is freq norm) \<and>
     (\<forall>i\<in>set is. \<exists>doc. (doc, imp_Frequency i, imp_Norm i) \<in> set ps) \<and> length is \<le> length ps"

lemma bounds_block_Nil [simp]: "bounds_block [] []"
  by (simp add: bounds_block_def)

lemma bounds_block_not_Nil: "bounds_block is ps \<Longrightarrow> ps \<noteq> [] \<Longrightarrow> is \<noteq> []"
  by (cases ps) (auto simp: bounds_block_def covers_def)

lemma bounds_block_same:
  "bounds_block is ps \<Longrightarrow> set is' = set is \<Longrightarrow> length is' = length is \<Longrightarrow> bounds_block is' ps"
  by (simp add: bounds_block_def covers_def)

lemma add_to_frontier_bounds:
  assumes "bounds_block is ps" and "length ps < impactBlockSize"
  obtains is' where "add_to_frontier freq norm is = Inr is'" and "bounds_block is' (ps @ [(doc, freq, norm)])"
proof (cases "list_ex (\<lambda>i. freq \<le> imp_Frequency i \<and> imp_Norm i \<le> norm) is")
  case True
  then have "covers is freq norm"
    by (auto simp: covers_def list_ex_iff)
  then have "bounds_block is (ps @ [(doc, freq, norm)])"
    using assms(1) by (fastforce simp: bounds_block_def)
  with True show ?thesis
    by (intro that [of "is"]) (simp_all add: add_to_frontier_def)
next
  case False
  let ?kept = "filter (\<lambda>i. \<not> (imp_Frequency i \<le> freq \<and> norm \<le> imp_Norm i)) is"
  let ?is = "?kept @ [\<lparr>imp_Frequency = freq, imp_Norm = norm\<rparr>]"
  have len: "length ?kept \<le> length ps"
    using assms(1) by (intro order_trans [OF length_filter_le]) (simp add: bounds_block_def)
  have "covers ?is f n" if "covers is f n" for f n
    using that by (fastforce simp: covers_def intro: order_trans)
  moreover have "covers ?is freq norm"
    by (simp add: covers_def)
  ultimately have "bounds_block ?is (ps @ [(doc, freq, norm)])"
    using assms(1) len by (fastforce simp: bounds_block_def)
  with False len assms(2) show ?thesis
    by (intro that [of ?is]) (simp_all add: add_to_frontier_def Let_def)
qed

lemma insert_impact_same: "set (insert_impact x xs) = insert x (set xs) \<and> length (insert_impact x xs) = Suc (length xs)"
proof (induction x xs rule: insert_impact.induct)
  case (1 x xs)
  show ?case
  proof (cases "xs \<noteq> [] \<and> impact_less x (last xs)")
    case True
    then obtain ys y where xs: "xs = ys @ [y]"
      by (cases xs rule: rev_cases) auto
    have "insert_impact x xs = insert_impact x ys @ [y]"
      using True by (subst insert_impact.simps) (simp add: xs)
    moreover have "set (insert_impact x ys) = insert x (set ys) \<and> length (insert_impact x ys) = Suc (length ys)"
      using 1 [OF True] by (simp add: xs)
    ultimately show ?thesis by (auto simp: xs)
  next
    case False
    then have "insert_impact x xs = xs @ [x]" by (subst insert_impact.simps) auto
    then show ?thesis by simp
  qed
qed

lemma sort_frontier_same: "set (sort_frontier is) = set is \<and> length (sort_frontier is) = length is"
proof -
  have "set (foldl (\<lambda>sorted x. insert_impact x sorted) acc is) = set acc \<union> set is \<and>
      length (foldl (\<lambda>sorted x. insert_impact x sorted) acc is) = length acc + length is" for acc
    by (induction "is" arbitrary: acc) (auto simp: insert_impact_same)
  from this [of "[]"] show ?thesis by (simp add: sort_frontier_def)
qed

lemma sort_frontier_bounds: "bounds_block is ps \<Longrightarrow> bounds_block (sort_frontier is) ps"
  by (rule bounds_block_same) (simp_all add: sort_frontier_same)

section \<open>What the coder writes\<close>

text \<open>A block: its postings, the last document and the impacts.\<close>

type_synonym block = "scored list \<times> u64 \<times> impact list"

definition block_ok :: "block \<Rightarrow> bool" where
  "block_ok b \<longleftrightarrow> (case b of (ps, e, is) \<Rightarrow>
     ps \<noteq> [] \<and> length ps \<le> impactBlockSize \<and> e = fst (last ps) \<and> bounds_block is ps)"

fun enc_blocks :: "u64 \<Rightarrow> block list \<Rightarrow> bytes" where
  "enc_blocks prev [] = []"
| "enc_blocks prev ((ps, e, is) # bs) =
     put_uvarint (e - prev) @ put_uvarint (of_nat (length is)) @ concat (map impact_bytes is) @ enc_blocks e bs"

definition last_end :: "block list \<Rightarrow> u64" where
  "last_end bs = (if bs = [] then 0 else fst (snd (last bs)))"

lemma enc_blocks_snoc:
  "enc_blocks prev (bs @ [(ps, e, is)]) = enc_blocks prev bs @
     put_uvarint (e - (if bs = [] then prev else fst (snd (last bs)))) @ put_uvarint (of_nat (length is)) @
     concat (map impact_bytes is)"
  by (induction prev bs rule: enc_blocks.induct) auto

definition impact_coder_has :: "scored list \<Rightarrow> impact_coder \<Rightarrow> bool" where
  "impact_coder_has ps c \<longleftrightarrow> mc_enabled c \<and>
     (\<exists>bs pend. ps = concat (map fst bs) @ pend \<and> list_all block_ok bs \<and>
        mc_encodedBlocks c = enc_blocks 0 bs \<and> mc_previousEnd c = last_end bs \<and>
        mc_blocks c = of_nat (length bs) \<and> mc_blockDocs c = length pend \<and> length pend < impactBlockSize \<and>
        bounds_block (mc_frontier c) pend \<and> (pend \<noteq> [] \<longrightarrow> mc_blockEnd c = fst (last pend)))"

lemma flush_block_writes:
  assumes "mc_encodedBlocks c = enc_blocks 0 bs" and "mc_previousEnd c = last_end bs"
    and "mc_blocks c = of_nat (length bs)" and "mc_blockDocs c = length pend" and "pend \<noteq> []"
  shows "flush_block c = c\<lparr>
    mc_encodedBlocks := enc_blocks 0 (bs @ [(pend, mc_blockEnd c, sort_frontier (mc_frontier c))]),
    mc_previousEnd := mc_blockEnd c, mc_blocks := of_nat (length bs + 1), mc_blockDocs := 0, mc_frontier := []\<rparr>"
  using assms by (auto simp: flush_block_def Let_def enc_blocks_snoc last_end_def)

lemma impact_add_has:
  assumes "impact_coder_has ps c"
  obtains c' where "impact_add doc freq norm c = Inr c'" and "impact_coder_has (ps @ [(doc, freq, norm)]) c'"
proof -
  obtain bs pend where c: "mc_enabled c" "ps = concat (map fst bs) @ pend" "list_all block_ok bs"
      "mc_encodedBlocks c = enc_blocks 0 bs" "mc_previousEnd c = last_end bs"
      "mc_blocks c = of_nat (length bs)" "mc_blockDocs c = length pend" "length pend < impactBlockSize"
      "bounds_block (mc_frontier c) pend"
    using assms unfolding impact_coder_has_def by blast
  let ?pend = "pend @ [(doc, freq, norm)]"
  obtain fr where fr: "add_to_frontier freq norm (mc_frontier c) = Inr fr" "bounds_block fr ?pend"
    by (rule add_to_frontier_bounds [OF c(9,8)])
  let ?c = "c\<lparr>mc_blockEnd := doc, mc_blockDocs := mc_blockDocs c + 1, mc_frontier := fr\<rparr>"
  show ?thesis
  proof (cases "length ?pend = impactBlockSize")
    case True
    let ?b = "(?pend, doc, sort_frontier fr)"
    have "impact_add doc freq norm c = Inr (flush_block ?c)"
      using c(1,7) fr(1) True by (simp add: impact_add_def Let_def)
    moreover have "flush_block ?c = ?c\<lparr>mc_encodedBlocks := enc_blocks 0 (bs @ [?b]),
        mc_previousEnd := doc, mc_blocks := of_nat (length bs + 1), mc_blockDocs := 0, mc_frontier := []\<rparr>"
      using flush_block_writes [of ?c bs ?pend] c(4-7) by simp
    moreover have "impact_coder_has (ps @ [(doc, freq, norm)]) (flush_block ?c)"
      unfolding calculation(2) impact_coder_has_def
      using c(1-3) fr(2) True
      by (auto simp: block_ok_def sort_frontier_bounds last_end_def impactBlockSize_def intro!: exI [of _ "bs @ [?b]"])
    ultimately show ?thesis by (metis that)
  next
    case False
    then have "length ?pend < impactBlockSize" using c(8) by simp
    moreover have "impact_add doc freq norm c = Inr ?c"
      using c(1,7) fr(1) False by (simp add: impact_add_def Let_def)
    moreover have "impact_coder_has (ps @ [(doc, freq, norm)]) ?c"
      unfolding impact_coder_has_def
      using c(1-7) fr(2) calculation(1) by (auto intro!: exI [of _ bs] exI [of _ ?pend])
    ultimately show ?thesis by (metis that)
  qed
qed

fun impact_add_all :: "scored list \<Rightarrow> impact_coder \<Rightarrow> (zap_error, impact_coder) result" where
  "impact_add_all [] c = Inr c"
| "impact_add_all ((doc, freq, norm) # ps) c = bind_result (impact_add doc freq norm c) (impact_add_all ps)"

lemma impact_add_all_has:
  assumes "impact_coder_has ps c"
  obtains c' where "impact_add_all qs c = Inr c'" and "impact_coder_has (ps @ qs) c'"
  using assms
proof (induction qs arbitrary: ps c thesis)
  case Nil
  then show ?case by simp
next
  case (Cons q qs)
  obtain doc freq norm where q: "q = (doc, freq, norm)" by (cases q)
  obtain c1 where c1: "impact_add doc freq norm c = Inr c1" "impact_coder_has (ps @ [q]) c1"
    using impact_add_has [OF Cons.prems(2)] unfolding q by metis
  obtain c2 where "impact_add_all qs c1 = Inr c2" "impact_coder_has ((ps @ [q]) @ qs) c2"
    by (rule Cons.IH [OF _ c1(2)])
  then show ?case
    using c1(1) by (intro Cons.prems(1) [of c2]) (simp_all add: q)
qed

lemma impact_coder_reset_has: "impactMinPostings \<le> n \<Longrightarrow> impact_coder_has [] (impact_coder_reset n)"
  by (auto simp: impact_coder_has_def impact_coder_reset_def last_end_def impactBlockSize_def intro!: exI [of _ "[]"])

lemma impact_add_all_disabled: "\<not> mc_enabled c \<Longrightarrow> impact_add_all ps c = Inr c"
  by (induction ps) (auto simp: impact_add_def)

text \<open>The bytes of the metadata: the blocks behind their number.\<close>

definition impact_data :: "block list \<Rightarrow> bytes" where
  "impact_data bs = put_uvarint (of_nat (length bs)) @ enc_blocks 0 bs"

lemma impact_write_at_has:
  assumes "impact_coder_has ps c" and "ps \<noteq> []"
  obtains bs c' where "impact_write_at pr out c = (of_nat (length out),
      out @ put_uvarint (of_nat (length (writer_process pr (impact_data bs)))) @ writer_process pr (impact_data bs), c')"
    and "ps = concat (map fst bs)" and "list_all block_ok bs"
proof -
  obtain bs pend where c: "mc_enabled c" "ps = concat (map fst bs) @ pend" "list_all block_ok bs"
      "mc_encodedBlocks c = enc_blocks 0 bs" "mc_previousEnd c = last_end bs"
      "mc_blocks c = of_nat (length bs)" "mc_blockDocs c = length pend" "length pend < impactBlockSize"
      "bounds_block (mc_frontier c) pend" "pend \<noteq> [] \<longrightarrow> mc_blockEnd c = fst (last pend)"
    using assms(1) unfolding impact_coder_has_def by blast
  have "\<exists>bs'. mc_blocks (flush_block c) = of_nat (length bs') \<and> mc_encodedBlocks (flush_block c) = enc_blocks 0 bs' \<and>
      ps = concat (map fst bs') \<and> list_all block_ok bs'"
  proof (cases "pend = []")
    case True
    then show ?thesis using c by (auto simp: flush_block_def)
  next
    case False
    let ?bs = "bs @ [(pend, mc_blockEnd c, sort_frontier (mc_frontier c))]"
    have "flush_block c = c\<lparr>mc_encodedBlocks := enc_blocks 0 ?bs, mc_previousEnd := mc_blockEnd c,
        mc_blocks := of_nat (length bs + 1), mc_blockDocs := 0, mc_frontier := []\<rparr>"
      by (rule flush_block_writes [OF c(4-7) False])
    moreover have "list_all block_ok ?bs"
      using c(3,8-10) False by (auto simp: block_ok_def sort_frontier_bounds)
    ultimately show ?thesis
      using c(2) by (intro exI [of _ ?bs]) simp
  qed
  then obtain bs' where b: "mc_blocks (flush_block c) = of_nat (length bs')"
      "mc_encodedBlocks (flush_block c) = enc_blocks 0 bs'" "ps = concat (map fst bs')" "list_all block_ok bs'"
    by blast
  have "impact_write_at pr out c = (of_nat (length out),
      out @ put_uvarint (of_nat (length (writer_process pr (impact_data bs')))) @ writer_process pr (impact_data bs'),
      flush_block c)"
    using c(1) b(1,2)
    by (cases pr) (simp_all add: impact_write_at_def Let_def writer_process_def impact_data_def)
  then show ?thesis
    using that b(3,4) by blast
qed

section \<open>What the decoder reads\<close>

lemma impact_read_put:
  assumes "drop (md_pos d) (md_data d) = put_uvarint v @ rest"
  shows "impact_read_uvarint d = Inr (v, d\<lparr>md_pos := md_pos d + num_uvarint_bytes v\<rparr>)"
    and "drop (md_pos d + num_uvarint_bytes v) (md_data d) = rest"
proof -
  have "md_pos d < length (md_data d)"
  proof (rule ccontr)
    assume "\<not> md_pos d < length (md_data d)"
    then have "drop (md_pos d) (md_data d) = []" by simp
    with assms show False by simp
  qed
  then show "impact_read_uvarint d = Inr (v, d\<lparr>md_pos := md_pos d + num_uvarint_bytes v\<rparr>)"
    using num_uvarint_bytes_pos [of v] by (simp add: impact_read_uvarint_def assms uvarint_put)
  have "drop (md_pos d + num_uvarint_bytes v) (md_data d) = drop (num_uvarint_bytes v) (drop (md_pos d) (md_data d))"
    by (simp add: ac_simps)
  then show "drop (md_pos d + num_uvarint_bytes v) (md_data d) = rest"
    unfolding assms drop_put_uvarint .
qed

lemma read_impacts_put:
  assumes "drop (md_pos d) (md_data d) = concat (map impact_bytes is) @ rest"
  obtains pos where "read_impacts (length is) d = Inr (is, d\<lparr>md_pos := pos\<rparr>)" and "drop pos (md_data d) = rest"
  using assms
proof (induction "is" arbitrary: d thesis)
  case Nil
  have "d\<lparr>md_pos := md_pos d\<rparr> = d" by simp
  then show ?case using Nil by (intro Nil.prems(1) [of "md_pos d"]) simp_all
next
  case (Cons i "is")
  let ?f = "imp_Frequency i" and ?n = "imp_Norm i"
  let ?d1 = "d\<lparr>md_pos := md_pos d + num_uvarint_bytes ?f\<rparr>"
  let ?d2 = "?d1\<lparr>md_pos := md_pos ?d1 + num_uvarint_bytes ?n\<rparr>"
  have 1: "drop (md_pos d) (md_data d) = put_uvarint ?f @ put_uvarint ?n @ concat (map impact_bytes is) @ rest"
    using Cons.prems(2) by (simp add: impact_bytes_def [of i])
  have 2: "drop (md_pos ?d1) (md_data ?d1) = put_uvarint ?n @ concat (map impact_bytes is) @ rest"
    using impact_read_put(2) [OF 1] by simp
  have 3: "drop (md_pos ?d2) (md_data ?d2) = concat (map impact_bytes is) @ rest"
    using impact_read_put(2) [OF 2] by simp
  obtain pos where pos: "read_impacts (length is) ?d2 = Inr (is, ?d2\<lparr>md_pos := pos\<rparr>)" "drop pos (md_data ?d2) = rest"
    using Cons.IH [OF _ 3] by blast
  have "read_impacts (length (i # is)) d = Inr (i # is, d\<lparr>md_pos := pos\<rparr>)"
    using impact_read_put(1) [OF 1] impact_read_put(1) [OF 2] pos(1) by simp
  then show ?case
    using pos(2) by (intro Cons.prems(1) [of pos]) simp_all
qed

text \<open>The decoder stands behind the block \<open>j - 1\<close> of the blocks.\<close>

definition impact_decoder_at :: "block list \<Rightarrow> nat \<Rightarrow> impact_decoder \<Rightarrow> bool" where
  "impact_decoder_at bs j d \<longleftrightarrow> j \<le> length bs \<and>
     drop (md_pos d) (md_data d) = enc_blocks (last_end (take j bs)) (drop j bs) \<and>
     md_blocksLeft d = of_nat (length bs - j) \<and> md_currentEnd d = last_end (take j bs) \<and>
     md_currentValid d = (0 < j) \<and> (0 < j \<longrightarrow> md_impacts d = snd (snd (bs ! (j - 1))))"

definition blocks_ok :: "block list \<Rightarrow> bool" where
  "blocks_ok bs \<longleftrightarrow> list_all block_ok bs \<and> sorted (map (fst \<circ> snd) bs) \<and> length bs < 2 ^ 63"

lemma last_end_take: "0 < j \<Longrightarrow> j \<le> length bs \<Longrightarrow> last_end (take j bs) = fst (snd (bs ! (j - 1)))"
  by (cases j) (auto simp: last_end_def take_Suc_conv_app_nth)

lemma read_block_at:
  assumes "impact_decoder_at bs j d" and "blocks_ok bs" and "j < length bs"
  obtains d' where "read_block d = Inr d'" and "impact_decoder_at bs (Suc j) d'"
proof -
  obtain ps e "is" where b: "bs ! j = (ps, e, is)" by (cases "bs ! j")
  let ?prev = "last_end (take j bs)"
  have ok: "block_ok (ps, e, is)"
    using assms(2,3) unfolding b [symmetric] by (simp add: blocks_ok_def list_all_length)
  have n: "length is \<noteq> 0" "length is \<le> 64"
    using ok bounds_block_not_Nil [of "is" ps] by (auto simp: block_ok_def bounds_block_def impactBlockSize_def)
  have un: "unat (of_nat (length is) :: u64) = length is"
    using n by (intro unat_small) simp
  have "?prev \<le> e"
  proof (cases "j = 0")
    case True
    then show ?thesis by (simp add: last_end_def)
  next
    case False
    then have "(fst \<circ> snd) (bs ! (j - 1)) \<le> (fst \<circ> snd) (bs ! j)"
      using assms(2,3) sorted_nth_mono [of "map (fst \<circ> snd) bs" "j - 1" j] by (simp add: blocks_ok_def)
    then show ?thesis
      using last_end_take [of j bs] False assms(3) by (simp add: b)
  qed
  moreover have "unat (- 1 :: u64) = 2 ^ 64 - 1"
    by (simp add: unsigned_minus_1_eq_mask mask_eq_exp_minus_1)
  moreover have "unat e < 2 ^ 64"
    using unsigned_less [of e] by simp
  ultimately have no: "\<not> (NOT 0 - ?prev < e - ?prev)"
    by (simp add: not_less word_le_nat_alt unat_sub_if')
  let ?d0 = "put_uvarint (e - ?prev)"
  have ds: "drop j bs = (ps, e, is) # drop (Suc j) bs"
    using assms(3) b by (metis Cons_nth_drop_Suc)
  have 1: "drop (md_pos d) (md_data d) = put_uvarint (e - ?prev) @ put_uvarint (of_nat (length is)) @
      concat (map impact_bytes is) @ enc_blocks e (drop (Suc j) bs)"
    using assms(1) by (simp add: impact_decoder_at_def ds)
  let ?d1 = "d\<lparr>md_pos := md_pos d + num_uvarint_bytes (e - ?prev)\<rparr>"
  have 2: "drop (md_pos ?d1) (md_data ?d1) = put_uvarint (of_nat (length is)) @
      concat (map impact_bytes is) @ enc_blocks e (drop (Suc j) bs)"
    using impact_read_put(2) [OF 1] by simp
  let ?d2 = "?d1\<lparr>md_pos := md_pos ?d1 + num_uvarint_bytes (of_nat (length is))\<rparr>"
  have 3: "drop (md_pos ?d2) (md_data ?d2) = concat (map impact_bytes is) @ enc_blocks e (drop (Suc j) bs)"
    using impact_read_put(2) [OF 2] by simp
  obtain pos where pos: "read_impacts (length is) ?d2 = Inr (is, ?d2\<lparr>md_pos := pos\<rparr>)"
      "drop pos (md_data ?d2) = enc_blocks e (drop (Suc j) bs)"
    by (rule read_impacts_put [OF 3])
  let ?d' = "d\<lparr>md_pos := pos, md_impacts := is, md_currentEnd := e, md_currentValid := True,
      md_blocksLeft := md_blocksLeft d - 1\<rparr>"
  have cur: "md_currentEnd d = ?prev"
    using assms(1) by (simp add: impact_decoder_at_def)
  have "of_nat (length is) \<noteq> (0 :: u64)" "\<not> of_nat impactBlockSize < (of_nat (length is) :: u64)"
    using n un by (auto simp: impactBlockSize_def word_less_nat_alt)
  then have "read_block d = Inr ?d'"
    using impact_read_put(1) [OF 1] impact_read_put(1) [OF 2] pos(1) no cur
    by (simp add: read_block_def un)
  moreover have "(of_nat (length bs - j) :: u64) - 1 = of_nat (length bs - Suc j)"
    using assms(3) by (simp add: of_nat_diff)
  then have "impact_decoder_at bs (Suc j) ?d'"
    using assms(1,3) pos(2) by (simp add: impact_decoder_at_def last_end_take b)
  ultimately show ?thesis by (rule that)
qed

text \<open>\<open>advanceShallow\<close> goes on to the first block that ends at the document or behind it.\<close>

lemma advance_shallow_at:
  assumes "impact_decoder_at bs j d" and "blocks_ok bs"
  obtains j' d' where "impact_decoder_at bs j' d'" and "j \<le> j'"
    and "\<forall>i. j - 1 \<le> i \<and> i < j' - 1 \<longrightarrow> fst (snd (bs ! i)) < n"
    and "(0 < j' \<and> n \<le> fst (snd (bs ! (j' - 1))) \<and>
        advance_shallow n d = Inr (Some (snd (bs ! (j' - 1))), d')) \<or>
      (j' = length bs \<and> (\<forall>i. j - 1 \<le> i \<and> i < length bs \<longrightarrow> fst (snd (bs ! i)) < n) \<and>
        advance_shallow n d = Inr (None, d'))"
  using assms(1)
proof (induction "length bs - j" arbitrary: j d thesis rule: less_induct)
  case less
  have at: "md_currentValid d = (0 < j)" "md_currentEnd d = last_end (take j bs)" "j \<le> length bs"
    "md_blocksLeft d = of_nat (length bs - j)" "0 < j \<longrightarrow> md_impacts d = snd (snd (bs ! (j - 1)))"
    using less.prems(2) by (auto simp: impact_decoder_at_def)
  show ?case
  proof (cases "\<not> md_currentValid d \<or> md_currentEnd d < n")
    case False
    then have j: "0 < j" "n \<le> fst (snd (bs ! (j - 1)))"
      using at last_end_take [of j bs] by auto
    have "advance_shallow n d = Inr (Some (snd (bs ! (j - 1))), d)"
      using False at j last_end_take [of j bs]
      by (subst advance_shallow.simps) (simp add: prod_eq_iff)
    then show ?thesis
      using less.prems j by (intro less.prems(1) [of j d]) auto
  next
    case stop: True
    have lt: "fst (snd (bs ! (j - 1))) < n" if "0 < j"
      using stop at last_end_take [of j bs] that by auto
    show ?thesis
    proof (cases "j = length bs")
      case True
      then have "advance_shallow n d = Inr (None, d)"
        using stop at(4) by (subst advance_shallow.simps) simp
      moreover have "fst (snd (bs ! i)) < n" if "j - 1 \<le> i" "i < length bs" for i
      proof -
        have "i = j - 1" "0 < j" using that True by auto
        then show ?thesis using lt by simp
      qed
      ultimately show ?thesis
        using less.prems True by (intro less.prems(1) [of j d]) auto
    next
      case False
      then have j: "j < length bs" using at(3) by simp
      obtain d1 where d1: "read_block d = Inr d1" "impact_decoder_at bs (Suc j) d1"
        by (rule read_block_at [OF less.prems(2) assms(2) j])
      have "unat (of_nat (length bs - j) :: u64) = length bs - j"
        using assms(2) by (intro unat_small) (auto simp: blocks_ok_def)
      then have "md_blocksLeft d \<noteq> 0"
        using at(4) j by auto
      then have step: "advance_shallow n d = advance_shallow n d1"
        using stop d1(1) by (subst advance_shallow.simps) simp
      have m: "length bs - Suc j < length bs - j"
        using j by simp
      obtain j' d' where IH: "impact_decoder_at bs j' d'" "Suc j \<le> j'"
          "\<forall>i. Suc j - 1 \<le> i \<and> i < j' - 1 \<longrightarrow> fst (snd (bs ! i)) < n"
          "(0 < j' \<and> n \<le> fst (snd (bs ! (j' - 1))) \<and>
            advance_shallow n d1 = Inr (Some (snd (bs ! (j' - 1))), d')) \<or>
          (j' = length bs \<and> (\<forall>i. Suc j - 1 \<le> i \<and> i < length bs \<longrightarrow> fst (snd (bs ! i)) < n) \<and>
            advance_shallow n d1 = Inr (None, d'))"
        by (rule less.hyps [OF m _ d1(2)])
      have ext: "fst (snd (bs ! i)) < n" if "j - 1 \<le> i" "j \<le> i \<longrightarrow> fst (snd (bs ! i)) < n" for i
        using that lt by (cases "j \<le> i") (auto dest: le_antisym simp: not_le Suc_le_eq)
      show ?thesis
      proof (rule less.prems(1))
        show "impact_decoder_at bs j' d'" by (rule IH(1))
        show "j \<le> j'" using IH(2) by simp
        show "\<forall>i. j - 1 \<le> i \<and> i < j' - 1 \<longrightarrow> fst (snd (bs ! i)) < n"
        proof (intro allI impI)
          fix i assume i: "j - 1 \<le> i \<and> i < j' - 1"
          then have "j \<le> i \<longrightarrow> fst (snd (bs ! i)) < n" using IH(3) by simp
          with i show "fst (snd (bs ! i)) < n" by (intro ext) simp_all
        qed
        show "(0 < j' \<and> n \<le> fst (snd (bs ! (j' - 1))) \<and>
            advance_shallow n d = Inr (Some (snd (bs ! (j' - 1))), d')) \<or>
          (j' = length bs \<and> (\<forall>i. j - 1 \<le> i \<and> i < length bs \<longrightarrow> fst (snd (bs ! i)) < n) \<and>
            advance_shallow n d = Inr (None, d'))"
        proof -
          have "fst (snd (bs ! i)) < n"
            if "\<forall>i. Suc j - 1 \<le> i \<and> i < length bs \<longrightarrow> fst (snd (bs ! i)) < n" "j - 1 \<le> i" "i < length bs" for i
            using that by (intro ext) simp_all
          then show ?thesis using IH(4) unfolding step by blast
        qed
      qed
    qed
  qed
qed

section \<open>The bounds a search may rely on\<close>

definition impact_bound :: "scored list \<Rightarrow> u64 \<Rightarrow> (u64 \<times> impact list) option \<Rightarrow> bool" where
  "impact_bound ps n r \<longleftrightarrow> (case r of
     None \<Rightarrow> \<forall>p\<in>set ps. fst p < n
   | Some (e, is) \<Rightarrow> n \<le> e \<and> (\<exists>p\<in>set ps. fst p = e) \<and>
       (\<forall>(doc, freq, norm)\<in>set ps. n \<le> doc \<and> doc \<le> e \<longrightarrow> covers is freq norm) \<and>
       (\<forall>i\<in>set is. \<exists>doc\<le>e. (doc, imp_Frequency i, imp_Norm i) \<in> set ps))"

fun advance_many :: "u64 list \<Rightarrow> impact_decoder \<Rightarrow> (zap_error, (u64 \<times> impact list) option list) result" where
  "advance_many [] d = Inr []"
| "advance_many (n # ns) d =
     bind_result (advance_shallow n d) (\<lambda>(r, d). bind_result (advance_many ns d) (\<lambda>rs. Inr (r # rs)))"

text \<open>Every posting of a block is at most its end and above the blocks before.\<close>

lemma blocks_sorted:
  assumes "list_all block_ok bs" and "sorted_wrt (<) (map fst (concat (map fst bs)))"
  shows "(\<forall>b\<in>set bs. \<forall>p\<in>set (fst b). fst p \<le> fst (snd b)) \<and>
    sorted_wrt (\<lambda>a b. \<forall>q\<in>set (fst b). fst (snd a) < fst q) bs"
  using assms
proof (induction bs)
  case (Cons a bs)
  obtain ps e "is" where a: "a = (ps, e, is)" by (cases a)
  have ps: "ps \<noteq> []" "e = fst (last ps)"
    using Cons.prems(1) by (auto simp: a block_ok_def)
  have srt: "sorted_wrt (<) (map fst ps)" "sorted_wrt (<) (map fst (concat (map fst bs)))"
    "\<forall>p\<in>set ps. \<forall>q\<in>set (concat (map fst bs)). fst p < fst q"
    using Cons.prems(2) by (auto simp: a sorted_wrt_append)
  have "fst p \<le> e" if "p \<in> set ps" for p
    using that srt(1) ps by (cases ps rule: rev_cases) (auto simp: sorted_wrt_append intro: less_imp_le)
  moreover have "\<forall>b\<in>set bs. \<forall>q\<in>set (fst b). e < fst q"
    using srt(3) ps by auto
  ultimately show ?case
    using Cons.IH Cons.prems(1) srt(2) by (simp add: a)
qed simp

lemmas blocks_below_end = blocks_sorted [THEN conjunct1, rule_format] blocks_sorted [THEN conjunct2]

lemma blocks_are_ok:
  assumes "list_all block_ok bs" and "sorted_wrt (<) (map fst (concat (map fst bs)))"
    and "length (concat (map fst bs)) < 2 ^ 63"
  shows "blocks_ok bs"
proof -
  have "sorted (map (fst \<circ> snd) bs)"
    unfolding sorted_map
    using blocks_below_end(2) [OF assms(1,2)]
  proof (rule sorted_wrt_mono_rel [rotated])
    fix a b assume "a \<in> set bs" "b \<in> set bs" and lt: "\<forall>q\<in>set (fst b). fst (snd a) < fst q"
    then have "fst b \<noteq> []" "fst (snd b) = fst (last (fst b))"
      using assms(1) by (auto simp: list_all_iff block_ok_def)
    then show "(fst \<circ> snd) a \<le> (fst \<circ> snd) b"
      using lt by (auto intro: less_imp_le)
  qed
  moreover have "length bs \<le> length (concat (map fst bs))"
    using assms(1)
  proof (induction bs)
    case (Cons b bs)
    then obtain p ps where "fst b = p # ps"
      by (cases "fst b") (auto simp: block_ok_def split: prod.splits)
    then show ?case using Cons by simp
  qed simp
  ultimately show ?thesis
    using assms(1,3) by (simp add: blocks_ok_def)
qed

lemma advance_many_bounds:
  assumes "list_all block_ok bs" and "sorted_wrt (<) (map fst (concat (map fst bs)))"
    and "length (concat (map fst bs)) < 2 ^ 63"
    and "impact_decoder_at bs j d" and "sorted ns" and "\<forall>n\<in>set ns. \<forall>i<j - 1. fst (snd (bs ! i)) < n"
  shows "\<exists>rs. advance_many ns d = Inr rs \<and> list_all2 (impact_bound (concat (map fst bs))) ns rs"
  using assms(4-6)
proof (induction ns arbitrary: j d)
  case Nil
  then show ?case by simp
next
  case (Cons n ns)
  let ?ps = "concat (map fst bs)"
  obtain j' d' where s: "impact_decoder_at bs j' d'" "j \<le> j'"
      "\<forall>i. j - 1 \<le> i \<and> i < j' - 1 \<longrightarrow> fst (snd (bs ! i)) < n"
      "(0 < j' \<and> n \<le> fst (snd (bs ! (j' - 1))) \<and>
        advance_shallow n d = Inr (Some (snd (bs ! (j' - 1))), d')) \<or>
      (j' = length bs \<and> (\<forall>i. j - 1 \<le> i \<and> i < length bs \<longrightarrow> fst (snd (bs ! i)) < n) \<and>
        advance_shallow n d = Inr (None, d'))"
    by (rule advance_shallow_at [OF Cons.prems(1) blocks_are_ok [OF assms(1-3)]])
  have before: "fst (snd (bs ! i)) < n" if "i < j' - 1" for i
    using that s(3) Cons.prems(3) by (cases "i < j - 1") simp_all
  have j': "j' \<le> length bs"
    using s(1) by (simp add: impact_decoder_at_def)
  have below: "fst p \<le> fst (snd (bs ! i))" if "i < length bs" "p \<in> set (fst (bs ! i))" for i p
    using blocks_below_end(1) [OF assms(1,2)] that by simp
  have above: "fst (snd (bs ! i)) < fst p" if "i < k" "k < length bs" "p \<in> set (fst (bs ! k))" for i k p
    using sorted_wrt_nth_less [OF blocks_below_end(2) [OF assms(1,2)] that(1,2)] that(3) by simp
  have in_block: "\<exists>i<length bs. p \<in> set (fst (bs ! i))" if p: "p \<in> set ?ps" for p
  proof -
    obtain b where "b \<in> set bs" "p \<in> set (fst b)" using p by auto
    then show ?thesis by (metis in_set_conv_nth)
  qed
  have "\<exists>r. advance_shallow n d = Inr (r, d') \<and> impact_bound ?ps n r"
    using s(4)
  proof (elim disjE conjE)
    assume none: "\<forall>i. j - 1 \<le> i \<and> i < length bs \<longrightarrow> fst (snd (bs ! i)) < n"
      and a: "advance_shallow n d = Inr (None, d')" and "j' = length bs"
    have ends: "fst (snd (bs ! i)) < n" if "i < length bs" for i
      using that none Cons.prems(3) by (cases "i < j - 1") simp_all
    have "fst p < n" if p: "p \<in> set ?ps" for p
    proof -
      obtain i where "i < length bs" "p \<in> set (fst (bs ! i))"
        using in_block [OF p] by blast
      then show ?thesis using below ends by (meson order_le_less_trans)
    qed
    then show ?thesis using a by (auto simp: impact_bound_def)
  next
    assume pos: "0 < j'" and le: "n \<le> fst (snd (bs ! (j' - 1)))"
      and a: "advance_shallow n d = Inr (Some (snd (bs ! (j' - 1))), d')"
    obtain qs e "is" where b: "bs ! (j' - 1) = (qs, e, is)" by (cases "bs ! (j' - 1)")
    have i: "j' - 1 < length bs" using pos j' by simp
    have ok: "block_ok (qs, e, is)"
      using assms(1) i b by (metis list_all_length)
    have sub: "set qs \<subseteq> set ?ps"
      using nth_mem [OF i] b by (auto intro!: bexI [of _ "bs ! (j' - 1)"])
    have e: "qs \<noteq> []" "e = fst (last qs)" "bounds_block is qs"
      using ok by (auto simp: block_ok_def)
    have "covers is f m" if p: "(doc, f, m) \<in> set ?ps" "n \<le> doc" "doc \<le> e" for doc f m
    proof -
      obtain k where k: "k < length bs" "(doc, f, m) \<in> set (fst (bs ! k))"
        using in_block [OF p(1)] by blast
      have "\<not> k < j' - 1"
      proof
        assume "k < j' - 1"
        then have "fst (snd (bs ! k)) < n" by (rule before)
        moreover have "doc \<le> fst (snd (bs ! k))" using below [OF k] by simp
        ultimately show False using p(2) by simp
      qed
      moreover have "\<not> j' - 1 < k"
        using above [OF _ k] p(3) b by force
      ultimately have kj: "k = j' - 1" by simp
      show ?thesis
      proof -
        have "(doc, f, m) \<in> set qs"
          using k(2) unfolding kj b by simp
        then show ?thesis
          using e(3) unfolding bounds_block_def by blast
      qed
    qed
    moreover have "\<exists>p\<in>set ?ps. fst p = e"
      using sub e(1,2) by (intro bexI [of _ "last qs"]) (simp, rule subsetD [OF sub], simp)
    moreover have "\<exists>doc\<le>e. (doc, imp_Frequency k, imp_Norm k) \<in> set ?ps" if "k \<in> set is" for k
      using that e(3) sub below [OF i] unfolding b bounds_block_def by fastforce
    moreover have "n \<le> e" using le unfolding b by simp
    ultimately have "impact_bound ?ps n (Some (e, is))"
      unfolding impact_bound_def option.case prod.case by blast
    then show ?thesis using a unfolding b by simp
  qed
  then obtain r where r: "advance_shallow n d = Inr (r, d')" "impact_bound ?ps n r" by blast
  have "\<forall>m\<in>set ns. \<forall>i<j' - 1. fst (snd (bs ! i)) < m"
    using before Cons.prems(2) by (auto intro: order_less_le_trans)
  then obtain rs where "advance_many ns d' = Inr rs" "list_all2 (impact_bound ?ps) ns rs"
    using Cons.IH [OF s(1)] Cons.prems(2) by auto
  then show ?case using r by simp
qed

lemma open_impacts_at:
  assumes "fits mem" and "drop pos mem = put_uvarint (of_nat (length stored)) @ stored @ rest"
    and "reader_process fr stored = Some (impact_data bs)" and "length bs < 2 ^ 63"
  obtains d where "open_impacts mem fr (of_nat pos) = Inr d" and "impact_decoder_at bs 0 d"
proof -
  let ?n = "of_nat (length stored) :: u64"
  let ?b = "num_uvarint_bytes ?n"
  have lt: "pos < length mem"
  proof (rule ccontr)
    assume "\<not> pos < length mem"
    then have "drop pos mem = []" by simp
    with assms(2) show False by simp
  qed
  have m: "length mem < 2 ^ 63"
    using assms(1) by (simp add: fits_def)
  have "length (drop pos mem) = ?b + (length stored + length rest)"
    unfolding assms(2) by (simp add: length_put_uvarint)
  then have len: "length mem = pos + ?b + length stored + length rest"
    using lt by simp
  have "pos < 2 ^ 64" "length mem < 2 ^ 64" "length stored < 2 ^ 64"
    using m len by simp_all
  then have u: "unat (of_nat pos :: u64) = pos" "unat (of_nat (length mem) :: u64) = length mem" "unat ?n = length stored"
    by (simp_all only: unat_small)
  have st: "unat (of_nat pos + of_nat ?b :: u64) = pos + ?b"
    using unat_small [of "pos + ?b"] m len by simp
  have "of_nat (length mem) - (of_nat pos + of_nat ?b) = (of_nat (length stored + length rest) :: u64)"
    by (simp add: len)
  then have room: "\<not> of_nat (length mem) - (of_nat pos + of_nat ?b) < ?n"
    using unat_small [of "length stored + length rest"] m len
    by (simp add: word_less_nat_alt u(3) not_less)
  have "drop (pos + ?b) mem = drop ?b (drop pos mem)"
    by (simp add: ac_simps)
  then have d: "drop (pos + ?b) mem = stored @ rest"
    unfolding assms(2) drop_put_uvarint .
  have "mem_slice mem (of_nat pos + of_nat ?b) (of_nat pos + of_nat ?b + ?n) =
      Inr (take (length stored) (drop (pos + ?b) mem))"
    using len by (intro mem_slice_nat [OF assms(1)]) simp_all
  then have sl: "mem_slice mem (of_nat pos + of_nat ?b) (of_nat pos + of_nat ?b + ?n) = Inr stored"
    unfolding d by simp
  let ?d0 = "\<lparr>md_data = impact_data bs, md_pos = 0, md_blocksLeft = 0, md_currentEnd = 0, md_currentValid = False,
      md_impacts = []\<rparr>"
  have 1: "drop (md_pos ?d0) (md_data ?d0) = put_uvarint (of_nat (length bs)) @ enc_blocks 0 bs"
    by (simp add: impact_data_def)
  let ?d = "?d0\<lparr>md_pos := num_uvarint_bytes (of_nat (length bs)), md_blocksLeft := of_nat (length bs)\<rparr>"
  have "impact_decoder_reset (impact_data bs) = Inr ?d"
    using impact_read_put(1) [OF 1] by (simp add: impact_decoder_reset_def)
  moreover have "impact_decoder_at bs 0 ?d"
    using impact_read_put(2) [OF 1] by (simp add: impact_decoder_at_def last_end_def)
  moreover have "0 < int ?b" using num_uvarint_bytes_pos by simp
  ultimately show ?thesis
    using that [of ?d] lt room sl assms(3)
    by (simp add: open_impacts_def u(1) assms(2) uvarint_put)
qed

text \<open>
  C13: The block impacts written for the postings of a term bound them: whatever ascending documents
  a search asks for, the block it is shown ends at a posting at or above the document, every posting
  from the document to that end has no more than some impact's frequency and no less than its norm,
  every impact is reached by a posting, and without a block no posting is left.
\<close>

theorem impacts_bound:
  assumes "sorted_wrt (<) (map fst ps)" and "length ps < 2 ^ 63"
    and "impactMinPostings \<le> of_nat (length ps)"
    and "\<And>b. reader_process fr (writer_process pr b) = Some b"
  shows "\<exists>c off out' c'. impact_add_all ps (impact_coder_reset (of_nat (length ps))) = Inr c \<and>
    impact_write_at pr out c = (off, out', c') \<and>
    (\<forall>rest ns. fits (out' @ rest) \<longrightarrow> sorted ns \<longrightarrow>
      (\<exists>d rs. open_impacts (out' @ rest) fr off = Inr d \<and> advance_many ns d = Inr rs \<and>
        list_all2 (impact_bound ps) ns rs))"
proof -
  have ne: "ps \<noteq> []"
    using assms(3) by (auto simp: impactMinPostings_def)
  obtain c where c: "impact_add_all ps (impact_coder_reset (of_nat (length ps))) = Inr c"
      "impact_coder_has ([] @ ps) c"
    by (rule impact_add_all_has [OF impact_coder_reset_has [OF assms(3)]])
  have has: "impact_coder_has ps c" using c(2) by simp
  obtain bs c' where w: "impact_write_at pr out c = (of_nat (length out),
      out @ put_uvarint (of_nat (length (writer_process pr (impact_data bs)))) @ writer_process pr (impact_data bs), c')"
      "ps = concat (map fst bs)" "list_all block_ok bs"
    by (rule impact_write_at_has [OF has ne])
  let ?out = "out @ put_uvarint (of_nat (length (writer_process pr (impact_data bs)))) @
    writer_process pr (impact_data bs)"
  have ok: "blocks_ok bs"
    using blocks_are_ok [OF w(3)] assms(1,2) by (simp add: w(2))
  then have few: "length bs < 2 ^ 63"
    by (simp add: blocks_ok_def)
  have "\<exists>d rs. open_impacts (?out @ rest) fr (of_nat (length out)) = Inr d \<and> advance_many ns d = Inr rs \<and>
      list_all2 (impact_bound ps) ns rs"
    if f: "fits (?out @ rest)" and "sorted ns" for rest ns
  proof -
    have dr: "drop (length out) (?out @ rest) =
        put_uvarint (of_nat (length (writer_process pr (impact_data bs)))) @ writer_process pr (impact_data bs) @ rest"
      by simp
    obtain d where d: "open_impacts (?out @ rest) fr (of_nat (length out)) = Inr d" "impact_decoder_at bs 0 d"
      by (rule open_impacts_at [OF f dr assms(4) few])
    have "\<exists>rs. advance_many ns d = Inr rs \<and> list_all2 (impact_bound (concat (map fst bs))) ns rs"
      using assms(1,2) by (intro advance_many_bounds [OF w(3) _ _ d(2) \<open>sorted ns\<close>]) (simp_all add: w(2))
    then show ?thesis
      using d(1) by (auto simp: w(2))
  qed
  then show ?thesis
    using c(1) w(1) by blast
qed

theorem impacts_bound_witness:
  "\<exists>c off out' c'. impact_add_all (map (\<lambda>i. (of_nat i, 2, of_nat (i mod 7))) [0..<130])
      (impact_coder_reset 130) = Inr c \<and>
    impact_write_at (Some rev) [9] c = (off, out', c') \<and>
    (fits out' \<longrightarrow> (\<exists>d rs. open_impacts out' (Some (\<lambda>b. Some (rev b))) off = Inr d \<and>
      advance_many [0, 70, 200] d = Inr rs \<and>
      list_all2 (impact_bound (map (\<lambda>i. (of_nat i, 2, of_nat (i mod 7))) [0..<130])) [0, 70, 200] rs))"
proof -
  let ?ps = "map (\<lambda>i. (of_nat i, 2, of_nat (i mod 7))) [0..<130] :: scored list"
  have "(of_nat i :: u64) < of_nat j" if "i < j" "j < 130" for i j
    using that by (simp add: word_less_nat_alt unat_small)
  then have "sorted_wrt (\<lambda>i j. (of_nat i :: u64) < of_nat j) [0..<130]"
    by (auto simp: sorted_wrt_iff_nth_less)
  then have srt: "sorted_wrt (<) (map fst ?ps)"
    by (simp add: sorted_wrt_map comp_def)
  have len: "length ?ps = 130" by simp
  have few: "length ?ps < 2 ^ 63" and many: "impactMinPostings \<le> of_nat (length ?ps)"
    by (simp_all add: impactMinPostings_def)
  have inv: "reader_process (Some (\<lambda>b. Some (rev b))) (writer_process (Some rev) b) = Some b" for b :: bytes
    by (simp add: reader_process_def writer_process_def)
  obtain c off out' c' where
      c: "impact_add_all ?ps (impact_coder_reset (of_nat (length ?ps))) = Inr c"
        "impact_write_at (Some rev) [9] c = (off, out', c')"
    and r: "\<forall>rest ns. fits (out' @ rest) \<longrightarrow> sorted ns \<longrightarrow>
      (\<exists>d rs. open_impacts (out' @ rest) (Some (\<lambda>b. Some (rev b))) off = Inr d \<and> advance_many ns d = Inr rs \<and>
        list_all2 (impact_bound ?ps) ns rs)"
    using impacts_bound [OF srt few many inv, where out = "[9]"] by (elim exE conjE) (rule that)
  have "sorted [0, 70, 200 :: u64]" by simp
  then show ?thesis
    using c r [rule_format, of "[]" "[0, 70, 200]"] unfolding len append_Nil2 of_nat_numeral by blast
qed

end
