(* ===== verification/Zap_Postings.thy ===== *)
theory Zap_Postings
  imports Zap_Impact
begin

text \<open>
  The postings of a term in a segment: how they are written (\<open>writeDicts\<close> of
  \<open>internal/zapxtext/section_inverted_text_index.go\<close>, \<open>writePostings\<close> of \<open>merge.go\<close>) and how
  \<open>posting.go\<close> reads them, list and iterator. A roaring bitmap is the ascending list of its
  numbers; the bytes of a bitmap are a parameter. A document number of a bitmap is below
  \<open>2 ^ 32\<close>; a norm is the bits of its \<open>float32\<close>.
\<close>

section \<open>Values of the term dictionary\<close>

definition mask31Bits :: u64 where "mask31Bits = 0x7fffffff"
definition FSTValEncodingMask :: u64 where "FSTValEncodingMask = 0xc000000000000000"
definition FSTValEncoding1Hit :: u64 where "FSTValEncoding1Hit = 0x8000000000000000"

definition fst_val_encode_1hit :: "u64 \<Rightarrow> u64 \<Rightarrow> u64" where
  "fst_val_encode_1hit docNum normBits =
     (FSTValEncoding1Hit OR push_bit 31 (mask31Bits AND normBits)) OR (mask31Bits AND docNum)"

definition fst_val_decode_1hit :: "u64 \<Rightarrow> u64 \<times> u64" where
  "fst_val_decode_1hit v = (mask31Bits AND v, mask31Bits AND drop_bit 31 v)"

definition under_32_bits :: "u64 \<Rightarrow> bool" where
  "under_32_bits x \<longleftrightarrow> x \<le> mask31Bits"

definition docNum1HitFinished :: u64 where "docNum1HitFinished = - 1"
definition normBits1Hit :: u64 where "normBits1Hit = 1"

section \<open>Frequencies\<close>

definition encode_freq_has_locs :: "u64 \<Rightarrow> bool \<Rightarrow> u64" where
  "encode_freq_has_locs freq hasLocs = (let rv = push_bit 1 freq in if hasLocs then rv OR 1 else rv)"

definition decode_freq_has_locs :: "u64 \<Rightarrow> u64 \<times> bool" where
  "decode_freq_has_locs freqHasLocs = (drop_bit 1 freqHasLocs, freqHasLocs AND 1 \<noteq> 0)"

section \<open>Writing the postings of a term\<close>

record interim_freq_norm =
  fn_freq :: u64
  fn_norm :: "32 word"
  fn_numLocs :: nat

record interim_loc =
  il_fieldID :: "16 word"
  il_pos :: u64
  il_start :: u64
  il_end :: u64
  il_arrayposs :: "u64 list"

definition loc_size :: "interim_loc \<Rightarrow> nat" where
  "loc_size l = total_uvarint_bytes (ucast (il_fieldID l)) (il_pos l) (il_start l) (il_end l)
     (of_nat (length (il_arrayposs l))) (il_arrayposs l)"

record coders =
  cd_tf :: int_coder
  cd_loc :: int_coder
  cd_impact :: impact_coder

text \<open>The locations of one document: the number of their bytes, then each of them.\<close>

fun write_locs ::
  "(bytes \<Rightarrow> bytes) \<Rightarrow> u64 \<Rightarrow> interim_loc list \<Rightarrow> int_coder \<Rightarrow> (zap_error, int_coder) result" where
  "write_locs encode docNum [] c = Inr c"
| "write_locs encode docNum (l # ls) c =
     bind_result (int_coder_add encode docNum
        [ucast (il_fieldID l), il_pos l, il_start l, il_end l, of_nat (length (il_arrayposs l))] c) (\<lambda>c.
     bind_result (int_coder_add encode docNum (il_arrayposs l) c) (write_locs encode docNum ls))"

fun write_term_loop ::
  "(bytes \<Rightarrow> bytes) \<Rightarrow> nat list \<Rightarrow> interim_freq_norm list \<Rightarrow> interim_loc list \<Rightarrow> coders \<Rightarrow>
   (zap_error, coders) result" where
  "write_term_loop encode [] freqNorms locs c = Inr c"
| "write_term_loop encode (docNum # docs) [] locs c = Inl Panic"
| "write_term_loop encode (docNum # docs) (freqNorm # freqNorms) locs c =
     (let hasLocs = 0 < fn_numLocs freqNorm; normBits = ucast (fn_norm freqNorm);
          freqHasLocs = encode_freq_has_locs (fn_freq freqNorm) hasLocs
      in bind_result (int_coder_add encode (of_nat docNum)
            (if 0 < fn_freq freqNorm then [freqHasLocs, normBits] else [freqHasLocs]) (cd_tf c)) (\<lambda>tf.
         bind_result (impact_add (of_nat docNum) (fn_freq freqNorm) normBits (cd_impact c)) (\<lambda>im.
         if \<not> hasLocs then write_term_loop encode docs freqNorms locs (c\<lparr>cd_tf := tf, cd_impact := im\<rparr>)
         else if length locs < fn_numLocs freqNorm then Inl Panic
         else let ls = take (fn_numLocs freqNorm) locs
           in bind_result (int_coder_add encode (of_nat docNum) [of_nat (sum_list (map loc_size ls))] (cd_loc c)) (\<lambda>lc.
              bind_result (write_locs encode (of_nat docNum) ls lc) (\<lambda>lc.
                write_term_loop encode docs freqNorms (drop (fn_numLocs freqNorm) locs)
                  (c\<lparr>cd_tf := tf, cd_impact := im, cd_loc := lc\<rparr>))))))"

text \<open>\<open>writeRoaringWithLen\<close> and \<open>writePostings\<close>; \<open>roaring\<close> gives the bytes of a bitmap.\<close>

definition write_roaring_with_len ::
  "(nat list \<Rightarrow> bytes) \<Rightarrow> writer_processor \<Rightarrow> nat list \<Rightarrow> bytes \<Rightarrow> bytes" where
  "write_roaring_with_len roaring pr r out =
     (let buf = writer_process pr (roaring r) in out @ put_uvarint (of_nat (length buf)) @ buf)"

definition write_postings ::
  "(nat list \<Rightarrow> bytes) \<Rightarrow> writer_processor \<Rightarrow> nat list \<Rightarrow> coders \<Rightarrow> (u64 \<Rightarrow> bool \<times> u64 \<times> u64) option \<Rightarrow>
   bytes \<Rightarrow> (zap_error, u64 \<times> bytes \<times> coders) result" where
  "write_postings roaring pr postings c use1HitEncoding out =
     (let termCardinality = of_nat (length postings) :: u64;
          general = bind_result (int_coder_write_at pr out (cd_tf c)) (\<lambda>(tfOffset, out, tf).
            case impact_write_at pr out (cd_impact c) of (impactOffset, out, im) \<Rightarrow>
              bind_result (int_coder_write_at pr out (cd_loc c)) (\<lambda>(locOffset, out, lc).
                Inr (of_nat (length out),
                     write_roaring_with_len roaring pr postings
                       (out @ put_uvarint tfOffset @ put_uvarint locOffset @ put_uvarint impactOffset),
                     \<lparr>cd_tf = tf, cd_loc = lc, cd_impact = im\<rparr>)))
      in if termCardinality \<le> 0 then Inr (0, out, c)
         else case use1HitEncoding of
           None \<Rightarrow> general
         | Some f \<Rightarrow> (case f termCardinality of (encodeAs1Hit, docNum, norm) \<Rightarrow>
             if encodeAs1Hit then Inr (fst_val_encode_1hit docNum norm, out, c) else general))"

text \<open>
  What \<open>writeDicts\<close> does for one term of a segment with \<open>numDocs\<close> documents: the value of the
  term for the dictionary (zero is not inserted) and the coders for the next term.
\<close>

definition write_term ::
  "(bytes \<Rightarrow> bytes) \<Rightarrow> (nat list \<Rightarrow> bytes) \<Rightarrow> writer_processor \<Rightarrow> 32 word \<Rightarrow> u64 \<Rightarrow> nat list \<Rightarrow>
   interim_freq_norm list \<Rightarrow> interim_loc list \<Rightarrow> coders \<Rightarrow> bytes \<Rightarrow> (zap_error, u64 \<times> bytes \<times> coders) result" where
  "write_term encode roaring pr chunkMode numDocs postings freqNorms locs c out =
     (let cardinality = of_nat (length postings) in
      bind_result (get_chunk_size chunkMode cardinality numDocs) (\<lambda>chunkSize.
      bind_result (int_coder_set_chunk_size chunkSize (numDocs - 1) (cd_tf c)) (\<lambda>tf.
      bind_result (int_coder_set_chunk_size chunkSize (numDocs - 1) (cd_loc c)) (\<lambda>lc.
      bind_result (write_term_loop encode postings freqNorms locs
          \<lparr>cd_tf = tf, cd_loc = lc, cd_impact = impact_coder_reset cardinality\<rparr>) (\<lambda>c.
      bind_result (int_coder_close encode (cd_tf c)) (\<lambda>tf.
      bind_result (int_coder_close encode (cd_loc c)) (\<lambda>lc.
      bind_result (write_postings roaring pr postings (c\<lparr>cd_tf := tf, cd_loc := lc\<rparr>) None out) (\<lambda>(off, out, c).
        Inr (off, out, c\<lparr>cd_tf := int_coder_reset (cd_tf c), cd_loc := int_coder_reset (cd_loc c)\<rparr>)))))))))"

section \<open>Postings lists\<close>

text \<open>The segment, as far as postings need it; \<open>decode\<close> of snappy and the bitmap reader are parameters.\<close>

record segment_base =
  sb_mem :: bytes
  sb_fileReader :: reader_processor
  sb_chunkMode :: "32 word"
  sb_numDocs :: u64
  sb_fieldsInv :: "string list"
  sb_decode :: "bytes \<Rightarrow> bytes option"
  sb_fromBuffer :: "bytes \<Rightarrow> nat list option"

record postings_list =
  pl_freqOffset :: u64
  pl_locOffset :: u64
  pl_impactOffset :: u64
  pl_postings :: "nat list option"
  pl_except :: "nat list option"
  pl_docNum1Hit :: u64
  pl_normBits1Hit :: u64
  pl_chunkSize :: u64

text \<open>\<open>postingsListFromOffset\<close>: a fresh list is read from the value of the term.\<close>

definition postings_list_init :: "nat list option \<Rightarrow> postings_list" where
  "postings_list_init except =
     \<lparr>pl_freqOffset = 0, pl_locOffset = 0, pl_impactOffset = 0, pl_postings = None, pl_except = except,
      pl_docNum1Hit = 0, pl_normBits1Hit = 0, pl_chunkSize = 0\<rparr>"

definition postings_list_read :: "segment_base \<Rightarrow> u64 \<Rightarrow> postings_list \<Rightarrow> (zap_error, postings_list) result" where
  "postings_list_read sb postingsOffset rv =
     (if postingsOffset AND FSTValEncodingMask = FSTValEncoding1Hit then
        (case fst_val_decode_1hit postingsOffset of (docNum, normBits) \<Rightarrow>
           Inr (rv\<lparr>pl_docNum1Hit := docNum, pl_normBits1Hit := normBits\<rparr>))
      else
        bind_result (uvarint_at (sb_mem sb) postingsOffset) (\<lambda>(freqOffset, r1).
        bind_result (uvarint_at (sb_mem sb) (postingsOffset + of_int r1)) (\<lambda>(locOffset, r2).
        bind_result (uvarint_at (sb_mem sb) (postingsOffset + of_int r1 + of_int r2)) (\<lambda>(impactOffset, r3).
        bind_result (uvarint_at (sb_mem sb) (postingsOffset + of_int r1 + of_int r2 + of_int r3)) (\<lambda>(postingsLen, r4).
        let n = postingsOffset + of_int r1 + of_int r2 + of_int r3 + of_int r4 in
        bind_result (mem_slice (sb_mem sb) n (n + postingsLen)) (\<lambda>stored.
        case reader_process (sb_fileReader sb) stored of None \<Rightarrow> Inl ProcessFailed
        | Some roaringBytes \<Rightarrow> (case sb_fromBuffer sb roaringBytes of None \<Rightarrow> Inl RoaringError
          | Some postings \<Rightarrow>
              bind_result (get_chunk_size (sb_chunkMode sb) (of_nat (length postings)) (sb_numDocs sb)) (\<lambda>chunkSize.
                Inr (rv\<lparr>pl_freqOffset := freqOffset, pl_locOffset := locOffset, pl_impactOffset := impactOffset,
                         pl_postings := Some postings, pl_chunkSize := chunkSize\<rparr>)))))))))"

definition postings_list_from_offset ::
  "segment_base \<Rightarrow> u64 \<Rightarrow> nat list option \<Rightarrow> (zap_error, postings_list) result" where
  "postings_list_from_offset sb postingsOffset except =
     postings_list_read sb postingsOffset (postings_list_init except)"

definition excepted :: "nat list option \<Rightarrow> nat \<Rightarrow> bool" where
  "excepted except n \<longleftrightarrow> (case except of None \<Rightarrow> False | Some e \<Rightarrow> n \<in> set e)"

text \<open>\<open>uint32(x)\<close> of a \<open>uint64\<close>.\<close>

definition uint32 :: "u64 \<Rightarrow> nat" where
  "uint32 x = unat (ucast x :: 32 word)"

definition postings_list_count :: "postings_list \<Rightarrow> nat" where
  "postings_list_count p =
     (if pl_normBits1Hit p \<noteq> 0 then 1 - (if excepted (pl_except p) (uint32 (pl_docNum1Hit p)) then 1 else 0)
      else case pl_postings p of None \<Rightarrow> 0
        | Some postings \<Rightarrow> length postings - length (filter (excepted (pl_except p)) postings))"

definition postings_list_or_into :: "postings_list \<Rightarrow> nat set \<Rightarrow> nat set" where
  "postings_list_or_into p receiver =
     (if pl_normBits1Hit p \<noteq> 0 then insert (uint32 (pl_docNum1Hit p)) receiver
      else case pl_postings p of None \<Rightarrow> receiver | Some postings \<Rightarrow> receiver \<union> set postings)"

section \<open>The iterator\<close>

record location =
  lo_field :: string
  lo_pos :: u64
  lo_start :: u64
  lo_end :: u64
  lo_ap :: "u64 list"

record posting =
  po_docNum :: u64
  po_freq :: u64
  po_norm :: "32 word"
  po_locs :: "location list"

text \<open>
  \<open>all\<close> and \<open>Actual\<close> hold what the iterators over the bitmaps have left. When nothing is excepted
  they are one iterator and the list is clean: only \<open>Actual\<close> is used.
\<close>

record postings_iterator =
  pi_postings :: postings_list
  pi_all :: "nat list"
  pi_Actual :: "nat list option"
  pi_clean :: bool
  pi_currChunk :: nat
  pi_freqNormReader :: "int_decoder option"
  pi_locReader :: "int_decoder option"
  pi_docNum1Hit :: u64
  pi_normBits1Hit :: u64
  pi_includeFreqNorm :: bool
  pi_includeLocs :: bool

definition init_iterator ::
  "segment_base \<Rightarrow> postings_list \<Rightarrow> bool \<Rightarrow> bool \<Rightarrow> bool \<Rightarrow> postings_iterator option \<Rightarrow>
   (zap_error, postings_iterator) result" where
  "init_iterator sb p includeFreq includeNorm includeLocs rv =
     (let freqNormReader = (case rv of None \<Rightarrow> None | Some i \<Rightarrow> map_option int_decoder_reset (pi_freqNormReader i));
          locReader = (case rv of None \<Rightarrow> None | Some i \<Rightarrow> map_option int_decoder_reset (pi_locReader i));
          rv = \<lparr>pi_postings = p, pi_all = [], pi_Actual = None, pi_clean = False, pi_currChunk = 0,
                pi_freqNormReader = freqNormReader, pi_locReader = locReader, pi_docNum1Hit = 0,
                pi_normBits1Hit = 0, pi_includeFreqNorm = includeFreq \<or> includeNorm \<or> includeLocs,
                pi_includeLocs = includeLocs\<rparr>
      in if pl_normBits1Hit p \<noteq> 0 then
           Inr (rv\<lparr>pi_docNum1Hit := (if excepted (pl_except p) (uint32 (pl_docNum1Hit p))
                    then docNum1HitFinished else pl_docNum1Hit p), pi_normBits1Hit := pl_normBits1Hit p\<rparr>)
         else case pl_postings p of None \<Rightarrow> Inr rv
         | Some postings \<Rightarrow>
             bind_result (if pi_includeFreqNorm rv
               then bind_result (new_int_decoder (sb_mem sb) (pl_freqOffset p) freqNormReader) (\<lambda>d. Inr (Some d))
               else Inr freqNormReader) (\<lambda>freqNormReader.
             bind_result (if includeLocs
               then bind_result (new_int_decoder (sb_mem sb) (pl_locOffset p) locReader) (\<lambda>d. Inr (Some d))
               else Inr locReader) (\<lambda>locReader.
             Inr (rv\<lparr>pi_freqNormReader := freqNormReader, pi_locReader := locReader, pi_all := postings,
               pi_Actual := Some (filter (\<lambda>n. \<not> excepted (pl_except p) n) postings),
               pi_clean := (pl_except p = None)\<rparr>))))"

text \<open>Operations of a reader that may be nil.\<close>

definition with_reader ::
  "int_decoder option \<Rightarrow> (int_decoder \<Rightarrow> (zap_error, 'a) result) \<Rightarrow> (zap_error, 'a) result" where
  "with_reader r f = (case r of None \<Rightarrow> Inl Panic | Some d \<Rightarrow> f d)"

definition load_chunk_reader ::
  "segment_base \<Rightarrow> nat \<Rightarrow> int_decoder option \<Rightarrow> (zap_error, int_decoder option) result" where
  "load_chunk_reader sb chunk r =
     with_reader r (\<lambda>d. bind_result (load_chunk (sb_decode sb) (sb_fileReader sb) chunk d) (\<lambda>d. Inr (Some d)))"

definition iterator_load_chunk ::
  "segment_base \<Rightarrow> nat \<Rightarrow> postings_iterator \<Rightarrow> (zap_error, postings_iterator) result" where
  "iterator_load_chunk sb chunk i =
     bind_result (if pi_includeFreqNorm i then load_chunk_reader sb chunk (pi_freqNormReader i)
       else Inr (pi_freqNormReader i)) (\<lambda>f.
     bind_result (if pi_includeLocs i then load_chunk_reader sb chunk (pi_locReader i)
       else Inr (pi_locReader i)) (\<lambda>l.
     Inr (i\<lparr>pi_freqNormReader := f, pi_locReader := l, pi_currChunk := chunk\<rparr>)))"

text \<open>\<open>if i.currChunk != nChunk || i.freqNormReader.isNil() { loadChunk }\<close>\<close>

definition ensure_chunk ::
  "segment_base \<Rightarrow> nat \<Rightarrow> postings_iterator \<Rightarrow> (zap_error, postings_iterator) result" where
  "ensure_chunk sb nChunk i =
     (if pi_currChunk i \<noteq> nChunk then iterator_load_chunk sb nChunk i
      else with_reader (pi_freqNormReader i) (\<lambda>d.
        if int_decoder_is_nil d then iterator_load_chunk sb nChunk i else Inr i))"

definition freq_read_uvarint :: "postings_iterator \<Rightarrow> (zap_error, u64 \<times> postings_iterator) result" where
  "freq_read_uvarint i = with_reader (pi_freqNormReader i) (\<lambda>d.
     bind_result (decoder_read_uvarint d) (\<lambda>(v, d). Inr (v, i\<lparr>pi_freqNormReader := Some d\<rparr>)))"

definition loc_read_uvarint :: "postings_iterator \<Rightarrow> (zap_error, u64 \<times> postings_iterator) result" where
  "loc_read_uvarint i = with_reader (pi_locReader i) (\<lambda>d.
     bind_result (decoder_read_uvarint d) (\<lambda>(v, d). Inr (v, i\<lparr>pi_locReader := Some d\<rparr>)))"

definition read_freq_norm_has_locs ::
  "postings_iterator \<Rightarrow> (zap_error, (u64 \<times> u64 \<times> bool) \<times> postings_iterator) result" where
  "read_freq_norm_has_locs i =
     (if pi_normBits1Hit i \<noteq> 0 then Inr ((1, pi_normBits1Hit i, False), i)
      else bind_result (freq_read_uvarint i) (\<lambda>(freqHasLocs, i).
        case decode_freq_has_locs freqHasLocs of (freq, hasLocs) \<Rightarrow>
          if freq = 0 then Inr ((freq, 0, hasLocs), i)
          else bind_result (freq_read_uvarint i) (\<lambda>(normBits, i). Inr ((freq, normBits, hasLocs), i))))"

definition skip_freq_norm_read_has_locs ::
  "postings_iterator \<Rightarrow> (zap_error, bool \<times> postings_iterator) result" where
  "skip_freq_norm_read_has_locs i =
     (if pi_normBits1Hit i \<noteq> 0 then Inr (False, i)
      else bind_result (freq_read_uvarint i) (\<lambda>(freqHasLocs, i).
        case decode_freq_has_locs freqHasLocs of (freq, hasLocs) \<Rightarrow>
          if freq = 0 then Inr (hasLocs, i)
          else with_reader (pi_freqNormReader i) (\<lambda>d.
            bind_result (decoder_skip_uvarint d) (\<lambda>d. Inr (hasLocs, i\<lparr>pi_freqNormReader := Some d\<rparr>)))))"

definition skip_locs :: "postings_iterator \<Rightarrow> (zap_error, postings_iterator) result" where
  "skip_locs i =
     bind_result (loc_read_uvarint i) (\<lambda>(numLocsBytes, i).
       with_reader (pi_locReader i) (\<lambda>d.
         bind_result (decoder_skip_bytes (nat (sint numLocsBytes)) d) (\<lambda>d. Inr (i\<lparr>pi_locReader := Some d\<rparr>))))"

definition curr_chunk_next ::
  "segment_base \<Rightarrow> nat \<Rightarrow> postings_iterator \<Rightarrow> (zap_error, postings_iterator) result" where
  "curr_chunk_next sb nChunk i =
     bind_result (ensure_chunk sb nChunk i) (\<lambda>i.
     bind_result (skip_freq_norm_read_has_locs i) (\<lambda>(hasLocs, i).
       if pi_includeLocs i \<and> hasLocs then skip_locs i else Inr i))"

fun curr_chunk_nexts ::
  "segment_base \<Rightarrow> nat \<Rightarrow> nat \<Rightarrow> postings_iterator \<Rightarrow> (zap_error, postings_iterator) result" where
  "curr_chunk_nexts sb nChunk 0 i = Inr i"
| "curr_chunk_nexts sb nChunk (Suc k) i =
     bind_result (curr_chunk_next sb nChunk i) (curr_chunk_nexts sb nChunk k)"

text \<open>The loop of the sparse search: the iterator moves on, counting the steps within a chunk.\<close>

fun sparse_loop :: "nat \<Rightarrow> u64 \<Rightarrow> nat \<Rightarrow> nat \<Rightarrow> nat list \<Rightarrow> nat \<times> nat \<times> nat list" where
  "sparse_loop cs atOrAfter sameChunkNexts n [] = (sameChunkNexts, n, [])"
| "sparse_loop cs atOrAfter sameChunkNexts n (m # ms) =
     (if n < unat atOrAfter
      then sparse_loop cs atOrAfter (if m div cs \<noteq> n div cs then 0 else sameChunkNexts + 1) m ms
      else (sameChunkNexts, n, m # ms))"

definition chunk_size32 :: "postings_iterator \<Rightarrow> nat" where
  "chunk_size32 i = uint32 (pl_chunkSize (pi_postings i))"

definition next_doc_num_clean_sparse ::
  "segment_base \<Rightarrow> u64 \<Rightarrow> nat \<Rightarrow> nat list \<Rightarrow> postings_iterator \<Rightarrow> (zap_error, nat option \<times> postings_iterator) result" where
  "next_doc_num_clean_sparse sb atOrAfter n rest i =
     (case sparse_loop (chunk_size32 i) atOrAfter 0 n rest of (sameChunkNexts, n, rest) \<Rightarrow>
        let i = i\<lparr>pi_Actual := Some rest\<rparr>; nChunk = n div chunk_size32 i
        in if n < unat atOrAfter then Inr (None, i)
           else bind_result (curr_chunk_nexts sb nChunk sameChunkNexts i) (\<lambda>i.
             bind_result (ensure_chunk sb nChunk i) (\<lambda>i. Inr (Some n, i))))"

definition advance_if_needed :: "nat \<Rightarrow> nat list \<Rightarrow> nat list" where
  "advance_if_needed x ns = dropWhile (\<lambda>n. n < x) ns"

text \<open>\<open>Rank(x)\<close>: how many numbers of the bitmap are at most \<open>x\<close>.\<close>

definition rank :: "nat list \<Rightarrow> nat \<Rightarrow> nat" where
  "rank ns x = length (filter (\<lambda>n. n \<le> x) ns)"

definition next_doc_num_clean ::
  "segment_base \<Rightarrow> u64 \<Rightarrow> postings_iterator \<Rightarrow> (zap_error, nat option \<times> postings_iterator) result" where
  "next_doc_num_clean sb atOrAfter i =
     (if \<not> pi_includeFreqNorm i then
        (case advance_if_needed (uint32 atOrAfter) (the (pi_Actual i)) of
           [] \<Rightarrow> Inr (None, i\<lparr>pi_Actual := Some []\<rparr>)
         | n # rest \<Rightarrow> Inr (Some n, i\<lparr>pi_Actual := Some rest\<rparr>))
      else if pl_chunkSize (pi_postings i) = 0 then Inl ChunkSizeZero
      else if chunk_size32 i = 0 then Inl Panic
      else if atOrAfter = 0 then
        (case the (pi_Actual i) of [] \<Rightarrow> Inl Panic
         | n # rest \<Rightarrow> bind_result (ensure_chunk sb (n div chunk_size32 i) (i\<lparr>pi_Actual := Some rest\<rparr>))
             (\<lambda>i. Inr (Some n, i)))
      else let postings = the (pl_postings (pi_postings i))
        in if of_nat (length postings) * 2 < sb_numDocs sb then
             (case the (pi_Actual i) of [] \<Rightarrow> Inl Panic
              | n # rest \<Rightarrow> next_doc_num_clean_sparse sb atOrAfter n rest i)
           else
             (case advance_if_needed (uint32 atOrAfter) (the (pi_Actual i)) of
                [] \<Rightarrow> Inr (None, i\<lparr>pi_Actual := Some []\<rparr>)
              | n # rest \<Rightarrow>
                  let nChunk = n div chunk_size32 i; chunkStart = nChunk * chunk_size32 i;
                      beforeTarget = (if 0 < n then rank postings (n - 1) else 0) -
                        (if 0 < chunkStart then rank postings (chunkStart - 1) else 0)
                  in bind_result (iterator_load_chunk sb nChunk (i\<lparr>pi_Actual := Some rest\<rparr>)) (\<lambda>i.
                       bind_result (curr_chunk_nexts sb nChunk beforeTarget i) (\<lambda>i. Inr (Some n, i)))))"

text \<open>The iterator over all postings follows the one over those that are not excepted.\<close>

fun catch_up ::
  "segment_base \<Rightarrow> nat \<Rightarrow> nat \<Rightarrow> nat \<Rightarrow> nat list \<Rightarrow> postings_iterator \<Rightarrow>
   (zap_error, (nat list) option \<times> postings_iterator) result" where
  "catch_up sb cs n allN [] i =
     (if allN = n then Inr (Some [], i)
      else bind_result (if pi_includeFreqNorm i \<and> n div cs * cs \<le> allN then curr_chunk_next sb (n div cs) i else Inr i)
        (\<lambda>i. Inr (None, i)))"
| "catch_up sb cs n allN (m # ms) i =
     (if allN = n then Inr (Some (m # ms), i)
      else bind_result (if pi_includeFreqNorm i \<and> n div cs * cs \<le> allN then curr_chunk_next sb (n div cs) i else Inr i)
        (catch_up sb cs n m ms))"

definition next_doc_num_dirty ::
  "segment_base \<Rightarrow> u64 \<Rightarrow> postings_iterator \<Rightarrow> (zap_error, nat option \<times> postings_iterator) result" where
  "next_doc_num_dirty sb atOrAfter i =
     (if pl_chunkSize (pi_postings i) = 0 then Inl ChunkSizeZero
      else case (advance_if_needed (uint32 atOrAfter) (the (pi_Actual i)), pi_all i) of
        (n # rest, allN # all) \<Rightarrow>
          if chunk_size32 i = 0 then Inl Panic
          else bind_result (catch_up sb (chunk_size32 i) n allN all (i\<lparr>pi_Actual := Some rest\<rparr>)) (\<lambda>(left, i).
            case left of None \<Rightarrow> Inr (None, i\<lparr>pi_all := []\<rparr>)
            | Some all \<Rightarrow>
                let i = i\<lparr>pi_all := all\<rparr>
                in if pi_includeFreqNorm i
                   then bind_result (ensure_chunk sb (n div chunk_size32 i) i) (\<lambda>i. Inr (Some n, i))
                   else Inr (Some n, i))
      | (actual, _) \<Rightarrow> Inr (None, i\<lparr>pi_Actual := Some actual\<rparr>))"

definition next_doc_num_at_or_after ::
  "segment_base \<Rightarrow> u64 \<Rightarrow> postings_iterator \<Rightarrow> (zap_error, u64 option \<times> postings_iterator) result" where
  "next_doc_num_at_or_after sb atOrAfter i =
     (if pi_normBits1Hit i \<noteq> 0 then
        Inr (if pi_docNum1Hit i = docNum1HitFinished then (None, i)
             else if pi_docNum1Hit i < atOrAfter then (None, i\<lparr>pi_docNum1Hit := docNum1HitFinished\<rparr>)
             else (Some (pi_docNum1Hit i), i\<lparr>pi_docNum1Hit := docNum1HitFinished\<rparr>))
      else case pi_Actual i of None \<Rightarrow> Inr (None, i) | Some [] \<Rightarrow> Inr (None, i)
      | Some _ \<Rightarrow> bind_result
          (if pi_clean i then next_doc_num_clean sb atOrAfter i else next_doc_num_dirty sb atOrAfter i)
          (\<lambda>(n, i). Inr (map_option of_nat n, i)))"

text \<open>
  \<open>readLocation\<close> and the loop over the bytes of the locations. A turn reads at least one byte while
  there is one, and reads zeros behind the last: with one turn more than bytes the loop never ends.
\<close>

fun read_aps :: "nat \<Rightarrow> postings_iterator \<Rightarrow> (zap_error, u64 list \<times> postings_iterator) result" where
  "read_aps 0 i = Inr ([], i)"
| "read_aps (Suc k) i =
     bind_result (loc_read_uvarint i) (\<lambda>(ap, i).
     bind_result (read_aps k i) (\<lambda>(aps, i). Inr (ap # aps, i)))"

definition read_location ::
  "segment_base \<Rightarrow> postings_iterator \<Rightarrow> (zap_error, location \<times> postings_iterator) result" where
  "read_location sb i =
     bind_result (loc_read_uvarint i) (\<lambda>(fieldID, i).
     bind_result (loc_read_uvarint i) (\<lambda>(pos, i).
     bind_result (loc_read_uvarint i) (\<lambda>(start, i).
     bind_result (loc_read_uvarint i) (\<lambda>(stop, i).
     bind_result (loc_read_uvarint i) (\<lambda>(numArrayPos, i).
       if length (sb_fieldsInv sb) \<le> unat fieldID \<or> 2 ^ 63 \<le> unat numArrayPos then Inl Panic
       else bind_result (read_aps (unat numArrayPos) i) (\<lambda>(aps, i).
         Inr (\<lparr>lo_field = sb_fieldsInv sb ! unat fieldID, lo_pos = pos, lo_start = start, lo_end = stop,
               lo_ap = aps\<rparr>, i)))))))"

fun read_locations ::
  "segment_base \<Rightarrow> nat \<Rightarrow> nat \<Rightarrow> nat \<Rightarrow> postings_iterator \<Rightarrow> (zap_error, location list \<times> postings_iterator) result" where
  "read_locations sb 0 start numLocsBytes i = Inl NoReturn"
| "read_locations sb (Suc fuel) start numLocsBytes i =
     bind_result (with_reader (pi_locReader i) decoder_len) (\<lambda>len.
       if start - len < numLocsBytes then
         bind_result (read_location sb i) (\<lambda>(l, i).
         bind_result (read_locations sb fuel start numLocsBytes i) (\<lambda>(ls, i). Inr (l # ls, i)))
       else Inr ([], i))"

definition next_at_or_after ::
  "segment_base \<Rightarrow> u64 \<Rightarrow> postings_iterator \<Rightarrow> (zap_error, posting option \<times> postings_iterator) result" where
  "next_at_or_after sb atOrAfter i =
     bind_result (next_doc_num_at_or_after sb atOrAfter i) (\<lambda>(doc, i).
       case doc of None \<Rightarrow> Inr (None, i)
       | Some docNum \<Rightarrow>
           let rv = \<lparr>po_docNum = docNum, po_freq = 0, po_norm = 0, po_locs = []\<rparr>
           in if \<not> pi_includeFreqNorm i then Inr (Some rv, i)
              else bind_result (read_freq_norm_has_locs i) (\<lambda>((freq, normBits, hasLocs), i).
                let rv = rv\<lparr>po_freq := freq, po_norm := ucast normBits\<rparr>
                in if pi_includeLocs i \<and> hasLocs then
                     bind_result (loc_read_uvarint i) (\<lambda>(numLocsBytes, i).
                     bind_result (with_reader (pi_locReader i) decoder_len) (\<lambda>start.
                     bind_result (read_locations sb (start + 2) start (nat (sint numLocsBytes)) i) (\<lambda>(locs, i).
                       Inr (Some (rv\<lparr>po_locs := locs\<rparr>), i))))
                   else Inr (Some rv, i)))"

definition iterator_next :: "segment_base \<Rightarrow> postings_iterator \<Rightarrow> (zap_error, posting option \<times> postings_iterator) result" where
  "iterator_next sb i = next_at_or_after sb 0 i"

definition iterator_advance ::
  "segment_base \<Rightarrow> u64 \<Rightarrow> postings_iterator \<Rightarrow> (zap_error, posting option \<times> postings_iterator) result" where
  "iterator_advance sb docNum i = next_at_or_after sb docNum i"

end
