(* ===== verification/Zap_Postings_Write.thy ===== *)
theory Zap_Postings_Write
  imports Zap_Postings
begin

text \<open>
  What the writer of \<open>Zap_Postings\<close> leaves in the file for the postings of a term: the two streams
  of integers, chunk by chunk, the impacts, and the head of the postings with the bitmap.
\<close>

section \<open>Frequencies and dictionary values\<close>

lemma no_high_bit: "unat x < 2 ^ k \<Longrightarrow> bit x n \<Longrightarrow> n < k" for x :: u64
proof -
  assume small: "unat x < 2 ^ k" and "bit x n"
  then have "bit (unat x) n"
    by (simp add: bit_unsigned_iff)
  also have "unat x = take_bit k (unat x)"
    using small by (simp only: take_bit_nat_eq_self)
  finally show ?thesis by (simp add: bit_take_bit_iff)
qed

lemma decode_encode_freq:
  assumes "freq < 2 ^ 63"
  shows "decode_freq_has_locs (encode_freq_has_locs freq hasLocs) = (freq, hasLocs)"
proof -
  have small: "n < 63" if "bit freq n" for n
    using assms that by (intro no_high_bit [of freq 63]) (simp_all add: word_less_nat_alt)
  have "drop_bit 1 (push_bit 1 freq OR 1) = freq" "drop_bit 1 (push_bit 1 freq) = freq"
    by (rule bit_word_eqI, auto simp: bit_simps simp del: push_bit_Suc dest: small)+
  moreover have "(push_bit 1 freq OR 1) AND 1 = 1" "push_bit 1 freq AND 1 = 0"
    by (auto intro!: bit_word_eqI simp: bit_simps simp del: push_bit_Suc)
  ultimately show ?thesis
    by (simp add: decode_freq_has_locs_def encode_freq_has_locs_def Let_def)
qed

lemma fst_val_1hit_bits:
  "fst_val_decode_1hit (fst_val_encode_1hit docNum normBits) = (take_bit 31 docNum, take_bit 31 normBits)"
  "fst_val_encode_1hit docNum normBits AND FSTValEncodingMask = FSTValEncoding1Hit"
proof -
  have m: "mask31Bits = mask 31" "FSTValEncoding1Hit = push_bit 63 1" "FSTValEncodingMask = push_bit 62 3"
    by (simp_all add: mask31Bits_def mask_eq_exp_minus_1 FSTValEncoding1Hit_def FSTValEncodingMask_def)
  have 3: "bit (3 :: u64) k = (k < 2)" for k
    using bit_mask_iff [of 2 k, where 'a = u64] by (auto simp: mask_eq_exp_minus_1)
  have "mask 31 AND ((push_bit 63 1 OR push_bit 31 (mask 31 AND normBits)) OR mask 31 AND docNum) = take_bit 31 docNum"
    "mask 31 AND drop_bit 31 ((push_bit 63 1 OR push_bit 31 (mask 31 AND normBits)) OR mask 31 AND docNum) =
      take_bit 31 normBits"
    by (rule bit_word_eqI, auto simp: bit_simps simp del: push_bit_of_1)+
  then show "fst_val_decode_1hit (fst_val_encode_1hit docNum normBits) = (take_bit 31 docNum, take_bit 31 normBits)"
    by (simp only: fst_val_decode_1hit_def fst_val_encode_1hit_def m)
  have "bit FSTValEncodingMask n = (62 \<le> n)" "bit FSTValEncoding1Hit n = (n = 63)" if "n < 64" for n
    unfolding m using that by (simp_all only: bit_push_bit_iff 3 bit_1_iff) auto
  then show "fst_val_encode_1hit docNum normBits AND FSTValEncodingMask = FSTValEncoding1Hit"
    unfolding fst_val_encode_1hit_def m(1)
    by (intro bit_word_eqI) (auto simp: bit_simps)
qed

lemma take_31_under: "under_32_bits x \<Longrightarrow> take_bit 31 x = x"
  by (simp add: under_32_bits_def mask31Bits_def word_le_nat_alt word_unat_eq_iff unsigned_take_bit_eq take_bit_nat_eq_self)

lemma fst_val_1hit_round:
  "under_32_bits docNum \<Longrightarrow> under_32_bits normBits \<Longrightarrow>
   fst_val_decode_1hit (fst_val_encode_1hit docNum normBits) = (docNum, normBits)"
  by (simp add: fst_val_1hit_bits take_31_under)

section \<open>Postings\<close>

text \<open>A posting: its document, frequency, norm and locations.\<close>

record entry =
  en_doc :: nat
  en_freq :: u64
  en_norm :: "32 word"
  en_locs :: "interim_loc list"

definition entry_freq_norm :: "entry \<Rightarrow> interim_freq_norm" where
  "entry_freq_norm e = \<lparr>fn_freq = en_freq e, fn_norm = en_norm e, fn_numLocs = length (en_locs e)\<rparr>"

text \<open>Its integers in the two streams.\<close>

definition freq_ints :: "entry \<Rightarrow> u64 list" where
  "freq_ints e = (let freqHasLocs = encode_freq_has_locs (en_freq e) (en_locs e \<noteq> [])
     in if 0 < en_freq e then [freqHasLocs, ucast (en_norm e)] else [freqHasLocs])"

definition loc_ints :: "interim_loc \<Rightarrow> u64 list" where
  "loc_ints l = [ucast (il_fieldID l), il_pos l, il_start l, il_end l, of_nat (length (il_arrayposs l))] @ il_arrayposs l"

definition locs_ints :: "entry \<Rightarrow> u64 list" where
  "locs_ints e = (if en_locs e = [] then []
     else of_nat (sum_list (map loc_size (en_locs e))) # concat (map loc_ints (en_locs e)))"

lemma loc_size_length: "loc_size l = length (put_uvarints (loc_ints l))"
  by (simp add: loc_size_def total_uvarint_bytes_eq loc_ints_def)

lemma sum_loc_size: "sum_list (map loc_size ls) = length (put_uvarints (concat (map loc_ints ls)))"
  by (induction ls) (simp_all add: loc_size_length)

lemma freq_ints_not_Nil [simp]: "freq_ints e \<noteq> []"
  by (simp add: freq_ints_def Let_def)

lemma locs_ints_Nil [simp]: "locs_ints e = [] \<longleftrightarrow> en_locs e = []"
  by (simp add: locs_ints_def)

text \<open>What is added to the coder of locations, call by call.\<close>

definition loc_adds :: "entry \<Rightarrow> (u64 \<times> u64 list) list" where
  "loc_adds e = (if en_locs e = [] then []
     else (of_nat (en_doc e), [of_nat (sum_list (map loc_size (en_locs e)))]) #
       concat (map (\<lambda>l. [(of_nat (en_doc e), take 5 (loc_ints l)), (of_nat (en_doc e), il_arrayposs l)]) (en_locs e)))"

lemma add_ints_append:
  "add_ints encode (as @ bs) c = bind_result (add_ints encode as c) (add_ints encode bs)"
proof (induction as arbitrary: c)
  case (Cons a as)
  then show ?case by (cases a; cases "int_coder_add encode (fst a) (snd a) c") simp_all
qed simp

lemma write_locs_eq:
  "write_locs encode docNum ls c =
   add_ints encode (concat (map (\<lambda>l. [(docNum, take 5 (loc_ints l)), (docNum, il_arrayposs l)]) ls)) c"
proof (induction ls arbitrary: c)
  case (Cons l ls)
  have t: "take 5 (loc_ints l) =
      [ucast (il_fieldID l), il_pos l, il_start l, il_end l, of_nat (length (il_arrayposs l))]"
    by (simp add: loc_ints_def)
  show ?case
    unfolding write_locs.simps Cons.IH t list.map concat.simps append.simps add_ints.simps ..
qed simp

definition freq_adds :: "entry \<Rightarrow> u64 \<times> u64 list" where
  "freq_adds e = (of_nat (en_doc e), freq_ints e)"

definition entry_scored :: "entry \<Rightarrow> scored" where
  "entry_scored e = (of_nat (en_doc e), en_freq e, ucast (en_norm e))"

lemma write_term_loop_entry:
  "write_term_loop encode (en_doc e # docs) (entry_freq_norm e # fns) locs c =
   bind_result (int_coder_add encode (of_nat (en_doc e)) (freq_ints e) (cd_tf c)) (\<lambda>tf.
   bind_result (impact_add (of_nat (en_doc e)) (en_freq e) (ucast (en_norm e)) (cd_impact c)) (\<lambda>im.
     if en_locs e = [] then write_term_loop encode docs fns locs (c\<lparr>cd_tf := tf, cd_impact := im\<rparr>)
     else if length locs < length (en_locs e) then Inl Panic
     else let ls = take (length (en_locs e)) locs
       in bind_result (int_coder_add encode (of_nat (en_doc e)) [of_nat (sum_list (map loc_size ls))] (cd_loc c)) (\<lambda>lc.
          bind_result (write_locs encode (of_nat (en_doc e)) ls lc) (\<lambda>lc.
            write_term_loop encode docs fns (drop (length (en_locs e)) locs)
              (c\<lparr>cd_tf := tf, cd_impact := im, cd_loc := lc\<rparr>)))))"
  unfolding write_term_loop.simps Let_def entry_freq_norm_def interim_freq_norm.select_convs freq_ints_def
    length_greater_0_conv not_not
  by (rule refl)

lemma write_term_loop_eq:
  assumes "add_ints encode (map freq_adds es) (cd_tf c) = Inr tf"
    and "add_ints encode (concat (map loc_adds es)) (cd_loc c) = Inr lc"
    and "impact_add_all (map entry_scored es) (cd_impact c) = Inr im"
  shows "write_term_loop encode (map en_doc es) (map entry_freq_norm es) (concat (map en_locs es)) c =
    Inr (c\<lparr>cd_tf := tf, cd_loc := lc, cd_impact := im\<rparr>)"
  using assms
proof (induction es arbitrary: c)
  case Nil
  then show ?case by simp
next
  case (Cons e es)
  obtain tf1 where tf1: "int_coder_add encode (of_nat (en_doc e)) (freq_ints e) (cd_tf c) = Inr tf1"
      "add_ints encode (map freq_adds es) tf1 = Inr tf"
    using Cons.prems(1) by (auto simp: freq_adds_def [of e] split: sum.splits)
  obtain im1 where im1: "impact_add (of_nat (en_doc e)) (en_freq e) (ucast (en_norm e)) (cd_impact c) = Inr im1"
      "impact_add_all (map entry_scored es) im1 = Inr im"
    using Cons.prems(3) by (auto simp: entry_scored_def [of e] split: sum.splits)
  show ?case
  proof (cases "en_locs e = []")
    case True
    then have "add_ints encode (concat (map loc_adds es)) (cd_loc c) = Inr lc"
      using Cons.prems(2) by (simp add: loc_adds_def [of e])
    then show ?thesis
      using Cons.IH [of "c\<lparr>cd_tf := tf1, cd_impact := im1\<rparr>"] tf1 im1 True
      by (simp add: write_term_loop_entry del: write_term_loop.simps)
  next
    case False
    obtain lc1 where lc1: "add_ints encode (loc_adds e) (cd_loc c) = Inr lc1"
        "add_ints encode (concat (map loc_adds es)) lc1 = Inr lc"
      using Cons.prems(2) by (auto simp: add_ints_append split: sum.splits)
    then obtain lc0 where lc0:
        "int_coder_add encode (of_nat (en_doc e)) [of_nat (sum_list (map loc_size (en_locs e)))] (cd_loc c) = Inr lc0"
        "write_locs encode (of_nat (en_doc e)) (en_locs e) lc0 = Inr lc1"
      using False by (auto simp: loc_adds_def [of e] write_locs_eq split: sum.splits)
    show ?thesis
      using Cons.IH [of "c\<lparr>cd_tf := tf1, cd_impact := im1, cd_loc := lc1\<rparr>"] tf1 im1 False lc0 lc1
      by (simp add: write_term_loop_entry Let_def del: write_term_loop.simps)
  qed
qed

section \<open>The streams of a term\<close>

definition entries_ok :: "u64 \<Rightarrow> entry list \<Rightarrow> bool" where
  "entries_ok numDocs es \<longleftrightarrow> sorted_wrt (<) (map en_doc es) \<and> 0 < numDocs \<and>
     (\<forall>e\<in>set es. en_doc e < unat numDocs \<and> en_freq e < 2 ^ 63)"

definition chunk_of :: "u64 \<Rightarrow> entry \<Rightarrow> nat" where
  "chunk_of cs e = en_doc e div unat cs"

definition in_chunk :: "u64 \<Rightarrow> nat \<Rightarrow> entry list \<Rightarrow> entry list" where
  "in_chunk cs k es = filter (\<lambda>e. chunk_of cs e = k) es"

lemma in_chunk_simps [simp]:
  "in_chunk cs k [] = []"
  "in_chunk cs k (e # es) = (if chunk_of cs e = k then e # in_chunk cs k es else in_chunk cs k es)"
  "in_chunk cs k (es @ es') = in_chunk cs k es @ in_chunk cs k es'"
  by (simp_all add: in_chunk_def)

definition freq_bytes :: "entry list \<Rightarrow> bytes" where
  "freq_bytes es = put_uvarints (concat (map freq_ints es))"

definition locs_bytes :: "entry list \<Rightarrow> bytes" where
  "locs_bytes es = put_uvarints (concat (map locs_ints es))"

lemma stream_bytes_simps [simp]:
  "freq_bytes [] = []" "freq_bytes (e # es) = put_uvarints (freq_ints e) @ freq_bytes es"
  "locs_bytes [] = []" "locs_bytes (e # es) = put_uvarints (locs_ints e) @ locs_bytes es"
  by (simp_all add: freq_bytes_def locs_bytes_def)

lemma freq_bytes_Nil [simp]: "freq_bytes es = [] \<longleftrightarrow> es = []"
  by (cases es) (simp_all add: freq_ints_def Let_def)

lemma locs_bytes_Nil: "locs_bytes es = [] \<longleftrightarrow> (\<forall>e\<in>set es. en_locs e = [])"
  by (induction es) (auto simp: locs_ints_def)

lemma unat_doc_div:
  assumes "n < 2 ^ 64"
  shows "unat (of_nat n div cs :: u64) = n div unat cs"
  using unat_small [OF assms] by (simp add: unat_div)

lemma chunk_ints_freq:
  assumes "\<forall>e\<in>set es. en_doc e < 2 ^ 64"
  shows "chunk_bytes cs (map (apsnd put_uvarints) (map freq_adds es)) k = freq_bytes (in_chunk cs k es)"
  using assms
  by (induction es) (auto simp: freq_adds_def chunk_of_def unat_doc_div)

lemma chunk_bytes_same_doc:
  assumes "\<forall>a\<in>set as. fst a = d"
  shows "chunk_bytes cs as k = (if unat (d div cs) = k then concat (map snd as) else [])"
  using assms by (induction as) auto

lemma loc_adds_bytes: "concat (map snd (map (apsnd put_uvarints) (loc_adds e))) = put_uvarints (locs_ints e)"
proof -
  have "concat (map (put_uvarints \<circ> snd)
      (concat (map (\<lambda>l. [(d, take 5 (loc_ints l)), (d, il_arrayposs l)]) ls))) =
      put_uvarints (concat (map loc_ints ls))" for d :: u64 and ls
    by (induction ls) (simp_all add: loc_ints_def)
  then show ?thesis
    by (simp add: loc_adds_def locs_ints_def comp_def)
qed

lemma loc_adds_docs: "\<forall>a\<in>set (map (apsnd put_uvarints) (loc_adds e)). fst a = of_nat (en_doc e)"
  by (auto simp: loc_adds_def)

lemma chunk_ints_locs:
  assumes "\<forall>e\<in>set es. en_doc e < 2 ^ 64"
  shows "chunk_bytes cs (map (apsnd put_uvarints) (concat (map loc_adds es))) k = locs_bytes (in_chunk cs k es)"
  using assms
proof (induction es)
  case (Cons e es)
  have "chunk_bytes cs (map (apsnd put_uvarints) (loc_adds e)) k =
      (if chunk_of cs e = k then put_uvarints (locs_ints e) else [])"
    using Cons.prems unfolding chunk_bytes_same_doc [OF loc_adds_docs] loc_adds_bytes
    by (simp add: chunk_of_def unat_doc_div)
  then show ?case using Cons by simp
qed simp

lemma sorted_freq_docs:
  assumes "sorted_wrt (<) (map en_doc es)" and "\<forall>e\<in>set es. en_doc e < 2 ^ 64"
  shows "sorted (map fst (map (apsnd put_uvarints) (map freq_adds es)))"
  using assms
  by (induction es) (auto simp: freq_adds_def word_le_nat_alt unat_small)

lemma sorted_loc_docs:
  assumes "sorted_wrt (<) (map en_doc es)" and "\<forall>e\<in>set es. en_doc e < 2 ^ 64"
  shows "sorted (map fst (map (apsnd put_uvarints) (concat (map loc_adds es))))"
  using assms
proof (induction es)
  case (Cons e es)
  have s: "sorted (map fst (map (apsnd put_uvarints) (loc_adds e)))"
    using loc_adds_docs [of e] by (auto simp: sorted_iff_nth_mono)
  have "x \<le> y" if "x \<in> fst ` set (loc_adds e)" "e' \<in> set es" "y \<in> fst ` set (loc_adds e')" for x y e'
  proof -
    have "x = of_nat (en_doc e)" "y = of_nat (en_doc e')"
      using that loc_adds_docs [of e] loc_adds_docs [of e'] by auto
    moreover have "en_doc e < en_doc e'" using Cons.prems(1) that(2) by simp
    ultimately show ?thesis
      using Cons.prems(2) that(2) by (simp add: word_le_nat_alt unat_small)
  qed
  then show ?case
    using s Cons by (auto simp: sorted_append)
qed simp

lemma freq_adds_total:
  "concat (map snd (map (apsnd put_uvarints) (map freq_adds es))) = freq_bytes es"
  by (induction es) (simp_all add: freq_adds_def)

lemma loc_adds_total:
  "concat (map snd (map (apsnd put_uvarints) (concat (map loc_adds es)))) = locs_bytes es"
proof (induction es)
  case (Cons e es)
  then show ?case using loc_adds_bytes [of e] by (simp add: comp_def)
qed simp

section \<open>The file behind a term\<close>

lemma impact_add_all_returns: "\<exists>im. impact_add_all ps (impact_coder_reset n) = Inr im"
proof (cases "impactMinPostings \<le> n")
  case True
  then show ?thesis
    using impact_add_all_has [OF impact_coder_reset_has] by metis
next
  case False
  then show ?thesis
    by (intro exI) (rule impact_add_all_disabled, simp add: impact_coder_reset_def)
qed

lemma impact_write_at_appends: "\<exists>off imp im'. impact_write_at pr out im = (off, out @ imp, im')"
  by (auto simp: impact_write_at_def Let_def split: option.split)

text \<open>The chunks of the two streams of a term in a segment of \<open>numDocs\<close> documents.\<close>

definition num_chunks :: "u64 \<Rightarrow> u64 \<Rightarrow> nat" where
  "num_chunks cs numDocs = unat ((numDocs - 1) div cs) + 1"

definition freq_chunks :: "(bytes \<Rightarrow> bytes) \<Rightarrow> writer_processor \<Rightarrow> u64 \<Rightarrow> u64 \<Rightarrow> entry list \<Rightarrow> bytes list" where
  "freq_chunks encode pr cs numDocs es =
     stream_chunks encode pr cs (num_chunks cs numDocs) (map (apsnd put_uvarints) (map freq_adds es))"

definition loc_chunks :: "(bytes \<Rightarrow> bytes) \<Rightarrow> writer_processor \<Rightarrow> u64 \<Rightarrow> u64 \<Rightarrow> entry list \<Rightarrow> bytes list" where
  "loc_chunks encode pr cs numDocs es =
     stream_chunks encode pr cs (num_chunks cs numDocs) (map (apsnd put_uvarints) (concat (map loc_adds es)))"

definition term_small :: "u64 \<Rightarrow> u64 \<Rightarrow> entry list \<Rightarrow> bool" where
  "term_small cs numDocs es \<longleftrightarrow> num_chunks cs numDocs < 2 ^ 63 \<and>
     length (freq_bytes es) + num_chunks cs numDocs < 2 ^ 63 \<and> length (locs_bytes es) + num_chunks cs numDocs < 2 ^ 63"

lemma unat_lt_64: "unat x < 2 ^ 64" for x :: u64
  by (rule less_le_trans [OF unsigned_less]) simp

lemma doc_chunk_lt:
  assumes "n < unat numDocs" and "0 < cs"
  shows "unat (of_nat n div cs :: u64) < num_chunks cs numDocs"
proof -
  have n: "n < 2 ^ 64"
    using assms(1) unat_lt_64 [of numDocs] by simp
  have "unat (numDocs - 1) = unat numDocs - 1"
    using assms(1) by (intro unat_minus_one) auto
  then have "n \<le> unat (numDocs - 1)"
    using assms(1) by simp
  then have "n div unat cs \<le> unat ((numDocs - 1) div cs)"
    by (simp add: unat_div div_le_mono)
  then show ?thesis
    using n by (simp add: num_chunks_def unat_doc_div)
qed

lemma write_term_layout:
  assumes ok: "entries_ok numDocs es" and ne: "es \<noteq> []"
    and idle: "coder_idle (cd_tf c)" "coder_idle (cd_loc c)"
    and cs: "get_chunk_size mode (of_nat (length es)) numDocs = Inr cs" and small: "term_small cs numDocs es"
    and card: "length es < 2 ^ 64"
  obtains impOff imp c' where
    "let tf = out @ stream_bytes (freq_chunks encode pr cs numDocs es); im = tf @ imp;
         lc = (if locs_bytes es = [] then im else im @ stream_bytes (loc_chunks encode pr cs numDocs es));
         bitmap = writer_process pr (roaring (map en_doc es))
     in write_term encode roaring pr mode numDocs (map en_doc es) (map entry_freq_norm es)
          (concat (map en_locs es)) c out =
        Inr (of_nat (length lc),
             lc @ put_uvarint (of_nat (length out)) @
               put_uvarint (if locs_bytes es = [] then termNotEncoded else of_nat (length im)) @
               put_uvarint impOff @ put_uvarint (of_nat (length bitmap)) @ bitmap, c')"
    and "coder_idle (cd_tf c')" and "coder_idle (cd_loc c')"
proof -
  let ?n = "num_chunks cs numDocs"
  let ?fd = "map (apsnd put_uvarints) (map freq_adds es)" and ?ld = "map (apsnd put_uvarints) (concat (map loc_adds es))"
  have pos: "0 < cs" by (rule get_chunk_size_pos [OF cs])
  have srt: "sorted_wrt (<) (map en_doc es)" and docs: "\<forall>e\<in>set es. en_doc e < unat numDocs"
    using ok by (auto simp: entries_ok_def)
  then have d64: "\<forall>e\<in>set es. en_doc e < 2 ^ 64"
    using unat_lt_64 [of numDocs] by fastforce
  have nc: "unat ((numDocs - 1) div cs) + 1 < 2 ^ 63"
    using small by (simp add: term_small_def num_chunks_def)
  obtain tf0 where tf0: "int_coder_set_chunk_size cs (numDocs - 1) (cd_tf c) = Inr tf0" "coder_fresh cs ?n tf0"
    using int_coder_set_chunk_size_fresh [OF idle(1) pos nc] by (metis num_chunks_def)
  obtain lc0 where lc0: "int_coder_set_chunk_size cs (numDocs - 1) (cd_loc c) = Inr lc0" "coder_fresh cs ?n lc0"
    using int_coder_set_chunk_size_fresh [OF idle(2) pos nc] by (metis num_chunks_def)
  have fk: "\<forall>d\<in>set ?fd. unat (fst d div cs) < ?n"
    using docs doc_chunk_lt [OF _ pos] by (auto simp: freq_adds_def)
  have lk: "\<forall>d\<in>set ?ld. unat (fst d div cs) < ?n"
    using docs doc_chunk_lt [OF _ pos] loc_adds_docs by fastforce
  have fl: "length (concat (map snd ?fd)) + ?n < 2 ^ 63" and ll: "length (concat (map snd ?ld)) + ?n < 2 ^ 63"
    using small unfolding freq_adds_total loc_adds_total by (simp_all add: term_small_def)
  obtain tf1 tf2 where tf: "add_all encode ?fd tf0 = Inr tf1" "int_coder_close encode tf1 = Inr tf2"
      "coder_closed encode ?n (chunk_bytes cs ?fd) tf2"
      "concat (map snd ?fd) = [] \<longrightarrow> int_coder_write_at pr out tf2 = Inr (termNotEncoded, out, tf2) \<and>
        coder_idle (int_coder_reset tf2)"
      "concat (map snd ?fd) \<noteq> [] \<longrightarrow> (\<exists>c3. int_coder_write_at pr out tf2 =
        Inr (of_nat (length out), out @ stream_bytes (stream_chunks encode pr cs ?n ?fd), c3) \<and>
        coder_idle (int_coder_reset c3))"
    by (rule write_all_fresh [OF tf0(2) sorted_freq_docs [OF srt d64] fk fl, where pr = pr and out = out and encode = encode])
  have "concat (map snd ?fd) \<noteq> []"
    unfolding freq_adds_total using ne by simp
  then obtain tf3 where tf3: "int_coder_write_at pr out tf2 =
      Inr (of_nat (length out), out @ stream_bytes (freq_chunks encode pr cs numDocs es), tf3)"
      "coder_idle (int_coder_reset tf3)"
    using tf(5) by (auto simp: freq_chunks_def)
  let ?tf = "out @ stream_bytes (freq_chunks encode pr cs numDocs es)"
  obtain im where im: "impact_add_all (map entry_scored es) (impact_coder_reset (of_nat (length es))) = Inr im"
    using impact_add_all_returns by metis
  obtain impOff imp im' where im': "impact_write_at pr ?tf im = (impOff, ?tf @ imp, im')"
    using impact_write_at_appends by metis
  let ?im = "?tf @ imp"
  obtain lc1 lc2 where lc: "add_all encode ?ld lc0 = Inr lc1" "int_coder_close encode lc1 = Inr lc2"
      "coder_closed encode ?n (chunk_bytes cs ?ld) lc2"
      "concat (map snd ?ld) = [] \<longrightarrow> int_coder_write_at pr ?im lc2 = Inr (termNotEncoded, ?im, lc2) \<and>
        coder_idle (int_coder_reset lc2)"
      "concat (map snd ?ld) \<noteq> [] \<longrightarrow> (\<exists>c3. int_coder_write_at pr ?im lc2 =
        Inr (of_nat (length ?im), ?im @ stream_bytes (stream_chunks encode pr cs ?n ?ld), c3) \<and>
        coder_idle (int_coder_reset c3))"
    by (rule write_all_fresh [OF lc0(2) sorted_loc_docs [OF srt d64] lk ll, where pr = pr and out = ?im and encode = encode])
  let ?lc = "if locs_bytes es = [] then ?im else ?im @ stream_bytes (loc_chunks encode pr cs numDocs es)"
  let ?lo = "if locs_bytes es = [] then termNotEncoded else of_nat (length ?im)"
  obtain lc3 where lc3: "int_coder_write_at pr ?im lc2 = Inr (?lo, ?lc, lc3)" "coder_idle (int_coder_reset lc3)"
    using lc(4,5) unfolding loc_adds_total by (cases "locs_bytes es = []") (auto simp: loc_chunks_def)
  have loop: "write_term_loop encode (map en_doc es) (map entry_freq_norm es) (concat (map en_locs es))
      \<lparr>cd_tf = tf0, cd_loc = lc0, cd_impact = impact_coder_reset (of_nat (length es))\<rparr> =
      Inr \<lparr>cd_tf = tf1, cd_loc = lc1, cd_impact = im\<rparr>"
    using write_term_loop_eq [of encode es "\<lparr>cd_tf = tf0, cd_loc = lc0, cd_impact = impact_coder_reset (of_nat (length es))\<rparr>"]
      tf(1) lc(1) im by (simp add: add_ints_eq)
  have "unat (of_nat (length es) :: u64) = length es"
    using card by (rule unat_small)
  then have nz: "\<not> (of_nat (length es) :: u64) \<le> 0"
    using ne by (auto simp: word_le_nat_alt)
  let ?c' = "\<lparr>cd_tf = int_coder_reset tf3, cd_loc = int_coder_reset lc3, cd_impact = im'\<rparr>"
  have "write_term encode roaring pr mode numDocs (map en_doc es) (map entry_freq_norm es)
          (concat (map en_locs es)) c out =
        Inr (of_nat (length ?lc),
             ?lc @ put_uvarint (of_nat (length out)) @ put_uvarint ?lo @ put_uvarint impOff @
               put_uvarint (of_nat (length (writer_process pr (roaring (map en_doc es))))) @
               writer_process pr (roaring (map en_doc es)), ?c')"
    unfolding write_term_def write_postings_def Let_def length_map
    using cs tf0(1) lc0(1) loop tf(2) lc(2) tf3(1) im' lc3(1) nz
    by (simp add: write_roaring_with_len_def Let_def)
  then show ?thesis
    using that [where impOff = impOff and imp = imp and c' = ?c'] tf3(2) lc3(2) by (simp add: Let_def)
qed

section \<open>Reading the head of the postings\<close>

lemma uvarint_at_next:
  assumes "fits mem" and "drop pos mem = put_uvarint v @ rest" and "maxVarintLen64 \<le> length (put_uvarint v @ rest)"
    and "p = of_nat pos"
  shows "uvarint_at mem p = Inr (v, int (num_uvarint_bytes v))"
    and "drop (pos + num_uvarint_bytes v) mem = rest"
proof -
  have "maxVarintLen64 \<le> length (drop pos mem)"
    using assms(3) unfolding assms(2) .
  then have "pos + maxVarintLen64 \<le> length mem"
    unfolding length_drop by (simp add: maxVarintLen64_def)
  then show "uvarint_at mem p = Inr (v, int (num_uvarint_bytes v))"
    by (rule uvarint_at_put [OF assms(1,2) _ assms(4)])
  have "drop (pos + num_uvarint_bytes v) mem = drop (num_uvarint_bytes v) (drop pos mem)"
    by (simp add: ac_simps)
  then show "drop (pos + num_uvarint_bytes v) mem = rest"
    unfolding assms(2) drop_put_uvarint .
qed

lemma general_offset: "pos < 2 ^ 63 \<Longrightarrow> of_nat pos AND FSTValEncodingMask \<noteq> FSTValEncoding1Hit"
proof
  assume pos: "pos < 2 ^ 63" and eq: "of_nat pos AND FSTValEncodingMask = FSTValEncoding1Hit"
  have e: "FSTValEncoding1Hit = push_bit 63 1"
    by (simp add: FSTValEncoding1Hit_def)
  have "bit FSTValEncoding1Hit 63"
    unfolding e by (simp only: bit_push_bit_iff bit_1_iff) simp
  then have "bit (of_nat pos :: u64) 63"
    unfolding eq [symmetric] by (simp add: bit_and_iff)
  moreover have "unat (of_nat pos :: u64) < 2 ^ 63"
    using pos by (subst unat_small) simp_all
  ultimately show False
    using no_high_bit [of "of_nat pos" 63 63] by simp
qed

lemma postings_list_read_at:
  assumes "fits (sb_mem sb)" and "drop pos (sb_mem sb) = put_uvarint a @ put_uvarint b @ put_uvarint c @
      put_uvarint (of_nat (length stored)) @ stored @ rest" and "maxVarintLen64 \<le> length rest"
    and "pos < 2 ^ 63" and "reader_process (sb_fileReader sb) stored = Some bytes"
    and "sb_fromBuffer sb bytes = Some docs"
    and "get_chunk_size (sb_chunkMode sb) (of_nat (length docs)) (sb_numDocs sb) = Inr cs"
  shows "postings_list_from_offset sb (of_nat pos) except = Inr
    \<lparr>pl_freqOffset = a, pl_locOffset = b, pl_impactOffset = c, pl_postings = Some docs, pl_except = except,
     pl_docNum1Hit = 0, pl_normBits1Hit = 0, pl_chunkSize = cs\<rparr>"
proof -
  let ?mem = "sb_mem sb" and ?n = "of_nat (length stored) :: u64"
  let ?p1 = "pos + num_uvarint_bytes a"
  let ?p2 = "?p1 + num_uvarint_bytes b"
  let ?p3 = "?p2 + num_uvarint_bytes c"
  let ?p4 = "?p3 + num_uvarint_bytes ?n"
  have room: "maxVarintLen64 \<le> length (xs @ rest)" for xs
    using assms(3) by simp
  note u1 = uvarint_at_next [OF assms(1,2) _ refl]
  have u1: "uvarint_at ?mem (of_nat pos) = Inr (a, int (num_uvarint_bytes a))"
      "drop ?p1 ?mem = put_uvarint b @ put_uvarint c @ put_uvarint ?n @ stored @ rest"
    using u1 assms(3) by simp_all
  have u2: "uvarint_at ?mem (of_nat ?p1) = Inr (b, int (num_uvarint_bytes b))"
      "drop ?p2 ?mem = put_uvarint c @ put_uvarint ?n @ stored @ rest"
    using uvarint_at_next [OF assms(1) u1(2) _ refl] assms(3) by simp_all
  have u3: "uvarint_at ?mem (of_nat ?p2) = Inr (c, int (num_uvarint_bytes c))"
      "drop ?p3 ?mem = put_uvarint ?n @ stored @ rest"
    using uvarint_at_next [OF assms(1) u2(2) _ refl] assms(3) by simp_all
  have u4: "uvarint_at ?mem (of_nat ?p3) = Inr (?n, int (num_uvarint_bytes ?n))"
      "drop ?p4 ?mem = stored @ rest"
    using uvarint_at_next [OF assms(1) u3(2) _ refl] assms(3) by simp_all
  have "length stored + length rest = length (drop ?p4 ?mem)"
    unfolding u4(2) by simp
  then have le: "?p4 + length stored \<le> length ?mem"
    using assms(3) by (simp add: maxVarintLen64_def)
  have sl: "mem_slice ?mem (of_nat ?p4) (of_nat ?p4 + ?n) = Inr stored"
    using mem_slice_nat [OF assms(1) le refl] unfolding u4(2) by (simp add: of_nat_add)
  show ?thesis
    using u1(1) u2(1) u3(1) u4(1) sl general_offset [OF assms(4)] assms(5-7)
    by (simp add: postings_list_from_offset_def postings_list_read_def postings_list_init_def Let_def)
qed

end
