(* ===== verification/Zap_Postings_Read.thy ===== *)
theory Zap_Postings_Read
  imports Zap_Postings_Write "HOL-Library.Sublist"
begin

text \<open>
  The iterator of \<open>Zap_Postings\<close> over what \<open>Zap_Postings_Write\<close> shows to be in the file: whatever
  mixture of \<open>Next\<close> and \<open>Advance\<close>, over a clean or a partly deleted list, by the sequential, the
  sparse or the dense search, the readers of the two streams stay with the documents.
\<close>

section \<open>Chunks served by a decoder\<close>

definition stream_of :: "int_decoder \<Rightarrow> u64 \<times> u64 \<times> u64 list \<times> bytes" where
  "stream_of d = (id_startOffset d, id_dataStartOffset d, id_chunkOffsets d, id_data d)"

lemma decoder_on_stream: "stream_of d' = stream_of d \<Longrightarrow> decoder_on chunks d \<Longrightarrow> decoder_on chunks d'"
  by (auto simp: stream_of_def decoder_on_def)

text \<open>A decoder of the stream loads the bytes \<open>f k\<close> for every chunk \<open>k\<close> of a set.\<close>

definition serves :: "segment_base \<Rightarrow> nat set \<Rightarrow> (nat \<Rightarrow> bytes) \<Rightarrow> u64 \<times> u64 \<times> u64 list \<times> bytes \<Rightarrow> bool" where
  "serves sb K f st \<longleftrightarrow> (\<forall>k\<in>K. \<forall>d. stream_of d = st \<longrightarrow>
     (\<exists>d'. load_chunk (sb_decode sb) (sb_fileReader sb) k d = Inr d' \<and> stream_of d' = st \<and>
        id_r d' = Some (new_mem_uvarint_reader (f k)) \<and> (f k \<noteq> [] \<longrightarrow> id_curChunkBytes d' = f k)))"

lemma load_chunk_stream: "load_chunk decode fr k d = Inr d' \<Longrightarrow> stream_of d' = stream_of d"
  by (auto simp: load_chunk_def stream_of_def Let_def split: if_splits prod.splits sum.splits option.splits list.splits)

lemma serves_stream_chunks:
  assumes "decoder_on (stream_chunks encode pr cs n docs) d"
    and "\<And>k. k \<in> K \<Longrightarrow> k < n \<and> chunk_bytes cs docs k = f k \<and> f k \<noteq> []"
    and "\<And>b. sb_decode sb (encode b) = Some b"
    and "\<And>b. reader_process (sb_fileReader sb) (writer_process pr b) = Some b"
  shows "serves sb K f (stream_of d)"
  unfolding serves_def
proof (intro ballI allI impI)
  fix k d' assume k: "k \<in> K" and st: "stream_of d' = stream_of d"
  note kn = assms(2) [OF k]
  have on: "decoder_on (stream_chunks encode pr cs n docs) d'"
    by (rule decoder_on_stream [OF st assms(1)])
  have c: "stream_chunks encode pr cs n docs ! k = processed_chunk pr (stored_chunk encode (f k))"
    using kn by (simp add: nth_stream_chunks)
  obtain d'' where "load_chunk (sb_decode sb) (sb_fileReader sb) k d' = Inr d''"
      "id_curChunkBytes d'' = f k" "id_r d'' = Some (new_mem_uvarint_reader (f k))"
    by (rule load_chunk_on [OF on, of k pr encode "f k" "sb_decode sb" "sb_fileReader sb"])
      (use kn c assms(3,4) in simp_all)
  then show "\<exists>d''. load_chunk (sb_decode sb) (sb_fileReader sb) k d' = Inr d'' \<and> stream_of d'' = stream_of d \<and>
      id_r d'' = Some (new_mem_uvarint_reader (f k)) \<and> (f k \<noteq> [] \<longrightarrow> id_curChunkBytes d'' = f k)"
    using load_chunk_stream st by metis
qed

lemma serves_none:
  assumes "id_startOffset d = termNotEncoded" and "\<And>k. k \<in> K \<Longrightarrow> f k = []"
  shows "serves sb K f (stream_of d)"
  unfolding serves_def
  using assms load_chunk_none by (fastforce simp: stream_of_def)

section \<open>The readers and the documents\<close>

text \<open>The chunk \<open>k\<close> is loaded; a reader of a stream has certain bytes left.\<close>

definition at_chunk :: "nat \<Rightarrow> postings_iterator \<Rightarrow> bool" where
  "at_chunk k i \<longleftrightarrow> pi_currChunk i = k \<and> (\<exists>d. pi_freqNormReader i = Some d \<and> \<not> int_decoder_is_nil d)"

definition reader_holds :: "int_decoder option \<Rightarrow> u64 \<times> u64 \<times> u64 list \<times> bytes \<Rightarrow> bytes \<Rightarrow> bool" where
  "reader_holds ro st bs \<longleftrightarrow> (\<exists>d r. ro = Some d \<and> stream_of d = st \<and> id_r d = Some r \<and> remaining r = bs)"

definition reader_of :: "int_decoder option \<Rightarrow> u64 \<times> u64 \<times> u64 list \<times> bytes \<Rightarrow> bool" where
  "reader_of ro st \<longleftrightarrow> (\<exists>d. ro = Some d \<and> stream_of d = st)"

lemma split_last_group:
  fixes f :: "'a \<Rightarrow> nat"
  assumes "sorted (map f (xs @ [t]))"
  shows "xs = filter (\<lambda>x. f x \<noteq> f t) xs @ filter (\<lambda>x. f x = f t) xs"
  using assms
proof (induction xs)
  case (Cons x xs)
  show ?case
  proof (cases "f x = f t")
    case True
    have "f y = f t" if "y \<in> set xs" for y
      using Cons.prems True that by (fastforce simp: sorted_append)
    then show ?thesis
      using True by (simp add: filter_id_conv filter_empty_conv)
  next
    case False
    then show ?thesis using Cons by simp
  qed
qed simp

text \<open>What a reader of the segment sees of a location and of a posting.\<close>

definition location_of :: "string list \<Rightarrow> interim_loc \<Rightarrow> location" where
  "location_of fieldsInv l = \<lparr>lo_field = fieldsInv ! unat (il_fieldID l), lo_pos = il_pos l, lo_start = il_start l,
     lo_end = il_end l, lo_ap = il_arrayposs l\<rparr>"

definition posting_of :: "string list \<Rightarrow> bool \<Rightarrow> entry \<Rightarrow> posting" where
  "posting_of fieldsInv incLocs e = \<lparr>po_docNum = of_nat (en_doc e), po_freq = en_freq e,
     po_norm = (if en_freq e = 0 then 0 else en_norm e),
     po_locs = (if incLocs then map (location_of fieldsInv) (en_locs e) else [])\<rparr>"

text \<open>
  The postings that are not excepted, and where a search goes on when it is asked for a document at
  or above \<open>a\<close>.
\<close>

definition live :: "nat list option \<Rightarrow> entry list \<Rightarrow> entry list" where
  "live exc rem = filter (\<lambda>e. \<not> excepted exc (en_doc e)) rem"

definition seek :: "nat list option \<Rightarrow> u64 \<Rightarrow> entry list \<Rightarrow> entry list" where
  "seek exc a rem = dropWhile (\<lambda>e. en_doc e < unat a \<or> excepted exc (en_doc e)) rem"

lemma excepted_None [simp]: "excepted None n = False"
  by (simp add: excepted_def)

lemma live_None [simp]: "live None rem = rem"
  by (simp add: live_def)

lemma uint32_small: "unat a < 2 ^ 32 \<Longrightarrow> uint32 a = unat a"
  by (simp add: uint32_def unsigned_ucast_eq take_bit_nat_eq_self)

lemma advance_live: "advance_if_needed (unat a) (map en_doc (live exc rem)) = map en_doc (live exc (seek exc a rem))"
  unfolding advance_if_needed_def live_def seek_def by (induction rem) simp_all

lemma seek_Cons: "seek exc a rem = t # rest \<Longrightarrow> live exc (t # rest) = t # live exc rest"
  using hd_dropWhile [of "\<lambda>e. en_doc e < unat a \<or> excepted exc (en_doc e)" rem]
  by (auto simp: seek_def live_def)

text \<open>A run of calls: \<open>None\<close> is \<open>Next\<close>, a number is \<open>Advance\<close> to it; and what it is to return.\<close>

fun read_all ::
  "segment_base \<Rightarrow> u64 option list \<Rightarrow> postings_iterator \<Rightarrow> (zap_error, posting option list) result" where
  "read_all sb [] i = Inr []"
| "read_all sb (m # ms) i =
     bind_result (case m of None \<Rightarrow> iterator_next sb i | Some a \<Rightarrow> iterator_advance sb a i) (\<lambda>(p, i).
       bind_result (read_all sb ms i) (\<lambda>ps. Inr (p # ps)))"

fun picks :: "nat list option \<Rightarrow> u64 option list \<Rightarrow> entry list \<Rightarrow> entry option list" where
  "picks exc [] rem = []"
| "picks exc (m # ms) rem =
     (case seek exc (case m of None \<Rightarrow> 0 | Some a \<Rightarrow> a) rem of
        [] \<Rightarrow> None # picks exc ms []
      | t # rest \<Rightarrow> Some t # picks exc ms rest)"

text \<open>The two streams of the term as they are opened.\<close>

type_synonym stream = "u64 \<times> u64 \<times> u64 list \<times> bytes"

locale term_postings =
  fixes sb :: segment_base and cs :: u64 and es :: "entry list" and FS LS :: stream and incLocs :: bool
  assumes docs_sorted: "sorted_wrt (<) (map en_doc es)"
    and cs_pos: "0 < unat cs" and cs_32: "unat cs < 2 ^ 32"
    and freq_63: "e \<in> set es \<Longrightarrow> en_freq e < 2 ^ 63"
    and serves_freq: "serves sb (chunk_of cs ` set es) (\<lambda>k. freq_bytes (in_chunk cs k es)) FS"
    and serves_locs: "incLocs \<Longrightarrow> serves sb (chunk_of cs ` set es) (\<lambda>k. locs_bytes (in_chunk cs k es)) LS"
    and locs_fit: "incLocs \<Longrightarrow> e \<in> set es \<Longrightarrow> l \<in> set (en_locs e) \<Longrightarrow>
      unat (il_fieldID l) < length (sb_fieldsInv sb) \<and> length (il_arrayposs l) < 2 ^ 63"
    and locs_63: "incLocs \<Longrightarrow> e \<in> set es \<Longrightarrow> sum_list (map loc_size (en_locs e)) < 2 ^ 63"
begin

definition readers :: "postings_iterator \<Rightarrow> bool" where
  "readers i \<longleftrightarrow> pi_normBits1Hit i = 0 \<and> pi_includeFreqNorm i \<and> pi_includeLocs i = incLocs \<and>
     reader_of (pi_freqNormReader i) FS \<and> (incLocs \<longrightarrow> reader_of (pi_locReader i) LS)"

text \<open>The chunk \<open>k\<close> is loaded and the readers have certain bytes left.\<close>

definition holding :: "nat \<Rightarrow> bytes \<Rightarrow> bytes \<Rightarrow> postings_iterator \<Rightarrow> bool" where
  "holding k fb lb i \<longleftrightarrow> readers i \<and> at_chunk k i \<and> reader_holds (pi_freqNormReader i) FS fb \<and>
     (incLocs \<longrightarrow> reader_holds (pi_locReader i) LS lb)"

text \<open>Only the readers and the current chunk differ.\<close>

definition same_cursor :: "postings_iterator \<Rightarrow> postings_iterator \<Rightarrow> bool" where
  "same_cursor i i' \<longleftrightarrow> (\<exists>f l k. i' = i\<lparr>pi_freqNormReader := f, pi_locReader := l, pi_currChunk := k\<rparr>)"

lemma same_cursor_refl [simp]: "same_cursor i i"
proof -
  have "i = i\<lparr>pi_freqNormReader := pi_freqNormReader i, pi_locReader := pi_locReader i, pi_currChunk := pi_currChunk i\<rparr>"
    by simp
  then show ?thesis unfolding same_cursor_def by blast
qed

lemma same_cursor_trans: "same_cursor i i' \<Longrightarrow> same_cursor i' i'' \<Longrightarrow> same_cursor i i''"
proof -
  assume "same_cursor i i'" "same_cursor i' i''"
  then obtain f l k f' l' k' where "i'' = i\<lparr>pi_freqNormReader := f, pi_locReader := l, pi_currChunk := k,
      pi_freqNormReader := f', pi_locReader := l', pi_currChunk := k'\<rparr>"
    unfolding same_cursor_def by blast
  then have "i'' = i\<lparr>pi_freqNormReader := f', pi_locReader := l', pi_currChunk := k'\<rparr>"
    by simp
  then show ?thesis
    unfolding same_cursor_def by blast
qed

lemma same_cursor_fields:
  "same_cursor i i' \<Longrightarrow> pi_postings i' = pi_postings i \<and> pi_all i' = pi_all i \<and> pi_Actual i' = pi_Actual i \<and>
   pi_clean i' = pi_clean i \<and> pi_normBits1Hit i' = pi_normBits1Hit i \<and>
   pi_includeFreqNorm i' = pi_includeFreqNorm i \<and> pi_includeLocs i' = pi_includeLocs i"
  by (auto simp: same_cursor_def)

lemma readers_loc: "readers i \<Longrightarrow> incLocs \<Longrightarrow> \<exists>d. pi_locReader i = Some d \<and> stream_of d = LS"
  unfolding readers_def reader_of_def by blast

lemma holding_loc:
  "holding k fb lb i \<Longrightarrow> incLocs \<Longrightarrow>
   \<exists>d r. pi_locReader i = Some d \<and> stream_of d = LS \<and> id_r d = Some r \<and> remaining r = lb"
  unfolding holding_def reader_holds_def by blast

lemma holding_loc_update:
  assumes "holding k fb lb i" and "stream_of d = LS" and "id_r d = Some r" and "remaining r = lb'"
  shows "holding k fb lb' (i\<lparr>pi_locReader := Some d\<rparr>)"
  using assms unfolding holding_def readers_def at_chunk_def reader_of_def reader_holds_def by simp

text \<open>Loading a chunk puts the readers at its first document.\<close>

lemma load_chunk_holding:
  assumes "readers i" and "k \<in> chunk_of cs ` set es"
  obtains i' where "iterator_load_chunk sb k i = Inr i'" and "same_cursor i i'"
    and "holding k (freq_bytes (in_chunk cs k es)) (locs_bytes (in_chunk cs k es)) i'"
proof -
  have i: "pi_includeFreqNorm i" "pi_includeLocs i = incLocs" "pi_normBits1Hit i = 0"
    using assms(1) by (simp_all add: readers_def)
  obtain fd where fd: "pi_freqNormReader i = Some fd" "stream_of fd = FS"
    using assms(1) by (auto simp: readers_def reader_of_def)
  obtain fd' where fd': "load_chunk (sb_decode sb) (sb_fileReader sb) k fd = Inr fd'" "stream_of fd' = FS"
      "id_r fd' = Some (new_mem_uvarint_reader (freq_bytes (in_chunk cs k es)))"
      "freq_bytes (in_chunk cs k es) \<noteq> [] \<longrightarrow> id_curChunkBytes fd' = freq_bytes (in_chunk cs k es)"
    using serves_freq assms(2) fd(2) unfolding serves_def by blast
  have ne: "freq_bytes (in_chunk cs k es) \<noteq> []"
    using assms(2) by (auto simp: in_chunk_def filter_empty_conv)
  have f: "reader_holds (Some fd') FS (freq_bytes (in_chunk cs k es))"
    using fd'(2,3) by (simp add: reader_holds_def zap_simps)
  have nn: "\<not> int_decoder_is_nil fd'"
    using ne fd'(4) by (simp add: int_decoder_is_nil_def)
  have f': "reader_of (Some fd') FS"
    using fd'(2) by (simp add: reader_of_def)
  show ?thesis
  proof (cases incLocs)
    case False
    let ?i = "i\<lparr>pi_freqNormReader := Some fd', pi_locReader := pi_locReader i, pi_currChunk := k\<rparr>"
    have "iterator_load_chunk sb k i = Inr ?i"
      using i fd(1) fd'(1) False
      by (simp add: iterator_load_chunk_def load_chunk_reader_def with_reader_def)
    moreover have "same_cursor i ?i"
      unfolding same_cursor_def by blast
    moreover have "holding k (freq_bytes (in_chunk cs k es)) (locs_bytes (in_chunk cs k es)) ?i"
      unfolding holding_def readers_def at_chunk_def using i f f' nn False by simp
    ultimately show ?thesis
      by (rule that)
  next
    case True
    obtain ld where ld: "pi_locReader i = Some ld" "stream_of ld = LS"
      using readers_loc [OF assms(1) True] by blast
    obtain ld' where ld': "load_chunk (sb_decode sb) (sb_fileReader sb) k ld = Inr ld'" "stream_of ld' = LS"
        "id_r ld' = Some (new_mem_uvarint_reader (locs_bytes (in_chunk cs k es)))"
      using serves_locs [OF True] assms(2) ld(2) unfolding serves_def by blast
    have l: "reader_holds (Some ld') LS (locs_bytes (in_chunk cs k es))" "reader_of (Some ld') LS"
      using ld'(2,3) by (simp_all add: reader_holds_def reader_of_def zap_simps)
    let ?i = "i\<lparr>pi_freqNormReader := Some fd', pi_locReader := Some ld', pi_currChunk := k\<rparr>"
    have "iterator_load_chunk sb k i = Inr ?i"
      using i fd(1) fd'(1) ld(1) ld'(1) True
      by (simp add: iterator_load_chunk_def load_chunk_reader_def with_reader_def)
    moreover have "same_cursor i ?i"
      unfolding same_cursor_def by blast
    moreover have "holding k (freq_bytes (in_chunk cs k es)) (locs_bytes (in_chunk cs k es)) ?i"
      unfolding holding_def readers_def at_chunk_def using i f f' l nn True by simp
    ultimately show ?thesis
      by (rule that)
  qed
qed

section \<open>Reading a document\<close>

lemma freq_read_holding:
  assumes "holding k (put_uvarint v @ fb) lb i"
  obtains i' where "freq_read_uvarint i = Inr (v, i')" and "same_cursor i i'" and "holding k fb lb i'"
    and "\<exists>d. pi_freqNormReader i' = Some d"
proof -
  obtain d r where d: "pi_freqNormReader i = Some d" "stream_of d = FS" "id_r d = Some r" "remaining r = put_uvarint v @ fb"
    using assms by (auto simp: holding_def reader_holds_def)
  obtain r' where r': "decoder_read_uvarint d = Inr (v, d\<lparr>id_r := Some r'\<rparr>)" "remaining r' = fb"
    by (rule decoder_read_put [OF d(3,4)])
  let ?i = "i\<lparr>pi_freqNormReader := Some (d\<lparr>id_r := Some r'\<rparr>), pi_locReader := pi_locReader i, pi_currChunk := pi_currChunk i\<rparr>"
  have "freq_read_uvarint i = Inr (v, ?i)"
    using d r' by (simp add: freq_read_uvarint_def with_reader_def)
  moreover have "same_cursor i ?i"
    unfolding same_cursor_def by blast
  moreover have "holding k fb lb ?i"
    using assms d r'
    by (auto simp: holding_def readers_def at_chunk_def reader_of_def reader_holds_def stream_of_def int_decoder_is_nil_def)
  ultimately show ?thesis by (rule that) simp
qed

lemma freq_skip_holding:
  assumes "holding k (put_uvarint v @ fb) lb i"
  obtains d d' where "pi_freqNormReader i = Some d" and "decoder_skip_uvarint d = Inr d'"
    and "same_cursor i (i\<lparr>pi_freqNormReader := Some d'\<rparr>)" and "holding k fb lb (i\<lparr>pi_freqNormReader := Some d'\<rparr>)"
proof -
  obtain d r where d: "pi_freqNormReader i = Some d" "stream_of d = FS" "id_r d = Some r" "remaining r = put_uvarint v @ fb"
    using assms by (auto simp: holding_def reader_holds_def)
  let ?d = "d\<lparr>id_r := Some (moved (num_uvarint_bytes v) r)\<rparr>"
  have "decoder_skip_uvarint d = Inr ?d"
    using d skip_uvarint_put [OF d(4)] by (simp add: decoder_skip_uvarint_def)
  moreover have "i\<lparr>pi_freqNormReader := Some ?d\<rparr> =
      i\<lparr>pi_freqNormReader := Some ?d, pi_locReader := pi_locReader i, pi_currChunk := pi_currChunk i\<rparr>"
    by simp
  then have "same_cursor i (i\<lparr>pi_freqNormReader := Some ?d\<rparr>)"
    unfolding same_cursor_def by blast
  moreover have "holding k fb lb (i\<lparr>pi_freqNormReader := Some ?d\<rparr>)"
    using assms d read_uvarint_put(2) [OF d(4)]
    by (auto simp: holding_def readers_def at_chunk_def reader_of_def reader_holds_def stream_of_def int_decoder_is_nil_def)
  ultimately show ?thesis by (rule that [OF d(1)])
qed

lemma loc_read_holding:
  assumes "holding k fb (put_uvarint v @ lb) i" and "incLocs"
  obtains i' where "loc_read_uvarint i = Inr (v, i')" and "same_cursor i i'" and "holding k fb lb i'"
proof -
  obtain d r where d: "pi_locReader i = Some d" "stream_of d = LS" "id_r d = Some r" "remaining r = put_uvarint v @ lb"
    using holding_loc [OF assms] by blast
  obtain r' where r': "decoder_read_uvarint d = Inr (v, d\<lparr>id_r := Some r'\<rparr>)" "remaining r' = lb"
    by (rule decoder_read_put [OF d(3,4)])
  let ?i = "i\<lparr>pi_freqNormReader := pi_freqNormReader i, pi_locReader := Some (d\<lparr>id_r := Some r'\<rparr>), pi_currChunk := pi_currChunk i\<rparr>"
  have st: "stream_of (d\<lparr>id_r := x\<rparr>) = LS" for x
    using d(2) by (simp add: stream_of_def)
  have "loc_read_uvarint i = Inr (v, ?i)"
    using d r' by (simp add: loc_read_uvarint_def with_reader_def)
  moreover have "same_cursor i ?i"
    unfolding same_cursor_def by blast
  moreover have "holding k fb lb ?i"
    using holding_loc_update [OF assms(1) st _ r'(2)] by simp
  ultimately show ?thesis by (rule that)
qed

lemma loc_skip_holding:
  assumes "holding k fb (bs @ lb) i" and "incLocs"
  obtains d d' where "pi_locReader i = Some d" and "decoder_skip_bytes (length bs) d = Inr d'"
    and "same_cursor i (i\<lparr>pi_locReader := Some d'\<rparr>)" and "holding k fb lb (i\<lparr>pi_locReader := Some d'\<rparr>)"
proof -
  obtain d r where d: "pi_locReader i = Some d" "stream_of d = LS" "id_r d = Some r" "remaining r = bs @ lb"
    using holding_loc [OF assms] by blast
  let ?d = "d\<lparr>id_r := Some (moved (length bs) r)\<rparr>"
  have st: "stream_of ?d = LS"
    using d(2) by (simp add: stream_of_def)
  have "decoder_skip_bytes (length bs) d = Inr ?d"
    using d by (simp add: decoder_skip_bytes_def skip_bytes_moved)
  moreover have "i\<lparr>pi_locReader := Some ?d\<rparr> =
      i\<lparr>pi_freqNormReader := pi_freqNormReader i, pi_locReader := Some ?d, pi_currChunk := pi_currChunk i\<rparr>"
    by simp
  then have "same_cursor i (i\<lparr>pi_locReader := Some ?d\<rparr>)"
    unfolding same_cursor_def by blast
  moreover have "holding k fb lb (i\<lparr>pi_locReader := Some ?d\<rparr>)"
    by (rule holding_loc_update [OF assms(1) st, of "moved (length bs) r"]) (simp_all add: remaining_moved d(4))
  ultimately show ?thesis by (rule that [OF d(1)])
qed

lemma loc_len_holding:
  assumes "holding k fb lb i" and "incLocs"
  shows "with_reader (pi_locReader i) decoder_len = Inr (length lb)"
  using holding_loc [OF assms] by (auto simp: with_reader_def decoder_len_def mem_len_remaining)

lemma read_freq_norm_holding:
  assumes "holding k (put_uvarints (freq_ints e) @ fb) lb i" and "en_freq e < 2 ^ 63"
  obtains i' where "read_freq_norm_has_locs i =
      Inr ((en_freq e, if en_freq e = 0 then 0 else ucast (en_norm e), en_locs e \<noteq> []), i')"
    and "same_cursor i i'" and "holding k fb lb i'"
proof -
  have n: "pi_normBits1Hit i = 0"
    using assms(1) by (simp add: holding_def readers_def)
  let ?v = "encode_freq_has_locs (en_freq e) (en_locs e \<noteq> [])"
  note dec = decode_encode_freq [OF assms(2), of "en_locs e \<noteq> []"]
  show ?thesis
  proof (cases "en_freq e = 0")
    case True
    then obtain i1 where "freq_read_uvarint i = Inr (?v, i1)" "same_cursor i i1" "holding k fb lb i1"
      using assms(1) by (auto simp: freq_ints_def Let_def elim: freq_read_holding)
    then show ?thesis
      using True n dec by (intro that [of i1]) (simp_all add: read_freq_norm_has_locs_def)
  next
    case False
    then have pos: "0 < en_freq e"
      by (simp add: word_gt_0)
    obtain i1 where i1: "freq_read_uvarint i = Inr (?v, i1)" "same_cursor i i1"
        "holding k (put_uvarint (ucast (en_norm e)) @ fb) lb i1"
      using assms(1) pos by (auto simp: freq_ints_def Let_def elim: freq_read_holding)
    obtain i2 where i2: "freq_read_uvarint i1 = Inr (ucast (en_norm e), i2)" "same_cursor i1 i2" "holding k fb lb i2"
      by (rule freq_read_holding [OF i1(3)])
    show ?thesis
      using n False dec i1 i2 same_cursor_trans
      by (intro that [of i2]) (auto simp: read_freq_norm_has_locs_def)
  qed
qed

lemma skip_freq_norm_holding:
  assumes "holding k (put_uvarints (freq_ints e) @ fb) lb i" and "en_freq e < 2 ^ 63"
  obtains i' where "skip_freq_norm_read_has_locs i = Inr (en_locs e \<noteq> [], i')"
    and "same_cursor i i'" and "holding k fb lb i'"
proof -
  have n: "pi_normBits1Hit i = 0"
    using assms(1) by (simp add: holding_def readers_def)
  let ?v = "encode_freq_has_locs (en_freq e) (en_locs e \<noteq> [])"
  note dec = decode_encode_freq [OF assms(2), of "en_locs e \<noteq> []"]
  show ?thesis
  proof (cases "en_freq e = 0")
    case True
    then obtain i1 where "freq_read_uvarint i = Inr (?v, i1)" "same_cursor i i1" "holding k fb lb i1"
      using assms(1) by (auto simp: freq_ints_def Let_def elim: freq_read_holding)
    then show ?thesis
      using True n dec by (intro that [of i1]) (simp_all add: skip_freq_norm_read_has_locs_def)
  next
    case False
    then have pos: "0 < en_freq e"
      by (simp add: word_gt_0)
    obtain i1 where i1: "freq_read_uvarint i = Inr (?v, i1)" "same_cursor i i1"
        "holding k (put_uvarint (ucast (en_norm e)) @ fb) lb i1"
      using assms(1) pos by (auto simp: freq_ints_def Let_def elim: freq_read_holding)
    obtain d d' where d: "pi_freqNormReader i1 = Some d" "decoder_skip_uvarint d = Inr d'"
        "same_cursor i1 (i1\<lparr>pi_freqNormReader := Some d'\<rparr>)" "holding k fb lb (i1\<lparr>pi_freqNormReader := Some d'\<rparr>)"
      by (rule freq_skip_holding [OF i1(3)])
    show ?thesis
      using n False dec i1 d same_cursor_trans
      by (intro that [of "i1\<lparr>pi_freqNormReader := Some d'\<rparr>"])
        (auto simp: skip_freq_norm_read_has_locs_def with_reader_def)
  qed
qed

lemma locs_ints_bytes:
  "en_locs e \<noteq> [] \<Longrightarrow> put_uvarints (locs_ints e) =
     put_uvarint (of_nat (sum_list (map loc_size (en_locs e)))) @ put_uvarints (concat (map loc_ints (en_locs e)))"
  by (simp add: locs_ints_def)

lemma nat_sint_small: "n < 2 ^ 63 \<Longrightarrow> nat (sint (of_nat n :: u64)) = n"
  by (simp add: sint_uint unsigned_of_nat take_bit_nat_eq_self signed_take_bit_int_eq_self)

lemma skip_locs_holding:
  assumes "holding k fb (put_uvarints (locs_ints e) @ lb) i" and "incLocs" and "e \<in> set es" and "en_locs e \<noteq> []"
  obtains i' where "skip_locs i = Inr i'" and "same_cursor i i'" and "holding k fb lb i'"
proof -
  let ?n = "sum_list (map loc_size (en_locs e))" and ?bs = "put_uvarints (concat (map loc_ints (en_locs e)))"
  have h: "holding k fb (put_uvarint (of_nat ?n) @ ?bs @ lb) i"
    using assms(1) unfolding locs_ints_bytes [OF assms(4)] by simp
  obtain i1 where i1: "loc_read_uvarint i = Inr (of_nat ?n, i1)" "same_cursor i i1" "holding k fb (?bs @ lb) i1"
    by (rule loc_read_holding [OF h assms(2)])
  obtain d d' where d: "pi_locReader i1 = Some d" "decoder_skip_bytes (length ?bs) d = Inr d'"
      "same_cursor i1 (i1\<lparr>pi_locReader := Some d'\<rparr>)" "holding k fb lb (i1\<lparr>pi_locReader := Some d'\<rparr>)"
    by (rule loc_skip_holding [OF i1(3) assms(2)])
  have "nat (sint (of_nat ?n :: u64)) = length ?bs"
    using nat_sint_small [OF locs_63 [OF assms(2,3)]] by (simp add: sum_loc_size)
  then have "skip_locs i = Inr (i1\<lparr>pi_locReader := Some d'\<rparr>)"
    using i1(1) d(1,2) by (simp add: skip_locs_def with_reader_def)
  then show ?thesis
    using same_cursor_trans [OF i1(2) d(3)] d(4) by (rule that)
qed

lemma read_aps_holding:
  assumes "holding k fb (put_uvarints aps @ lb) i" and "incLocs"
  shows "\<exists>i'. read_aps (length aps) i = Inr (aps, i') \<and> same_cursor i i' \<and> holding k fb lb i'"
  using assms(1)
proof (induction aps arbitrary: i)
  case (Cons ap aps)
  then have h: "holding k fb (put_uvarint ap @ put_uvarints aps @ lb) i"
    by simp
  obtain i1 where i1: "loc_read_uvarint i = Inr (ap, i1)" "same_cursor i i1" "holding k fb (put_uvarints aps @ lb) i1"
    by (rule loc_read_holding [OF h assms(2)])
  then show ?case
    using Cons.IH [OF i1(3)] same_cursor_trans [OF i1(2)] by auto
qed simp

lemma read_location_holding:
  assumes "holding k fb (put_uvarints (loc_ints l) @ lb) i" and "incLocs"
    and "unat (il_fieldID l) < length (sb_fieldsInv sb)" and "length (il_arrayposs l) < 2 ^ 63"
  shows "\<exists>i'. read_location sb i = Inr (location_of (sb_fieldsInv sb) l, i') \<and> same_cursor i i' \<and> holding k fb lb i'"
proof -
  let ?aps = "il_arrayposs l"
  let ?n = "of_nat (length ?aps) :: u64"
  have h: "holding k fb (put_uvarint (ucast (il_fieldID l)) @ put_uvarint (il_pos l) @ put_uvarint (il_start l) @
      put_uvarint (il_end l) @ put_uvarint ?n @ put_uvarints ?aps @ lb) i"
    using assms(1) by (simp add: loc_ints_def)
  obtain i1 where i1: "loc_read_uvarint i = Inr (ucast (il_fieldID l), i1)" "same_cursor i i1"
      "holding k fb (put_uvarint (il_pos l) @ put_uvarint (il_start l) @
        put_uvarint (il_end l) @ put_uvarint ?n @ put_uvarints ?aps @ lb) i1"
    by (rule loc_read_holding [OF h assms(2)])
  obtain i2 where i2: "loc_read_uvarint i1 = Inr (il_pos l, i2)" "same_cursor i1 i2"
      "holding k fb (put_uvarint (il_start l) @ put_uvarint (il_end l) @ put_uvarint ?n @ put_uvarints ?aps @ lb) i2"
    by (rule loc_read_holding [OF i1(3) assms(2)])
  obtain i3 where i3: "loc_read_uvarint i2 = Inr (il_start l, i3)" "same_cursor i2 i3"
      "holding k fb (put_uvarint (il_end l) @ put_uvarint ?n @ put_uvarints ?aps @ lb) i3"
    by (rule loc_read_holding [OF i2(3) assms(2)])
  obtain i4 where i4: "loc_read_uvarint i3 = Inr (il_end l, i4)" "same_cursor i3 i4"
      "holding k fb (put_uvarint ?n @ put_uvarints ?aps @ lb) i4"
    by (rule loc_read_holding [OF i3(3) assms(2)])
  obtain i5 where i5: "loc_read_uvarint i4 = Inr (?n, i5)" "same_cursor i4 i5" "holding k fb (put_uvarints ?aps @ lb) i5"
    by (rule loc_read_holding [OF i4(3) assms(2)])
  obtain i6 where i6: "read_aps (length ?aps) i5 = Inr (?aps, i6)" "same_cursor i5 i6" "holding k fb lb i6"
    using read_aps_holding [OF i5(3) assms(2)] by blast
  have n: "unat ?n = length ?aps" "\<not> 2 ^ 63 \<le> length ?aps"
    using assms(4) by (simp_all add: unat_small)
  have f: "unat (ucast (il_fieldID l) :: u64) = unat (il_fieldID l)"
    unfolding unsigned_ucast_eq by (intro take_bit_nat_eq_self) (rule less_le_trans [OF unsigned_less], simp)
  have "read_location sb i = Inr (location_of (sb_fieldsInv sb) l, i6)"
    using i1(1) i2(1) i3(1) i4(1) i5(1) i6(1) assms(3) n f
    by (simp add: read_location_def location_of_def)
  moreover have "same_cursor i i6"
    using i1(2) i2(2) i3(2) i4(2) i5(2) i6(2) same_cursor_trans by blast
  ultimately show ?thesis
    using i6(3) by blast
qed

lemma loc_ints_bytes_pos: "0 < length (put_uvarints (loc_ints l))"
  by (simp add: loc_ints_def length_put_uvarint num_uvarint_bytes_pos)

lemma read_locations_holding:
  assumes "holding k fb (put_uvarints (concat (map loc_ints ls)) @ lb) i" and "incLocs"
    and "\<forall>l\<in>set ls. unat (il_fieldID l) < length (sb_fieldsInv sb) \<and> length (il_arrayposs l) < 2 ^ 63"
    and "length (put_uvarints (concat (map loc_ints ls))) \<le> n" and "length ls < fuel"
  shows "\<exists>i'. read_locations sb fuel (n + length lb) n i = Inr (map (location_of (sb_fieldsInv sb)) ls, i') \<and>
    same_cursor i i' \<and> holding k fb lb i'"
  using assms(1,3-)
proof (induction ls arbitrary: i fuel)
  case Nil
  then obtain f where "fuel = Suc f"
    by (cases fuel) auto
  then show ?case
    using Nil.prems loc_len_holding [OF _ assms(2)] by auto
next
  case (Cons l ls)
  then obtain f where fuel: "fuel = Suc f"
    by (cases fuel) auto
  have h: "holding k fb (put_uvarints (loc_ints l) @ put_uvarints (concat (map loc_ints ls)) @ lb) i"
    using Cons.prems(1) by simp
  obtain i1 where i1: "read_location sb i = Inr (location_of (sb_fieldsInv sb) l, i1)" "same_cursor i i1"
      "holding k fb (put_uvarints (concat (map loc_ints ls)) @ lb) i1"
    using read_location_holding [OF h assms(2)] Cons.prems(2) by auto
  obtain i2 where i2: "read_locations sb f (n + length lb) n i1 = Inr (map (location_of (sb_fieldsInv sb)) ls, i2)"
      "same_cursor i1 i2" "holding k fb lb i2"
    using Cons.IH [OF i1(3), of f] Cons.prems fuel by auto
  have "n + length lb - length (put_uvarints (loc_ints l) @ put_uvarints (concat (map loc_ints ls)) @ lb) < n"
    using loc_ints_bytes_pos [of l] Cons.prems(3) by (simp del: length_greater_0_conv)
  then show ?case
    using i1(1) i2 same_cursor_trans [OF i1(2) i2(2)] loc_len_holding [OF h assms(2)] fuel by simp
qed

lemma length_locs_le: "length ls \<le> length (put_uvarints (concat (map loc_ints ls)))"
proof (induction ls)
  case (Cons l ls)
  then show ?case using loc_ints_bytes_pos [of l] by (simp del: length_greater_0_conv)
qed simp

text \<open>The tail of \<open>nextAtOrAfter\<close>, behind the document that was found.\<close>

lemma read_posting:
  assumes "holding k (put_uvarints (freq_ints e) @ fb) (put_uvarints (locs_ints e) @ lb) i" and "e \<in> set es"
    and "next_doc_num_at_or_after sb a i0 = Inr (Some (of_nat (en_doc e)), i)"
  shows "\<exists>i'. next_at_or_after sb a i0 = Inr (Some (posting_of (sb_fieldsInv sb) incLocs e), i') \<and>
    same_cursor i i' \<and> holding k fb lb i'"
proof -
  have i: "pi_includeFreqNorm i"
    using assms(1) by (simp add: holding_def readers_def)
  obtain i1 where i1: "read_freq_norm_has_locs i =
      Inr ((en_freq e, if en_freq e = 0 then 0 else ucast (en_norm e), en_locs e \<noteq> []), i1)"
      "same_cursor i i1" "holding k fb (put_uvarints (locs_ints e) @ lb) i1"
    by (rule read_freq_norm_holding [OF assms(1) freq_63 [OF assms(2)]])
  have l1: "pi_includeLocs i1 = incLocs"
    using i1(3) by (simp add: holding_def readers_def)
  have norm: "ucast (if en_freq e = 0 then 0 else ucast (en_norm e) :: u64) = (if en_freq e = 0 then 0 else en_norm e)"
    by (auto intro!: bit_word_eqI simp: bit_simps)
  show ?thesis
  proof (cases "incLocs \<and> en_locs e \<noteq> []")
    case False
    have "put_uvarints (locs_ints e) = [] \<or> \<not> incLocs"
      using False by (auto simp: locs_ints_def)
    then have "holding k fb lb i1"
      using i1(3) unfolding holding_def by auto
    moreover have "next_at_or_after sb a i0 = Inr (Some (posting_of (sb_fieldsInv sb) incLocs e), i1)"
      using assms(3) i i1(1) l1 False norm by (auto simp: next_at_or_after_def posting_of_def)
    ultimately show ?thesis
      using i1(2) by blast
  next
    case True
    then have inc: "incLocs" and ne: "en_locs e \<noteq> []"
      by simp_all
    let ?n = "sum_list (map loc_size (en_locs e))" and ?bs = "put_uvarints (concat (map loc_ints (en_locs e)))"
    have h: "holding k fb (put_uvarint (of_nat ?n) @ ?bs @ lb) i1"
      using i1(3) unfolding locs_ints_bytes [OF ne] by simp
    obtain i2 where i2: "loc_read_uvarint i1 = Inr (of_nat ?n, i2)" "same_cursor i1 i2" "holding k fb (?bs @ lb) i2"
      by (rule loc_read_holding [OF h inc])
    have n: "nat (sint (of_nat ?n :: u64)) = length ?bs"
      using nat_sint_small [OF locs_63 [OF inc assms(2)]] by (simp add: sum_loc_size)
    have len: "with_reader (pi_locReader i2) decoder_len = Inr (length ?bs + length lb)"
      using loc_len_holding [OF i2(3) inc] by simp
    obtain i3 where i3: "read_locations sb (length ?bs + length lb + 2) (length ?bs + length lb) (length ?bs) i2 =
        Inr (map (location_of (sb_fieldsInv sb)) (en_locs e), i3)" "same_cursor i2 i3" "holding k fb lb i3"
      using read_locations_holding [OF i2(3) inc, of "length ?bs" "length ?bs + length lb + 2"]
        locs_fit [OF inc assms(2)] length_locs_le [of "en_locs e"] by auto
    have "next_at_or_after sb a i0 = Inr (Some (posting_of (sb_fieldsInv sb) incLocs e), i3)"
      using assms(3) i i1(1) l1 inc ne norm i2(1) len n i3(1) by (simp add: next_at_or_after_def posting_of_def)
    moreover have "same_cursor i i3"
      using i1(2) i2(2) i3(2) same_cursor_trans by blast
    ultimately show ?thesis
      using i3(3) by blast
  qed
qed

section \<open>The readers follow the documents\<close>

text \<open>
  The readers fit the documents \<open>rem\<close> that are left: when a chunk of them is loaded it is that of the
  first, with exactly their bytes left, and when none is, the first is at the start of its chunk.
\<close>

definition synced :: "entry list \<Rightarrow> postings_iterator \<Rightarrow> bool" where
  "synced rem i \<longleftrightarrow> readers i \<and> suffix rem es \<and>
     (\<forall>e\<in>set rem. at_chunk (chunk_of cs e) i \<longrightarrow> chunk_of cs e = chunk_of cs (hd rem)) \<and>
     (rem \<noteq> [] \<longrightarrow> (if at_chunk (chunk_of cs (hd rem)) i
        then holding (chunk_of cs (hd rem)) (freq_bytes (in_chunk cs (chunk_of cs (hd rem)) rem))
          (locs_bytes (in_chunk cs (chunk_of cs (hd rem)) rem)) i
        else in_chunk cs (chunk_of cs (hd rem)) rem = in_chunk cs (chunk_of cs (hd rem)) es))"

lemma synced_readers: "synced rem i \<Longrightarrow> readers i"
  by (simp add: synced_def)

lemma synced_suffix: "synced rem i \<Longrightarrow> suffix rem es"
  by (simp add: synced_def)

lemma holding_readers: "holding k fb lb i \<Longrightarrow> readers i"
  by (simp add: holding_def)

lemma holding_chunk: "holding k fb lb i \<Longrightarrow> at_chunk k i"
  by (simp add: holding_def)

lemma at_chunk_unique: "at_chunk k i \<Longrightarrow> at_chunk k' i \<Longrightarrow> k' = k"
  by (simp add: at_chunk_def)

lemma synced_holding:
  "synced (e # rem) i \<Longrightarrow> at_chunk (chunk_of cs e) i \<Longrightarrow>
   holding (chunk_of cs e) (put_uvarints (freq_ints e) @ freq_bytes (in_chunk cs (chunk_of cs e) rem))
     (put_uvarints (locs_ints e) @ locs_bytes (in_chunk cs (chunk_of cs e) rem)) i"
  by (simp add: synced_def)

lemma other_fields [simp]:
  "readers (i\<lparr>pi_Actual := x\<rparr>) = readers i" "readers (i\<lparr>pi_all := y\<rparr>) = readers i"
  "at_chunk k (i\<lparr>pi_Actual := x\<rparr>) = at_chunk k i" "at_chunk k (i\<lparr>pi_all := y\<rparr>) = at_chunk k i"
  "holding k fb lb (i\<lparr>pi_Actual := x\<rparr>) = holding k fb lb i" "holding k fb lb (i\<lparr>pi_all := y\<rparr>) = holding k fb lb i"
  by (simp_all add: holding_def readers_def at_chunk_def)

lemma synced_other_fields [simp]:
  "synced rem (i\<lparr>pi_Actual := x\<rparr>) = synced rem i" "synced rem (i\<lparr>pi_all := y\<rparr>) = synced rem i"
  by (simp_all add: synced_def)

text \<open>Documents and chunks ascend.\<close>

lemma docs_before:
  assumes "suffix (xs @ e # rem) es" and "x \<in> set xs"
  shows "en_doc x < en_doc e" and "chunk_of cs x \<le> chunk_of cs e"
proof -
  obtain pre where "es = pre @ xs @ e # rem"
    using assms(1) by (auto simp: suffix_def)
  then show "en_doc x < en_doc e"
    using docs_sorted assms(2) by (auto simp: sorted_wrt_append)
  then show "chunk_of cs x \<le> chunk_of cs e"
    by (simp add: chunk_of_def div_le_mono)
qed

lemma docs_after:
  assumes "suffix (e # rem) es" and "y \<in> set rem"
  shows "en_doc e < en_doc y" and "chunk_of cs e \<le> chunk_of cs y"
proof -
  obtain ys zs where rem: "rem = ys @ y # zs"
    using assms(2) by (auto simp: in_set_conv_decomp)
  have "suffix ((e # ys) @ y # zs) es"
    using assms(1) rem by simp
  from docs_before [OF this, of e] show "en_doc e < en_doc y" "chunk_of cs e \<le> chunk_of cs y"
    by simp_all
qed

lemma suffix_set: "suffix rem es \<Longrightarrow> e \<in> set rem \<Longrightarrow> e \<in> set es"
  by (auto simp: suffix_def)

lemma whole_chunk:
  assumes "suffix (x # xs @ z # rem) es" and "chunk_of cs x \<noteq> chunk_of cs z" and "\<forall>y\<in>set xs. chunk_of cs y \<noteq> chunk_of cs z"
  shows "in_chunk cs (chunk_of cs z) (z # rem) = in_chunk cs (chunk_of cs z) es"
proof -
  obtain pre where es: "es = pre @ x # xs @ z # rem"
    using assms(1) by (auto simp: suffix_def)
  have sx: "suffix (pre @ x # xs @ z # rem) es" "suffix ((x # xs) @ z # rem) es"
    using es assms(1) by simp_all
  have "chunk_of cs x < chunk_of cs z"
    using docs_before(2) [OF sx(2), of x] assms(2) by simp
  then have "\<forall>y\<in>set pre. chunk_of cs y \<noteq> chunk_of cs z"
    using docs_before(2) [OF sx(1)] by fastforce
  then show ?thesis
    unfolding es in_chunk_def using assms(2,3) by (auto simp: filter_empty_conv)
qed

lemma holding_synced:
  assumes "suffix (e # rem) es"
    and "holding (chunk_of cs e) (freq_bytes (in_chunk cs (chunk_of cs e) rem)) (locs_bytes (in_chunk cs (chunk_of cs e) rem)) i"
  shows "synced rem i"
proof -
  let ?k = "chunk_of cs e"
  have at: "at_chunk ?k i" and rd: "readers i"
    using holding_chunk [OF assms(2)] holding_readers [OF assms(2)] by simp_all
  have sf: "suffix rem es"
    using assms(1) by (rule suffix_ConsD)
  show ?thesis
  proof (cases rem)
    case Nil
    then show ?thesis using rd by (simp add: synced_def)
  next
    case (Cons y ys)
    have le: "?k \<le> chunk_of cs y"
      using docs_after(2) [OF assms(1)] Cons by simp
    have "chunk_of cs x = chunk_of cs y" if "x \<in> set rem" "at_chunk (chunk_of cs x) i" for x
    proof -
      have "chunk_of cs x = ?k"
        using at_chunk_unique [OF at that(2)] .
      moreover have "chunk_of cs y \<le> chunk_of cs x"
        using that(1) docs_after(2) [of y ys x] sf Cons by auto
      ultimately show ?thesis using le by simp
    qed
    moreover have "holding (chunk_of cs y) (freq_bytes (in_chunk cs (chunk_of cs y) rem))
        (locs_bytes (in_chunk cs (chunk_of cs y) rem)) i" if "at_chunk (chunk_of cs y) i"
      using assms(2) at_chunk_unique [OF at that] by simp
    moreover have "in_chunk cs (chunk_of cs y) rem = in_chunk cs (chunk_of cs y) es" if "\<not> at_chunk (chunk_of cs y) i"
    proof -
      have "?k \<noteq> chunk_of cs y"
        using at that by metis
      then show ?thesis
        using whole_chunk [of e "[]" y ys] assms(1) Cons by simp
    qed
    ultimately show ?thesis
      using rd sf Cons by (auto simp: synced_def)
  qed
qed

lemma synced_drop:
  assumes "synced (ys @ z # rem) i" and "\<forall>y\<in>set ys. chunk_of cs y \<noteq> chunk_of cs z"
  shows "synced (z # rem) i"
proof (cases ys)
  case Nil
  then show ?thesis using assms(1) by simp
next
  case (Cons y ys')
  have sf: "suffix (y # ys' @ z # rem) es"
    using synced_suffix [OF assms(1)] Cons by simp
  have lt: "chunk_of cs y < chunk_of cs z"
    using docs_before(2) [of ys z rem y] synced_suffix [OF assms(1)] assms(2) Cons by fastforce
  have sz: "suffix (z # rem) es"
    using synced_suffix [OF assms(1)] by (rule suffix_appendD)
  have not: "\<not> at_chunk (chunk_of cs e) i" if "e \<in> set (z # rem)" for e
  proof
    assume "at_chunk (chunk_of cs e) i"
    then have "chunk_of cs e = chunk_of cs y"
      using assms(1) that Cons by (auto simp: synced_def)
    moreover have "chunk_of cs z \<le> chunk_of cs e"
      using that docs_after(2) [OF sz] by auto
    ultimately show False using lt by simp
  qed
  have "in_chunk cs (chunk_of cs z) (z # rem) = in_chunk cs (chunk_of cs z) es"
    using whole_chunk [OF sf] assms(2) Cons by simp
  then show ?thesis
    using not synced_readers [OF assms(1)] sz by (auto simp: synced_def)
qed

lemma same_cursor_update:
  "same_cursor i i' \<Longrightarrow> \<exists>f l k. i' = i\<lparr>pi_freqNormReader := f, pi_locReader := l, pi_currChunk := k\<rparr>"
  by (simp add: same_cursor_def)

lemma load_synced:
  assumes "readers i" and "suffix (zs @ e # rem) es" and "\<forall>z\<in>set zs. chunk_of cs z = chunk_of cs e"
    and "in_chunk cs (chunk_of cs e) (zs @ e # rem) = in_chunk cs (chunk_of cs e) es"
  shows "\<exists>i'. iterator_load_chunk sb (chunk_of cs e) i = Inr i' \<and> same_cursor i i' \<and>
    synced (zs @ e # rem) i' \<and> at_chunk (chunk_of cs e) i'"
proof -
  let ?k = "chunk_of cs e"
  have "e \<in> set es"
    using suffix_set [OF assms(2)] by simp
  then have k: "?k \<in> chunk_of cs ` set es"
    by blast
  obtain i' where i': "iterator_load_chunk sb ?k i = Inr i'" "same_cursor i i'"
      "holding ?k (freq_bytes (in_chunk cs ?k es)) (locs_bytes (in_chunk cs ?k es)) i'"
    by (rule load_chunk_holding [OF assms(1) k])
  have hd: "chunk_of cs (hd (zs @ e # rem)) = ?k"
    using assms(3) by (cases zs) auto
  note at = holding_chunk [OF i'(3)]
  have "\<forall>x\<in>set (zs @ e # rem). at_chunk (chunk_of cs x) i' \<longrightarrow> chunk_of cs x = ?k"
    using at_chunk_unique [OF at] by blast
  then have "synced (zs @ e # rem) i'"
    unfolding synced_def hd assms(4) using holding_readers [OF i'(3)] at assms(2) i'(3) by presburger
  then show ?thesis
    using i' holding_chunk by blast
qed

lemma ensure_chunk_synced:
  assumes "synced (e # rem) i"
  shows "\<exists>i'. ensure_chunk sb (chunk_of cs e) i = Inr i' \<and> same_cursor i i' \<and> synced (e # rem) i' \<and>
    at_chunk (chunk_of cs e) i'"
proof (cases "at_chunk (chunk_of cs e) i")
  case True
  then show ?thesis
    using assms by (intro exI [of _ i]) (auto simp: ensure_chunk_def at_chunk_def with_reader_def)
next
  case False
  then have "in_chunk cs (chunk_of cs e) ([] @ e # rem) = in_chunk cs (chunk_of cs e) es"
    using assms by (simp add: synced_def)
  then obtain i' where i': "iterator_load_chunk sb (chunk_of cs e) i = Inr i'" "same_cursor i i'"
      "synced (e # rem) i'" "at_chunk (chunk_of cs e) i'"
    using load_synced [of i "[]" e rem] synced_readers [OF assms] synced_suffix [OF assms] by auto
  obtain d where "pi_freqNormReader i = Some d"
    using synced_readers [OF assms] by (auto simp: readers_def reader_of_def)
  then have "ensure_chunk sb (chunk_of cs e) i = iterator_load_chunk sb (chunk_of cs e) i"
    using False by (auto simp: ensure_chunk_def at_chunk_def with_reader_def)
  then show ?thesis
    using i' by auto
qed

lemma curr_chunk_next_synced:
  assumes "synced (e # rem) i"
  shows "\<exists>i'. curr_chunk_next sb (chunk_of cs e) i = Inr i' \<and> same_cursor i i' \<and> synced rem i' \<and>
    at_chunk (chunk_of cs e) i'"
proof -
  let ?k = "chunk_of cs e"
  note sf = synced_suffix [OF assms]
  have e: "e \<in> set es"
    using suffix_set [OF sf] by simp
  obtain i1 where i1: "ensure_chunk sb ?k i = Inr i1" "same_cursor i i1" "synced (e # rem) i1" "at_chunk ?k i1"
    using ensure_chunk_synced [OF assms] by blast
  obtain i2 where i2: "skip_freq_norm_read_has_locs i1 = Inr (en_locs e \<noteq> [], i2)" "same_cursor i1 i2"
      "holding ?k (freq_bytes (in_chunk cs ?k rem)) (put_uvarints (locs_ints e) @ locs_bytes (in_chunk cs ?k rem)) i2"
    by (rule skip_freq_norm_holding [OF synced_holding [OF i1(3,4)] freq_63 [OF e]])
  have inc: "pi_includeLocs i2 = incLocs"
    using i2(3) by (simp add: holding_def readers_def)
  show ?thesis
  proof (cases "incLocs \<and> en_locs e \<noteq> []")
    case True
    then obtain i3 where i3: "skip_locs i2 = Inr i3" "same_cursor i2 i3"
        "holding ?k (freq_bytes (in_chunk cs ?k rem)) (locs_bytes (in_chunk cs ?k rem)) i3"
      using skip_locs_holding [OF i2(3) _ e] by blast
    have "same_cursor i i3"
      using i1(2) i2(2) i3(2) same_cursor_trans by blast
    then show ?thesis
      using i1(1) i2(1) inc True i3(1) holding_synced [OF sf i3(3)] holding_chunk [OF i3(3)] by (auto simp: curr_chunk_next_def)
  next
    case False
    then have "put_uvarints (locs_ints e) = [] \<or> \<not> incLocs"
      by (auto simp: locs_ints_def)
    then have "holding ?k (freq_bytes (in_chunk cs ?k rem)) (locs_bytes (in_chunk cs ?k rem)) i2"
      using i2(3) unfolding holding_def by auto
    from holding_synced [OF sf this] holding_chunk [OF this] show ?thesis
      using i1(1) i2(1) inc False same_cursor_trans [OF i1(2) i2(2)] by (auto simp: curr_chunk_next_def)
  qed
qed

lemma curr_chunk_nexts_synced:
  assumes "synced (zs @ rem) i" and "\<forall>z\<in>set zs. chunk_of cs z = k"
  shows "\<exists>i'. curr_chunk_nexts sb k (length zs) i = Inr i' \<and> same_cursor i i' \<and> synced rem i' \<and>
    (at_chunk k i \<longrightarrow> at_chunk k i')"
  using assms
proof (induction zs arbitrary: i)
  case (Cons z zs)
  obtain i1 where i1: "curr_chunk_next sb k i = Inr i1" "same_cursor i i1" "synced (zs @ rem) i1" "at_chunk k i1"
    using curr_chunk_next_synced [of z "zs @ rem" i] Cons.prems by auto
  then show ?case
    using Cons.IH [OF i1(3)] Cons.prems(2) same_cursor_trans [OF i1(2)] by auto
qed auto

section \<open>The searches\<close>

lemma cs32: "uint32 cs = unat cs"
  using cs_32 by (simp add: uint32_def unsigned_ucast_eq take_bit_nat_eq_self)

lemma chunk_of_div: "en_doc e div unat cs = chunk_of cs e"
  by (simp add: chunk_of_def)

text \<open>
  The documents \<open>xs\<close> in front of a document \<open>t\<close>: first those of other chunks, then those of the chunk.
\<close>

lemma split_at_chunk:
  assumes "suffix (xs @ t # rest) es"
  shows "xs = filter (\<lambda>x. chunk_of cs x \<noteq> chunk_of cs t) xs @ filter (\<lambda>x. chunk_of cs x = chunk_of cs t) xs"
proof (rule split_last_group)
  obtain pre where "es = pre @ xs @ t # rest"
    using assms by (auto simp: suffix_def)
  then have "sorted_wrt (\<lambda>x y. en_doc x < en_doc y) (xs @ [t])"
    using docs_sorted by (auto simp: sorted_wrt_append sorted_wrt_map)
  then have "sorted_wrt (\<lambda>x y. chunk_of cs x \<le> chunk_of cs y) (xs @ [t])"
    by (rule sorted_wrt_mono_rel [rotated]) (simp add: chunk_of_def div_le_mono)
  then show "sorted (map (chunk_of cs) (xs @ [t]))"
    by (simp only: sorted_map)
qed

lemma sparse_loop_none:
  "\<forall>x\<in>set (e # rem). en_doc x < unat a \<Longrightarrow>
   \<exists>c l. sparse_loop n a s (en_doc e) (map en_doc rem) = (c, l, []) \<and> l < unat a"
  by (induction rem arbitrary: e s) simp_all

lemma sparse_loop_some:
  assumes "suffix (e # rem) es" and "dropWhile (\<lambda>x. en_doc x < unat a) (e # rem) = t # rest"
  shows "sparse_loop (unat cs) a s (en_doc e) (map en_doc rem) =
    ((if chunk_of cs t = chunk_of cs e then s else 0) +
       length (filter (\<lambda>x. chunk_of cs x = chunk_of cs t) (takeWhile (\<lambda>x. en_doc x < unat a) (e # rem))),
     en_doc t, map en_doc rest)"
  using assms
proof (induction rem arbitrary: e s)
  case (Cons m rem)
  have sf: "suffix (m # rem) es"
    using Cons.prems(1) by (rule suffix_ConsD)
  have em: "chunk_of cs e \<le> chunk_of cs m"
    using docs_after(2) [OF Cons.prems(1)] by simp
  show ?case
  proof (cases "en_doc e < unat a")
    case True
    then have d: "dropWhile (\<lambda>x. en_doc x < unat a) (m # rem) = t # rest"
      using Cons.prems(2) by simp
    then have "t \<in> set (m # rem)"
      by (metis list.set_intros(1) set_dropWhileD)
    then have mt: "chunk_of cs m \<le> chunk_of cs t"
      using docs_after(2) [OF sf] by auto
    let ?s = "if chunk_of cs m \<noteq> chunk_of cs e then 0 else s + 1"
    let ?n = "length (filter (\<lambda>x. chunk_of cs x = chunk_of cs t) (takeWhile (\<lambda>x. en_doc x < unat a) (m # rem)))"
    have "sparse_loop (unat cs) a s (en_doc e) (map en_doc (m # rem)) =
        sparse_loop (unat cs) a ?s (en_doc m) (map en_doc rem)"
      using True by (simp add: chunk_of_div)
    also have "\<dots> = ((if chunk_of cs t = chunk_of cs m then ?s else 0) + ?n, en_doc t, map en_doc rest)"
      by (rule Cons.IH [OF sf d])
    also have "(if chunk_of cs t = chunk_of cs m then ?s else 0) + ?n =
        (if chunk_of cs t = chunk_of cs e then s else 0) + (if chunk_of cs e = chunk_of cs t then Suc ?n else ?n)"
      using em mt by (cases "chunk_of cs t = chunk_of cs e") auto
    finally show ?thesis
      using True by simp
  next
    case False
    then show ?thesis using Cons.prems(2) by auto
  qed
qed (simp split: if_splits)

lemma suffix_dropWhile_Cons:
  assumes "suffix rem es" and "dropWhile P rem = t # rest"
  shows "takeWhile P rem @ t # rest = rem" and "suffix (takeWhile P rem @ t # rest) es" and "suffix (t # rest) es"
proof -
  show rem: "takeWhile P rem @ t # rest = rem"
    using takeWhile_dropWhile_id [of P rem] assms(2) by simp
  show "suffix (takeWhile P rem @ t # rest) es"
    unfolding rem by (rule assms(1))
  then show "suffix (t # rest) es"
    by (rule suffix_appendD)
qed

text \<open>The documents of the chunk in front of the one that is sought are read over.\<close>

lemma skip_groups:
  assumes "synced (ys @ zs @ t # rest) i" and "\<forall>y\<in>set ys. chunk_of cs y \<noteq> chunk_of cs t"
    and "\<forall>z\<in>set zs. chunk_of cs z = chunk_of cs t"
  shows "\<exists>i'. curr_chunk_nexts sb (chunk_of cs t) (length zs) i = Inr i' \<and> same_cursor i i' \<and> synced (t # rest) i'"
proof -
  have "synced (zs @ t # rest) i"
  proof (cases zs)
    case Nil
    then show ?thesis
      using synced_drop [of ys t rest i] assms by simp
  next
    case (Cons z zs')
    then show ?thesis
      using synced_drop [of ys z "zs' @ t # rest" i] assms by simp
  qed
  then show ?thesis
    using curr_chunk_nexts_synced [of zs "t # rest" i "chunk_of cs t"] assms(3) by blast
qed

lemma skip_to:
  assumes "synced (xs @ t # rest) i"
  shows "\<exists>i'. curr_chunk_nexts sb (chunk_of cs t) (length (filter (\<lambda>x. chunk_of cs x = chunk_of cs t) xs)) i = Inr i' \<and>
    same_cursor i i' \<and> synced (t # rest) i'"
proof (rule skip_groups)
  have "xs @ t # rest = (filter (\<lambda>x. chunk_of cs x \<noteq> chunk_of cs t) xs @
      filter (\<lambda>x. chunk_of cs x = chunk_of cs t) xs) @ t # rest"
    using split_at_chunk [OF synced_suffix [OF assms]] by (rule arg_cong)
  then show "synced (filter (\<lambda>x. chunk_of cs x \<noteq> chunk_of cs t) xs @
      filter (\<lambda>x. chunk_of cs x = chunk_of cs t) xs @ t # rest) i"
    using assms by (simp only: append_assoc)
qed simp_all

lemma clean_sparse:
  assumes "synced (e # rem) i" and "pl_chunkSize (pi_postings i) = cs"
  shows "case dropWhile (\<lambda>x. en_doc x < unat a) (e # rem) of
      [] \<Rightarrow> next_doc_num_clean_sparse sb a (en_doc e) (map en_doc rem) i = Inr (None, i\<lparr>pi_Actual := Some []\<rparr>)
    | t # rest \<Rightarrow> \<exists>i'. next_doc_num_clean_sparse sb a (en_doc e) (map en_doc rem) i = Inr (Some (en_doc t), i') \<and>
        same_cursor (i\<lparr>pi_Actual := Some (map en_doc rest)\<rparr>) i' \<and> synced (t # rest) i' \<and> at_chunk (chunk_of cs t) i'"
proof (cases "dropWhile (\<lambda>x. en_doc x < unat a) (e # rem)")
  case Nil
  then have "\<forall>x\<in>set (e # rem). en_doc x < unat a"
    unfolding dropWhile_eq_Nil_conv .
  then obtain c l where "sparse_loop (unat cs) a 0 (en_doc e) (map en_doc rem) = (c, l, [])" "l < unat a"
    using sparse_loop_none by blast
  then show ?thesis
    using Nil assms(2) by (simp add: next_doc_num_clean_sparse_def chunk_size32_def cs32)
next
  case (Cons t rest)
  let ?xs = "takeWhile (\<lambda>x. en_doc x < unat a) (e # rem)"
  let ?n = "length (filter (\<lambda>x. chunk_of cs x = chunk_of cs t) ?xs)" and ?i = "i\<lparr>pi_Actual := Some (map en_doc rest)\<rparr>"
  note sf = suffix_dropWhile_Cons [OF synced_suffix [OF assms(1)] Cons]
  have loop: "sparse_loop (unat cs) a 0 (en_doc e) (map en_doc rem) = (?n, en_doc t, map en_doc rest)"
    using sparse_loop_some [OF synced_suffix [OF assms(1)] Cons, of 0] by simp
  have t: "\<not> en_doc t < unat a"
    using hd_dropWhile [of "\<lambda>x. en_doc x < unat a" "e # rem"] unfolding Cons by simp
  have s: "synced (?xs @ t # rest) ?i"
    unfolding sf(1) synced_other_fields by (rule assms(1))
  obtain i1 where i1: "curr_chunk_nexts sb (chunk_of cs t) ?n ?i = Inr i1" "same_cursor ?i i1" "synced (t # rest) i1"
    using skip_to [OF s] by blast
  obtain i2 where i2: "ensure_chunk sb (chunk_of cs t) i1 = Inr i2" "same_cursor i1 i2" "synced (t # rest) i2"
      "at_chunk (chunk_of cs t) i2"
    using ensure_chunk_synced [OF i1(3)] by blast
  have "next_doc_num_clean_sparse sb a (en_doc e) (map en_doc rem) i = Inr (Some (en_doc t), i2)"
    using loop t i1(1) i2(1) assms(2)
    by (simp add: next_doc_num_clean_sparse_def chunk_size32_def cs32 chunk_of_div Let_def del: takeWhile.simps)
  then show ?thesis
    using Cons i2 same_cursor_trans [OF i1(2) i2(2)] by auto
qed

lemma rank_below:
  "(if 0 < n then rank (map en_doc xs) (n - 1) else 0) = length (filter (\<lambda>e. en_doc e < n) xs)"
proof (cases n)
  case 0
  then show ?thesis by simp
next
  case (Suc m)
  have "length (filter (\<lambda>n. n \<le> m) (map en_doc xs)) = length (filter (\<lambda>e. en_doc e \<le> m) xs)"
    by (induction xs) simp_all
  then show ?thesis
    by (simp add: rank_def Suc less_Suc_eq_le)
qed

lemma before_target:
  assumes "es = xs @ t # rest"
  shows "(if 0 < en_doc t then rank (map en_doc es) (en_doc t - 1) else 0) -
      (if 0 < chunk_of cs t * unat cs then rank (map en_doc es) (chunk_of cs t * unat cs - 1) else 0) =
    length (filter (\<lambda>x. chunk_of cs x = chunk_of cs t) xs)"
proof -
  have sf: "suffix (xs @ t # rest) es"
    using assms by simp
  have st: "suffix (t # rest) es"
    using sf by (rule suffix_appendD)
  have "filter (\<lambda>e. en_doc e < en_doc t) rest = []"
    using docs_after(1) [OF st] by (fastforce simp: filter_empty_conv)
  then have n: "filter (\<lambda>e. en_doc e < en_doc t) es = xs"
    using docs_before(1) [OF sf] by (simp add: assms filter_id_conv)
  have lt: "en_doc e < chunk_of cs t * unat cs \<longleftrightarrow> chunk_of cs e < chunk_of cs t" for e
    using cs_pos by (simp add: chunk_of_def div_less_iff_less_mult)
  have "filter (\<lambda>e. chunk_of cs e < chunk_of cs t) rest = []"
    using docs_after(2) [OF st] by (fastforce simp: filter_empty_conv)
  moreover have "chunk_of cs e < chunk_of cs t \<longleftrightarrow> chunk_of cs e \<noteq> chunk_of cs t" if "e \<in> set xs" for e
    using docs_before(2) [OF sf that] by auto
  then have "filter (\<lambda>e. chunk_of cs e < chunk_of cs t) xs = filter (\<lambda>e. chunk_of cs e \<noteq> chunk_of cs t) xs"
    by (rule filter_cong [OF refl])
  ultimately have c: "filter (\<lambda>e. en_doc e < chunk_of cs t * unat cs) es = filter (\<lambda>e. chunk_of cs e \<noteq> chunk_of cs t) xs"
    by (simp add: assms lt)
  show ?thesis
    unfolding rank_below n c
    using sum_length_filter_compl [of "\<lambda>x. chunk_of cs x = chunk_of cs t" xs] by simp
qed

lemma clean_dense:
  assumes "readers i" and "suffix (t # rest) es"
  shows "\<exists>i1 i'. iterator_load_chunk sb (chunk_of cs t) i = Inr i1 \<and>
    curr_chunk_nexts sb (chunk_of cs t)
      ((if 0 < en_doc t then rank (map en_doc es) (en_doc t - 1) else 0) -
       (if 0 < chunk_of cs t * unat cs then rank (map en_doc es) (chunk_of cs t * unat cs - 1) else 0)) i1 = Inr i' \<and>
    same_cursor i i' \<and> synced (t # rest) i' \<and> at_chunk (chunk_of cs t) i'"
proof -
  obtain xs where es: "es = xs @ t # rest"
    using assms(2) by (auto simp: suffix_def)
  let ?ys = "filter (\<lambda>x. chunk_of cs x \<noteq> chunk_of cs t) xs" and ?zs = "filter (\<lambda>x. chunk_of cs x = chunk_of cs t) xs"
  have sf: "suffix (xs @ t # rest) es"
    using es by simp
  have xs: "xs = ?ys @ ?zs"
    by (rule split_at_chunk [OF sf])
  have "suffix (?ys @ ?zs @ t # rest) es"
    using sf xs by (metis append_assoc)
  then have sz: "suffix (?zs @ t # rest) es"
    by (rule suffix_appendD)
  have "in_chunk cs (chunk_of cs t) (?zs @ t # rest) = in_chunk cs (chunk_of cs t) es"
    by (simp add: in_chunk_def es)
  then obtain i1 where i1: "iterator_load_chunk sb (chunk_of cs t) i = Inr i1" "same_cursor i i1" "synced (?zs @ t # rest) i1"
      "at_chunk (chunk_of cs t) i1"
    using load_synced [OF assms(1) sz] by auto
  obtain i2 where "curr_chunk_nexts sb (chunk_of cs t) (length ?zs) i1 = Inr i2" "same_cursor i1 i2" "synced (t # rest) i2"
      "at_chunk (chunk_of cs t) i2"
    using curr_chunk_nexts_synced [OF i1(3), of "chunk_of cs t"] i1(4) by auto
  then show ?thesis
    unfolding before_target [OF es] using i1 same_cursor_trans by blast
qed

text \<open>The iterator over all postings catches up with the one over those that are not excepted.\<close>

lemma catch_up_below:
  assumes "\<forall>y\<in>set (y # ys). chunk_of cs y < chunk_of cs t"
  shows "catch_up sb (unat cs) (en_doc t) (en_doc y) (map en_doc (ys @ z # rem)) i =
    catch_up sb (unat cs) (en_doc t) (en_doc z) (map en_doc rem) i"
proof -
  have lt: "\<not> chunk_of cs t * unat cs \<le> en_doc e" "en_doc e \<noteq> en_doc t" if "chunk_of cs e < chunk_of cs t" for e
  proof -
    show "\<not> chunk_of cs t * unat cs \<le> en_doc e"
      using that cs_pos by (simp add: chunk_of_def div_less_iff_less_mult)
    show "en_doc e \<noteq> en_doc t"
      using that by (auto simp: chunk_of_def)
  qed
  show ?thesis
    using assms
  proof (induction ys arbitrary: y)
    case Nil
    then show ?case using lt by (simp add: chunk_of_div)
  next
    case (Cons y' ys)
    then show ?case using lt Cons.IH [of y'] by (simp add: chunk_of_div)
  qed
qed

lemma catch_up_chunk:
  assumes "synced (zs @ t # rest) i" and "\<forall>z\<in>set zs. chunk_of cs z = chunk_of cs t"
  shows "\<exists>i'. catch_up sb (unat cs) (en_doc t) (en_doc (hd (zs @ t # rest))) (map en_doc (tl (zs @ t # rest))) i =
      Inr (Some (map en_doc rest), i') \<and> same_cursor i i' \<and> synced (t # rest) i'"
  using assms
proof (induction zs arbitrary: i)
  case Nil
  then show ?case by (cases rest) auto
next
  case (Cons z zs)
  have ne: "en_doc z \<noteq> en_doc t"
    using docs_before(1) [of "z # zs" t rest z] synced_suffix [OF Cons.prems(1)] by simp
  have ge: "chunk_of cs t * unat cs \<le> en_doc z"
    using Cons.prems(2) by (simp add: chunk_of_def) (metis div_times_less_eq_dividend)
  have inc: "pi_includeFreqNorm i"
    using synced_readers [OF Cons.prems(1)] by (simp add: readers_def)
  obtain i1 where i1: "curr_chunk_next sb (chunk_of cs t) i = Inr i1" "same_cursor i i1" "synced (zs @ t # rest) i1"
    using curr_chunk_next_synced [of z "zs @ t # rest" i] Cons.prems by auto
  obtain m ms where m: "zs @ t # rest = m # ms"
    by (cases zs) auto
  show ?case
    using Cons.IH [OF i1(3)] Cons.prems(2) i1(1) ne ge inc same_cursor_trans [OF i1(2)] m
    by (auto simp: chunk_of_div)
qed

lemma catch_up_to:
  assumes "synced (xs @ t # rest) i"
  shows "\<exists>i'. catch_up sb (unat cs) (en_doc t) (en_doc (hd (xs @ t # rest))) (map en_doc (tl (xs @ t # rest))) i =
      Inr (Some (map en_doc rest), i') \<and> same_cursor i i' \<and> synced (t # rest) i'"
proof -
  obtain ys zs where xs: "xs = ys @ zs" and ys: "\<forall>y\<in>set ys. chunk_of cs y \<noteq> chunk_of cs t"
      and zs: "\<forall>z\<in>set zs. chunk_of cs z = chunk_of cs t"
    by (rule that [OF split_at_chunk [OF synced_suffix [OF assms]]]) simp_all
  obtain z rem where z: "zs @ t # rest = z # rem" "chunk_of cs z = chunk_of cs t"
    using zs by (cases zs) auto
  have s: "synced (z # rem) i"
    using synced_drop [of ys z rem i] assms ys xs z by simp
  have c: "\<exists>i'. catch_up sb (unat cs) (en_doc t) (en_doc z) (map en_doc rem) i =
      Inr (Some (map en_doc rest), i') \<and> same_cursor i i' \<and> synced (t # rest) i'"
    using catch_up_chunk [of zs t rest i] s zs z(1) by simp
  show ?thesis
  proof (cases ys)
    case Nil
    then show ?thesis using c xs z(1) by simp
  next
    case (Cons y ys')
    have "\<forall>y\<in>set (y # ys'). chunk_of cs y < chunk_of cs t"
      using docs_before(2) [OF synced_suffix [OF assms]] ys xs Cons by fastforce
    from catch_up_below [OF this, of z rem i] show ?thesis
      using c xs z(1) Cons by simp
  qed
qed

section \<open>The iterator as a cursor\<close>

definition base :: "nat list option \<Rightarrow> postings_iterator \<Rightarrow> bool" where
  "base exc i \<longleftrightarrow> pi_clean i = (exc = None) \<and> pl_postings (pi_postings i) = Some (map en_doc es) \<and>
     pl_chunkSize (pi_postings i) = cs \<and> pi_normBits1Hit i = 0"

text \<open>The iterator stands in front of \<open>rem\<close>; a document was found and \<open>rest\<close> is left.\<close>

definition cursor :: "nat list option \<Rightarrow> entry list \<Rightarrow> postings_iterator \<Rightarrow> bool" where
  "cursor exc rem i \<longleftrightarrow> base exc i \<and> pi_Actual i = Some (map en_doc (live exc rem)) \<and>
     (live exc rem \<noteq> [] \<longrightarrow> synced rem i \<and> (exc \<noteq> None \<longrightarrow> pi_all i = map en_doc rem))"

definition found :: "nat list option \<Rightarrow> entry \<Rightarrow> entry list \<Rightarrow> postings_iterator \<Rightarrow> bool" where
  "found exc t rest i \<longleftrightarrow> base exc i \<and> pi_Actual i = Some (map en_doc (live exc rest)) \<and> synced (t # rest) i \<and>
     at_chunk (chunk_of cs t) i \<and> (exc \<noteq> None \<longrightarrow> pi_all i = map en_doc rest)"

lemma base_same: "same_cursor i i' \<Longrightarrow> base exc i \<Longrightarrow> base exc i'"
  using same_cursor_fields by (simp add: base_def)

lemma base_other [simp]:
  "base exc (i\<lparr>pi_Actual := x\<rparr>) = base exc i" "base exc (i\<lparr>pi_all := y\<rparr>) = base exc i"
  by (simp_all add: base_def)

lemma cursor_Nil: "cursor exc [] i \<longleftrightarrow> base exc i \<and> pi_Actual i = Some []"
  by (simp add: cursor_def live_def)

lemma found_ensure:
  assumes "base exc i" and "synced (t # rest) i" and "pi_Actual i = Some (map en_doc (live exc rest))"
    and "exc \<noteq> None \<longrightarrow> pi_all i = map en_doc rest"
  shows "\<exists>i'. ensure_chunk sb (chunk_of cs t) i = Inr i' \<and> found exc t rest i'"
proof -
  obtain i' where i': "ensure_chunk sb (chunk_of cs t) i = Inr i'" "same_cursor i i'" "synced (t # rest) i'"
      "at_chunk (chunk_of cs t) i'"
    using ensure_chunk_synced [OF assms(2)] by blast
  then show ?thesis
    using assms base_same same_cursor_fields [OF i'(2)] by (auto simp: found_def)
qed

lemma next_doc_clean:
  assumes "base None i" and "synced rem i" and "pi_Actual i = Some (map en_doc rem)" and "rem \<noteq> []" and "unat a < 2 ^ 32"
  shows "case seek None a rem of
      [] \<Rightarrow> \<exists>i'. next_doc_num_clean sb a i = Inr (None, i') \<and> cursor None [] i'
    | t # rest \<Rightarrow> \<exists>i'. next_doc_num_clean sb a i = Inr (Some (en_doc t), i') \<and> found None t rest i'"
proof -
  obtain e rem' where rem: "rem = e # rem'"
    using assms(4) by (cases rem) auto
  have inc: "pi_includeFreqNorm i"
    using synced_readers [OF assms(2)] by (simp add: readers_def)
  have p: "pl_postings (pi_postings i) = Some (map en_doc es)" "pl_chunkSize (pi_postings i) = cs"
    using assms(1) by (simp_all add: base_def)
  have cs: "cs \<noteq> 0" "chunk_size32 i = unat cs" "chunk_size32 i \<noteq> 0"
    using cs_pos p cs32 by (auto simp: chunk_size32_def)
  have seek: "seek None a rem = dropWhile (\<lambda>x. en_doc x < unat a) rem"
    by (simp add: seek_def)
  consider (zero) "a = 0" | (sparse) "a \<noteq> 0" "of_nat (length es) * 2 < sb_numDocs sb"
    | (dense) "a \<noteq> 0" "\<not> of_nat (length es) * 2 < sb_numDocs sb"
    by blast
  then show ?thesis
  proof cases
    case zero
    have "\<exists>i'. ensure_chunk sb (chunk_of cs e) (i\<lparr>pi_Actual := Some (map en_doc rem')\<rparr>) = Inr i' \<and> found None e rem' i'"
      by (rule found_ensure) (use assms rem in simp_all)
    then obtain i' where i': "ensure_chunk sb (chunk_of cs e) (i\<lparr>pi_Actual := Some (map en_doc rem')\<rparr>) = Inr i'"
        "found None e rem' i'"
      by blast
    have "next_doc_num_clean sb a i = Inr (Some (en_doc e), i')"
      using zero inc p cs assms(3) rem i'(1) by (simp add: next_doc_num_clean_def chunk_of_div)
    moreover have "seek None a rem = e # rem'"
      unfolding seek_def zero rem by simp
    ultimately show ?thesis
      using i'(2) by auto
  next
    case sparse
    have run: "next_doc_num_clean sb a i = next_doc_num_clean_sparse sb a (en_doc e) (map en_doc rem') i"
      using sparse inc p cs assms(3) rem by (simp add: next_doc_num_clean_def)
    show ?thesis
    proof (cases "seek None a rem")
      case Nil
      then have d: "dropWhile (\<lambda>x. en_doc x < unat a) (e # rem') = []"
        unfolding seek_def rem by simp
      have "next_doc_num_clean_sparse sb a (en_doc e) (map en_doc rem') i = Inr (None, i\<lparr>pi_Actual := Some []\<rparr>)"
        using clean_sparse [of e rem' i a] assms(2) p(2) unfolding rem d list.case by blast
      then show ?thesis
        using Nil assms(1) run by (simp add: cursor_Nil)
    next
      case (Cons t rest)
      let ?i = "i\<lparr>pi_Actual := Some (map en_doc rest)\<rparr>"
      have d: "dropWhile (\<lambda>x. en_doc x < unat a) (e # rem') = t # rest"
        using Cons unfolding seek_def rem by simp
      obtain i' where i': "next_doc_num_clean_sparse sb a (en_doc e) (map en_doc rem') i = Inr (Some (en_doc t), i')"
          "same_cursor ?i i'" "synced (t # rest) i'" "at_chunk (chunk_of cs t) i'"
        using clean_sparse [of e rem' i a] assms(2) p(2) unfolding rem d list.case by blast
      have "base None i'"
        by (rule base_same [OF i'(2)]) (use assms(1) in simp)
      then have "found None t rest i'"
        using i' same_cursor_fields [OF i'(2)] by (simp add: found_def)
      then show ?thesis
        using Cons run i'(1) by auto
    qed
  next
    case dense
    have adv: "advance_if_needed (uint32 a) (map en_doc rem) = map en_doc (seek None a rem)"
      using advance_live [of a None rem] uint32_small [OF assms(5)] by simp
    show ?thesis
    proof (cases "seek None a rem")
      case Nil
      then have "next_doc_num_clean sb a i = Inr (None, i\<lparr>pi_Actual := Some []\<rparr>)"
        using dense inc p cs assms(3) adv rem by (simp add: next_doc_num_clean_def Let_def)
      then show ?thesis
        using Nil assms(1) by (simp add: cursor_Nil)
    next
      case (Cons t rest)
      let ?i = "i\<lparr>pi_Actual := Some (map en_doc rest)\<rparr>"
      have sf: "suffix (t # rest) es"
        using suffix_dropWhile_Cons(3) [OF synced_suffix [OF assms(2)]] Cons unfolding seek by blast
      have rd: "readers ?i"
        using synced_readers [OF assms(2)] by simp
      obtain i1 i' where i': "iterator_load_chunk sb (chunk_of cs t) ?i = Inr i1"
          "curr_chunk_nexts sb (chunk_of cs t)
            ((if 0 < en_doc t then rank (map en_doc es) (en_doc t - 1) else 0) -
             (if 0 < chunk_of cs t * unat cs then rank (map en_doc es) (chunk_of cs t * unat cs - 1) else 0)) i1 = Inr i'"
          "same_cursor ?i i'" "synced (t # rest) i'" "at_chunk (chunk_of cs t) i'"
        using clean_dense [OF rd sf] by blast
      have "next_doc_num_clean sb a i = Inr (Some (en_doc t), i')"
        using dense inc p cs assms(3) adv Cons i'(1,2) by (simp add: next_doc_num_clean_def Let_def chunk_of_div)
      moreover have "base None i'"
        by (rule base_same [OF i'(3)]) (use assms(1) in simp)
      then have "found None t rest i'"
        using i' same_cursor_fields [OF i'(3)] by (simp add: found_def)
      ultimately show ?thesis
        using Cons by auto
    qed
  qed
qed

lemma next_doc_dirty:
  assumes "base exc i" and "exc \<noteq> None" and "synced rem i" and "pi_Actual i = Some (map en_doc (live exc rem))"
    and "pi_all i = map en_doc rem" and "unat a < 2 ^ 32"
  shows "case seek exc a rem of
      [] \<Rightarrow> \<exists>i'. next_doc_num_dirty sb a i = Inr (None, i') \<and> cursor exc [] i'
    | t # rest \<Rightarrow> \<exists>i'. next_doc_num_dirty sb a i = Inr (Some (en_doc t), i') \<and> found exc t rest i'"
proof -
  have p: "pl_chunkSize (pi_postings i) = cs"
    using assms(1) by (simp add: base_def)
  have cs: "cs \<noteq> 0" "chunk_size32 i = unat cs" "0 < unat cs"
    using cs_pos p cs32 by (auto simp: chunk_size32_def)
  have adv: "advance_if_needed (uint32 a) (map en_doc (live exc rem)) = map en_doc (live exc (seek exc a rem))"
    using advance_live uint32_small [OF assms(6)] by simp
  show ?thesis
  proof (cases "seek exc a rem")
    case Nil
    then have "next_doc_num_dirty sb a i = Inr (None, i\<lparr>pi_Actual := Some []\<rparr>)"
      using p cs assms(4) adv by (simp add: next_doc_num_dirty_def live_def)
    then show ?thesis
      using Nil assms(1) by (simp add: cursor_Nil)
  next
    case (Cons t rest)
    let ?xs = "takeWhile (\<lambda>e. en_doc e < unat a \<or> excepted exc (en_doc e)) rem"
    let ?i = "i\<lparr>pi_Actual := Some (map en_doc (live exc rest))\<rparr>"
    have xs: "?xs @ t # rest = rem"
      using suffix_dropWhile_Cons(1) [OF synced_suffix [OF assms(3)]] Cons unfolding seek_def by blast
    obtain e rem' where rem: "rem = e # rem'"
      using xs by (cases rem) auto
    have s: "synced (?xs @ t # rest) ?i"
      unfolding xs synced_other_fields by (rule assms(3))
    obtain i1 where i1: "catch_up sb (unat cs) (en_doc t) (en_doc e) (map en_doc rem') ?i = Inr (Some (map en_doc rest), i1)"
        "same_cursor ?i i1" "synced (t # rest) i1"
      using catch_up_to [OF s, unfolded xs, unfolded rem list.sel] by blast
    let ?i1 = "i1\<lparr>pi_all := map en_doc rest\<rparr>"
    have inc: "pi_includeFreqNorm i1"
      using synced_readers [OF i1(3)] by (simp add: readers_def)
    have cs1: "chunk_size32 i1 = unat cs"
      using same_cursor_fields [OF i1(2)] cs(2) by (simp add: chunk_size32_def)
    have "base exc i1"
      by (rule base_same [OF i1(2)]) (use assms(1) in simp)
    then obtain i2 where i2: "ensure_chunk sb (chunk_of cs t) ?i1 = Inr i2" "found exc t rest i2"
      using found_ensure [of exc ?i1 t rest] i1(3) same_cursor_fields [OF i1(2)] by auto
    have "next_doc_num_dirty sb a i = Inr (Some (en_doc t), i2)"
      using p cs assms(4,5) adv Cons seek_Cons [OF Cons] rem i1(1) inc cs1 i2(1)
      by (simp add: next_doc_num_dirty_def Let_def chunk_of_div chunk_size32_def)
    then show ?thesis
      using Cons i2(2) by auto
  qed
qed

lemma found_posting:
  assumes "found exc t rest i" and "next_doc_num_at_or_after sb a i0 = Inr (Some (of_nat (en_doc t)), i)"
  shows "\<exists>i'. next_at_or_after sb a i0 = Inr (Some (posting_of (sb_fieldsInv sb) incLocs t), i') \<and> cursor exc rest i'"
proof -
  have s: "synced (t # rest) i" "at_chunk (chunk_of cs t) i"
    using assms(1) by (simp_all add: found_def)
  have t: "t \<in> set es"
    using suffix_set [OF synced_suffix [OF s(1)]] by simp
  obtain i' where i': "next_at_or_after sb a i0 = Inr (Some (posting_of (sb_fieldsInv sb) incLocs t), i')"
      "same_cursor i i'" "holding (chunk_of cs t) (freq_bytes (in_chunk cs (chunk_of cs t) rest))
        (locs_bytes (in_chunk cs (chunk_of cs t) rest)) i'"
    using read_posting [OF synced_holding [OF s] t assms(2)] by blast
  have "cursor exc rest i'"
    using assms(1) holding_synced [OF synced_suffix [OF s(1)] i'(3)] base_same [OF i'(2)] same_cursor_fields [OF i'(2)]
    by (simp add: cursor_def found_def)
  then show ?thesis
    using i'(1) by blast
qed

lemma cursor_step:
  assumes "cursor exc rem i" and "unat a < 2 ^ 32"
  shows "case seek exc a rem of
      [] \<Rightarrow> \<exists>i'. next_at_or_after sb a i = Inr (None, i') \<and> cursor exc [] i'
    | t # rest \<Rightarrow> \<exists>i'. next_at_or_after sb a i = Inr (Some (posting_of (sb_fieldsInv sb) incLocs t), i') \<and>
        cursor exc rest i'"
proof -
  have b: "base exc i" "pi_normBits1Hit i = 0" and ac: "pi_Actual i = Some (map en_doc (live exc rem))"
    and cl: "pi_clean i = (exc = None)"
    using assms(1) by (simp_all add: cursor_def base_def)
  show ?thesis
  proof (cases "live exc rem")
    case Nil
    then have "seek exc a rem = []"
      by (auto simp: live_def seek_def filter_empty_conv)
    moreover have "next_at_or_after sb a i = Inr (None, i)"
      using b(2) ac Nil by (simp add: next_at_or_after_def next_doc_num_at_or_after_def)
    moreover have "cursor exc [] i"
      using b(1) ac Nil by (simp add: cursor_Nil)
    ultimately show ?thesis by auto
  next
    case (Cons l ls)
    then have s: "synced rem i" "exc \<noteq> None \<longrightarrow> pi_all i = map en_doc rem" and ne: "rem \<noteq> []"
      using assms(1) by (auto simp: cursor_def live_def)
    let ?next = "if exc = None then next_doc_num_clean sb a i else next_doc_num_dirty sb a i"
    have n: "case seek exc a rem of
        [] \<Rightarrow> \<exists>i'. ?next = Inr (None, i') \<and> cursor exc [] i'
      | t # rest \<Rightarrow> \<exists>i'. ?next = Inr (Some (en_doc t), i') \<and> found exc t rest i'"
    proof (cases "exc = None")
      case True
      show ?thesis
        using next_doc_clean [of i rem a] b(1) s(1) ac ne assms(2) unfolding True by simp
    next
      case False
      show ?thesis
        using False next_doc_dirty [OF b(1) False s(1) ac _ assms(2)] s(2) unfolding if_not_P [OF False] by blast
    qed
    have run: "next_doc_num_at_or_after sb a i = bind_result ?next (\<lambda>(n, i). Inr (map_option of_nat n, i))"
      using b(2) ac Cons cl by (simp add: next_doc_num_at_or_after_def)
    show ?thesis
    proof (cases "seek exc a rem")
      case Nil
      then obtain i' where "?next = Inr (None, i')" "cursor exc [] i'"
        using n by auto
      then show ?thesis
        using Nil run by (auto simp: next_at_or_after_def)
    next
      case (Cons t rest)
      then obtain i' where i': "?next = Inr (Some (en_doc t), i')" "found exc t rest i'"
        using n by auto
      then have "next_doc_num_at_or_after sb a i = Inr (Some (of_nat (en_doc t)), i')"
        unfolding run i'(1) by simp
      then show ?thesis
        using Cons found_posting [OF i'(2)] by simp
    qed
  qed
qed

lemma read_all_cursor:
  assumes "cursor exc rem i" and "\<forall>a. Some a \<in> set ms \<longrightarrow> unat a < 2 ^ 32"
  shows "read_all sb ms i = Inr (map (map_option (posting_of (sb_fieldsInv sb) incLocs)) (picks exc ms rem))"
  using assms
proof (induction ms arbitrary: rem i)
  case (Cons m ms)
  let ?a = "case m of None \<Rightarrow> 0 | Some a \<Rightarrow> a"
  have a: "unat ?a < 2 ^ 32"
    using Cons.prems(2) by (cases m) auto
  have run: "(case m of None \<Rightarrow> iterator_next sb i | Some a \<Rightarrow> iterator_advance sb a i) = next_at_or_after sb ?a i"
    by (simp add: iterator_next_def iterator_advance_def split: option.split)
  have ms: "\<forall>a. Some a \<in> set ms \<longrightarrow> unat a < 2 ^ 32"
    using Cons.prems(2) by simp
  show ?case
  proof (cases "seek exc ?a rem")
    case Nil
    obtain i' where "next_at_or_after sb ?a i = Inr (None, i')" "cursor exc [] i'"
      using cursor_step [OF Cons.prems(1) a] unfolding Nil list.case by blast
    then show ?thesis
      using Cons.IH [OF _ ms] by (simp add: run Nil)
  next
    case (Cons t rest)
    obtain i' where "next_at_or_after sb ?a i = Inr (Some (posting_of (sb_fieldsInv sb) incLocs t), i')" "cursor exc rest i'"
      using cursor_step [OF Cons.prems(1) a] unfolding Cons list.case by blast
    then show ?thesis
      using Cons.IH [OF _ ms] by (simp add: run Cons)
  qed
qed simp

text \<open>A fresh iterator stands in front of all postings.\<close>

lemma fresh_cursor:
  assumes "base exc i" and "readers i" and "\<forall>k. \<not> at_chunk k i" and "pi_all i = map en_doc es"
    and "pi_Actual i = Some (filter (\<lambda>n. \<not> excepted exc n) (map en_doc es))"
  shows "cursor exc es i"
  using assms by (simp add: cursor_def synced_def live_def filter_map comp_def)

end

end
