(* ===== verification/Zap_Postings_Round.thy ===== *)
theory Zap_Postings_Round
  imports Zap_Postings_Read
begin

text \<open>
  Writing the postings of a term and reading them again. What the writer leaves in the file makes a
  term that the lemmas of \<open>Zap_Postings_Read\<close> are about; the type of all such terms interprets their
  locale.
\<close>

section \<open>Terms that can be read\<close>

definition readable :: "segment_base \<Rightarrow> u64 \<Rightarrow> entry list \<Rightarrow> stream \<Rightarrow> stream \<Rightarrow> bool \<Rightarrow> bool" where
  "readable sb cs es FS LS incLocs \<longleftrightarrow>
     sorted_wrt (<) (map en_doc es) \<and> 0 < unat cs \<and> unat cs < 2 ^ 32 \<and> (\<forall>e\<in>set es. en_freq e < 2 ^ 63) \<and>
     serves sb (chunk_of cs ` set es) (\<lambda>k. freq_bytes (in_chunk cs k es)) FS \<and>
     (incLocs \<longrightarrow> serves sb (chunk_of cs ` set es) (\<lambda>k. locs_bytes (in_chunk cs k es)) LS \<and>
       (\<forall>e\<in>set es. sum_list (map loc_size (en_locs e)) < 2 ^ 63 \<and>
         (\<forall>l\<in>set (en_locs e). unat (il_fieldID l) < length (sb_fieldsInv sb) \<and> length (il_arrayposs l) < 2 ^ 63)))"

typedef readable_term = "{(sb, cs, es, FS, LS, incLocs). readable sb cs es FS LS incLocs}"
proof -
  have "readable sb 1 [] FS LS False" for sb FS LS
    by (simp add: readable_def serves_def)
  then show ?thesis by blast
qed

definition rt_sb :: "readable_term \<Rightarrow> segment_base" where "rt_sb t = fst (Rep_readable_term t)"
definition rt_cs :: "readable_term \<Rightarrow> u64" where "rt_cs t = fst (snd (Rep_readable_term t))"
definition rt_es :: "readable_term \<Rightarrow> entry list" where "rt_es t = fst (snd (snd (Rep_readable_term t)))"
definition rt_FS :: "readable_term \<Rightarrow> stream" where "rt_FS t = fst (snd (snd (snd (Rep_readable_term t))))"
definition rt_LS :: "readable_term \<Rightarrow> stream" where "rt_LS t = fst (snd (snd (snd (snd (Rep_readable_term t)))))"
definition rt_incLocs :: "readable_term \<Rightarrow> bool" where "rt_incLocs t = snd (snd (snd (snd (snd (Rep_readable_term t)))))"

lemma rt_readable: "readable (rt_sb t) (rt_cs t) (rt_es t) (rt_FS t) (rt_LS t) (rt_incLocs t)"
  using Rep_readable_term [of t]
  by (simp add: rt_sb_def rt_cs_def rt_es_def rt_FS_def rt_LS_def rt_incLocs_def split_def)

lemma rt_exists:
  assumes "readable sb cs es FS LS incLocs"
  obtains t where "rt_sb t = sb" and "rt_cs t = cs" and "rt_es t = es" and "rt_FS t = FS" and "rt_LS t = LS"
    and "rt_incLocs t = incLocs"
proof -
  have "Rep_readable_term (Abs_readable_term (sb, cs, es, FS, LS, incLocs)) = (sb, cs, es, FS, LS, incLocs)"
    by (rule Abs_readable_term_inverse) (use assms in simp)
  then show ?thesis
    by (intro that [of "Abs_readable_term (sb, cs, es, FS, LS, incLocs)"])
      (simp_all add: rt_sb_def rt_cs_def rt_es_def rt_FS_def rt_LS_def rt_incLocs_def)
qed

interpretation rt: term_postings "rt_sb t" "rt_cs t" "rt_es t" "rt_FS t" "rt_LS t" "rt_incLocs t" for t
  using rt_readable [of t] by unfold_locales (auto simp: readable_def)

section \<open>What the writer leaves is such a term\<close>

lemma sorted_below: "sorted_wrt (<) ns \<Longrightarrow> \<forall>n\<in>set ns. n < m \<Longrightarrow> length ns \<le> m" for ns :: "nat list"
proof (induction ns arbitrary: m rule: rev_induct)
  case (snoc n ns)
  then have "length ns \<le> n"
    by (simp add: sorted_wrt_append)
  then show ?case using snoc.prems(2) by simp
qed simp

lemma chunk_size_32:
  assumes "get_chunk_size mode cardinality numDocs = Inr cs" and "unat numDocs < 2 ^ 32"
  shows "unat cs < 2 ^ 32"
proof -
  have d: "unat numDocs div x < 2 ^ 32" for x
    using assms(2) by (meson div_le_dividend le_less_trans)
  have m: "unat mode < 2 ^ 32" for mode :: "32 word"
    by (rule less_le_trans [OF unsigned_less]) simp
  show ?thesis
    using assms d m [of mode] by (auto simp: get_chunk_size_def Let_def unat_mode unat_div split: if_splits)
qed

lemma locs_bytes_le: "e \<in> set es \<Longrightarrow> length (put_uvarints (locs_ints e)) \<le> length (locs_bytes es)"
  by (induction es) auto

lemma sum_locs_le: "sum_list (map loc_size (en_locs e)) \<le> length (put_uvarints (locs_ints e))"
  by (cases "en_locs e = []") (simp_all add: sum_loc_size locs_ints_def)

lemma loc_size_le: "l \<in> set ls \<Longrightarrow> loc_size l \<le> sum_list (map loc_size ls)"
  by (induction ls) auto

lemma length_le_put_uvarints: "length vs \<le> length (put_uvarints vs)"
proof (induction vs)
  case (Cons v vs)
  then show ?case
    using num_uvarint_bytes_pos [of v] by (simp add: length_put_uvarint)
qed simp

lemma arrayposs_le: "length (il_arrayposs l) \<le> loc_size l"
  using length_le_put_uvarints [of "loc_ints l"] by (simp add: loc_size_length) (simp add: loc_ints_def)

text \<open>Where locations are to be read, every chunk that has documents has some, or none has.\<close>

definition locs_uniform :: "u64 \<Rightarrow> entry list \<Rightarrow> bool" where
  "locs_uniform cs es \<longleftrightarrow> (\<forall>e\<in>set es. en_locs e = []) \<or>
     (\<forall>e\<in>set es. \<exists>e'\<in>set es. chunk_of cs e' = chunk_of cs e \<and> en_locs e' \<noteq> [])"

lemma entry_chunks:
  assumes "entries_ok numDocs es" and "0 < cs" and "e \<in> set es"
  shows "en_doc e < 2 ^ 64" and "chunk_of cs e < num_chunks cs numDocs"
proof -
  have lt: "en_doc e < unat numDocs"
    using assms(1,3) by (simp add: entries_ok_def)
  then show d: "en_doc e < 2 ^ 64"
    using unat_lt_64 [of numDocs] by simp
  show "chunk_of cs e < num_chunks cs numDocs"
    using doc_chunk_lt [OF lt assms(2)] unfolding unat_doc_div [OF d] chunk_of_def .
qed

lemma freq_served:
  assumes "decoder_on (freq_chunks encode pr cs numDocs es) d" and "entries_ok numDocs es" and "0 < cs"
    and "\<And>b. sb_decode sb (encode b) = Some b"
    and "\<And>b. reader_process (sb_fileReader sb) (writer_process pr b) = Some b"
  shows "serves sb (chunk_of cs ` set es) (\<lambda>k. freq_bytes (in_chunk cs k es)) (stream_of d)"
proof (rule serves_stream_chunks [OF assms(1) [unfolded freq_chunks_def] _ assms(4,5)])
  fix k assume k: "k \<in> chunk_of cs ` set es"
  have d64: "\<forall>e\<in>set es. en_doc e < 2 ^ 64"
    using entry_chunks [OF assms(2,3)] by blast
  show "k < num_chunks cs numDocs \<and>
      chunk_bytes cs (map (apsnd put_uvarints) (map freq_adds es)) k = freq_bytes (in_chunk cs k es) \<and>
      freq_bytes (in_chunk cs k es) \<noteq> []"
    unfolding chunk_ints_freq [OF d64] using k entry_chunks [OF assms(2,3)]
    by (auto simp: in_chunk_def filter_empty_conv)
qed

lemma locs_served:
  assumes "decoder_on (loc_chunks encode pr cs numDocs es) d" and "entries_ok numDocs es" and "0 < cs"
    and "\<And>b. sb_decode sb (encode b) = Some b"
    and "\<And>b. reader_process (sb_fileReader sb) (writer_process pr b) = Some b"
    and "locs_uniform cs es" and "locs_bytes es \<noteq> []"
  shows "serves sb (chunk_of cs ` set es) (\<lambda>k. locs_bytes (in_chunk cs k es)) (stream_of d)"
proof (rule serves_stream_chunks [OF assms(1) [unfolded loc_chunks_def] _ assms(4,5)])
  fix k assume k: "k \<in> chunk_of cs ` set es"
  have d64: "\<forall>e\<in>set es. en_doc e < 2 ^ 64"
    using entry_chunks [OF assms(2,3)] by blast
  have "\<exists>e'\<in>set es. chunk_of cs e' = k \<and> en_locs e' \<noteq> []"
    using assms(6,7) k by (auto simp: locs_uniform_def locs_bytes_Nil)
  then show "k < num_chunks cs numDocs \<and>
      chunk_bytes cs (map (apsnd put_uvarints) (concat (map loc_adds es))) k = locs_bytes (in_chunk cs k es) \<and>
      locs_bytes (in_chunk cs k es) \<noteq> []"
    unfolding chunk_ints_locs [OF d64] locs_bytes_Nil using k entry_chunks [OF assms(2,3)]
    by (auto simp: in_chunk_def)
qed

text \<open>The locations are small because the whole stream is.\<close>

lemma locs_small:
  assumes "term_small cs numDocs es" and "e \<in> set es"
  shows "sum_list (map loc_size (en_locs e)) < 2 ^ 63" and "l \<in> set (en_locs e) \<Longrightarrow> length (il_arrayposs l) < 2 ^ 63"
proof -
  have "sum_list (map loc_size (en_locs e)) \<le> length (locs_bytes es)"
    using sum_locs_le [of e] locs_bytes_le [OF assms(2)] by (rule le_trans)
  then show s: "sum_list (map loc_size (en_locs e)) < 2 ^ 63"
    using assms(1) by (simp add: term_small_def)
  assume "l \<in> set (en_locs e)"
  then have "length (il_arrayposs l) \<le> sum_list (map loc_size (en_locs e))"
    using loc_size_le arrayposs_le le_trans by blast
  then show "length (il_arrayposs l) < 2 ^ 63"
    using s by simp
qed

text \<open>A term that can be read is read as it should be by a fresh iterator.\<close>

lemma readable_runs:
  assumes "readable sb cs es FS LS incLocs" and "pi_clean i = (exc = None)"
    and "pl_postings (pi_postings i) = Some (map en_doc es)" and "pl_chunkSize (pi_postings i) = cs"
    and "pi_normBits1Hit i = 0" and "pi_includeFreqNorm i" and "pi_includeLocs i = incLocs"
    and "pi_freqNormReader i = Some fd" and "stream_of fd = FS" and "id_curChunkBytes fd = []"
    and "incLocs \<longrightarrow> (\<exists>d. pi_locReader i = Some d \<and> stream_of d = LS)"
    and "pi_all i = map en_doc es" and "pi_Actual i = Some (filter (\<lambda>n. \<not> excepted exc n) (map en_doc es))"
    and "\<forall>a. Some a \<in> set ms \<longrightarrow> unat a < 2 ^ 32"
  shows "read_all sb ms i = Inr (map (map_option (posting_of (sb_fieldsInv sb) incLocs)) (picks exc ms es))"
proof -
  obtain t where t: "rt_sb t = sb" "rt_cs t = cs" "rt_es t = es" "rt_FS t = FS" "rt_LS t = LS" "rt_incLocs t = incLocs"
    by (rule rt_exists [OF assms(1)])
  have "rt.base t exc i"
    unfolding rt.base_def unfolding t using assms(2-5) by simp
  moreover have "rt.readers t i"
    unfolding rt.readers_def reader_of_def unfolding t using assms(5-9,11) by blast
  moreover have "\<forall>k. \<not> at_chunk k i"
    using assms(8,10) by (simp add: at_chunk_def int_decoder_is_nil_def)
  ultimately have "rt.cursor t exc (rt_es t) i"
    using assms(12,13) by (intro rt.fresh_cursor) (simp_all add: t(3))
  from rt.read_all_cursor [OF this assms(14)] show ?thesis
    unfolding t .
qed

text \<open>The segment that has a file's bytes.\<close>

definition segment_of ::
  "bytes \<Rightarrow> reader_processor \<Rightarrow> 32 word \<Rightarrow> u64 \<Rightarrow> string list \<Rightarrow> (bytes \<Rightarrow> bytes option) \<Rightarrow>
   (bytes \<Rightarrow> nat list option) \<Rightarrow> segment_base" where
  "segment_of mem fr mode numDocs fieldsInv decode fromBuffer =
     \<lparr>sb_mem = mem, sb_fileReader = fr, sb_chunkMode = mode, sb_numDocs = numDocs, sb_fieldsInv = fieldsInv,
      sb_decode = decode, sb_fromBuffer = fromBuffer\<rparr>"

text \<open>Looking the term up, opening an iterator and running it.\<close>

definition read_term ::
  "segment_base \<Rightarrow> u64 \<Rightarrow> nat list option \<Rightarrow> bool \<Rightarrow> u64 option list \<Rightarrow> (zap_error, posting option list) result" where
  "read_term sb off exc incLocs ms =
     bind_result (postings_list_from_offset sb off exc) (\<lambda>pl.
       bind_result (init_iterator sb pl True True incLocs None) (read_all sb ms))"

text \<open>What \<open>read_term\<close> starts from: the list and the iterator that are opened on the writer's layout.\<close>

definition opened_list :: "u64 \<Rightarrow> u64 \<Rightarrow> u64 \<Rightarrow> u64 \<Rightarrow> entry list \<Rightarrow> nat list option \<Rightarrow> postings_list" where
  "opened_list freqOff locOff impOff cs es exc =
     \<lparr>pl_freqOffset = freqOff, pl_locOffset = locOff, pl_impactOffset = impOff,
      pl_postings = Some (map en_doc es), pl_except = exc, pl_docNum1Hit = 0, pl_normBits1Hit = 0, pl_chunkSize = cs\<rparr>"

definition opened_iterator ::
  "postings_list \<Rightarrow> entry list \<Rightarrow> nat list option \<Rightarrow> bool \<Rightarrow> int_decoder \<Rightarrow> int_decoder \<Rightarrow> postings_iterator" where
  "opened_iterator pl es exc incLocs fd ld = \<lparr>pi_postings = pl, pi_all = map en_doc es,
      pi_Actual = Some (filter (\<lambda>n. \<not> excepted exc n) (map en_doc es)), pi_clean = (exc = None), pi_currChunk = 0,
      pi_freqNormReader = Some fd, pi_locReader = (if incLocs then Some ld else None), pi_docNum1Hit = 0,
      pi_normBits1Hit = 0, pi_includeFreqNorm = True, pi_includeLocs = incLocs\<rparr>"

lemma term_opens:
  fixes out imp rest roaring encode pr cs numDocs impOff and es :: "entry list"
  defines "tf \<equiv> out @ stream_bytes (freq_chunks encode pr cs numDocs es)"
  defines "lc \<equiv> (if locs_bytes es = [] then tf @ imp else (tf @ imp) @ stream_bytes (loc_chunks encode pr cs numDocs es))"
  defines "bitmap \<equiv> writer_process pr (roaring (map en_doc es))"
  defines "lo \<equiv> (if locs_bytes es = [] then termNotEncoded else of_nat (length (tf @ imp)))"
  defines "mem \<equiv> (lc @ put_uvarint (of_nat (length out)) @ put_uvarint lo @
      put_uvarint impOff @ put_uvarint (of_nat (length bitmap)) @ bitmap) @ rest"
  assumes small: "term_small cs numDocs es"
    and cs: "get_chunk_size mode (of_nat (length es)) numDocs = Inr cs"
    and dec: "\<And>b. reader_process fr (writer_process pr b) = Some b"
      "fromBuffer (roaring (map en_doc es)) = Some (map en_doc es)"
    and out: "out \<noteq> []" and rest: "maxVarintLen64 \<le> length rest" and fits: "fits mem"
  obtains fd ld where "decoder_on (freq_chunks encode pr cs numDocs es) fd" and "id_curChunkBytes fd = []"
    and "locs_bytes es = [] \<longrightarrow> id_startOffset ld = termNotEncoded"
    and "locs_bytes es \<noteq> [] \<longrightarrow> decoder_on (loc_chunks encode pr cs numDocs es) ld"
    and "\<forall>exc incLocs ms. read_term (segment_of mem fr mode numDocs fieldsInv decode fromBuffer) (of_nat (length lc)) exc incLocs ms =
      read_all (segment_of mem fr mode numDocs fieldsInv decode fromBuffer) ms
        (opened_iterator (opened_list (of_nat (length out)) lo impOff cs es exc) es exc incLocs fd ld)"
proof -
  let ?sb = "segment_of mem fr mode numDocs fieldsInv decode fromBuffer"
  have sb: "sb_mem ?sb = mem" "sb_fileReader ?sb = fr" "sb_chunkMode ?sb = mode" "sb_numDocs ?sb = numDocs"
      "sb_fromBuffer ?sb = fromBuffer"
    by (simp_all add: segment_of_def)
  have len: "length lc < 2 ^ 63"
    using fits by (simp add: fits_def mem_def)
  have pl: "postings_list_from_offset ?sb (of_nat (length lc)) exc = Inr (opened_list (of_nat (length out)) lo impOff cs es exc)" for exc
    unfolding opened_list_def
  proof (rule postings_list_read_at)
    show "drop (length lc) (sb_mem ?sb) = put_uvarint (of_nat (length out)) @ put_uvarint lo @ put_uvarint impOff @
        put_uvarint (of_nat (length bitmap)) @ bitmap @ rest"
      unfolding sb by (simp add: mem_def)
    show "reader_process (sb_fileReader ?sb) bitmap = Some (roaring (map en_doc es))"
      unfolding sb bitmap_def by (rule dec(1))
  qed (use fits rest len dec(2) cs in \<open>simp_all add: sb\<close>)
  have n: "num_chunks cs numDocs < 2 ^ 63"
    using small by (simp add: term_small_def)
  obtain fd where fd: "new_int_decoder mem (of_nat (length out)) None = Inr fd"
      "decoder_on (freq_chunks encode pr cs numDocs es) fd" "id_curChunkBytes fd = []"
  proof (rule new_int_decoder_on [OF fits, of "length out" "freq_chunks encode pr cs numDocs es" _ None])
    show "drop (length out) mem = stream_bytes (freq_chunks encode pr cs numDocs es) @
        drop (length tf) mem"
      by (simp add: mem_def lc_def tf_def)
    show "maxVarintLen64 \<le> length (drop (length tf) mem)"
      using rest by (simp add: mem_def lc_def tf_def)
  qed (use n out in \<open>simp_all add: freq_chunks_def\<close>)
  obtain ld where ld: "new_int_decoder mem lo None = Inr ld"
      "locs_bytes es = [] \<longrightarrow> id_startOffset ld = termNotEncoded"
      "locs_bytes es \<noteq> [] \<longrightarrow> decoder_on (loc_chunks encode pr cs numDocs es) ld"
  proof (cases "locs_bytes es = []")
    case True
    obtain ld where ld: "new_int_decoder mem termNotEncoded None = Inr ld"
      by (simp add: new_int_decoder_def)
    then show ?thesis
      using True new_int_decoder_none by (intro that [of ld]) (simp_all add: lo_def)
  next
    case False
    obtain ld where ld: "new_int_decoder mem (of_nat (length (tf @ imp))) None = Inr ld"
        "decoder_on (loc_chunks encode pr cs numDocs es) ld"
    proof (rule new_int_decoder_on [OF fits, of "length (tf @ imp)" "loc_chunks encode pr cs numDocs es" _ None])
      show "drop (length (tf @ imp)) mem = stream_bytes (loc_chunks encode pr cs numDocs es) @ drop (length lc) mem"
        using False by (simp add: mem_def lc_def)
      show "maxVarintLen64 \<le> length (drop (length lc) mem)"
        using rest by (simp add: mem_def)
    qed (use n out in \<open>simp_all add: loc_chunks_def tf_def\<close>)
    then show ?thesis
      using False by (intro that [of ld]) (simp_all add: lo_def)
  qed
  have i: "init_iterator ?sb (opened_list (of_nat (length out)) lo impOff cs es exc) True True incLocs None =
      Inr (opened_iterator (opened_list (of_nat (length out)) lo impOff cs es exc) es exc incLocs fd ld)" for exc incLocs
    using fd(1) ld(1) by (simp add: init_iterator_def opened_list_def opened_iterator_def sb)
  show ?thesis
    by (rule that [OF fd(2,3) ld(2,3)]) (simp add: read_term_def pl i)
qed

lemma read_term_laid_out:
  fixes out imp rest roaring encode pr cs numDocs impOff and es :: "entry list"
  defines "tf \<equiv> out @ stream_bytes (freq_chunks encode pr cs numDocs es)"
  defines "lc \<equiv> (if locs_bytes es = [] then tf @ imp else (tf @ imp) @ stream_bytes (loc_chunks encode pr cs numDocs es))"
  defines "bitmap \<equiv> writer_process pr (roaring (map en_doc es))"
  defines "mem \<equiv> (lc @ put_uvarint (of_nat (length out)) @
      put_uvarint (if locs_bytes es = [] then termNotEncoded else of_nat (length (tf @ imp))) @
      put_uvarint impOff @ put_uvarint (of_nat (length bitmap)) @ bitmap) @ rest"
  assumes ok: "entries_ok numDocs es" and small: "term_small cs numDocs es" and num: "unat numDocs < 2 ^ 32"
    and cs: "get_chunk_size mode (of_nat (length es)) numDocs = Inr cs"
    and dec: "\<And>b. decode (encode b) = Some b" "\<And>b. reader_process fr (writer_process pr b) = Some b"
      "fromBuffer (roaring (map en_doc es)) = Some (map en_doc es)"
    and out: "out \<noteq> []" and rest: "maxVarintLen64 \<le> length rest" and fits: "fits mem"
    and locs: "incLocs \<longrightarrow> locs_uniform cs es \<and> (\<forall>e\<in>set es. \<forall>l\<in>set (en_locs e). unat (il_fieldID l) < length fieldsInv)"
    and ms: "\<forall>a. Some a \<in> set ms \<longrightarrow> unat a < 2 ^ 32"
  shows "read_term (segment_of mem fr mode numDocs fieldsInv decode fromBuffer) (of_nat (length lc)) exc incLocs ms =
    Inr (map (map_option (posting_of fieldsInv incLocs)) (picks exc ms es))"
proof -
  let ?sb = "segment_of mem fr mode numDocs fieldsInv decode fromBuffer"
  have sb: "sb_fileReader ?sb = fr" "sb_fieldsInv ?sb = fieldsInv" "sb_decode ?sb = decode"
    by (simp_all add: segment_of_def)
  obtain fd ld where fd: "decoder_on (freq_chunks encode pr cs numDocs es) fd" "id_curChunkBytes fd = []"
    and ld: "locs_bytes es = [] \<longrightarrow> id_startOffset ld = termNotEncoded"
      "locs_bytes es \<noteq> [] \<longrightarrow> decoder_on (loc_chunks encode pr cs numDocs es) ld"
    and run: "\<forall>exc incLocs ms. read_term ?sb (of_nat (length lc)) exc incLocs ms = read_all ?sb ms
      (opened_iterator (opened_list (of_nat (length out)) (if locs_bytes es = [] then termNotEncoded else of_nat (length (tf @ imp)))
        impOff cs es exc) es exc incLocs fd ld)"
    unfolding mem_def lc_def tf_def bitmap_def
    by (rule term_opens [where roaring = roaring and encode = encode and fr = fr and pr = pr and fromBuffer = fromBuffer
        and out = out and imp = imp and impOff = impOff and rest = rest,
        OF small cs dec(2,3) out rest fits [unfolded mem_def lc_def tf_def bitmap_def]])
  have pos: "0 < cs"
    by (rule get_chunk_size_pos [OF cs])
  have ls: "serves ?sb (chunk_of cs ` set es) (\<lambda>k. locs_bytes (in_chunk cs k es)) (stream_of ld)" if incLocs
  proof (cases "locs_bytes es = []")
    case True
    then show ?thesis
      using ld(1) by (intro serves_none) (simp_all add: locs_bytes_Nil in_chunk_def)
  next
    case False
    then have d: "decoder_on (loc_chunks encode pr cs numDocs es) ld"
      using ld(2) by simp
    show ?thesis
      using locs that by (intro locs_served [OF d ok pos _ _ _ False]) (simp_all add: dec sb)
  qed
  have fs: "serves ?sb (chunk_of cs ` set es) (\<lambda>k. freq_bytes (in_chunk cs k es)) (stream_of fd)"
    by (rule freq_served [OF fd(1) ok pos]) (simp_all add: dec sb)
  have read: "readable ?sb cs es (stream_of fd) (stream_of ld) incLocs"
    unfolding readable_def
    using ok fs ls chunk_size_32 [OF cs num] pos locs locs_small [OF small]
    by (auto simp: entries_ok_def word_less_nat_alt sb)
  let ?i = "opened_iterator (opened_list (of_nat (length out))
      (if locs_bytes es = [] then termNotEncoded else of_nat (length (tf @ imp))) impOff cs es exc) es exc incLocs fd ld"
  have "read_all ?sb ms ?i = Inr (map (map_option (posting_of (sb_fieldsInv ?sb) incLocs)) (picks exc ms es))"
    by (rule readable_runs [OF read, where fd = fd]) (use fd(2) ms in \<open>simp_all add: opened_iterator_def opened_list_def\<close>)
  then show ?thesis
    using run by (simp add: sb)
qed

lemma new_int_coder_idle: "new_int_coder cs maxDoc = Inr c \<Longrightarrow> coder_idle c"
  by (auto simp: new_int_coder_def coder_idle_def split: sum.splits)

text \<open>
  C10: The postings of a term that a segment writes are read back: from the offset that is put in the
  dictionary, and whatever the segment's bytes behind are, any mixture of \<open>Next\<close> and \<open>Advance\<close> returns
  the first posting left at or above the number that is not excepted, with its frequency, norm and
  locations, and nothing when there is none, whatever compression, chunk mode and inverse callbacks
  are in use, whether the iterator searches sequentially, sparsely or densely, and whether documents
  are deleted. Locations can be read where every chunk with documents has some, or none has. The
  coders may be new or left by the term before, and are ready for the next one.
\<close>

theorem postings_round:
  assumes "entries_ok numDocs es" and "es \<noteq> []" and "unat numDocs < 2 ^ 32"
    and "get_chunk_size mode (of_nat (length es)) numDocs = Inr cs" and "term_small cs numDocs es"
    and "coder_idle (cd_tf c)" and "coder_idle (cd_loc c)" and "out \<noteq> []"
    and "\<And>b. decode (encode b) = Some b" and "\<And>b. reader_process fr (writer_process pr b) = Some b"
    and "fromBuffer (roaring (map en_doc es)) = Some (map en_doc es)"
  shows "\<exists>off out' c'. write_term encode roaring pr mode numDocs (map en_doc es) (map entry_freq_norm es)
      (concat (map en_locs es)) c out = Inr (off, out', c') \<and> coder_idle (cd_tf c') \<and> coder_idle (cd_loc c') \<and>
    (\<forall>rest fieldsInv exc incLocs ms. maxVarintLen64 \<le> length rest \<longrightarrow> fits (out' @ rest) \<longrightarrow>
      (incLocs \<longrightarrow> locs_uniform cs es \<and>
        (\<forall>e\<in>set es. \<forall>l\<in>set (en_locs e). unat (il_fieldID l) < length fieldsInv)) \<longrightarrow>
      (\<forall>a. Some a \<in> set ms \<longrightarrow> unat a < 2 ^ 32) \<longrightarrow>
      read_term (segment_of (out' @ rest) fr mode numDocs fieldsInv decode fromBuffer) off exc incLocs ms =
        Inr (map (map_option (posting_of fieldsInv incLocs)) (picks exc ms es)))"
proof -
  have "length es \<le> unat numDocs"
    using sorted_below [of "map en_doc es" "unat numDocs"] assms(1) by (simp add: entries_ok_def)
  then have card: "length es < 2 ^ 64"
    using assms(3) by simp
  obtain impOff imp c' where w: "let tf = out @ stream_bytes (freq_chunks encode pr cs numDocs es); im = tf @ imp;
         lc = (if locs_bytes es = [] then im else im @ stream_bytes (loc_chunks encode pr cs numDocs es));
         bitmap = writer_process pr (roaring (map en_doc es))
     in write_term encode roaring pr mode numDocs (map en_doc es) (map entry_freq_norm es)
          (concat (map en_locs es)) c out =
        Inr (of_nat (length lc),
             lc @ put_uvarint (of_nat (length out)) @
               put_uvarint (if locs_bytes es = [] then termNotEncoded else of_nat (length im)) @
               put_uvarint impOff @ put_uvarint (of_nat (length bitmap)) @ bitmap, c')"
      "coder_idle (cd_tf c')" "coder_idle (cd_loc c')"
    by (rule write_term_layout [OF assms(1,2,6,7,4,5) card])
  note runs = read_term_laid_out [where roaring = roaring and encode = encode and decode = decode and fr = fr and pr = pr
      and fromBuffer = fromBuffer and out = out and imp = imp and impOff = impOff, OF assms(1,5,3,4,9,10,11,8)]
  show ?thesis
    by (rule exI, rule exI, rule exI, rule conjI, rule w(1) [unfolded Let_def], intro conjI w(2,3) allI impI, rule runs)
qed

definition sample_entries :: "entry list" where
  "sample_entries =
     [\<lparr>en_doc = 0, en_freq = 2, en_norm = 7,
       en_locs = [\<lparr>il_fieldID = 0, il_pos = 1, il_start = 0, il_end = 3, il_arrayposs = []\<rparr>]\<rparr>,
      \<lparr>en_doc = 3, en_freq = 1, en_norm = 9,
       en_locs = [\<lparr>il_fieldID = 0, il_pos = 2, il_start = 4, il_end = 6, il_arrayposs = [5]\<rparr>]\<rparr>]"

definition sample_coders :: coders where
  "sample_coders = (let c = \<lparr>ic_final = [], ic_chunkSize = 1024, ic_chunkBuf = [], ic_chunkArr = [0], ic_chunkCount = 1,
       ic_currChunk = 0, ic_bytesWritten = 0\<rparr>
     in \<lparr>cd_tf = c, cd_loc = c, cd_impact = impact_coder_reset 0\<rparr>)"

lemma sample_written:
  "case write_term (\<lambda>b. b) (map of_nat) None 2 4 (map en_doc sample_entries) (map entry_freq_norm sample_entries)
      (concat (map en_locs sample_entries)) sample_coders [9] of Inr (off, out', c') \<Rightarrow> length out' < 100 | Inl e \<Rightarrow> False"
  by code_simp

lemma sample_ok:
  "entries_ok 4 sample_entries" "locs_uniform 2 sample_entries" "coder_idle (cd_tf sample_coders)"
  "coder_idle (cd_loc sample_coders)" "get_chunk_size 2 (of_nat (length sample_entries)) 4 = Inr 2"
  by (simp_all add: entries_ok_def locs_uniform_def coder_idle_def sample_entries_def sample_coders_def chunk_of_def
      get_chunk_size_def Let_def)

lemma sample_small: "term_small 2 4 sample_entries"
proof -
  have "num_chunks 2 4 = 2" "length (freq_bytes sample_entries) < 100" "length (locs_bytes sample_entries) < 100"
    by code_simp+
  then show ?thesis by (simp add: term_small_def)
qed

theorem postings_round_witness:
  "\<exists>off out' c'. write_term (\<lambda>b. b) (map of_nat) None 2 4 (map en_doc sample_entries)
      (map entry_freq_norm sample_entries) (concat (map en_locs sample_entries)) sample_coders [9] = Inr (off, out', c') \<and>
    read_term (segment_of (out' @ replicate 10 0) None 2 4 [''body''] Some (\<lambda>b. Some (map unat b))) off
      (Some [0]) True [None, Some 2] =
      Inr [Some \<lparr>po_docNum = 3, po_freq = 1, po_norm = 9,
        po_locs = [\<lparr>lo_field = ''body'', lo_pos = 2, lo_start = 4, lo_end = 6, lo_ap = [5]\<rparr>]\<rparr>, None]"
proof -
  have bitmap: "Some (map unat (map of_nat (map en_doc sample_entries) :: bytes)) = Some (map en_doc sample_entries)"
    by (simp add: sample_entries_def)
  have id: "reader_process None (writer_process None b) = Some b" for b
    by (simp add: reader_process_def writer_process_def)
  obtain off out' c' where w: "write_term (\<lambda>b. b) (map of_nat) None 2 4 (map en_doc sample_entries)
      (map entry_freq_norm sample_entries) (concat (map en_locs sample_entries)) sample_coders [9] = Inr (off, out', c')"
    and r: "\<forall>rest fieldsInv exc incLocs ms. maxVarintLen64 \<le> length rest \<longrightarrow> fits (out' @ rest) \<longrightarrow>
      (incLocs \<longrightarrow> locs_uniform 2 sample_entries \<and>
        (\<forall>e\<in>set sample_entries. \<forall>l\<in>set (en_locs e). unat (il_fieldID l) < length fieldsInv)) \<longrightarrow>
      (\<forall>a. Some a \<in> set ms \<longrightarrow> unat a < 2 ^ 32) \<longrightarrow>
      read_term (segment_of (out' @ rest) None 2 4 fieldsInv Some (\<lambda>b. Some (map unat b))) off exc incLocs ms =
        Inr (map (map_option (posting_of fieldsInv incLocs)) (picks exc ms sample_entries))"
    using postings_round [OF sample_ok(1) _ _ sample_ok(5) sample_small sample_ok(3,4), where out = "[9]" and
        encode = "\<lambda>b. b" and decode = Some and pr = None and fr = None and roaring = "map of_nat" and
        fromBuffer = "\<lambda>b. Some (map unat b)"] id bitmap
    by (auto simp: sample_entries_def)
  have "length out' < 100"
    using sample_written w by simp
  then have "fits (out' @ replicate 10 0)"
    by (simp add: fits_def)
  moreover have "\<forall>e\<in>set sample_entries. \<forall>l\<in>set (en_locs e). unat (il_fieldID l) < length [''body'']"
    by (simp add: sample_entries_def)
  ultimately have "read_term (segment_of (out' @ replicate 10 0) None 2 4 [''body''] Some (\<lambda>b. Some (map unat b))) off
      (Some [0]) True [None, Some 2] =
      Inr (map (map_option (posting_of [''body''] True)) (picks (Some [0]) [None, Some 2] sample_entries))"
    using sample_ok(2) by (intro r [rule_format]) (auto simp: maxVarintLen64_def)
  also have "map (map_option (posting_of [''body''] True)) (picks (Some [0]) [None, Some 2] sample_entries) =
      [Some \<lparr>po_docNum = 3, po_freq = 1, po_norm = 9,
        po_locs = [\<lparr>lo_field = ''body'', lo_pos = 2, lo_start = 4, lo_end = 6, lo_ap = [5]\<rparr>]\<rparr>, None]"
    by (simp add: sample_entries_def seek_def excepted_def posting_of_def location_of_def)
  finally show ?thesis
    using w by blast
qed

section \<open>Chunks without locations\<close>

lemma first_chunk_fails:
  assumes "entries_ok numDocs (e # es)" and "0 < cs" and "unat cs < 2 ^ 32"
    and "decoder_on (freq_chunks encode pr cs numDocs (e # es)) fd" and "id_curChunkBytes fd = []"
    and "decoder_on (loc_chunks encode pr cs numDocs (e # es)) ld"
    and "\<And>b. sb_decode sb (encode b) = Some b" and "sb_fileReader sb = None" and "pr = None"
    and "\<forall>x\<in>set (e # es). chunk_of cs x = chunk_of cs e \<longrightarrow> en_locs x = []"
  shows "iterator_next sb (opened_iterator (opened_list a b c cs (e # es) None) (e # es) None True fd ld) =
    Inl (ChunkEmpty (chunk_of cs e))"
proof -
  let ?k = "chunk_of cs e" and ?es = "e # es"
  let ?i = "opened_iterator (opened_list a b c cs ?es None) ?es None True fd ld"
  have k: "?k < num_chunks cs numDocs" and d64: "\<forall>x\<in>set ?es. en_doc x < 2 ^ 64"
    using entry_chunks [OF assms(1,2)] by auto
  have "serves sb (chunk_of cs ` set ?es) (\<lambda>k. freq_bytes (in_chunk cs k ?es)) (stream_of fd)"
    by (rule freq_served [OF assms(4,1,2)]) (simp_all add: assms(7,8,9) reader_process_def writer_process_def)
  then obtain fd' where fd': "load_chunk (sb_decode sb) (sb_fileReader sb) ?k fd = Inr fd'"
    unfolding serves_def by auto
  have "locs_bytes (in_chunk cs ?k ?es) = []"
    unfolding locs_bytes_Nil using assms(10) by (auto simp: in_chunk_def)
  then have "loc_chunks encode pr cs numDocs ?es ! ?k = []"
    using k unfolding loc_chunks_def by (simp only: nth_stream_chunks chunk_ints_locs [OF d64]) simp
  then have ld': "load_chunk (sb_decode sb) (sb_fileReader sb) ?k ld = Inl (ChunkEmpty ?k)"
    using load_chunk_empty [OF assms(6)] k assms(8) by (simp add: loc_chunks_def)
  let ?j = "?i\<lparr>pi_Actual := Some (map en_doc es)\<rparr>"
  have load: "iterator_load_chunk sb ?k ?j = Inl (ChunkEmpty ?k)"
    using fd' ld' by (simp add: iterator_load_chunk_def load_chunk_reader_def with_reader_def opened_iterator_def)
  have fields: "pi_freqNormReader ?j = Some fd" "pi_includeFreqNorm ?i" "pi_clean ?i" "pi_normBits1Hit ?i = 0"
      "pi_Actual ?i = Some (en_doc e # map en_doc es)" "pl_chunkSize (pi_postings ?i) = cs"
    by (simp_all add: opened_iterator_def opened_list_def)
  have ens: "ensure_chunk sb ?k ?j = Inl (ChunkEmpty ?k)"
    unfolding ensure_chunk_def with_reader_def load fields(1) by (simp add: int_decoder_is_nil_def assms(5))
  have cs: "cs \<noteq> 0" "chunk_size32 ?i = unat cs" "unat cs \<noteq> 0"
    using assms(2,3) fields(6)
    by (auto simp: chunk_size32_def uint32_def unsigned_ucast_eq take_bit_nat_eq_self unat_eq_0)
  have "next_doc_num_clean sb 0 ?i = Inl (ChunkEmpty ?k)"
    unfolding next_doc_num_clean_def fields(5,6) cs(2) option.sel list.case
    using fields(2) cs(1,3) ens by (simp add: chunk_of_def)
  then show ?thesis
    using fields(3-5) by (simp add: iterator_next_def next_at_or_after_def next_doc_num_at_or_after_def)
qed

text \<open>
  C11: A term whose first chunk with documents has no location although another chunk has some is
  written without an error, but it cannot be read with locations: the first \<open>Next\<close> fails with the
  error of an empty chunk, since a chunk without integers is stored with length zero, which the
  decoder takes for a damaged file.
\<close>

theorem chunk_without_locations_fails:
  assumes "entries_ok numDocs (e # es)" and "unat numDocs < 2 ^ 32"
    and "get_chunk_size mode (of_nat (length (e # es))) numDocs = Inr cs" and "term_small cs numDocs (e # es)"
    and "coder_idle (cd_tf c)" and "coder_idle (cd_loc c)" and "out \<noteq> []"
    and "\<And>b. decode (encode b) = Some b" and "fromBuffer (roaring (map en_doc (e # es))) = Some (map en_doc (e # es))"
    and "\<forall>x\<in>set (e # es). chunk_of cs x = chunk_of cs e \<longrightarrow> en_locs x = []"
    and "x \<in> set es" and "en_locs x \<noteq> []"
  shows "\<exists>off out' c'. write_term encode roaring None mode numDocs (map en_doc (e # es)) (map entry_freq_norm (e # es))
      (concat (map en_locs (e # es))) c out = Inr (off, out', c') \<and>
    (\<forall>rest fieldsInv ms. maxVarintLen64 \<le> length rest \<longrightarrow> fits (out' @ rest) \<longrightarrow>
      read_term (segment_of (out' @ rest) None mode numDocs fieldsInv decode fromBuffer) off None True (None # ms) =
        Inl (ChunkEmpty (chunk_of cs e)))"
proof -
  let ?es = "e # es"
  have "length ?es \<le> unat numDocs"
    using sorted_below [of "map en_doc ?es" "unat numDocs"] assms(1) by (simp add: entries_ok_def)
  then have card: "length ?es < 2 ^ 64"
    using assms(2) by simp
  have id: "reader_process None (writer_process None b) = Some b" for b
    by (simp add: reader_process_def writer_process_def)
  have locs: "locs_bytes ?es \<noteq> []"
    unfolding locs_bytes_Nil using assms(11,12) by auto
  have pos: "0 < cs"
    by (rule get_chunk_size_pos [OF assms(3)])
  obtain impOff imp c' where w: "let tf = out @ stream_bytes (freq_chunks encode None cs numDocs ?es); im = tf @ imp;
         lc = (if locs_bytes ?es = [] then im else im @ stream_bytes (loc_chunks encode None cs numDocs ?es));
         bitmap = writer_process None (roaring (map en_doc ?es))
     in write_term encode roaring None mode numDocs (map en_doc ?es) (map entry_freq_norm ?es)
          (concat (map en_locs ?es)) c out =
        Inr (of_nat (length lc),
             lc @ put_uvarint (of_nat (length out)) @
               put_uvarint (if locs_bytes ?es = [] then termNotEncoded else of_nat (length im)) @
               put_uvarint impOff @ put_uvarint (of_nat (length bitmap)) @ bitmap, c')"
    by (rule write_term_layout [OF assms(1) _ assms(5,6,3,4) card]) simp_all
  note opens = term_opens [where roaring = roaring and encode = encode and fr = None and pr = None and
      fromBuffer = fromBuffer and out = out and imp = imp and impOff = impOff and decode = decode,
      OF assms(4,3) id assms(9,7)]
  show ?thesis
  proof (rule exI, rule exI, rule exI, rule conjI, rule w [unfolded Let_def], intro allI impI)
    fix rest fieldsInv ms
    let ?lc = "if locs_bytes ?es = [] then (out @ stream_bytes (freq_chunks encode None cs numDocs ?es)) @ imp
      else ((out @ stream_bytes (freq_chunks encode None cs numDocs ?es)) @ imp) @
        stream_bytes (loc_chunks encode None cs numDocs ?es)"
    let ?lo = "if locs_bytes ?es = [] then termNotEncoded
      else of_nat (length ((out @ stream_bytes (freq_chunks encode None cs numDocs ?es)) @ imp))"
    let ?mem = "(?lc @ put_uvarint (of_nat (length out)) @ put_uvarint ?lo @ put_uvarint impOff @
      put_uvarint (of_nat (length (writer_process None (roaring (map en_doc ?es))))) @
      writer_process None (roaring (map en_doc ?es))) @ rest"
    let ?sb = "segment_of ?mem None mode numDocs fieldsInv decode fromBuffer"
    assume rest: "maxVarintLen64 \<le> length rest" and fits: "fits ?mem"
    obtain fd ld where fd: "decoder_on (freq_chunks encode None cs numDocs ?es) fd" "id_curChunkBytes fd = []"
      and ld: "locs_bytes ?es = [] \<longrightarrow> id_startOffset ld = termNotEncoded"
        "locs_bytes ?es \<noteq> [] \<longrightarrow> decoder_on (loc_chunks encode None cs numDocs ?es) ld"
      and run: "\<forall>exc incLocs ms. read_term ?sb (of_nat (length ?lc)) exc incLocs ms =
        read_all ?sb ms (opened_iterator (opened_list (of_nat (length out)) ?lo impOff cs ?es exc) ?es exc incLocs fd ld)"
      by (rule opens [OF rest fits, of fieldsInv])
    have sb: "sb_decode ?sb = decode" "sb_fileReader ?sb = None"
      by (simp_all add: segment_of_def)
    have l: "decoder_on (loc_chunks encode None cs numDocs ?es) ld"
      using locs ld(2) by simp
    have "iterator_next ?sb (opened_iterator (opened_list (of_nat (length out)) ?lo impOff cs ?es None) ?es None True fd ld) =
        Inl (ChunkEmpty (chunk_of cs e))"
      by (rule first_chunk_fails [OF assms(1) pos chunk_size_32 [OF assms(3,2)] fd l _ sb(2) refl assms(10)])
        (unfold sb, rule assms(8))
    then show "read_term ?sb (of_nat (length ?lc)) None True (None # ms) = Inl (ChunkEmpty (chunk_of cs e))"
      using run by simp
  qed
qed

definition sample_mixed :: "entry list" where
  "sample_mixed =
     [\<lparr>en_doc = 0, en_freq = 2, en_norm = 7, en_locs = []\<rparr>,
      \<lparr>en_doc = 3, en_freq = 1, en_norm = 9,
       en_locs = [\<lparr>il_fieldID = 0, il_pos = 2, il_start = 4, il_end = 6, il_arrayposs = [5]\<rparr>]\<rparr>]"

lemma sample_mixed_written:
  "case write_term (\<lambda>b. b) (map of_nat) None 2 4 (map en_doc sample_mixed) (map entry_freq_norm sample_mixed)
      (concat (map en_locs sample_mixed)) sample_coders [9] of Inr (off, out', c') \<Rightarrow> length out' < 100 | Inl e \<Rightarrow> False"
  by code_simp

lemma sample_mixed_small: "term_small 2 4 sample_mixed"
proof -
  have "num_chunks 2 4 = 2" "length (freq_bytes sample_mixed) < 100" "length (locs_bytes sample_mixed) < 100"
    by code_simp+
  then show ?thesis by (simp add: term_small_def)
qed

theorem chunk_without_locations_fails_witness:
  "\<exists>off out' c'. write_term (\<lambda>b. b) (map of_nat) None 2 4 (map en_doc sample_mixed)
      (map entry_freq_norm sample_mixed) (concat (map en_locs sample_mixed)) sample_coders [9] = Inr (off, out', c') \<and>
    read_term (segment_of (out' @ replicate 10 0) None 2 4 [''body''] Some (\<lambda>b. Some (map unat b))) off None True [None] =
      Inl (ChunkEmpty 0)"
proof -
  obtain e x where mixed: "sample_mixed = [e, x]" and e: "en_doc e = 0" "en_locs e = []" and x: "en_doc x = 3" "en_locs x \<noteq> []"
    by (simp add: sample_mixed_def)
  have ok: "entries_ok 4 sample_mixed" "get_chunk_size 2 (of_nat (length sample_mixed)) 4 = Inr 2"
    by (simp_all add: entries_ok_def sample_mixed_def get_chunk_size_def)
  have bitmap: "Some (map unat (map of_nat (map en_doc sample_mixed) :: bytes)) = Some (map en_doc sample_mixed)"
    by (simp add: sample_mixed_def)
  have first: "\<forall>y\<in>set [e, x]. chunk_of 2 y = chunk_of 2 e \<longrightarrow> en_locs y = []"
    using e x by (simp add: chunk_of_def)
  have c: "chunk_of 2 e = 0"
    using e by (simp add: chunk_of_def)
  obtain off out' c' where w: "write_term (\<lambda>b. b) (map of_nat) None 2 4 (map en_doc [e, x])
      (map entry_freq_norm [e, x]) (concat (map en_locs [e, x])) sample_coders [9] = Inr (off, out', c')"
    and r: "\<forall>rest fieldsInv ms. maxVarintLen64 \<le> length rest \<longrightarrow> fits (out' @ rest) \<longrightarrow>
      read_term (segment_of (out' @ rest) None 2 4 fieldsInv Some (\<lambda>b. Some (map unat b))) off None True (None # ms) =
        Inl (ChunkEmpty (chunk_of 2 e))"
    using chunk_without_locations_fails [OF ok(1) [unfolded mixed] _ ok(2) [unfolded mixed] sample_mixed_small [unfolded mixed]
        sample_ok(3,4), where out = "[9]" and encode = "\<lambda>b. b" and decode = Some and roaring = "map of_nat" and
        fromBuffer = "\<lambda>b. Some (map unat b)" and x = x, OF _ _ _ bitmap [unfolded mixed] first]
      x(2) by auto
  have "length out' < 100"
    using sample_mixed_written w unfolding mixed by simp
  then have "fits (out' @ replicate 10 0)"
    by (simp add: fits_def)
  then have "read_term (segment_of (out' @ replicate 10 0) None 2 4 [''body''] Some (\<lambda>b. Some (map unat b))) off None True
      [None] = Inl (ChunkEmpty 0)"
    using r [rule_format, of "replicate 10 0"] by (simp add: maxVarintLen64_def c)
  then show ?thesis
    using w unfolding mixed by blast
qed

end
