(* ===== verification/Spec2Isabelle.thy ===== *)
theory Spec2Isabelle
  imports Collector Merge_Plan Lower_Reverse Ngrams Shingles Camel_Case Ascii_Folding Boolean_Runs Phrase_Searcher Index_Properties Deletion_Policy Zap_Postings_Round
begin

text \<open>
  \<^bold>\<open>Bluge, a full-text search library in Go.\<close> A program gives documents to a writer; analysis turns
  the text of their fields into tokens; the index builds a segment from a batch, keeps the segments
  in a root snapshot, merges and persists them in the background; a search runs a tree of searchers
  over the postings of a snapshot and a collector keeps the best hits. This development models the
  core of each of these parts and proves what makes it correct. It imports every theory, and holds
  no definitions of its own: the properties stand at the end of the theories named below.

  \<^bold>\<open>Conventions.\<close> A Go function that may return an error is a function into \<open>error + value\<close>
  (\<open>result\<close> of theory Prelude), a function that may only panic one into \<open>option\<close>, or a \<open>Panic\<close> error.
  Structs are records with the source's field names, pointers to values that are not shared are the
  values, mutated objects are passed and returned. Numbers have their width (\<open>64 word\<close>) where the code
  computes with bits or may overflow, elsewhere they are \<open>nat\<close> or \<open>int\<close>, and the theory says so.
  Roaring bitmaps are sets or ascending lists of numbers. Code that is not in the repository (snappy,
  roaring's bytes, callbacks of the user, tables of the package \<open>unicode\<close>, floating-point powers) is an
  argument, and what the code relies on is a hypothesis.

  \<^bold>\<open>Encodings.\<close> Prelude: shared types and lemmas. Numeric: \<open>numeric/bin.go\<close>, \<open>float.go\<close>,
  \<open>prefix_coded.go\<close>; round trips and order of the prefix-coded terms. Utf8: the runes and UTF-8 of Go.

  \<^bold>\<open>Analysis\<close> (package \<open>analysis\<close>). Analysis: tokens, rune helpers and term frequencies. Token_Filters,
  Lower_Reverse, Ngrams, Shingles, Camel_Case: the filters of \<open>analysis/token\<close>, one group of definitions
  per file, each with its functional specification (which tokens, at which positions, with which
  bytes); shingles are a refinement of cutting windows, in-place lowering is compared with a
  reference and its corruption is proved. Ascii_Folding: the folding table of \<open>analysis/char\<close>.

  \<^bold>\<open>The index.\<close> Inverted_Build: how a segment gathers the terms of its documents
  (\<open>internal/zapxtext/new.go\<close>, \<open>section_inverted_text_index.go\<close>). Introducer, Introducer_Store: the
  three introductions of \<open>index/introducer.go\<close> on a root (a batch, a persisted segment, a merge) and
  what a root stores. Index_System, Index_Runs: writers, merger, persister and introducer as a step
  relation whose runs interleave in any order, with its invariant by rule induction.
  Stored_Merge: renumbering at a merge. Index_Properties: the properties of the whole index, on the
  interpretations of the two locales (looking up terms, renumbering), among them what the persister
  writes to the disk beside a merge in memory. Deletion_Policy: which files may go (\<open>index/deletion.go\<close>). Merge_Plan: \<open>index/mergeplan\<close>, with termination of its loops.

  \<^bold>\<open>The segment format\<close> (\<open>internal/zapxtext\<close>). Zap_Varint: variable-length integers and slices of a file.
  Zap_Int_Coder: the chunked streams of integers (\<open>intcoder.go\<close>, \<open>intDecoder.go\<close>, \<open>chunk.go\<close>).
  Zap_Impact: the block impacts (\<open>impact.go\<close>). Zap_Postings: writing the postings of a term
  (\<open>writeDicts\<close>, \<open>writePostings\<close>) and reading them (\<open>posting.go\<close>); Zap_Postings_Write: what the file
  then holds; Zap_Postings_Read: the iterator's readers stay with its documents in every kind of search;
  Zap_Postings_Round: the round trip. Its locale is interpreted on the type of all terms that the
  writer's layout makes readable.

  \<^bold>\<open>Search\<close> (packages \<open>search\<close>, \<open>search/searcher\<close>, \<open>search/collector\<close>). Searcher: the contract of
  \<open>search.Searcher\<close> as a locale. Snapshot_Postings, Leaf_Searchers, Conjunction, Disjunction,
  Disjunction_Heap (over Go_Heap, the package \<open>container/heap\<close>) and Boolean_Searcher: the searchers, each
  proved to keep the contract when its children do. Composite_Runs, Boolean_Runs: the interpretations
  on the model's iterators and what running a query returns. Phrase_Paths: the paths of a phrase in
  the locations of a match, which are its occurrences within the slop; Phrase_Searcher: the searcher
  over them, with the contract and its runs. Numeric_Range: numeric range search down
  to the indexed terms. Search_Hits: matches and their order. Collector: the stores and collectors.

  \<^bold>\<open>Fuel and bounds.\<close> Loops that the code bounds by data are structural or have a measure. Loops that
  search on, of the composite and the phrase searchers and of the merge budget, are \<open>partial_function (option)\<close>:
  not returning is None, and the theorems about them show that they return. Only the reader of
  locations has fuel: it takes two turns more than there are bytes left, and a turn reads at least
  one byte. Sizes of segments in the merge planner have no 64-bit bound (with a maximal segment size
  that \<open>ValidateMergePlannerOptions\<close> accepts, the sums of a roster stay far below it). Sizes of
  streams are below \<open>2 ^ 63\<close> (a Go slice) and document numbers below \<open>2 ^ 32\<close> (a roaring bitmap) where
  a theorem says so.

  \<^bold>\<open>Not modelled.\<close> Pure input and output and the operating system: directories, locks, opening and
  closing, retries and watchers, statistics, sizes. Of the segment format: the term dictionary (an FST
  of the package vellum), stored fields, document values, the footer, synonyms, the byte-copying merge
  of inverted sections and its enumerator. Of search: the fuzzy, regular-expression, prefix, range, geo and
  multi-term searchers, scores (floating point), aggregations, highlighting, the query builders and the
  raw top-N path of the searchers. Language packages (stemmers and word lists), tokenizers and the other character filters;
  collections, vectors and multi-index search. Pools and prealloc arguments only recycle memory.
\<close>

end
